(* ===== verification/Prelude.thy ===== *)
theory Prelude
  imports Main "HOL-Library.Word"
begin

text \<open>
  Shared vocabulary of the development: Python exceptions as values, the sequencing
  combinators of code that may raise, and generic lemmas on lists and sums.

  An exception is modelled by its class; the formatted message is not.  A function
  that may raise returns \<open>exn + 'a\<close>: \<open>Inl e\<close> is the raised exception and
  \<open>Inr x\<close> the returned value.  \<open>rbind\<close> runs a statement and then the rest of the
  function body, \<open>rmap\<close> is a list comprehension whose element may raise and
  \<open>rfold\<close> a loop that threads a state and stops at the first exception.
\<close>

named_theorems result_simps \<open>sequencing of computations that may raise\<close>

datatype exn =
    ValueError | TypeError | RuntimeError | KeyError | IndexError | AssertionError
  | StructError | AttributeError | NotImplementedError | TimeoutError
  | ZeroDivisionError | FileExistsError | FileNotFoundError | SystemExit | NameError | OverflowError

type_synonym 'a result = "exn + 'a"

definition rbind :: "'a result \<Rightarrow> ('a \<Rightarrow> 'b result) \<Rightarrow> 'b result" where
  "rbind m f = (case m of Inl e \<Rightarrow> Inl e | Inr x \<Rightarrow> f x)"

fun rmap :: "('a \<Rightarrow> 'b result) \<Rightarrow> 'a list \<Rightarrow> 'b list result" where
  "rmap f [] = Inr []"
| "rmap f (x # xs) = rbind (f x) (\<lambda>y. rbind (rmap f xs) (\<lambda>ys. Inr (y # ys)))"

fun rfold :: "('s \<Rightarrow> 'a \<Rightarrow> 's result) \<Rightarrow> 's \<Rightarrow> 'a list \<Rightarrow> 's result" where
  "rfold f s [] = Inr s"
| "rfold f s (x # xs) = rbind (f s x) (\<lambda>s'. rfold f s' xs)"

definition returns :: "'a result \<Rightarrow> bool" where
  "returns m = (case m of Inl _ \<Rightarrow> False | Inr _ \<Rightarrow> True)"

lemma rbind_Inl [simp, result_simps]: "rbind (Inl e) f = Inl e"
  by (simp add: rbind_def)

lemma rbind_Inr [simp, result_simps]: "rbind (Inr x) f = f x"
  by (simp add: rbind_def)

lemma rbind_eq_Inr [result_simps]:
  "rbind m f = Inr y \<longleftrightarrow> (\<exists>x. m = Inr x \<and> f x = Inr y)"
  by (cases m) auto

lemma rbind_eq_Inl [result_simps]:
  "rbind m f = Inl e \<longleftrightarrow> m = Inl e \<or> (\<exists>x. m = Inr x \<and> f x = Inl e)"
  by (cases m) auto

lemma rbind_if [result_simps]:
  "rbind (if b then m else n) f = (if b then rbind m f else rbind n f)"
  by simp

lemma returns_iff: "returns m \<longleftrightarrow> (\<exists>x. m = Inr x)"
  by (cases m) (auto simp: returns_def)

lemma returns_simps [simp]: "returns (Inr x)" "\<not> returns (Inl e)"
  by (simp_all add: returns_def)

lemma rmap_Inr_iff:
  "rmap f xs = Inr ys \<longleftrightarrow> list_all2 (\<lambda>x y. f x = Inr y) xs ys"
proof (induction xs arbitrary: ys)
  case Nil
  then show ?case by auto
next
  case (Cons x xs)
  then show ?case by (cases ys) (auto simp: rbind_eq_Inr)
qed

lemma rmap_pure: "(\<And>x. x \<in> set xs \<Longrightarrow> f x = Inr (g x)) \<Longrightarrow> rmap f xs = Inr (map g xs)"
  by (induction xs) auto

lemma rfold_append:
  "rfold f s (xs @ ys) = rbind (rfold f s xs) (\<lambda>s'. rfold f s' ys)"
  by (induction xs arbitrary: s) (auto simp: rbind_def split: sum.splits)

lemma rfold_invariant:
  assumes "rfold f s xs = Inr t" and "P s"
    and "\<And>s x s'. x \<in> set xs \<Longrightarrow> P s \<Longrightarrow> f s x = Inr s' \<Longrightarrow> P s'"
  shows "P t"
  using assms
proof (induction xs arbitrary: s)
  case Nil
  then show ?case by simp
next
  case (Cons x xs)
  from Cons.prems(1) obtain s' where s': "f s x = Inr s'" "rfold f s' xs = Inr t"
    by (auto simp: rbind_eq_Inr)
  have "P s'" using Cons.prems(2) s'(1) Cons.prems(3)[of x s s'] by simp
  with s'(2) show ?case by (rule Cons.IH) (use Cons.prems(3) in auto)
qed

section \<open>Lists\<close>

lemma take_drop_mid:
  "length xs = i \<Longrightarrow> length ys = n \<Longrightarrow> take n (drop i (xs @ ys @ zs)) = ys"
  by simp

lemma slice_join:
  assumes "i \<le> m" "m \<le> j"
  shows "take (j - i) (drop i xs) = take (m - i) (drop i xs) @ take (j - m) (drop m xs)"
proof -
  have "j - i = (m - i) + (j - m)" using assms by simp
  then have "take (j - i) (drop i xs) = take (m - i) (drop i xs) @ take (j - m) (drop (m - i) (drop i xs))"
    by (simp only: take_add)
  then show ?thesis using assms by simp
qed

lemma concat_length_const:
  "(\<And>x. x \<in> set xs \<Longrightarrow> length (f x) = n) \<Longrightarrow> length (concat (map f xs)) = n * length xs"
  by (induction xs) auto

lemma concat_blocks_nth:
  assumes "\<And>x. x \<in> set xs \<Longrightarrow> length (f x) = n" and "i < length xs" and "j < n"
  shows "concat (map f xs) ! (i * n + j) = f (xs ! i) ! j"
  using assms
proof (induction xs arbitrary: i)
  case Nil
  then show ?case by simp
next
  case (Cons x xs)
  then show ?case
    by (cases i) (auto simp: nth_append add.assoc)
qed


lemma mixed_radix: "a < A \<Longrightarrow> b < B \<Longrightarrow> a * B + b < A * (B::nat)"
proof -
  assume "a < A" "b < B"
  then have "a * B + b < Suc a * B" by simp
  also have "\<dots> \<le> A * B" using \<open>a < A\<close> by (intro mult_right_mono) auto
  finally show ?thesis .
qed

section \<open>Broadcasting in place\<close>

text \<open>
  An in-place operation of PyTorch takes an operand whose dimensions, counted from the last, are each 1 or
  those of the target, and which has no more dimensions than the target; any other operand is a
  \<open>RuntimeError\<close>.  The dimensions are given from the last to the first.
\<close>

fun dims_fit :: "nat list \<Rightarrow> nat list \<Rightarrow> bool" where
  "dims_fit [] ts = True"
| "dims_fit (d # ds) [] = False"
| "dims_fit (d # ds) (t # ts) = ((d = 1 \<or> d = t) \<and> dims_fit ds ts)"

definition broadcasts_into :: "nat list \<Rightarrow> nat list \<Rightarrow> bool" where
  "broadcasts_into source target = dims_fit (rev source) (rev target)"

lemma dims_fit_length: "dims_fit ds ts \<Longrightarrow> length ds \<le> length ts"
  by (induction ds ts rule: dims_fit.induct) auto

lemma broadcasts_length: "broadcasts_into source target \<Longrightarrow> length source \<le> length target"
  using dims_fit_length [of "rev source" "rev target"] by (simp add: broadcasts_into_def)

end
