(* ===== verification/Tiles.thy ===== *)
theory Tiles
  imports Complex_Main Prelude
begin

text \<open>
  The tile operations the Triton kernels are written in.  A kernel sees one
  \<open>(batch, head)\<close> slice of each tensor: a matrix, given by its value at a row and a column.
  \<open>ld\<close> is \<open>tl.make_block_ptr\<close> followed by \<open>tl.load\<close> with \<open>boundary_check=(0, 1)\<close>
  (elements outside the tensor read as zero), \<open>st\<close> is the \<open>tl.store\<close> with the same check
  (elements outside the tensor are not written), \<open>dot\<close> is \<open>tl.dot\<close>, \<open>tr\<close> is \<open>tl.trans\<close>
  or a block pointer with swapped order, and \<open>for_loop\<close> is a \<open>range\<close> loop.  A launch grid
  runs its programs one after the other; every kernel here writes disjoint tiles.

  Arithmetic is on the real numbers.  The rounding of each \<open>.to(dtype)\<close> is a parameter of
  the kernels, collected in the record \<open>kernel_env\<close>, together with
  \<open>triton.next_power_of_2\<close>.
\<close>

type_synonym mat = "nat \<Rightarrow> nat \<Rightarrow> real"
type_synonym vec = "nat \<Rightarrow> real"

named_theorems tile_simps \<open>elementwise facts about tiles\<close>

record kernel_env =
  to_in :: "real \<Rightarrow> real"        \<comment> \<open>cast to the dtype of q, k and v\<close>
  to_f32 :: "real \<Rightarrow> real"       \<comment> \<open>cast to float32\<close>
  next_pow2 :: "nat \<Rightarrow> nat"      \<comment> \<open>\<open>triton.next_power_of_2\<close>\<close>
  uninit :: mat                  \<comment> \<open>what \<open>torch.empty\<close> leaves in a fresh tensor\<close>

definition exact_casts :: "kernel_env \<Rightarrow> bool" where
  "exact_casts E \<longleftrightarrow> to_in E = (\<lambda>x. x) \<and> to_f32 E = (\<lambda>x. x)"

definition pow2_spec :: "kernel_env \<Rightarrow> bool" where
  "pow2_spec E \<longleftrightarrow> (\<forall>n. n \<le> next_pow2 E n \<and> (\<exists>e. next_pow2 E n = 2 ^ e))"

fun for_loop :: "nat \<Rightarrow> (nat \<Rightarrow> 's \<Rightarrow> 's) \<Rightarrow> 's \<Rightarrow> 's" where
  "for_loop 0 body s = s"
| "for_loop (Suc n) body s = body n (for_loop n body s)"

definition cdiv :: "nat \<Rightarrow> nat \<Rightarrow> nat" where
  "cdiv a b = (a + b - 1) div b"

definition zero_tile :: mat where
  "zero_tile = (\<lambda>i j. 0)"

definition madd :: "mat \<Rightarrow> mat \<Rightarrow> mat" where
  "madd A B = (\<lambda>i j. A i j + B i j)"

definition msub :: "mat \<Rightarrow> mat \<Rightarrow> mat" where
  "msub A B = (\<lambda>i j. A i j - B i j)"

definition mcast :: "(real \<Rightarrow> real) \<Rightarrow> mat \<Rightarrow> mat" where
  "mcast f A = (\<lambda>i j. f (A i j))"

definition scale_rows :: "mat \<Rightarrow> vec \<Rightarrow> mat" where
  "scale_rows A x = (\<lambda>i j. A i j * x i)"

definition scale_cols :: "mat \<Rightarrow> vec \<Rightarrow> mat" where
  "scale_cols A x = (\<lambda>i j. A i j * x j)"

definition tr :: "mat \<Rightarrow> mat" where
  "tr A = (\<lambda>i j. A j i)"

definition dot :: "nat \<Rightarrow> mat \<Rightarrow> mat \<Rightarrow> mat" where
  "dot n A B = (\<lambda>i j. \<Sum>l<n. A i l * B l j)"

definition ld :: "mat \<Rightarrow> nat \<Rightarrow> nat \<Rightarrow> nat \<Rightarrow> nat \<Rightarrow> mat" where
  "ld M rows cols i0 j0 =
     (\<lambda>i j. if i0 + i < rows \<and> j0 + j < cols then M (i0 + i) (j0 + j) else 0)"

definition ld1 :: "vec \<Rightarrow> nat \<Rightarrow> nat \<Rightarrow> vec" where
  "ld1 x rows i0 = (\<lambda>i. if i0 + i < rows then x (i0 + i) else 0)"

definition st :: "mat \<Rightarrow> nat \<Rightarrow> nat \<Rightarrow> nat \<Rightarrow> nat \<Rightarrow> nat \<Rightarrow> nat \<Rightarrow> mat \<Rightarrow> mat" where
  "st M rows cols i0 j0 R C blk =
     (\<lambda>r c. if i0 \<le> r \<and> r < i0 + R \<and> j0 \<le> c \<and> c < j0 + C \<and> r < rows \<and> c < cols
            then blk (r - i0) (c - j0) else M r c)"

lemmas tile_defs [tile_simps] =
  zero_tile_def madd_def msub_def mcast_def scale_rows_def scale_cols_def tr_def dot_def

section \<open>Loops and blocks\<close>

lemma for_loop_invariant:
  assumes "P 0 s" and "\<And>i t. i < n \<Longrightarrow> P i t \<Longrightarrow> P (Suc i) (body i t)"
  shows "P n (for_loop n body s)"
  using assms(2)
proof (induction n)
  case 0
  show ?case using assms(1) by simp
next
  case (Suc n)
  then show ?case by simp
qed

lemma for_loop_add:
  "for_loop (m + n) body s = for_loop n (\<lambda>i. body (m + i)) (for_loop m body s)"
  by (induction n) auto

lemma for_loop_cong:
  "(\<And>i t. i < n \<Longrightarrow> f i t = g i t) \<Longrightarrow> for_loop n f s = for_loop n g s"
  by (induction n) auto

lemma for_loop_madd:
  "for_loop n (\<lambda>i A. madd A (f i)) M = (\<lambda>r c. M r c + (\<Sum>i<n. f i r c))"
  by (induction n) (auto simp: madd_def fun_eq_iff)

lemma cdiv_covers: "0 < b \<Longrightarrow> a \<le> cdiv a b * b"
proof -
  assume b: "0 < b"
  have "a + b - 1 < cdiv a b * b + b"
    using div_mult_mod_eq [of "a + b - 1" b] mod_less_divisor [OF b, of "a + b - 1"]
    unfolding cdiv_def by linarith
  then show ?thesis using b by linarith
qed

lemma cdiv_eqI: "0 < b \<Longrightarrow> n * b < a + b \<Longrightarrow> a \<le> n * b \<Longrightarrow> cdiv a b = n"
  unfolding cdiv_def by (rule div_nat_eqI) (auto simp: mult.commute [of b n])

lemma cdiv_mult [simp]: "0 < b \<Longrightarrow> cdiv (n * b) b = n"
  by (rule cdiv_eqI) auto

lemma cdiv_one: "0 < a \<Longrightarrow> a \<le> b \<Longrightarrow> cdiv a b = 1"
  by (rule cdiv_eqI) auto

lemma cdiv_zero [simp]: "cdiv 0 b = 0"
  by (cases b) (simp_all add: cdiv_def)

lemma block_in_cdiv: "0 < b \<Longrightarrow> c < n \<Longrightarrow> c div b < cdiv n b"
  using cdiv_covers [of b n] by (metis less_le_trans less_mult_imp_div_less)

lemma sum_blocks:
  fixes f :: "nat \<Rightarrow> real"
  assumes "0 < b"
  shows "(\<Sum>i<cdiv n b. \<Sum>l<b. if i * b + l < n then f (i * b + l) else 0) = (\<Sum>d<n. f d)"
proof -
  let ?F = "\<lambda>d. if d < n then f d else 0"
  have "(\<Sum>i<cdiv n b. \<Sum>l<b. ?F (i * b + l)) = (\<Sum>i<cdiv n b. sum ?F {i * b..<i * b + b})"
  proof (rule sum.cong [OF refl])
    fix i
    have "sum ?F {0 + i * b..<b + i * b} = (\<Sum>l = 0..<b. ?F (l + i * b))"
      by (rule sum.shift_bounds_nat_ivl)
    then show "(\<Sum>l<b. ?F (i * b + l)) = sum ?F {i * b..<i * b + b}"
      by (simp only: atLeast0LessThan add_0 add.commute)
  qed
  also have "\<dots> = sum ?F {..<cdiv n b * b}"
    by (rule sum.nat_group)
  also have "\<dots> = sum ?F {..<n}"
    using cdiv_covers [OF assms, of n] by (intro sum.mono_neutral_right) auto
  also have "\<dots> = (\<Sum>d<n. f d)"
    by (intro sum.cong) auto
  finally show ?thesis .
qed

text \<open>
  A launch in which one program writes a location and no other program touches it: the
  location ends up with what that program wrote.
\<close>

lemma launch_writes:
  assumes wr: "\<And>s. get (prog m s) = F"
    and keep: "\<And>n s. n < N \<Longrightarrow> n \<noteq> m \<Longrightarrow> get (prog n s) = get s"
    and m: "m < N"
  shows "get (for_loop N prog s) = F"
  using keep m
proof (induction N)
  case 0
  then show ?case by simp
next
  case (Suc N)
  then show ?case
    by (cases "m = N") (use wr in \<open>auto simp: less_Suc_eq\<close>)
qed

text \<open>A loop in which only iteration \<open>r\<close> can write the element at \<open>x\<close>.\<close>

lemma for_loop_point:
  assumes "\<And>i h. i < B \<Longrightarrow> body i h x = (if C \<and> r = i then v i else h x)" and "n \<le> B"
  shows "for_loop n body h x = (if C \<and> r < n then v r else h x)"
  using assms(2)
proof (induction n)
  case 0
  then show ?case by simp
next
  case (Suc n)
  then show ?case using assms(1) [of n] by (auto simp: less_Suc_eq)
qed

lemma block_rows_iff: "0 < B \<Longrightarrow> n * B \<le> (t::nat) \<and> t < n * B + B \<longleftrightarrow> t div B = n"
proof
  assume "n * B \<le> t \<and> t < n * B + B"
  then show "t div B = n"
    by (intro div_nat_eqI) (auto simp: mult.commute [of B n])
next
  assume B: "0 < B" and d: "t div B = n"
  show "n * B \<le> t \<and> t < n * B + B"
    using div_mult_mod_eq [of t B] mod_less_divisor [OF B, of t] unfolding d by linarith
qed

lemma block_offset: "(t::nat) div B = n \<Longrightarrow> t - n * B = t mod B"
  using minus_div_mult_eq_mod [of t B] by simp

text \<open>A loop that stores consecutive column blocks of one row block.\<close>

lemma for_loop_store_cols:
  assumes "0 < B"
  shows "for_loop n (\<lambda>i M. st M rows cols i0 (i * B) R B (f i)) M0 r c =
    (if i0 \<le> r \<and> r < i0 + R \<and> r < rows \<and> c < cols \<and> c div B < n
     then f (c div B) (r - i0) (c mod B) else M0 r c)"
proof (induction n)
  case 0
  then show ?case by simp
next
  case (Suc n)
  have blk: "n * B \<le> c \<and> c < n * B + B \<longleftrightarrow> c div B = n"
    by (rule block_rows_iff [OF assms])
  have off: "c div B = n \<Longrightarrow> c - n * B = c mod B"
    by (rule block_offset)
  show ?case
    using Suc.IH blk off by (auto simp: st_def less_Suc_eq)
qed

lemma sum_lessThan_add: "(\<Sum>j<m + n. f j) = (\<Sum>j<m. f j) + (\<Sum>i<n. f (m + i) :: real)" for m :: nat
  by (induction n) (simp_all add: add.assoc)

lemma ld_full: "i0 + i < rows \<Longrightarrow> ld M rows cols i0 j0 i j = (if j0 + j < cols then M (i0 + i) (j0 + j) else 0)"
  by (simp add: ld_def)

text \<open>The blocked product over the shared dimension is the whole product.\<close>

lemma blocked_dot:
  assumes "0 < B" and "\<And>d. d < n \<Longrightarrow> F d = x d * y d"
  shows "(\<Sum>b<cdiv n B. \<Sum>l<B. (if b * B + l < n then x (b * B + l) else 0)
      * (if b * B + l < n then y (b * B + l) else 0)) = (\<Sum>d<n. F d :: real)"
proof -
  have "(\<Sum>b<cdiv n B. \<Sum>l<B. (if b * B + l < n then x (b * B + l) else 0)
      * (if b * B + l < n then y (b * B + l) else (0::real)))
    = (\<Sum>b<cdiv n B. \<Sum>l<B. if b * B + l < n then F (b * B + l) else 0)"
    by (intro sum.cong refl) (simp add: assms(2))
  also have "\<dots> = (\<Sum>d<n. F d)" by (rule sum_blocks [OF assms(1)])
  finally show ?thesis .
qed

end
