(* ===== verification/DeltaRule.thy ===== *)
theory DeltaRule
  imports Tiles
begin

text \<open>
  The gated delta rule as \<open>lit_gpt/gated_delta_rule_ops/chunk.py\<close> states it twice in plain
  PyTorch: token by token (\<open>recurrent_gated_delta_rule_ref\<close>) and in chunks with the WY
  representation (\<open>chunk_gated_delta_rule_ref\<close>), for one batch entry and head, in real
  arithmetic.

  Two interfaces carry the proof.  \<open>wy_solver\<close> is what a forward-substitution loop
  promises: given a strictly lower triangular matrix, the solution of a unit lower
  triangular system.  \<open>chunk_decay\<close> is what the decay factors of a chunk promise: the
  factor from the chunk's start and the factor between two of its tokens are products of
  the per-token decays.  Inside them the state reached after a chunk is computed once, for
  every implementation.
\<close>

section \<open>The two reference functions\<close>

definition delta_update :: "nat \<Rightarrow> real \<Rightarrow> vec \<Rightarrow> vec \<Rightarrow> real \<Rightarrow> mat \<Rightarrow> mat" where
  "delta_update d_k decay k_i v_i beta_i S0 =
     (let S = (\<lambda>r c. S0 r c * decay);
          v1 = (\<lambda>c. v_i c - (\<Sum>r<d_k. S r c * k_i r));
          v2 = (\<lambda>c. v1 c * beta_i)
      in (\<lambda>r c. S r c + k_i r * v2 c))"

definition recurrent_loop ::
  "nat \<Rightarrow> nat \<Rightarrow> vec \<Rightarrow> mat \<Rightarrow> mat \<Rightarrow> mat \<Rightarrow> vec \<Rightarrow> mat \<Rightarrow> mat \<times> mat" where
  "recurrent_loop d_k l decay q k v beta S0 =
     for_loop l (\<lambda>i (S, out).
        let S' = delta_update d_k (decay i) (k i) (v i) (beta i) S
        in (S', out(i := (\<lambda>m. \<Sum>d<d_k. q i d * S' d m))))
       (S0, zero_tile)"

definition recurrent_gated_delta_rule_ref ::
  "nat \<Rightarrow> nat \<Rightarrow> mat \<Rightarrow> mat \<Rightarrow> mat \<Rightarrow> vec \<Rightarrow> vec \<Rightarrow> mat" where
  "recurrent_gated_delta_rule_ref d_k l q k v beta g =
     snd (recurrent_loop d_k l (\<lambda>i. exp (g i)) (\<lambda>i d. q i d * real d_k powr (- (1 / 2)))
            k v beta zero_tile)"

text \<open>
  The chunked reference.  \<open>chunk_view\<close> is \<open>rearrange(x, 'b h (n c) d -> b h n c d')\<close> at
  chunk \<open>n\<close>; the substitution loop updates row \<open>i\<close> left of the diagonal from the rows
  above it.
\<close>

definition chunk_view :: "nat \<Rightarrow> nat \<Rightarrow> (nat \<Rightarrow> 'a) \<Rightarrow> (nat \<Rightarrow> 'a)" where
  "chunk_view chunk_size n x = (\<lambda>c. x (n * chunk_size + c))"

definition cumsum :: "vec \<Rightarrow> vec" where
  "cumsum x = (\<lambda>i. \<Sum>j\<le>i. x j)"

definition masked_triu :: "nat \<Rightarrow> mat \<Rightarrow> mat" where
  "masked_triu diagonal A = (\<lambda>i j. if j \<ge> i + diagonal then 0 else A i j)"

definition ref_subst_step :: "nat \<Rightarrow> mat \<Rightarrow> mat" where
  "ref_subst_step i attn =
     (\<lambda>r c. if r = i \<and> c < i then attn i c + (\<Sum>m<i. attn i m * attn m c) else attn r c)"

definition ref_solve :: "nat \<Rightarrow> mat \<Rightarrow> mat" where
  "ref_solve chunk_size attn = for_loop (chunk_size - 1) (\<lambda>n. ref_subst_step (Suc n)) attn"

definition add_eye :: "mat \<Rightarrow> mat" where
  "add_eye A = (\<lambda>i j. A i j + (if i = j then 1 else 0))"

definition ref_chunk_wu ::
  "nat \<Rightarrow> nat \<Rightarrow> mat \<Rightarrow> mat \<Rightarrow> mat \<Rightarrow> vec \<Rightarrow> mat \<times> mat" where
  "ref_chunk_wu d_k chunk_size k k_beta v decay =
     (let L_mask = (\<lambda>i j. exp (decay i - decay j));
          gram = dot d_k k_beta (tr k);
          attn_u = (\<lambda>i j. - masked_triu 0 (\<lambda>i j. gram i j * L_mask i j) i j);
          u = dot chunk_size (add_eye (ref_solve chunk_size attn_u)) v;
          attn_w = (\<lambda>i j. - masked_triu 0 gram i j);
          w = dot chunk_size (add_eye (ref_solve chunk_size attn_w)) k_beta
      in (w, u))"

definition ref_chunk_body ::
  "nat \<Rightarrow> nat \<Rightarrow> mat \<Rightarrow> mat \<Rightarrow> mat \<Rightarrow> mat \<Rightarrow> vec \<Rightarrow> nat \<Rightarrow> mat \<times> mat \<Rightarrow> mat \<times> mat" where
  "ref_chunk_body d_k chunk_size q_i k_i w u decay i = (\<lambda>(S, out).
     (let attn = masked_triu 1 (\<lambda>r c. dot d_k q_i (tr k_i) r c * exp (decay r - decay c));
          v_prime = dot d_k (\<lambda>r d. w r d * exp (decay r)) S;
          v_new = msub u v_prime;
          o_inter = dot d_k (\<lambda>r d. q_i r d * exp (decay r)) S;
          o_i = madd o_inter (dot chunk_size attn v_new);
          S' = madd (\<lambda>r c. S r c * exp (decay (chunk_size - 1)))
                    (dot chunk_size (tr (\<lambda>r d. k_i r d * exp (decay (chunk_size - 1) - decay r))) v_new)
      in (S', (\<lambda>t. if i * chunk_size \<le> t \<and> t < i * chunk_size + chunk_size
                   then o_i (t - i * chunk_size) else out t))))"

definition chunk_gated_delta_rule_ref ::
  "nat \<Rightarrow> nat \<Rightarrow> nat \<Rightarrow> mat \<Rightarrow> mat \<Rightarrow> mat \<Rightarrow> vec \<Rightarrow> vec \<Rightarrow> (mat \<times> mat \<times> mat) result" where
  "chunk_gated_delta_rule_ref BT d_k l q k v beta g =
     (let q = (\<lambda>i d. q i d * real d_k powr (- (1 / 2)));
          v = (\<lambda>i d. v i d * beta i);
          k_beta = (\<lambda>i d. k i d * beta i);
          wu = (\<lambda>n. ref_chunk_wu d_k BT (chunk_view BT n k) (chunk_view BT n k_beta)
                       (chunk_view BT n v) (cumsum (chunk_view BT n g)))
      in if BT = 0 then Inl ZeroDivisionError
         else if l mod BT \<noteq> 0 then Inl AssertionError
         else let out = snd (for_loop (l div BT) (\<lambda>i. ref_chunk_body d_k BT (chunk_view BT i q)
                         (chunk_view BT i k) (fst (wu i)) (snd (wu i)) (cumsum (chunk_view BT i g)) i)
                       (zero_tile, zero_tile))
              in Inr (out, (\<lambda>t. fst (wu (t div BT)) (t mod BT)), (\<lambda>t. snd (wu (t div BT)) (t mod BT))))"

section \<open>The token-by-token loop\<close>

definition delta_states :: "nat \<Rightarrow> vec \<Rightarrow> mat \<Rightarrow> mat \<Rightarrow> vec \<Rightarrow> mat \<Rightarrow> nat \<Rightarrow> mat" where
  "delta_states d_k decay k v beta S0 n =
     for_loop n (\<lambda>i S. delta_update d_k (decay i) (k i) (v i) (beta i) S) S0"

lemma delta_states_0 [simp]: "delta_states K a k v b S0 0 = S0"
  by (simp add: delta_states_def)

lemma delta_states_Suc:
  "delta_states K a k v b S0 (Suc n) = delta_update K (a n) (k n) (v n) (b n) (delta_states K a k v b S0 n)"
  by (simp add: delta_states_def)

lemma delta_states_add:
  "delta_states K a k v b S0 (m + n) =
     delta_states K (\<lambda>i. a (m + i)) (\<lambda>i. k (m + i)) (\<lambda>i. v (m + i)) (\<lambda>i. b (m + i))
       (delta_states K a k v b S0 m) n"
  by (simp add: delta_states_def for_loop_add)

lemma delta_states_cong:
  assumes "\<And>i. i < n \<Longrightarrow> a i = a' i \<and> k i = k' i \<and> v i = v' i \<and> b i = b' i"
  shows "delta_states K a k v b S0 n = delta_states K a' k' v' b' S0 n"
  unfolding delta_states_def by (rule for_loop_cong) (simp add: assms)

lemma recurrent_loop_states:
  "fst (recurrent_loop K l a q k v b S0) = delta_states K a k v b S0 l \<and>
   (\<forall>i m. snd (recurrent_loop K l a q k v b S0) i m =
      (if i < l then (\<Sum>d<K. q i d * delta_states K a k v b S0 (Suc i) d m) else 0))"
proof (induction l)
  case 0
  then show ?case by (simp add: recurrent_loop_def zero_tile_def)
next
  case (Suc l)
  let ?r = "recurrent_loop K l a q k v b S0"
  have step: "recurrent_loop K (Suc l) a q k v b S0 =
     (delta_states K a k v b S0 (Suc l),
      (snd ?r)(l := (\<lambda>m. \<Sum>d<K. q l d * delta_states K a k v b S0 (Suc l) d m)))"
    using Suc.IH by (simp add: recurrent_loop_def delta_states_Suc split_def Let_def)
  show ?case
    unfolding step using Suc.IH by (auto simp: less_Suc_eq)
qed

lemma recurrent_loop_out:
  "i < l \<Longrightarrow> snd (recurrent_loop K l a q k v b S0) i m
     = (\<Sum>d<K. q i d * delta_states K a k v b S0 (Suc i) d m)"
  using recurrent_loop_states [of K l a q k v b S0] by auto

section \<open>Forward substitution\<close>

definition strict_lower :: "mat \<Rightarrow> bool" where
  "strict_lower a \<longleftrightarrow> (\<forall>i j. i \<le> j \<longrightarrow> a i j = 0)"

lemma strict_lowerD: "strict_lower a \<Longrightarrow> i \<le> j \<Longrightarrow> a i j = 0"
  by (simp add: strict_lower_def)

locale wy_solver =
  fixes solve :: "nat \<Rightarrow> mat \<Rightarrow> mat"
  assumes solve_rec:
    "strict_lower a \<Longrightarrow> i < n \<Longrightarrow> solve n a i c = a i c + (\<Sum>m<i. a i m * solve n a m c)"
begin

lemma eye_rec:
  assumes "strict_lower a" "i < n"
  shows "add_eye (solve n a) i c =
    (if i = c then 1 else 0) + (\<Sum>m<i. a i m * add_eye (solve n a) m c)"
proof -
  have "(\<Sum>m<i. a i m * add_eye (solve n a) m c)
      = (\<Sum>m<i. a i m * solve n a m c) + (\<Sum>m<i. if m = c then a i m else 0)"
    unfolding sum.distrib [symmetric]
    by (intro sum.cong refl) (simp add: add_eye_def algebra_simps)
  also have "(\<Sum>m<i. if m = c then a i m else 0) = a i c"
    using strict_lowerD [OF assms(1), of i c] by simp
  finally show ?thesis
    by (simp add: add_eye_def solve_rec [OF assms])
qed

text \<open>Multiplying by the solution solves the triangular system row by row.\<close>

lemma apply_rec:
  assumes "strict_lower a" "i < n"
  shows "dot n (add_eye (solve n a)) b i c = b i c + (\<Sum>m<i. a i m * dot n (add_eye (solve n a)) b m c)"
proof -
  let ?A = "add_eye (solve n a)"
  have "dot n ?A b i c = (\<Sum>l<n. (if i = l then b l c else 0) + (\<Sum>m<i. a i m * ?A m l) * b l c)"
    unfolding dot_def
    by (intro sum.cong refl) (simp add: eye_rec [OF assms] algebra_simps)
  also have "\<dots> = b i c + (\<Sum>l<n. \<Sum>m<i. a i m * (?A m l * b l c))"
    using assms(2) by (simp add: sum.distrib sum_distrib_right mult.assoc)
  also have "(\<Sum>l<n. \<Sum>m<i. a i m * (?A m l * b l c)) = (\<Sum>m<i. a i m * dot n ?A b m c)"
    unfolding dot_def sum_distrib_left by (rule sum.swap)
  finally show ?thesis .
qed

text \<open>The matrix \<open>I - a\<close> times the solution is the identity.\<close>

lemma inverse_left:
  assumes "strict_lower a" "i < n"
  shows "(\<Sum>m<n. ((if i = m then 1 else 0) - a i m) * add_eye (solve n a) m c) = (if i = c then 1 else 0)"
proof -
  let ?A = "add_eye (solve n a)"
  have "(\<Sum>m<n. a i m * ?A m c) = (\<Sum>m<i. a i m * ?A m c)"
    using assms strict_lowerD [OF assms(1)] by (intro sum.mono_neutral_right) auto
  moreover have "(\<Sum>m<n. (if i = m then 1 else 0) * ?A m c) = (\<Sum>m<n. if i = m then ?A m c else 0)"
    by (intro sum.cong) auto
  ultimately have "(\<Sum>m<n. ((if i = m then 1 else 0) - a i m) * ?A m c)
      = ?A i c - (\<Sum>m<i. a i m * ?A m c)"
    using assms(2) by (simp add: left_diff_distrib sum_subtractf)
  then show ?thesis by (simp add: eye_rec [OF assms])
qed

end

lemma ref_solve_loop:
  assumes sl: "strict_lower a"
  shows "let X = for_loop n (\<lambda>n. ref_subst_step (Suc n)) a in
    (\<forall>i c. i \<le> n \<longrightarrow> X i c = a i c + (\<Sum>m<i. a i m * X m c)) \<and>
    (\<forall>i c. n < i \<longrightarrow> X i c = a i c) \<and> strict_lower X"
proof (induction n)
  case 0
  then show ?case using sl by (simp add: Let_def)
next
  case (Suc n)
  let ?X = "for_loop n (\<lambda>n. ref_subst_step (Suc n)) a"
  let ?Y = "ref_subst_step (Suc n) ?X"
  have IH: "\<And>i c. i \<le> n \<Longrightarrow> ?X i c = a i c + (\<Sum>m<i. a i m * ?X m c)"
    and keep: "\<And>i c. n < i \<Longrightarrow> ?X i c = a i c" and slX: "strict_lower ?X"
    using Suc.IH by (auto simp: Let_def)
  have old: "i \<noteq> Suc n \<Longrightarrow> ?Y i c = ?X i c" for i c
    by (simp add: ref_subst_step_def)
  have new: "?Y (Suc n) c = a (Suc n) c + (\<Sum>m<Suc n. a (Suc n) m * ?Y m c)" for c
  proof (cases "c < Suc n")
    case True
    have "(\<Sum>m<Suc n. a (Suc n) m * ?Y m c) = (\<Sum>m<Suc n. a (Suc n) m * ?X m c)"
      by (intro sum.cong refl) (simp add: old)
    with True show ?thesis by (simp add: ref_subst_step_def keep)
  next
    case False
    then have "(\<Sum>m<Suc n. a (Suc n) m * ?Y m c) = 0"
      by (intro sum.neutral) (auto simp: ref_subst_step_def strict_lowerD [OF slX])
    with False show ?thesis by (simp add: ref_subst_step_def keep)
  qed
  have solved: "?Y i c = a i c + (\<Sum>m<i. a i m * ?Y m c)" if "i \<le> Suc n" for i c
  proof (cases "i = Suc n")
    case True
    then show ?thesis using new by simp
  next
    case False
    with that have "i \<le> n" by simp
    then have "?Y i c = a i c + (\<Sum>m<i. a i m * ?X m c)"
      using IH False by (simp add: old)
    also have "(\<Sum>m<i. a i m * ?X m c) = (\<Sum>m<i. a i m * ?Y m c)"
      using \<open>i \<le> n\<close> by (intro sum.cong) (auto simp: old)
    finally show ?thesis .
  qed
  have low: "strict_lower ?Y"
    using slX by (auto simp: strict_lower_def ref_subst_step_def)
  have rest: "?Y i c = a i c" if "Suc n < i" for i c
    using that old [of i c] keep [of i c] by simp
  show ?case
    unfolding Let_def for_loop.simps(2) using solved low rest by blast
qed

interpretation ref_wy: wy_solver ref_solve
proof unfold_locales
  fix a :: mat and i n c :: nat
  assume "strict_lower a" "i < n"
  then show "ref_solve n a i c = a i c + (\<Sum>m<i. a i m * ref_solve n a m c)"
    using ref_solve_loop [of a "n - 1"] by (simp add: ref_solve_def Let_def)
qed


section \<open>The state inside a chunk\<close>

text \<open>
  \<open>a i\<close> is the decay the recurrence applies at token \<open>i\<close> of a chunk of \<open>n\<close> tokens,
  \<open>eG i\<close> the factor from the state before the chunk to the state after token \<open>i\<close> and
  \<open>eD i j\<close> the factor from token \<open>j\<close> to token \<open>i\<close>.
\<close>

locale chunk_decay =
  fixes a :: vec and eG :: vec and eD :: mat
  assumes eG_0: "eG 0 = a 0"
    and eG_Suc: "eG (Suc i) = eG i * a (Suc i)"
    and eD_refl: "eD i i = 1"
    and eD_Suc: "eD (Suc i) j = eD i j * a (Suc i)"
    and eD_eG: "eD i j * eG j = eG i"
begin

lemma chunk_state:
  assumes x: "\<And>i c. i < n \<Longrightarrow> x i c = beta i * (v i c - eG i * (\<Sum>d<K. k i d * S0 d c)
      - (\<Sum>j<i. eD i j * (\<Sum>d<K. k i d * k j d) * x j c))"
    and i: "i < n"
  shows "delta_states K a k v beta S0 (Suc i) r c
     = eG i * S0 r c + (\<Sum>j\<le>i. eD i j * k j r * x j c)"
  using i
proof (induction i arbitrary: r c)
  case 0
  have "delta_states K a k v beta S0 1 r c
     = S0 r c * a 0 + k 0 r * ((v 0 c - (\<Sum>d<K. S0 d c * a 0 * k 0 d)) * beta 0)"
    by (simp add: delta_states_Suc delta_update_def Let_def)
  also have "(\<Sum>d<K. S0 d c * a 0 * k 0 d) = eG 0 * (\<Sum>d<K. k 0 d * S0 d c)"
    by (simp add: sum_distrib_left eG_0 algebra_simps)
  finally show ?case
    using x [of 0 c] "0" by (simp add: eG_0 eD_refl)
next
  case (Suc i)
  let ?S = "delta_states K a k v beta S0 (Suc i)"
  have pre: "?S r c * a (Suc i) = eG (Suc i) * S0 r c + (\<Sum>j\<le>i. eD (Suc i) j * k j r * x j c)" for r c
    using Suc by (simp add: eG_Suc eD_Suc sum_distrib_left algebra_simps)
  have proj: "(\<Sum>d<K. ?S d c * a (Suc i) * k (Suc i) d) = eG (Suc i) * (\<Sum>d<K. k (Suc i) d * S0 d c)
     + (\<Sum>j<Suc i. eD (Suc i) j * (\<Sum>d<K. k (Suc i) d * k j d) * x j c)" for c
  proof -
    have "(\<Sum>d<K. ?S d c * a (Suc i) * k (Suc i) d)
        = (\<Sum>d<K. eG (Suc i) * (k (Suc i) d * S0 d c)) +
          (\<Sum>d<K. \<Sum>j\<le>i. eD (Suc i) j * (k (Suc i) d * k j d) * x j c)"
      unfolding pre by (simp add: sum.distrib algebra_simps sum_distrib_left)
    also have "(\<Sum>d<K. \<Sum>j\<le>i. eD (Suc i) j * (k (Suc i) d * k j d) * x j c)
        = (\<Sum>j\<le>i. \<Sum>d<K. eD (Suc i) j * (k (Suc i) d * k j d) * x j c)"
      by (rule sum.swap)
    finally show ?thesis
      by (simp only: sum_distrib_left [symmetric] sum_distrib_right [symmetric] lessThan_Suc_atMost)
  qed
  have "delta_states K a k v beta S0 (Suc (Suc i)) r c
     = ?S r c * a (Suc i) + k (Suc i) r * ((v (Suc i) c - (\<Sum>d<K. ?S d c * a (Suc i) * k (Suc i) d)) * beta (Suc i))"
    by (simp add: delta_states_Suc [of K a k v beta S0 "Suc i"] delta_update_def Let_def)
  also have "(v (Suc i) c - (\<Sum>d<K. ?S d c * a (Suc i) * k (Suc i) d)) * beta (Suc i) = x (Suc i) c"
    unfolding proj using x [OF Suc.prems, of c] by (simp only: diff_diff_eq [symmetric] mult.commute)
  finally show ?case
    by (simp only: pre sum.atMost_Suc eD_refl mult_1 add.assoc)
qed

text \<open>
  The new values a WY implementation computes, \<open>u - eG * (w S0)\<close>, are the corrections the
  recurrence adds to the state.
\<close>

lemma wy_new_values:
  assumes u: "\<And>i c. i < n \<Longrightarrow> u i c = beta i * v i c + (\<Sum>j<i. au i j * u j c)"
    and w: "\<And>i d. i < n \<Longrightarrow> w i d = beta i * k i d + (\<Sum>j<i. aw i j * w j d)"
    and aw: "\<And>i j. j < i \<Longrightarrow> i < n \<Longrightarrow> aw i j = - (beta i * (\<Sum>d<K. k i d * k j d))"
    and au: "\<And>i j. j < i \<Longrightarrow> i < n \<Longrightarrow> au i j = aw i j * eD i j"
    and i: "i < n"
  shows "u i c - eG i * (\<Sum>d<K. w i d * S0 d c) = beta i * (v i c - eG i * (\<Sum>d<K. k i d * S0 d c)
      - (\<Sum>j<i. eD i j * (\<Sum>d<K. k i d * k j d) * (u j c - eG j * (\<Sum>d<K. w j d * S0 d c))))"
proof -
  define g where "g = (\<lambda>j. \<Sum>d<K. k i d * k j d)"
  define s where "s = (\<lambda>j. \<Sum>d<K. w j d * S0 d c)"
  define p where "p = (\<Sum>d<K. k i d * S0 d c)"
  have ws: "s i = beta i * p + (\<Sum>j<i. aw i j * s j)"
  proof -
    have "s i = (\<Sum>d<K. beta i * (k i d * S0 d c)) + (\<Sum>d<K. \<Sum>j<i. aw i j * (w j d * S0 d c))"
      unfolding s_def by (simp add: w [OF i] sum.distrib algebra_simps sum_distrib_left)
    also have "(\<Sum>d<K. \<Sum>j<i. aw i j * (w j d * S0 d c)) = (\<Sum>j<i. \<Sum>d<K. aw i j * (w j d * S0 d c))"
      by (rule sum.swap)
    finally show ?thesis unfolding s_def p_def by (simp only: sum_distrib_left)
  qed
  have "u i c - eG i * s i = beta i * v i c - beta i * (eG i * p)
      + ((\<Sum>j<i. au i j * u j c) - (\<Sum>j<i. aw i j * (eG i * s j)))"
    unfolding u [OF i] ws by (simp add: algebra_simps sum_distrib_left)
  also have "(\<Sum>j<i. au i j * u j c) - (\<Sum>j<i. aw i j * (eG i * s j))
      = (\<Sum>j<i. - beta i * (eD i j * g j * (u j c - eG j * s j)))"
    unfolding sum_subtractf [symmetric]
  proof (rule sum.cong [OF refl])
    fix j assume "j \<in> {..<i}"
    then have j: "j < i" by simp
    show "au i j * u j c - aw i j * (eG i * s j) = - beta i * (eD i j * g j * (u j c - eG j * s j))"
      unfolding au [OF j i] aw [OF j i] eD_eG [of i j, symmetric] g_def by (simp add: algebra_simps)
  qed
  also have "\<dots> = - beta i * (\<Sum>j<i. eD i j * g j * (u j c - eG j * s j))"
    by (simp only: sum_distrib_left)
  finally show ?thesis unfolding s_def p_def g_def by (simp add: algebra_simps)
qed

text \<open>
  One chunk: the state after it, and each output, from the state before it.
\<close>

lemma chunk_output:
  assumes x: "\<And>i c. i < n \<Longrightarrow> x i c = beta i * (v i c - eG i * (\<Sum>d<K. k i d * S0 d c)
      - (\<Sum>j<i. eD i j * (\<Sum>d<K. k i d * k j d) * x j c))"
    and i: "i < n"
  shows "(\<Sum>d<K. q i d * delta_states K a k v beta S0 (Suc i) d c)
     = eG i * (\<Sum>d<K. q i d * S0 d c) + (\<Sum>j\<le>i. eD i j * (\<Sum>d<K. q i d * k j d) * x j c)"
proof -
  have "(\<Sum>d<K. q i d * delta_states K a k v beta S0 (Suc i) d c)
      = (\<Sum>d<K. eG i * (q i d * S0 d c)) + (\<Sum>d<K. \<Sum>j\<le>i. eD i j * (q i d * k j d) * x j c)"
    by (simp only: chunk_state [OF x i] distrib_left sum.distrib sum_distrib_left mult.assoc mult.left_commute)
  also have "(\<Sum>d<K. \<Sum>j\<le>i. eD i j * (q i d * k j d) * x j c)
      = (\<Sum>j\<le>i. \<Sum>d<K. eD i j * (q i d * k j d) * x j c)"
    by (rule sum.swap)
  finally show ?thesis
    by (simp only: sum_distrib_left [symmetric] sum_distrib_right [symmetric])
qed

end


section \<open>The chunked reference computes the recurrence\<close>

lemma cumsum_simps [simp]: "cumsum x 0 = x 0" "cumsum x (Suc i) = cumsum x i + x (Suc i)"
  by (simp_all add: cumsum_def)

interpretation exp_decay: chunk_decay
  "\<lambda>i. exp (g i)" "\<lambda>i. exp (cumsum g i)" "\<lambda>i j. exp (cumsum g i - cumsum g j)" for g :: vec
  by unfold_locales (auto simp: exp_add exp_diff)

lemma masked_triu_strict: "strict_lower (\<lambda>i j. - masked_triu 0 A i j)"
  by (simp add: strict_lower_def masked_triu_def)

lemma ref_chunk_wu_new_values:
  assumes "i < BT"
  shows "snd (ref_chunk_wu K BT k (\<lambda>i d. k i d * beta i) (\<lambda>i d. v i d * beta i) (cumsum g)) i c
      - exp (cumsum g i) * (\<Sum>d<K. fst (ref_chunk_wu K BT k (\<lambda>i d. k i d * beta i) (\<lambda>i d. v i d * beta i) (cumsum g)) i d * S0 d c)
    = beta i * (v i c - exp (cumsum g i) * (\<Sum>d<K. k i d * S0 d c)
      - (\<Sum>j<i. exp (cumsum g i - cumsum g j) * (\<Sum>d<K. k i d * k j d) *
          (snd (ref_chunk_wu K BT k (\<lambda>i d. k i d * beta i) (\<lambda>i d. v i d * beta i) (cumsum g)) j c
           - exp (cumsum g j) * (\<Sum>d<K. fst (ref_chunk_wu K BT k (\<lambda>i d. k i d * beta i) (\<lambda>i d. v i d * beta i) (cumsum g)) j d * S0 d c))))"
proof -
  let ?kb = "\<lambda>i d. k i d * beta i" and ?vb = "\<lambda>i d. v i d * beta i"
  define aw where "aw = (\<lambda>i j. - masked_triu 0 (dot K ?kb (tr k)) i j)"
  define au where "au = (\<lambda>i j. - masked_triu 0 (\<lambda>i j. dot K ?kb (tr k) i j * exp (cumsum g i - cumsum g j)) i j)"
  define w where "w = fst (ref_chunk_wu K BT k ?kb ?vb (cumsum g))"
  define u where "u = snd (ref_chunk_wu K BT k ?kb ?vb (cumsum g))"
  have w_eq: "w = dot BT (add_eye (ref_solve BT aw)) ?kb"
    and u_eq: "u = dot BT (add_eye (ref_solve BT au)) ?vb"
    by (simp_all add: w_def u_def ref_chunk_wu_def Let_def aw_def au_def)
  have sl: "strict_lower aw" "strict_lower au"
    unfolding aw_def au_def by (rule masked_triu_strict)+
  have gram: "dot K ?kb (tr k) i j = beta i * (\<Sum>d<K. k i d * k j d)" for i j
    by (simp add: dot_def tr_def sum_distrib_left algebra_simps)
  have aw_val: "aw i j = - (beta i * (\<Sum>d<K. k i d * k j d))" if "j < i" for i j
    using that by (simp add: aw_def masked_triu_def gram)
  have au_val: "au i j = aw i j * exp (cumsum g i - cumsum g j)" if "j < i" for i j
    using that by (simp add: au_def aw_def masked_triu_def)
  have u_rec: "u i c = beta i * v i c + (\<Sum>j<i. au i j * u j c)" if "i < BT" for i c
    using ref_wy.apply_rec [OF sl(2) that, of ?vb c] by (simp add: u_eq mult.commute)
  have w_rec: "w i d = beta i * k i d + (\<Sum>j<i. aw i j * w j d)" if "i < BT" for i d
    using ref_wy.apply_rec [OF sl(1) that, of ?kb d] by (simp add: w_eq mult.commute)
  show ?thesis
    unfolding w_def [symmetric] u_def [symmetric]
    by (rule exp_decay.wy_new_values [OF u_rec w_rec aw_val au_val assms])
qed

lemma ref_chunk_body_correct:
  fixes q k v S0 out :: mat and beta g :: vec and K BT n :: nat
  assumes "0 < BT"
  defines "wu \<equiv> ref_chunk_wu K BT k (\<lambda>i d. k i d * beta i) (\<lambda>i d. v i d * beta i) (cumsum g)"
  defines "res \<equiv> ref_chunk_body K BT q k (fst wu) (snd wu) (cumsum g) n (S0, out)"
  shows "fst res = delta_states K (\<lambda>i. exp (g i)) k v beta S0 BT"
    and "i < BT \<Longrightarrow> snd res (n * BT + i) c
      = (\<Sum>d<K. q i d * delta_states K (\<lambda>i. exp (g i)) k v beta S0 (Suc i) d c)"
    and "t < n * BT \<Longrightarrow> snd res t = out t"
proof -
  define x where "x = (\<lambda>i c. snd wu i c - exp (cumsum g i) * (\<Sum>d<K. fst wu i d * S0 d c))"
  have x: "x i c = beta i * (v i c - exp (cumsum g i) * (\<Sum>d<K. k i d * S0 d c)
      - (\<Sum>j<i. exp (cumsum g i - cumsum g j) * (\<Sum>d<K. k i d * k j d) * x j c))" if "i < BT" for i c
    unfolding x_def wu_def by (rule ref_chunk_wu_new_values [OF that])
  have v_new: "msub (snd wu) (dot K (\<lambda>r d. fst wu r d * exp (cumsum g r)) S0) = x"
    by (simp add: msub_def dot_def x_def fun_eq_iff sum_distrib_left algebra_simps)
  obtain m where m: "BT = Suc m" using assms(1) by (cases BT) auto
  show "fst res = delta_states K (\<lambda>i. exp (g i)) k v beta S0 BT"
  proof (intro ext)
    fix r c
    have "fst res r c = S0 r c * exp (cumsum g m)
        + (\<Sum>j<BT. k j r * exp (cumsum g m - cumsum g j) * x j c)"
      unfolding res_def ref_chunk_body_def Let_def prod.case fst_conv v_new
      by (simp add: madd_def dot_def tr_def m)
    also have "\<dots> = delta_states K (\<lambda>i. exp (g i)) k v beta S0 (Suc m) r c"
      using exp_decay.chunk_state [OF x, where i = m] m
      by (simp add: lessThan_Suc_atMost algebra_simps)
    finally show "fst res r c = delta_states K (\<lambda>i. exp (g i)) k v beta S0 BT r c"
      by (simp only: m)
  qed
  show "t < n * BT \<Longrightarrow> snd res t = out t"
    by (simp add: res_def ref_chunk_body_def Let_def)
  assume i: "i < BT"
  have tri: "(\<Sum>j<BT. masked_triu 1 (\<lambda>r c. dot K q (tr k) r c * exp (cumsum g r - cumsum g c)) i j * x j c)
      = (\<Sum>j\<le>i. exp (cumsum g i - cumsum g j) * (\<Sum>d<K. q i d * k j d) * x j c)"
    using i by (intro sum.mono_neutral_cong_right)
      (auto simp: masked_triu_def dot_def tr_def mult.commute)
  have "snd res (n * BT + i) c = (\<Sum>d<K. q i d * exp (cumsum g i) * S0 d c)
      + (\<Sum>j<BT. masked_triu 1 (\<lambda>r c. dot K q (tr k) r c * exp (cumsum g r - cumsum g c)) i j * x j c)"
    using i by (simp add: res_def ref_chunk_body_def Let_def v_new madd_def) (simp add: dot_def)
  also have "(\<Sum>d<K. q i d * exp (cumsum g i) * S0 d c) = exp (cumsum g i) * (\<Sum>d<K. q i d * S0 d c)"
    by (simp add: sum_distrib_left algebra_simps)
  finally show "snd res (n * BT + i) c
      = (\<Sum>d<K. q i d * delta_states K (\<lambda>i. exp (g i)) k v beta S0 (Suc i) d c)"
    unfolding tri using exp_decay.chunk_output [OF x i, where q = q and c = c] by simp
qed

lemma ref_chunks:
  fixes q k v :: mat and beta g :: vec and K BT :: nat
  assumes BT: "0 < BT"
  defines "wu \<equiv> \<lambda>n. ref_chunk_wu K BT (chunk_view BT n k) (chunk_view BT n (\<lambda>i d. k i d * beta i))
       (chunk_view BT n (\<lambda>i d. v i d * beta i)) (cumsum (chunk_view BT n g))"
  defines "ch \<equiv> \<lambda>n. for_loop n (\<lambda>i. ref_chunk_body K BT (chunk_view BT i q) (chunk_view BT i k)
       (fst (wu i)) (snd (wu i)) (cumsum (chunk_view BT i g)) i) (zero_tile, zero_tile)"
  shows "fst (ch n) = delta_states K (\<lambda>i. exp (g i)) k v beta zero_tile (n * BT) \<and>
    (\<forall>t c. t < n * BT \<longrightarrow> snd (ch n) t c =
       (\<Sum>d<K. q t d * delta_states K (\<lambda>i. exp (g i)) k v beta zero_tile (Suc t) d c))"
proof (induction n)
  case 0
  then show ?case by (simp add: ch_def)
next
  case (Suc n)
  let ?a = "\<lambda>i. exp (g i)"
  let ?S = "delta_states K ?a k v beta zero_tile (n * BT)"
  have ch: "ch (Suc n) = ref_chunk_body K BT (chunk_view BT n q) (chunk_view BT n k)
       (fst (wu n)) (snd (wu n)) (cumsum (chunk_view BT n g)) n (?S, snd (ch n))"
  proof -
    have "ch n = (?S, snd (ch n))"
      using Suc.IH by (intro prod_eqI) simp_all
    then have "ref_chunk_body K BT (chunk_view BT n q) (chunk_view BT n k)
         (fst (wu n)) (snd (wu n)) (cumsum (chunk_view BT n g)) n (ch n)
       = ref_chunk_body K BT (chunk_view BT n q) (chunk_view BT n k)
         (fst (wu n)) (snd (wu n)) (cumsum (chunk_view BT n g)) n (?S, snd (ch n))"
      by (rule arg_cong)
    then show ?thesis by (simp only: ch_def for_loop.simps)
  qed
  note body = ref_chunk_body_correct [OF BT, where K = K and q = "chunk_view BT n q"
      and k = "chunk_view BT n k" and beta = "chunk_view BT n beta" and v = "chunk_view BT n v"
      and g = "chunk_view BT n g" and n = n and ?S0.0 = ?S and out = "snd (ch n)"]
  have wu: "ref_chunk_wu K BT (chunk_view BT n k) (\<lambda>i d. chunk_view BT n k i d * chunk_view BT n beta i)
      (\<lambda>i d. chunk_view BT n v i d * chunk_view BT n beta i) (cumsum (chunk_view BT n g)) = wu n"
    by (simp add: wu_def chunk_view_def)
  have shift: "delta_states K ?a k v beta zero_tile (n * BT + i) =
      delta_states K (\<lambda>i. exp (chunk_view BT n g i)) (chunk_view BT n k) (chunk_view BT n v)
        (chunk_view BT n beta) ?S i" for i
    by (simp add: delta_states_add chunk_view_def)
  have "snd (ch (Suc n)) t c = (\<Sum>d<K. q t d * delta_states K ?a k v beta zero_tile (Suc t) d c)"
    if t: "t < Suc n * BT" for t c
  proof (cases "t < n * BT")
    case True
    then show ?thesis using Suc.IH body(3) [of t] by (simp add: ch wu)
  next
    case False
    then obtain i where i: "t = n * BT + i" "i < BT"
      using t by (metis add.commute add_less_cancel_left le_Suc_ex linorder_not_less mult_Suc)
    then show ?thesis
      using body(2) [of i c] shift [of "Suc i"] by (simp add: ch wu) (simp add: chunk_view_def)
  qed
  moreover have "fst (ch (Suc n)) = delta_states K ?a k v beta zero_tile (Suc n * BT)"
    using body(1) shift [of BT] by (simp add: ch wu add.commute)
  ultimately show ?case by blast
qed


section \<open>Properties\<close>

text \<open>The chunked reference computes the token-by-token recurrence: for a positive chunk size
  that divides the sequence length it returns, and its output at every token and value
  dimension is the output of \<open>recurrent_gated_delta_rule_ref\<close> on the same inputs, although it
  solves one triangular system per chunk instead of updating the state per token.\<close>

theorem chunk_ref_computes_recurrence:
  assumes "0 < BT" and "l mod BT = 0"
  shows "\<exists>out w u. chunk_gated_delta_rule_ref BT d_k l q k v beta g = Inr (out, w, u) \<and>
    (\<forall>t < l. \<forall>c. out t c = recurrent_gated_delta_rule_ref d_k l q k v beta g t c)"
proof -
  let ?q = "\<lambda>i d. q i d * real d_k powr (- (1 / 2))"
  have l: "l div BT * BT = l" using assms(2) by auto
  note chunks = ref_chunks [OF assms(1), where n = "l div BT" and q = ?q and K = d_k
      and k = k and v = v and beta = beta and g = g, unfolded l]
  show ?thesis
    using assms chunks
    by (auto simp: chunk_gated_delta_rule_ref_def Let_def recurrent_gated_delta_rule_ref_def
        recurrent_loop_out)
qed

theorem chunk_ref_computes_recurrence_witness:
  "\<exists>out w u. chunk_gated_delta_rule_ref 2 1 4 (\<lambda>t d. 1) (\<lambda>t d. real t) (\<lambda>t d. 2) (\<lambda>t. 1 / 2) (\<lambda>t. - 1)
      = Inr (out, w, u) \<and>
    (\<forall>t < 4. \<forall>c. out t c
      = recurrent_gated_delta_rule_ref 1 4 (\<lambda>t d. 1) (\<lambda>t d. real t) (\<lambda>t d. 2) (\<lambda>t. 1 / 2) (\<lambda>t. - 1) t c)"
  by (rule chunk_ref_computes_recurrence) simp_all

text \<open>The chunked reference refuses a sequence its chunks do not tile: it raises the assertion
  error exactly when a positive chunk size does not divide the length.\<close>

theorem chunk_ref_rejects_ragged:
  assumes "0 < BT"
  shows "chunk_gated_delta_rule_ref BT d_k l q k v beta g = Inl AssertionError \<longleftrightarrow> \<not> BT dvd l"
  using assms by (auto simp: chunk_gated_delta_rule_ref_def Let_def dvd_eq_mod_eq_0)

theorem chunk_ref_rejects_ragged_witness:
  "chunk_gated_delta_rule_ref 64 1 100 (\<lambda>t d. 0) (\<lambda>t d. 0) (\<lambda>t d. 0) (\<lambda>t. 0) (\<lambda>t. 0) = Inl AssertionError"
  using chunk_ref_rejects_ragged [of 64 1 100] by simp

end
