(* ===== verification/WYKernels.thy ===== *)
theory WYKernels
  imports DeltaRule
begin

text \<open>
  The WY-representation kernels of \<open>lit_gpt/gated_delta_rule_ops/wy_fast.py\<close>: per chunk they
  build the strictly lower triangular matrix of decayed key products, solve the unit lower
  triangular system by row-wise forward substitution and multiply the solution with the
  scaled keys (\<open>w\<close>) and values (\<open>u\<close>).  A tensor argument is its \<open>(batch, head)\<close> slice.
\<close>

definition exp2 :: "real \<Rightarrow> real" where
  "exp2 x = 2 powr x"

definition key_gram_tile ::
  "kernel_env \<Rightarrow> nat \<Rightarrow> nat \<Rightarrow> nat \<Rightarrow> nat \<Rightarrow> mat \<Rightarrow> vec \<Rightarrow> nat \<Rightarrow> mat" where
  "key_gram_tile E T K BT BK k b_beta i_t =
     for_loop (cdiv K BK) (\<lambda>i_k b_A.
        let b_k = ld k T K (i_t * BT) (i_k * BK);
            b_kb = mcast (to_in E) (scale_rows b_k b_beta)
        in madd b_A (dot BK b_kb (tr b_k)))
       zero_tile"

text \<open>\<open>-tl.where(arange[:, None] > arange[None, :], b_A, 0)\<close>.\<close>

definition neg_strict_lower :: "mat \<Rightarrow> mat" where
  "neg_strict_lower b_A = (\<lambda>i j. - (if i > j then b_A i j else 0))"

definition subst_row_step :: "nat \<Rightarrow> nat \<Rightarrow> mat \<Rightarrow> mat" where
  "subst_row_step BT i b_A =
     (let mask = (\<lambda>r. r = i);
          b_a = (\<lambda>c. \<Sum>r<BT. if mask r then b_A r c else 0);
          b_a' = (\<lambda>c. b_a c + (\<Sum>r<BT. b_a r * b_A r c) * (if c < i then 1 else 0))
      in (\<lambda>r c. if mask r then b_a' c else b_A r c))"

definition tl_solve :: "nat \<Rightarrow> mat \<Rightarrow> mat" where
  "tl_solve BT b_A = for_loop (BT - 1) (\<lambda>n. subst_row_step BT (Suc n)) b_A"

definition fwd_prepare_wy_repr_kernel_w ::
  "kernel_env \<Rightarrow> nat \<Rightarrow> nat \<Rightarrow> nat \<Rightarrow> nat \<Rightarrow> mat \<Rightarrow> vec \<Rightarrow> nat \<Rightarrow> mat \<times> mat \<times> mat \<Rightarrow> mat \<times> mat \<times> mat" where
  "fwd_prepare_wy_repr_kernel_w E T K BT BK k beta i_t = (\<lambda>(w, A, A_original).
     (let b_beta = ld1 beta T (i_t * BT);
          b_A = neg_strict_lower (key_gram_tile E T K BT BK k b_beta i_t);
          A_original' = st A_original T BT (i_t * BT) 0 BT BT (mcast (to_f32 E) b_A);
          b_A = add_eye (tl_solve BT b_A);
          A' = st A T BT (i_t * BT) 0 BT BT (mcast (to_f32 E) b_A);
          b_A = mcast (to_in E) b_A;
          w' = for_loop (cdiv K BK) (\<lambda>i_k w.
                 st w T K (i_t * BT) (i_k * BK) BT BK (mcast (to_in E)
                   (dot BT b_A (mcast (to_in E) (scale_rows (ld k T K (i_t * BT) (i_k * BK)) b_beta))))) w
      in (w', A', A_original')))"

definition fwd_prepare_wy_repr_kernel_u ::
  "kernel_env \<Rightarrow> nat \<Rightarrow> nat \<Rightarrow> nat \<Rightarrow> nat \<Rightarrow> nat \<Rightarrow> nat \<Rightarrow> mat \<Rightarrow> mat \<Rightarrow> vec \<Rightarrow> vec \<Rightarrow> nat
     \<Rightarrow> mat \<times> mat \<times> mat \<Rightarrow> mat \<times> mat \<times> mat" where
  "fwd_prepare_wy_repr_kernel_u E T K V BT BK BV k v beta g i_t = (\<lambda>(u, A, A_original).
     (let b_beta = ld1 beta T (i_t * BT);
          b_g = (\<lambda>i. g (i_t * BT + i));
          b_A = (\<lambda>i j. key_gram_tile E T K BT BK k b_beta i_t i j * exp2 (b_g i - b_g j));
          b_A = neg_strict_lower b_A;
          A_original' = st A_original T BT (i_t * BT) 0 BT BT (mcast (to_f32 E) b_A);
          b_A = add_eye (tl_solve BT b_A);
          A' = st A T BT (i_t * BT) 0 BT BT (mcast (to_f32 E) b_A);
          b_A = mcast (to_in E) b_A;
          u' = for_loop (cdiv V BV) (\<lambda>i_v u.
                 st u T V (i_t * BT) (i_v * BV) BT BV (mcast (to_in E)
                   (dot BT b_A (mcast (to_in E) (scale_rows (ld v T V (i_t * BT) (i_v * BV)) b_beta))))) u
      in (u', A', A_original')))"

definition fwd_recompute_w_u_kernel ::
  "kernel_env \<Rightarrow> nat \<Rightarrow> nat \<Rightarrow> nat \<Rightarrow> nat \<Rightarrow> nat \<Rightarrow> nat \<Rightarrow> mat \<Rightarrow> mat \<Rightarrow> vec \<Rightarrow> mat \<Rightarrow> mat \<Rightarrow> nat
     \<Rightarrow> mat \<times> mat \<Rightarrow> mat \<times> mat" where
  "fwd_recompute_w_u_kernel E T K V BT BK BV k v beta A_w A_u i_t = (\<lambda>(w, u).
     (let b_beta = ld1 beta T (i_t * BT);
          b_Au = mcast (to_in E) (ld A_u T BT (i_t * BT) 0);
          u' = for_loop (cdiv V BV) (\<lambda>i_v u.
                 st u T V (i_t * BT) (i_v * BV) BT BV (mcast (to_in E)
                   (dot BT b_Au (mcast (to_in E) (scale_rows (ld v T V (i_t * BT) (i_v * BV)) b_beta))))) u;
          b_Aw = mcast (to_in E) (ld A_w T BT (i_t * BT) 0);
          w' = for_loop (cdiv K BK) (\<lambda>i_k w.
                 st w T K (i_t * BT) (i_k * BK) BT BK (mcast (to_in E)
                   (dot BT b_Aw (mcast (to_in E) (scale_rows (ld k T K (i_t * BT) (i_k * BK)) b_beta))))) w
      in (w', u')))"

definition fwd_prepare_wy_repr ::
  "kernel_env \<Rightarrow> nat \<Rightarrow> nat \<Rightarrow> nat \<Rightarrow> nat \<Rightarrow> mat \<Rightarrow> mat \<Rightarrow> vec \<Rightarrow> vec
     \<Rightarrow> mat \<times> mat \<times> mat \<times> mat \<times> mat \<times> mat" where
  "fwd_prepare_wy_repr E BT T K V k v beta g =
     (let NT = cdiv T BT;
          BK = min (next_pow2 E K) 64;
          BV = min (next_pow2 E V) 64;
          (w, A_w, A_w_original) =
            for_loop NT (fwd_prepare_wy_repr_kernel_w E T K BT BK k beta) (uninit E, uninit E, zero_tile);
          (u, A_u, A_u_original) =
            for_loop NT (fwd_prepare_wy_repr_kernel_u E T K V BT BK BV k v beta g) (uninit E, uninit E, zero_tile)
      in (w, u, A_w, A_u, A_w_original, A_u_original))"

definition fwd_recompute_w_u ::
  "kernel_env \<Rightarrow> nat \<Rightarrow> nat \<Rightarrow> nat \<Rightarrow> nat \<Rightarrow> mat \<Rightarrow> mat \<Rightarrow> vec \<Rightarrow> mat \<Rightarrow> mat \<Rightarrow> mat \<times> mat" where
  "fwd_recompute_w_u E BT T K V k v beta A_w A_u =
     (let NT = cdiv T BT;
          BK = min (next_pow2 E K) 64;
          BV = min (next_pow2 E V) 64
      in for_loop NT (fwd_recompute_w_u_kernel E T K V BT BK BV k v beta A_w A_u) (uninit E, uninit E))"

section \<open>The substitution loop is a solver\<close>

lemma neg_strict_lower_strict: "strict_lower (neg_strict_lower A)"
  by (simp add: strict_lower_def neg_strict_lower_def)

lemma subst_row_step_eq:
  assumes "i < BT" "strict_lower X"
  shows "subst_row_step BT i X r c = (if r = i then X i c + (\<Sum>m<i. X i m * X m c) else X r c)"
proof -
  have row: "(\<Sum>r<BT. if r = i then X r c else 0) = X i c" for c
    using assms(1) by simp
  have "(\<Sum>r<BT. X i r * X r c) = (\<Sum>m<i. X i m * X m c)"
    using assms strict_lowerD [OF assms(2), of i] by (intro sum.mono_neutral_right) auto
  moreover have "(\<Sum>m<i. X i m * X m c) = 0" if "\<not> c < i"
    using that strict_lowerD [OF assms(2)] by (intro sum.neutral) auto
  ultimately show ?thesis
    by (simp add: subst_row_step_def Let_def row)
qed

lemma tl_solve_eq_ref_solve:
  assumes "strict_lower a"
  shows "tl_solve BT a = ref_solve BT a"
proof -
  have "n \<le> BT - 1 \<Longrightarrow> for_loop n (\<lambda>n. subst_row_step BT (Suc n)) a
      = for_loop n (\<lambda>n. ref_subst_step (Suc n)) a" for n
  proof (induction n)
    case 0
    then show ?case by simp
  next
    case (Suc n)
    let ?X = "for_loop n (\<lambda>n. ref_subst_step (Suc n)) a"
    have sl: "strict_lower ?X"
      using ref_solve_loop [OF assms, of n] by (simp add: Let_def)
    have "subst_row_step BT (Suc n) ?X = ref_subst_step (Suc n) ?X"
    proof (intro ext)
      fix r c
      have "(\<Sum>m<Suc n. ?X (Suc n) m * ?X m c) = 0" if "\<not> c < Suc n"
        using that strict_lowerD [OF sl] by (intro sum.neutral) auto
      then show "subst_row_step BT (Suc n) ?X r c = ref_subst_step (Suc n) ?X r c"
        using Suc.prems by (auto simp: subst_row_step_eq [OF _ sl] ref_subst_step_def)
    qed
    with Suc show ?case by simp
  qed
  then show ?thesis by (simp add: tl_solve_def ref_solve_def)
qed

interpretation tl_wy: wy_solver tl_solve
  by unfold_locales (simp add: tl_solve_eq_ref_solve ref_wy.solve_rec)

section \<open>What the launches leave in the tensors\<close>

definition chunk_gram :: "nat \<Rightarrow> nat \<Rightarrow> mat \<Rightarrow> vec \<Rightarrow> nat \<Rightarrow> mat" where
  "chunk_gram K BT k beta n =
     (\<lambda>i j. beta (n * BT + i) * (\<Sum>d<K. k (n * BT + i) d * k (n * BT + j) d))"

definition chunk_solution :: "nat \<Rightarrow> mat \<Rightarrow> mat" where
  "chunk_solution BT a = add_eye (tl_solve BT (neg_strict_lower a))"

lemma key_gram_tile_exact:
  assumes "exact_casts E" "0 < BK" "(n + 1) * BT \<le> T" "i < BT" "j < BT"
  shows "key_gram_tile E T K BT BK k (ld1 beta T (n * BT)) n i j = chunk_gram K BT k beta n i j"
proof -
  have rows: "n * BT + i < T" "n * BT + j < T"
    using assms by (simp_all add: algebra_simps)
  have "key_gram_tile E T K BT BK k (ld1 beta T (n * BT)) n i j =
    (\<Sum>b<cdiv K BK. \<Sum>l<BK. (if b * BK + l < K then beta (n * BT + i) * k (n * BT + i) (b * BK + l) else 0)
      * (if b * BK + l < K then k (n * BT + j) (b * BK + l) else 0))"
    unfolding key_gram_tile_def Let_def for_loop_madd
    using assms(1) rows
    by (auto simp: tile_defs ld_def ld1_def exact_casts_def mult.commute intro!: sum.cong)
  also have "\<dots> = (\<Sum>d<K. beta (n * BT + i) * (k (n * BT + i) d * k (n * BT + j) d))"
    by (rule blocked_dot [OF assms(2)]) (simp add: mult.assoc)
  finally show ?thesis by (simp add: chunk_gram_def sum_distrib_left)
qed

lemma solve_cong:
  assumes "\<And>i j. i < BT \<Longrightarrow> j < BT \<Longrightarrow> a i j = b i j" "i < BT"
  shows "chunk_solution BT a i c = chunk_solution BT b i c"
  using assms(2)
proof (induction i rule: less_induct)
  case (less i)
  have "(\<Sum>m<i. neg_strict_lower a i m * chunk_solution BT a m c)
      = (\<Sum>m<i. neg_strict_lower b i m * chunk_solution BT b m c)"
    using less by (intro sum.cong refl) (simp add: neg_strict_lower_def assms(1))
  then show ?case
    unfolding chunk_solution_def
    by (simp add: tl_wy.eye_rec [OF neg_strict_lower_strict less.prems])
qed

text \<open>A chunk of \<open>w\<close> (or \<open>u\<close>): the solution of the chunk's system times the scaled rows.\<close>

lemma store_product:
  assumes "exact_casts E" "0 < B" "0 < BT" "t div BT = n" "(n + 1) * BT \<le> T" "c < cols"
    and A: "\<And>i j. i < BT \<Longrightarrow> j < BT \<Longrightarrow> A i j = A' i j"
  shows "for_loop (cdiv cols B) (\<lambda>b M. st M T cols (n * BT) (b * B) BT B (mcast (to_in E)
      (dot BT (mcast (to_in E) A) (mcast (to_in E) (scale_rows (ld x T cols (n * BT) (b * B)) (ld1 beta T (n * BT))))))) M t c
    = dot BT A' (\<lambda>j d. x (n * BT + j) d * beta (n * BT + j)) (t mod BT) c"
proof -
  have tb: "n * BT \<le> t \<and> t < n * BT + BT"
    using block_rows_iff [OF assms(3)] assms(4) by blast
  have tT: "t < T" using tb assms(5) by (simp add: algebra_simps)
  have m: "t mod BT < BT" using assms(3) by simp
  have rows: "j < BT \<Longrightarrow> n * BT + j < T" for j
    using assms(5) by (simp add: algebra_simps)
  have cB: "c div B * B + c mod B = c" by simp
  show ?thesis
    unfolding for_loop_store_cols [OF assms(2)]
    using tb tT assms(1,6) block_in_cdiv [OF assms(2,6)] block_offset [OF assms(4)]
    by (auto simp: tile_defs ld_def ld1_def exact_casts_def rows A [OF m] cB intro!: sum.cong)
qed

lemma store_product_keep:
  assumes "0 < B" "0 < BT" "t div BT \<noteq> n"
  shows "for_loop m (\<lambda>b M. st M T cols (n * BT) (b * B) BT B (f b)) M t c = M t c"
  using for_loop_store_cols [OF assms(1)] block_rows_iff [OF assms(2), of n t] assms(3) by auto


definition decayed_gram :: "nat \<Rightarrow> nat \<Rightarrow> mat \<Rightarrow> vec \<Rightarrow> vec \<Rightarrow> nat \<Rightarrow> mat" where
  "decayed_gram K BT k beta g n =
     (\<lambda>i j. chunk_gram K BT k beta n i j * exp2 (g (n * BT + i) - g (n * BT + j)))"

definition scaled_rows :: "nat \<Rightarrow> mat \<Rightarrow> vec \<Rightarrow> nat \<Rightarrow> mat" where
  "scaled_rows BT x beta n = (\<lambda>j d. x (n * BT + j) d * beta (n * BT + j))"

lemma block_end: "n < NT \<Longrightarrow> (n + 1) * BT \<le> NT * (BT::nat)"
  by (intro mult_right_mono) auto

lemma st_block:
  assumes "0 < BT" "t < T" "j < BT"
  shows "st A T BT (n * BT) 0 BT BT blk t j = (if t div BT = n then blk (t mod BT) j else A t j)"
  using assms block_rows_iff [OF assms(1), of n t] block_offset [of t BT n] by (auto simp: st_def)

lemma st_block_keep:
  assumes "0 < BT" "t div BT \<noteq> n"
  shows "st A T cols (n * BT) j0 BT C blk t = A t"
  using assms block_rows_iff [OF assms(1), of n t] by (auto simp: st_def fun_eq_iff)

lemma kernel_w_rows:
  assumes E: "exact_casts E" and p: "0 < BK" "0 < BT" "n < NT" "T = NT * BT" "t < T"
  shows "t div BT = n \<Longrightarrow> c < K \<Longrightarrow>
      fst (fwd_prepare_wy_repr_kernel_w E T K BT BK k beta n s) t c
        = dot BT (chunk_solution BT (chunk_gram K BT k beta n)) (scaled_rows BT k beta n) (t mod BT) c"
    and "t div BT = n \<Longrightarrow> j < BT \<Longrightarrow>
      fst (snd (fwd_prepare_wy_repr_kernel_w E T K BT BK k beta n s)) t j
        = chunk_solution BT (chunk_gram K BT k beta n) (t mod BT) j"
    and "t div BT \<noteq> n \<Longrightarrow> fst (fwd_prepare_wy_repr_kernel_w E T K BT BK k beta n s) t = fst s t"
    and "t div BT \<noteq> n \<Longrightarrow> fst (snd (fwd_prepare_wy_repr_kernel_w E T K BT BK k beta n s)) t = fst (snd s) t"
proof -
  let ?A = "add_eye (tl_solve BT (neg_strict_lower (key_gram_tile E T K BT BK k (ld1 beta T (n * BT)) n)))"
  obtain w0 A0 Ao0 where s: "s = (w0, A0, Ao0)" by (cases s)
  have T: "(n + 1) * BT \<le> T" using block_end [OF p(3)] p(4) by simp
  have A: "?A i j = chunk_solution BT (chunk_gram K BT k beta n) i j" if "i < BT" "j < BT" for i j
    unfolding chunk_solution_def [symmetric]
    by (rule solve_cong [OF key_gram_tile_exact [OF E p(1) T] that(1)])
  note unf = s fwd_prepare_wy_repr_kernel_w_def Let_def prod.case fst_conv snd_conv
  have m: "t mod BT < BT" using p(2) by simp
  show "t div BT = n \<Longrightarrow> c < K \<Longrightarrow>
      fst (fwd_prepare_wy_repr_kernel_w E T K BT BK k beta n s) t c
        = dot BT (chunk_solution BT (chunk_gram K BT k beta n)) (scaled_rows BT k beta n) (t mod BT) c"
    unfolding unf scaled_rows_def by (rule store_product [OF E p(1,2) _ T _ A])
  show "t div BT = n \<Longrightarrow> j < BT \<Longrightarrow>
      fst (snd (fwd_prepare_wy_repr_kernel_w E T K BT BK k beta n s)) t j
        = chunk_solution BT (chunk_gram K BT k beta n) (t mod BT) j"
    unfolding unf st_block [OF p(2,5)] using E by (simp add: mcast_def exact_casts_def A [OF m])
  show "t div BT \<noteq> n \<Longrightarrow> fst (fwd_prepare_wy_repr_kernel_w E T K BT BK k beta n s) t = fst s t"
    unfolding unf by (rule ext) (rule store_product_keep [OF p(1,2)])
  show "t div BT \<noteq> n \<Longrightarrow> fst (snd (fwd_prepare_wy_repr_kernel_w E T K BT BK k beta n s)) t = fst (snd s) t"
    unfolding unf by (rule st_block_keep [OF p(2)])
qed

lemma kernel_u_rows:
  assumes E: "exact_casts E" and p: "0 < BK" "0 < BV" "0 < BT" "n < NT" "T = NT * BT" "t < T"
  shows "t div BT = n \<Longrightarrow> c < V \<Longrightarrow>
      fst (fwd_prepare_wy_repr_kernel_u E T K V BT BK BV k v beta g n s) t c
        = dot BT (chunk_solution BT (decayed_gram K BT k beta g n)) (scaled_rows BT v beta n) (t mod BT) c"
    and "t div BT = n \<Longrightarrow> j < BT \<Longrightarrow>
      fst (snd (fwd_prepare_wy_repr_kernel_u E T K V BT BK BV k v beta g n s)) t j
        = chunk_solution BT (decayed_gram K BT k beta g n) (t mod BT) j"
    and "t div BT \<noteq> n \<Longrightarrow> fst (fwd_prepare_wy_repr_kernel_u E T K V BT BK BV k v beta g n s) t = fst s t"
    and "t div BT \<noteq> n \<Longrightarrow> fst (snd (fwd_prepare_wy_repr_kernel_u E T K V BT BK BV k v beta g n s)) t = fst (snd s) t"
proof -
  let ?A = "add_eye (tl_solve BT (neg_strict_lower (\<lambda>i j. key_gram_tile E T K BT BK k (ld1 beta T (n * BT)) n i j
      * exp2 (g (n * BT + i) - g (n * BT + j)))))"
  obtain u0 A0 Ao0 where s: "s = (u0, A0, Ao0)" by (cases s)
  have T: "(n + 1) * BT \<le> T" using block_end [OF p(4)] p(5) by simp
  have A: "?A i j = chunk_solution BT (decayed_gram K BT k beta g n) i j" if "i < BT" "j < BT" for i j
    unfolding chunk_solution_def [symmetric]
    by (rule solve_cong [OF _ that(1)]) (simp add: decayed_gram_def key_gram_tile_exact [OF E p(1) T])
  note unf = s fwd_prepare_wy_repr_kernel_u_def Let_def prod.case fst_conv snd_conv
  have m: "t mod BT < BT" using p(3) by simp
  show "t div BT = n \<Longrightarrow> c < V \<Longrightarrow>
      fst (fwd_prepare_wy_repr_kernel_u E T K V BT BK BV k v beta g n s) t c
        = dot BT (chunk_solution BT (decayed_gram K BT k beta g n)) (scaled_rows BT v beta n) (t mod BT) c"
    unfolding unf scaled_rows_def by (rule store_product [OF E p(2,3) _ T _ A])
  show "t div BT = n \<Longrightarrow> j < BT \<Longrightarrow>
      fst (snd (fwd_prepare_wy_repr_kernel_u E T K V BT BK BV k v beta g n s)) t j
        = chunk_solution BT (decayed_gram K BT k beta g n) (t mod BT) j"
    unfolding unf st_block [OF p(3,6)] using E by (simp add: mcast_def exact_casts_def A [OF m])
  show "t div BT \<noteq> n \<Longrightarrow> fst (fwd_prepare_wy_repr_kernel_u E T K V BT BK BV k v beta g n s) t = fst s t"
    unfolding unf by (rule ext) (rule store_product_keep [OF p(2,3)])
  show "t div BT \<noteq> n \<Longrightarrow> fst (snd (fwd_prepare_wy_repr_kernel_u E T K V BT BK BV k v beta g n s)) t = fst (snd s) t"
    unfolding unf by (rule st_block_keep [OF p(3)])
qed

lemma pow2_block: "pow2_spec E \<Longrightarrow> 0 < min (next_pow2 E n) 64"
  by (auto simp: pow2_spec_def) (metis zero_less_numeral zero_less_power)

text \<open>The four tensors \<open>fwd_prepare_wy_repr\<close> returns, chunk by chunk.\<close>

lemma fwd_prepare_wy_repr_rows:
  assumes E: "exact_casts E" "pow2_spec E" and p: "0 < BT" "T = NT * BT" "t < T"
    and res: "fwd_prepare_wy_repr E BT T K V k v beta g = (w, u, A_w, A_u, Ao_w, Ao_u)"
  shows "c < K \<Longrightarrow> w t c = dot BT (chunk_solution BT (chunk_gram K BT k beta (t div BT)))
      (scaled_rows BT k beta (t div BT)) (t mod BT) c"
    and "d < V \<Longrightarrow> u t d = dot BT (chunk_solution BT (decayed_gram K BT k beta g (t div BT)))
      (scaled_rows BT v beta (t div BT)) (t mod BT) d"
    and "j < BT \<Longrightarrow> A_w t j = chunk_solution BT (chunk_gram K BT k beta (t div BT)) (t mod BT) j"
    and "j < BT \<Longrightarrow> A_u t j = chunk_solution BT (decayed_gram K BT k beta g (t div BT)) (t mod BT) j"
proof -
  let ?BK = "min (next_pow2 E K) 64" and ?BV = "min (next_pow2 E V) 64"
  let ?pw = "fwd_prepare_wy_repr_kernel_w E T K BT ?BK k beta"
  let ?pu = "fwd_prepare_wy_repr_kernel_u E T K V BT ?BK ?BV k v beta g"
  let ?s = "(uninit E, uninit E, zero_tile)"
  have b: "0 < ?BK" "0 < ?BV" using pow2_block [OF E(2)] by auto
  have NT: "cdiv T BT = NT" using p by simp
  have tN: "t div BT < NT" using p by (simp add: less_mult_imp_div_less)
  have parts: "w = fst (for_loop NT ?pw ?s)" "A_w = fst (snd (for_loop NT ?pw ?s))"
    "u = fst (for_loop NT ?pu ?s)" "A_u = fst (snd (for_loop NT ?pu ?s))"
    using res by (auto simp: fwd_prepare_wy_repr_def Let_def NT split: prod.splits)
  note kw = kernel_w_rows [OF E(1) b(1) p(1) _ p(2,3)]
    and ku = kernel_u_rows [OF E(1) b p(1) _ p(2,3)]
  show "c < K \<Longrightarrow> w t c = dot BT (chunk_solution BT (chunk_gram K BT k beta (t div BT)))
      (scaled_rows BT k beta (t div BT)) (t mod BT) c"
    unfolding parts using kw tN
    by (intro launch_writes [where m = "t div BT" and get = "\<lambda>s. fst s t c"]) auto
  show "d < V \<Longrightarrow> u t d = dot BT (chunk_solution BT (decayed_gram K BT k beta g (t div BT)))
      (scaled_rows BT v beta (t div BT)) (t mod BT) d"
    unfolding parts using ku tN
    by (intro launch_writes [where m = "t div BT" and get = "\<lambda>s. fst s t d"]) auto
  show "j < BT \<Longrightarrow> A_w t j = chunk_solution BT (chunk_gram K BT k beta (t div BT)) (t mod BT) j"
    unfolding parts using kw tN
    by (intro launch_writes [where m = "t div BT" and get = "\<lambda>s. fst (snd s) t j"]) auto
  show "j < BT \<Longrightarrow> A_u t j = chunk_solution BT (decayed_gram K BT k beta g (t div BT)) (t mod BT) j"
    unfolding parts using ku tN
    by (intro launch_writes [where m = "t div BT" and get = "\<lambda>s. fst (snd s) t j"]) auto
qed


lemma recompute_rows:
  assumes E: "exact_casts E" and p: "0 < BK" "0 < BV" "0 < BT" "n < NT" "T = NT * BT" "t < T"
    and A_w: "\<And>t j. t < T \<Longrightarrow> j < BT \<Longrightarrow> A_w t j = Bw (t div BT) (t mod BT) j"
    and A_u: "\<And>t j. t < T \<Longrightarrow> j < BT \<Longrightarrow> A_u t j = Bu (t div BT) (t mod BT) j"
  shows "t div BT = n \<Longrightarrow> c < K \<Longrightarrow>
      fst (fwd_recompute_w_u_kernel E T K V BT BK BV k v beta A_w A_u n s) t c
        = dot BT (Bw n) (scaled_rows BT k beta n) (t mod BT) c"
    and "t div BT = n \<Longrightarrow> d < V \<Longrightarrow>
      snd (fwd_recompute_w_u_kernel E T K V BT BK BV k v beta A_w A_u n s) t d
        = dot BT (Bu n) (scaled_rows BT v beta n) (t mod BT) d"
    and "t div BT \<noteq> n \<Longrightarrow> fst (fwd_recompute_w_u_kernel E T K V BT BK BV k v beta A_w A_u n s) t = fst s t"
    and "t div BT \<noteq> n \<Longrightarrow> snd (fwd_recompute_w_u_kernel E T K V BT BK BV k v beta A_w A_u n s) t = snd s t"
proof -
  obtain w0 u0 where s: "s = (w0, u0)" by (cases s)
  have T: "(n + 1) * BT \<le> T" using block_end [OF p(4)] p(5) by simp
  have at: "n * BT + i < T" "(n * BT + i) div BT = n" "(n * BT + i) mod BT = i" if "i < BT" for i
    using T that by (simp_all add: algebra_simps)
  have Bw: "ld A_w T BT (n * BT) 0 i j = Bw n i j" if "i < BT" "j < BT" for i j
    using that at A_w by (simp add: ld_def)
  have Bu: "ld A_u T BT (n * BT) 0 i j = Bu n i j" if "i < BT" "j < BT" for i j
    using that at A_u by (simp add: ld_def)
  note unf = s fwd_recompute_w_u_kernel_def Let_def prod.case fst_conv snd_conv
  show "t div BT = n \<Longrightarrow> c < K \<Longrightarrow>
      fst (fwd_recompute_w_u_kernel E T K V BT BK BV k v beta A_w A_u n s) t c
        = dot BT (Bw n) (scaled_rows BT k beta n) (t mod BT) c"
    unfolding unf scaled_rows_def by (rule store_product [where A' = "Bw n", OF E p(1,3) _ T _ Bw])
  show "t div BT = n \<Longrightarrow> d < V \<Longrightarrow>
      snd (fwd_recompute_w_u_kernel E T K V BT BK BV k v beta A_w A_u n s) t d
        = dot BT (Bu n) (scaled_rows BT v beta n) (t mod BT) d"
    unfolding unf scaled_rows_def by (rule store_product [where A' = "Bu n", OF E p(2,3) _ T _ Bu])
  show "t div BT \<noteq> n \<Longrightarrow> fst (fwd_recompute_w_u_kernel E T K V BT BK BV k v beta A_w A_u n s) t = fst s t"
    unfolding unf by (rule ext) (rule store_product_keep [OF p(1,3)])
  show "t div BT \<noteq> n \<Longrightarrow> snd (fwd_recompute_w_u_kernel E T K V BT BK BV k v beta A_w A_u n s) t = snd s t"
    unfolding unf by (rule ext) (rule store_product_keep [OF p(2,3)])
qed

lemma fwd_recompute_rows:
  assumes E: "exact_casts E" "pow2_spec E" and p: "0 < BT" "T = NT * BT" "t < T"
    and A_w: "\<And>t j. t < T \<Longrightarrow> j < BT \<Longrightarrow> A_w t j = Bw (t div BT) (t mod BT) j"
    and A_u: "\<And>t j. t < T \<Longrightarrow> j < BT \<Longrightarrow> A_u t j = Bu (t div BT) (t mod BT) j"
  shows "c < K \<Longrightarrow> fst (fwd_recompute_w_u E BT T K V k v beta A_w A_u) t c
      = dot BT (Bw (t div BT)) (scaled_rows BT k beta (t div BT)) (t mod BT) c"
    and "d < V \<Longrightarrow> snd (fwd_recompute_w_u E BT T K V k v beta A_w A_u) t d
      = dot BT (Bu (t div BT)) (scaled_rows BT v beta (t div BT)) (t mod BT) d"
proof -
  let ?BK = "min (next_pow2 E K) 64" and ?BV = "min (next_pow2 E V) 64"
  have b: "0 < ?BK" "0 < ?BV" using pow2_block [OF E(2)] by auto
  have NT: "cdiv T BT = NT" using p by simp
  have tN: "t div BT < NT" using p by (simp add: less_mult_imp_div_less)
  note rows = recompute_rows [where Bw = Bw and Bu = Bu and A_w = A_w and A_u = A_u,
      OF E(1) b p(1) _ p(2,3) A_w A_u]
  show "c < K \<Longrightarrow> fst (fwd_recompute_w_u E BT T K V k v beta A_w A_u) t c
      = dot BT (Bw (t div BT)) (scaled_rows BT k beta (t div BT)) (t mod BT) c"
    unfolding fwd_recompute_w_u_def Let_def NT
    by (rule launch_writes [where m = "t div BT" and get = "\<lambda>s. fst s t c"])
       (simp_all add: rows(1) rows(3) tN)
  show "d < V \<Longrightarrow> snd (fwd_recompute_w_u E BT T K V k v beta A_w A_u) t d
      = dot BT (Bu (t div BT)) (scaled_rows BT v beta (t div BT)) (t mod BT) d"
    unfolding fwd_recompute_w_u_def Let_def NT
    by (rule launch_writes [where m = "t div BT" and get = "\<lambda>s. snd s t d"])
       (simp_all add: rows(2) rows(4) tN)
qed

section \<open>Properties\<close>

definition example_env :: kernel_env where
  "example_env = \<lparr>to_in = (\<lambda>x. x), to_f32 = (\<lambda>x. x), next_pow2 = (\<lambda>n. 2 ^ n), uninit = (\<lambda>t d. 7)\<rparr>"

lemma example_env_ok [simp]: "exact_casts example_env" "pow2_spec example_env"
  by (auto simp: example_env_def exact_casts_def pow2_spec_def intro: less_imp_le)

text \<open>C25: The \<open>A_w\<close> tile the forward kernel stores is the inverse of the chunk's unit lower
  triangular system: multiplied from the left by \<open>I\<close> plus the strictly lower part of the
  scaled key products, it gives the identity, in every chunk.\<close>

theorem stored_solution_is_inverse:
  assumes "exact_casts E" and "pow2_spec E" and "0 < BT" and "n < NT"
    and "fwd_prepare_wy_repr E BT (NT * BT) K V k v beta g = (w, u, A_w, A_u, Ao_w, Ao_u)"
    and "i < BT" and "j < BT"
  shows "(\<Sum>m<BT. ((if i = m then 1 else 0)
            + (if m < i then beta (n * BT + i) * (\<Sum>d<K. k (n * BT + i) d * k (n * BT + m) d) else 0))
          * A_w (n * BT + m) j) = (if i = j then 1 else 0)"
proof -
  have t: "n * BT + m < NT * BT" "(n * BT + m) div BT = n" "(n * BT + m) mod BT = m" if "m < BT" for m
    using block_end [OF assms(4), of BT] that by (simp_all add: algebra_simps)
  have A: "A_w (n * BT + m) j = add_eye (tl_solve BT (neg_strict_lower (chunk_gram K BT k beta n))) m j"
    if "m < BT" for m
    using fwd_prepare_wy_repr_rows(3) [OF assms(1,2,3) refl t(1) [OF that] assms(5,7)] t(2,3) [OF that]
    by (simp add: chunk_solution_def)
  have "(\<Sum>m<BT. ((if i = m then 1 else 0) - neg_strict_lower (chunk_gram K BT k beta n) i m)
      * A_w (n * BT + m) j) = (if i = j then 1 else 0)"
    using tl_wy.inverse_left [OF neg_strict_lower_strict assms(6), of "chunk_gram K BT k beta n" j]
    by (simp add: A)
  moreover have "((if i = m then 1 else 0) - neg_strict_lower (chunk_gram K BT k beta n) i m)
      = ((if i = m then 1 else 0)
         + (if m < i then beta (n * BT + i) * (\<Sum>d<K. k (n * BT + i) d * k (n * BT + m) d) else 0))" for m
    by (simp add: neg_strict_lower_def chunk_gram_def)
  ultimately show ?thesis by (simp only:)
qed

theorem stored_solution_is_inverse_witness:
  "\<exists>w u A_w A_u Ao_w Ao_u.
    fwd_prepare_wy_repr example_env 2 (3 * 2) 1 1 (\<lambda>t d. real t) (\<lambda>t d. 1) (\<lambda>t. 1) (\<lambda>t. 0)
      = (w, u, A_w, A_u, Ao_w, Ao_u) \<and>
    (\<Sum>m<2. ((if 1 = m then 1 else 0)
        + (if m < 1 then 1 * (\<Sum>d<(1::nat). real (1 * 2 + 1) * real (1 * 2 + m)) else 0))
      * A_w (1 * 2 + m) 0) = (if (1::nat) = 0 then 1 else 0)"
proof -
  obtain w u A_w A_u Ao_w Ao_u where r:
    "fwd_prepare_wy_repr example_env 2 (3 * 2) 1 1 (\<lambda>t d. real t) (\<lambda>t d. 1) (\<lambda>t. 1) (\<lambda>t. 0)
      = (w, u, A_w, A_u, Ao_w, Ao_u)"
    by (rule prod_cases6)
  show ?thesis
    using r stored_solution_is_inverse [OF example_env_ok _ _ r, of 1 1 0] by auto
qed

text \<open>The backward pass may recompute \<open>w\<close> and \<open>u\<close> instead of keeping them: from the solved
  matrices the forward pass stored, \<open>fwd_recompute_w_u\<close> returns the same \<open>w\<close> and \<open>u\<close>.\<close>

theorem recompute_matches_forward:
  assumes "exact_casts E" and "pow2_spec E" and "0 < BT" and "t < NT * BT"
    and "fwd_prepare_wy_repr E BT (NT * BT) K V k v beta g = (w, u, A_w, A_u, Ao_w, Ao_u)"
    and "fwd_recompute_w_u E BT (NT * BT) K V k v beta A_w A_u = (w', u')"
    and "c < K" and "d < V"
  shows "w' t c = w t c \<and> u' t d = u t d"
proof -
  note fwd = fwd_prepare_wy_repr_rows [OF assms(1,2,3) refl _ assms(5)]
  let ?Bw = "\<lambda>n. chunk_solution BT (chunk_gram K BT k beta n)"
  let ?Bu = "\<lambda>n. chunk_solution BT (decayed_gram K BT k beta g n)"
  note rec = fwd_recompute_rows [where Bw = ?Bw and Bu = ?Bu and A_w = A_w and A_u = A_u,
      OF assms(1,2,3) refl assms(4) fwd(3) fwd(4)]
  have w': "w' = fst (fwd_recompute_w_u E BT (NT * BT) K V k v beta A_w A_u)"
    and u': "u' = snd (fwd_recompute_w_u E BT (NT * BT) K V k v beta A_w A_u)"
    using assms(6) by simp_all
  have "w' t c = w t c"
    unfolding w' using rec(1) [OF _ _ _ _ assms(7)] fwd(1) [OF assms(4,7)] by simp
  moreover have "u' t d = u t d"
    unfolding u' using rec(2) [OF _ _ _ _ assms(8)] fwd(2) [OF assms(4,8)] by simp
  ultimately show ?thesis ..
qed

theorem recompute_matches_forward_witness:
  "\<exists>w u A_w A_u Ao_w Ao_u w' u'.
    fwd_prepare_wy_repr example_env 2 (3 * 2) 1 1 (\<lambda>t d. real t) (\<lambda>t d. 1) (\<lambda>t. 1) (\<lambda>t. 0)
      = (w, u, A_w, A_u, Ao_w, Ao_u) \<and>
    fwd_recompute_w_u example_env 2 (3 * 2) 1 1 (\<lambda>t d. real t) (\<lambda>t d. 1) (\<lambda>t. 1) A_w A_u = (w', u') \<and>
    w' 5 0 = w 5 0 \<and> u' 5 0 = u 5 0"
proof -
  obtain w u A_w A_u Ao_w Ao_u where r:
    "fwd_prepare_wy_repr example_env 2 (3 * 2) 1 1 (\<lambda>t d. real t) (\<lambda>t d. 1) (\<lambda>t. 1) (\<lambda>t. 0)
      = (w, u, A_w, A_u, Ao_w, Ao_u)"
    by (rule prod_cases6)
  obtain w' u' where r': "fwd_recompute_w_u example_env 2 (3 * 2) 1 1 (\<lambda>t d. real t) (\<lambda>t d. 1) (\<lambda>t. 1) A_w A_u
      = (w', u')"
    by (rule prod.exhaust)
  show ?thesis
    using r r' recompute_matches_forward [OF example_env_ok _ _ r r', of 5 0 0] by auto
qed

end
