(* ===== verification/ChunkKernels.thy ===== *)
theory ChunkKernels
  imports WYKernels
begin

text \<open>
  The forward pass of the chunked gated delta rule, \<open>lit_gpt/gated_delta_rule_ops/chunk.py\<close>:
  the kernel that carries the state from chunk to chunk and leaves the new values, the
  kernel that forms the outputs, their launch functions, the autograd function that chains
  them with the WY kernels, and the public entry point that pads the sequence.
\<close>

text \<open>The literal that turns natural logarithms into binary ones.\<close>

definition LOG2E :: real where
  "LOG2E = 144269504 / 100000000"

definition fwd_h_subchunk ::
  "kernel_env \<Rightarrow> nat \<Rightarrow> nat \<Rightarrow> nat \<Rightarrow> nat \<Rightarrow> nat \<Rightarrow> nat \<Rightarrow> nat \<Rightarrow> mat \<Rightarrow> mat \<Rightarrow> mat \<Rightarrow> vec
     \<Rightarrow> nat \<Rightarrow> nat \<Rightarrow> nat \<Rightarrow> mat \<Rightarrow> nat \<Rightarrow> mat \<times> mat \<Rightarrow> mat \<times> mat" where
  "fwd_h_subchunk E T K V BT BC BK BV k v w g i_k i_v i_t b_h i_c = (\<lambda>(v_new, b_h_cumsum).
     (let r0 = i_t * BT + i_c * BC;
          b_g_last = g (i_t * BT + BT - 1);
          b_g = (\<lambda>i. g (r0 + i));
          b_k = tr (ld k T K r0 (i_k * BK));
          b_w = mcast (to_in E) (scale_rows (ld w T K r0 (i_k * BK)) (\<lambda>i. exp2 (b_g i)));
          b_v = msub (ld v T V r0 (i_v * BV)) (dot BK b_w (mcast (to_in E) b_h));
          v_new' = st v_new T V r0 (i_v * BV) BC BV (mcast (to_in E) b_v);
          b_k = mcast (to_in E) (scale_cols b_k (\<lambda>i. exp2 (b_g_last - b_g i)))
      in (v_new', madd b_h_cumsum (dot BC b_k (mcast (to_in E) b_v)))))"

definition fwd_h_chunk ::
  "kernel_env \<Rightarrow> (real \<Rightarrow> real) \<Rightarrow> nat \<Rightarrow> nat \<Rightarrow> nat \<Rightarrow> nat \<Rightarrow> nat \<Rightarrow> nat \<Rightarrow> nat \<Rightarrow> mat \<Rightarrow> mat \<Rightarrow> mat \<Rightarrow> vec
     \<Rightarrow> nat \<Rightarrow> nat \<Rightarrow> nat \<Rightarrow> mat \<times> (nat \<Rightarrow> mat) \<times> mat \<Rightarrow> mat \<times> (nat \<Rightarrow> mat) \<times> mat" where
  "fwd_h_chunk E to_h T K V BT BC BK BV k v w g i_k i_v i_t = (\<lambda>(b_h, h, v_new).
     (let h' = h(i_t := st (h i_t) K V (i_k * BK) (i_v * BV) BK BV (mcast to_h b_h));
          b_g_last = g (i_t * BT + BT - 1);
          (v_new', b_h_cumsum) =
            for_loop (cdiv BT BC) (fwd_h_subchunk E T K V BT BC BK BV k v w g i_k i_v i_t b_h)
              (v_new, zero_tile);
          b_h' = madd (\<lambda>r c. b_h r c * exp2 b_g_last) b_h_cumsum
      in (b_h', h', v_new')))"

definition chunk_gated_delta_rule_fwd_kernel_h ::
  "kernel_env \<Rightarrow> (real \<Rightarrow> real) \<Rightarrow> (real \<Rightarrow> real) \<Rightarrow> nat \<Rightarrow> nat \<Rightarrow> nat \<Rightarrow> nat \<Rightarrow> nat \<Rightarrow> nat \<Rightarrow> nat \<Rightarrow> nat
     \<Rightarrow> mat \<Rightarrow> mat \<Rightarrow> mat \<Rightarrow> vec \<Rightarrow> mat option \<Rightarrow> nat \<Rightarrow> nat
     \<Rightarrow> (nat \<Rightarrow> mat) \<times> mat \<times> mat option \<Rightarrow> (nat \<Rightarrow> mat) \<times> mat \<times> mat option" where
  "chunk_gated_delta_rule_fwd_kernel_h E to_h to_ht T K V BT BC BK BV NT k v w g initial_state i_k i_v
     = (\<lambda>(h, v_new, final_state).
     (let b_h = (case initial_state of
                   None \<Rightarrow> zero_tile
                 | Some h0 \<Rightarrow> mcast (to_f32 E) (ld h0 K V (i_k * BK) (i_v * BV)));
          (b_h, h', v_new') =
            for_loop NT (fwd_h_chunk E to_h T K V BT BC BK BV k v w g i_k i_v) (b_h, h, v_new);
          final_state' = map_option (\<lambda>ht. st ht K V (i_k * BK) (i_v * BV) BK BV (mcast to_ht b_h)) final_state
      in (h', v_new', final_state')))"

definition chunk_fwd_h_fn ::
  "kernel_env \<Rightarrow> (real \<Rightarrow> real) \<Rightarrow> nat \<Rightarrow> nat \<Rightarrow> nat \<Rightarrow> nat \<Rightarrow> mat \<Rightarrow> mat \<Rightarrow> mat \<Rightarrow> vec
     \<Rightarrow> mat option \<Rightarrow> mat option \<Rightarrow> bool \<Rightarrow> ((nat \<Rightarrow> mat) \<times> mat \<times> mat option) result" where
  "chunk_fwd_h_fn E to_ht BT T K V k w u g initial_state final_state state_in_fp32 =
     (let BK = next_pow2 E K in
      if \<not> BK \<le> 256 then Inl AssertionError
      else let BV = (if BK > 128 then 16 else 32);
               BV = (if BK \<le> 64 then 64 else BV);
               BC = (if BK > 128 then 16 else 32);
               BC = (if BK \<le> 64 then 64 else BC);
               BC = min BT BC;
               NT = cdiv T BT; NK = cdiv K BK; NV = cdiv V BV
           in if NK \<noteq> 1 then Inl AssertionError
              else let to_h = (if state_in_fp32 then to_f32 E else to_in E)
                   in Inr (for_loop NK (\<lambda>i_k. for_loop NV (\<lambda>i_v.
                        chunk_gated_delta_rule_fwd_kernel_h E to_h to_ht T K V BT BC BK BV NT k u w g
                          initial_state i_k i_v))
                        ((\<lambda>n. uninit E), uninit E, final_state)))"

definition chunk_linear_attn_fwd_kernel_o ::
  "kernel_env \<Rightarrow> nat \<Rightarrow> nat \<Rightarrow> nat \<Rightarrow> nat \<Rightarrow> nat \<Rightarrow> nat \<Rightarrow> real \<Rightarrow> mat \<Rightarrow> mat \<Rightarrow> mat \<Rightarrow> vec \<Rightarrow> (nat \<Rightarrow> mat)
     \<Rightarrow> nat \<Rightarrow> nat \<Rightarrow> mat \<Rightarrow> mat" where
  "chunk_linear_attn_fwd_kernel_o E T K V BT BK BV scale q k v g h i_v i_t out =
     (let (b_o, b_s) = for_loop (cdiv K BK) (\<lambda>i_k (b_o, b_s).
            let b_q = mcast (to_in E) (\<lambda>i d. ld q T K (i_t * BT) (i_k * BK) i d * scale);
                b_k = tr (ld k T K (i_t * BT) (i_k * BK));
                b_h = ld (h i_t) K V (i_k * BK) (i_v * BV)
            in (madd b_o (dot BK b_q b_h), madd b_s (dot BK b_q b_k))) (zero_tile, zero_tile);
          b_g = (\<lambda>i. g (i_t * BT + i));
          b_o = scale_rows b_o (\<lambda>i. exp2 (b_g i));
          b_s = (\<lambda>i j. b_s i j * exp2 (b_g i - b_g j));
          b_s = (\<lambda>i j. if i \<ge> j then b_s i j else 0);
          b_v = ld v T V (i_t * BT) (i_v * BV);
          b_o = madd b_o (dot BT (mcast (to_in E) b_s) b_v)
      in st out T V (i_t * BT) (i_v * BV) BT BV (mcast (to_in E) b_o))"

definition chunk_fwd_o_fn ::
  "kernel_env \<Rightarrow> nat \<Rightarrow> nat \<Rightarrow> nat \<Rightarrow> nat \<Rightarrow> mat \<Rightarrow> mat \<Rightarrow> mat \<Rightarrow> vec \<Rightarrow> (nat \<Rightarrow> mat) \<Rightarrow> mat" where
  "chunk_fwd_o_fn E BT T K V q k v_new g h =
     (let BK = min (next_pow2 E K) 64;
          BV = min (next_pow2 E K) 64;
          NV = cdiv V BV;
          NT = cdiv T BT
      in for_loop NV (\<lambda>i_v. for_loop NT (\<lambda>i_t.
           chunk_linear_attn_fwd_kernel_o E T K V BT BK BV (real K powr (- (1 / 2))) q k v_new g h i_v i_t))
           (uninit E))"

definition chunk_cumsum :: "kernel_env \<Rightarrow> nat \<Rightarrow> vec \<Rightarrow> vec" where
  "chunk_cumsum E BT g =
     (\<lambda>t. cumsum (chunk_view BT (t div BT) (\<lambda>t. to_f32 E (g t))) (t mod BT) * LOG2E)"

definition ChunkGatedDeltaRuleFunction_forward ::
  "kernel_env \<Rightarrow> (real \<Rightarrow> real) \<Rightarrow> nat \<Rightarrow> nat \<Rightarrow> nat \<Rightarrow> nat \<Rightarrow> mat \<Rightarrow> mat \<Rightarrow> mat \<Rightarrow> vec \<Rightarrow> vec
     \<Rightarrow> mat option \<Rightarrow> bool \<Rightarrow> (mat \<times> mat option) result" where
  "ChunkGatedDeltaRuleFunction_forward E to_ht BT T K V q k v beta g initial_state output_final_state =
     (if BT = 0 \<or> T mod BT \<noteq> 0 then Inl RuntimeError
      else let g = chunk_cumsum E BT g;
               (w, u, A_w, A_u, A_w_original, A_u_original) = fwd_prepare_wy_repr E BT T K V k v beta g;
               final_state = None
           in rbind (chunk_fwd_h_fn E to_ht BT T K V k w u g initial_state final_state False)
                (\<lambda>(h, v_new, final_state). 
                   Inr (mcast (to_in E) (chunk_fwd_o_fn E BT T K V q k v_new g h), final_state)))"

text \<open>\<open>F.pad\<close> on the sequence axis: rows from \<open>L\<close> on are zero.\<close>

definition pad_rows :: "nat \<Rightarrow> mat \<Rightarrow> mat" where
  "pad_rows L x = (\<lambda>t d. if t < L then x t d else 0)"

definition pad_vec :: "nat \<Rightarrow> vec \<Rightarrow> vec" where
  "pad_vec L x = (\<lambda>t. if t < L then x t else 0)"

text \<open>
  \<open>g.squeeze(-1)\<close> undoes the padding's \<open>unsqueeze\<close>; without padding it leaves a sequence axis
  alone, unless that axis has length one, and then the \<open>rearrange\<close> of the autograd function
  has no axis to split.
\<close>

definition chunk_gated_delta_rule ::
  "kernel_env \<Rightarrow> (real \<Rightarrow> real) \<Rightarrow> nat \<Rightarrow> nat \<Rightarrow> nat \<Rightarrow> nat \<Rightarrow> mat \<Rightarrow> mat \<Rightarrow> mat \<Rightarrow> vec \<Rightarrow> vec
     \<Rightarrow> mat option \<Rightarrow> bool \<Rightarrow> (mat \<times> mat option) result" where
  "chunk_gated_delta_rule E to_ht BT L K V q k v beta g initial_state output_final_state =
     (if BT = 0 then Inl ZeroDivisionError
      else if BT = 1 \<and> L = 1 then Inl RuntimeError
      else if L mod BT \<noteq> 0 then
        ChunkGatedDeltaRuleFunction_forward E to_ht BT (L + (BT - L mod BT)) K V
          (pad_rows L q) (pad_rows L k) (pad_rows L v) (pad_vec L beta) (pad_vec L g)
          initial_state output_final_state
      else ChunkGatedDeltaRuleFunction_forward E to_ht BT L K V q k v beta g
             initial_state output_final_state)"

section \<open>The state kernel\<close>

lemma sum_trunc: "K \<le> (B::nat) \<Longrightarrow> (\<Sum>l<B. if l < K then f l else 0) = (\<Sum>l<K. f l :: real)"
  by (intro sum.mono_neutral_cong_right) auto

text \<open>The values one chunk adds, and the state after it, written without tiles.\<close>

definition new_value :: "nat \<Rightarrow> nat \<Rightarrow> mat \<Rightarrow> mat \<Rightarrow> vec \<Rightarrow> mat \<Rightarrow> nat \<Rightarrow> mat" where
  "new_value K BT w u g S n =
     (\<lambda>i c. u (n * BT + i) c - exp2 (g (n * BT + i)) * (\<Sum>d<K. w (n * BT + i) d * S d c))"

definition next_state :: "nat \<Rightarrow> nat \<Rightarrow> mat \<Rightarrow> mat \<Rightarrow> mat \<Rightarrow> vec \<Rightarrow> mat \<Rightarrow> nat \<Rightarrow> mat" where
  "next_state K BT k w u g S n =
     (\<lambda>r c. S r c * exp2 (g (n * BT + BT - 1)) +
        (\<Sum>j<BT. k (n * BT + j) r * exp2 (g (n * BT + BT - 1) - g (n * BT + j)) * new_value K BT w u g S n j c))"

definition h_states :: "nat \<Rightarrow> nat \<Rightarrow> mat \<Rightarrow> mat \<Rightarrow> mat \<Rightarrow> vec \<Rightarrow> mat \<Rightarrow> nat \<Rightarrow> mat" where
  "h_states K BT k w u g S0 n = for_loop n (\<lambda>n S. next_state K BT k w u g S n) S0"

lemma st_col:
  assumes "0 < B" "t < rows" "c < cols"
  shows "st M rows cols r0 (b * B) R B blk t c =
    (if r0 \<le> t \<and> t < r0 + R \<and> c div B = b then blk (t - r0) (c mod B) else M t c)"
  using assms block_rows_iff [OF assms(1), of b c] block_offset [of c B b] by (auto simp: st_def)

lemma subchunks:
  assumes E: "exact_casts E" and p: "0 < BC" "0 < BV" "K \<le> BK" "BT = M * BC" "(n + 1) * BT \<le> T"
    and c: "c < V" "c div BV = i_v"
    and S: "\<And>r. r < K \<Longrightarrow> b_h r (c mod BV) = S r c"
    and m: "m \<le> M"
  shows "let res = for_loop m (fwd_h_subchunk E T K V BT BC BK BV k u w g 0 i_v n b_h) (v_new, zero_tile) in
    (\<forall>t < T. fst res t c = (if n * BT \<le> t \<and> t < n * BT + m * BC
        then new_value K BT w u g S n (t - n * BT) c else v_new t c)) \<and>
    (\<forall>r < K. snd res r (c mod BV) =
        (\<Sum>j<m * BC. k (n * BT + j) r * exp2 (g (n * BT + BT - 1) - g (n * BT + j)) * new_value K BT w u g S n j c))"
  using m
proof (induction m)
  case 0
  then show ?case by (simp add: zero_tile_def)
next
  case (Suc m)
  define r0 where "r0 = n * BT + m * BC"
  let ?x = "new_value K BT w u g S n"
  let ?f = "fwd_h_subchunk E T K V BT BC BK BV k u w g 0 i_v n b_h"
  obtain vn cum where prev: "for_loop m ?f (v_new, zero_tile) = (vn, cum)" by fastforce
  have "Suc m * BC \<le> BT" using Suc.prems p(4) by (simp del: mult_Suc)
  then have r0T: "r0 + i < T" if "i < BC" for i
    using p(5) that by (simp add: r0_def algebra_simps)
  have cV: "c mod BV < BV" "i_v * BV + c mod BV = c" using p(2) c(2) by auto
  define b_v where "b_v = msub (ld u T V r0 (i_v * BV)) (dot BK (mcast (to_in E)
      (scale_rows (ld w T K r0 (0 * BK)) (\<lambda>i. exp2 (g (r0 + i))))) (mcast (to_in E) b_h))"
  have b_v: "b_v i (c mod BV) = ?x (m * BC + i) c" if i: "i < BC" for i
  proof -
    have "(\<Sum>l<BK. (if l < K then w (r0 + i) l else 0) * exp2 (g (r0 + i)) * b_h l (c mod BV))
        = (\<Sum>l<BK. if l < K then w (r0 + i) l * exp2 (g (r0 + i)) * b_h l (c mod BV) else 0)"
      by (intro sum.cong) auto
    also have "\<dots> = (\<Sum>l<K. w (r0 + i) l * exp2 (g (r0 + i)) * S l c)"
      unfolding sum_trunc [OF p(3)] by (intro sum.cong) (auto simp: S)
    also have "\<dots> = exp2 (g (r0 + i)) * (\<Sum>d<K. w (r0 + i) d * S d c)"
      by (simp add: sum_distrib_left algebra_simps)
    finally have "(\<Sum>l<BK. (if l < K then w (r0 + i) l else 0) * exp2 (g (r0 + i)) * b_h l (c mod BV))
        = exp2 (g (r0 + i)) * (\<Sum>d<K. w (r0 + i) d * S d c)" .
    moreover have "?x (m * BC + i) c = u (r0 + i) c - exp2 (g (r0 + i)) * (\<Sum>d<K. w (r0 + i) d * S d c)"
      by (simp add: new_value_def r0_def add.assoc)
    ultimately show ?thesis
      using E r0T [OF i] c(1) cV by (simp add: b_v_def tile_defs ld_def exact_casts_def)
  qed
  have res: "for_loop (Suc m) ?f (v_new, zero_tile) =
    (st vn T V r0 (i_v * BV) BC BV (mcast (to_in E) b_v),
     madd cum (dot BC (mcast (to_in E) (scale_cols (tr (ld k T K r0 (0 * BK)))
        (\<lambda>i. exp2 (g (n * BT + BT - 1) - g (r0 + i))))) (mcast (to_in E) b_v)))"
    by (simp add: prev fwd_h_subchunk_def Let_def r0_def b_v_def)
  have IH1: "\<forall>t < T. vn t c = (if n * BT \<le> t \<and> t < r0 then ?x (t - n * BT) c else v_new t c)"
    and IH2: "\<forall>r < K. cum r (c mod BV) =
        (\<Sum>j<m * BC. k (n * BT + j) r * exp2 (g (n * BT + BT - 1) - g (n * BT + j)) * ?x j c)"
    using Suc prev by (simp_all add: Let_def r0_def)
  have "st vn T V r0 (i_v * BV) BC BV (mcast (to_in E) b_v) t c =
      (if n * BT \<le> t \<and> t < n * BT + Suc m * BC then ?x (t - n * BT) c else v_new t c)" if t: "t < T" for t
  proof -
    have "t - n * BT = m * BC + (t - r0)" if "r0 \<le> t" using that by (simp add: r0_def)
    then show ?thesis
      using E IH1 t b_v [of "t - r0"] c(2)
      by (auto simp: st_col [OF p(2) t c(1)] mcast_def exact_casts_def r0_def)
  qed
  moreover have "madd cum (dot BC (mcast (to_in E) (scale_cols (tr (ld k T K r0 (0 * BK)))
        (\<lambda>i. exp2 (g (n * BT + BT - 1) - g (r0 + i))))) (mcast (to_in E) b_v)) r (c mod BV)
      = (\<Sum>j<Suc m * BC. k (n * BT + j) r * exp2 (g (n * BT + BT - 1) - g (n * BT + j)) * ?x j c)"
    if r: "r < K" for r
  proof -
    let ?F = "\<lambda>j. k (n * BT + j) r * exp2 (g (n * BT + BT - 1) - g (n * BT + j)) * ?x j c"
    have "(\<Sum>j<Suc m * BC. ?F j) = (\<Sum>j<m * BC. ?F j) + (\<Sum>i<BC. ?F (m * BC + i))"
      by (simp add: sum_lessThan_add add.commute [of BC])
    then show ?thesis
      using E IH2 r r0T b_v
      by (simp add: tile_defs ld_def exact_casts_def r0_def add.assoc)
  qed
  ultimately show ?case unfolding res Let_def fst_conv snd_conv by blast
qed


text \<open>The same loop leaves every column of another program alone.\<close>

lemma subchunks_keep:
  assumes "0 < BV" "c div BV \<noteq> i_v"
  shows "fst (for_loop m (fwd_h_subchunk E T K V BT BC BK BV k u w g i_k i_v n b_h) (v_new, cum)) t c = v_new t c"
proof (induction m)
  case 0
  then show ?case by simp
next
  case (Suc m)
  obtain vn cm where prev:
    "for_loop m (fwd_h_subchunk E T K V BT BC BK BV k u w g i_k i_v n b_h) (v_new, cum) = (vn, cm)"
    by fastforce
  have "fst (for_loop (Suc m) (fwd_h_subchunk E T K V BT BC BK BV k u w g i_k i_v n b_h) (v_new, cum)) t c
      = fst (fwd_h_subchunk E T K V BT BC BK BV k u w g i_k i_v n b_h m (vn, cm)) t c"
    by (simp only: for_loop.simps prev)
  also have "\<dots> = vn t c"
    using block_rows_iff [OF assms(1), of i_v c] assms(2)
    by (auto simp: fwd_h_subchunk_def Let_def st_def)
  also have "\<dots> = v_new t c" using Suc prev by simp
  finally show ?case .
qed

lemma chunk_loop_keep:
  assumes "0 < BV" "c div BV \<noteq> i_v"
    and "for_loop m (fwd_h_chunk E to_h T K V BT BC BK BV k u w g i_k i_v) (b_h, h, v_new) = (b_h', h', v_new')"
  shows "v_new' t c = v_new t c \<and> h' n r c = h n r c"
  using assms(3)
proof (induction m arbitrary: b_h' h' v_new')
  case 0
  then show ?case by simp
next
  case (Suc m)
  obtain b1 h1 v1 where prev:
    "for_loop m (fwd_h_chunk E to_h T K V BT BC BK BV k u w g i_k i_v) (b_h, h, v_new) = (b1, h1, v1)"
    by (rule prod_cases3)
  have keep: "fst (for_loop j (fwd_h_subchunk E T K V BT BC BK BV k u w g i_k i_v m b1) (v1, zero_tile)) t c = v1 t c" for j
    by (rule subchunks_keep [OF assms(1,2)])
  have "fwd_h_chunk E to_h T K V BT BC BK BV k u w g i_k i_v m (b1, h1, v1) = (b_h', h', v_new')"
    using Suc.prems by (simp only: for_loop.simps prev)
  then show ?case
    using Suc.IH [OF prev] keep [of "cdiv BT BC"] block_rows_iff [OF assms(1), of i_v c] assms(2)
    by (auto simp: fwd_h_chunk_def Let_def st_def split: prod.splits)
qed

lemma chunk_loop:
  assumes E: "exact_casts E" and p: "0 < BC" "0 < BV" "K \<le> BK" "BC dvd BT" "NT * BT \<le> T"
    and c: "c < V" "c div BV = i_v"
    and S: "\<And>r. r < K \<Longrightarrow> b_h r (c mod BV) = S0 r c"
    and m: "m \<le> NT"
    and res: "for_loop m (fwd_h_chunk E (\<lambda>x. x) T K V BT BC BK BV k u w g 0 i_v) (b_h, h, v_new) = (b_h', h', v_new')"
  shows "(\<forall>r < K. b_h' r (c mod BV) = h_states K BT k w u g S0 m r c) \<and>
    (\<forall>n < m. \<forall>r < K. h' n r c = h_states K BT k w u g S0 n r c) \<and>
    (\<forall>t < m * BT. v_new' t c = new_value K BT w u g (h_states K BT k w u g S0 (t div BT)) (t div BT) (t mod BT) c)"
  using m res
proof (induction m arbitrary: b_h' h' v_new')
  case 0
  then show ?case using S by (simp add: h_states_def)
next
  case (Suc m)
  let ?H = "h_states K BT k w u g S0"
  let ?x = "\<lambda>n. new_value K BT w u g (?H n) n"
  obtain b1 h1 v1 where prev:
    "for_loop m (fwd_h_chunk E (\<lambda>x. x) T K V BT BC BK BV k u w g 0 i_v) (b_h, h, v_new) = (b1, h1, v1)"
    by (rule prod_cases3)
  note IH = Suc.IH [OF Suc_leD [OF Suc.prems(1)] prev]
  obtain M where M: "BT = M * BC" using p(4) by (metis dvd_def mult.commute)
  have cd: "cdiv BT BC = M" using p(1) M by simp
  obtain v2 cum where sub:
    "for_loop M (fwd_h_subchunk E T K V BT BC BK BV k u w g 0 i_v m b1) (v1, zero_tile) = (v2, cum)"
    by fastforce
  have T: "(m + 1) * BT \<le> T"
    using mult_right_mono [of "Suc m" NT BT] Suc.prems(1) p(5) by simp
  have hyp: "\<And>r. r < K \<Longrightarrow> b1 r (c mod BV) = ?H m r c" using IH by blast
  have sc: "\<forall>t < T. v2 t c = (if m * BT \<le> t \<and> t < m * BT + BT then ?x m (t - m * BT) c else v1 t c)"
    "\<forall>r < K. cum r (c mod BV) =
        (\<Sum>j<BT. k (m * BT + j) r * exp2 (g (m * BT + BT - 1) - g (m * BT + j)) * ?x m j c)"
    using subchunks [where b_h = b1 and S = "?H m" and w = w and u = u and g = g and k = k and v_new = v1,
        OF E p(1,2,3) M T c hyp order_refl] sub
    by (simp_all add: Let_def M [symmetric])
  have out: "b_h' = madd (\<lambda>r c. b1 r c * exp2 (g (m * BT + BT - 1))) cum"
    "h' = h1(m := st (h1 m) K V (0 * BK) (i_v * BV) BK BV (mcast (\<lambda>x. x) b1))" "v_new' = v2"
    using Suc.prems(2) by (auto simp only: for_loop.simps prev) (auto simp: fwd_h_chunk_def Let_def cd sub)
  have "b_h' r (c mod BV) = ?H (Suc m) r c" if "r < K" for r
    using that hyp sc(2) by (simp add: out madd_def h_states_def next_state_def)
  moreover have "h' n r c = ?H n r c" if "n < Suc m" "r < K" for n r
  proof (cases "n = m")
    case True
    then show ?thesis
      using that(2) p(3) hyp c by (simp add: out st_col [OF p(2) that(2) c(1)] mcast_def)
  next
    case False
    then show ?thesis using that IH by (simp add: out)
  qed
  moreover have "v_new' t c = ?x (t div BT) (t mod BT) c" if t: "t < Suc m * BT" for t
  proof (cases "t < m * BT")
    case True
    then have "t < T" using T by (simp add: algebra_simps)
    then show ?thesis using True IH sc(1) by (simp add: out)
  next
    case False
    then have bt: "0 < BT" using t by (cases BT) auto
    have r: "m * BT \<le> t" "t < m * BT + BT" using False t by (simp_all add: add.commute)
    then have tm: "t div BT = m" using block_rows_iff [OF bt, of m t] by blast
    have "t < T" using r T by (simp add: algebra_simps)
    then show ?thesis using r sc(1) block_offset [OF tm] by (simp add: out tm)
  qed
  ultimately show ?case by blast
qed

section \<open>The launch of the state kernel\<close>

lemma kernel_h_column:
  assumes E: "exact_casts E" and p: "0 < BC" "0 < BV" "K \<le> BK" "BC dvd BT" "NT * BT \<le> T"
    and c: "c < V" "c div BV = i_v"
    and S0: "S0 = (case initial_state of None \<Rightarrow> zero_tile | Some h0 \<Rightarrow> h0)"
    and res: "chunk_gated_delta_rule_fwd_kernel_h E (\<lambda>x. x) to_ht T K V BT BC BK BV NT k u w g initial_state 0 i_v s
      = (h', v_new', f')"
  shows "(n < NT \<longrightarrow> r < K \<longrightarrow> h' n r c = h_states K BT k w u g S0 n r c) \<and>
    (t < NT * BT \<longrightarrow> v_new' t c = new_value K BT w u g (h_states K BT k w u g S0 (t div BT)) (t div BT) (t mod BT) c)"
proof -
  obtain h v_new f where s: "s = (h, v_new, f)" by (rule prod_cases3)
  let ?b = "case initial_state of None \<Rightarrow> zero_tile
    | Some h0 \<Rightarrow> mcast (to_f32 E) (ld h0 K V (0 * BK) (i_v * BV))"
  obtain b1 h1 v1 where loop:
    "for_loop NT (fwd_h_chunk E (\<lambda>x. x) T K V BT BC BK BV k u w g 0 i_v) (?b, h, v_new) = (b1, h1, v1)"
    by (rule prod_cases3)
  have "i_v * BV + c mod BV = c" using c(2) by auto
  then have b: "\<And>r. r < K \<Longrightarrow> ?b r (c mod BV) = S0 r c"
    using E c(1) by (auto simp: S0 zero_tile_def mcast_def exact_casts_def ld_def split: option.splits)
  have "h1 = h'" "v1 = v_new'"
    using res loop by (simp_all add: chunk_gated_delta_rule_fwd_kernel_h_def s Let_def)
  then show ?thesis
    using chunk_loop [where b_h = ?b and ?S0.0 = S0, OF E p c b order_refl loop] by auto
qed

lemma kernel_h_keep:
  assumes "0 < BV" "c div BV \<noteq> i_v"
    and res: "chunk_gated_delta_rule_fwd_kernel_h E to_h to_ht T K V BT BC BK BV NT k u w g initial_state i_k i_v s
      = (h', v_new', f')"
  shows "h' n r c = fst s n r c \<and> v_new' t c = fst (snd s) t c"
proof -
  obtain h v_new f where s: "s = (h, v_new, f)" by (rule prod_cases3)
  let ?b = "case initial_state of None \<Rightarrow> zero_tile
    | Some h0 \<Rightarrow> mcast (to_f32 E) (ld h0 K V (i_k * BK) (i_v * BV))"
  obtain b1 h1 v1 where loop:
    "for_loop NT (fwd_h_chunk E to_h T K V BT BC BK BV k u w g i_k i_v) (?b, h, v_new) = (b1, h1, v1)"
    by (rule prod_cases3)
  have "h1 = h'" "v1 = v_new'"
    using res loop by (simp_all add: chunk_gated_delta_rule_fwd_kernel_h_def s Let_def)
  then show ?thesis
    using chunk_loop_keep [OF assms(1,2) loop] by (simp add: s)
qed

lemma kernel_h_final:
  "snd (snd (chunk_gated_delta_rule_fwd_kernel_h E to_h to_ht T K V BT BC BK BV NT k u w g initial_state i_k i_v s))
     = None \<longleftrightarrow> snd (snd s) = None"
  by (cases s) (auto simp: chunk_gated_delta_rule_fwd_kernel_h_def Let_def split: prod.splits)

lemma two_power_dvd_min:
  fixes BT :: nat
  assumes "BT = 2 ^ m" "c = 2 ^ e"
  shows "min BT c dvd BT"
  using assms by (cases "m \<le> e") (auto simp: min_def le_imp_power_dvd)

lemma chunk_fwd_h_fn_columns:
  assumes E: "exact_casts E" "pow2_spec E" and K: "0 < K" "next_pow2 E K \<le> 256"
    and BT: "BT = 2 ^ e" and T: "T = NT * BT"
    and S0: "S0 = (case initial_state of None \<Rightarrow> zero_tile | Some h0 \<Rightarrow> h0)"
  shows "\<exists>h v_new. chunk_fwd_h_fn E to_ht BT T K V k w u g initial_state None fp32 = Inr (h, v_new, None) \<and>
    (\<forall>n < NT. \<forall>r < K. \<forall>c < V. h n r c = h_states K BT k w u g S0 n r c) \<and>
    (\<forall>t < T. \<forall>c < V. v_new t c = new_value K BT w u g (h_states K BT k w u g S0 (t div BT)) (t div BT) (t mod BT) c)"
proof -
  let ?BK = "next_pow2 E K"
  define BV :: nat where "BV = (if ?BK \<le> 64 then 64 else if ?BK > 128 then 16 else 32)"
  define BC0 :: nat where "BC0 = (if ?BK \<le> 64 then 64 else if ?BK > 128 then 16 else 32)"
  define BC where "BC = min BT BC0"
  have BC0: "BC0 = 2 ^ (if ?BK \<le> 64 then 6 else if ?BK > 128 then 4 else 5)"
    by (simp add: BC0_def)
  have KB: "K \<le> ?BK" using E(2) by (simp add: pow2_spec_def)
  have cd: "cdiv K ?BK = 1" by (rule cdiv_one [OF K(1) KB])
  have bt: "0 < BT" by (simp add: BT)
  have p: "0 < BC" "0 < BV" "K \<le> ?BK" "BC dvd BT" "NT * BT \<le> T"
    using bt KB two_power_dvd_min [OF BT BC0] by (simp_all add: BC_def BC0_def BV_def T)
  have toh: "(if fp32 then to_f32 E else to_in E) = (\<lambda>x. x)"
    using E(1) by (simp add: exact_casts_def)
  let ?prog = "\<lambda>i_v. chunk_gated_delta_rule_fwd_kernel_h E (\<lambda>x. x) to_ht T K V BT BC ?BK BV NT k u w g initial_state 0 i_v"
  let ?s = "((\<lambda>n. uninit E), uninit E, None :: mat option)"
  have NT: "cdiv T BT = NT" using bt by (simp add: T)
  have eq: "chunk_fwd_h_fn E to_ht BT T K V k w u g initial_state None fp32
      = Inr (for_loop (cdiv V BV) ?prog ?s)"
    using K(2) by (simp add: chunk_fwd_h_fn_def Let_def cd NT toh BC_def BC0_def BV_def)
  obtain h v_new f where run: "for_loop (cdiv V BV) ?prog ?s = (h, v_new, f)" by (rule prod_cases3)
  have fin: "snd (snd (for_loop N ?prog ?s)) = None" for N
    by (induction N) (simp_all add: kernel_h_final)
  have f: "f = None" using fin [of "cdiv V BV"] run by simp
  have colh: "h n r c = h_states K BT k w u g S0 n r c" if "n < NT" "r < K" "c < V" for n r c
  proof -
    have "fst (for_loop (cdiv V BV) ?prog ?s) n r c = h_states K BT k w u g S0 n r c"
    proof (rule launch_writes [where m = "c div BV" and get = "\<lambda>s. fst s n r c"])
      fix s show "fst (?prog (c div BV) s) n r c = h_states K BT k w u g S0 n r c"
        using kernel_h_column [OF E(1) p that(3) refl S0, where s = s and n = n and r = r] that
        by (metis prod.collapse)
    next
      fix i s assume "i < cdiv V BV" "i \<noteq> c div BV"
      then show "fst (?prog i s) n r c = fst s n r c"
        using kernel_h_keep [OF p(2), where c = c and i_v = i and s = s] by (metis prod.collapse)
    qed (rule block_in_cdiv [OF p(2) that(3)])
    then show ?thesis by (simp add: run)
  qed
  have colv: "v_new t c = new_value K BT w u g (h_states K BT k w u g S0 (t div BT)) (t div BT) (t mod BT) c"
    if "t < T" "c < V" for t c
  proof -
    have "fst (snd (for_loop (cdiv V BV) ?prog ?s)) t c
        = new_value K BT w u g (h_states K BT k w u g S0 (t div BT)) (t div BT) (t mod BT) c"
    proof (rule launch_writes [where m = "c div BV" and get = "\<lambda>s. fst (snd s) t c"])
      fix s show "fst (snd (?prog (c div BV) s)) t c
          = new_value K BT w u g (h_states K BT k w u g S0 (t div BT)) (t div BT) (t mod BT) c"
        using kernel_h_column [OF E(1) p that(2) refl S0, where s = s and t = t] that T
        by (metis prod.collapse)
    next
      fix i s assume "i < cdiv V BV" "i \<noteq> c div BV"
      then show "fst (snd (?prog i s)) t c = fst (snd s) t c"
        using kernel_h_keep [OF p(2), where c = c and i_v = i and s = s] by (metis prod.collapse)
    qed (rule block_in_cdiv [OF p(2) that(2)])
    then show ?thesis by (simp add: run)
  qed
  show ?thesis
    using eq run f colh colv by auto
qed


section \<open>The output kernel\<close>

lemma for_loop_madd2:
  "for_loop n (\<lambda>i (A, B). (madd A (f i), madd B (g i))) (M, N)
     = ((\<lambda>r c. M r c + (\<Sum>i<n. f i r c)), (\<lambda>r c. N r c + (\<Sum>i<n. g i r c)))"
  by (induction n) (auto simp: madd_def fun_eq_iff)

lemma kernel_o_value:
  assumes E: "exact_casts E" and p: "0 < BK" "0 < BV" "0 < BT" "(n + 1) * BT \<le> T"
    and t: "t div BT = n" and c: "c < V"
  shows "chunk_linear_attn_fwd_kernel_o E T K V BT BK BV scale q k v g h (c div BV) n out t c
    = exp2 (g t) * (\<Sum>d<K. q t d * scale * h n d c)
      + (\<Sum>j\<le>t mod BT. exp2 (g t - g (n * BT + j)) * (\<Sum>d<K. q t d * scale * k (n * BT + j) d) * v (n * BT + j) c)"
proof -
  let ?X = "\<lambda>i_k. dot BK (mcast (to_in E) (\<lambda>i d. ld q T K (n * BT) (i_k * BK) i d * scale))
      (ld (h n) K V (i_k * BK) (c div BV * BV))"
  let ?Y = "\<lambda>i_k. dot BK (mcast (to_in E) (\<lambda>i d. ld q T K (n * BT) (i_k * BK) i d * scale))
      (tr (ld k T K (n * BT) (i_k * BK)))"
  define i where "i = t mod BT"
  have ti: "t = n * BT + i" "i < BT" "t < T"
    using t p(3,4) div_mult_mod_eq [of t BT] mod_less_divisor [OF p(3), of t] by (auto simp: i_def)
  have j: "n * BT + j < T" if "j < BT" for j using that p(4) by simp
  have cV: "c div BV * BV + c mod BV = c" by simp
  have X: "(\<Sum>i_k<cdiv K BK. ?X i_k i (c mod BV)) = (\<Sum>d<K. q t d * scale * h n d c)"
  proof -
    have "(\<Sum>i_k<cdiv K BK. ?X i_k i (c mod BV)) =
      (\<Sum>b<cdiv K BK. \<Sum>l<BK. (if b * BK + l < K then q t (b * BK + l) * scale else 0)
        * (if b * BK + l < K then h n (b * BK + l) c else 0))"
      unfolding dot_def using E c cV ti
      by (intro sum.cong refl) (simp add: mcast_def exact_casts_def ld_def)
    then show ?thesis
      by (simp only: blocked_dot [OF p(1), where n = K and x = "\<lambda>d. q t d * scale" and y = "\<lambda>d. h n d c"
            and F = "\<lambda>d. q t d * scale * h n d c", OF refl])
  qed
  have Y: "(\<Sum>i_k<cdiv K BK. ?Y i_k i j) = (\<Sum>d<K. q t d * scale * k (n * BT + j) d)" if "j < BT" for j
  proof -
    have "(\<Sum>i_k<cdiv K BK. ?Y i_k i j) =
      (\<Sum>b<cdiv K BK. \<Sum>l<BK. (if b * BK + l < K then q t (b * BK + l) * scale else 0)
        * (if b * BK + l < K then k (n * BT + j) (b * BK + l) else 0))"
      unfolding dot_def tr_def using E ti(1,3) j [OF that]
      by (intro sum.cong refl) (simp add: mcast_def exact_casts_def ld_def)
    then show ?thesis
      by (simp only: blocked_dot [OF p(1), where n = K and x = "\<lambda>d. q t d * scale" and y = "\<lambda>d. k (n * BT + j) d"
            and F = "\<lambda>d. q t d * scale * k (n * BT + j) d", OF refl])
  qed
  have stc: "st out T V (n * BT) (c div BV * BV) BT BV blk t c = blk i (c mod BV)" for blk
    using block_rows_iff [OF p(3), of n t] t block_offset [OF t]
    by (simp add: st_col [OF p(2) ti(3) c] i_def)
  have casts: "to_in E = (\<lambda>x. x)" using E by (simp add: exact_casts_def)
  have gt: "g (n * BT + i) = g t" by (simp add: ti(1) [symmetric])
  have "chunk_linear_attn_fwd_kernel_o E T K V BT BK BV scale q k v g h (c div BV) n out t c
    = (\<Sum>i_k<cdiv K BK. ?X i_k i (c mod BV)) * exp2 (g t)
      + (\<Sum>j<BT. (if j \<le> i then (\<Sum>i_k<cdiv K BK. ?Y i_k i j) * exp2 (g t - g (n * BT + j)) else 0)
          * ld v T V (n * BT) (c div BV * BV) j (c mod BV))"
    unfolding chunk_linear_attn_fwd_kernel_o_def Let_def for_loop_madd2 prod.case stc casts
    by (simp add: mcast_def zero_tile_def madd_def scale_rows_def gt) (simp add: dot_def mcast_def zero_tile_def gt cong: if_cong)
  also have "(\<Sum>j<BT. (if j \<le> i then (\<Sum>i_k<cdiv K BK. ?Y i_k i j) * exp2 (g t - g (n * BT + j)) else 0)
          * ld v T V (n * BT) (c div BV * BV) j (c mod BV))
      = (\<Sum>j\<le>i. exp2 (g t - g (n * BT + j)) * (\<Sum>d<K. q t d * scale * k (n * BT + j) d) * v (n * BT + j) c)"
  proof (rule sum.mono_neutral_cong_right)
    fix l assume "l \<in> {..i}"
    then have l: "l \<le> i" "l < BT" using ti(2) by auto
    then show "(if l \<le> i then (\<Sum>i_k<cdiv K BK. ?Y i_k i l) * exp2 (g t - g (n * BT + l)) else 0)
          * ld v T V (n * BT) (c div BV * BV) l (c mod BV)
      = exp2 (g t - g (n * BT + l)) * (\<Sum>d<K. q t d * scale * k (n * BT + l) d) * v (n * BT + l) c"
      using Y [OF l(2)] j [OF l(2)] c cV by (simp add: ld_def)
  qed (use ti(2) in auto)
  finally show ?thesis unfolding X unfolding i_def by (simp only: mult.commute [of _ "exp2 (g t)"])
qed

lemma chunk_fwd_o_fn_value:
  fixes BT K V T t :: nat
  assumes E: "exact_casts E" "pow2_spec E" and p: "0 < BT" "T = NT * BT" "t < T" "c < V"
  defines "scale \<equiv> real K powr (- (1 / 2))" and "n \<equiv> t div BT"
  shows "chunk_fwd_o_fn E BT T K V q k v g h t c
    = exp2 (g t) * (\<Sum>d<K. q t d * scale * h n d c)
      + (\<Sum>j\<le>t mod BT. exp2 (g t - g (n * BT + j)) * (\<Sum>d<K. q t d * scale * k (n * BT + j) d) * v (n * BT + j) c)"
proof -
  let ?B = "min (next_pow2 E K) 64"
  have b: "0 < ?B" by (rule pow2_block [OF E(2)])
  have NT: "cdiv T BT = NT" using p by simp
  have nN: "n < NT" using p by (simp add: n_def less_mult_imp_div_less)
  let ?prog = "\<lambda>i_v i_t. chunk_linear_attn_fwd_kernel_o E T K V BT ?B ?B scale q k v g h i_v i_t"
  let ?F = "exp2 (g t) * (\<Sum>d<K. q t d * scale * h n d c)
      + (\<Sum>j\<le>t mod BT. exp2 (g t - g (n * BT + j)) * (\<Sum>d<K. q t d * scale * k (n * BT + j) d) * v (n * BT + j) c)"
  have keep: "?prog i_v i_t out t c = out t c" if "i_v \<noteq> c div ?B \<or> i_t \<noteq> n" for i_v i_t out
    using that block_rows_iff [OF p(1), of i_t t]
    by (auto simp: chunk_linear_attn_fwd_kernel_o_def Let_def split_def st_col [OF b p(3,4)] n_def)
  have keep_row: "for_loop N (?prog i_v) out t c = out t c" if "i_v \<noteq> c div ?B" for N i_v out
    by (induction N) (simp_all add: keep that)
  have "for_loop (cdiv V ?B) (\<lambda>i_v. for_loop (cdiv T BT) (?prog i_v)) (uninit E) t c = ?F"
  proof (rule launch_writes [where m = "c div ?B" and get = "\<lambda>s. s t c"])
    fix s show "for_loop (cdiv T BT) (?prog (c div ?B)) s t c = ?F"
      unfolding NT
    proof (rule launch_writes [where m = n and get = "\<lambda>s. s t c", OF _ _ nN])
      fix s show "?prog (c div ?B) n s t c = ?F"
        using kernel_o_value [OF E(1) b b p(1) _ meta_eq_to_obj_eq [OF n_def, symmetric] p(4)]
          block_end [OF nN, of BT] p(2) by blast
    qed (rule keep, simp)
  qed (rule keep_row, simp, rule block_in_cdiv [OF b p(4)])
  then show ?thesis by (simp add: chunk_fwd_o_fn_def Let_def scale_def)
qed


section \<open>The forward pass computes the recurrence\<close>

interpretation log2_decay: chunk_decay
  "\<lambda>i. exp2 (LOG2E * g i)" "\<lambda>i. exp2 (cumsum g i * LOG2E)"
  "\<lambda>i j. exp2 (cumsum g i * LOG2E - cumsum g j * LOG2E)" for g :: vec
  by unfold_locales (auto simp: exp2_def powr_add powr_diff algebra_simps)

lemma chunk_cumsum_at:
  assumes "exact_casts E" "i < BT"
  shows "chunk_cumsum E BT g (n * BT + i) = cumsum (chunk_view BT n g) i * LOG2E"
  using assms by (simp add: chunk_cumsum_def exact_casts_def)

text \<open>The rows of \<open>w\<close> and \<open>u\<close>, continued to every column.\<close>

definition wy_w :: "nat \<Rightarrow> nat \<Rightarrow> mat \<Rightarrow> vec \<Rightarrow> mat" where
  "wy_w K BT k beta = (\<lambda>t. dot BT (chunk_solution BT (chunk_gram K BT k beta (t div BT)))
      (scaled_rows BT k beta (t div BT)) (t mod BT))"

definition wy_u :: "nat \<Rightarrow> nat \<Rightarrow> mat \<Rightarrow> mat \<Rightarrow> vec \<Rightarrow> vec \<Rightarrow> mat" where
  "wy_u K BT k v beta g = (\<lambda>t. dot BT (chunk_solution BT (decayed_gram K BT k beta g (t div BT)))
      (scaled_rows BT v beta (t div BT)) (t mod BT))"

lemma new_value_rec:
  fixes K BT n i :: nat and k v S :: mat and beta g :: vec
  assumes E: "exact_casts E" and i: "i < BT"
  defines "G \<equiv> chunk_view BT n g" and "kn \<equiv> chunk_view BT n k" and "vn \<equiv> chunk_view BT n v"
    and "bn \<equiv> chunk_view BT n beta"
    and "x \<equiv> new_value K BT (wy_w K BT k beta) (wy_u K BT k v beta (chunk_cumsum E BT g)) (chunk_cumsum E BT g) S n"
  shows "x i c = bn i * (vn i c - exp2 (cumsum G i * LOG2E) * (\<Sum>d<K. kn i d * S d c)
      - (\<Sum>j<i. exp2 (cumsum G i * LOG2E - cumsum G j * LOG2E) * (\<Sum>d<K. kn i d * kn j d) * x j c))"
proof -
  let ?g = "chunk_cumsum E BT g"
  define w where "w = (\<lambda>i. wy_w K BT k beta (n * BT + i))"
  define u where "u = (\<lambda>i. wy_u K BT k v beta ?g (n * BT + i))"
  define aw where "aw = neg_strict_lower (chunk_gram K BT k beta n)"
  define au where "au = neg_strict_lower (decayed_gram K BT k beta ?g n)"
  have pos: "0 < BT" using i by simp
  have w_eq: "w i d = dot BT (add_eye (tl_solve BT aw)) (scaled_rows BT k beta n) i d" if "i < BT" for i d
    using that pos by (simp add: w_def wy_w_def chunk_solution_def aw_def)
  have u_eq: "u i d = dot BT (add_eye (tl_solve BT au)) (scaled_rows BT v beta n) i d" if "i < BT" for i d
    using that pos by (simp add: u_def wy_u_def chunk_solution_def au_def)
  have sl: "strict_lower aw" "strict_lower au"
    unfolding aw_def au_def by (rule neg_strict_lower_strict)+
  have w_rec: "w i d = bn i * kn i d + (\<Sum>j<i. aw i j * w j d)" if "i < BT" for i d
    using tl_wy.apply_rec [OF sl(1) that, of "scaled_rows BT k beta n" d] that
    by (simp add: w_eq scaled_rows_def bn_def kn_def chunk_view_def)
  have u_rec: "u i c = bn i * vn i c + (\<Sum>j<i. au i j * u j c)" if "i < BT" for i c
    using tl_wy.apply_rec [OF sl(2) that, of "scaled_rows BT v beta n" c] that
    by (simp add: u_eq scaled_rows_def bn_def vn_def chunk_view_def)
  have aw_val: "aw i j = - (bn i * (\<Sum>d<K. kn i d * kn j d))" if "j < i" for i j
    using that by (simp add: aw_def neg_strict_lower_def chunk_gram_def bn_def kn_def chunk_view_def)
  have au_val: "au i j = aw i j * exp2 (cumsum G i * LOG2E - cumsum G j * LOG2E)" if "j < i" "i < BT" for i j
    using that by (simp add: au_def aw_def neg_strict_lower_def decayed_gram_def G_def
        chunk_cumsum_at [OF E])
  have x_eq: "x i c = u i c - exp2 (cumsum G i * LOG2E) * (\<Sum>d<K. w i d * S d c)" if "i < BT" for i
    using that by (simp add: x_def new_value_def w_def u_def chunk_cumsum_at [OF E] G_def)
  show ?thesis
    using log2_decay.wy_new_values [where ?S0.0 = S and c = c, OF u_rec w_rec aw_val au_val i] i
    by (simp add: x_eq)
qed

lemma h_states_delta:
  assumes E: "exact_casts E" and pos: "0 < BT"
  shows "h_states K BT k (wy_w K BT k beta) (wy_u K BT k v beta (chunk_cumsum E BT g)) (chunk_cumsum E BT g) S0 n
    = delta_states K (\<lambda>i. exp2 (LOG2E * g i)) k v beta S0 (n * BT)"
proof (induction n)
  case 0
  then show ?case by (simp add: h_states_def)
next
  case (Suc n)
  let ?g = "chunk_cumsum E BT g"
  let ?a = "\<lambda>i. exp2 (LOG2E * g i)"
  let ?S = "delta_states K ?a k v beta S0 (n * BT)"
  let ?x = "new_value K BT (wy_w K BT k beta) (wy_u K BT k v beta ?g) ?g ?S n"
  let ?G = "chunk_view BT n g"
  obtain m where m: "BT = Suc m" using pos by (cases BT) auto
  have last: "?g (n * BT + BT - 1) = cumsum ?G m * LOG2E"
    using chunk_cumsum_at [OF E, of m BT g n] by (simp add: m)
  have "delta_states K (\<lambda>i. exp2 (LOG2E * ?G i)) (chunk_view BT n k) (chunk_view BT n v) (chunk_view BT n beta) ?S (Suc m) r c
      = next_state K BT k (wy_w K BT k beta) (wy_u K BT k v beta ?g) ?g ?S n r c" for r c
  proof -
    have "(\<Sum>j<BT. k (n * BT + j) r * exp2 (?g (n * BT + BT - 1) - ?g (n * BT + j)) * ?x j c)
      = (\<Sum>j\<le>m. exp2 (cumsum ?G m * LOG2E - cumsum ?G j * LOG2E) * chunk_view BT n k j r * ?x j c)"
    proof (rule sum.cong)
      fix j assume "j \<in> {..m}"
      then have "?g (n * BT + j) = cumsum ?G j * LOG2E"
        using m by (intro chunk_cumsum_at [OF E]) simp
      then show "k (n * BT + j) r * exp2 (?g (n * BT + BT - 1) - ?g (n * BT + j)) * ?x j c
          = exp2 (cumsum ?G m * LOG2E - cumsum ?G j * LOG2E) * chunk_view BT n k j r * ?x j c"
        unfolding last by (simp add: chunk_view_def)
    qed (auto simp: m)
    moreover have "delta_states K (\<lambda>i. exp2 (LOG2E * ?G i)) (chunk_view BT n k) (chunk_view BT n v)
        (chunk_view BT n beta) ?S (Suc m) r c = exp2 (cumsum ?G m * LOG2E) * ?S r c
        + (\<Sum>j\<le>m. exp2 (cumsum ?G m * LOG2E - cumsum ?G j * LOG2E) * chunk_view BT n k j r * ?x j c)"
      by (rule log2_decay.chunk_state [where n = BT, OF new_value_rec [OF E]]) (simp_all add: m)
    ultimately show ?thesis
      unfolding next_state_def last by (simp only: mult.commute [of "?S r c"])
  qed
  then have "next_state K BT k (wy_w K BT k beta) (wy_u K BT k v beta ?g) ?g ?S n
      = delta_states K ?a k v beta S0 (n * BT + BT)"
    unfolding delta_states_add [of K ?a k v beta S0 "n * BT" BT] fun_eq_iff chunk_view_def m [symmetric]
    by metis
  then show ?case using Suc.IH by (simp add: h_states_def add.commute)
qed


lemma h_states_Suc: "h_states K BT k w u g S0 (Suc n) = next_state K BT k w u g (h_states K BT k w u g S0 n) n"
  by (simp add: h_states_def)

text \<open>Only the first \<open>K\<close> columns of \<open>w\<close> and the stored columns of \<open>u\<close> matter.\<close>

lemma h_states_cong:
  assumes w: "\<And>t d. t < N * BT \<Longrightarrow> d < K \<Longrightarrow> w t d = w' t d"
    and u: "\<And>t. t < N * BT \<Longrightarrow> u t c = u' t c"
    and n: "n \<le> N"
  shows "h_states K BT k w u g S0 n r c = h_states K BT k w' u' g S0 n r c"
  using n
proof (induction n arbitrary: r)
  case 0
  then show ?case by (simp add: h_states_def)
next
  case (Suc n)
  have t: "n * BT + j < N * BT" if "j < BT" for j
    using that Suc.prems mult_right_mono [of "Suc n" N BT] by simp
  have "new_value K BT w u g (h_states K BT k w u g S0 n) n j c
      = new_value K BT w' u' g (h_states K BT k w' u' g S0 n) n j c" if "j < BT" for j
    using Suc t [OF that] by (simp add: new_value_def w u cong: sum.cong_simp)
  then show ?case
    using Suc by (simp add: h_states_Suc next_state_def cong: sum.cong_simp)
qed

lemma forward_columns:
  fixes K V BT T NT :: nat
  assumes E: "exact_casts E" "pow2_spec E" and K: "0 < K" "next_pow2 E K \<le> 256"
    and BT: "BT = 2 ^ e" and T: "T = NT * BT"
    and S0: "S0 = (case initial_state of None \<Rightarrow> zero_tile | Some h0 \<Rightarrow> h0)"
  shows "\<exists>out. ChunkGatedDeltaRuleFunction_forward E to_ht BT T K V q k v beta g initial_state ofs = Inr (out, None) \<and>
    (\<forall>t < T. \<forall>c < V. out t c = (\<Sum>d<K. q t d * real K powr (- (1 / 2))
        * delta_states K (\<lambda>i. exp2 (LOG2E * g i)) k v beta S0 (Suc t) d c))"
proof -
  let ?g = "chunk_cumsum E BT g" and ?a = "\<lambda>i. exp2 (LOG2E * g i)"
  let ?w = "wy_w K BT k beta" and ?u = "wy_u K BT k v beta ?g"
  have pos: "0 < BT" by (simp add: BT)
  have len: "T mod BT = 0" using T by simp
  obtain w u A_w A_u Ao_w Ao_u where wy:
    "fwd_prepare_wy_repr E BT T K V k v beta ?g = (w, u, A_w, A_u, Ao_w, Ao_u)"
    by (rule prod_cases6)
  note rows = fwd_prepare_wy_repr_rows [OF E pos T _ wy]
  have w: "w t d = ?w t d" if "t < T" "d < K" for t d
    using rows(1) [OF that] by (simp add: wy_w_def)
  have u: "u t c = ?u t c" if "t < T" "c < V" for t c
    using rows(2) [OF that] by (simp add: wy_u_def)
  obtain h v_new where h: "chunk_fwd_h_fn E to_ht BT T K V k w u ?g initial_state None False = Inr (h, v_new, None)"
    and hv: "\<And>n r c. n < NT \<Longrightarrow> r < K \<Longrightarrow> c < V \<Longrightarrow> h n r c = h_states K BT k w u ?g S0 n r c"
    and vv: "\<And>t c. t < T \<Longrightarrow> c < V \<Longrightarrow> v_new t c
      = new_value K BT w u ?g (h_states K BT k w u ?g S0 (t div BT)) (t div BT) (t mod BT) c"
    using chunk_fwd_h_fn_columns [OF E K BT T S0, of to_ht V k w u ?g False] by blast
  define S where "S n = delta_states K ?a k v beta S0 (n * BT)" for n
  have hS: "h_states K BT k w u ?g S0 n r c = S n r c" if "n \<le> NT" "c < V" for n r c
    unfolding S_def h_states_delta [OF E(1) pos, symmetric]
    by (rule h_states_cong [where N = NT]) (use w u that T in auto)
  let ?out = "chunk_fwd_o_fn E BT T K V q k v_new ?g h"
  have "?out t c = (\<Sum>d<K. q t d * real K powr (- (1 / 2)) * delta_states K ?a k v beta S0 (Suc t) d c)"
    if t: "t < T" and c: "c < V" for t c
  proof -
    define n where "n = t div BT"
    define i where "i = t mod BT"
    have i: "i < BT" "t = n * BT + i" using pos by (simp_all add: n_def i_def)
    have n: "n < NT" using t T by (simp add: n_def less_mult_imp_div_less)
    have at: "n * BT + j < T" "(n * BT + j) div BT = n" "(n * BT + j) mod BT = j" if "j < BT" for j
      using block_end [OF n, of BT] that T by simp_all
    let ?q = "\<lambda>d. q t d * real K powr (- (1 / 2))"
    let ?G = "chunk_view BT n g"
    let ?x = "new_value K BT ?w ?u ?g (S n) n"
    have g: "?g (n * BT + j) = cumsum ?G j * LOG2E" if "j < BT" for j
      by (rule chunk_cumsum_at [OF E(1) that])
    have x: "v_new (n * BT + j) c = ?x j c" if "j < BT" for j
      using vv [OF at(1) [OF that] c] hS [OF less_imp_le [OF n] c] at [OF that] c
      by (simp add: new_value_def w u cong: sum.cong_simp)
    have "?out t c = exp2 (?g t) * (\<Sum>d<K. ?q d * h n d c)
      + (\<Sum>j\<le>i. exp2 (?g t - ?g (n * BT + j)) * (\<Sum>d<K. ?q d * k (n * BT + j) d) * v_new (n * BT + j) c)"
      unfolding n_def i_def by (rule chunk_fwd_o_fn_value [OF E pos T t c])
    also have "\<dots> = exp2 (cumsum ?G i * LOG2E) * (\<Sum>d<K. ?q d * S n d c)
      + (\<Sum>j\<le>i. exp2 (cumsum ?G i * LOG2E - cumsum ?G j * LOG2E)
          * (\<Sum>d<K. ?q d * chunk_view BT n k j d) * ?x j c)"
      using i g x hv [OF n _ c] hS [OF less_imp_le [OF n] c]
      by (simp add: chunk_view_def cong: sum.cong_simp)
    also have "\<dots> = (\<Sum>d<K. ?q d * delta_states K (\<lambda>j. exp2 (LOG2E * ?G j)) (chunk_view BT n k)
        (chunk_view BT n v) (chunk_view BT n beta) (S n) (Suc i) d c)"
      by (rule log2_decay.chunk_output [where q = "\<lambda>_. ?q" and n = BT, OF new_value_rec [OF E(1)] i(1), symmetric])
    also have "delta_states K (\<lambda>j. exp2 (LOG2E * ?G j)) (chunk_view BT n k)
        (chunk_view BT n v) (chunk_view BT n beta) (S n) (Suc i) = delta_states K ?a k v beta S0 (Suc t)"
      unfolding S_def using delta_states_add [of K ?a k v beta S0 "n * BT" "Suc i"]
      by (simp add: chunk_view_def i(2))
    finally show ?thesis .
  qed
  moreover have "ChunkGatedDeltaRuleFunction_forward E to_ht BT T K V q k v beta g initial_state ofs
      = Inr (mcast (to_in E) ?out, None)"
    using pos len by (simp add: ChunkGatedDeltaRuleFunction_forward_def Let_def wy h)
  moreover have "mcast (to_in E) ?out = ?out" using E(1) by (simp add: exact_casts_def mcast_def)
  ultimately show ?thesis by auto
qed


lemma chunk_gated_delta_rule_columns:
  assumes "exact_casts E" and "pow2_spec E" and "0 < K" and "next_pow2 E K \<le> 256"
    and "BT = 2 ^ e" and "BT \<noteq> 1 \<or> L \<noteq> 1"
  shows "\<exists>out. chunk_gated_delta_rule E to_ht BT L K V q k v beta g initial_state output_final_state
      = Inr (out, None) \<and>
    (\<forall>t < L. \<forall>c < V. out t c = snd (recurrent_loop K L (\<lambda>i. exp2 (LOG2E * g i))
        (\<lambda>i d. q i d * real K powr (- (1 / 2))) k v beta
        (case initial_state of None \<Rightarrow> zero_tile | Some h0 \<Rightarrow> h0)) t c)"
proof -
  let ?S0 = "case initial_state of None \<Rightarrow> zero_tile | Some h0 \<Rightarrow> h0"
  have pos: "0 < BT" using assms(5) by simp
  define T where "T = (if L mod BT = 0 then L else L + (BT - L mod BT))"
  have "L + (BT - L mod BT) = (L div BT + 1) * BT"
    using mod_less_divisor [OF pos, of L] div_mult_mod_eq [of L BT] by (simp only: add_mult_distrib mult_1)
  then have "\<exists>NT. T = NT * BT"
    unfolding T_def using dvd_div_mult_self [of BT L] by (metis dvd_eq_mod_eq_0)
  then obtain NT where T: "T = NT * BT" ..
  note fwd = forward_columns [OF assms(1-5) T refl, where to_ht = to_ht and V = V and ofs = output_final_state
      and initial_state = initial_state]
  show ?thesis
  proof (cases "L mod BT = 0")
    case True
    then have "T = L" by (simp add: T_def)
    then show ?thesis
      using fwd [of q k v beta g] pos True assms(6)
      by (auto simp: chunk_gated_delta_rule_def recurrent_loop_out)
  next
    case False
    then have L: "L + (BT - L mod BT) = T" "L \<le> T" by (simp_all add: T_def)
    have pad: "delta_states K (\<lambda>i. exp2 (LOG2E * pad_vec L g i)) (pad_rows L k) (pad_rows L v) (pad_vec L beta) ?S0 (Suc t)
        = delta_states K (\<lambda>i. exp2 (LOG2E * g i)) k v beta ?S0 (Suc t)" if "t < L" for t
      using that by (intro delta_states_cong) (simp add: pad_rows_def pad_vec_def fun_eq_iff)
    obtain out where "ChunkGatedDeltaRuleFunction_forward E to_ht BT T K V (pad_rows L q) (pad_rows L k)
        (pad_rows L v) (pad_vec L beta) (pad_vec L g) initial_state output_final_state = Inr (out, None)"
      and out: "\<And>t c. t < T \<Longrightarrow> c < V \<Longrightarrow> out t c = (\<Sum>d<K. pad_rows L q t d * real K powr (- (1 / 2))
        * delta_states K (\<lambda>i. exp2 (LOG2E * pad_vec L g i)) (pad_rows L k) (pad_rows L v) (pad_vec L beta) ?S0 (Suc t) d c)"
      using fwd [of "pad_rows L q" "pad_rows L k" "pad_rows L v" "pad_vec L beta" "pad_vec L g"] by blast
    then have "chunk_gated_delta_rule E to_ht BT L K V q k v beta g initial_state output_final_state = Inr (out, None)"
      using pos False assms(6) by (auto simp: chunk_gated_delta_rule_def L(1))
    moreover have "out t c = snd (recurrent_loop K L (\<lambda>i. exp2 (LOG2E * g i))
        (\<lambda>i d. q i d * real K powr (- (1 / 2))) k v beta ?S0) t c" if "t < L" "c < V" for t c
      using out [of t c] that L(2) by (simp add: pad recurrent_loop_out) (simp add: pad_rows_def)
    ultimately show ?thesis by blast
  qed
qed

lemma chunk_fwd_h_fn_final:
  "case chunk_fwd_h_fn E to_ht BT T K V k w u g initial_state None fp32 of
     Inl e \<Rightarrow> True | Inr s \<Rightarrow> snd (snd s) = None"
proof -
  have keep: "snd (snd (for_loop m (chunk_gated_delta_rule_fwd_kernel_h E to_h to_ht T K V BT BC BK BV NT k u w g
      initial_state i_k) s)) = None" if "snd (snd s) = None" for m to_h BC BK BV NT i_k s
    using that by (induction m) (simp_all add: kernel_h_final)
  have all: "snd (snd (for_loop m (\<lambda>i_k. for_loop NV (chunk_gated_delta_rule_fwd_kernel_h E to_h to_ht T K V BT BC BK BV
        NT k u w g initial_state i_k)) s)) = None" if "snd (snd s) = None" for m NV to_h BC BK BV NT s
    using that by (induction m) (simp_all add: keep)
  show ?thesis
    by (simp only: chunk_fwd_h_fn_def Let_def split: if_split) (simp add: all del: for_loop.simps)
qed

section \<open>Properties\<close>

text \<open>C1: The Triton forward pass computes the recurrence.  For head dimensions the kernels
  support and a power-of-two chunk size, \<open>chunk_gated_delta_rule\<close> returns, whatever the length
  of the sequence, and each output row is the one the token-by-token gated delta rule gives on
  the unpadded inputs, started from the given initial state (zero without one).  The decay of
  a token is \<open>2\<close> to the power \<open>1.44269504 * g\<close>, the code's rounding of \<open>exp g\<close>.  Padding,
  tiling, sub-chunking and the launch order leave no trace in the result.\<close>

theorem chunk_gated_delta_rule_computes_recurrence:
  assumes "exact_casts E" and "pow2_spec E" and "0 < K" and "next_pow2 E K \<le> 256"
    and "BT = 2 ^ e" and "BT \<noteq> 1 \<or> L \<noteq> 1"
  shows "\<exists>out. chunk_gated_delta_rule E to_ht BT L K V q k v beta g initial_state output_final_state
      = Inr (out, None) \<and>
    (\<forall>t < L. \<forall>c < V. out t c = snd (recurrent_loop K L (\<lambda>i. exp2 (LOG2E * g i))
        (\<lambda>i d. q i d * real K powr (- (1 / 2))) k v beta
        (case initial_state of None \<Rightarrow> zero_tile | Some h0 \<Rightarrow> h0)) t c)"
  using assms by (rule chunk_gated_delta_rule_columns)

theorem chunk_gated_delta_rule_computes_recurrence_witness:
  "\<exists>out. chunk_gated_delta_rule example_env (\<lambda>x. x) 4 6 2 3 (\<lambda>t d. real t) (\<lambda>t d. real d) (\<lambda>t c. 1) (\<lambda>t. 1 / 2)
      (\<lambda>t. - 1) (Some (\<lambda>r c. 5)) True = Inr (out, None) \<and>
    (\<forall>t < 6. \<forall>c < 3. out t c = snd (recurrent_loop 2 6 (\<lambda>i. exp2 (LOG2E * - 1))
        (\<lambda>i d. real i * real 2 powr (- (1 / 2))) (\<lambda>t d. real d) (\<lambda>t c. 1) (\<lambda>t. 1 / 2) (\<lambda>r c. 5)) t c)"
proof -
  have p: "0 < (2::nat)" "next_pow2 example_env 2 \<le> 256" "(4::nat) = 2 ^ 2" "(4::nat) \<noteq> 1 \<or> (6::nat) \<noteq> 1"
    by (simp_all add: example_env_def)
  show ?thesis
    using chunk_gated_delta_rule_computes_recurrence [OF example_env_ok p, of "\<lambda>x. x" 3 "\<lambda>t d. real t"
        "\<lambda>t d. real d" "\<lambda>t c. 1" "\<lambda>t. 1 / 2" "\<lambda>t. - 1" "Some (\<lambda>r c. 5)" True]
    unfolding option.case .
qed

text \<open>The final state is never returned: whatever the casts, the sizes and the flag
  \<open>output_final_state\<close>, every run of \<open>chunk_gated_delta_rule\<close> that returns gives no state back,
  because the forward function overwrites \<open>final_state\<close> and never reads the flag.\<close>

theorem final_state_never_returned:
  assumes "chunk_gated_delta_rule E to_ht BT L K V q k v beta g initial_state output_final_state = Inr (out, fs)"
  shows "fs = None"
proof -
  have "f = None" if "chunk_fwd_h_fn E to_ht BT T K V k w u g initial_state None False = Inr (h, v_new, f)"
    for T k w u g h v_new f
    using chunk_fwd_h_fn_final [of E to_ht BT T K V k w u g initial_state False] that by simp
  then show ?thesis
    using assms
    by (auto simp: chunk_gated_delta_rule_def ChunkGatedDeltaRuleFunction_forward_def Let_def rbind_eq_Inr
        split: if_splits prod.splits)
qed

theorem final_state_never_returned_witness:
  "\<exists>out fs. chunk_gated_delta_rule example_env (\<lambda>x. x) 4 6 2 3 (\<lambda>t d. 1) (\<lambda>t d. 1) (\<lambda>t c. 1) (\<lambda>t. 1)
      (\<lambda>t. - 1) None True = Inr (out, fs) \<and> fs = None"
proof -
  have p: "0 < (2::nat)" "next_pow2 example_env 2 \<le> 256" "(4::nat) = 2 ^ 2" "(4::nat) \<noteq> 1 \<or> (6::nat) \<noteq> 1"
    by (simp_all add: example_env_def)
  obtain out where r: "chunk_gated_delta_rule example_env (\<lambda>x. x) 4 6 2 3 (\<lambda>t d. 1) (\<lambda>t d. 1) (\<lambda>t c. 1) (\<lambda>t. 1)
      (\<lambda>t. - 1) None True = Inr (out, None)"
    using chunk_gated_delta_rule_columns [OF example_env_ok p, of "\<lambda>x. x" 3 "\<lambda>t d. 1" "\<lambda>t d. 1" "\<lambda>t c. 1"
        "\<lambda>t. 1" "\<lambda>t. - 1" None True] by blast
  show ?thesis using r final_state_never_returned [OF r] by blast
qed

text \<open>Head dimensions the kernels do not support are refused: on a sequence the chunks tile,
  the forward function raises the assertion error exactly when the padded head dimension
  exceeds 256 or more than one key block would be needed.\<close>

theorem forward_rejects_large_heads:
  assumes "0 < BT" and "BT dvd T"
  shows "ChunkGatedDeltaRuleFunction_forward E to_ht BT T K V q k v beta g initial_state ofs = Inl AssertionError
    \<longleftrightarrow> 256 < next_pow2 E K \<or> cdiv K (next_pow2 E K) \<noteq> 1"
  using assms
  by (auto simp: ChunkGatedDeltaRuleFunction_forward_def chunk_fwd_h_fn_def Let_def rbind_eq_Inl dvd_eq_mod_eq_0
      split: prod.splits if_splits)

theorem forward_rejects_large_heads_witness:
  "ChunkGatedDeltaRuleFunction_forward example_env (\<lambda>x. x) 64 128 9 9 (\<lambda>t d. 0) (\<lambda>t d. 0) (\<lambda>t d. 0) (\<lambda>t. 0)
     (\<lambda>t. 0) None False = Inl AssertionError"
  by (subst forward_rejects_large_heads) (simp_all add: example_env_def)

end
