(* ===== verification/FlaWY.thy ===== *)
theory FlaWY
  imports ChunkKernels
begin

text \<open>
  The forward half of \<open>lit_gpt/gated_delta_rule_ops/fla_version/wy_fast_fla.py\<close>: the two kernels that
  solve a chunk's triangular systems, directly for chunks of at most 32 tokens and by block
  inversion for 64, and the kernel that multiplies the solutions with keys and values.

  A tensor is one \<open>(batch, head)\<close> slice, so \<open>head_first\<close> only changes strides.  With \<open>offsets\<close> the
  slice packs several sequences; a program looks its sequence up in \<open>indices\<close> and addresses the
  rows from \<open>bos\<close> on, with bounds checks against the length of that sequence: \<open>seq_view\<close> is the
  shifted pointer and \<open>at_seq\<close> a store through it.  \<open>safe_exp\<close> and \<open>chunk_local_cumsum\<close> come from
  the \<open>fla\<close> package and are parameters.
\<close>

record fla_env =
  base :: kernel_env
  safe_exp :: "real \<Rightarrow> real"
  chunk_local_cumsum :: "nat \<Rightarrow> nat list option \<Rightarrow> nat \<Rightarrow> vec \<Rightarrow> vec"
  chunk_local_revcumsum :: "nat \<Rightarrow> nat list option \<Rightarrow> nat \<Rightarrow> vec \<Rightarrow> vec"   \<comment> \<open>\<open>reverse=True\<close>\<close>
  capability :: "nat \<times> nat"
  tuned_bk :: nat       \<comment> \<open>block sizes the autotuner picks for the output kernel\<close>
  tuned_bv :: nat

definition seq_view :: "nat \<Rightarrow> (nat \<Rightarrow> 'a) \<Rightarrow> nat \<Rightarrow> 'a" where
  "seq_view bos x = (\<lambda>r. x (bos + r))"

definition at_seq :: "nat \<Rightarrow> (mat \<Rightarrow> mat) \<Rightarrow> mat \<Rightarrow> mat" where
  "at_seq bos f M = (\<lambda>r. if bos \<le> r then f (seq_view bos M) (r - bos) else M r)"

definition program_chunk :: "nat list option \<Rightarrow> (nat \<times> nat) list \<Rightarrow> nat \<Rightarrow> nat \<Rightarrow> nat \<times> nat \<times> nat" where
  "program_chunk offsets indices T i_t =
     (case offsets of
        None \<Rightarrow> (0, T, i_t)
      | Some os \<Rightarrow> (let (i_n, i_t) = indices ! i_t; bos = os ! i_n; eos = os ! (i_n + 1)
                    in (bos, eos - bos, i_t)))"

section \<open>The solve kernels\<close>

definition wy_chunk32_tiles :: "fla_env \<Rightarrow> nat \<Rightarrow> nat \<Rightarrow> nat \<Rightarrow> nat \<Rightarrow> nat \<Rightarrow> mat \<Rightarrow> vec \<Rightarrow> vec \<Rightarrow> nat \<Rightarrow> mat \<times> mat" where
  "wy_chunk32_tiles F T K BT BK BC k g beta i_t =
     (let b_beta = ld1 beta T (i_t * BT);
          b_Aw = key_gram_tile (base F) T K BT BK k b_beta i_t;
          b_Aw = neg_strict_lower b_Aw;
          b_g = ld1 g T (i_t * BT);
          b_Au = (\<lambda>i j. b_Aw i j * safe_exp F (b_g i - b_g j));
          (b_Aw, b_Au) = for_loop (BC - 1) (\<lambda>n (b_Aw, b_Au).
             (subst_row_step BC (Suc n) b_Aw, subst_row_step BC (Suc n) b_Au)) (b_Aw, b_Au)
      in (add_eye b_Aw, add_eye b_Au))"

definition fla_fwd_prepare_wy_repr_kernel_chunk32 ::
  "fla_env \<Rightarrow> nat list option \<Rightarrow> (nat \<times> nat) list \<Rightarrow> nat \<Rightarrow> nat \<Rightarrow> nat \<Rightarrow> nat \<Rightarrow> nat \<Rightarrow> mat \<Rightarrow> vec \<Rightarrow> vec \<Rightarrow> nat
     \<Rightarrow> mat \<times> mat \<Rightarrow> mat \<times> mat" where
  "fla_fwd_prepare_wy_repr_kernel_chunk32 F offsets indices T K BT BK BC k g beta i_t = (\<lambda>(Aw, Au).
     (let (bos, T, i_t) = program_chunk offsets indices T i_t;
          (b_Aw, b_Au) = wy_chunk32_tiles F T K BT BK BC (seq_view bos k) (seq_view bos g) (seq_view bos beta) i_t
      in (at_seq bos (\<lambda>Aw. st Aw T BT (i_t * BT) 0 BC BC (mcast (to_in (base F)) b_Aw)) Aw,
          at_seq bos (\<lambda>Au. st Au T BT (i_t * BT) 0 BC BC (mcast (to_in (base F)) b_Au)) Au)))"

definition gram_tiles64 :: "fla_env \<Rightarrow> nat \<Rightarrow> nat \<Rightarrow> nat \<Rightarrow> nat \<Rightarrow> nat \<Rightarrow> mat \<Rightarrow> vec \<Rightarrow> mat \<times> mat \<times> mat" where
  "gram_tiles64 F T K BK r1 r2 k beta =
     (let b_beta = ld1 beta T r1; b_beta2 = ld1 beta T r2
      in for_loop (cdiv K BK) (\<lambda>i_k (b_Aw, b_Aw2, b_Aw3).
           let b_k = ld k T K r1 (i_k * BK);
               b_kb = mcast (to_in (base F)) (scale_rows b_k b_beta);
               b_k2 = ld k T K r2 (i_k * BK);
               b_kb2 = mcast (to_in (base F)) (scale_rows b_k2 b_beta2)
           in (madd b_Aw (dot BK b_kb (tr b_k)), madd b_Aw2 (dot BK b_kb2 (tr b_k2)),
               madd b_Aw3 (dot BK b_kb2 (tr b_k))))
         (zero_tile, zero_tile, zero_tile))"

text \<open>The three blocks \<open>(A11, A22, A21)\<close> of each solution.\<close>

definition wy_chunk64_tiles :: "fla_env \<Rightarrow> nat \<Rightarrow> nat \<Rightarrow> nat \<Rightarrow> nat \<Rightarrow> nat \<Rightarrow> mat \<Rightarrow> vec \<Rightarrow> vec \<Rightarrow> nat
    \<Rightarrow> (mat \<times> mat \<times> mat) \<times> (mat \<times> mat \<times> mat)" where
  "wy_chunk64_tiles F T K BT BK BC k g beta i_t =
     (let r1 = i_t * BT; r2 = i_t * BT + BC;
          (b_Aw, b_Aw2, b_Aw3) = gram_tiles64 F T K BK r1 r2 k beta;
          b_Aw = neg_strict_lower b_Aw;
          b_Aw2 = neg_strict_lower b_Aw2;
          b_g = ld1 g T r1;
          b_g2 = ld1 g T r2;
          mask_c = (\<lambda>i j. i \<ge> j);
          mask_g = (\<lambda>j. r1 + j < T);
          mask_g2 = (\<lambda>j. r2 + j < T);
          b_Au = (\<lambda>i j. if mask_g j \<and> mask_c i j then b_Aw i j * safe_exp F (b_g i - b_g j) else 0);
          b_Au2 = (\<lambda>i j. if mask_g2 j \<and> mask_c i j then b_Aw2 i j * safe_exp F (b_g2 i - b_g2 j) else 0);
          b_Au3 = (\<lambda>i j. if mask_g j then b_Aw3 i j * safe_exp F (b_g2 i - b_g j) else 0);
          (b_Aw, b_Aw2, b_Au, b_Au2) = for_loop (BC - 1) (\<lambda>n (b_Aw, b_Aw2, b_Au, b_Au2).
             (subst_row_step BC (Suc n) b_Aw, subst_row_step BC (Suc n) b_Aw2,
              subst_row_step BC (Suc n) b_Au, subst_row_step BC (Suc n) b_Au2)) (b_Aw, b_Aw2, b_Au, b_Au2);
          b_Aw = add_eye b_Aw;
          b_Aw2 = add_eye b_Aw2;
          b_Aw3 = (\<lambda>i j. - dot BC (dot BC b_Aw2 b_Aw3) b_Aw i j);
          b_Au = add_eye b_Au;
          b_Au2 = add_eye b_Au2;
          b_Au3 = (\<lambda>i j. - dot BC (dot BC b_Au2 b_Au3) b_Au i j)
      in ((b_Aw, b_Aw2, b_Aw3), (b_Au, b_Au2, b_Au3)))"

text \<open>The four stores of one solution; the upper right block is zero.\<close>

definition store_blocks :: "fla_env \<Rightarrow> nat \<Rightarrow> nat \<Rightarrow> nat \<Rightarrow> nat \<Rightarrow> mat \<times> mat \<times> mat \<Rightarrow> mat \<Rightarrow> mat" where
  "store_blocks F T BT BC i_t = (\<lambda>(b_A, b_A2, b_A3) A.
     (let A = st A T BT (i_t * BT) 0 BC BC (mcast (to_in (base F)) b_A);
          A = st A T BT (i_t * BT + BC) BC BC BC (mcast (to_in (base F)) b_A2);
          A = st A T BT (i_t * BT + BC) 0 BC BC (mcast (to_in (base F)) b_A3)
      in st A T BT (i_t * BT) BC BC BC (mcast (to_in (base F)) zero_tile)))"

definition fla_fwd_prepare_wy_repr_kernel_chunk64 ::
  "fla_env \<Rightarrow> nat list option \<Rightarrow> (nat \<times> nat) list \<Rightarrow> nat \<Rightarrow> nat \<Rightarrow> nat \<Rightarrow> nat \<Rightarrow> nat \<Rightarrow> mat \<Rightarrow> vec \<Rightarrow> vec \<Rightarrow> nat
     \<Rightarrow> mat \<times> mat \<Rightarrow> mat \<times> mat" where
  "fla_fwd_prepare_wy_repr_kernel_chunk64 F offsets indices T K BT BK BC k g beta i_t = (\<lambda>(Aw, Au).
     (let (bos, T, i_t) = program_chunk offsets indices T i_t;
          (b_Aw, b_Au) = wy_chunk64_tiles F T K BT BK BC (seq_view bos k) (seq_view bos g) (seq_view bos beta) i_t
      in (at_seq bos (store_blocks F T BT BC i_t b_Aw) Aw, at_seq bos (store_blocks F T BT BC i_t b_Au) Au)))"

section \<open>The product kernel and the launches\<close>

text \<open>One of the two loops of the product kernel: \<open>A\<close> times the scaled rows of \<open>x\<close>, block by block.\<close>

definition product_blocks :: "fla_env \<Rightarrow> nat \<Rightarrow> nat \<Rightarrow> nat \<Rightarrow> nat \<Rightarrow> mat \<Rightarrow> vec \<Rightarrow> mat \<Rightarrow> nat \<Rightarrow> mat \<Rightarrow> mat" where
  "product_blocks F T D BT B x beta A i_t y =
     (let b_beta = ld1 beta T (i_t * BT); b_A = ld A T BT (i_t * BT) 0
      in for_loop (cdiv D B) (\<lambda>i y. st y T D (i_t * BT) (i * B) BT B (mcast (to_in (base F))
           (dot BT b_A (mcast (to_in (base F)) (scale_rows (ld x T D (i_t * BT) (i * B)) b_beta))))) y)"

definition fla_fwd_recompute_w_u_kernel ::
  "fla_env \<Rightarrow> nat list option \<Rightarrow> (nat \<times> nat) list \<Rightarrow> nat \<Rightarrow> nat \<Rightarrow> nat \<Rightarrow> nat \<Rightarrow> nat \<Rightarrow> nat \<Rightarrow> mat \<Rightarrow> mat \<Rightarrow> vec
     \<Rightarrow> mat \<Rightarrow> mat \<Rightarrow> nat \<Rightarrow> mat \<times> mat \<Rightarrow> mat \<times> mat" where
  "fla_fwd_recompute_w_u_kernel F offsets indices T K V BT BK BV k v beta Aw Au i_t = (\<lambda>(w, u).
     (let (bos, T, i_t) = program_chunk offsets indices T i_t;
          u' = at_seq bos (product_blocks F T V BT BV (seq_view bos v) (seq_view bos beta) (seq_view bos Au) i_t) u;
          w' = at_seq bos (product_blocks F T K BT BK (seq_view bos k) (seq_view bos beta) (seq_view bos Aw) i_t) w
      in (w', u')))"

text \<open>
  \<open>torch.cat([arange(n) for n in cdiv(lengths, chunk_size)])\<close> paired with \<open>eq(0).cumsum(0) - 1\<close>.
\<close>

definition chunk_counts :: "nat list \<Rightarrow> nat \<Rightarrow> nat list" where
  "chunk_counts os chunk_size = map (\<lambda>(b, e). cdiv (e - b) chunk_size) (zip os (tl os))"

fun number_zeros :: "nat \<Rightarrow> nat list \<Rightarrow> (nat \<times> nat) list" where
  "number_zeros seen [] = []"
| "number_zeros seen (i # is) = (let seen = (if i = 0 then Suc seen else seen) in (seen - 1, i) # number_zeros seen is)"

definition chunk_indices :: "nat list \<Rightarrow> nat \<Rightarrow> (nat \<times> nat) list" where
  "chunk_indices os chunk_size = number_zeros 0 (concat (map (\<lambda>n. [0..<n]) (chunk_counts os chunk_size)))"

definition chunk_block :: "fla_env \<Rightarrow> nat \<Rightarrow> nat \<Rightarrow> nat" where
  "chunk_block F chunk_size T = min chunk_size (max (next_pow2 (base F) T) 16)"

definition fla_fwd_recompute_w_u ::
  "fla_env \<Rightarrow> nat list option \<Rightarrow> (nat \<times> nat) list option \<Rightarrow> nat \<Rightarrow> nat \<Rightarrow> nat \<Rightarrow> nat \<Rightarrow> mat \<Rightarrow> mat \<Rightarrow> vec
     \<Rightarrow> mat \<Rightarrow> mat \<Rightarrow> mat \<times> mat" where
  "fla_fwd_recompute_w_u F offsets indices chunk_size T K V k v beta Aw Au =
     (let BT = chunk_block F chunk_size T;
          indices = (case offsets of None \<Rightarrow> [] | Some os \<Rightarrow>
                       (case indices of None \<Rightarrow> chunk_indices os BT | Some ixs \<Rightarrow> ixs));
          NT = (case offsets of None \<Rightarrow> cdiv T BT | Some os \<Rightarrow> length indices);
          BK = min (next_pow2 (base F) K) 64;
          BV = min (next_pow2 (base F) V) 64
      in for_loop NT (fla_fwd_recompute_w_u_kernel F offsets indices T K V BT BK BV k v beta Aw Au)
           (uninit (base F), uninit (base F)))"

text \<open>
  For \<open>BT\<close> other than 64 the kernel for small chunks needs \<open>BC = BT\<close>; other shapes do not compile.
\<close>

definition fla_fwd_prepare_wy_repr ::
  "fla_env \<Rightarrow> nat list option \<Rightarrow> (nat \<times> nat) list option \<Rightarrow> nat \<Rightarrow> nat \<Rightarrow> nat \<Rightarrow> nat \<Rightarrow> mat \<Rightarrow> mat \<Rightarrow> vec \<Rightarrow> vec
     \<Rightarrow> (mat \<times> mat \<times> mat \<times> mat) result" where
  "fla_fwd_prepare_wy_repr F offsets indices chunk_size T K V k v g beta =
     (let BT = chunk_block F chunk_size T in
      if offsets \<noteq> None \<and> indices = None then Inl TypeError
      else let ixs = (case indices of None \<Rightarrow> [] | Some ixs \<Rightarrow> ixs);
               NT = (case offsets of None \<Rightarrow> cdiv T BT | Some os \<Rightarrow> length ixs);
               BC = min BT 32;
               BK = min (next_pow2 (base F) K) 64
           in if BT \<noteq> 64 \<and> BC \<noteq> BT then Inl RuntimeError
              else let fwd_fn = (if BT = 64 then fla_fwd_prepare_wy_repr_kernel_chunk64
                                 else fla_fwd_prepare_wy_repr_kernel_chunk32);
                       (Aw, Au) = for_loop NT (fwd_fn F offsets ixs T K BT BK BC k g beta)
                                    (uninit (base F), uninit (base F));
                       (w, u) = fla_fwd_recompute_w_u F offsets indices chunk_size T K V k v beta Aw Au
                   in Inr (w, u, Aw, Au))"


section \<open>Block inversion\<close>

context wy_solver
begin

text \<open>The substitution equations determine the solution.\<close>

lemma eye_unique:
  assumes "strict_lower a"
    and "\<And>i c. i < n \<Longrightarrow> c \<in> C \<Longrightarrow> X i c = (if i = c then 1 else 0) + (\<Sum>m<i. a i m * X m c)"
    and "i < n" "c \<in> C"
  shows "X i c = add_eye (solve n a) i c"
  using assms(3)
proof (induction i rule: less_induct)
  case (less i)
  have "(\<Sum>m<i. a i m * X m c) = (\<Sum>m<i. a i m * add_eye (solve n a) m c)"
    using less by (intro sum.cong refl) simp
  then show ?case using assms(2) [OF less.prems assms(4)] eye_rec [OF assms(1) less.prems] by simp
qed

lemma eye_upper:
  assumes "strict_lower a" "i < n" "i < c"
  shows "add_eye (solve n a) i c = 0"
  using assms(2,3)
proof (induction i rule: less_induct)
  case (less i)
  then have "(\<Sum>m<i. a i m * add_eye (solve n a) m c) = 0" by (intro sum.neutral) auto
  then show ?case using eye_rec [OF assms(1) less.prems(1), of c] less.prems(2) by simp
qed

text \<open>
  The 2 by 2 block formula of the source comment: with \<open>A11\<close>, \<open>A22\<close> the solutions of the diagonal
  blocks and \<open>g\<close> the negated lower left block, the lower left block of the solution is
  \<open>- (A22 g) A11\<close>.
\<close>

lemma block_inverse:
  fixes a g :: mat
  assumes a: "strict_lower a" and g: "\<And>i j. i < n \<Longrightarrow> j < n \<Longrightarrow> g i j = - a (n + i) j"
  defines "A1 \<equiv> add_eye (solve n a)"
    and "A2 \<equiv> add_eye (solve n (\<lambda>i j. a (n + i) (n + j)))"
  defines "X \<equiv> \<lambda>i j. if i < n then (if j < n then A1 i j else 0)
                     else if j < n then - dot n (dot n A2 g) A1 (i - n) j else A2 (i - n) (j - n)"
  assumes ij: "i < n + n" "j < n + n"
  shows "X i j = add_eye (solve (n + n) a) i j"
proof (rule eye_unique [where X = X and C = "{..<n + n}", OF a _ ij(1)])
  let ?a2 = "\<lambda>i j. a (n + i) (n + j)"
  have a2: "strict_lower ?a2" using a by (simp add: strict_lower_def)
  fix i c
  assume i: "i < n + n" and "c \<in> {..<n + n}"
  then have c: "c < n + n" by simp
  show "X i c = (if i = c then 1 else 0) + (\<Sum>m<i. a i m * X m c)"
  proof (cases "i < n")
    case True
    show ?thesis
    proof (cases "c < n")
      case c: True
      then show ?thesis using True eye_rec [OF a True, of c] by (simp add: X_def A1_def)
    next
      case False
      then have "(\<Sum>m<i. a i m * X m c) = 0" using True by (intro sum.neutral) (simp add: X_def)
      then show ?thesis using True False by (simp add: X_def)
    qed
  next
    case False
    define r where "r = i - n"
    have r: "i = n + r" "r < n" using False i by (simp_all add: r_def)
    have split: "(\<Sum>m<i. a i m * X m c) = (\<Sum>m<n. a (n + r) m * X m c) + (\<Sum>m<r. ?a2 r m * X (n + m) c)"
      by (simp add: r(1) sum_lessThan_add)
    show ?thesis
    proof (cases "c < n")
      case True
      let ?B = "\<lambda>i j. - dot n g A1 i j"
      have low: "X (n + m) c = dot n A2 ?B m c" for m
        unfolding X_def using True
        by (simp add: dot_def sum_distrib_left sum_distrib_right sum_negf mult.assoc)
          (rule sum.swap)
      have top: "(\<Sum>m<n. a (n + r) m * X m c) = ?B r c"
        using True g [OF r(2)] by (simp add: X_def dot_def sum_negf)
      have "X i c = ?B r c + (\<Sum>m<r. ?a2 r m * X (n + m) c)"
        unfolding r(1) low using apply_rec [OF a2 r(2), of ?B c] by (simp add: A2_def)
      then show ?thesis unfolding split top using True r by simp
    next
      case False
      define s where "s = c - n"
      have s: "c = n + s" using False by (simp add: s_def)
      have "(\<Sum>m<n. a (n + r) m * X m c) = 0" using False by (intro sum.neutral) (simp add: X_def)
      moreover have "X (n + m) c = A2 m s" for m using False by (simp add: X_def s)
      ultimately show ?thesis
        unfolding split using eye_rec [OF a2 r(2), of s] by (simp add: r(1) s A2_def)
    qed
  qed
qed (use ij in simp)

end

lemma for_loop_pair:
  "for_loop n (\<lambda>i (x, y). (f i x, g i y)) (a, b) = (for_loop n f a, for_loop n g b)"
  by (induction n) auto

lemma for_loop_quad:
  "for_loop n (\<lambda>i (x, y, z, w). (f i x, g i y, h i z, k i w)) (a, b, c, d)
     = (for_loop n f a, for_loop n g b, for_loop n h c, for_loop n k d)"
  by (induction n) auto

lemma for_loop_madd3:
  "for_loop n (\<lambda>i (A, B, C). (madd A (f i), madd B (g i), madd C (h i))) (A0, B0, C0)
     = ((\<lambda>r c. A0 r c + (\<Sum>i<n. f i r c)), (\<lambda>r c. B0 r c + (\<Sum>i<n. g i r c)), (\<lambda>r c. C0 r c + (\<Sum>i<n. h i r c)))"
  by (induction n) (auto simp: madd_def fun_eq_iff)

section \<open>Tiles of a ragged chunk read as tiles of the padded sequence\<close>

lemma ld_padded: "ld M T C r c i j = (if c + j < C then pad_rows T M (r + i) (c + j) else 0)"
  by (simp add: ld_def pad_rows_def)

lemma ld1_padded: "ld1 x T r i = pad_vec T x (r + i)"
  by (simp add: ld1_def pad_vec_def)

lemma gram_padded:
  assumes "exact_casts E" "0 < BK"
  shows "(\<Sum>b<cdiv K BK. dot BK (mcast (to_in E) (scale_rows (ld k T K ra (b * BK)) (ld1 beta T ra)))
      (tr (ld k T K rb (b * BK))) i j)
    = pad_vec T beta (ra + i) * (\<Sum>d<K. pad_rows T k (ra + i) d * pad_rows T k (rb + j) d)"
proof -
  have "(\<Sum>b<cdiv K BK. dot BK (mcast (to_in E) (scale_rows (ld k T K ra (b * BK)) (ld1 beta T ra)))
      (tr (ld k T K rb (b * BK))) i j) =
    (\<Sum>b<cdiv K BK. \<Sum>l<BK. (if b * BK + l < K then pad_vec T beta (ra + i) * pad_rows T k (ra + i) (b * BK + l) else 0)
      * (if b * BK + l < K then pad_rows T k (rb + j) (b * BK + l) else 0))"
    using assms(1) by (auto simp: tile_defs ld_padded ld1_padded exact_casts_def mult.commute intro!: sum.cong)
  also have "\<dots> = (\<Sum>d<K. pad_vec T beta (ra + i) * (pad_rows T k (ra + i) d * pad_rows T k (rb + j) d))"
    by (rule blocked_dot [OF assms(2)]) (simp add: mult.assoc)
  finally show ?thesis by (simp add: sum_distrib_left)
qed

lemma key_gram_padded:
  assumes "exact_casts E" "0 < BK"
  shows "key_gram_tile E T K BT BK k (ld1 beta T (n * BT)) n i j
    = chunk_gram K BT (pad_rows T k) (pad_vec T beta) n i j"
  unfolding key_gram_tile_def Let_def for_loop_madd
  using gram_padded [OF assms] by (simp add: zero_tile_def chunk_gram_def)

lemma gram_tiles64_padded:
  assumes "exact_casts (base F)" "0 < BK"
  shows "gram_tiles64 F T K BK (n * BT) (n * BT + BC) k beta =
    (let G = chunk_gram K BT (pad_rows T k) (pad_vec T beta) n
     in (\<lambda>i j. G i j, \<lambda>i j. G (BC + i) (BC + j), \<lambda>i j. G (BC + i) j))"
  unfolding gram_tiles64_def Let_def for_loop_madd3
  using gram_padded [OF assms] by (simp add: zero_tile_def chunk_gram_def add.assoc)

section \<open>The decay factors\<close>

definition safe_exp_spec :: "fla_env \<Rightarrow> bool" where
  "safe_exp_spec F \<longleftrightarrow> (\<forall>x \<le> 0. safe_exp F x = exp x)"

text \<open>\<open>c\<close> is the cumulative log decay inside each chunk of a sequence of \<open>T\<close> tokens.\<close>

definition local_gate :: "nat \<Rightarrow> nat \<Rightarrow> vec \<Rightarrow> vec \<Rightarrow> bool" where
  "local_gate BT T g c \<longleftrightarrow> (\<forall>t < T. c t = cumsum (chunk_view BT (t div BT) (pad_vec T g)) (t mod BT))"

text \<open>The same cumulative decay in the units of the padded, base two specification.\<close>

definition gate :: "kernel_env \<Rightarrow> nat \<Rightarrow> nat \<Rightarrow> vec \<Rightarrow> vec" where
  "gate E BT T g = chunk_cumsum E BT (\<lambda>t. pad_vec T g t / (ln 2 * LOG2E))"

lemma LOG2E_pos: "0 < LOG2E"
  by (simp add: LOG2E_def)

lemma exp2_ln: "exp2 (x / ln 2) = exp x" "exp2 (x / ln 2 - y / ln 2) = exp (x - y)"
proof -
  have "exp2 (z / ln 2) = exp z" for z by (simp add: exp2_def powr_def)
  then show "exp2 (x / ln 2) = exp x" "exp2 (x / ln 2 - y / ln 2) = exp (x - y)"
    by (simp_all add: diff_divide_distrib [symmetric])
qed

lemma gate_at:
  assumes "exact_casts E" "i < BT"
  shows "gate E BT T g (n * BT + i) = cumsum (chunk_view BT n (pad_vec T g)) i / ln 2"
  using LOG2E_pos unfolding gate_def chunk_cumsum_at [OF assms]
  by (simp add: cumsum_def chunk_view_def sum_divide_distrib [symmetric])

lemma gate_exp:
  assumes "exact_casts E" "local_gate BT T g c" "0 < BT" "t < T"
  shows "exp2 (gate E BT T g t) = exp (c t)"
proof -
  have "gate E BT T g (t div BT * BT + t mod BT) = c t / ln 2"
    using gate_at [OF assms(1), of "t mod BT" BT T g "t div BT"] assms(2-4) by (simp add: local_gate_def)
  then show ?thesis by (simp add: exp2_ln)
qed

lemma gate_exp_diff:
  assumes "exact_casts E" "local_gate BT T g c" "0 < BT" "t < T" "s < T"
  shows "exp2 (gate E BT T g t - gate E BT T g s) = exp (c t - c s)"
proof -
  have "gate E BT T g (t div BT * BT + t mod BT) = c t / ln 2" if "t < T" for t
    using gate_at [OF assms(1), of "t mod BT" BT T g "t div BT"] assms(2,3) that by (simp add: local_gate_def)
  from this [OF assms(4)] this [OF assms(5)] show ?thesis by (simp add: exp2_ln)
qed

lemma cumsum_antimono:
  assumes "\<And>t. x t \<le> 0" "j \<le> i"
  shows "cumsum x i \<le> cumsum x j"
  using assms(2)
proof (induction i)
  case 0
  then show ?case by simp
next
  case (Suc i)
  then show ?case using assms(1) [of "Suc i"] by (cases "j = Suc i") auto
qed

lemma safe_decay:
  assumes "exact_casts E" "safe_exp_spec F" "local_gate BT T g c" "\<And>t. t < T \<Longrightarrow> g t \<le> 0"
    and "j \<le> i" "i < BT" "n * BT + i < T"
  shows "safe_exp F (c (n * BT + i) - c (n * BT + j)) = exp2 (gate E BT T g (n * BT + i) - gate E BT T g (n * BT + j))"
proof -
  have bt: "0 < BT" "j < BT" "n * BT + j < T" using assms(5-7) by auto
  have c: "c (n * BT + l) = cumsum (chunk_view BT n (pad_vec T g)) l" if "l < BT" "n * BT + l < T" for l
    using assms(3) that by (simp add: local_gate_def)
  have "c (n * BT + i) \<le> c (n * BT + j)"
    unfolding c [OF assms(6,7)] c [OF bt(2,3)] using assms(4,5)
    by (intro cumsum_antimono) (simp_all add: chunk_view_def pad_vec_def)
  then have "safe_exp F (c (n * BT + i) - c (n * BT + j)) = exp (c (n * BT + i) - c (n * BT + j))"
    using assms(2) by (simp add: safe_exp_spec_def)
  then show ?thesis using gate_exp_diff [OF assms(1,3) bt(1) assms(7) bt(3)] by simp
qed

section \<open>The tiles are the solutions of the padded chunk\<close>

lemma solve_strict_cong:
  assumes "strict_lower a" "strict_lower b" "\<And>i j. j < i \<Longrightarrow> i < n \<Longrightarrow> a i j = b i j" "i < n"
  shows "add_eye (tl_solve n a) i c = add_eye (tl_solve n b) i c"
proof (rule tl_wy.eye_unique [where C = UNIV, OF assms(2) _ assms(4)])
  fix i c assume i: "i < n"
  have "(\<Sum>m<i. a i m * add_eye (tl_solve n a) m c) = (\<Sum>m<i. b i m * add_eye (tl_solve n a) m c)"
    by (intro sum.cong refl) (simp add: assms(3) i)
  then show "add_eye (tl_solve n a) i c = (if i = c then 1 else 0) + (\<Sum>m<i. b i m * add_eye (tl_solve n a) m c)"
    using tl_wy.eye_rec [OF assms(1) i, of c] by simp
qed simp

lemma tl_solve_unfold: "for_loop (n - 1) (\<lambda>i. subst_row_step n (Suc i)) a = tl_solve n a"
  by (simp add: tl_solve_def)

lemma neg_strict_lower_times: "neg_strict_lower A i j * s = neg_strict_lower (\<lambda>i j. A i j * s) i j"
  by (simp add: neg_strict_lower_def)

text \<open>The product with a decay factor, on the rows inside the sequence and outside.\<close>

lemma decayed_entry:
  assumes "exact_casts E" "safe_exp_spec F" "local_gate BT T g c" "\<And>t. t < T \<Longrightarrow> g t \<le> 0"
    and "j \<le> i" "i < BT"
  shows "chunk_gram K BT (pad_rows T k) (pad_vec T beta) n i j * safe_exp F (ld1 c T (n * BT) i - ld1 c T (n * BT) j)
    = decayed_gram K BT (pad_rows T k) (pad_vec T beta) (gate E BT T g) n i j"
proof (cases "n * BT + i < T")
  case True
  then have "ld1 c T (n * BT) i = c (n * BT + i)" "ld1 c T (n * BT) j = c (n * BT + j)"
    using assms(5) by (simp_all add: ld1_def)
  then show ?thesis
    using safe_decay [OF assms(1-4) assms(5,6) True] by (simp add: decayed_gram_def)
next
  case False
  then have "chunk_gram K BT (pad_rows T k) (pad_vec T beta) n i j = 0"
    by (simp add: chunk_gram_def pad_vec_def)
  then show ?thesis by (simp add: decayed_gram_def)
qed

lemma chunk32_tiles:
  assumes E: "exact_casts (base F)" "safe_exp_spec F" and BK: "0 < BK"
    and g: "local_gate BT T g c" "\<And>t. t < T \<Longrightarrow> g t \<le> 0"
    and res: "wy_chunk32_tiles F T K BT BK BT k c beta n = (A, B)" and i: "i < BT"
  shows "A i j = chunk_solution BT (chunk_gram K BT (pad_rows T k) (pad_vec T beta) n) i j"
    and "B i j = chunk_solution BT (decayed_gram K BT (pad_rows T k) (pad_vec T beta) (gate (base F) BT T g) n) i j"
proof -
  let ?G = "chunk_gram K BT (pad_rows T k) (pad_vec T beta) n"
  let ?D = "decayed_gram K BT (pad_rows T k) (pad_vec T beta) (gate (base F) BT T g) n"
  let ?b = "\<lambda>i j. neg_strict_lower ?G i j * safe_exp F (ld1 c T (n * BT) i - ld1 c T (n * BT) j)"
  have tile: "key_gram_tile (base F) T K BT BK k (ld1 beta T (n * BT)) n = ?G"
    by (intro ext) (rule key_gram_padded [OF E(1) BK])
  have AB: "A = add_eye (tl_solve BT (neg_strict_lower ?G))" "B = add_eye (tl_solve BT ?b)"
    using res unfolding wy_chunk32_tiles_def Let_def tile for_loop_pair tl_solve_unfold by simp_all
  show "A i j = chunk_solution BT ?G i j" by (simp add: AB chunk_solution_def)
  have "?b i j = neg_strict_lower ?D i j" if "j < i" "i < BT" for i j
    using that decayed_entry [OF E g, where i = i and j = j and K = K and k = k and beta = beta and n = n]
    by (simp add: neg_strict_lower_def)
  then show "B i j = chunk_solution BT ?D i j"
    unfolding AB chunk_solution_def
    by (intro solve_strict_cong i) (simp_all add: neg_strict_lower_strict, simp add: strict_lower_def neg_strict_lower_def)
qed

definition block_tile :: "nat \<Rightarrow> mat \<times> mat \<times> mat \<Rightarrow> mat" where
  "block_tile BC = (\<lambda>(A1, A2, A3) i j.
     if i < BC then (if j < BC then A1 i j else 0)
     else if j < BC then A3 (i - BC) j else A2 (i - BC) (j - BC))"

lemma block_solution:
  fixes a H :: mat
  assumes a: "strict_lower a" and H: "\<And>i j. i < BC \<Longrightarrow> j < BC \<Longrightarrow> H i j = - a (BC + i) j"
    and A1: "\<And>i j. i < BC \<Longrightarrow> A1 i j = add_eye (tl_solve BC a) i j"
    and A2: "\<And>i j. i < BC \<Longrightarrow> A2 i j = add_eye (tl_solve BC (\<lambda>i j. a (BC + i) (BC + j))) i j"
    and BT: "BT = BC + BC" and ij: "i < BT" "j < BT"
  shows "block_tile BC (A1, A2, (\<lambda>i j. - dot BC (dot BC A2 H) A1 i j)) i j = add_eye (tl_solve BT a) i j"
proof -
  note ij' = ij [unfolded BT]
  let ?A1 = "add_eye (tl_solve BC a)" and ?A2 = "add_eye (tl_solve BC (\<lambda>i j. a (BC + i) (BC + j)))"
  have "dot BC (dot BC A2 H) A1 r j = dot BC (dot BC ?A2 H) ?A1 r j" if "r < BC" for r
    unfolding dot_def using that by (intro sum.cong refl arg_cong2 [where f = "(*)"]) (simp_all add: A1 A2)
  then show ?thesis
    unfolding BT using tl_wy.block_inverse [OF a, where g = H, OF H ij'] ij' A1 A2 by (auto simp: block_tile_def)
qed

lemma chunk64_tiles:
  assumes E: "exact_casts (base F)" "safe_exp_spec F" and BK: "0 < BK" and BT: "BT = BC + BC"
    and g: "local_gate BT T g c" "\<And>t. t < T \<Longrightarrow> g t \<le> 0"
    and res: "wy_chunk64_tiles F T K BT BK BC k c beta n = (A, B)" and ij: "i < BT" "j < BT"
  shows "block_tile BC A i j = chunk_solution BT (chunk_gram K BT (pad_rows T k) (pad_vec T beta) n) i j"
    and "block_tile BC B i j
      = chunk_solution BT (decayed_gram K BT (pad_rows T k) (pad_vec T beta) (gate (base F) BT T g) n) i j"
proof -
  let ?G = "chunk_gram K BT (pad_rows T k) (pad_vec T beta) n"
  let ?D = "decayed_gram K BT (pad_rows T k) (pad_vec T beta) (gate (base F) BT T g) n"
  let ?a = "neg_strict_lower ?G" and ?d = "neg_strict_lower ?D"
  let ?s = "\<lambda>i j. safe_exp F (ld1 c T (n * BT) i - ld1 c T (n * BT) j)"
  let ?a2 = "neg_strict_lower (\<lambda>i j. ?G (BC + i) (BC + j))"
  let ?b1 = "\<lambda>i j. if n * BT + j < T \<and> j \<le> i then ?a i j * ?s i j else 0"
  let ?b2 = "\<lambda>i j. if n * BT + BC + j < T \<and> j \<le> i then ?a2 i j * ?s (BC + i) (BC + j) else 0"
  let ?h = "\<lambda>i j. if n * BT + j < T then ?G (BC + i) j * ?s (BC + i) j else 0"
  have tiles: "gram_tiles64 F T K BK (n * BT) (n * BT + BC) k beta = (?G, \<lambda>i j. ?G (BC + i) (BC + j), \<lambda>i j. ?G (BC + i) j)"
    unfolding gram_tiles64_padded [OF E(1) BK] Let_def by simp
  have view: "ld1 c T (n * BT + BC) i = ld1 c T (n * BT) (BC + i)" for i
    by (simp add: ld1_def add.assoc)
  have a2: "?a2 = (\<lambda>i j. ?a (BC + i) (BC + j))" by (simp add: neg_strict_lower_def fun_eq_iff)
  have AB: "A = (add_eye (tl_solve BC ?a), add_eye (tl_solve BC ?a2),
      (\<lambda>i j. - dot BC (dot BC (add_eye (tl_solve BC ?a2)) (\<lambda>i j. ?G (BC + i) j)) (add_eye (tl_solve BC ?a)) i j))"
    "B = (add_eye (tl_solve BC ?b1), add_eye (tl_solve BC ?b2),
      (\<lambda>i j. - dot BC (dot BC (add_eye (tl_solve BC ?b2)) ?h) (add_eye (tl_solve BC ?b1)) i j))"
    using res unfolding wy_chunk64_tiles_def Let_def tiles prod.case for_loop_quad tl_solve_unfold view by simp_all
  have sl: "strict_lower ?a" "strict_lower ?d" by (rule neg_strict_lower_strict)+
  show "block_tile BC A i j = chunk_solution BT ?G i j"
    unfolding AB chunk_solution_def
    by (rule block_solution [OF sl(1) _ _ _ BT ij]) (simp_all add: a2 neg_strict_lower_def)
  have entry: "?G i j * ?s i j = ?D i j" if "j \<le> i" "i < BT" for i j
    using that by (intro decayed_entry [OF E g])
  have out: "?G i j = 0" if "\<not> n * BT + j < T" for i j
    using that by (simp add: chunk_gram_def pad_rows_def)
  have dout: "?D i j = 0" if "\<not> n * BT + j < T" for i j
    using out [OF that] by (simp add: decayed_gram_def)
  have b1: "?b1 i j = ?d i j" if "j < i" "i < BC" for i j
    using that entry [of j i] dout [of j i] by (simp add: neg_strict_lower_def BT)
  have b2: "?b2 i j = ?d (BC + i) (BC + j)" if "j < i" "i < BC" for i j
    using that entry [of "BC + j" "BC + i"] dout [of "BC + j" "BC + i"] by (simp add: neg_strict_lower_def BT add.assoc)
  have h: "?h i j = - ?d (BC + i) j" if "i < BC" "j < BC" for i j
    using that entry [of j "BC + i"] dout [of j "BC + i"] by (simp add: neg_strict_lower_def BT)
  have low: "strict_lower ?b1" "strict_lower ?b2" "strict_lower (\<lambda>i j. ?d (BC + i) (BC + j))"
    by (simp_all add: strict_lower_def neg_strict_lower_def)
  show "block_tile BC B i j = chunk_solution BT ?D i j"
    unfolding AB(2) chunk_solution_def
  proof (rule block_solution [OF sl(2) _ _ _ BT ij])
    fix i j assume i: "i < BC"
    show "add_eye (tl_solve BC ?b1) i j = add_eye (tl_solve BC ?d) i j"
      by (rule solve_strict_cong [OF low(1) sl(2) b1 i])
    show "add_eye (tl_solve BC ?b2) i j = add_eye (tl_solve BC (\<lambda>i j. ?d (BC + i) (BC + j))) i j"
      by (rule solve_strict_cong [OF low(2,3) b2 i])
  qed (rule h)
qed

section \<open>The stores\<close>

lemma store_blocks_value:
  assumes "exact_casts (base F)" "0 < BC" "BT = BC + BC" "t < T" "j < BT"
  shows "store_blocks F T BT BC n As A t j = (if t div BT = n then block_tile BC As (t mod BT) j else A t j)"
proof -
  obtain A1 A2 A3 where As: "As = (A1, A2, A3)" by (rule prod_cases3)
  have bt: "0 < BT" using assms(2,3) by simp
  have casts: "mcast (to_in (base F)) X = X" for X using assms(1) by (simp add: exact_casts_def mcast_def)
  have blk: "t div BT = n \<longleftrightarrow> n * BT \<le> t \<and> t < n * BT + BT" using block_rows_iff [OF bt, of n t] by blast
  show ?thesis
  proof (cases "t div BT = n")
    case True
    define i where "i = t mod BT"
    have t: "t = n * BT + i" "i < BT" using div_mult_mod_eq [of t BT] bt True by (simp_all add: i_def)
    have "n * BT + i < T" using assms(4) t(1) by simp
    then have "store_blocks F T BT BC n As A (n * BT + i) j = block_tile BC As i j"
      using assms(2,5) t(2) by (auto simp: As store_blocks_def block_tile_def Let_def casts st_def assms(3) zero_tile_def)
    then show ?thesis using True unfolding t(1) [symmetric] i_def [symmetric] by simp
  next
    case False
    then have "t < n * BT \<or> n * BT + BT \<le> t" using blk by auto
    then show ?thesis
      using False by (auto simp: As store_blocks_def Let_def casts st_def assms(3))
  qed
qed

lemma store_blocks_outside:
  assumes "0 < BC" "BT = BC + BC" "T \<le> t \<or> t div BT \<noteq> n"
  shows "store_blocks F T BT BC n As A t = A t"
proof -
  obtain A1 A2 A3 where As: "As = (A1, A2, A3)" by (rule prod_cases3)
  have "T \<le> t \<or> t < n * BT \<or> n * BT + BT \<le> t"
    using assms block_rows_iff [of BT n t] by auto
  then show ?thesis by (auto simp: As store_blocks_def Let_def st_def assms(2) fun_eq_iff)
qed

lemma product_blocks_value:
  assumes E: "exact_casts (base F)" and p: "0 < B" "0 < BT" "t < T" "c < D" "t div BT = n"
    and A: "\<And>j. j < BT \<Longrightarrow> A t j = A' (t mod BT) j"
  shows "product_blocks F T D BT B x beta A n y t c
    = dot BT A' (scaled_rows BT (pad_rows T x) (pad_vec T beta) n) (t mod BT) c"
proof -
  have tb: "n * BT \<le> t \<and> t < n * BT + BT" using block_rows_iff [OF p(2)] p(5) by blast
  have m: "n * BT + t mod BT = t" using div_mult_mod_eq [of t BT] p(5) by simp
  have cB: "c div B * B + c mod B = c" by simp
  show ?thesis
    unfolding product_blocks_def Let_def for_loop_store_cols [OF p(1)]
    using tb p E block_in_cdiv [OF p(1,4)] block_offset [OF p(5)]
    by (auto simp: mcast_def scale_rows_def dot_def exact_casts_def ld_padded ld1_padded scaled_rows_def
        pad_rows_def m A cB intro!: sum.cong)
qed

lemma product_blocks_outside:
  assumes "0 < B" "0 < BT" "T \<le> t \<or> t div BT \<noteq> n"
  shows "product_blocks F T D BT B x beta A n y t = y t"
  unfolding product_blocks_def Let_def fun_eq_iff for_loop_store_cols [OF assms(1)]
  using block_rows_iff [OF assms(2), of n t] assms(3) by auto

section \<open>Launches over packed sequences\<close>

definition owns :: "nat \<Rightarrow> nat \<times> nat \<times> nat \<Rightarrow> nat \<Rightarrow> bool" where
  "owns BT p r = (case p of (bos, len, i_t) \<Rightarrow> bos \<le> r \<and> r < bos + len \<and> (r - bos) div BT = i_t)"

text \<open>
  The sequence of \<open>len\<close> rows from \<open>bos\<close> on is covered: each of its chunks has one program, and no
  other program of the launch owns a row of it.
\<close>

definition launch_plan :: "nat \<Rightarrow> nat list option \<Rightarrow> (nat \<times> nat) list \<Rightarrow> nat \<Rightarrow> nat \<Rightarrow> nat \<Rightarrow> nat \<Rightarrow> bool" where
  "launch_plan BT offsets indices T NT bos len \<longleftrightarrow> (\<forall>t < len. \<exists>i < NT.
     program_chunk offsets indices T i = (bos, len, t div BT) \<and>
     (\<forall>i' < NT. i' \<noteq> i \<longrightarrow> \<not> owns BT (program_chunk offsets indices T i') (bos + t)))"

lemma at_seq_row [simp]: "at_seq bos f M (bos + t) = f (seq_view bos M) t"
  by (simp add: at_seq_def)

lemma at_seq_keep:
  assumes "\<And>M t. len \<le> t \<or> t div BT \<noteq> n \<Longrightarrow> f M t = M t" and "\<not> owns BT (bos, len, n) r"
  shows "at_seq bos f M r = M r"
proof (cases "bos \<le> r")
  case True
  then have "len \<le> r - bos \<or> (r - bos) div BT \<noteq> n" using assms(2) by (auto simp: owns_def)
  from assms(1) [OF this, of "seq_view bos M"] True show ?thesis by (simp add: at_seq_def seq_view_def)
qed (simp add: at_seq_def)

text \<open>A launch whose programs write at most the rows they own.\<close>

lemma launch_rows:
  assumes plan: "launch_plan BT offsets indices T NT bos len" and t: "t < len"
    and keep: "\<And>i s r. \<not> owns BT (program_chunk offsets indices T i) r \<Longrightarrow> get r (prog i s) = get r s"
    and wr: "\<And>i s. program_chunk offsets indices T i = (bos, len, t div BT) \<Longrightarrow> get (bos + t) (prog i s) = X"
  shows "get (bos + t) (for_loop NT prog s) = X"
proof -
  obtain i where i: "i < NT" "program_chunk offsets indices T i = (bos, len, t div BT)"
    "\<forall>i' < NT. i' \<noteq> i \<longrightarrow> \<not> owns BT (program_chunk offsets indices T i') (bos + t)"
    using plan t by (auto simp: launch_plan_def)
  show ?thesis
    by (rule launch_writes [where m = i and get = "get (bos + t)"]) (use i wr keep in auto)
qed

lemma recompute_seq:
  assumes E: "exact_casts (base F)" and p: "0 < BK" "0 < BV" "0 < BT"
    and plan: "launch_plan BT offsets indices T NT bos len" and t: "t < len"
    and Aw: "\<And>j. j < BT \<Longrightarrow> Aw (bos + t) j = Bw (t mod BT) j" and Au: "\<And>j. j < BT \<Longrightarrow> Au (bos + t) j = Bu (t mod BT) j"
    and L: "L = for_loop NT (fla_fwd_recompute_w_u_kernel F offsets indices T K V BT BK BV k v beta Aw Au) s"
  shows "d < K \<Longrightarrow> fst L (bos + t) d
      = dot BT Bw (scaled_rows BT (pad_rows len (seq_view bos k)) (pad_vec len (seq_view bos beta)) (t div BT)) (t mod BT) d"
    and "c < V \<Longrightarrow> snd L (bos + t) c
      = dot BT Bu (scaled_rows BT (pad_rows len (seq_view bos v)) (pad_vec len (seq_view bos beta)) (t div BT)) (t mod BT) c"
proof -
  let ?prog = "fla_fwd_recompute_w_u_kernel F offsets indices T K V BT BK BV k v beta Aw Au"
  have keep: "fst (?prog i s) r = fst s r \<and> snd (?prog i s) r = snd s r"
    if "\<not> owns BT (program_chunk offsets indices T i) r" for i s r
  proof -
    obtain b l m where pc: "program_chunk offsets indices T i = (b, l, m)" by (rule prod_cases3)
    obtain w u where s: "s = (w, u)" by (cases s)
    have no: "\<not> owns BT (b, l, m) r" using that pc by simp
    show ?thesis
      unfolding fla_fwd_recompute_w_u_kernel_def s prod.case pc Let_def fst_conv snd_conv
      by (intro conjI at_seq_keep [OF _ no] product_blocks_outside p; assumption)
  qed
  have Aw': "seq_view bos Aw t j = Bw (t mod BT) j" "seq_view bos Au t j = Bu (t mod BT) j" if "j < BT" for j
    using that Aw Au by (simp_all add: seq_view_def)
  have wr: "d < K \<Longrightarrow> fst (?prog i s) (bos + t) d
      = dot BT Bw (scaled_rows BT (pad_rows len (seq_view bos k)) (pad_vec len (seq_view bos beta)) (t div BT)) (t mod BT) d"
    "c < V \<Longrightarrow> snd (?prog i s) (bos + t) c
      = dot BT Bu (scaled_rows BT (pad_rows len (seq_view bos v)) (pad_vec len (seq_view bos beta)) (t div BT)) (t mod BT) c"
    if "program_chunk offsets indices T i = (bos, len, t div BT)" for i s d c
    using product_blocks_value [where A' = Bw and A = "seq_view bos Aw", OF E p(1,3) t _ refl Aw'(1)]
      product_blocks_value [where A' = Bu and A = "seq_view bos Au", OF E p(2,3) t _ refl Aw'(2)] that
    by (cases s, simp add: fla_fwd_recompute_w_u_kernel_def)+
  show "d < K \<Longrightarrow> fst L (bos + t) d
      = dot BT Bw (scaled_rows BT (pad_rows len (seq_view bos k)) (pad_vec len (seq_view bos beta)) (t div BT)) (t mod BT) d"
    unfolding L by (rule launch_rows [OF plan t, where get = "\<lambda>r s. fst s r d"]) (use keep wr in auto)
  show "c < V \<Longrightarrow> snd L (bos + t) c
      = dot BT Bu (scaled_rows BT (pad_rows len (seq_view bos v)) (pad_vec len (seq_view bos beta)) (t div BT)) (t mod BT) c"
    unfolding L by (rule launch_rows [OF plan t, where get = "\<lambda>r s. snd s r c"]) (use keep wr in auto)
qed

lemma st_block_outside:
  assumes "0 < BT" "T \<le> t \<or> t div BT \<noteq> n"
  shows "st A T BT (n * BT) 0 BT BT blk t = A t"
  using assms block_rows_iff [OF assms(1), of n t] by (auto simp: st_def fun_eq_iff)

definition solve_kernel :: "nat \<Rightarrow> fla_env \<Rightarrow> nat list option \<Rightarrow> (nat \<times> nat) list \<Rightarrow> nat \<Rightarrow> nat \<Rightarrow> nat \<Rightarrow> nat \<Rightarrow> nat
    \<Rightarrow> mat \<Rightarrow> vec \<Rightarrow> vec \<Rightarrow> nat \<Rightarrow> mat \<times> mat \<Rightarrow> mat \<times> mat" where
  "solve_kernel BT0 = (if BT0 = 64 then fla_fwd_prepare_wy_repr_kernel_chunk64 else fla_fwd_prepare_wy_repr_kernel_chunk32)"

lemma solve_kernel_keep:
  assumes BT: "BT = 64 \<and> BC = 32 \<or> BT \<noteq> 64 \<and> BC = BT" "0 < BT"
    and no: "\<not> owns BT (program_chunk offsets indices T i) r"
  shows "fst (solve_kernel BT F offsets indices T K BT BK BC k g beta i s) r = fst s r \<and>
    snd (solve_kernel BT F offsets indices T K BT BK BC k g beta i s) r = snd s r"
proof -
  obtain b l m where pc: "program_chunk offsets indices T i = (b, l, m)" by (rule prod_cases3)
  obtain A B where s: "s = (A, B)" by (cases s)
  have no': "\<not> owns BT (b, l, m) r" using no pc by simp
  show ?thesis
  proof (cases "BT = 64")
    case True
    then have bc: "0 < BC" "BT = BC + BC" using BT by auto
    show ?thesis
      unfolding solve_kernel_def if_P [OF True] fla_fwd_prepare_wy_repr_kernel_chunk64_def s prod.case pc Let_def
        split_def fst_conv snd_conv
      by (intro conjI at_seq_keep [OF _ no'] store_blocks_outside [OF bc]; assumption)
  next
    case False
    then have bc: "BC = BT" using BT by auto
    show ?thesis
      unfolding solve_kernel_def if_not_P [OF False] fla_fwd_prepare_wy_repr_kernel_chunk32_def s prod.case pc Let_def
        split_def fst_conv snd_conv bc
      by (intro conjI at_seq_keep [OF _ no'] st_block_outside [OF BT(2)]; assumption)
  qed
qed

lemma solve_kernel_value:
  assumes E: "exact_casts (base F)" "safe_exp_spec F" and BK: "0 < BK"
    and BT: "BT = 64 \<and> BC = 32 \<or> BT \<noteq> 64 \<and> BC = BT" "0 < BT"
    and g: "local_gate BT len g0 (seq_view bos c)" "\<And>t. t < len \<Longrightarrow> g0 t \<le> 0"
    and pc: "program_chunk offsets indices T i = (bos, len, t div BT)" and t: "t < len" and j: "j < BT"
    and kp: "kp = pad_rows len (seq_view bos k)" and bp: "bp = pad_vec len (seq_view bos beta)"
  shows "fst (solve_kernel BT F offsets indices T K BT BK BC k c beta i s) (bos + t) j
      = chunk_solution BT (chunk_gram K BT kp bp (t div BT)) (t mod BT) j \<and>
    snd (solve_kernel BT F offsets indices T K BT BK BC k c beta i s) (bos + t) j
      = chunk_solution BT (decayed_gram K BT kp bp (gate (base F) BT len g0) (t div BT)) (t mod BT) j"
proof -
  obtain A B where s: "s = (A, B)" by (cases s)
  have m: "t mod BT < BT" using BT(2) by simp
  have casts: "mcast (to_in (base F)) X = X" for X using E(1) by (simp add: exact_casts_def mcast_def)
  show ?thesis
  proof (cases "BT = 64")
    case True
    then have bc: "0 < BC" "BT = BC + BC" using BT by auto
    obtain Aw Au where tiles: "wy_chunk64_tiles F len K BT BK BC (seq_view bos k) (seq_view bos c) (seq_view bos beta) (t div BT) = (Aw, Au)"
      by (rule prod.exhaust)
    have "solve_kernel BT F offsets indices T K BT BK BC k c beta i s =
      (at_seq bos (store_blocks F len BT BC (t div BT) Aw) A, at_seq bos (store_blocks F len BT BC (t div BT) Au) B)"
      unfolding solve_kernel_def if_P [OF True] fla_fwd_prepare_wy_repr_kernel_chunk64_def s pc Let_def by (simp add: tiles)
    then show ?thesis
      using store_blocks_value [OF E(1) bc t j] chunk64_tiles [OF E BK bc(2) g tiles m j] by (simp add: kp bp)
  next
    case False
    then have bc: "BC = BT" using BT by auto
    obtain Aw Au where tiles: "wy_chunk32_tiles F len K BT BK BT (seq_view bos k) (seq_view bos c) (seq_view bos beta) (t div BT) = (Aw, Au)"
      by (rule prod.exhaust)
    have "solve_kernel BT F offsets indices T K BT BK BC k c beta i s =
      (at_seq bos (\<lambda>M. st M len BT (t div BT * BT) 0 BT BT Aw) A, at_seq bos (\<lambda>M. st M len BT (t div BT * BT) 0 BT BT Au) B)"
      unfolding solve_kernel_def if_not_P [OF False] fla_fwd_prepare_wy_repr_kernel_chunk32_def s pc Let_def bc
      by (simp add: tiles casts)
    then show ?thesis
      using st_block [OF BT(2) t j] chunk32_tiles [OF E BK g tiles m] by (simp add: kp bp)
  qed
qed

lemma solve_seq:
  assumes E: "exact_casts (base F)" "safe_exp_spec F" and BK: "0 < BK"
    and BT: "BT = 64 \<and> BC = 32 \<or> BT \<noteq> 64 \<and> BC = BT" "0 < BT"
    and g: "local_gate BT len g0 (seq_view bos c)" "\<And>t. t < len \<Longrightarrow> g0 t \<le> 0"
    and plan: "launch_plan BT offsets indices T NT bos len" and t: "t < len" and j: "j < BT"
    and L: "L = for_loop NT (solve_kernel BT F offsets indices T K BT BK BC k c beta) s"
  shows "fst L (bos + t) j
      = chunk_solution BT (chunk_gram K BT (pad_rows len (seq_view bos k)) (pad_vec len (seq_view bos beta)) (t div BT)) (t mod BT) j"
    and "snd L (bos + t) j
      = chunk_solution BT (decayed_gram K BT (pad_rows len (seq_view bos k)) (pad_vec len (seq_view bos beta))
          (gate (base F) BT len g0) (t div BT)) (t mod BT) j"
proof -
  note keep = solve_kernel_keep [OF BT] and wr = solve_kernel_value [OF E BK BT g _ t j refl refl]
  show "fst L (bos + t) j
      = chunk_solution BT (chunk_gram K BT (pad_rows len (seq_view bos k)) (pad_vec len (seq_view bos beta)) (t div BT)) (t mod BT) j"
    unfolding L by (rule launch_rows [OF plan t, where get = "\<lambda>r s. fst s r j"]) (simp_all add: keep wr)
  show "snd L (bos + t) j
      = chunk_solution BT (decayed_gram K BT (pad_rows len (seq_view bos k)) (pad_vec len (seq_view bos beta))
          (gate (base F) BT len g0) (t div BT)) (t mod BT) j"
    unfolding L by (rule launch_rows [OF plan t, where get = "\<lambda>r s. snd s r j"]) (simp_all add: keep wr)
qed

text \<open>What \<open>fwd_prepare_wy_repr\<close> returns on one of the packed sequences.\<close>

lemma fla_prepare_seq:
  assumes E: "exact_casts (base F)" "pow2_spec (base F)" "safe_exp_spec F"
    and BT: "BT = chunk_block F chunk_size T" "BT = 64 \<or> BT \<le> 32" "0 < BT"
    and NT: "NT = (case offsets of None \<Rightarrow> cdiv T BT | Some os \<Rightarrow> length ixs)"
    and res: "fla_fwd_prepare_wy_repr F offsets indices chunk_size T K V k v c beta = Inr (w, u, Aw, Au)"
    and ixs: "ixs = (case indices of None \<Rightarrow> [] | Some ixs \<Rightarrow> ixs)"
    and g: "local_gate BT len g0 (seq_view bos c)" "\<And>t. t < len \<Longrightarrow> g0 t \<le> 0"
    and plan: "launch_plan BT offsets ixs T NT bos len" and t: "t < len"
  shows "d < K \<Longrightarrow> w (bos + t) d = wy_w K BT (pad_rows len (seq_view bos k)) (pad_vec len (seq_view bos beta)) t d"
    and "e < V \<Longrightarrow> u (bos + t) e = wy_u K BT (pad_rows len (seq_view bos k)) (pad_rows len (seq_view bos v))
      (pad_vec len (seq_view bos beta)) (gate (base F) BT len g0) t e"
    and "j < BT \<Longrightarrow> Aw (bos + t) j
      = chunk_solution BT (chunk_gram K BT (pad_rows len (seq_view bos k)) (pad_vec len (seq_view bos beta)) (t div BT)) (t mod BT) j"
    and "j < BT \<Longrightarrow> Au (bos + t) j
      = chunk_solution BT (decayed_gram K BT (pad_rows len (seq_view bos k)) (pad_vec len (seq_view bos beta))
          (gate (base F) BT len g0) (t div BT)) (t mod BT) j"
proof -
  let ?BK = "min (next_pow2 (base F) K) 64" and ?BV = "min (next_pow2 (base F) V) 64" and ?BC = "min BT 32"
  have b: "0 < ?BK" "0 < ?BV" using pow2_block [OF E(2)] by auto
  have bc: "BT = 64 \<and> ?BC = 32 \<or> BT \<noteq> 64 \<and> ?BC = BT" using BT(2) by auto
  have off: "\<not> (offsets \<noteq> None \<and> indices = None)"
    using res by (auto simp: fla_fwd_prepare_wy_repr_def Let_def split: if_splits)
  have shape: "\<not> (BT \<noteq> 64 \<and> ?BC \<noteq> BT)" using bc by blast
  have unf: "fla_fwd_prepare_wy_repr F offsets indices chunk_size T K V k v c beta =
    (let (Aw, Au) = for_loop NT (solve_kernel BT F offsets ixs T K BT ?BK ?BC k c beta) (uninit (base F), uninit (base F));
         (w, u) = fla_fwd_recompute_w_u F offsets indices chunk_size T K V k v beta Aw Au
     in Inr (w, u, Aw, Au))"
    unfolding fla_fwd_prepare_wy_repr_def Let_def BT(1) [symmetric] ixs [symmetric] NT [symmetric] if_not_P [OF off]
      if_not_P [OF shape] by (cases "BT = 64") (simp_all add: solve_kernel_def)
  define L where "L = for_loop NT (solve_kernel BT F offsets ixs T K BT ?BK ?BC k c beta) (uninit (base F), uninit (base F))"
  have A: "Aw = fst L" "Au = snd L" and wu: "fla_fwd_recompute_w_u F offsets indices chunk_size T K V k v beta Aw Au = (w, u)"
    using res unfolding unf L_def [symmetric] by (auto simp: Let_def split: prod.splits)
  have ixs': "(case offsets of None \<Rightarrow> [] | Some os \<Rightarrow> (case indices of None \<Rightarrow> chunk_indices os BT | Some ixs \<Rightarrow> ixs))
      = (case offsets of None \<Rightarrow> [] | Some os \<Rightarrow> ixs)"
    using off by (auto simp: ixs split: option.splits)
  have same: "fla_fwd_recompute_w_u_kernel F offsets (case offsets of None \<Rightarrow> [] | Some os \<Rightarrow> ixs) = fla_fwd_recompute_w_u_kernel F offsets ixs"
    by (cases offsets) (simp_all add: fla_fwd_recompute_w_u_kernel_def program_chunk_def fun_eq_iff)
  have NT': "(case offsets of None \<Rightarrow> cdiv T BT | Some os \<Rightarrow> length (case offsets of None \<Rightarrow> [] | Some os \<Rightarrow> ixs)) = NT"
    by (simp add: NT split: option.splits)
  have run: "(w, u) = for_loop NT (fla_fwd_recompute_w_u_kernel F offsets ixs T K V BT ?BK ?BV k v beta Aw Au)
      (uninit (base F), uninit (base F))"
    using wu unfolding fla_fwd_recompute_w_u_def Let_def BT(1) [symmetric] ixs' same NT' by simp
  note solved = solve_seq [OF E(1,3) b(1) bc BT(3) g plan t _ L_def]
  note rows = recompute_seq [OF E(1) b BT(3) plan t, where Aw = Aw and Au = Au, OF _ _ run, unfolded fst_conv snd_conv]
  show "d < K \<Longrightarrow> w (bos + t) d = wy_w K BT (pad_rows len (seq_view bos k)) (pad_vec len (seq_view bos beta)) t d"
    unfolding wy_w_def by (rule rows(1)) (simp_all add: A solved)
  show "e < V \<Longrightarrow> u (bos + t) e = wy_u K BT (pad_rows len (seq_view bos k)) (pad_rows len (seq_view bos v))
      (pad_vec len (seq_view bos beta)) (gate (base F) BT len g0) t e"
    unfolding wy_u_def by (rule rows(2)) (simp_all add: A solved)
  show "j < BT \<Longrightarrow> Aw (bos + t) j
      = chunk_solution BT (chunk_gram K BT (pad_rows len (seq_view bos k)) (pad_vec len (seq_view bos beta)) (t div BT)) (t mod BT) j"
    "j < BT \<Longrightarrow> Au (bos + t) j
      = chunk_solution BT (decayed_gram K BT (pad_rows len (seq_view bos k)) (pad_vec len (seq_view bos beta))
          (gate (base F) BT len g0) (t div BT)) (t mod BT) j"
    by (simp_all add: A solved)
qed

section \<open>The blocked solve\<close>

text \<open>C24: The blocked triangular solve is the unblocked one.  For log decays at most zero, whose sums within each chunk are the
  gates given to the kernels, and chunks of twice the block size, the kernel
  inverts two diagonal blocks by substitution and gets the third from two matrix products; the tiles it
  stores, put together, are element by element those the plain substitution kernel computes for the
  whole chunk, for \<open>A_w\<close> and for the decayed \<open>A_u\<close>, also in a last chunk that is not full.\<close>

theorem blocked_solve_matches_substitution:
  assumes "exact_casts (base F)" and "safe_exp_spec F" and "0 < BK"
    and "local_gate (BC + BC) T g c" and "\<forall>t < T. g t \<le> 0"
    and "wy_chunk64_tiles F T K (BC + BC) BK BC k c beta n = (A, B)"
    and "wy_chunk32_tiles F T K (BC + BC) BK (BC + BC) k c beta n = (A', B')"
    and "i < BC + BC" and "j < BC + BC"
  shows "block_tile BC A i j = A' i j \<and> block_tile BC B i j = B' i j"
proof -
  have g: "\<And>t. t < T \<Longrightarrow> g t \<le> 0" using assms(5) by blast
  show ?thesis
    by (simp only: chunk64_tiles [OF assms(1-3) refl assms(4) g assms(6,8,9)] chunk32_tiles [OF assms(1-4) g assms(7,8)])
qed

definition example_gate_env :: fla_env where
  "example_gate_env = \<lparr>base = example_env, safe_exp = exp, chunk_local_cumsum = (\<lambda>c offsets T g. g), chunk_local_revcumsum = (\<lambda>c offsets T g. g),
     capability = (8, 6), tuned_bk = 64, tuned_bv = 64\<rparr>"

theorem blocked_solve_matches_substitution_witness:
  "\<exists>A B A' B'.
     wy_chunk64_tiles example_gate_env 3 1 (2 + 2) 1 2 (\<lambda>t d. real t + 1) (\<lambda>t. - real t - 1) (\<lambda>t. 1 / 2) 0 = (A, B) \<and>
     wy_chunk32_tiles example_gate_env 3 1 (2 + 2) 1 (2 + 2) (\<lambda>t d. real t + 1) (\<lambda>t. - real t - 1) (\<lambda>t. 1 / 2) 0 = (A', B') \<and>
     block_tile 2 A 2 0 = A' 2 0 \<and> block_tile 2 B 2 0 = B' 2 0"
proof -
  obtain A B where a: "wy_chunk64_tiles example_gate_env 3 1 (2 + 2) 1 2 (\<lambda>t d. real t + 1) (\<lambda>t. - real t - 1) (\<lambda>t. 1 / 2) 0 = (A, B)"
    by (rule prod.exhaust)
  obtain A' B' where b: "wy_chunk32_tiles example_gate_env 3 1 (2 + 2) 1 (2 + 2) (\<lambda>t d. real t + 1) (\<lambda>t. - real t - 1) (\<lambda>t. 1 / 2) 0 = (A', B')"
    by (rule prod.exhaust)
  have e: "exact_casts (base example_gate_env)" "safe_exp_spec example_gate_env"
    by (simp_all add: example_gate_env_def safe_exp_spec_def)
  have g: "local_gate (2 + 2) 3 (\<lambda>t. - 1) (\<lambda>t. - real t - 1)"
    by (auto simp: local_gate_def cumsum_def chunk_view_def pad_vec_def)
  have p: "\<forall>t < (3 :: nat). (- 1 :: real) \<le> 0" "0 < (1 :: nat)" "2 < (2 :: nat) + 2" "0 < (2 :: nat) + 2" by simp_all
  show ?thesis
    using a b blocked_solve_matches_substitution [OF e p(2) g p(1) a b p(3,4)] by blast
qed

end
