(* ===== verification/FlaChunk.thy ===== *)
theory FlaChunk
  imports FlaWY
begin

text \<open>
  The forward pass of \<open>lit_gpt/gated_delta_rule_ops/fla_version/chunk_fla.py\<close>: the kernel that carries
  the state through each packed sequence, the output kernel, their launches, the autograd
  function and the entry point with its checks.  Tensors are \<open>(batch, head)\<close> slices as in
  \<open>FlaWY\<close>; \<open>h\<close> is the list of states by chunk, \<open>ht\<close> and \<open>h0\<close> are indexed by sequence.
\<close>

section \<open>The kernels\<close>

definition scale_by :: "fla_env \<Rightarrow> (mat \<Rightarrow> vec \<Rightarrow> mat) \<Rightarrow> vec option \<Rightarrow> mat \<Rightarrow> mat" where
  "scale_by F scale factor b =
     (case factor of None \<Rightarrow> b | Some x \<Rightarrow> mcast (to_in (base F)) (scale b x))"

definition fla_h_subchunk ::
  "fla_env \<Rightarrow> nat \<Rightarrow> nat \<Rightarrow> nat \<Rightarrow> nat \<Rightarrow> nat \<Rightarrow> nat \<Rightarrow> nat \<Rightarrow> nat \<Rightarrow> mat \<Rightarrow> mat \<Rightarrow> mat \<Rightarrow> vec option
     \<Rightarrow> nat \<Rightarrow> nat \<Rightarrow> nat \<Rightarrow> mat \<Rightarrow> nat \<Rightarrow> mat \<times> mat \<Rightarrow> mat \<times> mat" where
  "fla_h_subchunk F bos T K V BT BC BK BV k v d g i_k i_v i_t b_h i_c = (\<lambda>(v_new, b_hc).
     (let r0 = i_t * BT + i_c * BC;
          last_idx = min ((i_t + 1) * BT) T - 1;
          b_g_last = map_option (\<lambda>g. g last_idx) g;
          b_g = map_option (\<lambda>g. ld1 g T r0) g;
          b_k = scale_by F scale_cols (map_option (\<lambda>b_g i. exp (the b_g_last - b_g i)) b_g) (tr (ld k T K r0 (i_k * BK)));
          b_d = scale_by F scale_rows (map_option (\<lambda>b_g i. exp (b_g i)) b_g) (ld d T K r0 (i_k * BK));
          b_v = ld v T V r0 (i_v * BV);
          b_v2 = msub b_v (dot BK b_d (mcast (to_in (base F)) b_h))
      in (at_seq bos (\<lambda>v_new. st v_new T V r0 (i_v * BV) BC BV (mcast (to_in (base F)) b_v2)) v_new,
          madd b_hc (dot BC b_k (mcast (to_in (base F)) b_v2)))))"

definition fla_h_chunk ::
  "fla_env \<Rightarrow> nat \<Rightarrow> nat \<Rightarrow> nat \<Rightarrow> nat \<Rightarrow> nat \<Rightarrow> nat \<Rightarrow> nat \<Rightarrow> nat \<Rightarrow> nat \<Rightarrow> mat \<Rightarrow> mat \<Rightarrow> mat \<Rightarrow> vec option
     \<Rightarrow> nat \<Rightarrow> nat \<Rightarrow> nat \<Rightarrow> mat \<times> (nat \<Rightarrow> mat) \<times> mat \<Rightarrow> mat \<times> (nat \<Rightarrow> mat) \<times> mat" where
  "fla_h_chunk F bos boh T K V BT BC BK BV k v d g i_k i_v i_t = (\<lambda>(b_h, h, v_new).
     (let h' = h(boh + i_t := st (h (boh + i_t)) K V (i_k * BK) (i_v * BV) BK BV (mcast (to_in (base F)) b_h));
          last_idx = min ((i_t + 1) * BT) T - 1;
          (v_new', b_hc) = for_loop (cdiv (min BT (T - i_t * BT)) BC)
             (fla_h_subchunk F bos T K V BT BC BK BV k v d g i_k i_v i_t b_h) (v_new, zero_tile);
          factor = (case g of None \<Rightarrow> 1 | Some g \<Rightarrow> exp (g last_idx))
      in (madd (\<lambda>r c. b_h r c * factor) b_hc, h', v_new')))"

text \<open>The rows, the chunk count and the first state slot of sequence \<open>i_n\<close>.\<close>

definition sequence_of :: "nat list option \<Rightarrow> nat list \<Rightarrow> nat \<Rightarrow> nat \<Rightarrow> nat \<times> nat \<times> nat" where
  "sequence_of offsets chunk_offsets T i_n =
     (case offsets of
        None \<Rightarrow> (0, T, 0)
      | Some os \<Rightarrow> (os ! i_n, os ! (i_n + 1) - os ! i_n, chunk_offsets ! i_n))"

definition fla_fwd_kernel_h ::
  "fla_env \<Rightarrow> nat list option \<Rightarrow> nat list \<Rightarrow> nat \<Rightarrow> nat \<Rightarrow> nat \<Rightarrow> nat \<Rightarrow> nat \<Rightarrow> nat \<Rightarrow> nat \<Rightarrow> mat \<Rightarrow> mat \<Rightarrow> mat
     \<Rightarrow> vec option \<Rightarrow> (nat \<Rightarrow> mat) option \<Rightarrow> nat \<Rightarrow> nat \<Rightarrow> nat
     \<Rightarrow> (nat \<Rightarrow> mat) \<times> mat \<times> (nat \<Rightarrow> mat) option \<Rightarrow> (nat \<Rightarrow> mat) \<times> mat \<times> (nat \<Rightarrow> mat) option" where
  "fla_fwd_kernel_h F offsets chunk_offsets T K V BT BC BK BV k v d g h0 i_k i_v i_n = (\<lambda>(h, v_new, ht).
     (let (bos, T, boh) = sequence_of offsets chunk_offsets T i_n;
          NT = cdiv T BT;
          b_h = (case h0 of
                   None \<Rightarrow> zero_tile
                 | Some h0 \<Rightarrow> mcast (to_f32 (base F)) (ld (h0 i_n) K V (i_k * BK) (i_v * BV)));
          (b_h, h', v_new') = for_loop NT
             (fla_h_chunk F bos boh T K V BT BC BK BV (seq_view bos k) (seq_view bos v) (seq_view bos d)
                (map_option (seq_view bos) g) i_k i_v) (b_h, h, v_new);
          ht' = map_option (\<lambda>ht. ht(i_n := st (ht i_n) K V (i_k * BK) (i_v * BV) BK BV (mcast (to_f32 (base F)) b_h))) ht
      in (h', v_new', ht')))"

definition fla_chunk_fwd_kernel_o ::
  "fla_env \<Rightarrow> nat list option \<Rightarrow> (nat \<times> nat) list \<Rightarrow> real \<Rightarrow> nat \<Rightarrow> nat \<Rightarrow> nat \<Rightarrow> nat \<Rightarrow> nat \<Rightarrow> nat \<Rightarrow> mat \<Rightarrow> mat \<Rightarrow> mat
     \<Rightarrow> (nat \<Rightarrow> mat) \<Rightarrow> vec option \<Rightarrow> nat \<Rightarrow> nat \<Rightarrow> mat \<Rightarrow> mat" where
  "fla_chunk_fwd_kernel_o F offsets indices scale T K V BT BK BV q k v h g i_v i_tg out =
     (let (bos, T, i_t) = program_chunk offsets indices T i_tg;
          q = seq_view bos q; k = seq_view bos k; v = seq_view bos v;
          (b_o, b_A) = for_loop (cdiv K BK) (\<lambda>i_k (b_o, b_A).
            let b_q = ld q T K (i_t * BT) (i_k * BK);
                b_k = tr (ld k T K (i_t * BT) (i_k * BK));
                b_h = ld (h i_tg) K V (i_k * BK) (i_v * BV)
            in (madd b_o (dot BK b_q b_h), madd b_A (dot BK b_q b_k))) (zero_tile, zero_tile);
          (b_o, b_A) = (case g of
             None \<Rightarrow> (b_o, b_A)
           | Some g \<Rightarrow> (let b_g = ld1 (seq_view bos g) T (i_t * BT)
                        in (scale_rows b_o (\<lambda>i. exp (b_g i)), (\<lambda>i j. b_A i j * safe_exp F (b_g i - b_g j)))));
          b_A = (\<lambda>i j. if i \<ge> j then b_A i j else 0);
          b_v = ld v T V (i_t * BT) (i_v * BV);
          b_o = (\<lambda>i c. b_o i c * scale + dot BT (mcast (to_in (base F)) b_A) b_v i c * scale)
      in at_seq bos (\<lambda>out. st out T V (i_t * BT) (i_v * BV) BT BV (mcast (to_in (base F)) b_o)) out)"

section \<open>The launches\<close>

definition fla_chunk_fwd_o ::
  "fla_env \<Rightarrow> nat list option \<Rightarrow> (nat \<times> nat) list option \<Rightarrow> real option \<Rightarrow> nat \<Rightarrow> nat \<Rightarrow> nat \<Rightarrow> nat \<Rightarrow> mat \<Rightarrow> mat \<Rightarrow> mat
     \<Rightarrow> (nat \<Rightarrow> mat) \<Rightarrow> vec option \<Rightarrow> mat result" where
  "fla_chunk_fwd_o F offsets indices scale chunk_size T K V q k v h g =
     (if offsets \<noteq> None \<and> indices = None then Inl TypeError
      else let scale = (case scale of None \<Rightarrow> real K powr (- (1 / 2)) | Some s \<Rightarrow> s);
               ixs = (case indices of None \<Rightarrow> [] | Some ixs \<Rightarrow> ixs);
               BT = chunk_block F chunk_size T;
               NT = (case offsets of None \<Rightarrow> cdiv T BT | Some os \<Rightarrow> length ixs)
           in Inr (for_loop (cdiv V (tuned_bv F)) (\<lambda>i_v. for_loop NT (\<lambda>i_t.
                fla_chunk_fwd_kernel_o F offsets ixs scale T K V BT (tuned_bk F) (tuned_bv F) q k v h g i_v i_t))
                (uninit (base F))))"

text \<open>\<open>cumsum([0] + cdiv(lengths, chunk_size))\<close>.\<close>

definition prepare_varlen_inputs :: "nat list \<Rightarrow> nat \<Rightarrow> nat list" where
  "prepare_varlen_inputs os chunk_size =
     map (\<lambda>n. sum_list (take n (chunk_counts os chunk_size))) [0..<length (chunk_counts os chunk_size) + 1]"

definition fla_fwd_h ::
  "fla_env \<Rightarrow> nat list option \<Rightarrow> nat \<Rightarrow> nat \<Rightarrow> nat \<Rightarrow> nat \<Rightarrow> mat \<Rightarrow> mat \<Rightarrow> mat \<Rightarrow> vec option \<Rightarrow> (nat \<Rightarrow> mat) option \<Rightarrow> bool
     \<Rightarrow> ((nat \<Rightarrow> mat) \<times> mat \<times> (nat \<Rightarrow> mat) option) result" where
  "fla_fwd_h F offsets chunk_size T K V k w u g initial_state output_final_state =
     (let BT = chunk_block F chunk_size T;
          N = (case offsets of None \<Rightarrow> 1 | Some os \<Rightarrow> length os - 1);
          chunk_offsets = (case offsets of None \<Rightarrow> [] | Some os \<Rightarrow> prepare_varlen_inputs os BT);
          BK = next_pow2 (base F) K
      in if \<not> BK \<le> 256 then Inl AssertionError
         else let (BV, BC) = (if fst (capability F) \<ge> 9 then (64, 64)
                              else if capability F = (8, 0) then (32, 64)
                              else (32, if K \<le> 128 then 64 else 32));
                  BC = min BT BC;
                  NK = cdiv K BK;
                  NV = cdiv V BV
              in if NK \<noteq> 1 then Inl AssertionError
                 else let final_state = (if output_final_state then Some (\<lambda>n. uninit (base F)) else None)
                      in Inr (for_loop NK (\<lambda>i_k. for_loop NV (\<lambda>i_v. for_loop N (\<lambda>i_n.
                           fla_fwd_kernel_h F offsets chunk_offsets T K V BT BC BK BV k u w g initial_state i_k i_v i_n)))
                           ((\<lambda>n. uninit (base F)), uninit (base F), final_state)))"

definition fla_chunk_gated_delta_rule_fwd ::
  "fla_env \<Rightarrow> nat list option \<Rightarrow> (nat \<times> nat) list option \<Rightarrow> nat \<Rightarrow> nat \<Rightarrow> nat \<Rightarrow> nat \<Rightarrow> mat \<Rightarrow> mat \<Rightarrow> mat \<Rightarrow> vec \<Rightarrow> vec
     \<Rightarrow> real \<Rightarrow> (nat \<Rightarrow> mat) option \<Rightarrow> bool \<Rightarrow> (vec \<times> mat \<times> mat \<times> mat \<times> (nat \<Rightarrow> mat) option) result" where
  "fla_chunk_gated_delta_rule_fwd F offsets indices chunk_size T K V q k v g beta scale initial_state output_final_state =
     (let g = chunk_local_cumsum F chunk_size offsets T g in
      rbind (fla_fwd_prepare_wy_repr F offsets indices chunk_size T K V k v g beta) (\<lambda>(w, u, Aw, Au).
      rbind (fla_fwd_h F offsets chunk_size T K V k w u (Some g) initial_state output_final_state) (\<lambda>(h, v_new, final_state).
      rbind (fla_chunk_fwd_o F offsets indices (Some scale) chunk_size T K V q k v_new h (Some g)) (\<lambda>out.
      Inr (g, out, Aw, Au, final_state)))))"

record fla_ctx =
  saved_g :: vec
  saved_Aw :: mat
  saved_Au :: mat
  saved_indices :: "(nat \<times> nat) list option"
  ctx_chunk_size :: nat
  ctx_scale :: real

definition FlaFunction_forward ::
  "fla_env \<Rightarrow> nat list option \<Rightarrow> nat \<Rightarrow> nat \<Rightarrow> nat \<Rightarrow> mat \<Rightarrow> mat \<Rightarrow> mat \<Rightarrow> vec \<Rightarrow> vec
     \<Rightarrow> real \<Rightarrow> (nat \<Rightarrow> mat) option \<Rightarrow> bool \<Rightarrow> (mat \<times> (nat \<Rightarrow> mat) option \<times> fla_ctx) result" where
  "FlaFunction_forward F offsets T K V q k v g beta scale initial_state output_final_state =
     (let chunk_size = 64;
          indices = map_option (\<lambda>os. chunk_indices os chunk_size) offsets
      in rbind (fla_chunk_gated_delta_rule_fwd F offsets indices chunk_size T K V q k v g beta scale
                  initial_state output_final_state) (\<lambda>(g, out, Aw, Au, final_state).
         Inr (mcast (to_in (base F)) out, final_state,
           \<lparr>saved_g = g, saved_Aw = Aw, saved_Au = Au, saved_indices = indices,
            ctx_chunk_size = chunk_size, ctx_scale = scale\<rparr>)))"

text \<open>What the entry point checks about its arguments before the kernels see them.\<close>

record call_shape =
  same_dtype :: bool
  is_float32 :: bool
  beta_rank :: nat
  batch_size :: nat
  head_first :: bool
  state_count :: nat     \<comment> \<open>\<open>initial_state.shape[0]\<close>\<close>

definition fla_chunk_gated_delta_rule ::
  "fla_env \<Rightarrow> call_shape \<Rightarrow> nat list option \<Rightarrow> nat \<Rightarrow> nat \<Rightarrow> nat \<Rightarrow> mat \<Rightarrow> mat \<Rightarrow> mat \<Rightarrow> vec \<Rightarrow> vec
     \<Rightarrow> real option \<Rightarrow> (nat \<Rightarrow> mat) option \<Rightarrow> bool \<Rightarrow> (mat \<times> (nat \<Rightarrow> mat) option) result" where
  "fla_chunk_gated_delta_rule F sh offsets T K V q k v g beta scale initial_state output_final_state =
     (if \<not> same_dtype sh \<or> is_float32 sh \<or> beta_rank sh \<noteq> 3 then Inl AssertionError
      else if offsets \<noteq> None \<and> batch_size sh \<noteq> 1 then Inl ValueError
      else if offsets \<noteq> None \<and> head_first sh then Inl RuntimeError
      else if (case (offsets, initial_state) of
                 (Some os, Some _) \<Rightarrow> int (state_count sh) \<noteq> int (length os) - 1 | _ \<Rightarrow> False) then Inl ValueError
      else if (case scale of None \<Rightarrow> False | Some s \<Rightarrow> \<not> s > 0) then Inl AssertionError
      else let scale = (case scale of None \<Rightarrow> real K powr (- (1 / 2)) | Some s \<Rightarrow> s)
           in rbind (FlaFunction_forward F offsets T K V q k v g beta scale initial_state output_final_state)
                (\<lambda>(out, final_state, ctx). Inr (out, final_state)))"


section \<open>The state kernel follows the padded one\<close>

lemma ld_pad_rows: "T \<le> T' \<Longrightarrow> ld (pad_rows T M) T' C r c = ld M T C r c"
  by (auto simp: ld_def pad_rows_def fun_eq_iff)

lemma gate_last:
  assumes "exact_casts E" "local_gate BT T g c" "0 < BT" "n * BT < T"
  shows "exp2 (gate E BT T g (n * BT + BT - 1)) = exp (c (min ((n + 1) * BT) T - 1))"
    and "n * BT + i < T \<Longrightarrow> i < BT \<Longrightarrow>
      exp2 (gate E BT T g (n * BT + BT - 1) - gate E BT T g (n * BT + i)) = exp (c (min ((n + 1) * BT) T - 1) - c (n * BT + i))"
proof -
  let ?x = "chunk_view BT n (pad_vec T g)"
  define l where "l = min ((n + 1) * BT) T - 1 - n * BT"
  have l: "min ((n + 1) * BT) T - 1 = n * BT + l" "l < BT" "n * BT + l < T"
    using assms(3,4) by (auto simp: l_def min_def)
  have at: "gate E BT T g (n * BT + j) = cumsum ?x j / ln 2" if "j < BT" for j
    by (rule gate_at [OF assms(1) that])
  have c: "c (n * BT + j) = cumsum ?x j" if "j < BT" "n * BT + j < T" for j
    using assms(2) that by (simp add: local_gate_def)
  have flat: "cumsum ?x (l + j) = cumsum ?x l" if "l + j < BT" for j
    using that
  proof (induction j)
    case 0
    then show ?case by simp
  next
    case (Suc j)
    have "?x (Suc (l + j)) = 0"
      using Suc.prems l(1) assms(3,4) by (auto simp: chunk_view_def pad_vec_def l_def min_def split: if_splits)
    then show ?case using Suc by simp
  qed
  have last: "gate E BT T g (n * BT + BT - 1) = cumsum ?x l / ln 2"
    using at [of "BT - 1"] flat [of "BT - 1 - l"] l(2) assms(3) by simp
  show "exp2 (gate E BT T g (n * BT + BT - 1)) = exp (c (min ((n + 1) * BT) T - 1))"
    unfolding last l(1) c [OF l(2,3)] by (rule exp2_ln)
  show "exp2 (gate E BT T g (n * BT + BT - 1) - gate E BT T g (n * BT + i)) = exp (c (min ((n + 1) * BT) T - 1) - c (n * BT + i))"
    if "n * BT + i < T" "i < BT"
    unfolding last l(1) c [OF l(2,3)] at [OF that(2)] c [OF that(2,1)] by (rule exp2_ln)
qed

text \<open>
  The padded run of \<open>chunk.py\<close>'s state kernel that a run on a sequence of \<open>T\<close> rows follows.
\<close>

abbreviation padded_subchunk where
  "padded_subchunk E T T' K V BT BC BK BV k v d gt \<equiv>
     fwd_h_subchunk E T' K V BT BC BK BV (pad_rows T k) (pad_rows T v) (pad_rows T d) gt"

definition rows_agree :: "nat \<Rightarrow> nat \<Rightarrow> mat \<Rightarrow> mat \<Rightarrow> bool" where
  "rows_agree bos T M M' \<longleftrightarrow> (\<forall>t < T. M (bos + t) = M' t)"

lemma subchunk_follows:
  fixes T T' BT BC n i_c :: nat
  assumes E: "exact_casts (base F)" and T': "T \<le> T'" and g: "local_gate BT T g0 c" "0 < BT" "n * BT < T"
    and ic: "i_c * BC + BC \<le> BT" and rel: "rows_agree bos T vn vn'"
    and a: "fla_h_subchunk F bos T K V BT BC BK BV k v d (Some c) i_k i_v n b_h i_c (vn, hc) = (vn1, hc1)"
    and b: "padded_subchunk (base F) T T' K V BT BC BK BV k v d (gate (base F) BT T g0) i_k i_v n b_h i_c (vn', hc) = (vn1', hc1')"
  shows "rows_agree bos T vn1 vn1'" and "hc1' = hc1"
proof -
  let ?gt = "gate (base F) BT T g0" and ?r = "n * BT + i_c * BC" and ?c = "c (min ((n + 1) * BT) T - 1)"
  have casts: "to_in (base F) = (\<lambda>x. x)" using E by (simp add: exact_casts_def)
  have inside: "i_c * BC + i < BT" if "i < BC" for i using that ic by simp
  let ?bk = "scale_cols (tr (ld k T K ?r (i_k * BK))) (\<lambda>i. exp (?c - ld1 c T ?r i))"
  let ?bk' = "scale_cols (tr (ld (pad_rows T k) T' K ?r (i_k * BK))) (\<lambda>i. exp2 (?gt (n * BT + BT - 1) - ?gt (?r + i)))"
  let ?bd = "scale_rows (ld d T K ?r (i_k * BK)) (\<lambda>i. exp (ld1 c T ?r i))"
  let ?bd' = "scale_rows (ld (pad_rows T d) T' K ?r (i_k * BK)) (\<lambda>i. exp2 (?gt (?r + i)))"
  have bk: "?bk r i = ?bk' r i" if "i < BC" for r i
    using gate_last(2) [OF E g, of "i_c * BC + i"] inside [OF that]
    by (simp add: scale_cols_def tr_def ld_pad_rows [OF T']) (simp add: ld_def ld1_def add.assoc)
  have bd: "?bd i l = ?bd' i l" for i l
    using gate_exp [OF E g(1,2), of "?r + i"]
    by (simp add: scale_rows_def ld_pad_rows [OF T']) (simp add: ld_def ld1_def)
  have bd_eq: "?bd = ?bd'" by (intro ext) (rule bd)
  let ?b2 = "msub (ld v T V ?r (i_v * BV)) (dot BK ?bd' b_h)"
  have out: "vn1 = at_seq bos (\<lambda>v_new. st v_new T V ?r (i_v * BV) BC BV ?b2) vn" "hc1 = madd hc (dot BC ?bk ?b2)"
    "vn1' = st vn' T' V ?r (i_v * BV) BC BV ?b2" "hc1' = madd hc (dot BC ?bk' ?b2)"
    using a b unfolding fla_h_subchunk_def fwd_h_subchunk_def scale_by_def
    by (simp_all add: Let_def casts mcast_def ld_pad_rows [OF T'] bd_eq)
  show "rows_agree bos T vn1 vn1'"
    using rel T' by (auto simp: out rows_agree_def st_def seq_view_def fun_eq_iff)
  have "dot BC ?bk ?b2 = dot BC ?bk' ?b2"
    unfolding dot_def by (intro ext sum.cong refl) (simp only: bk lessThan_iff)
  then show "hc1' = hc1" by (simp only: out)
qed

lemma subchunk_beyond:
  assumes E: "exact_casts E" and r: "T \<le> n * BT + i_c * BC"
    and b: "padded_subchunk E T T' K V BT BC BK BV k v d gt i_k i_v n b_h i_c (vn', hc) = (vn1', hc1')"
  shows "rows_agree bos T vn vn' \<Longrightarrow> rows_agree bos T vn vn1'" and "hc1' = hc"
proof -
  have z: "ld (pad_rows T k) T' K (n * BT + i_c * BC) (i_k * BK) i l = 0" for i l
    using r by (simp add: ld_def pad_rows_def)
  show "rows_agree bos T vn vn' \<Longrightarrow> rows_agree bos T vn vn1'"
  proof -
    obtain blk where "vn1' = st vn' T' V (n * BT + i_c * BC) (i_v * BV) BC BV blk"
      using b by (simp add: fwd_h_subchunk_def Let_def) blast
    then show "rows_agree bos T vn vn' \<Longrightarrow> rows_agree bos T vn vn1'"
      using r by (auto simp: rows_agree_def st_def fun_eq_iff)
  qed
  have "to_in E = (\<lambda>x. x)" using E by (simp add: exact_casts_def)
  then have "hc1' = madd hc (dot BC (mcast (\<lambda>x. x) (scale_cols (tr (ld (pad_rows T k) T' K (n * BT + i_c * BC) (i_k * BK)))
      (\<lambda>i. exp2 (gt (n * BT + BT - 1) - gt (n * BT + i_c * BC + i))))) (mcast (\<lambda>x. x)
      (msub (ld (pad_rows T v) T' V (n * BT + i_c * BC) (i_v * BV))
        (dot BK (mcast (\<lambda>x. x) (scale_rows (ld (pad_rows T d) T' K (n * BT + i_c * BC) (i_k * BK))
          (\<lambda>i. exp2 (gt (n * BT + i_c * BC + i))))) (mcast (\<lambda>x. x) b_h)))))"
    using b by (simp add: fwd_h_subchunk_def Let_def)
  also have "\<dots> = hc" by (simp add: madd_def dot_def mcast_def scale_cols_def tr_def z)
  finally show "hc1' = hc" .
qed

lemma cdiv_le: "0 < b \<Longrightarrow> x \<le> M * b \<Longrightarrow> cdiv x b \<le> M"
  using cdiv_mult [of b M] div_le_mono [of "x + b - 1" "M * b + b - 1" b] by (simp add: cdiv_def)

lemma subchunks_follow:
  assumes E: "exact_casts (base F)" and T': "T \<le> T'" and g: "local_gate BT T g0 c" "0 < BT" "n * BT < T"
    and BC: "0 < BC" "BT = M * BC" and rel: "rows_agree bos T vn vn'"
    and a: "for_loop (cdiv (min BT (T - n * BT)) BC)
      (fla_h_subchunk F bos T K V BT BC BK BV k v d (Some c) i_k i_v n b_h) (vn, hc) = (vn1, hc1)"
    and b: "for_loop M (padded_subchunk (base F) T T' K V BT BC BK BV k v d (gate (base F) BT T g0) i_k i_v n b_h) (vn', hc) = (vn1', hc1')"
  shows "rows_agree bos T vn1 vn1' \<and> hc1' = hc1"
proof -
  let ?f = "fla_h_subchunk F bos T K V BT BC BK BV k v d (Some c) i_k i_v n b_h"
  let ?p = "padded_subchunk (base F) T T' K V BT BC BK BV k v d (gate (base F) BT T g0) i_k i_v n b_h"
  let ?m = "cdiv (min BT (T - n * BT)) BC"
  have fits: "j * BC + BC \<le> BT" if "j < M" for j
    using mult_right_mono [of "Suc j" M BC] that BC(2) by (simp add: add.commute)
  have run: "rows_agree bos T (fst (for_loop j ?f (vn, hc))) (fst (for_loop j ?p (vn', hc))) \<and>
      snd (for_loop j ?p (vn', hc)) = snd (for_loop j ?f (vn, hc))" if "j \<le> M" for j
    using that
  proof (induction j)
    case 0
    then show ?case using rel by simp
  next
    case (Suc j)
    then have IH: "rows_agree bos T (fst (for_loop j ?f (vn, hc))) (fst (for_loop j ?p (vn', hc)))"
      "snd (for_loop j ?p (vn', hc)) = snd (for_loop j ?f (vn, hc))" by simp_all
    have j: "j * BC + BC \<le> BT" using fits Suc.prems by simp
    show ?case
      using subchunk_follows [OF E T' g j IH(1), where hc = "snd (for_loop j ?f (vn, hc))"] IH(2)
      by (metis for_loop.simps(2) prod.collapse)
  qed
  have le: "?m \<le> M" by (rule cdiv_le) (use BC in simp_all)
  have beyond: "rows_agree bos T vn2 (fst (for_loop (?m + j) ?p (vn', hc))) \<and>
      snd (for_loop (?m + j) ?p (vn', hc)) = hc2"
    if "rows_agree bos T vn2 (fst (for_loop ?m ?p (vn', hc)))" "snd (for_loop ?m ?p (vn', hc)) = hc2" "?m + j \<le> M" for j vn2 hc2
    using that(3)
  proof (induction j)
    case 0
    then show ?case using that by simp
  next
    case (Suc j)
    have "min BT (T - n * BT) \<le> ?m * BC" by (rule cdiv_covers [OF BC(1)])
    moreover have "(?m + j) * BC < BT"
      using Suc.prems BC mult_strict_right_mono [of "?m + j" M BC] by simp
    moreover have "?m * BC \<le> (?m + j) * BC" by simp
    ultimately have r: "T \<le> n * BT + (?m + j) * BC" by linarith
    show ?case
      using subchunk_beyond [OF E r, where vn' = "fst (for_loop (?m + j) ?p (vn', hc))" and hc = "snd (for_loop (?m + j) ?p (vn', hc))"]
        Suc by (metis Suc_leD add_Suc_right for_loop.simps(2) prod.collapse)
  qed
  show ?thesis
    using beyond [of "fst (for_loop ?m ?f (vn, hc))" "snd (for_loop ?m ?f (vn, hc))" "M - ?m"] run [OF le] le a b by simp
qed

definition state_follows :: "nat \<Rightarrow> nat \<Rightarrow> nat \<Rightarrow> mat \<times> (nat \<Rightarrow> mat) \<times> mat \<Rightarrow> mat \<times> (nat \<Rightarrow> mat) \<times> mat \<Rightarrow> bool" where
  "state_follows bos boh T s s' \<longleftrightarrow>
     fst s = fst s' \<and> (\<forall>m. fst (snd s) (boh + m) = fst (snd s') m) \<and> rows_agree bos T (snd (snd s)) (snd (snd s'))"

lemma chunk_follows:
  assumes E: "exact_casts (base F)" and T': "T \<le> T'" and g: "local_gate BT T g0 c" "0 < BT" "n * BT < T"
    and BC: "0 < BC" "BT = M * BC" and rel: "state_follows bos boh T s s'"
  shows "state_follows bos boh T (fla_h_chunk F bos boh T K V BT BC BK BV k v d (Some c) i_k i_v n s)
    (fwd_h_chunk (base F) (\<lambda>x. x) T' K V BT BC BK BV (pad_rows T k) (pad_rows T v) (pad_rows T d)
      (gate (base F) BT T g0) i_k i_v n s')"
proof -
  obtain b h vn where s: "s = (b, h, vn)" by (rule prod_cases3)
  obtain h' vn' where s': "s' = (b, h', vn')" using rel by (cases s') (simp add: state_follows_def s)
  have M: "cdiv BT BC = M" using BC by simp
  let ?gt = "gate (base F) BT T g0"
  obtain vn1 hc1 where a: "for_loop (cdiv (min BT (T - n * BT)) BC)
      (fla_h_subchunk F bos T K V BT BC BK BV k v d (Some c) i_k i_v n b) (vn, zero_tile) = (vn1, hc1)"
    by (rule prod.exhaust)
  obtain vn1' hc1' where b: "for_loop M (padded_subchunk (base F) T T' K V BT BC BK BV k v d ?gt i_k i_v n b) (vn', zero_tile)
      = (vn1', hc1')" by (rule prod.exhaust)
  have rel': "rows_agree bos T vn vn'" "\<And>m. h (boh + m) = h' m" using rel by (simp_all add: state_follows_def s s')
  have fin: "rows_agree bos T vn1 vn1'" "hc1' = hc1"
    using subchunks_follow [OF E T' g BC rel'(1) a b] by simp_all
  have "to_in (base F) = (\<lambda>x. x)" using E by (simp add: exact_casts_def)
  then show ?thesis
    unfolding s s' fla_h_chunk_def fwd_h_chunk_def prod.case Let_def M a b
    using fin rel'(2) gate_last(1) [OF E g] by (simp add: state_follows_def)
qed

lemma chunk_count: "0 < BT \<Longrightarrow> n < cdiv T BT \<Longrightarrow> n * BT < T"
  by (metis cdiv_le leD not_le_imp_less)

lemma chunks_follow:
  assumes E: "exact_casts (base F)" and T': "T \<le> T'" and g: "local_gate BT T g0 c" "0 < BT"
    and BC: "0 < BC" "BT = M * BC" and rel: "state_follows bos boh T s s'" and m: "m \<le> cdiv T BT"
  shows "state_follows bos boh T (for_loop m (fla_h_chunk F bos boh T K V BT BC BK BV k v d (Some c) i_k i_v) s)
    (for_loop m (fwd_h_chunk (base F) (\<lambda>x. x) T' K V BT BC BK BV (pad_rows T k) (pad_rows T v) (pad_rows T d)
      (gate (base F) BT T g0) i_k i_v) s')"
  using m
proof (induction m)
  case 0
  then show ?case using rel by simp
next
  case (Suc m)
  then have IH: "state_follows bos boh T (for_loop m (fla_h_chunk F bos boh T K V BT BC BK BV k v d (Some c) i_k i_v) s)
    (for_loop m (fwd_h_chunk (base F) (\<lambda>x. x) T' K V BT BC BK BV (pad_rows T k) (pad_rows T v) (pad_rows T d)
      (gate (base F) BT T g0) i_k i_v) s')" by simp
  have "m * BT < T" using Suc.prems by (intro chunk_count g(2)) simp
  from chunk_follows [OF E T' g this BC IH] show ?case by (simp only: for_loop.simps)
qed

text \<open>One program of the state kernel, at the columns it owns.\<close>

lemma fla_kernel_h_column:
  assumes E: "exact_casts (base F)" and sq: "sequence_of offsets chunk_offsets T i_n = (bos, len, boh)"
    and g: "local_gate BT len g0 (seq_view bos c)" "0 < BT"
    and BC: "0 < BC" "BC dvd BT" and p: "0 < BV" "K \<le> BK" and c: "e < V" "e div BV = i_v"
    and S0: "S0 = (case h0 of None \<Rightarrow> zero_tile | Some h0 \<Rightarrow> h0 i_n)"
    and res: "fla_fwd_kernel_h F offsets chunk_offsets T K V BT BC BK BV k u w (Some c) h0 0 i_v i_n (h, vn, ht) = (h1, vn1, ht1)"
  defines "H \<equiv> h_states K BT (pad_rows len (seq_view bos k)) (pad_rows len (seq_view bos w)) (pad_rows len (seq_view bos u))
      (gate (base F) BT len g0) S0"
  shows "\<forall>m < cdiv len BT. \<forall>r < K. h1 (boh + m) r e = H m r e"
    and "\<forall>t < len. vn1 (bos + t) e = new_value K BT (pad_rows len (seq_view bos w)) (pad_rows len (seq_view bos u))
      (gate (base F) BT len g0) (H (t div BT)) (t div BT) (t mod BT) e"
    and "\<forall>ht0 r. ht = Some ht0 \<longrightarrow> r < K \<longrightarrow> (\<exists>ht2. ht1 = Some ht2 \<and> ht2 i_n r e = H (cdiv len BT) r e)"
proof -
  let ?NT = "cdiv len BT" and ?gt = "gate (base F) BT len g0"
  let ?k = "pad_rows len (seq_view bos k)" and ?u = "pad_rows len (seq_view bos u)" and ?w = "pad_rows len (seq_view bos w)"
  let ?b = "case h0 of None \<Rightarrow> zero_tile | Some h0 \<Rightarrow> mcast (to_f32 (base F)) (ld (h0 i_n) K V (0 * BK) (i_v * BV))"
  obtain M where M: "BT = M * BC" using BC(2) by (metis dvd_def mult.commute)
  have T': "len \<le> ?NT * BT" by (rule cdiv_covers [OF g(2)])
  let ?old = "fwd_h_chunk (base F) (\<lambda>x. x) (?NT * BT) K V BT BC BK BV ?k ?u ?w ?gt 0 i_v"
  let ?new = "fla_h_chunk F bos boh len K V BT BC BK BV (seq_view bos k) (seq_view bos u) (seq_view bos w)
      (Some (seq_view bos c)) 0 i_v"
  obtain b2 h2 v2 where old: "for_loop ?NT ?old (?b, (\<lambda>m. h (boh + m)), seq_view bos vn) = (b2, h2, v2)"
    by (rule prod_cases3)
  obtain b3 h3 v3 where new: "for_loop ?NT ?new (?b, h, vn) = (b3, h3, v3)" by (rule prod_cases3)
  have start: "state_follows bos boh len (?b, h, vn) (?b, (\<lambda>m. h (boh + m)), seq_view bos vn)"
    by (simp add: state_follows_def rows_agree_def seq_view_def)
  have "state_follows bos boh len (for_loop ?NT ?new (?b, h, vn)) (for_loop ?NT ?old (?b, (\<lambda>m. h (boh + m)), seq_view bos vn))"
    by (rule chunks_follow [OF E T' g BC(1) M start order_refl])
  then have fol: "b3 = b2" "\<And>m. h3 (boh + m) = h2 m" "\<And>t. t < len \<Longrightarrow> v3 (bos + t) = v2 t"
    unfolding old new by (simp_all add: state_follows_def rows_agree_def)
  have out: "h1 = h3" "vn1 = v3"
    "ht1 = map_option (\<lambda>ht. ht(i_n := st (ht i_n) K V (0 * BK) (i_v * BV) BK BV (mcast (to_f32 (base F)) b3))) ht"
    using res new unfolding fla_fwd_kernel_h_def prod.case sq Let_def by simp_all
  have col: "i_v * BV + e mod BV = e" using c(2) by auto
  have b: "\<And>r. r < K \<Longrightarrow> ?b r (e mod BV) = S0 r e"
    using E c(1) col by (auto simp: S0 zero_tile_def mcast_def exact_casts_def ld_def split: option.splits)
  note fin = chunk_loop [where ?S0.0 = S0, OF E BC(1) p BC(2) order_refl c b order_refl old, folded H_def]
  show "\<forall>m < ?NT. \<forall>r < K. h1 (boh + m) r e = H m r e" using fin by (simp add: out fol)
  show "\<forall>t < len. vn1 (bos + t) e = new_value K BT ?w ?u ?gt (H (t div BT)) (t div BT) (t mod BT) e"
    using fin T' by (simp add: out fol)
  show "\<forall>ht0 r. ht = Some ht0 \<longrightarrow> r < K \<longrightarrow> (\<exists>ht2. ht1 = Some ht2 \<and> ht2 i_n r e = H ?NT r e)"
  proof (intro allI impI)
    fix ht0 r assume ht: "ht = Some ht0" and r: "r < K"
    have "to_f32 (base F) = (\<lambda>x. x)" using E by (simp add: exact_casts_def)
    then have "st (ht0 i_n) K V (0 * BK) (i_v * BV) BK BV (mcast (to_f32 (base F)) b3) r e = b3 r (e mod BV)"
      using r p(2) c by (simp add: st_col [OF p(1) r c(1)] mcast_def)
    then show "\<exists>ht2. ht1 = Some ht2 \<and> ht2 i_n r e = H ?NT r e"
      using fin r by (auto simp: out ht fol)
  qed
qed

section \<open>What a program leaves alone\<close>

lemma st_outside:
  assumes "0 < BV" "e div BV \<noteq> i_v \<or> T \<le> t"
  shows "st M T V r0 (i_v * BV) R BV blk t e = M t e"
  using assms block_rows_iff [OF assms(1), of i_v e] by (auto simp: st_def)

lemma at_seq_st_outside:
  assumes "0 < BV" "e div BV \<noteq> i_v \<or> row < bos \<or> bos + T \<le> row"
  shows "at_seq bos (\<lambda>M. st M T V r0 (i_v * BV) R BV blk) M row e = M row e"
proof (cases "bos \<le> row")
  case True
  then have "e div BV \<noteq> i_v \<or> T \<le> row - bos" using assms(2) by auto
  then show ?thesis using True by (simp add: at_seq_def st_outside [OF assms(1)] seq_view_def)
qed (simp add: at_seq_def)

lemma fla_subchunks_keep:
  assumes "0 < BV" "e div BV \<noteq> i_v \<or> row < bos \<or> bos + T \<le> row"
  shows "fst (for_loop m (fla_h_subchunk F bos T K V BT BC BK BV k v d g i_k i_v n b_h) (vn, hc)) row e = vn row e"
proof (induction m)
  case (Suc m)
  have "fst (fla_h_subchunk F bos T K V BT BC BK BV k v d g i_k i_v n b_h m s) row e = fst s row e" for s
    by (cases s) (simp add: fla_h_subchunk_def Let_def at_seq_st_outside [OF assms])
  then show ?case using Suc by simp
qed simp

lemma fla_chunks_keep:
  assumes "0 < BV"
  shows "(e div BV \<noteq> i_v \<or> x < boh \<or> boh + m \<le> x \<longrightarrow>
      fst (snd (for_loop m (fla_h_chunk F bos boh T K V BT BC BK BV k v d g i_k i_v) s)) x r e = fst (snd s) x r e) \<and>
    (e div BV \<noteq> i_v \<or> row < bos \<or> bos + T \<le> row \<longrightarrow>
      snd (snd (for_loop m (fla_h_chunk F bos boh T K V BT BC BK BV k v d g i_k i_v) s)) row e = snd (snd s) row e)"
proof (induction m)
  case (Suc m)
  have h: "fst (snd (fla_h_chunk F bos boh T K V BT BC BK BV k v d g i_k i_v m s)) x r e = fst (snd s) x r e"
    if "e div BV \<noteq> i_v \<or> x \<noteq> boh + m" for s
  proof -
    obtain b h vn where s: "s = (b, h, vn)" by (rule prod_cases3)
    show ?thesis
      using that st_outside [OF assms, of e i_v] by (auto simp: s fla_h_chunk_def Let_def split: prod.split)
  qed
  have v: "snd (snd (fla_h_chunk F bos boh T K V BT BC BK BV k v d g i_k i_v m s)) row e = snd (snd s) row e"
    if "e div BV \<noteq> i_v \<or> row < bos \<or> bos + T \<le> row" for s
  proof -
    obtain b h vn where s: "s = (b, h, vn)" by (rule prod_cases3)
    obtain vn1 hc where run: "for_loop (cdiv (min BT (T - m * BT)) BC)
        (fla_h_subchunk F bos T K V BT BC BK BV k v d g i_k i_v m b) (vn, zero_tile) = (vn1, hc)" by (rule prod.exhaust)
    have "fst (vn1, hc) row e = vn row e"
      unfolding run [symmetric] by (rule fla_subchunks_keep [OF assms that])
    then show ?thesis by (simp add: s fla_h_chunk_def Let_def run)
  qed
  show ?case
  proof (intro conjI impI)
    assume "e div BV \<noteq> i_v \<or> x < boh \<or> boh + Suc m \<le> x"
    then have "e div BV \<noteq> i_v \<or> x \<noteq> boh + m" "e div BV \<noteq> i_v \<or> x < boh \<or> boh + m \<le> x" by auto
    then show "fst (snd (for_loop (Suc m) (fla_h_chunk F bos boh T K V BT BC BK BV k v d g i_k i_v) s)) x r e = fst (snd s) x r e"
      using Suc h by simp
  next
    assume "e div BV \<noteq> i_v \<or> row < bos \<or> bos + T \<le> row"
    then show "snd (snd (for_loop (Suc m) (fla_h_chunk F bos boh T K V BT BC BK BV k v d g i_k i_v) s)) row e = snd (snd s) row e"
      using Suc v by simp
  qed
qed simp

lemma fla_kernel_h_keep:
  assumes "0 < BV" and sq: "sequence_of offsets chunk_offsets T i_n = (bos, len, boh)"
    and P: "P = fla_fwd_kernel_h F offsets chunk_offsets T K V BT BC BK BV k u w g h0 i_k i_v i_n"
  shows "e div BV \<noteq> i_v \<or> x < boh \<or> boh + cdiv len BT \<le> x \<Longrightarrow> fst (P s) x r e = fst s x r e"
    and "e div BV \<noteq> i_v \<or> row < bos \<or> bos + len \<le> row \<Longrightarrow> fst (snd (P s)) row e = fst (snd s) row e"
    and "e div BV \<noteq> i_v \<or> i_n \<noteq> n \<Longrightarrow>
      map_option (\<lambda>ht. ht n r e) (snd (snd (P s))) = map_option (\<lambda>ht. ht n r e) (snd (snd s))"
    and "(snd (snd (P s)) = None) = (snd (snd s) = None)"
proof -
  obtain h vn ht where s: "s = (h, vn, ht)" by (rule prod_cases3)
  let ?b = "case h0 of None \<Rightarrow> zero_tile | Some h0 \<Rightarrow> mcast (to_f32 (base F)) (ld (h0 i_n) K V (i_k * BK) (i_v * BV))"
  obtain b1 h1 v1 where run: "for_loop (cdiv len BT) (fla_h_chunk F bos boh len K V BT BC BK BV (seq_view bos k) (seq_view bos u)
      (seq_view bos w) (map_option (seq_view bos) g) i_k i_v) (?b, h, vn) = (b1, h1, v1)" by (rule prod_cases3)
  have keep: "e div BV \<noteq> i_v \<or> x < boh \<or> boh + cdiv len BT \<le> x \<Longrightarrow> h1 x r e = h x r e"
    "e div BV \<noteq> i_v \<or> row < bos \<or> bos + len \<le> row \<Longrightarrow> v1 row e = vn row e"
    using fla_chunks_keep [OF assms(1), where s = "(?b, h, vn)" and m = "cdiv len BT" and e = e and i_v = i_v and x = x
        and boh = boh and bos = bos and T = len and row = row and r = r and F = F and K = K and V = V and BT = BT and BC = BC
        and BK = BK and k = "seq_view bos k" and v = "seq_view bos u" and d = "seq_view bos w"
        and g = "map_option (seq_view bos) g" and i_k = i_k, unfolded run] by simp_all
  have Ps: "P (h, vn, ht) = (h1, v1, map_option (\<lambda>ht. ht(i_n := st (ht i_n) K V (i_k * BK) (i_v * BV) BK BV (mcast (to_f32 (base F)) b1))) ht)"
    unfolding P s fla_fwd_kernel_h_def prod.case sq Let_def run by simp
  show "e div BV \<noteq> i_v \<or> x < boh \<or> boh + cdiv len BT \<le> x \<Longrightarrow> fst (P s) x r e = fst s x r e"
    using keep(1) by (simp add: Ps s)
  show "e div BV \<noteq> i_v \<or> row < bos \<or> bos + len \<le> row \<Longrightarrow> fst (snd (P s)) row e = fst (snd s) row e"
    using keep(2) by (simp add: Ps s)
  show "e div BV \<noteq> i_v \<or> i_n \<noteq> n \<Longrightarrow>
      map_option (\<lambda>ht. ht n r e) (snd (snd (P s))) = map_option (\<lambda>ht. ht n r e) (snd (snd s))"
    unfolding s Ps snd_conv using st_outside [OF assms(1), of e i_v] by (cases ht) auto
  show "(snd (snd (P s)) = None) = (snd (snd s) = None)" by (simp add: Ps s)
qed

section \<open>Packed sequences\<close>

text \<open>
  The sequences of a launch (rows and first state slot), and its chunk programs: slot \<open>boh + m\<close> is
  the program of chunk \<open>m\<close>, every program is one of those, and sequences do not share rows.
\<close>

definition packs :: "nat \<Rightarrow> nat \<Rightarrow> nat \<Rightarrow> (nat \<Rightarrow> nat \<times> nat \<times> nat) \<Rightarrow> (nat \<Rightarrow> nat \<times> nat \<times> nat) \<Rightarrow> bool" where
  "packs BT N NT sq pc \<longleftrightarrow>
     (\<forall>n < N. \<forall>bos len boh m. sq n = (bos, len, boh) \<longrightarrow> m < cdiv len BT \<longrightarrow> boh + m < NT \<and> pc (boh + m) = (bos, len, m)) \<and>
     (\<forall>i < NT. \<exists>n < N. \<exists>bos len boh m. sq n = (bos, len, boh) \<and> m < cdiv len BT \<and> i = boh + m) \<and>
     (\<forall>n < N. \<forall>n' < N. n \<noteq> n' \<longrightarrow> (\<forall>bos len boh bos' len' boh'. sq n = (bos, len, boh) \<longrightarrow> sq n' = (bos', len', boh') \<longrightarrow>
        bos + len \<le> bos' \<or> bos' + len' \<le> bos))"

lemma packs_program:
  assumes "packs BT N NT sq pc" "n < N" "sq n = (bos, len, boh)" "m < cdiv len BT"
  shows "boh + m < NT" "pc (boh + m) = (bos, len, m)"
  using assms by (auto simp: packs_def)

lemma packs_disjoint:
  assumes "packs BT N NT sq pc" "n < N" "n' < N" "n \<noteq> n'" "sq n = (bos, len, boh)" "sq n' = (bos', len', boh')"
  shows "bos + len \<le> bos' \<or> bos' + len' \<le> bos"
  using assms unfolding packs_def by blast

lemma cdiv_pos: "m < cdiv len BT \<Longrightarrow> 0 < len"
  by (cases len) auto

lemma packs_slots:
  assumes P: "packs BT N NT sq pc" and n: "n < N" "n' < N" "n \<noteq> n'"
    and sq: "sq n = (bos, len, boh)" "sq n' = (bos', len', boh')" and m: "m < cdiv len BT"
  shows "boh + m < boh' \<or> boh' + cdiv len' BT \<le> boh + m"
proof (rule ccontr)
  assume "\<not> ?thesis"
  then obtain m' where m': "boh + m = boh' + m'" "m' < cdiv len' BT"
    by (metis add_less_cancel_left le_Suc_ex linorder_not_le)
  then have "bos = bos'" "len = len'"
    using packs_program(2) [OF P n(1) sq(1) m] packs_program(2) [OF P n(2) sq(2) m'(2)] by auto
  then show False using packs_disjoint [OF P n sq] cdiv_pos [OF m] by auto
qed

lemma packs_plan:
  assumes P: "packs BT N NT sq (program_chunk offsets indices T)" and BT: "0 < BT" and n: "n < N" "sq n = (bos, len, boh)"
  shows "launch_plan BT offsets indices T NT bos len"
  unfolding launch_plan_def
proof (intro allI impI)
  fix t assume t: "t < len"
  let ?pc = "program_chunk offsets indices T" and ?m = "t div BT"
  have m: "?m < cdiv len BT" by (rule block_in_cdiv [OF BT t])
  note prog = packs_program [OF P n m]
  have "\<not> owns BT (?pc i') (bos + t)" if i': "i' < NT" "i' \<noteq> boh + ?m" for i'
  proof
    assume own: "owns BT (?pc i') (bos + t)"
    obtain n' bos' len' boh' m' where n': "n' < N" "sq n' = (bos', len', boh')" "m' < cdiv len' BT" "i' = boh' + m'"
      using P i'(1) unfolding packs_def by blast
    have o: "bos' \<le> bos + t" "bos + t < bos' + len'" "(bos + t - bos') div BT = m'"
      using own packs_program(2) [OF P n'(1-3)] by (auto simp: n'(4) owns_def)
    have "n' = n"
    proof (rule ccontr)
      assume "n' \<noteq> n"
      from packs_disjoint [OF P n'(1) n(1) this n'(2) n(2)] show False using o t by linarith
    qed
    then show False using n' n(2) o i'(2) by auto
  qed
  then show "\<exists>i < NT. ?pc i = (bos, len, ?m) \<and> (\<forall>i' < NT. i' \<noteq> i \<longrightarrow> \<not> owns BT (?pc i') (bos + t))"
    using prog by blast
qed

lemma packs_owner:
  assumes P: "packs BT N NT sq (program_chunk offsets indices T)" and BT: "0 < BT" and n: "n < N" "sq n = (bos, len, boh)"
    and t: "t < len" and i: "i < NT" "i \<noteq> boh + t div BT"
  shows "\<not> owns BT (program_chunk offsets indices T i) (bos + t)"
proof -
  note prog = packs_program [OF P n block_in_cdiv [OF BT t]]
  obtain i' where i': "i' < NT" "program_chunk offsets indices T i' = (bos, len, t div BT)"
    "\<forall>j < NT. j \<noteq> i' \<longrightarrow> \<not> owns BT (program_chunk offsets indices T j) (bos + t)"
    using packs_plan [OF P BT n] t by (auto simp: launch_plan_def)
  have "owns BT (program_chunk offsets indices T (boh + t div BT)) (bos + t)"
    using t by (simp add: prog(2) owns_def)
  then have "i' = boh + t div BT" using i'(3) prog(1) by blast
  then show ?thesis using i'(3) i by blast
qed

lemma for_loop_keep: "(\<And>n s. n < N \<Longrightarrow> get (f n s) = get s) \<Longrightarrow> get (for_loop N f s) = get s"
  by (induction N) auto

lemma launch2_writes:
  assumes wr: "\<And>s. get (prog v0 n0 s) = X"
    and keep: "\<And>v n s. v < NV \<Longrightarrow> n < N \<Longrightarrow> v \<noteq> v0 \<or> n \<noteq> n0 \<Longrightarrow> get (prog v n s) = get s"
    and "v0 < NV" "n0 < N"
  shows "get (for_loop NV (\<lambda>v. for_loop N (prog v)) s) = X"
proof (rule launch_writes [where m = v0])
  show "get (for_loop N (prog v0) s) = X" for s
    by (rule launch_writes [where m = n0]) (use assms in auto)
  show "get (for_loop N (prog n) s) = get s" if "n < NV" "n \<noteq> v0" for n s
    by (rule for_loop_keep [where get = get]) (use keep that in auto)
qed (rule assms(3))

section \<open>The launch of the state kernel\<close>

abbreviation seq_rows :: "nat \<Rightarrow> nat \<Rightarrow> mat \<Rightarrow> mat" where
  "seq_rows bos len x \<equiv> pad_rows len (seq_view bos x)"

abbreviation seq_vec :: "nat \<Rightarrow> nat \<Rightarrow> vec \<Rightarrow> vec" where
  "seq_vec bos len x \<equiv> pad_vec len (seq_view bos x)"

definition start_state :: "(nat \<Rightarrow> mat) option \<Rightarrow> nat \<Rightarrow> mat" where
  "start_state h0 n = (case h0 of None \<Rightarrow> zero_tile | Some h0 \<Rightarrow> h0 n)"

text \<open>
  A launch over value blocks and sequences of a kernel with the state, the new rows and the last
  states as its output: what each program writes is what stays.
\<close>

lemma sequence_launch:
  fixes prog :: "nat \<Rightarrow> nat \<Rightarrow> (nat \<Rightarrow> mat) \<times> mat \<times> (nat \<Rightarrow> mat) option \<Rightarrow> (nat \<Rightarrow> mat) \<times> mat \<times> (nat \<Rightarrow> mat) option"
    and X :: "nat \<Rightarrow> vec" and Z R :: vec
  assumes P: "packs BT N NT sq pc" and BV: "0 < BV" and n: "n < N" "sq n = (bos, len, boh)" and e: "e < V"
    and keep: "\<And>i_v n' b l o' s. sq n' = (b, l, o') \<Longrightarrow>
      (\<forall>x r. e div BV \<noteq> i_v \<or> x < o' \<or> o' + cdiv l BT \<le> x \<longrightarrow> fst (prog i_v n' s) x r e = fst s x r e) \<and>
      (\<forall>row. e div BV \<noteq> i_v \<or> row < b \<or> b + l \<le> row \<longrightarrow> fst (snd (prog i_v n' s)) row e = fst (snd s) row e) \<and>
      (\<forall>r. e div BV \<noteq> i_v \<or> n' \<noteq> n \<longrightarrow>
        map_option (\<lambda>ht. ht n r e) (snd (snd (prog i_v n' s))) = map_option (\<lambda>ht. ht n r e) (snd (snd s))) \<and>
      (snd (snd (prog i_v n' s)) = None) = (snd (snd s) = None)"
    and col: "\<And>s. (\<forall>m < cdiv len BT. \<forall>d < K. fst (prog (e div BV) n s) (boh + m) d e = X m d) \<and>
      (\<forall>t < len. fst (snd (prog (e div BV) n s)) (bos + t) e = Z t) \<and>
      (\<forall>x d. snd (snd s) = Some x \<longrightarrow> d < K \<longrightarrow> (\<exists>y. snd (snd (prog (e div BV) n s)) = Some y \<and> y n d e = R d))"
    and run: "for_loop (cdiv V BV) (\<lambda>i_v. for_loop N (prog i_v)) s = (h, v, ht)"
  shows "m < cdiv len BT \<Longrightarrow> d < K \<Longrightarrow> h (boh + m) d e = X m d" and "t < len \<Longrightarrow> v (bos + t) e = Z t"
    and "d < K \<Longrightarrow> ht = Some x \<Longrightarrow> x n d e = R d" and "(ht = None) = (snd (snd s) = None)"
proof -
  let ?L = "for_loop (cdiv V BV) (\<lambda>i_v. for_loop N (prog i_v)) s"
  have ev: "e div BV < cdiv V BV" by (rule block_in_cdiv [OF BV e])
  show "h (boh + m) d e = X m d" if m: "m < cdiv len BT" and d: "d < K"
  proof -
    have "fst ?L (boh + m) d e = X m d"
    proof (rule launch2_writes [where get = "\<lambda>s. fst s (boh + m) d e", OF _ _ ev n(1)])
      fix i_v n' s assume a: "i_v < cdiv V BV" "n' < N" "i_v \<noteq> e div BV \<or> n' \<noteq> n"
      obtain b l o' where sq': "sq n' = (b, l, o')" by (rule prod_cases3)
      have "e div BV \<noteq> i_v \<or> boh + m < o' \<or> o' + cdiv l BT \<le> boh + m"
        using a packs_slots [OF P n(1) a(2) _ n(2) sq' m] by auto
      then show "fst (prog i_v n' s) (boh + m) d e = fst s (boh + m) d e" using keep [OF sq'] by blast
    qed (use col m d in blast)
    then show ?thesis by (simp add: run)
  qed
  show "v (bos + t) e = Z t" if t: "t < len"
  proof -
    have "fst (snd ?L) (bos + t) e = Z t"
    proof (rule launch2_writes [where get = "\<lambda>s. fst (snd s) (bos + t) e", OF _ _ ev n(1)])
      fix i_v n' s assume a: "i_v < cdiv V BV" "n' < N" "i_v \<noteq> e div BV \<or> n' \<noteq> n"
      obtain b l o' where sq': "sq n' = (b, l, o')" by (rule prod_cases3)
      have "e div BV \<noteq> i_v \<or> bos + t < b \<or> b + l \<le> bos + t"
        using a packs_disjoint [OF P n(1) a(2) _ n(2) sq'] t by auto
      then show "fst (snd (prog i_v n' s)) (bos + t) e = fst (snd s) (bos + t) e" using keep [OF sq'] by blast
    qed (use col t in blast)
    then show ?thesis by (simp add: run)
  qed
  show "x n d e = R d" if d: "d < K" and ht: "ht = Some x"
  proof -
    let ?get = "\<lambda>s :: (nat \<Rightarrow> mat) \<times> mat \<times> (nat \<Rightarrow> mat) option. case snd (snd s) of None \<Rightarrow> R d | Some ht \<Rightarrow> ht n d e"
    have "?get ?L = R d"
    proof (rule launch2_writes [where get = ?get, OF _ _ ev n(1)])
      show "?get (prog (e div BV) n s) = R d" for s
        using col [of s] d keep [OF n(2), of "e div BV" s] by (cases "snd (snd s)") auto
    next
      fix i_v n' s assume a: "i_v < cdiv V BV" "n' < N" "i_v \<noteq> e div BV \<or> n' \<noteq> n"
      obtain b l o' where sq': "sq n' = (b, l, o')" by (rule prod_cases3)
      have "e div BV \<noteq> i_v \<or> n' \<noteq> n" using a by auto
      then have eq: "map_option (\<lambda>ht. ht n d e) (snd (snd (prog i_v n' s))) = map_option (\<lambda>ht. ht n d e) (snd (snd s))"
        using keep [OF sq'] by blast
      have flip: "(case y of None \<Rightarrow> R d | Some ht \<Rightarrow> ht n d e) = (case map_option (\<lambda>ht. ht n d e) y of None \<Rightarrow> R d | Some y \<Rightarrow> y)" for y
        by (cases y) simp_all
      show "?get (prog i_v n' s) = ?get s" unfolding flip eq by (rule refl)
    qed
    then show ?thesis by (simp add: run ht)
  qed
  have "(snd (snd ?L) = None) = (snd (snd s) = None)"
  proof (intro for_loop_keep [where get = "\<lambda>s. snd (snd s) = None"])
    fix i_v n' s
    obtain b l o' where sq': "sq n' = (b, l, o')" by (rule prod_cases3)
    show "(snd (snd (prog i_v n' s)) = None) = (snd (snd s) = None)" using keep [OF sq'] by blast
  qed
  then show "(ht = None) = (snd (snd s) = None)" by (simp add: run)
qed

lemma fwd_h_launch:
  assumes E: "exact_casts (base F)" and P: "packs BT N NT (sequence_of offsets co T) pc"
    and g: "\<forall>n bos len boh. n < N \<longrightarrow> sequence_of offsets co T n = (bos, len, boh) \<longrightarrow> local_gate BT len (g0 n) (seq_view bos c)"
    and p: "0 < BT" "0 < BC" "BC dvd BT" "0 < BV" "K \<le> BK"
    and run: "for_loop (cdiv V BV) (\<lambda>i_v. for_loop N (\<lambda>i_n.
      fla_fwd_kernel_h F offsets co T K V BT BC BK BV k u w (Some c) h0 0 i_v i_n)) s = (h, vn, ht)"
    and n: "n < N" "sequence_of offsets co T n = (bos, len, boh)" and e: "e < V"
  defines "H \<equiv> h_states K BT (seq_rows bos len k) (seq_rows bos len w) (seq_rows bos len u)
      (gate (base F) BT len (g0 n)) (start_state h0 n)"
  shows "m < cdiv len BT \<Longrightarrow> r < K \<Longrightarrow> h (boh + m) r e = H m r e"
    and "t < len \<Longrightarrow> vn (bos + t) e = new_value K BT (seq_rows bos len w) (seq_rows bos len u)
      (gate (base F) BT len (g0 n)) (H (t div BT)) (t div BT) (t mod BT) e"
    and "r < K \<Longrightarrow> ht = Some ht0 \<Longrightarrow> ht0 n r e = H (cdiv len BT) r e"
    and "(ht = None) = (snd (snd s) = None)"
proof -
  let ?P = "fla_fwd_kernel_h F offsets co T K V BT BC BK BV k u w (Some c) h0 0"
  note column = fla_kernel_h_column [OF E n(2) g [rule_format, OF n] p(1,2,3,4,5) e refl start_state_def, folded H_def]
  have keep: "(\<forall>x r. e div BV \<noteq> i_v \<or> x < o' \<or> o' + cdiv l BT \<le> x \<longrightarrow> fst (?P i_v n' s) x r e = fst s x r e) \<and>
      (\<forall>row. e div BV \<noteq> i_v \<or> row < b \<or> b + l \<le> row \<longrightarrow> fst (snd (?P i_v n' s)) row e = fst (snd s) row e) \<and>
      (\<forall>r. e div BV \<noteq> i_v \<or> n' \<noteq> n \<longrightarrow> map_option (\<lambda>ht. ht n r e) (snd (snd (?P i_v n' s))) = map_option (\<lambda>ht. ht n r e) (snd (snd s))) \<and>
      (snd (snd (?P i_v n' s)) = None) = (snd (snd s) = None)" if "sequence_of offsets co T n' = (b, l, o')" for i_v n' b l o' s
    by (intro conjI allI impI fla_kernel_h_keep [OF p(4) that refl]; assumption)
  have col: "(\<forall>m < cdiv len BT. \<forall>d < K. fst (?P (e div BV) n s) (boh + m) d e = H m d e) \<and>
      (\<forall>t < len. fst (snd (?P (e div BV) n s)) (bos + t) e = new_value K BT (seq_rows bos len w) (seq_rows bos len u)
        (gate (base F) BT len (g0 n)) (H (t div BT)) (t div BT) (t mod BT) e) \<and>
      (\<forall>x d. snd (snd s) = Some x \<longrightarrow> d < K \<longrightarrow> (\<exists>y. snd (snd (?P (e div BV) n s)) = Some y \<and> y n d e = H (cdiv len BT) d e))" for s
  proof -
    obtain h' v' ht' where s: "s = (h', v', ht')" by (rule prod_cases3)
    obtain h1 v1 ht1 where res: "?P (e div BV) n (h', v', ht') = (h1, v1, ht1)" by (rule prod_cases3)
    show ?thesis unfolding s res fst_conv snd_conv H_def by (intro conjI column [OF res, unfolded H_def])
  qed
  note L = sequence_launch [where X = "\<lambda>m d. H m d e" and R = "\<lambda>d. H (cdiv len BT) d e" and prog = ?P, OF P p(4) n e keep col run]
  show "m < cdiv len BT \<Longrightarrow> r < K \<Longrightarrow> h (boh + m) r e = H m r e" by (rule L(1))
  show "t < len \<Longrightarrow> vn (bos + t) e = new_value K BT (seq_rows bos len w) (seq_rows bos len u)
      (gate (base F) BT len (g0 n)) (H (t div BT)) (t div BT) (t mod BT) e" by (rule L(2))
  show "r < K \<Longrightarrow> ht = Some ht0 \<Longrightarrow> ht0 n r e = H (cdiv len BT) r e" by (rule L(3))
  show "(ht = None) = (snd (snd s) = None)" by (rule L(4))
qed

section \<open>The output kernel\<close>

lemma blocked_rows:
  assumes "0 < BK"
  shows "(\<Sum>b<cdiv K BK. dot BK (ld x T K r0 (b * BK)) (ld y K V (b * BK) c0) i c)
    = (if c0 + c < V then \<Sum>d<K. pad_rows T x (r0 + i) d * y d (c0 + c) else 0)"
    and "(\<Sum>b<cdiv K BK. dot BK (ld x T K r0 (b * BK)) (tr (ld z T K r1 (b * BK))) i j)
    = (\<Sum>d<K. pad_rows T x (r0 + i) d * pad_rows T z (r1 + j) d)"
proof -
  have "(\<Sum>b<cdiv K BK. dot BK (ld x T K r0 (b * BK)) (ld y K V (b * BK) c0) i c) =
    (\<Sum>b<cdiv K BK. \<Sum>l<BK. (if b * BK + l < K then pad_rows T x (r0 + i) (b * BK + l) else 0)
      * (if b * BK + l < K then (if c0 + c < V then y (b * BK + l) (c0 + c) else 0) else 0))"
    unfolding dot_def by (intro sum.cong refl) (auto simp: ld_padded pad_rows_def)
  also have "\<dots> = (\<Sum>d<K. pad_rows T x (r0 + i) d * (if c0 + c < V then y d (c0 + c) else 0))"
    by (rule blocked_dot [OF assms]) simp
  finally show "(\<Sum>b<cdiv K BK. dot BK (ld x T K r0 (b * BK)) (ld y K V (b * BK) c0) i c)
    = (if c0 + c < V then \<Sum>d<K. pad_rows T x (r0 + i) d * y d (c0 + c) else 0)" by simp
  have "(\<Sum>b<cdiv K BK. dot BK (ld x T K r0 (b * BK)) (tr (ld z T K r1 (b * BK))) i j) =
    (\<Sum>b<cdiv K BK. \<Sum>l<BK. (if b * BK + l < K then pad_rows T x (r0 + i) (b * BK + l) else 0)
      * (if b * BK + l < K then pad_rows T z (r1 + j) (b * BK + l) else 0))"
    unfolding dot_def tr_def by (intro sum.cong refl) (simp add: ld_padded)
  also have "\<dots> = (\<Sum>d<K. pad_rows T x (r0 + i) d * pad_rows T z (r1 + j) d)"
    by (rule blocked_dot [OF assms]) simp
  finally show "(\<Sum>b<cdiv K BK. dot BK (ld x T K r0 (b * BK)) (tr (ld z T K r1 (b * BK))) i j)
    = (\<Sum>d<K. pad_rows T x (r0 + i) d * pad_rows T z (r1 + j) d)" .
qed

lemma fla_kernel_o_value:
  assumes E: "exact_casts (base F)" "safe_exp_spec F" and p: "0 < BK" "0 < BV" "0 < BT"
    and g: "local_gate BT len g0 (seq_view bos c)" "\<And>t. t < len \<Longrightarrow> g0 t \<le> 0"
    and pc: "program_chunk offsets indices T i_tg = (bos, len, t div BT)" and t: "t < len" and e: "e < V"
    and q: "qp = seq_rows bos len q" and k: "kp = seq_rows bos len k" and v: "vp = seq_rows bos len v"
    and gt: "gt = gate (base F) BT len g0"
  shows "fla_chunk_fwd_kernel_o F offsets indices scale T K V BT BK BV q k v h (Some c) (e div BV) i_tg out (bos + t) e
    = exp2 (gt t) * (\<Sum>d<K. qp t d * scale * h i_tg d e)
      + (\<Sum>j\<le>t mod BT. exp2 (gt t - gt (t div BT * BT + j)) * (\<Sum>d<K. qp t d * scale * kp (t div BT * BT + j) d)
          * vp (t div BT * BT + j) e)"
proof -
  define n where "n = t div BT"
  define i where "i = t mod BT"
  have ti: "n * BT + i = t" "i < BT" using p(3) by (simp_all add: n_def i_def)
  have tn: "t div BT = n" by (simp add: n_def)
  have casts: "to_in (base F) = (\<lambda>x. x)" using E by (simp add: exact_casts_def)
  have col: "e div BV * BV + e mod BV = e" by simp
  let ?c = "seq_view bos c"
  let ?lc = "ld1 ?c len (n * BT)"
  have stc: "st M len V (n * BT) (e div BV * BV) BT BV blk t e = blk i (e mod BV)" for M blk
    using block_rows_iff [OF p(3), of n t] tn block_offset [OF tn] by (simp add: st_col [OF p(2) t e] i_def)
  let ?A = "\<lambda>j. (\<Sum>d<K. qp t d * kp (n * BT + j) d)"
  have "fla_chunk_fwd_kernel_o F offsets indices scale T K V BT BK BV q k v h (Some c) (e div BV) i_tg out (bos + t) e
    = (\<Sum>d<K. qp t d * h i_tg d e) * exp (?lc i) * scale
      + (\<Sum>j<BT. (if j \<le> i then ?A j * safe_exp F (?lc i - ?lc j) else 0) * vp (n * BT + j) e) * scale"
    unfolding fla_chunk_fwd_kernel_o_def pc prod.case Let_def for_loop_madd2 tn option.case at_seq_row stc casts
      zero_tile_def add_0 blocked_rows [OF p(1)]
    using e by (simp add: mcast_def scale_rows_def q k ti) (simp add: dot_def ld_padded v mcast_def col q k ti cong: if_cong)
  also have "(\<Sum>j<BT. (if j \<le> i then ?A j * safe_exp F (?lc i - ?lc j) else 0) * vp (n * BT + j) e)
      = (\<Sum>j\<le>i. exp2 (gt t - gt (n * BT + j)) * ?A j * vp (n * BT + j) e)"
  proof (rule sum.mono_neutral_cong_right)
    fix j assume "j \<in> {..i}"
    then have j: "j \<le> i" "n * BT + j < len" using ti t by auto
    have "?lc i = ?c (n * BT + i)" "?lc j = ?c (n * BT + j)" using t j ti by (simp_all add: ld1_def)
    then have "safe_exp F (?lc i - ?lc j) = exp2 (gt t - gt (n * BT + j))"
      using safe_decay [OF E g j(1) ti(2), of n] t ti(1) by (simp add: gt)
    then show "(if j \<le> i then ?A j * safe_exp F (?lc i - ?lc j) else 0) * vp (n * BT + j) e
        = exp2 (gt t - gt (n * BT + j)) * ?A j * vp (n * BT + j) e"
      using j(1) by simp
  qed (use ti(2) in auto)
  also have "exp (?lc i) = exp2 (gt t)"
    using gate_exp [OF E(1) g(1) p(3) t] t ti(1) by (simp add: ld1_def gt)
  finally show ?thesis
    unfolding n_def [symmetric] i_def [symmetric]
    by (simp add: sum_distrib_left sum_distrib_right algebra_simps)
qed

lemma fla_kernel_o_keep:
  assumes "0 < BV" "0 < BT" "e div BV \<noteq> i_v \<or> \<not> owns BT (program_chunk offsets indices T i_tg) row"
  shows "fla_chunk_fwd_kernel_o F offsets indices scale T K V BT BK BV q k v h g i_v i_tg out row e = out row e"
proof -
  obtain b l m where pc: "program_chunk offsets indices T i_tg = (b, l, m)" by (rule prod_cases3)
  have "at_seq b (\<lambda>M. st M l V (m * BT) (i_v * BV) BT BV blk) out row e = out row e" for blk
  proof (cases "e div BV \<noteq> i_v \<or> row < b \<or> b + l \<le> row")
    case True
    then show ?thesis by (rule at_seq_st_outside [OF assms(1)])
  next
    case False
    then have "(row - b) div BT \<noteq> m" "b \<le> row" using assms(3) by (auto simp: pc owns_def)
    then show ?thesis
      using block_rows_iff [OF assms(2), of m "row - b"] by (auto simp: at_seq_def st_def seq_view_def)
  qed
  then show ?thesis unfolding fla_chunk_fwd_kernel_o_def pc prod.case Let_def by (simp add: split_def)
qed

lemma fwd_o_launch:
  assumes E: "exact_casts (base F)" "safe_exp_spec F" and p: "0 < BK" "0 < BV" "0 < BT"
    and P: "packs BT N NT sq (program_chunk offsets indices T)" and n: "n < N" "sq n = (bos, len, boh)"
    and g: "local_gate BT len g0 (seq_view bos c)" "\<And>t. t < len \<Longrightarrow> g0 t \<le> 0" and t: "t < len" and e: "e < V"
    and q: "qp = seq_rows bos len q" and k: "kp = seq_rows bos len k" and v: "vp = seq_rows bos len v"
    and gt: "gt = gate (base F) BT len g0"
  shows "for_loop (cdiv V BV) (\<lambda>i_v. for_loop NT (\<lambda>i_t.
      fla_chunk_fwd_kernel_o F offsets indices scale T K V BT BK BV q k v h (Some c) i_v i_t)) s (bos + t) e
    = exp2 (gt t) * (\<Sum>d<K. qp t d * scale * h (boh + t div BT) d e)
      + (\<Sum>j\<le>t mod BT. exp2 (gt t - gt (t div BT * BT + j)) * (\<Sum>d<K. qp t d * scale * kp (t div BT * BT + j) d)
          * vp (t div BT * BT + j) e)" (is "?L = ?X")
proof -
  have m: "t div BT < cdiv len BT" by (rule block_in_cdiv [OF p(3) t])
  note prog = packs_program [OF P n m]
  show ?thesis
  proof (rule launch2_writes [where get = "\<lambda>s. s (bos + t) e" and ?v0.0 = "e div BV" and ?n0.0 = "boh + t div BT"])
    show "fla_chunk_fwd_kernel_o F offsets indices scale T K V BT BK BV q k v h (Some c) (e div BV) (boh + t div BT) s (bos + t) e = ?X" for s
      by (rule fla_kernel_o_value [OF E p g prog(2) t e q k v gt])
    show "fla_chunk_fwd_kernel_o F offsets indices scale T K V BT BK BV q k v h (Some c) i_v i s (bos + t) e = s (bos + t) e"
      if i: "i_v < cdiv V BV" "i < NT" "i_v \<noteq> e div BV \<or> i \<noteq> boh + t div BT" for i_v i s
    proof (rule fla_kernel_o_keep [OF p(2,3)])
      show "e div BV \<noteq> i_v \<or> \<not> owns BT (program_chunk offsets indices T i) (bos + t)"
        using packs_owner [OF P p(3) n t i(2)] i(3) by blast
    qed
  qed (rule block_in_cdiv [OF p(2) e], rule prog(1))
qed

section \<open>One sequence\<close>

text \<open>Rows past the end of the sequence stay zero through the WY representation.\<close>

lemma wy_zero:
  assumes "0 < BT" "len \<le> t"
  shows "wy_w K BT (pad_rows len k) (pad_vec len beta) t d = 0"
    and "wy_u K BT (pad_rows len k) (pad_rows len v) (pad_vec len beta) gt t d = 0"
proof -
  define n where "n = t div BT"
  define i where "i = t mod BT"
  have t: "n * BT + i = t" "i < BT" using assms(1) by (simp_all add: n_def i_def)
  have row: "dot BT (chunk_solution BT a) (scaled_rows BT (pad_rows len x) (pad_vec len beta) n) i d = 0"
    if "\<And>m. m < i \<Longrightarrow> neg_strict_lower a i m = 0" for a x
    using tl_wy.apply_rec [OF neg_strict_lower_strict t(2), of a "scaled_rows BT (pad_rows len x) (pad_vec len beta) n" d]
      that assms(2) by (simp add: chunk_solution_def scaled_rows_def pad_rows_def t)
  have g: "chunk_gram K BT (pad_rows len k) (pad_vec len beta) n i m = 0" for m
    using assms(2) by (simp add: chunk_gram_def pad_vec_def t)
  show "wy_w K BT (pad_rows len k) (pad_vec len beta) t d = 0"
    unfolding wy_w_def n_def [symmetric] i_def [symmetric] by (rule row) (simp add: neg_strict_lower_def g)
  show "wy_u K BT (pad_rows len k) (pad_rows len v) (pad_vec len beta) gt t d = 0"
    unfolding wy_u_def n_def [symmetric] i_def [symmetric]
    by (rule row) (simp add: neg_strict_lower_def decayed_gram_def g)
qed

text \<open>The output formula of a chunk is the recurrence's output.\<close>

lemma wy_output:
  fixes K BT n i :: nat and k v S0 :: mat and beta g q :: vec
  assumes E: "exact_casts E" and i: "i < BT"
    and cg: "cg = chunk_cumsum E BT g" and S: "S = delta_states K (\<lambda>i. exp2 (LOG2E * g i)) k v beta S0 (n * BT)"
    and x: "x = new_value K BT (wy_w K BT k beta) (wy_u K BT k v beta cg) cg S n"
  shows "exp2 (cg (n * BT + i)) * (\<Sum>d<K. q d * S d c)
      + (\<Sum>j\<le>i. exp2 (cg (n * BT + i) - cg (n * BT + j)) * (\<Sum>d<K. q d * k (n * BT + j) d) * x j c)
    = (\<Sum>d<K. q d * delta_states K (\<lambda>i. exp2 (LOG2E * g i)) k v beta S0 (Suc (n * BT + i)) d c)"
proof -
  let ?G = "chunk_view BT n g"
  have at: "cg (n * BT + j) = cumsum ?G j * LOG2E" if "j < BT" for j
    unfolding cg by (rule chunk_cumsum_at [OF E that])
  have "(\<Sum>d<K. q d * delta_states K (\<lambda>j. exp2 (LOG2E * ?G j)) (chunk_view BT n k)
        (chunk_view BT n v) (chunk_view BT n beta) S (Suc i) d c)
    = exp2 (cumsum ?G i * LOG2E) * (\<Sum>d<K. q d * S d c)
      + (\<Sum>j\<le>i. exp2 (cumsum ?G i * LOG2E - cumsum ?G j * LOG2E) * (\<Sum>d<K. q d * chunk_view BT n k j d) * x j c)"
    unfolding x cg
    by (rule log2_decay.chunk_output [where q = "\<lambda>_. q" and n = BT, OF new_value_rec [OF E] i])
  moreover have "delta_states K (\<lambda>j. exp2 (LOG2E * ?G j)) (chunk_view BT n k)
        (chunk_view BT n v) (chunk_view BT n beta) S (Suc i)
      = delta_states K (\<lambda>i. exp2 (LOG2E * g i)) k v beta S0 (Suc (n * BT + i))"
    unfolding S using delta_states_add [of K "\<lambda>i. exp2 (LOG2E * g i)" k v beta S0 "n * BT" "Suc i"]
    by (simp add: chunk_view_def)
  ultimately show ?thesis using i by (simp add: at chunk_view_def cong: sum.cong_simp)
qed

text \<open>Padding tokens leave the state of the recurrence alone.\<close>

lemma delta_states_pad:
  "delta_states K (\<lambda>i. exp (pad_vec len g i)) (pad_rows len k) (pad_rows len v) (pad_vec len beta) S0 (len + m)
    = delta_states K (\<lambda>i. exp (g i)) k v beta S0 len"
proof (induction m)
  case 0
  show ?case by (simp, rule delta_states_cong) (simp add: pad_vec_def pad_rows_def fun_eq_iff)
next
  case (Suc m)
  then show ?case by (simp add: delta_states_Suc delta_update_def Let_def pad_vec_def pad_rows_def)
qed

lemma seq_values:
  assumes E: "exact_casts E" and BT: "0 < BT"
    and w: "\<And>t d. t < len \<Longrightarrow> d < K \<Longrightarrow> w t d = wy_w K BT (pad_rows len k) (pad_vec len beta) t d"
    and u: "\<And>t. t < len \<Longrightarrow> u t e = wy_u K BT (pad_rows len k) (pad_rows len v) (pad_vec len beta) (gate E BT len g) t e"
    and Hd: "H = h_states K BT (pad_rows len k) (pad_rows len w) (pad_rows len u) (gate E BT len g) S0"
  shows "len \<le> n * BT \<Longrightarrow> H n r e = delta_states K (\<lambda>i. exp (g i)) k v beta S0 len r e"
    and "t < len \<Longrightarrow> exp2 (gate E BT len g t) * (\<Sum>d<K. q d * H (t div BT) d e)
      + (\<Sum>j\<le>t mod BT. exp2 (gate E BT len g t - gate E BT len g (t div BT * BT + j))
          * (\<Sum>d<K. q d * pad_rows len k (t div BT * BT + j) d)
          * new_value K BT (pad_rows len w) (pad_rows len u) (gate E BT len g) (H (t div BT)) (t div BT) j e)
      = (\<Sum>d<K. q d * delta_states K (\<lambda>i. exp (g i)) k v beta S0 (Suc t) d e)"
proof -
  let ?k = "pad_rows len k" and ?v = "pad_rows len v" and ?b = "pad_vec len beta" and ?gt = "gate E BT len g"
  let ?W = "wy_w K BT ?k ?b" and ?U = "wy_u K BT ?k ?v ?b ?gt"
  define gi where "gi = (\<lambda>t. pad_vec len g t / (ln 2 * LOG2E))"
  have gt: "?gt = chunk_cumsum E BT gi" by (simp add: gate_def gi_def)
  have a: "(\<lambda>i. exp2 (LOG2E * gi i)) = (\<lambda>i. exp (pad_vec len g i))"
    using LOG2E_pos by (simp add: gi_def exp2_ln [symmetric] field_simps)
  let ?D = "delta_states K (\<lambda>i. exp (pad_vec len g i)) ?k ?v ?b S0"
  have W: "pad_rows len w t d = ?W t d" if "d < K" for t d
    using w [OF _ that] wy_zero(1) [OF BT] by (simp add: pad_rows_def not_less)
  have U: "pad_rows len u t e = ?U t e" for t
    using u wy_zero(2) [OF BT] by (simp add: pad_rows_def not_less)
  have H: "H n r e = ?D (n * BT) r e" for n r
    using h_states_cong [where N = n and n = n and c = e and w = "pad_rows len w" and w' = ?W and u = "pad_rows len u"
        and u' = ?U and BT = BT and K = K, OF W U order_refl] h_states_delta [OF E BT, of K ?k ?b ?v gi S0 n]
    by (simp add: Hd gt a)
  have D: "?D (Suc t) = delta_states K (\<lambda>i. exp (g i)) k v beta S0 (Suc t)" if "t < len" for t
    using that by (intro delta_states_cong) (simp add: pad_vec_def pad_rows_def fun_eq_iff)
  show "len \<le> n * BT \<Longrightarrow> H n r e = delta_states K (\<lambda>i. exp (g i)) k v beta S0 len r e"
    using delta_states_pad [of K len g k v beta S0 "n * BT - len"] by (simp add: H)
  assume t: "t < len"
  have i: "t mod BT < BT" "t div BT * BT + t mod BT = t" using BT by simp_all
  have x: "new_value K BT (pad_rows len w) (pad_rows len u) ?gt (H n) n j e = new_value K BT ?W ?U ?gt (?D (n * BT)) n j e" for n j
    by (simp add: new_value_def U W H cong: sum.cong_simp)
  show "exp2 (?gt t) * (\<Sum>d<K. q d * H (t div BT) d e)
      + (\<Sum>j\<le>t mod BT. exp2 (?gt t - ?gt (t div BT * BT + j)) * (\<Sum>d<K. q d * ?k (t div BT * BT + j) d)
          * new_value K BT (pad_rows len w) (pad_rows len u) ?gt (H (t div BT)) (t div BT) j e)
      = (\<Sum>d<K. q d * delta_states K (\<lambda>i. exp (g i)) k v beta S0 (Suc t) d e)"
    using wy_output [OF E i(1) gt refl refl, where K = K and k = ?k and v = ?v and beta = ?b and ?S0.0 = S0
        and n = "t div BT" and c = e and q = q, unfolded a i(2) D [OF t]]
    by (simp only: x H)
qed

section \<open>Chunk indices and state slots agree\<close>

lemma number_zeros_nonzero:
  "(\<forall>x \<in> set xs. x \<noteq> 0) \<Longrightarrow> number_zeros seen (xs @ rest) = map (Pair (seen - 1)) xs @ number_zeros seen rest"
  by (induction xs) (auto simp: Let_def)

lemma number_zeros_run:
  assumes "0 < c"
  shows "number_zeros seen ([0..<c] @ rest) = map (Pair seen) [0..<c] @ number_zeros (Suc seen) rest"
proof -
  have "[0..<c] = 0 # [1..<c]" using assms by (simp add: upt_conv_Cons)
  moreover have "number_zeros (Suc seen) ([1..<c] @ rest) = map (Pair seen) [1..<c] @ number_zeros (Suc seen) rest"
    using number_zeros_nonzero [of "[1..<c]" "Suc seen" rest] by simp
  ultimately show ?thesis by (simp add: Let_def)
qed

lemma length_number_zeros [simp]: "length (number_zeros seen xs) = length xs"
  by (induction xs arbitrary: seen) (auto simp: Let_def)

lemma length_runs: "length (concat (map (\<lambda>n. [0..<n]) cs)) = sum_list cs"
  by (induction cs) auto

lemma number_zeros_nth:
  assumes "\<forall>c \<in> set cs. 0 < c" "n < length cs" "m < cs ! n"
  shows "number_zeros seen (concat (map (\<lambda>n. [0..<n]) cs)) ! (sum_list (take n cs) + m) = (seen + n, m) \<and>
    sum_list (take n cs) + m < sum_list cs"
  using assms
proof (induction cs arbitrary: n seen)
  case (Cons c cs)
  have run: "number_zeros seen (concat (map (\<lambda>n. [0..<n]) (c # cs)))
      = map (Pair seen) [0..<c] @ number_zeros (Suc seen) (concat (map (\<lambda>n. [0..<n]) cs))" for seen
    using Cons.prems(1) number_zeros_run [of c] by simp
  show ?case
  proof (cases n)
    case 0
    then show ?thesis using Cons.prems unfolding run by (simp add: nth_append)
  next
    case (Suc n')
    then have "number_zeros (Suc seen) (concat (map (\<lambda>n. [0..<n]) cs)) ! (sum_list (take n' cs) + m) = (Suc seen + n', m)"
      "sum_list (take n' cs) + m < sum_list cs"
      using Cons.IH [of n' "Suc seen"] Cons.prems by simp_all
    moreover have "sum_list (take n (c # cs)) + m = c + (sum_list (take n' cs) + m)" by (simp add: Suc)
    ultimately show ?thesis unfolding run by (simp add: nth_append Suc)
  qed
qed simp

lemma position_split:
  "i < sum_list cs \<Longrightarrow> \<exists>n < length cs. \<exists>m < cs ! n. i = sum_list (take n cs) + (m :: nat)"
proof (induction cs arbitrary: i)
  case (Cons c cs)
  show ?case
  proof (cases "i < c")
    case True
    then show ?thesis by (intro exI [of _ 0]) auto
  next
    case False
    then have "i - c < sum_list cs" using Cons.prems by simp
    then obtain n m where "n < length cs" "m < cs ! n" "i - c = sum_list (take n cs) + m"
      using Cons.IH by blast
    then show ?thesis using False by (intro exI [of _ "Suc n"]) auto
  qed
qed simp

lemma chunk_counts_nth:
  "length (chunk_counts os cs) = length os - 1"
  "n < length os - 1 \<Longrightarrow> chunk_counts os cs ! n = cdiv (os ! (n + 1) - os ! n) cs"
  by (auto simp: chunk_counts_def nth_tl)

definition offsets_ok :: "nat list option \<Rightarrow> nat \<Rightarrow> bool" where
  "offsets_ok offsets T = (case offsets of None \<Rightarrow> True | Some os \<Rightarrow> os \<noteq> [] \<and> sorted_wrt (<) os \<and> last os \<le> T)"

lemma offsets_mono:
  assumes "sorted_wrt (<) (os :: nat list)" "i < j" "j < length os"
  shows "os ! i < os ! j"
  using assms by (auto simp: sorted_wrt_iff_nth_less)

lemma packs_varlen:
  assumes ok: "offsets_ok (Some os) T" and BT: "0 < BT" and same: "chunk_counts os 64 = chunk_counts os BT"
  shows "packs BT (length os - 1) (length (chunk_indices os 64))
    (sequence_of (Some os) (prepare_varlen_inputs os BT) T) (program_chunk (Some os) (chunk_indices os 64) T)"
proof -
  let ?cs = "chunk_counts os BT" and ?N = "length os - 1"
  have inc: "os ! i < os ! j" if "i < j" "j < length os" for i j
    using ok offsets_mono that by (simp add: offsets_ok_def)
  have cnt: "?cs ! n = cdiv (os ! (n + 1) - os ! n) BT" if "n < ?N" for n
    using chunk_counts_nth(2) that by blast
  have len: "length ?cs = ?N" by (rule chunk_counts_nth)
  have pos: "0 < ?cs ! n" if "n < ?N" for n
    using inc [of n "n + 1"] block_in_cdiv [OF BT, of 0 "os ! (n + 1) - os ! n"] that cnt [OF that] by auto
  then have all: "\<forall>c \<in> set ?cs. 0 < c" by (auto simp: in_set_conv_nth len)
  have co: "prepare_varlen_inputs os BT ! n = sum_list (take n ?cs)" if "n < ?N" for n
    using that len by (simp add: prepare_varlen_inputs_def del: upt_Suc)
  have NT: "length (chunk_indices os 64) = sum_list ?cs" by (simp add: chunk_indices_def same length_runs)
  have ix: "chunk_indices os 64 ! (sum_list (take n ?cs) + m) = (n, m)" "sum_list (take n ?cs) + m < sum_list ?cs"
    if "n < ?N" "m < ?cs ! n" for n m
    using number_zeros_nth [OF all, of n m 0] that by (simp_all add: chunk_indices_def same len)
  show ?thesis
    unfolding packs_def
  proof (intro conjI allI impI)
    fix n bos l boh m
    assume n: "n < ?N" and sq: "sequence_of (Some os) (prepare_varlen_inputs os BT) T n = (bos, l, boh)" and m: "m < cdiv l BT"
    then have e: "bos = os ! n" "l = os ! (n + 1) - os ! n" "boh = sum_list (take n ?cs)" by (auto simp: sequence_of_def co)
    then have "m < ?cs ! n" using m cnt [OF n] by simp
    from ix [OF n this] show "boh + m < length (chunk_indices os 64)"
      "program_chunk (Some os) (chunk_indices os 64) T (boh + m) = (bos, l, m)"
      by (simp_all add: e NT program_chunk_def Let_def)
  next
    fix i assume "i < length (chunk_indices os 64)"
    then obtain n m where nm: "n < ?N" "m < ?cs ! n" "i = sum_list (take n ?cs) + m"
      using position_split [of i ?cs] by (auto simp: NT len)
    then show "\<exists>n < ?N. \<exists>bos l boh m. sequence_of (Some os) (prepare_varlen_inputs os BT) T n = (bos, l, boh) \<and>
        m < cdiv l BT \<and> i = boh + m"
      using cnt [OF nm(1)] co [OF nm(1)] by (intro exI [of _ n]) (auto simp: sequence_of_def)
  next
    fix n n' bos l boh bos' l' boh'
    assume n: "n < ?N" "n' < ?N" "n \<noteq> n'"
      and sq: "sequence_of (Some os) (prepare_varlen_inputs os BT) T n = (bos, l, boh)"
        "sequence_of (Some os) (prepare_varlen_inputs os BT) T n' = (bos', l', boh')"
    have le: "os ! (a + 1) \<le> os ! b" if "a < b" "b < ?N" for a b
      using inc [of "a + 1" b] that by (cases "a + 1 = b") (auto intro: less_imp_le)
    have "os ! n < os ! (n + 1)" "os ! n' < os ! (n' + 1)" using inc n by auto
    then show "bos + l \<le> bos' \<or> bos' + l' \<le> bos"
      using le [of n n'] le [of n' n] n sq by (cases "n < n'") (auto simp: sequence_of_def)
  qed
qed

lemma packs_fixed: "packs BT 1 (cdiv T BT) (sequence_of None co T) (program_chunk None ixs T)"
  by (auto simp: packs_def sequence_of_def program_chunk_def)

lemma chunk_block_64:
  assumes "pow2_spec (base F)"
  obtains x where "chunk_block F 64 T = 2 ^ x" "chunk_block F 64 T = 64 \<or> chunk_block F 64 T \<le> 32 \<and> T \<le> chunk_block F 64 T"
    "16 \<le> chunk_block F 64 T" "chunk_block F 64 T \<le> 64"
proof -
  obtain e where e1: "next_pow2 (base F) T = 2 ^ e" using assms unfolding pow2_spec_def by blast
  have "T \<le> next_pow2 (base F) T" using assms by (simp add: pow2_spec_def)
  note e = e1 this
  have sixteen: "(16 :: nat) = 2 ^ 4" "(64 :: nat) = 2 ^ 6" "(32 :: nat) = 2 ^ 5" by simp_all
  have mono: "(2 :: nat) ^ a \<le> 2 ^ b \<longleftrightarrow> a \<le> b" for a b by (rule power_increasing_iff) simp
  have mx: "max (2 ^ e) (16 :: nat) = 2 ^ max e 4" unfolding sixteen max_def mono by simp
  have b: "chunk_block F 64 T = 2 ^ min 6 (max e 4)"
    unfolding chunk_block_def e(1) mx sixteen(2) min_def mono by (auto simp: le_max_iff_disj)
  have small: "chunk_block F 64 T \<le> 32" if "min 6 (max e 4) \<noteq> 6"
    using that unfolding b sixteen(3) mono by simp
  show thesis
  proof (rule that [OF b])
    show "chunk_block F 64 T = 64 \<or> chunk_block F 64 T \<le> 32 \<and> T \<le> chunk_block F 64 T"
    proof (cases "min 6 (max e 4) = 6")
      case True
      show ?thesis unfolding b True by simp
    next
      case False
      from small [OF False] have "T \<le> chunk_block F 64 T" using e(2) by (auto simp: chunk_block_def min_def le_max_iff_disj split: if_splits)
      then show ?thesis using small [OF False] by blast
    qed
  qed (auto simp: chunk_block_def)
qed

section \<open>The forward pass on packed sequences\<close>

text \<open>What \<open>fla.ops.utils.chunk_local_cumsum\<close> documents: sums that restart at each chunk of each sequence.\<close>

definition cumsum_spec :: "fla_env \<Rightarrow> bool" where
  "cumsum_spec F \<longleftrightarrow>
     (\<forall>T g. \<forall>t < T. chunk_local_cumsum F 64 None T g t = cumsum (chunk_view 64 (t div 64) g) (t mod 64)) \<and>
     (\<forall>os T g n. \<forall>t < os ! (n + 1) - os ! n. sorted_wrt (<) os \<and> n + 1 < length os \<longrightarrow>
        chunk_local_cumsum F 64 (Some os) T g (os ! n + t) = cumsum (chunk_view 64 (t div 64) (seq_view (os ! n) g)) (t mod 64))"

definition fla_env_ok :: "fla_env \<Rightarrow> bool" where
  "fla_env_ok F \<longleftrightarrow> exact_casts (base F) \<and> pow2_spec (base F) \<and> safe_exp_spec F \<and> cumsum_spec F \<and>
     0 < tuned_bk F \<and> 0 < tuned_bv F"

text \<open>The number of sequences of a call, and the rows of each.\<close>

definition seq_count :: "nat list option \<Rightarrow> nat" where
  "seq_count offsets = (case offsets of None \<Rightarrow> 1 | Some os \<Rightarrow> length os - 1)"

definition seq_span :: "nat list option \<Rightarrow> nat \<Rightarrow> nat \<Rightarrow> nat \<times> nat" where
  "seq_span offsets T n = (case offsets of None \<Rightarrow> (0, T) | Some os \<Rightarrow> (os ! n, os ! (n + 1) - os ! n))"

lemma local_cumsum_gate:
  assumes F: "cumsum_spec F" and ok: "offsets_ok offsets T" and n: "n < seq_count offsets" "seq_span offsets T n = (bos, len)"
    and BT: "BT = 64 \<or> len \<le> BT" "0 < BT" "BT \<le> 64"
  shows "local_gate BT len (seq_view bos g) (seq_view bos (chunk_local_cumsum F 64 offsets T g))"
  unfolding local_gate_def
proof (intro allI impI)
  fix t assume t: "t < len"
  have c: "seq_view bos (chunk_local_cumsum F 64 offsets T g) t = cumsum (chunk_view 64 (t div 64) (seq_view bos g)) (t mod 64)"
  proof (cases offsets)
    case None
    then show ?thesis using F n t by (simp add: cumsum_spec_def seq_span_def seq_view_def)
  next
    case (Some os)
    then show ?thesis using F n t ok by (auto simp: cumsum_spec_def seq_span_def seq_view_def seq_count_def offsets_ok_def)
  qed
  have "t div 64 = t div BT" "t mod 64 = t mod BT" using BT t by auto
  moreover have "cumsum (chunk_view BT (t div BT) (seq_view bos g)) (t mod BT)
      = cumsum (chunk_view BT (t div BT) (seq_vec bos len g)) (t mod BT)"
  proof -
    have "t div BT * BT + i < len" if "i \<le> t mod BT" for i
      using that t div_mult_mod_eq [of t BT] by linarith
    then show ?thesis unfolding cumsum_def chunk_view_def by (intro sum.cong) (auto simp: pad_vec_def)
  qed
  moreover have "chunk_view 64 (t div 64) (seq_view bos g) i = chunk_view BT (t div BT) (seq_view bos g) i" for i
    using BT t by (auto simp: chunk_view_def)
  ultimately show "seq_view bos (chunk_local_cumsum F 64 offsets T g) t = cumsum (chunk_view BT (t div BT) (seq_vec bos len g)) (t mod BT)"
    by (simp add: c cumsum_def)
qed

lemma seq_span_within:
  assumes "offsets_ok offsets T" "n < seq_count offsets" "seq_span offsets T n = (bos, len)"
  shows "bos + len \<le> T"
proof (cases offsets)
  case (Some os)
  then have n: "n + 1 < length os" "os \<noteq> []" "sorted_wrt (<) os" "last os \<le> T"
    using assms by (auto simp: offsets_ok_def seq_count_def)
  have "os ! n < os ! (n + 1)" using offsets_mono [OF n(3)] n(1) by simp
  moreover have "os ! (n + 1) \<le> os ! (length os - 1)"
  proof (cases "n + 1 = length os - 1")
    case False
    then have "n + 1 < length os - 1" "length os - 1 < length os" using n(1) by simp_all
    then show ?thesis using offsets_mono [OF n(3)] less_imp_le by blast
  qed simp
  ultimately show ?thesis using assms(3) n by (auto simp: Some seq_span_def last_conv_nth)
qed (use assms in \<open>simp add: seq_span_def\<close>)

text \<open>What the launches of a call share: chunks, sequences and gates.\<close>

lemma packed_call:
  assumes F: "pow2_spec (base F)" "cumsum_spec F" and ok: "offsets_ok offsets T" and neg: "\<forall>t < T. g t \<le> 0"
    and BT: "BT = chunk_block F 64 T" and co: "co = (case offsets of None \<Rightarrow> [] | Some os \<Rightarrow> prepare_varlen_inputs os BT)"
    and ixs: "ixs = (case offsets of None \<Rightarrow> [] | Some os \<Rightarrow> chunk_indices os 64)"
    and NT: "NT = (case offsets of None \<Rightarrow> cdiv T BT | Some os \<Rightarrow> length ixs)"
  shows "\<exists>x. BT = 2 ^ x" and "BT = 64 \<or> BT \<le> 32" and "0 < BT"
    and "packs BT (seq_count offsets) NT (sequence_of offsets co T) (program_chunk offsets ixs T)"
    and "sequence_of offsets co T n = (b, l, boh) \<longleftrightarrow>
      seq_span offsets T n = (b, l) \<and> boh = snd (snd (sequence_of offsets co T n))"
    and "n < seq_count offsets \<Longrightarrow> seq_span offsets T n = (b, l) \<Longrightarrow>
      local_gate BT l (seq_view b g) (seq_view b (chunk_local_cumsum F 64 offsets T g))"
    and "n < seq_count offsets \<Longrightarrow> seq_span offsets T n = (b, l) \<Longrightarrow> t < l \<Longrightarrow> seq_view b g t \<le> 0"
    and "n < seq_count offsets \<Longrightarrow> seq_span offsets T n = (b, l) \<Longrightarrow> BT = 64 \<or> l \<le> BT"
    and "BT \<le> 64"
proof -
  obtain x where x: "BT = 2 ^ x" "BT = 64 \<or> BT \<le> 32 \<and> T \<le> BT" "16 \<le> BT" "BT \<le> 64"
    using chunk_block_64 [OF F(1), of T] unfolding BT by blast
  show "\<exists>x. BT = 2 ^ x" "BT = 64 \<or> BT \<le> 32" "0 < BT" "BT \<le> 64" using x by auto
  have bt: "0 < BT" using x(3) by simp
  have short: "BT = 64 \<or> l \<le> BT" if "n < seq_count offsets" "seq_span offsets T n = (b, l)" for n b l
    using seq_span_within [OF ok] that x(2) by fastforce
  show "packs BT (seq_count offsets) NT (sequence_of offsets co T) (program_chunk offsets ixs T)"
  proof (cases offsets)
    case None
    then show ?thesis using packs_fixed by (simp add: NT seq_count_def)
  next
    case (Some os)
    have inc: "os ! n < os ! (n + 1)" if "n < length os - 1" for n
      using ok offsets_mono that by (simp add: offsets_ok_def Some)
    have "chunk_counts os 64 = chunk_counts os BT"
    proof (rule nth_equalityI)
      fix n assume "n < length (chunk_counts os 64)"
      then have n: "n < length os - 1" by (simp add: chunk_counts_nth)
      have "0 < os ! (n + 1) - os ! n" "BT = 64 \<or> os ! (n + 1) - os ! n \<le> BT"
        using inc [OF n] short [of n] n by (auto simp: Some seq_count_def seq_span_def)
      then show "chunk_counts os 64 ! n = chunk_counts os BT ! n"
        unfolding chunk_counts_nth(2) [OF n] using cdiv_one x(4) by (metis order_trans)
    qed (simp add: chunk_counts_nth)
    then show ?thesis using packs_varlen [of os T BT] ok bt
      by (simp add: Some NT seq_count_def co ixs)
  qed
  show "sequence_of offsets co T n = (b, l, boh) \<longleftrightarrow>
      seq_span offsets T n = (b, l) \<and> boh = snd (snd (sequence_of offsets co T n))"
    by (cases offsets) (auto simp: sequence_of_def seq_span_def)
  show "local_gate BT l (seq_view b g) (seq_view b (chunk_local_cumsum F 64 offsets T g))"
    if "n < seq_count offsets" "seq_span offsets T n = (b, l)"
    by (rule local_cumsum_gate [OF F(2) ok that short [OF that] bt x(4)])
  show "seq_view b g t \<le> 0" if "n < seq_count offsets" "seq_span offsets T n = (b, l)" "t < l"
    using neg seq_span_within [OF ok _ that(2)] that(1,3) by (simp add: seq_view_def)
  show "BT = 64 \<or> l \<le> BT" if "n < seq_count offsets" "seq_span offsets T n = (b, l)" by (rule short [OF that])
qed

lemma fla_forward_rows:
  fixes offsets :: "nat list option"
  assumes F: "fla_env_ok F" and K: "0 < K" "next_pow2 (base F) K \<le> 256" and ok: "offsets_ok offsets T"
    and neg: "\<forall>t < T. g t \<le> 0"
  shows "\<exists>out fs ctx. FlaFunction_forward F offsets T K V q k v g beta scale init ofs = Inr (out, fs, ctx) \<and>
    (fs = None \<longleftrightarrow> \<not> ofs) \<and>
    (\<forall>n < seq_count offsets. \<forall>bos len. seq_span offsets T n = (bos, len) \<longrightarrow>
      (\<forall>t < len. \<forall>e < V. out (bos + t) e = (\<Sum>d<K. q (bos + t) d * scale * delta_states K (\<lambda>i. exp (g (bos + i)))
         (seq_view bos k) (seq_view bos v) (seq_view bos beta) (start_state init n) (Suc t) d e)) \<and>
      (\<forall>ht. fs = Some ht \<longrightarrow> (\<forall>r < K. \<forall>e < V. ht n r e = delta_states K (\<lambda>i. exp (g (bos + i)))
         (seq_view bos k) (seq_view bos v) (seq_view bos beta) (start_state init n) len r e)))"
proof -
  have E: "exact_casts (base F)" "pow2_spec (base F)" "safe_exp_spec F" "cumsum_spec F" "0 < tuned_bk F" "0 < tuned_bv F"
    using F by (simp_all add: fla_env_ok_def)
  define BT where "BT = chunk_block F 64 T"
  define co where "co = (case offsets of None \<Rightarrow> [] | Some os \<Rightarrow> prepare_varlen_inputs os BT)"
  define ixs where "ixs = (case offsets of None \<Rightarrow> [] | Some os \<Rightarrow> chunk_indices os 64)"
  define N where "N = seq_count offsets"
  define NT where "NT = (case offsets of None \<Rightarrow> cdiv T BT | Some os \<Rightarrow> length ixs)"
  let ?sq = "sequence_of offsets co T" and ?pc = "program_chunk offsets ixs T"
  let ?c = "chunk_local_cumsum F 64 offsets T g"
  note call = packed_call [OF E(2,4) ok neg BT_def co_def ixs_def NT_def, folded N_def]
  obtain x where x: "BT = 2 ^ x" "BT = 64 \<or> BT \<le> 32" using call(1,2) by blast
  note bt = call(3) and P = call(4) and sq = call(5) and gate_n = call(6) and neg_n = call(7)
  let ?ind = "map_option (\<lambda>os. chunk_indices os 64) offsets"
  have ind: "ixs = (case ?ind of None \<Rightarrow> [] | Some ixs \<Rightarrow> ixs)" "\<not> (offsets \<noteq> None \<and> ?ind = None)"
    by (auto simp: ixs_def split: option.split)
  obtain w u Aw Au where wy: "fla_fwd_prepare_wy_repr F offsets ?ind 64 T K V k v ?c beta = Inr (w, u, Aw, Au)"
  proof -
    have nb: "\<not> (BT \<noteq> 64 \<and> min BT 32 \<noteq> BT)" using x(2) by auto
    have "\<exists>r. fla_fwd_prepare_wy_repr F offsets ?ind 64 T K V k v ?c beta = Inr r"
      unfolding fla_fwd_prepare_wy_repr_def if_not_P [OF ind(2)] Let_def BT_def [symmetric] if_not_P [OF nb] split_def by blast
    then show thesis using that by (metis prod_cases4)
  qed
  have "BT = 64 \<or> BT \<le> 32" using x(2) by blast
  note rows = fla_prepare_seq [OF E(1-3) BT_def this bt NT_def wy ind(1)]
  let ?BK = "next_pow2 (base F) K"
  have KB: "K \<le> ?BK" using E(2) by (simp add: pow2_spec_def)
  have NK: "cdiv K ?BK = 1" by (rule cdiv_one [OF K(1) KB])
  obtain BV BC0 where sel: "(if fst (capability F) \<ge> 9 then (64, 64) else if capability F = (8, 0) then (32, 64)
      else (32, if K \<le> 128 then 64 else 32)) = (BV :: nat, BC0 :: nat)" by (rule prod.exhaust)
  have BC: "BC0 = 2 ^ 6 \<or> BC0 = 2 ^ 5" "0 < BC0" "0 < BV" using sel by (auto split: if_splits)
  then have "min BT BC0 dvd BT" using two_power_dvd_min [OF x(1)] by metis
  then have blk: "0 < min BT BC0" "min BT BC0 dvd BT" "0 < BV" using bt BC by simp_all
  let ?s = "((\<lambda>n :: nat. uninit (base F)), uninit (base F), if ofs then Some (\<lambda>n :: nat. uninit (base F)) else None)"
  let ?prog = "\<lambda>i_v i_n. fla_fwd_kernel_h F offsets co T K V BT (min BT BC0) ?BK BV k u w (Some ?c) init 0 i_v i_n"
  obtain h vn ht where run: "for_loop (cdiv V BV) (\<lambda>i_v. for_loop N (?prog i_v)) ?s = (h, vn, ht)" by (rule prod_cases3)
  have Ncase: "(case offsets of None \<Rightarrow> 1 | Some os \<Rightarrow> length os - 1) = N" by (simp add: N_def seq_count_def)
  have fh: "fla_fwd_h F offsets 64 T K V k w u (Some ?c) init ofs = Inr (h, vn, ht)"
    using K(2) run unfolding fla_fwd_h_def Let_def BT_def [symmetric] co_def [symmetric] Ncase NK sel prod.case by simp
  have gates: "\<forall>n bos len boh. n < N \<longrightarrow> ?sq n = (bos, len, boh) \<longrightarrow>
      local_gate BT len ((\<lambda>n. seq_view (fst (seq_span offsets T n)) g) n) (seq_view bos ?c)"
    using gate_n sq by simp
  note H = fwd_h_launch [OF E(1) P gates bt blk(1,2,3) KB run]
  let ?out = "for_loop (cdiv V (tuned_bv F)) (\<lambda>i_v. for_loop NT (\<lambda>i_t.
      fla_chunk_fwd_kernel_o F offsets ixs scale T K V BT (tuned_bk F) (tuned_bv F) q k vn h (Some ?c) i_v i_t)) (uninit (base F))"
  have fo: "fla_chunk_fwd_o F offsets ?ind (Some scale) 64 T K V q k vn h (Some ?c) = Inr ?out"
    unfolding fla_chunk_fwd_o_def if_not_P [OF ind(2)] Let_def BT_def [symmetric] ind(1) [symmetric] NT_def [symmetric] by simp
  have casts: "mcast (to_in (base F)) X = X" for X using E(1) by (simp add: exact_casts_def mcast_def)
  have fwd: "\<exists>ctx. FlaFunction_forward F offsets T K V q k v g beta scale init ofs = Inr (?out, ht, ctx)"
    unfolding FlaFunction_forward_def fla_chunk_gated_delta_rule_fwd_def Let_def wy rbind_Inr prod.case fh fo casts by blast
  have htN: "ht = None \<longleftrightarrow> \<not> ofs"
  proof -
    have "(snd (snd (for_loop (cdiv V BV) (\<lambda>i_v. for_loop N (?prog i_v)) ?s)) = None) = (snd (snd ?s) = None)"
    proof (intro for_loop_keep [where get = "\<lambda>s. snd (snd s) = None"])
      fix v n' s
      obtain b l o' where s': "?sq n' = (b, l, o')" by (rule prod_cases3)
      show "(snd (snd (?prog v n' s)) = None) = (snd (snd s) = None)" by (rule fla_kernel_h_keep(4) [OF blk(3) s' refl])
    qed
    then show ?thesis by (simp add: run)
  qed
  have each: "(\<forall>t < len. \<forall>e < V. ?out (bos + t) e = (\<Sum>d<K. q (bos + t) d * scale * delta_states K (\<lambda>i. exp (g (bos + i)))
         (seq_view bos k) (seq_view bos v) (seq_view bos beta) (start_state init n) (Suc t) d e)) \<and>
      (\<forall>ht'. ht = Some ht' \<longrightarrow> (\<forall>r < K. \<forall>e < V. ht' n r e = delta_states K (\<lambda>i. exp (g (bos + i)))
         (seq_view bos k) (seq_view bos v) (seq_view bos beta) (start_state init n) len r e))"
    if n: "n < N" and span: "seq_span offsets T n = (bos, len)" for n bos len
  proof -
    define boh where "boh = snd (snd (?sq n))"
    have sqn: "?sq n = (bos, len, boh)" using span sq boh_def by blast
    note lg = gate_n [OF n span] and ng = neg_n [OF n span]
    have plan: "launch_plan BT offsets ixs T NT bos len" by (rule packs_plan [OF P bt n sqn])
    have view: "fst (seq_span offsets T n) = bos" by (simp add: span)
    let ?gt = "gate (base F) BT len (seq_view bos g)"
    have wr: "seq_view bos w t d = wy_w K BT (seq_rows bos len k) (seq_vec bos len beta) t d" if "t < len" "d < K" for t d
      using rows(1) [OF lg ng plan that] by (simp add: seq_view_def)
    have ur: "seq_view bos u t e = wy_u K BT (seq_rows bos len k) (seq_rows bos len v) (seq_vec bos len beta) ?gt t e"
      if "t < len" "e < V" for t e
      using rows(2) [OF lg ng plan that] by (simp add: seq_view_def)
    define Hn where "Hn = h_states K BT (seq_rows bos len k) (seq_rows bos len w) (seq_rows bos len u) ?gt (start_state init n)"
    note Hrows = H [OF n sqn, unfolded view, folded Hn_def]
    have vals: "len \<le> m * BT \<Longrightarrow> Hn m r e = delta_states K (\<lambda>i. exp (seq_view bos g i)) (seq_view bos k) (seq_view bos v)
        (seq_view bos beta) (start_state init n) len r e"
      "t < len \<Longrightarrow> exp2 (?gt t) * (\<Sum>d<K. q' d * Hn (t div BT) d e)
      + (\<Sum>j\<le>t mod BT. exp2 (?gt t - ?gt (t div BT * BT + j)) * (\<Sum>d<K. q' d * seq_rows bos len k (t div BT * BT + j) d)
          * new_value K BT (seq_rows bos len w) (seq_rows bos len u) ?gt (Hn (t div BT)) (t div BT) j e)
      = (\<Sum>d<K. q' d * delta_states K (\<lambda>i. exp (seq_view bos g i)) (seq_view bos k) (seq_view bos v) (seq_view bos beta)
          (start_state init n) (Suc t) d e)" if "e < V" for m r e t q'
      using seq_values [OF E(1) bt wr ur [OF _ that] Hn_def] by blast+
    have out: "?out (bos + t) e = (\<Sum>d<K. q (bos + t) d * scale * delta_states K (\<lambda>i. exp (g (bos + i)))
         (seq_view bos k) (seq_view bos v) (seq_view bos beta) (start_state init n) (Suc t) d e)" if t: "t < len" and e: "e < V" for t e
    proof -
      have m: "t div BT < cdiv len BT" by (rule block_in_cdiv [OF bt t])
      have hrow: "h (boh + t div BT) d e = Hn (t div BT) d e" if "d < K" for d
        by (rule Hrows(1) [OF e m that])
      have vrow: "seq_rows bos len vn (t div BT * BT + j) e
          = new_value K BT (seq_rows bos len w) (seq_rows bos len u) ?gt (Hn (t div BT)) (t div BT) j e" if "j \<le> t mod BT" for j
      proof -
        have "t mod BT < BT" using bt by simp
        then have jb: "j < BT" using that by linarith
        have "t div BT * BT + j < len" using that t div_mult_mod_eq [of t BT] by linarith
        moreover have "(t div BT * BT + j) div BT = t div BT" "(t div BT * BT + j) mod BT = j" using jb by simp_all
        ultimately show ?thesis
          using Hrows(2) [OF e, of "t div BT * BT + j"] by (simp add: pad_rows_def seq_view_def)
      qed
      have qrow: "seq_rows bos len q t d = q (bos + t) d" for d using t by (simp add: pad_rows_def seq_view_def)
      have "?out (bos + t) e = exp2 (?gt t) * (\<Sum>d<K. seq_rows bos len q t d * scale * h (boh + t div BT) d e)
        + (\<Sum>j\<le>t mod BT. exp2 (?gt t - ?gt (t div BT * BT + j))
            * (\<Sum>d<K. seq_rows bos len q t d * scale * seq_rows bos len k (t div BT * BT + j) d)
            * seq_rows bos len vn (t div BT * BT + j) e)"
        by (rule fwd_o_launch [OF E(1,3,5,6) bt P n sqn lg ng t e refl refl refl refl])
      also have "\<dots> = (\<Sum>d<K. q (bos + t) d * scale * delta_states K (\<lambda>i. exp (seq_view bos g i))
         (seq_view bos k) (seq_view bos v) (seq_view bos beta) (start_state init n) (Suc t) d e)"
        unfolding qrow vals(2) [OF e t, of "\<lambda>d. q (bos + t) d * scale", symmetric]
        by (intro arg_cong2 [where f = "(+)"] arg_cong2 [where f = "(*)"] refl sum.cong) (simp_all add: hrow vrow)
      finally show ?thesis by (simp add: seq_view_def)
    qed
    have fin: "ht' n r e = delta_states K (\<lambda>i. exp (g (bos + i)))
         (seq_view bos k) (seq_view bos v) (seq_view bos beta) (start_state init n) len r e"
      if "ht = Some ht'" "r < K" "e < V" for ht' r e
      using Hrows(3) [OF that(3,2,1)] vals(1) [OF that(3) cdiv_covers [OF bt]] by (simp add: seq_view_def)
    show ?thesis using out fin by blast
  qed
  obtain ctx where "FlaFunction_forward F offsets T K V q k v g beta scale init ofs = Inr (?out, ht, ctx)" using fwd by blast
  moreover note htN
  moreover have "\<forall>n < seq_count offsets. \<forall>bos len. seq_span offsets T n = (bos, len) \<longrightarrow>
      (\<forall>t < len. \<forall>e < V. ?out (bos + t) e = (\<Sum>d<K. q (bos + t) d * scale * delta_states K (\<lambda>i. exp (g (bos + i)))
         (seq_view bos k) (seq_view bos v) (seq_view bos beta) (start_state init n) (Suc t) d e)) \<and>
      (\<forall>ht'. ht = Some ht' \<longrightarrow> (\<forall>r < K. \<forall>e < V. ht' n r e = delta_states K (\<lambda>i. exp (g (bos + i)))
         (seq_view bos k) (seq_view bos v) (seq_view bos beta) (start_state init n) len r e))"
    unfolding N_def [symmetric] by (intro allI impI) (rule each)
  ultimately show ?thesis by (intro exI conjI)
qed

section \<open>Properties of the packed forward pass\<close>

text \<open>The calls the entry point accepts, and the scale it uses.\<close>

definition call_accepted :: "call_shape \<Rightarrow> nat list option \<Rightarrow> (nat \<Rightarrow> mat) option \<Rightarrow> real option \<Rightarrow> bool" where
  "call_accepted sh offsets init scale \<longleftrightarrow> same_dtype sh \<and> \<not> is_float32 sh \<and> beta_rank sh = 3 \<and>
     (offsets \<noteq> None \<longrightarrow> batch_size sh = 1 \<and> \<not> head_first sh) \<and>
     (offsets \<noteq> None \<and> init \<noteq> None \<longrightarrow> state_count sh + 1 = length (the offsets)) \<and> (\<forall>s. scale = Some s \<longrightarrow> 0 < s)"

definition call_scale :: "nat \<Rightarrow> real option \<Rightarrow> real" where
  "call_scale K scale = (case scale of None \<Rightarrow> real K powr (- (1 / 2)) | Some s \<Rightarrow> s)"

lemma entry_accepts:
  "call_accepted sh offsets init scale \<Longrightarrow>
   fla_chunk_gated_delta_rule F sh offsets T K V q k v g beta scale init ofs =
     rbind (FlaFunction_forward F offsets T K V q k v g beta (call_scale K scale) init ofs)
       (\<lambda>(out, final_state, ctx). Inr (out, final_state))"
  by (auto simp: call_accepted_def fla_chunk_gated_delta_rule_def call_scale_def Let_def split: option.splits)

definition example_fla :: fla_env where
  "example_fla = \<lparr>base = example_env, safe_exp = (\<lambda>x. if x \<le> 0 then exp x else 0),
     chunk_local_cumsum = (\<lambda>c offsets T g t.
       let bos = (case offsets of None \<Rightarrow> 0 | Some os \<Rightarrow> Max {b \<in> set os. b \<le> t})
       in cumsum (chunk_view c ((t - bos) div c) (seq_view bos g)) ((t - bos) mod c)),
     chunk_local_revcumsum = (\<lambda>c offsets T g t.
       let bos = (case offsets of None \<Rightarrow> 0 | Some os \<Rightarrow> Max {b \<in> set os. b \<le> t});
           eos = (case offsets of None \<Rightarrow> T | Some os \<Rightarrow> Min {b \<in> set os. t < b})
       in (\<Sum>s = t..<min eos (bos + ((t - bos) div c + 1) * c). g s)),
     capability = (8, 6), tuned_bk = 64, tuned_bv = 64\<rparr>"

lemma example_fla_fields: "base example_fla = example_env" "capability example_fla = (8, 6)"
  "tuned_bk example_fla = 64" "tuned_bv example_fla = 64"
  by (simp_all add: example_fla_def)

lemma example_fla_ok: "fla_env_ok example_fla"
proof -
  have "Max {b \<in> set os. b \<le> os ! n + t} = os ! n"
    if "t < os ! Suc n - os ! n" "sorted_wrt (<) os" "Suc n < length os" for os :: "nat list" and n t
  proof (rule Max_eqI)
    fix b assume "b \<in> {b \<in> set os. b \<le> os ! n + t}"
    then obtain m where m: "m < length os" "b = os ! m" "os ! m \<le> os ! n + t" by (auto simp: in_set_conv_nth)
    have "m \<le> n"
    proof (rule ccontr)
      assume "\<not> m \<le> n"
      then have "Suc n = m \<or> Suc n < m" by linarith
      then have "os ! Suc n \<le> os ! m" using offsets_mono [OF that(2), of "Suc n" m] m(1) by (auto simp: less_imp_le)
      then show False using m(3) that(1) by linarith
    qed
    then show "b \<le> os ! n" using offsets_mono [OF that(2), of m n] m that(3) by (cases "m = n") (auto simp: less_imp_le)
  qed (use that in auto)
  then show ?thesis
    using example_env_ok by (simp add: fla_env_ok_def example_fla_def safe_exp_spec_def cumsum_spec_def seq_view_def chunk_view_def)
qed

text \<open>C2: The variable-length forward pass computes, for every packed sequence, the recurrence on that
  sequence alone.  For an accepted call with increasing offsets and log decays at most zero,
  \<open>chunk_gated_delta_rule\<close> of \<open>chunk_fla.py\<close> returns; a final state comes back exactly when one
  was asked for; and each output row and final state of a sequence is what the token-by-token gated
  delta rule gives on the rows of that sequence, started from the sequence's own initial state, with
  decay \<open>exp g\<close>.  No row of another sequence, no tile and no launch order has any influence.\<close>

theorem fla_forward_computes_recurrence:
  assumes "fla_env_ok F" and "call_accepted sh offsets init scale" and "0 < K" and "next_pow2 (base F) K \<le> 256"
    and "offsets_ok offsets T" and "\<forall>t < T. g t \<le> 0"
  shows "\<exists>out fs. fla_chunk_gated_delta_rule F sh offsets T K V q k v g beta scale init ofs = Inr (out, fs) \<and>
    (fs = None \<longleftrightarrow> \<not> ofs) \<and>
    (\<forall>n < seq_count offsets. \<forall>bos len. seq_span offsets T n = (bos, len) \<longrightarrow>
      (let r = recurrent_loop K len (\<lambda>i. exp (seq_view bos g i)) (\<lambda>i d. seq_view bos q i d * call_scale K scale)
                 (seq_view bos k) (seq_view bos v) (seq_view bos beta) (start_state init n)
       in (\<forall>t < len. \<forall>e < V. out (bos + t) e = snd r t e) \<and>
          (\<forall>ht. fs = Some ht \<longrightarrow> (\<forall>d < K. \<forall>e < V. ht n d e = fst r d e))))"
proof -
  obtain out fs ctx where run: "FlaFunction_forward F offsets T K V q k v g beta (call_scale K scale) init ofs = Inr (out, fs, ctx)"
    and fs: "fs = None \<longleftrightarrow> \<not> ofs"
    and rows: "\<forall>n < seq_count offsets. \<forall>bos len. seq_span offsets T n = (bos, len) \<longrightarrow>
      (\<forall>t < len. \<forall>e < V. out (bos + t) e = (\<Sum>d<K. q (bos + t) d * call_scale K scale * delta_states K (\<lambda>i. exp (g (bos + i)))
         (seq_view bos k) (seq_view bos v) (seq_view bos beta) (start_state init n) (Suc t) d e)) \<and>
      (\<forall>ht. fs = Some ht \<longrightarrow> (\<forall>r < K. \<forall>e < V. ht n r e = delta_states K (\<lambda>i. exp (g (bos + i)))
         (seq_view bos k) (seq_view bos v) (seq_view bos beta) (start_state init n) len r e))"
    using fla_forward_rows [OF assms(1,3,4,5,6), where V = V and q = q and k = k and v = v
        and beta = beta and scale = "call_scale K scale" and init = init and ofs = ofs] by blast
  have "fla_chunk_gated_delta_rule F sh offsets T K V q k v g beta scale init ofs = Inr (out, fs)"
    unfolding entry_accepts [OF assms(2)] run by (simp only: rbind_Inr prod.case)
  moreover note fs
  moreover have "\<forall>n < seq_count offsets. \<forall>bos len. seq_span offsets T n = (bos, len) \<longrightarrow>
      (let r = recurrent_loop K len (\<lambda>i. exp (seq_view bos g i)) (\<lambda>i d. seq_view bos q i d * call_scale K scale)
                 (seq_view bos k) (seq_view bos v) (seq_view bos beta) (start_state init n)
       in (\<forall>t < len. \<forall>e < V. out (bos + t) e = snd r t e) \<and>
          (\<forall>ht. fs = Some ht \<longrightarrow> (\<forall>d < K. \<forall>e < V. ht n d e = fst r d e)))"
    using rows by (simp add: Let_def recurrent_loop_states seq_view_def)
  ultimately show ?thesis by (intro exI conjI)
qed

theorem fla_forward_computes_recurrence_witness:
  "\<exists>out fs. fla_chunk_gated_delta_rule example_fla \<lparr>same_dtype = True, is_float32 = False, beta_rank = 3, batch_size = 1,
        head_first = False, state_count = 2\<rparr> (Some [0, 2, 5]) 5 2 3 (\<lambda>t d. real t) (\<lambda>t d. real d) (\<lambda>t e. 1)
        (\<lambda>t. - 1) (\<lambda>t. 1 / 2) (Some (1 / 4)) (Some (\<lambda>n d e. real n)) True = Inr (out, fs) \<and> fs \<noteq> None \<and>
      (\<forall>t < 3. \<forall>e < 3. out (2 + t) e = snd (recurrent_loop 2 3 (\<lambda>i. exp (- 1)) (\<lambda>i d. real (2 + i) * (1 / 4)) (\<lambda>t d. real d)
        (\<lambda>t e. 1) (\<lambda>t. 1 / 2) (\<lambda>d e. real 1)) t e)"
proof -
  let ?sh = "\<lparr>same_dtype = True, is_float32 = False, beta_rank = 3, batch_size = 1, head_first = False, state_count = 2\<rparr>"
  have a: "call_accepted ?sh (Some [0, 2, 5]) (Some (\<lambda>n d e. real n)) (Some (1 / 4))" by (simp add: call_accepted_def)
  have p: "0 < (2 :: nat)" "next_pow2 (base example_fla) 2 \<le> 256" "offsets_ok (Some [0, 2, 5]) 5" "\<forall>t < (5 :: nat). (- 1 :: real) \<le> 0"
    by (simp_all add: example_fla_def example_env_def offsets_ok_def)
  have s: "1 < seq_count (Some [0, 2, 5])" "seq_span (Some [0, 2, 5]) 5 1 = (2, 3)"
    by (simp_all add: seq_count_def seq_span_def)
  note r = fla_forward_computes_recurrence [OF example_fla_ok a p, where V = 3 and q = "\<lambda>t d. real t" and k = "\<lambda>t d. real d"
      and v = "\<lambda>t e. 1" and beta = "\<lambda>t. 1 / 2" and ofs = True]
  then obtain out fs where run: "fla_chunk_gated_delta_rule example_fla ?sh (Some [0, 2, 5]) 5 2 3 (\<lambda>t d. real t) (\<lambda>t d. real d)
      (\<lambda>t e. 1) (\<lambda>t. - 1) (\<lambda>t. 1 / 2) (Some (1 / 4)) (Some (\<lambda>n d e. real n)) True = Inr (out, fs)" "fs \<noteq> None"
    and rows: "\<forall>n < seq_count (Some [0, 2, 5]). \<forall>bos len. seq_span (Some [0, 2, 5]) 5 n = (bos, len) \<longrightarrow>
      (let r = recurrent_loop 2 len (\<lambda>i. exp (seq_view bos (\<lambda>t. - 1) i)) (\<lambda>i d. seq_view bos (\<lambda>t d. real t) i d * call_scale 2 (Some (1 / 4)))
                 (seq_view bos (\<lambda>t d. real d)) (seq_view bos (\<lambda>t e. 1)) (seq_view bos (\<lambda>t. 1 / 2)) (start_state (Some (\<lambda>n d e. real n)) n)
       in (\<forall>t < len. \<forall>e < 3. out (bos + t) e = snd r t e) \<and>
          (\<forall>ht. fs = Some ht \<longrightarrow> (\<forall>d < 2. \<forall>e < 3. ht n d e = fst r d e)))"
    by blast
  show ?thesis
    using run rows [rule_format, OF s] by (auto simp: Let_def seq_view_def start_state_def call_scale_def simp del: of_nat_add)
qed


text \<open>
  Offsets that do not increase: a sequence without rows has no chunk, so the running count of
  chunks that start a sequence, which the forward function uses as the sequence number, is off by
  one for all that follow.
\<close>

lemma chunk_indices_empty_first: "0 < L \<Longrightarrow> L \<le> 64 \<Longrightarrow> chunk_indices [0, 0, L] 64 = [(0, 0)]"
proof -
  assume "0 < L" "L \<le> 64"
  then have "cdiv L 64 = 1" by (rule cdiv_one)
  then show ?thesis by (simp add: chunk_indices_def chunk_counts_def cdiv_def)
qed

lemma kernel_o_no_rows:
  assumes "program_chunk offsets ixs T i = (bos, 0, j)"
  shows "fla_chunk_fwd_kernel_o F offsets ixs scale T K V BT BK BV q k v h g i_v i out = out"
proof -
  have st0: "st M 0 C i0 j0 R C' b = M" for M C i0 j0 R C' b by (simp add: st_def)
  show ?thesis
    unfolding fla_chunk_fwd_kernel_o_def assms Let_def split_def fst_conv snd_conv st0
    by (simp add: at_seq_def seq_view_def fun_eq_iff)
qed

text \<open>C30: An empty sequence makes the forward pass skip another one.  For two sequences, the first without
  rows and the second of up to 64 rows, every accepted call returns an output of which no element was
  ever written: the only program of the output kernel is told it handles the empty sequence.\<close>

theorem empty_sequence_skips_next:
  assumes "call_accepted sh (Some [0, 0, L]) init scale" and "exact_casts (base F)" and "0 < L" and "L \<le> 64"
    and "fla_chunk_gated_delta_rule F sh (Some [0, 0, L]) L K V q k v g beta scale init ofs = Inr (out, fs)"
  shows "out = uninit (base F)"
proof -
  have casts: "mcast (to_in (base F)) X = X" for X using assms(2) by (simp add: exact_casts_def mcast_def)
  have keep: "(\<And>i s. f i s = s) \<Longrightarrow> for_loop N f x = x" for N f and x :: mat by (induction N) simp_all
  have none: "fla_chunk_fwd_o F (Some [0, 0, L]) (Some [(0, 0)]) (Some scale) 64 L K V q k vn h (Some g) = Inr (uninit (base F))"
    for scale vn h g
  proof -
    have "for_loop 1 (fla_chunk_fwd_kernel_o F (Some [0, 0, L]) [(0, 0)] scale L K V BT BK BV q k vn h (Some g) i_v) s = s"
      for BT BK BV i_v s
      using kernel_o_no_rows [where bos = 0 and j = 0 and ixs = "[(0, 0)]" and i = 0] by (simp add: program_chunk_def)
    then show ?thesis by (simp add: fla_chunk_fwd_o_def Let_def keep fun_eq_iff del: for_loop.simps)
  qed
  show ?thesis
    using assms(5) unfolding entry_accepts [OF assms(1)] FlaFunction_forward_def fla_chunk_gated_delta_rule_fwd_def Let_def
      option.map chunk_indices_empty_first [OF assms(3,4)]
    by (auto simp: rbind_eq_Inr none casts)
qed

theorem empty_sequence_skips_next_witness:
  "\<exists>out fs. fla_chunk_gated_delta_rule example_fla \<lparr>same_dtype = True, is_float32 = False, beta_rank = 3, batch_size = 1,
        head_first = False, state_count = 2\<rparr> (Some [0, 0, 5]) 5 2 3 (\<lambda>t d. real t) (\<lambda>t d. real d) (\<lambda>t e. 1)
        (\<lambda>t. - 1) (\<lambda>t. 1 / 2) None None True = Inr (out, fs) \<and> out = (\<lambda>t e. 7)"
proof -
  let ?sh = "\<lparr>same_dtype = True, is_float32 = False, beta_rank = 3, batch_size = 1, head_first = False, state_count = 2\<rparr>"
  let ?run = "fla_chunk_gated_delta_rule example_fla ?sh (Some [0, 0, 5]) 5 2 3 (\<lambda>t d. real t) (\<lambda>t d. real d) (\<lambda>t e. 1)
        (\<lambda>t. - 1) (\<lambda>t. 1 / 2) None None True"
  have a: "call_accepted ?sh (Some [0, 0, 5]) None None" by (simp add: call_accepted_def)
  have "\<exists>out fs. ?run = Inr (out, fs)"
    unfolding entry_accepts [OF a] FlaFunction_forward_def fla_chunk_gated_delta_rule_fwd_def fla_fwd_prepare_wy_repr_def
      fla_fwd_h_def fla_chunk_fwd_o_def Let_def
    by (simp add: example_fla_fields example_env_def chunk_block_def cdiv_def split_def del: for_loop.simps)
  then obtain out fs where run: "?run = Inr (out, fs)" by blast
  have "out = uninit (base example_fla)"
    by (rule empty_sequence_skips_next [OF a _ _ _ run]) (use example_fla_ok in \<open>simp_all add: fla_env_ok_def\<close>)
  then show ?thesis using run by (auto simp: example_fla_def example_env_def)
qed

end
