(* ===== verification/Adjoint.thy ===== *)
theory Adjoint
  imports FlaChunk
begin

text \<open>
  The mathematics behind the backward pass: what the derivative of one chunk of the gated delta
  rule, of a triangular solve and of a whole sequence is along a differentiable change of the
  inputs, and which products of the upstream gradients give it.  Nothing here refers to kernels.
\<close>

section \<open>One chunk\<close>

text \<open>
  One value column of a chunk: new values \<open>x\<close>, outputs and the next state are multilinear in the
  inputs.  Primes are the derivatives.  \<open>Y\<close> is the gradient of the new values.
\<close>

lemma chunk_adjoint:
  fixes q k w q' k' w' E E' :: mat and u' S S' a a' l l' p D x x' out' T' Y :: vec and L L' :: real
  assumes x': "\<And>i. i < B \<Longrightarrow> x' i = u' i - (a' i * (\<Sum>d<K. w i d * S d) + a i * ((\<Sum>d<K. w' i d * S d) + (\<Sum>d<K. w i d * S' d)))"
    and out': "\<And>i. i < B \<Longrightarrow> out' i = a' i * (\<Sum>d<K. q i d * S d) + a i * ((\<Sum>d<K. q' i d * S d) + (\<Sum>d<K. q i d * S' d))
        + (\<Sum>j<B. E' i j * (\<Sum>d<K. q i d * k j d) * x j + E i j * ((\<Sum>d<K. q' i d * k j d) + (\<Sum>d<K. q i d * k' j d)) * x j
             + E i j * (\<Sum>d<K. q i d * k j d) * x' j)"
    and T': "\<And>d. d < K \<Longrightarrow> T' d = L' * S d + L * S' d + (\<Sum>i<B. l' i * k i d * x i + l i * k' i d * x i + l i * k i d * x' i)"
    and Y: "\<And>i. i < B \<Longrightarrow> Y i = l i * (\<Sum>d<K. k i d * D d) + (\<Sum>j<B. E j i * (\<Sum>d<K. q j d * k i d) * p j)"
  shows "(\<Sum>i<B. p i * out' i) + (\<Sum>d<K. D d * T' d) =
      (\<Sum>d<K. (L * D d + (\<Sum>i<B. a i * q i d * p i) - (\<Sum>i<B. a i * w i d * Y i)) * S' d)
    + (\<Sum>i<B. Y i * u' i)
    + (\<Sum>i<B. \<Sum>d<K. (a i * S d * p i + (\<Sum>j<B. E i j * p i * x j * k j d)) * q' i d)
    + (\<Sum>i<B. \<Sum>d<K. (l i * D d * x i + (\<Sum>j<B. E j i * p j * x i * q j d)) * k' i d)
    - (\<Sum>i<B. \<Sum>d<K. a i * S d * Y i * w' i d)
    + (\<Sum>i<B. a' i * (p i * (\<Sum>d<K. q i d * S d) - Y i * (\<Sum>d<K. w i d * S d)))
    + (\<Sum>i<B. \<Sum>j<B. E' i j * (\<Sum>d<K. q i d * k j d) * (p i * x j))
    + (\<Sum>i<B. l' i * (\<Sum>d<K. k i d * D d) * x i) + L' * (\<Sum>d<K. D d * S d)"
proof -
  have 1: "(\<Sum>i<B. p i * out' i) = (\<Sum>i<B. a' i * (p i * (\<Sum>d<K. q i d * S d)))
     + (\<Sum>i<B. a i * p i * (\<Sum>d<K. q' i d * S d)) + (\<Sum>i<B. a i * p i * (\<Sum>d<K. q i d * S' d))
     + (\<Sum>i<B. \<Sum>j<B. E' i j * (\<Sum>d<K. q i d * k j d) * (p i * x j))
     + (\<Sum>i<B. \<Sum>j<B. E i j * p i * x j * (\<Sum>d<K. q' i d * k j d))
     + (\<Sum>i<B. \<Sum>j<B. E i j * p i * x j * (\<Sum>d<K. q i d * k' j d))
     + (\<Sum>i<B. \<Sum>j<B. E i j * (\<Sum>d<K. q i d * k j d) * p i * x' j)"
  proof -
    have "p i * out' i = a' i * (p i * (\<Sum>d<K. q i d * S d))
     + a i * p i * (\<Sum>d<K. q' i d * S d) + a i * p i * (\<Sum>d<K. q i d * S' d)
     + (\<Sum>j<B. E' i j * (\<Sum>d<K. q i d * k j d) * (p i * x j))
     + (\<Sum>j<B. E i j * p i * x j * (\<Sum>d<K. q' i d * k j d))
     + (\<Sum>j<B. E i j * p i * x j * (\<Sum>d<K. q i d * k' j d))
     + (\<Sum>j<B. E i j * (\<Sum>d<K. q i d * k j d) * p i * x' j)" if "i < B" for i
    proof -
      have "p i * (\<Sum>j<B. E' i j * (\<Sum>d<K. q i d * k j d) * x j + E i j * ((\<Sum>d<K. q' i d * k j d) + (\<Sum>d<K. q i d * k' j d)) * x j
             + E i j * (\<Sum>d<K. q i d * k j d) * x' j)
         = (\<Sum>j<B. E' i j * (\<Sum>d<K. q i d * k j d) * (p i * x j) + E i j * p i * x j * (\<Sum>d<K. q' i d * k j d)
            + E i j * p i * x j * (\<Sum>d<K. q i d * k' j d) + E i j * (\<Sum>d<K. q i d * k j d) * p i * x' j)"
        unfolding sum_distrib_left [where r = "p i"] by (intro sum.cong refl) (simp only: algebra_simps)
      then show ?thesis unfolding out' [OF that] by (simp add: sum.distrib algebra_simps)
    qed
    then show ?thesis by (simp add: sum.distrib)
  qed
  have 2: "(\<Sum>d<K. D d * T' d) = L' * (\<Sum>d<K. D d * S d) + L * (\<Sum>d<K. D d * S' d)
     + (\<Sum>i<B. l' i * (\<Sum>d<K. k i d * D d) * x i) + (\<Sum>i<B. l i * (\<Sum>d<K. k' i d * D d) * x i)
     + (\<Sum>i<B. l i * (\<Sum>d<K. k i d * D d) * x' i)"
  proof -
    have swap: "(\<Sum>d<K. D d * (\<Sum>i<B. f i * g i d * h i)) = (\<Sum>i<B. f i * (\<Sum>d<K. g i d * D d) * h i)" for f g h
      unfolding sum_distrib_left sum_distrib_right by (subst sum.swap) (simp add: algebra_simps)
    have "D d * T' d = L' * (D d * S d) + L * (D d * S' d) + D d * (\<Sum>i<B. l' i * k i d * x i)
        + D d * (\<Sum>i<B. l i * k' i d * x i) + D d * (\<Sum>i<B. l i * k i d * x' i)" if "d < K" for d
      unfolding T' [OF that] by (simp add: sum.distrib algebra_simps)
    then have "(\<Sum>d<K. D d * T' d) = (\<Sum>d<K. L' * (D d * S d) + L * (D d * S' d) + D d * (\<Sum>i<B. l' i * k i d * x i)
        + D d * (\<Sum>i<B. l i * k' i d * x i) + D d * (\<Sum>i<B. l i * k i d * x' i))" by simp
    then show ?thesis by (simp only: sum.distrib swap sum_distrib_left [symmetric])
  qed
  have 3: "(\<Sum>i<B. \<Sum>j<B. E i j * (\<Sum>d<K. q i d * k j d) * p i * x' j) + (\<Sum>i<B. l i * (\<Sum>d<K. k i d * D d) * x' i)
     = (\<Sum>i<B. Y i * x' i)"
  proof -
    have "(\<Sum>i<B. \<Sum>j<B. E i j * (\<Sum>d<K. q i d * k j d) * p i * x' j)
       = (\<Sum>j<B. (\<Sum>i<B. E i j * (\<Sum>d<K. q i d * k j d) * p i) * x' j)"
      unfolding sum_distrib_right by (rule sum.swap)
    then show ?thesis by (simp add: Y sum.distrib [symmetric] distrib_right add.commute)
  qed
  have 4: "(\<Sum>i<B. Y i * x' i) = (\<Sum>i<B. Y i * u' i) - (\<Sum>i<B. a' i * (Y i * (\<Sum>d<K. w i d * S d)))
     - (\<Sum>i<B. a i * Y i * (\<Sum>d<K. w' i d * S d)) - (\<Sum>i<B. a i * Y i * (\<Sum>d<K. w i d * S' d))"
  proof -
    have "(\<Sum>i<B. Y i * x' i) = (\<Sum>i<B. Y i * u' i - a' i * (Y i * (\<Sum>d<K. w i d * S d))
        - a i * Y i * (\<Sum>d<K. w' i d * S d) - a i * Y i * (\<Sum>d<K. w i d * S' d))"
      by (intro sum.cong refl) (simp add: x' algebra_simps)
    then show ?thesis by (simp only: sum_subtractf)
  qed
  have 5: "(\<Sum>d<K. (L * D d + (\<Sum>i<B. a i * q i d * p i) - (\<Sum>i<B. a i * w i d * Y i)) * S' d)
     = L * (\<Sum>d<K. D d * S' d) + (\<Sum>i<B. a i * p i * (\<Sum>d<K. q i d * S' d)) - (\<Sum>i<B. a i * Y i * (\<Sum>d<K. w i d * S' d))"
  proof -
    have swap: "(\<Sum>d<K. (\<Sum>i<B. f i * g i d * h i) * S' d) = (\<Sum>i<B. f i * h i * (\<Sum>d<K. g i d * S' d))" for f g h
      unfolding sum_distrib_left sum_distrib_right by (subst sum.swap) (simp add: algebra_simps)
    have "(\<Sum>d<K. (L * D d + (\<Sum>i<B. a i * q i d * p i) - (\<Sum>i<B. a i * w i d * Y i)) * S' d)
      = (\<Sum>d<K. L * (D d * S' d)) + (\<Sum>d<K. (\<Sum>i<B. a i * q i d * p i) * S' d) - (\<Sum>d<K. (\<Sum>i<B. a i * w i d * Y i) * S' d)"
      unfolding sum.distrib [symmetric] sum_subtractf [symmetric] by (intro sum.cong refl) (simp only: algebra_simps)
    then show ?thesis by (simp only: swap sum_distrib_left [symmetric])
  qed
  have pull: "(\<Sum>d<K. (\<Sum>j<B. f j * g j d) * h d) = (\<Sum>j<B. f j * (\<Sum>d<K. g j d * h d))" for f h :: vec and g :: mat
    unfolding sum_distrib_left sum_distrib_right by (subst sum.swap) (simp add: algebra_simps)
  have 6: "(\<Sum>i<B. \<Sum>d<K. (a i * S d * p i + (\<Sum>j<B. E i j * p i * x j * k j d)) * q' i d)
     = (\<Sum>i<B. a i * p i * (\<Sum>d<K. q' i d * S d)) + (\<Sum>i<B. \<Sum>j<B. E i j * p i * x j * (\<Sum>d<K. q' i d * k j d))"
  proof -
    have "(\<Sum>d<K. (a i * S d * p i + (\<Sum>j<B. E i j * p i * x j * k j d)) * q' i d)
       = a i * p i * (\<Sum>d<K. q' i d * S d) + (\<Sum>j<B. E i j * p i * x j * (\<Sum>d<K. q' i d * k j d))" for i
    proof -
      have "(\<Sum>d<K. (a i * S d * p i + (\<Sum>j<B. E i j * p i * x j * k j d)) * q' i d)
         = (\<Sum>d<K. a i * p i * (q' i d * S d)) + (\<Sum>d<K. (\<Sum>j<B. (E i j * p i * x j) * k j d) * q' i d)"
        unfolding sum.distrib [symmetric] by (intro sum.cong refl) (simp only: algebra_simps)
      also have "(\<Sum>d<K. (\<Sum>j<B. (E i j * p i * x j) * k j d) * q' i d) = (\<Sum>j<B. (E i j * p i * x j) * (\<Sum>d<K. k j d * q' i d))"
        by (rule pull)
      finally show ?thesis by (simp only: sum_distrib_left [symmetric] mult.commute)
    qed
    then show ?thesis by (simp only: sum.distrib)
  qed
  have 7: "(\<Sum>i<B. \<Sum>d<K. (l i * D d * x i + (\<Sum>j<B. E j i * p j * x i * q j d)) * k' i d)
     = (\<Sum>i<B. l i * (\<Sum>d<K. k' i d * D d) * x i) + (\<Sum>i<B. \<Sum>j<B. E i j * p i * x j * (\<Sum>d<K. q i d * k' j d))"
  proof -
    have "(\<Sum>d<K. (l i * D d * x i + (\<Sum>j<B. E j i * p j * x i * q j d)) * k' i d)
       = l i * (\<Sum>d<K. k' i d * D d) * x i + (\<Sum>j<B. E j i * p j * x i * (\<Sum>d<K. q j d * k' i d))" for i
    proof -
      have "(\<Sum>d<K. (l i * D d * x i + (\<Sum>j<B. E j i * p j * x i * q j d)) * k' i d)
         = (\<Sum>d<K. l i * x i * (k' i d * D d)) + (\<Sum>d<K. (\<Sum>j<B. (E j i * p j * x i) * q j d) * k' i d)"
        unfolding sum.distrib [symmetric] by (intro sum.cong refl) (simp only: algebra_simps)
      also have "(\<Sum>d<K. (\<Sum>j<B. (E j i * p j * x i) * q j d) * k' i d) = (\<Sum>j<B. (E j i * p j * x i) * (\<Sum>d<K. q j d * k' i d))"
        by (rule pull)
      also have "(\<Sum>d<K. l i * x i * (k' i d * D d)) = l i * (\<Sum>d<K. k' i d * D d) * x i"
        unfolding sum_distrib_left sum_distrib_right by (intro sum.cong refl) (simp only: algebra_simps)
      finally show ?thesis .
    qed
    then have "(\<Sum>i<B. \<Sum>d<K. (l i * D d * x i + (\<Sum>j<B. E j i * p j * x i * q j d)) * k' i d)
       = (\<Sum>i<B. l i * (\<Sum>d<K. k' i d * D d) * x i) + (\<Sum>i<B. \<Sum>j<B. E j i * p j * x i * (\<Sum>d<K. q j d * k' i d))"
      by (simp only: sum.distrib)
    also have "(\<Sum>i<B. \<Sum>j<B. E j i * p j * x i * (\<Sum>d<K. q j d * k' i d)) = (\<Sum>i<B. \<Sum>j<B. E i j * p i * x j * (\<Sum>d<K. q i d * k' j d))"
      by (rule sum.swap)
    finally show ?thesis .
  qed
  have 8: "(\<Sum>i<B. \<Sum>d<K. a i * S d * Y i * w' i d) = (\<Sum>i<B. a i * Y i * (\<Sum>d<K. w' i d * S d))"
    unfolding sum_distrib_left by (intro sum.cong refl) (simp only: algebra_simps)
  have 9: "(\<Sum>i<B. a' i * (p i * (\<Sum>d<K. q i d * S d) - Y i * (\<Sum>d<K. w i d * S d)))
     = (\<Sum>i<B. a' i * (p i * (\<Sum>d<K. q i d * S d))) - (\<Sum>i<B. a' i * (Y i * (\<Sum>d<K. w i d * S d)))"
    by (simp only: right_diff_distrib sum_subtractf)
  show ?thesis
    unfolding 5 6 7 8 9 1 2 using 3 4 by linarith
qed

section \<open>A triangular solve\<close>

context wy_solver begin

lemma unique_solution:
  assumes a: "strict_lower a" and y: "\<And>i. i < n \<Longrightarrow> y i = b i + (\<Sum>m<i. a i m * y m)"
  shows "i < n \<Longrightarrow> y i = (\<Sum>l<n. add_eye (solve n a) i l * b l)"
proof (induction i rule: less_induct)
  case (less i)
  have "(\<Sum>m<i. a i m * y m) = (\<Sum>m<i. a i m * (\<Sum>l<n. add_eye (solve n a) m l * b l))"
    using less by (intro sum.cong) auto
  then show ?case
    using y [OF less.prems] apply_rec [OF a less.prems, of "\<lambda>l _. b l" 0] by (simp add: dot_def)
qed

lemma solve_derivative:
  fixes a :: "real \<Rightarrow> mat" and b y :: "real \<Rightarrow> vec" and a' :: mat and b' :: vec
  assumes a: "\<And>s. strict_lower (a s)"
    and y: "\<And>s i. i < n \<Longrightarrow> y s i = b s i + (\<Sum>m<i. a s i m * y s m)"
    and Da: "\<And>i m. m < i \<Longrightarrow> i < n \<Longrightarrow> ((\<lambda>s. a s i m) has_real_derivative a' i m) (at x)"
    and Db: "\<And>i. i < n \<Longrightarrow> ((\<lambda>s. b s i) has_real_derivative b' i) (at x)"
  defines "y' \<equiv> \<lambda>i. \<Sum>l<n. add_eye (solve n (a x)) i l * (b' l + (\<Sum>m<l. a' l m * y x m))"
  shows "i < n \<Longrightarrow> ((\<lambda>s. y s i) has_real_derivative y' i) (at x)"
proof (induction i rule: less_induct)
  case (less i)
  have y': "y' i = b' i + (\<Sum>m<i. a' i m * y x m) + (\<Sum>m<i. a x i m * y' m)"
    using apply_rec [OF a less.prems, of x "\<lambda>l _. b' l + (\<Sum>m<l. a' l m * y x m)" 0] by (simp add: dot_def y'_def)
  have "((\<lambda>s. b s i + (\<Sum>m<i. a s i m * y s m)) has_real_derivative
      b' i + (\<Sum>m<i. a' i m * y x m + y' m * a x i m)) (at x)"
    using less by (intro DERIV_add DERIV_sum DERIV_mult Db Da) auto
  moreover have "(\<lambda>s. y s i) = (\<lambda>s. b s i + (\<Sum>m<i. a s i m * y s m))" using y [OF less.prems] by simp
  ultimately show ?case by (simp add: y' sum.distrib algebra_simps)
qed

text \<open>The transposed solution carries an upstream gradient back through the solve.\<close>

lemma solve_adjoint:
  fixes dy b' :: vec and a a' :: mat and y :: vec
  shows "(\<Sum>i<n. dy i * (\<Sum>l<n. add_eye (solve n a) i l * (b' l + (\<Sum>m<l. a' l m * y m))))
    = (\<Sum>l<n. (\<Sum>i<n. add_eye (solve n a) i l * dy i) * b' l)
      + (\<Sum>l<n. \<Sum>m<l. a' l m * ((\<Sum>i<n. add_eye (solve n a) i l * dy i) * y m))"
proof -
  let ?A = "add_eye (solve n a)" and ?r = "\<lambda>l. b' l + (\<Sum>m<l. a' l m * y m)"
  have "(\<Sum>i<n. dy i * (\<Sum>l<n. ?A i l * ?r l)) = (\<Sum>l<n. (\<Sum>i<n. ?A i l * dy i) * ?r l)"
    unfolding sum_distrib_left sum_distrib_right by (subst sum.swap) (intro sum.cong refl, simp only: algebra_simps)
  also have "\<dots> = (\<Sum>l<n. (\<Sum>i<n. ?A i l * dy i) * b' l) + (\<Sum>l<n. (\<Sum>i<n. ?A i l * dy i) * (\<Sum>m<l. a' l m * y m))"
    by (simp only: distrib_left sum.distrib)
  also have "(\<Sum>l<n. (\<Sum>i<n. ?A i l * dy i) * (\<Sum>m<l. a' l m * y m))
      = (\<Sum>l<n. \<Sum>m<l. a' l m * ((\<Sum>i<n. ?A i l * dy i) * y m))"
    unfolding sum_distrib_left by (intro sum.cong refl) (simp only: algebra_simps)
  finally show ?thesis .
qed

text \<open>
  Masking the outer product of upstream gradient and right-hand side to its strict lower part
  loses nothing below the diagonal.
\<close>

lemma masked_sandwich:
  assumes a: "strict_lower a" and lm: "m < l" "l < n"
    and y: "\<And>c. c < C \<Longrightarrow> y c = (\<Sum>r<n. add_eye (solve n a) m r * b r c)"
  shows "(\<Sum>p<n. add_eye (solve n a) p l * (\<Sum>r<n. (if r < p then \<Sum>c<C. dy p c * b r c else 0) * add_eye (solve n a) m r))
    = (\<Sum>c<C. (\<Sum>p<n. add_eye (solve n a) p l * dy p c) * y c)"
proof -
  let ?A = "add_eye (solve n a)"
  have "?A p l * (\<Sum>r<n. (if r < p then \<Sum>c<C. dy p c * b r c else 0) * ?A m r)
      = ?A p l * (\<Sum>r<n. (\<Sum>c<C. dy p c * b r c) * ?A m r)" if "p < n" for p
  proof (cases "p < l")
    case True
    then show ?thesis using eye_upper [OF a that] by simp
  next
    case False
    have "(if r < p then \<Sum>c<C. dy p c * b r c else 0) * ?A m r = (\<Sum>c<C. dy p c * b r c) * ?A m r" for r
      using eye_upper [OF a, of m n r] False lm by (cases "r < p") auto
    then show ?thesis by (simp only:)
  qed
  then have "(\<Sum>p<n. ?A p l * (\<Sum>r<n. (if r < p then \<Sum>c<C. dy p c * b r c else 0) * ?A m r))
      = (\<Sum>p<n. ?A p l * (\<Sum>r<n. (\<Sum>c<C. dy p c * b r c) * ?A m r))" by (intro sum.cong refl) (simp only: lessThan_iff)
  also have "\<dots> = (\<Sum>p<n. \<Sum>c<C. ?A p l * dy p c * y c)"
  proof (rule sum.cong [OF refl])
    fix p
    have "(\<Sum>r<n. (\<Sum>c<C. dy p c * b r c) * ?A m r) = (\<Sum>c<C. dy p c * (\<Sum>r<n. ?A m r * b r c))"
      unfolding sum_distrib_left sum_distrib_right by (subst sum.swap) (intro sum.cong refl, simp only: algebra_simps)
    also have "\<dots> = (\<Sum>c<C. dy p c * y c)" by (intro sum.cong refl) (simp add: y)
    finally show "?A p l * (\<Sum>r<n. (\<Sum>c<C. dy p c * b r c) * ?A m r) = (\<Sum>c<C. ?A p l * dy p c * y c)"
      by (simp add: sum_distrib_left algebra_simps)
  qed
  also have "\<dots> = (\<Sum>c<C. (\<Sum>p<n. ?A p l * dy p c) * y c)"
    unfolding sum_distrib_right by (rule sum.swap)
  finally show ?thesis .
qed

end

section \<open>Differentiable changes of the inputs\<close>

definition curve :: "(real \<Rightarrow> mat) \<Rightarrow> mat \<Rightarrow> bool" where
  "curve f f' \<longleftrightarrow> (\<forall>i j. ((\<lambda>s. f s i j) has_real_derivative f' i j) (at 0))"

definition curve1 :: "(real \<Rightarrow> vec) \<Rightarrow> vec \<Rightarrow> bool" where
  "curve1 f f' \<longleftrightarrow> (\<forall>i. ((\<lambda>s. f s i) has_real_derivative f' i) (at 0))"

lemma curveD: "curve f f' \<Longrightarrow> ((\<lambda>s. f s i j) has_real_derivative f' i j) (at 0)"
  and curve1D: "curve1 g g' \<Longrightarrow> ((\<lambda>s. g s i) has_real_derivative g' i) (at 0)"
  by (simp_all add: curve_def curve1_def)

lemma curve_pad: "curve f f' \<Longrightarrow> curve (\<lambda>s. pad_rows T (f s)) (pad_rows T f')"
  "curve1 g g' \<Longrightarrow> curve1 (\<lambda>s. pad_vec T (g s)) (pad_vec T g')"
  by (simp_all add: curve_def curve1_def pad_rows_def pad_vec_def)

lemma DERIV_dot:
  assumes "\<And>d. d < K \<Longrightarrow> ((\<lambda>s. f s d) has_real_derivative f' d) (at x)"
    and "\<And>d. d < K \<Longrightarrow> ((\<lambda>s. g s d) has_real_derivative g' d) (at x)"
  shows "((\<lambda>s. \<Sum>d<K. f s d * g s d) has_real_derivative (\<Sum>d<K. f' d * g x d) + (\<Sum>d<K. f x d * g' d)) (at x)"
proof -
  have "((\<lambda>s. \<Sum>d<K. f s d * g s d) has_real_derivative (\<Sum>d<K. f' d * g x d + g' d * f x d)) (at x)"
    by (intro DERIV_sum DERIV_mult assms) auto
  then show ?thesis by (simp add: sum.distrib mult.commute)
qed

lemma solve_curve:
  fixes M :: "real \<Rightarrow> mat" and M' x' :: mat and x :: "real \<Rightarrow> mat" and b :: "real \<Rightarrow> vec" and b' :: vec and n BT :: nat
  assumes M: "\<And>i j. j < i \<Longrightarrow> i < BT \<Longrightarrow> ((\<lambda>s. M s i j) has_real_derivative M' i j) (at 0)"
    and x: "curve x x'" and b: "curve1 b b'"
  defines "A \<equiv> chunk_solution BT (M 0)" and "y \<equiv> \<lambda>s. dot BT (chunk_solution BT (M s)) (scaled_rows BT (x s) (b s) n)"
  obtains y' where "\<And>i c. i < BT \<Longrightarrow> ((\<lambda>s. y s i c) has_real_derivative y' i c) (at 0)"
    and "\<And>dy C. (\<Sum>i<BT. \<Sum>c<C. dy i c * y' i c)
      = (\<Sum>l<BT. \<Sum>c<C. (\<Sum>i<BT. A i l * dy i c) * (x' (n * BT + l) c * b 0 (n * BT + l) + x 0 (n * BT + l) c * b' (n * BT + l)))
        - (\<Sum>l<BT. \<Sum>m<l. M' l m * (\<Sum>c<C. (\<Sum>i<BT. A i l * dy i c) * y 0 m c))"
proof
  let ?b = "\<lambda>l c. x' (n * BT + l) c * b 0 (n * BT + l) + x 0 (n * BT + l) c * b' (n * BT + l)"
  define y' where "y' = (\<lambda>i c. \<Sum>l<BT. A i l * (?b l c + (\<Sum>m<l. - M' l m * y 0 m c)))"
  have rec: "y s i c = scaled_rows BT (x s) (b s) n i c + (\<Sum>m<i. neg_strict_lower (M s) i m * y s m c)" if "i < BT" for s i c
    unfolding y_def chunk_solution_def by (rule tl_wy.apply_rec [OF neg_strict_lower_strict that])
  show "((\<lambda>s. y s i c) has_real_derivative y' i c) (at 0)" if "i < BT" for i c
    unfolding y'_def A_def chunk_solution_def
  proof (rule tl_wy.solve_derivative [OF neg_strict_lower_strict rec _ _ that])
    show "((\<lambda>s. neg_strict_lower (M s) i m) has_real_derivative - M' i m) (at 0)" if "m < i" "i < BT" for i m
      using DERIV_minus [OF M [OF that]] that by (simp add: neg_strict_lower_def)
    show "((\<lambda>s. scaled_rows BT (x s) (b s) n i c) has_real_derivative ?b i c) (at 0)" for i
      using DERIV_mult [OF curveD [OF x] curve1D [OF b], of "n * BT + i" c "n * BT + i"]
      by (simp add: scaled_rows_def algebra_simps)
  qed
  fix dy :: mat and C :: nat
  let ?z = "\<lambda>l c. \<Sum>i<BT. A i l * dy i c"
  have "(\<Sum>i<BT. \<Sum>c<C. dy i c * y' i c) = (\<Sum>c<C. \<Sum>i<BT. dy i c * y' i c)" by (rule sum.swap)
  also have "\<dots> = (\<Sum>c<C. (\<Sum>l<BT. ?z l c * ?b l c) + (\<Sum>l<BT. \<Sum>m<l. - M' l m * (?z l c * y 0 m c)))"
    unfolding y'_def A_def chunk_solution_def by (intro sum.cong refl tl_wy.solve_adjoint)
  also have "\<dots> = (\<Sum>l<BT. \<Sum>c<C. ?z l c * ?b l c) + (\<Sum>l<BT. \<Sum>c<C. \<Sum>m<l. - M' l m * (?z l c * y 0 m c))"
    unfolding sum.distrib by (intro arg_cong2 [where f = "(+)"] sum.swap)
  also have "(\<Sum>l<BT. \<Sum>c<C. \<Sum>m<l. - M' l m * (?z l c * y 0 m c)) = - (\<Sum>l<BT. \<Sum>m<l. M' l m * (\<Sum>c<C. ?z l c * y 0 m c))"
  proof -
    have "(\<Sum>c<C. \<Sum>m<l. - M' l m * (?z l c * y 0 m c)) = - (\<Sum>m<l. M' l m * (\<Sum>c<C. ?z l c * y 0 m c))" for l
      unfolding sum_distrib_left by (subst sum.swap) (simp add: sum_negf)
    then show ?thesis by (simp add: sum_negf)
  qed
  finally show "(\<Sum>i<BT. \<Sum>c<C. dy i c * y' i c) = (\<Sum>l<BT. \<Sum>c<C. ?z l c * ?b l c)
      - (\<Sum>l<BT. \<Sum>m<l. M' l m * (\<Sum>c<C. ?z l c * y 0 m c))" by simp
qed

section \<open>The WY representation of a chunk\<close>

text \<open>
  \<open>back_rows\<close> is the transposed solution applied to upstream gradients, \<open>solve_grad\<close> the gradient
  of the strictly lower triangular matrix that was solved.
\<close>

definition back_rows :: "nat \<Rightarrow> mat \<Rightarrow> mat \<Rightarrow> mat" where
  "back_rows BT A dy = (\<lambda>l c. \<Sum>i<BT. A i l * dy i c)"

definition solve_grad :: "nat \<Rightarrow> nat \<Rightarrow> mat \<Rightarrow> mat \<Rightarrow> mat \<Rightarrow> mat" where
  "solve_grad BT C A dy y = (\<lambda>l m. if m < l then - (\<Sum>c<C. back_rows BT A dy l c * y m c) else 0)"

text \<open>The gradients of one chunk, from the upstream gradients \<open>dw\<close> and \<open>du\<close>; \<open>e\<close> are the decays.\<close>

definition gram_grad :: "mat \<Rightarrow> mat \<Rightarrow> mat \<Rightarrow> mat" where
  "gram_grad dMw dMu e = (\<lambda>i j. dMw i j + dMu i j * e i j)"

definition wy_dk :: "nat \<Rightarrow> mat \<Rightarrow> vec \<Rightarrow> mat \<Rightarrow> mat \<Rightarrow> mat" where
  "wy_dk BT k b Zw G = (\<lambda>i d. Zw i d * b i + (\<Sum>m<BT. G i m * k m d) * b i + (\<Sum>p<BT. G p i * (k p d * b p)))"

definition wy_db :: "nat \<Rightarrow> nat \<Rightarrow> nat \<Rightarrow> mat \<Rightarrow> mat \<Rightarrow> mat \<Rightarrow> mat \<Rightarrow> mat \<Rightarrow> vec" where
  "wy_db BT K V k v Zw Zu G = (\<lambda>i. (\<Sum>d<K. Zw i d * k i d) + (\<Sum>e<V. Zu i e * v i e) + (\<Sum>d<K. (\<Sum>m<BT. G i m * k m d) * k i d))"

definition wy_dc :: "nat \<Rightarrow> mat \<Rightarrow> vec" where
  "wy_dc BT P = (\<lambda>i. (\<Sum>j<BT. P i j) - (\<Sum>j<BT. P j i))"

lemma sum_tri:
  fixes f :: mat
  shows "(\<And>l m. \<not> m < l \<Longrightarrow> f l m = 0) \<Longrightarrow> (\<Sum>l<n. \<Sum>m<l. f l m) = (\<Sum>l<n. \<Sum>m<n. f l m)"
proof (rule sum.cong [OF refl])
  fix l assume z: "\<And>l m. \<not> m < l \<Longrightarrow> f l m = 0" and l: "l \<in> {..<n}"
  show "(\<Sum>m<l. f l m) = (\<Sum>m<n. f l m)"
    using l z by (intro sum.mono_neutral_left) auto
qed

lemma gram_pairing:
  fixes G k k' :: mat and b b' :: vec
  shows "(\<Sum>l<n. \<Sum>m<n. (b' l * (\<Sum>d<K. k l d * k m d) + b l * ((\<Sum>d<K. k' l d * k m d) + (\<Sum>d<K. k l d * k' m d))) * G l m)
    = (\<Sum>l<n. b' l * (\<Sum>d<K. (\<Sum>m<n. G l m * k m d) * k l d))
      + (\<Sum>l<n. \<Sum>d<K. (\<Sum>m<n. G l m * k m d) * b l * k' l d)
      + (\<Sum>l<n. \<Sum>d<K. (\<Sum>p<n. G p l * (k p d * b p)) * k' l d)"
proof -
  have pull: "(\<Sum>m<n. f m * (\<Sum>d<K. g d * h m d)) = (\<Sum>d<K. (\<Sum>m<n. f m * h m d) * g d)" for f g :: vec and h :: mat
    unfolding sum_distrib_left sum_distrib_right by (subst sum.swap) (simp add: algebra_simps)
  have "(\<Sum>l<n. \<Sum>m<n. (b' l * (\<Sum>d<K. k l d * k m d) + b l * ((\<Sum>d<K. k' l d * k m d) + (\<Sum>d<K. k l d * k' m d))) * G l m)
    = (\<Sum>l<n. b' l * (\<Sum>m<n. G l m * (\<Sum>d<K. k l d * k m d)))
      + (\<Sum>l<n. b l * (\<Sum>m<n. G l m * (\<Sum>d<K. k' l d * k m d))) + (\<Sum>l<n. \<Sum>m<n. b l * G l m * (\<Sum>d<K. k l d * k' m d))"
  proof -
    have split: "(x + y * (z + z')) * g = x * g + y * (g * z) + y * g * z'" for x y z z' g :: real by (simp add: algebra_simps)
    have fold: "(\<Sum>m<n. y * f m) = y * (\<Sum>m<n. f m)" for y and f :: vec by (simp add: sum_distrib_left)
    have "(b' l * x) * g = b' l * (g * x)" for l x g by simp
    then show ?thesis by (simp only: split sum.distrib fold)
  qed
  also have "(\<Sum>l<n. b' l * (\<Sum>m<n. G l m * (\<Sum>d<K. k l d * k m d))) = (\<Sum>l<n. b' l * (\<Sum>d<K. (\<Sum>m<n. G l m * k m d) * k l d))"
    by (simp only: pull)
  also have "(\<Sum>l<n. b l * (\<Sum>m<n. G l m * (\<Sum>d<K. k' l d * k m d))) = (\<Sum>l<n. \<Sum>d<K. (\<Sum>m<n. G l m * k m d) * b l * k' l d)"
    unfolding pull by (intro sum.cong refl, subst sum_distrib_left, intro sum.cong refl) (simp only: ac_simps)
  also have "(\<Sum>l<n. \<Sum>m<n. b l * G l m * (\<Sum>d<K. k l d * k' m d)) = (\<Sum>m<n. \<Sum>d<K. (\<Sum>p<n. G p m * (k p d * b p)) * k' m d)"
  proof -
    have "(\<Sum>l<n. \<Sum>m<n. b l * G l m * (\<Sum>d<K. k l d * k' m d)) = (\<Sum>m<n. \<Sum>l<n. b l * G l m * (\<Sum>d<K. k' m d * k l d))"
      by (subst sum.swap) (simp only: mult.commute)
    also have "\<dots> = (\<Sum>m<n. \<Sum>d<K. (\<Sum>p<n. b p * G p m * k p d) * k' m d)" by (simp only: pull)
    finally show ?thesis by (simp add: algebra_simps)
  qed
  finally show ?thesis .
qed

lemma decay_pairing:
  fixes P :: mat and c' :: vec
  shows "(\<Sum>l<n. \<Sum>m<n. P l m * (c' l - c' m)) = (\<Sum>l<n. wy_dc n P l * c' l)"
proof -
  have "(\<Sum>l<n. \<Sum>m<n. P l m * (c' l - c' m)) = (\<Sum>l<n. \<Sum>m<n. P l m * c' l) - (\<Sum>l<n. \<Sum>m<n. P l m * c' m)"
    by (simp add: right_diff_distrib sum_subtractf)
  also have "(\<Sum>l<n. \<Sum>m<n. P l m * c' m) = (\<Sum>m<n. \<Sum>l<n. P l m * c' m)" by (rule sum.swap)
  finally show ?thesis by (simp add: wy_dc_def left_diff_distrib sum_subtractf sum_distrib_right)
qed

lemma chunk_gram_deriv:
  assumes k: "curve k k'" and b: "curve1 b b'"
  shows "((\<lambda>s. chunk_gram K BT (k s) (b s) n i j) has_real_derivative
      b' (n * BT + i) * (\<Sum>d<K. k 0 (n * BT + i) d * k 0 (n * BT + j) d)
      + b 0 (n * BT + i) * ((\<Sum>d<K. k' (n * BT + i) d * k 0 (n * BT + j) d) + (\<Sum>d<K. k 0 (n * BT + i) d * k' (n * BT + j) d))) (at 0)"
  unfolding chunk_gram_def
  by (rule DERIV_cong [OF DERIV_mult [OF curve1D [OF b] DERIV_dot [OF curveD [OF k] curveD [OF k]]]]) (simp add: algebra_simps)

lemma wy_adjoint:
  fixes k v :: "real \<Rightarrow> mat" and b gt :: "real \<Rightarrow> vec" and k' v' :: mat and b' c' :: vec and n BT K V :: nat
  assumes k: "curve k k'" and v: "curve v v'" and b: "curve1 b b'"
    and e: "\<And>i j. i < BT \<Longrightarrow> j < BT \<Longrightarrow> ((\<lambda>s. exp2 (gt s (n * BT + i) - gt s (n * BT + j))) has_real_derivative
        exp2 (gt 0 (n * BT + i) - gt 0 (n * BT + j)) * (c' i - c' j)) (at 0)"
    and Aw: "Aw = chunk_solution BT (chunk_gram K BT (k 0) (b 0) n)"
    and Au: "Au = chunk_solution BT (decayed_gram K BT (k 0) (b 0) (gt 0) n)"
    and wn: "wn = chunk_view BT n (wy_w K BT (k 0) (b 0))" and un: "un = chunk_view BT n (wy_u K BT (k 0) (v 0) (b 0) (gt 0))"
    and E: "E = (\<lambda>i j. exp2 (gt 0 (n * BT + i) - gt 0 (n * BT + j)))"
  obtains w' u' :: mat where
    "\<And>i d. i < BT \<Longrightarrow> ((\<lambda>s. wy_w K BT (k s) (b s) (n * BT + i) d) has_real_derivative w' i d) (at 0)"
    and "\<And>i d. i < BT \<Longrightarrow> ((\<lambda>s. wy_u K BT (k s) (v s) (b s) (gt s) (n * BT + i) d) has_real_derivative u' i d) (at 0)"
    and "\<And>dw du dMw dMu G P. dMw = solve_grad BT K Aw dw wn \<Longrightarrow> dMu = solve_grad BT V Au du un \<Longrightarrow> G = gram_grad dMw dMu E \<Longrightarrow>
      P = (\<lambda>i j. dMu i j * E i j * chunk_gram K BT (k 0) (b 0) n i j) \<Longrightarrow>
      (\<Sum>i<BT. \<Sum>d<K. dw i d * w' i d) + (\<Sum>i<BT. \<Sum>d<V. du i d * u' i d)
      = (\<Sum>i<BT. \<Sum>d<K. wy_dk BT (chunk_view BT n (k 0)) (chunk_view BT n (b 0)) (back_rows BT Aw dw) G i d * chunk_view BT n k' i d)
        + (\<Sum>i<BT. \<Sum>d<V. back_rows BT Au du i d * chunk_view BT n (b 0) i * chunk_view BT n v' i d)
        + (\<Sum>i<BT. wy_db BT K V (chunk_view BT n (k 0)) (chunk_view BT n (v 0)) (back_rows BT Aw dw) (back_rows BT Au du) G i * chunk_view BT n b' i)
        + (\<Sum>i<BT. wy_dc BT P i * c' i)"
proof -
  define kn where "kn = chunk_view BT n (k 0)"
  define vn where "vn = chunk_view BT n (v 0)"
  define bn where "bn = chunk_view BT n (b 0)"
  define k1 where "k1 = chunk_view BT n k'"
  define v1 where "v1 = chunk_view BT n v'"
  define b1 where "b1 = chunk_view BT n b'"
  note loc = kn_def vn_def bn_def k1_def v1_def b1_def chunk_view_def
  define M' where "M' = (\<lambda>l m. b1 l * (\<Sum>d<K. kn l d * kn m d) + bn l * ((\<Sum>d<K. k1 l d * kn m d) + (\<Sum>d<K. kn l d * k1 m d)))"
  define M0 where "M0 = chunk_gram K BT (k 0) (b 0) n"
  have Mw: "((\<lambda>s. chunk_gram K BT (k s) (b s) n i j) has_real_derivative M' i j) (at 0)" for i j
    using chunk_gram_deriv [OF k b, of K BT n i j] by (simp add: M'_def loc)
  have Mu: "((\<lambda>s. decayed_gram K BT (k s) (b s) (gt s) n i j) has_real_derivative M' i j * E i j + M0 i j * E i j * (c' i - c' j)) (at 0)"
    if "j < i" "i < BT" for i j
    unfolding decayed_gram_def
    by (rule DERIV_cong [OF DERIV_mult [OF Mw e]]) (use that in \<open>simp_all add: E M0_def algebra_simps\<close>)
  obtain w' where w': "\<And>i c. i < BT \<Longrightarrow> ((\<lambda>s. dot BT (chunk_solution BT (chunk_gram K BT (k s) (b s) n)) (scaled_rows BT (k s) (b s) n) i c)
        has_real_derivative w' i c) (at 0)"
    and wa: "\<And>dy C. (\<Sum>i<BT. \<Sum>c<C. dy i c * w' i c)
      = (\<Sum>l<BT. \<Sum>c<C. (\<Sum>i<BT. Aw i l * dy i c) * (k' (n * BT + l) c * b 0 (n * BT + l) + k 0 (n * BT + l) c * b' (n * BT + l)))
        - (\<Sum>l<BT. \<Sum>m<l. M' l m * (\<Sum>c<C. (\<Sum>i<BT. Aw i l * dy i c) * dot BT Aw (scaled_rows BT (k 0) (b 0) n) m c))"
    using solve_curve [where M = "\<lambda>s. chunk_gram K BT (k s) (b s) n" and BT = BT and n = n, OF Mw k b] unfolding Aw by blast
  obtain u' where u': "\<And>i c. i < BT \<Longrightarrow> ((\<lambda>s. dot BT (chunk_solution BT (decayed_gram K BT (k s) (b s) (gt s) n)) (scaled_rows BT (v s) (b s) n) i c)
        has_real_derivative u' i c) (at 0)"
    and ua: "\<And>dy C. (\<Sum>i<BT. \<Sum>c<C. dy i c * u' i c)
      = (\<Sum>l<BT. \<Sum>c<C. (\<Sum>i<BT. Au i l * dy i c) * (v' (n * BT + l) c * b 0 (n * BT + l) + v 0 (n * BT + l) c * b' (n * BT + l)))
        - (\<Sum>l<BT. \<Sum>m<l. (M' l m * E l m + M0 l m * E l m * (c' l - c' m))
             * (\<Sum>c<C. (\<Sum>i<BT. Au i l * dy i c) * dot BT Au (scaled_rows BT (v 0) (b 0) n) m c))"
    using solve_curve [where M = "\<lambda>s. decayed_gram K BT (k s) (b s) (gt s) n" and BT = BT and n = n, OF Mu v b] unfolding Au by blast
  have wv: "dot BT Aw (scaled_rows BT (k 0) (b 0) n) m c = wn m c" if "m < BT" for m c
    using that by (simp add: wn chunk_view_def wy_w_def Aw)
  have uv: "dot BT Au (scaled_rows BT (v 0) (b 0) n) m c = un m c" if "m < BT" for m c
    using that by (simp add: un chunk_view_def wy_u_def Au)
  show thesis
  proof (rule that)
    show "((\<lambda>s. wy_w K BT (k s) (b s) (n * BT + i) d) has_real_derivative w' i d) (at 0)"
      "((\<lambda>s. wy_u K BT (k s) (v s) (b s) (gt s) (n * BT + i) d) has_real_derivative u' i d) (at 0)" if "i < BT" for i d
      using w' [OF that] u' [OF that] that by (simp_all add: wy_w_def wy_u_def)
    fix dw du dMw dMu G P :: mat
    assume d: "dMw = solve_grad BT K Aw dw wn" "dMu = solve_grad BT V Au du un" "G = gram_grad dMw dMu E"
      "P = (\<lambda>i j. dMu i j * E i j * chunk_gram K BT (k 0) (b 0) n i j)"
    let ?Zw = "back_rows BT Aw dw" and ?Zu = "back_rows BT Au du"
    have W: "(\<Sum>i<BT. \<Sum>c<K. dw i c * w' i c) = (\<Sum>l<BT. \<Sum>c<K. ?Zw l c * (k1 l c * bn l + kn l c * b1 l)) + (\<Sum>l<BT. \<Sum>m<BT. M' l m * dMw l m)"
    proof -
      have "(\<Sum>l<BT. \<Sum>m<l. M' l m * (\<Sum>c<K. (\<Sum>i<BT. Aw i l * dw i c) * dot BT Aw (scaled_rows BT (k 0) (b 0) n) m c))
          = - (\<Sum>l<BT. \<Sum>m<l. M' l m * dMw l m)"
        unfolding sum_negf [symmetric] by (intro sum.cong refl) (simp add: wv d(1) solve_grad_def back_rows_def)
      also have "(\<Sum>l<BT. \<Sum>m<l. M' l m * dMw l m) = (\<Sum>l<BT. \<Sum>m<BT. M' l m * dMw l m)"
        by (rule sum_tri) (simp add: d(1) solve_grad_def)
      finally show ?thesis unfolding wa by (simp add: back_rows_def loc)
    qed
    have U: "(\<Sum>i<BT. \<Sum>c<V. du i c * u' i c) = (\<Sum>l<BT. \<Sum>c<V. ?Zu l c * (v1 l c * bn l + vn l c * b1 l))
        + (\<Sum>l<BT. \<Sum>m<BT. (M' l m * E l m + M0 l m * E l m * (c' l - c' m)) * dMu l m)"
    proof -
      have "(\<Sum>l<BT. \<Sum>m<l. (M' l m * E l m + M0 l m * E l m * (c' l - c' m))
             * (\<Sum>c<V. (\<Sum>i<BT. Au i l * du i c) * dot BT Au (scaled_rows BT (v 0) (b 0) n) m c))
          = - (\<Sum>l<BT. \<Sum>m<l. (M' l m * E l m + M0 l m * E l m * (c' l - c' m)) * dMu l m)"
        unfolding sum_negf [symmetric] by (intro sum.cong refl) (simp add: uv d(2) solve_grad_def back_rows_def)
      also have "(\<Sum>l<BT. \<Sum>m<l. (M' l m * E l m + M0 l m * E l m * (c' l - c' m)) * dMu l m)
          = (\<Sum>l<BT. \<Sum>m<BT. (M' l m * E l m + M0 l m * E l m * (c' l - c' m)) * dMu l m)"
        by (rule sum_tri) (simp add: d(2) solve_grad_def)
      finally show ?thesis unfolding ua by (simp add: back_rows_def loc)
    qed
    have mix: "(\<Sum>l<BT. \<Sum>m<BT. M' l m * dMw l m) + (\<Sum>l<BT. \<Sum>m<BT. (M' l m * E l m + M0 l m * E l m * (c' l - c' m)) * dMu l m)
        = (\<Sum>l<BT. \<Sum>m<BT. M' l m * G l m) + (\<Sum>l<BT. \<Sum>m<BT. P l m * (c' l - c' m))"
      unfolding sum.distrib [symmetric] by (intro sum.cong refl) (simp add: d(3,4) gram_grad_def M0_def algebra_simps)
    have gram: "(\<Sum>l<BT. \<Sum>m<BT. M' l m * G l m) = (\<Sum>l<BT. b1 l * (\<Sum>d<K. (\<Sum>m<BT. G l m * kn m d) * kn l d))
      + (\<Sum>l<BT. \<Sum>d<K. (\<Sum>m<BT. G l m * kn m d) * bn l * k1 l d)
      + (\<Sum>l<BT. \<Sum>d<K. (\<Sum>p<BT. G p l * (kn p d * bn p)) * k1 l d)"
      unfolding M'_def by (rule gram_pairing)
    have split: "(\<Sum>l<BT. \<Sum>c<C. Z l c * (x1 l c * bn l + x l c * b1 l)) = (\<Sum>l<BT. \<Sum>c<C. Z l c * bn l * x1 l c) + (\<Sum>l<BT. b1 l * (\<Sum>c<C. Z l c * x l c))"
      for C and Z x1 x :: mat
      unfolding sum.distrib [symmetric] sum_distrib_left by (intro sum.cong refl) (simp add: sum.distrib algebra_simps)
    have dk: "(\<Sum>i<BT. \<Sum>d<K. wy_dk BT kn bn ?Zw G i d * k1 i d) = (\<Sum>l<BT. \<Sum>c<K. ?Zw l c * bn l * k1 l c)
      + (\<Sum>l<BT. \<Sum>d<K. (\<Sum>m<BT. G l m * kn m d) * bn l * k1 l d) + (\<Sum>l<BT. \<Sum>d<K. (\<Sum>p<BT. G p l * (kn p d * bn p)) * k1 l d)"
      unfolding wy_dk_def sum.distrib [symmetric] by (intro sum.cong refl) (simp only: distrib_right)
    have db: "(\<Sum>i<BT. wy_db BT K V kn vn ?Zw ?Zu G i * b1 i) = (\<Sum>l<BT. b1 l * (\<Sum>c<K. ?Zw l c * kn l c)) + (\<Sum>l<BT. b1 l * (\<Sum>c<V. ?Zu l c * vn l c))
      + (\<Sum>l<BT. b1 l * (\<Sum>d<K. (\<Sum>m<BT. G l m * kn m d) * kn l d))"
      unfolding wy_db_def sum.distrib [symmetric] by (intro sum.cong refl) (simp only: distrib_left mult.commute)
    show "(\<Sum>i<BT. \<Sum>d<K. dw i d * w' i d) + (\<Sum>i<BT. \<Sum>d<V. du i d * u' i d)
      = (\<Sum>i<BT. \<Sum>d<K. wy_dk BT (chunk_view BT n (k 0)) (chunk_view BT n (b 0)) ?Zw G i d * chunk_view BT n k' i d)
        + (\<Sum>i<BT. \<Sum>d<V. ?Zu i d * chunk_view BT n (b 0) i * chunk_view BT n v' i d)
        + (\<Sum>i<BT. wy_db BT K V (chunk_view BT n (k 0)) (chunk_view BT n (v 0)) ?Zw ?Zu G i * chunk_view BT n b' i)
        + (\<Sum>i<BT. wy_dc BT P i * c' i)"
      unfolding kn_def [symmetric] vn_def [symmetric] bn_def [symmetric] k1_def [symmetric] v1_def [symmetric] b1_def [symmetric]
        W U split dk db decay_pairing [symmetric]
      using mix gram by linarith
  qed
qed

section \<open>The gradients of one chunk\<close>

text \<open>
  All indices are local to the chunk.  \<open>a i\<close> is the decay from the start of the chunk to row \<open>i\<close>,
  \<open>l i\<close> the one from row \<open>i\<close> to its end, \<open>L\<close> the whole one and \<open>E i j\<close> the one from row \<open>j\<close> to row \<open>i\<close>.
  \<open>S\<close> is the state before the chunk, \<open>D\<close> the gradient of the state after it, \<open>p\<close> the scaled gradient
  of the outputs and \<open>x\<close> the new values.
\<close>

definition value_grad :: "nat \<Rightarrow> nat \<Rightarrow> mat \<Rightarrow> mat \<Rightarrow> vec \<Rightarrow> mat \<Rightarrow> mat \<Rightarrow> mat \<Rightarrow> mat" where
  "value_grad BT K q k l E D p =
     (\<lambda>i e. l i * (\<Sum>d<K. k i d * D d e) + (\<Sum>j<BT. E j i * (\<Sum>d<K. q j d * k i d) * p j e))"

definition state_grad :: "nat \<Rightarrow> mat \<Rightarrow> mat \<Rightarrow> vec \<Rightarrow> real \<Rightarrow> mat \<Rightarrow> mat \<Rightarrow> mat \<Rightarrow> mat" where
  "state_grad BT q w a L D p Y =
     (\<lambda>d e. L * D d e + (\<Sum>i<BT. a i * q i d * p i e) - (\<Sum>i<BT. a i * w i d * Y i e))"

definition score_grad :: "nat \<Rightarrow> mat \<Rightarrow> mat \<Rightarrow> mat \<Rightarrow> mat" where
  "score_grad V E p x = (\<lambda>i j. E i j * (\<Sum>e<V. p i e * x j e))"

text \<open>The part of a gradient that goes through a state.\<close>

definition inter_grad :: "nat \<Rightarrow> vec \<Rightarrow> mat \<Rightarrow> mat \<Rightarrow> mat" where
  "inter_grad V a S p = (\<lambda>i d. a i * (\<Sum>e<V. p i e * S d e))"

definition scores :: "nat \<Rightarrow> mat \<Rightarrow> mat \<Rightarrow> mat" where
  "scores K q k = (\<lambda>i j. \<Sum>d<K. q i d * k j d)"

definition row_dot :: "nat \<Rightarrow> mat \<Rightarrow> mat \<Rightarrow> vec" where
  "row_dot K x y = (\<lambda>i. \<Sum>d<K. x i d * y i d)"

definition chunk_dq :: "nat \<Rightarrow> mat \<Rightarrow> mat \<Rightarrow> mat \<Rightarrow> mat" where
  "chunk_dq BT k qi ds = (\<lambda>i d. qi i d + (\<Sum>j<BT. ds i j * k j d))"

definition chunk_dk :: "nat \<Rightarrow> mat \<Rightarrow> mat \<Rightarrow> mat \<Rightarrow> mat" where
  "chunk_dk BT q ki ds = (\<lambda>i d. ki i d + (\<Sum>j<BT. ds j i * q j d))"

definition chunk_dc :: "nat \<Rightarrow> nat \<Rightarrow> mat \<Rightarrow> mat \<Rightarrow> mat \<Rightarrow> mat \<Rightarrow> mat \<Rightarrow> mat \<Rightarrow> mat \<Rightarrow> vec" where
  "chunk_dc BT K q k w qi ki wi ds =
     (\<lambda>i. row_dot K qi q i - row_dot K w wi i - row_dot K k ki i + wy_dc BT (\<lambda>i j. ds i j * scores K q k i j) i)"

definition last_dc :: "nat \<Rightarrow> nat \<Rightarrow> nat \<Rightarrow> mat \<Rightarrow> mat \<Rightarrow> mat \<Rightarrow> mat \<Rightarrow> real \<Rightarrow> real" where
  "last_dc BT K V k ki S D L = L * (\<Sum>d<K. \<Sum>e<V. S d e * D d e) + (\<Sum>i<BT. row_dot K ki k i)"

lemma chunk_gradient:
  fixes q k w q' k' w' E S S' D p x x' u' out' T' :: mat and a l c' :: vec and L cl :: real
  assumes x': "\<And>i e. i < BT \<Longrightarrow> x' i e = u' i e - (a i * c' i * (\<Sum>d<K. w i d * S d e) + a i * ((\<Sum>d<K. w' i d * S d e) + (\<Sum>d<K. w i d * S' d e)))"
    and out': "\<And>i e. i < BT \<Longrightarrow> out' i e = a i * c' i * (\<Sum>d<K. q i d * S d e) + a i * ((\<Sum>d<K. q' i d * S d e) + (\<Sum>d<K. q i d * S' d e))
        + (\<Sum>j<BT. E i j * (c' i - c' j) * (\<Sum>d<K. q i d * k j d) * x j e + E i j * ((\<Sum>d<K. q' i d * k j d) + (\<Sum>d<K. q i d * k' j d)) * x j e
             + E i j * (\<Sum>d<K. q i d * k j d) * x' j e)"
    and T': "\<And>d e. d < K \<Longrightarrow> T' d e = L * cl * S d e + L * S' d e + (\<Sum>i<BT. l i * (cl - c' i) * k i d * x i e + l i * k' i d * x i e + l i * k i d * x' i e)"
    and Y: "Y = value_grad BT K q k l E D p" and ds: "ds = score_grad V E p x"
    and qi: "qi = inter_grad V a S p" and ki: "ki = inter_grad V l D x" and wi: "wi = inter_grad V a S Y"
  shows "(\<Sum>i<BT. \<Sum>e<V. p i e * out' i e) + (\<Sum>d<K. \<Sum>e<V. D d e * T' d e) =
      (\<Sum>d<K. \<Sum>e<V. state_grad BT q w a L D p Y d e * S' d e) + (\<Sum>i<BT. \<Sum>e<V. Y i e * u' i e)
    + (\<Sum>i<BT. \<Sum>d<K. chunk_dq BT k qi ds i d * q' i d) + (\<Sum>i<BT. \<Sum>d<K. chunk_dk BT q ki ds i d * k' i d)
    + (\<Sum>i<BT. \<Sum>d<K. - wi i d * w' i d) + (\<Sum>i<BT. chunk_dc BT K q k w qi ki wi ds i * c' i) + last_dc BT K V k ki S D L * cl"
proof -
  have col: "(\<Sum>i<BT. p i e * out' i e) + (\<Sum>d<K. D d e * T' d e) =
      (\<Sum>d<K. (L * D d e + (\<Sum>i<BT. a i * q i d * p i e) - (\<Sum>i<BT. a i * w i d * Y i e)) * S' d e)
    + (\<Sum>i<BT. Y i e * u' i e)
    + (\<Sum>i<BT. \<Sum>d<K. (a i * S d e * p i e + (\<Sum>j<BT. E i j * p i e * x j e * k j d)) * q' i d)
    + (\<Sum>i<BT. \<Sum>d<K. (l i * D d e * x i e + (\<Sum>j<BT. E j i * p j e * x i e * q j d)) * k' i d)
    - (\<Sum>i<BT. \<Sum>d<K. a i * S d e * Y i e * w' i d)
    + (\<Sum>i<BT. a i * c' i * (p i e * (\<Sum>d<K. q i d * S d e) - Y i e * (\<Sum>d<K. w i d * S d e)))
    + (\<Sum>i<BT. \<Sum>j<BT. E i j * (c' i - c' j) * (\<Sum>d<K. q i d * k j d) * (p i e * x j e))
    + (\<Sum>i<BT. l i * (cl - c' i) * (\<Sum>d<K. k i d * D d e) * x i e) + L * cl * (\<Sum>d<K. D d e * S d e)" for e
    by (rule chunk_adjoint [where T' = "\<lambda>d. T' d e" and x' = "\<lambda>i. x' i e"])
      (simp_all add: x' out' T' Y value_grad_def)
  have swap2: "(\<Sum>e<V. \<Sum>i<m. f i e) = (\<Sum>i<m. \<Sum>e<V. f i e)" for f :: mat and m by (rule sum.swap)
  have swap3: "(\<Sum>e<V. \<Sum>i<m. \<Sum>d<n. f i d e) = (\<Sum>i<m. \<Sum>d<n. \<Sum>e<V. f i d e :: real)" for f m n
    by (subst sum.swap, intro sum.cong refl, rule sum.swap)
  have dq: "(\<Sum>e<V. (a i * S d e * p i e + (\<Sum>j<BT. E i j * p i e * x j e * k j d)) * q' i d) = chunk_dq BT k qi ds i d * q' i d" for i d
  proof -
    have "(\<Sum>e<V. \<Sum>j<BT. E i j * p i e * x j e * k j d) = (\<Sum>j<BT. ds i j * k j d)"
      unfolding ds score_grad_def sum_distrib_left sum_distrib_right by (subst sum.swap) (simp add: algebra_simps)
    moreover have "(\<Sum>e<V. a i * S d e * p i e) = qi i d"
      unfolding qi inter_grad_def sum_distrib_left by (intro sum.cong refl) simp
    ultimately show ?thesis unfolding chunk_dq_def sum_distrib_right [symmetric] sum.distrib by simp
  qed
  have dk: "(\<Sum>e<V. (l i * D d e * x i e + (\<Sum>j<BT. E j i * p j e * x i e * q j d)) * k' i d) = chunk_dk BT q ki ds i d * k' i d" for i d
  proof -
    have "(\<Sum>e<V. \<Sum>j<BT. E j i * p j e * x i e * q j d) = (\<Sum>j<BT. ds j i * q j d)"
      unfolding ds score_grad_def sum_distrib_left sum_distrib_right by (subst sum.swap) (simp add: algebra_simps)
    moreover have "(\<Sum>e<V. l i * D d e * x i e) = ki i d"
      unfolding ki inter_grad_def sum_distrib_left by (intro sum.cong refl) simp
    ultimately show ?thesis unfolding chunk_dk_def sum_distrib_right [symmetric] sum.distrib by simp
  qed
  have dw: "(\<Sum>e<V. a i * S d e * Y i e * w' i d) = wi i d * w' i d" for i d
    unfolding wi inter_grad_def sum_distrib_left sum_distrib_right by (intro sum.cong refl) simp
  have st: "(\<Sum>e<V. \<Sum>d<K. (L * D d e + (\<Sum>i<BT. a i * q i d * p i e) - (\<Sum>i<BT. a i * w i d * Y i e)) * S' d e)
      = (\<Sum>d<K. \<Sum>e<V. state_grad BT q w a L D p Y d e * S' d e)"
    unfolding state_grad_def by (rule sum.swap)
  have rd: "(\<Sum>e<V. f i e * (\<Sum>d<K. g i d * h d e)) = (\<Sum>d<K. (\<Sum>e<V. f i e * h d e) * g i d)" for f g h :: mat and i
    unfolding sum_distrib_left sum_distrib_right by (subst sum.swap) (simp add: algebra_simps)
  have c1: "(\<Sum>e<V. \<Sum>i<BT. a i * c' i * (p i e * (\<Sum>d<K. q i d * S d e) - Y i e * (\<Sum>d<K. w i d * S d e)))
      = (\<Sum>i<BT. (row_dot K qi q i - row_dot K w wi i) * c' i)"
  proof -
    have "(\<Sum>e<V. a i * c' i * (p i e * (\<Sum>d<K. q i d * S d e) - Y i e * (\<Sum>d<K. w i d * S d e)))
      = a i * c' i * ((\<Sum>d<K. (\<Sum>e<V. p i e * S d e) * q i d) - (\<Sum>d<K. (\<Sum>e<V. Y i e * S d e) * w i d))" for i
      unfolding sum_distrib_left [symmetric] sum_subtractf rd ..
    moreover have "row_dot K qi q i = a i * (\<Sum>d<K. (\<Sum>e<V. p i e * S d e) * q i d)"
      "row_dot K w wi i = a i * (\<Sum>d<K. (\<Sum>e<V. Y i e * S d e) * w i d)" for i
      unfolding row_dot_def qi wi inter_grad_def sum_distrib_left by (simp_all add: ac_simps sum_distrib_left)
    ultimately show ?thesis unfolding swap2 by (intro sum.cong refl) (simp only: algebra_simps)
  qed
  have c2: "(\<Sum>e<V. \<Sum>i<BT. \<Sum>j<BT. E i j * (c' i - c' j) * (\<Sum>d<K. q i d * k j d) * (p i e * x j e))
      = (\<Sum>i<BT. wy_dc BT (\<lambda>i j. ds i j * scores K q k i j) i * c' i)"
  proof -
    have "(\<Sum>e<V. E i j * (c' i - c' j) * (\<Sum>d<K. q i d * k j d) * (p i e * x j e)) = ds i j * scores K q k i j * (c' i - c' j)" for i j
      unfolding sum_distrib_left [symmetric] ds score_grad_def scores_def by simp
    then show ?thesis unfolding swap3 decay_pairing [symmetric] by simp
  qed
  have ks: "row_dot K ki k i = l i * (\<Sum>d<K. (\<Sum>e<V. x i e * D d e) * k i d)" "row_dot K k ki i = row_dot K ki k i" for i
  proof -
    have "(\<Sum>d<K. l i * f d * g d) = l i * (\<Sum>d<K. f d * g d)" for f g :: vec
      by (simp add: sum_distrib_left mult.assoc)
    then show "row_dot K ki k i = l i * (\<Sum>d<K. (\<Sum>e<V. x i e * D d e) * k i d)" "row_dot K k ki i = row_dot K ki k i"
      unfolding row_dot_def ki inter_grad_def by (simp_all only: mult.commute [of "k i _"])
  qed
  have c3: "(\<Sum>e<V. \<Sum>i<BT. l i * (cl - c' i) * (\<Sum>d<K. k i d * D d e) * x i e)
      = (\<Sum>i<BT. row_dot K ki k i) * cl - (\<Sum>i<BT. row_dot K k ki i * c' i)"
  proof -
    have "(\<Sum>e<V. l i * (cl - c' i) * (\<Sum>d<K. k i d * D d e) * x i e) = row_dot K ki k i * cl - row_dot K k ki i * c' i" for i
    proof -
      have "(\<Sum>e<V. l i * (cl - c' i) * (\<Sum>d<K. k i d * D d e) * x i e) = l i * (cl - c' i) * (\<Sum>e<V. x i e * (\<Sum>d<K. k i d * D d e))"
      proof -
        have "(\<Sum>e<V. y * f e * x i e) = y * (\<Sum>e<V. x i e * f e)" for y and f :: vec
          by (simp add: sum_distrib_left ac_simps)
        then show ?thesis .
      qed
      then show ?thesis unfolding rd ks by (simp add: algebra_simps)
    qed
    then show ?thesis unfolding swap2 by (simp add: sum_subtractf sum_distrib_right)
  qed
  have c4: "(\<Sum>e<V. L * cl * (\<Sum>d<K. D d e * S d e)) = L * (\<Sum>d<K. \<Sum>e<V. S d e * D d e) * cl"
    unfolding sum_distrib_left [symmetric] swap2 by (simp add: mult.commute mult.left_commute)
  have dc: "(\<Sum>i<BT. chunk_dc BT K q k w qi ki wi ds i * c' i) = (\<Sum>i<BT. (row_dot K qi q i - row_dot K w wi i) * c' i)
      - (\<Sum>i<BT. row_dot K k ki i * c' i) + (\<Sum>i<BT. wy_dc BT (\<lambda>i j. ds i j * scores K q k i j) i * c' i)"
    unfolding chunk_dc_def sum.distrib [symmetric] sum_subtractf [symmetric] by (intro sum.cong refl) (simp only: algebra_simps)
  have "(\<Sum>i<BT. \<Sum>e<V. p i e * out' i e) + (\<Sum>d<K. \<Sum>e<V. D d e * T' d e)
      = (\<Sum>e<V. (\<Sum>i<BT. p i e * out' i e) + (\<Sum>d<K. D d e * T' d e))"
    by (simp only: sum.distrib swap2)
  also have "\<dots> = (\<Sum>d<K. \<Sum>e<V. state_grad BT q w a L D p Y d e * S' d e) + (\<Sum>i<BT. \<Sum>e<V. Y i e * u' i e)
    + (\<Sum>i<BT. \<Sum>d<K. chunk_dq BT k qi ds i d * q' i d) + (\<Sum>i<BT. \<Sum>d<K. chunk_dk BT q ki ds i d * k' i d)
    - (\<Sum>i<BT. \<Sum>d<K. wi i d * w' i d) + (\<Sum>i<BT. (row_dot K qi q i - row_dot K w wi i) * c' i)
    + (\<Sum>i<BT. wy_dc BT (\<lambda>i j. ds i j * scores K q k i j) i * c' i)
    + ((\<Sum>i<BT. row_dot K ki k i) * cl - (\<Sum>i<BT. row_dot K k ki i * c' i)) + L * (\<Sum>d<K. \<Sum>e<V. S d e * D d e) * cl"
    unfolding col sum.distrib sum_subtractf st c1 c2 c3 c4 unfolding swap3 dq dk dw unfolding swap2 ..
  finally show ?thesis unfolding dc last_dc_def mult_minus_left sum_negf distrib_right by linarith
qed

section \<open>A sequence, chunk by chunk\<close>

definition decay_in :: "nat \<Rightarrow> vec \<Rightarrow> nat \<Rightarrow> vec" where
  "decay_in BT gt n = (\<lambda>i. exp2 (gt (n * BT + i)))"

definition decay_out :: "nat \<Rightarrow> vec \<Rightarrow> nat \<Rightarrow> vec" where
  "decay_out BT gt n = (\<lambda>i. exp2 (gt (n * BT + BT - 1) - gt (n * BT + i)))"

definition decay_all :: "nat \<Rightarrow> vec \<Rightarrow> nat \<Rightarrow> real" where
  "decay_all BT gt n = exp2 (gt (n * BT + BT - 1))"

definition decay_between :: "nat \<Rightarrow> vec \<Rightarrow> nat \<Rightarrow> mat" where
  "decay_between BT gt n = (\<lambda>i j. if j \<le> i then exp2 (gt (n * BT + i) - gt (n * BT + j)) else 0)"

definition chunk_out :: "nat \<Rightarrow> nat \<Rightarrow> mat \<Rightarrow> mat \<Rightarrow> vec \<Rightarrow> mat \<Rightarrow> mat \<Rightarrow> nat \<Rightarrow> mat" where
  "chunk_out K BT q k gt S x n = (\<lambda>i e. decay_in BT gt n i * (\<Sum>d<K. q (n * BT + i) d * S d e)
     + (\<Sum>j<BT. decay_between BT gt n i j * (\<Sum>d<K. q (n * BT + i) d * k (n * BT + j) d) * x j e))"

lemma gate_deriv:
  assumes E: "exact_casts E" and g: "curve1 g g'" and i: "i < BT"
    and c': "c' = cumsum (chunk_view BT n (pad_vec T g'))"
  shows "((\<lambda>s. exp2 (gate E BT T (g s) (n * BT + i))) has_real_derivative exp2 (gate E BT T (g 0) (n * BT + i)) * c' i) (at 0)"
    and "j < BT \<Longrightarrow> ((\<lambda>s. exp2 (gate E BT T (g s) (n * BT + i) - gate E BT T (g s) (n * BT + j))) has_real_derivative
      exp2 (gate E BT T (g 0) (n * BT + i) - gate E BT T (g 0) (n * BT + j)) * (c' i - c' j)) (at 0)"
proof -
  have c: "((\<lambda>s. cumsum (chunk_view BT n (pad_vec T (g s))) i) has_real_derivative c' i) (at 0)" for i
    unfolding cumsum_def c' chunk_view_def by (intro DERIV_sum curve1D [OF curve_pad(2) [OF g]])
  show "((\<lambda>s. exp2 (gate E BT T (g s) (n * BT + i))) has_real_derivative exp2 (gate E BT T (g 0) (n * BT + i)) * c' i) (at 0)"
    unfolding gate_at [OF E i] exp2_ln by (rule DERIV_fun_exp [OF c])
  show "((\<lambda>s. exp2 (gate E BT T (g s) (n * BT + i) - gate E BT T (g s) (n * BT + j))) has_real_derivative
      exp2 (gate E BT T (g 0) (n * BT + i) - gate E BT T (g 0) (n * BT + j)) * (c' i - c' j)) (at 0)" if "j < BT"
    unfolding gate_at [OF E i] gate_at [OF E that] exp2_ln by (rule DERIV_fun_exp [OF DERIV_diff [OF c c]])
qed

lemma decay_deriv:
  assumes E: "exact_casts E" and g: "curve1 g g'"
    and c': "c' = cumsum (chunk_view BT n (pad_vec T g'))" and gt: "gt = (\<lambda>s. gate E BT T (g s))"
  shows "i < BT \<Longrightarrow> ((\<lambda>s. decay_in BT (gt s) n i) has_real_derivative decay_in BT (gt 0) n i * c' i) (at 0)"
    and "i < BT \<Longrightarrow> ((\<lambda>s. decay_out BT (gt s) n i) has_real_derivative decay_out BT (gt 0) n i * (c' (BT - 1) - c' i)) (at 0)"
    and "0 < BT \<Longrightarrow> ((\<lambda>s. decay_all BT (gt s) n) has_real_derivative decay_all BT (gt 0) n * c' (BT - 1)) (at 0)"
    and "i < BT \<Longrightarrow> j < BT \<Longrightarrow> ((\<lambda>s. decay_between BT (gt s) n i j) has_real_derivative decay_between BT (gt 0) n i j * (c' i - c' j)) (at 0)"
proof -
  show "i < BT \<Longrightarrow> ((\<lambda>s. decay_in BT (gt s) n i) has_real_derivative decay_in BT (gt 0) n i * c' i) (at 0)"
    using gate_deriv(1) [OF E g _ c', of i] by (simp add: decay_in_def gt)
  have last: "n * BT + BT - 1 = n * BT + (BT - 1)" if "0 < BT" using that by simp
  show "i < BT \<Longrightarrow> ((\<lambda>s. decay_out BT (gt s) n i) has_real_derivative decay_out BT (gt 0) n i * (c' (BT - 1) - c' i)) (at 0)"
    using gate_deriv(2) [OF E g _ c', of "BT - 1" i] last by (simp add: decay_out_def gt)
  show "0 < BT \<Longrightarrow> ((\<lambda>s. decay_all BT (gt s) n) has_real_derivative decay_all BT (gt 0) n * c' (BT - 1)) (at 0)"
    using gate_deriv(1) [OF E g _ c', of "BT - 1"] last by (simp add: decay_all_def gt)
  show "i < BT \<Longrightarrow> j < BT \<Longrightarrow> ((\<lambda>s. decay_between BT (gt s) n i j) has_real_derivative decay_between BT (gt 0) n i j * (c' i - c' j)) (at 0)"
    using gate_deriv(2) [OF E g _ c', of i j] by (simp add: decay_between_def gt)
qed

lemma new_value_decay: "new_value K BT w u gt S n i e = u (n * BT + i) e - decay_in BT gt n i * (\<Sum>d<K. w (n * BT + i) d * S d e)"
  by (simp add: new_value_def decay_in_def)

lemma next_state_decay: "next_state K BT k w u gt S n d e = decay_all BT gt n * S d e
    + (\<Sum>i<BT. decay_out BT gt n i * k (n * BT + i) d * new_value K BT w u gt S n i e)"
  by (simp add: next_state_def decay_all_def decay_out_def mult.commute mult.left_commute)

text \<open>The derivatives of the new values, the outputs and the next state of one chunk.\<close>

lemma chunk_tangent:
  fixes q k w u S :: "real \<Rightarrow> mat" and gt :: "real \<Rightarrow> vec" and q' k' w' u' S' :: mat and c' :: vec and n BT K :: nat
  assumes q: "\<forall>i d. i < BT \<longrightarrow> ((\<lambda>s. q s (n * BT + i) d) has_real_derivative q' i d) (at 0)"
    and k: "\<forall>i d. i < BT \<longrightarrow> ((\<lambda>s. k s (n * BT + i) d) has_real_derivative k' i d) (at 0)"
    and w: "\<forall>i d. i < BT \<longrightarrow> ((\<lambda>s. w s (n * BT + i) d) has_real_derivative w' i d) (at 0)"
    and u: "\<forall>i e. i < BT \<longrightarrow> ((\<lambda>s. u s (n * BT + i) e) has_real_derivative u' i e) (at 0)"
    and S: "\<And>d e. ((\<lambda>s. S s d e) has_real_derivative S' d e) (at 0)"
    and a: "\<forall>i. i < BT \<longrightarrow> ((\<lambda>s. decay_in BT (gt s) n i) has_real_derivative decay_in BT (gt 0) n i * c' i) (at 0)"
    and l: "\<forall>i. i < BT \<longrightarrow> ((\<lambda>s. decay_out BT (gt s) n i) has_real_derivative decay_out BT (gt 0) n i * (c' (BT - 1) - c' i)) (at 0)"
    and L: "((\<lambda>s. decay_all BT (gt s) n) has_real_derivative decay_all BT (gt 0) n * c' (BT - 1)) (at 0)"
    and E: "\<forall>i j. i < BT \<longrightarrow> j < BT \<longrightarrow> ((\<lambda>s. decay_between BT (gt s) n i j) has_real_derivative decay_between BT (gt 0) n i j * (c' i - c' j)) (at 0)"
  defines "x' \<equiv> \<lambda>i e. u' i e - (decay_in BT (gt 0) n i * c' i * (\<Sum>d<K. chunk_view BT n (w 0) i d * S 0 d e)
        + decay_in BT (gt 0) n i * ((\<Sum>d<K. w' i d * S 0 d e) + (\<Sum>d<K. chunk_view BT n (w 0) i d * S' d e)))"
    and "x \<equiv> \<lambda>s. new_value K BT (w s) (u s) (gt s) (S s) n"
  shows "i < BT \<Longrightarrow> ((\<lambda>s. x s i e) has_real_derivative x' i e) (at 0)"
    and "((\<lambda>s. next_state K BT (k s) (w s) (u s) (gt s) (S s) n d e) has_real_derivative
      decay_all BT (gt 0) n * c' (BT - 1) * S 0 d e + decay_all BT (gt 0) n * S' d e
      + (\<Sum>i<BT. decay_out BT (gt 0) n i * (c' (BT - 1) - c' i) * chunk_view BT n (k 0) i d * x 0 i e
          + decay_out BT (gt 0) n i * k' i d * x 0 i e + decay_out BT (gt 0) n i * chunk_view BT n (k 0) i d * x' i e)) (at 0)"
    and "i < BT \<Longrightarrow> ((\<lambda>s. chunk_out K BT (q s) (k s) (gt s) (S s) (x s) n i e) has_real_derivative
      decay_in BT (gt 0) n i * c' i * (\<Sum>d<K. chunk_view BT n (q 0) i d * S 0 d e)
      + decay_in BT (gt 0) n i * ((\<Sum>d<K. q' i d * S 0 d e) + (\<Sum>d<K. chunk_view BT n (q 0) i d * S' d e))
      + (\<Sum>j<BT. decay_between BT (gt 0) n i j * (c' i - c' j) * (\<Sum>d<K. chunk_view BT n (q 0) i d * chunk_view BT n (k 0) j d) * x 0 j e
          + decay_between BT (gt 0) n i j * ((\<Sum>d<K. q' i d * chunk_view BT n (k 0) j d) + (\<Sum>d<K. chunk_view BT n (q 0) i d * k' j d)) * x 0 j e
          + decay_between BT (gt 0) n i j * (\<Sum>d<K. chunk_view BT n (q 0) i d * chunk_view BT n (k 0) j d) * x' j e)) (at 0)"
proof -
  note q = q [rule_format] and k = k [rule_format] and w = w [rule_format] and u = u [rule_format]
    and a = a [rule_format] and l = l [rule_format] and E = E [rule_format]
  show X: "((\<lambda>s. x s i e) has_real_derivative x' i e) (at 0)" if "i < BT" for i e
    unfolding x_def new_value_decay x'_def chunk_view_def
    by (rule DERIV_cong [OF DERIV_diff [OF u [OF that] DERIV_mult [OF a [OF that] DERIV_dot [OF w [OF that] S]]]]) (simp add: algebra_simps)
  have xs: "new_value K BT (w s) (u s) (gt s) (S s) n = x s" for s by (simp add: x_def)
  have dot3: "((\<lambda>s. f s * g s * h s) has_real_derivative f' * g 0 * h 0 + f 0 * g' * h 0 + f 0 * g 0 * h') (at 0)"
    if "(f has_real_derivative f') (at 0)" "(g has_real_derivative g') (at 0)" "(h has_real_derivative h') (at 0)" for f g h :: "real \<Rightarrow> real" and f' g' h'
    by (rule DERIV_cong [OF DERIV_mult [OF DERIV_mult [OF that(1,2)] that(3)]]) (simp add: algebra_simps)
  show "((\<lambda>s. next_state K BT (k s) (w s) (u s) (gt s) (S s) n d e) has_real_derivative
      decay_all BT (gt 0) n * c' (BT - 1) * S 0 d e + decay_all BT (gt 0) n * S' d e
      + (\<Sum>i<BT. decay_out BT (gt 0) n i * (c' (BT - 1) - c' i) * chunk_view BT n (k 0) i d * x 0 i e
          + decay_out BT (gt 0) n i * k' i d * x 0 i e + decay_out BT (gt 0) n i * chunk_view BT n (k 0) i d * x' i e)) (at 0)"
  proof -
    have "((\<lambda>s. \<Sum>i<BT. decay_out BT (gt s) n i * k s (n * BT + i) d * x s i e) has_real_derivative
        (\<Sum>i<BT. decay_out BT (gt 0) n i * (c' (BT - 1) - c' i) * k 0 (n * BT + i) d * x 0 i e
          + decay_out BT (gt 0) n i * k' i d * x 0 i e + decay_out BT (gt 0) n i * k 0 (n * BT + i) d * x' i e)) (at 0)"
      by (rule DERIV_sum) (rule dot3 [OF l k X]; simp)
    from DERIV_add [OF DERIV_mult [OF L S] this] show ?thesis
      unfolding next_state_decay xs chunk_view_def by (rule DERIV_cong) (simp add: algebra_simps)
  qed
  show "((\<lambda>s. chunk_out K BT (q s) (k s) (gt s) (S s) (x s) n i e) has_real_derivative
      decay_in BT (gt 0) n i * c' i * (\<Sum>d<K. chunk_view BT n (q 0) i d * S 0 d e)
      + decay_in BT (gt 0) n i * ((\<Sum>d<K. q' i d * S 0 d e) + (\<Sum>d<K. chunk_view BT n (q 0) i d * S' d e))
      + (\<Sum>j<BT. decay_between BT (gt 0) n i j * (c' i - c' j) * (\<Sum>d<K. chunk_view BT n (q 0) i d * chunk_view BT n (k 0) j d) * x 0 j e
          + decay_between BT (gt 0) n i j * ((\<Sum>d<K. q' i d * chunk_view BT n (k 0) j d) + (\<Sum>d<K. chunk_view BT n (q 0) i d * k' j d)) * x 0 j e
          + decay_between BT (gt 0) n i j * (\<Sum>d<K. chunk_view BT n (q 0) i d * chunk_view BT n (k 0) j d) * x' j e)) (at 0)" if i: "i < BT"
  proof -
    have "((\<lambda>s. \<Sum>j<BT. decay_between BT (gt s) n i j * (\<Sum>d<K. q s (n * BT + i) d * k s (n * BT + j) d) * x s j e) has_real_derivative
      (\<Sum>j<BT. decay_between BT (gt 0) n i j * (c' i - c' j) * (\<Sum>d<K. q 0 (n * BT + i) d * k 0 (n * BT + j) d) * x 0 j e
          + decay_between BT (gt 0) n i j * ((\<Sum>d<K. q' i d * k 0 (n * BT + j) d) + (\<Sum>d<K. q 0 (n * BT + i) d * k' j d)) * x 0 j e
          + decay_between BT (gt 0) n i j * (\<Sum>d<K. q 0 (n * BT + i) d * k 0 (n * BT + j) d) * x' j e)) (at 0)"
      by (rule DERIV_sum) (rule dot3 [OF E [OF i] DERIV_dot [OF q [OF i] k] X]; simp)
    from DERIV_add [OF DERIV_mult [OF a [OF i] DERIV_dot [OF q [OF i] S]] this] show ?thesis
      unfolding chunk_out_def chunk_view_def by (rule DERIV_cong) (simp add: algebra_simps)
  qed
qed

section \<open>The gradient of a sequence\<close>

definition chunk_values :: "nat \<Rightarrow> nat \<Rightarrow> mat \<Rightarrow> mat \<Rightarrow> vec \<Rightarrow> mat \<Rightarrow> nat \<Rightarrow> mat \<Rightarrow> mat" where
  "chunk_values K BT q k gt p n D = value_grad BT K (chunk_view BT n q) (chunk_view BT n k)
     (decay_out BT gt n) (decay_between BT gt n) D (chunk_view BT n p)"

definition back_step :: "nat \<Rightarrow> nat \<Rightarrow> mat \<Rightarrow> mat \<Rightarrow> mat \<Rightarrow> vec \<Rightarrow> mat \<Rightarrow> nat \<Rightarrow> mat \<Rightarrow> mat" where
  "back_step K BT q k w gt p n D = state_grad BT (chunk_view BT n q) (chunk_view BT n w)
     (decay_in BT gt n) (decay_all BT gt n) D (chunk_view BT n p) (chunk_values K BT q k gt p n D)"

text \<open>The gradient of the state before chunk \<open>n\<close> of \<open>NT\<close>.\<close>

definition back_state :: "nat \<Rightarrow> nat \<Rightarrow> nat \<Rightarrow> mat \<Rightarrow> mat \<Rightarrow> mat \<Rightarrow> vec \<Rightarrow> mat \<Rightarrow> mat \<Rightarrow> nat \<Rightarrow> mat" where
  "back_state K BT NT q k w gt p dht n = for_loop (NT - n) (\<lambda>m. back_step K BT q k w gt p (NT - 1 - m)) dht"

lemma back_state_end [simp]: "back_state K BT NT q k w gt p dht NT = dht"
  by (simp add: back_state_def)

lemma back_state_step:
  assumes "n < NT"
  shows "back_state K BT NT q k w gt p dht n = back_step K BT q k w gt p n (back_state K BT NT q k w gt p dht (Suc n))"
proof -
  have "NT - n = Suc (NT - Suc n)" "NT - 1 - (NT - Suc n) = n" using assms by simp_all
  then show ?thesis by (simp add: back_state_def)
qed

lemma sequence_gradient:
  fixes q k v S0 :: "real \<Rightarrow> mat" and b g :: "real \<Rightarrow> vec" and q' k' v' S0' p dht :: mat and b' g' :: vec and K V BT NT T :: nat
  assumes E: "exact_casts E" and BT: "0 < BT"
    and q: "curve q q'" and k: "curve k k'" and v: "curve v v'" and b: "curve1 b b'" and g: "curve1 g g'" and S0: "curve S0 S0'"
    and gt: "gt = (\<lambda>s. gate E BT T (g s))" and W: "W = (\<lambda>s. wy_w K BT (k s) (b s))"
    and U: "U = (\<lambda>s. wy_u K BT (k s) (v s) (b s) (gt s))"
    and H: "H = (\<lambda>s. h_states K BT (k s) (W s) (U s) (gt s) (S0 s))"
    and X: "X = (\<lambda>s n. new_value K BT (W s) (U s) (gt s) (H s n) n)"
    and c': "c' = (\<lambda>n. cumsum (chunk_view BT n (pad_vec T g')))"
    and D: "D = back_state K BT NT (q 0) (k 0) (W 0) (gt 0) p dht"
    and Y: "Y = (\<lambda>n. chunk_values K BT (q 0) (k 0) (gt 0) p n (D (Suc n)))"
    and ds: "ds = (\<lambda>n. score_grad V (decay_between BT (gt 0) n) (chunk_view BT n p) (X 0 n))"
    and qi: "qi = (\<lambda>n. inter_grad V (decay_in BT (gt 0) n) (H 0 n) (chunk_view BT n p))"
    and ki: "ki = (\<lambda>n. inter_grad V (decay_out BT (gt 0) n) (D (Suc n)) (X 0 n))"
    and wi: "wi = (\<lambda>n. inter_grad V (decay_in BT (gt 0) n) (H 0 n) (Y n))"
    and Aw: "Aw = (\<lambda>n. chunk_solution BT (chunk_gram K BT (k 0) (b 0) n))"
    and Au: "Au = (\<lambda>n. chunk_solution BT (decayed_gram K BT (k 0) (b 0) (gt 0) n))"
    and dMw: "dMw = (\<lambda>n. solve_grad BT K (Aw n) (\<lambda>i d. - wi n i d) (chunk_view BT n (W 0)))"
    and dMu: "dMu = (\<lambda>n. solve_grad BT V (Au n) (Y n) (chunk_view BT n (U 0)))"
    and e: "e = (\<lambda>n i j. exp2 (gt 0 (n * BT + i) - gt 0 (n * BT + j)))"
    and G: "G = (\<lambda>n. gram_grad (dMw n) (dMu n) (e n))"
    and P: "P = (\<lambda>n i j. dMu n i j * e n i j * chunk_gram K BT (k 0) (b 0) n i j)"
    and Zw: "Zw = (\<lambda>n. back_rows BT (Aw n) (\<lambda>i d. - wi n i d))" and Zu: "Zu = (\<lambda>n. back_rows BT (Au n) (Y n))"
  shows "((\<lambda>s. (\<Sum>n<NT. \<Sum>i<BT. \<Sum>e<V. p (n * BT + i) e * chunk_out K BT (q s) (k s) (gt s) (H s n) (X s n) n i e)
        + (\<Sum>d<K. \<Sum>e<V. dht d e * H s NT d e)) has_real_derivative
      (\<Sum>d<K. \<Sum>e<V. D 0 d e * S0' d e)
      + (\<Sum>n<NT. (\<Sum>i<BT. \<Sum>d<K. chunk_dq BT (chunk_view BT n (k 0)) (qi n) (ds n) i d * chunk_view BT n q' i d)
        + (\<Sum>i<BT. \<Sum>d<K. (chunk_dk BT (chunk_view BT n (q 0)) (ki n) (ds n) i d
             + wy_dk BT (chunk_view BT n (k 0)) (chunk_view BT n (b 0)) (Zw n) (G n) i d) * chunk_view BT n k' i d)
        + (\<Sum>i<BT. \<Sum>d<V. Zu n i d * chunk_view BT n (b 0) i * chunk_view BT n v' i d)
        + (\<Sum>i<BT. wy_db BT K V (chunk_view BT n (k 0)) (chunk_view BT n (v 0)) (Zw n) (Zu n) (G n) i * chunk_view BT n b' i)
        + (\<Sum>i<BT. (chunk_dc BT K (chunk_view BT n (q 0)) (chunk_view BT n (k 0)) (chunk_view BT n (W 0)) (qi n) (ki n) (wi n) (ds n) i
             + wy_dc BT (P n) i) * c' n i)
        + last_dc BT K V (chunk_view BT n (k 0)) (ki n) (H 0 n) (D (Suc n)) (decay_all BT (gt 0) n) * c' n (BT - 1))) (at 0)"
    (is "((\<lambda>s. ?loss s) has_real_derivative ?grad) (at 0)")
proof -
  let ?cv = "chunk_view BT"
  have e_deriv: "((\<lambda>s. exp2 (gt s (n * BT + i) - gt s (n * BT + j))) has_real_derivative
        exp2 (gt 0 (n * BT + i) - gt 0 (n * BT + j)) * (c' n i - c' n j)) (at 0)" if "i < BT" "j < BT" for n i j
    unfolding gt c' by (rule gate_deriv(2) [OF E g that(1) refl that(2)])
  let ?Q = "\<lambda>n w1 u1. (\<forall>i d. i < BT \<longrightarrow> ((\<lambda>s. W s (n * BT + i) d) has_real_derivative w1 i d) (at 0)) \<and>
      (\<forall>i d. i < BT \<longrightarrow> ((\<lambda>s. U s (n * BT + i) d) has_real_derivative u1 i d) (at 0)) \<and>
      (\<Sum>i<BT. \<Sum>d<K. - wi n i d * w1 i d) + (\<Sum>i<BT. \<Sum>d<V. Y n i d * u1 i d)
      = (\<Sum>i<BT. \<Sum>d<K. wy_dk BT (?cv n (k 0)) (?cv n (b 0)) (Zw n) (G n) i d * ?cv n k' i d)
        + (\<Sum>i<BT. \<Sum>d<V. Zu n i d * ?cv n (b 0) i * ?cv n v' i d)
        + (\<Sum>i<BT. wy_db BT K V (?cv n (k 0)) (?cv n (v 0)) (Zw n) (Zu n) (G n) i * ?cv n b' i)
        + (\<Sum>i<BT. wy_dc BT (P n) i * c' n i)"
  have pair: "\<exists>w1 u1. ?Q n w1 u1" for n
  proof -
    have A: "Aw n = chunk_solution BT (chunk_gram K BT (k 0) (b 0) n)" "Au n = chunk_solution BT (decayed_gram K BT (k 0) (b 0) (gt 0) n)"
      by (simp_all add: Aw Au)
    have en: "e n = (\<lambda>i j. exp2 (gt 0 (n * BT + i) - gt 0 (n * BT + j)))" by (simp add: e)
    have un: "?cv n (W 0) = ?cv n (wy_w K BT (k 0) (b 0))" "?cv n (U 0) = ?cv n (wy_u K BT (k 0) (v 0) (b 0) (gt 0))"
      by (simp_all add: W U)
    have grads: "dMw n = solve_grad BT K (Aw n) (\<lambda>i d. - wi n i d) (?cv n (W 0))" "dMu n = solve_grad BT V (Au n) (Y n) (?cv n (U 0))"
      "G n = gram_grad (dMw n) (dMu n) (e n)" "P n = (\<lambda>i j. dMu n i j * e n i j * chunk_gram K BT (k 0) (b 0) n i j)"
      by (simp_all add: dMw dMu G P)
    obtain w1 u1 where d: "\<And>i d. i < BT \<Longrightarrow> ((\<lambda>s. wy_w K BT (k s) (b s) (n * BT + i) d) has_real_derivative w1 i d) (at 0)"
      "\<And>i d. i < BT \<Longrightarrow> ((\<lambda>s. wy_u K BT (k s) (v s) (b s) (gt s) (n * BT + i) d) has_real_derivative u1 i d) (at 0)"
      and pair: "\<And>dw du dMw dMu G P. dMw = solve_grad BT K (Aw n) dw (?cv n (W 0)) \<Longrightarrow> dMu = solve_grad BT V (Au n) du (?cv n (U 0)) \<Longrightarrow>
          G = gram_grad dMw dMu (e n) \<Longrightarrow> P = (\<lambda>i j. dMu i j * e n i j * chunk_gram K BT (k 0) (b 0) n i j) \<Longrightarrow>
        (\<Sum>i<BT. \<Sum>d<K. dw i d * w1 i d) + (\<Sum>i<BT. \<Sum>d<V. du i d * u1 i d)
        = (\<Sum>i<BT. \<Sum>d<K. wy_dk BT (?cv n (k 0)) (?cv n (b 0)) (back_rows BT (Aw n) dw) G i d * ?cv n k' i d)
        + (\<Sum>i<BT. \<Sum>d<V. back_rows BT (Au n) du i d * ?cv n (b 0) i * ?cv n v' i d)
        + (\<Sum>i<BT. wy_db BT K V (?cv n (k 0)) (?cv n (v 0)) (back_rows BT (Aw n) dw) (back_rows BT (Au n) du) G i * ?cv n b' i)
        + (\<Sum>i<BT. wy_dc BT P i * c' n i)"
      using wy_adjoint [OF k v b e_deriv A un en] by blast
    show ?thesis using d pair [OF grads] by (intro exI [of _ w1] exI [of _ u1]) (simp add: W U Zw Zu)
  qed
  have "\<forall>n. \<exists>p. ?Q n (fst p) (snd p)"
  proof
    fix n
    from pair [of n] obtain w1 u1 where "?Q n w1 u1" by (elim exE)
    then have "?Q n (fst (w1, u1)) (snd (w1, u1))" unfolding fst_conv snd_conv .
    then show "\<exists>p. ?Q n (fst p) (snd p)"
      by (rule exI [where P = "\<lambda>p. ?Q n (fst p) (snd p)" and x = "(w1, u1)"])
  qed
  from choice [OF this] obtain f where f: "\<And>n. ?Q n (fst (f n)) (snd (f n))" by blast
  define w1 u1 where "w1 = (\<lambda>n. fst (f n))" and "u1 = (\<lambda>n. snd (f n))"
  have w1: "\<And>n. \<forall>i d. i < BT \<longrightarrow> ((\<lambda>s. W s (n * BT + i) d) has_real_derivative w1 n i d) (at 0)"
    and u1: "\<And>n. \<forall>i d. i < BT \<longrightarrow> ((\<lambda>s. U s (n * BT + i) d) has_real_derivative u1 n i d) (at 0)"
    and wu: "\<And>n. (\<Sum>i<BT. \<Sum>d<K. - wi n i d * w1 n i d) + (\<Sum>i<BT. \<Sum>d<V. Y n i d * u1 n i d)
      = (\<Sum>i<BT. \<Sum>d<K. wy_dk BT (?cv n (k 0)) (?cv n (b 0)) (Zw n) (G n) i d * ?cv n k' i d)
        + (\<Sum>i<BT. \<Sum>d<V. Zu n i d * ?cv n (b 0) i * ?cv n v' i d)
        + (\<Sum>i<BT. wy_db BT K V (?cv n (k 0)) (?cv n (v 0)) (Zw n) (Zu n) (G n) i * ?cv n b' i)
        + (\<Sum>i<BT. wy_dc BT (P n) i * c' n i)"
    unfolding w1_def u1_def using f by blast+
  have decay: "\<forall>i. i < BT \<longrightarrow> ((\<lambda>s. decay_in BT (gt s) n i) has_real_derivative decay_in BT (gt 0) n i * c' n i) (at 0)"
    "\<forall>i. i < BT \<longrightarrow> ((\<lambda>s. decay_out BT (gt s) n i) has_real_derivative decay_out BT (gt 0) n i * (c' n (BT - 1) - c' n i)) (at 0)"
    "((\<lambda>s. decay_all BT (gt s) n) has_real_derivative decay_all BT (gt 0) n * c' n (BT - 1)) (at 0)"
    "\<forall>i j. i < BT \<longrightarrow> j < BT \<longrightarrow> ((\<lambda>s. decay_between BT (gt s) n i j) has_real_derivative decay_between BT (gt 0) n i j * (c' n i - c' n j)) (at 0)"
    for n
    using decay_deriv [OF E g refl gt] BT unfolding c' by blast+
  have rows: "\<forall>i d. i < BT \<longrightarrow> ((\<lambda>s. q s (n * BT + i) d) has_real_derivative ?cv n q' i d) (at 0)"
    "\<forall>i d. i < BT \<longrightarrow> ((\<lambda>s. k s (n * BT + i) d) has_real_derivative ?cv n k' i d) (at 0)" for n
    using curveD [OF q] curveD [OF k] by (simp_all add: chunk_view_def)
  have H_Suc: "H s (Suc n) = next_state K BT (k s) (W s) (U s) (gt s) (H s n) n" for s n
    by (simp add: H h_states_Suc)
  note tang = chunk_tangent [where q = q and k = k and w = W and u = U and gt = gt and q' = "?cv n q'" and k' = "?cv n k'"
      and w' = "w1 n" and u' = "u1 n" and c' = "c' n" and n = n and BT = BT and S = "\<lambda>s. H s n" for n]
  have "\<exists>H1. \<forall>d e. ((\<lambda>s. H s n d e) has_real_derivative H1 d e) (at 0)" for n
  proof (induction n)
    case 0
    then show ?case using S0 by (intro exI [of _ S0']) (simp add: H h_states_def curve_def)
  next
    case (Suc n)
    then obtain H1 where "\<And>d e. ((\<lambda>s. H s n d e) has_real_derivative H1 d e) (at 0)" by blast
    from tang(2) [OF rows w1 u1 this decay] show ?case unfolding H_Suc by (rule_tac exI) (intro allI; assumption)
  qed
  then obtain H1 where H1: "\<And>n d e. ((\<lambda>s. H s n d e) has_real_derivative H1 n d e) (at 0)" by metis
  note tangent = tang [OF rows w1 u1 H1 decay]
  define x1 where "x1 = (\<lambda>n i e. u1 n i e - (decay_in BT (gt 0) n i * c' n i * (\<Sum>d<K. ?cv n (W 0) i d * H 0 n d e)
        + decay_in BT (gt 0) n i * ((\<Sum>d<K. w1 n i d * H 0 n d e) + (\<Sum>d<K. ?cv n (W 0) i d * H1 n d e))))"
  define o1 where "o1 = (\<lambda>n i e. decay_in BT (gt 0) n i * c' n i * (\<Sum>d<K. ?cv n (q 0) i d * H 0 n d e)
      + decay_in BT (gt 0) n i * ((\<Sum>d<K. ?cv n q' i d * H 0 n d e) + (\<Sum>d<K. ?cv n (q 0) i d * H1 n d e))
      + (\<Sum>j<BT. decay_between BT (gt 0) n i j * (c' n i - c' n j) * (\<Sum>d<K. ?cv n (q 0) i d * ?cv n (k 0) j d) * X 0 n j e
          + decay_between BT (gt 0) n i j * ((\<Sum>d<K. ?cv n q' i d * ?cv n (k 0) j d) + (\<Sum>d<K. ?cv n (q 0) i d * ?cv n k' j d)) * X 0 n j e
          + decay_between BT (gt 0) n i j * (\<Sum>d<K. ?cv n (q 0) i d * ?cv n (k 0) j d) * x1 n j e))"
  have out: "((\<lambda>s. chunk_out K BT (q s) (k s) (gt s) (H s n) (X s n) n i e) has_real_derivative o1 n i e) (at 0)" if "i < BT" for n i e
    using tangent(3) [OF that] unfolding o1_def x1_def X .
  have next1: "H1 (Suc n) d e = decay_all BT (gt 0) n * c' n (BT - 1) * H 0 n d e + decay_all BT (gt 0) n * H1 n d e
      + (\<Sum>i<BT. decay_out BT (gt 0) n i * (c' n (BT - 1) - c' n i) * ?cv n (k 0) i d * X 0 n i e
          + decay_out BT (gt 0) n i * ?cv n k' i d * X 0 n i e + decay_out BT (gt 0) n i * ?cv n (k 0) i d * x1 n i e)" for n d e
    using DERIV_unique [OF H1 [of "Suc n" d e, unfolded H_Suc] tangent(2)] unfolding x1_def X .
  have start: "H1 0 d e = S0' d e" for d e
    using DERIV_unique [OF H1 [of 0 d e]] S0 by (simp add: H h_states_def curve_def)
  define R where "R = (\<lambda>n. (\<Sum>i<BT. \<Sum>e<V. Y n i e * u1 n i e)
    + (\<Sum>i<BT. \<Sum>d<K. chunk_dq BT (?cv n (k 0)) (qi n) (ds n) i d * ?cv n q' i d)
    + (\<Sum>i<BT. \<Sum>d<K. chunk_dk BT (?cv n (q 0)) (ki n) (ds n) i d * ?cv n k' i d)
    + (\<Sum>i<BT. \<Sum>d<K. - wi n i d * w1 n i d)
    + (\<Sum>i<BT. chunk_dc BT K (?cv n (q 0)) (?cv n (k 0)) (?cv n (W 0)) (qi n) (ki n) (wi n) (ds n) i * c' n i)
    + last_dc BT K V (?cv n (k 0)) (ki n) (H 0 n) (D (Suc n)) (decay_all BT (gt 0) n) * c' n (BT - 1))"
  have chunk: "(\<Sum>i<BT. \<Sum>e<V. p (n * BT + i) e * o1 n i e) + (\<Sum>d<K. \<Sum>e<V. D (Suc n) d e * H1 (Suc n) d e)
      = (\<Sum>d<K. \<Sum>e<V. D n d e * H1 n d e) + R n" if n: "n < NT" for n
  proof -
    have Dn: "D n = state_grad BT (?cv n (q 0)) (?cv n (W 0)) (decay_in BT (gt 0) n) (decay_all BT (gt 0) n) (D (Suc n)) (?cv n p) (Y n)"
      unfolding D back_state_step [OF n] back_step_def by (simp only: Y D)
    have "(\<Sum>i<BT. \<Sum>e<V. ?cv n p i e * o1 n i e) + (\<Sum>d<K. \<Sum>e<V. D (Suc n) d e * H1 (Suc n) d e)
      = (\<Sum>d<K. \<Sum>e<V. state_grad BT (?cv n (q 0)) (?cv n (W 0)) (decay_in BT (gt 0) n) (decay_all BT (gt 0) n) (D (Suc n)) (?cv n p) (Y n) d e * H1 n d e) + (\<Sum>i<BT. \<Sum>e<V. Y n i e * u1 n i e)
    + (\<Sum>i<BT. \<Sum>d<K. chunk_dq BT (?cv n (k 0)) (qi n) (ds n) i d * ?cv n q' i d)
    + (\<Sum>i<BT. \<Sum>d<K. chunk_dk BT (?cv n (q 0)) (ki n) (ds n) i d * ?cv n k' i d)
    + (\<Sum>i<BT. \<Sum>d<K. - wi n i d * w1 n i d)
    + (\<Sum>i<BT. chunk_dc BT K (?cv n (q 0)) (?cv n (k 0)) (?cv n (W 0)) (qi n) (ki n) (wi n) (ds n) i * c' n i)
    + last_dc BT K V (?cv n (k 0)) (ki n) (H 0 n) (D (Suc n)) (decay_all BT (gt 0) n) * c' n (BT - 1)"
      by (rule chunk_gradient [where x' = "x1 n" and cl = "c' n (BT - 1)" and x = "X 0 n" and l = "decay_out BT (gt 0) n" and E = "decay_between BT (gt 0) n"])
        (simp_all add: x1_def o1_def next1 Y chunk_values_def ds qi ki wi)
    then show ?thesis unfolding Dn [symmetric] R_def by (simp add: chunk_view_def)
  qed
  have all: "(\<Sum>n<m. \<Sum>i<BT. \<Sum>e<V. p (n * BT + i) e * o1 n i e) + (\<Sum>d<K. \<Sum>e<V. D m d e * H1 m d e)
      = (\<Sum>d<K. \<Sum>e<V. D 0 d e * H1 0 d e) + (\<Sum>n<m. R n)" if "m \<le> NT" for m
    using that
  proof (induction m)
    case (Suc m)
    then show ?case using chunk [of m] by simp
  qed simp
  have "(?loss has_real_derivative (\<Sum>n<NT. \<Sum>i<BT. \<Sum>e<V. p (n * BT + i) e * o1 n i e)
      + (\<Sum>d<K. \<Sum>e<V. dht d e * H1 NT d e)) (at 0)"
    by (intro DERIV_add DERIV_sum DERIV_cmult out H1) auto
  moreover have "(\<Sum>n<NT. \<Sum>i<BT. \<Sum>e<V. p (n * BT + i) e * o1 n i e) + (\<Sum>d<K. \<Sum>e<V. dht d e * H1 NT d e)
      = (\<Sum>d<K. \<Sum>e<V. D 0 d e * S0' d e) + (\<Sum>n<NT. R n)"
    using all [of NT] by (simp add: D start)
  moreover have "(\<Sum>n<NT. R n) = (\<Sum>n<NT. (\<Sum>i<BT. \<Sum>d<K. chunk_dq BT (?cv n (k 0)) (qi n) (ds n) i d * ?cv n q' i d)
        + (\<Sum>i<BT. \<Sum>d<K. (chunk_dk BT (?cv n (q 0)) (ki n) (ds n) i d
             + wy_dk BT (?cv n (k 0)) (?cv n (b 0)) (Zw n) (G n) i d) * ?cv n k' i d)
        + (\<Sum>i<BT. \<Sum>d<V. Zu n i d * ?cv n (b 0) i * ?cv n v' i d)
        + (\<Sum>i<BT. wy_db BT K V (?cv n (k 0)) (?cv n (v 0)) (Zw n) (Zu n) (G n) i * ?cv n b' i)
        + (\<Sum>i<BT. (chunk_dc BT K (?cv n (q 0)) (?cv n (k 0)) (?cv n (W 0)) (qi n) (ki n) (wi n) (ds n) i
             + wy_dc BT (P n) i) * c' n i)
        + last_dc BT K V (?cv n (k 0)) (ki n) (H 0 n) (D (Suc n)) (decay_all BT (gt 0) n) * c' n (BT - 1))"
  proof (rule sum.cong [OF refl])
    fix n
    show "R n = (\<Sum>i<BT. \<Sum>d<K. chunk_dq BT (?cv n (k 0)) (qi n) (ds n) i d * ?cv n q' i d)
        + (\<Sum>i<BT. \<Sum>d<K. (chunk_dk BT (?cv n (q 0)) (ki n) (ds n) i d
             + wy_dk BT (?cv n (k 0)) (?cv n (b 0)) (Zw n) (G n) i d) * ?cv n k' i d)
        + (\<Sum>i<BT. \<Sum>d<V. Zu n i d * ?cv n (b 0) i * ?cv n v' i d)
        + (\<Sum>i<BT. wy_db BT K V (?cv n (k 0)) (?cv n (v 0)) (Zw n) (Zu n) (G n) i * ?cv n b' i)
        + (\<Sum>i<BT. (chunk_dc BT K (?cv n (q 0)) (?cv n (k 0)) (?cv n (W 0)) (qi n) (ki n) (wi n) (ds n) i
             + wy_dc BT (P n) i) * c' n i)
        + last_dc BT K V (?cv n (k 0)) (ki n) (H 0 n) (D (Suc n)) (decay_all BT (gt 0) n) * c' n (BT - 1)"
      unfolding R_def distrib_right sum.distrib using wu [of n] by linarith
  qed
  ultimately show ?thesis by (simp only:)
qed

end
