(* ===== verification/FlaBackWY.thy ===== *)
theory FlaBackWY
  imports Adjoint
begin

text \<open>
  The backward half of \<open>lit_gpt/gated_delta_rule_ops/fla_version/wy_fast_fla.py\<close>: the kernel that turns
  the gradients of \<open>w\<close> and \<open>u\<close> into gradients of the keys, values, \<open>beta\<close> and cumulative decays, and its
  launch.  \<open>dk\<close> is written in a first loop and read back and completed in a third one, as in the code.
\<close>

section \<open>The kernel\<close>

definition at_seq1 :: "nat \<Rightarrow> (vec \<Rightarrow> vec) \<Rightarrow> vec \<Rightarrow> vec" where
  "at_seq1 bos f x = (\<lambda>r. if bos \<le> r then f (seq_view bos x) (r - bos) else x r)"

definition st1 :: "vec \<Rightarrow> nat \<Rightarrow> nat \<Rightarrow> nat \<Rightarrow> vec \<Rightarrow> vec" where
  "st1 x rows i0 R blk = (\<lambda>r. if i0 \<le> r \<and> r < i0 + R \<and> r < rows then blk (r - i0) else x r)"

definition strict_mask :: "mat \<Rightarrow> mat" where
  "strict_mask A = (\<lambda>i j. if i > j then A i j else 0)"

text \<open>\<open>tl.sum(A * B, 1)\<close> over \<open>n\<close> columns.\<close>

definition row_sums :: "nat \<Rightarrow> mat \<Rightarrow> mat \<Rightarrow> vec" where
  "row_sums n A B = (\<lambda>i. \<Sum>c<n. A i c * B i c)"

text \<open>
  One of the first two loops, over the column blocks of \<open>x\<close>: the outer products for the matrix
  gradient, the row gradients, which are stored to \<open>dx\<close>, and their part of \<open>dbeta\<close>.
\<close>

definition back_blocks :: "fla_env \<Rightarrow> nat \<Rightarrow> nat \<Rightarrow> nat \<Rightarrow> nat \<Rightarrow> nat \<Rightarrow> nat \<Rightarrow> mat \<Rightarrow> mat \<Rightarrow> mat \<Rightarrow> vec
    \<Rightarrow> mat \<times> vec \<times> mat \<Rightarrow> mat \<times> vec \<times> mat" where
  "back_blocks F bos T D BT B i_t b_A x dy b_beta = for_loop (cdiv D B) (\<lambda>i (b_dA, b_dbeta, dx).
     let b_x = ld x T D (i_t * BT) (i * B);
         b_x_beta = mcast (to_in (base F)) (scale_rows b_x b_beta);
         b_dy = ld dy T D (i_t * BT) (i * B);
         b_dA = madd b_dA (dot B b_dy (tr b_x_beta));
         b_dx_beta = dot BT b_A b_dy;
         b_dx = scale_rows b_dx_beta b_beta;
         b_dbeta = (\<lambda>i. b_dbeta i + row_sums B b_dx_beta b_x i)
     in (b_dA, b_dbeta, at_seq bos (\<lambda>dx. st dx T D (i_t * BT) (i * B) BT B (mcast (to_in (base F)) b_dx)) dx))"

text \<open>The gradient of the matrix that was inverted: \<open>- A (tril(dA) A)\<close> below the diagonal.\<close>

definition sandwich :: "fla_env \<Rightarrow> nat \<Rightarrow> mat \<Rightarrow> mat \<Rightarrow> mat" where
  "sandwich F BT b_A b_dA =
     (let b_dA = strict_mask b_dA;
          b_dA = dot BT (mcast (to_in (base F)) b_dA) b_A;
          b_dA = dot BT b_A (mcast (to_in (base F)) b_dA)
      in mcast (to_in (base F)) (neg_strict_lower b_dA))"

text \<open>The third loop: the products of the keys again, and what the matrix gradient \<open>b_dA\<close> adds to \<open>dk\<close>.\<close>

definition key_blocks :: "fla_env \<Rightarrow> nat \<Rightarrow> nat \<Rightarrow> nat \<Rightarrow> nat \<Rightarrow> nat \<Rightarrow> nat \<Rightarrow> mat \<Rightarrow> vec \<Rightarrow> mat
    \<Rightarrow> mat \<times> vec \<times> mat \<Rightarrow> mat \<times> vec \<times> mat" where
  "key_blocks F bos T K BT BK i_t k b_beta b_dA = for_loop (cdiv K BK) (\<lambda>i_k (b_A, b_dbeta, dk).
     let b_k = ld k T K (i_t * BT) (i_k * BK);
         b_dk = ld (seq_view bos dk) T K (i_t * BT) (i_k * BK);
         b_k_beta = mcast (to_in (base F)) (scale_rows b_k b_beta);
         b_A = madd b_A (dot BK b_k_beta (tr b_k));
         b_dk_beta = dot BT b_dA b_k;
         b_dbeta = (\<lambda>i. b_dbeta i + row_sums BK b_dk_beta b_k i);
         b_dk = madd b_dk (dot BT (tr b_dA) b_k_beta);
         b_dk = madd b_dk (scale_rows b_dk_beta b_beta)
     in (b_A, b_dbeta, at_seq bos (\<lambda>dk. st dk T K (i_t * BT) (i_k * BK) BT BK (mcast (to_in (base F)) b_dk)) dk))"

definition fla_bwd_prepare_wy_repr_kernel ::
  "fla_env \<Rightarrow> nat list option \<Rightarrow> (nat \<times> nat) list \<Rightarrow> nat \<Rightarrow> nat \<Rightarrow> nat \<Rightarrow> nat \<Rightarrow> nat \<Rightarrow> nat \<Rightarrow> mat \<Rightarrow> mat \<Rightarrow> vec \<Rightarrow> vec
     \<Rightarrow> mat \<Rightarrow> mat \<Rightarrow> mat \<Rightarrow> mat \<Rightarrow> nat \<Rightarrow> mat \<times> mat \<times> vec \<times> vec \<Rightarrow> mat \<times> mat \<times> vec \<times> vec" where
  "fla_bwd_prepare_wy_repr_kernel F offsets indices T K V BT BK BV k v beta g Aw Au dw du i_t = (\<lambda>(dk, dv, dbeta, dg).
     (let (bos, T, i_t) = program_chunk offsets indices T i_t;
          k = seq_view bos k; v = seq_view bos v; dw = seq_view bos dw; du = seq_view bos du;
          b_beta = ld1 (seq_view bos beta) T (i_t * BT);
          b_A = tr (ld (seq_view bos Aw) T BT (i_t * BT) 0);
          (b_dA, b_dbeta, dk) = back_blocks F bos T K BT BK i_t b_A k dw b_beta (zero_tile, (\<lambda>i. 0), dk);
          b_dA = sandwich F BT b_A b_dA;
          b_A = tr (ld (seq_view bos Au) T BT (i_t * BT) 0);
          (b_dA2, b_dbeta, dv) = back_blocks F bos T V BT BV i_t b_A v du b_beta (zero_tile, b_dbeta, dv);
          b_dA2 = sandwich F BT b_A b_dA2;
          b_g = ld1 (seq_view bos g) T (i_t * BT);
          b_dA2 = (\<lambda>i j. b_dA2 i j * safe_exp F (b_g i - b_g j));
          b_dA = mcast (to_in (base F)) (madd b_dA b_dA2);
          (b_A, b_dbeta, dk) = key_blocks F bos T K BT BK i_t k b_beta b_dA (zero_tile, b_dbeta, dk);
          b_dA2 = (\<lambda>i j. b_dA2 i j * b_A i j);
          b_dg = (\<lambda>i. (\<Sum>j<BT. b_dA2 i j) - (\<Sum>j<BT. b_dA2 j i))
      in (dk, dv, at_seq1 bos (\<lambda>dbeta. st1 dbeta T (i_t * BT) BT (\<lambda>i. to_in (base F) (b_dbeta i))) dbeta,
          at_seq1 bos (\<lambda>dg. st1 dg T (i_t * BT) BT b_dg) dg)))"

text \<open>
  \<open>dg\<close> has the element type of the \<open>g\<close> it is like, which is single precision; \<open>dbeta\<close> that of \<open>beta\<close>.
  Uninitialised vectors are the first column of the environment's uninitialised memory.
\<close>

definition fla_bwd_prepare_wy_repr ::
  "fla_env \<Rightarrow> nat list option \<Rightarrow> (nat \<times> nat) list option \<Rightarrow> nat \<Rightarrow> nat \<Rightarrow> nat \<Rightarrow> nat \<Rightarrow> mat \<Rightarrow> mat \<Rightarrow> vec \<Rightarrow> vec
     \<Rightarrow> mat \<Rightarrow> mat \<Rightarrow> mat \<Rightarrow> mat \<Rightarrow> mat \<times> mat \<times> vec \<times> vec" where
  "fla_bwd_prepare_wy_repr F offsets indices chunk_size T K V k v g beta Aw Au dw du =
     (let BT = chunk_block F chunk_size T;
          indices = (case offsets of None \<Rightarrow> [] | Some os \<Rightarrow>
                       (case indices of None \<Rightarrow> chunk_indices os BT | Some ixs \<Rightarrow> ixs));
          NT = (case offsets of None \<Rightarrow> cdiv T BT | Some os \<Rightarrow> length indices);
          BK = min (next_pow2 (base F) K) 64;
          BV = min (next_pow2 (base F) V) 64
      in for_loop NT (fla_bwd_prepare_wy_repr_kernel F offsets indices T K V BT BK BV k v beta g Aw Au dw du)
           (uninit (base F), uninit (base F), (\<lambda>t. uninit (base F) t 0), (\<lambda>t. uninit (base F) t 0)))"

section \<open>What the kernel computes\<close>

lemma for_loop_madd_sums:
  "for_loop n (\<lambda>i (A, b, s). (madd A (f i), (\<lambda>r. b r + h i r), g i s)) (A0, b0, s0)
     = ((\<lambda>r c. A0 r c + (\<Sum>i<n. f i r c)), (\<lambda>r. b0 r + (\<Sum>i<n. h i r)), for_loop n g s0)"
  by (induction n) (auto simp: madd_def fun_eq_iff add.assoc)

lemma ld_view: "ld M T C (n * BT) c i j = (if c + j < C then chunk_view BT n (pad_rows T M) i (c + j) else 0)"
  by (simp add: ld_padded chunk_view_def)

lemma ld1_view: "ld1 x T (n * BT) = chunk_view BT n (pad_vec T x)"
  by (simp add: fun_eq_iff ld1_padded chunk_view_def)

text \<open>Stores of consecutive column blocks through a sequence pointer.\<close>

lemma at_seq_store_cols:
  assumes B: "0 < B"
  shows "for_loop m (\<lambda>i. at_seq bos (\<lambda>M. st M len D i0 (i * B) R B (f i))) M0 r c =
    (if bos \<le> r \<and> i0 \<le> r - bos \<and> r - bos < i0 + R \<and> r - bos < len \<and> c < D \<and> c div B < m
     then f (c div B) (r - bos - i0) (c mod B) else M0 r c)"
proof (induction m)
  case (Suc m)
  have blk: "m * B \<le> c \<and> c < m * B + B \<longleftrightarrow> c div B = m" by (rule block_rows_iff [OF B])
  have off: "c div B = m \<Longrightarrow> c - m * B = c mod B" by (rule block_offset)
  show ?case
    using Suc.IH blk off by (auto simp: st_def at_seq_def seq_view_def less_Suc_eq)
qed simp

lemma back_blocks_value:
  assumes E: "exact_casts (base F)" and B: "0 < B" and BT: "0 < BT"
    and res: "back_blocks F bos len D BT B n b_A x dy b (dA0, db0, dx0) = (dA1, db1, dx1)"
    and X: "X = chunk_view BT n (pad_rows len x)" and Y: "Y = chunk_view BT n (pad_rows len dy)"
  shows "dA1 i j = dA0 i j + (\<Sum>c<D. Y i c * (X j c * b j))"
    and "db1 i = db0 i + (\<Sum>c<D. dot BT b_A Y i c * X i c)"
    and "t < len \<Longrightarrow> t div BT = n \<Longrightarrow> c < D \<Longrightarrow> dx1 (bos + t) c = dot BT b_A Y (t mod BT) c * b (t mod BT)"
    and "\<not> owns BT (bos, len, n) r \<Longrightarrow> dx1 r = dx0 r"
proof -
  have casts: "mcast (to_in (base F)) M = M" for M using E by (simp add: exact_casts_def mcast_def)
  have run: "back_blocks F bos len D BT B n b_A x dy b (dA0, db0, dx0) =
     ((\<lambda>r c. dA0 r c + (\<Sum>i<cdiv D B. dot B (ld dy len D (n * BT) (i * B)) (tr (scale_rows (ld x len D (n * BT) (i * B)) b)) r c)),
      (\<lambda>r. db0 r + (\<Sum>i<cdiv D B. row_sums B (dot BT b_A (ld dy len D (n * BT) (i * B))) (ld x len D (n * BT) (i * B)) r)),
      for_loop (cdiv D B) (\<lambda>i. at_seq bos (\<lambda>M. st M len D (n * BT) (i * B) BT B
        (scale_rows (dot BT b_A (ld dy len D (n * BT) (i * B))) b))) dx0)"
    unfolding back_blocks_def Let_def casts by (rule for_loop_madd_sums)
  have ldx: "ld x len D (n * BT) c i j = (if c + j < D then X i (c + j) else 0)"
    and ldy: "ld dy len D (n * BT) c i j = (if c + j < D then Y i (c + j) else 0)" for c i j
    by (simp_all add: ld_view X Y)
  have dotA: "dot BT b_A (ld dy len D (n * BT) c) i j = (if c + j < D then dot BT b_A Y i (c + j) else 0)" for c i j
    by (simp add: dot_def ldy)
  have "dA1 i j = dA0 i j + (\<Sum>b'<cdiv D B. \<Sum>l<B. (if b' * B + l < D then Y i (b' * B + l) else 0)
      * (if b' * B + l < D then X j (b' * B + l) * b j else 0))"
    using res unfolding run by (auto simp: dot_def tr_def scale_rows_def ldx ldy intro!: sum.cong)
  also have "(\<Sum>b'<cdiv D B. \<Sum>l<B. (if b' * B + l < D then Y i (b' * B + l) else 0)
      * (if b' * B + l < D then X j (b' * B + l) * b j else 0)) = (\<Sum>c<D. Y i c * (X j c * b j))"
    by (rule blocked_dot [OF B]) simp
  finally show "dA1 i j = dA0 i j + (\<Sum>c<D. Y i c * (X j c * b j))" .
  have "db1 i = db0 i + (\<Sum>b'<cdiv D B. \<Sum>l<B. (if b' * B + l < D then dot BT b_A Y i (b' * B + l) else 0)
      * (if b' * B + l < D then X i (b' * B + l) else 0))"
    using res unfolding run by (auto simp: row_sums_def dotA ldx)
  also have "(\<Sum>b'<cdiv D B. \<Sum>l<B. (if b' * B + l < D then dot BT b_A Y i (b' * B + l) else 0)
      * (if b' * B + l < D then X i (b' * B + l) else 0)) = (\<Sum>c<D. dot BT b_A Y i c * X i c)"
    by (rule blocked_dot [OF B]) simp
  finally show "db1 i = db0 i + (\<Sum>c<D. dot BT b_A Y i c * X i c)" .
  have dx: "dx1 r c = (if bos \<le> r \<and> n * BT \<le> r - bos \<and> r - bos < n * BT + BT \<and> r - bos < len \<and> c < D \<and> c div B < cdiv D B
     then scale_rows (dot BT b_A (ld dy len D (n * BT) (c div B * B))) b (r - bos - n * BT) (c mod B) else dx0 r c)" for r c
  proof -
    have "dx1 = for_loop (cdiv D B) (\<lambda>i. at_seq bos (\<lambda>M. st M len D (n * BT) (i * B) BT B
        (scale_rows (dot BT b_A (ld dy len D (n * BT) (i * B))) b))) dx0"
      using res unfolding run by simp
    then show ?thesis by (simp only: at_seq_store_cols [OF B])
  qed
  show "dx1 (bos + t) c = dot BT b_A Y (t mod BT) c * b (t mod BT)" if "t < len" "t div BT = n" "c < D"
    using that block_rows_iff [OF BT, of n t] block_offset [OF that(2)] block_in_cdiv [OF B that(3)]
    by (simp add: dx scale_rows_def dotA)
  show "dx1 r = dx0 r" if "\<not> owns BT (bos, len, n) r"
    using that block_rows_iff [OF BT, of n "r - bos"] by (auto simp: fun_eq_iff dx owns_def)
qed

text \<open>Rows past the end of the sequence receive nothing through the transposed solution.\<close>

lemma back_rows_outside:
  assumes A: "A = chunk_solution BT a" and dy: "\<And>i c. i < BT \<Longrightarrow> len \<le> n * BT + i \<Longrightarrow> dy i c = 0"
    and l: "l < BT" "len \<le> n * BT + l"
  shows "back_rows BT A dy l c = 0"
proof -
  have "A i l * dy i c = 0" if "i < BT" for i
  proof (cases "i < l")
    case True
    then show ?thesis using tl_wy.eye_upper [OF neg_strict_lower_strict that] by (simp add: A chunk_solution_def)
  next
    case False
    then show ?thesis using dy [OF that] l by simp
  qed
  then show ?thesis by (auto simp: back_rows_def intro!: sum.neutral)
qed

lemma sandwich_value:
  assumes E: "exact_casts (base F)" and A: "A = chunk_solution BT a"
    and bA: "\<And>i j. i < BT \<Longrightarrow> j < BT \<Longrightarrow> b_A i j = (if n * BT + j < len then A j i else 0)"
    and dA: "\<And>p r. p < BT \<Longrightarrow> r < BT \<Longrightarrow> dA p r = (\<Sum>c<C. dy p c * sb r c)"
    and dy: "\<And>i c. i < BT \<Longrightarrow> len \<le> n * BT + i \<Longrightarrow> dy i c = 0"
    and y: "\<And>m c. m < BT \<Longrightarrow> y m c = (\<Sum>r<BT. A m r * sb r c)" and y0: "\<And>m c. m < BT \<Longrightarrow> len \<le> n * BT + m \<Longrightarrow> y m c = 0"
    and lm: "l < BT" "m < BT"
  shows "sandwich F BT b_A dA l m = solve_grad BT C A dy y l m"
proof -
  have casts: "mcast (to_in (base F)) M = M" for M using E by (simp add: exact_casts_def mcast_def)
  have S: "sandwich F BT b_A dA l m = (if m < l then - (\<Sum>p<BT. b_A l p * (\<Sum>r<BT. (if r < p then dA p r else 0) * b_A r m)) else 0)"
    by (simp add: sandwich_def casts neg_strict_lower_def dot_def strict_mask_def)
  show ?thesis
  proof (cases "m < l")
    case False
    then show ?thesis by (simp add: S solve_grad_def)
  next
    case ml: True
    show ?thesis
    proof (cases "n * BT + m < len")
      case False
      then have "b_A r m = 0" "y m c = 0" if "r < BT" for r c using bA [OF that lm(2)] y0 [OF lm(2)] by simp_all
      then show ?thesis using lm by (auto simp: S solve_grad_def)
    next
      case True
      have "(\<Sum>p<BT. b_A l p * (\<Sum>r<BT. (if r < p then dA p r else 0) * b_A r m))
          = (\<Sum>p<BT. A p l * (\<Sum>r<BT. (if r < p then \<Sum>c<C. dy p c * sb r c else 0) * A m r))"
      proof (intro sum.cong refl)
        fix p assume "p \<in> {..<BT}"
        then have p: "p < BT" by simp
        have inner: "(\<Sum>r<BT. (if r < p then dA p r else 0) * b_A r m) = (\<Sum>r<BT. (if r < p then \<Sum>c<C. dy p c * sb r c else 0) * A m r)"
          using True p lm(2) by (intro sum.cong refl) (simp add: bA dA)
        have none: "(\<Sum>r<BT. (if r < p then \<Sum>c<C. dy p c * sb r c else 0) * A m r) = 0" if "len \<le> n * BT + p"
          using dy [OF p that] by (simp cong: if_cong)
        show "b_A l p * (\<Sum>r<BT. (if r < p then dA p r else 0) * b_A r m)
          = A p l * (\<Sum>r<BT. (if r < p then \<Sum>c<C. dy p c * sb r c else 0) * A m r)"
          using none bA [OF lm(1) p] unfolding inner by (cases "n * BT + p < len") simp_all
      qed
      also have "\<dots> = (\<Sum>c<C. (\<Sum>p<BT. A p l * dy p c) * y m c)"
        unfolding A chunk_solution_def
        by (rule tl_wy.masked_sandwich [OF neg_strict_lower_strict ml lm(1)]) (simp add: y [OF lm(2)] A chunk_solution_def)
      finally show ?thesis using ml by (simp add: S solve_grad_def back_rows_def)
    qed
  qed
qed

text \<open>A loop that reads back what it stored before in the block it is about to store.\<close>

lemma at_seq_update_cols:
  assumes B: "0 < B"
  shows "for_loop m (\<lambda>i dk. at_seq bos (\<lambda>M. st M len D i0 (i * B) R B (\<lambda>r c. ld (seq_view bos dk) len D i0 (i * B) r c + f i r c)) dk) M0 r c =
    (if bos \<le> r \<and> i0 \<le> r - bos \<and> r - bos < i0 + R \<and> r - bos < len \<and> c < D \<and> c div B < m
     then M0 r c + f (c div B) (r - bos - i0) (c mod B) else M0 r c)"
proof (induction m)
  case (Suc m)
  have blk: "m * B \<le> c \<and> c < m * B + B \<longleftrightarrow> c div B = m" by (rule block_rows_iff [OF B])
  have off: "c div B = m \<Longrightarrow> c - m * B = c mod B" "c div B = m \<Longrightarrow> m * B + c mod B = c"
    by (rule block_offset, assumption) auto
  show ?case
    using Suc.IH blk off by (auto simp: st_def at_seq_def seq_view_def ld_def less_Suc_eq)
qed simp

lemma key_blocks_value:
  assumes E: "exact_casts (base F)" and B: "0 < BK" and BT: "0 < BT"
    and res: "key_blocks F bos len K BT BK n k b G (A0, db0, dk0) = (A1, db1, dk1)"
    and X: "X = chunk_view BT n (pad_rows len k)"
  shows "A1 i j = A0 i j + b i * (\<Sum>d<K. X i d * X j d)"
    and "db1 i = db0 i + (\<Sum>d<K. (\<Sum>m<BT. G i m * X m d) * X i d)"
    and "t < len \<Longrightarrow> t div BT = n \<Longrightarrow> d < K \<Longrightarrow> dk1 (bos + t) d = dk0 (bos + t) d
      + (\<Sum>p<BT. G p (t mod BT) * (X p d * b p)) + (\<Sum>m<BT. G (t mod BT) m * X m d) * b (t mod BT)"
    and "\<not> owns BT (bos, len, n) r \<Longrightarrow> dk1 r = dk0 r"
proof -
  have casts: "mcast (to_in (base F)) M = M" for M using E by (simp add: exact_casts_def mcast_def)
  let ?k = "\<lambda>i. ld k len K (n * BT) (i * BK)"
  let ?upd = "\<lambda>i dk. at_seq bos (\<lambda>M. st M len K (n * BT) (i * BK) BT BK (\<lambda>r c. ld (seq_view bos dk) len K (n * BT) (i * BK) r c
        + (dot BT (tr G) (scale_rows (?k i) b) r c + dot BT G (?k i) r c * b r))) dk"
  have run: "key_blocks F bos len K BT BK n k b G (A0, db0, dk0) =
     ((\<lambda>r c. A0 r c + (\<Sum>i<cdiv K BK. dot BK (scale_rows (?k i) b) (tr (?k i)) r c)),
      (\<lambda>r. db0 r + (\<Sum>i<cdiv K BK. row_sums BK (dot BT G (?k i)) (?k i) r)), for_loop (cdiv K BK) ?upd dk0)"
  proof -
    have body: "madd (madd x (dot BT (tr G) (scale_rows (?k i) b))) (scale_rows (dot BT G (?k i)) b)
       = (\<lambda>r c. x r c + (dot BT (tr G) (scale_rows (?k i) b) r c + dot BT G (?k i) r c * b r))" for x i
      by (simp add: madd_def scale_rows_def fun_eq_iff)
    show ?thesis unfolding key_blocks_def Let_def casts body by (rule for_loop_madd_sums)
  qed
  have ldk: "?k i r c = (if i * BK + c < K then X r (i * BK + c) else 0)" for i r c by (simp add: ld_view X)
  have dotG: "dot BT G (?k i) r c = (if i * BK + c < K then \<Sum>m<BT. G r m * X m (i * BK + c) else 0)" for i r c
    by (simp add: dot_def ldk)
  have "A1 i j = A0 i j + (\<Sum>b'<cdiv K BK. \<Sum>l<BK. (if b' * BK + l < K then X i (b' * BK + l) * b i else 0)
      * (if b' * BK + l < K then X j (b' * BK + l) else 0))"
    using res unfolding run by (auto simp: dot_def tr_def scale_rows_def ldk intro!: sum.cong)
  also have "(\<Sum>b'<cdiv K BK. \<Sum>l<BK. (if b' * BK + l < K then X i (b' * BK + l) * b i else 0)
      * (if b' * BK + l < K then X j (b' * BK + l) else 0)) = (\<Sum>d<K. b i * (X i d * X j d))"
    by (rule blocked_dot [OF B]) simp
  finally show "A1 i j = A0 i j + b i * (\<Sum>d<K. X i d * X j d)" by (simp add: sum_distrib_left)
  have "db1 i = db0 i + (\<Sum>b'<cdiv K BK. \<Sum>l<BK. (if b' * BK + l < K then \<Sum>m<BT. G i m * X m (b' * BK + l) else 0)
      * (if b' * BK + l < K then X i (b' * BK + l) else 0))"
    using res unfolding run by (auto simp: row_sums_def dotG ldk)
  also have "(\<Sum>b'<cdiv K BK. \<Sum>l<BK. (if b' * BK + l < K then \<Sum>m<BT. G i m * X m (b' * BK + l) else 0)
      * (if b' * BK + l < K then X i (b' * BK + l) else 0)) = (\<Sum>d<K. (\<Sum>m<BT. G i m * X m d) * X i d)"
    by (rule blocked_dot [OF B]) simp
  finally show "db1 i = db0 i + (\<Sum>d<K. (\<Sum>m<BT. G i m * X m d) * X i d)" .
  have dk: "dk1 r c = (if bos \<le> r \<and> n * BT \<le> r - bos \<and> r - bos < n * BT + BT \<and> r - bos < len \<and> c < K \<and> c div BK < cdiv K BK
     then dk0 r c + (dot BT (tr G) (scale_rows (?k (c div BK)) b) (r - bos - n * BT) (c mod BK)
         + dot BT G (?k (c div BK)) (r - bos - n * BT) (c mod BK) * b (r - bos - n * BT)) else dk0 r c)" for r c
  proof -
    have "dk1 = for_loop (cdiv K BK) ?upd dk0" using res unfolding run by simp
    then show ?thesis by (simp only: at_seq_update_cols [OF B])
  qed
  show "dk1 (bos + t) d = dk0 (bos + t) d + (\<Sum>p<BT. G p (t mod BT) * (X p d * b p)) + (\<Sum>m<BT. G (t mod BT) m * X m d) * b (t mod BT)"
    if "t < len" "t div BT = n" "d < K"
    using that block_rows_iff [OF BT, of n t] block_offset [OF that(2)] block_in_cdiv [OF B that(3)]
    by (simp add: dk dotG) (simp add: dot_def tr_def scale_rows_def ldk)
  show "dk1 r = dk0 r" if "\<not> owns BT (bos, len, n) r"
    using that block_rows_iff [OF BT, of n "r - bos"] by (auto simp: fun_eq_iff dk owns_def)
qed

lemma at_seq1_st1:
  assumes BT: "0 < BT"
  shows "t < len \<Longrightarrow> t div BT = n \<Longrightarrow> at_seq1 bos (\<lambda>x. st1 x len (n * BT) BT blk) y (bos + t) = blk (t mod BT)"
    and "\<not> owns BT (bos, len, n) r \<Longrightarrow> at_seq1 bos (\<lambda>x. st1 x len (n * BT) BT blk) y r = y r"
proof -
  show "at_seq1 bos (\<lambda>x. st1 x len (n * BT) BT blk) y (bos + t) = blk (t mod BT)" if "t < len" "t div BT = n"
    using that block_rows_iff [OF BT, of n t] block_offset [OF that(2)] by (simp add: at_seq1_def st1_def)
  show "at_seq1 bos (\<lambda>x. st1 x len (n * BT) BT blk) y r = y r" if "\<not> owns BT (bos, len, n) r"
    using that block_rows_iff [OF BT, of n "r - bos"] by (auto simp: at_seq1_def st1_def owns_def seq_view_def)
qed

lemma bwd_wy_kernel_keep:
  assumes E: "exact_casts (base F)" and p: "0 < BK" "0 < BV" "0 < BT"
    and no: "\<not> owns BT (program_chunk offsets indices T i) r"
    and res: "fla_bwd_prepare_wy_repr_kernel F offsets indices T K V BT BK BV k v beta c Aw Au dw du i (dk0, dv0, db0, dg0) = (dk, dv, db, dg)"
  shows "dk r = dk0 r \<and> dv r = dv0 r \<and> db r = db0 r \<and> dg r = dg0 r"
proof -
  obtain bos len n where pc: "program_chunk offsets indices T i = (bos, len, n)" by (rule prod_cases3)
  have no': "\<not> owns BT (bos, len, n) r" using no pc by simp
  let ?b = "ld1 (seq_view bos beta) len (n * BT)"
  obtain dA1 b1 k1 where r1: "back_blocks F bos len K BT BK n (tr (ld (seq_view bos Aw) len BT (n * BT) 0)) (seq_view bos k) (seq_view bos dw) ?b
      (zero_tile, (\<lambda>i. 0), dk0) = (dA1, b1, k1)" by (rule prod_cases3)
  obtain dA2 b2 v1 where r2: "back_blocks F bos len V BT BV n (tr (ld (seq_view bos Au) len BT (n * BT) 0)) (seq_view bos v) (seq_view bos du) ?b
      (zero_tile, b1, dv0) = (dA2, b2, v1)" by (rule prod_cases3)
  note res' = res [unfolded fla_bwd_prepare_wy_repr_kernel_def pc prod.case Let_def r1 r2]
  note keep = back_blocks_value(4) [OF E p(1,3) r1 refl refl no'] back_blocks_value(4) [OF E p(2,3) r2 refl refl no']
  show ?thesis
    using res' keep key_blocks_value(4) [OF E p(1,3) _ refl no'] at_seq1_st1(2) [OF p(3) no'] by (auto split: prod.splits)
qed

text \<open>
  One of the first two loops with the masked product after it, for a stored solution \<open>S\<close>: rows of
  \<open>M\<close> past the end load as zero, which the padded gradients cannot see.
\<close>

lemma back_half:
  assumes E: "exact_casts (base F)" and B: "0 < B" and BT: "0 < BT" and S: "S = chunk_solution BT a"
    and M: "\<forall>t j. t < len \<longrightarrow> t div BT = n \<longrightarrow> j < BT \<longrightarrow> M (bos + t) j = S (t mod BT) j"
    and xp: "xp = seq_rows bos len x" and yp: "yp = seq_rows bos len dy" and bp: "bp = seq_vec bos len beta"
    and bA: "b_A = tr (ld (seq_view bos M) len BT (n * BT) 0)"
    and y: "\<forall>m c. m < BT \<longrightarrow> y m c = dot BT S (scaled_rows BT xp bp n) m c"
    and y0: "\<forall>m c. m < BT \<longrightarrow> len \<le> n * BT + m \<longrightarrow> y m c = 0"
    and res: "back_blocks F bos len D BT B n b_A (seq_view bos x) (seq_view bos dy) (ld1 (seq_view bos beta) len (n * BT))
      (zero_tile, db0, dx0) = (dA, db, dx)"
  shows "l < BT \<Longrightarrow> m < BT \<Longrightarrow> sandwich F BT b_A dA l m = solve_grad BT D S (chunk_view BT n yp) y l m"
    and "i < BT \<Longrightarrow> db i = db0 i + (\<Sum>c<D. back_rows BT S (chunk_view BT n yp) i c * chunk_view BT n xp i c)"
    and "t < len \<Longrightarrow> t div BT = n \<Longrightarrow> c < D \<Longrightarrow>
      dx (bos + t) c = back_rows BT S (chunk_view BT n yp) (t mod BT) c * chunk_view BT n bp (t mod BT)"
    and "l < BT \<Longrightarrow> len \<le> n * BT + l \<Longrightarrow> back_rows BT S (chunk_view BT n yp) l c = 0"
proof -
  let ?Y = "chunk_view BT n yp" and ?X = "chunk_view BT n xp" and ?b = "chunk_view BT n bp"
  note val = back_blocks_value [OF E B BT res refl refl, folded xp yp, unfolded ld1_view, folded bp]
  have Y0: "?Y i c = 0" if "len \<le> n * BT + i" for i c using that by (simp add: yp chunk_view_def pad_rows_def)
  have bA': "b_A i j = (if n * BT + j < len then S j i else 0)" if "i < BT" "j < BT" for i j
    using M [rule_format, of "n * BT + j" i] that by (simp add: bA tr_def ld_def seq_view_def)
  have dotY: "dot BT b_A ?Y i c = back_rows BT S ?Y i c" if "i < BT" for i c
    unfolding dot_def back_rows_def using Y0 by (intro sum.cong refl) (simp add: bA' that)
  show "sandwich F BT b_A dA l m = solve_grad BT D S ?Y y l m" if "l < BT" "m < BT"
  proof (rule sandwich_value [OF E S bA' _ _ _ _ that])
    show "dA p r = (\<Sum>c<D. ?Y p c * (?X r c * ?b r))" for p r by (simp add: val(1) zero_tile_def)
    show "y m c = (\<Sum>r<BT. S m r * (?X r c * ?b r))" if "m < BT" for m c
      using that y by (simp add: dot_def scaled_rows_def chunk_view_def)
  qed (use Y0 y0 in auto)
  show "db i = db0 i + (\<Sum>c<D. back_rows BT S ?Y i c * ?X i c)" if "i < BT"
    by (simp add: val(2) dotY that)
  show "dx (bos + t) c = back_rows BT S ?Y (t mod BT) c * ?b (t mod BT)" if "t < len" "t div BT = n" "c < D"
    using BT by (simp add: val(3) that dotY)
  show "back_rows BT S ?Y l c = 0" if "l < BT" "len \<le> n * BT + l"
    by (rule back_rows_outside [OF S _ that]) (rule Y0)
qed

text \<open>
  The kernel on one chunk: with the stored solutions, it writes the gradients of the chunk's keys,
  values, \<open>beta\<close> and cumulative decays.
\<close>

lemma bwd_wy_kernel_value:
  assumes E: "exact_casts (base F)" "safe_exp_spec F" and p: "0 < BK" "0 < BV" "0 < BT"
    and g: "local_gate BT len g0 (seq_view bos c)" "\<And>t. t < len \<Longrightarrow> g0 t \<le> 0"
    and pc: "program_chunk offsets indices T i = (bos, len, n)"
    and kp: "kp = seq_rows bos len k" and vp: "vp = seq_rows bos len v" and bp: "bp = seq_vec bos len beta"
    and gt: "gt = gate (base F) BT len g0"
    and yw: "yw = chunk_view BT n (seq_rows bos len dw)" and yu: "yu = chunk_view BT n (seq_rows bos len du)"
    and Sw: "Sw = chunk_solution BT (chunk_gram K BT kp bp n)" and Su: "Su = chunk_solution BT (decayed_gram K BT kp bp gt n)"
    and Aw: "\<forall>t j. t < len \<longrightarrow> t div BT = n \<longrightarrow> j < BT \<longrightarrow> Aw (bos + t) j = Sw (t mod BT) j"
    and Au: "\<forall>t j. t < len \<longrightarrow> t div BT = n \<longrightarrow> j < BT \<longrightarrow> Au (bos + t) j = Su (t mod BT) j"
    and dMw: "dMw = solve_grad BT K Sw yw (chunk_view BT n (wy_w K BT kp bp))"
    and dMu: "dMu = solve_grad BT V Su yu (chunk_view BT n (wy_u K BT kp vp bp gt))"
    and e: "e = (\<lambda>i j. exp2 (gt (n * BT + i) - gt (n * BT + j)))"
    and G: "G = gram_grad dMw dMu e" and P: "P = (\<lambda>i j. dMu i j * e i j * chunk_gram K BT kp bp n i j)"
    and Zw: "Zw = back_rows BT Sw yw" and Zu: "Zu = back_rows BT Su yu"
    and res: "fla_bwd_prepare_wy_repr_kernel F offsets indices T K V BT BK BV k v beta c Aw Au dw du i (dk0, dv0, db0, dg0) = (dk, dv, db, dg)"
    and t: "t < len" "t div BT = n"
  shows "d < K \<Longrightarrow> dk (bos + t) d = wy_dk BT (chunk_view BT n kp) (chunk_view BT n bp) Zw G (t mod BT) d"
    and "d' < V \<Longrightarrow> dv (bos + t) d' = Zu (t mod BT) d' * chunk_view BT n bp (t mod BT)"
    and "db (bos + t) = wy_db BT K V (chunk_view BT n kp) (chunk_view BT n vp) Zw Zu G (t mod BT)"
    and "dg (bos + t) = wy_dc BT P (t mod BT)"
proof -
  have casts: "mcast (\<lambda>x. x) M = M" "to_in (base F) = (\<lambda>x. x)" for M using E(1) by (simp_all add: exact_casts_def mcast_def)
  have r: "t mod BT < BT" using p(3) by simp
  let ?b = "ld1 (seq_view bos beta) len (n * BT)" and ?lc = "ld1 (seq_view bos c) len (n * BT)"
  let ?bw = "tr (ld (seq_view bos Aw) len BT (n * BT) 0)" and ?bu = "tr (ld (seq_view bos Au) len BT (n * BT) 0)"
  obtain dA1 b1 k1 where r1: "back_blocks F bos len K BT BK n ?bw (seq_view bos k) (seq_view bos dw) ?b
      (zero_tile, (\<lambda>i. 0), dk0) = (dA1, b1, k1)" by (rule prod_cases3)
  obtain dA2 b2 v1 where r2: "back_blocks F bos len V BT BV n ?bu (seq_view bos v) (seq_view bos du) ?b
      (zero_tile, b1, dv0) = (dA2, b2, v1)" by (rule prod_cases3)
  let ?dM2 = "\<lambda>i j. sandwich F BT ?bu dA2 i j * safe_exp F (?lc i - ?lc j)"
  let ?G = "madd (sandwich F BT ?bw dA1) ?dM2"
  obtain A b3 k2 where r3: "key_blocks F bos len K BT BK n (seq_view bos k) ?b ?G (zero_tile, b2, k1) = (A, b3, k2)" by (rule prod_cases3)
  have out: "dk = k2" "dv = v1"
    "db = at_seq1 bos (\<lambda>x. st1 x len (n * BT) BT b3) db0"
    "dg = at_seq1 bos (\<lambda>x. st1 x len (n * BT) BT (\<lambda>i. (\<Sum>j<BT. ?dM2 i j * A i j) - (\<Sum>j<BT. ?dM2 j i * A j i))) dg0"
    using res [unfolded fla_bwd_prepare_wy_repr_kernel_def pc prod.case Let_def r1 r2 casts r3] by auto
  have wrow: "chunk_view BT n (wy_w K BT kp bp) m d = dot BT Sw (scaled_rows BT kp bp n) m d"
    "chunk_view BT n (wy_u K BT kp vp bp gt) m d = dot BT Su (scaled_rows BT vp bp n) m d" if "m < BT" for m d
    using that by (simp_all add: chunk_view_def wy_w_def wy_u_def Sw Su)
  have wout: "chunk_view BT n (wy_w K BT kp bp) m d = 0" "chunk_view BT n (wy_u K BT kp vp bp gt) m d = 0"
    if "len \<le> n * BT + m" for m d
    unfolding chunk_view_def kp vp bp by (rule wy_zero [OF p(3) that])+
  have wrows: "\<forall>m d. m < BT \<longrightarrow> chunk_view BT n (wy_w K BT kp bp) m d = dot BT Sw (scaled_rows BT kp bp n) m d"
    "\<forall>m d. m < BT \<longrightarrow> chunk_view BT n (wy_u K BT kp vp bp gt) m d = dot BT Su (scaled_rows BT vp bp n) m d"
    and wouts: "\<forall>m d. m < BT \<longrightarrow> len \<le> n * BT + m \<longrightarrow> chunk_view BT n (wy_w K BT kp bp) m d = 0"
    "\<forall>m d. m < BT \<longrightarrow> len \<le> n * BT + m \<longrightarrow> chunk_view BT n (wy_u K BT kp vp bp gt) m d = 0"
    using wrow wout by blast+
  note hw = back_half [OF E(1) p(1,3) Sw Aw kp refl bp refl wrows(1) wouts(1) r1, folded yw, folded Zw dMw]
  note hu = back_half [OF E(1) p(2,3) Su Au vp refl bp refl wrows(2) wouts(2) r2, folded yu, folded Zu dMu]
  have e': "?dM2 l m = dMu l m * e l m" if lm: "l < BT" "m < BT" for l m
  proof (cases "m < l \<and> n * BT + l < len")
    case True
    then have "?lc l = seq_view bos c (n * BT + l)" "?lc m = seq_view bos c (n * BT + m)" by (simp_all add: ld1_def)
    then have "safe_exp F (?lc l - ?lc m) = e l m"
      using safe_decay [OF E g, of m l n] True lm by (simp add: e gt)
    then show ?thesis by (simp add: hu(1) lm)
  next
    case False
    then have "dMu l m = 0" using hu(4) [OF lm(1)] by (auto simp: dMu solve_grad_def Zu)
    then show ?thesis by (simp add: hu(1) lm)
  qed
  have G': "?G l m = G l m" if "l < BT" "m < BT" for l m
    using that by (simp add: madd_def hw(1) e' G gram_grad_def)
  have lb: "?b = chunk_view BT n bp" by (simp add: ld1_view bp)
  note kb = key_blocks_value [OF E(1) p(1,3) r3 refl, folded kp, unfolded lb]
  have gram: "A l m = chunk_gram K BT kp bp n l m" for l m
    by (simp add: kb(1) zero_tile_def chunk_gram_def chunk_view_def)
  show "d < K \<Longrightarrow> dk (bos + t) d = wy_dk BT (chunk_view BT n kp) (chunk_view BT n bp) Zw G (t mod BT) d"
    by (simp add: out kb(3) t hw(3) wy_dk_def G' r cong: sum.cong_simp)
  show "d' < V \<Longrightarrow> dv (bos + t) d' = Zu (t mod BT) d' * chunk_view BT n bp (t mod BT)"
    by (simp add: out hu(3) t)
  show "db (bos + t) = wy_db BT K V (chunk_view BT n kp) (chunk_view BT n vp) Zw Zu G (t mod BT)"
    by (simp add: out at_seq1_st1(1) [OF p(3) t] kb(2) hw(2) hu(2) r wy_db_def G' cong: sum.cong_simp)
  show "dg (bos + t) = wy_dc BT P (t mod BT)"
    unfolding out at_seq1_st1(1) [OF p(3) t] wy_dc_def using r by (simp add: e' gram P cong: sum.cong_simp)
qed

text \<open>What \<open>bwd_prepare_wy_repr\<close> returns on one of the packed sequences.\<close>

lemma bwd_prepare_seq:
  assumes E: "exact_casts (base F)" "pow2_spec (base F)" "safe_exp_spec F"
    and BT: "BT = chunk_block F chunk_size T" "0 < BT"
    and off: "offsets \<noteq> None \<longrightarrow> indices \<noteq> None" and ixs: "ixs = (case indices of None \<Rightarrow> [] | Some ixs \<Rightarrow> ixs)"
    and NT: "NT = (case offsets of None \<Rightarrow> cdiv T BT | Some os \<Rightarrow> length ixs)"
    and res: "fla_bwd_prepare_wy_repr F offsets indices chunk_size T K V k v c beta Aw Au dw du = (dk, dv, db, dg)"
    and g: "local_gate BT len g0 (seq_view bos c)" "\<And>t. t < len \<Longrightarrow> g0 t \<le> 0"
    and plan: "launch_plan BT offsets ixs T NT bos len" and t: "t < len" and n: "n = t div BT"
    and kp: "kp = seq_rows bos len k" and vp: "vp = seq_rows bos len v" and bp: "bp = seq_vec bos len beta"
    and gt: "gt = gate (base F) BT len g0"
    and yw: "yw = chunk_view BT n (seq_rows bos len dw)" and yu: "yu = chunk_view BT n (seq_rows bos len du)"
    and Sw: "Sw = chunk_solution BT (chunk_gram K BT kp bp n)" and Su: "Su = chunk_solution BT (decayed_gram K BT kp bp gt n)"
    and Aw: "\<forall>t j. t < len \<longrightarrow> t div BT = n \<longrightarrow> j < BT \<longrightarrow> Aw (bos + t) j = Sw (t mod BT) j"
    and Au: "\<forall>t j. t < len \<longrightarrow> t div BT = n \<longrightarrow> j < BT \<longrightarrow> Au (bos + t) j = Su (t mod BT) j"
    and dMw: "dMw = solve_grad BT K Sw yw (chunk_view BT n (wy_w K BT kp bp))"
    and dMu: "dMu = solve_grad BT V Su yu (chunk_view BT n (wy_u K BT kp vp bp gt))"
    and e: "e = (\<lambda>i j. exp2 (gt (n * BT + i) - gt (n * BT + j)))"
    and G: "G = gram_grad dMw dMu e" and P: "P = (\<lambda>i j. dMu i j * e i j * chunk_gram K BT kp bp n i j)"
    and Zw: "Zw = back_rows BT Sw yw" and Zu: "Zu = back_rows BT Su yu"
  shows "d < K \<Longrightarrow> dk (bos + t) d = wy_dk BT (chunk_view BT n kp) (chunk_view BT n bp) Zw G (t mod BT) d"
    and "d' < V \<Longrightarrow> dv (bos + t) d' = Zu (t mod BT) d' * chunk_view BT n bp (t mod BT)"
    and "db (bos + t) = wy_db BT K V (chunk_view BT n kp) (chunk_view BT n vp) Zw Zu G (t mod BT)"
    and "dg (bos + t) = wy_dc BT P (t mod BT)"
proof -
  let ?BK = "min (next_pow2 (base F) K) 64" and ?BV = "min (next_pow2 (base F) V) 64"
  let ?u = "(uninit (base F), uninit (base F), (\<lambda>t. uninit (base F) t 0), (\<lambda>t. uninit (base F) t 0))"
  let ?prog = "fla_bwd_prepare_wy_repr_kernel F offsets ixs T K V BT ?BK ?BV k v beta c Aw Au dw du"
  have p: "0 < ?BK" "0 < ?BV" "0 < BT" using pow2_block [OF E(2)] BT(2) by auto
  have ixs': "(case offsets of None \<Rightarrow> [] | Some os \<Rightarrow> (case indices of None \<Rightarrow> chunk_indices os BT | Some ixs \<Rightarrow> ixs))
      = (case offsets of None \<Rightarrow> [] | Some os \<Rightarrow> ixs)"
    using off by (auto simp: ixs split: option.splits)
  have same: "fla_bwd_prepare_wy_repr_kernel F offsets (case offsets of None \<Rightarrow> [] | Some os \<Rightarrow> ixs) = fla_bwd_prepare_wy_repr_kernel F offsets ixs"
    by (cases offsets) (simp_all add: fla_bwd_prepare_wy_repr_kernel_def program_chunk_def fun_eq_iff)
  have NT': "(case offsets of None \<Rightarrow> cdiv T BT | Some os \<Rightarrow> length (case offsets of None \<Rightarrow> [] | Some os \<Rightarrow> ixs)) = NT"
    by (simp add: NT split: option.splits)
  have run: "for_loop NT ?prog ?u = (dk, dv, db, dg)"
    using res unfolding fla_bwd_prepare_wy_repr_def Let_def BT(1) [symmetric] ixs' same NT' .
  have keep: "fst (?prog i s) r = fst s r \<and> fst (snd (?prog i s)) r = fst (snd s) r \<and>
      fst (snd (snd (?prog i s))) r = fst (snd (snd s)) r \<and> snd (snd (snd (?prog i s))) r = snd (snd (snd s)) r"
    if "\<not> owns BT (program_chunk offsets ixs T i) r" for i s r
  proof -
    obtain a b c' d where s: "s = (a, b, c', d)" by (rule prod_cases4)
    obtain a' b' c'' d' where s': "?prog i (a, b, c', d) = (a', b', c'', d')" by (rule prod_cases4)
    show ?thesis using bwd_wy_kernel_keep [OF E(1) p that s'] unfolding s s' by simp
  qed
  have wr: "d < K \<Longrightarrow> fst (?prog i s) (bos + t) d = wy_dk BT (chunk_view BT n kp) (chunk_view BT n bp) Zw G (t mod BT) d"
    "d' < V \<Longrightarrow> fst (snd (?prog i s)) (bos + t) d' = Zu (t mod BT) d' * chunk_view BT n bp (t mod BT)"
    "fst (snd (snd (?prog i s))) (bos + t) = wy_db BT K V (chunk_view BT n kp) (chunk_view BT n vp) Zw Zu G (t mod BT)"
    "snd (snd (snd (?prog i s))) (bos + t) = wy_dc BT P (t mod BT)"
    if pc: "program_chunk offsets ixs T i = (bos, len, t div BT)" for i s d d'
  proof -
    obtain a b c' d0 where s: "s = (a, b, c', d0)" by (rule prod_cases4)
    obtain a' b' c'' d1 where s': "?prog i (a, b, c', d0) = (a', b', c'', d1)" by (rule prod_cases4)
    note val = bwd_wy_kernel_value [OF E(1,3) p g pc [folded n] kp vp bp gt yw yu Sw Su Aw Au dMw dMu e G P Zw Zu s' t n [symmetric]]
    show "d < K \<Longrightarrow> fst (?prog i s) (bos + t) d = wy_dk BT (chunk_view BT n kp) (chunk_view BT n bp) Zw G (t mod BT) d"
      "d' < V \<Longrightarrow> fst (snd (?prog i s)) (bos + t) d' = Zu (t mod BT) d' * chunk_view BT n bp (t mod BT)"
      "fst (snd (snd (?prog i s))) (bos + t) = wy_db BT K V (chunk_view BT n kp) (chunk_view BT n vp) Zw Zu G (t mod BT)"
      "snd (snd (snd (?prog i s))) (bos + t) = wy_dc BT P (t mod BT)"
      using val by (simp_all only: s s' fst_conv snd_conv)
  qed
  have L: "dk = fst (for_loop NT ?prog ?u)" "dv = fst (snd (for_loop NT ?prog ?u))"
    "db = fst (snd (snd (for_loop NT ?prog ?u)))" "dg = snd (snd (snd (for_loop NT ?prog ?u)))" by (simp_all add: run)
  show "d < K \<Longrightarrow> dk (bos + t) d = wy_dk BT (chunk_view BT n kp) (chunk_view BT n bp) Zw G (t mod BT) d"
    unfolding L by (rule launch_rows [OF plan t, where get = "\<lambda>r s. fst s r d"]) (use keep wr in auto)
  show "d' < V \<Longrightarrow> dv (bos + t) d' = Zu (t mod BT) d' * chunk_view BT n bp (t mod BT)"
    unfolding L by (rule launch_rows [OF plan t, where get = "\<lambda>r s. fst (snd s) r d'"]) (use keep wr in auto)
  show "db (bos + t) = wy_db BT K V (chunk_view BT n kp) (chunk_view BT n vp) Zw Zu G (t mod BT)"
    unfolding L by (rule launch_rows [OF plan t, where get = "\<lambda>r s. fst (snd (snd s)) r"]) (use keep wr in auto)
  show "dg (bos + t) = wy_dc BT P (t mod BT)"
    unfolding L by (rule launch_rows [OF plan t, where get = "\<lambda>r s. snd (snd (snd s)) r"]) (use keep wr in auto)
qed

end
