(* ===== verification/WYBack.thy ===== *)
theory WYBack
  imports FlaBackWY
begin

text \<open>
  The backward half of \<open>lit_gpt/gated_delta_rule_ops/wy_fast.py\<close>: the kernel for the gradients through
  the two products, the recurrence that carries the matrix gradients back through the row-wise
  substitution, the kernel for the key products and decays, and their launch; then the unbatched
  reference \<open>naive\<close> of the same file.  Slices and tiles are as in \<open>WYKernels\<close>.
\<close>

section \<open>The kernels\<close>

text \<open>
  One of the two loops of the first kernel, over the column blocks of \<open>x\<close>; \<open>c\<close> is the cast to the
  element type of \<open>dx\<close>.
\<close>

definition dA_blocks :: "kernel_env \<Rightarrow> (real \<Rightarrow> real) \<Rightarrow> nat \<Rightarrow> nat \<Rightarrow> nat \<Rightarrow> nat \<Rightarrow> nat \<Rightarrow> mat \<Rightarrow> mat \<Rightarrow> mat \<Rightarrow> vec
    \<Rightarrow> mat \<times> vec \<times> mat \<Rightarrow> mat \<times> vec \<times> mat" where
  "dA_blocks E c T D BT B i_t b_A x dy b_beta = for_loop (cdiv D B) (\<lambda>i (b_dA, b_dbeta, dx).
     let b_x = ld x T D (i_t * BT) (i * B);
         b_x_beta = mcast (to_in E) (scale_rows b_x b_beta);
         b_dy = ld dy T D (i_t * BT) (i * B);
         b_dA = madd b_dA (dot B b_dy (tr b_x_beta));
         b_dx_beta = dot BT (tr b_A) b_dy;
         b_dx = scale_rows b_dx_beta b_beta;
         b_dbeta = (\<lambda>i. b_dbeta i + row_sums B b_dx_beta b_x i)
     in (b_dA, b_dbeta, st dx T D (i_t * BT) (i * B) BT B (mcast c b_dx)))"

text \<open>
  The tiles of \<open>dA_w\<close> and \<open>dA_u\<close> are stored without a boundary check.  The state is
  \<open>(dA_w, dA_u, dk, dv, dbeta)\<close>.
\<close>

definition bwd_prepare_wy_repr_kernel_dA ::
  "kernel_env \<Rightarrow> nat \<Rightarrow> nat \<Rightarrow> nat \<Rightarrow> nat \<Rightarrow> nat \<Rightarrow> nat \<Rightarrow> mat \<Rightarrow> mat \<Rightarrow> vec \<Rightarrow> mat \<Rightarrow> mat \<Rightarrow> mat \<Rightarrow> mat \<Rightarrow> nat
     \<Rightarrow> mat \<times> mat \<times> mat \<times> mat \<times> vec \<Rightarrow> mat \<times> mat \<times> mat \<times> mat \<times> vec" where
  "bwd_prepare_wy_repr_kernel_dA E T K V BT BK BV k v beta dw du A_w A_u i_t = (\<lambda>(dA_w, dA_u, dk, dv, dbeta).
     (let b_beta = ld1 beta T (i_t * BT);
          b_A = mcast (to_in E) (ld A_u T BT (i_t * BT) 0);
          (b_dA, b_dbeta, dv) = dA_blocks E (to_in E) T V BT BV i_t b_A v du b_beta (zero_tile, (\<lambda>i. 0), dv);
          dA_u = st dA_u (i_t * BT + BT) BT (i_t * BT) 0 BT BT b_dA;
          b_A = mcast (to_in E) (ld A_w T BT (i_t * BT) 0);
          (b_dA, b_dbeta, dk) = dA_blocks E (to_f32 E) T K BT BK i_t b_A k dw b_beta (zero_tile, b_dbeta, dk);
          dA_w = st dA_w (i_t * BT + BT) BT (i_t * BT) 0 BT BT b_dA
      in (dA_w, dA_u, dk, dv, st1 dbeta T (i_t * BT) BT b_dbeta)))"

text \<open>One iteration of the recurrence: row \<open>i\<close> goes back through its own substitution step.\<close>

definition dA_row_step :: "nat \<Rightarrow> mat \<Rightarrow> mat \<Rightarrow> nat \<Rightarrow> mat \<Rightarrow> mat" where
  "dA_row_step BT b_A b_A2 i b_dA =
     (let mask = (\<lambda>r. r = i);
          b_da = (\<lambda>c. \<Sum>r<BT. if mask r then b_dA r c else 0);
          b_a = (\<lambda>c. \<Sum>r<BT. if mask r then b_A2 r c else 0);
          b_da2 = (\<lambda>r. b_da r + (\<Sum>c<BT. b_da c * b_A r c));
          b_dA = (\<lambda>r c. if mask r then b_da2 c else b_dA r c)
      in (\<lambda>r c. b_dA r c + b_da c * b_a r))"

definition bwd_prepare_wy_repr_kernel_dA_recurrence ::
  "kernel_env \<Rightarrow> nat \<Rightarrow> nat \<Rightarrow> mat \<Rightarrow> mat \<Rightarrow> mat \<Rightarrow> nat \<Rightarrow> mat \<Rightarrow> mat" where
  "bwd_prepare_wy_repr_kernel_dA_recurrence E T BT A A_original dA i_t dA_original =
     (let b_A = ld A T BT (i_t * BT) 0;
          b_dA = ld dA T BT (i_t * BT) 0;
          b_dA = neg_strict_lower b_dA;
          b_A = (\<lambda>i j. b_A i j - (if i = j then 1 else 0));
          b_A2 = ld A_original T BT (i_t * BT) 0;
          b_dA = for_loop (BT - 1) (\<lambda>m. dA_row_step BT b_A b_A2 (BT - 1 - m)) b_dA;
          b_dA = neg_strict_lower b_dA
      in st dA_original T BT (i_t * BT) 0 BT BT (mcast (to_f32 E) b_dA))"

text \<open>The state is \<open>(dk, dbeta, dg)\<close>.\<close>

definition bwd_prepare_wy_repr_dk_dbeta_dg ::
  "kernel_env \<Rightarrow> nat \<Rightarrow> nat \<Rightarrow> nat \<Rightarrow> nat \<Rightarrow> mat \<Rightarrow> vec \<Rightarrow> vec \<Rightarrow> mat \<Rightarrow> mat \<Rightarrow> mat \<Rightarrow> nat
     \<Rightarrow> mat \<times> vec \<times> vec \<Rightarrow> mat \<times> vec \<times> vec" where
  "bwd_prepare_wy_repr_dk_dbeta_dg E T K BT BK k beta g dA_w dA_u A_w i_t = (\<lambda>(dk, dbeta, dg).
     (let b_g = (\<lambda>i. g (i_t * BT + i));
          b_dAw = mcast (to_in E) (ld dA_w T BT (i_t * BT) 0);
          b_dAu = (\<lambda>i j. ld dA_u T BT (i_t * BT) 0 i j * exp2 (b_g i - b_g j));
          b_Aw = mcast (to_in E) (ld A_w T BT (i_t * BT) 0);
          b_dA = mcast (to_in E) (madd b_dAw b_dAu);
          b_dA = mcast (to_in E) (\<lambda>i j. if i \<ge> j then - b_dA i j else 0);
          b_dg_exp = (\<lambda>i j. b_dAu i j * b_Aw i j);
          b_dg_exp = (\<lambda>i j. if i \<ge> j then b_dg_exp i j else 0);
          b_dg = (\<lambda>i. (\<Sum>j<BT. b_dg_exp i j) - (\<Sum>j<BT. b_dg_exp j i));
          b_beta = ld1 beta T (i_t * BT);
          (b_dbeta, dk) = for_loop (cdiv K BK) (\<lambda>i_k (b_dbeta, dk).
            let b_k = ld k T K (i_t * BT) (i_k * BK);
                b_k_beta = mcast (to_in E) (scale_rows b_k b_beta);
                b_dk_beta = dot BT b_dA b_k;
                b_dbeta = (\<lambda>i. b_dbeta i + row_sums BK b_dk_beta b_k i);
                b_dk = madd zero_tile (dot BT (tr b_dA) b_k_beta);
                b_dk = madd b_dk (scale_rows b_dk_beta b_beta)
            in (b_dbeta, st dk T K (i_t * BT) (i_k * BK) BT BK (mcast (to_f32 E) b_dk))) ((\<lambda>i. 0), dk)
      in (dk, st1 dbeta T (i_t * BT) BT (\<lambda>i. to_f32 E (b_dbeta i)), st1 dg T (i_t * BT) BT b_dg)))"

definition bwd_prepare_wy_repr ::
  "kernel_env \<Rightarrow> nat \<Rightarrow> nat \<Rightarrow> nat \<Rightarrow> nat \<Rightarrow> mat \<Rightarrow> mat \<Rightarrow> vec \<Rightarrow> vec \<Rightarrow> mat \<Rightarrow> mat \<Rightarrow> mat \<Rightarrow> mat \<Rightarrow> mat \<Rightarrow> mat
     \<Rightarrow> mat \<times> mat \<times> vec \<times> vec" where
  "bwd_prepare_wy_repr E BT T K V k v beta g A_w A_u A_w_original A_u_original dw du =
     (let NT = cdiv T BT;
          BK = min (next_pow2 E K) 64;
          BV = min (next_pow2 E V) 64;
          empty = (\<lambda>t. uninit E t 0);
          (dA_w, dA_u, dk, dv, dbeta) =
            for_loop NT (bwd_prepare_wy_repr_kernel_dA E T K V BT BK BV k v beta dw du A_w A_u)
              (zero_tile, zero_tile, uninit E, uninit E, empty);
          dA_w_original = for_loop NT (bwd_prepare_wy_repr_kernel_dA_recurrence E T BT A_w A_w_original dA_w) zero_tile;
          dA_u_original = for_loop NT (bwd_prepare_wy_repr_kernel_dA_recurrence E T BT A_u A_u_original dA_u) zero_tile;
          (dk2, dbeta2, dg) =
            for_loop NT (bwd_prepare_wy_repr_dk_dbeta_dg E T K BT BK k beta g dA_w_original dA_u_original A_w_original)
              (uninit E, empty, empty)
      in (madd dk dk2, dv, (\<lambda>t. dbeta t + dbeta2 t), dg))"

section \<open>The recurrence is the transposed solve\<close>

context wy_solver begin

text \<open>The solution inverts \<open>I - a\<close> from the right as well.\<close>

lemma inverse_right:
  assumes a: "strict_lower a" and i: "i < n" and l: "l < n"
  shows "add_eye (solve n a) i l = (if i = l then 1 else 0) + (\<Sum>j<n. add_eye (solve n a) i j * a j l)"
proof -
  have "(if i = l then 1 else 0) = (\<Sum>j<n. add_eye (solve n a) i j * ((if j = l then 1 else 0) - a j l))"
  proof (rule unique_solution [OF a _ i, where y = "\<lambda>i. if i = l then 1 else 0"])
    fix i
    have "(\<Sum>m<i. a i m * (if m = l then 1 else 0)) = (if l < i then a i l else 0)" by (simp add: if_distrib cong: if_cong)
    then show "(if i = l then 1 else 0) = (if i = l then 1 else 0) - a i l + (\<Sum>m<i. a i m * (if m = l then 1 else 0))"
      using strict_lowerD [OF a, of i l] by auto
  qed
  also have "\<dots> = (\<Sum>j<n. if j = l then add_eye (solve n a) i j else 0) - (\<Sum>j<n. add_eye (solve n a) i j * a j l)"
    unfolding right_diff_distrib sum_subtractf by (intro arg_cong2 [where f = "(-)"] sum.cong refl) auto
  finally show ?thesis using l by simp
qed

end

lemma dA_row_step_eq:
  assumes "i < BT"
  shows "dA_row_step BT b_A b_A2 i X r c
    = (if r = i then X i c + (\<Sum>j<BT. X i j * b_A c j) else X r c) + X i c * b_A2 i r"
  using assms by (simp add: dA_row_step_def)

lemma recurrence_rows:
  assumes A: "A = chunk_solution BT a" and bA: "\<forall>r c. r < BT \<longrightarrow> c < BT \<longrightarrow> b_A r c = A r c - (if r = c then 1 else 0)"
    and bA2: "\<forall>r c. r < BT \<longrightarrow> c < BT \<longrightarrow> b_A2 r c = neg_strict_lower a r c"
    and lc: "0 < l" "l < BT" "c < BT"
  shows "for_loop (BT - 1) (\<lambda>m. dA_row_step BT b_A b_A2 (BT - 1 - m)) X0 l c = (\<Sum>j<BT. (\<Sum>p<BT. A p l * X0 p j) * A c j)"
proof -
  let ?N = "neg_strict_lower a"
  define R where "R = (\<lambda>r c. \<Sum>p<BT. A p r * X0 p c)"
  let ?body = "\<lambda>m. dA_row_step BT b_A b_A2 (BT - 1 - m)"
  let ?P = "\<lambda>m X. \<forall>r c. r < BT \<longrightarrow> c < BT \<longrightarrow> X r c = (if BT - m \<le> r then \<Sum>j<BT. R r j * A c j
      else X0 r c + (\<Sum>p\<in>{BT - m..<BT}. ?N p r * R p c))"
  have R: "R r c = X0 r c + (\<Sum>p<BT. ?N p r * R p c)" if r: "r < BT" for r c
  proof -
    have "R r c = (\<Sum>p<BT. (if p = r then X0 p c else 0) + (\<Sum>j<BT. A p j * ?N j r) * X0 p c)"
      unfolding R_def A chunk_solution_def
      by (intro sum.cong refl) (subst tl_wy.inverse_right [OF neg_strict_lower_strict _ r], auto simp: distrib_right)
    also have "\<dots> = X0 r c + (\<Sum>p<BT. \<Sum>j<BT. ?N j r * (A p j * X0 p c))"
      using r by (simp add: sum.distrib sum_distrib_left sum_distrib_right mult_ac)
    also have "(\<Sum>p<BT. \<Sum>j<BT. ?N j r * (A p j * X0 p c)) = (\<Sum>j<BT. ?N j r * R j c)"
      unfolding R_def sum_distrib_left by (rule sum.swap)
    finally show ?thesis .
  qed
  have "?P (BT - 1) (for_loop (BT - 1) ?body X0)"
  proof (rule for_loop_invariant [where P = ?P])
    show "?P 0 X0" by auto
  next
    fix m X assume m: "m < BT - 1" and X: "?P m X"
    define i where "i = BT - 1 - m"
    have i: "i < BT" "BT - m = Suc i" "BT - Suc m = i" using m by (auto simp: i_def)
    have N0: "?N p r = 0" if "p \<le> r" for p r using that by (simp add: neg_strict_lower_def)
    have Xi: "X i c = R i c" if "c < BT" for c
    proof -
      have "(\<Sum>p<BT. ?N p i * R p c) = (\<Sum>p\<in>{Suc i..<BT}. ?N p i * R p c)"
        by (rule sum.mono_neutral_right) (use N0 in auto)
      then show ?thesis using X [rule_format, OF i(1) that] R [OF i(1)] by (simp add: i(2))
    qed
    show "?P (Suc m) (?body m X)"
    proof (intro allI impI)
      fix r c assume rc: "r < BT" "c < BT"
      have row: "dA_row_step BT b_A b_A2 i X r c = (if r = i then X i c + (\<Sum>j<BT. X i j * b_A c j) else X r c) + X i c * b_A2 i r"
        by (rule dA_row_step_eq [OF i(1)])
      consider "r = i" | "i < r" | "r < i" by linarith
      then show "?body m X r c = (if BT - Suc m \<le> r then \<Sum>j<BT. R r j * A c j
          else X0 r c + (\<Sum>p\<in>{BT - Suc m..<BT}. ?N p r * R p c))"
      proof cases
        case 1
        have "(\<Sum>j<BT. X i j * b_A c j) = (\<Sum>j<BT. R i j * A c j - (if j = c then R i j else 0))"
          by (intro sum.cong refl) (use rc in \<open>auto simp: Xi bA right_diff_distrib\<close>)
        also have "\<dots> = (\<Sum>j<BT. R i j * A c j) - R i c" using rc by (simp add: sum_subtractf)
        finally show ?thesis using 1 rc row by (simp add: i(3) Xi bA2 N0)
      next
        case 2
        then show ?thesis using rc X i by (simp add: row bA2 N0)
      next
        case 3
        have "(\<Sum>p\<in>{i..<BT}. ?N p r * R p c) = ?N i r * R i c + (\<Sum>p\<in>{Suc i..<BT}. ?N p r * R p c)"
          using i(1) by (rule sum.atLeast_Suc_lessThan)
        moreover have "X r c = X0 r c + (\<Sum>p\<in>{Suc i..<BT}. ?N p r * R p c)"
          using X [rule_format, OF rc] 3 by (simp add: i(2))
        ultimately show ?thesis using 3 rc i(1) by (simp add: row Xi bA2 i(3))
      qed
    qed
  qed
  then show ?thesis using lc by (simp add: R_def)
qed

text \<open>
  So the kernel leaves, per chunk, the negative of the gradient with respect to the matrix whose
  solution was stored.
\<close>

lemma recurrence_value:
  assumes E: "exact_casts E" and p: "0 < BT" "T = NT * BT" "n < NT" and S: "S = chunk_solution BT a"
    and A: "\<forall>t j. t < T \<longrightarrow> t div BT = n \<longrightarrow> j < BT \<longrightarrow> A t j = S (t mod BT) j"
    and A0: "\<forall>t j. t < T \<longrightarrow> t div BT = n \<longrightarrow> j < BT \<longrightarrow> A0 t j = neg_strict_lower a (t mod BT) j"
    and dA: "\<forall>t j. t < T \<longrightarrow> t div BT = n \<longrightarrow> j < BT \<longrightarrow> dA t j = (\<Sum>c<C. dy (t mod BT) c * sb j c)"
    and y: "\<forall>m c. m < BT \<longrightarrow> y m c = (\<Sum>r<BT. S m r * sb r c)"
    and t: "t < T" "t div BT = n" "j < BT"
  shows "bwd_prepare_wy_repr_kernel_dA_recurrence E T BT A A0 dA n M t j = - solve_grad BT C S dy y (t mod BT) j"
proof -
  have casts: "mcast (to_f32 E) X = X" for X using E by (simp add: exact_casts_def mcast_def)
  have at: "n * BT + i < T" "(n * BT + i) div BT = n" "(n * BT + i) mod BT = i" if "i < BT" for i
    using that block_end [OF p(3), of BT] p(2) by auto
  have r: "t mod BT < BT" using p(1) by simp
  define bA where "bA = (\<lambda>i j. ld A T BT (n * BT) 0 i j - (if i = j then 1 else 0))"
  define bA2 where "bA2 = ld A0 T BT (n * BT) 0"
  define D where "D = neg_strict_lower (ld dA T BT (n * BT) 0)"
  have bA: "\<forall>r c. r < BT \<longrightarrow> c < BT \<longrightarrow> bA r c = S r c - (if r = c then 1 else 0)"
    using A at by (simp add: bA_def ld_def)
  have bA2: "\<forall>r c. r < BT \<longrightarrow> c < BT \<longrightarrow> bA2 r c = neg_strict_lower a r c" using A0 at by (simp add: bA2_def ld_def)
  have D: "D p i = - (if i < p then \<Sum>c<C. dy p c * sb i c else 0)" if "p < BT" "i < BT" for p i
    using dA at that by (simp add: D_def neg_strict_lower_def ld_def)
  let ?X = "for_loop (BT - 1) (\<lambda>m. dA_row_step BT bA bA2 (BT - 1 - m)) D"
  have "bwd_prepare_wy_repr_kernel_dA_recurrence E T BT A A0 dA n M t j = neg_strict_lower ?X (t mod BT) j"
    unfolding bwd_prepare_wy_repr_kernel_dA_recurrence_def Let_def casts st_block [OF p(1) t(1,3)]
    by (simp add: t bA_def bA2_def D_def)
  also have "\<dots> = - solve_grad BT C S dy y (t mod BT) j"
  proof (cases "j < t mod BT")
    case False
    then show ?thesis by (simp add: neg_strict_lower_def solve_grad_def)
  next
    case jl: True
    let ?l = "t mod BT"
    have "?X ?l j = (\<Sum>r<BT. (\<Sum>p<BT. S p ?l * D p r) * S j r)"
      by (rule recurrence_rows [OF S bA bA2 _ r t(3)]) (use jl in simp)
    also have "\<dots> = (\<Sum>p<BT. S p ?l * (\<Sum>r<BT. D p r * S j r))"
      unfolding sum_distrib_left sum_distrib_right by (subst sum.swap) (intro sum.cong refl, simp only: algebra_simps)
    also have "\<dots> = - (\<Sum>p<BT. S p ?l * (\<Sum>r<BT. (if r < p then \<Sum>c<C. dy p c * sb r c else 0) * S j r))"
    proof -
      have "(\<Sum>r<BT. D p r * S j r) = - (\<Sum>r<BT. (if r < p then \<Sum>c<C. dy p c * sb r c else 0) * S j r)" if "p < BT" for p
        using that by (simp add: D sum_negf [symmetric] del: sum_negf cong: sum.cong_simp)
      then show ?thesis by (simp add: sum_negf cong: sum.cong_simp)
    qed
    also have "(\<Sum>p<BT. S p ?l * (\<Sum>r<BT. (if r < p then \<Sum>c<C. dy p c * sb r c else 0) * S j r))
        = (\<Sum>c<C. (\<Sum>p<BT. S p ?l * dy p c) * y j c)"
      unfolding S chunk_solution_def
      by (rule tl_wy.masked_sandwich [OF neg_strict_lower_strict jl r]) (use y t(3) in \<open>simp add: S chunk_solution_def\<close>)
    finally have X: "?X ?l j = - (\<Sum>c<C. back_rows BT S dy ?l c * y j c)" by (simp add: back_rows_def)
    show ?thesis using jl X by (simp add: neg_strict_lower_def solve_grad_def)
  qed
  finally show ?thesis .
qed

section \<open>What the other two kernels leave\<close>

text \<open>A fixed-length slice is a packed one with a single sequence; no decay is masked.\<close>

definition plain_env :: "kernel_env \<Rightarrow> fla_env" where
  "plain_env E = \<lparr>base = E, safe_exp = exp, chunk_local_cumsum = (\<lambda>_ _ _ g. g), chunk_local_revcumsum = (\<lambda>_ _ _ g. g),
     capability = (8, 0), tuned_bk = 64, tuned_bv = 64\<rparr>"

lemma plain_env_fields [simp]: "base (plain_env E) = E" "safe_exp (plain_env E) = exp"
  by (simp_all add: plain_env_def)

lemma seq_view_zero [simp]: "seq_view 0 x = x"
  by (simp add: seq_view_def)

lemma at_seq_zero [simp]: "at_seq 0 f M = f M" "at_seq1 0 f' x = f' x"
  by (simp_all add: at_seq_def at_seq1_def)

lemma owns_plain: "owns BT (0, T, n) r \<longleftrightarrow> r < T \<and> r div BT = n"
  by (auto simp: owns_def)

lemma dA_blocks_eq:
  assumes "exact_casts E" "c = (\<lambda>x. x)"
  shows "dA_blocks E c T D BT B i_t b_A x dy b s = back_blocks (plain_env E) 0 T D BT B i_t (tr b_A) x dy b s"
  using assms by (simp add: dA_blocks_def back_blocks_def exact_casts_def)

lemma dA_half:
  assumes E: "exact_casts E" "c = (\<lambda>x. x)" and p: "0 < B" "0 < BT" "T = NT * BT" "n < NT"
    and M: "\<forall>t j. t < T \<longrightarrow> t div BT = n \<longrightarrow> j < BT \<longrightarrow> M t j = S (t mod BT) j"
    and X: "X = chunk_view BT n (pad_rows T x)" and Y: "Y = chunk_view BT n (pad_rows T dy)"
    and res: "dA_blocks E c T D BT B n (mcast (to_in E) (ld M T BT (n * BT) 0)) x dy b (zero_tile, db0, dx0) = (dA, db, dx)"
  shows "dA i j = (\<Sum>c<D. Y i c * (X j c * b j))"
    and "i < BT \<Longrightarrow> db i = db0 i + (\<Sum>c<D. back_rows BT S Y i c * X i c)"
    and "t < T \<Longrightarrow> t div BT = n \<Longrightarrow> e < D \<Longrightarrow> dx t e = back_rows BT S Y (t mod BT) e * b (t mod BT)"
    and "t < T \<Longrightarrow> t div BT \<noteq> n \<Longrightarrow> dx t = dx0 t"
proof -
  let ?A = "tr (mcast (to_in E) (ld M T BT (n * BT) 0))"
  have at: "n * BT + i < T" "(n * BT + i) div BT = n" "(n * BT + i) mod BT = i" if "i < BT" for i
    using that block_end [OF p(4), of BT] p(3) by auto
  have A: "?A i j = S j i" if "i < BT" "j < BT" for i j
    using E(1) M at that by (simp add: tr_def mcast_def exact_casts_def ld_def)
  have dot: "dot BT ?A Y i e = back_rows BT S Y i e" if "i < BT" for i e
    unfolding dot_def back_rows_def by (intro sum.cong refl) (simp add: A that)
  note v = back_blocks_value [where bos = 0 and F = "plain_env E", unfolded plain_env_fields, OF E(1) p(1,2) res [unfolded dA_blocks_eq [OF E]] X Y]
  show "dA i j = (\<Sum>c<D. Y i c * (X j c * b j))" by (simp add: v(1) zero_tile_def)
  show "i < BT \<Longrightarrow> db i = db0 i + (\<Sum>c<D. back_rows BT S Y i c * X i c)" by (simp add: v(2) dot)
  show "t < T \<Longrightarrow> t div BT = n \<Longrightarrow> e < D \<Longrightarrow> dx t e = back_rows BT S Y (t mod BT) e * b (t mod BT)"
    using v(3) [of t e] dot [of "t mod BT" e] p(2) by simp
  show "t < T \<Longrightarrow> t div BT \<noteq> n \<Longrightarrow> dx t = dx0 t" by (rule v(4)) (simp add: owns_plain)
qed

lemma kernel_dA_value:
  assumes E: "exact_casts E" and p: "0 < BK" "0 < BV" "0 < BT" "T = NT * BT" "n < NT"
    and Aw: "\<forall>t j. t < T \<longrightarrow> t div BT = n \<longrightarrow> j < BT \<longrightarrow> A_w t j = Sw (t mod BT) j"
    and Au: "\<forall>t j. t < T \<longrightarrow> t div BT = n \<longrightarrow> j < BT \<longrightarrow> A_u t j = Su (t mod BT) j"
    and X: "kn = chunk_view BT n (pad_rows T k)" "vn = chunk_view BT n (pad_rows T v)" "bn = chunk_view BT n (pad_vec T beta)"
    and Y: "yw = chunk_view BT n (pad_rows T dw)" "yu = chunk_view BT n (pad_rows T du)"
    and res: "bwd_prepare_wy_repr_kernel_dA E T K V BT BK BV k v beta dw du A_w A_u n (dAw0, dAu0, dk0, dv0, db0) = (dAw, dAu, dk, dv, db)"
    and t: "t < T"
  shows "t div BT = n \<Longrightarrow> j < BT \<Longrightarrow> dAw t j = (\<Sum>c<K. yw (t mod BT) c * (kn j c * bn j))"
    and "t div BT = n \<Longrightarrow> j < BT \<Longrightarrow> dAu t j = (\<Sum>c<V. yu (t mod BT) c * (vn j c * bn j))"
    and "t div BT = n \<Longrightarrow> d < K \<Longrightarrow> dk t d = back_rows BT Sw yw (t mod BT) d * bn (t mod BT)"
    and "t div BT = n \<Longrightarrow> e < V \<Longrightarrow> dv t e = back_rows BT Su yu (t mod BT) e * bn (t mod BT)"
    and "t div BT = n \<Longrightarrow> db t = (\<Sum>c<V. back_rows BT Su yu (t mod BT) c * vn (t mod BT) c) + (\<Sum>c<K. back_rows BT Sw yw (t mod BT) c * kn (t mod BT) c)"
    and "t div BT \<noteq> n \<Longrightarrow> dAw t = dAw0 t \<and> dAu t = dAu0 t \<and> dk t = dk0 t \<and> dv t = dv0 t \<and> db t = db0 t"
proof -
  let ?b = "ld1 beta T (n * BT)"
  have id: "to_in E = (\<lambda>x. x)" "to_f32 E = (\<lambda>x. x)" using E by (simp_all add: exact_casts_def)
  have r: "t mod BT < BT" using p(3) by simp
  obtain dA1 b1 v1 where r1: "dA_blocks E (to_in E) T V BT BV n (mcast (to_in E) (ld A_u T BT (n * BT) 0)) v du ?b (zero_tile, (\<lambda>i. 0), dv0)
      = (dA1, b1, v1)" by (rule prod_cases3)
  obtain dA2 b2 k1 where r2: "dA_blocks E (to_f32 E) T K BT BK n (mcast (to_in E) (ld A_w T BT (n * BT) 0)) k dw ?b (zero_tile, b1, dk0)
      = (dA2, b2, k1)" by (rule prod_cases3)
  have out: "dAw = st dAw0 (n * BT + BT) BT (n * BT) 0 BT BT dA2" "dAu = st dAu0 (n * BT + BT) BT (n * BT) 0 BT BT dA1"
    "dk = k1" "dv = v1" "db = st1 db0 T (n * BT) BT b2"
    using res by (simp_all add: bwd_prepare_wy_repr_kernel_dA_def Let_def r1 r2)
  have b: "?b = bn" by (simp add: ld1_view X)
  note u = dA_half [OF E id(1) p(2-5) Au X(2) Y(2) r1, unfolded b] and w = dA_half [OF E id(2) p(1,3-5) Aw X(1) Y(1) r2, unfolded b]
  have whole: "st M (n * BT + BT) BT (n * BT) 0 BT BT blk t j = (if t div BT = n \<and> j < BT then blk (t mod BT) j else M t j)" for M blk j
    using block_rows_iff [OF p(3), of n t] block_offset [of t BT n] by (auto simp: st_def)
  have col: "st1 x T (n * BT) BT blk t = (if t div BT = n then blk (t mod BT) else x t)" for x blk
    using t block_rows_iff [OF p(3), of n t] block_offset [of t BT n] by (auto simp: st1_def)
  show "t div BT = n \<Longrightarrow> j < BT \<Longrightarrow> dAw t j = (\<Sum>c<K. yw (t mod BT) c * (kn j c * bn j))"
    and "t div BT = n \<Longrightarrow> j < BT \<Longrightarrow> dAu t j = (\<Sum>c<V. yu (t mod BT) c * (vn j c * bn j))" by (simp_all add: out whole u(1) w(1))
  show "t div BT = n \<Longrightarrow> d < K \<Longrightarrow> dk t d = back_rows BT Sw yw (t mod BT) d * bn (t mod BT)" using w(3) t by (simp add: out)
  show "t div BT = n \<Longrightarrow> e < V \<Longrightarrow> dv t e = back_rows BT Su yu (t mod BT) e * bn (t mod BT)" using u(3) t by (simp add: out)
  show "t div BT = n \<Longrightarrow> db t = (\<Sum>c<V. back_rows BT Su yu (t mod BT) c * vn (t mod BT) c) + (\<Sum>c<K. back_rows BT Sw yw (t mod BT) c * kn (t mod BT) c)"
    by (simp add: out col u(2) w(2) r)
  show "t div BT \<noteq> n \<Longrightarrow> dAw t = dAw0 t \<and> dAu t = dAu0 t \<and> dk t = dk0 t \<and> dv t = dv0 t \<and> db t = db0 t"
    using t by (simp add: out fun_eq_iff whole col u(4) w(4))
qed

text \<open>The last kernel, in the loop form of its packed counterpart.\<close>

lemma for_loop_sums_store:
  "for_loop n (\<lambda>i (b, s). (\<lambda>r. b r + h i r, g i s)) (b0, s0) = ((\<lambda>r. b0 r + (\<Sum>i<n. h i r)), for_loop n g s0)"
  by (induction n) (auto simp: fun_eq_iff add.assoc)

lemma dk_dbeta_dg_value:
  assumes E: "exact_casts E" and p: "0 < BK" "0 < BT" "T = NT * BT" "n < NT"
    and dAw: "\<forall>t j. t < T \<longrightarrow> t div BT = n \<longrightarrow> j < BT \<longrightarrow> dA_w t j = - dMw (t mod BT) j"
    and dAu: "\<forall>t j. t < T \<longrightarrow> t div BT = n \<longrightarrow> j < BT \<longrightarrow> dA_u t j = - dMu (t mod BT) j"
    and Aw: "\<forall>t j. t < T \<longrightarrow> t div BT = n \<longrightarrow> j < BT \<longrightarrow> A_w t j = neg_strict_lower (chunk_gram K BT kp bp n) (t mod BT) j"
    and sl: "\<forall>l m. \<not> m < l \<longrightarrow> dMw l m = 0 \<and> dMu l m = 0"
    and kn: "kn = chunk_view BT n (pad_rows T k)" and bn: "bn = chunk_view BT n (pad_vec T beta)"
    and e: "\<forall>i j. i < BT \<longrightarrow> j < BT \<longrightarrow> exp2 (g (n * BT + i) - g (n * BT + j)) = e i j" and G: "G = gram_grad dMw dMu e" and P: "P = (\<lambda>i j. dMu i j * e i j * chunk_gram K BT kp bp n i j)"
    and res: "bwd_prepare_wy_repr_dk_dbeta_dg E T K BT BK k beta g dA_w dA_u A_w n (dk0, db0, dg0) = (dk, db, dg)"
    and t: "t < T"
  shows "t div BT = n \<Longrightarrow> d < K \<Longrightarrow> dk t d = (\<Sum>m<BT. G (t mod BT) m * kn m d) * bn (t mod BT) + (\<Sum>p<BT. G p (t mod BT) * (kn p d * bn p))"
    and "t div BT = n \<Longrightarrow> db t = (\<Sum>d<K. (\<Sum>m<BT. G (t mod BT) m * kn m d) * kn (t mod BT) d)"
    and "t div BT = n \<Longrightarrow> dg t = wy_dc BT P (t mod BT)"
    and "t div BT \<noteq> n \<Longrightarrow> dk t = dk0 t \<and> db t = db0 t \<and> dg t = dg0 t"
proof -
  have casts: "mcast (\<lambda>x. x) M = M" "to_in E = (\<lambda>x. x)" "to_f32 E = (\<lambda>x. x)" for M using E by (simp_all add: exact_casts_def mcast_def)
  have r: "t mod BT < BT" using p(2) by simp
  have at: "n * BT + i < T" "(n * BT + i) div BT = n" "(n * BT + i) mod BT = i" if "i < BT" for i
    using that block_end [OF p(4), of BT] p(3) by auto
  let ?Au = "\<lambda>i j. ld dA_u T BT (n * BT) 0 i j * exp2 (g (n * BT + i) - g (n * BT + j))"
  define A where "A = (\<lambda>i j. if i \<ge> j then - madd (ld dA_w T BT (n * BT) 0) ?Au i j else 0)"
  define Q where "Q = (\<lambda>i j. if i \<ge> j then ?Au i j * ld A_w T BT (n * BT) 0 i j else 0)"
  let ?k = "\<lambda>i. ld k T K (n * BT) (i * BK)"
  have ldA: "ld dA_w T BT (n * BT) 0 i j = - dMw i j" "?Au i j = - dMu i j * e i j"
    "ld A_w T BT (n * BT) 0 i j = neg_strict_lower (chunk_gram K BT kp bp n) i j" if "i < BT" "j < BT" for i j
    using at that dAw dAu Aw by (simp_all add: ld_def e)
  have A: "A i j = G i j" if "i < BT" "j < BT" for i j
    using that sl by (auto simp: A_def madd_def ldA G gram_grad_def)
  have Q: "Q i j = P i j" if "i < BT" "j < BT" for i j
    using that sl by (auto simp: Q_def ldA P neg_strict_lower_def)
  have b: "ld1 beta T (n * BT) = bn" by (simp add: ld1_view bn)
  have loop: "for_loop (cdiv K BK) (\<lambda>i_k (b_dbeta, dk).
       (\<lambda>i. b_dbeta i + row_sums BK (dot BT A (?k i_k)) (?k i_k) i,
        st dk T K (n * BT) (i_k * BK) BT BK (madd (madd zero_tile (dot BT (tr A) (scale_rows (?k i_k) bn))) (scale_rows (dot BT A (?k i_k)) bn))))
       ((\<lambda>i. 0), dk0)
    = ((\<lambda>r. 0 + (\<Sum>i<cdiv K BK. row_sums BK (dot BT A (?k i)) (?k i) r)),
       for_loop (cdiv K BK) (\<lambda>i M. st M T K (n * BT) (i * BK) BT BK
         (madd (madd zero_tile (dot BT (tr A) (scale_rows (?k i) bn))) (scale_rows (dot BT A (?k i)) bn))) dk0)"
    by (rule for_loop_sums_store)
  have out: "dk = for_loop (cdiv K BK) (\<lambda>i M. st M T K (n * BT) (i * BK) BT BK
         (madd (madd zero_tile (dot BT (tr A) (scale_rows (?k i) bn))) (scale_rows (dot BT A (?k i)) bn))) dk0"
    "db = st1 db0 T (n * BT) BT (\<lambda>r. 0 + (\<Sum>i<cdiv K BK. row_sums BK (dot BT A (?k i)) (?k i) r))"
    "dg = st1 dg0 T (n * BT) BT (\<lambda>i. (\<Sum>j<BT. Q i j) - (\<Sum>j<BT. Q j i))"
    using res unfolding bwd_prepare_wy_repr_dk_dbeta_dg_def Let_def casts prod.case b A_def [symmetric] loop by (simp_all add: Q_def)
  have ldk: "?k i r c = (if i * BK + c < K then kn r (i * BK + c) else 0)" for i r c by (simp add: ld_view kn)
  have dotA: "dot BT A (?k i) r c = (if i * BK + c < K then \<Sum>m<BT. G r m * kn m (i * BK + c) else 0)" if "r < BT" for i r c
    using that by (simp add: dot_def ldk A cong: sum.cong_simp)
  have col: "st1 x T (n * BT) BT blk t = (if t div BT = n then blk (t mod BT) else x t)" for x blk
    using t block_rows_iff [OF p(2), of n t] block_offset [of t BT n] by (auto simp: st1_def)
  show "dk t d = (\<Sum>m<BT. G (t mod BT) m * kn m d) * bn (t mod BT) + (\<Sum>p<BT. G p (t mod BT) * (kn p d * bn p))"
    if "t div BT = n" "d < K"
    using that t block_rows_iff [OF p(2), of n t] block_offset [OF that(1)] block_in_cdiv [OF p(1) that(2)]
    by (simp add: out for_loop_store_cols [OF p(1)] madd_def zero_tile_def scale_rows_def dotA [OF r])
       (simp add: dot_def tr_def ldk A r cong: sum.cong_simp)
  show "db t = (\<Sum>d<K. (\<Sum>m<BT. G (t mod BT) m * kn m d) * kn (t mod BT) d)" if n: "t div BT = n"
  proof -
    have "db t = (\<Sum>i<cdiv K BK. \<Sum>l<BK. (if i * BK + l < K then \<Sum>m<BT. G (t mod BT) m * kn m (i * BK + l) else 0)
        * (if i * BK + l < K then kn (t mod BT) (i * BK + l) else 0))"
      using n by (simp add: out col row_sums_def dotA [OF r] ldk)
    also have "\<dots> = (\<Sum>d<K. (\<Sum>m<BT. G (t mod BT) m * kn m d) * kn (t mod BT) d)" by (rule blocked_dot [OF p(1)]) simp
    finally show ?thesis .
  qed
  show "t div BT = n \<Longrightarrow> dg t = wy_dc BT P (t mod BT)" using r by (simp add: out col wy_dc_def Q cong: sum.cong_simp)
  show "t div BT \<noteq> n \<Longrightarrow> dk t = dk0 t \<and> db t = db0 t \<and> dg t = dg0 t"
    using t by (simp add: out col store_product_keep [OF p(1,2)] fun_eq_iff)
qed

section \<open>The launch\<close>

lemma original_rows:
  assumes E: "exact_casts E" "pow2_spec E" and p: "0 < BT" "T = NT * BT" "t < T"
    and res: "fwd_prepare_wy_repr E BT T K V k v beta g = (w, u, A_w, A_u, Ao_w, Ao_u)" and j: "j < BT"
  shows "Ao_w t j = neg_strict_lower (chunk_gram K BT k beta (t div BT)) (t mod BT) j"
    and "Ao_u t j = neg_strict_lower (decayed_gram K BT k beta g (t div BT)) (t mod BT) j"
proof -
  let ?BK = "min (next_pow2 E K) 64" and ?BV = "min (next_pow2 E V) 64"
  let ?pw = "fwd_prepare_wy_repr_kernel_w E T K BT ?BK k beta"
  let ?pu = "fwd_prepare_wy_repr_kernel_u E T K V BT ?BK ?BV k v beta g"
  let ?s = "(uninit E, uninit E, zero_tile)"
  have b: "0 < ?BK" using pow2_block [OF E(2)] by auto
  have NT: "cdiv T BT = NT" using p by simp
  have tN: "t div BT < NT" using p by (simp add: less_mult_imp_div_less)
  have r: "t mod BT < BT" using p(1) by simp
  have T: "(t div BT + 1) * BT \<le> T" using block_end [OF tN] p(2) by simp
  have parts: "Ao_w = snd (snd (for_loop NT ?pw ?s))" "Ao_u = snd (snd (for_loop NT ?pu ?s))"
    using res by (auto simp: fwd_prepare_wy_repr_def Let_def NT split: prod.splits)
  have f32: "mcast (to_f32 E) M = M" for M using E(1) by (simp add: exact_casts_def mcast_def)
  have kw: "snd (snd (?pw n s)) t j = (if t div BT = n then neg_strict_lower (key_gram_tile E T K BT ?BK k (ld1 beta T (n * BT)) n) (t mod BT) j else snd (snd s) t j)" for n s
    by (cases s) (simp add: fwd_prepare_wy_repr_kernel_w_def Let_def st_block [OF p(1,3) j] f32)
  have ku: "snd (snd (?pu n s)) t j = (if t div BT = n then neg_strict_lower (\<lambda>i j. key_gram_tile E T K BT ?BK k (ld1 beta T (n * BT)) n i j
      * exp2 (g (n * BT + i) - g (n * BT + j))) (t mod BT) j else snd (snd s) t j)" for n s
    by (cases s) (simp add: fwd_prepare_wy_repr_kernel_u_def Let_def st_block [OF p(1,3) j] f32)
  note gram = key_gram_tile_exact [OF E(1) b T r j, where K = K and k = k and beta = beta]
  have gw: "snd (snd (?pw (t div BT) s)) t j = neg_strict_lower (chunk_gram K BT k beta (t div BT)) (t mod BT) j"
    and gu: "snd (snd (?pu (t div BT) s)) t j = neg_strict_lower (decayed_gram K BT k beta g (t div BT)) (t mod BT) j" for s
    by (simp_all add: kw ku neg_strict_lower_def gram decayed_gram_def)
  show "Ao_w t j = neg_strict_lower (chunk_gram K BT k beta (t div BT)) (t mod BT) j"
    unfolding parts by (rule launch_writes [where m = "t div BT" and get = "\<lambda>s. snd (snd s) t j"]) (rule gw, use kw tN in auto)
  show "Ao_u t j = neg_strict_lower (decayed_gram K BT k beta g (t div BT)) (t mod BT) j"
    unfolding parts by (rule launch_writes [where m = "t div BT" and get = "\<lambda>s. snd (snd s) t j"]) (rule gu, use ku tN in auto)
qed

text \<open>The three launches, each seen from the rows of one chunk.\<close>

lemma dA_launch:
  assumes E: "exact_casts E" and p: "0 < BK" "0 < BV" "0 < BT" "T = NT * BT"
    and Aw: "\<forall>t j. t < T \<longrightarrow> t div BT = n \<longrightarrow> j < BT \<longrightarrow> A_w t j = Sw (t mod BT) j"
    and Au: "\<forall>t j. t < T \<longrightarrow> t div BT = n \<longrightarrow> j < BT \<longrightarrow> A_u t j = Su (t mod BT) j"
    and X: "kn = chunk_view BT n (pad_rows T k)" "vn = chunk_view BT n (pad_rows T v)" "bn = chunk_view BT n (pad_vec T beta)"
    and Y: "yw = chunk_view BT n (pad_rows T dw)" "yu = chunk_view BT n (pad_rows T du)"
    and run: "for_loop NT (bwd_prepare_wy_repr_kernel_dA E T K V BT BK BV k v beta dw du A_w A_u) s0 = (dAw, dAu, dk, dv, db)"
    and t: "t < T" "t div BT = n"
  shows "j < BT \<Longrightarrow> dAw t j = (\<Sum>c<K. yw (t mod BT) c * (kn j c * bn j))"
    and "j < BT \<Longrightarrow> dAu t j = (\<Sum>c<V. yu (t mod BT) c * (vn j c * bn j))"
    and "d < K \<Longrightarrow> dk t d = back_rows BT Sw yw (t mod BT) d * bn (t mod BT)"
    and "e < V \<Longrightarrow> dv t e = back_rows BT Su yu (t mod BT) e * bn (t mod BT)"
    and "db t = (\<Sum>c<V. back_rows BT Su yu (t mod BT) c * vn (t mod BT) c) + (\<Sum>c<K. back_rows BT Sw yw (t mod BT) c * kn (t mod BT) c)"
proof -
  let ?P = "bwd_prepare_wy_repr_kernel_dA E T K V BT BK BV k v beta dw du A_w A_u"
  let ?L = "for_loop NT ?P s0"
  have nN: "n < NT" using p t by (metis less_mult_imp_div_less)
  have keep: "fst (?P m s) t = fst s t" "fst (snd (?P m s)) t = fst (snd s) t" "fst (snd (snd (?P m s))) t = fst (snd (snd s)) t"
    "fst (snd (snd (snd (?P m s)))) t = fst (snd (snd (snd s))) t" "snd (snd (snd (snd (?P m s)))) t = snd (snd (snd (snd s))) t"
    if m: "m < NT" "m \<noteq> n" for m s
  proof -
    obtain a1 a2 a3 a4 a5 where s: "s = (a1, a2, a3, a4, a5)" by (metis prod_cases5)
    obtain c1 c2 c3 c4 c5 where s': "?P m (a1, a2, a3, a4, a5) = (c1, c2, c3, c4, c5)" by (metis prod_cases5)
    have own: "\<forall>t j. t < T \<longrightarrow> t div BT = m \<longrightarrow> j < BT \<longrightarrow> M t j = (\<lambda>i j. M (m * BT + i) j) (t mod BT) j" for M :: mat
      by (metis div_mult_mod_eq)
    note v = kernel_dA_value(6) [OF E p m(1) own own refl refl refl refl refl s' t(1)]
    show "fst (?P m s) t = fst s t" "fst (snd (?P m s)) t = fst (snd s) t" "fst (snd (snd (?P m s))) t = fst (snd (snd s)) t"
      "fst (snd (snd (snd (?P m s)))) t = fst (snd (snd (snd s))) t" "snd (snd (snd (snd (?P m s)))) t = snd (snd (snd (snd s))) t"
      using v t(2) m(2) unfolding s s' by simp_all
  qed
  have wr: "j < BT \<Longrightarrow> fst (?P n s) t j = (\<Sum>c<K. yw (t mod BT) c * (kn j c * bn j))"
    "j < BT \<Longrightarrow> fst (snd (?P n s)) t j = (\<Sum>c<V. yu (t mod BT) c * (vn j c * bn j))"
    "d < K \<Longrightarrow> fst (snd (snd (?P n s))) t d = back_rows BT Sw yw (t mod BT) d * bn (t mod BT)"
    "e < V \<Longrightarrow> fst (snd (snd (snd (?P n s)))) t e = back_rows BT Su yu (t mod BT) e * bn (t mod BT)"
    "snd (snd (snd (snd (?P n s)))) t = (\<Sum>c<V. back_rows BT Su yu (t mod BT) c * vn (t mod BT) c) + (\<Sum>c<K. back_rows BT Sw yw (t mod BT) c * kn (t mod BT) c)"
    for s j d e
  proof -
    obtain a1 a2 a3 a4 a5 where s: "s = (a1, a2, a3, a4, a5)" by (metis prod_cases5)
    obtain c1 c2 c3 c4 c5 where s': "?P n (a1, a2, a3, a4, a5) = (c1, c2, c3, c4, c5)" by (metis prod_cases5)
    note v = kernel_dA_value [OF E p nN Aw Au X Y s' t(1)]
    show "j < BT \<Longrightarrow> fst (?P n s) t j = (\<Sum>c<K. yw (t mod BT) c * (kn j c * bn j))"
      "j < BT \<Longrightarrow> fst (snd (?P n s)) t j = (\<Sum>c<V. yu (t mod BT) c * (vn j c * bn j))"
      "d < K \<Longrightarrow> fst (snd (snd (?P n s))) t d = back_rows BT Sw yw (t mod BT) d * bn (t mod BT)"
      "e < V \<Longrightarrow> fst (snd (snd (snd (?P n s)))) t e = back_rows BT Su yu (t mod BT) e * bn (t mod BT)"
      "snd (snd (snd (snd (?P n s)))) t = (\<Sum>c<V. back_rows BT Su yu (t mod BT) c * vn (t mod BT) c) + (\<Sum>c<K. back_rows BT Sw yw (t mod BT) c * kn (t mod BT) c)"
      unfolding s s' fst_conv snd_conv by (rule v(1-5) [OF t(2)]; assumption)+
  qed
  have L: "dAw = fst ?L" "dAu = fst (snd ?L)" "dk = fst (snd (snd ?L))" "dv = fst (snd (snd (snd ?L)))" "db = snd (snd (snd (snd ?L)))"
    by (simp_all add: run)
  show "j < BT \<Longrightarrow> dAw t j = (\<Sum>c<K. yw (t mod BT) c * (kn j c * bn j))"
    unfolding L by (rule launch_writes [where m = n and get = "\<lambda>s. fst s t j"]) (simp_all add: wr keep nN)
  show "j < BT \<Longrightarrow> dAu t j = (\<Sum>c<V. yu (t mod BT) c * (vn j c * bn j))"
    unfolding L by (rule launch_writes [where m = n and get = "\<lambda>s. fst (snd s) t j"]) (simp_all add: wr keep nN)
  show "d < K \<Longrightarrow> dk t d = back_rows BT Sw yw (t mod BT) d * bn (t mod BT)"
    unfolding L by (rule launch_writes [where m = n and get = "\<lambda>s. fst (snd (snd s)) t d"]) (simp_all add: wr keep nN)
  show "e < V \<Longrightarrow> dv t e = back_rows BT Su yu (t mod BT) e * bn (t mod BT)"
    unfolding L by (rule launch_writes [where m = n and get = "\<lambda>s. fst (snd (snd (snd s))) t e"]) (simp_all add: wr keep nN)
  show "db t = (\<Sum>c<V. back_rows BT Su yu (t mod BT) c * vn (t mod BT) c) + (\<Sum>c<K. back_rows BT Sw yw (t mod BT) c * kn (t mod BT) c)"
    unfolding L by (rule launch_writes [where m = n and get = "\<lambda>s. snd (snd (snd (snd s))) t"]) (simp_all add: wr keep nN)
qed

lemma recurrence_launch:
  assumes E: "exact_casts E" and p: "0 < BT" "T = NT * BT" and S: "S = chunk_solution BT a"
    and A: "\<forall>t j. t < T \<longrightarrow> t div BT = n \<longrightarrow> j < BT \<longrightarrow> A t j = S (t mod BT) j"
    and A0: "\<forall>t j. t < T \<longrightarrow> t div BT = n \<longrightarrow> j < BT \<longrightarrow> A0 t j = neg_strict_lower a (t mod BT) j"
    and dA: "\<forall>t j. t < T \<longrightarrow> t div BT = n \<longrightarrow> j < BT \<longrightarrow> dA t j = (\<Sum>c<C. dy (t mod BT) c * sb j c)"
    and y: "\<forall>m c. m < BT \<longrightarrow> y m c = (\<Sum>r<BT. S m r * sb r c)"
  shows "\<forall>t j. t < T \<longrightarrow> t div BT = n \<longrightarrow> j < BT \<longrightarrow>
    for_loop NT (bwd_prepare_wy_repr_kernel_dA_recurrence E T BT A A0 dA) M t j = - solve_grad BT C S dy y (t mod BT) j"
proof (intro allI impI)
  fix t j assume t: "t < T" "t div BT = n" "j < BT"
  have nN: "n < NT" using p t by (metis less_mult_imp_div_less)
  show "for_loop NT (bwd_prepare_wy_repr_kernel_dA_recurrence E T BT A A0 dA) M t j = - solve_grad BT C S dy y (t mod BT) j"
  proof (rule launch_writes [where m = n and get = "\<lambda>s. s t j"])
    show "bwd_prepare_wy_repr_kernel_dA_recurrence E T BT A A0 dA n s t j = - solve_grad BT C S dy y (t mod BT) j" for s
      by (rule recurrence_value [OF E p nN S A A0 dA y t])
    show "bwd_prepare_wy_repr_kernel_dA_recurrence E T BT A A0 dA m s t j = s t j" if "m \<noteq> n" for m s
      using that t(2) by (simp add: bwd_prepare_wy_repr_kernel_dA_recurrence_def Let_def st_block_keep [OF p(1)])
  qed (rule nN)
qed

lemma dk_dbeta_dg_launch:
  assumes E: "exact_casts E" and p: "0 < BK" "0 < BT" "T = NT * BT"
    and dAw: "\<forall>t j. t < T \<longrightarrow> t div BT = n \<longrightarrow> j < BT \<longrightarrow> dA_w t j = - dMw (t mod BT) j"
    and dAu: "\<forall>t j. t < T \<longrightarrow> t div BT = n \<longrightarrow> j < BT \<longrightarrow> dA_u t j = - dMu (t mod BT) j"
    and Aw: "\<forall>t j. t < T \<longrightarrow> t div BT = n \<longrightarrow> j < BT \<longrightarrow> A_w t j = neg_strict_lower (chunk_gram K BT kp bp n) (t mod BT) j"
    and sl: "\<forall>l m. \<not> m < l \<longrightarrow> dMw l m = 0 \<and> dMu l m = 0"
    and kn: "kn = chunk_view BT n (pad_rows T k)" and bn: "bn = chunk_view BT n (pad_vec T beta)"
    and e: "\<forall>i j. i < BT \<longrightarrow> j < BT \<longrightarrow> exp2 (g (n * BT + i) - g (n * BT + j)) = e i j" and G: "G = gram_grad dMw dMu e" and P: "P = (\<lambda>i j. dMu i j * e i j * chunk_gram K BT kp bp n i j)"
    and run: "for_loop NT (bwd_prepare_wy_repr_dk_dbeta_dg E T K BT BK k beta g dA_w dA_u A_w) s0 = (dk, db, dg)"
    and t: "t < T" "t div BT = n"
  shows "d < K \<Longrightarrow> dk t d = (\<Sum>m<BT. G (t mod BT) m * kn m d) * bn (t mod BT) + (\<Sum>p<BT. G p (t mod BT) * (kn p d * bn p))"
    and "db t = (\<Sum>d<K. (\<Sum>m<BT. G (t mod BT) m * kn m d) * kn (t mod BT) d)"
    and "dg t = wy_dc BT P (t mod BT)"
proof -
  let ?P = "bwd_prepare_wy_repr_dk_dbeta_dg E T K BT BK k beta g dA_w dA_u A_w"
  let ?L = "for_loop NT ?P s0"
  have nN: "n < NT" using p t by (metis less_mult_imp_div_less)
  have col: "st1 x T (m * BT) BT blk t = (if t div BT = m then blk (t mod BT) else x t)" for x blk m
    using t block_rows_iff [OF p(2), of m t] block_offset [of t BT m] by (auto simp: st1_def)
  have keep: "fst (?P m s) t = fst s t" "fst (snd (?P m s)) t = fst (snd s) t" "snd (snd (?P m s)) t = snd (snd s) t"
    if m: "m < NT" "m \<noteq> n" for m s
  proof -
    obtain a1 a2 a3 where s: "s = (a1, a2, a3)" by (rule prod_cases3)
    show "fst (?P m s) t = fst s t" "fst (snd (?P m s)) t = fst (snd s) t" "snd (snd (?P m s)) t = snd (snd s) t"
      using m(2) t(2) unfolding s bwd_prepare_wy_repr_dk_dbeta_dg_def Let_def prod.case for_loop_sums_store fst_conv snd_conv
      by (simp_all add: col fun_eq_iff store_product_keep [OF p(1,2)])
  qed
  have wr: "d < K \<Longrightarrow> fst (?P n s) t d = (\<Sum>m<BT. G (t mod BT) m * kn m d) * bn (t mod BT) + (\<Sum>p<BT. G p (t mod BT) * (kn p d * bn p))"
    "fst (snd (?P n s)) t = (\<Sum>d<K. (\<Sum>m<BT. G (t mod BT) m * kn m d) * kn (t mod BT) d)"
    "snd (snd (?P n s)) t = wy_dc BT P (t mod BT)" for s d
  proof -
    obtain a1 a2 a3 where s: "s = (a1, a2, a3)" by (rule prod_cases3)
    obtain c1 c2 c3 where s': "?P n (a1, a2, a3) = (c1, c2, c3)" by (rule prod_cases3)
    note v = dk_dbeta_dg_value(1-3) [OF E p nN dAw dAu Aw sl kn bn e G P s' t(1) t(2)]
    show "d < K \<Longrightarrow> fst (?P n s) t d = (\<Sum>m<BT. G (t mod BT) m * kn m d) * bn (t mod BT) + (\<Sum>p<BT. G p (t mod BT) * (kn p d * bn p))"
      "fst (snd (?P n s)) t = (\<Sum>d<K. (\<Sum>m<BT. G (t mod BT) m * kn m d) * kn (t mod BT) d)"
      "snd (snd (?P n s)) t = wy_dc BT P (t mod BT)"
      unfolding s s' fst_conv snd_conv by (rule v; assumption)+
  qed
  have L: "dk = fst ?L" "db = fst (snd ?L)" "dg = snd (snd ?L)" by (simp_all add: run)
  show "d < K \<Longrightarrow> dk t d = (\<Sum>m<BT. G (t mod BT) m * kn m d) * bn (t mod BT) + (\<Sum>p<BT. G p (t mod BT) * (kn p d * bn p))"
    unfolding L by (rule launch_writes [where m = n and get = "\<lambda>s. fst s t d"]) (simp_all add: wr keep nN)
  show "db t = (\<Sum>d<K. (\<Sum>m<BT. G (t mod BT) m * kn m d) * kn (t mod BT) d)"
    unfolding L by (rule launch_writes [where m = n and get = "\<lambda>s. fst (snd s) t"]) (simp_all add: wr keep nN)
  show "dg t = wy_dc BT P (t mod BT)"
    unfolding L by (rule launch_writes [where m = n and get = "\<lambda>s. snd (snd s) t"]) (simp_all add: wr keep nN)
qed

text \<open>Row by row, \<open>bwd_prepare_wy_repr\<close> returns the gradients in chunk form.\<close>

lemma bwd_prepare_wy_repr_rows:
  assumes E: "exact_casts E" "pow2_spec E" and p: "0 < BT" "T = NT * BT" and t: "t < T" and n: "n = t div BT"
    and res: "bwd_prepare_wy_repr E BT T K V k v beta g A_w A_u Ao_w Ao_u dw du = (dk, dv, db, dg)"
    and kp: "kp = pad_rows T k" and vp: "vp = pad_rows T v" and bp: "bp = pad_vec T beta"
    and yw: "yw = chunk_view BT n (pad_rows T dw)" and yu: "yu = chunk_view BT n (pad_rows T du)"
    and Sw: "Sw = chunk_solution BT (chunk_gram K BT kp bp n)" and Su: "Su = chunk_solution BT (decayed_gram K BT kp bp gt n)"
    and Aw: "\<forall>t j. t < T \<longrightarrow> t div BT = n \<longrightarrow> j < BT \<longrightarrow> A_w t j = Sw (t mod BT) j"
    and Au: "\<forall>t j. t < T \<longrightarrow> t div BT = n \<longrightarrow> j < BT \<longrightarrow> A_u t j = Su (t mod BT) j"
    and Aow: "\<forall>t j. t < T \<longrightarrow> t div BT = n \<longrightarrow> j < BT \<longrightarrow> Ao_w t j = neg_strict_lower (chunk_gram K BT kp bp n) (t mod BT) j"
    and Aou: "\<forall>t j. t < T \<longrightarrow> t div BT = n \<longrightarrow> j < BT \<longrightarrow> Ao_u t j = neg_strict_lower (decayed_gram K BT kp bp gt n) (t mod BT) j"
    and g: "\<forall>i j. i < BT \<longrightarrow> j < BT \<longrightarrow> exp2 (g (n * BT + i) - g (n * BT + j)) = e i j"
    and dMw: "dMw = solve_grad BT K Sw yw (chunk_view BT n (wy_w K BT kp bp))"
    and dMu: "dMu = solve_grad BT V Su yu (chunk_view BT n (wy_u K BT kp vp bp gt))"
    and G: "G = gram_grad dMw dMu e" and P: "P = (\<lambda>i j. dMu i j * e i j * chunk_gram K BT kp bp n i j)"
    and Zw: "Zw = back_rows BT Sw yw" and Zu: "Zu = back_rows BT Su yu"
  shows "d < K \<Longrightarrow> dk t d = wy_dk BT (chunk_view BT n kp) (chunk_view BT n bp) Zw G (t mod BT) d"
    and "d' < V \<Longrightarrow> dv t d' = Zu (t mod BT) d' * chunk_view BT n bp (t mod BT)"
    and "db t = wy_db BT K V (chunk_view BT n kp) (chunk_view BT n vp) Zw Zu G (t mod BT)"
    and "dg t = wy_dc BT P (t mod BT)"
proof -
  let ?BK = "min (next_pow2 E K) 64" and ?BV = "min (next_pow2 E V) 64" and ?e = "\<lambda>t. uninit E t 0"
  have b: "0 < ?BK" "0 < ?BV" using pow2_block [OF E(2)] by auto
  have NT: "cdiv T BT = NT" using p by simp
  let ?kn = "chunk_view BT n kp" and ?vn = "chunk_view BT n vp" and ?bn = "chunk_view BT n bp"
  obtain dA_w dA_u dk1 dv1 db1 where r1: "for_loop NT (bwd_prepare_wy_repr_kernel_dA E T K V BT ?BK ?BV k v beta dw du A_w A_u)
    (zero_tile, zero_tile, uninit E, uninit E, ?e) = (dA_w, dA_u, dk1, dv1, db1)" by (metis prod_cases5)
  let ?Dw = "for_loop NT (bwd_prepare_wy_repr_kernel_dA_recurrence E T BT A_w Ao_w dA_w) zero_tile"
  let ?Du = "for_loop NT (bwd_prepare_wy_repr_kernel_dA_recurrence E T BT A_u Ao_u dA_u) zero_tile"
  obtain dk2 db2 dg2 where r3: "for_loop NT (bwd_prepare_wy_repr_dk_dbeta_dg E T K BT ?BK k beta g ?Dw ?Du Ao_w) (uninit E, ?e, ?e) = (dk2, db2, dg2)"
    by (rule prod_cases3)
  have out: "dk = madd dk1 dk2" "dv = dv1" "db = (\<lambda>t. db1 t + db2 t)" "dg = dg2"
    using res unfolding bwd_prepare_wy_repr_def Let_def NT r1 prod.case r3 by simp_all
  note v1 = dA_launch [OF E(1) b p Aw Au refl refl refl yw yu r1, folded kp vp bp, folded Zw Zu]
  have w: "\<forall>m c. m < BT \<longrightarrow> chunk_view BT n (wy_w K BT kp bp) m c = (\<Sum>r<BT. Sw m r * (?kn r c * ?bn r))"
    "\<forall>m c. m < BT \<longrightarrow> chunk_view BT n (wy_u K BT kp vp bp gt) m c = (\<Sum>r<BT. Su m r * (?vn r c * ?bn r))"
    by (simp_all add: chunk_view_def wy_w_def wy_u_def Sw Su dot_def scaled_rows_def)
  have dA: "\<forall>t j. t < T \<longrightarrow> t div BT = n \<longrightarrow> j < BT \<longrightarrow> dA_w t j = (\<Sum>c<K. yw (t mod BT) c * (?kn j c * ?bn j))"
    "\<forall>t j. t < T \<longrightarrow> t div BT = n \<longrightarrow> j < BT \<longrightarrow> dA_u t j = (\<Sum>c<V. yu (t mod BT) c * (?vn j c * ?bn j))"
    using v1(1,2) by blast+
  note rw = recurrence_launch [OF E(1) p Sw Aw Aow dA(1) w(1), folded dMw] and ru = recurrence_launch [OF E(1) p Su Au Aou dA(2) w(2), folded dMu]
  have sl: "\<forall>l m. \<not> m < l \<longrightarrow> dMw l m = 0 \<and> dMu l m = 0" by (simp add: dMw dMu solve_grad_def)
  note v3 = dk_dbeta_dg_launch [OF E(1) b(1) p rw ru Aow sl refl refl g G P r3 t n [symmetric], folded kp bp]
  note v1 = v1(3-5) [OF t n [symmetric]]
  show "d < K \<Longrightarrow> dk t d = wy_dk BT ?kn ?bn Zw G (t mod BT) d" by (simp add: out madd_def v1 v3 wy_dk_def add.assoc)
  show "d' < V \<Longrightarrow> dv t d' = Zu (t mod BT) d' * ?bn (t mod BT)" by (simp add: out v1)
  show "db t = wy_db BT K V ?kn ?vn Zw Zu G (t mod BT)" by (simp add: out v1 v3 wy_db_def)
  show "dg t = wy_dc BT P (t mod BT)" by (simp add: out v3)
qed

section \<open>The single-kernel representation and the reference\<close>

text \<open>The kernel the launches no longer use: \<open>w\<close> and its solution without the matrix that was inverted.\<close>

definition fwd_prepare_wy_repr_kernel ::
  "kernel_env \<Rightarrow> nat \<Rightarrow> nat \<Rightarrow> nat \<Rightarrow> nat \<Rightarrow> mat \<Rightarrow> vec \<Rightarrow> nat \<Rightarrow> mat \<times> mat \<Rightarrow> mat \<times> mat" where
  "fwd_prepare_wy_repr_kernel E T K BT BK k beta i_t = (\<lambda>(w, A).
     (let b_beta = ld1 beta T (i_t * BT);
          b_A = neg_strict_lower (key_gram_tile E T K BT BK k b_beta i_t);
          b_A = add_eye (tl_solve BT b_A);
          A' = st A T BT (i_t * BT) 0 BT BT (mcast (to_f32 E) b_A);
          b_A = mcast (to_in E) b_A;
          w' = for_loop (cdiv K BK) (\<lambda>i_k w.
                 st w T K (i_t * BT) (i_k * BK) BT BK (mcast (to_in E)
                   (dot BT b_A (mcast (to_in E) (scale_rows (ld k T K (i_t * BT) (i_k * BK)) b_beta))))) w
      in (w', A')))"

lemma single_kernel_is_w:
  "fwd_prepare_wy_repr_kernel_w E T K BT BK k beta i_t (w, A, A0) = (w', A', A0') \<Longrightarrow>
    fwd_prepare_wy_repr_kernel E T K BT BK k beta i_t (w, A) = (w', A')"
  by (simp add: fwd_prepare_wy_repr_kernel_def fwd_prepare_wy_repr_kernel_w_def Let_def)

text \<open>
  \<open>naive\<close>: the padding takes its rows from a zero tensor of the length of the input, so it adds at most that
  many; \<open>rearrange\<close> wants whole chunks.  One chunk is the row-wise loop \<open>naive_rows\<close>.
\<close>

definition naive_rows :: "nat \<Rightarrow> mat \<Rightarrow> mat \<Rightarrow> mat" where
  "naive_rows chunk_size attn x =
     for_loop (chunk_size - 1) (\<lambda>m out r d. if r = Suc m then - (\<Sum>j<Suc m. attn (Suc m) j * out j d) + x (Suc m) d else out r d)
       (\<lambda>r d. if r = 0 then x 0 d else 0)"

definition naive :: "kernel_env \<Rightarrow> nat \<Rightarrow> nat \<Rightarrow> nat \<Rightarrow> mat \<Rightarrow> mat \<Rightarrow> vec \<Rightarrow> (mat \<times> mat) result" where
  "naive E chunk_size l_org K k v beta =
     (let l_new = next_pow2 E l_org;
          L = l_org + min (l_new - l_org) l_org;
          k = pad_rows l_org k; v = pad_rows l_org v; beta = pad_vec l_org beta
      in if chunk_size = 0 \<or> L mod chunk_size \<noteq> 0 then Inl RuntimeError
         else let chunk = (\<lambda>n.
                let k = chunk_view chunk_size n k; beta = chunk_view chunk_size n beta;
                    k_beta = scale_rows k beta;
                    v = scale_rows (chunk_view chunk_size n v) beta;
                    attn = scale_rows (\<lambda>i j. if j \<ge> i then 0 else \<Sum>d<K. k i d * k j d) beta;
                    x = dot chunk_size attn v
                in (naive_rows chunk_size attn k_beta, msub v (naive_rows chunk_size attn x)))
              in Inr (\<lambda>t. fst (chunk (t div chunk_size)) (t mod chunk_size), \<lambda>t. snd (chunk (t div chunk_size)) (t mod chunk_size)))"

lemma naive_rows_rec:
  assumes "i < n"
  shows "naive_rows n attn x i d = x i d - (\<Sum>j<i. attn i j * naive_rows n attn x j d)"
proof -
  let ?f = "\<lambda>m out r d. if r = Suc m then - (\<Sum>j<Suc m. attn (Suc m) j * out j d) + x (Suc m) d else out r d"
  let ?P = "\<lambda>m X. \<forall>r \<le> m. X r d = x r d - (\<Sum>j<r. attn r j * X j d)"
  have "?P (n - 1) (naive_rows n attn x)"
    unfolding naive_rows_def
  proof (rule for_loop_invariant [where P = ?P])
    fix m X assume X: "?P m X"
    show "?P (Suc m) (?f m X)"
    proof (intro allI impI)
      fix r assume r: "r \<le> Suc m"
      have "(\<Sum>j<r. attn r j * ?f m X j d) = (\<Sum>j<r. attn r j * X j d)" using r by (intro sum.cong refl) auto
      then show "?f m X r d = x r d - (\<Sum>j<r. attn r j * ?f m X j d)" using X r by auto
    qed
  qed simp
  then show ?thesis using assms by simp
qed

text \<open>The loop reference of the representation agrees with the kernels.  Whenever \<open>naive\<close> of \<open>wy_fast.py\<close>
  pads to whole chunks, its two results on the rows of the input are the \<open>w\<close> and \<open>u\<close> that
  \<open>fwd_prepare_wy_repr\<close> computes on the padded inputs without decay, tile by tile.\<close>

theorem naive_matches_kernels:
  assumes E: "exact_casts E" "pow2_spec E" and c: "0 < chunk_size" "chunk_size dvd next_pow2 E l" "next_pow2 E l \<le> 2 * l"
    and res: "fwd_prepare_wy_repr E chunk_size (next_pow2 E l) K V (pad_rows l k) (pad_rows l v) (pad_vec l beta) (\<lambda>t. 0)
      = (w, u, A_w, A_u, A_w_original, A_u_original)"
  shows "\<exists>o1 o2. naive E chunk_size l K k v beta = Inr (o1, o2) \<and>
    (\<forall>t < l. (\<forall>d < K. o1 t d = w t d) \<and> (\<forall>e < V. o2 t e = u t e))"
proof -
  let ?c = chunk_size and ?T = "next_pow2 E l"
  have lT: "l \<le> ?T" using E(2) by (simp add: pow2_spec_def)
  obtain NT where T: "?T = NT * ?c" using c(2) by (metis dvd_def mult.commute)
  have L: "l + min (?T - l) l = ?T" using lT c(3) by simp
  define kn where "kn = (\<lambda>n. chunk_view ?c n (pad_rows l k))"
  define vn where "vn = (\<lambda>n. scale_rows (chunk_view ?c n (pad_rows l v)) (chunk_view ?c n (pad_vec l beta)))"
  define bn where "bn = (\<lambda>n. chunk_view ?c n (pad_vec l beta))"
  define attn where "attn = (\<lambda>n. scale_rows (\<lambda>i j. if j \<ge> i then 0 else \<Sum>d<K. kn n i d * kn n j d) (bn n))"
  define o1 where "o1 = (\<lambda>n. naive_rows ?c (attn n) (scale_rows (kn n) (bn n)))"
  define o2 where "o2 = (\<lambda>n. naive_rows ?c (attn n) (dot ?c (attn n) (vn n)))"
  have run: "naive E ?c l K k v beta = Inr (\<lambda>t. o1 (t div ?c) (t mod ?c), \<lambda>t. msub (vn (t div ?c)) (o2 (t div ?c)) (t mod ?c))"
  proof -
    have whole: "\<not> (?c = 0 \<or> ?T mod ?c \<noteq> 0)" using c(1,2) by (simp add: dvd_eq_mod_eq_0)
    show ?thesis
      unfolding naive_def Let_def L if_not_P [OF whole] fst_conv snd_conv o1_def o2_def attn_def kn_def vn_def bn_def by (rule refl)
  qed
  let ?a = "\<lambda>n. neg_strict_lower (chunk_gram K ?c (pad_rows l k) (pad_vec l beta) n)"
  have a: "?a n i j = - attn n i j" for n i j
    by (simp add: neg_strict_lower_def attn_def chunk_gram_def scale_rows_def kn_def bn_def chunk_view_def)
  have deg: "decayed_gram K ?c (pad_rows l k) (pad_vec l beta) (\<lambda>t. 0) n = chunk_gram K ?c (pad_rows l k) (pad_vec l beta) n" for n
    by (simp add: decayed_gram_def exp2_def)
  note sol = tl_wy.unique_solution [OF neg_strict_lower_strict]
  have o1: "o1 n i d = dot ?c (chunk_solution ?c (chunk_gram K ?c (pad_rows l k) (pad_vec l beta) n)) (scaled_rows ?c (pad_rows l k) (pad_vec l beta) n) i d"
    if i: "i < ?c" for n i d
    unfolding dot_def chunk_solution_def
  proof (rule sol [OF _ i, where y = "\<lambda>i. o1 n i d"])
    fix i assume "i < ?c"
    then show "o1 n i d = scaled_rows ?c (pad_rows l k) (pad_vec l beta) n i d + (\<Sum>m<i. ?a n i m * o1 n m d)"
      unfolding o1_def by (subst naive_rows_rec) (simp_all add: a sum_negf scale_rows_def scaled_rows_def kn_def bn_def chunk_view_def)
  qed
  have u: "vn n i e - o2 n i e = dot ?c (chunk_solution ?c (chunk_gram K ?c (pad_rows l k) (pad_vec l beta) n)) (scaled_rows ?c (pad_rows l v) (pad_vec l beta) n) i e"
    if i: "i < ?c" for n i e
    unfolding dot_def chunk_solution_def
  proof (rule sol [OF _ i, where y = "\<lambda>i. vn n i e - o2 n i e"])
    fix i assume i: "i < ?c"
    have "dot ?c (attn n) (vn n) i e = (\<Sum>m<i. attn n i m * vn n m e)"
      unfolding dot_def using i by (intro sum.mono_neutral_right) (auto simp: attn_def scale_rows_def)
    then have "o2 n i e = (\<Sum>m<i. attn n i m * vn n m e) - (\<Sum>m<i. attn n i m * o2 n m e)"
      unfolding o2_def by (subst naive_rows_rec [OF i]) simp
    then show "vn n i e - o2 n i e = scaled_rows ?c (pad_rows l v) (pad_vec l beta) n i e + (\<Sum>m<i. ?a n i m * (vn n m e - o2 n m e))"
      by (simp add: a vn_def [of] scaled_rows_def scale_rows_def chunk_view_def sum_negf right_diff_distrib sum_subtractf)
  qed
  note rows = fwd_prepare_wy_repr_rows [OF E c(1) T _ res, unfolded deg]
  have "o1 (t div ?c) (t mod ?c) d = w t d" if "t < l" "d < K" for t d
    using rows(1) [OF _ that(2), of t] o1 [of "t mod ?c"] that(1) lT c(1) by simp
  moreover have "msub (vn (t div ?c)) (o2 (t div ?c)) (t mod ?c) e = u t e" if "t < l" "e < V" for t e
    using rows(2) [OF _ that(2), of t] u [of "t mod ?c"] that(1) lT c(1) by (simp add: msub_def)
  ultimately show ?thesis unfolding run by blast
qed

theorem naive_matches_kernels_witness:
  "\<exists>w u A_w A_u A_w_original A_u_original o1 o2.
    fwd_prepare_wy_repr example_env 2 4 3 1 (pad_rows 2 (\<lambda>t d. real t)) (pad_rows 2 (\<lambda>t e. 1)) (pad_vec 2 (\<lambda>t. 1 / 2)) (\<lambda>t. 0)
      = (w, u, A_w, A_u, A_w_original, A_u_original) \<and>
    naive example_env 2 2 3 (\<lambda>t d. real t) (\<lambda>t e. 1) (\<lambda>t. 1 / 2) = Inr (o1, o2) \<and>
    (\<forall>t < 2. (\<forall>d < 3. o1 t d = w t d) \<and> (\<forall>e < 1. o2 t e = u t e))"
proof -
  obtain w u A_w A_u Ao_w Ao_u where res: "fwd_prepare_wy_repr example_env 2 4 3 1 (pad_rows 2 (\<lambda>t d. real t)) (pad_rows 2 (\<lambda>t e. 1))
      (pad_vec 2 (\<lambda>t. 1 / 2)) (\<lambda>t. 0) = (w, u, A_w, A_u, Ao_w, Ao_u)" by (rule prod_cases6)
  have n: "next_pow2 example_env 2 = 4" by (simp add: example_env_def)
  have p: "(0 :: nat) < 2" "(2 :: nat) dvd next_pow2 example_env 2" "next_pow2 example_env 2 \<le> 2 * 2" by (simp_all add: n)
  obtain o1 o2 where "naive example_env 2 2 3 (\<lambda>t d. real t) (\<lambda>t e. 1) (\<lambda>t. 1 / 2) = Inr (o1, o2)"
    "\<forall>t < 2. (\<forall>d < 3. o1 t d = w t d) \<and> (\<forall>e < 1. o2 t e = u t e)"
    using naive_matches_kernels [OF example_env_ok p res [folded n]] by (elim exE conjE) (rule that)
  with res show ?thesis by (intro exI conjI)
qed

end
