(* ===== verification/FlaBack.thy ===== *)
theory FlaBack
  imports FlaBackWY
begin

text \<open>
  The backward pass of \<open>lit_gpt/gated_delta_rule_ops/fla_version/chunk_fla.py\<close>: the kernel for the part of
  the value gradient inside a chunk, the kernel that carries the state gradient backwards through
  each packed sequence, the kernel for the gradients of queries, keys, \<open>w\<close> and the decays, their
  launches, and the autograd function's \<open>backward\<close>.  Slices and sequences are as in \<open>FlaChunk\<close>; \<open>dh\<close>
  is the list of state gradients by chunk, \<open>dg\<close> of the last kernel is indexed by key block first.
\<close>

section \<open>The kernels\<close>

definition fla_chunk_bwd_kernel_dv_local ::
  "fla_env \<Rightarrow> nat list option \<Rightarrow> (nat \<times> nat) list \<Rightarrow> real \<Rightarrow> nat \<Rightarrow> nat \<Rightarrow> nat \<Rightarrow> nat \<Rightarrow> nat \<Rightarrow> nat \<Rightarrow> mat \<Rightarrow> mat
     \<Rightarrow> vec option \<Rightarrow> mat \<Rightarrow> nat \<Rightarrow> mat \<Rightarrow> mat" where
  "fla_chunk_bwd_kernel_dv_local F offsets indices scale T K V BT BK BV q k g d_o i_t dv =
     (let (bos, T, i_t) = program_chunk offsets indices T i_t;
          q = seq_view bos q; k = seq_view bos k; d_o = seq_view bos d_o;
          b_A = for_loop (cdiv K BK) (\<lambda>i_k b_A.
            let b_q = tr (ld q T K (i_t * BT) (i_k * BK));
                b_k = ld k T K (i_t * BT) (i_k * BK)
            in madd b_A (dot BK b_k b_q)) zero_tile;
          b_A = (case g of
             None \<Rightarrow> (\<lambda>i j. if i \<le> j then b_A i j * scale else 0)
           | Some g \<Rightarrow> (let b_g = ld1 (seq_view bos g) T (i_t * BT)
                        in (\<lambda>i j. if i \<le> j then b_A i j * safe_exp F (b_g j - b_g i) * scale else 0)));
          b_A = mcast (to_in (base F)) b_A
      in for_loop (cdiv V BV) (\<lambda>i_v. at_seq bos (\<lambda>dv. st dv T V (i_t * BT) (i_v * BV) BT BV
           (mcast (to_in (base F)) (dot BT (mcast (to_in (base F)) b_A) (ld d_o T V (i_t * BT) (i_v * BV)))))) dv)"

text \<open>
  The tiles of one subchunk: its new value gradients, and what its queries add to and its \<open>d\<close> takes from
  the state gradient.
\<close>

definition fla_dhu_tiles ::
  "fla_env \<Rightarrow> real \<Rightarrow> nat \<Rightarrow> nat \<Rightarrow> nat \<Rightarrow> nat \<Rightarrow> nat \<Rightarrow> nat \<Rightarrow> nat \<Rightarrow> mat \<Rightarrow> mat \<Rightarrow> mat \<Rightarrow> vec option \<Rightarrow> mat \<Rightarrow> mat
     \<Rightarrow> nat \<Rightarrow> nat \<Rightarrow> nat \<Rightarrow> mat \<Rightarrow> nat \<Rightarrow> mat \<times> mat \<times> mat" where
  "fla_dhu_tiles F scale T K V BT BC BK BV q k d g d_o dv i_k i_v i_t b_dh i_c =
     (let r0 = i_t * BT + i_c * BC;
          last_idx = min ((i_t + 1) * BT) T - 1;
          bg_last = map_option (\<lambda>g. g last_idx) g;
          b_g = map_option (\<lambda>g. ld1 g T r0) g;
          b_q = tr (ld q T K r0 (i_k * BK));
          b_q = mcast (to_in (base F)) (case b_g of
             None \<Rightarrow> (\<lambda>d i. b_q d i * scale)
           | Some b_g \<Rightarrow> (\<lambda>d i. b_q d i * scale * exp (b_g i)));
          b_k = scale_by F scale_rows (map_option (\<lambda>b_g i. exp (the bg_last - b_g i)) b_g) (ld k T K r0 (i_k * BK));
          b_d = scale_by F scale_cols (map_option (\<lambda>b_g i. exp (b_g i)) b_g) (tr (ld d T K r0 (i_k * BK)));
          b_do = ld d_o T V r0 (i_v * BV);
          b_dv = ld dv T V r0 (i_v * BV);
          b_dv2 = madd b_dv (dot BK b_k (mcast (to_in (base F)) b_dh))
      in (b_dv2, dot BC b_q (mcast (to_in (base F)) b_do), dot BC b_d (mcast (to_in (base F)) b_dv2)))"

definition fla_dhu_subchunk ::
  "fla_env \<Rightarrow> nat \<Rightarrow> real \<Rightarrow> nat \<Rightarrow> nat \<Rightarrow> nat \<Rightarrow> nat \<Rightarrow> nat \<Rightarrow> nat \<Rightarrow> nat \<Rightarrow> mat \<Rightarrow> mat \<Rightarrow> mat \<Rightarrow> vec option \<Rightarrow> mat \<Rightarrow> mat
     \<Rightarrow> nat \<Rightarrow> nat \<Rightarrow> nat \<Rightarrow> mat \<Rightarrow> nat \<Rightarrow> mat \<times> mat \<Rightarrow> mat \<times> mat" where
  "fla_dhu_subchunk F bos scale T K V BT BC BK BV q k d g d_o dv i_k i_v i_t b_dh i_c = (\<lambda>(dv2, b_dh_tmp).
     (let (b_dv2, add, sub) = fla_dhu_tiles F scale T K V BT BC BK BV q k d g d_o dv i_k i_v i_t b_dh i_c
      in (at_seq bos (\<lambda>dv2. st dv2 T V (i_t * BT + i_c * BC) (i_v * BV) BC BV (mcast (to_in (base F)) b_dv2)) dv2,
          msub (madd b_dh_tmp add) sub)))"

text \<open>A loop \<open>for i in range(n - 1, -1, -1)\<close>.\<close>

definition down_loop :: "nat \<Rightarrow> (nat \<Rightarrow> 's \<Rightarrow> 's) \<Rightarrow> 's \<Rightarrow> 's" where
  "down_loop n body = for_loop n (\<lambda>m. body (n - 1 - m))"

definition fla_dhu_chunk ::
  "fla_env \<Rightarrow> nat \<Rightarrow> nat \<Rightarrow> real \<Rightarrow> nat \<Rightarrow> nat \<Rightarrow> nat \<Rightarrow> nat \<Rightarrow> nat \<Rightarrow> nat \<Rightarrow> nat \<Rightarrow> mat \<Rightarrow> mat \<Rightarrow> mat \<Rightarrow> vec option \<Rightarrow> mat \<Rightarrow> mat
     \<Rightarrow> nat \<Rightarrow> nat \<Rightarrow> nat \<Rightarrow> mat \<times> (nat \<Rightarrow> mat) \<times> mat \<Rightarrow> mat \<times> (nat \<Rightarrow> mat) \<times> mat" where
  "fla_dhu_chunk F bos boh scale T K V BT BC BK BV q k d g d_o dv i_k i_v i_t = (\<lambda>(b_dh, dh, dv2).
     (let dh' = dh(boh + i_t := st (dh (boh + i_t)) K V (i_k * BK) (i_v * BV) BK BV (mcast (to_in (base F)) b_dh));
          last_idx = min ((i_t + 1) * BT) T - 1;
          (dv2', b_dh_tmp) = down_loop (cdiv BT BC)
             (fla_dhu_subchunk F bos scale T K V BT BC BK BV q k d g d_o dv i_k i_v i_t b_dh) (dv2, zero_tile);
          factor = (case g of None \<Rightarrow> 1 | Some g \<Rightarrow> exp (g last_idx))
      in (madd (\<lambda>r c. b_dh r c * factor) b_dh_tmp, dh', dv2')))"

definition fla_bwd_kernel_dhu ::
  "fla_env \<Rightarrow> nat list option \<Rightarrow> nat list \<Rightarrow> real \<Rightarrow> nat \<Rightarrow> nat \<Rightarrow> nat \<Rightarrow> nat \<Rightarrow> nat \<Rightarrow> nat \<Rightarrow> nat \<Rightarrow> mat \<Rightarrow> mat \<Rightarrow> mat
     \<Rightarrow> vec option \<Rightarrow> (nat \<Rightarrow> mat) option \<Rightarrow> mat \<Rightarrow> mat \<Rightarrow> nat \<Rightarrow> nat \<Rightarrow> nat
     \<Rightarrow> (nat \<Rightarrow> mat) \<times> mat \<times> (nat \<Rightarrow> mat) option \<Rightarrow> (nat \<Rightarrow> mat) \<times> mat \<times> (nat \<Rightarrow> mat) option" where
  "fla_bwd_kernel_dhu F offsets chunk_offsets scale T K V BT BC BK BV q k d g dht d_o dv i_k i_v i_n = (\<lambda>(dh, dv2, dh0).
     (let (bos, T, boh) = sequence_of offsets chunk_offsets T i_n;
          NT = cdiv T BT;
          b_dh = (case dht of
                    None \<Rightarrow> zero_tile
                  | Some dht \<Rightarrow> madd zero_tile (ld (dht i_n) K V (i_k * BK) (i_v * BV)));
          (b_dh, dh', dv2') = down_loop NT
             (fla_dhu_chunk F bos boh scale T K V BT BC BK BV (seq_view bos q) (seq_view bos k) (seq_view bos d)
                (map_option (seq_view bos) g) (seq_view bos d_o) (seq_view bos dv) i_k i_v) (b_dh, dh, dv2);
          dh0' = map_option (\<lambda>dh0. dh0(i_n := st (dh0 i_n) K V (i_k * BK) (i_v * BV) BK BV (mcast (to_f32 (base F)) b_dh))) dh0
      in (dh', dv2', dh0')))"

text \<open>
  \<open>w\<close> and \<open>dv\<close> are given together.  The state is \<open>(dq, dk, dg, dw)\<close>.
\<close>

definition fla_chunk_bwd_kernel_dqkwg ::
  "fla_env \<Rightarrow> nat list option \<Rightarrow> (nat \<times> nat) list \<Rightarrow> real \<Rightarrow> nat \<Rightarrow> nat \<Rightarrow> nat \<Rightarrow> nat \<Rightarrow> nat \<Rightarrow> nat \<Rightarrow> mat \<Rightarrow> mat \<Rightarrow> mat
     \<Rightarrow> (nat \<Rightarrow> mat) \<Rightarrow> vec option \<Rightarrow> mat \<Rightarrow> (nat \<Rightarrow> mat) \<Rightarrow> (mat \<times> mat) option \<Rightarrow> nat \<Rightarrow> nat
     \<Rightarrow> mat \<times> mat \<times> (nat \<Rightarrow> vec) \<times> mat \<Rightarrow> mat \<times> mat \<times> (nat \<Rightarrow> vec) \<times> mat" where
  "fla_chunk_bwd_kernel_dqkwg F offsets indices scale T K V BT BK BV q k v h g d_o dh w_dv i_k i_tg = (\<lambda>(dq, dk, dg, dw).
     (let (bos, T, i_t) = program_chunk offsets indices T i_tg;
          q = seq_view bos q; k = seq_view bos k; v = seq_view bos v; d_o = seq_view bos d_o;
          store = (\<lambda>b. at_seq bos (\<lambda>x. st x T K (i_t * BT) (i_k * BK) BT BK b));
          (b_dq, b_dk, b_ds, b_dg_last, b_dw) = for_loop (cdiv V BV) (\<lambda>i_v (b_dq, b_dk, b_ds, b_dg_last, b_dw).
            let b_v = ld v T V (i_t * BT) (i_v * BV);
                b_do = ld d_o T V (i_t * BT) (i_v * BV);
                b_h = tr (ld (h i_tg) K V (i_k * BK) (i_v * BV));
                b_dh = tr (ld (dh i_tg) K V (i_k * BK) (i_v * BV));
                b_dw = (case w_dv of None \<Rightarrow> b_dw
                  | Some (w, dv) \<Rightarrow> madd b_dw (dot BV (mcast (to_in (base F)) (ld (seq_view bos dv) T V (i_t * BT) (i_v * BV)))
                                                 (mcast (to_in (base F)) b_h)))
            in (madd b_dq (dot BV b_do (mcast (to_in (base F)) b_h)),
                madd b_dk (dot BV b_v (mcast (to_in (base F)) b_dh)),
                madd b_ds (dot BV b_do (tr b_v)),
                b_dg_last + (\<Sum>e<BV. \<Sum>d<BK. b_h e d * b_dh e d), b_dw))
            (zero_tile, zero_tile, zero_tile, 0, zero_tile);
          b_q = ld q T K (i_t * BT) (i_k * BK);
          b_k = ld k T K (i_t * BT) (i_k * BK)
      in case g of
           Some g \<Rightarrow>
             (let g = seq_view bos g;
                  b_g = ld1 g T (i_t * BT);
                  b_g_last = g (min (i_t * BT + BT) T - 1);
                  b_dg_last = b_dg_last * exp b_g_last;
                  (b_dg, dw) = (case w_dv of None \<Rightarrow> (\<lambda>i. 0, dw)
                    | Some (w, dv) \<Rightarrow>
                        (let b_w = ld (seq_view bos w) T K (i_t * BT) (i_k * BK);
                             b_dw = scale_rows b_dw (\<lambda>i. exp (b_g i))
                         in (\<lambda>i. 0 - row_sums BK b_w b_dw i, store (\<lambda>i c. - to_in (base F) (b_dw i c)) dw)));
                  b_dq = (\<lambda>i c. b_dq i c * exp (b_g i) * scale);
                  b_dg = (\<lambda>i. b_dg i + row_sums BK b_dq b_q i);
                  b_dk = scale_rows b_dk (\<lambda>i. safe_exp F (- b_g i + b_g_last));
                  b_dg = (\<lambda>i. b_dg i - row_sums BK b_k b_dk i);
                  b_dg_last = b_dg_last + (\<Sum>i<BT. \<Sum>c<BK. b_dk i c * b_k i c);
                  b_ds = (\<lambda>i j. (if i \<ge> j then b_ds i j * safe_exp F (b_g i - b_g j) else 0) * scale);
                  b_ds2 = (\<lambda>i j. b_ds i j * dot BK b_q (tr b_k) i j);
                  b_dg = (\<lambda>i. b_dg i + (\<Sum>j<BT. b_ds2 i j));
                  b_dg = (\<lambda>j. b_dg j - (\<Sum>i<BT. b_ds2 i j));
                  b_ds = mcast (to_in (base F)) b_ds;
                  b_dq = madd b_dq (dot BT b_ds b_k);
                  b_dk = madd b_dk (dot BT (tr b_ds) b_q);
                  b_dg = (\<lambda>i. if int i < int (min BT (T - i_t * BT)) - 1 then b_dg i else b_dg i + b_dg_last)
              in (store (mcast (to_in (base F)) b_dq) dq, store (mcast (to_in (base F)) b_dk) dk,
                  dg(i_k := at_seq1 bos (\<lambda>dg. st1 dg T (i_t * BT) BT b_dg) (dg i_k)), dw))
         | None \<Rightarrow>
             (let dw = (case w_dv of None \<Rightarrow> dw | Some _ \<Rightarrow> store (\<lambda>i c. - to_in (base F) (b_dw i c)) dw);
                  b_ds = (\<lambda>i j. if i \<ge> j then b_ds i j else 0);
                  b_ds = mcast (to_in (base F)) b_ds;
                  b_dq = madd b_dq (dot BT b_ds b_k);
                  b_dk = madd b_dk (\<lambda>i c. dot BT (tr b_ds) b_q i c * scale);
                  b_dq = (\<lambda>i c. b_dq i c * scale)
              in (store (mcast (to_in (base F)) b_dq) dq, store (mcast (to_in (base F)) b_dk) dk, dg, dw))))"

section \<open>The launches\<close>

definition fla_chunk_bwd_dv_local ::
  "fla_env \<Rightarrow> nat list option \<Rightarrow> (nat \<times> nat) list option \<Rightarrow> real \<Rightarrow> nat \<Rightarrow> nat \<Rightarrow> nat \<Rightarrow> nat \<Rightarrow> mat \<Rightarrow> mat
     \<Rightarrow> vec option \<Rightarrow> mat \<Rightarrow> mat result" where
  "fla_chunk_bwd_dv_local F offsets indices scale chunk_size T K V q k g d_o =
     (let BT = chunk_block F chunk_size T;
          BK = min (next_pow2 (base F) K) 128;
          BV = min (next_pow2 (base F) V) 128
      in if offsets \<noteq> None \<and> indices = None then Inl TypeError
         else let ixs = (case indices of None \<Rightarrow> [] | Some ixs \<Rightarrow> ixs);
                  NT = (case offsets of None \<Rightarrow> cdiv T BT | Some os \<Rightarrow> length ixs)
              in Inr (for_loop NT (fla_chunk_bwd_kernel_dv_local F offsets ixs scale T K V BT BK BV q k g d_o)
                   (uninit (base F))))"

definition fla_bwd_dhu ::
  "fla_env \<Rightarrow> nat list option \<Rightarrow> real \<Rightarrow> nat \<Rightarrow> nat \<Rightarrow> nat \<Rightarrow> nat \<Rightarrow> mat \<Rightarrow> mat \<Rightarrow> mat \<Rightarrow> vec option \<Rightarrow> (nat \<Rightarrow> mat) option
     \<Rightarrow> (nat \<Rightarrow> mat) option \<Rightarrow> mat \<Rightarrow> mat \<Rightarrow> ((nat \<Rightarrow> mat) \<times> (nat \<Rightarrow> mat) option \<times> mat) result" where
  "fla_bwd_dhu F offsets scale chunk_size T K V q k w g h0 dht d_o dv =
     (let BT = chunk_block F chunk_size T;
          N = (case offsets of None \<Rightarrow> 1 | Some os \<Rightarrow> length os - 1);
          chunk_offsets = (case offsets of None \<Rightarrow> [] | Some os \<Rightarrow> prepare_varlen_inputs os BT);
          BK = next_pow2 (base F) K
      in if \<not> BK \<le> 256 then Inl AssertionError
         else let (BV, BC) = (if fst (capability F) \<ge> 9 then (64, 64)
                              else if capability F = (8, 0) then (32, if K \<le> 128 then 64 else 32)
                              else (32, if K \<le> 128 then 64 else 32));
                  BC = min BT BC;
                  NK = cdiv K BK;
                  NV = cdiv V BV
              in if NK \<noteq> 1 then Inl AssertionError
                 else let dh0 = map_option (\<lambda>_ n. uninit (base F)) h0;
                          (dh, dv2, dh0) = for_loop NK (\<lambda>i_k. for_loop NV (\<lambda>i_v. for_loop N (\<lambda>i_n.
                            fla_bwd_kernel_dhu F offsets chunk_offsets scale T K V BT BC BK BV q k w g dht d_o dv i_k i_v i_n)))
                            ((\<lambda>n. uninit (base F)), uninit (base F), dh0)
                      in Inr (dh, dh0, dv2))"

definition fla_chunk_bwd_dqkwg ::
  "fla_env \<Rightarrow> nat list option \<Rightarrow> (nat \<times> nat) list option \<Rightarrow> real \<Rightarrow> nat \<Rightarrow> nat \<Rightarrow> nat \<Rightarrow> nat \<Rightarrow> mat \<Rightarrow> mat \<Rightarrow> mat
     \<Rightarrow> (nat \<Rightarrow> mat) \<Rightarrow> vec option \<Rightarrow> mat \<Rightarrow> (nat \<Rightarrow> mat) \<Rightarrow> (mat \<times> mat) option
     \<Rightarrow> (mat \<times> mat \<times> mat option \<times> vec option) result" where
  "fla_chunk_bwd_dqkwg F offsets indices scale chunk_size T K V q k v h g d_o dh w_dv =
     (let BT = chunk_block F chunk_size T
      in if offsets \<noteq> None \<and> indices = None then Inl TypeError
         else let ixs = (case indices of None \<Rightarrow> [] | Some ixs \<Rightarrow> ixs);
                  NT = (case offsets of None \<Rightarrow> cdiv T BT | Some os \<Rightarrow> length ixs);
                  BK = min (next_pow2 (base F) K) 64;
                  BV = min (next_pow2 (base F) V) 64;
                  NK = cdiv K BK;
                  (dq, dk, dg, dw) = for_loop NK (\<lambda>i_k. for_loop NT (\<lambda>i_t.
                    fla_chunk_bwd_kernel_dqkwg F offsets ixs scale T K V BT BK BV q k v h g d_o dh w_dv i_k i_t))
                    (uninit (base F), uninit (base F), (\<lambda>n t. uninit (base F) n t), uninit (base F))
              in Inr (dq, dk, map_option (\<lambda>_. dw) w_dv, map_option (\<lambda>_ t. \<Sum>n<NK. dg n t) g))"

text \<open>
  Every helper is called with the block size, not with the chunk size, and only the last reversed
  sum with the chunk size itself.  \<open>dk.add_(dk2)\<close> rounds to the keys' type; \<open>dg\<close> is single precision.
\<close>

definition fla_chunk_gated_delta_rule_bwd ::
  "fla_env \<Rightarrow> nat list option \<Rightarrow> (nat \<times> nat) list option \<Rightarrow> nat \<Rightarrow> nat \<Rightarrow> nat \<Rightarrow> nat \<Rightarrow> mat \<Rightarrow> mat \<Rightarrow> mat \<Rightarrow> vec \<Rightarrow> vec
     \<Rightarrow> mat \<Rightarrow> mat \<Rightarrow> real \<Rightarrow> (nat \<Rightarrow> mat) option \<Rightarrow> mat \<Rightarrow> (nat \<Rightarrow> mat) option
     \<Rightarrow> (mat \<times> mat \<times> mat \<times> vec \<times> vec \<times> (nat \<Rightarrow> mat) option) result" where
  "fla_chunk_gated_delta_rule_bwd F offsets indices chunk_size T K V q k v g beta Aw Au scale initial_state d_o dht =
     (let BT = chunk_block F chunk_size T;
          (w, u) = fla_fwd_recompute_w_u F offsets indices BT T K V k v beta Aw Au
      in rbind (fla_fwd_h F offsets BT T K V k w u (Some g) initial_state False) (\<lambda>(h, v_new, _).
         rbind (fla_chunk_bwd_dv_local F offsets indices scale BT T K V q k (Some g) d_o) (\<lambda>dv.
         rbind (fla_bwd_dhu F offsets scale BT T K V q k w (Some g) initial_state dht d_o dv) (\<lambda>(dh, dh0, dv).
         rbind (fla_chunk_bwd_dqkwg F offsets indices scale BT T K V q k v_new h (Some g) d_o dh (Some (w, dv))) (\<lambda>(dq, dk, dw, dg).
         case (dw, dg) of
           (Some dw, Some dg) \<Rightarrow>
             (let (dk2, dv, db, dg2) = fla_bwd_prepare_wy_repr F offsets indices BT T K V k v g beta Aw Au dw dv;
                  dk = mcast (to_in (base F)) (madd dk dk2);
                  dg = (\<lambda>t. dg t + dg2 t);
                  dg = chunk_local_revcumsum F chunk_size offsets T dg
              in Inr (dq, dk, dv, db, dg, dh0))
         | _ \<Rightarrow> Inl TypeError)))))"

text \<open>
  The saved inputs come back as the arguments they were; \<open>to(g)\<close> is the type of the saved sums, single
  precision, and \<open>to(beta)\<close> that of \<open>beta\<close>.
\<close>

definition FlaFunction_backward ::
  "fla_env \<Rightarrow> nat list option \<Rightarrow> nat \<Rightarrow> nat \<Rightarrow> nat \<Rightarrow> mat \<Rightarrow> mat \<Rightarrow> mat \<Rightarrow> vec \<Rightarrow> (nat \<Rightarrow> mat) option \<Rightarrow> fla_ctx
     \<Rightarrow> mat \<Rightarrow> (nat \<Rightarrow> mat) option \<Rightarrow> (mat \<times> mat \<times> mat \<times> vec \<times> vec \<times> (nat \<Rightarrow> mat) option) result" where
  "FlaFunction_backward F offsets T K V q k v beta initial_state ctx d_o dht =
     rbind (fla_chunk_gated_delta_rule_bwd F offsets (saved_indices ctx) (ctx_chunk_size ctx) T K V q k v (saved_g ctx) beta
              (saved_Aw ctx) (saved_Au ctx) (ctx_scale ctx) initial_state d_o dht) (\<lambda>(dq, dk, dv, db, dg, dh0).
     Inr (mcast (to_in (base F)) dq, mcast (to_in (base F)) dk, mcast (to_in (base F)) dv,
          (\<lambda>t. to_f32 (base F) (dg t)), (\<lambda>t. to_in (base F) (db t)), dh0))"

section \<open>The value gradient inside a chunk\<close>

text \<open>The gradient of the scaled outputs, and the part of the new values' gradient that stays in its chunk.\<close>

definition out_grad :: "real \<Rightarrow> mat \<Rightarrow> mat" where
  "out_grad scale d_o = (\<lambda>t e. scale * d_o t e)"

definition local_values :: "nat \<Rightarrow> nat \<Rightarrow> mat \<Rightarrow> mat \<Rightarrow> vec \<Rightarrow> mat \<Rightarrow> nat \<Rightarrow> mat" where
  "local_values K BT q k gt p n = (\<lambda>i e. \<Sum>j<BT. decay_between BT gt n j i
     * (\<Sum>d<K. chunk_view BT n q j d * chunk_view BT n k i d) * chunk_view BT n p j e)"

lemma chunk_values_split:
  "chunk_values K BT q k gt p n D i e
     = decay_out BT gt n i * (\<Sum>d<K. chunk_view BT n k i d * D d e) + local_values K BT q k gt p n i e"
  by (simp add: chunk_values_def value_grad_def local_values_def)

lemma for_loop_madd_zero: "for_loop n (\<lambda>i A. madd A (f i)) zero_tile = (\<lambda>r c. \<Sum>i<n. f i r c)"
  by (simp add: for_loop_madd zero_tile_def)

text \<open>\<open>safe_exp\<close> is the exponential on the differences of one chunk, as it is when the log decays are at most zero.\<close>

definition decays_exact :: "fla_env \<Rightarrow> nat \<Rightarrow> nat \<Rightarrow> vec \<Rightarrow> bool" where
  "decays_exact F BT len c \<longleftrightarrow>
     (\<forall>s t. t < len \<longrightarrow> s \<le> t \<longrightarrow> s div BT = t div BT \<longrightarrow> safe_exp F (c t - c s) = exp (c t - c s))"

lemma decays_exact_safe:
  assumes E: "exact_casts (base F)" "safe_exp_spec F" and g: "local_gate BT len g0 c" "\<And>t. t < len \<Longrightarrow> g0 t \<le> 0" and BT: "0 < BT"
  shows "decays_exact F BT len c"
  unfolding decays_exact_def
proof (intro allI impI)
  fix s t assume t: "t < len" "s \<le> t" "s div BT = t div BT"
  let ?n = "t div BT"
  have at: "?n * BT + t mod BT = t" "?n * BT + s mod BT = s" using t(3) by (metis div_mult_mod_eq)+
  have ij: "s mod BT \<le> t mod BT" "t mod BT < BT" using at t(2) BT by (linarith, simp)
  show "safe_exp F (c t - c s) = exp (c t - c s)"
    using safe_decay [OF E g ij, where n = ?n] gate_exp_diff [OF E(1) g(1) BT, of t s] t at by simp
qed

text \<open>A decay the kernels mask with \<open>safe_exp\<close>; rows past the end do not matter where the factor is zero.\<close>

lemma masked_decay:
  assumes E: "exact_casts (base F)" and g: "local_gate BT len g0 c" "decays_exact F BT len c"
    and gt: "gt = gate (base F) BT len g0" and ij: "i < BT" "j < BT" and z: "len \<le> n * BT + i \<longrightarrow> x = 0"
  shows "(if j \<le> i then x * safe_exp F (ld1 c len (n * BT) i - ld1 c len (n * BT) j) else 0) = decay_between BT gt n i j * x"
proof (cases "j \<le> i \<and> n * BT + i < len")
  case True
  then have "ld1 c len (n * BT) i = c (n * BT + i)" "ld1 c len (n * BT) j = c (n * BT + j)" by (simp_all add: ld1_def)
  moreover have "(n * BT + j) div BT = (n * BT + i) div BT" using ij by simp
  ultimately have "safe_exp F (ld1 c len (n * BT) i - ld1 c len (n * BT) j) = exp (c (n * BT + i) - c (n * BT + j))"
    using g(2) True by (simp add: decays_exact_def)
  then show ?thesis using gate_exp_diff [OF E g(1), of "n * BT + i" "n * BT + j"] True ij by (simp add: decay_between_def gt)
next
  case False
  then show ?thesis using z by (auto simp: decay_between_def)
qed

lemma dv_local_value:
  assumes E: "exact_casts (base F)" and p: "0 < BK" "0 < BV" "0 < BT"
    and g: "local_gate BT len g0 (seq_view bos c)" "decays_exact F BT len (seq_view bos c)"
    and pc: "program_chunk offsets indices T i = (bos, len, n)" and gt: "gt = gate (base F) BT len g0"
    and t: "t < len" "t div BT = n" and e: "e < V"
  shows "fla_chunk_bwd_kernel_dv_local F offsets indices scale T K V BT BK BV q k (Some c) d_o i dv (bos + t) e
    = local_values K BT (seq_rows bos len q) (seq_rows bos len k) gt (out_grad scale (seq_rows bos len d_o)) n (t mod BT) e"
proof -
  have casts: "to_in (base F) = (\<lambda>x. x)" using E by (simp add: exact_casts_def)
  have mcasts: "mcast (\<lambda>x. x) M = M" for M by (simp add: mcast_def)
  have r: "t mod BT < BT" using p(3) by simp
  let ?q = "seq_rows bos len q" and ?k = "seq_rows bos len k" and ?lc = "ld1 (seq_view bos c) len (n * BT)"
  let ?S = "\<lambda>i j. \<Sum>d<K. ?k (n * BT + i) d * ?q (n * BT + j) d"
  let ?A = "\<lambda>i j. if i \<le> j then ?S i j * safe_exp F (?lc j - ?lc i) * scale else 0"
  have run: "fla_chunk_bwd_kernel_dv_local F offsets indices scale T K V BT BK BV q k (Some c) d_o i dv
    = for_loop (cdiv V BV) (\<lambda>i_v. at_seq bos (\<lambda>dv. st dv len V (n * BT) (i_v * BV) BT BV
           (dot BT ?A (ld (seq_view bos d_o) len V (n * BT) (i_v * BV))))) dv"
    unfolding fla_chunk_bwd_kernel_dv_local_def pc prod.case Let_def casts mcasts for_loop_madd_zero blocked_rows(2) [OF p(1)]
      option.case by (rule refl)
  have "fla_chunk_bwd_kernel_dv_local F offsets indices scale T K V BT BK BV q k (Some c) d_o i dv (bos + t) e
      = (\<Sum>j<BT. ?A (t mod BT) j * seq_rows bos len d_o (n * BT + j) e)"
    unfolding run at_seq_store_cols [OF p(2)]
    using t e block_rows_iff [OF p(3), of n t] block_offset [OF t(2)] block_in_cdiv [OF p(2) e]
    by (simp add: dot_def ld_padded)
  also have "\<dots> = (\<Sum>j<BT. decay_between BT gt n j (t mod BT) * ?S (t mod BT) j * (scale * seq_rows bos len d_o (n * BT + j) e))"
  proof (intro sum.cong refl)
    fix j assume "j \<in> {..<BT}"
    then have j: "j < BT" by simp
    have z: "len \<le> n * BT + j \<longrightarrow> ?S (t mod BT) j = 0" by (simp add: pad_rows_def)
    have m: "(if t mod BT \<le> j then ?S (t mod BT) j * safe_exp F (?lc j - ?lc (t mod BT)) else 0)
        = decay_between BT gt n j (t mod BT) * ?S (t mod BT) j"
      by (rule masked_decay [OF E g gt j r z])
    have "?A (t mod BT) j = (if t mod BT \<le> j then ?S (t mod BT) j * safe_exp F (?lc j - ?lc (t mod BT)) else 0) * scale"
      by simp
    then show "?A (t mod BT) j * seq_rows bos len d_o (n * BT + j) e
       = decay_between BT gt n j (t mod BT) * ?S (t mod BT) j * (scale * seq_rows bos len d_o (n * BT + j) e)"
      unfolding m by (simp only: mult.assoc)
  qed
  finally show ?thesis by (simp add: local_values_def out_grad_def chunk_view_def mult.commute)
qed

lemma dv_local_keep:
  assumes p: "0 < BV" "0 < BT" and no: "\<not> owns BT (program_chunk offsets indices T i) r"
  shows "fla_chunk_bwd_kernel_dv_local F offsets indices scale T K V BT BK BV q k g d_o i dv r = dv r"
proof -
  obtain bos len n where pc: "program_chunk offsets indices T i = (bos, len, n)" by (rule prod_cases3)
  show ?thesis
    unfolding fla_chunk_bwd_kernel_dv_local_def pc prod.case Let_def fun_eq_iff at_seq_store_cols [OF p(1)]
    using no pc block_rows_iff [OF p(2), of n "r - bos"] by (auto simp: owns_def)
qed

lemma dv_local_launch:
  assumes E: "exact_casts (base F)" and p: "0 < BK" "0 < BV" "0 < BT"
    and plan: "launch_plan BT offsets indices T NT bos len"
    and g: "local_gate BT len g0 (seq_view bos c)" "decays_exact F BT len (seq_view bos c)" and gt: "gt = gate (base F) BT len g0"
    and t: "t < len" and e: "e < V"
  shows "for_loop NT (fla_chunk_bwd_kernel_dv_local F offsets indices scale T K V BT BK BV q k (Some c) d_o) s (bos + t) e
    = local_values K BT (seq_rows bos len q) (seq_rows bos len k) gt (out_grad scale (seq_rows bos len d_o)) (t div BT) (t mod BT) e"
proof (rule launch_rows [OF plan t, where get = "\<lambda>r s. s r e"])
  fix i s r assume "\<not> owns BT (program_chunk offsets indices T i) r"
  then show "fla_chunk_bwd_kernel_dv_local F offsets indices scale T K V BT BK BV q k (Some c) d_o i s r e = s r e"
    by (simp add: dv_local_keep [OF p(2,3)])
qed (rule dv_local_value [OF E p g _ gt t refl e])

section \<open>The state gradient\<close>

lemma for_loop_msub:
  "for_loop n (\<lambda>i (A, T). (f i A, msub (madd T (x i)) (y i))) (A0, T0)
     = (for_loop n f A0, (\<lambda>r c. T0 r c + (\<Sum>i<n. x i r c - y i r c)))"
  by (induction n) (auto simp: madd_def msub_def fun_eq_iff)

lemma sum_down_blocks:
  fixes f :: "nat \<Rightarrow> real"
  shows "(\<Sum>m<M. \<Sum>i<B. f ((M - 1 - m) * B + i)) = (\<Sum>l<M * B. f l)"
proof -
  have "(\<Sum>m<M. \<Sum>i<B. f ((M - 1 - m) * B + i)) = (\<Sum>m<M. \<Sum>i<B. f (m * B + i))"
    using sum.nat_diff_reindex [of "\<lambda>m. \<Sum>i<B. f (m * B + i)" M] by simp
  also have "\<dots> = (\<Sum>m<M. sum f {m * B..<m * B + B})"
  proof (rule sum.cong [OF refl])
    fix m
    have "sum f {0 + m * B..<B + m * B} = (\<Sum>i = 0..<B. f (i + m * B))" by (rule sum.shift_bounds_nat_ivl)
    then show "(\<Sum>i<B. f (m * B + i)) = sum f {m * B..<m * B + B}"
      by (simp only: atLeast0LessThan add_0 add.commute)
  qed
  also have "\<dots> = (\<Sum>l<M * B. f l)" by (rule sum.nat_group)
  finally show ?thesis .
qed

text \<open>One column of the tiles of a subchunk.\<close>

lemma dhu_tiles_column:
  assumes E: "exact_casts (base F)" and g: "local_gate BT len g0 c" "0 < BT" "n * BT < len" and gt: "gt = gate (base F) BT len g0"
    and KB: "K \<le> BK" and e: "e < V" "e div BV = i_v" and ic: "i_c * BC + BC \<le> BT"
    and q: "qn = chunk_view BT n (pad_rows len q)" and w: "wn = chunk_view BT n (pad_rows len w)"
    and dop: "pn = chunk_view BT n (out_grad scale (pad_rows len d_o))"
    and D: "\<forall>d<K. b_dh d (e mod BV) = D d e"
    and loc: "\<forall>t<len. t div BT = n \<longrightarrow> dv t e = local_values K BT (pad_rows len q) (pad_rows len k) gt (out_grad scale (pad_rows len d_o)) n (t mod BT) e"
    and Y: "Y = chunk_values K BT (pad_rows len q) (pad_rows len k) gt (out_grad scale (pad_rows len d_o)) n D"
    and tiles: "fla_dhu_tiles F scale len K V BT BC BK BV q k w (Some c) d_o dv 0 i_v n b_dh i_c = (b_dv2, add, sub)"
  shows "i < BC \<Longrightarrow> b_dv2 i (e mod BV) = Y (i_c * BC + i) e"
    and "d < K \<Longrightarrow> add d (e mod BV) - sub d (e mod BV) = (\<Sum>i<BC. decay_in BT gt n (i_c * BC + i) * qn (i_c * BC + i) d * pn (i_c * BC + i) e
        - decay_in BT gt n (i_c * BC + i) * wn (i_c * BC + i) d * Y (i_c * BC + i) e)"
proof -
  have casts: "to_in (base F) = (\<lambda>x. x)" using E by (simp add: exact_casts_def)
  have mcasts: "mcast (\<lambda>x. x) M = M" for M by (simp add: mcast_def)
  have col: "i_v * BV + e mod BV = e" using e(2) by (metis div_mult_mod_eq)
  let ?r0 = "n * BT + i_c * BC" and ?kn = "chunk_view BT n (pad_rows len k)"
  let ?lc = "ld1 c len ?r0"
  let ?bk = "\<lambda>i d. ld k len K ?r0 0 i d * exp (c (min ((n + 1) * BT) len - 1) - ?lc i)"
  have b: "b_dv2 = madd (ld dv len V ?r0 (i_v * BV)) (dot BK ?bk b_dh)"
    "add = dot BC (\<lambda>d i. ld q len K ?r0 0 i d * scale * exp (?lc i)) (ld d_o len V ?r0 (i_v * BV))"
    "sub = dot BC (\<lambda>d i. ld w len K ?r0 0 i d * exp (?lc i)) b_dv2"
    using tiles by (auto simp: fla_dhu_tiles_def Let_def casts mcasts scale_by_def scale_rows_def scale_cols_def tr_def)
  have row: "?r0 + i = n * BT + (i_c * BC + i)" for i by simp
  have l: "i_c * BC + i < BT" if "i < BC" for i using that ic by linarith
  have ein: "exp (?lc i) * x = decay_in BT gt n (i_c * BC + i) * x" if "i < BC" "len \<le> ?r0 + i \<Longrightarrow> x = 0" for i x
  proof (cases "?r0 + i < len")
    case True
    then show ?thesis using gate_exp [OF E g(1,2) True] by (simp add: decay_in_def gt ld1_def add.assoc)
  next
    case False
    then show ?thesis using that by simp
  qed
  have lk: "ld x len K ?r0 0 i d = chunk_view BT n (pad_rows len x) (i_c * BC + i) d" if "d < K" for x i d
    using that by (simp add: ld_padded chunk_view_def add.assoc)
  have lv: "ld x len V ?r0 (i_v * BV) i (e mod BV) = chunk_view BT n (pad_rows len x) (i_c * BC + i) e" for x i
    using e col by (simp add: ld_padded chunk_view_def add.assoc)
  have z: "chunk_view BT n (pad_rows len x) (i_c * BC + i) d = 0" if "len \<le> ?r0 + i" for x i d
    using that by (simp add: chunk_view_def pad_rows_def add.assoc)
  show bY: "b_dv2 i (e mod BV) = Y (i_c * BC + i) e" if i: "i < BC" for i
  proof -
    have "dot BK ?bk b_dh i (e mod BV) = (\<Sum>d<BK. if d < K then decay_out BT gt n (i_c * BC + i) * (?kn (i_c * BC + i) d * D d e) else 0)"
      unfolding dot_def
    proof (intro sum.cong refl)
      fix d
      show "ld k len K ?r0 0 i d * exp (c (min ((n + 1) * BT) len - 1) - ?lc i) * b_dh d (e mod BV)
        = (if d < K then decay_out BT gt n (i_c * BC + i) * (?kn (i_c * BC + i) d * D d e) else 0)"
      proof (cases "d < K \<and> ?r0 + i < len")
        case True
        then have "exp (c (min ((n + 1) * BT) len - 1) - ?lc i) = decay_out BT gt n (i_c * BC + i)"
          using gate_last(2) [OF E g, of "i_c * BC + i"] l [OF i] by (simp add: decay_out_def gt ld1_def add.assoc)
        then show ?thesis using True D by (simp add: lk)
      next
        case False
        then show ?thesis using z by (auto simp: ld_def lk)
      qed
    qed
    also have "\<dots> = decay_out BT gt n (i_c * BC + i) * (\<Sum>d<K. ?kn (i_c * BC + i) d * D d e)"
      unfolding sum_distrib_left by (rule sum.mono_neutral_cong_right) (use KB in auto)
    finally have dotk: "dot BK ?bk b_dh i (e mod BV) = decay_out BT gt n (i_c * BC + i) * (\<Sum>d<K. ?kn (i_c * BC + i) d * D d e)" .
    have "ld dv len V ?r0 (i_v * BV) i (e mod BV) = local_values K BT (pad_rows len q) (pad_rows len k) gt (out_grad scale (pad_rows len d_o)) n (i_c * BC + i) e"
    proof (cases "?r0 + i < len")
      case True
      then show ?thesis using loc [rule_format, of "n * BT + (i_c * BC + i)"] l [OF i] by (simp add: lv chunk_view_def pad_rows_def add.assoc)
    next
      case False
      then show ?thesis unfolding lv by (simp add: z local_values_def)
    qed
    then show ?thesis unfolding b(1) madd_def dotk Y chunk_values_split by (simp only: add.commute)
  qed
  show "add d (e mod BV) - sub d (e mod BV) = (\<Sum>i<BC. decay_in BT gt n (i_c * BC + i) * qn (i_c * BC + i) d * pn (i_c * BC + i) e
        - decay_in BT gt n (i_c * BC + i) * wn (i_c * BC + i) d * Y (i_c * BC + i) e)" if d: "d < K"
  proof -
    have "add d (e mod BV) = (\<Sum>i<BC. decay_in BT gt n (i_c * BC + i) * qn (i_c * BC + i) d * pn (i_c * BC + i) e)"
      unfolding b(2) dot_def
    proof (intro sum.cong refl)
      fix i assume "i \<in> {..<BC}"
      then have "exp (?lc i) * qn (i_c * BC + i) d = decay_in BT gt n (i_c * BC + i) * qn (i_c * BC + i) d"
        by (intro ein) (simp_all add: q z)
      then show "ld q len K ?r0 0 i d * scale * exp (?lc i) * ld d_o len V ?r0 (i_v * BV) i (e mod BV)
        = decay_in BT gt n (i_c * BC + i) * qn (i_c * BC + i) d * pn (i_c * BC + i) e"
        by (auto simp: lk lv d q dop out_grad_def chunk_view_def)
    qed
    moreover have "sub d (e mod BV) = (\<Sum>i<BC. decay_in BT gt n (i_c * BC + i) * wn (i_c * BC + i) d * Y (i_c * BC + i) e)"
      unfolding b(3) dot_def
    proof (intro sum.cong refl)
      fix i assume i: "i \<in> {..<BC}"
      then have "exp (?lc i) * wn (i_c * BC + i) d = decay_in BT gt n (i_c * BC + i) * wn (i_c * BC + i) d"
        by (intro ein) (simp_all add: w z)
      then show "ld w len K ?r0 0 i d * exp (?lc i) * b_dv2 i (e mod BV)
        = decay_in BT gt n (i_c * BC + i) * wn (i_c * BC + i) d * Y (i_c * BC + i) e"
        using bY i by (auto simp: lk d w)
    qed
    ultimately show ?thesis by (simp only: sum_subtractf)
  qed
qed

lemma dhu_subchunk_step:
  assumes "exact_casts (base F)"
  shows "fla_dhu_subchunk F bos scale T K V BT BC BK BV q k d g d_o dv i_k i_v i_t b_dh i_c
    = (\<lambda>(dv2, tmp). (at_seq bos (\<lambda>x. st x T V (i_t * BT + i_c * BC) (i_v * BV) BC BV
          (fst (fla_dhu_tiles F scale T K V BT BC BK BV q k d g d_o dv i_k i_v i_t b_dh i_c))) dv2,
        msub (madd tmp (fst (snd (fla_dhu_tiles F scale T K V BT BC BK BV q k d g d_o dv i_k i_v i_t b_dh i_c))))
          (snd (snd (fla_dhu_tiles F scale T K V BT BC BK BV q k d g d_o dv i_k i_v i_t b_dh i_c)))))"
  using assms by (simp add: fla_dhu_subchunk_def Let_def split_def fun_eq_iff exact_casts_def mcast_def)

lemma dhu_chunk_column:
  assumes E: "exact_casts (base F)" and g: "local_gate BT len g0 c" "0 < BT" "n * BT < len" and gt: "gt = gate (base F) BT len g0"
    and KB: "K \<le> BK" and BV: "0 < BV" and e: "e < V" "e div BV = i_v" and BC: "0 < BC" "BT = M * BC"
    and D: "\<forall>d<K. b_dh d (e mod BV) = D d e"
    and loc: "\<forall>t<len. t div BT = n \<longrightarrow> dv t e = local_values K BT (pad_rows len q) (pad_rows len k) gt (out_grad scale (pad_rows len d_o)) n (t mod BT) e"
    and run: "fla_dhu_chunk F bos boh scale len K V BT BC BK BV q k w (Some c) d_o dv 0 i_v n (b_dh, dh, dv2) = (b_dh', dh', dv2')"
  shows "d < K \<Longrightarrow> b_dh' d (e mod BV) = back_step K BT (pad_rows len q) (pad_rows len k) (pad_rows len w) gt (out_grad scale (pad_rows len d_o)) n D d e"
    and "d < K \<Longrightarrow> dh' (boh + n) d e = D d e" and "x \<noteq> boh + n \<Longrightarrow> dh' x = dh x"
    and "t < len \<Longrightarrow> t div BT = n \<Longrightarrow> dv2' (bos + t) e
      = chunk_values K BT (pad_rows len q) (pad_rows len k) gt (out_grad scale (pad_rows len d_o)) n D (t mod BT) e"
    and "t < len \<Longrightarrow> t div BT \<noteq> n \<Longrightarrow> dv2' (bos + t) e = dv2 (bos + t) e"
proof -
  have casts: "mcast (to_in (base F)) A = A" for A using E by (simp add: exact_casts_def mcast_def)
  let ?q = "pad_rows len q" and ?k = "pad_rows len k" and ?w = "pad_rows len w" and ?p = "out_grad scale (pad_rows len d_o)"
  let ?Y = "chunk_values K BT ?q ?k gt ?p n D"
  let ?T = "fla_dhu_tiles F scale len K V BT BC BK BV q k w (Some c) d_o dv 0 i_v n b_dh"
  let ?st = "\<lambda>m. at_seq bos (\<lambda>x. st x len V (n * BT + (M - 1 - m) * BC) (i_v * BV) BC BV (fst (?T (M - 1 - m))))"
  have col: "i_v * BV + e mod BV = e" using e(2) by (metis div_mult_mod_eq)
  have ic: "i_c * BC + BC \<le> BT" if "i_c < M" for i_c
    using mult_le_mono1 [of "Suc i_c" M BC] that BC(2) by simp
  have triple: "?T i_c = (fst (?T i_c), fst (snd (?T i_c)), snd (snd (?T i_c)))" for i_c by simp
  note tile = dhu_tiles_column [where D = D and b_dh = b_dh and dv = dv, OF E g gt KB e ic refl refl refl D loc refl triple]
  have M: "cdiv BT BC = M" using BC by simp
  have b: "b_dh' = madd (\<lambda>r c'. b_dh r c' * exp (c (min ((n + 1) * BT) len - 1)))
      (\<lambda>r c. zero_tile r c + (\<Sum>m<M. fst (snd (?T (M - 1 - m))) r c - snd (snd (?T (M - 1 - m))) r c))"
    "dh' = dh(boh + n := st (dh (boh + n)) K V (0 * BK) (i_v * BV) BK BV b_dh)"
    "dv2' = for_loop M ?st dv2"
    using run unfolding fla_dhu_chunk_def prod.case Let_def casts M down_loop_def dhu_subchunk_step [OF E] for_loop_msub
      option.case by auto
  show "b_dh' d (e mod BV) = back_step K BT ?q ?k ?w gt ?p n D d e" if d: "d < K"
  proof -
    let ?f = "\<lambda>l. decay_in BT gt n l * chunk_view BT n ?q l d * chunk_view BT n ?p l e
        - decay_in BT gt n l * chunk_view BT n ?w l d * ?Y l e"
    have "(\<Sum>m<M. fst (snd (?T (M - 1 - m))) d (e mod BV) - snd (snd (?T (M - 1 - m))) d (e mod BV))
        = (\<Sum>m<M. \<Sum>i<BC. ?f ((M - 1 - m) * BC + i))"
      by (intro sum.cong refl tile(2) d) simp
    also have "\<dots> = (\<Sum>l<BT. ?f l)" using sum_down_blocks [where f = ?f and M = M and B = BC] unfolding BC(2) [symmetric] .
    finally have "b_dh' d (e mod BV) = D d e * exp (c (min ((n + 1) * BT) len - 1)) + (\<Sum>l<BT. ?f l)"
      using D d by (simp only: b(1) madd_def zero_tile_def)
    moreover have "exp (c (min ((n + 1) * BT) len - 1)) = decay_all BT gt n"
      using gate_last(1) [OF E g] by (simp only: decay_all_def gt)
    ultimately show ?thesis by (simp add: back_step_def state_grad_def sum_subtractf)
  qed
  show "dh' (boh + n) d e = D d e" if "d < K"
    using st_col [OF BV that e(1), where ?r0.0 = 0 and R = BK and b = i_v] that KB e D by (simp add: b(2))
  show "dh' x = dh x" if "x \<noteq> boh + n" using that by (simp add: b(2))
  have blk: "st x len V (n * BT + i_c * BC) (i_v * BV) BC BV y t e
      = (if n * BT + i_c * BC \<le> t \<and> t < n * BT + i_c * BC + BC then y (t - (n * BT + i_c * BC)) (e mod BV) else x t e)"
    if "t < len" for x y t i_c
    using st_col [OF BV that e(1)] e(2) by simp
  show "dv2' (bos + t) e = ?Y (t mod BT) e" if t: "t < len" "t div BT = n"
  proof -
    let ?i = "t mod BT"
    have ti: "t = n * BT + ?i" using t(2) by (metis div_mult_mod_eq)
    have iM: "?i div BC < M" using g(2) BC by (simp add: less_mult_imp_div_less)
    have i: "?i div BC * BC + ?i mod BC = ?i" "?i mod BC < BC" using BC(1) by simp_all
    have "for_loop M ?st dv2 (bos + t) e = ?Y ?i e"
    proof (rule launch_writes [where m = "M - 1 - ?i div BC" and get = "\<lambda>s. s (bos + t) e"])
      have m: "M - 1 - (M - 1 - ?i div BC) = ?i div BC" using iM by simp
      have at: "n * BT + ?i div BC * BC \<le> t" "t < n * BT + ?i div BC * BC + BC" "t - (n * BT + ?i div BC * BC) = ?i mod BC"
        using i ti by linarith+
      show "?st (M - 1 - ?i div BC) s (bos + t) e = ?Y ?i e" for s
        unfolding m at_seq_row blk [OF t(1)] using at tile(1) [OF iM i(2)] i(1) by simp
    next
      fix m s assume m: "m < M" "m \<noteq> M - 1 - ?i div BC"
      have "\<not> (n * BT + (M - 1 - m) * BC \<le> t \<and> t < n * BT + (M - 1 - m) * BC + BC)"
      proof
        assume a: "n * BT + (M - 1 - m) * BC \<le> t \<and> t < n * BT + (M - 1 - m) * BC + BC"
        then have "(M - 1 - m) * BC \<le> ?i \<and> ?i < (M - 1 - m) * BC + BC" using ti by linarith
        then have "?i div BC = M - 1 - m" using block_rows_iff [OF BC(1)] by blast
        then show False using m by simp
      qed
      then show "?st m s (bos + t) e = s (bos + t) e" unfolding at_seq_row blk [OF t(1)] seq_view_def by (simp only: if_False)
    qed (use iM in simp)
    then show ?thesis by (simp add: b(3))
  qed
  show "dv2' (bos + t) e = dv2 (bos + t) e" if t: "t < len" "t div BT \<noteq> n"
  proof -
    have "?st m s (bos + t) e = s (bos + t) e" if m: "m < M" for m s
    proof -
      have "\<not> (n * BT + (M - 1 - m) * BC \<le> t \<and> t < n * BT + (M - 1 - m) * BC + BC)"
        using block_rows_iff [OF g(2), of n t] t(2) ic [of "M - 1 - m"] m by auto
      then show ?thesis unfolding at_seq_row blk [OF t(1)] seq_view_def by (simp only: if_False)
    qed
    then show ?thesis unfolding b(3) by (rule for_loop_keep [where get = "\<lambda>s. s (bos + t) e"])
  qed
qed

lemma dhu_kernel_column:
  assumes E: "exact_casts (base F)" and sq: "sequence_of offsets co T i_n = (bos, len, boh)"
    and g: "local_gate BT len g0 (seq_view bos c)" "0 < BT" and gt: "gt = gate (base F) BT len g0"
    and BC: "0 < BC" "BC dvd BT" and p: "0 < BV" "K \<le> BK" and e: "e < V" "e div BV = i_v"
    and q: "qp = seq_rows bos len q" and k: "kp = seq_rows bos len k" and w: "wp = seq_rows bos len w"
    and pp: "pp = out_grad scale (seq_rows bos len d_o)"
    and loc: "\<forall>t<len. dv (bos + t) e = local_values K BT qp kp gt pp (t div BT) (t mod BT) e"
    and D: "D = back_state K BT (cdiv len BT) qp kp wp gt pp (start_state dht i_n)"
    and res: "fla_bwd_kernel_dhu F offsets co scale T K V BT BC BK BV q k w (Some c) dht d_o dv 0 i_v i_n (dh, dv2, dh0) = (dh1, dv21, dh01)"
  shows "\<forall>m < cdiv len BT. \<forall>d < K. dh1 (boh + m) d e = D (Suc m) d e"
    and "\<forall>t < len. dv21 (bos + t) e = chunk_values K BT qp kp gt pp (t div BT) (D (Suc (t div BT))) (t mod BT) e"
    and "\<forall>x d. dh0 = Some x \<longrightarrow> d < K \<longrightarrow> (\<exists>y. dh01 = Some y \<and> y i_n d e = D 0 d e)"
proof -
  have casts: "mcast (to_f32 (base F)) A = A" for A using E by (simp add: exact_casts_def mcast_def)
  obtain M where M: "BT = M * BC" using BC(2) by (metis dvd_def mult.commute)
  let ?N = "cdiv len BT"
  let ?Y = "\<lambda>t. chunk_values K BT qp kp gt pp (t div BT) (D (Suc (t div BT))) (t mod BT) e"
  let ?b = "case dht of None \<Rightarrow> zero_tile | Some dht \<Rightarrow> madd zero_tile (ld (dht i_n) K V (0 * BK) (i_v * BV))"
  let ?body = "fla_dhu_chunk F bos boh scale len K V BT BC BK BV (seq_view bos q) (seq_view bos k) (seq_view bos w)
     (map_option (seq_view bos) (Some c)) (seq_view bos d_o) (seq_view bos dv) 0 i_v"
  let ?P = "\<lambda>m (b :: mat, h :: nat \<Rightarrow> mat, v :: mat). (\<forall>d<K. b d (e mod BV) = D (?N - m) d e) \<and>
     (\<forall>x<?N. ?N - m \<le> x \<longrightarrow> (\<forall>d<K. h (boh + x) d e = D (Suc x) d e)) \<and> (\<forall>t<len. ?N - m \<le> t div BT \<longrightarrow> v (bos + t) e = ?Y t)"
  have col: "i_v * BV + e mod BV = e" using e(2) by (metis div_mult_mod_eq)
  obtain b1 h1 v1 where run: "down_loop ?N ?body (?b, dh, dv2) = (b1, h1, v1)" by (rule prod_cases3)
  have no: "\<not> ?N \<le> t div BT" if "t < len" for t using block_in_cdiv [OF g(2) that] by simp
  have "?P ?N (down_loop ?N ?body (?b, dh, dv2))"
    unfolding down_loop_def
  proof (rule for_loop_invariant [where P = ?P])
    show "?P 0 (?b, dh, dv2)"
      using no p(2) e(1) col
      by (auto simp: D start_state_def zero_tile_def madd_def ld_def split: option.splits)
  next
    fix m s assume m: "m < ?N" and inv: "?P m s"
    define n where "n = ?N - 1 - m"
    have nm: "?N - m = Suc n" "?N - Suc m = n" "n < ?N" using m by (auto simp: n_def)
    obtain b h v where s: "s = (b, h, v)" by (rule prod_cases3)
    obtain b' h' v' where s': "?body n (b, h, v) = (b', h', v')" by (rule prod_cases3)
    have bD: "\<forall>d<K. b d (e mod BV) = D (Suc n) d e" using inv by (simp add: s nm)
    have loc': "\<forall>t<len. t div BT = n \<longrightarrow> seq_view bos dv t e = local_values K BT qp kp gt pp n (t mod BT) e"
      using loc by (auto simp: seq_view_def)
    note step = dhu_chunk_column [where D = "D (Suc n)" and b_dh = b and dv = "seq_view bos dv", OF E g chunk_count [OF g(2) nm(3)] gt p(2,1) e BC(1) M bD
        loc' [unfolded q k pp] s' [unfolded option.map], folded q k w pp]
    have Dn: "D n = back_step K BT qp kp wp gt pp n (D (Suc n))" unfolding D by (rule back_state_step [OF nm(3)])
    have "?P (Suc m) (b', h', v')"
      unfolding prod.case nm
    proof (intro conjI allI impI)
      show "b' d (e mod BV) = D n d e" if "d < K" for d using step(1) [OF that] by (simp add: Dn)
      show "h' (boh + x) d e = D (Suc x) d e" if "x < ?N" "n \<le> x" "d < K" for x d
      proof (cases "x = n")
        case True
        then show ?thesis using step(2) [OF that(3)] by simp
      next
        case False
        then show ?thesis using step(3) [of "boh + x"] inv that by (simp add: s nm)
      qed
      show "v' (bos + t) e = ?Y t" if "t < len" "n \<le> t div BT" for t
      proof (cases "t div BT = n")
        case True
        then show ?thesis using step(4) [OF that(1)] by simp
      next
        case False
        then show ?thesis using step(5) [OF that(1)] inv that by (simp add: s nm)
      qed
    qed
    then show "?P (Suc m) (?body (?N - 1 - m) s)" by (simp only: s s' n_def [symmetric])
  qed
  then have fin: "\<forall>d<K. b1 d (e mod BV) = D 0 d e" "\<forall>x<?N. \<forall>d<K. h1 (boh + x) d e = D (Suc x) d e" "\<forall>t<len. v1 (bos + t) e = ?Y t"
    unfolding run by simp_all
  have out: "dh1 = h1" "dv21 = v1"
    "dh01 = map_option (\<lambda>dh0. dh0(i_n := st (dh0 i_n) K V (0 * BK) (i_v * BV) BK BV b1)) dh0"
    using res unfolding fla_bwd_kernel_dhu_def prod.case sq Let_def run casts by auto
  show "\<forall>m < ?N. \<forall>d < K. dh1 (boh + m) d e = D (Suc m) d e" "\<forall>t < len. dv21 (bos + t) e = ?Y t"
    using fin by (simp_all add: out)
  show "\<forall>x d. dh0 = Some x \<longrightarrow> d < K \<longrightarrow> (\<exists>y. dh01 = Some y \<and> y i_n d e = D 0 d e)"
    using st_col [OF p(1) _ e(1), where ?r0.0 = 0 and R = BK and b = i_v] e(2) p(2) fin(1) by (auto simp: out)
qed

text \<open>What a program of this kernel leaves alone.\<close>

lemma dhu_chunk_keep:
  assumes "0 < BV"
  shows "e div BV \<noteq> i_v \<or> x \<noteq> boh + n \<Longrightarrow>
      fst (snd (fla_dhu_chunk F bos boh scale T K V BT BC BK BV q k w g d_o dv i_k i_v n s)) x r e = fst (snd s) x r e"
    and "e div BV \<noteq> i_v \<or> row < bos \<or> bos + T \<le> row \<Longrightarrow>
      snd (snd (fla_dhu_chunk F bos boh scale T K V BT BC BK BV q k w g d_o dv i_k i_v n s)) row e = snd (snd s) row e"
proof -
  obtain b h v where s: "s = (b, h, v)" by (rule prod_cases3)
  let ?sub = "fla_dhu_subchunk F bos scale T K V BT BC BK BV q k w g d_o dv i_k i_v n b"
  show "fst (snd (fla_dhu_chunk F bos boh scale T K V BT BC BK BV q k w g d_o dv i_k i_v n s)) x r e = fst (snd s) x r e"
    if "e div BV \<noteq> i_v \<or> x \<noteq> boh + n"
    using that st_outside [OF assms, of e i_v] by (auto simp: s fla_dhu_chunk_def Let_def split_def)
  show "snd (snd (fla_dhu_chunk F bos boh scale T K V BT BC BK BV q k w g d_o dv i_k i_v n s)) row e = snd (snd s) row e"
    if out: "e div BV \<noteq> i_v \<or> row < bos \<or> bos + T \<le> row"
  proof -
    have "fst (?sub i s') row e = fst s' row e" for i s'
      by (simp add: fla_dhu_subchunk_def split_def Let_def at_seq_st_outside [OF assms out])
    then have "fst (for_loop m (\<lambda>i. ?sub (M - 1 - i)) s') row e = fst s' row e" for m M s'
      by (intro for_loop_keep [where get = "\<lambda>s. fst s row e"])
    from this [of "cdiv BT BC" "cdiv BT BC" "(v, zero_tile)"] show ?thesis
      by (simp add: s fla_dhu_chunk_def Let_def split_def down_loop_def)
  qed
qed

lemma dhu_kernel_keep:
  assumes BV: "0 < BV" and sq: "sequence_of offsets co T i_n = (bos, len, boh)"
    and P: "P = fla_bwd_kernel_dhu F offsets co scale T K V BT BC BK BV q k w g dht d_o dv i_k i_v i_n"
  shows "e div BV \<noteq> i_v \<or> x < boh \<or> boh + cdiv len BT \<le> x \<Longrightarrow> fst (P s) x r e = fst s x r e"
    and "e div BV \<noteq> i_v \<or> row < bos \<or> bos + len \<le> row \<Longrightarrow> fst (snd (P s)) row e = fst (snd s) row e"
    and "e div BV \<noteq> i_v \<or> i_n \<noteq> n \<Longrightarrow>
      map_option (\<lambda>ht. ht n r e) (snd (snd (P s))) = map_option (\<lambda>ht. ht n r e) (snd (snd s))"
    and "(snd (snd (P s)) = None) = (snd (snd s) = None)"
proof -
  obtain h v h0 where s: "s = (h, v, h0)" by (rule prod_cases3)
  let ?b = "case dht of None \<Rightarrow> zero_tile | Some dht \<Rightarrow> madd zero_tile (ld (dht i_n) K V (i_k * BK) (i_v * BV))"
  let ?body = "fla_dhu_chunk F bos boh scale len K V BT BC BK BV (seq_view bos q) (seq_view bos k) (seq_view bos w)
     (map_option (seq_view bos) g) (seq_view bos d_o) (seq_view bos dv) i_k i_v"
  obtain b1 h1 v1 where run: "down_loop (cdiv len BT) ?body (?b, h, v) = (b1, h1, v1)" by (rule prod_cases3)
  have Ps: "P (h, v, h0) = (h1, v1, map_option (\<lambda>x. x(i_n := st (x i_n) K V (i_k * BK) (i_v * BV) BK BV (mcast (to_f32 (base F)) b1))) h0)"
    unfolding P fla_bwd_kernel_dhu_def prod.case sq Let_def run by simp
  show "fst (P s) x r e = fst s x r e" if "e div BV \<noteq> i_v \<or> x < boh \<or> boh + cdiv len BT \<le> x"
  proof -
    have "fst (snd (down_loop (cdiv len BT) ?body (?b, h, v))) x r e = fst (snd (?b, h, v)) x r e"
      unfolding down_loop_def
      by (rule for_loop_keep [where get = "\<lambda>s. fst (snd s) x r e"], rule dhu_chunk_keep(1) [OF BV]) (use that in auto)
    then show ?thesis by (simp add: run s Ps)
  qed
  show "fst (snd (P s)) row e = fst (snd s) row e" if "e div BV \<noteq> i_v \<or> row < bos \<or> bos + len \<le> row"
  proof -
    have "snd (snd (down_loop (cdiv len BT) ?body (?b, h, v))) row e = snd (snd (?b, h, v)) row e"
      unfolding down_loop_def
      by (rule for_loop_keep [where get = "\<lambda>s. snd (snd s) row e"], rule dhu_chunk_keep(2) [OF BV that])
    then show ?thesis by (simp add: run s Ps)
  qed
  show "e div BV \<noteq> i_v \<or> i_n \<noteq> n \<Longrightarrow>
      map_option (\<lambda>ht. ht n r e) (snd (snd (P s))) = map_option (\<lambda>ht. ht n r e) (snd (snd s))"
    unfolding s Ps snd_conv using st_outside [OF BV, of e i_v] by (cases h0) auto
  show "(snd (snd (P s)) = None) = (snd (snd s) = None)" by (simp add: Ps s)
qed

lemma bwd_dhu_launch:
  assumes E: "exact_casts (base F)" and P: "packs BT N NT (sequence_of offsets co T) pc"
    and n: "n < N" "sequence_of offsets co T n = (bos, len, boh)" and g: "local_gate BT len g0 (seq_view bos c)"
    and p: "0 < BT" "0 < BC" "BC dvd BT" "0 < BV" "K \<le> BK" and e: "e < V" and gt: "gt = gate (base F) BT len g0"
    and q: "qp = seq_rows bos len q" and k: "kp = seq_rows bos len k" and w: "wp = seq_rows bos len w"
    and pp: "pp = out_grad scale (seq_rows bos len d_o)"
    and loc: "\<forall>t<len. dv (bos + t) e = local_values K BT qp kp gt pp (t div BT) (t mod BT) e"
    and D: "D = back_state K BT (cdiv len BT) qp kp wp gt pp (start_state dht n)"
    and run: "for_loop (cdiv V BV) (\<lambda>i_v. for_loop N (\<lambda>i_n.
      fla_bwd_kernel_dhu F offsets co scale T K V BT BC BK BV q k w (Some c) dht d_o dv 0 i_v i_n)) s = (dh, dv2, dh0)"
  shows "m < cdiv len BT \<Longrightarrow> d < K \<Longrightarrow> dh (boh + m) d e = D (Suc m) d e"
    and "t < len \<Longrightarrow> dv2 (bos + t) e = chunk_values K BT qp kp gt pp (t div BT) (D (Suc (t div BT))) (t mod BT) e"
    and "d < K \<Longrightarrow> dh0 = Some x \<Longrightarrow> x n d e = D 0 d e" and "(dh0 = None) = (snd (snd s) = None)"
proof -
  let ?P = "fla_bwd_kernel_dhu F offsets co scale T K V BT BC BK BV q k w (Some c) dht d_o dv 0"
  let ?Z = "\<lambda>t. chunk_values K BT qp kp gt pp (t div BT) (D (Suc (t div BT))) (t mod BT) e"
  note column = dhu_kernel_column [where dv = dv, OF E n(2) g p(1) gt p(2,3,4,5) e refl q k w pp loc D]
  have keep: "(\<forall>x r. e div BV \<noteq> i_v \<or> x < o' \<or> o' + cdiv l BT \<le> x \<longrightarrow> fst (?P i_v n' s) x r e = fst s x r e) \<and>
      (\<forall>row. e div BV \<noteq> i_v \<or> row < b \<or> b + l \<le> row \<longrightarrow> fst (snd (?P i_v n' s)) row e = fst (snd s) row e) \<and>
      (\<forall>r. e div BV \<noteq> i_v \<or> n' \<noteq> n \<longrightarrow> map_option (\<lambda>ht. ht n r e) (snd (snd (?P i_v n' s))) = map_option (\<lambda>ht. ht n r e) (snd (snd s))) \<and>
      (snd (snd (?P i_v n' s)) = None) = (snd (snd s) = None)" if "sequence_of offsets co T n' = (b, l, o')" for i_v n' b l o' s
    by (intro conjI allI impI dhu_kernel_keep [OF p(4) that refl]; assumption)
  have col: "(\<forall>m < cdiv len BT. \<forall>d < K. fst (?P (e div BV) n s) (boh + m) d e = D (Suc m) d e) \<and>
      (\<forall>t < len. fst (snd (?P (e div BV) n s)) (bos + t) e = ?Z t) \<and>
      (\<forall>x d. snd (snd s) = Some x \<longrightarrow> d < K \<longrightarrow> (\<exists>y. snd (snd (?P (e div BV) n s)) = Some y \<and> y n d e = D 0 d e))" for s
  proof -
    obtain h' v' ht' where s: "s = (h', v', ht')" by (rule prod_cases3)
    obtain h1 v1 ht1 where res: "?P (e div BV) n (h', v', ht') = (h1, v1, ht1)" by (rule prod_cases3)
    show ?thesis unfolding s res fst_conv snd_conv by (intro conjI column [OF res])
  qed
  note L = sequence_launch [where X = "\<lambda>m d. D (Suc m) d e" and R = "\<lambda>d. D 0 d e" and Z = ?Z and prog = ?P, OF P p(4) n e keep col run]
  show "m < cdiv len BT \<Longrightarrow> d < K \<Longrightarrow> dh (boh + m) d e = D (Suc m) d e" by (rule L(1))
  show "t < len \<Longrightarrow> dv2 (bos + t) e = ?Z t" by (rule L(2))
  show "d < K \<Longrightarrow> dh0 = Some x \<Longrightarrow> x n d e = D 0 d e" by (rule L(3))
  show "(dh0 = None) = (snd (snd s) = None)" by (rule L(4))
qed

section \<open>The gradients of queries, keys, \<open>w\<close> and decays\<close>

text \<open>The part of a sum over the key dimension that belongs to block \<open>i_k\<close>.\<close>

definition block_sum :: "nat \<Rightarrow> nat \<Rightarrow> nat \<Rightarrow> vec \<Rightarrow> real" where
  "block_sum BK K i_k f = (\<Sum>c<BK. if i_k * BK + c < K then f (i_k * BK + c) else 0)"

lemma block_sum_all: "0 < BK \<Longrightarrow> (\<Sum>i<cdiv K BK. block_sum BK K i f) = (\<Sum>d<K. f d)"
  unfolding block_sum_def by (rule sum_blocks)

lemma block_sum_linear:
  "block_sum BK K i f + block_sum BK K i g = block_sum BK K i (\<lambda>d. f d + g d)"
  "block_sum BK K i f - block_sum BK K i g = block_sum BK K i (\<lambda>d. f d - g d)"
  "x * block_sum BK K i f = block_sum BK K i (\<lambda>d. x * f d)"
  "(\<Sum>j\<in>A. block_sum BK K i (h j)) = block_sum BK K i (\<lambda>d. \<Sum>j\<in>A. h j d)"
proof -
  show "block_sum BK K i f + block_sum BK K i g = block_sum BK K i (\<lambda>d. f d + g d)"
    "block_sum BK K i f - block_sum BK K i g = block_sum BK K i (\<lambda>d. f d - g d)"
    unfolding block_sum_def sum.distrib [symmetric] sum_subtractf [symmetric] by (intro sum.cong refl; simp)+
  show "x * block_sum BK K i f = block_sum BK K i (\<lambda>d. x * f d)"
    unfolding block_sum_def sum_distrib_left by (intro sum.cong refl) simp
  show "(\<Sum>j\<in>A. block_sum BK K i (h j)) = block_sum BK K i (\<lambda>d. \<Sum>j\<in>A. h j d)"
    unfolding block_sum_def by (subst sum.swap) (intro sum.cong refl, simp)
qed

lemma row_sums_block:
  assumes "\<And>c. A i c = (if i_k * BK + c < K then f (i_k * BK + c) else 0)"
    and "\<And>c. B i c = (if i_k * BK + c < K then g (i_k * BK + c) else 0)"
  shows "row_sums BK A B i = block_sum BK K i_k (\<lambda>d. f d * g d)"
  unfolding row_sums_def block_sum_def by (intro sum.cong refl) (simp add: assms)

lemma blocked_cols:
  assumes "0 < BV"
  shows "(\<Sum>b<cdiv V BV. dot BV (ld x T V r0 (b * BV)) (tr (ld h K V k0 (b * BV))) i c)
    = (if k0 + c < K then \<Sum>e<V. pad_rows T x (r0 + i) e * h (k0 + c) e else 0)"
proof -
  have "(\<Sum>b<cdiv V BV. dot BV (ld x T V r0 (b * BV)) (tr (ld h K V k0 (b * BV))) i c) =
    (\<Sum>b<cdiv V BV. \<Sum>l<BV. (if b * BV + l < V then pad_rows T x (r0 + i) (b * BV + l) else 0)
      * (if b * BV + l < V then (if k0 + c < K then h (k0 + c) (b * BV + l) else 0) else 0))"
    unfolding dot_def tr_def by (intro sum.cong refl) (simp add: ld_padded pad_rows_def [of K h])
  also have "\<dots> = (\<Sum>e<V. pad_rows T x (r0 + i) e * (if k0 + c < K then h (k0 + c) e else 0))"
    by (rule blocked_dot [OF assms]) simp
  finally show ?thesis by simp
qed

lemma blocked_pairing:
  assumes "0 < BV"
  shows "(\<Sum>b<cdiv V BV. \<Sum>l<BV. \<Sum>c<BK. tr (ld h K V (i_k * BK) (b * BV)) l c * tr (ld h' K V (i_k * BK) (b * BV)) l c)
    = block_sum BK K i_k (\<lambda>d. \<Sum>e<V. h d e * h' d e)"
proof -
  have "(\<Sum>b<cdiv V BV. \<Sum>l<BV. \<Sum>c<BK. tr (ld h K V (i_k * BK) (b * BV)) l c * tr (ld h' K V (i_k * BK) (b * BV)) l c)
    = (\<Sum>b<cdiv V BV. \<Sum>l<BV. if b * BV + l < V then block_sum BK K i_k (\<lambda>d. h d (b * BV + l) * h' d (b * BV + l)) else 0)"
    unfolding tr_def block_sum_def by (intro sum.cong refl) (auto simp: ld_def intro!: sum.cong)
  also have "\<dots> = (\<Sum>e<V. block_sum BK K i_k (\<lambda>d. h d e * h' d e))" by (rule sum_blocks [OF assms])
  finally show ?thesis by (simp only: block_sum_linear)
qed

lemma for_loop_dqkwg:
  "for_loop n (\<lambda>i (A, B, C, s, D). (madd A (f i), madd B (g i), madd C (h i), s + x i, madd D (y i))) (A0, B0, C0, s0, D0)
     = ((\<lambda>r c. A0 r c + (\<Sum>i<n. f i r c)), (\<lambda>r c. B0 r c + (\<Sum>i<n. g i r c)), (\<lambda>r c. C0 r c + (\<Sum>i<n. h i r c)),
        s0 + (\<Sum>i<n. x i), (\<lambda>r c. D0 r c + (\<Sum>i<n. y i r c)))"
  by (induction n) (auto simp: madd_def fun_eq_iff add.assoc)

text \<open>The tiles of the kernel, when there are gates and \<open>w\<close>.\<close>

lemma dqkwg_run:
  assumes E: "exact_casts (base F)" and BV: "0 < BV" and pc: "program_chunk offsets indices T i_tg = (bos, len, n)"
    and lc: "lc = ld1 (seq_view bos c) len (n * BT)" and cl: "cl = seq_view bos c (min (n * BT + BT) len - 1)"
    and bq: "bq = (\<lambda>i c. (if i_k * BK + c < K then \<Sum>e<V. seq_rows bos len d_o (n * BT + i) e * h i_tg (i_k * BK + c) e else 0) * exp (lc i) * scale)"
    and bk: "bk = (\<lambda>i c. (if i_k * BK + c < K then \<Sum>e<V. seq_rows bos len v (n * BT + i) e * dh i_tg (i_k * BK + c) e else 0) * safe_exp F (- lc i + cl))"
    and bw: "bw = (\<lambda>i c. (if i_k * BK + c < K then \<Sum>e<V. seq_rows bos len dv (n * BT + i) e * h i_tg (i_k * BK + c) e else 0) * exp (lc i))"
    and bs: "bs = (\<lambda>i j. (if j \<le> i then (\<Sum>e<V. seq_rows bos len d_o (n * BT + i) e * seq_rows bos len v (n * BT + j) e) * safe_exp F (lc i - lc j) else 0) * scale)"
    and Q: "Q = ld (seq_view bos q) len K (n * BT) (i_k * BK)" and KK: "KK = ld (seq_view bos k) len K (n * BT) (i_k * BK)"
    and W: "W = ld (seq_view bos w) len K (n * BT) (i_k * BK)"
    and bg: "bg = (\<lambda>i. 0 - row_sums BK W bw i + row_sums BK bq Q i - row_sums BK KK bk i
        + (\<Sum>j<BT. bs i j * dot BK Q (tr KK) i j) - (\<Sum>j<BT. bs j i * dot BK Q (tr KK) j i))"
    and bl: "bl = block_sum BK K i_k (\<lambda>d. \<Sum>e<V. h i_tg d e * dh i_tg d e) * exp cl + (\<Sum>i<BT. \<Sum>c<BK. bk i c * KK i c)"
  shows "fla_chunk_bwd_kernel_dqkwg F offsets indices scale T K V BT BK BV q k v h (Some c) d_o dh (Some (w, dv)) i_k i_tg (dq, dk, dg, dw)
    = (at_seq bos (\<lambda>x. st x len K (n * BT) (i_k * BK) BT BK (madd bq (dot BT bs KK))) dq,
       at_seq bos (\<lambda>x. st x len K (n * BT) (i_k * BK) BT BK (madd bk (dot BT (tr bs) Q))) dk,
       dg(i_k := at_seq1 bos (\<lambda>x. st1 x len (n * BT) BT
          (\<lambda>i. if int i < int (min BT (len - n * BT)) - 1 then bg i else bg i + bl)) (dg i_k)),
       at_seq bos (\<lambda>x. st x len K (n * BT) (i_k * BK) BT BK (\<lambda>i c. - bw i c)) dw)"
proof -
  have casts: "to_in (base F) = (\<lambda>x. x)" using E by (simp add: exact_casts_def)
  have mcasts: "mcast (\<lambda>x. x) M = M" for M by (simp add: mcast_def)
  have zero: "zero_tile r c + x = x" for r c x by (simp add: zero_tile_def)
  show ?thesis
    unfolding fla_chunk_bwd_kernel_dqkwg_def pc prod.case option.case Let_def casts mcasts for_loop_dqkwg zero add_0
      blocked_rows(2) [OF BV]
    unfolding blocked_cols [OF BV] blocked_pairing [OF BV] scale_rows_def
      lc cl Q KK W bq bk bw bs bl bg
    by (rule refl)
qed

text \<open>What one key block contributes to the decay gradient of row \<open>i\<close>, without and with the chunk's last row.\<close>

definition gate_part :: "nat \<Rightarrow> mat \<Rightarrow> mat \<Rightarrow> mat \<Rightarrow> mat \<Rightarrow> mat \<Rightarrow> mat \<Rightarrow> mat \<Rightarrow> nat \<Rightarrow> vec" where
  "gate_part BT q k w qi ki wi ds i = (\<lambda>d. qi i d * q i d - wi i d * w i d - ki i d * k i d
     + (\<Sum>j<BT. ds i j * (q i d * k j d)) - (\<Sum>j<BT. ds j i * (q j d * k i d)))"

definition last_part :: "nat \<Rightarrow> nat \<Rightarrow> mat \<Rightarrow> mat \<Rightarrow> mat \<Rightarrow> mat \<Rightarrow> real \<Rightarrow> vec" where
  "last_part BT V k ki S D L = (\<lambda>d. L * (\<Sum>e<V. S d e * D d e) + (\<Sum>i<BT. ki i d * k i d))"

lemma gate_part_sum: "(\<Sum>d<K. gate_part BT q k w qi ki wi ds i d) = chunk_dc BT K q k w qi ki wi ds i"
proof -
  have swap: "(\<Sum>d<K. \<Sum>j<BT. f j * g j d) = (\<Sum>j<BT. f j * (\<Sum>d<K. g j d))" for f :: vec and g :: mat
    unfolding sum_distrib_left by (rule sum.swap)
  show ?thesis
    unfolding gate_part_def chunk_dc_def row_dot_def wy_dc_def scores_def sum.distrib sum_subtractf swap
    by (simp add: mult.commute)
qed

lemma last_part_sum: "(\<Sum>d<K. last_part BT V k ki S D L d) = last_dc BT K V k ki S D L"
  unfolding last_part_def last_dc_def row_dot_def sum.distrib sum_distrib_left [symmetric]
  by (subst sum.swap) (rule refl)

lemma last_row: "x + i < len \<Longrightarrow> i < BT \<Longrightarrow> int i < int (min BT (len - x)) - 1 \<longleftrightarrow> x + i + 1 \<noteq> min (x + BT) (len :: nat)"
  by (cases "BT \<le> len - x") (auto simp: min_def of_nat_diff)

lemma dqkwg_value:
  assumes E: "exact_casts (base F)" and p: "0 < BK" "0 < BV" "0 < BT"
    and g: "local_gate BT len g0 (seq_view bos c)" "decays_exact F BT len (seq_view bos c)"
    and pc: "program_chunk offsets indices T i_tg = (bos, len, n)" and gt: "gt = gate (base F) BT len g0"
    and t: "t < len" "t div BT = n"
    and qn: "qn = chunk_view BT n (seq_rows bos len q)" and kn: "kn = chunk_view BT n (seq_rows bos len k)"
    and wn: "wn = chunk_view BT n (seq_rows bos len w)" and pn: "pn = chunk_view BT n (out_grad scale (seq_rows bos len d_o))"
    and xn: "xn = chunk_view BT n (seq_rows bos len v)" and yn: "yn = chunk_view BT n (seq_rows bos len dv)"
    and ds: "ds = score_grad V (decay_between BT gt n) pn xn"
    and qi: "qi = inter_grad V (decay_in BT gt n) (h i_tg) pn" and ki: "ki = inter_grad V (decay_out BT gt n) (dh i_tg) xn"
    and wi: "wi = inter_grad V (decay_in BT gt n) (h i_tg) yn"
    and res: "fla_chunk_bwd_kernel_dqkwg F offsets indices scale T K V BT BK BV q k v h (Some c) d_o dh (Some (w, dv)) i_k i_tg (dq0, dk0, dg0, dw0) = (dq, dk, dg, dw)"
  shows "d < K \<Longrightarrow> d div BK = i_k \<Longrightarrow> dq (bos + t) d = chunk_dq BT kn qi ds (t mod BT) d"
    and "d < K \<Longrightarrow> d div BK = i_k \<Longrightarrow> dk (bos + t) d = chunk_dk BT qn ki ds (t mod BT) d"
    and "d < K \<Longrightarrow> d div BK = i_k \<Longrightarrow> dw (bos + t) d = - wi (t mod BT) d"
    and "dg i_k (bos + t) = block_sum BK K i_k (gate_part BT qn kn wn qi ki wi ds (t mod BT))
      + (if t + 1 = min ((n + 1) * BT) len then block_sum BK K i_k (last_part BT V kn ki (h i_tg) (dh i_tg) (decay_all BT gt n)) else 0)"
proof -
  have nlen: "n * BT < len" using t by (metis div_times_less_eq_dividend le_less_trans)
  have r: "t mod BT < BT" using p(3) by simp
  have ti: "n * BT + t mod BT = t" using t(2) by (metis div_mult_mod_eq)
  define lc where "lc = ld1 (seq_view bos c) len (n * BT)"
  define cl where "cl = seq_view bos c (min (n * BT + BT) len - 1)"
  define bq where "bq = (\<lambda>i c. (if i_k * BK + c < K then \<Sum>e<V. seq_rows bos len d_o (n * BT + i) e * h i_tg (i_k * BK + c) e else 0) * exp (lc i) * scale)"
  define bk where "bk = (\<lambda>i c. (if i_k * BK + c < K then \<Sum>e<V. seq_rows bos len v (n * BT + i) e * dh i_tg (i_k * BK + c) e else 0) * safe_exp F (- lc i + cl))"
  define bw where "bw = (\<lambda>i c. (if i_k * BK + c < K then \<Sum>e<V. seq_rows bos len dv (n * BT + i) e * h i_tg (i_k * BK + c) e else 0) * exp (lc i))"
  define bs where "bs = (\<lambda>i j. (if j \<le> i then (\<Sum>e<V. seq_rows bos len d_o (n * BT + i) e * seq_rows bos len v (n * BT + j) e) * safe_exp F (lc i - lc j) else 0) * scale)"
  define Q where "Q = ld (seq_view bos q) len K (n * BT) (i_k * BK)"
  define KK where "KK = ld (seq_view bos k) len K (n * BT) (i_k * BK)"
  define W where "W = ld (seq_view bos w) len K (n * BT) (i_k * BK)"
  note run = dqkwg_run [where q = q and k = k and w = w and v = v and d_o = d_o and dv = dv and h = h and dh = dh and i_tg = i_tg
      and c = c and i_k = i_k and BK = BK and K = K and BT = BT and V = V
      and dq = dq0 and dk = dk0 and dg = dg0 and dw = dw0,
    OF E p(2) pc lc_def cl_def bq_def bk_def bw_def bs_def Q_def KK_def W_def refl refl, unfolded res]
  have ein: "x * exp (lc i) = decay_in BT gt n i * x" if "i < BT" "len \<le> n * BT + i \<longrightarrow> x = 0" for i x
  proof (cases "n * BT + i < len")
    case True
    then show ?thesis using gate_exp [OF E g(1) p(3) True] by (simp add: decay_in_def gt lc_def ld1_def)
  next
    case False
    then show ?thesis using that by simp
  qed
  have eout: "x * safe_exp F (- lc i + cl) = decay_out BT gt n i * x" if "i < BT" "len \<le> n * BT + i \<longrightarrow> x = 0" for i x
  proof (cases "n * BT + i < len")
    case True
    define l where "l = min (n * BT + BT) len - 1 - n * BT"
    have l: "min (n * BT + BT) len - 1 = n * BT + l" "i \<le> l" "l < BT" "n * BT + l < len"
      using True nlen that(1) p(3) by (auto simp: l_def min_def)
    have l': "min ((n + 1) * BT) len - 1 = n * BT + l" using l(1) by (simp add: add.commute)
    have same: "(n * BT + i) div BT = (n * BT + l) div BT" using l(3) that(1) by simp
    have "safe_exp F (cl - lc i) = exp (seq_view bos c (n * BT + l) - seq_view bos c (n * BT + i))"
      using g(2) [unfolded decays_exact_def, rule_format, OF l(4) _ same] l(2) True unfolding cl_def lc_def ld1_def l(1) by simp
    also have "\<dots> = decay_out BT gt n i"
      using gate_last(2) [OF E g(1) p(3) nlen True that(1)] unfolding l' by (simp add: decay_out_def gt)
    finally show ?thesis by simp
  next
    case False
    then show ?thesis using that by simp
  qed
  have z: "seq_rows bos len x (n * BT + i) e = 0" if "len \<le> n * BT + i" for x i e using that by (simp add: pad_rows_def)
  have zs: "len \<le> n * BT + i \<longrightarrow> (if i_k * BK + c < K then \<Sum>e<V. seq_rows bos len x (n * BT + i) e * S (i_k * BK + c) e else 0) = 0"
    for x S i c using z by simp
  have bq: "bq i c = (if i_k * BK + c < K then qi i (i_k * BK + c) else 0)" if "i < BT" for i c
    unfolding bq_def ein [OF that zs [where x = d_o and S = "h i_tg"]] 
    by (simp add: qi inter_grad_def pn out_grad_def chunk_view_def sum_distrib_left mult.commute mult.left_commute)
  have bk: "bk i c = (if i_k * BK + c < K then ki i (i_k * BK + c) else 0)" if "i < BT" for i c
    unfolding bk_def eout [OF that zs [where x = v and S = "dh i_tg"]] by (simp add: ki inter_grad_def xn chunk_view_def)
  have bw: "bw i c = (if i_k * BK + c < K then wi i (i_k * BK + c) else 0)" if "i < BT" for i c
    unfolding bw_def ein [OF that zs [where x = dv and S = "h i_tg"]] by (simp add: wi inter_grad_def yn chunk_view_def)
  have bs: "bs i j = ds i j" if "i < BT" "j < BT" for i j
  proof -
    have "len \<le> n * BT + i \<longrightarrow> (\<Sum>e<V. seq_rows bos len d_o (n * BT + i) e * seq_rows bos len v (n * BT + j) e) = 0"
      using z by simp
    from masked_decay [OF E g gt that this] show ?thesis
      unfolding bs_def lc_def
      by (simp add: ds score_grad_def pn xn out_grad_def chunk_view_def sum_distrib_left mult.commute mult.left_commute)
  qed
  have out: "dq = at_seq bos (\<lambda>x. st x len K (n * BT) (i_k * BK) BT BK (madd bq (dot BT bs KK))) dq0"
    "dk = at_seq bos (\<lambda>x. st x len K (n * BT) (i_k * BK) BT BK (madd bk (dot BT (tr bs) Q))) dk0"
    "dw = at_seq bos (\<lambda>x. st x len K (n * BT) (i_k * BK) BT BK (\<lambda>i c. - bw i c)) dw0"
    using run by auto
  have stored: "at_seq bos (\<lambda>x. st x len K (n * BT) (i_k * BK) BT BK M) y (bos + t) d = M (t mod BT) (d mod BK)"
    if "d < K" "d div BK = i_k" for M y d
    using st_col [OF p(1) t(1) that(1)] that(2) block_rows_iff [OF p(3), of n t] block_offset [OF t(2)] t(2) by simp
  have col: "i_k * BK + d mod BK = d" if "d div BK = i_k" for d using that by (metis div_mult_mod_eq)
  have rows: "KK j c = (if i_k * BK + c < K then kn j (i_k * BK + c) else 0)" "Q j c = (if i_k * BK + c < K then qn j (i_k * BK + c) else 0)"
    "W j c = (if i_k * BK + c < K then wn j (i_k * BK + c) else 0)" for j c
    by (simp_all add: KK_def Q_def W_def ld_view kn qn wn)
  show "dq (bos + t) d = chunk_dq BT kn qi ds (t mod BT) d" if d: "d < K" "d div BK = i_k"
    unfolding out stored [OF d] using d(1) r by (simp add: madd_def bq dot_def bs rows col [OF d(2)] chunk_dq_def)
  show "dk (bos + t) d = chunk_dk BT qn ki ds (t mod BT) d" if d: "d < K" "d div BK = i_k"
    unfolding out stored [OF d] using d(1) r by (simp add: madd_def bk dot_def tr_def bs rows col [OF d(2)] chunk_dk_def)
  show "dw (bos + t) d = - wi (t mod BT) d" if d: "d < K" "d div BK = i_k"
    unfolding out stored [OF d] using d(1) r by (simp add: bw col [OF d(2)])
  let ?i = "t mod BT"
  have qk: "dot BK Q (tr KK) i j = block_sum BK K i_k (\<lambda>d. qn i d * kn j d)" for i j
    unfolding dot_def tr_def block_sum_def by (intro sum.cong refl) (simp add: rows)
  have bg: "0 - row_sums BK W bw ?i + row_sums BK bq Q ?i - row_sums BK KK bk ?i + (\<Sum>j<BT. bs ?i j * dot BK Q (tr KK) ?i j)
      - (\<Sum>j<BT. bs j ?i * dot BK Q (tr KK) j ?i) = block_sum BK K i_k (gate_part BT qn kn wn qi ki wi ds ?i)"
  proof -
    have "(\<Sum>j<BT. bs ?i j * dot BK Q (tr KK) ?i j) = block_sum BK K i_k (\<lambda>d. \<Sum>j<BT. ds ?i j * (qn ?i d * kn j d))"
      "(\<Sum>j<BT. bs j ?i * dot BK Q (tr KK) j ?i) = block_sum BK K i_k (\<lambda>d. \<Sum>j<BT. ds j ?i * (qn j d * kn ?i d))"
      unfolding block_sum_linear(4) [symmetric] block_sum_linear(3) [symmetric] qk using r by (intro sum.cong refl; simp add: bs)+
    moreover have "row_sums BK W bw ?i = block_sum BK K i_k (\<lambda>d. wn ?i d * wi ?i d)"
      "row_sums BK bq Q ?i = block_sum BK K i_k (\<lambda>d. qi ?i d * qn ?i d)" "row_sums BK KK bk ?i = block_sum BK K i_k (\<lambda>d. kn ?i d * ki ?i d)"
      using r by (intro row_sums_block; simp add: rows bq bk bw)+
    moreover have "0 - a + b - c' = b - a - c'" for a b c' :: real by simp
    ultimately show ?thesis
      by (simp only: block_sum_linear(1,2)) (simp add: gate_part_def [abs_def] mult.commute)
  qed
  have bl: "block_sum BK K i_k (\<lambda>d. \<Sum>e<V. h i_tg d e * dh i_tg d e) * exp cl + (\<Sum>i<BT. \<Sum>c<BK. bk i c * KK i c)
      = block_sum BK K i_k (last_part BT V kn ki (h i_tg) (dh i_tg) (decay_all BT gt n))"
  proof -
    have "(\<Sum>i<BT. \<Sum>c<BK. bk i c * KK i c) = (\<Sum>i<BT. block_sum BK K i_k (\<lambda>d. ki i d * kn i d))"
      unfolding block_sum_def by (intro sum.cong refl) (simp add: bk rows)
    moreover have "exp cl = decay_all BT gt n"
      using gate_last(1) [OF E g(1) p(3) nlen] by (simp add: decay_all_def gt cl_def add.commute)
    ultimately show ?thesis
      by (simp only: block_sum_linear(4) mult.commute [of _ "decay_all BT gt n"] block_sum_linear(3) block_sum_linear(1) last_part_def)
  qed
  have cond: "int ?i < int (min BT (len - n * BT)) - 1 \<longleftrightarrow> t + 1 \<noteq> min ((n + 1) * BT) len"
    using last_row [of "n * BT" ?i len BT] ti t(1) r by (simp add: add.commute)
  show "dg i_k (bos + t) = block_sum BK K i_k (gate_part BT qn kn wn qi ki wi ds ?i)
      + (if t + 1 = min ((n + 1) * BT) len then block_sum BK K i_k (last_part BT V kn ki (h i_tg) (dh i_tg) (decay_all BT gt n)) else 0)"
  proof -
    have "dg i_k (bos + t) = (if int ?i < int (min BT (len - n * BT)) - 1 then block_sum BK K i_k (gate_part BT qn kn wn qi ki wi ds ?i)
      else block_sum BK K i_k (gate_part BT qn kn wn qi ki wi ds ?i)
        + block_sum BK K i_k (last_part BT V kn ki (h i_tg) (dh i_tg) (decay_all BT gt n)))"
      using run unfolding bl prod.inject by (simp only: fun_upd_same at_seq1_st1(1) [OF p(3) t] bg)
    then show ?thesis unfolding cond by simp
  qed
qed

lemma dqkwg_keep:
  assumes E: "exact_casts (base F)" and p: "0 < BK" "0 < BV" "0 < BT"
    and res: "fla_chunk_bwd_kernel_dqkwg F offsets indices scale T K V BT BK BV q k v h (Some c) d_o dh (Some (w, dv)) i_k i (dq0, dk0, dg0, dw0) = (dq, dk, dg, dw)"
  shows "d div BK \<noteq> i_k \<or> \<not> owns BT (program_chunk offsets indices T i) r \<Longrightarrow> dq r d = dq0 r d \<and> dk r d = dk0 r d \<and> dw r d = dw0 r d"
    and "m \<noteq> i_k \<or> \<not> owns BT (program_chunk offsets indices T i) r \<Longrightarrow> dg m r = dg0 m r"
proof -
  obtain bos len n where pc: "program_chunk offsets indices T i = (bos, len, n)" by (rule prod_cases3)
  note run = dqkwg_run [where q = q and k = k and w = w and v = v and d_o = d_o and dv = dv and h = h and dh = dh and i_tg = i
      and c = c and i_k = i_k and BK = BK and K = K and BT = BT and V = V and scale = scale and dq = dq0 and dk = dk0 and dg = dg0 and dw = dw0,
    OF E p(2) pc refl refl refl refl refl refl refl refl refl refl refl, unfolded res]
  have keep: "at_seq bos (\<lambda>x. st x len K (n * BT) (i_k * BK) BT BK M) y r d = y r d"
    if "d div BK \<noteq> i_k \<or> \<not> owns BT (program_chunk offsets indices T i) r" for M y
  proof (cases "d div BK \<noteq> i_k")
    case True
    then show ?thesis using at_seq_st_outside [OF p(1)] by blast
  next
    case False
    then show ?thesis using that block_rows_iff [OF p(3), of n "r - bos"] by (auto simp: pc owns_def at_seq_def st_def seq_view_def)
  qed
  show "dq r d = dq0 r d \<and> dk r d = dk0 r d \<and> dw r d = dw0 r d"
    if "d div BK \<noteq> i_k \<or> \<not> owns BT (program_chunk offsets indices T i) r"
    using run unfolding prod.inject by (elim conjE) (simp only: keep [OF that] simp_thms)
  show "dg m r = dg0 m r" if no: "m \<noteq> i_k \<or> \<not> owns BT (program_chunk offsets indices T i) r"
  proof (cases "m = i_k")
    case True
    then have no': "\<not> owns BT (bos, len, n) r" using no pc by simp
    show ?thesis using run True unfolding prod.inject by (simp only: fun_upd_same at_seq1_st1(2) [OF p(3) no'])
  next
    case False
    then show ?thesis using run unfolding prod.inject by (simp only: fun_upd_other [OF False])
  qed
qed

lemma dqkwg_launch:
  assumes E: "exact_casts (base F)" and p: "0 < BK" "0 < BV" "0 < BT"
    and P: "packs BT N NT sq (program_chunk offsets indices T)" and n0: "n0 < N" "sq n0 = (bos, len, boh)"
    and g: "local_gate BT len g0 (seq_view bos c)" "decays_exact F BT len (seq_view bos c)" and gt: "gt = gate (base F) BT len g0"
    and t: "t < len" and n: "n = t div BT"
    and qn: "qn = chunk_view BT n (seq_rows bos len q)" and kn: "kn = chunk_view BT n (seq_rows bos len k)"
    and wn: "wn = chunk_view BT n (seq_rows bos len w)" and pn: "pn = chunk_view BT n (out_grad scale (seq_rows bos len d_o))"
    and xn: "xn = chunk_view BT n (seq_rows bos len v)" and yn: "yn = chunk_view BT n (seq_rows bos len dv)"
    and ds: "ds = score_grad V (decay_between BT gt n) pn xn"
    and qi: "qi = inter_grad V (decay_in BT gt n) (h (boh + n)) pn" and ki: "ki = inter_grad V (decay_out BT gt n) (dh (boh + n)) xn"
    and wi: "wi = inter_grad V (decay_in BT gt n) (h (boh + n)) yn"
    and run: "for_loop (cdiv K BK) (\<lambda>i_k. for_loop NT (\<lambda>i_t.
      fla_chunk_bwd_kernel_dqkwg F offsets indices scale T K V BT BK BV q k v h (Some c) d_o dh (Some (w, dv)) i_k i_t)) s = (dq, dk, dg, dw)"
  shows "d < K \<Longrightarrow> dq (bos + t) d = chunk_dq BT kn qi ds (t mod BT) d"
    and "d < K \<Longrightarrow> dk (bos + t) d = chunk_dk BT qn ki ds (t mod BT) d"
    and "d < K \<Longrightarrow> dw (bos + t) d = - wi (t mod BT) d"
    and "(\<Sum>i<cdiv K BK. dg i (bos + t)) = chunk_dc BT K qn kn wn qi ki wi ds (t mod BT)
      + (if t + 1 = min ((n + 1) * BT) len then last_dc BT K V kn ki (h (boh + n)) (dh (boh + n)) (decay_all BT gt n) else 0)"
proof -
  let ?P = "fla_chunk_bwd_kernel_dqkwg F offsets indices scale T K V BT BK BV q k v h (Some c) d_o dh (Some (w, dv))"
  let ?L = "for_loop (cdiv K BK) (\<lambda>i_k. for_loop NT (\<lambda>i_t. ?P i_k i_t)) s"
  note prog = packs_program [OF P n0 block_in_cdiv [OF p(3) t], folded n]
  have keep: "d div BK \<noteq> i_k \<or> i \<noteq> boh + n \<Longrightarrow> fst (?P i_k i s) (bos + t) d = fst s (bos + t) d \<and>
      fst (snd (?P i_k i s)) (bos + t) d = fst (snd s) (bos + t) d \<and> snd (snd (snd (?P i_k i s))) (bos + t) d = snd (snd (snd s)) (bos + t) d"
    "m \<noteq> i_k \<or> i \<noteq> boh + n \<Longrightarrow> fst (snd (snd (?P i_k i s))) m (bos + t) = fst (snd (snd s)) m (bos + t)"
    if i: "i < NT" for i_k i s d m
  proof -
    obtain a b c' e where s: "s = (a, b, c', e)" by (rule prod_cases4)
    obtain a' b' c'' e' where s': "?P i_k i (a, b, c', e) = (a', b', c'', e')" by (rule prod_cases4)
    have no: "i \<noteq> boh + n \<Longrightarrow> \<not> owns BT (program_chunk offsets indices T i) (bos + t)"
      using packs_owner [OF P p(3) n0 t i] by (simp add: n)
    note k = dqkwg_keep [OF E p s', where r = "bos + t"]
    show "d div BK \<noteq> i_k \<or> i \<noteq> boh + n \<Longrightarrow> fst (?P i_k i s) (bos + t) d = fst s (bos + t) d \<and>
      fst (snd (?P i_k i s)) (bos + t) d = fst (snd s) (bos + t) d \<and> snd (snd (snd (?P i_k i s))) (bos + t) d = snd (snd (snd s)) (bos + t) d"
      unfolding s s' fst_conv snd_conv using k(1) no by blast
    show "m \<noteq> i_k \<or> i \<noteq> boh + n \<Longrightarrow> fst (snd (snd (?P i_k i s))) m (bos + t) = fst (snd (snd s)) m (bos + t)"
      unfolding s s' fst_conv snd_conv using k(2) no by blast
  qed
  have wr: "d < K \<Longrightarrow> fst (?P (d div BK) (boh + n) s) (bos + t) d = chunk_dq BT kn qi ds (t mod BT) d"
    "d < K \<Longrightarrow> fst (snd (?P (d div BK) (boh + n) s)) (bos + t) d = chunk_dk BT qn ki ds (t mod BT) d"
    "d < K \<Longrightarrow> snd (snd (snd (?P (d div BK) (boh + n) s))) (bos + t) d = - wi (t mod BT) d"
    "fst (snd (snd (?P i_k (boh + n) s))) i_k (bos + t) = block_sum BK K i_k (gate_part BT qn kn wn qi ki wi ds (t mod BT))
      + (if t + 1 = min ((n + 1) * BT) len then block_sum BK K i_k (last_part BT V kn ki (h (boh + n)) (dh (boh + n)) (decay_all BT gt n)) else 0)"
    for s d i_k
  proof -
    obtain a b c' e where s: "s = (a, b, c', e)" by (rule prod_cases4)
    have val: "d < K \<Longrightarrow> d div BK = i_k \<Longrightarrow> fst (?P i_k (boh + n) s) (bos + t) d = chunk_dq BT kn qi ds (t mod BT) d"
      "d < K \<Longrightarrow> d div BK = i_k \<Longrightarrow> fst (snd (?P i_k (boh + n) s)) (bos + t) d = chunk_dk BT qn ki ds (t mod BT) d"
      "d < K \<Longrightarrow> d div BK = i_k \<Longrightarrow> snd (snd (snd (?P i_k (boh + n) s))) (bos + t) d = - wi (t mod BT) d"
      "fst (snd (snd (?P i_k (boh + n) s))) i_k (bos + t) = block_sum BK K i_k (gate_part BT qn kn wn qi ki wi ds (t mod BT))
        + (if t + 1 = min ((n + 1) * BT) len then block_sum BK K i_k (last_part BT V kn ki (h (boh + n)) (dh (boh + n)) (decay_all BT gt n)) else 0)"
      for i_k
    proof -
      obtain a' b' c'' e' where s': "?P i_k (boh + n) (a, b, c', e) = (a', b', c'', e')" by (rule prod_cases4)
      note v = dqkwg_value [where h = h and dh = dh, OF E p g prog(2) gt t n [symmetric] qn kn wn pn xn yn ds qi ki wi s']
      show "d < K \<Longrightarrow> d div BK = i_k \<Longrightarrow> fst (?P i_k (boh + n) s) (bos + t) d = chunk_dq BT kn qi ds (t mod BT) d"
        "d < K \<Longrightarrow> d div BK = i_k \<Longrightarrow> fst (snd (?P i_k (boh + n) s)) (bos + t) d = chunk_dk BT qn ki ds (t mod BT) d"
        "d < K \<Longrightarrow> d div BK = i_k \<Longrightarrow> snd (snd (snd (?P i_k (boh + n) s))) (bos + t) d = - wi (t mod BT) d"
        "fst (snd (snd (?P i_k (boh + n) s))) i_k (bos + t) = block_sum BK K i_k (gate_part BT qn kn wn qi ki wi ds (t mod BT))
          + (if t + 1 = min ((n + 1) * BT) len then block_sum BK K i_k (last_part BT V kn ki (h (boh + n)) (dh (boh + n)) (decay_all BT gt n)) else 0)"
        unfolding s s' fst_conv snd_conv by (rule v; assumption)+
    qed
    show "d < K \<Longrightarrow> fst (?P (d div BK) (boh + n) s) (bos + t) d = chunk_dq BT kn qi ds (t mod BT) d"
      "d < K \<Longrightarrow> fst (snd (?P (d div BK) (boh + n) s)) (bos + t) d = chunk_dk BT qn ki ds (t mod BT) d"
      "d < K \<Longrightarrow> snd (snd (snd (?P (d div BK) (boh + n) s))) (bos + t) d = - wi (t mod BT) d"
      by (rule val, assumption, rule refl)+
    show "fst (snd (snd (?P i_k (boh + n) s))) i_k (bos + t) = block_sum BK K i_k (gate_part BT qn kn wn qi ki wi ds (t mod BT))
      + (if t + 1 = min ((n + 1) * BT) len then block_sum BK K i_k (last_part BT V kn ki (h (boh + n)) (dh (boh + n)) (decay_all BT gt n)) else 0)"
      by (rule val)
  qed
  have kb: "d div BK < cdiv K BK" if "d < K" for d by (rule block_in_cdiv [OF p(1) that])
  show "dq (bos + t) d = chunk_dq BT kn qi ds (t mod BT) d" if d: "d < K"
    using launch2_writes [where get = "\<lambda>s. fst s (bos + t) d" and prog = ?P and s = s, OF wr(1) [OF d] _ kb [OF d] prog(1)] keep(1) by (simp add: run)
  show "dk (bos + t) d = chunk_dk BT qn ki ds (t mod BT) d" if d: "d < K"
    using launch2_writes [where get = "\<lambda>s. fst (snd s) (bos + t) d" and prog = ?P and s = s, OF wr(2) [OF d] _ kb [OF d] prog(1)] keep(1) by (simp add: run)
  show "dw (bos + t) d = - wi (t mod BT) d" if d: "d < K"
    using launch2_writes [where get = "\<lambda>s. snd (snd (snd s)) (bos + t) d" and prog = ?P and s = s, OF wr(3) [OF d] _ kb [OF d] prog(1)] keep(1) by (simp add: run)
  have slice: "dg i (bos + t) = block_sum BK K i (gate_part BT qn kn wn qi ki wi ds (t mod BT))
      + (if t + 1 = min ((n + 1) * BT) len then block_sum BK K i (last_part BT V kn ki (h (boh + n)) (dh (boh + n)) (decay_all BT gt n)) else 0)"
    if i: "i < cdiv K BK" for i
    using launch2_writes [where get = "\<lambda>s. fst (snd (snd s)) i (bos + t)" and prog = ?P and s = s, OF wr(4) _ i prog(1)] keep(2) by (simp add: run)
  show "(\<Sum>i<cdiv K BK. dg i (bos + t)) = chunk_dc BT K qn kn wn qi ki wi ds (t mod BT)
      + (if t + 1 = min ((n + 1) * BT) len then last_dc BT K V kn ki (h (boh + n)) (dh (boh + n)) (decay_all BT gt n) else 0)"
    using block_sum_all [OF p(1), of K] by (simp add: slice sum.distrib gate_part_sum last_part_sum)
qed

end
