(* ===== verification/FlaGradient.thy ===== *)
theory FlaGradient
  imports FlaBack
begin

text \<open>
  What the backward pass of the variable-length kernels is for: the loss of a packed batch as a
  function of the inputs, by the token-by-token recurrence; the gradients of one sequence in chunk
  form; the proof that they are the derivative of the loss; and the proof that
  \<open>ChunkGatedDeltaRuleFunction.backward\<close> returns them.
\<close>

section \<open>The loss and the gradients of one sequence\<close>

definition sequence_loss :: "nat \<Rightarrow> nat \<Rightarrow> nat \<Rightarrow> real \<Rightarrow> mat \<Rightarrow> mat \<Rightarrow> mat \<Rightarrow> vec \<Rightarrow> vec \<Rightarrow> mat \<Rightarrow> mat \<Rightarrow> mat \<Rightarrow> real" where
  "sequence_loss K V len scale q k v b g S0 d_o dht =
     (let r = recurrent_loop K len (\<lambda>i. exp (g i)) (\<lambda>i d. q i d * scale) k v b S0
      in (\<Sum>t<len. \<Sum>e<V. d_o t e * snd r t e) + (\<Sum>d<K. \<Sum>e<V. dht d e * fst r d e))"

record seq_grads =
  gr_q :: mat
  gr_k :: mat
  gr_v :: mat
  gr_beta :: vec
  gr_gate :: vec    \<comment> \<open>with respect to the cumulative decays\<close>
  gr_state :: mat

definition sequence_grads :: "kernel_env \<Rightarrow> nat \<Rightarrow> nat \<Rightarrow> nat \<Rightarrow> nat \<Rightarrow> real \<Rightarrow> mat \<Rightarrow> mat \<Rightarrow> mat \<Rightarrow> vec \<Rightarrow> vec \<Rightarrow> mat \<Rightarrow> mat \<Rightarrow> mat \<Rightarrow> seq_grads" where
  "sequence_grads E K V BT len scale q k v b g S0 d_o dht =
     (let qp = pad_rows len q; kp = pad_rows len k; vp = pad_rows len v; bp = pad_vec len b;
          p = out_grad scale (pad_rows len d_o); gt = gate E BT len g;
          W = wy_w K BT kp bp; U = wy_u K BT kp vp bp gt; H = h_states K BT kp W U gt S0;
          X = (\<lambda>n. new_value K BT W U gt (H n) n);
          D = back_state K BT (cdiv len BT) qp kp W gt p dht;
          Y = (\<lambda>n. chunk_values K BT qp kp gt p n (D (Suc n)));
          ds = (\<lambda>n. score_grad V (decay_between BT gt n) (chunk_view BT n p) (X n));
          qi = (\<lambda>n. inter_grad V (decay_in BT gt n) (H n) (chunk_view BT n p));
          ki = (\<lambda>n. inter_grad V (decay_out BT gt n) (D (Suc n)) (X n));
          wi = (\<lambda>n. inter_grad V (decay_in BT gt n) (H n) (Y n));
          Aw = (\<lambda>n. chunk_solution BT (chunk_gram K BT kp bp n));
          Au = (\<lambda>n. chunk_solution BT (decayed_gram K BT kp bp gt n));
          dMw = (\<lambda>n. solve_grad BT K (Aw n) (\<lambda>i d. - wi n i d) (chunk_view BT n W));
          dMu = (\<lambda>n. solve_grad BT V (Au n) (Y n) (chunk_view BT n U));
          e = (\<lambda>n i j. exp2 (gt (n * BT + i) - gt (n * BT + j)));
          G = (\<lambda>n. gram_grad (dMw n) (dMu n) (e n));
          P = (\<lambda>n i j. dMu n i j * e n i j * chunk_gram K BT kp bp n i j);
          Zw = (\<lambda>n. back_rows BT (Aw n) (\<lambda>i d. - wi n i d));
          Zu = (\<lambda>n. back_rows BT (Au n) (Y n))
      in \<lparr>gr_q = (\<lambda>t. chunk_dq BT (chunk_view BT (t div BT) kp) (qi (t div BT)) (ds (t div BT)) (t mod BT)),
          gr_k = (\<lambda>t d. chunk_dk BT (chunk_view BT (t div BT) qp) (ki (t div BT)) (ds (t div BT)) (t mod BT) d
            + wy_dk BT (chunk_view BT (t div BT) kp) (chunk_view BT (t div BT) bp) (Zw (t div BT)) (G (t div BT)) (t mod BT) d),
          gr_v = (\<lambda>t d. Zu (t div BT) (t mod BT) d * chunk_view BT (t div BT) bp (t mod BT)),
          gr_beta = (\<lambda>t. wy_db BT K V (chunk_view BT (t div BT) kp) (chunk_view BT (t div BT) vp) (Zw (t div BT)) (Zu (t div BT)) (G (t div BT)) (t mod BT)),
          gr_gate = (\<lambda>t. chunk_dc BT K (chunk_view BT (t div BT) qp) (chunk_view BT (t div BT) kp) (chunk_view BT (t div BT) W)
              (qi (t div BT)) (ki (t div BT)) (wi (t div BT)) (ds (t div BT)) (t mod BT)
            + (if t + 1 = min ((t div BT + 1) * BT) len
               then last_dc BT K V (chunk_view BT (t div BT) kp) (ki (t div BT)) (H (t div BT)) (D (Suc (t div BT))) (decay_all BT gt (t div BT)) else 0)
            + wy_dc BT (P (t div BT)) (t mod BT)),
          gr_state = D 0\<rparr>)"

text \<open>Sums over padded chunks are sums over the rows of the sequence.\<close>

lemma sum_chunks:
  assumes "0 < BT" and "\<And>n i. i < BT \<Longrightarrow> f n i = (if n * BT + i < len then F (n * BT + i) else 0)"
  shows "(\<Sum>n<cdiv len BT. \<Sum>i<BT. f n i) = (\<Sum>t<len. F t :: real)"
proof -
  have "(\<Sum>n<cdiv len BT. \<Sum>i<BT. f n i) = (\<Sum>n<cdiv len BT. \<Sum>i<BT. if n * BT + i < len then F (n * BT + i) else 0)"
    by (intro sum.cong refl) (simp add: assms(2))
  then show ?thesis by (simp only: sum_blocks [OF assms(1)])
qed

lemma pad_wy:
  assumes "0 < BT"
  shows "pad_rows len (wy_w K BT (pad_rows len k) (pad_vec len b)) = wy_w K BT (pad_rows len k) (pad_vec len b)"
    and "pad_rows len (wy_u K BT (pad_rows len k) (pad_rows len v) (pad_vec len b) gt) = wy_u K BT (pad_rows len k) (pad_rows len v) (pad_vec len b) gt"
  using wy_zero [OF assms] by (auto simp: pad_rows_def fun_eq_iff)

text \<open>The loss in chunk form.\<close>

lemma loss_chunks:
  assumes E: "exact_casts E" and BT: "0 < BT" and gt: "gt = gate E BT len g"
    and W: "W = wy_w K BT (pad_rows len k) (pad_vec len b)" and U: "U = wy_u K BT (pad_rows len k) (pad_rows len v) (pad_vec len b) gt"
    and H: "H = h_states K BT (pad_rows len k) W U gt S0" and X: "X = (\<lambda>n. new_value K BT W U gt (H n) n)"
  shows "(\<Sum>n<cdiv len BT. \<Sum>i<BT. \<Sum>e<V. out_grad scale (pad_rows len d_o) (n * BT + i) e
          * chunk_out K BT (pad_rows len q) (pad_rows len k) gt (H n) (X n) n i e)
        + (\<Sum>d<K. \<Sum>e<V. dht d e * H (cdiv len BT) d e)
      = sequence_loss K V len scale q k v b g S0 d_o dht"
proof -
  let ?D = "delta_states K (\<lambda>i. exp (g i)) k v b S0"
  have Hp: "H = h_states K BT (pad_rows len k) (pad_rows len W) (pad_rows len U) (gate E BT len g) S0"
    unfolding H W U pad_wy [OF BT] by (simp only: gt)
  have Wp: "pad_rows len W = W" "pad_rows len U = U" by (simp_all add: W U pad_wy [OF BT])
  have w: "W t d = wy_w K BT (pad_rows len k) (pad_vec len b) t d"
    and u: "U t e = wy_u K BT (pad_rows len k) (pad_rows len v) (pad_vec len b) (gate E BT len g) t e" for t d e
    by (simp_all add: W U gt)
  have vals: "len \<le> n * BT \<Longrightarrow> H n r e = ?D len r e"
    "t < len \<Longrightarrow> exp2 (gt t) * (\<Sum>d<K. q' d * H (t div BT) d e)
      + (\<Sum>j\<le>t mod BT. exp2 (gt t - gt (t div BT * BT + j)) * (\<Sum>d<K. q' d * pad_rows len k (t div BT * BT + j) d)
          * X (t div BT) j e)
      = (\<Sum>d<K. q' d * ?D (Suc t) d e)" for n r e t q'
    using seq_values [where v = v and e = e, OF E BT w u Hp, unfolded Wp, folded gt] by (simp_all only: X)
  have "(\<Sum>n<cdiv len BT. \<Sum>i<BT. \<Sum>e<V. out_grad scale (pad_rows len d_o) (n * BT + i) e
          * chunk_out K BT (pad_rows len q) (pad_rows len k) gt (H n) (X n) n i e)
     = (\<Sum>t<len. \<Sum>e<V. d_o t e * (\<Sum>d<K. q t d * scale * ?D (Suc t) d e))"
  proof (rule sum_chunks [OF BT])
    fix n i assume i: "i < BT"
    let ?t = "n * BT + i"
    have t: "?t div BT = n" "?t mod BT = i" using i by simp_all
    have "out_grad scale (pad_rows len d_o) ?t e * chunk_out K BT (pad_rows len q) (pad_rows len k) gt (H n) (X n) n i e
        = d_o ?t e * (\<Sum>d<K. q ?t d * scale * ?D (Suc ?t) d e)" if "?t < len" for e
    proof -
      have "chunk_out K BT (pad_rows len q) (pad_rows len k) gt (H n) (X n) n i e
        = exp2 (gt ?t) * (\<Sum>d<K. q ?t d * H n d e)
          + (\<Sum>j\<le>i. exp2 (gt ?t - gt (n * BT + j)) * (\<Sum>d<K. q ?t d * pad_rows len k (n * BT + j) d) * X n j e)"
        unfolding chunk_out_def decay_in_def
      proof (intro arg_cong2 [where f = "(+)"] arg_cong2 [where f = "(*)"] refl)
        show "(\<Sum>d<K. pad_rows len q ?t d * H n d e) = (\<Sum>d<K. q ?t d * H n d e)" using that by (simp add: pad_rows_def)
        show "(\<Sum>j<BT. decay_between BT gt n i j * (\<Sum>d<K. pad_rows len q ?t d * pad_rows len k (n * BT + j) d) * X n j e)
          = (\<Sum>j\<le>i. exp2 (gt ?t - gt (n * BT + j)) * (\<Sum>d<K. q ?t d * pad_rows len k (n * BT + j) d) * X n j e)"
          by (rule sum.mono_neutral_cong_right) (use i that in \<open>auto simp: decay_between_def pad_rows_def\<close>)
      qed
      also have "\<dots> = (\<Sum>d<K. q ?t d * ?D (Suc ?t) d e)"
        using vals(2) [OF that, where q' = "q ?t" and e = e] by (simp only: t)
      finally have out: "chunk_out K BT (pad_rows len q) (pad_rows len k) gt (H n) (X n) n i e = (\<Sum>d<K. q ?t d * ?D (Suc ?t) d e)" .
      have "(\<Sum>d<K. q ?t d * scale * ?D (Suc ?t) d e) = scale * (\<Sum>d<K. q ?t d * ?D (Suc ?t) d e)"
        unfolding sum_distrib_left by (intro sum.cong refl) (simp only: mult.commute mult.left_commute)
      then show ?thesis unfolding out using that by (simp add: out_grad_def pad_rows_def)
    qed
    then show "(\<Sum>e<V. out_grad scale (pad_rows len d_o) ?t e * chunk_out K BT (pad_rows len q) (pad_rows len k) gt (H n) (X n) n i e)
      = (if ?t < len then \<Sum>e<V. d_o ?t e * (\<Sum>d<K. q ?t d * scale * ?D (Suc ?t) d e) else 0)"
      by (cases "?t < len") (simp_all only: if_True if_False, simp add: out_grad_def pad_rows_def)
  qed
  then show ?thesis
    by (simp add: sequence_loss_def Let_def recurrent_loop_states vals(1) [OF cdiv_covers [OF BT]])
qed

section \<open>Cumulative decays\<close>

text \<open>Sums from a row to the end of its chunk.\<close>

definition rev_chunk_sum :: "nat \<Rightarrow> nat \<Rightarrow> vec \<Rightarrow> vec" where
  "rev_chunk_sum BT len x = (\<lambda>t. \<Sum>s = t..<min len ((t div BT + 1) * BT). x s)"

lemma triangle_swap:
  fixes a c :: vec
  shows "(\<Sum>i<n. a i * (\<Sum>j\<le>i. c j)) = (\<Sum>j<n. (\<Sum>i = j..<n. a i) * c j)"
proof (induction n)
  case (Suc n)
  have "(\<Sum>j<Suc n. (\<Sum>i = j..<Suc n. a i) * c j) = (\<Sum>j<n. (\<Sum>i = j..<n. a i) * c j + a n * c j) + a n * c n"
    by (simp add: distrib_right)
  then show ?case
    using Suc by (simp add: sum.distrib sum_distrib_left lessThan_Suc_atMost [symmetric] distrib_left)
qed simp

lemma gate_pairing:
  fixes a :: mat and l g' :: vec
  assumes BT: "0 < BT" and z: "\<And>n i. i < BT \<Longrightarrow> len \<le> n * BT + i \<Longrightarrow> a n i = 0"
    and c': "c' = (\<lambda>n. cumsum (chunk_view BT n (pad_vec len g')))"
    and x: "x = (\<lambda>t. a (t div BT) (t mod BT) + (if t + 1 = min ((t div BT + 1) * BT) len then l (t div BT) else 0))"
  shows "(\<Sum>n<cdiv len BT. (\<Sum>i<BT. a n i * c' n i) + l n * c' n (BT - 1)) = (\<Sum>t<len. rev_chunk_sum BT len x t * g' t)"
proof -
  have "(\<Sum>i<BT. a n i * c' n i) + l n * c' n (BT - 1)
      = (\<Sum>j<BT. if n * BT + j < len then rev_chunk_sum BT len x (n * BT + j) * g' (n * BT + j) else 0)"
    if n: "n < cdiv len BT" for n
  proof -
    define L where "L = min BT (len - n * BT)"
    have nl: "n * BT < len" by (rule chunk_count [OF BT n])
    have L: "0 < L" "L \<le> BT" "\<And>j. j < BT \<Longrightarrow> n * BT + j < len \<longleftrightarrow> j < L"
      using BT nl by (auto simp: L_def)
    have stop: "min len ((n + 1) * BT) = n * BT + L" using nl by (auto simp: L_def min_def)
    have zL: "a n i = 0" if "i < BT" "\<not> i < L" for i using z [OF that(1), of n] L(3) [OF that(1)] that(2) by simp
    let ?c = "\<lambda>j. if j < L then g' (n * BT + j) else 0"
    have cs: "c' n i = (\<Sum>j\<le>i. ?c j)" if "i < BT" for i
      unfolding c' cumsum_def chunk_view_def pad_vec_def using that by (intro sum.cong refl) (simp add: L(3))
    have rev: "rev_chunk_sum BT len x (n * BT + j) = (\<Sum>i = j..<BT. a n i) + l n" if j: "j < L" for j
    proof -
      have jb: "j < BT" using j L(2) by simp
      then have d: "(n * BT + j) div BT = n" by simp
      have "rev_chunk_sum BT len x (n * BT + j) = (\<Sum>s = j + n * BT..<L + n * BT. x s)"
        unfolding rev_chunk_sum_def d stop by (simp only: add.commute)
      also have "\<dots> = (\<Sum>i = j..<L. x (i + n * BT))" by (rule sum.shift_bounds_nat_ivl)
      also have "\<dots> = (\<Sum>i = j..<L. a n i + (if i = L - 1 then l n else 0))"
      proof (intro sum.cong refl)
        fix i assume "i \<in> {j..<L}"
        then have i: "i < BT" "i < L" using L(2) by auto
        then have dm: "(i + n * BT) div BT = n" "(i + n * BT) mod BT = i" by simp_all
        have "i + n * BT + 1 = min ((n + 1) * BT) len \<longleftrightarrow> i = L - 1"
          using stop i(2) by (auto simp: min.commute)
        then show "x (i + n * BT) = a n i + (if i = L - 1 then l n else 0)" unfolding x dm by simp
      qed
      also have "\<dots> = (\<Sum>i = j..<L. a n i) + l n"
        using j by (auto simp: sum.distrib)
      also have "(\<Sum>i = j..<L. a n i) = (\<Sum>i = j..<BT. a n i)"
        by (rule sum.mono_neutral_left) (use L zL in auto)
      finally show ?thesis .
    qed
    have "(\<Sum>i<BT. a n i * c' n i) = (\<Sum>i<BT. a n i * (\<Sum>j\<le>i. ?c j))" by (intro sum.cong refl) (simp add: cs)
    also have "\<dots> = (\<Sum>j<BT. (\<Sum>i = j..<BT. a n i) * ?c j)" by (rule triangle_swap)
    finally have 1: "(\<Sum>i<BT. a n i * c' n i) = (\<Sum>j<BT. (\<Sum>i = j..<BT. a n i) * ?c j)" .
    have 2: "c' n (BT - 1) = (\<Sum>j<BT. ?c j)"
      using cs [of "BT - 1"] BT by (simp add: lessThan_Suc_atMost [symmetric])
    show ?thesis
      unfolding 1 2 sum_distrib_left sum.distrib [symmetric]
      by (intro sum.cong refl) (simp add: L(3) rev distrib_right)
  qed
  then have "(\<Sum>n<cdiv len BT. (\<Sum>i<BT. a n i * c' n i) + l n * c' n (BT - 1))
      = (\<Sum>n<cdiv len BT. \<Sum>j<BT. if n * BT + j < len then rev_chunk_sum BT len x (n * BT + j) * g' (n * BT + j) else 0)"
    by (intro sum.cong refl) simp
  also have "\<dots> = (\<Sum>t<len. rev_chunk_sum BT len x t * g' t)"
    by (rule sum_blocks [OF BT, where f = "\<lambda>t. rev_chunk_sum BT len x t * g' t"])
  finally show ?thesis .
qed

section \<open>The gradients are the derivative of the loss\<close>

text \<open>Rows past the end contribute nothing to the decay gradients.\<close>

lemma dc_outside:
  assumes "len \<le> n * BT + i" and "0 < BT"
  shows "chunk_dc BT K (chunk_view BT n (pad_rows len q)) (chunk_view BT n (pad_rows len k))
      (chunk_view BT n (wy_w K BT (pad_rows len k) (pad_vec len b))) qi ki wi ds i = 0"
    and "wy_dc BT (\<lambda>i j. X i j * e i j * chunk_gram K BT (pad_rows len k) (pad_vec len b) n i j) i = 0"
proof -
  have z: "chunk_view BT n (pad_rows len x) i d = 0" "chunk_view BT n (wy_w K BT (pad_rows len k) (pad_vec len b)) i d = 0" for x d
    using assms wy_zero(1) [OF assms(2,1)] by (simp_all add: chunk_view_def pad_rows_def)
  show "chunk_dc BT K (chunk_view BT n (pad_rows len q)) (chunk_view BT n (pad_rows len k))
      (chunk_view BT n (wy_w K BT (pad_rows len k) (pad_vec len b))) qi ki wi ds i = 0"
    by (simp add: chunk_dc_def row_dot_def wy_dc_def scores_def z)
  have g: "chunk_gram K BT (pad_rows len k) (pad_vec len b) n i j = 0" "chunk_gram K BT (pad_rows len k) (pad_vec len b) n j i = 0" for j
    using assms(1) by (simp_all add: chunk_gram_def pad_rows_def pad_vec_def)
  show "wy_dc BT (\<lambda>i j. X i j * e i j * chunk_gram K BT (pad_rows len k) (pad_vec len b) n i j) i = 0"
    by (simp add: wy_dc_def g)
qed

lemma sequence_grads_correct:
  fixes q k v S0 :: "real \<Rightarrow> mat" and b g :: "real \<Rightarrow> vec"
  assumes E: "exact_casts E" and BT: "0 < BT"
    and q: "curve q q'" and k: "curve k k'" and v: "curve v v'" and b: "curve1 b b'" and g: "curve1 g g'" and S0: "curve S0 S0'"
    and gr: "gr = sequence_grads E K V BT len scale (q 0) (k 0) (v 0) (b 0) (g 0) (S0 0) d_o dht"
  shows "((\<lambda>s. sequence_loss K V len scale (q s) (k s) (v s) (b s) (g s) (S0 s) d_o dht) has_real_derivative
      (\<Sum>d<K. \<Sum>e<V. gr_state gr d e * S0' d e)
      + (\<Sum>t<len. (\<Sum>d<K. gr_q gr t d * q' t d) + (\<Sum>d<K. gr_k gr t d * k' t d) + (\<Sum>e<V. gr_v gr t e * v' t e)
          + gr_beta gr t * b' t + rev_chunk_sum BT len (gr_gate gr) t * g' t)) (at 0)"
proof -
  define gt where "gt = (\<lambda>s. gate E BT len (g s))"
  define W where "W = (\<lambda>s. wy_w K BT (pad_rows len (k s)) (pad_vec len (b s)))"
  define U where "U = (\<lambda>s. wy_u K BT (pad_rows len (k s)) (pad_rows len (v s)) (pad_vec len (b s)) (gt s))"
  define H where "H = (\<lambda>s. h_states K BT (pad_rows len (k s)) (W s) (U s) (gt s) (S0 s))"
  define X where "X = (\<lambda>s n. new_value K BT (W s) (U s) (gt s) (H s n) n)"
  define c' where "c' = (\<lambda>n. cumsum (chunk_view BT n (pad_vec len g')))"
  define p where "p = out_grad scale (pad_rows len d_o)"
  define D where "D = back_state K BT (cdiv len BT) (pad_rows len (q 0)) (pad_rows len (k 0)) (W 0) (gt 0) p dht"
  define Y where "Y = (\<lambda>n. chunk_values K BT (pad_rows len (q 0)) (pad_rows len (k 0)) (gt 0) p n (D (Suc n)))"
  define ds where "ds = (\<lambda>n. score_grad V (decay_between BT (gt 0) n) (chunk_view BT n p) (X 0 n))"
  define qi where "qi = (\<lambda>n. inter_grad V (decay_in BT (gt 0) n) (H 0 n) (chunk_view BT n p))"
  define ki where "ki = (\<lambda>n. inter_grad V (decay_out BT (gt 0) n) (D (Suc n)) (X 0 n))"
  define wi where "wi = (\<lambda>n. inter_grad V (decay_in BT (gt 0) n) (H 0 n) (Y n))"
  define Aw where "Aw = (\<lambda>n. chunk_solution BT (chunk_gram K BT (pad_rows len (k 0)) (pad_vec len (b 0)) n))"
  define Au where "Au = (\<lambda>n. chunk_solution BT (decayed_gram K BT (pad_rows len (k 0)) (pad_vec len (b 0)) (gt 0) n))"
  define dMw where "dMw = (\<lambda>n. solve_grad BT K (Aw n) (\<lambda>i d. - wi n i d) (chunk_view BT n (W 0)))"
  define dMu where "dMu = (\<lambda>n. solve_grad BT V (Au n) (Y n) (chunk_view BT n (U 0)))"
  define e where "e = (\<lambda>n i j. exp2 (gt 0 (n * BT + i) - gt 0 (n * BT + j)))"
  define G where "G = (\<lambda>n. gram_grad (dMw n) (dMu n) (e n))"
  define P where "P = (\<lambda>n i j. dMu n i j * e n i j * chunk_gram K BT (pad_rows len (k 0)) (pad_vec len (b 0)) n i j)"
  define Zw where "Zw = (\<lambda>n. back_rows BT (Aw n) (\<lambda>i d. - wi n i d))"
  define Zu where "Zu = (\<lambda>n. back_rows BT (Au n) (Y n))"
  let ?q = "pad_rows len (q 0)" and ?k = "pad_rows len (k 0)" and ?v = "pad_rows len (v 0)" and ?b = "pad_vec len (b 0)"
  let ?dc = "\<lambda>n i. chunk_dc BT K (chunk_view BT n ?q) (chunk_view BT n ?k) (chunk_view BT n (W 0)) (qi n) (ki n) (wi n) (ds n) i + wy_dc BT (P n) i"
  let ?last = "\<lambda>n. last_dc BT K V (chunk_view BT n ?k) (ki n) (H 0 n) (D (Suc n)) (decay_all BT (gt 0) n)"
  have grads: "gr_q gr t d = chunk_dq BT (chunk_view BT (t div BT) ?k) (qi (t div BT)) (ds (t div BT)) (t mod BT) d"
    "gr_k gr t d = chunk_dk BT (chunk_view BT (t div BT) ?q) (ki (t div BT)) (ds (t div BT)) (t mod BT) d
      + wy_dk BT (chunk_view BT (t div BT) ?k) (chunk_view BT (t div BT) ?b) (Zw (t div BT)) (G (t div BT)) (t mod BT) d"
    "gr_v gr t d = Zu (t div BT) (t mod BT) d * chunk_view BT (t div BT) ?b (t mod BT)"
    "gr_beta gr t = wy_db BT K V (chunk_view BT (t div BT) ?k) (chunk_view BT (t div BT) ?v) (Zw (t div BT)) (Zu (t div BT)) (G (t div BT)) (t mod BT)"
    "gr_state gr = D 0" for t d
    by (simp_all only: gr sequence_grads_def Let_def seq_grads.simps gt_def W_def U_def H_def X_def p_def D_def Y_def ds_def qi_def
      ki_def wi_def Aw_def Au_def dMw_def dMu_def e_def G_def Zw_def Zu_def)
  have gateg: "gr_gate gr = (\<lambda>t. ?dc (t div BT) (t mod BT) + (if t + 1 = min ((t div BT + 1) * BT) len then ?last (t div BT) else 0))"
  proof
    fix t
    have swap: "x + y + z = x + z + y" for x y z :: real by simp
    show "gr_gate gr t = ?dc (t div BT) (t mod BT) + (if t + 1 = min ((t div BT + 1) * BT) len then ?last (t div BT) else 0)"
      unfolding gr sequence_grads_def Let_def seq_grads.simps gt_def W_def U_def H_def X_def p_def D_def Y_def ds_def qi_def
        ki_def wi_def Aw_def Au_def dMu_def e_def P_def by (rule swap)
  qed
  have main: "((\<lambda>s. (\<Sum>n<cdiv len BT. \<Sum>i<BT. \<Sum>e<V. p (n * BT + i) e
          * chunk_out K BT (pad_rows len (q s)) (pad_rows len (k s)) (gt s) (H s n) (X s n) n i e)
        + (\<Sum>d<K. \<Sum>e<V. dht d e * H s (cdiv len BT) d e)) has_real_derivative
      (\<Sum>d<K. \<Sum>e<V. D 0 d e * S0' d e)
      + (\<Sum>n<cdiv len BT. (\<Sum>i<BT. \<Sum>d<K. chunk_dq BT (chunk_view BT n ?k) (qi n) (ds n) i d * chunk_view BT n (pad_rows len q') i d)
        + (\<Sum>i<BT. \<Sum>d<K. (chunk_dk BT (chunk_view BT n ?q) (ki n) (ds n) i d
             + wy_dk BT (chunk_view BT n ?k) (chunk_view BT n ?b) (Zw n) (G n) i d) * chunk_view BT n (pad_rows len k') i d)
        + (\<Sum>i<BT. \<Sum>d<V. Zu n i d * chunk_view BT n ?b i * chunk_view BT n (pad_rows len v') i d)
        + (\<Sum>i<BT. wy_db BT K V (chunk_view BT n ?k) (chunk_view BT n ?v) (Zw n) (Zu n) (G n) i * chunk_view BT n (pad_vec len b') i)
        + (\<Sum>i<BT. ?dc n i * c' n i) + ?last n * c' n (BT - 1))) (at 0)"
    by (rule sequence_gradient [OF E BT curve_pad(1) [OF q] curve_pad(1) [OF k] curve_pad(1) [OF v] curve_pad(2) [OF b] g S0
        gt_def W_def U_def H_def X_def c'_def D_def Y_def ds_def qi_def ki_def wi_def Aw_def Au_def dMw_def dMu_def e_def G_def P_def
        Zw_def Zu_def])
  have loss: "(\<Sum>n<cdiv len BT. \<Sum>i<BT. \<Sum>e<V. p (n * BT + i) e
          * chunk_out K BT (pad_rows len (q s)) (pad_rows len (k s)) (gt s) (H s n) (X s n) n i e)
        + (\<Sum>d<K. \<Sum>e<V. dht d e * H s (cdiv len BT) d e) = sequence_loss K V len scale (q s) (k s) (v s) (b s) (g s) (S0 s) d_o dht" for s
    unfolding p_def by (rule loss_chunks [OF E BT]) (simp_all add: gt_def W_def U_def H_def X_def)
  have pos: "(n * BT + i) div BT = n" "(n * BT + i) mod BT = i" if "i < BT" for n i using that by simp_all
  have rows: "(\<Sum>n<cdiv len BT. \<Sum>i<BT. \<Sum>d<K. chunk_dq BT (chunk_view BT n ?k) (qi n) (ds n) i d * chunk_view BT n (pad_rows len q') i d)
      = (\<Sum>t<len. \<Sum>d<K. gr_q gr t d * q' t d)"
    "(\<Sum>n<cdiv len BT. \<Sum>i<BT. \<Sum>d<K. (chunk_dk BT (chunk_view BT n ?q) (ki n) (ds n) i d
        + wy_dk BT (chunk_view BT n ?k) (chunk_view BT n ?b) (Zw n) (G n) i d) * chunk_view BT n (pad_rows len k') i d)
      = (\<Sum>t<len. \<Sum>d<K. gr_k gr t d * k' t d)"
    "(\<Sum>n<cdiv len BT. \<Sum>i<BT. \<Sum>d<V. Zu n i d * chunk_view BT n ?b i * chunk_view BT n (pad_rows len v') i d)
      = (\<Sum>t<len. \<Sum>d<V. gr_v gr t d * v' t d)"
    "(\<Sum>n<cdiv len BT. \<Sum>i<BT. wy_db BT K V (chunk_view BT n ?k) (chunk_view BT n ?v) (Zw n) (Zu n) (G n) i * chunk_view BT n (pad_vec len b') i)
      = (\<Sum>t<len. gr_beta gr t * b' t)"
    by (rule sum_chunks [OF BT], simp add: grads pos, simp add: chunk_view_def pad_rows_def pad_vec_def)+
  have gates: "(\<Sum>n<cdiv len BT. (\<Sum>i<BT. ?dc n i * c' n i) + ?last n * c' n (BT - 1))
      = (\<Sum>t<len. rev_chunk_sum BT len (gr_gate gr) t * g' t)"
  proof (rule gate_pairing [OF BT _ c'_def gateg])
    fix n i assume "i < BT" "len \<le> n * BT + i"
    then show "?dc n i = 0" unfolding W_def P_def by (simp only: dc_outside [OF _ BT] add_0)
  qed
  have total: "(\<Sum>n<cdiv len BT. (\<Sum>i<BT. \<Sum>d<K. chunk_dq BT (chunk_view BT n ?k) (qi n) (ds n) i d * chunk_view BT n (pad_rows len q') i d)
        + (\<Sum>i<BT. \<Sum>d<K. (chunk_dk BT (chunk_view BT n ?q) (ki n) (ds n) i d
             + wy_dk BT (chunk_view BT n ?k) (chunk_view BT n ?b) (Zw n) (G n) i d) * chunk_view BT n (pad_rows len k') i d)
        + (\<Sum>i<BT. \<Sum>d<V. Zu n i d * chunk_view BT n ?b i * chunk_view BT n (pad_rows len v') i d)
        + (\<Sum>i<BT. wy_db BT K V (chunk_view BT n ?k) (chunk_view BT n ?v) (Zw n) (Zu n) (G n) i * chunk_view BT n (pad_vec len b') i)
        + (\<Sum>i<BT. ?dc n i * c' n i) + ?last n * c' n (BT - 1))
      = (\<Sum>t<len. (\<Sum>d<K. gr_q gr t d * q' t d) + (\<Sum>d<K. gr_k gr t d * k' t d) + (\<Sum>e<V. gr_v gr t e * v' t e)
          + gr_beta gr t * b' t + rev_chunk_sum BT len (gr_gate gr) t * g' t)"
  proof -
    have split: "(\<Sum>n\<in>N. x n + y n + z n + w n + u n + o' n) = (\<Sum>n\<in>N. x n) + (\<Sum>n\<in>N. y n) + (\<Sum>n\<in>N. z n) + (\<Sum>n\<in>N. w n) + (\<Sum>n\<in>N. u n + o' n)"
      for x y z w u o' :: vec and N by (simp add: sum.distrib)
    show ?thesis unfolding split rows gates by (simp only: sum.distrib)
  qed
  show ?thesis using main unfolding loss total grads(5) .
qed

section \<open>What the backward pass computes on one sequence\<close>

lemma chunk_values_cong:
  "\<forall>d<K. D d e = D' d e \<Longrightarrow> chunk_values K BT q k gt p n D i e = chunk_values K BT q k gt p n D' i e"
  by (simp add: chunk_values_split cong: sum.cong_simp)

lemma back_step_cong:
  assumes "\<forall>t d. d < K \<longrightarrow> w t d = w' t d" and D: "\<forall>d<K. D d e = D' d e" and "d < K"
  shows "back_step K BT q k w gt p n D d e = back_step K BT q k w' gt p n D' d e"
  using assms by (simp add: back_step_def state_grad_def chunk_view_def chunk_values_cong [where D = D and D' = D' and e = e, OF D])

lemma back_state_cong:
  assumes w: "\<forall>t d. d < K \<longrightarrow> w t d = w' t d" and d: "d < K"
  shows "back_state K BT NT q k w gt p dht n d e = back_state K BT NT q k w' gt p dht n d e"
proof -
  let ?f = "\<lambda>w m. for_loop m (\<lambda>m. back_step K BT q k w gt p (NT - 1 - m)) dht"
  have "\<forall>d<K. ?f w m d e = ?f w' m d e" for m
  proof (induction m)
    case (Suc m)
    then show ?case using back_step_cong [where D = "?f w m" and D' = "?f w' m" and e = e, OF w Suc] by simp
  qed simp
  then show ?thesis using d by (simp add: back_state_def)
qed

text \<open>A row that is written only inside the sequence, seen through the padded view.\<close>

lemma padded_view:
  assumes BT: "0 < BT" and x: "\<And>t. t < len \<Longrightarrow> x (bos + t) e = (Z (t div BT) (t mod BT) e :: real)"
    and z: "\<And>i. i < BT \<Longrightarrow> len \<le> n * BT + i \<Longrightarrow> Z n i e = 0" and i: "i < BT"
  shows "chunk_view BT n (seq_rows bos len x) i e = Z n i e"
  using x [of "n * BT + i"] z [OF i] i by (cases "n * BT + i < len") (simp_all add: chunk_view_def pad_rows_def seq_view_def)

lemma chunk_values_outside:
  assumes "len \<le> n * BT + i"
  shows "chunk_values K BT q (pad_rows len k) gt p n D i e = 0"
  using assms by (simp add: chunk_values_split local_values_def chunk_view_def pad_rows_def)

lemma new_value_outside:
  assumes "0 < BT" "len \<le> n * BT + i"
  shows "new_value K BT (wy_w K BT (pad_rows len k) (pad_vec len b)) (wy_u K BT (pad_rows len k) (pad_rows len v) (pad_vec len b) gt) gt S n i e = 0"
  by (simp add: new_value_def wy_zero [OF assms])

text \<open>The launch for queries, keys and \<open>w\<close>, with its inputs known only where it reads them.\<close>

lemma dqkwg_grads:
  assumes E: "exact_casts (base F)" and p: "0 < BK" "0 < BV" "0 < BT"
    and P: "packs BT N NT sq (program_chunk offsets indices T)" and n0: "n0 < N" "sq n0 = (bos, len, boh)"
    and g: "local_gate BT len g0 (seq_view bos c)" "decays_exact F BT len (seq_view bos c)" and gt: "gt = gate (base F) BT len g0"
    and t: "t < len" and n: "n = t div BT"
    and qn: "qn = chunk_view BT n (seq_rows bos len q)" and kn: "kn = chunk_view BT n (seq_rows bos len k)"
    and pn: "pn = chunk_view BT n (out_grad scale (seq_rows bos len d_o))"
    and W: "\<forall>i d. d < K \<longrightarrow> chunk_view BT n (seq_rows bos len w) i d = wn i d"
    and X: "\<forall>i e. i < BT \<longrightarrow> e < V \<longrightarrow> chunk_view BT n (seq_rows bos len v) i e = xn i e"
    and Y: "\<forall>i e. i < BT \<longrightarrow> e < V \<longrightarrow> chunk_view BT n (seq_rows bos len dv) i e = yn i e"
    and S: "\<forall>d e. d < K \<longrightarrow> e < V \<longrightarrow> h (boh + n) d e = S d e" and D: "\<forall>d e. d < K \<longrightarrow> e < V \<longrightarrow> dh (boh + n) d e = D d e"
    and ds: "ds = score_grad V (decay_between BT gt n) pn xn"
    and qi: "qi = inter_grad V (decay_in BT gt n) S pn" and ki: "ki = inter_grad V (decay_out BT gt n) D xn"
    and wi: "wi = inter_grad V (decay_in BT gt n) S yn"
    and run: "for_loop (cdiv K BK) (\<lambda>i_k. for_loop NT (\<lambda>i_t.
      fla_chunk_bwd_kernel_dqkwg F offsets indices scale T K V BT BK BV q k v h (Some c) d_o dh (Some (w, dv)) i_k i_t)) s = (dq, dk, dg, dw)"
  shows "d < K \<Longrightarrow> dq (bos + t) d = chunk_dq BT kn qi ds (t mod BT) d"
    and "d < K \<Longrightarrow> dk (bos + t) d = chunk_dk BT qn ki ds (t mod BT) d"
    and "d < K \<Longrightarrow> dw (bos + t) d = - wi (t mod BT) d"
    and "(\<Sum>i<cdiv K BK. dg i (bos + t)) = chunk_dc BT K qn kn wn qi ki wi ds (t mod BT)
      + (if t + 1 = min ((n + 1) * BT) len then last_dc BT K V kn ki S D (decay_all BT gt n) else 0)"
proof -
  have r: "t mod BT < BT" using p(3) by simp
  define xm where "xm = chunk_view BT n (seq_rows bos len v)"
  define ym where "ym = chunk_view BT n (seq_rows bos len dv)"
  define wm where "wm = chunk_view BT n (seq_rows bos len w)"
  define ds' where "ds' = score_grad V (decay_between BT gt n) pn xm"
  define qi' where "qi' = inter_grad V (decay_in BT gt n) (h (boh + n)) pn"
  define ki' where "ki' = inter_grad V (decay_out BT gt n) (dh (boh + n)) xm"
  define wi' where "wi' = inter_grad V (decay_in BT gt n) (h (boh + n)) ym"
  have eqs: "j < BT \<Longrightarrow> ds' i j = ds i j" "d < K \<Longrightarrow> qi' i d = qi i d" "i < BT \<Longrightarrow> d < K \<Longrightarrow> ki' i d = ki i d"
    "i < BT \<Longrightarrow> d < K \<Longrightarrow> wi' i d = wi i d" "d < K \<Longrightarrow> wm i d = wn i d" for i j d
    by (simp_all add: ds'_def ds qi'_def qi ki'_def ki wi'_def wi score_grad_def inter_grad_def wm_def W S D xm_def X ym_def Y cong: sum.cong_simp)
  note v = dqkwg_launch [OF E p P n0 g gt t n qn kn wm_def pn xm_def ym_def ds'_def qi'_def ki'_def wi'_def run]
  show "dq (bos + t) d = chunk_dq BT kn qi ds (t mod BT) d" if "d < K"
    using v(1) [OF that] that r by (simp add: chunk_dq_def eqs cong: sum.cong_simp)
  show "dk (bos + t) d = chunk_dk BT qn ki ds (t mod BT) d" if "d < K"
    using v(2) [OF that] that r by (simp add: chunk_dk_def eqs cong: sum.cong_simp)
  show "dw (bos + t) d = - wi (t mod BT) d" if "d < K" using v(3) [OF that] that r by (simp add: eqs)
  have "chunk_dc BT K qn kn wm qi' ki' wi' ds' (t mod BT) = chunk_dc BT K qn kn wn qi ki wi ds (t mod BT)"
    using r by (simp add: chunk_dc_def row_dot_def wy_dc_def eqs cong: sum.cong_simp)
  moreover have "last_dc BT K V kn ki' (h (boh + n)) (dh (boh + n)) L = last_dc BT K V kn ki S D L" for L
    by (simp add: last_dc_def row_dot_def eqs S D cong: sum.cong_simp)
  ultimately show "(\<Sum>i<cdiv K BK. dg i (bos + t)) = chunk_dc BT K qn kn wn qi ki wi ds (t mod BT)
      + (if t + 1 = min ((n + 1) * BT) len then last_dc BT K V kn ki S D (decay_all BT gt n) else 0)"
    using v(4) by (simp only:)
qed

text \<open>The gradients through the two solves see the upstream gradients only in their columns.\<close>

lemma solve_grads_cong:
  assumes "\<forall>i c. i < BT \<longrightarrow> c < C \<longrightarrow> y i c = y' i c"
  shows "c < C \<Longrightarrow> back_rows BT S y i c = back_rows BT S y' i c" and "solve_grad BT C S y W = solve_grad BT C S y' W"
proof -
  show z: "back_rows BT S y i c = back_rows BT S y' i c" if "c < C" for i c
    using assms that by (simp add: back_rows_def cong: sum.cong_simp)
  show "solve_grad BT C S y W = solve_grad BT C S y' W"
    using z by (simp add: solve_grad_def fun_eq_iff cong: sum.cong_simp)
qed

lemma backward_sequence:
  assumes E: "exact_casts (base F)" "pow2_spec (base F)" "safe_exp_spec F" and BT: "BT = chunk_block F cs T" "0 < BT"
    and off: "offsets \<noteq> None \<longrightarrow> indices \<noteq> None" and ixs: "ixs = (case indices of None \<Rightarrow> [] | Some ixs \<Rightarrow> ixs)"
    and NT: "NT = (case offsets of None \<Rightarrow> cdiv T BT | Some os \<Rightarrow> length ixs)"
    and P: "packs BT N NT (sequence_of offsets co T) (program_chunk offsets ixs T)"
    and n: "n < N" "sequence_of offsets co T n = (bos, len, boh)"
    and g: "\<forall>n bos len boh. n < N \<longrightarrow> sequence_of offsets co T n = (bos, len, boh) \<longrightarrow> local_gate BT len (g0 n) (seq_view bos c)"
    and neg: "\<And>t. t < len \<Longrightarrow> g0 n t \<le> 0"
    and p: "0 < BC" "BC dvd BT" "0 < BV" "K \<le> BK" "0 < B1" "0 < B2" "0 < B3" "0 < B4" "0 < B5" "0 < B6" "0 < BC'" "BC' dvd BT" "0 < BV'"
    and Aw: "\<forall>t<len. \<forall>j<BT. Aw (bos + t) j = chunk_solution BT (chunk_gram K BT (seq_rows bos len k) (seq_vec bos len beta) (t div BT)) (t mod BT) j"
    and Au: "\<forall>t<len. \<forall>j<BT. Au (bos + t) j = chunk_solution BT (decayed_gram K BT (seq_rows bos len k) (seq_vec bos len beta)
      (gate (base F) BT len (g0 n)) (t div BT)) (t mod BT) j"
    and run1: "(w, u) = for_loop NT (fla_fwd_recompute_w_u_kernel F offsets ixs T K V BT B1 B2 k v beta Aw Au) s1"
    and run2: "for_loop (cdiv V BV) (\<lambda>i_v. for_loop N (\<lambda>i_n.
      fla_fwd_kernel_h F offsets co T K V BT BC BK BV k u w (Some c) init 0 i_v i_n)) s2 = (h, vn, hts)"
    and run3: "dvl = for_loop NT (fla_chunk_bwd_kernel_dv_local F offsets ixs scale T K V BT B3 B4 q k (Some c) d_o) s3"
    and run4: "for_loop (cdiv V BV') (\<lambda>i_v. for_loop N (\<lambda>i_n.
      fla_bwd_kernel_dhu F offsets co scale T K V BT BC' BK BV' q k w (Some c) dht d_o dvl 0 i_v i_n)) s4 = (dh, dv2, dh0)"
    and run5: "for_loop (cdiv K B5) (\<lambda>i_k. for_loop NT (\<lambda>i_t.
      fla_chunk_bwd_kernel_dqkwg F offsets ixs scale T K V BT B5 B6 q k vn h (Some c) d_o dh (Some (w, dv2)) i_k i_t)) s5 = (dq, dk1, dgs, dw)"
    and run6: "fla_bwd_prepare_wy_repr F offsets indices cs T K V k v c beta Aw Au dw dv2 = (dk2, dv, db, dg2)"
    and gr: "gr = sequence_grads (base F) K V BT len scale (seq_view bos q) (seq_view bos k) (seq_view bos v) (seq_view bos beta) (g0 n)
      (start_state init n) (seq_view bos d_o) (start_state dht n)"
  shows "t < len \<Longrightarrow> d < K \<Longrightarrow> dq (bos + t) d = gr_q gr t d"
    and "t < len \<Longrightarrow> d < K \<Longrightarrow> dk1 (bos + t) d + dk2 (bos + t) d = gr_k gr t d"
    and "t < len \<Longrightarrow> e' < V \<Longrightarrow> dv (bos + t) e' = gr_v gr t e'"
    and "t < len \<Longrightarrow> db (bos + t) = gr_beta gr t"
    and "t < len \<Longrightarrow> (\<Sum>i<cdiv K B5. dgs i (bos + t)) + dg2 (bos + t) = gr_gate gr t"
    and "d < K \<Longrightarrow> e' < V \<Longrightarrow> dh0 = Some x \<Longrightarrow> x n d e' = gr_state gr d e'"
proof -
  note lg = g [rule_format, OF n]
  have plan: "launch_plan BT offsets ixs T NT bos len" by (rule packs_plan [OF P BT(2) n])
  have dx: "decays_exact F BT len (seq_view bos c)" by (rule decays_exact_safe [OF E(1,3) lg neg BT(2)])
  define qp where "qp = seq_rows bos len q"
  define kp where "kp = seq_rows bos len k"
  define vp where "vp = seq_rows bos len v"
  define bp where "bp = seq_vec bos len beta"
  define pp where "pp = out_grad scale (seq_rows bos len d_o)"
  define gt where "gt = gate (base F) BT len (g0 n)"
  define W where "W = wy_w K BT kp bp"
  define U where "U = wy_u K BT kp vp bp gt"
  define H where "H = h_states K BT kp W U gt (start_state init n)"
  define X where "X = (\<lambda>m. new_value K BT W U gt (H m) m)"
  define D where "D = back_state K BT (cdiv len BT) qp kp W gt pp (start_state dht n)"
  define Y where "Y = (\<lambda>m. chunk_values K BT qp kp gt pp m (D (Suc m)))"
  define ds where "ds = (\<lambda>m. score_grad V (decay_between BT gt m) (chunk_view BT m pp) (X m))"
  define qi where "qi = (\<lambda>m. inter_grad V (decay_in BT gt m) (H m) (chunk_view BT m pp))"
  define ki where "ki = (\<lambda>m. inter_grad V (decay_out BT gt m) (D (Suc m)) (X m))"
  define wi where "wi = (\<lambda>m. inter_grad V (decay_in BT gt m) (H m) (Y m))"
  define Sw where "Sw = (\<lambda>m. chunk_solution BT (chunk_gram K BT kp bp m))"
  define Su where "Su = (\<lambda>m. chunk_solution BT (decayed_gram K BT kp bp gt m))"
  define dMw where "dMw = (\<lambda>m. solve_grad BT K (Sw m) (\<lambda>i d. - wi m i d) (chunk_view BT m W))"
  define dMu where "dMu = (\<lambda>m. solve_grad BT V (Su m) (Y m) (chunk_view BT m U))"
  define e where "e = (\<lambda>m i j. exp2 (gt (m * BT + i) - gt (m * BT + j)))"
  define G where "G = (\<lambda>m. gram_grad (dMw m) (dMu m) (e m))"
  define Q where "Q = (\<lambda>m i j. dMu m i j * e m i j * chunk_gram K BT kp bp m i j)"
  define Zw where "Zw = (\<lambda>m. back_rows BT (Sw m) (\<lambda>i d. - wi m i d))"
  define Zu where "Zu = (\<lambda>m. back_rows BT (Su m) (Y m))"
  have grads: "gr_q gr t d = chunk_dq BT (chunk_view BT (t div BT) kp) (qi (t div BT)) (ds (t div BT)) (t mod BT) d"
    "gr_k gr t d = chunk_dk BT (chunk_view BT (t div BT) qp) (ki (t div BT)) (ds (t div BT)) (t mod BT) d
      + wy_dk BT (chunk_view BT (t div BT) kp) (chunk_view BT (t div BT) bp) (Zw (t div BT)) (G (t div BT)) (t mod BT) d"
    "gr_v gr t d = Zu (t div BT) (t mod BT) d * chunk_view BT (t div BT) bp (t mod BT)"
    "gr_beta gr t = wy_db BT K V (chunk_view BT (t div BT) kp) (chunk_view BT (t div BT) vp) (Zw (t div BT)) (Zu (t div BT)) (G (t div BT)) (t mod BT)"
    "gr_gate gr t = chunk_dc BT K (chunk_view BT (t div BT) qp) (chunk_view BT (t div BT) kp) (chunk_view BT (t div BT) W)
         (qi (t div BT)) (ki (t div BT)) (wi (t div BT)) (ds (t div BT)) (t mod BT)
       + (if t + 1 = min ((t div BT + 1) * BT) len
          then last_dc BT K V (chunk_view BT (t div BT) kp) (ki (t div BT)) (H (t div BT)) (D (Suc (t div BT))) (decay_all BT gt (t div BT)) else 0)
       + wy_dc BT (Q (t div BT)) (t mod BT)"
    "gr_state gr = D 0" for t d
    by (simp_all only: gr sequence_grads_def Let_def seq_grads.simps gt_def W_def U_def H_def X_def pp_def qp_def kp_def vp_def bp_def
      D_def Y_def ds_def qi_def ki_def wi_def Sw_def Su_def dMw_def dMu_def e_def G_def Zw_def Zu_def Q_def)
  \<comment> \<open>the recomputed \<open>w\<close> and \<open>u\<close>\<close>
  have wu: "d < K \<Longrightarrow> w (bos + t) d = W t d" "e' < V \<Longrightarrow> u (bos + t) e' = U t e'" if t: "t < len" for t d e'
  proof -
    note r = recompute_seq [OF E(1) p(5,6) BT(2) plan t _ _ run1, where Bw = "Sw (t div BT)" and Bu = "Su (t div BT)", folded kp_def vp_def bp_def]
    have A: "j < BT \<Longrightarrow> Aw (bos + t) j = Sw (t div BT) (t mod BT) j" "j < BT \<Longrightarrow> Au (bos + t) j = Su (t div BT) (t mod BT) j" for j
      using Aw Au t by (simp_all add: Sw_def Su_def kp_def bp_def gt_def)
    show "d < K \<Longrightarrow> w (bos + t) d = W t d" using r(1) [OF A] by (simp add: W_def wy_w_def Sw_def)
    show "e' < V \<Longrightarrow> u (bos + t) e' = U t e'" using r(2) [OF A] by (simp add: U_def wy_u_def Su_def)
  qed
  have W0: "W t d = 0" "U t d = 0" if "len \<le> t" for t d
    unfolding W_def U_def kp_def vp_def bp_def by (rule wy_zero [OF BT(2) that])+
  have wr: "seq_rows bos len w t d = W t d" if "d < K" for t d
    using wu(1) [OF _ that] W0(1) by (simp add: pad_rows_def seq_view_def)
  have ur: "seq_rows bos len u t e' = U t e'" if "e' < V" for t e'
    using wu(2) [OF _ that] W0(2) by (simp add: pad_rows_def seq_view_def)
  \<comment> \<open>the recomputed states and new values\<close>
  have Hc: "h_states K BT kp (seq_rows bos len w) (seq_rows bos len u) gt (start_state init n) m r e' = H m r e'" if "e' < V" for m r e'
    unfolding H_def by (rule h_states_cong [where N = m]) (use wr ur that in auto)
  have h: "h (boh + m) r e' = H m r e'" if "m < cdiv len BT" "r < K" "e' < V" for m r e'
    using fwd_h_launch(1) [OF E(1) P g BT(2) p(1-4) run2 n that(3,1,2)] Hc [OF that(3)] by (simp add: kp_def gt_def)
  have vn: "vn (bos + t) e' = X (t div BT) (t mod BT) e'" if "t < len" "e' < V" for t e'
    using fwd_h_launch(2) [OF E(1) P g BT(2) p(1-4) run2 n that(2,1)] Hc [OF that(2)]
    by (simp add: kp_def gt_def X_def new_value_def wr ur [OF that(2)] cong: sum.cong_simp)
  have xn: "chunk_view BT m (seq_rows bos len vn) i e' = X m i e'" if "i < BT" "e' < V" for m i e'
  proof (rule padded_view [where x = vn and Z = X and e = e', OF BT(2) vn [OF _ that(2)] _ that(1)])
    show "X m i e' = 0" if "len \<le> m * BT + i" for i
      unfolding X_def W_def U_def kp_def vp_def bp_def by (rule new_value_outside [OF BT(2) that])
  qed assumption
  \<comment> \<open>the state gradients and the new values' gradients\<close>
  have Dc: "back_state K BT (cdiv len BT) qp kp (seq_rows bos len w) gt pp (start_state dht n) m d e' = D m d e'" if "d < K" for m d e'
    unfolding D_def by (rule back_state_cong [OF _ that]) (use wr in auto)
  have loc: "\<forall>t<len. dvl (bos + t) e' = local_values K BT qp kp gt pp (t div BT) (t mod BT) e'" if "e' < V" for e'
    using dv_local_launch [OF E(1) p(7,8) BT(2) plan lg dx gt_def _ that] by (simp add: run3 qp_def kp_def pp_def)
  note dhu = bwd_dhu_launch [OF E(1) P n lg BT(2) p(11,12,13,4) _ gt_def qp_def kp_def refl pp_def loc refl run4]
  have dh: "dh (boh + m) d e' = D (Suc m) d e'" if "m < cdiv len BT" "d < K" "e' < V" for m d e'
    using dhu(1) [OF that(3,3,1,2)] Dc [OF that(2)] by simp
  have dv2: "dv2 (bos + t) e' = Y (t div BT) (t mod BT) e'" if "t < len" "e' < V" for t e'
    using dhu(2) [OF that(2,2,1)] Dc by (simp add: Y_def chunk_values_split cong: sum.cong_simp)
  have yn: "chunk_view BT m (seq_rows bos len dv2) i e' = Y m i e'" if "i < BT" "e' < V" for m i e'
  proof (rule padded_view [where x = dv2 and Z = Y and e = e', OF BT(2) dv2 [OF _ that(2)] _ that(1)])
    show "Y m i e' = 0" if "len \<le> m * BT + i" for i unfolding Y_def kp_def by (rule chunk_values_outside [OF that])
  qed assumption
  \<comment> \<open>the kernel for queries, keys and \<open>w\<close>\<close>
  have qkw: "d < K \<Longrightarrow> dq (bos + t) d = gr_q gr t d"
    "d < K \<Longrightarrow> dk1 (bos + t) d = chunk_dk BT (chunk_view BT (t div BT) qp) (ki (t div BT)) (ds (t div BT)) (t mod BT) d"
    "d < K \<Longrightarrow> dw (bos + t) d = - wi (t div BT) (t mod BT) d"
    "(\<Sum>i<cdiv K B5. dgs i (bos + t)) + wy_dc BT (Q (t div BT)) (t mod BT) = gr_gate gr t" if t: "t < len" for t d
  proof -
    define m where "m = t div BT"
    have m: "m < cdiv len BT" using block_in_cdiv [OF BT(2) t] by (simp add: m_def)
    note v = dqkwg_grads [where D = "D (Suc m)" and S = "H m" and yn = "Y m" and xn = "X m" and wn = "chunk_view BT m W",
      OF E(1) p(9,10) BT(2) P n lg dx gt_def t m_def refl refl refl _ _ _ _ _ refl refl refl refl run5, folded qp_def kp_def pp_def]
    have S: "\<forall>i d. d < K \<longrightarrow> chunk_view BT m (seq_rows bos len w) i d = chunk_view BT m W i d"
      "\<forall>i e. i < BT \<longrightarrow> e < V \<longrightarrow> chunk_view BT m (seq_rows bos len vn) i e = X m i e"
      "\<forall>i e. i < BT \<longrightarrow> e < V \<longrightarrow> chunk_view BT m (seq_rows bos len dv2) i e = Y m i e"
      "\<forall>d e. d < K \<longrightarrow> e < V \<longrightarrow> h (boh + m) d e = H m d e" "\<forall>d e. d < K \<longrightarrow> e < V \<longrightarrow> dh (boh + m) d e = D (Suc m) d e"
      using m by (simp_all add: chunk_view_def wr xn [unfolded chunk_view_def] yn [unfolded chunk_view_def] h dh)
    show "d < K \<Longrightarrow> dq (bos + t) d = gr_q gr t d"
      using v(1) [OF S] by (simp only: grads ds_def qi_def m_def)
    show "d < K \<Longrightarrow> dk1 (bos + t) d = chunk_dk BT (chunk_view BT (t div BT) qp) (ki (t div BT)) (ds (t div BT)) (t mod BT) d"
      using v(2) [OF S] by (simp only: ds_def ki_def m_def)
    show "d < K \<Longrightarrow> dw (bos + t) d = - wi (t div BT) (t mod BT) d"
      using v(3) [OF S] by (simp only: wi_def m_def)
    show "(\<Sum>i<cdiv K B5. dgs i (bos + t)) + wy_dc BT (Q (t div BT)) (t mod BT) = gr_gate gr t"
      using v(4) [OF S] by (simp only: grads ds_def qi_def ki_def wi_def m_def)
  qed
  show "t < len \<Longrightarrow> d < K \<Longrightarrow> dq (bos + t) d = gr_q gr t d" by (rule qkw)
  \<comment> \<open>the gradients of the representation\<close>
  have dwn: "chunk_view BT m (seq_rows bos len dw) i d = - wi m i d" if "i < BT" "d < K" for m i d
  proof (rule padded_view [where x = dw and Z = "\<lambda>m i d. - wi m i d" and e = d, OF BT(2) qkw(3) [OF _ that(2)] _ that(1)])
    show "- wi m i d = 0" if "len \<le> m * BT + i" for i
      using chunk_values_outside [OF that] by (simp add: wi_def inter_grad_def Y_def kp_def)
  qed assumption
  have wy: "d < K \<Longrightarrow> dk2 (bos + t) d
        = wy_dk BT (chunk_view BT (t div BT) kp) (chunk_view BT (t div BT) bp) (Zw (t div BT)) (G (t div BT)) (t mod BT) d"
    "e' < V \<Longrightarrow> dv (bos + t) e' = gr_v gr t e'" "db (bos + t) = gr_beta gr t" "dg2 (bos + t) = wy_dc BT (Q (t div BT)) (t mod BT)"
    if t: "t < len" for t d e'
  proof -
    define m where "m = t div BT"
    define yw where "yw = chunk_view BT m (seq_rows bos len dw)"
    define yu where "yu = chunk_view BT m (seq_rows bos len dv2)"
    have y: "\<forall>i c. i < BT \<longrightarrow> c < K \<longrightarrow> yw i c = - wi m i c" "\<forall>i c. i < BT \<longrightarrow> c < V \<longrightarrow> yu i c = Y m i c"
      by (simp_all add: yw_def dwn yu_def yn)
    note z = solve_grads_cong(1) [OF y(1), of _ "Sw m", folded fun_cong [OF Zw_def]] solve_grads_cong(1) [OF y(2), of _ "Su m", folded fun_cong [OF Zu_def]]
    have dM: "dMw m = solve_grad BT K (Sw m) yw (chunk_view BT m W)" "dMu m = solve_grad BT V (Su m) yu (chunk_view BT m U)"
      by (simp_all add: dMw_def dMu_def solve_grads_cong(2) [OF y(1)] solve_grads_cong(2) [OF y(2)])
    have A: "\<forall>t j. t < len \<longrightarrow> t div BT = m \<longrightarrow> j < BT \<longrightarrow> Aw (bos + t) j = Sw m (t mod BT) j"
      "\<forall>t j. t < len \<longrightarrow> t div BT = m \<longrightarrow> j < BT \<longrightarrow> Au (bos + t) j = Su m (t mod BT) j"
      using Aw Au by (auto simp: Sw_def Su_def kp_def bp_def gt_def)
    note v = bwd_prepare_seq [OF E BT off ixs NT run6 lg neg plan t m_def kp_def vp_def bp_def gt_def yw_def yu_def
      fun_cong [OF Sw_def] fun_cong [OF Su_def] A dM(1) [unfolded W_def] dM(2) [unfolded U_def]
      fun_cong [OF e_def] fun_cong [OF G_def] fun_cong [OF Q_def] refl refl]
    show "d < K \<Longrightarrow> dk2 (bos + t) d
        = wy_dk BT (chunk_view BT (t div BT) kp) (chunk_view BT (t div BT) bp) (Zw (t div BT)) (G (t div BT)) (t mod BT) d"
      using v(1) by (simp add: wy_dk_def z m_def [symmetric])
    show "e' < V \<Longrightarrow> dv (bos + t) e' = gr_v gr t e'" using v(2) by (simp add: grads z m_def [symmetric])
    show "db (bos + t) = gr_beta gr t" using v(3) by (simp add: grads wy_db_def z m_def [symmetric] cong: sum.cong_simp)
    show "dg2 (bos + t) = wy_dc BT (Q (t div BT)) (t mod BT)" using v(4) by (simp add: m_def [symmetric])
  qed
  show "t < len \<Longrightarrow> d < K \<Longrightarrow> dk1 (bos + t) d + dk2 (bos + t) d = gr_k gr t d" by (simp only: qkw wy grads)
  show "t < len \<Longrightarrow> e' < V \<Longrightarrow> dv (bos + t) e' = gr_v gr t e'" by (rule wy)
  show "t < len \<Longrightarrow> db (bos + t) = gr_beta gr t" by (rule wy)
  show "t < len \<Longrightarrow> (\<Sum>i<cdiv K B5. dgs i (bos + t)) + dg2 (bos + t) = gr_gate gr t" by (simp only: wy(4) qkw(4))
  show "d < K \<Longrightarrow> e' < V \<Longrightarrow> dh0 = Some x \<Longrightarrow> x n d e' = gr_state gr d e'"
    using dhu(3) Dc by (simp add: grads)
qed

section \<open>The backward pass on packed sequences\<close>

text \<open>What \<open>fla.ops.utils.chunk_local_cumsum\<close> documents for \<open>reverse=True\<close>: sums from a row to the end of its chunk.\<close>

definition revcumsum_spec :: "fla_env \<Rightarrow> bool" where
  "revcumsum_spec F \<longleftrightarrow>
     (\<forall>T g. \<forall>t < T. chunk_local_revcumsum F 64 None T g t = rev_chunk_sum 64 T g t) \<and>
     (\<forall>os T g n. \<forall>t < os ! (n + 1) - os ! n. sorted_wrt (<) os \<and> n + 1 < length os \<longrightarrow>
        chunk_local_revcumsum F 64 (Some os) T g (os ! n + t) = rev_chunk_sum 64 (os ! (n + 1) - os ! n) (seq_view (os ! n) g) t)"

lemma revcumsum_rows:
  assumes F: "revcumsum_spec F" and ok: "offsets_ok offsets T" and n: "n < seq_count offsets" "seq_span offsets T n = (bos, len)"
    and BT: "BT = 64 \<or> len \<le> BT" "0 < BT" "BT \<le> 64" and t: "t < len"
  shows "chunk_local_revcumsum F 64 offsets T g (bos + t) = rev_chunk_sum BT len (seq_view bos g) t"
proof -
  have "chunk_local_revcumsum F 64 offsets T g (bos + t) = rev_chunk_sum 64 len (seq_view bos g) t"
  proof (cases offsets)
    case None
    then show ?thesis using F n t by (simp add: revcumsum_spec_def seq_span_def seq_view_def)
  next
    case (Some os)
    then show ?thesis using F n t ok by (auto simp: revcumsum_spec_def seq_span_def seq_count_def offsets_ok_def)
  qed
  also have "rev_chunk_sum 64 len (seq_view bos g) t = rev_chunk_sum BT len (seq_view bos g) t"
    using BT t by (auto simp: rev_chunk_sum_def min_def)
  finally show ?thesis .
qed

lemma forward_saves:
  assumes "FlaFunction_forward F offsets T K V q k v g beta scale init ofs = Inr (out, fs, ctx)"
  shows "\<exists>w u. fla_fwd_prepare_wy_repr F offsets (map_option (\<lambda>os. chunk_indices os 64) offsets) 64 T K V k v
      (chunk_local_cumsum F 64 offsets T g) beta = Inr (w, u, saved_Aw ctx, saved_Au ctx)"
    and "saved_g ctx = chunk_local_cumsum F 64 offsets T g" and "saved_indices ctx = map_option (\<lambda>os. chunk_indices os 64) offsets"
    and "ctx_chunk_size ctx = 64" and "ctx_scale ctx = scale"
  using assms by (auto simp: FlaFunction_forward_def fla_chunk_gated_delta_rule_fwd_def Let_def rbind_eq_Inr)

lemma fla_backward_rows:
  assumes F: "fla_env_ok F" "revcumsum_spec F" and K: "0 < K" "next_pow2 (base F) K \<le> 256" and ok: "offsets_ok offsets T"
    and neg: "\<forall>t < T. g t \<le> 0"
    and fwd: "FlaFunction_forward F offsets T K V q k v g beta scale init ofs = Inr (out, fs, ctx)"
  shows "\<exists>dq dk dv dg db dh0 BT. 0 < BT \<and>
    FlaFunction_backward F offsets T K V q k v beta init ctx d_o dht = Inr (dq, dk, dv, dg, db, dh0) \<and> (dh0 = None \<longleftrightarrow> init = None) \<and>
    (\<forall>n < seq_count offsets. \<forall>bos len gr. seq_span offsets T n = (bos, len) \<longrightarrow>
      gr = sequence_grads (base F) K V BT len scale (seq_view bos q) (seq_view bos k) (seq_view bos v) (seq_view bos beta) (seq_view bos g)
        (start_state init n) (seq_view bos d_o) (start_state dht n) \<longrightarrow>
      (\<forall>t < len. (\<forall>d < K. dq (bos + t) d = gr_q gr t d \<and> dk (bos + t) d = gr_k gr t d) \<and> (\<forall>e < V. dv (bos + t) e = gr_v gr t e) \<and>
        db (bos + t) = gr_beta gr t \<and> dg (bos + t) = rev_chunk_sum BT len (gr_gate gr) t) \<and>
      (\<forall>x. dh0 = Some x \<longrightarrow> (\<forall>d < K. \<forall>e < V. x n d e = gr_state gr d e)))"
proof -
  have E: "exact_casts (base F)" "pow2_spec (base F)" "safe_exp_spec F" "cumsum_spec F" "0 < tuned_bk F" "0 < tuned_bv F"
    using F(1) by (simp_all add: fla_env_ok_def)
  define BT where "BT = chunk_block F 64 T"
  define co where "co = (case offsets of None \<Rightarrow> [] | Some os \<Rightarrow> prepare_varlen_inputs os BT)"
  define ixs where "ixs = (case offsets of None \<Rightarrow> [] | Some os \<Rightarrow> chunk_indices os 64)"
  define N where "N = seq_count offsets"
  define NT where "NT = (case offsets of None \<Rightarrow> cdiv T BT | Some os \<Rightarrow> length ixs)"
  define c where "c = chunk_local_cumsum F 64 offsets T g"
  define ind where "ind = map_option (\<lambda>os. chunk_indices os 64) offsets"
  define Aw where "Aw = saved_Aw ctx"
  define Au where "Au = saved_Au ctx"
  let ?sq = "sequence_of offsets co T" and ?pc = "program_chunk offsets ixs T"
  note call = packed_call [OF E(2,4) ok neg BT_def co_def ixs_def NT_def, folded N_def c_def]
  obtain x where x: "BT = 2 ^ x" "BT = 64 \<or> BT \<le> 32" using call(1,2) by blast
  note bt = call(3) and P = call(4) and sq = call(5) and gate_n = call(6) and neg_n = call(7) and short = call(8)
  have BT2: "BT = chunk_block F BT T" by (simp add: BT_def chunk_block_def)
  have ind: "ixs = (case ind of None \<Rightarrow> [] | Some ixs \<Rightarrow> ixs)" "\<not> (offsets \<noteq> None \<and> ind = None)" "offsets \<noteq> None \<longrightarrow> ind \<noteq> None"
    by (auto simp: ixs_def ind_def split: option.split)
  note saves = forward_saves [OF fwd, folded c_def ind_def Aw_def Au_def]
  obtain w0 u0 where wy: "fla_fwd_prepare_wy_repr F offsets ind 64 T K V k v c beta = Inr (w0, u0, Aw, Au)" using saves(1) by blast
  note rows = fla_prepare_seq [OF E(1-3) BT_def x(2) bt NT_def wy ind(1)]
  let ?BK = "next_pow2 (base F) K"
  have KB: "K \<le> ?BK" using E(2) by (simp add: pow2_spec_def)
  have NK: "cdiv K ?BK = 1" by (rule cdiv_one [OF K(1) KB])
  have Ncase: "(case offsets of None \<Rightarrow> 1 | Some os \<Rightarrow> length os - 1) = N" by (simp add: N_def seq_count_def)
  have blocks: "0 < min (next_pow2 (base F) n) 64" "0 < min (next_pow2 (base F) n) 128" for n using pow2_block [OF E(2), of n] by auto
  \<comment> \<open>the block sizes of the two state kernels\<close>
  obtain BV BC0 where sel: "(if fst (capability F) \<ge> 9 then (64, 64) else if capability F = (8, 0) then (32, 64)
      else (32, if K \<le> 128 then 64 else 32)) = (BV :: nat, BC0 :: nat)" by (rule prod.exhaust)
  obtain BV' BC0' where sel': "(if fst (capability F) \<ge> 9 then (64, 64) else if capability F = (8, 0) then (32, if K \<le> 128 then 64 else 32)
      else (32, if K \<le> 128 then 64 else 32)) = (BV' :: nat, BC0' :: nat)" by (rule prod.exhaust)
  have BC: "BC0 = 2 ^ 6 \<or> BC0 = 2 ^ 5" "0 < BC0" "0 < BV" "BC0' = 2 ^ 6 \<or> BC0' = 2 ^ 5" "0 < BC0'" "0 < BV'"
    using sel sel' by (auto split: if_splits)
  have "min BT BC0 dvd BT" "min BT BC0' dvd BT" using two_power_dvd_min [OF x(1)] BC(1,4) by metis+
  then have blk: "0 < min BT BC0" "min BT BC0 dvd BT" "0 < BV" "0 < min BT BC0'" "min BT BC0' dvd BT" "0 < BV'" using bt BC by simp_all
  \<comment> \<open>the launches, in order\<close>
  obtain w u where wu: "fla_fwd_recompute_w_u F offsets ind BT T K V k v beta Aw Au = (w, u)" by (rule prod.exhaust)
  have ixs': "(case offsets of None \<Rightarrow> [] | Some os \<Rightarrow> (case ind of None \<Rightarrow> chunk_indices os BT | Some ixs \<Rightarrow> ixs)) = ixs"
    by (simp add: ixs_def ind_def split: option.split)
  have run1: "(w, u) = for_loop NT (fla_fwd_recompute_w_u_kernel F offsets ixs T K V BT (min (next_pow2 (base F) K) 64)
      (min (next_pow2 (base F) V) 64) k v beta Aw Au) (uninit (base F), uninit (base F))"
    using wu [symmetric] unfolding fla_fwd_recompute_w_u_def Let_def BT2 [symmetric] ixs' NT_def [symmetric] .
  let ?s2 = "((\<lambda>n :: nat. uninit (base F)), uninit (base F), None :: (nat \<Rightarrow> mat) option)"
  obtain h vn hts where run2: "for_loop (cdiv V BV) (\<lambda>i_v. for_loop N (\<lambda>i_n.
      fla_fwd_kernel_h F offsets co T K V BT (min BT BC0) ?BK BV k u w (Some c) init 0 i_v i_n)) ?s2 = (h, vn, hts)" by (rule prod_cases3)
  have fh: "fla_fwd_h F offsets BT T K V k w u (Some c) init False = Inr (h, vn, hts)"
    using K(2) run2 unfolding fla_fwd_h_def Let_def BT2 [symmetric] co_def [symmetric] Ncase NK sel prod.case by simp
  define dvl where "dvl = for_loop NT (fla_chunk_bwd_kernel_dv_local F offsets ixs scale T K V BT (min (next_pow2 (base F) K) 128)
      (min (next_pow2 (base F) V) 128) q k (Some c) d_o) (uninit (base F))"
  have fdv: "fla_chunk_bwd_dv_local F offsets ind scale BT T K V q k (Some c) d_o = Inr dvl"
    unfolding fla_chunk_bwd_dv_local_def if_not_P [OF ind(2)] Let_def BT2 [symmetric] ind(1) [symmetric] NT_def [symmetric] dvl_def ..
  let ?s4 = "((\<lambda>n :: nat. uninit (base F)), uninit (base F), map_option (\<lambda>_ n :: nat. uninit (base F)) init)"
  obtain dh dv2 dh0 where run4: "for_loop (cdiv V BV') (\<lambda>i_v. for_loop N (\<lambda>i_n.
      fla_bwd_kernel_dhu F offsets co scale T K V BT (min BT BC0') ?BK BV' q k w (Some c) dht d_o dvl 0 i_v i_n)) ?s4 = (dh, dv2, dh0)"
    by (rule prod_cases3)
  have fdh: "fla_bwd_dhu F offsets scale BT T K V q k w (Some c) init dht d_o dvl = Inr (dh, dh0, dv2)"
    using K(2) run4 unfolding fla_bwd_dhu_def Let_def BT2 [symmetric] co_def [symmetric] Ncase NK sel' prod.case by simp
  let ?B5 = "min (next_pow2 (base F) K) 64" and ?B6 = "min (next_pow2 (base F) V) 64"
  let ?s5 = "(uninit (base F), uninit (base F), \<lambda>n t. uninit (base F) n t, uninit (base F))"
  obtain dq dk1 dgs dw where run5: "for_loop (cdiv K ?B5) (\<lambda>i_k. for_loop NT (\<lambda>i_t.
      fla_chunk_bwd_kernel_dqkwg F offsets ixs scale T K V BT ?B5 ?B6 q k vn h (Some c) d_o dh (Some (w, dv2)) i_k i_t)) ?s5 = (dq, dk1, dgs, dw)"
    by (rule prod_cases4)
  have fdq: "fla_chunk_bwd_dqkwg F offsets ind scale BT T K V q k vn h (Some c) d_o dh (Some (w, dv2))
      = Inr (dq, dk1, Some dw, Some (\<lambda>t. \<Sum>n<cdiv K ?B5. dgs n t))"
    unfolding fla_chunk_bwd_dqkwg_def if_not_P [OF ind(2)] Let_def BT2 [symmetric] ind(1) [symmetric] NT_def [symmetric] run5 by simp
  obtain dk2 dv db dg2 where run6: "fla_bwd_prepare_wy_repr F offsets ind BT T K V k v c beta Aw Au dw dv2 = (dk2, dv, db, dg2)"
    by (rule prod_cases4)
  let ?dg = "\<lambda>t. (\<Sum>n<cdiv K ?B5. dgs n t) + dg2 t"
  have casts: "mcast (to_in (base F)) X = X" "to_in (base F) y = y" "to_f32 (base F) y = y" for X y
    using E(1) by (simp_all add: exact_casts_def mcast_def)
  have bwd: "FlaFunction_backward F offsets T K V q k v beta init ctx d_o dht
      = Inr (dq, madd dk1 dk2, dv, chunk_local_revcumsum F 64 offsets T ?dg, db, dh0)"
    unfolding FlaFunction_backward_def fla_chunk_gated_delta_rule_bwd_def Let_def saves(2-5) BT_def [symmetric] Aw_def [symmetric]
      Au_def [symmetric] wu prod.case fh rbind_Inr fdv fdh fdq option.case run6 casts by (simp add: casts)
  have gates: "\<forall>n bos len boh. n < N \<longrightarrow> ?sq n = (bos, len, boh) \<longrightarrow>
      local_gate BT len ((\<lambda>n. seq_view (fst (seq_span offsets T n)) g) n) (seq_view bos c)"
    using gate_n sq by simp
  have none: "dh0 = None \<longleftrightarrow> init = None"
  proof -
    have "(snd (snd (for_loop (cdiv V BV') (\<lambda>i_v. for_loop N (\<lambda>i_n.
      fla_bwd_kernel_dhu F offsets co scale T K V BT (min BT BC0') ?BK BV' q k w (Some c) dht d_o dvl 0 i_v i_n)) ?s4)) = None) = (snd (snd ?s4) = None)"
    proof (intro for_loop_keep [where get = "\<lambda>s. snd (snd s) = None"])
      fix v n' s
      obtain b l o' where s': "?sq n' = (b, l, o')" by (rule prod_cases3)
      show "(snd (snd (fla_bwd_kernel_dhu F offsets co scale T K V BT (min BT BC0') ?BK BV' q k w (Some c) dht d_o dvl 0 v n' s)) = None)
          = (snd (snd s) = None)" by (rule dhu_kernel_keep(4) [OF blk(6) s' refl])
    qed
    then show ?thesis by (simp add: run4)
  qed
  have each: "(\<forall>t < len. (\<forall>d < K. dq (bos + t) d = gr_q gr t d \<and> madd dk1 dk2 (bos + t) d = gr_k gr t d) \<and>
        (\<forall>e < V. dv (bos + t) e = gr_v gr t e) \<and> db (bos + t) = gr_beta gr t \<and>
        chunk_local_revcumsum F 64 offsets T ?dg (bos + t) = rev_chunk_sum BT len (gr_gate gr) t) \<and>
      (\<forall>x. dh0 = Some x \<longrightarrow> (\<forall>d < K. \<forall>e < V. x n d e = gr_state gr d e))"
    if n: "n < N" and span: "seq_span offsets T n = (bos, len)"
      and gr: "gr = sequence_grads (base F) K V BT len scale (seq_view bos q) (seq_view bos k) (seq_view bos v) (seq_view bos beta) (seq_view bos g)
        (start_state init n) (seq_view bos d_o) (start_state dht n)" for n bos len gr
  proof -
    define boh where "boh = snd (snd (?sq n))"
    have sqn: "?sq n = (bos, len, boh)" using span sq boh_def by blast
    note lg = gate_n [OF n span] and ng = neg_n [OF n span]
    have plan: "launch_plan BT offsets ixs T NT bos len" by (rule packs_plan [OF P bt n sqn])
    have view: "fst (seq_span offsets T n) = bos" by (simp add: span)
    have A: "\<forall>t<len. \<forall>j<BT. Aw (bos + t) j = chunk_solution BT (chunk_gram K BT (seq_rows bos len k) (seq_vec bos len beta) (t div BT)) (t mod BT) j"
      "\<forall>t<len. \<forall>j<BT. Au (bos + t) j = chunk_solution BT (decayed_gram K BT (seq_rows bos len k) (seq_vec bos len beta)
        (gate (base F) BT len (seq_view bos g)) (t div BT)) (t mod BT) j"
      using rows(3,4) [OF lg ng plan] by blast+
    note b = backward_sequence [where ?g0.0 = "\<lambda>n. seq_view (fst (seq_span offsets T n)) g", OF E(1-3) BT2 bt ind(3,1) NT_def P n sqn gates _
      blk(1-3) KB blocks(1,1,2,2,1,1) blk(4-6) _ _ run1 run2 dvl_def run4 run5 run6, unfolded view, OF ng A gr]
    have "chunk_local_revcumsum F 64 offsets T ?dg (bos + t) = rev_chunk_sum BT len (gr_gate gr) t" if t: "t < len" for t
    proof -
      have "chunk_local_revcumsum F 64 offsets T ?dg (bos + t) = rev_chunk_sum BT len (seq_view bos ?dg) t"
        using n t short [OF n span] call(9) by (intro revcumsum_rows [OF F(2) ok _ span _ bt]) (simp_all add: N_def)
      also have "\<dots> = rev_chunk_sum BT len (gr_gate gr) t"
        unfolding rev_chunk_sum_def by (intro sum.cong refl) (simp add: seq_view_def b(5))
      finally show ?thesis .
    qed
    then show ?thesis using b(1-4,6) by (simp add: madd_def)
  qed
  show ?thesis
    by (intro exI conjI, rule bt, rule bwd, rule none) (intro allI impI, rule each, simp add: N_def, assumption+)
qed

section \<open>The backward pass is the derivative of the forward pass\<close>

text \<open>
  The loss a caller differentiates: the upstream gradients \<open>d_o\<close> and \<open>dht\<close>, taken as constants, times the
  outputs and final states the forward pass returns.
\<close>

definition forward_loss ::
  "fla_env \<Rightarrow> nat list option \<Rightarrow> nat \<Rightarrow> nat \<Rightarrow> nat \<Rightarrow> mat \<Rightarrow> mat \<Rightarrow> mat \<Rightarrow> vec \<Rightarrow> vec \<Rightarrow> real \<Rightarrow> (nat \<Rightarrow> mat) option \<Rightarrow> bool
     \<Rightarrow> mat \<Rightarrow> (nat \<Rightarrow> mat) option \<Rightarrow> real" where
  "forward_loss F offsets T K V q k v g beta scale init ofs d_o dht =
     (case FlaFunction_forward F offsets T K V q k v g beta scale init ofs of
        Inl err \<Rightarrow> 0
      | Inr (out, fs, ctx) \<Rightarrow> (\<Sum>n < seq_count offsets. (let (bos, len) = seq_span offsets T n
          in (\<Sum>t<len. \<Sum>e<V. d_o (bos + t) e * out (bos + t) e)
             + (\<Sum>d<K. \<Sum>e<V. start_state dht n d e * start_state fs n d e))))"

text \<open>The returned gradients against a direction in which the inputs move.\<close>

definition gradient_pairing ::
  "nat list option \<Rightarrow> nat \<Rightarrow> nat \<Rightarrow> nat \<Rightarrow> mat \<times> mat \<times> mat \<times> vec \<times> vec \<times> (nat \<Rightarrow> mat) option
     \<Rightarrow> mat \<times> mat \<times> mat \<times> vec \<times> vec \<times> (nat \<Rightarrow> mat) option \<Rightarrow> real" where
  "gradient_pairing offsets T K V = (\<lambda>(dq, dk, dv, dg, db, dh0) (q', k', v', g', b', h').
     (\<Sum>n < seq_count offsets. (let (bos, len) = seq_span offsets T n
      in (\<Sum>t<len. (\<Sum>d<K. dq (bos + t) d * q' (bos + t) d) + (\<Sum>d<K. dk (bos + t) d * k' (bos + t) d)
            + (\<Sum>e<V. dv (bos + t) e * v' (bos + t) e) + db (bos + t) * b' (bos + t) + dg (bos + t) * g' (bos + t))
         + (\<Sum>d<K. \<Sum>e<V. start_state dh0 n d e * start_state h' n d e))))"

lemma forward_loss_sequences:
  assumes F: "fla_env_ok F" and K: "0 < K" "next_pow2 (base F) K \<le> 256" and ok: "offsets_ok offsets T" and neg: "\<forall>t < T. g t \<le> 0"
    and ofs: "dht \<noteq> None \<longrightarrow> ofs"
  shows "forward_loss F offsets T K V q k v g beta scale init ofs d_o dht = (\<Sum>n < seq_count offsets. (let (bos, len) = seq_span offsets T n
    in sequence_loss K V len scale (seq_view bos q) (seq_view bos k) (seq_view bos v) (seq_view bos beta) (seq_view bos g)
      (start_state init n) (seq_view bos d_o) (start_state dht n)))"
proof -
  obtain out fs ctx where run: "FlaFunction_forward F offsets T K V q k v g beta scale init ofs = Inr (out, fs, ctx)"
    and fs: "fs = None \<longleftrightarrow> \<not> ofs"
    and rows: "\<forall>n < seq_count offsets. \<forall>bos len. seq_span offsets T n = (bos, len) \<longrightarrow>
      (\<forall>t < len. \<forall>e < V. out (bos + t) e = (\<Sum>d<K. q (bos + t) d * scale * delta_states K (\<lambda>i. exp (g (bos + i)))
         (seq_view bos k) (seq_view bos v) (seq_view bos beta) (start_state init n) (Suc t) d e)) \<and>
      (\<forall>ht. fs = Some ht \<longrightarrow> (\<forall>r < K. \<forall>e < V. ht n r e = delta_states K (\<lambda>i. exp (g (bos + i)))
         (seq_view bos k) (seq_view bos v) (seq_view bos beta) (start_state init n) len r e))"
    using fla_forward_rows [OF F K ok neg, where V = V and q = q and k = k and v = v and beta = beta and scale = scale
        and init = init and ofs = ofs] by blast
  have "(\<Sum>t<len. \<Sum>e<V. d_o (bos + t) e * out (bos + t) e) + (\<Sum>d<K. \<Sum>e<V. start_state dht n d e * start_state fs n d e)
      = sequence_loss K V len scale (seq_view bos q) (seq_view bos k) (seq_view bos v) (seq_view bos beta) (seq_view bos g)
          (start_state init n) (seq_view bos d_o) (start_state dht n)"
    if n: "n < seq_count offsets" and span: "seq_span offsets T n = (bos, len)" for n bos len
  proof -
    let ?D = "delta_states K (\<lambda>i. exp (g (bos + i))) (seq_view bos k) (seq_view bos v) (seq_view bos beta) (start_state init n)"
    have out: "out (bos + t) e = (\<Sum>d<K. q (bos + t) d * scale * ?D (Suc t) d e)" if "t < len" "e < V" for t e
      using rows n span that by blast
    have fin: "start_state dht n d e * start_state fs n d e = start_state dht n d e * ?D len d e" if "d < K" "e < V" for d e
    proof (cases fs)
      case None
      then show ?thesis using fs ofs by (auto simp: start_state_def zero_tile_def)
    next
      case (Some ht)
      then have "ht n d e = ?D len d e" using rows n span that by blast
      then show ?thesis by (simp add: Some start_state_def)
    qed
    show ?thesis by (simp add: sequence_loss_def Let_def recurrent_loop_states seq_view_def [of _ q] seq_view_def [of _ g] seq_view_def [of _ d_o] out fin)
  qed
  then show ?thesis by (simp add: forward_loss_def run Let_def split_def cong: sum.cong_simp)
qed

text \<open>The derivative of one sequence's loss, with the returned gradients in place of the specified ones.\<close>

lemma sequence_derivative:
  fixes q k v S0 :: "real \<Rightarrow> mat" and b g :: "real \<Rightarrow> vec"
  assumes E: "exact_casts E" and BT: "0 < BT"
    and curves: "curve q q'" "curve k k'" "curve v v'" "curve1 b b'" "curve1 g g'" "curve S0 S0'"
    and gr: "gr = sequence_grads E K V BT len scale (q 0) (k 0) (v 0) (b 0) (g 0) (S0 0) d_o dht"
    and rows: "\<forall>t < len. (\<forall>d < K. dq t d = gr_q gr t d \<and> dk t d = gr_k gr t d) \<and> (\<forall>e < V. dv t e = gr_v gr t e) \<and>
      db t = gr_beta gr t \<and> dg t = rev_chunk_sum BT len (gr_gate gr) t"
    and state: "(\<Sum>d<K. \<Sum>e<V. dS d e * S0' d e) = (\<Sum>d<K. \<Sum>e<V. gr_state gr d e * S0' d e)"
  shows "((\<lambda>s. sequence_loss K V len scale (q s) (k s) (v s) (b s) (g s) (S0 s) d_o dht) has_real_derivative
      (\<Sum>t<len. (\<Sum>d<K. dq t d * q' t d) + (\<Sum>d<K. dk t d * k' t d) + (\<Sum>e<V. dv t e * v' t e) + db t * b' t + dg t * g' t)
      + (\<Sum>d<K. \<Sum>e<V. dS d e * S0' d e)) (at 0)"
proof -
  have "(\<Sum>t<len. (\<Sum>d<K. gr_q gr t d * q' t d) + (\<Sum>d<K. gr_k gr t d * k' t d) + (\<Sum>e<V. gr_v gr t e * v' t e)
      + gr_beta gr t * b' t + rev_chunk_sum BT len (gr_gate gr) t * g' t)
    = (\<Sum>t<len. (\<Sum>d<K. dq t d * q' t d) + (\<Sum>d<K. dk t d * k' t d) + (\<Sum>e<V. dv t e * v' t e) + db t * b' t + dg t * g' t)"
    using rows by (intro sum.cong refl arg_cong2 [where f = "(+)"]) simp_all
  then show ?thesis using sequence_grads_correct [OF E BT curves gr] by (simp only: state add.commute)
qed

lemma curve_seq: "curve f f' \<Longrightarrow> curve (\<lambda>s. seq_view bos (f s)) (seq_view bos f')"
  and curve1_seq: "curve1 g g' \<Longrightarrow> curve1 (\<lambda>s. seq_view bos (g s)) (seq_view bos g')"
  by (simp_all add: curve_def curve1_def seq_view_def)

text \<open>C3: The variable-length backward pass is the derivative of the forward pass.  For a head dimension whose
  next power of two is at most 256 and strictly increasing sequence offsets, move queries, keys, values,
  write strengths, log decays and initial states along any differentiable curves on which the log
  decays stay at most zero.  Then \<open>ChunkGatedDeltaRuleFunction.forward\<close> and \<open>backward\<close> of \<open>chunk_fla.py\<close> both
  return, a state gradient comes back exactly when there was an initial state, and the derivative
  of the outputs and final states, weighted by the upstream gradients \<open>d_o\<close> and \<open>dht\<close>, is the sum over
  all packed sequences of the returned gradients times the speeds of the inputs.\<close>

theorem fla_backward_is_gradient:
  fixes q k v :: "real \<Rightarrow> mat" and beta g :: "real \<Rightarrow> vec" and init :: "real \<Rightarrow> (nat \<Rightarrow> mat) option"
  assumes F: "fla_env_ok F" "revcumsum_spec F" and K: "0 < K" "next_pow2 (base F) K \<le> 256" and ok: "offsets_ok offsets T"
    and neg: "\<forall>s. \<forall>t < T. g s t \<le> 0" and ofs: "dht \<noteq> None \<longrightarrow> ofs"
    and curves: "curve q q'" "curve k k'" "curve v v'" "curve1 beta beta'" "curve1 g g'"
    and init: "\<forall>n. curve (\<lambda>s. start_state (init s) n) (start_state init' n)" "init 0 = None \<longleftrightarrow> init' = None"
  shows "\<exists>out fs ctx dq dk dv dg db dh0.
    FlaFunction_forward F offsets T K V (q 0) (k 0) (v 0) (g 0) (beta 0) scale (init 0) ofs = Inr (out, fs, ctx) \<and>
    FlaFunction_backward F offsets T K V (q 0) (k 0) (v 0) (beta 0) (init 0) ctx d_o dht = Inr (dq, dk, dv, dg, db, dh0) \<and>
    (dh0 = None \<longleftrightarrow> init 0 = None) \<and>
    ((\<lambda>s. forward_loss F offsets T K V (q s) (k s) (v s) (g s) (beta s) scale (init s) ofs d_o dht) has_real_derivative
      gradient_pairing offsets T K V (dq, dk, dv, dg, db, dh0) (q', k', v', g', beta', init')) (at 0)"
proof -
  have E: "exact_casts (base F)" using F(1) by (simp add: fla_env_ok_def)
  have neg0: "\<forall>t < T. g 0 t \<le> 0" using neg by blast
  obtain out fs ctx where fwd: "FlaFunction_forward F offsets T K V (q 0) (k 0) (v 0) (g 0) (beta 0) scale (init 0) ofs = Inr (out, fs, ctx)"
    using fla_forward_rows [OF F(1) K ok neg0, where V = V and q = "q 0" and k = "k 0" and v = "v 0" and beta = "beta 0" and scale = scale
        and init = "init 0" and ofs = ofs] by (elim exE conjE) (rule that)
  obtain dq dk dv dg db dh0 BT where BT: "0 < BT"
    and bwd: "FlaFunction_backward F offsets T K V (q 0) (k 0) (v 0) (beta 0) (init 0) ctx d_o dht = Inr (dq, dk, dv, dg, db, dh0)"
    and none: "dh0 = None \<longleftrightarrow> init 0 = None"
    and rows: "\<forall>n < seq_count offsets. \<forall>bos len gr. seq_span offsets T n = (bos, len) \<longrightarrow>
      gr = sequence_grads (base F) K V BT len scale (seq_view bos (q 0)) (seq_view bos (k 0)) (seq_view bos (v 0)) (seq_view bos (beta 0))
        (seq_view bos (g 0)) (start_state (init 0) n) (seq_view bos d_o) (start_state dht n) \<longrightarrow>
      (\<forall>t < len. (\<forall>d < K. dq (bos + t) d = gr_q gr t d \<and> dk (bos + t) d = gr_k gr t d) \<and> (\<forall>e < V. dv (bos + t) e = gr_v gr t e) \<and>
        db (bos + t) = gr_beta gr t \<and> dg (bos + t) = rev_chunk_sum BT len (gr_gate gr) t) \<and>
      (\<forall>x. dh0 = Some x \<longrightarrow> (\<forall>d < K. \<forall>e < V. x n d e = gr_state gr d e))"
    using fla_backward_rows [OF F K ok neg0 fwd, where d_o = d_o and dht = dht] by (elim exE conjE) (rule that)
  let ?loss = "\<lambda>n s. let (bos, len) = seq_span offsets T n
    in sequence_loss K V len scale (seq_view bos (q s)) (seq_view bos (k s)) (seq_view bos (v s)) (seq_view bos (beta s)) (seq_view bos (g s))
      (start_state (init s) n) (seq_view bos d_o) (start_state dht n)"
  let ?pair = "\<lambda>n. let (bos, len) = seq_span offsets T n
      in (\<Sum>t<len. (\<Sum>d<K. dq (bos + t) d * q' (bos + t) d) + (\<Sum>d<K. dk (bos + t) d * k' (bos + t) d)
            + (\<Sum>e<V. dv (bos + t) e * v' (bos + t) e) + db (bos + t) * beta' (bos + t) + dg (bos + t) * g' (bos + t))
         + (\<Sum>d<K. \<Sum>e<V. start_state dh0 n d e * start_state init' n d e)"
  have each: "(?loss n has_real_derivative ?pair n) (at 0)" if n: "n < seq_count offsets" for n
  proof -
    obtain bos len where span: "seq_span offsets T n = (bos, len)" by (rule prod.exhaust)
    define gr where "gr = sequence_grads (base F) K V BT len scale (seq_view bos (q 0)) (seq_view bos (k 0)) (seq_view bos (v 0))
      (seq_view bos (beta 0)) (seq_view bos (g 0)) (start_state (init 0) n) (seq_view bos d_o) (start_state dht n)"
    note r = rows [rule_format, OF n span gr_def]
    have state: "(\<Sum>d<K. \<Sum>e<V. start_state dh0 n d e * start_state init' n d e) = (\<Sum>d<K. \<Sum>e<V. gr_state gr d e * start_state init' n d e)"
    proof (cases dh0)
      case None
      then show ?thesis using none init(2) by (simp add: start_state_def zero_tile_def)
    next
      case (Some x)
      then show ?thesis using r by (simp add: start_state_def cong: sum.cong_simp)
    qed
    have rows': "\<forall>t < len. (\<forall>d < K. seq_view bos dq t d = gr_q gr t d \<and> seq_view bos dk t d = gr_k gr t d) \<and>
        (\<forall>e < V. seq_view bos dv t e = gr_v gr t e) \<and> seq_view bos db t = gr_beta gr t \<and>
        seq_view bos dg t = rev_chunk_sum BT len (gr_gate gr) t"
      using r by (simp add: seq_view_def)
    show ?thesis unfolding span Let_def prod.case
      using sequence_derivative [OF E BT curve_seq [OF curves(1)] curve_seq [OF curves(2)] curve_seq [OF curves(3)] curve1_seq [OF curves(4)]
        curve1_seq [OF curves(5)] init(1) [rule_format] gr_def rows' state] by (simp only: seq_view_def)
  qed
  have "((\<lambda>s. forward_loss F offsets T K V (q s) (k s) (v s) (g s) (beta s) scale (init s) ofs d_o dht) has_real_derivative
      gradient_pairing offsets T K V (dq, dk, dv, dg, db, dh0) (q', k', v', g', beta', init')) (at 0)"
    unfolding forward_loss_sequences [OF F(1) K ok spec [OF neg] ofs] gradient_pairing_def prod.case
    by (rule DERIV_sum) (rule each, simp)
  with fwd bwd none show ?thesis by (intro exI conjI)
qed

lemma example_revcumsum: "revcumsum_spec example_fla"
proof -
  have bounds: "Max {b \<in> set os. b \<le> os ! n + t} = os ! n" "Min {b \<in> set os. os ! n + t < b} = os ! Suc n"
    if "t < os ! Suc n - os ! n" "sorted_wrt (<) os" "Suc n < length os" for os :: "nat list" and n t
  proof -
    have le: "i \<le> j \<Longrightarrow> j < length os \<Longrightarrow> os ! i \<le> os ! j" for i j
      using offsets_mono [OF that(2), of i j] by (cases "i = j") auto
    show "Max {b \<in> set os. b \<le> os ! n + t} = os ! n"
    proof (rule Max_eqI)
      fix b assume "b \<in> {b \<in> set os. b \<le> os ! n + t}"
      then obtain m where m: "m < length os" "b = os ! m" "os ! m \<le> os ! n + t" by (auto simp: in_set_conv_nth)
      have "m \<le> n" using le [of "Suc n" m] m that(1) by linarith
      then show "b \<le> os ! n" using le [of m n] m(2) that(3) by simp
    qed (use that in auto)
    show "Min {b \<in> set os. os ! n + t < b} = os ! Suc n"
    proof (rule Min_eqI)
      fix b assume "b \<in> {b \<in> set os. os ! n + t < b}"
      then obtain m where m: "m < length os" "b = os ! m" "os ! n + t < os ! m" by (auto simp: in_set_conv_nth)
      have "Suc n \<le> m" using le [of m n] m that(3) by linarith
      then show "os ! Suc n \<le> b" using le [of "Suc n" m] m(1,2) by simp
    qed (use that in auto)
  qed
  have shift: "(\<Sum>s = a + t..<min b (a + (t div 64 + 1) * 64). g s) = (\<Sum>s = t..<min (b - a) ((t div 64 + 1) * 64). g (a + s))"
    if "t < b - a" for a b t and g :: vec
  proof -
    have ab: "min b (a + X) = min (b - a) X + a" for X using that by (auto simp: min_def)
    show ?thesis unfolding ab by (subst add.commute, subst sum.shift_bounds_nat_ivl) (simp add: add.commute)
  qed
  show ?thesis
    unfolding revcumsum_spec_def
    using shift by (simp add: example_fla_def Let_def rev_chunk_sum_def bounds seq_view_def)
qed

theorem fla_backward_is_gradient_witness:
  "\<exists>out fs ctx dq dk dv dg db dh0.
    FlaFunction_forward example_fla (Some [0, 2, 5]) 5 2 3 (\<lambda>t d. real t) (\<lambda>t d. real d) (\<lambda>t e. 1) (\<lambda>t. - 1) (\<lambda>t. 1 / 2) (1 / 4)
      (Some (\<lambda>n d e. real n)) True = Inr (out, fs, ctx) \<and>
    FlaFunction_backward example_fla (Some [0, 2, 5]) 5 2 3 (\<lambda>t d. real t) (\<lambda>t d. real d) (\<lambda>t e. 1) (\<lambda>t. 1 / 2)
      (Some (\<lambda>n d e. real n)) ctx (\<lambda>t e. 1) (Some (\<lambda>n d e. 2)) = Inr (dq, dk, dv, dg, db, dh0) \<and> dh0 \<noteq> None \<and>
    ((\<lambda>s. forward_loss example_fla (Some [0, 2, 5]) 5 2 3 (\<lambda>t d. real t + s) (\<lambda>t d. real d) (\<lambda>t e. 1) (\<lambda>t. - exp s)
        (\<lambda>t. 1 / 2 + s) (1 / 4) (Some (\<lambda>n d e. real n + s)) True (\<lambda>t e. 1) (Some (\<lambda>n d e. 2))) has_real_derivative
      gradient_pairing (Some [0, 2, 5]) 5 2 3 (dq, dk, dv, dg, db, dh0)
        ((\<lambda>t d. 1), (\<lambda>t d. 0), (\<lambda>t e. 0), (\<lambda>t. - 1), (\<lambda>t. 1), Some (\<lambda>n d e. 1))) (at 0)"
proof -
  have p: "0 < (2 :: nat)" "next_pow2 (base example_fla) 2 \<le> 256" "offsets_ok (Some [0, 2, 5]) 5" "\<forall>s. \<forall>t < (5 :: nat). - exp s \<le> (0 :: real)"
    "Some (\<lambda>n d e. 2 :: real) \<noteq> None \<longrightarrow> True"
    by (simp_all add: example_fla_def example_env_def offsets_ok_def)
  have c: "curve (\<lambda>s t d. real t + s) (\<lambda>t d. 1)" "curve (\<lambda>s t d. real d) (\<lambda>t d. 0)" "curve (\<lambda>s t e. 1) (\<lambda>t e. 0)"
    "curve1 (\<lambda>s t. 1 / 2 + s) (\<lambda>t. 1)" "curve1 (\<lambda>s t. - exp s) (\<lambda>t. - 1)"
    "\<forall>n. curve (\<lambda>s. start_state (Some (\<lambda>n d e. real n + s)) n) (start_state (Some (\<lambda>n d e. 1)) n)"
    by (auto simp: curve_def curve1_def start_state_def intro!: derivative_eq_intros)
  show ?thesis
    using fla_backward_is_gradient [where V = 3 and scale = "1 / 4" and d_o = "\<lambda>t e. 1" and dht = "Some (\<lambda>n d e. 2)",
      OF example_fla_ok example_revcumsum p c] by simp
qed

end
