(* ===== verification/ChunkBack.thy ===== *)
theory ChunkBack
  imports WYBack FlaGradient
begin

text \<open>
  The backward pass of \<open>lit_gpt/gated_delta_rule_ops/chunk.py\<close>: the kernels for the value gradients
  inside a chunk, for the state gradients and for queries, keys, \<open>w\<close> and decays, their launches, the
  backward function of the autograd class, and the proof that it returns the derivatives of the
  outputs.  The fixed-length kernels are related to the packed ones of \<open>FlaBack\<close>: on chunks that
  fill the sequence they compute the same tiles, with base two exponentials, except for the decay
  gradient of a chunk when the key blocks do not tile the head dimension.
\<close>

section \<open>The kernels\<close>

definition fwd_prepare_du_kernel ::
  "kernel_env \<Rightarrow> real \<Rightarrow> nat \<Rightarrow> nat \<Rightarrow> nat \<Rightarrow> nat \<Rightarrow> nat \<Rightarrow> nat \<Rightarrow> mat \<Rightarrow> mat \<Rightarrow> vec \<Rightarrow> mat \<Rightarrow> nat \<Rightarrow> mat \<Rightarrow> mat" where
  "fwd_prepare_du_kernel E scale T K V BT BK BV q k g d_o i_t dv =
     (let b_A = for_loop (cdiv K BK) (\<lambda>i_k b_A.
            let b_k = ld k T K (i_t * BT) (i_k * BK);
                b_q = tr (ld q T K (i_t * BT) (i_k * BK));
                b_q = mcast (to_in E) (\<lambda>d i. b_q d i * scale)
            in madd b_A (dot BK b_k b_q)) zero_tile;
          b_g = (\<lambda>i. g (i_t * BT + i));
          b_A = (\<lambda>i j. b_A i j * exp2 (b_g j - b_g i));
          b_A = mcast (to_in E) (\<lambda>i j. if i \<le> j then b_A i j else 0)
      in for_loop (cdiv V BV) (\<lambda>i_v dv. st dv T V (i_t * BT) (i_v * BV) BT BV
           (mcast (to_in E) (dot BT b_A (ld d_o T V (i_t * BT) (i_v * BV))))) dv)"

definition bwd_dhu_subchunk ::
  "kernel_env \<Rightarrow> real \<Rightarrow> nat \<Rightarrow> nat \<Rightarrow> nat \<Rightarrow> nat \<Rightarrow> nat \<Rightarrow> nat \<Rightarrow> nat \<Rightarrow> mat \<Rightarrow> mat \<Rightarrow> mat \<Rightarrow> vec \<Rightarrow> mat \<Rightarrow> mat
     \<Rightarrow> nat \<Rightarrow> nat \<Rightarrow> nat \<Rightarrow> mat \<Rightarrow> nat \<Rightarrow> mat \<times> mat \<Rightarrow> mat \<times> mat" where
  "bwd_dhu_subchunk E scale T K V BT BC BK BV q k w g d_o dv i_k i_v i_t b_dh i_c = (\<lambda>(dv2, b_dh_tmp).
     (let r0 = i_t * BT + i_c * BC;
          bg_last = g (i_t * BT + BT - 1);
          b_g = (\<lambda>i. g (r0 + i));
          b_q = tr (ld q T K r0 (i_k * BK));
          b_q = mcast (to_in E) (\<lambda>d i. b_q d i * scale * exp2 (b_g i));
          b_do = ld d_o T V r0 (i_v * BV);
          b_dh_tmp = madd b_dh_tmp (dot BC b_q (mcast (to_in E) b_do));
          b_k = mcast (to_in E) (scale_rows (ld k T K r0 (i_k * BK)) (\<lambda>i. exp2 (bg_last - b_g i)));
          b_w = mcast (to_in E) (scale_cols (tr (ld w T K r0 (i_k * BK))) (\<lambda>i. exp2 (b_g i)));
          b_dv = madd (ld dv T V r0 (i_v * BV)) (dot BK b_k (mcast (to_in E) b_dh));
          dv2 = st dv2 T V r0 (i_v * BV) BC BV (mcast (to_in E) b_dv)
      in (dv2, msub b_dh_tmp (dot BC b_w (mcast (to_in E) b_dv)))))"

definition bwd_dhu_chunk ::
  "kernel_env \<Rightarrow> real \<Rightarrow> nat \<Rightarrow> nat \<Rightarrow> nat \<Rightarrow> nat \<Rightarrow> nat \<Rightarrow> nat \<Rightarrow> nat \<Rightarrow> mat \<Rightarrow> mat \<Rightarrow> mat \<Rightarrow> vec \<Rightarrow> mat \<Rightarrow> mat
     \<Rightarrow> nat \<Rightarrow> nat \<Rightarrow> nat \<Rightarrow> mat \<times> (nat \<Rightarrow> mat) \<times> mat \<Rightarrow> mat \<times> (nat \<Rightarrow> mat) \<times> mat" where
  "bwd_dhu_chunk E scale T K V BT BC BK BV q k w g d_o dv i_k i_v i_t = (\<lambda>(b_dh, dh, dv2).
     (let dh' = dh(i_t := st (dh i_t) K V (i_k * BK) (i_v * BV) BK BV (mcast (to_f32 E) b_dh));
          bg_last = g (i_t * BT + BT - 1);
          (dv2', b_dh_tmp) = down_loop (cdiv BT BC)
             (bwd_dhu_subchunk E scale T K V BT BC BK BV q k w g d_o dv i_k i_v i_t b_dh) (dv2, zero_tile)
      in (madd (\<lambda>r c. b_dh r c * exp2 bg_last) b_dh_tmp, dh', dv2')))"

definition chunk_gated_delta_rule_bwd_kernel_dhu ::
  "kernel_env \<Rightarrow> real \<Rightarrow> nat \<Rightarrow> nat \<Rightarrow> nat \<Rightarrow> nat \<Rightarrow> nat \<Rightarrow> nat \<Rightarrow> nat \<Rightarrow> nat \<Rightarrow> mat \<Rightarrow> mat \<Rightarrow> mat \<Rightarrow> vec \<Rightarrow> mat \<Rightarrow> mat
     \<Rightarrow> nat \<Rightarrow> nat \<Rightarrow> (nat \<Rightarrow> mat) \<times> mat \<Rightarrow> (nat \<Rightarrow> mat) \<times> mat" where
  "chunk_gated_delta_rule_bwd_kernel_dhu E scale T K V BT BC BK BV NT q k w g d_o dv i_k i_v = (\<lambda>(dh, dv2).
     snd (down_loop NT (bwd_dhu_chunk E scale T K V BT BC BK BV q k w g d_o dv i_k i_v) (zero_tile, dh, dv2)))"

text \<open>
  The last kernel addresses the states of all chunks as one matrix with \<open>NT * K\<close> rows, and checks
  its block against that number of rows.
\<close>

definition flat_rows :: "nat \<Rightarrow> (nat \<Rightarrow> mat) \<Rightarrow> mat" where
  "flat_rows K h = (\<lambda>r c. h (r div K) (r mod K) c)"

text \<open>
  \<open>dg\<close> is stored without a boundary check, one slice per key block, and its last element read back and
  increased.  The state is \<open>(dq, dk, dg, dw)\<close>.
\<close>

definition chunk_gated_delta_rule_bwd_kernel_dqkw ::
  "kernel_env \<Rightarrow> real \<Rightarrow> nat \<Rightarrow> nat \<Rightarrow> nat \<Rightarrow> nat \<Rightarrow> nat \<Rightarrow> nat \<Rightarrow> nat \<Rightarrow> mat \<Rightarrow> mat \<Rightarrow> mat \<Rightarrow> mat \<Rightarrow> vec \<Rightarrow> (nat \<Rightarrow> mat)
     \<Rightarrow> mat \<Rightarrow> (nat \<Rightarrow> mat) \<Rightarrow> mat \<Rightarrow> nat \<Rightarrow> nat \<Rightarrow> mat \<times> mat \<times> (nat \<Rightarrow> vec) \<times> mat \<Rightarrow> mat \<times> mat \<times> (nat \<Rightarrow> vec) \<times> mat" where
  "chunk_gated_delta_rule_bwd_kernel_dqkw E scale T K V BT BK BV NT q k v w g h d_o dh dv i_k i_t = (\<lambda>(dq, dk, dg, dw).
     (let last = i_t * BT + BT - 1;
          b_g_last = g last;
          (b_dq, b_dk, b_ds, b_dg_last, b_dw) = for_loop (cdiv V BV) (\<lambda>i_v (b_dq, b_dk, b_ds, b_dg_last, b_dw).
            let b_v = ld v T V (i_t * BT) (i_v * BV);
                b_do = ld d_o T V (i_t * BT) (i_v * BV);
                b_h = tr (ld (flat_rows K h) (NT * K) V (i_t * K + i_k * BK) (i_v * BV));
                b_dh = tr (ld (flat_rows K dh) (NT * K) V (i_t * K + i_k * BK) (i_v * BV));
                b_dv = ld dv T V (i_t * BT) (i_v * BV)
            in (madd b_dq (dot BV b_do (mcast (to_in E) b_h)),
                madd b_dk (dot BV b_v (mcast (to_in E) b_dh)),
                madd b_ds (dot BV b_do (tr b_v)),
                b_dg_last + (\<Sum>e<BV. \<Sum>d<BK. b_h e d * b_dh e d),
                madd b_dw (dot BV (mcast (to_in E) b_dv) (mcast (to_in E) b_h))))
            (zero_tile, zero_tile, zero_tile, 0, zero_tile);
          b_dg_last = b_dg_last * exp2 b_g_last;
          b_q = ld q T K (i_t * BT) (i_k * BK);
          b_k = ld k T K (i_t * BT) (i_k * BK);
          b_g = (\<lambda>i. g (i_t * BT + i));
          b_w = ld w T K (i_t * BT) (i_k * BK);
          b_dq = (\<lambda>i c. b_dq i c * (exp2 (b_g i) * scale));
          b_dg = (\<lambda>i. 0 + row_sums BK b_dq b_q i);
          b_dw = scale_rows b_dw (\<lambda>i. exp2 (b_g i));
          b_dg = (\<lambda>i. b_dg i - row_sums BK b_dw b_w i);
          b_dk = scale_rows b_dk (\<lambda>i. exp2 (b_g_last - b_g i));
          b_dg = (\<lambda>i. b_dg i - row_sums BK b_dk b_k i);
          b_dg_last = b_dg_last + (\<Sum>i<BT. \<Sum>c<BK. b_dk i c * b_k i c);
          b_ds = mcast (to_in E) (\<lambda>i j. if i \<ge> j then b_ds i j * scale * exp2 (b_g i - b_g j) else 0);
          b_dg_mask = (\<lambda>i j. dot BK b_q (tr b_k) i j * b_ds i j);
          b_dg = (\<lambda>i. b_dg i + (\<Sum>j<BT. b_dg_mask i j));
          b_dg = (\<lambda>j. b_dg j - (\<Sum>i<BT. b_dg_mask i j));
          b_dq = madd b_dq (dot BT b_ds b_k);
          b_dk = madd b_dk (tr (dot BT (tr b_q) b_ds));
          store = (\<lambda>b x. st x T K (i_t * BT) (i_k * BK) BT BK b);
          dg_k = st1 (dg i_k) (i_t * BT + BT) (i_t * BT) BT b_dg;
          dg_k = dg_k(last := b_dg_last + dg_k last)
      in (store (mcast (to_in E) b_dq) dq, store (mcast (to_in E) b_dk) dk, dg(i_k := dg_k),
          store (\<lambda>i c. - to_in E (b_dw i c)) dw)))"

section \<open>The launches\<close>

definition fwd_prepare_du :: "kernel_env \<Rightarrow> nat \<Rightarrow> nat \<Rightarrow> nat \<Rightarrow> nat \<Rightarrow> mat \<Rightarrow> mat \<Rightarrow> vec \<Rightarrow> mat \<Rightarrow> mat" where
  "fwd_prepare_du E BT T K V q k g d_o =
     (let NT = cdiv T BT;
          BK = min (next_pow2 E K) 64;
          BV = min (next_pow2 E V) 64
      in for_loop NT (fwd_prepare_du_kernel E (real K powr (- (1 / 2))) T K V BT BK BV q k g d_o) (uninit E))"

definition chunk_bwd_dhu_fn ::
  "kernel_env \<Rightarrow> nat \<Rightarrow> nat \<Rightarrow> nat \<Rightarrow> nat \<Rightarrow> mat \<Rightarrow> mat \<Rightarrow> mat \<Rightarrow> vec \<Rightarrow> mat \<Rightarrow> mat \<Rightarrow> ((nat \<Rightarrow> mat) \<times> mat) result" where
  "chunk_bwd_dhu_fn E BT T K V q k w g d_o dv =
     (let BK = next_pow2 E K in
      if \<not> BK \<le> 256 then Inl AssertionError
      else let BV = (if BK > 128 then 16 else 32);
               BV = (if BK \<le> 64 then 64 else BV);
               BC = (if BK > 128 then 16 else 32);
               BC = (if BK \<le> 64 then 64 else BC);
               BC = min BT BC;
               NT = cdiv T BT; NK = cdiv K BK; NV = cdiv V BV
           in if NK \<noteq> 1 then Inl AssertionError
              else Inr (for_loop NK (\<lambda>i_k. for_loop NV (\<lambda>i_v.
                     chunk_gated_delta_rule_bwd_kernel_dhu E (real K powr (- (1 / 2))) T K V BT BC BK BV NT q k w g d_o dv i_k i_v))
                     ((\<lambda>n. uninit E), uninit E)))"

definition chunk_bwd_dqkw_fn ::
  "kernel_env \<Rightarrow> nat \<Rightarrow> nat \<Rightarrow> nat \<Rightarrow> nat \<Rightarrow> mat \<Rightarrow> mat \<Rightarrow> mat \<Rightarrow> mat \<Rightarrow> vec \<Rightarrow> (nat \<Rightarrow> mat) \<Rightarrow> mat \<Rightarrow> mat \<Rightarrow> (nat \<Rightarrow> mat)
     \<Rightarrow> mat \<times> mat \<times> mat \<times> vec" where
  "chunk_bwd_dqkw_fn E BT T K V q k v_new w g h du d_o dh =
     (let BK = min (next_pow2 E K) 64;
          BV = min (next_pow2 E V) 64;
          NK = cdiv K BK;
          NT = cdiv T BT;
          (dq, dk, dg, dw) = for_loop NK (\<lambda>i_k. for_loop NT (\<lambda>i_t.
            chunk_gated_delta_rule_bwd_kernel_dqkw E (real K powr (- (1 / 2))) T K V BT BK BV NT q k v_new w g h d_o dh du i_k i_t))
            (uninit E, uninit E, (\<lambda>n t. 0), uninit E)
      in (dq, dk, dw, (\<lambda>t. \<Sum>n<NK. dg n t)))"

text \<open>\<open>rev_cumsum\<close>, inside each chunk: the last cumulative sum minus the running one, plus the element.\<close>

definition rev_cumsum :: "nat \<Rightarrow> vec \<Rightarrow> vec" where
  "rev_cumsum BT dg =
     (\<lambda>t. let cumsum_x = cumsum (chunk_view BT (t div BT) dg)
          in cumsum_x (BT - 1) - cumsum_x (t mod BT) + dg t)"

text \<open>
  \<open>g\<close> is what the forward pass saved, in base two; \<open>h\<close> and \<open>v_new\<close> are always recomputed, with single
  precision states.  \<open>dk.add_(dk2)\<close> rounds to the keys' type; a state gradient handed in is ignored.
\<close>

definition ChunkGatedDeltaRuleFunction_backward ::
  "kernel_env \<Rightarrow> nat \<Rightarrow> nat \<Rightarrow> nat \<Rightarrow> nat \<Rightarrow> mat \<Rightarrow> mat \<Rightarrow> mat \<Rightarrow> vec \<Rightarrow> vec \<Rightarrow> mat \<Rightarrow> mat \<Rightarrow> mat \<Rightarrow> mat \<Rightarrow> mat option
     \<Rightarrow> mat \<Rightarrow> mat option \<Rightarrow> (mat \<times> mat \<times> mat \<times> vec \<times> vec) result" where
  "ChunkGatedDeltaRuleFunction_backward E BT T K V q k v beta g A_w A_u A_w_original A_u_original initial_state d_o d_ht =
     (let (w, u) = fwd_recompute_w_u E BT T K V k v beta A_w A_u
      in rbind (chunk_fwd_h_fn E (\<lambda>x. x) BT T K V k w u g initial_state None True) (\<lambda>(h, v_new, _).
         let du = fwd_prepare_du E BT T K V q k g d_o
         in rbind (chunk_bwd_dhu_fn E BT T K V q k w g d_o du) (\<lambda>(dh, du).
         let (dq, dk, dw, dg) = chunk_bwd_dqkw_fn E BT T K V q k v_new w g h du d_o dh;
             (dk2, dv, dbeta, dg2) = bwd_prepare_wy_repr E BT T K V k v beta g A_w A_u A_w_original A_u_original dw du;
             dk = mcast (to_in E) (madd dk dk2);
             dg = (\<lambda>t. dg t + dg2 t)
         in if BT = 0 \<or> T mod BT \<noteq> 0 then Inl RuntimeError
            else let dg = rev_cumsum BT dg
                 in Inr (mcast (to_in E) dq, mcast (to_in E) dk, mcast (to_in E) dv, (\<lambda>t. to_in E (dbeta t)), (\<lambda>t. to_f32 E (dg t))))))"

section \<open>The fixed-length kernels compute the packed kernels' tiles\<close>

lemma st_cong:
  assumes "\<And>i j. i < R \<Longrightarrow> j < C \<Longrightarrow> blk i j = blk' i j"
  shows "st M rows cols i0 j0 R C blk = st M rows cols i0 j0 R C blk'"
  using assms by (auto simp: st_def fun_eq_iff)

lemma dot_cong:
  assumes "\<And>l. l < n \<Longrightarrow> A i l = A' i l" "\<And>l. l < n \<Longrightarrow> B l j = B' l j"
  shows "dot n A B i j = dot n A' B' i j"
  using assms by (simp add: dot_def)

text \<open>The saved decays in natural units.\<close>

definition nat_gate :: "vec \<Rightarrow> vec" where
  "nat_gate g = (\<lambda>t. ln 2 * g t)"

lemma nat_gate_exp: "exp (nat_gate g t) = exp2 (g t)" "exp (nat_gate g s - nat_gate g t) = exp2 (g s - g t)"
  "exp (- nat_gate g t + nat_gate g s) = exp2 (g s - g t)"
proof -
  have e: "exp (ln 2 * x) = exp2 x" for x by (simp add: exp2_def powr_def mult.commute)
  have d: "ln 2 * x - ln 2 * y = ln 2 * (x - y)" "- (ln 2 * x) + ln 2 * y = ln 2 * (y - x)" for x y :: real by (simp_all add: algebra_simps)
  show "exp (nat_gate g t) = exp2 (g t)" "exp (nat_gate g s - nat_gate g t) = exp2 (g s - g t)"
    "exp (- nat_gate g t + nat_gate g s) = exp2 (g s - g t)" by (simp_all only: nat_gate_def d e)
qed

lemma chunk_rows: "(i_t + 1) * BT \<le> T \<Longrightarrow> i < BT \<Longrightarrow> ld1 x T (i_t * BT) i = x (i_t * BT + i)"
  by (simp add: ld1_def)

lemma du_kernel_eq:
  assumes E: "exact_casts E" and T: "(i_t + 1) * BT \<le> T"
  shows "fwd_prepare_du_kernel E scale T K V BT BK BV q k g d_o i_t dv
    = fla_chunk_bwd_kernel_dv_local (plain_env E) None [] scale T K V BT BK BV q k (Some (nat_gate g)) d_o i_t dv"
proof -
  have casts: "mcast (\<lambda>x. x) M = M" "to_in E = (\<lambda>x. x)" for M using E by (simp_all add: exact_casts_def mcast_def)
  let ?k = "\<lambda>b. ld k T K (i_t * BT) (b * BK)" and ?q = "\<lambda>b. tr (ld q T K (i_t * BT) (b * BK))"
  have tile: "(\<Sum>b<cdiv K BK. dot BK (?k b) (\<lambda>d i. ?q b d i * scale) i j) = (\<Sum>b<cdiv K BK. dot BK (?k b) (?q b) i j) * scale" for i j
    by (simp add: dot_def sum_distrib_right mult.assoc)
  have step: "st M T V (i_t * BT) c BT BV (dot BT (\<lambda>i j. if i \<le> j then (\<Sum>b<cdiv K BK. dot BK (?k b) (\<lambda>d i. ?q b d i * scale) i j)
        * exp2 (g (i_t * BT + j) - g (i_t * BT + i)) else 0) X)
    = st M T V (i_t * BT) c BT BV (dot BT (\<lambda>i j. if i \<le> j then (\<Sum>b<cdiv K BK. dot BK (?k b) (?q b) i j)
        * exp (ld1 (nat_gate g) T (i_t * BT) j - ld1 (nat_gate g) T (i_t * BT) i) * scale else 0) X)" for M c X
    by (intro st_cong dot_cong) (simp_all add: chunk_rows [OF T] nat_gate_exp tile)
  show ?thesis
    unfolding fwd_prepare_du_kernel_def fla_chunk_bwd_kernel_dv_local_def program_chunk_def option.case prod.case Let_def seq_view_zero plain_env_fields
      casts for_loop_madd_zero at_seq_zero step by (rule refl)
qed

text \<open>The rows of one subchunk.\<close>

lemma bwd_dhu_subchunk_eq:
  assumes E: "exact_casts E" and T: "(i_t + 1) * BT \<le> T" and ic: "i_c * BC + BC \<le> BT" and BT: "0 < BT"
  shows "bwd_dhu_subchunk E scale T K V BT BC BK BV q k w g d_o dv i_k i_v i_t b_dh i_c s
    = fla_dhu_subchunk (plain_env E) 0 scale T K V BT BC BK BV q k w (Some (nat_gate g)) d_o dv i_k i_v i_t b_dh i_c s"
proof -
  obtain dv2 tmp where s: "s = (dv2, tmp)" by (cases s)
  have casts: "mcast (\<lambda>x. x) M = M" "to_in E = (\<lambda>x. x)" for M using E by (simp_all add: exact_casts_def mcast_def)
  let ?r0 = "i_t * BT + i_c * BC" and ?l = "i_t * BT + BT - 1"
  have last: "min ((i_t + 1) * BT) T - 1 = ?l" using T by (simp add: add.commute)
  have g: "ld1 (nat_gate g) T ?r0 i = nat_gate g (?r0 + i)" if "i < BC" for i
    using that T ic by (simp add: ld1_def)
  define b_dv where "b_dv = madd (ld dv T V ?r0 (i_v * BV)) (dot BK (scale_rows (ld k T K ?r0 (i_k * BK)) (\<lambda>i. exp2 (g ?l - g (?r0 + i)))) b_dh)"
  define b_dv' where "b_dv' = madd (ld dv T V ?r0 (i_v * BV)) (dot BK (scale_rows (ld k T K ?r0 (i_k * BK))
      (\<lambda>i. exp (nat_gate g ?l - ld1 (nat_gate g) T ?r0 i))) b_dh)"
  have b: "b_dv i c = b_dv' i c" if "i < BC" for i c
    by (simp add: b_dv_def b_dv'_def madd_def dot_def scale_rows_def g that nat_gate_exp)
  have add: "dot BC (\<lambda>d i. tr (ld q T K ?r0 (i_k * BK)) d i * scale * exp2 (g (?r0 + i))) X
      = dot BC (\<lambda>d i. tr (ld q T K ?r0 (i_k * BK)) d i * scale * exp (ld1 (nat_gate g) T ?r0 i)) X" for X
    by (intro ext dot_cong) (simp_all add: g nat_gate_exp)
  have sub: "dot BC (scale_cols (tr (ld w T K ?r0 (i_k * BK))) (\<lambda>i. exp2 (g (?r0 + i)))) b_dv
      = dot BC (scale_cols (tr (ld w T K ?r0 (i_k * BK))) (\<lambda>i. exp (ld1 (nat_gate g) T ?r0 i))) b_dv'"
    by (intro ext dot_cong) (simp_all add: scale_cols_def g nat_gate_exp b)
  have st: "st dv2 T V ?r0 (i_v * BV) BC BV b_dv = st dv2 T V ?r0 (i_v * BV) BC BV b_dv'" by (rule st_cong) (rule b)
  show ?thesis
    unfolding s bwd_dhu_subchunk_def fla_dhu_subchunk_def fla_dhu_tiles_def prod.case Let_def option.map option.case option.sel last scale_by_def
      plain_env_fields casts at_seq_zero b_dv_def [symmetric] b_dv'_def [symmetric] add sub st by (rule refl)
qed

lemma down_loop_cong: "(\<And>i s. i < n \<Longrightarrow> f i s = h i s) \<Longrightarrow> down_loop n f s = down_loop n h s"
  unfolding down_loop_def by (rule for_loop_cong) simp

lemma bwd_dhu_chunk_eq:
  assumes E: "exact_casts E" and T: "(i_t + 1) * BT \<le> T" and BC: "0 < BC" "BC dvd BT" and BT: "0 < BT"
  shows "bwd_dhu_chunk E scale T K V BT BC BK BV q k w g d_o dv i_k i_v i_t s
    = fla_dhu_chunk (plain_env E) 0 0 scale T K V BT BC BK BV q k w (Some (nat_gate g)) d_o dv i_k i_v i_t s"
proof -
  obtain b_dh dh dv2 where s: "s = (b_dh, dh, dv2)" by (rule prod_cases3)
  have casts: "to_in E = (\<lambda>x. x)" "to_f32 E = (\<lambda>x. x)" using E by (simp_all add: exact_casts_def)
  have last: "min ((i_t + 1) * BT) T - 1 = i_t * BT + BT - 1" using T by (simp add: add.commute)
  obtain M where M: "BT = M * BC" using BC(2) by (metis dvd_def mult.commute)
  have ic: "i_c * BC + BC \<le> BT" if "i_c < cdiv BT BC" for i_c
  proof -
    have "Suc i_c * BC \<le> M * BC" using that BC(1) M by (intro mult_right_mono) simp_all
    then show ?thesis by (simp add: M add.commute)
  qed
  have loop: "down_loop (cdiv BT BC) (bwd_dhu_subchunk E scale T K V BT BC BK BV q k w g d_o dv i_k i_v i_t b_dh) (dv2, zero_tile)
     = down_loop (cdiv BT BC) (fla_dhu_subchunk (plain_env E) 0 scale T K V BT BC BK BV q k w (Some (nat_gate g)) d_o dv i_k i_v i_t b_dh) (dv2, zero_tile)"
    by (rule down_loop_cong) (rule bwd_dhu_subchunk_eq [OF E T ic BT])
  show ?thesis
    unfolding s bwd_dhu_chunk_def fla_dhu_chunk_def prod.case Let_def loop last option.case nat_gate_exp add_0 plain_env_fields casts by (rule refl)
qed

lemma bwd_dhu_kernel_eq:
  assumes E: "exact_casts E" and T: "T = NT * BT" and BC: "0 < BC" "BC dvd BT" and BT: "0 < BT"
  shows "fla_bwd_kernel_dhu (plain_env E) None [] scale T K V BT BC BK BV q k w (Some (nat_gate g)) None d_o dv i_k i_v 0 (dh, dv2, None)
    = (fst (chunk_gated_delta_rule_bwd_kernel_dhu E scale T K V BT BC BK BV NT q k w g d_o dv i_k i_v (dh, dv2)),
       snd (chunk_gated_delta_rule_bwd_kernel_dhu E scale T K V BT BC BK BV NT q k w g d_o dv i_k i_v (dh, dv2)), None)"
proof -
  have NT: "cdiv T BT = NT" using T BT by simp
  have loop: "down_loop NT (bwd_dhu_chunk E scale T K V BT BC BK BV q k w g d_o dv i_k i_v) (zero_tile, dh, dv2)
    = down_loop NT (fla_dhu_chunk (plain_env E) 0 0 scale T K V BT BC BK BV q k w (Some (nat_gate g)) d_o dv i_k i_v) (zero_tile, dh, dv2)"
    by (rule down_loop_cong) (rule bwd_dhu_chunk_eq [OF E _ BC BT], use block_end T in blast)
  show ?thesis
    unfolding fla_bwd_kernel_dhu_def sequence_of_def option.case prod.case Let_def NT option.map seq_view_zero
      chunk_gated_delta_rule_bwd_kernel_dhu_def loop by (simp split: prod.split)
qed

text \<open>
  The last kernel.  Its blocks of the flat states start in a chunk, and run into the next one when the key
  blocks do not tile the head dimension: \<open>dqkw_spill\<close> is what a block pairs there.
\<close>

definition dqkw_spill :: "nat \<Rightarrow> nat \<Rightarrow> nat \<Rightarrow> nat \<Rightarrow> (nat \<Rightarrow> mat) \<Rightarrow> (nat \<Rightarrow> mat) \<Rightarrow> nat \<Rightarrow> nat \<Rightarrow> real" where
  "dqkw_spill K V BK NT h dh i_k i_t =
     (\<Sum>c<BK. if K \<le> i_k * BK + c \<and> i_t * K + (i_k * BK + c) < NT * K
       then \<Sum>e<V. flat_rows K h (i_t * K + (i_k * BK + c)) e * flat_rows K dh (i_t * K + (i_k * BK + c)) e else 0)"

lemma flat_row: "r < K \<Longrightarrow> i_t < NT \<Longrightarrow> i_t * K + r < NT * K \<and> flat_rows K h (i_t * K + r) = h i_t r"
  using mult_right_mono [of "Suc i_t" NT K] by (auto simp: flat_rows_def)

lemma flat_cols:
  assumes i: "i_t < NT" and c: "i_k * BK + c < K" and BV: "0 < BV"
  shows "(\<Sum>b<cdiv V BV. dot BV (ld x T V r0 (b * BV)) (tr (ld (flat_rows K h) (NT * K) V (i_t * K + i_k * BK) (b * BV))) i c)
    = (if i_k * BK + c < K then \<Sum>e<V. pad_rows T x (r0 + i) e * h i_t (i_k * BK + c) e else 0)"
  unfolding blocked_cols [OF BV] using flat_row [OF c i, of h] c by (simp add: add.assoc)

lemma pairing_at:
  assumes "0 < BV"
  shows "(\<Sum>b<cdiv V BV. \<Sum>l<BV. \<Sum>c<BK. tr (ld X M V k0 (b * BV)) l c * tr (ld Y M V k0 (b * BV)) l c)
    = (\<Sum>c<BK. if k0 + c < M then \<Sum>e<V. X (k0 + c) e * Y (k0 + c) e else 0)"
proof -
  have "(\<Sum>b<cdiv V BV. \<Sum>l<BV. \<Sum>c<BK. tr (ld X M V k0 (b * BV)) l c * tr (ld Y M V k0 (b * BV)) l c)
    = (\<Sum>b<cdiv V BV. \<Sum>l<BV. if b * BV + l < V then (\<Sum>c<BK. if k0 + c < M then X (k0 + c) (b * BV + l) * Y (k0 + c) (b * BV + l) else 0) else 0)"
    unfolding tr_def by (intro sum.cong refl) (auto simp: ld_def intro!: sum.cong)
  also have "\<dots> = (\<Sum>e<V. \<Sum>c<BK. if k0 + c < M then X (k0 + c) e * Y (k0 + c) e else 0)" by (rule sum_blocks [OF assms])
  also have "\<dots> = (\<Sum>c<BK. \<Sum>e<V. if k0 + c < M then X (k0 + c) e * Y (k0 + c) e else 0)" by (rule sum.swap)
  also have "\<dots> = (\<Sum>c<BK. if k0 + c < M then \<Sum>e<V. X (k0 + c) e * Y (k0 + c) e else 0)" by (intro sum.cong refl) simp
  finally show ?thesis .
qed

lemma flat_pairing:
  assumes i: "i_t < NT" and BV: "0 < BV"
  shows "(\<Sum>b<cdiv V BV. \<Sum>l<BV. \<Sum>c<BK. tr (ld (flat_rows K h) (NT * K) V (i_t * K + i_k * BK) (b * BV)) l c
      * tr (ld (flat_rows K h') (NT * K) V (i_t * K + i_k * BK) (b * BV)) l c)
    = block_sum BK K i_k (\<lambda>d. \<Sum>e<V. h i_t d e * h' i_t d e) + dqkw_spill K V BK NT h h' i_k i_t"
proof -
  have "(if i_t * K + (i_k * BK + c) < NT * K then \<Sum>e<V. flat_rows K h (i_t * K + (i_k * BK + c)) e * flat_rows K h' (i_t * K + (i_k * BK + c)) e else 0)
    = (if i_k * BK + c < K then \<Sum>e<V. h i_t (i_k * BK + c) e * h' i_t (i_k * BK + c) e else 0)
      + (if K \<le> i_k * BK + c \<and> i_t * K + (i_k * BK + c) < NT * K
         then \<Sum>e<V. flat_rows K h (i_t * K + (i_k * BK + c)) e * flat_rows K h' (i_t * K + (i_k * BK + c)) e else 0)" for c
    using flat_row [of "i_k * BK + c" K i_t NT, OF _ i] by (cases "i_k * BK + c < K") auto
  then show ?thesis
    unfolding pairing_at [OF BV] block_sum_def dqkw_spill_def sum.distrib [symmetric] add.assoc by simp
qed

text \<open>All blocks of a chunk together spill over the rows by which they exceed the head dimension.\<close>

lemma spill_total:
  assumes K: "0 < BK"
  shows "(\<Sum>i<cdiv K BK. dqkw_spill K V BK NT h dh i i_t)
    = (\<Sum>r<cdiv K BK * BK - K. if Suc i_t * K + r < NT * K
        then \<Sum>e<V. flat_rows K h (Suc i_t * K + r) e * flat_rows K dh (Suc i_t * K + r) e else 0)"
proof -
  let ?R = "cdiv K BK * BK - K"
  define G where "G j = (if i_t * K + j < NT * K then \<Sum>e<V. flat_rows K h (i_t * K + j) e * flat_rows K dh (i_t * K + j) e else 0)" for j
  define F where "F j = (if K \<le> j then G j else 0)" for j
  have at: "i_t * K + (K + r) = Suc i_t * K + r" for r by simp
  have "dqkw_spill K V BK NT h dh i i_t = sum F {i * BK..<i * BK + BK}" for i
  proof -
    have "sum F {0 + i * BK..<BK + i * BK} = (\<Sum>c = 0..<BK. F (c + i * BK))" by (rule sum.shift_bounds_nat_ivl)
    then have "sum F {i * BK..<i * BK + BK} = (\<Sum>c<BK. F (i * BK + c))" by (simp only: atLeast0LessThan add_0 add.commute)
    then show ?thesis by (simp add: dqkw_spill_def F_def G_def if_distrib cong: if_cong) (intro sum.cong refl, simp)
  qed
  then have "(\<Sum>i<cdiv K BK. dqkw_spill K V BK NT h dh i i_t) = sum F {..<cdiv K BK * BK}" by (simp only: sum.nat_group)
  also have "\<dots> = sum F {..<K + ?R}" using cdiv_covers [OF K, of K] by simp
  also have "\<dots> = (\<Sum>r<?R. G (K + r))" unfolding sum_lessThan_add by (simp add: F_def)
  finally show ?thesis by (simp only: G_def at)
qed

lemma st1_chunk:
  assumes T: "(i_t + 1) * BT \<le> T" and bg: "\<forall>i < BT. bg i = bg' i" and BT: "0 < BT"
  shows "(st1 x (i_t * BT + BT) (i_t * BT) BT bg)(i_t * BT + BT - 1 := bl + st1 x (i_t * BT + BT) (i_t * BT) BT bg (i_t * BT + BT - 1))
    = st1 x T (i_t * BT) BT (\<lambda>i. if int i < int (min BT (T - i_t * BT)) - 1 then bg' i else bg' i + bl)" (is "?f = ?g")
proof
  fix r
  have m: "min BT (T - i_t * BT) = BT" using T by simp
  show "?f r = ?g r"
  proof (cases "i_t * BT \<le> r \<and> r < i_t * BT + BT")
    case True
    then obtain i where r: "r = i_t * BT + i" "i < BT" by (metis le_Suc_ex nat_add_left_cancel_less)
    have "i_t * BT + i = i_t * BT + BT - 1 \<longleftrightarrow> i = BT - 1" "int i < int BT - 1 \<longleftrightarrow> i \<noteq> BT - 1" using r(2) BT by auto
    moreover have "i_t * BT + i < T" "i_t * BT + BT - 1 - i_t * BT = BT - 1" using T r(2) by auto
    ultimately show ?thesis using BT r(2) bg unfolding r(1) m by (auto simp: st1_def)
  next
    case False
    then show ?thesis using BT by (auto simp: st1_def)
  qed
qed

lemma st_cols_cong:
  assumes "\<And>i j. i < R \<Longrightarrow> j < C \<Longrightarrow> j0 + j < cols \<Longrightarrow> blk i j = blk' i j"
  shows "st M rows cols i0 j0 R C blk = st M rows cols i0 j0 R C blk'"
  using assms by (auto simp: st_def fun_eq_iff)

lemma masked_sum:
  assumes "\<And>c. c < n \<Longrightarrow> j0 + c < cols \<Longrightarrow> A c = A' c"
  shows "(\<Sum>c<n. A c * ld x rows cols i0 j0 i c) = (\<Sum>c<n. A' c * ld x rows cols i0 j0 i c)"
  using assms by (intro sum.cong refl) (auto simp: ld_def)

text \<open>
  What one program does to the state, component by component, beside the program of the packed
  kernel: they differ in the last element of the decay gradient by the spill.
\<close>

lemma dqkw_kernel_eq:
  assumes E: "exact_casts E" and p: "0 < BK" "0 < BV" "0 < BT" "T = NT * BT" and i: "i_k < cdiv K BK" "i_t < NT"
  shows "\<exists>A B F C. \<forall>dq dk dg dw.
    chunk_gated_delta_rule_bwd_kernel_dqkw E scale T K V BT BK BV NT q k v w g h d_o dh dv i_k i_t (dq, dk, dg, dw)
      = (A dq, B dk, dg(i_k := st1 (dg i_k) T (i_t * BT) BT
          (\<lambda>i. F i + (if i = BT - 1 then exp2 (g (i_t * BT + BT - 1)) * dqkw_spill K V BK NT h dh i_k i_t else 0))), C dw) \<and>
    fla_chunk_bwd_kernel_dqkwg (plain_env E) None [] scale T K V BT BK BV q k v h (Some (nat_gate g)) d_o dh (Some (w, dv)) i_k i_t (dq, dk, dg, dw)
      = (A dq, B dk, dg(i_k := st1 (dg i_k) T (i_t * BT) BT F), C dw)"
proof -
  have casts: "mcast (\<lambda>x. x) M = M" "to_in E = (\<lambda>x. x)" for M using E by (simp_all add: exact_casts_def mcast_def)
  have T: "(i_t + 1) * BT \<le> T" using block_end [OF i(2)] p(4) by simp
  have last: "min (i_t * BT + BT) T - 1 = i_t * BT + BT - 1" using T by (simp add: add.commute)
  have zero: "zero_tile r c + x = x" for r c x by (simp add: zero_tile_def)
  let ?l = "i_t * BT + BT - 1" and ?Q = "ld q T K (i_t * BT) (i_k * BK)" and ?K = "ld k T K (i_t * BT) (i_k * BK)" and ?W = "ld w T K (i_t * BT) (i_k * BK)"
  let ?lc = "ld1 (nat_gate g) T (i_t * BT)" and ?cl = "nat_gate g ?l" and ?sp = "exp2 (g ?l) * dqkw_spill K V BK NT h dh i_k i_t"
  define acc where "acc x y = (\<lambda>i c. \<Sum>b<cdiv V BV. dot BV (ld x T V (i_t * BT) (b * BV)) (tr (ld (flat_rows K y) (NT * K) V (i_t * K + i_k * BK) (b * BV))) i c)" for x y
  define fac where "fac x y = (\<lambda>i c. if i_k * BK + c < K then \<Sum>e<V. pad_rows T x (i_t * BT + i) e * y i_t (i_k * BK + c) e else 0)" for x :: mat and y :: "nat \<Rightarrow> mat"
  define sc where "sc = (\<lambda>i j. \<Sum>e<V. pad_rows T d_o (i_t * BT + i) e * pad_rows T v (i_t * BT + j) e)"
  define bq where "bq = (\<lambda>i c. acc d_o h i c * (exp2 (g (i_t * BT + i)) * scale))"
  define bk where "bk = scale_rows (acc v dh) (\<lambda>i. exp2 (g ?l - g (i_t * BT + i)))"
  define bw where "bw = scale_rows (acc dv h) (\<lambda>i. exp2 (g (i_t * BT + i)))"
  define bs where "bs = (\<lambda>i j. if i \<ge> j then sc i j * scale * exp2 (g (i_t * BT + i) - g (i_t * BT + j)) else 0)"
  define bq' where "bq' = (\<lambda>i c. fac d_o h i c * exp (?lc i) * scale)"
  define bk' where "bk' = (\<lambda>i c. fac v dh i c * exp (- ?lc i + ?cl))"
  define bw' where "bw' = (\<lambda>i c. fac dv h i c * exp (?lc i))"
  define bs' where "bs' = (\<lambda>i j. (if j \<le> i then sc i j * exp (?lc i - ?lc j) else 0) * scale)"
  have fac: "acc x y i c = fac x y i c" if "i_k * BK + c < K" for x y i c
    unfolding acc_def fac_def by (rule flat_cols [OF i(2) that p(2)])
  have lc: "?lc i = nat_gate g (i_t * BT + i)" if "i < BT" for i by (rule chunk_rows [OF T that])
  have b: "i_k * BK + c < K \<Longrightarrow> bq i c = bq' i c" "i_k * BK + c < K \<Longrightarrow> bk i c = bk' i c" "i_k * BK + c < K \<Longrightarrow> bw i c = bw' i c"
    "j < BT \<Longrightarrow> bs i j = bs' i j" if "i < BT" for i j c
    by (simp_all add: bq_def bq'_def bk_def bk'_def bw_def bw'_def bs_def bs'_def scale_rows_def fac lc that nat_gate_exp)
  have rows: "row_sums BK bq ?Q i = row_sums BK bq' ?Q i" "row_sums BK bk ?K i = row_sums BK ?K bk' i" "row_sums BK bw ?W i = row_sums BK ?W bw' i"
    "(\<Sum>c<BK. bk i c * ?K i c) = (\<Sum>c<BK. bk' i c * ?K i c)" if "i < BT" for i
    using b(1-3) [OF that] masked_sum [of BK "i_k * BK" K "bq i" "bq' i" q T "i_t * BT" i]
      masked_sum [of BK "i_k * BK" K "bk i" "bk' i" k T "i_t * BT" i] masked_sum [of BK "i_k * BK" K "bw i" "bw' i" w T "i_t * BT" i]
    by (simp_all add: row_sums_def mult.commute)
  define bg where "bg = (\<lambda>i. 0 + row_sums BK bq ?Q i - row_sums BK bw ?W i - row_sums BK bk ?K i + (\<Sum>j<BT. dot BK ?Q (tr ?K) i j * bs i j)
      - (\<Sum>j<BT. dot BK ?Q (tr ?K) j i * bs j i))"
  define bg' where "bg' = (\<lambda>i. 0 - row_sums BK ?W bw' i + row_sums BK bq' ?Q i - row_sums BK ?K bk' i
      + (\<Sum>j<BT. bs' i j * dot BK ?Q (tr ?K) i j) - (\<Sum>j<BT. bs' j i * dot BK ?Q (tr ?K) j i))"
  define own where "own = block_sum BK K i_k (\<lambda>d. \<Sum>e<V. h i_t d e * dh i_t d e)"
  define bl where "bl = (own + dqkw_spill K V BK NT h dh i_k i_t) * exp2 (g ?l) + (\<Sum>i<BT. \<Sum>c<BK. bk i c * ?K i c)"
  define bl' where "bl' = own * exp ?cl + (\<Sum>i<BT. \<Sum>c<BK. bk' i c * ?K i c)"
  have "(\<Sum>i<BT. \<Sum>c<BK. bk i c * ?K i c) = (\<Sum>i<BT. \<Sum>c<BK. bk' i c * ?K i c)" by (intro sum.cong refl rows(4)) simp
  then have bl: "bl = bl' + ?sp" by (simp add: bl_def bl'_def nat_gate_exp algebra_simps)
  have "(\<Sum>j<BT. dot BK ?Q (tr ?K) i j * bs i j) = (\<Sum>j<BT. bs' i j * dot BK ?Q (tr ?K) i j)"
    "(\<Sum>j<BT. dot BK ?Q (tr ?K) j i * bs j i) = (\<Sum>j<BT. bs' j i * dot BK ?Q (tr ?K) j i)" if "i < BT" for i
    using that by (auto intro!: sum.cong simp: b)
  then have bgs: "\<forall>i < BT. bg i = bg' i" by (simp add: bg_def bg'_def rows)
  have base: "chunk_gated_delta_rule_bwd_kernel_dqkw E scale T K V BT BK BV NT q k v w g h d_o dh dv i_k i_t (dq, dk, dg, dw)
    = (st dq T K (i_t * BT) (i_k * BK) BT BK (madd bq (dot BT bs ?K)), st dk T K (i_t * BT) (i_k * BK) BT BK (madd bk (tr (dot BT (tr ?Q) bs))),
       dg(i_k := (st1 (dg i_k) (i_t * BT + BT) (i_t * BT) BT bg)(?l := bl + st1 (dg i_k) (i_t * BT + BT) (i_t * BT) BT bg ?l)),
       st dw T K (i_t * BT) (i_k * BK) BT BK (\<lambda>i c. - bw i c))" for dq dk dg dw
    unfolding chunk_gated_delta_rule_bwd_kernel_dqkw_def prod.case Let_def casts for_loop_dqkwg zero add_0 blocked_rows(2) [OF p(2)]
      flat_pairing [OF i(2) p(2)] acc_def [symmetric] sc_def [symmetric] bq_def [symmetric] bk_def [symmetric] bw_def [symmetric] bs_def [symmetric]
      own_def [symmetric] bl_def [symmetric] bg_def add_0 unfolding bs_def by (rule refl)
  define F where "F = (\<lambda>i. if int i < int (min BT (T - i_t * BT)) - 1 then bg' i else bg' i + bl')"
  have fla: "fla_chunk_bwd_kernel_dqkwg (plain_env E) None [] scale T K V BT BK BV q k v h (Some (nat_gate g)) d_o dh (Some (w, dv)) i_k i_t (dq, dk, dg, dw)
    = (st dq T K (i_t * BT) (i_k * BK) BT BK (madd bq' (dot BT bs' ?K)), st dk T K (i_t * BT) (i_k * BK) BT BK (madd bk' (dot BT (tr bs') ?Q)),
       dg(i_k := st1 (dg i_k) T (i_t * BT) BT F),
       st dw T K (i_t * BT) (i_k * BK) BT BK (\<lambda>i c. - bw' i c))" for dq dk dg dw
  proof -
    have E': "exact_casts (base (plain_env E))" using E by simp
    have pc: "program_chunk None [] T i_t = (0, T, i_t)" by (simp add: program_chunk_def)
    have cl: "?cl = seq_view 0 (nat_gate g) (min (i_t * BT + BT) T - 1)" by (simp only: last seq_view_zero)
    have tiles: "?lc = ld1 (seq_view 0 (nat_gate g)) T (i_t * BT)" "?Q = ld (seq_view 0 q) T K (i_t * BT) (i_k * BK)"
      "?K = ld (seq_view 0 k) T K (i_t * BT) (i_k * BK)" "?W = ld (seq_view 0 w) T K (i_t * BT) (i_k * BK)" by (simp_all only: seq_view_zero)
    have accs: "bq' = (\<lambda>i c. (if i_k * BK + c < K then \<Sum>e<V. seq_rows 0 T d_o (i_t * BT + i) e * h i_t (i_k * BK + c) e else 0) * exp (?lc i) * scale)"
      "bk' = (\<lambda>i c. (if i_k * BK + c < K then \<Sum>e<V. seq_rows 0 T v (i_t * BT + i) e * dh i_t (i_k * BK + c) e else 0) * safe_exp (plain_env E) (- ?lc i + ?cl))"
      "bw' = (\<lambda>i c. (if i_k * BK + c < K then \<Sum>e<V. seq_rows 0 T dv (i_t * BT + i) e * h i_t (i_k * BK + c) e else 0) * exp (?lc i))"
      "bs' = (\<lambda>i j. (if j \<le> i then (\<Sum>e<V. seq_rows 0 T d_o (i_t * BT + i) e * seq_rows 0 T v (i_t * BT + j) e)
          * safe_exp (plain_env E) (?lc i - ?lc j) else 0) * scale)"
      by (simp_all only: bq'_def bk'_def bw'_def bs'_def fac_def sc_def seq_view_zero plain_env_fields)
    show ?thesis
      using dqkwg_run [where q = q and k = k and w = w and v = v and d_o = d_o and dv = dv and h = h and dh = dh and i_tg = i_t
        and c = "nat_gate g" and i_k = i_k and BK = BK and K = K and BT = BT and V = V and scale = scale and dq = dq and dk = dk and dg = dg and dw = dw,
        OF E' p(2) pc tiles(1) cl accs tiles(2-4) bg'_def bl'_def [unfolded own_def]]
      by (simp only: at_seq_zero F_def)
  qed
  have tiles: "st dq T K (i_t * BT) (i_k * BK) BT BK (madd bq (dot BT bs ?K)) = st dq T K (i_t * BT) (i_k * BK) BT BK (madd bq' (dot BT bs' ?K))"
    "st dk T K (i_t * BT) (i_k * BK) BT BK (madd bk (tr (dot BT (tr ?Q) bs))) = st dk T K (i_t * BT) (i_k * BK) BT BK (madd bk' (dot BT (tr bs') ?Q))"
    "st dw T K (i_t * BT) (i_k * BK) BT BK (\<lambda>i c. - bw i c) = st dw T K (i_t * BT) (i_k * BK) BT BK (\<lambda>i c. - bw' i c)" for dq dk dw
    by (intro st_cols_cong; simp add: madd_def b dot_def tr_def mult.commute)+
  have m: "min BT (T - i_t * BT) = BT" using T by simp
  have spill: "st1 x T (i_t * BT) BT (\<lambda>i. if int i < int (min BT (T - i_t * BT)) - 1 then bg' i else bg' i + bl)
    = st1 x T (i_t * BT) BT (\<lambda>i. F i + (if i = BT - 1 then ?sp else 0))" for x
  proof -
    have "int (r - i_t * BT) < int BT - 1 \<longleftrightarrow> r - i_t * BT \<noteq> BT - 1" if r: "i_t * BT \<le> r" "r < i_t * BT + BT" for r
    proof -
      obtain j where "r = i_t * BT + j" "j < BT" using r by (metis le_Suc_ex nat_add_left_cancel_less)
      then show ?thesis by auto
    qed
    then show ?thesis using p(3) unfolding st1_def F_def m bl by (intro ext) auto
  qed
  show ?thesis
    unfolding base fla st1_chunk [OF T bgs p(3)] spill tiles by (intro exI allI conjI) (rule refl)+
qed

section \<open>The launches\<close>

text \<open>Programs that act on the four components independently.\<close>

lemma for_loop_four:
  "(\<And>i a b d c. i < n \<Longrightarrow> P i (a, b, d, c) = (A i a, B i b, D i d, C i c)) \<Longrightarrow>
    for_loop n P (a, b, d, c) = (for_loop n A a, for_loop n B b, for_loop n D d, for_loop n C c)"
  by (induction n) auto

lemma grad_launch:
  assumes P: "\<And>i n a b d c. i < NK \<Longrightarrow> n < NT \<Longrightarrow>
      P i n (a, b, d, c) = (A i n a, B i n b, d(i := st1 (d i) T (n * BT) BT (F i n)), C i n c)"
    and T: "0 < BT" "T = NT * BT"
  shows "\<exists>dg. for_loop NK (\<lambda>i. for_loop NT (P i)) (a, b, d, c)
      = (for_loop NK (\<lambda>i. for_loop NT (A i)) a, for_loop NK (\<lambda>i. for_loop NT (B i)) b, dg, for_loop NK (\<lambda>i. for_loop NT (C i)) c) \<and>
    (\<forall>i < NK. \<forall>t < T. dg i t = F i (t div BT) (t mod BT))"
proof -
  define D where "D i n d = d(i := st1 (d i) T (n * BT) BT (F i n))" for i n and d :: "nat \<Rightarrow> vec"
  have inner: "for_loop NT (P i) (a, b, d, c) = (for_loop NT (A i) a, for_loop NT (B i) b, for_loop NT (D i) d, for_loop NT (C i) c)"
    if "i < NK" for i a b d c
    by (rule for_loop_four) (use P [OF that] in \<open>simp add: D_def\<close>)
  have run: "for_loop NK (\<lambda>i. for_loop NT (P i)) (a, b, d, c) = (for_loop NK (\<lambda>i. for_loop NT (A i)) a, for_loop NK (\<lambda>i. for_loop NT (B i)) b,
      for_loop NK (\<lambda>i. for_loop NT (D i)) d, for_loop NK (\<lambda>i. for_loop NT (C i)) c)"
    by (rule for_loop_four) (rule inner)
  have "for_loop NK (\<lambda>i. for_loop NT (D i)) d i t = F i (t div BT) (t mod BT)" if i: "i < NK" and t: "t < T" for i t
  proof (rule launch2_writes [where get = "\<lambda>d. d i t" and ?v0.0 = i and ?n0.0 = "t div BT"])
    have m: "t mod BT < BT" "t div BT * BT + t mod BT = t" using T(1) by simp_all
    then have "t div BT * BT \<le> t" "t < t div BT * BT + BT" by linarith+
    then show "D i (t div BT) s i t = F i (t div BT) (t mod BT)" for s
      using t by (simp add: D_def st1_def minus_div_mult_eq_mod)
    show "D v n s i t = s i t" if "v \<noteq> i \<or> n \<noteq> t div BT" for v n s
    proof -
      have "n = t div BT" if "n * BT \<le> t" "t < n * BT + BT" using that by (intro div_nat_eqI [symmetric]) (simp_all add: mult.commute)
      then show ?thesis using that by (auto simp: D_def st1_def)
    qed
    show "t div BT < NT" using t T by (simp add: less_mult_imp_div_less)
  qed (rule i)
  then show ?thesis using run by blast
qed

lemma dqkw_launch:
  assumes E: "exact_casts E" and p: "0 < BK" "0 < BV" "0 < BT" "T = NT * BT"
    and base: "for_loop (cdiv K BK) (\<lambda>i_k. for_loop NT (\<lambda>i_t.
      chunk_gated_delta_rule_bwd_kernel_dqkw E scale T K V BT BK BV NT q k v w g h d_o dh dv i_k i_t)) (a, b, d, c) = (dq, dk, dgs, dw)"
    and fla: "for_loop (cdiv K BK) (\<lambda>i_k. for_loop NT (\<lambda>i_t.
      fla_chunk_bwd_kernel_dqkwg (plain_env E) None [] scale T K V BT BK BV q k v h (Some (nat_gate g)) d_o dh (Some (w, dv)) i_k i_t)) (a, b, d, c)
      = (dq', dk', dgs', dw')"
  shows "dq = dq'" "dk = dk'" "dw = dw'"
    and "t < T \<Longrightarrow> (\<Sum>n<cdiv K BK. dgs n t) = (\<Sum>n<cdiv K BK. dgs' n t)
      + (if t mod BT = BT - 1 then exp2 (g t) * (\<Sum>n<cdiv K BK. dqkw_spill K V BK NT h dh n (t div BT)) else 0)"
proof -
  let ?b = "\<lambda>i_k i_t. chunk_gated_delta_rule_bwd_kernel_dqkw E scale T K V BT BK BV NT q k v w g h d_o dh dv i_k i_t"
  let ?f = "\<lambda>i_k i_t. fla_chunk_bwd_kernel_dqkwg (plain_env E) None [] scale T K V BT BK BV q k v h (Some (nat_gate g)) d_o dh (Some (w, dv)) i_k i_t"
  let ?x = "\<lambda>i_k i_t i. if i = BT - 1 then exp2 (g (i_t * BT + BT - 1)) * dqkw_spill K V BK NT h dh i_k i_t else 0"
  define R where "R i_k i_t A B F C \<longleftrightarrow> (\<forall>dq dk dg dw.
      ?b i_k i_t (dq, dk, dg, dw) = (A dq, B dk, dg(i_k := st1 (dg i_k) T (i_t * BT) BT (\<lambda>i. F i + ?x i_k i_t i)), C dw) \<and>
      ?f i_k i_t (dq, dk, dg, dw) = (A dq, B dk, dg(i_k := st1 (dg i_k) T (i_t * BT) BT F), C dw))" for i_k i_t A B F C
  have "\<exists>A B F C. R i_k i_t A B F C" if "i_k < cdiv K BK" "i_t < NT" for i_k i_t
    unfolding R_def using that dqkw_kernel_eq [OF E p, where scale = scale and q = q and k = k and v = v and w = w and g = g and h = h and d_o = d_o and dh = dh and dv = dv and V = V and K = K]
    by blast
  then obtain A B F C where "\<And>i_k i_t. i_k < cdiv K BK \<Longrightarrow> i_t < NT \<Longrightarrow> R i_k i_t (A i_k i_t) (B i_k i_t) (F i_k i_t) (C i_k i_t)"
    by metis
  then have both: "i_k < cdiv K BK \<Longrightarrow> i_t < NT \<Longrightarrow>
      ?b i_k i_t (dq, dk, dg, dw) = (A i_k i_t dq, B i_k i_t dk, dg(i_k := st1 (dg i_k) T (i_t * BT) BT (\<lambda>i. F i_k i_t i + ?x i_k i_t i)), C i_k i_t dw)"
      "i_k < cdiv K BK \<Longrightarrow> i_t < NT \<Longrightarrow>
      ?f i_k i_t (dq, dk, dg, dw) = (A i_k i_t dq, B i_k i_t dk, dg(i_k := st1 (dg i_k) T (i_t * BT) BT (F i_k i_t)), C i_k i_t dw)" for i_k i_t dq dk dg dw
    unfolding R_def by blast+
  note L = grad_launch [where NK = "cdiv K BK" and NT = NT and T = T and BT = BT and a = a and b = b and d = d and c = c and A = A and B = B and C = C, OF _ p(3,4)]
  note Lb = L [where F = "\<lambda>i_k i_t i. F i_k i_t i + ?x i_k i_t i" and P = ?b, OF both(1), unfolded base]
  note Lf = L [where F = F and P = ?f, OF both(2), unfolded fla]
  show "dq = dq'" "dk = dk'" "dw = dw'" using Lb Lf by auto
  show "(\<Sum>n<cdiv K BK. dgs n t) = (\<Sum>n<cdiv K BK. dgs' n t)
      + (if t mod BT = BT - 1 then exp2 (g t) * (\<Sum>n<cdiv K BK. dqkw_spill K V BK NT h dh n (t div BT)) else 0)" if t: "t < T"
  proof -
    have l: "t div BT * BT + BT - 1 = t" if "t mod BT = BT - 1"
      using that p(3) div_mult_mod_eq [of t BT] by linarith
    have "dgs n t = dgs' n t + (if t mod BT = BT - 1 then exp2 (g t) * dqkw_spill K V BK NT h dh n (t div BT) else 0)" if "n < cdiv K BK" for n
      using Lb Lf that t l by auto
    then have "(\<Sum>n<cdiv K BK. dgs n t) = (\<Sum>n<cdiv K BK. dgs' n t + (if t mod BT = BT - 1 then exp2 (g t) * dqkw_spill K V BK NT h dh n (t div BT) else 0))"
      by (intro sum.cong refl) simp
    then show ?thesis by (simp add: sum.distrib sum_distrib_left)
  qed
qed

lemma padded_rows [simp]: "t < T \<Longrightarrow> pad_rows T x t = x t" "t < T \<Longrightarrow> pad_vec T y t = y t"
  by (simp_all add: pad_rows_def pad_vec_def fun_eq_iff)

lemma st_zero_tile: "start_state None n = zero_tile"
  by (simp add: start_state_def)

text \<open>The state recursion reads its inputs only on the chunks it has passed.\<close>

lemma h_states_inputs:
  assumes k: "\<And>t d. t < N * BT \<Longrightarrow> d < K \<Longrightarrow> k t d = k' t d" and g: "\<And>t. t < N * BT \<Longrightarrow> g t = g' t" and BT: "0 < BT"
    and n: "n \<le> N" and r: "r < K"
  shows "h_states K BT k w u g S0 n r c = h_states K BT k' w u g' S0 n r c"
  using n r
proof (induction n arbitrary: r)
  case 0
  then show ?case by (simp add: h_states_def)
next
  case (Suc n)
  have t: "n * BT + j < N * BT" if "j < BT" for j
    using that Suc.prems(1) mult_right_mono [of "Suc n" N BT] by simp
  have last: "n * BT + BT - 1 < N * BT" using t [of "BT - 1"] BT by simp
  have "new_value K BT w u g (h_states K BT k w u g S0 n) n j c
      = new_value K BT w u g' (h_states K BT k' w u g' S0 n) n j c" if "j < BT" for j
    using Suc t [OF that] by (simp add: new_value_def g cong: sum.cong_simp)
  then show ?case
    using Suc t last by (simp add: h_states_Suc next_state_def g k cong: sum.cong_simp)
qed

lemma du_value:
  assumes E: "exact_casts E" "pow2_spec E" and p: "0 < BT" "T = NT * BT" and g: "local_gate BT T g0 (nat_gate g)" and gt: "gt = gate E BT T g0"
    and t: "t < T" "e < V"
  shows "fwd_prepare_du E BT T K V q k g d_o t e
    = local_values K BT (pad_rows T q) (pad_rows T k) gt (out_grad (real K powr (- (1 / 2))) (pad_rows T d_o)) (t div BT) (t mod BT) e"
proof -
  let ?BK = "min (next_pow2 E K) 64" and ?BV = "min (next_pow2 E V) 64" and ?s = "real K powr (- (1 / 2))"
  have b: "0 < ?BK" "0 < ?BV" using pow2_block [OF E(2)] by auto
  have NT: "cdiv T BT = NT" using p by simp
  have P: "packs BT 1 NT (sequence_of None [] T) (program_chunk None [] T)" using packs_fixed [of BT T "[]" "[]"] by (simp add: NT)
  have plan: "launch_plan BT None [] T NT 0 T" by (rule packs_plan [OF P p(1), of 0 _ _ 0]) (simp_all add: sequence_of_def)
  have loop: "fwd_prepare_du E BT T K V q k g d_o
    = for_loop NT (fla_chunk_bwd_kernel_dv_local (plain_env E) None [] ?s T K V BT ?BK ?BV q k (Some (nat_gate g)) d_o) (uninit E)"
    unfolding fwd_prepare_du_def Let_def NT
    by (rule for_loop_cong) (rule du_kernel_eq [OF E(1)], use block_end p(2) in blast)
  have dx: "decays_exact (plain_env E) BT T (seq_view 0 (nat_gate g))" by (simp add: decays_exact_def)
  show ?thesis
    unfolding loop using dv_local_launch [where F = "plain_env E" and bos = 0 and c = "nat_gate g" and T = T and K = K and V = V and BK = ?BK and BV = ?BV
      and q = q and k = k and d_o = d_o and scale = ?s and s = "uninit E", OF _ b p(1) plan _ dx _ t, unfolded plain_env_fields seq_view_zero, OF E(1) g gt] by simp
qed

lemma dhu_value:
  assumes E: "exact_casts E" "pow2_spec E" and K: "0 < K" "next_pow2 E K \<le> 256" and BT: "BT = 2 ^ e" and T: "T = NT * BT"
    and g: "local_gate BT T g0 (nat_gate g)" and gt: "gt = gate E BT T g0"
    and q: "qp = pad_rows T q" and k: "kp = pad_rows T k" and w: "wp = pad_rows T w" and pp: "pp = out_grad (real K powr (- (1 / 2))) (pad_rows T d_o)"
    and loc: "\<forall>t < T. \<forall>e < V. dv t e = local_values K BT qp kp gt pp (t div BT) (t mod BT) e"
    and D: "D = back_state K BT NT qp kp wp gt pp zero_tile"
  shows "\<exists>dh dv2. chunk_bwd_dhu_fn E BT T K V q k w g d_o dv = Inr (dh, dv2) \<and>
    (\<forall>m < NT. \<forall>d < K. \<forall>e < V. dh m d e = D (Suc m) d e) \<and>
    (\<forall>t < T. \<forall>e < V. dv2 t e = chunk_values K BT qp kp gt pp (t div BT) (D (Suc (t div BT))) (t mod BT) e)"
proof -
  let ?BK = "next_pow2 E K" and ?s = "real K powr (- (1 / 2))"
  define BV :: nat where "BV = (if ?BK \<le> 64 then 64 else if ?BK > 128 then 16 else 32)"
  define BC0 :: nat where "BC0 = (if ?BK \<le> 64 then 64 else if ?BK > 128 then 16 else 32)"
  define BC where "BC = min BT BC0"
  have BC0: "BC0 = 2 ^ (if ?BK \<le> 64 then 6 else if ?BK > 128 then 4 else 5)" by (simp add: BC0_def)
  have KB: "K \<le> ?BK" using E(2) by (simp add: pow2_spec_def)
  have cd: "cdiv K ?BK = 1" by (rule cdiv_one [OF K(1) KB])
  have p: "0 < BT" "0 < BC" "BC dvd BT" "0 < BV" using two_power_dvd_min [OF BT BC0] by (simp_all add: BT BC_def BC0_def BV_def)
  have NT: "cdiv T BT = NT" using p(1) T by simp
  have P: "packs BT 1 NT (sequence_of None [] T) (program_chunk None [] T)" using packs_fixed [of BT T "[]" "[]"] by (simp add: NT)
  let ?base = "chunk_gated_delta_rule_bwd_kernel_dhu E ?s T K V BT BC ?BK BV NT q k w g d_o dv 0"
  let ?fla = "\<lambda>i_v. for_loop 1 (\<lambda>i_n. fla_bwd_kernel_dhu (plain_env E) None [] ?s T K V BT BC ?BK BV q k w (Some (nat_gate g)) None d_o dv 0 i_v i_n)"
  have eq: "chunk_bwd_dhu_fn E BT T K V q k w g d_o dv = Inr (for_loop (cdiv V BV) ?base ((\<lambda>n. uninit E), uninit E))"
    using K(2) by (simp add: chunk_bwd_dhu_fn_def Let_def cd NT BC_def BC0_def BV_def)
  have run: "for_loop n ?fla (dh, dv2, None) = (fst (for_loop n ?base (dh, dv2)), snd (for_loop n ?base (dh, dv2)), None)" for n dh dv2
  proof (induction n)
    case (Suc n)
    then show ?case
      using bwd_dhu_kernel_eq [OF E(1) T p(2,3,1), of ?s K V ?BK BV q k w g d_o dv 0 n] by simp
  qed simp
  obtain dh dv2 where res: "for_loop (cdiv V BV) ?base ((\<lambda>n. uninit E), uninit E) = (dh, dv2)" by (rule prod.exhaust)
  have fla: "for_loop (cdiv V BV) ?fla ((\<lambda>n. uninit E), uninit E, None) = (dh, dv2, None)" by (simp only: run res fst_conv snd_conv)
  have E': "exact_casts (base (plain_env E))" "0 < (1::nat)" "sequence_of None [] T 0 = (0, T, 0)" using E(1) by (simp_all add: sequence_of_def)
  have g': "local_gate BT T g0 (seq_view 0 (nat_gate g))" "gt = gate (base (plain_env E)) BT T g0" using g gt by simp_all
  have rows: "qp = seq_rows 0 T q" "kp = seq_rows 0 T k" "wp = seq_rows 0 T w" "pp = out_grad ?s (seq_rows 0 T d_o)" by (simp_all add: q k w pp)
  have D': "D = back_state K BT (cdiv T BT) qp kp wp gt pp (start_state None 0)" by (simp add: D NT st_zero_tile)
  have L: "\<forall>m < NT. \<forall>d < K. dh m d e = D (Suc m) d e" "\<forall>t < T. dv2 t e = chunk_values K BT qp kp gt pp (t div BT) (D (Suc (t div BT))) (t mod BT) e"
    if e: "e < V" for e
  proof -
    have l: "\<forall>t<T. dv (0 + t) e = local_values K BT qp kp gt pp (t div BT) (t mod BT) e" using loc e by simp
    note L = bwd_dhu_launch [OF E'(1) P E'(2,3) g'(1) p KB e g'(2) rows l D' fla]
    show "\<forall>m < NT. \<forall>d < K. dh m d e = D (Suc m) d e" using L(1) by (simp add: NT)
    show "\<forall>t < T. dv2 t e = chunk_values K BT qp kp gt pp (t div BT) (D (Suc (t div BT))) (t mod BT) e" using L(2) by simp
  qed
  then have "\<forall>m < NT. \<forall>d < K. \<forall>e < V. dh m d e = D (Suc m) d e"
    "\<forall>t < T. \<forall>e < V. dv2 t e = chunk_values K BT qp kp gt pp (t div BT) (D (Suc (t div BT))) (t mod BT) e" by blast+
  then show ?thesis by (simp add: eq res)
qed

text \<open>What a chunk's decay gradient takes in from the next chunk.\<close>

definition chunk_spill :: "nat \<Rightarrow> nat \<Rightarrow> nat \<Rightarrow> nat \<Rightarrow> vec \<Rightarrow> (nat \<Rightarrow> mat) \<Rightarrow> (nat \<Rightarrow> mat) \<Rightarrow> nat \<Rightarrow> nat \<Rightarrow> real" where
  "chunk_spill K V BK NT g h dh BT n = exp2 (g (n * BT + BT - 1)) * (\<Sum>i<cdiv K BK. dqkw_spill K V BK NT h dh i n)"

lemma dqkw_value:
  assumes E: "exact_casts E" "pow2_spec E" and p: "0 < BT" "T = NT * BT"
    and g: "local_gate BT T g0 (nat_gate g)" and gt: "gt = gate E BT T g0" and t: "t < T" and n: "n = t div BT"
    and qn: "qn = chunk_view BT n (pad_rows T q)" and kn: "kn = chunk_view BT n (pad_rows T k)"
    and pn: "pn = chunk_view BT n (out_grad (real K powr (- (1 / 2))) (pad_rows T d_o))"
    and W: "\<forall>i d. d < K \<longrightarrow> chunk_view BT n (pad_rows T w) i d = wn i d"
    and X: "\<forall>i e. i < BT \<longrightarrow> e < V \<longrightarrow> chunk_view BT n (pad_rows T v) i e = xn i e"
    and Y: "\<forall>i e. i < BT \<longrightarrow> e < V \<longrightarrow> chunk_view BT n (pad_rows T du) i e = yn i e"
    and S: "\<forall>d e. d < K \<longrightarrow> e < V \<longrightarrow> h n d e = S d e" and D: "\<forall>d e. d < K \<longrightarrow> e < V \<longrightarrow> dh n d e = D d e"
    and ds: "ds = score_grad V (decay_between BT gt n) pn xn"
    and qi: "qi = inter_grad V (decay_in BT gt n) S pn" and ki: "ki = inter_grad V (decay_out BT gt n) D xn"
    and wi: "wi = inter_grad V (decay_in BT gt n) S yn"
    and res: "chunk_bwd_dqkw_fn E BT T K V q k v w g h du d_o dh = (dq, dk, dw, dg)"
  shows "d < K \<Longrightarrow> dq t d = chunk_dq BT kn qi ds (t mod BT) d"
    and "d < K \<Longrightarrow> dk t d = chunk_dk BT qn ki ds (t mod BT) d"
    and "d < K \<Longrightarrow> dw t d = - wi (t mod BT) d"
    and "dg t = chunk_dc BT K qn kn wn qi ki wi ds (t mod BT)
      + (if t + 1 = min ((n + 1) * BT) T then last_dc BT K V kn ki S D (decay_all BT gt n) else 0)
      + (if t mod BT = BT - 1 then chunk_spill K V (min (next_pow2 E K) 64) NT g h dh BT n else 0)"
proof -
  let ?BK = "min (next_pow2 E K) 64" and ?BV = "min (next_pow2 E V) 64" and ?s = "real K powr (- (1 / 2))"
  have b: "0 < ?BK" "0 < ?BV" using pow2_block [OF E(2)] by auto
  have NT: "cdiv T BT = NT" using p by simp
  have P: "packs BT 1 NT (sequence_of None [] T) (program_chunk None [] T)" using packs_fixed [of BT T "[]" "[]"] by (simp add: NT)
  let ?init = "(uninit E, uninit E, (\<lambda>n t. 0), uninit E)"
  obtain dq0 dk0 dgs0 dw0 where loop: "for_loop (cdiv K ?BK) (\<lambda>i_k. for_loop NT (\<lambda>i_t.
      chunk_gated_delta_rule_bwd_kernel_dqkw E ?s T K V BT ?BK ?BV NT q k v w g h d_o dh du i_k i_t)) ?init = (dq0, dk0, dgs0, dw0)"
    by (rule prod_cases4)
  obtain dq' dk' dgs dw' where run: "for_loop (cdiv K ?BK) (\<lambda>i_k. for_loop NT (\<lambda>i_t.
      fla_chunk_bwd_kernel_dqkwg (plain_env E) None [] ?s T K V BT ?BK ?BV q k v h (Some (nat_gate g)) d_o dh (Some (w, du)) i_k i_t)) ?init = (dq', dk', dgs, dw')"
    by (rule prod_cases4)
  note same = dqkw_launch [OF E(1) b p loop run]
  have l: "t div BT * BT + BT - 1 = t" if "t mod BT = BT - 1"
    using that p(1) div_mult_mod_eq [of t BT] by linarith
  have out: "dq = dq'" "dk = dk'" "dw = dw'" "dg t = (\<Sum>n < cdiv K ?BK. dgs n t) + (if t mod BT = BT - 1 then chunk_spill K V ?BK NT g h dh BT n else 0)"
    using res same(1-3) same(4) [OF t] l unfolding chunk_bwd_dqkw_fn_def Let_def NT loop n chunk_spill_def by auto
  have E': "exact_casts (base (plain_env E))" "0 < (1::nat)" "sequence_of None [] T 0 = (0, T, 0)" using E(1) by (simp_all add: sequence_of_def)
  have g': "local_gate BT T g0 (seq_view 0 (nat_gate g))" "decays_exact (plain_env E) BT T (seq_view 0 (nat_gate g))"
    "gt = gate (base (plain_env E)) BT T g0" using g gt by (simp_all add: decays_exact_def)
  have rows: "qn = chunk_view BT n (seq_rows 0 T q)" "kn = chunk_view BT n (seq_rows 0 T k)" "pn = chunk_view BT n (out_grad ?s (seq_rows 0 T d_o))"
    "\<forall>i d. d < K \<longrightarrow> chunk_view BT n (seq_rows 0 T w) i d = wn i d" "\<forall>i e. i < BT \<longrightarrow> e < V \<longrightarrow> chunk_view BT n (seq_rows 0 T v) i e = xn i e"
    "\<forall>i e. i < BT \<longrightarrow> e < V \<longrightarrow> chunk_view BT n (seq_rows 0 T du) i e = yn i e"
    "\<forall>d e. d < K \<longrightarrow> e < V \<longrightarrow> h (0 + n) d e = S d e" "\<forall>d e. d < K \<longrightarrow> e < V \<longrightarrow> dh (0 + n) d e = D d e"
    using qn kn pn W X Y S D by simp_all
  note v = dqkwg_grads [OF E'(1) b p(1) P E'(2,3) g' t n rows ds qi ki wi run, unfolded add_0]
  show "d < K \<Longrightarrow> dq t d = chunk_dq BT kn qi ds (t mod BT) d" "d < K \<Longrightarrow> dk t d = chunk_dk BT qn ki ds (t mod BT) d"
    "d < K \<Longrightarrow> dw t d = - wi (t mod BT) d"
    "dg t = chunk_dc BT K qn kn wn qi ki wi ds (t mod BT) + (if t + 1 = min ((n + 1) * BT) T then last_dc BT K V kn ki S D (decay_all BT gt n) else 0)
      + (if t mod BT = BT - 1 then chunk_spill K V ?BK NT g h dh BT n else 0)"
    unfolding out v(4) by (rule v refl; assumption?)+
qed

section \<open>The backward pass returns the gradients\<close>

lemma rev_cumsum_tail:
  assumes BT: "0 < BT" and T: "T = NT * BT" and t: "t < T"
  shows "rev_cumsum BT x t = rev_chunk_sum BT T x t"
proof -
  let ?n = "t div BT" and ?i = "t mod BT"
  have i: "?i < BT" "?n * BT + ?i = t" using BT by simp_all
  have nN: "?n < NT" using T t by (simp add: less_mult_imp_div_less)
  have m: "min T ((?n + 1) * BT) = ?n * BT + BT" using block_end [OF nN, of BT] T by (simp add: add.commute)
  let ?f = "\<lambda>j. x (?n * BT + j)"
  have c: "cumsum (chunk_view BT ?n x) j = sum ?f {0..<Suc j}" for j
    by (simp add: cumsum_def chunk_view_def atLeast0LessThan lessThan_Suc_atMost)
  have "rev_cumsum BT x t = sum ?f {0..<BT} - sum ?f {0..<Suc ?i} + ?f ?i"
    using BT i(2) by (simp add: rev_cumsum_def c)
  also have "\<dots> = sum ?f {0..<BT} - sum ?f {0..<?i}" by simp
  also have "\<dots> = sum ?f {?i..<BT}" using i(1) sum.atLeastLessThan_concat [of 0 ?i BT ?f] by simp
  also have "\<dots> = sum x {?n * BT + ?i..<?n * BT + BT}"
    using sum.shift_bounds_nat_ivl [of x ?i "?n * BT" BT] by (simp only: add.commute)
  finally show ?thesis by (simp only: rev_chunk_sum_def m i(2))
qed

lemma rev_last_row:
  assumes BT: "0 < BT" and T: "T = NT * BT" and t: "t < T"
  shows "rev_chunk_sum BT T (\<lambda>t. if t mod BT = BT - 1 then f (t div BT) else 0) t = f (t div BT)"
proof -
  let ?n = "t div BT" and ?l = "t div BT * BT + BT - 1"
  have nN: "?n < NT" using T t by (simp add: less_mult_imp_div_less)
  have m: "min T ((?n + 1) * BT) = ?n * BT + BT" using block_end [OF nN, of BT] T by (simp add: add.commute)
  have tm: "?n * BT + t mod BT = t" "t mod BT < BT" using BT by simp_all
  have in_chunk: "s div BT = ?n" "s mod BT = BT - 1 \<longleftrightarrow> s = ?l" if "t \<le> s" "s < ?n * BT + BT" for s
  proof -
    have le: "?n * BT \<le> s" using that(1) tm by linarith
    show d: "s div BT = ?n" using le that(2) by (intro div_nat_eqI) (simp_all add: mult.commute)
    show "s mod BT = BT - 1 \<longleftrightarrow> s = ?l" using div_mult_mod_eq [of s BT] BT unfolding d by linarith
  qed
  have "rev_chunk_sum BT T (\<lambda>t. if t mod BT = BT - 1 then f (t div BT) else 0) t
    = (\<Sum>s = t..<?n * BT + BT. if s = ?l then f ?n else 0)"
    unfolding rev_chunk_sum_def m
  proof (intro sum.cong refl)
    fix s assume "s \<in> {t..<?n * BT + BT}"
    then have s: "t \<le> s" "s < ?n * BT + BT" by simp_all
    show "(if s mod BT = BT - 1 then f (s div BT) else 0) = (if s = ?l then f ?n else 0)"
      unfolding in_chunk(2) [OF s] in_chunk(1) [OF s] by (rule refl)
  qed
  also have "\<dots> = f ?n"
  proof -
    have "t \<le> ?l" "?l < ?n * BT + BT" using tm BT by linarith+
    then have "?l \<in> {t..<?n * BT + BT}" by simp
    then show ?thesis by (simp add: sum.delta)
  qed
  finally show ?thesis .
qed

text \<open>What the forward pass saves for the backward pass, besides the inputs.\<close>

definition ChunkGatedDeltaRuleFunction_saved ::
  "kernel_env \<Rightarrow> nat \<Rightarrow> nat \<Rightarrow> nat \<Rightarrow> nat \<Rightarrow> mat \<Rightarrow> mat \<Rightarrow> vec \<Rightarrow> vec \<Rightarrow> vec \<times> mat \<times> mat \<times> mat \<times> mat" where
  "ChunkGatedDeltaRuleFunction_saved E BT T K V k v beta g =
     (let g = chunk_cumsum E BT g;
          (w, u, A_w, A_u, A_w_original, A_u_original) = fwd_prepare_wy_repr E BT T K V k v beta g
      in (g, A_w, A_u, A_w_original, A_u_original))"

lemma saved_gate:
  assumes E: "exact_casts E" and BT: "0 < BT" and T: "T = NT * BT" and g0: "g0 = (\<lambda>t. ln 2 * LOG2E * g t)"
  shows "local_gate BT T g0 (nat_gate (chunk_cumsum E BT g))"
    and "t < T \<Longrightarrow> gate E BT T g0 t = chunk_cumsum E BT g t"
proof -
  have row: "cumsum (chunk_view BT (t div BT) (pad_vec T x)) (t mod BT) = cumsum (chunk_view BT (t div BT) x) (t mod BT)"
    if t: "t < T" for x t
  proof -
    have nN: "t div BT < NT" using T t by (simp add: less_mult_imp_div_less)
    have "t div BT * BT + j < T" if "j \<le> t mod BT" for j
      using that mod_less_divisor [OF BT, of t] block_end [OF nN, of BT] T by simp
    then show ?thesis unfolding cumsum_def chunk_view_def by (intro sum.cong refl) simp
  qed
  have saved: "chunk_cumsum E BT g t = cumsum (chunk_view BT (t div BT) g) (t mod BT) * LOG2E" for t
    using chunk_cumsum_at [OF E, of "t mod BT" BT g "t div BT"] BT by simp
  have lin: "cumsum (chunk_view BT n g0) i = ln 2 * LOG2E * cumsum (chunk_view BT n g) i" for n i
    by (simp add: g0 cumsum_def chunk_view_def sum_distrib_left)
  show "local_gate BT T g0 (nat_gate (chunk_cumsum E BT g))"
    by (simp add: local_gate_def nat_gate_def saved row lin)
  show "gate E BT T g0 t = chunk_cumsum E BT g t" if t: "t < T"
    using gate_at [OF E, of "t mod BT" BT T g0 "t div BT"] BT by (simp add: row [OF t] lin saved)
qed

lemma saved_solutions:
  assumes E: "exact_casts E" "pow2_spec E" and BT: "0 < BT" and T: "T = NT * BT"
    and gt: "\<forall>t < T. gt t = chunk_cumsum E BT g t" and kp: "kp = pad_rows T k" and bp: "bp = pad_vec T beta"
    and sv: "ChunkGatedDeltaRuleFunction_saved E BT T K V k v beta g = (gs, A_w, A_u, Ao_w, Ao_u)"
  shows "gs = chunk_cumsum E BT g"
    and "\<forall>t j. t < T \<longrightarrow> t div BT = n \<longrightarrow> j < BT \<longrightarrow> A_w t j = chunk_solution BT (chunk_gram K BT kp bp n) (t mod BT) j"
    and "\<forall>t j. t < T \<longrightarrow> t div BT = n \<longrightarrow> j < BT \<longrightarrow> A_u t j = chunk_solution BT (decayed_gram K BT kp bp gt n) (t mod BT) j"
    and "\<forall>t j. t < T \<longrightarrow> t div BT = n \<longrightarrow> j < BT \<longrightarrow> Ao_w t j = neg_strict_lower (chunk_gram K BT kp bp n) (t mod BT) j"
    and "\<forall>t j. t < T \<longrightarrow> t div BT = n \<longrightarrow> j < BT \<longrightarrow> Ao_u t j = neg_strict_lower (decayed_gram K BT kp bp gt n) (t mod BT) j"
proof -
  obtain w u where gs: "gs = chunk_cumsum E BT g" and wy: "fwd_prepare_wy_repr E BT T K V k v beta gs = (w, u, A_w, A_u, Ao_w, Ao_u)"
    using sv by (auto simp: ChunkGatedDeltaRuleFunction_saved_def Let_def split: prod.splits)
  show "gs = chunk_cumsum E BT g" by (rule gs)
  have gram: "chunk_gram K BT k beta n i j = chunk_gram K BT kp bp n i j" "decayed_gram K BT k beta gs n i j = decayed_gram K BT kp bp gt n i j"
    if "n < NT" "i < BT" "j < BT" for n i j
  proof -
    have at: "n * BT + l < T" if "l < BT" for l using block_end [OF \<open>n < NT\<close>, of BT] that T by simp
    show "chunk_gram K BT k beta n i j = chunk_gram K BT kp bp n i j" by (simp add: chunk_gram_def kp bp at that)
    then show "decayed_gram K BT k beta gs n i j = decayed_gram K BT kp bp gt n i j"
      by (simp add: decayed_gram_def gt gs at that)
  qed
  have nN: "t div BT < NT" "t mod BT < BT" if "t < T" for t using T that BT by (simp_all add: less_mult_imp_div_less)
  note rows = fwd_prepare_wy_repr_rows [OF E BT T _ wy] and orig = original_rows [OF E BT T _ wy]
  show "\<forall>t j. t < T \<longrightarrow> t div BT = n \<longrightarrow> j < BT \<longrightarrow> A_w t j = chunk_solution BT (chunk_gram K BT kp bp n) (t mod BT) j"
    using rows(3) solve_cong [OF gram(1) nN(2)] nN by auto
  show "\<forall>t j. t < T \<longrightarrow> t div BT = n \<longrightarrow> j < BT \<longrightarrow> A_u t j = chunk_solution BT (decayed_gram K BT kp bp gt n) (t mod BT) j"
    using rows(4) solve_cong [OF gram(2) nN(2)] nN by auto
  show "\<forall>t j. t < T \<longrightarrow> t div BT = n \<longrightarrow> j < BT \<longrightarrow> Ao_w t j = neg_strict_lower (chunk_gram K BT kp bp n) (t mod BT) j"
    using orig(1) nN gram(1) by (auto simp: neg_strict_lower_def)
  show "\<forall>t j. t < T \<longrightarrow> t div BT = n \<longrightarrow> j < BT \<longrightarrow> Ao_u t j = neg_strict_lower (decayed_gram K BT kp bp gt n) (t mod BT) j"
    using orig(2) nN gram(2) by (auto simp: neg_strict_lower_def)
qed

text \<open>
  The backward function for any head dimension: every gradient is the one of the specification, but the
  decay gradient sums up the spills too.
\<close>

lemma chunk_backward_rows:
  assumes E: "exact_casts E" "pow2_spec E" and K: "0 < K" "next_pow2 E K \<le> 256"
    and BT: "BT = 2 ^ e" and T: "T = NT * BT" and S0: "S0 = (case init of None \<Rightarrow> zero_tile | Some h0 \<Rightarrow> h0)"
    and sv: "ChunkGatedDeltaRuleFunction_saved E BT T K V k v beta g = (gs, A_w, A_u, Ao_w, Ao_u)"
    and gr: "gr = sequence_grads E K V BT T (real K powr (- (1 / 2))) q k v beta (\<lambda>t. ln 2 * LOG2E * g t) S0 d_o zero_tile"
  shows "\<exists>dq dk dv db dg w u h vn dh du.
    ChunkGatedDeltaRuleFunction_backward E BT T K V q k v beta gs A_w A_u Ao_w Ao_u init d_o d_ht = Inr (dq, dk, dv, db, dg) \<and>
    fwd_recompute_w_u E BT T K V k v beta A_w A_u = (w, u) \<and>
    chunk_fwd_h_fn E (\<lambda>x. x) BT T K V k w u gs init None True = Inr (h, vn, None) \<and>
    chunk_bwd_dhu_fn E BT T K V q k w gs d_o (fwd_prepare_du E BT T K V q k gs d_o) = Inr (dh, du) \<and>
    (\<forall>t < T. (\<forall>d < K. dq t d = gr_q gr t d \<and> dk t d = gr_k gr t d) \<and> (\<forall>e < V. dv t e = gr_v gr t e) \<and>
      db t = gr_beta gr t \<and> dg t = rev_chunk_sum BT T (gr_gate gr) t + chunk_spill K V (min (next_pow2 E K) 64) NT gs h dh BT (t div BT))"
proof -
  let ?s = "real K powr (- (1 / 2))"
  define g0 where "g0 = (\<lambda>t. ln 2 * LOG2E * g t)"
  have pos: "0 < BT" by (simp add: BT)
  have NT: "cdiv T BT = NT" using pos T by simp
  have casts: "mcast (to_in E) M = M" "to_in E = (\<lambda>x. x)" "to_f32 E = (\<lambda>x. x)" for M using E(1) by (simp_all add: exact_casts_def mcast_def)
  define gt where "gt = gate E BT T g0"
  have gate: "\<forall>t < T. gt t = chunk_cumsum E BT g t" using saved_gate(2) [OF E(1) pos T g0_def] by (simp add: gt_def)
  define qp where "qp = pad_rows T q"
  define kp where "kp = pad_rows T k"
  define vp where "vp = pad_rows T v"
  define bp where "bp = pad_vec T beta"
  define pp where "pp = out_grad ?s (pad_rows T d_o)"
  note sols = saved_solutions [OF E pos T gate kp_def bp_def sv]
  note gs = sols(1) and sols = sols(2-5)
  have lg: "local_gate BT T g0 (nat_gate gs)" unfolding gs by (rule saved_gate(1) [OF E(1) pos T g0_def])
  define W where "W = wy_w K BT kp bp"
  define U where "U = wy_u K BT kp vp bp gt"
  define H where "H = h_states K BT kp W U gt S0"
  define X where "X = (\<lambda>n. new_value K BT W U gt (H n) n)"
  define D where "D = back_state K BT NT qp kp W gt pp zero_tile"
  define Y where "Y = (\<lambda>n. chunk_values K BT qp kp gt pp n (D (Suc n)))"
  define ds where "ds = (\<lambda>n. score_grad V (decay_between BT gt n) (chunk_view BT n pp) (X n))"
  define qi where "qi = (\<lambda>n. inter_grad V (decay_in BT gt n) (H n) (chunk_view BT n pp))"
  define ki where "ki = (\<lambda>n. inter_grad V (decay_out BT gt n) (D (Suc n)) (X n))"
  define wi where "wi = (\<lambda>n. inter_grad V (decay_in BT gt n) (H n) (Y n))"
  define Sw where "Sw = (\<lambda>n. chunk_solution BT (chunk_gram K BT kp bp n))"
  define Su where "Su = (\<lambda>n. chunk_solution BT (decayed_gram K BT kp bp gt n))"
  define dMw where "dMw = (\<lambda>n. solve_grad BT K (Sw n) (\<lambda>i d. - wi n i d) (chunk_view BT n W))"
  define dMu where "dMu = (\<lambda>n. solve_grad BT V (Su n) (Y n) (chunk_view BT n U))"
  define ex where "ex = (\<lambda>n i j. exp2 (gt (n * BT + i) - gt (n * BT + j)))"
  define G where "G = (\<lambda>n. gram_grad (dMw n) (dMu n) (ex n))"
  define Q where "Q = (\<lambda>n i j. dMu n i j * ex n i j * chunk_gram K BT kp bp n i j)"
  define Zw where "Zw = (\<lambda>n. back_rows BT (Sw n) (\<lambda>i d. - wi n i d))"
  define Zu where "Zu = (\<lambda>n. back_rows BT (Su n) (Y n))"
  have grads: "gr_q gr t d = chunk_dq BT (chunk_view BT (t div BT) kp) (qi (t div BT)) (ds (t div BT)) (t mod BT) d"
    "gr_k gr t d = chunk_dk BT (chunk_view BT (t div BT) qp) (ki (t div BT)) (ds (t div BT)) (t mod BT) d
      + wy_dk BT (chunk_view BT (t div BT) kp) (chunk_view BT (t div BT) bp) (Zw (t div BT)) (G (t div BT)) (t mod BT) d"
    "gr_v gr t d = Zu (t div BT) (t mod BT) d * chunk_view BT (t div BT) bp (t mod BT)"
    "gr_beta gr t = wy_db BT K V (chunk_view BT (t div BT) kp) (chunk_view BT (t div BT) vp) (Zw (t div BT)) (Zu (t div BT)) (G (t div BT)) (t mod BT)"
    "gr_gate gr t = chunk_dc BT K (chunk_view BT (t div BT) qp) (chunk_view BT (t div BT) kp) (chunk_view BT (t div BT) W)
         (qi (t div BT)) (ki (t div BT)) (wi (t div BT)) (ds (t div BT)) (t mod BT)
       + (if t + 1 = min ((t div BT + 1) * BT) T
          then last_dc BT K V (chunk_view BT (t div BT) kp) (ki (t div BT)) (H (t div BT)) (D (Suc (t div BT))) (decay_all BT gt (t div BT)) else 0)
       + wy_dc BT (Q (t div BT)) (t mod BT)" for t d
    by (simp_all only: gr sequence_grads_def Let_def seq_grads.simps gt_def W_def U_def H_def X_def pp_def qp_def kp_def vp_def bp_def NT g0_def
      D_def Y_def ds_def qi_def ki_def wi_def Sw_def Su_def dMw_def dMu_def ex_def G_def Zw_def Zu_def Q_def)
  have at: "n * BT + i < T" if "n < NT" "i < BT" for n i using block_end [OF that(1), of BT] that(2) T by simp
  have nN: "t div BT < NT" "t mod BT < BT" if "t < T" for t using T that pos by (simp_all add: less_mult_imp_div_less)
  \<comment> \<open>the recomputed \<open>w\<close> and \<open>u\<close>\<close>
  obtain w u where wu0: "fwd_recompute_w_u E BT T K V k v beta A_w A_u = (w, u)" by (rule prod.exhaust)
  have sr: "scaled_rows BT x beta n j d = scaled_rows BT (pad_rows T x) bp n j d" if "n < NT" "j < BT" for x n j d
    using at [OF that] by (simp add: scaled_rows_def bp_def)
  have wu: "d < K \<Longrightarrow> w t d = W t d" "e' < V \<Longrightarrow> u t e' = U t e'" if t: "t < T" for t d e'
  proof -
    have A: "\<And>t j. t < T \<Longrightarrow> j < BT \<Longrightarrow> A_w t j = Sw (t div BT) (t mod BT) j" "\<And>t j. t < T \<Longrightarrow> j < BT \<Longrightarrow> A_u t j = Su (t div BT) (t mod BT) j"
      using sols(1,2) by (simp_all add: Sw_def Su_def)
    note r = fwd_recompute_rows [where Bw = Sw and Bu = Su and A_w = A_w and A_u = A_u and K = K and V = V and k = k and v = v and beta = beta,
      OF E pos T t, unfolded wu0 fst_conv snd_conv]
    show "w t d = W t d" if d: "d < K"
    proof -
      have "w t d = dot BT (Sw (t div BT)) (scaled_rows BT k beta (t div BT)) (t mod BT) d" by (rule r(1)) (use A d in auto)
      also have "\<dots> = W t d" unfolding W_def wy_w_def Sw_def by (rule dot_cong) (use sr [OF nN(1) [OF t]] in \<open>auto simp: kp_def\<close>)
      finally show ?thesis .
    qed
    show "u t e' = U t e'" if d: "e' < V"
    proof -
      have "u t e' = dot BT (Su (t div BT)) (scaled_rows BT v beta (t div BT)) (t mod BT) e'" by (rule r(2)) (use A d in auto)
      also have "\<dots> = U t e'" unfolding U_def wy_u_def Su_def by (rule dot_cong) (use sr [OF nN(1) [OF t]] in \<open>auto simp: vp_def\<close>)
      finally show ?thesis .
    qed
  qed
  \<comment> \<open>the recomputed states and new values\<close>
  obtain h vn where run1: "chunk_fwd_h_fn E (\<lambda>x. x) BT T K V k w u gs init None True = Inr (h, vn, None)"
    and h0: "\<forall>n < NT. \<forall>r < K. \<forall>c < V. h n r c = h_states K BT k w u gs S0 n r c"
    and vn0: "\<forall>t < T. \<forall>c < V. vn t c = new_value K BT w u gs (h_states K BT k w u gs S0 (t div BT)) (t div BT) (t mod BT) c"
    using chunk_fwd_h_fn_columns [OF E K(1,2) BT T S0, where V = V and k = k and w = w and u = u and g = gs] by blast
  have Hc: "h_states K BT k w u gs S0 n r c = H n r c" if "n \<le> NT" "r < K" "c < V" for n r c
  proof -
    have "h_states K BT k w u gs S0 n r c = h_states K BT kp w u gt S0 n r c"
      by (rule h_states_inputs [OF _ _ pos that(1,2)]) (simp_all add: kp_def T [symmetric] gate gs)
    also have "\<dots> = H n r c" unfolding H_def by (rule h_states_cong [OF _ _ that(1)]) (use wu that T in auto)
    finally show ?thesis .
  qed
  have h: "h n r c = H n r c" if "n < NT" "r < K" "c < V" for n r c using h0 Hc that by simp
  have vn: "vn t c = X (t div BT) (t mod BT) c" if "t < T" "c < V" for t c
    using vn0 that Hc [OF less_imp_le [OF nN(1) [OF that(1)]] _ that(2)] at [OF nN [OF that(1)]] gate wu
    by (simp add: X_def new_value_def gs cong: sum.cong_simp)
  \<comment> \<open>the state gradients and the new values' gradients\<close>
  let ?du = "fwd_prepare_du E BT T K V q k gs d_o"
  have loc: "\<forall>t<T. \<forall>e'<V. ?du t e' = local_values K BT qp kp gt pp (t div BT) (t mod BT) e'"
    using du_value [OF E pos T lg gt_def] by (simp add: qp_def kp_def pp_def)
  have wr: "pad_rows T w t d = W t d" if "d < K" for t d
  proof (cases "t < T")
    case True
    then show ?thesis using wu(1) that by simp
  next
    case False
    then show ?thesis using wy_zero(1) [OF pos, of T t K k beta d] by (simp add: pad_rows_def W_def kp_def bp_def)
  qed
  have Dc: "back_state K BT NT qp kp (pad_rows T w) gt pp zero_tile m d e' = D m d e'" if "d < K" for m d e'
    unfolding D_def by (rule back_state_cong [OF _ that]) (use wr in auto)
  obtain dh dv2 where run2: "chunk_bwd_dhu_fn E BT T K V q k w gs d_o ?du = Inr (dh, dv2)"
    and dh0: "\<forall>m<NT. \<forall>d<K. \<forall>e'<V. dh m d e' = back_state K BT NT qp kp (pad_rows T w) gt pp zero_tile (Suc m) d e'"
    and dv20: "\<forall>t<T. \<forall>e'<V. dv2 t e' = chunk_values K BT qp kp gt pp (t div BT)
      (back_state K BT NT qp kp (pad_rows T w) gt pp zero_tile (Suc (t div BT))) (t mod BT) e'"
    using dhu_value [OF E K(1,2) BT T lg gt_def qp_def kp_def refl pp_def loc refl] by blast
  have dh: "dh m d e' = D (Suc m) d e'" if "m < NT" "d < K" "e' < V" for m d e' using dh0 that by (simp add: Dc)
  have dv2: "dv2 t e' = Y (t div BT) (t mod BT) e'" if "t < T" "e' < V" for t e'
    using dv20 that by (simp add: Y_def chunk_values_split Dc cong: sum.cong_simp)
  \<comment> \<open>the kernel for queries, keys and \<open>w\<close>\<close>
  obtain dq dk1 dw dg1 where run3: "chunk_bwd_dqkw_fn E BT T K V q k vn w gs h dv2 d_o dh = (dq, dk1, dw, dg1)" by (rule prod_cases4)
  let ?spill = "chunk_spill K V (min (next_pow2 E K) 64) NT gs h dh BT"
  have qkw: "d < K \<Longrightarrow> dq t d = gr_q gr t d"
    "d < K \<Longrightarrow> dk1 t d = chunk_dk BT (chunk_view BT (t div BT) qp) (ki (t div BT)) (ds (t div BT)) (t mod BT) d"
    "d < K \<Longrightarrow> dw t d = - wi (t div BT) (t mod BT) d"
    "dg1 t + wy_dc BT (Q (t div BT)) (t mod BT) = gr_gate gr t + (if t mod BT = BT - 1 then ?spill (t div BT) else 0)" if t: "t < T" for t d
  proof -
    define n where "n = t div BT"
    have n: "n < NT" using nN(1) [OF t] by (simp add: n_def)
    have i: "\<forall>i d. d < K \<longrightarrow> chunk_view BT n (pad_rows T w) i d = chunk_view BT n W i d"
      "\<forall>i e. i < BT \<longrightarrow> e < V \<longrightarrow> chunk_view BT n (pad_rows T vn) i e = X n i e"
      "\<forall>i e. i < BT \<longrightarrow> e < V \<longrightarrow> chunk_view BT n (pad_rows T dv2) i e = Y n i e"
      "\<forall>d e. d < K \<longrightarrow> e < V \<longrightarrow> h n d e = H n d e" "\<forall>d e. d < K \<longrightarrow> e < V \<longrightarrow> dh n d e = D (Suc n) d e"
      using n at [OF n] by (simp_all add: chunk_view_def wr vn dv2 h dh)
    note v = dqkw_value [OF E pos T lg gt_def t n_def refl refl refl i refl refl refl refl run3, folded qp_def kp_def pp_def]
    show "d < K \<Longrightarrow> dq t d = gr_q gr t d" using v(1) by (simp only: grads ds_def qi_def n_def)
    show "d < K \<Longrightarrow> dk1 t d = chunk_dk BT (chunk_view BT (t div BT) qp) (ki (t div BT)) (ds (t div BT)) (t mod BT) d"
      using v(2) by (simp only: ds_def ki_def n_def)
    show "d < K \<Longrightarrow> dw t d = - wi (t div BT) (t mod BT) d" using v(3) by (simp only: wi_def n_def)
    show "dg1 t + wy_dc BT (Q (t div BT)) (t mod BT) = gr_gate gr t + (if t mod BT = BT - 1 then ?spill (t div BT) else 0)"
      using v(4) by (simp only: grads ds_def qi_def ki_def wi_def n_def)
  qed
  \<comment> \<open>the gradients of the representation\<close>
  obtain dk2 dv db dg2 where run4: "bwd_prepare_wy_repr E BT T K V k v beta gs A_w A_u Ao_w Ao_u dw dv2 = (dk2, dv, db, dg2)" by (rule prod_cases4)
  have wy: "d < K \<Longrightarrow> dk2 t d = wy_dk BT (chunk_view BT (t div BT) kp) (chunk_view BT (t div BT) bp) (Zw (t div BT)) (G (t div BT)) (t mod BT) d"
    "e' < V \<Longrightarrow> dv t e' = gr_v gr t e'" "db t = gr_beta gr t" "dg2 t = wy_dc BT (Q (t div BT)) (t mod BT)" if t: "t < T" for t d e'
  proof -
    define n where "n = t div BT"
    have n: "n < NT" using nN(1) [OF t] by (simp add: n_def)
    define yw where "yw = chunk_view BT n (pad_rows T dw)"
    define yu where "yu = chunk_view BT n (pad_rows T dv2)"
    have y: "\<forall>i c. i < BT \<longrightarrow> c < K \<longrightarrow> yw i c = - wi n i c" "\<forall>i c. i < BT \<longrightarrow> c < V \<longrightarrow> yu i c = Y n i c"
      using n at [OF n] by (simp_all add: yw_def yu_def chunk_view_def qkw(3) dv2)
    note z = solve_grads_cong(1) [OF y(1), of _ "Sw n", folded fun_cong [OF Zw_def]] solve_grads_cong(1) [OF y(2), of _ "Su n", folded fun_cong [OF Zu_def]]
    have dM: "dMw n = solve_grad BT K (Sw n) yw (chunk_view BT n W)" "dMu n = solve_grad BT V (Su n) yu (chunk_view BT n U)"
      by (simp_all add: dMw_def dMu_def solve_grads_cong(2) [OF y(1)] solve_grads_cong(2) [OF y(2)])
    have eg: "\<forall>i j. i < BT \<longrightarrow> j < BT \<longrightarrow> exp2 (gs (n * BT + i) - gs (n * BT + j)) = ex n i j"
      using at [OF n] gate by (simp add: ex_def gs)
    note v = bwd_prepare_wy_repr_rows [OF E pos T t n_def run4 kp_def vp_def bp_def yw_def yu_def fun_cong [OF Sw_def] fun_cong [OF Su_def]
      sols(1) [folded fun_cong [OF Sw_def]] sols(2) [folded fun_cong [OF Su_def]] sols(3,4) eg dM(1) [unfolded W_def] dM(2) [unfolded U_def]
      fun_cong [OF G_def] fun_cong [OF Q_def] refl refl]
    show "d < K \<Longrightarrow> dk2 t d = wy_dk BT (chunk_view BT (t div BT) kp) (chunk_view BT (t div BT) bp) (Zw (t div BT)) (G (t div BT)) (t mod BT) d"
      using v(1) by (simp add: wy_dk_def z n_def [symmetric])
    show "e' < V \<Longrightarrow> dv t e' = gr_v gr t e'" using v(2) by (simp add: grads z n_def [symmetric])
    show "db t = gr_beta gr t" using v(3) by (simp add: grads wy_db_def z n_def [symmetric] cong: sum.cong_simp)
    show "dg2 t = wy_dc BT (Q (t div BT)) (t mod BT)" using v(4) by (simp add: n_def [symmetric])
  qed
  have T': "\<not> (BT = 0 \<or> T mod BT \<noteq> 0)" using pos T by simp
  have run: "ChunkGatedDeltaRuleFunction_backward E BT T K V q k v beta gs A_w A_u Ao_w Ao_u init d_o d_ht
    = Inr (dq, madd dk1 dk2, dv, db, rev_cumsum BT (\<lambda>t. dg1 t + dg2 t))"
    unfolding ChunkGatedDeltaRuleFunction_backward_def Let_def wu0 prod.case run1 rbind_Inr run2 run3 run4 if_not_P [OF T'] by (simp add: casts mcast_def)
  have gate_sum: "rev_chunk_sum BT T (\<lambda>t. dg1 t + dg2 t) t = rev_chunk_sum BT T (gr_gate gr) t + ?spill (t div BT)" if t: "t < T" for t
  proof -
    have "rev_chunk_sum BT T (\<lambda>t. dg1 t + dg2 t) t = rev_chunk_sum BT T (\<lambda>t. gr_gate gr t + (if t mod BT = BT - 1 then ?spill (t div BT) else 0)) t"
      unfolding rev_chunk_sum_def by (intro sum.cong refl) (simp add: wy(4) qkw(4))
    also have "\<dots> = rev_chunk_sum BT T (gr_gate gr) t + rev_chunk_sum BT T (\<lambda>t. if t mod BT = BT - 1 then ?spill (t div BT) else 0) t"
      by (simp add: rev_chunk_sum_def sum.distrib)
    finally show ?thesis by (simp only: rev_last_row [OF pos T t])
  qed
  have "\<forall>t < T. (\<forall>d < K. dq t d = gr_q gr t d \<and> madd dk1 dk2 t d = gr_k gr t d) \<and> (\<forall>e' < V. dv t e' = gr_v gr t e') \<and>
      db t = gr_beta gr t \<and> rev_cumsum BT (\<lambda>t. dg1 t + dg2 t) t = rev_chunk_sum BT T (gr_gate gr) t + ?spill (t div BT)"
    by (intro allI impI conjI) (simp_all add: qkw(1,2) wy madd_def grads(2) rev_cumsum_tail [OF pos T] gate_sum)
  with run wu0 run1 run2 show ?thesis by (intro exI conjI)
qed

text \<open>The loss a caller differentiates: the upstream gradient \<open>d_o\<close> times the outputs of the forward pass.\<close>

definition chunk_loss ::
  "kernel_env \<Rightarrow> (real \<Rightarrow> real) \<Rightarrow> nat \<Rightarrow> nat \<Rightarrow> nat \<Rightarrow> nat \<Rightarrow> mat \<Rightarrow> mat \<Rightarrow> mat \<Rightarrow> vec \<Rightarrow> vec \<Rightarrow> mat option \<Rightarrow> bool
     \<Rightarrow> mat \<Rightarrow> real" where
  "chunk_loss E to_ht BT T K V q k v beta g initial_state ofs d_o =
     (case ChunkGatedDeltaRuleFunction_forward E to_ht BT T K V q k v beta g initial_state ofs of
        Inl err \<Rightarrow> 0
      | Inr (out, fs) \<Rightarrow> (\<Sum>t<T. \<Sum>e<V. d_o t e * out t e))"

lemma chunk_loss_recurrence:
  assumes E: "exact_casts E" "pow2_spec E" and K: "0 < K" "next_pow2 E K \<le> 256" and BT: "BT = 2 ^ e" and T: "T = NT * BT"
    and S0: "S0 = (case init of None \<Rightarrow> zero_tile | Some h0 \<Rightarrow> h0)"
  shows "chunk_loss E to_ht BT T K V q k v beta g init ofs d_o
    = sequence_loss K V T (real K powr (- (1 / 2))) q k v beta (\<lambda>t. ln 2 * LOG2E * g t) S0 d_o zero_tile"
proof -
  have ex: "exp (ln 2 * LOG2E * x) = exp2 (LOG2E * x)" for x by (simp add: exp2_def powr_def mult_ac)
  obtain out where run: "ChunkGatedDeltaRuleFunction_forward E to_ht BT T K V q k v beta g init ofs = Inr (out, None)"
    and out: "\<forall>t < T. \<forall>c < V. out t c = (\<Sum>d<K. q t d * real K powr (- (1 / 2))
        * delta_states K (\<lambda>i. exp2 (LOG2E * g i)) k v beta S0 (Suc t) d c)"
    using forward_columns [OF E K BT T S0, where to_ht = to_ht and V = V and q = q and k = k and v = v and beta = beta and g = g and ofs = ofs] by blast
  show ?thesis
    using out by (simp add: chunk_loss_def run sequence_loss_def Let_def recurrent_loop_states ex zero_tile_def)
qed

lemma cdiv_less: "0 < b \<Longrightarrow> cdiv a b * b < a + b"
  using div_times_less_eq_dividend [of "a + b - 1" b] unfolding cdiv_def by linarith

lemma cdiv_dvd: "0 < b \<Longrightarrow> b dvd a \<Longrightarrow> cdiv a b * b = a"
  by (metis cdiv_mult dvd_div_mult_self)

lemma spill_rows:
  assumes K: "0 < BK" and R: "R = cdiv K BK * BK - K" "R < K \<or> R = 0"
  shows "chunk_spill K V BK NT g h dh BT n
    = (if Suc n < NT then exp2 (g (n * BT + BT - 1)) * (\<Sum>r<R. \<Sum>e<V. h (Suc n) r e * dh (Suc n) r e) else 0)"
proof -
  have rows: "Suc n * K + r < NT * K \<and> flat_rows K x (Suc n * K + r) = x (Suc n) r" if "Suc n < NT" "r < R" for r x
    using flat_row [of r K "Suc n" NT] that R(2) by auto
  have over: "\<not> Suc n * K + r < NT * K" if "\<not> Suc n < NT" for r
    using mult_right_mono [of NT "Suc n" K] that by simp
  have "(\<Sum>r<R. if Suc n * K + r < NT * K then \<Sum>e<V. flat_rows K h (Suc n * K + r) e * flat_rows K dh (Suc n * K + r) e else 0)
    = (if Suc n < NT then \<Sum>r<R. \<Sum>e<V. h (Suc n) r e * dh (Suc n) r e else 0)"
    using rows over by (cases "Suc n < NT") (simp_all del: mult_Suc)
  then show ?thesis unfolding chunk_spill_def spill_total [OF K] R(1) [symmetric] by simp
qed

text \<open>The derivative of the loss, for any head dimension: the returned decay gradient less the spill of the chunk.\<close>

lemma chunk_backward_derivative:
  fixes q k v :: "real \<Rightarrow> mat" and beta g :: "real \<Rightarrow> vec"
  assumes E: "exact_casts E" "pow2_spec E" and K: "0 < K" "next_pow2 E K \<le> 256"
    and BT: "BT = 2 ^ e" "T = NT * BT"
    and curves: "curve q q'" "curve k k'" "curve v v'" "curve1 beta beta'" "curve1 g g'"
  shows "\<exists>out gs A_w A_u A_w_original A_u_original dq dk dv dbeta dg w u h v_new dh du.
    ChunkGatedDeltaRuleFunction_forward E to_ht BT T K V (q 0) (k 0) (v 0) (beta 0) (g 0) initial_state ofs = Inr (out, None) \<and>
    ChunkGatedDeltaRuleFunction_saved E BT T K V (k 0) (v 0) (beta 0) (g 0) = (gs, A_w, A_u, A_w_original, A_u_original) \<and>
    ChunkGatedDeltaRuleFunction_backward E BT T K V (q 0) (k 0) (v 0) (beta 0) gs A_w A_u A_w_original A_u_original
      initial_state d_o d_ht = Inr (dq, dk, dv, dbeta, dg) \<and>
    fwd_recompute_w_u E BT T K V (k 0) (v 0) (beta 0) A_w A_u = (w, u) \<and>
    chunk_fwd_h_fn E (\<lambda>x. x) BT T K V (k 0) w u gs initial_state None True = Inr (h, v_new, None) \<and>
    chunk_bwd_dhu_fn E BT T K V (q 0) (k 0) w gs d_o (fwd_prepare_du E BT T K V (q 0) (k 0) gs d_o) = Inr (dh, du) \<and>
    ((\<lambda>s. chunk_loss E to_ht BT T K V (q s) (k s) (v s) (beta s) (g s) initial_state ofs d_o) has_real_derivative
      (\<Sum>t<T. (\<Sum>d<K. dq t d * q' t d) + (\<Sum>d<K. dk t d * k' t d) + (\<Sum>e<V. dv t e * v' t e)
        + dbeta t * beta' t
        + (dg t - chunk_spill K V (min (next_pow2 E K) 64) NT gs h dh BT (t div BT)) * (ln 2 * LOG2E * g' t))) (at 0)"
proof -
  note T = BT(2)
  have pos: "0 < BT" by (simp add: BT(1))
  define S0 where "S0 = (case initial_state of None \<Rightarrow> zero_tile | Some h0 \<Rightarrow> h0)"
  define gr where "gr = sequence_grads E K V BT T (real K powr (- (1 / 2))) (q 0) (k 0) (v 0) (beta 0) (\<lambda>t. ln 2 * LOG2E * g 0 t) S0 d_o zero_tile"
  obtain out where fwd: "ChunkGatedDeltaRuleFunction_forward E to_ht BT T K V (q 0) (k 0) (v 0) (beta 0) (g 0) initial_state ofs = Inr (out, None)"
    using forward_columns [OF E K BT(1) T S0_def] by blast
  obtain gs A_w A_u Ao_w Ao_u where sv: "ChunkGatedDeltaRuleFunction_saved E BT T K V (k 0) (v 0) (beta 0) (g 0) = (gs, A_w, A_u, Ao_w, Ao_u)"
    by (metis prod_cases5)
  obtain dq dk dv db dg w u h vn dh du where bwd: "ChunkGatedDeltaRuleFunction_backward E BT T K V (q 0) (k 0) (v 0) (beta 0) gs A_w A_u Ao_w Ao_u
      initial_state d_o d_ht = Inr (dq, dk, dv, db, dg)"
    and parts: "fwd_recompute_w_u E BT T K V (k 0) (v 0) (beta 0) A_w A_u = (w, u)"
      "chunk_fwd_h_fn E (\<lambda>x. x) BT T K V (k 0) w u gs initial_state None True = Inr (h, vn, None)"
      "chunk_bwd_dhu_fn E BT T K V (q 0) (k 0) w gs d_o (fwd_prepare_du E BT T K V (q 0) (k 0) gs d_o) = Inr (dh, du)"
    and rows: "\<forall>t < T. (\<forall>d < K. dq t d = gr_q gr t d \<and> dk t d = gr_k gr t d) \<and> (\<forall>e < V. dv t e = gr_v gr t e) \<and>
      db t = gr_beta gr t \<and> dg t = rev_chunk_sum BT T (gr_gate gr) t + chunk_spill K V (min (next_pow2 E K) 64) NT gs h dh BT (t div BT)"
    using chunk_backward_rows [OF E K BT(1) T S0_def sv gr_def, where d_ht = d_ht] by (elim exE conjE) (rule that)
  define dg' where "dg' = (\<lambda>t. dg t - chunk_spill K V (min (next_pow2 E K) 64) NT gs h dh BT (t div BT))"
  have rows': "\<forall>t < T. (\<forall>d < K. dq t d = gr_q gr t d \<and> dk t d = gr_k gr t d) \<and> (\<forall>e < V. dv t e = gr_v gr t e) \<and>
      db t = gr_beta gr t \<and> dg' t = rev_chunk_sum BT T (gr_gate gr) t"
    using rows by (simp add: dg'_def)
  have c: "curve (\<lambda>s. S0) (\<lambda>d e. 0)" "curve1 (\<lambda>s t. ln 2 * LOG2E * g s t) (\<lambda>t. ln 2 * LOG2E * g' t)"
    using curves(5) by (auto simp: curve_def curve1_def intro!: derivative_eq_intros)
  have "((\<lambda>s. chunk_loss E to_ht BT T K V (q s) (k s) (v s) (beta s) (g s) initial_state ofs d_o) has_real_derivative
      (\<Sum>t<T. (\<Sum>d<K. dq t d * q' t d) + (\<Sum>d<K. dk t d * k' t d) + (\<Sum>e<V. dv t e * v' t e)
        + db t * beta' t + dg' t * (ln 2 * LOG2E * g' t))) (at 0)"
    unfolding chunk_loss_recurrence [OF E K BT(1) T S0_def]
    using sequence_derivative [where dS = zero_tile, OF E(1) pos curves(1-4) c(2) c(1) gr_def rows'] by simp
  with fwd sv bwd parts show ?thesis unfolding dg'_def by (intro exI conjI)
qed

text \<open>C4: The backward pass of \<open>chunk.py\<close> is the derivative of its forward pass.  Move queries, keys,
  values, write strengths and log decays along any differentiable curves, on a sequence the chunks
  tile and for a head dimension the key blocks tile.  Then forward and backward of
  \<open>ChunkGatedDeltaRuleFunction\<close> both return, and the derivative of the outputs weighted by the upstream
  gradient is the sum of the returned gradients times the speeds of the inputs.  The decays enter
  with the factor \<open>ln 2 * 1.44269504\<close>, by which the code's rounded conversion to base two differs from
  one.\<close>

theorem chunk_backward_is_gradient:
  fixes q k v :: "real \<Rightarrow> mat" and beta g :: "real \<Rightarrow> vec"
  assumes E: "exact_casts E" "pow2_spec E" and K: "0 < K" "next_pow2 E K \<le> 256" "min (next_pow2 E K) 64 dvd K"
    and BT: "BT = 2 ^ e" "BT dvd T"
    and curves: "curve q q'" "curve k k'" "curve v v'" "curve1 beta beta'" "curve1 g g'"
  shows "\<exists>out gs A_w A_u A_w_original A_u_original dq dk dv dbeta dg.
    ChunkGatedDeltaRuleFunction_forward E to_ht BT T K V (q 0) (k 0) (v 0) (beta 0) (g 0) initial_state ofs = Inr (out, None) \<and>
    ChunkGatedDeltaRuleFunction_saved E BT T K V (k 0) (v 0) (beta 0) (g 0) = (gs, A_w, A_u, A_w_original, A_u_original) \<and>
    ChunkGatedDeltaRuleFunction_backward E BT T K V (q 0) (k 0) (v 0) (beta 0) gs A_w A_u A_w_original A_u_original
      initial_state d_o d_ht = Inr (dq, dk, dv, dbeta, dg) \<and>
    ((\<lambda>s. chunk_loss E to_ht BT T K V (q s) (k s) (v s) (beta s) (g s) initial_state ofs d_o) has_real_derivative
      (\<Sum>t<T. (\<Sum>d<K. dq t d * q' t d) + (\<Sum>d<K. dk t d * k' t d) + (\<Sum>e<V. dv t e * v' t e)
        + dbeta t * beta' t + dg t * (ln 2 * LOG2E * g' t))) (at 0)"
proof -
  obtain NT where T: "T = NT * BT" using BT(2) by (metis dvd_def mult.commute)
  have BK: "0 < min (next_pow2 E K) 64" using pow2_block [OF E(2)] by auto
  have "cdiv K (min (next_pow2 E K) 64) * min (next_pow2 E K) 64 - K = 0" by (simp add: cdiv_dvd [OF BK K(3)])
  then have none: "chunk_spill K V (min (next_pow2 E K) 64) NT gs h dh BT n = 0" for gs h dh n
    by (simp add: spill_rows [OF BK, of 0])
  show ?thesis
    using chunk_backward_derivative [OF E K(1,2) BT(1) T curves, where to_ht = to_ht and V = V and initial_state = initial_state and ofs = ofs
      and d_o = d_o and d_ht = d_ht] unfolding none diff_0_right by blast
qed

definition example_tiled_env :: kernel_env where
  "example_tiled_env = example_env\<lparr>next_pow2 := \<lambda>n. if n \<le> 4 then 4 else 2 ^ n\<rparr>"

lemma example_tiled_env_ok: "exact_casts example_tiled_env" "pow2_spec example_tiled_env"
proof -
  have "\<exists>e. 4 = (2 :: nat) ^ e" by (rule exI [of _ 2]) simp
  then show "exact_casts example_tiled_env" "pow2_spec example_tiled_env"
    by (auto simp: example_tiled_env_def example_env_def exact_casts_def pow2_spec_def intro: less_imp_le)
qed

theorem chunk_backward_is_gradient_witness:
  "\<exists>out gs A_w A_u A_w_original A_u_original dq dk dv dbeta dg.
    ChunkGatedDeltaRuleFunction_forward example_tiled_env (\<lambda>x. x) 4 8 4 3 (\<lambda>t d. real t) (\<lambda>t d. real d) (\<lambda>t e. 1) (\<lambda>t. 1 / 2) (\<lambda>t. - 1)
      (Some (\<lambda>d e. 5)) True = Inr (out, None) \<and>
    ChunkGatedDeltaRuleFunction_saved example_tiled_env 4 8 4 3 (\<lambda>t d. real d) (\<lambda>t e. 1) (\<lambda>t. 1 / 2) (\<lambda>t. - 1)
      = (gs, A_w, A_u, A_w_original, A_u_original) \<and>
    ChunkGatedDeltaRuleFunction_backward example_tiled_env 4 8 4 3 (\<lambda>t d. real t) (\<lambda>t d. real d) (\<lambda>t e. 1) (\<lambda>t. 1 / 2)
      gs A_w A_u A_w_original A_u_original (Some (\<lambda>d e. 5)) (\<lambda>t e. 1) None = Inr (dq, dk, dv, dbeta, dg) \<and>
    ((\<lambda>s. chunk_loss example_tiled_env (\<lambda>x. x) 4 8 4 3 (\<lambda>t d. real t + s) (\<lambda>t d. real d) (\<lambda>t e. 1) (\<lambda>t. 1 / 2 + s) (\<lambda>t. - exp s)
        (Some (\<lambda>d e. 5)) True (\<lambda>t e. 1)) has_real_derivative
      (\<Sum>t<8. (\<Sum>d<4. dq t d * 1) + (\<Sum>d<4. dk t d * 0) + (\<Sum>e<3. dv t e * 0) + dbeta t * 1 + dg t * (ln 2 * LOG2E * - 1))) (at 0)"
proof -
  have p: "0 < (4 :: nat)" "next_pow2 example_tiled_env 4 \<le> 256" "min (next_pow2 example_tiled_env 4) 64 dvd 4"
    "(4 :: nat) = 2 ^ 2" "(4 :: nat) dvd 8"
    by (simp_all add: example_tiled_env_def)
  have c: "curve (\<lambda>s t d. real t + s) (\<lambda>t d. 1)" "curve (\<lambda>s t d. real d) (\<lambda>t d. 0)" "curve (\<lambda>s t e. 1) (\<lambda>t e. 0)"
    "curve1 (\<lambda>s t. 1 / 2 + s) (\<lambda>t. 1)" "curve1 (\<lambda>s t. - exp s) (\<lambda>t. - 1)"
    by (auto simp: curve_def curve1_def intro!: derivative_eq_intros)
  show ?thesis
    using chunk_backward_is_gradient [where V = 3 and to_ht = "\<lambda>x. x" and initial_state = "Some (\<lambda>d e. 5)" and ofs = True
      and d_o = "\<lambda>t e. 1" and d_ht = None, OF example_tiled_env_ok p c] by simp
qed

section \<open>A head dimension the key blocks do not tile\<close>

text \<open>C29: The decay gradient is wrong when the key blocks do not tile the head dimension.  The kernel checks its
  block of the state matrices against the rows of all chunks together, so the last key block of a chunk reads the first
  rows of the next chunk's states.  For exact arithmetic, any head dimension whose next power of two is at most 256, a sequence that chunks of a
  power of two tile, and inputs moving along any differentiable curves, forward and backward return, and the derivative of the outputs
  weighted by the upstream gradient is the sum of the returned gradients times the speeds (the decays with the factor \<open>ln 2 * 1.44269504\<close>), but with the decay gradients of
  every chunk except the last one diminished by \<open>exp2\<close> of its decay times the sum, over the \<open>R\<close> rows by which the
  blocks exceed the head dimension, of the next chunk's states times their gradients.  For 96 keys and chunks of 64 tokens, which the kernels
  can run, \<open>R\<close> is 32; it is 0 exactly when the blocks tile the dimension.\<close>

theorem dqkw_reads_next_chunk:
  fixes q k v :: "real \<Rightarrow> mat" and beta g :: "real \<Rightarrow> vec"
  assumes E: "exact_casts E" "pow2_spec E" "next_pow2 E K < 2 * K" and K: "0 < K" "next_pow2 E K \<le> 256"
    and BT: "BT = 2 ^ e" "T = NT * BT"
    and curves: "curve q q'" "curve k k'" "curve v v'" "curve1 beta beta'" "curve1 g g'"
    and R: "R = cdiv K (min (next_pow2 E K) 64) * min (next_pow2 E K) 64 - K"
  shows "(R = 0 \<longleftrightarrow> min (next_pow2 E K) 64 dvd K) \<and>
    (\<exists>out gs A_w A_u A_w_original A_u_original dq dk dv dbeta dg w u h v_new dh du.
    ChunkGatedDeltaRuleFunction_forward E to_ht BT T K V (q 0) (k 0) (v 0) (beta 0) (g 0) initial_state ofs = Inr (out, None) \<and>
    ChunkGatedDeltaRuleFunction_saved E BT T K V (k 0) (v 0) (beta 0) (g 0) = (gs, A_w, A_u, A_w_original, A_u_original) \<and>
    ChunkGatedDeltaRuleFunction_backward E BT T K V (q 0) (k 0) (v 0) (beta 0) gs A_w A_u A_w_original A_u_original
      initial_state d_o d_ht = Inr (dq, dk, dv, dbeta, dg) \<and>
    fwd_recompute_w_u E BT T K V (k 0) (v 0) (beta 0) A_w A_u = (w, u) \<and>
    chunk_fwd_h_fn E (\<lambda>x. x) BT T K V (k 0) w u gs initial_state None True = Inr (h, v_new, None) \<and>
    chunk_bwd_dhu_fn E BT T K V (q 0) (k 0) w gs d_o (fwd_prepare_du E BT T K V (q 0) (k 0) gs d_o) = Inr (dh, du) \<and>
    ((\<lambda>s. chunk_loss E to_ht BT T K V (q s) (k s) (v s) (beta s) (g s) initial_state ofs d_o) has_real_derivative
      (\<Sum>t<T. (\<Sum>d<K. dq t d * q' t d) + (\<Sum>d<K. dk t d * k' t d) + (\<Sum>e<V. dv t e * v' t e) + dbeta t * beta' t
        + (dg t - (let n = t div BT
             in if Suc n < NT then exp2 (gs (n * BT + BT - 1)) * (\<Sum>r<R. \<Sum>e<V. h (Suc n) r e * dh (Suc n) r e) else 0))
          * (ln 2 * LOG2E * g' t))) (at 0))"
proof -
  let ?BK = "min (next_pow2 E K) 64"
  have BK: "0 < ?BK" using pow2_block [OF E(2)] by auto
  have c: "K \<le> cdiv K ?BK * ?BK" by (rule cdiv_covers [OF BK])
  have less: "cdiv K ?BK * ?BK < K + ?BK" by (rule cdiv_less [OF BK])
  have RK: "R < K \<or> R = 0"
  proof (cases "?BK \<le> K")
    case True
    then show ?thesis using less K(1) unfolding R by linarith
  next
    case False
    then have "cdiv K ?BK = 1" using K(1) by (intro cdiv_one) (auto simp: min_def split: if_splits)
    moreover have "?BK \<le> next_pow2 E K" by simp
    ultimately show ?thesis using E(3) unfolding R by (simp only: mult_1) linarith
  qed
  have "R = 0 \<longleftrightarrow> ?BK dvd K"
  proof
    assume "R = 0"
    then have "K = cdiv K ?BK * ?BK" using c by (simp add: R)
    then show "?BK dvd K" by (metis dvd_triv_right)
  next
    assume "?BK dvd K"
    then show "R = 0" by (simp add: R cdiv_dvd [OF BK])
  qed
  moreover note chunk_backward_derivative [OF E(1,2) K BT curves, where to_ht = to_ht and V = V and initial_state = initial_state and ofs = ofs
      and d_o = d_o and d_ht = d_ht, unfolded spill_rows [OF BK R RK]]
  ultimately show ?thesis unfolding Let_def by blast
qed

definition wide_env :: kernel_env where
  "wide_env = example_env\<lparr>next_pow2 := \<lambda>n. if n \<le> 128 then 128 else 2 ^ n\<rparr>"

lemma wide_env_ok: "exact_casts wide_env" "pow2_spec wide_env"
proof -
  have "\<exists>e. 128 = (2 :: nat) ^ e" by (rule exI [of _ 7]) simp
  then show "exact_casts wide_env" "pow2_spec wide_env"
    by (auto simp: wide_env_def example_env_def exact_casts_def pow2_spec_def intro: less_imp_le)
qed

text \<open>
  An example in which the products of the next chunk do not vanish: with zero keys and no decay every state is the initial
  one, and the gradient of the last but one state is the sum over the last chunk of the scaled queries times the
  upstream gradient.
\<close>

lemma zero_keys_states:
  assumes E: "exact_casts E" "pow2_spec E" and K: "0 < K" "next_pow2 E K \<le> 256" and BT: "BT = 2 ^ e" and T: "T = NT * BT"
    and wu: "fwd_recompute_w_u E BT T K V (\<lambda>t d. 0) v beta A_w A_u = (w, u)"
    and h: "chunk_fwd_h_fn E (\<lambda>x. x) BT T K V (\<lambda>t d. 0) w u (\<lambda>t. 0) (Some S0) None True = Inr (h, vn, None)"
    and dh: "chunk_bwd_dhu_fn E BT T K V q (\<lambda>t d. 0) w (\<lambda>t. 0) d_o (fwd_prepare_du E BT T K V q (\<lambda>t d. 0) (\<lambda>t. 0) d_o) = Inr (dh, du)"
  shows "n < NT \<Longrightarrow> r < K \<Longrightarrow> c < V \<Longrightarrow> h n r c = S0 r c"
    and "NT = Suc (Suc m) \<Longrightarrow> r < K \<Longrightarrow> c < V \<Longrightarrow>
      dh m r c = (\<Sum>i<BT. q (Suc m * BT + i) r * (real K powr (- (1 / 2)) * d_o (Suc m * BT + i) c))"
proof -
  have pos: "0 < BT" by (simp add: BT)
  have states: "h_states K BT (\<lambda>t d. 0) w u (\<lambda>t. 0) S0 n = S0" for n
    by (induction n) (simp_all add: h_states_def next_state_def exp2_def)
  obtain h' v' where "chunk_fwd_h_fn E (\<lambda>x. x) BT T K V (\<lambda>t d. 0) w u (\<lambda>t. 0) (Some S0) None True = Inr (h', v', None)"
      and "\<forall>n < NT. \<forall>r < K. \<forall>c < V. h' n r c = h_states K BT (\<lambda>t d. 0) w u (\<lambda>t. 0) S0 n r c"
    using chunk_fwd_h_fn_columns [OF E K BT T refl, where V = V and k = "\<lambda>t d. 0" and w = w and u = u and g = "\<lambda>t. 0"
        and initial_state = "Some S0" and to_ht = "\<lambda>x. x"] unfolding option.case by meson
  then show "h n r c = S0 r c" if "n < NT" "r < K" "c < V" for n using h that by (auto simp: states)
  define gt where "gt = gate E BT T (\<lambda>t. 0)"
  have casts: "to_in E = (\<lambda>x. x)" "to_f32 E = (\<lambda>x. x)" using E(1) by (simp_all add: exact_casts_def)
  have lg: "local_gate BT T (\<lambda>t. 0) (nat_gate (\<lambda>t. 0))"
    by (simp add: local_gate_def nat_gate_def cumsum_def chunk_view_def pad_vec_def)
  have gt0: "gt (x * BT + i) = 0" if "i < BT" for x i
    using gate_at [OF E(1) that, of T "\<lambda>t. 0" x] by (simp add: gt_def cumsum_def chunk_view_def pad_vec_def)
  let ?pp = "out_grad (real K powr (- (1 / 2))) (pad_rows T d_o)" and ?z = "\<lambda>t d. 0 :: real"
  have loc: "\<forall>t<T. \<forall>e<V. fwd_prepare_du E BT T K V q ?z (\<lambda>t. 0) d_o t e
      = local_values K BT (pad_rows T q) (pad_rows T ?z) gt ?pp (t div BT) (t mod BT) e"
    using du_value [OF E pos T lg gt_def] by blast
  define D where "D = back_state K BT NT (pad_rows T q) (pad_rows T ?z) (pad_rows T w) gt ?pp zero_tile"
  have run: "\<forall>m<NT. \<forall>d<K. \<forall>e<V. dh m d e = D (Suc m) d e"
    using dhu_value [OF E K BT T lg gt_def refl refl refl refl loc D_def] dh by auto
  show "dh m r c = (\<Sum>i<BT. q (Suc m * BT + i) r * (real K powr (- (1 / 2)) * d_o (Suc m * BT + i) c))"
    if NT: "NT = Suc (Suc m)" and rc: "r < K" "c < V"
  proof -
    have w0: "w t r = 0" if "t < T" for t
    proof -
      have "fst (fwd_recompute_w_u E BT T K V ?z v beta A_w A_u) t r
          = dot BT (\<lambda>i j. A_w (t div BT * BT + i) j) (scaled_rows BT ?z beta (t div BT)) (t mod BT) r"
        by (rule fwd_recompute_rows(1) [where Bw = "\<lambda>n i j. A_w (n * BT + i) j" and Bu = "\<lambda>n i j. A_u (n * BT + i) j",
              OF E pos T \<open>t < T\<close> _ _ rc(1)]) simp_all
      then show ?thesis using wu by (simp add: dot_def scaled_rows_def)
    qed
    have at: "Suc m * BT + i < T" if "i < BT" for i using that by (simp add: T NT)
    have "dh m r c = D (Suc m) r c" using run rc by (simp add: NT)
    also have "\<dots> = back_step K BT (pad_rows T q) (pad_rows T ?z) (pad_rows T w) gt ?pp (Suc m) zero_tile r c"
      unfolding D_def by (subst back_state_step) (simp_all add: NT)
    also have "\<dots> = (\<Sum>i<BT. q (Suc m * BT + i) r * (real K powr (- (1 / 2)) * d_o (Suc m * BT + i) c))"
      using at w0 [OF at] gt0 [of _ "Suc m"]
      by (simp add: back_step_def state_grad_def decay_in_def out_grad_def chunk_view_def zero_tile_def exp2_def cong: sum.cong_simp)
    finally show ?thesis .
  qed
qed

text \<open>96 keys in two blocks of 64, three chunks of 64 tokens.  The correction of the first chunk is not zero.\<close>

theorem dqkw_reads_next_chunk_witness:
  "\<exists>out gs A_w A_u A_w_original A_u_original dq dk dv dbeta dg w u h v_new dh du.
    ChunkGatedDeltaRuleFunction_forward wide_env (\<lambda>x. x) 64 192 96 64 (\<lambda>t d. 1) (\<lambda>t d. 0) (\<lambda>t e. 1) (\<lambda>t. 1 / 2) (\<lambda>t. 0)
      (Some (\<lambda>d e. 1)) True = Inr (out, None) \<and>
    ChunkGatedDeltaRuleFunction_saved wide_env 64 192 96 64 (\<lambda>t d. 0) (\<lambda>t e. 1) (\<lambda>t. 1 / 2) (\<lambda>t. 0)
      = (gs, A_w, A_u, A_w_original, A_u_original) \<and>
    ChunkGatedDeltaRuleFunction_backward wide_env 64 192 96 64 (\<lambda>t d. 1) (\<lambda>t d. 0) (\<lambda>t e. 1) (\<lambda>t. 1 / 2)
      gs A_w A_u A_w_original A_u_original (Some (\<lambda>d e. 1)) (\<lambda>t e. 1) None = Inr (dq, dk, dv, dbeta, dg) \<and>
    fwd_recompute_w_u wide_env 64 192 96 64 (\<lambda>t d. 0) (\<lambda>t e. 1) (\<lambda>t. 1 / 2) A_w A_u = (w, u) \<and>
    chunk_fwd_h_fn wide_env (\<lambda>x. x) 64 192 96 64 (\<lambda>t d. 0) w u gs (Some (\<lambda>d e. 1)) None True = Inr (h, v_new, None) \<and>
    chunk_bwd_dhu_fn wide_env 64 192 96 64 (\<lambda>t d. 1) (\<lambda>t d. 0) w gs (\<lambda>t e. 1)
      (fwd_prepare_du wide_env 64 192 96 64 (\<lambda>t d. 1) (\<lambda>t d. 0) gs (\<lambda>t e. 1)) = Inr (dh, du) \<and>
    ((\<lambda>s. chunk_loss wide_env (\<lambda>x. x) 64 192 96 64 (\<lambda>t d. 1) (\<lambda>t d. 0) (\<lambda>t e. 1) (\<lambda>t. 1 / 2) (\<lambda>t. s) (Some (\<lambda>d e. 1)) True (\<lambda>t e. 1))
      has_real_derivative
      (\<Sum>t<192. (\<Sum>d<96. dq t d * 0) + (\<Sum>d<96. dk t d * 0) + (\<Sum>e<64. dv t e * 0) + dbeta t * 0
        + (dg t - (let n = t div 64
             in if Suc n < 3 then exp2 (gs (n * 64 + 64 - 1)) * (\<Sum>r<32. \<Sum>e<64. h (Suc n) r e * dh (Suc n) r e) else 0))
          * (ln 2 * LOG2E * 1))) (at 0) \<and>
    exp2 (gs (0 * 64 + 64 - 1)) * (\<Sum>r<32. \<Sum>e<64. h (Suc 0) r e * dh (Suc 0) r e) = 32 * 64 * 64 * real 96 powr (- (1 / 2))"
proof -
  have p: "next_pow2 wide_env 96 < 2 * 96" "0 < (96 :: nat)" "next_pow2 wide_env 96 \<le> 256" "(64 :: nat) = 2 ^ 6" "(192 :: nat) = 3 * 64"
    by (simp_all add: wide_env_def)
  have R: "(32 :: nat) = cdiv 96 (min (next_pow2 wide_env 96) 64) * min (next_pow2 wide_env 96) 64 - 96"
    by (simp add: wide_env_def cdiv_def)
  have c: "curve (\<lambda>s t d. 1) (\<lambda>t d. 0)" "curve (\<lambda>s t d. 0) (\<lambda>t d. 0)" "curve (\<lambda>s t e. 1) (\<lambda>t e. 0)"
    "curve1 (\<lambda>s t. 1 / 2) (\<lambda>t. 0)" "curve1 (\<lambda>s t. s) (\<lambda>t. 1)"
    by (auto simp: curve_def curve1_def intro!: derivative_eq_intros)
  note main = conjunct2 [OF dqkw_reads_next_chunk [where V = 64 and to_ht = "\<lambda>x. x" and initial_state = "Some (\<lambda>d e. 1)" and ofs = True
      and d_o = "\<lambda>t e. 1" and d_ht = None, OF wide_env_ok p c R]]
  have gs: "gs = (\<lambda>t. 0)" if "ChunkGatedDeltaRuleFunction_saved wide_env 64 192 96 64 (\<lambda>t d. 0) (\<lambda>t e. 1) (\<lambda>t. 1 / 2) (\<lambda>t. 0)
      = (gs, A_w, A_u, A_w_original, A_u_original)" for gs A_w A_u A_w_original A_u_original
  proof
    have "gs = chunk_cumsum wide_env 64 (\<lambda>t. 0)"
      using that by (auto simp: ChunkGatedDeltaRuleFunction_saved_def Let_def split: prod.splits)
    then show "gs t = 0" for t
      using chunk_cumsum_at [OF wide_env_ok(1), of "t mod 64" 64 "\<lambda>t. 0" "t div 64"] by (simp add: cumsum_def chunk_view_def)
  qed
  have nz: "exp2 (gs (0 * 64 + 64 - 1)) * (\<Sum>r<32. \<Sum>e<64. h (Suc 0) r e * dh (Suc 0) r e) = 32 * 64 * 64 * real 96 powr (- (1 / 2))"
    if s: "ChunkGatedDeltaRuleFunction_saved wide_env 64 192 96 64 (\<lambda>t d. 0) (\<lambda>t e. 1) (\<lambda>t. 1 / 2) (\<lambda>t. 0)
        = (gs, A_w, A_u, A_w_original, A_u_original)"
      and w: "fwd_recompute_w_u wide_env 64 192 96 64 (\<lambda>t d. 0) (\<lambda>t e. 1) (\<lambda>t. 1 / 2) A_w A_u = (w, u)"
      and h: "chunk_fwd_h_fn wide_env (\<lambda>x. x) 64 192 96 64 (\<lambda>t d. 0) w u gs (Some (\<lambda>d e. 1)) None True = Inr (h, v_new, None)"
      and d: "chunk_bwd_dhu_fn wide_env 64 192 96 64 (\<lambda>t d. 1) (\<lambda>t d. 0) w gs (\<lambda>t e. 1)
        (fwd_prepare_du wide_env 64 192 96 64 (\<lambda>t d. 1) (\<lambda>t d. 0) gs (\<lambda>t e. 1)) = Inr (dh, du)"
    for gs A_w A_u A_w_original A_u_original w u h v_new dh du
  proof -
    note z = zero_keys_states [OF wide_env_ok p(2-5) w h [unfolded gs [OF s]] d [unfolded gs [OF s]]]
    have "h (Suc 0) r e * dh (Suc 0) r e = 64 * real 96 powr (- (1 / 2))" if "r < 32" "e < 64" for r e
      using z(1) [of "Suc 0" r e] z(2) [of "Suc 0" r e] that by simp
    then show ?thesis unfolding gs [OF s] by (simp add: exp2_def)
  qed
  show ?thesis using main by (elim exE conjE) (intro exI conjI; (assumption | rule nz; assumption))
qed

end
