(* ===== verification/Bf16Product.thy ===== *)
theory Bf16Product
  imports Tiles PyStrings
begin

text \<open>
  The bfloat16-product linear layer of \<open>scripts/gdn_native_bf16_product.py\<close>: the Triton
  kernel with its sixteen-way balanced trees and four partial banks, the launch that tiles the
  output, the PyTorch reference it is tested against, and the patch that routes the
  accelerator's 193 dense projections through it.

  A float32 is its 32-bit pattern and a bfloat16 its 16-bit pattern; widening appends zero
  bits.  The rounding operations of the hardware are parameters, so what is proved about the
  order of the operations holds bit for bit.  \<open>tl.sum\<close> over an axis of length two is one
  addition.
\<close>

section \<open>Data\<close>

type_synonym bf16 = "16 word"
type_synonym f32 = "32 word"

record fp32_ops =
  fadd :: "f32 \<Rightarrow> f32 \<Rightarrow> f32"
  fmul :: "f32 \<Rightarrow> f32 \<Rightarrow> f32"
  to_bf16 :: "f32 \<Rightarrow> bf16"
  half_to_f32 :: "16 word \<Rightarrow> f32"

definition widen :: "bf16 \<Rightarrow> f32" where
  "widen b = push_bit 16 (ucast b)"

datatype scalar = F32 f32 | BF16 bf16

datatype dtype = BFloat16 | Float16

text \<open>A contiguous tensor of 16-bit floats: its shape and its elements in row-major order.\<close>

record tensor =
  t_cuda :: bool
  t_dtype :: dtype
  t_shape :: "nat list"
  t_data :: "nat \<Rightarrow> bf16"

definition float_elem :: "fp32_ops \<Rightarrow> tensor \<Rightarrow> nat \<Rightarrow> f32" where
  "float_elem F x i = (case t_dtype x of BFloat16 \<Rightarrow> widen (t_data x i) | Float16 \<Rightarrow> half_to_f32 F (t_data x i))"

type_synonym tile3 = "nat \<Rightarrow> nat \<Rightarrow> nat \<Rightarrow> f32"
type_synonym tile2 = "nat \<Rightarrow> nat \<Rightarrow> f32"

section \<open>The kernel\<close>

text \<open>\<open>tl.sum(x.reshape((BLOCK_M, BLOCK_N, h, 2)), axis=3)\<close>.\<close>

definition pair_sum :: "fp32_ops \<Rightarrow> tile3 \<Rightarrow> tile3" where
  "pair_sum F p = (\<lambda>m n j. fadd F (p m n (2 * j)) (p m n (2 * j + 1)))"

definition balanced_tree16 :: "fp32_ops \<Rightarrow> tile3 \<Rightarrow> tile2" where
  "balanced_tree16 F products =
     (let level1 = pair_sum F products;
          level2 = pair_sum F level1;
          level3 = pair_sum F level2
      in (\<lambda>m n. pair_sum F level3 m n 0))"

definition tile_add :: "fp32_ops \<Rightarrow> tile2 \<Rightarrow> tile2 \<Rightarrow> tile2" where
  "tile_add F a b = (\<lambda>m n. fadd F (a m n) (b m n))"

definition load_x ::
  "(nat \<Rightarrow> bf16) \<Rightarrow> (nat \<Rightarrow> nat) \<Rightarrow> (nat \<Rightarrow> bool) \<Rightarrow> nat \<Rightarrow> nat \<Rightarrow> (nat \<Rightarrow> nat) \<Rightarrow> tile3" where
  "load_x x_ptr offs_m mask_m stride_xm stride_xk k =
     (\<lambda>m n l. if mask_m m then widen (x_ptr (offs_m m * stride_xm + k l * stride_xk)) else 0)"

definition load_w ::
  "(nat \<Rightarrow> bf16) \<Rightarrow> (nat \<Rightarrow> nat) \<Rightarrow> (nat \<Rightarrow> bool) \<Rightarrow> nat \<Rightarrow> nat \<Rightarrow> (nat \<Rightarrow> nat) \<Rightarrow> tile3" where
  "load_w w_ptr offs_n mask_n stride_wn stride_wk k =
     (\<lambda>m n l. if mask_n n then widen (w_ptr (offs_n n * stride_wn + k l * stride_wk)) else 0)"

text \<open>One iteration of the loop over \<open>k_base\<close>: four stripes of sixteen products.\<close>

definition product_step ::
  "fp32_ops \<Rightarrow> ((nat \<Rightarrow> nat) \<Rightarrow> tile3) \<Rightarrow> ((nat \<Rightarrow> nat) \<Rightarrow> tile3) \<Rightarrow> nat
     \<Rightarrow> tile2 \<times> tile2 \<times> tile2 \<times> tile2 \<Rightarrow> tile2 \<times> tile2 \<times> tile2 \<times> tile2" where
  "product_step F ldx ldw k_base = (\<lambda>(acc0, acc1, acc2, acc3).
     (let k0 = (\<lambda>lane. k_base + lane);
          k1 = (\<lambda>lane. k_base + 16 + lane);
          k2 = (\<lambda>lane. k_base + 32 + lane);
          k3 = (\<lambda>lane. k_base + 48 + lane);
          product = (\<lambda>k m n l. widen (to_bf16 F (fmul F (ldx k m n l) (ldw k m n l))));
          p0 = product k0;
          p1 = product k1;
          p2 = product k2;
          p3 = product k3
      in (tile_add F acc0 (balanced_tree16 F p0), tile_add F acc1 (balanced_tree16 F p1),
          tile_add F acc2 (balanced_tree16 F p2), tile_add F acc3 (balanced_tree16 F p3))))"

definition cast_out :: "fp32_ops \<Rightarrow> bool \<Rightarrow> f32 \<Rightarrow> scalar" where
  "cast_out F output_fp32 r = (if output_fp32 then F32 r else BF16 (to_bf16 F r))"

definition native_bf16_product_linear_kernel ::
  "fp32_ops \<Rightarrow> (nat \<Rightarrow> bf16) \<Rightarrow> (nat \<Rightarrow> bf16) \<Rightarrow> (nat \<Rightarrow> bf16) \<Rightarrow> nat \<Rightarrow> nat \<Rightarrow> nat \<Rightarrow> nat \<Rightarrow> nat \<Rightarrow> nat
     \<Rightarrow> nat \<Rightarrow> nat \<Rightarrow> nat \<Rightarrow> bool \<Rightarrow> nat \<Rightarrow> nat \<Rightarrow> bool \<Rightarrow> nat \<Rightarrow> nat \<Rightarrow> (nat \<Rightarrow> scalar) \<Rightarrow> (nat \<Rightarrow> scalar)" where
  "native_bf16_product_linear_kernel F x_ptr w_ptr bias_ptr m_size n_size stride_xm stride_xk
       stride_wn stride_wk stride_om stride_on K_SIZE HAS_BIAS BLOCK_M BLOCK_N output_fp32 pid_m pid_n out =
     (let offs_m = (\<lambda>i. pid_m * BLOCK_M + i);
          offs_n = (\<lambda>i. pid_n * BLOCK_N + i);
          mask_m = (\<lambda>i. offs_m i < m_size);
          mask_n = (\<lambda>i. offs_n i < n_size);
          zeros = (\<lambda>m n. 0);
          ldx = load_x x_ptr offs_m mask_m stride_xm stride_xk;
          ldw = load_w w_ptr offs_n mask_n stride_wn stride_wk;
          (acc0, acc1, acc2, acc3) =
            for_loop (cdiv K_SIZE 64) (\<lambda>i. product_step F ldx ldw (64 * i)) (zeros, zeros, zeros, zeros);
          result = tile_add F (tile_add F acc0 acc1) (tile_add F acc2 acc3);
          result = (if HAS_BIAS
                    then tile_add F result (\<lambda>m n. if mask_n n then widen (bias_ptr (offs_n n)) else 0)
                    else result)
      in for_loop BLOCK_M (\<lambda>m. for_loop BLOCK_N (\<lambda>n out.
           if mask_m m \<and> mask_n n
           then out(offs_m m * stride_om + offs_n n * stride_on := cast_out F output_fp32 (result m n))
           else out)) out)"

definition launch_shape :: "nat \<Rightarrow> nat \<times> nat \<times> nat" where
  "launch_shape m_size =
     (if m_size \<le> 2 then (1, 64, 4)
      else if m_size \<le> 64 then (4, 32, 8)
      else (8, 32, 8))"

text \<open>
  The linear layer.  \<open>fresh\<close> is what \<open>torch.empty\<close> leaves in the output; the result is the
  output's shape and elements.
\<close>

definition native_bf16_product_linear ::
  "fp32_ops \<Rightarrow> (nat \<Rightarrow> scalar) \<Rightarrow> tensor \<Rightarrow> tensor \<Rightarrow> tensor option \<Rightarrow> bool
     \<Rightarrow> (nat list \<times> (nat \<Rightarrow> scalar)) result" where
  "native_bf16_product_linear F fresh x weight bias output_fp32 =
     (if \<not> t_cuda x \<or> \<not> t_cuda weight then Inl ValueError
      else if t_dtype x \<noteq> BFloat16 \<or> t_dtype weight \<noteq> BFloat16 then Inl TypeError
      else if t_shape x = [] \<or> length (t_shape weight) < 2 then Inl IndexError
      else if last (t_shape x) \<noteq> t_shape weight ! 1 then Inl ValueError
      else if t_shape weight ! 1 mod 64 \<noteq> 0 then Inl ValueError
      else if (case bias of None \<Rightarrow> False | Some b \<Rightarrow> t_dtype b \<noteq> BFloat16) then Inl TypeError
      else if last (t_shape x) = 0 then Inl ZeroDivisionError
      else let m_size = prod_list (t_shape x) div last (t_shape x);
               k_size = last (t_shape x);
               n_size = t_shape weight ! 0;
               (block_m, block_n, num_warps) = launch_shape m_size;
               bias_ptr = (case bias of Some b \<Rightarrow> t_data b | None \<Rightarrow> t_data weight);
               out_2d = for_loop (cdiv m_size block_m) (\<lambda>pid_m. for_loop (cdiv n_size block_n) (\<lambda>pid_n.
                 native_bf16_product_linear_kernel F (t_data x) (t_data weight) bias_ptr m_size n_size
                   k_size 1 k_size 1 n_size 1 k_size (bias \<noteq> None) block_m block_n output_fp32 pid_m pid_n)) fresh
           in Inr (butlast (t_shape x) @ [n_size], out_2d))"

section \<open>The reference\<close>

fun evens :: "'a list \<Rightarrow> 'a list" where
  "evens [] = []"
| "evens [x] = [x]"
| "evens (x # y # xs) = x # evens xs"

fun odds :: "'a list \<Rightarrow> 'a list" where
  "odds [] = []"
| "odds [x] = []"
| "odds (x # y # xs) = y # odds xs"

lemma length_evens: "length (evens xs) = (length xs + 1) div 2"
  by (induction xs rule: evens.induct) auto

text \<open>\<open>while level.shape[-1] > 1: level = level[..., 0::2] + level[..., 1::2]\<close>.\<close>

function ref_tree :: "fp32_ops \<Rightarrow> f32 list \<Rightarrow> f32" where
  "ref_tree F level =
     (if length level > 1 then ref_tree F (map2 (fadd F) (evens level) (odds level)) else level ! 0)"
  by pat_completeness auto
termination
  by (relation "measure (\<lambda>(F, level). length level)") (auto simp: length_evens min_def)

declare ref_tree.simps [simp del]

text \<open>The number of elements of the slice \<open>start : start + 16\<close> of a row of \<open>K\<close> elements.\<close>

definition slice_len :: "nat \<Rightarrow> nat \<Rightarrow> nat" where
  "slice_len K start = min 16 (K - start)"

definition ref_products ::
  "fp32_ops \<Rightarrow> nat \<Rightarrow> nat \<Rightarrow> nat \<Rightarrow> (nat \<Rightarrow> bf16) \<Rightarrow> (nat \<Rightarrow> bf16) \<Rightarrow> f32 list" where
  "ref_products F lx lw start x_row w_row =
     map (\<lambda>l. widen (to_bf16 F (fmul F (widen (x_row (start + (if lx = 1 then 0 else l))))
                                      (widen (w_row (start + (if lw = 1 then 0 else l)))))))
         [0..<(if lx = 1 then lw else lx)]"

definition ref_bank_step ::
  "fp32_ops \<Rightarrow> nat \<Rightarrow> nat \<Rightarrow> (nat \<Rightarrow> nat \<Rightarrow> bf16) \<Rightarrow> (nat \<Rightarrow> nat \<Rightarrow> bf16) \<Rightarrow> nat
     \<Rightarrow> (nat \<Rightarrow> tile2) \<Rightarrow> nat \<Rightarrow> (nat \<Rightarrow> tile2) result" where
  "ref_bank_step F xK wK x w k_base banks bank =
     (let start = k_base + 16 * bank;
          lx = slice_len xK start;
          lw = slice_len wK start
      in if lx \<noteq> lw \<and> lx \<noteq> 1 \<and> lw \<noteq> 1 then Inl RuntimeError
         else Inr (banks(bank := tile_add F (banks bank)
                (\<lambda>m n. ref_tree F (ref_products F lx lw start (x m) (w n))))))"

text \<open>
  The element of a bias of the given shape that \<open>result += bias\<close> adds at row \<open>m\<close> and column \<open>n\<close>: a dimension of
  one element is broadcast, and so is a missing one.
\<close>

definition bias_index :: "nat list \<Rightarrow> nat \<Rightarrow> nat \<Rightarrow> nat" where
  "bias_index shape m n =
     (case rev shape of
        [] \<Rightarrow> 0
      | [w] \<Rightarrow> if w = 1 then 0 else n
      | w # h # _ \<Rightarrow> (if h = 1 then 0 else m) * w + (if w = 1 then 0 else n))"

definition fpga_associated_reference ::
  "fp32_ops \<Rightarrow> tensor \<Rightarrow> tensor \<Rightarrow> tensor option \<Rightarrow> bool
     \<Rightarrow> (nat list \<times> (nat \<Rightarrow> scalar)) result" where
  "fpga_associated_reference F x weight bias output_fp32 =
     (if t_dtype x \<noteq> BFloat16 \<or> t_dtype weight \<noteq> BFloat16 then Inl TypeError
      else if t_shape x = [] then Inl IndexError
      else if last (t_shape x) mod 64 \<noteq> 0 then Inl ValueError
      else if last (t_shape x) = 0 \<or> length (t_shape weight) \<noteq> 2 then Inl RuntimeError
      else let K = last (t_shape x);
               wK = t_shape weight ! 1;
               N = t_shape weight ! 0;
               x_2d = (\<lambda>m k. t_data x (m * K + k));
               w_2d = (\<lambda>n k. t_data weight (n * wK + k))
           in rbind (rfold (\<lambda>banks i. rfold (ref_bank_step F K wK x_2d w_2d (64 * i)) banks [0..<4])
                      (\<lambda>bank m n. 0) [0..<cdiv K 64]) (\<lambda>banks.
              let result = tile_add F (tile_add F (banks 0) (banks 1)) (tile_add F (banks 2) (banks 3));
                  M = prod_list (butlast (t_shape x))
              in rbind (case bias of
                          None \<Rightarrow> Inr result
                        | Some b \<Rightarrow>
                            if broadcasts_into (t_shape b) [M, N]
                            then Inr (tile_add F result (\<lambda>m n. float_elem F b (bias_index (t_shape b) m n)))
                            else Inl RuntimeError) (\<lambda>result.
                   Inr (butlast (t_shape x) @ [N],
                        (\<lambda>p. cast_out F output_fp32 (result (p div N) (p mod N)))))))"


section \<open>One output element\<close>

definition tree16 :: "fp32_ops \<Rightarrow> (nat \<Rightarrow> f32) \<Rightarrow> f32" where
  "tree16 F f = balanced_tree16 F (\<lambda>m n. f) 0 0"

lemma balanced_tree16_eq: "balanced_tree16 F p m n = tree16 F (p m n)"
  by (simp add: tree16_def balanced_tree16_def pair_sum_def Let_def)

lemma ref_tree_16: "ref_tree F (map f [0..<16]) = tree16 F f"
proof -
  have "[0..<16] = [0, 1, 2, 3, 4, 5, 6, 7, 8, 9, 10, 11, 12, 13, 14, 15 :: nat]"
    by (simp add: upt_rec)
  then show ?thesis
    by (simp add: ref_tree.simps [of F "x # y # xs" for x y xs] ref_tree.simps [of F "[x]" for x]
        tree16_def balanced_tree16_def pair_sum_def)
qed

text \<open>The partial bank fed by the stripe at offset \<open>off\<close> of every 64 inputs.\<close>

definition bank_sum :: "fp32_ops \<Rightarrow> (nat \<Rightarrow> f32) \<Rightarrow> (nat \<Rightarrow> f32) \<Rightarrow> nat \<Rightarrow> nat \<Rightarrow> f32" where
  "bank_sum F X W off N = for_loop N (\<lambda>i a. fadd F a (tree16 F (\<lambda>l.
     widen (to_bf16 F (fmul F (X (64 * i + off + l)) (W (64 * i + off + l))))))) 0"

definition dense_value :: "fp32_ops \<Rightarrow> (nat \<Rightarrow> f32) \<Rightarrow> (nat \<Rightarrow> f32) \<Rightarrow> nat \<Rightarrow> f32 option \<Rightarrow> f32" where
  "dense_value F X W N bias =
     (let r = fadd F (fadd F (bank_sum F X W 0 N) (bank_sum F X W 16 N))
                     (fadd F (bank_sum F X W 32 N) (bank_sum F X W 48 N))
      in case bias of None \<Rightarrow> r | Some b \<Rightarrow> fadd F r b)"

lemma product_loop:
  assumes "\<And>k m n l. ldx k m n l = X m (k l)" "\<And>k m n l. ldw k m n l = W n (k l)"
  shows "for_loop N (\<lambda>i. product_step F ldx ldw (64 * i)) (\<lambda>m n. 0, \<lambda>m n. 0, \<lambda>m n. 0, \<lambda>m n. 0)
    = ((\<lambda>m n. bank_sum F (X m) (W n) 0 N), (\<lambda>m n. bank_sum F (X m) (W n) 16 N),
       (\<lambda>m n. bank_sum F (X m) (W n) 32 N), (\<lambda>m n. bank_sum F (X m) (W n) 48 N))"
proof (induction N)
  case 0
  then show ?case by (simp add: bank_sum_def)
next
  case (Suc N)
  show ?case
    unfolding for_loop.simps Suc.IH
    by (simp add: product_step_def Let_def tile_add_def balanced_tree16_eq bank_sum_def assms add.assoc)
qed

lemma flat_index_inject:
  assumes "(n::nat) < ns" "N < ns"
  shows "m * ns + n = M * ns + N \<longleftrightarrow> m = M \<and> n = N"
proof
  assume eq: "m * ns + n = M * ns + N"
  have "(m * ns + n) mod ns = n" "(M * ns + N) mod ns = N" using assms by simp_all
  then have "n = N" using eq by simp
  then show "m = M \<and> n = N" using eq assms by simp
qed simp

lemma block_index: "0 < (B::nat) \<Longrightarrow> p * B + i = M \<and> i < B \<longleftrightarrow> M div B = p \<and> M mod B = i"
  by auto

text \<open>The masked store of one program, seen at one element of the output.\<close>

lemma store_block:
  fixes f :: "nat \<Rightarrow> nat \<Rightarrow> scalar"
  assumes "0 < BM" "0 < BN" "M < ms" "N < ns"
  shows "for_loop BM (\<lambda>m. for_loop BN (\<lambda>n out. if pm * BM + m < ms \<and> pn * BN + n < ns
      then out((pm * BM + m) * ns + (pn * BN + n) * 1 := f m n) else out)) out (M * ns + N)
    = (if M div BM = pm \<and> N div BN = pn then f (M mod BM) (N mod BN) else out (M * ns + N))"
proof -
  let ?x = "M * ns + N"
  let ?wr = "\<lambda>m n (out :: nat \<Rightarrow> scalar). if pm * BM + m < ms \<and> pn * BN + n < ns
      then out((pm * BM + m) * ns + (pn * BN + n) * 1 := f m n) else out"
  have col: "pn * BN + n = N \<longleftrightarrow> N div BN = pn \<and> N mod BN = n" if "n < BN" for n
    using block_index [OF assms(2), of pn n N] that by auto
  have row: "pm * BM + m = M \<longleftrightarrow> M div BM = pm \<and> M mod BM = m" if "m < BM" for m
    using block_index [OF assms(1), of pm m M] that by auto
  have cell: "?wr m n h ?x = (if (pm * BM + m = M \<and> N div BN = pn) \<and> N mod BN = n then f m n else h ?x)"
    if "n < BN" for m n h
    using flat_index_inject [of "pn * BN + n" ns N "pm * BM + m" M] assms(3,4) col [OF that] by auto
  have line: "for_loop BN (?wr m) h ?x
      = (if N div BN = pn \<and> M div BM = pm \<and> M mod BM = m then f m (N mod BN) else h ?x)"
    if "m < BM" for m h
    using for_loop_point [where body = "?wr m" and x = ?x, OF cell order_refl] row [OF that] assms(2) by auto
  have "for_loop BM (\<lambda>m. for_loop BN (?wr m)) out ?x
      = (if (N div BN = pn \<and> M div BM = pm) \<and> M mod BM < BM then f (M mod BM) (N mod BN) else out ?x)"
    by (rule for_loop_point [OF _ order_refl]) (simp only: line conj_assoc)
  then show ?thesis using assms(1) by auto
qed


abbreviation elem_value :: "fp32_ops \<Rightarrow> (nat \<Rightarrow> bf16) \<Rightarrow> (nat \<Rightarrow> bf16) \<Rightarrow> nat \<Rightarrow> nat \<Rightarrow> nat \<Rightarrow> f32 option \<Rightarrow> f32" where
  "elem_value F x w K M N bias \<equiv>
     dense_value F (\<lambda>j. widen (x (M * K + j))) (\<lambda>j. widen (w (N * K + j))) (cdiv K 64) bias"

lemma kernel_element:
  assumes "0 < BM" "0 < BN" "M < ms" "N < ns"
  shows "native_bf16_product_linear_kernel F x w b ms ns K 1 K 1 ns 1 K hb BM BN o32 pm pn out (M * ns + N)
    = (if M div BM = pm \<and> N div BN = pn
       then cast_out F o32 (elem_value F x w K M N (if hb then Some (widen (b N)) else None))
       else out (M * ns + N))"
proof -
  let ?om = "\<lambda>i. pm * BM + i" and ?on = "\<lambda>i. pn * BN + i"
  let ?X = "\<lambda>m j. if ?om m < ms then widen (x (?om m * K + j * 1)) else 0"
  let ?W = "\<lambda>n j. if ?on n < ns then widen (w (?on n * K + j * 1)) else 0"
  have ldx: "load_x x ?om (\<lambda>i. ?om i < ms) K 1 k m n l = ?X m (k l)" for k m n l
    by (simp add: load_x_def)
  have ldw: "load_w w ?on (\<lambda>i. ?on i < ns) K 1 k m n l = ?W n (k l)" for k m n l
    by (simp add: load_w_def)
  note loop = product_loop [where X = ?X and W = ?W and F = F and N = "cdiv K 64"
      and ldx = "load_x x ?om (\<lambda>i. ?om i < ms) K 1" and ldw = "load_w w ?on (\<lambda>i. ?on i < ns) K 1", OF ldx ldw]
  show ?thesis
  proof (cases "M div BM = pm \<and> N div BN = pn")
    case True
    then have at: "pm * BM + M mod BM = M" "pn * BN + N mod BN = N" by auto
    show ?thesis
      unfolding native_bf16_product_linear_kernel_def Let_def loop prod.case store_block [OF assms]
      using True by (simp add: tile_add_def dense_value_def at assms(3,4))
  next
    case False
    then show ?thesis
      unfolding native_bf16_product_linear_kernel_def Let_def loop prod.case store_block [OF assms]
      by (simp only: if_False)
  qed
qed

lemma launch_shape_pos:
  assumes "launch_shape m = (bm, bn, nw)"
  shows "0 < bm" "0 < bn"
  using assms by (auto simp: launch_shape_def split: if_splits)

lemma native_launch_element:
  assumes b: "0 < BM" "0 < BN" and M: "M < ms" and N: "N < ns"
  shows "for_loop (cdiv ms BM) (\<lambda>pid_m. for_loop (cdiv ns BN) (\<lambda>pid_n.
      native_bf16_product_linear_kernel F x w b ms ns K 1 K 1 ns 1 K hb BM BN o32 pid_m pid_n)) fresh (M * ns + N)
    = cast_out F o32 (elem_value F x w K M N (if hb then Some (widen (b N)) else None))"
proof -
  let ?prog = "\<lambda>pm pn. native_bf16_product_linear_kernel F x w b ms ns K 1 K 1 ns 1 K hb BM BN o32 pm pn"
  let ?v = "cast_out F o32 (elem_value F x w K M N (if hb then Some (widen (b N)) else None))"
  note elem = kernel_element [OF b M N, where F = F and x = x and w = w and b = b and K = K and hb = hb and ?o32.0 = o32]
  have row: "for_loop (cdiv ns BN) (?prog pm) out (M * ns + N)
      = (if M div BM = pm \<and> N div BN < cdiv ns BN then ?v else out (M * ns + N))" for pm out
    by (rule for_loop_point [OF _ order_refl]) (rule elem)
  have "for_loop (cdiv ms BM) (\<lambda>pm. for_loop (cdiv ns BN) (?prog pm)) fresh (M * ns + N)
      = (if True \<and> M div BM < cdiv ms BM then ?v else fresh (M * ns + N))"
    by (rule for_loop_point [OF _ order_refl]) (simp only: row block_in_cdiv [OF b(2) N] simp_thms)
  then show ?thesis using block_in_cdiv [OF b(1) M] by simp
qed

section \<open>One element of the reference\<close>

lemma ref_banks:
  assumes "64 dvd K" and "m \<le> K div 64"
  shows "rfold (\<lambda>banks i. rfold (ref_bank_step F K K x w (64 * i)) banks [0..<4]) (\<lambda>bank m n. 0) [0..<m]
    = Inr (\<lambda>b. if b < 4 then (\<lambda>i n. bank_sum F (\<lambda>j. widen (x i j)) (\<lambda>j. widen (w n j)) (16 * b) m) else (\<lambda>i n. 0))"
  using assms(2)
proof (induction m)
  case 0
  then show ?case by (simp add: bank_sum_def fun_eq_iff)
next
  case (Suc m)
  have full: "slice_len K (64 * m + 16 * b) = 16" if "b < 4" for b
    using that Suc.prems assms(1) by (auto simp: slice_len_def elim!: dvdE)
  have four: "[0..<4] = [0, 1, 2, 3 :: nat]" by (simp add: upt_rec)
  have step: "ref_bank_step F K K x w (64 * m) banks b = Inr (banks(b := tile_add F (banks b)
      (\<lambda>i n. tree16 F (\<lambda>l. widen (to_bf16 F (fmul F (widen (x i (64 * m + 16 * b + l))) (widen (w n (64 * m + 16 * b + l)))))))))"
    if "b < 4" for banks b
    using full [OF that] by (simp add: ref_bank_step_def Let_def ref_products_def ref_tree_16)
  have "rfold (ref_bank_step F K K x w (64 * m)) (\<lambda>b. if b < 4 then (\<lambda>i n. bank_sum F (\<lambda>j. widen (x i j)) (\<lambda>j. widen (w n j)) (16 * b) m) else (\<lambda>i n. 0)) [0..<4]
    = Inr (\<lambda>b. if b < 4 then (\<lambda>i n. bank_sum F (\<lambda>j. widen (x i j)) (\<lambda>j. widen (w n j)) (16 * b) (Suc m)) else (\<lambda>i n. 0))"
    unfolding four by (simp add: step tile_add_def bank_sum_def fun_eq_iff) (auto simp: less_Suc_eq numeral_eq_Suc)
  then show ?case
    using Suc by (simp add: rfold_append)
qed


section \<open>The patch\<close>

text \<open>
  A module as the patch sees it: whether it is an \<open>nn.Linear\<close>, the size of its weight, the
  forward it runs (\<open>Some f\<close> once it is the product-rounded one with \<open>output_fp32 = f\<close>), the
  marker attribute and the \<open>fuse_swiglu\<close> attribute, absent in most modules.  A model is the
  list \<open>named_modules\<close> yields.
\<close>

record nn_module =
  is_linear :: bool
  weight_numel :: nat
  native_forward :: "bool option"
  gdn_native_bf16_product :: bool
  fuse_swiglu :: "bool option"

type_synonym named_modules = "(string \<times> nn_module) list"

text \<open>The anchor \<open>$\<close> also matches before a final newline.\<close>

definition before_dollar :: "string \<Rightarrow> string" where
  "before_dollar name = (if name \<noteq> [] \<and> last name = CHR 0x0A then butlast name else name)"

definition layer_tail :: "string \<Rightarrow> string list \<Rightarrow> string \<Rightarrow> bool" where
  "layer_tail kind projs name =
     (case rev (split_on (CHR ''.'') (before_dollar name)) of
        proj # k # idx # lay # _ \<Rightarrow>
          lay = ''layers'' \<and> idx \<noteq> [] \<and> list_all is_digit idx \<and> k = kind \<and> proj \<in> set projs
      | _ \<Rightarrow> False)"

definition is_accelerator_dense :: "string \<Rightarrow> bool" where
  "is_accelerator_dense name \<longleftrightarrow>
     layer_tail ''attn'' [''q_proj'', ''k_proj'', ''v_proj'', ''g_proj'', ''o_proj''] name \<or>
     layer_tail ''mlp'' [''gate_proj'', ''up_proj'', ''down_proj''] name \<or>
     name = ''lm_head''"

definition is_layer_mlp :: "string \<Rightarrow> bool" where
  "is_layer_mlp name =
     (case rev (split_on (CHR ''.'') (before_dollar name)) of
        k # idx # lay # _ \<Rightarrow> lay = ''layers'' \<and> idx \<noteq> [] \<and> list_all is_digit idx \<and> k = ''mlp''
      | _ \<Rightarrow> False)"

record product_rounded_patch =
  module_names :: "string list"
  dense_weight_elements :: nat
  lm_head_fp32_logits :: bool

fun patch_dense :: "named_modules \<Rightarrow> named_modules \<times> (string list \<times> nat) result" where
  "patch_dense [] = ([], Inr ([], 0))"
| "patch_dense ((name, m) # mods) =
     (if \<not> is_accelerator_dense name
      then (let (mods', r) = patch_dense mods in ((name, m) # mods', r))
      else if \<not> is_linear m then ((name, m) # mods, Inl TypeError)
      else (let m' = m\<lparr>native_forward := Some (name = ''lm_head''), gdn_native_bf16_product := True\<rparr>;
                (mods', r) = patch_dense mods
            in ((name, m') # mods', rbind r (\<lambda>(names, n). Inr (name # names, weight_numel m + n)))))"

fun unfuse_mlps :: "named_modules \<Rightarrow> named_modules \<times> nat result" where
  "unfuse_mlps [] = ([], Inr 0)"
| "unfuse_mlps ((name, m) # mods) =
     (if \<not> is_layer_mlp name then (let (mods', r) = unfuse_mlps mods in ((name, m) # mods', r))
      else if fuse_swiglu m = None then ((name, m) # mods, Inl TypeError)
      else (let (mods', r) = unfuse_mlps mods
            in ((name, m\<lparr>fuse_swiglu := Some False\<rparr>) # mods', rbind r (\<lambda>n. Inr (Suc n)))))"

definition install_native_bf16_product_linears ::
  "named_modules \<Rightarrow> named_modules \<times> product_rounded_patch result" where
  "install_native_bf16_product_linears model =
     (case patch_dense model of
        (model, Inl e) \<Rightarrow> (model, Inl e)
      | (model, Inr (patched, weight_elements)) \<Rightarrow>
          if length patched \<noteq> 24 * 8 + 1 then (model, Inl RuntimeError)
          else (case unfuse_mlps model of
                  (model, Inl e) \<Rightarrow> (model, Inl e)
                | (model, Inr mlp_count) \<Rightarrow>
                    if mlp_count \<noteq> 24 then (model, Inl RuntimeError)
                    else (model, Inr \<lparr>module_names = patched, dense_weight_elements = weight_elements,
                                      lm_head_fp32_logits = True\<rparr>)))"

record patch_report =
  patched_dense_module_count :: nat
  patched_dense_weight_elements :: nat
  lm_head_logits_dtype :: string
  patched_dense_modules :: "string list"

definition patch_manifest :: "product_rounded_patch \<Rightarrow> patch_report" where
  "patch_manifest p =
     \<lparr>patched_dense_module_count = length (module_names p),
      patched_dense_weight_elements = dense_weight_elements p,
      lm_head_logits_dtype = ''float32'',
      patched_dense_modules = module_names p\<rparr>"

text \<open>What a completed patch does to one module.\<close>

definition patched_module :: "string \<Rightarrow> nn_module \<Rightarrow> nn_module" where
  "patched_module name m =
     (if is_accelerator_dense name
      then m\<lparr>native_forward := Some (name = ''lm_head''), gdn_native_bf16_product := True\<rparr>
      else if is_layer_mlp name then m\<lparr>fuse_swiglu := Some False\<rparr> else m)"

lemma dense_not_mlp: "is_accelerator_dense name \<Longrightarrow> \<not> is_layer_mlp name"
  by (auto simp: is_accelerator_dense_def layer_tail_def is_layer_mlp_def before_dollar_def split: list.splits)

lemma patch_dense_Inr:
  assumes "patch_dense mods = (mods', Inr (names, n))"
  shows "names = filter is_accelerator_dense (map fst mods) \<and>
    n = sum_list (map (weight_numel \<circ> snd) (filter (is_accelerator_dense \<circ> fst) mods)) \<and>
    (\<forall>(name, m) \<in> set mods. is_accelerator_dense name \<longrightarrow> is_linear m) \<and>
    mods' = map (\<lambda>(name, m). (name, if is_accelerator_dense name
       then m\<lparr>native_forward := Some (name = ''lm_head''), gdn_native_bf16_product := True\<rparr> else m)) mods"
  using assms
proof (induction mods arbitrary: mods' names n)
  case Nil
  then show ?case by simp
next
  case (Cons x mods)
  obtain name m where x: "x = (name, m)" by (cases x)
  obtain mods1 r where r: "patch_dense mods = (mods1, r)" by (cases "patch_dense mods")
  show ?case
  proof (cases "is_accelerator_dense name")
    case True
    with Cons.prems obtain names1 n1 where ok: "is_linear m" "r = Inr (names1, n1)"
      and out: "names = name # names1" "n = weight_numel m + n1"
        "mods' = (name, m\<lparr>native_forward := Some (name = ''lm_head''), gdn_native_bf16_product := True\<rparr>) # mods1"
      by (auto simp: x r rbind_eq_Inr Let_def split: if_splits)
    then show ?thesis using Cons.IH [of mods1 names1 n1] True by (simp add: x r)
  next
    case False
    with Cons.prems have ok: "r = Inr (names, n)" and out: "mods' = (name, m) # mods1"
      by (auto simp: x r)
    then show ?thesis using Cons.IH [of mods1 names n] False by (simp add: x r)
  qed
qed

lemma patch_dense_linear:
  assumes "\<forall>(name, m) \<in> set mods. is_accelerator_dense name \<longrightarrow> is_linear m"
  shows "\<exists>mods' names n. patch_dense mods = (mods', Inr (names, n))"
  using assms
proof (induction mods)
  case Nil
  then show ?case by simp
next
  case (Cons x mods)
  then show ?case by (cases x) auto
qed

lemma unfuse_mlps_Inr:
  assumes "unfuse_mlps mods = (mods', Inr n)"
  shows "n = length (filter is_layer_mlp (map fst mods)) \<and>
    mods' = map (\<lambda>(name, m). (name, if is_layer_mlp name then m\<lparr>fuse_swiglu := Some False\<rparr> else m)) mods"
  using assms
proof (induction mods arbitrary: mods' n)
  case Nil
  then show ?case by simp
next
  case (Cons x mods)
  then show ?case
    by (cases x) (auto simp: rbind_eq_Inr Let_def split: prod.splits if_splits)
qed

lemma unfuse_mlps_ok:
  assumes "\<forall>(name, m) \<in> set mods. is_layer_mlp name \<longrightarrow> fuse_swiglu m \<noteq> None"
  shows "\<exists>mods' n. unfuse_mlps mods = (mods', Inr n)"
  using assms
proof (induction mods)
  case Nil
  then show ?case by simp
next
  case (Cons x mods)
  then show ?case by (cases x) auto
qed

lemma install_succeeds:
  assumes "\<forall>(name, m) \<in> set model. is_accelerator_dense name \<longrightarrow> is_linear m"
    and "\<forall>(name, m) \<in> set model. is_layer_mlp name \<longrightarrow> fuse_swiglu m \<noteq> None"
    and "length (filter is_accelerator_dense (map fst model)) = 193"
    and "length (filter is_layer_mlp (map fst model)) = 24"
  shows "\<exists>model' p. install_native_bf16_product_linears model = (model', Inr p)"
proof -
  obtain mid names n where d: "patch_dense model = (mid, Inr (names, n))"
    using patch_dense_linear [OF assms(1)] by blast
  note dd = patch_dense_Inr [OF d]
  have "\<forall>(name, m) \<in> set mid. is_layer_mlp name \<longrightarrow> fuse_swiglu m \<noteq> None"
    using assms(2) dd by (auto split: if_splits)
  then obtain model' k where u: "unfuse_mlps mid = (model', Inr k)"
    using unfuse_mlps_ok by blast
  have "map fst mid = map fst model" using dd by (auto simp: split_def)
  then have "k = 24" using unfuse_mlps_Inr [OF u] assms(4) by simp
  then show ?thesis
    using dd assms(3) u by (simp add: install_native_bf16_product_linears_def d)
qed

section \<open>Properties\<close>

text \<open>C28: The GPU emulation of the accelerator's dense layer is bit exact: whenever
  \<open>native_bf16_product_linear\<close> returns on a matrix weight with no bias or a CUDA bias of one element per
  output feature (its shape, which the native path does not check, is that of the bias of a linear layer), the reference it is tested against
  returns on the same operands with the same shape, and the two outputs agree in every
  element, for every choice of the hardware's addition, multiplication and rounding.  Blocking,
  masking, the launch shape and the untouched output memory do not show.\<close>

theorem native_linear_matches_reference:
  assumes "native_bf16_product_linear F fresh x weight bias output_fp32 = Inr (shape, out)"
    and "length (t_shape weight) = 2"
    and "\<And>b. bias = Some b \<Longrightarrow> t_cuda b \<and> t_shape b = [t_shape weight ! 0]"
  shows "\<exists>out'. fpga_associated_reference F x weight bias output_fp32 = Inr (shape, out') \<and>
    (\<forall>p < prod_list shape. out p = out' p)"
proof -
  let ?K = "last (t_shape x)" and ?n = "t_shape weight ! 0"
  let ?m = "prod_list (t_shape x) div ?K"
  from assms(1) have ok: "t_dtype x = BFloat16" "t_dtype weight = BFloat16" "t_shape x \<noteq> []"
      "t_shape weight ! 1 = ?K" "64 dvd ?K" "0 < ?K" "\<And>b. bias = Some b \<Longrightarrow> t_dtype b = BFloat16"
    and shape: "shape = butlast (t_shape x) @ [?n]"
    by (auto simp: native_bf16_product_linear_def Let_def split: if_splits option.splits prod.splits)
  obtain bm bn nw where ls: "launch_shape ?m = (bm, bn, nw)" by (rule prod_cases3)
  note pos = launch_shape_pos [OF ls]
  have out: "out = for_loop (cdiv ?m bm) (\<lambda>pid_m. for_loop (cdiv ?n bn) (\<lambda>pid_n.
      native_bf16_product_linear_kernel F (t_data x) (t_data weight)
        (case bias of Some b \<Rightarrow> t_data b | None \<Rightarrow> t_data weight) ?m ?n ?K 1 ?K 1 ?n 1 ?K (bias \<noteq> None)
        bm bn output_fp32 pid_m pid_n)) fresh"
    using assms(1) by (auto simp: native_bf16_product_linear_def Let_def ls [folded ok(4), simplified] split: if_splits)
  have m: "?m = prod_list (butlast (t_shape x))"
    using ok(3,6) by (metis append_butlast_last_id nonzero_mult_div_cancel_right not_gr_zero prod_list.Cons
        prod_list.Nil prod_list.append mult_1_right)
  define ref where "ref = (\<lambda>p. cast_out F output_fp32 (elem_value F (t_data x) (t_data weight) ?K (p div ?n) (p mod ?n)
      (case bias of None \<Rightarrow> None | Some b \<Rightarrow> Some (widen (t_data b (p mod ?n))))))"
  have cd: "cdiv ?K 64 = ?K div 64" using ok(5) by (auto elim!: dvdE simp: mult.commute)
  have fit: "broadcasts_into (t_shape b) [M, ?n]" "bias_index (t_shape b) m (p mod ?n) = p mod ?n" if "bias = Some b" for b M m p
    using assms(3) [OF that] by (simp_all add: broadcasts_into_def bias_index_def)
  have "fpga_associated_reference F x weight bias output_fp32 = Inr (shape, ref)"
    using ok assms(2) ref_banks [OF ok(5) order_refl, of F "\<lambda>m k. t_data x (m * ?K + k)" "\<lambda>n k. t_data weight (n * ?K + k)"]
    by (cases bias) (simp_all add: fpga_associated_reference_def Let_def cd shape ref_def tile_add_def dense_value_def float_elem_def
        fit dvd_eq_mod_eq_0)
  moreover have "out p = ref p" if p: "p < prod_list shape" for p
  proof -
    have n: "0 < ?n" using p by (cases "?n = 0") (auto simp: shape)
    have mn: "p div ?n < ?m" "p mod ?n < ?n"
      using p n by (simp_all add: shape m less_mult_imp_div_less)
    have "out (p div ?n * ?n + p mod ?n) = ref p"
      unfolding out native_launch_element [OF pos mn] ref_def by (auto split: option.splits)
    then show ?thesis by (simp only: div_mult_mod_eq)
  qed
  ultimately show ?thesis by blast
qed

definition wrap_ops :: fp32_ops where
  "wrap_ops = \<lparr>fadd = (+), fmul = (*), to_bf16 = (\<lambda>r. ucast (drop_bit 16 r)), half_to_f32 = ucast\<rparr>"

theorem native_linear_matches_reference_witness:
  "\<exists>shape out out'. native_bf16_product_linear wrap_ops (\<lambda>p. BF16 9)
      \<lparr>t_cuda = True, t_dtype = BFloat16, t_shape = [3, 64], t_data = of_nat\<rparr>
      \<lparr>t_cuda = True, t_dtype = BFloat16, t_shape = [5, 64], t_data = of_nat\<rparr>
      (Some \<lparr>t_cuda = True, t_dtype = BFloat16, t_shape = [5], t_data = of_nat\<rparr>) True = Inr (shape, out) \<and>
    fpga_associated_reference wrap_ops
      \<lparr>t_cuda = True, t_dtype = BFloat16, t_shape = [3, 64], t_data = of_nat\<rparr>
      \<lparr>t_cuda = True, t_dtype = BFloat16, t_shape = [5, 64], t_data = of_nat\<rparr>
      (Some \<lparr>t_cuda = True, t_dtype = BFloat16, t_shape = [5], t_data = of_nat\<rparr>) True = Inr (shape, out') \<and>
    (\<forall>p < prod_list shape. out p = out' p)"
proof -
  let ?x = "\<lparr>t_cuda = True, t_dtype = BFloat16, t_shape = [3, 64], t_data = of_nat\<rparr>"
  let ?w = "\<lparr>t_cuda = True, t_dtype = BFloat16, t_shape = [5, 64], t_data = of_nat\<rparr>"
  let ?b = "Some \<lparr>t_cuda = True, t_dtype = BFloat16, t_shape = [5], t_data = of_nat\<rparr>"
  obtain shape out where r: "native_bf16_product_linear wrap_ops (\<lambda>p. BF16 9) ?x ?w ?b True = Inr (shape, out)"
    by (simp add: native_bf16_product_linear_def launch_shape_def Let_def)
  show ?thesis using r native_linear_matches_reference [OF r] by auto
qed

text \<open>A bias of another shape: the native path, which does not look at it, returns, and the reference raises.\<close>

lemma long_bias_only_native_returns:
  defines "x \<equiv> \<lparr>t_cuda = True, t_dtype = BFloat16, t_shape = [3, 64], t_data = of_nat\<rparr>"
    and "w \<equiv> \<lparr>t_cuda = True, t_dtype = BFloat16, t_shape = [5, 64], t_data = of_nat\<rparr>"
    and "b \<equiv> Some \<lparr>t_cuda = True, t_dtype = BFloat16, t_shape = [6], t_data = of_nat\<rparr>"
  shows "returns (native_bf16_product_linear F fresh x w b True)" "\<not> returns (fpga_associated_reference F x w b True)"
  by (simp_all add: x_def w_def b_def native_bf16_product_linear_def launch_shape_def fpga_associated_reference_def broadcasts_into_def
      returns_iff rbind_eq_Inr Let_def)

text \<open>The operands \<open>native_bf16_product_linear\<close> accepts: on tensors with the dimensions it
  reads, it returns exactly for CUDA bfloat16 operands (and bias) whose input widths agree and
  are a positive multiple of 64; every other call raises.\<close>

theorem native_linear_accepts:
  assumes "t_shape x \<noteq> []" and "2 \<le> length (t_shape weight)"
  shows "returns (native_bf16_product_linear F fresh x weight bias output_fp32) \<longleftrightarrow>
    t_cuda x \<and> t_cuda weight \<and> t_dtype x = BFloat16 \<and> t_dtype weight = BFloat16 \<and>
    last (t_shape x) = t_shape weight ! 1 \<and> 64 dvd t_shape weight ! 1 \<and> 0 < t_shape weight ! 1 \<and>
    (bias = None \<or> (\<exists>b. bias = Some b \<and> t_dtype b = BFloat16))"
  using assms
  by (auto simp: native_bf16_product_linear_def Let_def returns_def dvd_eq_mod_eq_0
      split: if_splits option.splits prod.splits)

theorem native_linear_accepts_witness:
  "\<not> returns (native_bf16_product_linear wrap_ops (\<lambda>p. F32 0)
      \<lparr>t_cuda = True, t_dtype = BFloat16, t_shape = [3, 96], t_data = of_nat\<rparr>
      \<lparr>t_cuda = True, t_dtype = BFloat16, t_shape = [5, 96], t_data = of_nat\<rparr> None False)"
  by (subst native_linear_accepts) simp_all

text \<open>A patch that succeeds touches exactly the accelerator's modules: 193 dense projections,
  all of them \<open>nn.Linear\<close>, get the product-rounded forward (with float32 output for
  \<open>lm_head\<close> alone) and the marker, 24 MLPs are unfused, and every other module is unchanged;
  the returned names and element count are those of the dense projections in model order.\<close>

theorem install_patches_exactly:
  assumes "install_native_bf16_product_linears model = (model', Inr p)"
  shows "model' = map (\<lambda>(name, m). (name, patched_module name m)) model \<and>
    module_names p = filter is_accelerator_dense (map fst model) \<and> length (module_names p) = 193 \<and>
    dense_weight_elements p = sum_list (map (weight_numel \<circ> snd) (filter (is_accelerator_dense \<circ> fst) model)) \<and>
    (\<forall>(name, m) \<in> set model. is_accelerator_dense name \<longrightarrow> is_linear m) \<and>
    length (filter is_layer_mlp (map fst model)) = 24"
proof -
  from assms obtain mid names n where d: "patch_dense model = (mid, Inr (names, n))" "length names = 193"
    and u: "unfuse_mlps mid = (model', Inr 24)"
    and p: "p = \<lparr>module_names = names, dense_weight_elements = n, lm_head_fp32_logits = True\<rparr>"
    by (auto simp: install_native_bf16_product_linears_def split: prod.splits sum.splits if_splits)
  note dd = patch_dense_Inr [OF d(1)] and uu = unfuse_mlps_Inr [OF u]
  have "map fst mid = map fst model" using dd by (auto simp: split_def)
  then have mlps: "length (filter is_layer_mlp (map fst model)) = 24" using uu by simp
  have "model' = map (\<lambda>(name, m). (name, patched_module name m)) model"
    using dd uu dense_not_mlp by (auto simp: patched_module_def)
  then show ?thesis using dd mlps d(2) p by simp
qed

definition plain_linear :: nn_module where
  "plain_linear = \<lparr>is_linear = True, weight_numel = 10, native_forward = None,
     gdn_native_bf16_product = False, fuse_swiglu = None\<rparr>"

definition gdn_layer :: "string \<Rightarrow> named_modules" where
  "gdn_layer i = (''layers.'' @ i @ ''.mlp'', plain_linear\<lparr>is_linear := False, fuse_swiglu := Some True\<rparr>) #
     map (\<lambda>s. (''layers.'' @ i @ s, plain_linear))
       [''.attn.q_proj'', ''.attn.k_proj'', ''.attn.v_proj'', ''.attn.g_proj'', ''.attn.o_proj'',
        ''.mlp.gate_proj'', ''.mlp.up_proj'', ''.mlp.down_proj'', ''.attn.a_proj'']"

definition layer_ids :: "string list" where
  "layer_ids =
       [''0'', ''1'', ''2'', ''3'', ''4'', ''5'', ''6'', ''7'', ''8'', ''9'', ''10'', ''11'', ''12'', ''13'',
        ''14'', ''15'', ''16'', ''17'', ''18'', ''19'', ''20'', ''21'', ''22'', ''23'']"

definition gdn_model :: named_modules where
  "gdn_model = (''lm_head'', plain_linear) # concat (map gdn_layer layer_ids)"

lemma gdn_layer_names:
  assumes "list_all is_digit i" "i \<noteq> []"
  shows "length (filter is_accelerator_dense (map fst (gdn_layer i))) = 8"
    and "length (filter is_layer_mlp (map fst (gdn_layer i))) = 1"
    and "\<forall>(name, m) \<in> set (gdn_layer i). is_accelerator_dense name \<longrightarrow> is_linear m"
    and "\<forall>(name, m) \<in> set (gdn_layer i). is_layer_mlp name \<longrightarrow> fuse_swiglu m \<noteq> None"
  using assms exI [of "\<lambda>y. y" True]
  by (simp_all add: gdn_layer_def is_accelerator_dense_def layer_tail_def is_layer_mlp_def before_dollar_def
      split_on_sep digits_no_dot plain_linear_def)

lemma gdn_layers:
  assumes "list_all (\<lambda>i. list_all is_digit i \<and> i \<noteq> []) ids"
  defines "ms \<equiv> concat (map gdn_layer ids)"
  shows "length (filter is_accelerator_dense (map fst ms)) = 8 * length ids"
    and "length (filter is_layer_mlp (map fst ms)) = length ids"
    and "\<forall>(name, m) \<in> set ms. is_accelerator_dense name \<longrightarrow> is_linear m"
    and "\<forall>(name, m) \<in> set ms. is_layer_mlp name \<longrightarrow> fuse_swiglu m \<noteq> None"
proof -
  show "length (filter is_accelerator_dense (map fst ms)) = 8 * length ids"
    "length (filter is_layer_mlp (map fst ms)) = length ids"
    using assms(1) unfolding ms_def
    by (induction ids) (simp_all add: gdn_layer_names(1,2) [simplified])
  have "\<forall>x \<in> set (gdn_layer i). case x of (name, m) \<Rightarrow> (is_accelerator_dense name \<longrightarrow> is_linear m)
      \<and> (is_layer_mlp name \<longrightarrow> fuse_swiglu m \<noteq> None)" if "i \<in> set ids" for i
    using gdn_layer_names(3,4) [of i] assms(1) that by (simp only: list_all_iff) blast
  then show "\<forall>(name, m) \<in> set ms. is_accelerator_dense name \<longrightarrow> is_linear m"
    "\<forall>(name, m) \<in> set ms. is_layer_mlp name \<longrightarrow> fuse_swiglu m \<noteq> None"
    by (simp_all only: ms_def set_concat set_map UN_iff ball_UN) blast+
qed

theorem install_patches_exactly_witness:
  "\<exists>model' p. install_native_bf16_product_linears gdn_model = (model', Inr p) \<and> length (module_names p) = 193"
proof -
  have ids: "list_all (\<lambda>i. list_all is_digit i \<and> i \<noteq> []) layer_ids" "length layer_ids = 24"
    unfolding layer_ids_def by (code_simp, simp)
  have lm: "is_accelerator_dense ''lm_head''" "\<not> is_layer_mlp ''lm_head''" "is_linear plain_linear"
    by (simp_all add: is_accelerator_dense_def is_layer_mlp_def before_dollar_def plain_linear_def)
  have "\<exists>model' p. install_native_bf16_product_linears gdn_model = (model', Inr p)"
    by (rule install_succeeds) (use gdn_layers [OF ids(1)] lm ids(2) in \<open>simp_all add: gdn_model_def\<close>)
  then obtain model' p where r: "install_native_bf16_product_linears gdn_model = (model', Inr p)" by blast
  show ?thesis using r install_patches_exactly [OF r] by blast
qed

text \<open>A model with an unexpected number of dense projections is refused, but not rolled
  back: the runtime error leaves every dense projection patched.\<close>

theorem install_refuses_wrong_count:
  assumes "\<forall>(name, m) \<in> set model. is_accelerator_dense name \<longrightarrow> is_linear m"
    and "length (filter is_accelerator_dense (map fst model)) \<noteq> 193"
  shows "install_native_bf16_product_linears model =
    (map (\<lambda>(name, m). (name, if is_accelerator_dense name
       then m\<lparr>native_forward := Some (name = ''lm_head''), gdn_native_bf16_product := True\<rparr> else m)) model,
     Inl RuntimeError)"
proof -
  obtain mid names n where d: "patch_dense model = (mid, Inr (names, n))"
    using patch_dense_linear [OF assms(1)] by blast
  show ?thesis
    using patch_dense_Inr [OF d] assms(2) by (simp add: install_native_bf16_product_linears_def d)
qed

theorem install_refuses_wrong_count_witness:
  "install_native_bf16_product_linears [(''lm_head'', plain_linear), (''layers.0.attn.a_proj'', plain_linear)]
    = ([(''lm_head'', plain_linear\<lparr>native_forward := Some True, gdn_native_bf16_product := True\<rparr>),
        (''layers.0.attn.a_proj'', plain_linear)], Inl RuntimeError)"
  by (subst install_refuses_wrong_count) (simp_all add: plain_linear_def is_accelerator_dense_def layer_tail_def before_dollar_def)

end
