(* ===== verification/PyBytes.thy ===== *)
theory PyBytes
  imports Prelude
begin

text \<open>
  Python's \<open>bytes\<close> and the \<open>struct\<close> formats the program uses, all little-endian:
  \<open>B\<close>, \<open>I\<close> and \<open>Q\<close> (unsigned, 1, 4 and 8 bytes) and \<open>i\<close> (signed, 4 bytes).
  \<open>struct.pack\<close> raises \<open>struct.error\<close> for a value outside the format's range and
  \<open>struct.unpack_from\<close> raises it when the buffer is too short; both are the
  \<open>StructError\<close> branch here.
\<close>

type_synonym byte = "8 word"
type_synonym bytes = "8 word list"

named_theorems bytes_simps \<open>lengths and round trips of packed values\<close>

text \<open>An ASCII byte-string literal such as \<open>b"GDNEVQ1\0"\<close>.\<close>

definition ascii :: "string \<Rightarrow> bytes" where
  "ascii s = map (\<lambda>c. word_of_nat (of_char c)) s"

fun le_bytes :: "nat \<Rightarrow> int \<Rightarrow> bytes" where
  "le_bytes 0 v = []"
| "le_bytes (Suc n) v = word_of_int v # le_bytes n (v div 256)"

fun le_value :: "bytes \<Rightarrow> int" where
  "le_value [] = 0"
| "le_value (b # bs) = uint b + 256 * le_value bs"

definition pack_uint :: "nat \<Rightarrow> int \<Rightarrow> bytes result" where
  "pack_uint n v = (if 0 \<le> v \<and> v < 256 ^ n then Inr (le_bytes n v) else Inl StructError)"

definition pack_sint :: "nat \<Rightarrow> int \<Rightarrow> bytes result" where
  "pack_sint n v =
     (if - (256 ^ n div 2) \<le> v \<and> v < 256 ^ n div 2 then Inr (le_bytes n v) else Inl StructError)"

definition signed_of :: "nat \<Rightarrow> int \<Rightarrow> int" where
  "signed_of n v = (if v < 256 ^ n div 2 then v else v - 256 ^ n)"

definition unpack_uint_from :: "nat \<Rightarrow> bytes \<Rightarrow> nat \<Rightarrow> int result" where
  "unpack_uint_from n buf off =
     (if off + n \<le> length buf then Inr (le_value (take n (drop off buf))) else Inl StructError)"

text \<open>\<open>struct.pack(f"<{len(values)}i", *values)\<close> and its inverse at an offset.\<close>

definition pack_i32_array :: "int list \<Rightarrow> bytes result" where
  "pack_i32_array values = rbind (rmap (pack_sint 4) values) (\<lambda>bs. Inr (concat bs))"

fun i32_values :: "nat \<Rightarrow> bytes \<Rightarrow> int list" where
  "i32_values 0 bs = []"
| "i32_values (Suc n) bs = signed_of 4 (le_value (take 4 bs)) # i32_values n (drop 4 bs)"

definition unpack_i32_array_from :: "bytes \<Rightarrow> nat \<Rightarrow> nat \<Rightarrow> int list result" where
  "unpack_i32_array_from buf off count =
     (if off + 4 * count \<le> length buf then Inr (i32_values count (drop off buf))
      else Inl StructError)"

text \<open>A format of \<open>count\<close> consecutive \<open>I\<close> fields, as in \<open>struct.unpack_from("<6I", ...)\<close>.\<close>

fun u32_values :: "nat \<Rightarrow> bytes \<Rightarrow> int list" where
  "u32_values 0 bs = []"
| "u32_values (Suc n) bs = le_value (take 4 bs) # u32_values n (drop 4 bs)"

definition unpack_u32s_from :: "bytes \<Rightarrow> nat \<Rightarrow> nat \<Rightarrow> int list result" where
  "unpack_u32s_from buf off count =
     (if off + 4 * count \<le> length buf then Inr (u32_values count (drop off buf))
      else Inl StructError)"

definition pack_u32s :: "int list \<Rightarrow> bytes result" where
  "pack_u32s values = rbind (rmap (pack_uint 4) values) (\<lambda>bs. Inr (concat bs))"

text \<open>\<open>struct.pack_into("<I", buf, off, v)\<close>: overwrite four bytes in place.\<close>

definition pack_u32_into :: "bytes \<Rightarrow> nat \<Rightarrow> int \<Rightarrow> bytes result" where
  "pack_u32_into buf off v =
     rbind (pack_uint 4 v) (\<lambda>bs.
       if off + 4 \<le> length buf then Inr (take off buf @ bs @ drop (off + 4) buf)
       else Inl StructError)"

text \<open>Ranges, as the predicates that say when packing succeeds.\<close>

definition u32_range :: "int \<Rightarrow> bool" where
  "u32_range v \<longleftrightarrow> 0 \<le> v \<and> v < 2 ^ 32"

definition i32_range :: "int \<Rightarrow> bool" where
  "i32_range v \<longleftrightarrow> - (2 ^ 31) \<le> v \<and> v < 2 ^ 31"

section \<open>Lengths\<close>

lemma length_ascii [simp, bytes_simps]: "length (ascii s) = length s"
  by (simp add: ascii_def)

lemma length_le_bytes [simp, bytes_simps]: "length (le_bytes n v) = n"
  by (induction n arbitrary: v) auto

lemma pack_uint_iff: "pack_uint n v = Inr bs \<longleftrightarrow> 0 \<le> v \<and> v < 256 ^ n \<and> bs = le_bytes n v"
  by (auto simp: pack_uint_def)

lemma pack_u32 [bytes_simps]: "u32_range v \<Longrightarrow> pack_uint 4 v = Inr (le_bytes 4 v)"
  by (simp add: pack_uint_def u32_range_def)

lemma pack_i32 [bytes_simps]: "i32_range v \<Longrightarrow> pack_sint 4 v = Inr (le_bytes 4 v)"
  by (simp add: pack_sint_def i32_range_def)

lemma pack_u32_error [bytes_simps]: "\<not> u32_range v \<Longrightarrow> pack_uint 4 v = Inl StructError"
  by (auto simp: pack_uint_def u32_range_def)

lemma pack_i32_error [bytes_simps]: "\<not> i32_range v \<Longrightarrow> pack_sint 4 v = Inl StructError"
  by (auto simp: pack_sint_def i32_range_def)

lemma length_i32_values [simp]: "length (i32_values n bs) = n"
  by (induction n arbitrary: bs) auto

lemma length_u32_values [simp]: "length (u32_values n bs) = n"
  by (induction n arbitrary: bs) auto

section \<open>Round trips of single values\<close>

lemma le_value_bounds: "0 \<le> le_value bs \<and> le_value bs < 256 ^ length bs"
proof (induction bs)
  case Nil
  then show ?case by simp
next
  case (Cons b bs)
  have "0 \<le> uint b" "uint b < 256"
    using uint_lt2p [of b] by auto
  with Cons show ?case by auto
qed

lemma le_value_le_bytes: "le_value (le_bytes n v) = v mod 256 ^ n"
proof (induction n arbitrary: v)
  case 0
  then show ?case by simp
next
  case (Suc n)
  have "uint (word_of_int v :: byte) = v mod 256"
    by (simp add: uint_word_of_int)
  then have "le_value (le_bytes (Suc n) v) = v mod 256 + 256 * (v div 256 mod 256 ^ n)"
    by (simp add: Suc.IH)
  also have "\<dots> = v mod (256 * 256 ^ n)"
    by (simp add: zmod_zmult2_eq)
  finally show ?case by simp
qed

lemma le_bytes_le_value: "le_bytes (length bs) (le_value bs) = bs"
proof (induction bs)
  case Nil
  then show ?case by simp
next
  case (Cons b bs)
  have b: "0 \<le> uint b" "uint b < 256"
    using uint_lt2p [of b] by auto
  have "(uint b + 256 * le_value bs) div 256 = le_value bs"
    using b by simp
  moreover have "word_of_int (uint b + 256 * le_value bs) = b"
  proof -
    have "(word_of_int (uint b + 256 * le_value bs) :: byte)
        = word_of_int ((uint b + 256 * le_value bs) mod 2 ^ 8)"
      by (simp only: word_of_int_eq_iff take_bit_eq_mod) simp
    also have "(uint b + 256 * le_value bs) mod 2 ^ 8 = uint b"
      using b by simp
    finally show ?thesis by (simp only: word_of_int_uint)
  qed
  ultimately show ?case using Cons by simp
qed

lemma le_bytes_inj:
  assumes "le_bytes n v = le_bytes n w" "0 \<le> v" "v < 256 ^ n" "0 \<le> w" "w < 256 ^ n"
  shows "v = w"
proof -
  have "v mod 256 ^ n = w mod 256 ^ n"
    using assms(1) by (metis le_value_le_bytes)
  with assms show ?thesis by simp
qed

lemma u32_value_le_bytes [bytes_simps]: "u32_range v \<Longrightarrow> le_value (le_bytes 4 v) = v"
  by (simp add: le_value_le_bytes u32_range_def)

lemma signed_of_i32 [bytes_simps]: "i32_range v \<Longrightarrow> signed_of 4 (v mod 2 ^ 32) = v"
proof -
  assume r: "i32_range v"
  show ?thesis
  proof (cases "0 \<le> v")
    case True
    with r show ?thesis by (simp add: signed_of_def i32_range_def)
  next
    case False
    have "v mod 2 ^ 32 = (v + 2 ^ 32) mod 2 ^ 32"
      by (rule mod_add_self2 [symmetric])
    also have "\<dots> = v + 2 ^ 32"
      using False r by (intro mod_pos_pos_trivial) (auto simp: i32_range_def)
    finally show ?thesis
      using False r by (simp add: signed_of_def i32_range_def)
  qed
qed

lemma i32_value_le_bytes [bytes_simps]:
  "i32_range v \<Longrightarrow> signed_of 4 (le_value (le_bytes 4 v)) = v"
  using signed_of_i32 [of v] by (simp add: le_value_le_bytes)

lemma signed_of_range: "length bs = 4 \<Longrightarrow> i32_range (signed_of 4 (le_value bs))"
  using le_value_bounds [of bs] by (auto simp: i32_range_def signed_of_def)

lemma u32_range_le_value: "length bs = 4 \<Longrightarrow> u32_range (le_value bs)"
  using le_value_bounds [of bs] by (auto simp: u32_range_def)

lemma le_bytes_signed: "length bs = 4 \<Longrightarrow> le_bytes 4 (signed_of 4 (le_value bs)) = bs"
proof -
  assume l: "length bs = 4"
  let ?s = "signed_of 4 (le_value bs)"
  have m: "?s mod 256 ^ 4 = le_value bs"
  proof (cases "le_value bs < 256 ^ 4 div 2")
    case True
    then show ?thesis
      using le_value_bounds [of bs] l by (simp add: signed_of_def)
  next
    case False
    have "(le_value bs - 256 ^ 4) mod 256 ^ 4 = le_value bs mod (256 ^ 4 :: int)"
      by (rule minus_mod_self2)
    with False show ?thesis
      using le_value_bounds [of bs] l by (simp add: signed_of_def)
  qed
  have v: "le_value (le_bytes 4 ?s) = le_value bs"
    using m by (simp only: le_value_le_bytes)
  have "le_bytes 4 ?s = le_bytes 4 (le_value (le_bytes 4 ?s))"
    using le_bytes_le_value [of "le_bytes 4 ?s"] by (simp only: length_le_bytes)
  also have "\<dots> = bs"
    using le_bytes_le_value [of bs] l by (simp only: v)
  finally show ?thesis .
qed

section \<open>Round trips of arrays\<close>

lemma i32_values_append:
  "\<forall>v \<in> set vs. i32_range v \<Longrightarrow> i32_values (length vs) (concat (map (le_bytes 4) vs) @ rest) = vs"
  by (induction vs) (auto simp: bytes_simps)

lemma u32_values_append:
  "\<forall>v \<in> set vs. u32_range v \<Longrightarrow> u32_values (length vs) (concat (map (le_bytes 4) vs) @ rest) = vs"
  by (induction vs) (auto simp: bytes_simps)

lemma length_le_bytes_concat [simp, bytes_simps]:
  "length (concat (map (le_bytes 4) vs)) = 4 * length vs"
  by (simp add: concat_length_const)

lemma pack_i32_array_ok [bytes_simps]:
  "\<forall>v \<in> set vs. i32_range v \<Longrightarrow> pack_i32_array vs = Inr (concat (map (le_bytes 4) vs))"
  by (simp add: pack_i32_array_def rmap_pure [where g = "le_bytes 4"] bytes_simps)

lemma pack_u32s_ok [bytes_simps]:
  "\<forall>v \<in> set vs. u32_range v \<Longrightarrow> pack_u32s vs = Inr (concat (map (le_bytes 4) vs))"
  by (simp add: pack_u32s_def rmap_pure [where g = "le_bytes 4"] bytes_simps)

lemma pack_i32_array_Inr_iff:
  "pack_i32_array vs = Inr bs \<longleftrightarrow>
     (\<forall>v \<in> set vs. i32_range v) \<and> bs = concat (map (le_bytes 4) vs)"
proof
  assume ok: "pack_i32_array vs = Inr bs"
  have "\<forall>v \<in> set vs. i32_range v"
  proof
    fix v assume v: "v \<in> set vs"
    from ok obtain cs where "list_all2 (\<lambda>v c. pack_sint 4 v = Inr c) vs cs"
      by (auto simp: pack_i32_array_def rbind_eq_Inr rmap_Inr_iff)
    with v obtain c where "pack_sint 4 v = Inr c"
      by (auto simp: in_set_conv_nth list_all2_conv_all_nth)
    then show "i32_range v" by (cases "i32_range v") (simp_all add: pack_i32_error)
  qed
  moreover from this and ok have "Inr bs = (Inr (concat (map (le_bytes 4) vs)) :: bytes result)"
    by (simp only: pack_i32_array_ok)
  ultimately show "(\<forall>v \<in> set vs. i32_range v) \<and> bs = concat (map (le_bytes 4) vs)"
    by simp
next
  assume "(\<forall>v \<in> set vs. i32_range v) \<and> bs = concat (map (le_bytes 4) vs)"
  then show "pack_i32_array vs = Inr bs" using pack_i32_array_ok by blast
qed


lemma pack_u32s_Inr_iff:
  "pack_u32s vs = Inr bs \<longleftrightarrow>
     (\<forall>v \<in> set vs. u32_range v) \<and> bs = concat (map (le_bytes 4) vs)"
proof
  assume ok: "pack_u32s vs = Inr bs"
  have "\<forall>v \<in> set vs. u32_range v"
  proof
    fix v assume v: "v \<in> set vs"
    from ok obtain cs where "list_all2 (\<lambda>v c. pack_uint 4 v = Inr c) vs cs"
      by (auto simp: pack_u32s_def rbind_eq_Inr rmap_Inr_iff)
    with v obtain c where "pack_uint 4 v = Inr c"
      by (auto simp: in_set_conv_nth list_all2_conv_all_nth)
    then show "u32_range v" by (cases "u32_range v") (simp_all add: pack_u32_error)
  qed
  moreover from this and ok have "Inr bs = (Inr (concat (map (le_bytes 4) vs)) :: bytes result)"
    by (simp only: pack_u32s_ok)
  ultimately show "(\<forall>v \<in> set vs. u32_range v) \<and> bs = concat (map (le_bytes 4) vs)"
    by simp
next
  assume "(\<forall>v \<in> set vs. u32_range v) \<and> bs = concat (map (le_bytes 4) vs)"
  then show "pack_u32s vs = Inr bs" using pack_u32s_ok by blast
qed

lemma rmap_pack_i32_error:
  "rmap (pack_sint 4) vs = Inl e \<Longrightarrow> e = StructError"
  by (induction vs) (auto simp: rbind_eq_Inl pack_sint_def split: if_splits)

lemma pack_i32_array_error:
  assumes "\<not> (\<forall>v \<in> set vs. i32_range v)"
  shows "pack_i32_array vs = Inl StructError"
proof (cases "rmap (pack_sint 4) vs")
  case (Inl e)
  then show ?thesis
    using rmap_pack_i32_error [OF Inl] by (simp add: pack_i32_array_def)
next
  case (Inr bs)
  then have "pack_i32_array vs = Inr (concat bs)"
    by (simp add: pack_i32_array_def)
  with assms show ?thesis by (simp only: pack_i32_array_Inr_iff) blast
qed

lemma unpack_i32_array_at [bytes_simps]:
  assumes "length pre = off" "\<forall>v \<in> set vs. i32_range v" "count = length vs"
  shows "unpack_i32_array_from (pre @ concat (map (le_bytes 4) vs) @ post) off count = Inr vs"
  using assms by (simp add: unpack_i32_array_from_def i32_values_append)

lemma unpack_u32s_at [bytes_simps]:
  assumes "length pre = off" "\<forall>v \<in> set vs. u32_range v" "count = length vs"
  shows "unpack_u32s_from (pre @ concat (map (le_bytes 4) vs) @ post) off count = Inr vs"
  using assms by (simp add: unpack_u32s_from_def u32_values_append)

lemma unpack_uint_at [bytes_simps]:
  assumes "length pre = off" "0 \<le> v" "v < 256 ^ n"
  shows "unpack_uint_from n (pre @ le_bytes n v @ post) off = Inr v"
  using assms by (simp add: unpack_uint_from_def le_value_le_bytes)

lemma i32_values_bytes:
  "4 * n \<le> length bs \<Longrightarrow> concat (map (le_bytes 4) (i32_values n bs)) = take (4 * n) bs"
proof (induction n arbitrary: bs)
  case 0
  then show ?case by simp
next
  case (Suc n)
  have "concat (map (le_bytes 4) (i32_values (Suc n) bs)) = take 4 bs @ take (4 * n) (drop 4 bs)"
    using Suc by (simp add: le_bytes_signed)
  also have "\<dots> = take (4 * Suc n) bs"
    by (simp only: mult_Suc_right take_add)
  finally show ?case .
qed

lemma i32_values_range: "4 * n \<le> length bs \<Longrightarrow> v \<in> set (i32_values n bs) \<Longrightarrow> i32_range v"
proof (induction n arbitrary: bs)
  case 0
  then show ?case by simp
next
  case (Suc n)
  then show ?case
    using Suc.IH [of "drop 4 bs"] by (auto simp: signed_of_range)
qed

lemma u32_values_bytes:
  "4 * n \<le> length bs \<Longrightarrow> concat (map (le_bytes 4) (u32_values n bs)) = take (4 * n) bs"
proof (induction n arbitrary: bs)
  case 0
  then show ?case by simp
next
  case (Suc n)
  have "le_bytes 4 (le_value (take 4 bs)) = take 4 bs"
    using le_bytes_le_value [of "take 4 bs"] Suc.prems by simp
  then have "concat (map (le_bytes 4) (u32_values (Suc n) bs)) = take 4 bs @ take (4 * n) (drop 4 bs)"
    using Suc by simp
  also have "\<dots> = take (4 * Suc n) bs"
    by (simp only: mult_Suc_right take_add)
  finally show ?case .
qed

lemma u32_values_range: "4 * n \<le> length bs \<Longrightarrow> v \<in> set (u32_values n bs) \<Longrightarrow> u32_range v"
proof (induction n arbitrary: bs)
  case 0
  then show ?case by simp
next
  case (Suc n)
  then show ?case
    using Suc.IH [of "drop 4 bs"] by (auto simp: u32_range_le_value)
qed

end
