(* ===== verification/StateCache.thy ===== *)
theory StateCache
  imports Bf16Product PyBytes
begin

text \<open>
  The decode state that the GPU hands to the accelerator (\<open>scripts/export_gdn_state.py\<close> and
  \<open>scripts/fpga_eval_client.py\<close>): the cache of recurrent and convolution tensors, its rounding
  to bfloat16 and the checks that refuse a cache that is not exactly representable, and the
  byte layout of the \<open>GDNSTAT1\<close> file, which two writers produce.
\<close>

unbundle bit_operations_syntax

section \<open>The cache\<close>

text \<open>
  A tensor of a cache entry: its shape and its elements in row-major order.  An entry of the
  cache is a dictionary; a missing key is \<open>None\<close>.
\<close>

record ptensor =
  pt_shape :: "nat list"
  pt_data :: "scalar list"

record layer_cache =
  recurrent_state :: "ptensor option"
  conv_state :: "ptensor list option"

type_synonym past = "layer_cache list"

definition as_bf16 :: "fp32_ops \<Rightarrow> scalar \<Rightarrow> bf16" where
  "as_bf16 F s = (case s of F32 r \<Rightarrow> to_bf16 F r | BF16 b \<Rightarrow> b)"

definition float_bits :: "scalar \<Rightarrow> f32" where
  "float_bits s = (case s of F32 r \<Rightarrow> r | BF16 b \<Rightarrow> widen b)"

definition round_recurrent_cache_bf16 :: "fp32_ops \<Rightarrow> past \<Rightarrow> past result" where
  "round_recurrent_cache_bf16 F past = rmap (\<lambda>state.
     case recurrent_state state of
       None \<Rightarrow> Inl RuntimeError
     | Some recurrent \<Rightarrow> Inr (state\<lparr>recurrent_state :=
         Some (recurrent\<lparr>pt_data := map (\<lambda>s. F32 (widen (as_bf16 F s))) (pt_data recurrent)\<rparr>)\<rparr>)) past"

definition round_conv_cache_bf16 :: "fp32_ops \<Rightarrow> past \<Rightarrow> past result" where
  "round_conv_cache_bf16 F past = rmap (\<lambda>state.
     case conv_state state of
       None \<Rightarrow> Inl RuntimeError
     | Some convs \<Rightarrow> Inr (state\<lparr>conv_state :=
         Some (map (\<lambda>value. value\<lparr>pt_data := map (\<lambda>s. BF16 (as_bf16 F s)) (pt_data value)\<rparr>) convs)\<rparr>)) past"

text \<open>\<open>torch.any(bitwise_and(x.float().view(int32), 0xFFFF) != 0)\<close>.\<close>

definition has_low_bits :: "ptensor \<Rightarrow> bool" where
  "has_low_bits t = list_ex (\<lambda>s. float_bits s AND 0xFFFF \<noteq> 0) (pt_data t)"

definition assert_bf16_exact_recurrent_cache :: "past \<Rightarrow> unit result" where
  "assert_bf16_exact_recurrent_cache past = rfold (\<lambda>_ state.
     case recurrent_state state of
       None \<Rightarrow> Inl KeyError
     | Some recurrent \<Rightarrow> if has_low_bits recurrent then Inl RuntimeError else Inr ()) () past"

definition assert_bf16_exact_conv_cache :: "past \<Rightarrow> unit result" where
  "assert_bf16_exact_conv_cache past = rfold (\<lambda>_ state.
     case conv_state state of
       None \<Rightarrow> Inl KeyError
     | Some convs \<Rightarrow> rfold (\<lambda>_ conv. if has_low_bits conv then Inl RuntimeError else Inr ()) () convs) () past"

section \<open>The file\<close>

definition STATE_MAGIC :: bytes where
  "STATE_MAGIC = ascii ''GDNSTAT1''"

definition STATE_VERSION :: int where "STATE_VERSION = 1"

record state_dims =
  num_layers :: nat
  heads :: nat
  key_dim :: nat
  value_dim :: nat
  hidden_dim :: nat
  conv_width :: nat

text \<open>\<open>_state_dimensions\<close>; the configured layer count is optional, as in the code.\<close>

definition state_dimensions :: "nat option \<Rightarrow> past \<Rightarrow> state_dims result" where
  "state_dimensions configured past =
     (case past of
        [] \<Rightarrow> Inl RuntimeError
      | layer # _ \<Rightarrow>
          (case recurrent_state layer of
             None \<Rightarrow> Inl KeyError
           | Some recurrent \<Rightarrow>
             (case conv_state layer of
                None \<Rightarrow> Inl KeyError
              | Some [] \<Rightarrow> Inl IndexError
              | Some (conv # _) \<Rightarrow>
                (case pt_shape recurrent of
                   [n, h, kd, vd] \<Rightarrow>
                     if n \<noteq> 1 then Inl RuntimeError
                     else (case pt_shape conv of
                        [n', d, w] \<Rightarrow>
                          if n' \<noteq> 1 then Inl RuntimeError
                          else if (case configured of Some c \<Rightarrow> c | None \<Rightarrow> length past) \<noteq> length past
                          then Inl RuntimeError
                          else Inr \<lparr>num_layers = length past, heads = h, key_dim = kd, value_dim = vd,
                                    hidden_dim = d, conv_width = w\<rparr>
                      | _ \<Rightarrow> Inl RuntimeError)
                 | _ \<Rightarrow> Inl RuntimeError))))"

definition f32_bytes :: "f32 list \<Rightarrow> bytes" where
  "f32_bytes xs = concat (map (\<lambda>x. le_bytes 4 (uint x)) xs)"

text \<open>\<open>state["recurrent_state"][0].contiguous().float()\<close>, flattened.\<close>

definition recurrent_values :: "layer_cache \<Rightarrow> f32 list result" where
  "recurrent_values layer =
     (case recurrent_state layer of
        None \<Rightarrow> Inl KeyError
      | Some t \<Rightarrow>
          (case pt_shape t of
             [] \<Rightarrow> Inl IndexError
           | n # dims \<Rightarrow> if n = 0 then Inl IndexError
                         else Inr (map float_bits (take (prod_list dims) (pt_data t)))))"

text \<open>\<open>conv[0, :, 1:].transpose(0, 1).contiguous().float()\<close>, flattened.\<close>

definition tail_values :: "ptensor \<Rightarrow> f32 list result" where
  "tail_values conv =
     (case pt_shape conv of
        [n, d, w] \<Rightarrow>
          if n = 0 then Inl IndexError
          else Inr (concat (map (\<lambda>r. map (\<lambda>c. float_bits (pt_data conv ! (c * w + (r + 1)))) [0..<d]) [0..<w - 1]))
      | _ \<Rightarrow> Inl IndexError)"

definition conv_values :: "layer_cache \<Rightarrow> f32 list result" where
  "conv_values layer =
     (case conv_state layer of
        None \<Rightarrow> Inl KeyError
      | Some convs \<Rightarrow> rbind (rmap tail_values convs) (\<lambda>tails. Inr (concat tails)))"

text \<open>The bytes \<open>write_gdn_state\<close> emits; the digest is taken over the same bytes.\<close>

definition gdn_state_payload ::
  "nat option \<Rightarrow> past \<Rightarrow> int list \<Rightarrow> int \<Rightarrow> bytes result" where
  "gdn_state_payload configured past prefix_tokens boundary_token =
     rbind (assert_bf16_exact_recurrent_cache past) (\<lambda>_.
     rbind (assert_bf16_exact_conv_cache past) (\<lambda>_.
     rbind (state_dimensions configured past) (\<lambda>dims.
     rbind (pack_u32s [STATE_VERSION, int (num_layers dims), int (heads dims), int (key_dim dims),
                       int (value_dim dims), int (hidden_dim dims), int (conv_width dims),
                       int (length prefix_tokens), boundary_token AND 0xFFFFFFFF]) (\<lambda>header.
     rbind (if prefix_tokens = [] then Inr [] else pack_i32_array prefix_tokens) (\<lambda>tokens.
     rbind (rmap recurrent_values past) (\<lambda>recs.
     rbind (rmap conv_values past) (\<lambda>tails.
     Inr (STATE_MAGIC @ header @ tokens @ f32_bytes (concat recs) @ f32_bytes (concat tails)))))))))"

text \<open>
  The blob of \<open>export_state\<close>.  The dimensions are those of layer 0, the layer count and the
  hidden size those of the configuration, and each layer contributes its recurrent state to
  one section and its tails to the other.
\<close>

definition export_layer ::
  "nat \<Rightarrow> nat \<Rightarrow> past \<Rightarrow> bytes \<times> bytes \<Rightarrow> nat \<Rightarrow> (bytes \<times> bytes) result" where
  "export_layer W D past = (\<lambda>(rec_section, conv_section) layer_idx.
     if layer_idx \<ge> length past then Inl IndexError
     else let st = past ! layer_idx in
       rbind (recurrent_values st) (\<lambda>rs.
       case conv_state st of
         None \<Rightarrow> Inl KeyError
       | Some convs \<Rightarrow>
           rbind (rfold (\<lambda>section conv. rbind (tail_values conv) (\<lambda>tail.
                    case pt_shape conv of
                      [n, d, w] \<Rightarrow> if int (w - 1) \<noteq> int W - 1 \<or> d \<noteq> D then Inl AssertionError
                                   else Inr (section @ f32_bytes tail)
                    | _ \<Rightarrow> Inl IndexError)) conv_section convs) (\<lambda>conv_section'.
           Inr (rec_section @ f32_bytes rs, conv_section'))))"

definition export_blob ::
  "nat \<Rightarrow> nat \<Rightarrow> past \<Rightarrow> int list \<Rightarrow> int \<Rightarrow> bytes result" where
  "export_blob cfg_layers cfg_hidden past prompt_ids seed_token =
     (case past of
        [] \<Rightarrow> Inl IndexError
      | st0 # _ \<Rightarrow>
          (case (recurrent_state st0, conv_state st0) of
             (Some rs0, Some [cq0, ck0, cv0]) \<Rightarrow>
               (case (pt_shape rs0, pt_shape cq0) of
                  ([n, H, K, V], [n', D, W]) \<Rightarrow>
                    if D \<noteq> cfg_hidden then Inl AssertionError
                    else rbind (rfold (export_layer W D past) ([], []) [0..<cfg_layers])
                      (\<lambda>(rec_section, conv_section).
                      rbind (rmap (\<lambda>val. pack_uint 4 (if val \<ge> 0 then val else val AND 0xFFFFFFFF))
                          [STATE_VERSION, int cfg_layers, int H, int K, int V, int cfg_hidden, int W,
                           int (length prompt_ids), seed_token]) (\<lambda>fields.
                      rbind (pack_i32_array prompt_ids) (\<lambda>tokens.
                      Inr (STATE_MAGIC @ concat fields @ tokens @ rec_section @ conv_section))))
                | _ \<Rightarrow> Inl ValueError)
           | (None, _) \<Rightarrow> Inl KeyError
           | (_, None) \<Rightarrow> Inl KeyError
           | _ \<Rightarrow> Inl ValueError))"


section \<open>Exactly representable values\<close>

lemma widen_low_bits [simp]: "widen b AND 0xFFFF = 0"
proof -
  have "widen b AND mask 16 = 0"
    by (simp add: widen_def bit_eq_iff bit_and_iff bit_mask_iff bit_push_bit_iff)
  then show ?thesis by (simp add: mask_eq_exp_minus_1)
qed

lemma low_bits_zero_iff: "(r :: f32) AND 0xFFFF = 0 \<longleftrightarrow> widen (ucast (drop_bit 16 r)) = r"
proof
  assume z: "r AND 0xFFFF = 0"
  have "take_bit 16 r = 0" using z by (simp add: take_bit_eq_mask mask_eq_exp_minus_1)
  then have low: "\<not> bit r n" if "n < 16" for n
    using that by (metis bit_0_eq bit_take_bit_iff bot_apply bot_bool_def)
  show "widen (ucast (drop_bit 16 r)) = r"
  proof (rule bit_word_eqI)
    fix n assume n: "n < LENGTH(32)"
    show "bit (widen (ucast (drop_bit 16 r))) n = bit r n"
      using n low [of n] by (cases "n < 16")
        (auto simp: widen_def bit_push_bit_iff bit_ucast_iff bit_drop_bit_eq)
  qed
next
  assume "widen (ucast (drop_bit 16 r)) = r"
  then show "r AND 0xFFFF = 0" by (metis widen_low_bits)
qed

lemma has_low_bits_iff:
  "\<not> has_low_bits t \<longleftrightarrow> (\<forall>s \<in> set (pt_data t). \<exists>b. float_bits s = widen b)"
proof -
  have "float_bits s AND 0xFFFF = 0 \<longleftrightarrow> (\<exists>b. float_bits s = widen b)" for s
    using low_bits_zero_iff [of "float_bits s"] by (metis widen_low_bits)
  then show ?thesis by (auto simp: has_low_bits_def list_ex_iff)
qed

lemma rfold_unit_Inr_iff: "rfold (\<lambda>_ x. f x) () xs = Inr () \<longleftrightarrow> (\<forall>x \<in> set xs. f x = Inr ())"
  by (induction xs) (auto simp: rbind_def split: sum.splits)

lemma assert_recurrent_iff:
  "assert_bf16_exact_recurrent_cache past = Inr () \<longleftrightarrow>
    (\<forall>st \<in> set past. \<exists>t. recurrent_state st = Some t \<and> \<not> has_low_bits t)"
  by (auto simp: assert_bf16_exact_recurrent_cache_def rfold_unit_Inr_iff split: option.splits)

lemma assert_conv_iff:
  "assert_bf16_exact_conv_cache past = Inr () \<longleftrightarrow>
    (\<forall>st \<in> set past. \<exists>ts. conv_state st = Some ts \<and> (\<forall>t \<in> set ts. \<not> has_low_bits t))"
  by (auto simp: assert_bf16_exact_conv_cache_def rfold_unit_Inr_iff split: option.splits)


lemma round_recurrent_Inr:
  assumes "round_recurrent_cache_bf16 F past = Inr past'"
  shows "list_all2 (\<lambda>st st'. \<exists>t. recurrent_state st = Some t \<and>
    st' = st\<lparr>recurrent_state := Some (t\<lparr>pt_data := map (\<lambda>s. F32 (widen (as_bf16 F s))) (pt_data t)\<rparr>)\<rparr>) past past'"
  using assms unfolding round_recurrent_cache_bf16_def rmap_Inr_iff
  by (rule list_all2_mono) (auto split: option.splits)

lemma round_conv_Inr:
  assumes "round_conv_cache_bf16 F past = Inr past'"
  shows "list_all2 (\<lambda>st st'. \<exists>ts. conv_state st = Some ts \<and>
    st' = st\<lparr>conv_state := Some (map (\<lambda>v. v\<lparr>pt_data := map (\<lambda>s. BF16 (as_bf16 F s)) (pt_data v)\<rparr>) ts)\<rparr>) past past'"
  using assms unfolding round_conv_cache_bf16_def rmap_Inr_iff
  by (rule list_all2_mono) (auto split: option.splits)

lemma rounded_exact [simp]:
  "\<not> has_low_bits (t\<lparr>pt_data := map (\<lambda>s. F32 (widen (as_bf16 F s))) xs\<rparr>)"
  "\<not> has_low_bits (t\<lparr>pt_data := map (\<lambda>s. BF16 (as_bf16 F s)) xs\<rparr>)"
  by (auto simp: has_low_bits_iff float_bits_def)

lemma list_all2_set2: "list_all2 P xs ys \<Longrightarrow> y \<in> set ys \<Longrightarrow> \<exists>x \<in> set xs. P x y"
  by (induction rule: list_all2_induct) auto

lemma round_recurrent_exact:
  "round_recurrent_cache_bf16 F past = Inr past' \<Longrightarrow> assert_bf16_exact_recurrent_cache past' = Inr ()"
  by (drule round_recurrent_Inr) (auto simp: assert_recurrent_iff dest!: list_all2_set2)

lemma round_conv_exact:
  "round_conv_cache_bf16 F past = Inr past' \<Longrightarrow> assert_bf16_exact_conv_cache past' = Inr ()"
  by (drule round_conv_Inr) (auto simp: assert_conv_iff dest!: list_all2_set2)

lemma round_conv_keeps_recurrent:
  "round_conv_cache_bf16 F past = Inr past' \<Longrightarrow>
    assert_bf16_exact_recurrent_cache past' = Inr () \<longleftrightarrow> assert_bf16_exact_recurrent_cache past = Inr ()"
proof (drule round_conv_Inr)
  assume "list_all2 (\<lambda>st st'. \<exists>ts. conv_state st = Some ts \<and>
    st' = st\<lparr>conv_state := Some (map (\<lambda>v. v\<lparr>pt_data := map (\<lambda>s. BF16 (as_bf16 F s)) (pt_data v)\<rparr>) ts)\<rparr>) past past'"
  then show ?thesis
    by (induction rule: list_all2_induct) (auto simp: assert_recurrent_iff)
qed

section \<open>Positions in the file\<close>

lemma length_f32_bytes [simp]: "length (f32_bytes xs) = 4 * length xs"
  by (simp add: f32_bytes_def concat_length_const)

lemma f32_bytes_append: "f32_bytes (xs @ ys) = f32_bytes xs @ f32_bytes ys"
  by (simp add: f32_bytes_def)

lemma f32_bytes_at: "i < length xs \<Longrightarrow> take 4 (drop (4 * i) (f32_bytes xs)) = le_bytes 4 (uint (xs ! i))"
proof (induction xs arbitrary: i)
  case Nil
  then show ?case by simp
next
  case (Cons x xs)
  then show ?case by (cases i) (auto simp: f32_bytes_def)
qed

lemma f32_value: "le_value (le_bytes 4 (uint (x :: f32))) = uint x"
  using uint_lt2p [of x] by (simp add: le_value_le_bytes)

text \<open>A cache whose layers all have the same shapes, with one batch entry.\<close>

definition uniform_past :: "nat \<Rightarrow> nat \<Rightarrow> nat \<Rightarrow> nat \<Rightarrow> nat \<Rightarrow> past \<Rightarrow> bool" where
  "uniform_past H K V D W past \<longleftrightarrow> (\<forall>st \<in> set past. \<exists>r cq ck cv.
     recurrent_state st = Some r \<and> pt_shape r = [1, H, K, V] \<and> length (pt_data r) = H * K * V \<and>
     conv_state st = Some [cq, ck, cv] \<and>
     (\<forall>c \<in> {cq, ck, cv}. pt_shape c = [1, D, W] \<and> length (pt_data c) = D * W))"

definition recurrent_flat :: "layer_cache \<Rightarrow> f32 list" where
  "recurrent_flat layer = map float_bits (pt_data (the (recurrent_state layer)))"

definition tail_flat :: "nat \<Rightarrow> nat \<Rightarrow> ptensor \<Rightarrow> f32 list" where
  "tail_flat D W conv =
     concat (map (\<lambda>r. map (\<lambda>c. float_bits (pt_data conv ! (c * W + (r + 1)))) [0..<D]) [0..<W - 1])"

definition conv_flat :: "nat \<Rightarrow> nat \<Rightarrow> layer_cache \<Rightarrow> f32 list" where
  "conv_flat D W layer = concat (map (tail_flat D W) (the (conv_state layer)))"

lemma uniform_layer:
  assumes "uniform_past H K V D W past" "layer \<in> set past"
  shows "recurrent_values layer = Inr (recurrent_flat layer)" "length (recurrent_flat layer) = H * K * V"
    and "conv_values layer = Inr (conv_flat D W layer)" "length (conv_flat D W layer) = 3 * ((W - 1) * D)"
proof -
  from bspec [OF assms(1) [unfolded uniform_past_def] assms(2)] obtain r cq ck cv where
    *: "recurrent_state layer = Some r \<and> pt_shape r = [1, H, K, V] \<and> length (pt_data r) = H * K * V \<and>
      conv_state layer = Some [cq, ck, cv] \<and>
      (\<forall>c \<in> {cq, ck, cv}. pt_shape c = [1, D, W] \<and> length (pt_data c) = D * W)"
    by blast
  then have c: "\<And>c. c \<in> {cq, ck, cv} \<Longrightarrow> pt_shape c = [1, D, W] \<and> length (pt_data c) = D * W"
    by blast
  show "recurrent_values layer = Inr (recurrent_flat layer)" "length (recurrent_flat layer) = H * K * V"
    using * by (simp_all add: recurrent_values_def recurrent_flat_def mult.assoc)
  have t: "tail_values c = Inr (tail_flat D W c)" "length (tail_flat D W c) = (W - 1) * D" if "c \<in> {cq, ck, cv}" for c
    using c [OF that] by (simp_all add: tail_values_def tail_flat_def concat_length_const mult.commute)
  show "conv_values layer = Inr (conv_flat D W layer)" "length (conv_flat D W layer) = 3 * ((W - 1) * D)"
    using * t by (simp_all add: conv_values_def conv_flat_def)
qed

lemma uniform_sections:
  assumes "uniform_past H K V D W past"
  shows "rmap recurrent_values past = Inr (map recurrent_flat past)"
    and "rmap conv_values past = Inr (map (conv_flat D W) past)"
  using uniform_layer [OF assms] by (auto intro!: rmap_pure)

lemma state_dimensions_uniform:
  assumes "uniform_past H K V D W past" "past \<noteq> []" "configured = None \<or> configured = Some (length past)"
  shows "state_dimensions configured past = Inr \<lparr>num_layers = length past, heads = H, key_dim = K,
    value_dim = V, hidden_dim = D, conv_width = W\<rparr>"
proof -
  obtain layer rest where past: "past = layer # rest" using assms(2) by (cases past) auto
  then have "layer \<in> set past" by simp
  from bspec [OF assms(1) [unfolded uniform_past_def] this] obtain r cq ck cv where
    "recurrent_state layer = Some r" "pt_shape r = [1, H, K, V]"
    "conv_state layer = Some [cq, ck, cv]" "pt_shape cq = [1, D, W]"
    by blast
  then show ?thesis using assms(3) by (auto simp: state_dimensions_def past)
qed

lemma gdn_state_payload_uniform:
  assumes "uniform_past H K V D W past"
    and "gdn_state_payload configured past prefix_tokens boundary = Inr bytes"
  shows "\<exists>head. bytes = head @ f32_bytes (concat (map recurrent_flat past)) @ f32_bytes (concat (map (conv_flat D W) past))
    \<and> length head = 44 + 4 * length prefix_tokens"
proof -
  have magic: "length STATE_MAGIC = 8" by (simp add: STATE_MAGIC_def)
  from assms(2) obtain dims :: state_dims and header tokens where
    h: "pack_u32s [STATE_VERSION, int (num_layers dims), int (heads dims), int (key_dim dims),
          int (value_dim dims), int (hidden_dim dims), int (conv_width dims),
          int (length prefix_tokens), boundary AND 0xFFFFFFFF] = Inr header"
    and t: "(if prefix_tokens = [] then Inr [] else pack_i32_array prefix_tokens) = Inr tokens"
    and b: "bytes = STATE_MAGIC @ header @ tokens @ f32_bytes (concat (map recurrent_flat past))
      @ f32_bytes (concat (map (conv_flat D W) past))"
    using uniform_sections [OF assms(1)]
    by (clarsimp simp: gdn_state_payload_def rbind_eq_Inr)
  have "length header = 36" using h by (auto simp: pack_u32s_Inr_iff)
  moreover have "length tokens = 4 * length prefix_tokens"
    using t by (auto simp: pack_i32_array_Inr_iff split: if_splits)
  ultimately show ?thesis using b magic by (intro exI [of _ "STATE_MAGIC @ header @ tokens"]) simp
qed


lemma export_layers:
  assumes u: "uniform_past H K V D W past" and W: "0 < W" and n: "n \<le> length past"
  shows "rfold (export_layer W D past) ([], []) [0..<n] =
    Inr (f32_bytes (concat (map recurrent_flat (take n past))), f32_bytes (concat (map (conv_flat D W) (take n past))))"
  using n
proof (induction n)
  case 0
  then show ?case by (simp add: f32_bytes_def)
next
  case (Suc n)
  let ?layer = "past ! n"
  have mem: "?layer \<in> set past" using Suc.prems by simp
  from bspec [OF u [unfolded uniform_past_def] mem] obtain r cq ck cv where
    *: "conv_state ?layer = Some [cq, ck, cv] \<and> (\<forall>c \<in> {cq, ck, cv}. pt_shape c = [1, D, W] \<and> length (pt_data c) = D * W)"
    by blast
  have tail: "tail_values c = Inr (tail_flat D W c)" if "pt_shape c = [1, D, W]" for c
    using that by (simp add: tail_values_def tail_flat_def)
  have int: "int (W - Suc 0) = int W - 1" using W by simp
  have "export_layer W D past (a, b) n = Inr (a @ f32_bytes (recurrent_flat ?layer), b @ f32_bytes (conv_flat D W ?layer))" for a b
    using Suc.prems * uniform_layer(1) [OF u mem]
    by (simp add: export_layer_def Let_def tail int conv_flat_def f32_bytes_append)
  then show ?case
    using Suc by (simp add: rfold_append take_Suc_conv_app_nth f32_bytes_append)
qed

lemma pack_fields:
  "rbind (rmap (\<lambda>val. pack_uint 4 (if val \<ge> 0 then val else val AND 0xFFFFFFFF)) vals) (\<lambda>fs. f (concat fs))
    = rbind (pack_u32s (map (\<lambda>val. if val \<ge> 0 then val else val AND 0xFFFFFFFF) vals)) f"
proof -
  have "rmap (\<lambda>val. pack_uint 4 (g val)) vals = rmap (pack_uint 4) (map g vals)" for g
    by (induction vals) auto
  then show ?thesis by (simp add: pack_u32s_def rbind_def split: sum.splits)
qed

lemma unpack_section:
  assumes "blob = pre @ f32_bytes xs @ post" "length pre = base" "i < length xs"
  shows "unpack_uint_from 4 blob (base + 4 * i) = Inr (uint (xs ! i))"
proof -
  have "take 4 (drop (base + 4 * i) blob) = take 4 (drop (4 * i) (f32_bytes xs @ post))"
    using assms by simp
  also have "\<dots> = take 4 (drop (4 * i) (f32_bytes xs))"
    using assms(3) by simp
  also have "\<dots> = le_bytes 4 (uint (xs ! i))" by (rule f32_bytes_at [OF assms(3)])
  finally show ?thesis
    using assms by (simp add: unpack_uint_from_def f32_value)
qed

lemma tail_flat_at:
  assumes "r < W - 1" "d < D"
  shows "tail_flat D W t ! (r * D + d) = float_bits (pt_data t ! (d * W + (r + 1)))"
  unfolding tail_flat_def
  using concat_blocks_nth [where xs = "[0..<W - 1]" and n = D and i = r and j = d
      and f = "\<lambda>r. map (\<lambda>c. float_bits (pt_data t ! (c * W + (r + 1)))) [0..<D]"] assms by simp

lemma conv_flat_at:
  assumes "uniform_past H K V D W past" "layer \<in> set past" "c < 3" "r < W - 1" "d < D"
  shows "conv_flat D W layer ! ((c * (W - 1) + r) * D + d)
    = float_bits (pt_data (the (conv_state layer) ! c) ! (d * W + (r + 1)))"
proof -
  from bspec [OF assms(1) [unfolded uniform_past_def] assms(2)] obtain cq ck cv where
    *: "conv_state layer = Some [cq, ck, cv]" by blast
  have i: "(c * (W - 1) + r) * D + d = c * ((W - 1) * D) + (r * D + d)" by (simp add: algebra_simps)
  have "conv_flat D W layer ! (c * ((W - 1) * D) + (r * D + d)) = tail_flat D W ([cq, ck, cv] ! c) ! (r * D + d)"
    unfolding conv_flat_def * option.sel
  proof (rule concat_blocks_nth)
    show "length (tail_flat D W x) = (W - 1) * D" for x
      by (simp add: tail_flat_def concat_length_const)
    show "r * D + d < (W - 1) * D" by (rule mixed_radix [OF assms(4,5)])
  qed (use assms(3) in simp)
  then show ?thesis unfolding i using tail_flat_at [OF assms(4,5)] by (simp add: *)
qed

section \<open>Properties\<close>

text \<open>Rounding establishes what the handoff checks: whatever the rounding operation, a cache
  that went through \<open>round_recurrent_cache_bf16\<close> and then \<open>round_conv_cache_bf16\<close> passes both
  exactness assertions, so a handoff prepared by them is never refused.\<close>

theorem rounded_cache_passes_checks:
  assumes "round_recurrent_cache_bf16 F past = Inr past1" and "round_conv_cache_bf16 F past1 = Inr past2"
  shows "assert_bf16_exact_recurrent_cache past2 = Inr () \<and> assert_bf16_exact_conv_cache past2 = Inr ()"
  using round_recurrent_exact [OF assms(1)] round_conv_keeps_recurrent [OF assms(2)] round_conv_exact [OF assms(2)]
  by simp

definition example_cache :: past where
  "example_cache = [\<lparr>recurrent_state = Some \<lparr>pt_shape = [1, 1, 1, 2], pt_data = [F32 0x3F800001, F32 0x40490FDB]\<rparr>,
     conv_state = Some (replicate 3 \<lparr>pt_shape = [1, 1, 2], pt_data = [F32 0x3F800001, F32 7]\<rparr>)\<rparr>]"

theorem rounded_cache_passes_checks_witness:
  "\<exists>past1 past2. round_recurrent_cache_bf16 wrap_ops example_cache = Inr past1 \<and>
    round_conv_cache_bf16 wrap_ops past1 = Inr past2 \<and>
    assert_bf16_exact_recurrent_cache example_cache = Inl RuntimeError \<and>
    assert_bf16_exact_recurrent_cache past2 = Inr () \<and> assert_bf16_exact_conv_cache past2 = Inr ()"
proof -
  obtain past1 where r1: "round_recurrent_cache_bf16 wrap_ops example_cache = Inr past1"
    and "conv_state (past1 ! 0) \<noteq> None" "length past1 = 1"
    by (auto simp: round_recurrent_cache_bf16_def example_cache_def)
  then obtain past2 where r2: "round_conv_cache_bf16 wrap_ops past1 = Inr past2"
    by (cases past1) (auto simp: round_conv_cache_bf16_def)
  have "assert_bf16_exact_recurrent_cache example_cache = Inl RuntimeError"
    by (simp add: assert_bf16_exact_recurrent_cache_def example_cache_def has_low_bits_def float_bits_def)
  then show ?thesis using r1 r2 rounded_cache_passes_checks [OF r1 r2] by blast
qed

text \<open>The recurrent check accepts exactly the representable caches: it returns if and only if
  every layer has a recurrent state and every value in it is a bfloat16 widened to float32,
  and then rounding the cache changes no value, for any rounding that fixes bfloat16 values.\<close>

theorem recurrent_check_exact:
  "(assert_bf16_exact_recurrent_cache past = Inr () \<longleftrightarrow>
     (\<forall>layer \<in> set past. \<exists>t. recurrent_state layer = Some t \<and>
        (\<forall>s \<in> set (pt_data t). \<exists>b. float_bits s = widen b))) \<and>
   ((\<forall>b. to_bf16 F (widen b) = b) \<longrightarrow> assert_bf16_exact_recurrent_cache past = Inr () \<longrightarrow>
     (\<exists>past'. round_recurrent_cache_bf16 F past = Inr past' \<and> map recurrent_flat past' = map recurrent_flat past))"
proof (intro conjI impI)
  show "assert_bf16_exact_recurrent_cache past = Inr () \<longleftrightarrow>
     (\<forall>layer \<in> set past. \<exists>t. recurrent_state layer = Some t \<and>
        (\<forall>s \<in> set (pt_data t). \<exists>b. float_bits s = widen b))"
    by (simp add: assert_recurrent_iff has_low_bits_iff)
  assume F: "\<forall>b. to_bf16 F (widen b) = b" and ok: "assert_bf16_exact_recurrent_cache past = Inr ()"
  have same: "widen (as_bf16 F s) = float_bits s" if "\<exists>b. float_bits s = widen b" for s
    using that F by (auto simp: as_bf16_def float_bits_def split: scalar.splits)
  define g where "g = (\<lambda>layer. layer\<lparr>recurrent_state := Some ((the (recurrent_state layer))\<lparr>pt_data :=
      map (\<lambda>s. F32 (widen (as_bf16 F s))) (pt_data (the (recurrent_state layer)))\<rparr>)\<rparr> :: layer_cache)"
  have "round_recurrent_cache_bf16 F past = Inr (map g past)"
    unfolding round_recurrent_cache_bf16_def
    by (rule rmap_pure) (use ok in \<open>auto simp: assert_recurrent_iff g_def split: option.splits\<close>)
  moreover have "recurrent_flat (g layer) = recurrent_flat layer" if "layer \<in> set past" for layer
  proof -
    from bspec [OF ok [unfolded assert_recurrent_iff] that]
    obtain t where t: "recurrent_state layer = Some t" "\<not> has_low_bits t"
      by blast
    then show ?thesis
      using same by (auto simp: g_def recurrent_flat_def has_low_bits_iff float_bits_def)
  qed
  ultimately show "\<exists>past'. round_recurrent_cache_bf16 F past = Inr past' \<and> map recurrent_flat past' = map recurrent_flat past"
    by auto
qed

theorem recurrent_check_exact_witness:
  "\<exists>past'. round_recurrent_cache_bf16 \<lparr>fadd = (+), fmul = (*), to_bf16 = (\<lambda>r. ucast (drop_bit 16 r)), half_to_f32 = ucast\<rparr>
      [\<lparr>recurrent_state = Some \<lparr>pt_shape = [1, 1, 1, 1], pt_data = [F32 0x3F800000]\<rparr>, conv_state = None\<rparr>] = Inr past' \<and>
    map recurrent_flat past' = [[0x3F800000]]"
proof -
  let ?F = "\<lparr>fadd = (+), fmul = (*), to_bf16 = (\<lambda>r. ucast (drop_bit 16 r)), half_to_f32 = ucast\<rparr>"
  let ?p = "[\<lparr>recurrent_state = Some \<lparr>pt_shape = [1, 1, 1, 1], pt_data = [F32 0x3F800000]\<rparr>, conv_state = None\<rparr>]"
  have F: "\<forall>b. to_bf16 ?F (widen b) = b"
  proof
    fix b
    show "to_bf16 ?F (widen b) = b"
      by (rule bit_word_eqI) (simp add: widen_def bit_ucast_iff bit_drop_bit_eq bit_push_bit_iff)
  qed
  have ok: "assert_bf16_exact_recurrent_cache ?p = Inr ()"
    by (simp add: assert_bf16_exact_recurrent_cache_def has_low_bits_def float_bits_def)
  have "\<exists>past'. round_recurrent_cache_bf16 ?F ?p = Inr past' \<and> map recurrent_flat past' = map recurrent_flat ?p"
    using recurrent_check_exact [of ?p ?F] F ok by blast
  then show ?thesis by (simp add: recurrent_flat_def float_bits_def)
qed

text \<open>The file layout the accelerator reads, for a cache of uniform layers: after the 44-byte
  header and the prefix tokens come the recurrent states, element \<open>[h, k, v]\<close> of layer \<open>l\<close> at
  word \<open>((l * H + h) * K + k) * V + v\<close>, then the convolution tails, newest element last and the
  oldest column dropped, element \<open>[r, d]\<close> of the tail of convolution \<open>c\<close> at word
  \<open>((l * 3 + c) * (W - 1) + r) * D + d\<close> and equal to cache element \<open>[d, r + 1]\<close>; nothing follows.\<close>

theorem state_file_layout:
  assumes "uniform_past H K V D W past"
    and "gdn_state_payload configured past prefix_tokens boundary = Inr blob"
  shows "length blob = 44 + 4 * length prefix_tokens + 4 * (length past * (H * K * V)) + 4 * (length past * (3 * ((W - 1) * D))) \<and>
    (\<forall>l h k v. l < length past \<longrightarrow> h < H \<longrightarrow> k < K \<longrightarrow> v < V \<longrightarrow>
      unpack_uint_from 4 blob (44 + 4 * length prefix_tokens + 4 * (((l * H + h) * K + k) * V + v))
        = Inr (uint (float_bits (pt_data (the (recurrent_state (past ! l))) ! ((h * K + k) * V + v))))) \<and>
    (\<forall>l c r d. l < length past \<longrightarrow> c < 3 \<longrightarrow> r < W - 1 \<longrightarrow> d < D \<longrightarrow>
      unpack_uint_from 4 blob (44 + 4 * length prefix_tokens + 4 * (length past * (H * K * V))
          + 4 * (((l * 3 + c) * (W - 1) + r) * D + d))
        = Inr (uint (float_bits (pt_data (the (conv_state (past ! l)) ! c) ! (d * W + (r + 1))))))"
proof -
  let ?R = "concat (map recurrent_flat past)" and ?C = "concat (map (conv_flat D W) past)"
  let ?base = "44 + 4 * length prefix_tokens"
  obtain head where blob: "blob = head @ f32_bytes ?R @ f32_bytes ?C" and head: "length head = ?base"
    using gdn_state_payload_uniform [OF assms] by blast
  have lenR: "length ?R = H * K * V * length past"
    by (rule concat_length_const) (rule uniform_layer(2) [OF assms(1)])
  have lenC: "length ?C = 3 * ((W - 1) * D) * length past"
    by (rule concat_length_const) (rule uniform_layer(4) [OF assms(1)])
  have total: "length blob = ?base + 4 * (length past * (H * K * V)) + 4 * (length past * (3 * ((W - 1) * D)))"
    by (simp add: blob head lenR lenC mult.commute)
  have rec: "unpack_uint_from 4 blob (?base + 4 * (((l * H + h) * K + k) * V + v))
      = Inr (uint (float_bits (pt_data (the (recurrent_state (past ! l))) ! ((h * K + k) * V + v))))"
    if "l < length past" "h < H" "k < K" "v < V" for l h k v
  proof -
    let ?j = "(h * K + k) * V + v"
    have hk: "h * K + k < H * K" by (rule mixed_radix [OF that(2,3)])
    have j: "?j < H * K * V" by (rule mixed_radix [OF hk that(4)])
    have i: "((l * H + h) * K + k) * V + v = l * (H * K * V) + ?j" by (simp add: algebra_simps)
    have "?R ! (l * (H * K * V) + ?j) = recurrent_flat (past ! l) ! ?j"
      by (rule concat_blocks_nth [OF _ that(1) j]) (rule uniform_layer(2) [OF assms(1)])
    moreover have "l * (H * K * V) + ?j < length ?R"
      using mixed_radix [OF that(1) j] by (simp add: lenR mult.commute)
    moreover have "recurrent_flat (past ! l) ! ?j = float_bits (pt_data (the (recurrent_state (past ! l))) ! ?j)"
      using uniform_layer(2) [OF assms(1), of "past ! l"] that(1) j by (simp add: recurrent_flat_def)
    ultimately show ?thesis
      unfolding i using unpack_section [OF blob head, of "l * (H * K * V) + ?j"] by simp
  qed
  have conv: "unpack_uint_from 4 blob (?base + 4 * (length past * (H * K * V)) + 4 * (((l * 3 + c) * (W - 1) + r) * D + d))
      = Inr (uint (float_bits (pt_data (the (conv_state (past ! l)) ! c) ! (d * W + (r + 1)))))"
    if "l < length past" "c < 3" "r < W - 1" "d < D" for l c r d
  proof -
    let ?j = "(c * (W - 1) + r) * D + d"
    have cr: "c * (W - 1) + r < 3 * (W - 1)" by (rule mixed_radix [OF that(2,3)])
    have j: "?j < 3 * ((W - 1) * D)" using mixed_radix [OF cr that(4)] by (simp only: mult.assoc)
    have i: "((l * 3 + c) * (W - 1) + r) * D + d = l * (3 * ((W - 1) * D)) + ?j" by (simp add: algebra_simps)
    have at: "?C ! (l * (3 * ((W - 1) * D)) + ?j) = conv_flat D W (past ! l) ! ?j"
      by (rule concat_blocks_nth [OF _ that(1) j]) (rule uniform_layer(4) [OF assms(1)])
    have lt: "l * (3 * ((W - 1) * D)) + ?j < length ?C"
      using mixed_radix [OF that(1) j] by (simp only: lenC mult.commute)
    have head2: "length (head @ f32_bytes ?R) = ?base + 4 * (length past * (H * K * V))"
      by (simp add: head lenR mult.commute)
    have blob2: "blob = (head @ f32_bytes ?R) @ f32_bytes ?C @ []" by (simp add: blob)
    show ?thesis
      unfolding i using unpack_section [OF blob2 head2 lt] conv_flat_at [OF assms(1) _ that(2,3,4), of "past ! l"] that(1) at
      by simp
  qed
  show ?thesis using total rec conv by blast
qed

definition small_cache :: past where
  "small_cache = [\<lparr>recurrent_state = Some \<lparr>pt_shape = [1, 2, 1, 2],
       pt_data = [F32 0x3F800000, F32 0, F32 0, F32 0x40000000]\<rparr>,
     conv_state = Some [\<lparr>pt_shape = [1, 1, 2], pt_data = [BF16 1, BF16 2]\<rparr>,
       \<lparr>pt_shape = [1, 1, 2], pt_data = [BF16 3, BF16 4]\<rparr>, \<lparr>pt_shape = [1, 1, 2], pt_data = [BF16 5, BF16 6]\<rparr>]\<rparr>]"

theorem state_file_layout_witness:
  "\<exists>blob. gdn_state_payload None small_cache [5, 6] 7 = Inr blob \<and> length blob = 44 + 8 + 4 * 4 + 4 * 3 \<and>
    unpack_uint_from 4 blob (44 + 8 + 4 * (((0 * 2 + 1) * 1 + 0) * 2 + 1)) = Inr 0x40000000"
proof -
  have u: "uniform_past 2 1 2 1 2 small_cache"
    by (auto simp: uniform_past_def small_cache_def)
  have "assert_bf16_exact_recurrent_cache small_cache = Inr ()" "assert_bf16_exact_conv_cache small_cache = Inr ()"
    by (simp_all add: assert_bf16_exact_recurrent_cache_def assert_bf16_exact_conv_cache_def small_cache_def
        has_low_bits_def float_bits_def)
  moreover have "state_dimensions None small_cache = Inr \<lparr>num_layers = 1, heads = 2, key_dim = 1, value_dim = 2,
      hidden_dim = 1, conv_width = 2\<rparr>"
    using state_dimensions_uniform [OF u, of None] by (simp add: small_cache_def)
  ultimately obtain blob where r: "gdn_state_payload None small_cache [5, 6] 7 = Inr blob"
    by (simp add: gdn_state_payload_def uniform_sections [OF u] pack_u32s_ok pack_i32_array_ok u32_range_def i32_range_def
        STATE_VERSION_def)
  from state_file_layout [OF u r]
  have len: "length blob = 44 + 4 * length [5, 6 :: int] + 4 * (length small_cache * (2 * 1 * 2))
      + 4 * (length small_cache * (3 * ((2 - 1) * 1)))"
    and elem: "\<forall>l h k v. l < length small_cache \<longrightarrow> h < 2 \<longrightarrow> k < 1 \<longrightarrow> v < 2 \<longrightarrow>
      unpack_uint_from 4 blob (44 + 4 * length [5, 6 :: int] + 4 * (((l * 2 + h) * 1 + k) * 2 + v))
        = Inr (uint (float_bits (pt_data (the (recurrent_state (small_cache ! l))) ! ((h * 1 + k) * 2 + v))))"
    by (blast, blast)
  have "length blob = 44 + 8 + 4 * 4 + 4 * 3" using len by (simp add: small_cache_def)
  moreover have "unpack_uint_from 4 blob (44 + 4 * length [5, 6 :: int] + 4 * (((0 * 2 + 1) * 1 + 0) * 2 + 1))
      = Inr (uint (float_bits (pt_data (the (recurrent_state (small_cache ! 0))) ! ((1 * 1 + 0) * 2 + 1))))"
    using spec [OF spec [OF spec [OF spec [OF elem, of 0], of 1], of 0], of 1] by (simp add: small_cache_def)
  ultimately show ?thesis using r by (simp add: small_cache_def float_bits_def)
qed

text \<open>C31: The two writers of the handoff agree: on a uniform cache that passes the exactness
  checks, with the configured layer count and hidden size and a seed token below
  \<open>2 ^ 32\<close>, \<open>export_state\<close> and \<open>write_gdn_state\<close> produce the same bytes, or fail with the
  same exception.\<close>

theorem export_equals_handoff:
  assumes "uniform_past H K V D W past" and "past \<noteq> []" and "0 < W" and "seed < 2 ^ 32"
    and "assert_bf16_exact_recurrent_cache past = Inr ()" and "assert_bf16_exact_conv_cache past = Inr ()"
  shows "export_blob (length past) D past prompt_ids seed = gdn_state_payload (Some (length past)) past prompt_ids seed"
proof -
  obtain st0 rest where past: "past = st0 # rest" using assms(2) by (cases past) auto
  then have mem: "st0 \<in> set past" by simp
  from bspec [OF assms(1) [unfolded uniform_past_def] mem] obtain r cq ck cv where
    st0: "recurrent_state st0 = Some r" "pt_shape r = [1, H, K, V]"
      "conv_state st0 = Some [cq, ck, cv]" "pt_shape cq = [1, D, W]"
    by blast
  have seed: "(if seed \<ge> 0 then seed else seed AND 0xFFFFFFFF) = seed AND 0xFFFFFFFF"
    using assms(4) take_bit_int_eq_self [of seed 32]
    by (simp add: take_bit_eq_mask mask_eq_exp_minus_1)
  have layers: "rfold (export_layer W D past) ([], []) [0..<length past] =
      Inr (f32_bytes (concat (map recurrent_flat past)), f32_bytes (concat (map (conv_flat D W) past)))"
    using export_layers [OF assms(1,3) order_refl] by simp
  have unf: "export_blob n D past prompt_ids seed =
      rbind (rfold (export_layer W D past) ([], []) [0..<n]) (\<lambda>(rec_section, conv_section).
      rbind (rmap (\<lambda>val. pack_uint 4 (if val \<ge> 0 then val else val AND 0xFFFFFFFF))
          [STATE_VERSION, int n, int H, int K, int V, int D, int W, int (length prompt_ids), seed]) (\<lambda>fields.
      rbind (pack_i32_array prompt_ids) (\<lambda>tokens.
      Inr (STATE_MAGIC @ concat fields @ tokens @ rec_section @ conv_section))))" for n
    by (simp add: export_blob_def past st0)
  have tok: "(if prompt_ids = [] then Inr [] else pack_i32_array prompt_ids) = pack_i32_array prompt_ids"
    by (simp add: pack_i32_array_def)
  have "export_blob (length past) D past prompt_ids seed =
    rbind (pack_u32s [STATE_VERSION, int (length past), int H, int K, int V, int D, int W, int (length prompt_ids),
        seed AND 0xFFFFFFFF]) (\<lambda>header. rbind (pack_i32_array prompt_ids) (\<lambda>tokens.
      Inr (STATE_MAGIC @ header @ tokens @ f32_bytes (concat (map recurrent_flat past)) @ f32_bytes (concat (map (conv_flat D W) past)))))"
    unfolding unf layers rbind_Inr prod.case
    using pack_fields [where vals = "[STATE_VERSION, int (length past), int H, int K, int V, int D, int W,
        int (length prompt_ids), seed]"] seed
    by (simp add: STATE_VERSION_def)
  then show ?thesis
    by (simp add: gdn_state_payload_def assms(5,6) state_dimensions_uniform [OF assms(1,2)] tok uniform_sections [OF assms(1)])
qed

theorem export_equals_handoff_witness:
  "export_blob 1 1 small_cache [5, 6] 7 = gdn_state_payload (Some 1) small_cache [5, 6] 7"
proof -
  have u: "uniform_past 2 1 2 1 2 small_cache"
    by (auto simp: uniform_past_def small_cache_def)
  have "assert_bf16_exact_recurrent_cache small_cache = Inr ()" "assert_bf16_exact_conv_cache small_cache = Inr ()"
    by (simp_all add: assert_bf16_exact_recurrent_cache_def assert_bf16_exact_conv_cache_def small_cache_def
        has_low_bits_def float_bits_def)
  from export_equals_handoff [OF u _ _ _ this, of 7 "[5, 6]"] show ?thesis by (simp add: small_cache_def)
qed

end
