(* ===== verification/RequestProtocol.thy ===== *)
theory RequestProtocol
  imports PyBytes
begin

unbundle bit_operations_syntax

text \<open>
  The \<open>GDNEVQ1\<close> request format of \<open>scripts/fpga_eval_client.py\<close>: the two encoders the
  GPU side uses, the in-place patch of the flags word that \<open>_submit\<close> applies once it
  knows whether a state file exists, and the decoder of the protocol tests.  The lemmas
  give the exact set of accepted requests, the round trips, and that a parsed payload is
  byte for byte the canonical encoding of what was parsed.
\<close>

definition REQUEST_MAGIC :: bytes where
  "REQUEST_MAGIC = ascii (''GDNEVQ1'' @ [CHR 0x00])"

definition REQUEST_VERSION :: int where "REQUEST_VERSION = 1"
definition MODE_GENERATE :: int where "MODE_GENERATE = 1"
definition MODE_SCORE :: int where "MODE_SCORE = 2"
definition FLAG_BLANK_STATE :: int where "FLAG_BLANK_STATE = push_bit 0 1"

definition pack_i32_list :: "int list \<Rightarrow> bytes result" where
  "pack_i32_list vals = (if vals = [] then Inr [] else pack_i32_array vals)"

text \<open>One iteration of the encoders' loops; the limit is 32 or 8192.\<close>

definition append_sequence :: "nat \<Rightarrow> bytes \<Rightarrow> int list \<Rightarrow> bytes result" where
  "append_sequence limit payload sequence =
     (if sequence = [] \<or> length sequence > limit then Inl ValueError
      else rbind (pack_uint 4 (int (length sequence))) (\<lambda>len.
           rbind (pack_i32_list sequence) (\<lambda>tokens.
           Inr (payload @ len @ tokens))))"

definition encode_generate_request :: "int \<Rightarrow> int \<Rightarrow> int list list \<Rightarrow> bool \<Rightarrow> bytes result" where
  "encode_generate_request boundary_token max_new_tokens stop_sequences blank_state =
     (if max_new_tokens \<le> 0 \<or> max_new_tokens > 4096 then Inl ValueError
      else if length stop_sequences > 64 then Inl ValueError
      else rbind (pack_u32s [REQUEST_VERSION, MODE_GENERATE,
                             if blank_state then FLAG_BLANK_STATE else 0,
                             boundary_token AND 0xFFFFFFFF,
                             max_new_tokens, int (length stop_sequences)]) (\<lambda>header.
           rfold (append_sequence 32) (REQUEST_MAGIC @ header) stop_sequences))"

definition encode_score_request :: "int \<Rightarrow> int list list \<Rightarrow> bool \<Rightarrow> bytes result" where
  "encode_score_request boundary_token choices blank_state =
     (if choices = [] \<or> length choices > 64 then Inl ValueError
      else rbind (pack_u32s [REQUEST_VERSION, MODE_SCORE,
                             if blank_state then FLAG_BLANK_STATE else 0,
                             boundary_token AND 0xFFFFFFFF,
                             int (length choices), 0]) (\<lambda>header.
           rfold (append_sequence 8192) (REQUEST_MAGIC @ header) choices))"

text \<open>
  The dictionary the decoder returns: the rows are stored under the key
  \<open>stop_sequences\<close> of a generation request and under \<open>choices\<close> of any other.
\<close>

datatype rows = StopSequences "int list list" | Choices "int list list"

record decoded_request =
  rq_version :: int
  rq_mode :: int
  rq_flags :: int
  rq_boundary_token :: int
  rq_rows :: rows
  rq_max_new_tokens :: "int option"

fun parse_rows :: "nat \<Rightarrow> bytes \<Rightarrow> nat \<Rightarrow> (int list list \<times> nat) result" where
  "parse_rows 0 payload offset = Inr ([], offset)"
| "parse_rows (Suc count) payload offset =
     rbind (unpack_uint_from 4 payload offset) (\<lambda>len.
     rbind (unpack_i32_array_from payload (offset + 4) (nat len)) (\<lambda>row.
     rbind (parse_rows count payload (offset + 4 + 4 * nat len)) (\<lambda>(vals, end_off).
     Inr (row # vals, end_off))))"

definition parse_request :: "bytes \<Rightarrow> decoded_request result" where
  "parse_request payload =
     (if take 8 payload \<noteq> REQUEST_MAGIC then Inl ValueError
      else rbind (unpack_u32s_from payload 8 6) (\<lambda>hdr.
        case hdr of
          [version, mode, flags, boundary, primary, auxiliary] \<Rightarrow>
            rbind (rbind (pack_uint 4 boundary) (\<lambda>b. Inr (signed_of 4 (le_value b)))) (\<lambda>boundary_token.
            let count = (if mode = MODE_GENERATE then auxiliary else primary) in
            rbind (parse_rows (nat count) payload (8 + 24)) (\<lambda>(vals, offset).
            if offset \<noteq> length payload then Inl ValueError
            else Inr \<lparr>rq_version = version, rq_mode = mode, rq_flags = flags,
                      rq_boundary_token = boundary_token,
                      rq_rows = (if mode = MODE_GENERATE then StopSequences vals else Choices vals),
                      rq_max_new_tokens = (if mode = MODE_GENERATE then Some primary else None)\<rparr>))
        | _ \<Rightarrow> Inl StructError))"

text \<open>The flags word is the third header field: \<open>struct.pack_into("<I", mutable, 8 + 2 * 4, ...)\<close>.\<close>

definition patch_flags :: "bytes \<Rightarrow> bool \<Rightarrow> bytes result" where
  "patch_flags request_payload blank_state =
     pack_u32_into request_payload (8 + 2 * 4) (if blank_state then FLAG_BLANK_STATE else 0)"

section \<open>The canonical encoding\<close>

definition row_bytes :: "int list \<Rightarrow> bytes" where
  "row_bytes row = le_bytes 4 (int (length row)) @ concat (map (le_bytes 4) row)"

definition request_bytes :: "int list \<Rightarrow> int list list \<Rightarrow> bytes" where
  "request_bytes header vals =
     REQUEST_MAGIC @ concat (map (le_bytes 4) header) @ concat (map row_bytes vals)"

definition row_ok :: "int list \<Rightarrow> bool" where
  "row_ok row \<longleftrightarrow> u32_range (int (length row)) \<and> (\<forall>t \<in> set row. i32_range t)"

lemma length_REQUEST_MAGIC [simp]: "length REQUEST_MAGIC = 8"
  by (simp add: REQUEST_MAGIC_def)

lemma length_row_bytes [simp]: "length (row_bytes row) = 4 + 4 * length row"
  by (simp add: row_bytes_def)

lemma mask_u32: "(b AND 0xFFFFFFFF) = b mod (2 ^ 32 :: int)"
  using take_bit_eq_mask [of 32 b] by (simp add: take_bit_eq_mod mask_eq_exp_minus_1)

lemma u32_range_mask [simp]: "u32_range (b AND 0xFFFFFFFF)"
  by (simp add: mask_u32 u32_range_def)

lemma append_sequence_Inr_iff:
  assumes "limit < 2 ^ 32"
  shows "append_sequence limit p row = Inr q \<longleftrightarrow>
     row \<noteq> [] \<and> length row \<le> limit \<and> (\<forall>t \<in> set row. i32_range t) \<and> q = p @ row_bytes row"
proof -
  have "length row \<le> limit \<Longrightarrow> u32_range (int (length row))"
    using assms by (simp add: u32_range_def)
  then show ?thesis
    by (auto simp: append_sequence_def pack_i32_list_def rbind_eq_Inr row_bytes_def
        pack_u32 pack_i32_array_Inr_iff)
qed

lemma append_sequences_Inr_iff:
  assumes "limit < 2 ^ 32"
  shows "rfold (append_sequence limit) p vals = Inr q \<longleftrightarrow>
     (\<forall>row \<in> set vals. row \<noteq> [] \<and> length row \<le> limit \<and> (\<forall>t \<in> set row. i32_range t)) \<and>
     q = p @ concat (map row_bytes vals)"
  by (induction vals arbitrary: p)
     (auto simp: rbind_eq_Inr append_sequence_Inr_iff [OF assms])

lemma header_constants_u32:
  "u32_range REQUEST_VERSION" "u32_range MODE_GENERATE" "u32_range MODE_SCORE"
  "u32_range FLAG_BLANK_STATE" "u32_range 0"
  by (simp_all add: u32_range_def REQUEST_VERSION_def MODE_GENERATE_def MODE_SCORE_def
      FLAG_BLANK_STATE_def)

lemma encode_generate_Inr_iff:
  "encode_generate_request b m stops blank = Inr p \<longleftrightarrow>
     0 < m \<and> m \<le> 4096 \<and> length stops \<le> 64 \<and>
     (\<forall>row \<in> set stops. row \<noteq> [] \<and> length row \<le> 32 \<and> (\<forall>t \<in> set row. i32_range t)) \<and>
     p = request_bytes [REQUEST_VERSION, MODE_GENERATE, if blank then FLAG_BLANK_STATE else 0,
                        b AND 0xFFFFFFFF, m, int (length stops)] stops"
proof (cases "0 < m \<and> m \<le> 4096 \<and> length stops \<le> 64")
  case True
  then have "\<forall>v \<in> set [REQUEST_VERSION, MODE_GENERATE, if blank then FLAG_BLANK_STATE else 0,
       b AND 0xFFFFFFFF, m, int (length stops)]. u32_range v"
    by (simp add: header_constants_u32) (simp add: u32_range_def)
  with True show ?thesis
    by (simp only: encode_generate_request_def pack_u32s_ok)
       (auto simp: append_sequences_Inr_iff request_bytes_def)
next
  case False
  then show ?thesis by (auto simp: encode_generate_request_def)
qed

lemma encode_score_Inr_iff:
  "encode_score_request b choices blank = Inr p \<longleftrightarrow>
     choices \<noteq> [] \<and> length choices \<le> 64 \<and>
     (\<forall>row \<in> set choices. row \<noteq> [] \<and> length row \<le> 8192 \<and> (\<forall>t \<in> set row. i32_range t)) \<and>
     p = request_bytes [REQUEST_VERSION, MODE_SCORE, if blank then FLAG_BLANK_STATE else 0,
                        b AND 0xFFFFFFFF, int (length choices), 0] choices"
proof (cases "choices \<noteq> [] \<and> length choices \<le> 64")
  case True
  then have "\<forall>v \<in> set [REQUEST_VERSION, MODE_SCORE, if blank then FLAG_BLANK_STATE else 0,
       b AND 0xFFFFFFFF, int (length choices), 0]. u32_range v"
    by (simp add: header_constants_u32) (simp add: u32_range_def)
  with True show ?thesis
    by (simp only: encode_score_request_def pack_u32s_ok)
       (auto simp: append_sequences_Inr_iff request_bytes_def)
next
  case False
  then show ?thesis by (auto simp: encode_score_request_def)
qed

section \<open>Parsing\<close>

lemma parse_rows_encoded:
  assumes "\<forall>row \<in> set vals. row_ok row" "length pre = offset"
  shows "parse_rows (length vals) (pre @ concat (map row_bytes vals) @ post) offset
     = Inr (vals, offset + length (concat (map row_bytes vals)))"
  using assms
proof (induction vals arbitrary: pre offset)
  case Nil
  then show ?case by simp
next
  case (Cons row vals)
  let ?tail = "concat (map row_bytes vals) @ post"
  let ?buf = "pre @ row_bytes row @ ?tail"
  let ?n = "int (length row)"
  have n: "u32_range ?n" and toks: "\<forall>t \<in> set row. i32_range t"
    using Cons.prems by (auto simp: row_ok_def)
  have len: "unpack_uint_from 4 ?buf offset = Inr ?n"
    using unpack_uint_at [of pre offset ?n 4 "concat (map (le_bytes 4) row) @ ?tail"] n Cons.prems
    by (simp add: row_bytes_def u32_range_def)
  have row: "unpack_i32_array_from ?buf (offset + 4) (nat ?n) = Inr row"
    using unpack_i32_array_at [of "pre @ le_bytes 4 ?n" "offset + 4" row "nat ?n" ?tail] toks Cons.prems
    by (simp add: row_bytes_def)
  have rest: "parse_rows (length vals) ?buf (offset + 4 + 4 * nat ?n)
      = Inr (vals, offset + 4 + 4 * nat ?n + length (concat (map row_bytes vals)))"
    using Cons.IH [of "pre @ row_bytes row" "offset + 4 + 4 * nat ?n"] Cons.prems by simp
  show ?case using len row rest by simp
qed

lemma unpack_u32s_list: "length hdr = 6 \<Longrightarrow> \<exists>a b c d e f. hdr = [a, b, c, d, e, f]"
  by (auto simp: length_Suc_conv eval_nat_numeral)

lemma parse_request_bytes:
  assumes rows: "\<forall>row \<in> set vals. row_ok row"
    and hdr: "\<forall>v \<in> set [version, mode, flags, boundary, primary, auxiliary]. u32_range v"
    and count: "int (length vals) = (if mode = MODE_GENERATE then auxiliary else primary)"
  shows "parse_request (request_bytes [version, mode, flags, boundary, primary, auxiliary] vals) =
     Inr \<lparr>rq_version = version, rq_mode = mode, rq_flags = flags,
          rq_boundary_token = signed_of 4 boundary,
          rq_rows = (if mode = MODE_GENERATE then StopSequences vals else Choices vals),
          rq_max_new_tokens = (if mode = MODE_GENERATE then Some primary else None)\<rparr>"
proof -
  let ?hdr = "[version, mode, flags, boundary, primary, auxiliary]"
  let ?head = "concat (map (le_bytes 4) ?hdr)"
  let ?p = "request_bytes ?hdr vals"
  have magic: "take 8 ?p = REQUEST_MAGIC"
    by (simp add: request_bytes_def)
  have head: "unpack_u32s_from ?p 8 6 = Inr ?hdr"
    unfolding request_bytes_def by (rule unpack_u32s_at [OF _ hdr]) simp_all
  have rws: "parse_rows (length vals) ?p (8 + 24) = Inr (vals, length ?p)"
    using parse_rows_encoded [OF rows, of "REQUEST_MAGIC @ ?head" 32 "[]"]
    by (simp add: request_bytes_def)
  have cnt: "nat (if mode = MODE_GENERATE then auxiliary else primary) = length vals"
    using count by simp
  have bnd: "rbind (pack_uint 4 boundary) (\<lambda>b. Inr (signed_of 4 (le_value b)))
      = (Inr (signed_of 4 boundary) :: int result)"
    using hdr by (simp add: pack_u32 u32_value_le_bytes)
  show ?thesis
    unfolding parse_request_def Let_def
    by (simp only: magic head bnd rbind_Inr list.case cnt rws prod.case) simp
qed

section \<open>What a successful parse says about the payload\<close>

lemma drop_split: "n \<le> length xs \<Longrightarrow> take n xs @ drop n xs = xs"
  by simp

lemma parse_rows_canonical:
  assumes "parse_rows count payload offset = Inr (vals, e)" "offset \<le> length payload"
  shows "length vals = count \<and> (\<forall>row \<in> set vals. row_ok row) \<and>
    offset \<le> e \<and> e \<le> length payload \<and>
    take (e - offset) (drop offset payload) = concat (map row_bytes vals)"
  using assms
proof (induction count arbitrary: offset vals)
  case 0
  then show ?case by simp
next
  case (Suc count)
  from Suc.prems(1) obtain len row rest where
    len: "unpack_uint_from 4 payload offset = Inr len" and
    row: "unpack_i32_array_from payload (offset + 4) (nat len) = Inr row" and
    rest: "parse_rows count payload (offset + 4 + 4 * nat len) = Inr (rest, e)" and
    vals: "vals = row # rest"
    by (auto simp: rbind_eq_Inr)
  let ?n = "nat len"
  have l4: "offset + 4 \<le> length payload" and lenv: "len = le_value (take 4 (drop offset payload))"
    using len by (auto simp: unpack_uint_from_def split: if_splits)
  have ln: "offset + 4 + 4 * ?n \<le> length payload"
    and rowv: "row = i32_values ?n (drop (offset + 4) payload)"
    using row by (auto simp: unpack_i32_array_from_def split: if_splits)
  have len0: "0 \<le> len" "u32_range len"
    using le_value_bounds [of "take 4 (drop offset payload)"] l4
    by (auto simp: lenv u32_range_le_value)
  have nrow: "length row = ?n" by (simp add: rowv)
  have rok: "row_ok row"
    using len0 ln i32_values_range [of ?n "drop (offset + 4) payload"]
    by (simp add: row_ok_def nrow) (simp add: rowv)
  have b1: "le_bytes 4 len = take 4 (drop offset payload)"
    using le_bytes_le_value [of "take 4 (drop offset payload)"] l4 by (simp add: lenv)
  have b2: "concat (map (le_bytes 4) row) = take (4 * ?n) (drop (offset + 4) payload)"
    unfolding rowv by (rule i32_values_bytes) (use ln in simp)
  have IH: "length rest = count" "\<forall>r \<in> set rest. row_ok r"
    "offset + 4 + 4 * ?n \<le> e" "e \<le> length payload"
    "take (e - (offset + 4 + 4 * ?n)) (drop (offset + 4 + 4 * ?n) payload) = concat (map row_bytes rest)"
    using Suc.IH [OF rest ln] by auto
  have "take (e - offset) (drop offset payload)
      = take (4 + (4 * ?n + (e - (offset + 4 + 4 * ?n)))) (drop offset payload)"
    using IH(3) by (intro arg_cong2 [where f = take]) auto
  also have "\<dots> = take 4 (drop offset payload) @ take (4 * ?n) (drop (offset + 4) payload)
      @ take (e - (offset + 4 + 4 * ?n)) (drop (offset + 4 + 4 * ?n) payload)"
    by (simp only: take_add drop_drop add.commute add.left_commute add.assoc)
  also have "\<dots> = row_bytes row @ concat (map row_bytes rest)"
    using b1 b2 IH(5) len0 by (simp add: row_bytes_def nrow)
  finally show ?case
    using IH rok vals by auto
qed

lemma parse_request_canonical:
  assumes "parse_request payload = Inr r"
  obtains version mode flags boundary primary auxiliary vals where
    "payload = request_bytes [version, mode, flags, boundary, primary, auxiliary] vals"
    "\<forall>v \<in> set [version, mode, flags, boundary, primary, auxiliary]. u32_range v"
    "\<forall>row \<in> set vals. row_ok row"
    "int (length vals) = (if mode = MODE_GENERATE then auxiliary else primary)"
proof -
  from assms have magic: "take 8 payload = REQUEST_MAGIC"
    by (auto simp: parse_request_def split: if_splits)
  with assms obtain hdr where hdr: "unpack_u32s_from payload 8 6 = Inr hdr"
    by (auto simp: parse_request_def rbind_eq_Inr split: if_splits)
  then have hl: "length hdr = 6" and l: "8 + 4 * 6 \<le> length payload"
    and hv: "hdr = u32_values 6 (drop 8 payload)"
    by (auto simp: unpack_u32s_from_def split: if_splits)
  obtain a b c d e f where abc: "hdr = [a, b, c, d, e, f]"
    using unpack_u32s_list [OF hl] by blast
  have hr: "\<forall>v \<in> set hdr. u32_range v"
    using l u32_values_range [of 6 "drop 8 payload"] by (simp add: hv)
  let ?count = "if b = MODE_GENERATE then f else e"
  obtain vals off where rws: "parse_rows (nat ?count) payload (8 + 24) = Inr (vals, off)"
    and off: "off = length payload"
    using assms magic hdr by (auto simp: parse_request_def abc rbind_eq_Inr Let_def split: if_splits)
  have c0: "0 \<le> ?count" using hr by (auto simp: abc u32_range_def)
  note can = parse_rows_canonical [OF rws]
  have "payload = take 8 payload @ take 24 (drop 8 payload) @ drop (8 + 24) payload"
    by (metis append_take_drop_id drop_drop add.commute)
  also have "take 24 (drop 8 payload) = concat (map (le_bytes 4) hdr)"
    using u32_values_bytes [of 6 "drop 8 payload"] l by (simp add: hv)
  also have "drop (8 + 24) payload = concat (map row_bytes vals)"
    using can l off by simp
  finally have "payload = request_bytes [a, b, c, d, e, f] vals"
    by (simp add: request_bytes_def magic abc)
  moreover have "int (length vals) = ?count"
    using can l c0 by simp
  ultimately show thesis
    using that [of a b c d e f vals] hr can l by (simp add: abc)
qed

lemma signed_boundary: "i32_range b \<Longrightarrow> signed_of 4 (b AND 0xFFFFFFFF) = b"
  using signed_of_i32 [of b] by (simp only: mask_u32)

text \<open>The boundary token is masked to 32 bits and read back as a signed number: it wraps.\<close>

lemma masked_boundary: "signed_of 4 (b AND 0xFFFFFFFF) = (b + 2 ^ 31) mod 2 ^ 32 - 2 ^ 31"
proof -
  have w: "(c + 2147483648) mod 4294967296 - 2147483648 = (if c < 2147483648 then c else c - 4294967296)"
    if "0 \<le> c" "c < 4294967296" for c :: int
  proof (cases "c < 2147483648")
    case True
    then show ?thesis using that by (simp add: mod_pos_pos_trivial)
  next
    case False
    have "(c + 2147483648) mod 4294967296 = (c - 2147483648 + 4294967296) mod 4294967296" by (simp add: add.commute)
    also have "\<dots> = (c - 2147483648) mod 4294967296" by (rule mod_add_self2)
    also have "\<dots> = c - 2147483648" using False that by (intro mod_pos_pos_trivial) simp_all
    finally show ?thesis using False by simp
  qed
  have "(b + 2 ^ 31) mod 2 ^ 32 = (b mod 2 ^ 32 + 2 ^ 31) mod 2 ^ 32" by (simp add: mod_add_left_eq)
  then show ?thesis using w [of "b mod 2 ^ 32"] unfolding mask_u32 signed_of_def by simp
qed

lemma wrap_i32: "i32_range b \<Longrightarrow> (b + 2 ^ 31) mod 2 ^ 32 - 2 ^ 31 = b"
  by (simp add: i32_range_def mod_pos_pos_trivial)

lemma patch_flags_bytes:
  "patch_flags (request_bytes [v, m, f, b, p, a] vals) blank =
     Inr (request_bytes [v, m, if blank then FLAG_BLANK_STATE else 0, b, p, a] vals)"
proof -
  let ?f = "if blank then FLAG_BLANK_STATE else 0"
  let ?pre = "REQUEST_MAGIC @ le_bytes 4 v @ le_bytes 4 m"
  let ?post = "concat (map (le_bytes 4) [b, p, a]) @ concat (map row_bytes vals)"
  have "u32_range ?f" by (simp add: header_constants_u32)
  moreover have "request_bytes [v, m, f, b, p, a] vals = ?pre @ le_bytes 4 f @ ?post"
    by (simp add: request_bytes_def)
  ultimately show ?thesis
    by (simp add: patch_flags_def pack_u32_into_def pack_u32) (simp add: request_bytes_def)
qed

lemma encode_generate_parse_wrapped:
  assumes "encode_generate_request boundary max_new stops blank = Inr payload"
  shows "parse_request payload =
    Inr \<lparr>rq_version = REQUEST_VERSION, rq_mode = MODE_GENERATE,
         rq_flags = (if blank then FLAG_BLANK_STATE else 0), rq_boundary_token = (boundary + 2 ^ 31) mod 2 ^ 32 - 2 ^ 31,
         rq_rows = StopSequences stops, rq_max_new_tokens = Some max_new\<rparr>"
proof -
  let ?hdr = "[REQUEST_VERSION, MODE_GENERATE, if blank then FLAG_BLANK_STATE else 0,
     boundary AND 0xFFFFFFFF, max_new, int (length stops)]"
  have ok: "0 < max_new" "max_new \<le> 4096" "length stops \<le> 64"
    "\<forall>row \<in> set stops. row_ok row" "payload = request_bytes ?hdr stops"
    using assms(1) by (auto simp: encode_generate_Inr_iff row_ok_def u32_range_def)
  have "\<forall>v \<in> set ?hdr. u32_range v"
    using ok by (simp add: header_constants_u32) (simp add: u32_range_def)
  from parse_request_bytes [OF ok(4) this] ok(5) show ?thesis
    by (simp add: masked_boundary)
qed

lemma encode_generate_parse:
  assumes "encode_generate_request boundary max_new stops blank = Inr payload"
    and "i32_range boundary"
  shows "parse_request payload =
    Inr \<lparr>rq_version = REQUEST_VERSION, rq_mode = MODE_GENERATE,
         rq_flags = (if blank then FLAG_BLANK_STATE else 0), rq_boundary_token = boundary,
         rq_rows = StopSequences stops, rq_max_new_tokens = Some max_new\<rparr>"
  using encode_generate_parse_wrapped [OF assms(1)] wrap_i32 [OF assms(2)] by simp

lemma encode_score_parse:
  assumes "encode_score_request boundary choices blank = Inr payload"
    and "i32_range boundary"
  shows "parse_request payload =
    Inr \<lparr>rq_version = REQUEST_VERSION, rq_mode = MODE_SCORE,
         rq_flags = (if blank then FLAG_BLANK_STATE else 0), rq_boundary_token = boundary,
         rq_rows = Choices choices, rq_max_new_tokens = None\<rparr>"
proof -
  let ?hdr = "[REQUEST_VERSION, MODE_SCORE, if blank then FLAG_BLANK_STATE else 0,
     boundary AND 0xFFFFFFFF, int (length choices), 0]"
  have ok: "choices \<noteq> []" "length choices \<le> 64"
    "\<forall>row \<in> set choices. row_ok row" "payload = request_bytes ?hdr choices"
    using assms(1) by (auto simp: encode_score_Inr_iff row_ok_def u32_range_def)
  have hdr: "\<forall>v \<in> set ?hdr. u32_range v"
    using ok by (simp add: header_constants_u32) (simp add: u32_range_def)
  have modes: "MODE_SCORE \<noteq> MODE_GENERATE"
    by (simp add: MODE_SCORE_def MODE_GENERATE_def)
  from parse_request_bytes [OF ok(3) hdr] ok(4) modes show ?thesis
    using assms(2) by (simp add: signed_boundary)
qed

section \<open>Properties\<close>

text \<open>C26: A generation request survives the wire: whatever \<open>encode_generate_request\<close> returns,
  the decoder reads back the same version, mode, flags, token budget and
  stop sequences.  The boundary token, which the encoder masks to 32 bits and never rejects, comes back
  wrapped into the signed 32-bit range, hence unchanged if it lies in that range.\<close>

theorem generate_request_roundtrip:
  assumes "encode_generate_request boundary max_new stops blank = Inr payload"
  shows "parse_request payload =
    Inr \<lparr>rq_version = REQUEST_VERSION, rq_mode = MODE_GENERATE,
         rq_flags = (if blank then FLAG_BLANK_STATE else 0), rq_boundary_token = (boundary + 2 ^ 31) mod 2 ^ 32 - 2 ^ 31,
         rq_rows = StopSequences stops, rq_max_new_tokens = Some max_new\<rparr> \<and>
    (i32_range boundary \<longrightarrow> (boundary + 2 ^ 31) mod 2 ^ 32 - 2 ^ 31 = boundary)"
  using encode_generate_parse_wrapped [OF assms] wrap_i32 by blast

theorem generate_request_roundtrip_witness:
  "(\<exists>payload. encode_generate_request (-5) 16 [[1, 2], [-7]] True = Inr payload \<and>
     parse_request payload =
       Inr \<lparr>rq_version = REQUEST_VERSION, rq_mode = MODE_GENERATE, rq_flags = FLAG_BLANK_STATE,
            rq_boundary_token = -5, rq_rows = StopSequences [[1, 2], [-7]],
            rq_max_new_tokens = Some 16\<rparr>) \<and>
   (\<exists>payload. encode_generate_request (2 ^ 32 + 5) 16 [[1]] False = Inr payload \<and>
     parse_request payload =
       Inr \<lparr>rq_version = REQUEST_VERSION, rq_mode = MODE_GENERATE, rq_flags = 0,
            rq_boundary_token = 5, rq_rows = StopSequences [[1]], rq_max_new_tokens = Some 16\<rparr>)"
proof -
  obtain payload where p: "encode_generate_request (-5) 16 [[1, 2], [-7]] True = Inr payload"
    using encode_generate_Inr_iff [of "-5" 16 "[[1, 2], [-7]]" True]
    by (simp add: i32_range_def)
  obtain payload' where p': "encode_generate_request (2 ^ 32 + 5) 16 [[1]] False = Inr payload'"
    using encode_generate_Inr_iff [of "2 ^ 32 + 5" 16 "[[1]]" False]
    by (simp add: i32_range_def)
  from generate_request_roundtrip [OF p] p generate_request_roundtrip [OF p'] p' show ?thesis
    by (simp add: i32_range_def)
qed

text \<open>A scoring request survives the wire in the same sense: every candidate continuation
  comes back in order, and no token budget is reported.\<close>

theorem score_request_roundtrip:
  assumes "encode_score_request boundary choices blank = Inr payload"
    and "i32_range boundary"
  shows "parse_request payload =
    Inr \<lparr>rq_version = REQUEST_VERSION, rq_mode = MODE_SCORE,
         rq_flags = (if blank then FLAG_BLANK_STATE else 0), rq_boundary_token = boundary,
         rq_rows = Choices choices, rq_max_new_tokens = None\<rparr>"
  using assms by (rule encode_score_parse)

theorem score_request_roundtrip_witness:
  "\<exists>payload. encode_score_request 9 [[4], [5, 6]] False = Inr payload \<and>
     parse_request payload =
       Inr \<lparr>rq_version = REQUEST_VERSION, rq_mode = MODE_SCORE, rq_flags = 0,
            rq_boundary_token = 9, rq_rows = Choices [[4], [5, 6]], rq_max_new_tokens = None\<rparr>"
proof -
  obtain payload where p: "encode_score_request 9 [[4], [5, 6]] False = Inr payload"
    using encode_score_Inr_iff [of 9 "[[4], [5, 6]]" False]
    by (simp add: i32_range_def)
  from score_request_roundtrip [OF p] p show ?thesis
    by (simp add: i32_range_def)
qed

text \<open>The exact limits of a generation request: it is encoded if and only if the token
  budget is in [1, 4096], there are at most 64 stop sequences, each has 1 to 32 tokens and
  every token fits a signed 32-bit word; otherwise an exception is raised.  The boundary
  token is never rejected, since it is masked to 32 bits.\<close>

theorem generate_request_accepts:
  "returns (encode_generate_request boundary max_new stops blank) \<longleftrightarrow>
     1 \<le> max_new \<and> max_new \<le> 4096 \<and> length stops \<le> 64 \<and>
     (\<forall>row \<in> set stops. 1 \<le> length row \<and> length row \<le> 32 \<and>
        (\<forall>t \<in> set row. - (2 ^ 31) \<le> t \<and> t < 2 ^ 31))"
  by (simp add: returns_iff encode_generate_Inr_iff i32_range_def int_one_le_iff_zero_less
      Suc_le_eq)

theorem generate_request_accepts_witness:
  "returns (encode_generate_request 3 4096 [[1]] False)"
  by (simp add: generate_request_accepts)

text \<open>C27: The decoder accepts nothing but canonical encodings: a payload that parses is the
  magic, six 32-bit header fields and the length-prefixed rows it reports, with no byte
  before, between or after them, so a truncated or padded request is rejected.\<close>

theorem parsed_request_is_canonical:
  assumes "parse_request payload = Inr r"
  shows "\<exists>boundary primary auxiliary vals.
    payload = request_bytes [rq_version r, rq_mode r, rq_flags r, boundary, primary, auxiliary] vals \<and>
    rq_boundary_token r = signed_of 4 boundary \<and>
    rq_rows r = (if rq_mode r = MODE_GENERATE then StopSequences vals else Choices vals) \<and>
    int (length vals) = (if rq_mode r = MODE_GENERATE then auxiliary else primary)"
proof -
  obtain v m f b p a vals where
    c: "payload = request_bytes [v, m, f, b, p, a] vals"
       "\<forall>x \<in> set [v, m, f, b, p, a]. u32_range x" "\<forall>row \<in> set vals. row_ok row"
       "int (length vals) = (if m = MODE_GENERATE then a else p)"
    using assms by (rule parse_request_canonical)
  from parse_request_bytes [OF c(3,2,4)] assms c show ?thesis
    by (intro exI [of _ b] exI [of _ p] exI [of _ a] exI [of _ vals]) auto
qed

theorem parsed_request_is_canonical_witness:
  "\<exists>payload r. parse_request payload = Inr r \<and>
    (\<exists>boundary primary auxiliary vals.
      payload = request_bytes [rq_version r, rq_mode r, rq_flags r, boundary, primary, auxiliary] vals)"
proof -
  let ?hdr = "[1, 1, 0, 7, 16, 1]"
  have rows: "\<forall>row \<in> set [[42]]. row_ok row"
    by (simp add: row_ok_def u32_range_def i32_range_def)
  have hdr: "\<forall>v \<in> set ?hdr. u32_range v"
    by (simp add: u32_range_def)
  obtain r where p: "parse_request (request_bytes ?hdr [[42]]) = Inr r"
    using parse_request_bytes [OF rows hdr] by (simp add: MODE_GENERATE_def)
  from parsed_request_is_canonical [OF p] p show ?thesis
    by blast
qed

text \<open>Patching the flags word of an encoded request changes the blank-state flag and
  nothing else the host reads: mode, boundary token, budget and rows are as encoded.\<close>

theorem patch_flags_only_flags:
  assumes "parse_request payload = Inr r"
  shows "\<exists>patched. patch_flags payload blank = Inr patched \<and>
    parse_request patched = Inr (r\<lparr>rq_flags := (if blank then FLAG_BLANK_STATE else 0)\<rparr>)"
proof -
  obtain v m f b p a vals where
    c: "payload = request_bytes [v, m, f, b, p, a] vals"
       "\<forall>x \<in> set [v, m, f, b, p, a]. u32_range x" "\<forall>row \<in> set vals. row_ok row"
       "int (length vals) = (if m = MODE_GENERATE then a else p)"
    using assms by (rule parse_request_canonical)
  let ?f = "if blank then FLAG_BLANK_STATE else 0"
  have hdr: "\<forall>x \<in> set [v, m, ?f, b, p, a]. u32_range x"
    using c(2) by (simp add: header_constants_u32)
  have patched: "patch_flags payload blank = Inr (request_bytes [v, m, ?f, b, p, a] vals)"
    by (simp only: c(1) patch_flags_bytes)
  from parse_request_bytes [OF c(3,2,4)] parse_request_bytes [OF c(3) hdr c(4)] assms patched c(1)
  show ?thesis by auto
qed

theorem patch_flags_only_flags_witness:
  "\<exists>patched r. patch_flags (request_bytes [1, 2, 0, 7, 1, 0] [[42]]) True = Inr patched \<and>
     parse_request patched = Inr (r\<lparr>rq_flags := FLAG_BLANK_STATE\<rparr>)"
proof -
  let ?hdr = "[1, 2, 0, 7, 1, 0]"
  have rows: "\<forall>row \<in> set [[42]]. row_ok row"
    by (simp add: row_ok_def u32_range_def i32_range_def)
  have hdr: "\<forall>v \<in> set ?hdr. u32_range v"
    by (simp add: u32_range_def)
  obtain r where p: "parse_request (request_bytes ?hdr [[42]]) = Inr r"
    using parse_request_bytes [OF rows hdr] by (simp add: MODE_GENERATE_def)
  from patch_flags_only_flags [OF p, of True] show ?thesis
    by auto
qed

end
