(* ===== verification/FileQueue.thy ===== *)
theory FileQueue
  imports RequestProtocol StateCache PyStrings
begin

text \<open>
  The file queue of \<open>scripts/fpga_eval_client.py\<close>: atomic publication of a file, the handoff
  producer, submission of a request under a deterministic identifier and the polling wait for
  its result.

  A disk maps paths to contents and knows which files have durable data.  A Python function
  that writes is modelled by the list of file operations it performs, one per written byte, so
  that a crash is a prefix of that list, together with its result.  SHA-256, JSON encoding and
  the model's prefill are parameters.
\<close>

section \<open>The disk\<close>

type_synonym path = "string \<times> string"

record disk =
  contents :: "path \<Rightarrow> bytes option"
  durable :: "path set"

datatype fs_op =
    Create path
  | Append path byte
  | Fsync path
  | Replace path path
  | FsyncDir string
  | Unlink path

fun exec_op :: "fs_op \<Rightarrow> disk \<Rightarrow> disk" where
  "exec_op (Create p) d = d\<lparr>contents := (contents d)(p \<mapsto> []), durable := durable d - {p}\<rparr>"
| "exec_op (Append p b) d =
     d\<lparr>contents := (contents d)(p := map_option (\<lambda>bs. bs @ [b]) (contents d p)), durable := durable d - {p}\<rparr>"
| "exec_op (Fsync p) d = d\<lparr>durable := insert p (durable d)\<rparr>"
| "exec_op (Replace p q) d =
     d\<lparr>contents := (contents d)(q := contents d p, p := None),
       durable := (if p \<in> durable d then insert q (durable d) else durable d - {q}) - {p}\<rparr>"
| "exec_op (FsyncDir dir) d = d"
| "exec_op (Unlink p) d = d\<lparr>contents := (contents d)(p := None), durable := durable d - {p}\<rparr>"

definition exec :: "fs_op list \<Rightarrow> disk \<Rightarrow> disk" where
  "exec ops d = fold exec_op ops d"

text \<open>The temporary name of \<open>path.with_name(f".{path.name}.tmp.{os.getpid()}")\<close>.\<close>

definition temporary :: "string \<Rightarrow> path \<Rightarrow> path" where
  "temporary pid path = (fst path, ''.'' @ snd path @ ''.tmp.'' @ pid)"

definition atomic_write :: "string \<Rightarrow> path \<Rightarrow> bytes \<Rightarrow> fs_op list" where
  "atomic_write pid path payload =
     (let tmp = temporary pid path
      in [Create tmp] @ map (Append tmp) payload @ [Fsync tmp, Replace tmp path, FsyncDir (fst path)])"

section \<open>Request identifiers\<close>

definition is_alnum :: "char \<Rightarrow> bool" where
  "is_alnum c \<longleftrightarrow> c \<in> set ''abcdefghijklmnopqrstuvwxyzABCDEFGHIJKLMNOPQRSTUVWXYZ0123456789''"

definition strip_char :: "char \<Rightarrow> string \<Rightarrow> string" where
  "strip_char c s = rev (dropWhile (\<lambda>x. x = c) (rev (dropWhile (\<lambda>x. x = c) s)))"

definition stable_request_id :: "(bytes \<Rightarrow> string) \<Rightarrow> ('i \<Rightarrow> bytes) \<Rightarrow> string \<Rightarrow> 'i \<Rightarrow> string" where
  "stable_request_id sha256 canonical prefix payload =
     (let digest = take 32 (sha256 (canonical payload));
          safe_prefix = strip_char (CHR ''-'')
            (map (\<lambda>c. if is_alnum c \<or> c \<in> set ''-_'' then c else CHR ''-'') prefix)
      in (if take 48 safe_prefix = [] then ''request'' else take 48 safe_prefix) @ ''-'' @ digest)"

definition token_sha256 :: "(bytes \<Rightarrow> string) \<Rightarrow> int list \<Rightarrow> string result" where
  "token_sha256 sha256 tokens = rbind (rmap (pack_sint 4) tokens) (\<lambda>bs. Inr (sha256 (concat bs)))"

section \<open>The producer\<close>

text \<open>
  What the producer needs from the model: the attention mode of each layer (\<open>None\<close> when a
  layer has none), the layers themselves, the configured layer count and the prefill, which
  depends on the modes of the layers.
\<close>

record gpu_model =
  config_attn_mode :: "string option"
  layer_modes :: "string option list option"
  configured_layers :: "nat option"
  prefill_cache :: "string option list \<Rightarrow> int list \<Rightarrow> past"

fun set_layer_modes :: "string \<Rightarrow> string option list \<Rightarrow> string option list \<times> unit result" where
  "set_layer_modes mode [] = ([], Inr ())"
| "set_layer_modes mode (m # ms) =
     (if m = None then (m # ms, Inl RuntimeError)
      else (let (ms', r) = set_layer_modes mode ms in (Some mode # ms', r)))"

definition set_attention_mode :: "gpu_model \<Rightarrow> string \<Rightarrow> gpu_model \<times> unit result" where
  "set_attention_mode model mode =
     (let model = (if config_attn_mode model \<noteq> None then model\<lparr>config_attn_mode := Some mode\<rparr> else model)
      in case layer_modes model of
           None \<Rightarrow> (model, Inl RuntimeError)
         | Some layers \<Rightarrow> (let (layers', r) = set_layer_modes mode layers
                          in (model\<lparr>layer_modes := Some layers'\<rparr>, r)))"

datatype param_dtype = DtBF16 | DtOther

definition FastStateHandoffProducer_init :: "string \<Rightarrow> param_dtype \<Rightarrow> nn_module list \<Rightarrow> nat result" where
  "FastStateHandoffProducer_init device_type dt modules =
     (if device_type \<noteq> ''cuda'' then Inl ValueError
      else if dt \<noteq> DtBF16 then Inl TypeError
      else let dense_count = length (filter gdn_native_bf16_product modules)
           in if dense_count = 0 then Inl RuntimeError else Inr dense_count)"

text \<open>The metadata of a request: what the caller gave and what the mode adds.\<close>

datatype 'm request_metadata =
    GenerateMetadata 'm int "string list"
  | ScoreMetadata 'm "nat list" "string list"

record 'm state_metadata =
  md_given :: "'m request_metadata"
  md_context_tokens :: nat
  md_prefix_tokens :: nat
  md_context_sha256 :: string
  md_prefix_sha256 :: string
  md_boundary_token :: int
  md_dense_modules :: nat
  md_blank_state :: bool
  md_state_sha256 :: "string option"

record 'm host =
  h_pid :: string
  h_sha256 :: "bytes \<Rightarrow> string"
  h_metadata_json :: "'m state_metadata \<Rightarrow> bytes"
  h_ops :: fp32_ops
  h_dense_count :: nat

text \<open>
  An exception before the file is opened leaves nothing; a later one leaves the temporary file with
  the bytes emitted so far.
\<close>

fun done_before :: "('a \<Rightarrow> 'b result) \<Rightarrow> 'a list \<Rightarrow> 'b list" where
  "done_before f [] = []"
| "done_before f (x # xs) = (case f x of Inl e \<Rightarrow> [] | Inr y \<Rightarrow> y # done_before f xs)"

definition tails_emitted :: "past \<Rightarrow> f32 list" where
  "tails_emitted past =
     concat (done_before conv_values past) @
     (case dropWhile (\<lambda>layer. returns (conv_values layer)) past of
        [] \<Rightarrow> []
      | layer # _ \<Rightarrow> (case conv_state layer of None \<Rightarrow> [] | Some convs \<Rightarrow> concat (done_before tail_values convs)))"

definition emitted_before_error :: "nat option \<Rightarrow> past \<Rightarrow> int list \<Rightarrow> int \<Rightarrow> bytes option" where
  "emitted_before_error configured past prefix_tokens boundary_token =
     (case rbind (assert_bf16_exact_recurrent_cache past) (\<lambda>_.
           rbind (assert_bf16_exact_conv_cache past) (\<lambda>_. state_dimensions configured past)) of
        Inl e \<Rightarrow> None
      | Inr dims \<Rightarrow> Some (STATE_MAGIC @
          (case pack_u32s [STATE_VERSION, int (num_layers dims), int (heads dims), int (key_dim dims),
                           int (value_dim dims), int (hidden_dim dims), int (conv_width dims),
                           int (length prefix_tokens), boundary_token AND 0xFFFFFFFF] of
             Inl e \<Rightarrow> []
           | Inr header \<Rightarrow> header @
               (case (if prefix_tokens = [] then Inr [] else pack_i32_array prefix_tokens) of
                  Inl e \<Rightarrow> []
                | Inr tokens \<Rightarrow> tokens @ f32_bytes (concat (done_before recurrent_values past)) @
                    (if returns (rmap recurrent_values past) then f32_bytes (tails_emitted past) else [])))))"

definition write_gdn_state ::
  "'m host \<Rightarrow> path \<Rightarrow> gpu_model \<Rightarrow> past \<Rightarrow> int list \<Rightarrow> int \<Rightarrow> fs_op list \<times> string result" where
  "write_gdn_state h path model past prefix_tokens boundary_token =
     (let tmp = temporary (h_pid h) path
      in case gdn_state_payload (configured_layers model) past prefix_tokens boundary_token of
           Inl e \<Rightarrow> (case emitted_before_error (configured_layers model) past prefix_tokens boundary_token of
               None \<Rightarrow> ([], Inl e)
             | Some emitted \<Rightarrow> ([Create tmp] @ map (Append tmp) emitted, Inl e))
         | Inr payload \<Rightarrow> ([Create tmp] @ map (Append tmp) payload @ [Fsync tmp, Replace tmp path],
                         Inr (h_sha256 h payload)))"

lemma failed_state_not_published:
  assumes "write_gdn_state h path model past prefix_tokens boundary_token = (ops, Inl e)"
  shows "\<forall>op \<in> set ops. \<exists>b. op = Create (temporary (h_pid h) path) \<or> op = Append (temporary (h_pid h) path) b"
  using assms by (auto simp: write_gdn_state_def Let_def split: sum.splits option.splits)

definition producer_export ::
  "'m host \<Rightarrow> gpu_model \<Rightarrow> int list \<Rightarrow> path \<Rightarrow> path \<Rightarrow> 'm request_metadata
     \<Rightarrow> fs_op list \<times> bool result" where
  "producer_export h model context state_path metadata_path metadata =
     (if context = [] then ([], Inl ValueError)
      else let boundary_token = last context; prefix = butlast context in
        case (token_sha256 (h_sha256 h) context, token_sha256 (h_sha256 h) prefix) of
          (Inr cs, Inr ps) \<Rightarrow>
            let md = (\<lambda>blank sha. \<lparr>md_given = metadata, md_context_tokens = length context,
                  md_prefix_tokens = length prefix, md_context_sha256 = cs, md_prefix_sha256 = ps,
                  md_boundary_token = boundary_token, md_dense_modules = h_dense_count h,
                  md_blank_state = blank, md_state_sha256 = sha\<rparr>)
            in if prefix = []
               then (atomic_write (h_pid h) metadata_path (h_metadata_json h (md True None)), Inr True)
               else case set_attention_mode model ''chunk'' of
                      (model, Inl e) \<Rightarrow> ([], Inl e)
                    | (model, Inr _) \<Rightarrow>
                      case rbind (round_recurrent_cache_bf16 (h_ops h) (prefill_cache model (the (layer_modes model)) prefix))
                             (round_conv_cache_bf16 (h_ops h)) of
                        Inl e \<Rightarrow> ([], Inl e)
                      | Inr past \<Rightarrow>
                        case write_gdn_state h state_path model past prefix boundary_token of
                          (ops, Inl e) \<Rightarrow> (ops, Inl e)
                        | (ops, Inr sha) \<Rightarrow>
                            (ops @ atomic_write (h_pid h) metadata_path (h_metadata_json h (md False (Some sha))),
                             Inr False)
        | (Inl e, _) \<Rightarrow> ([], Inl e)
        | (_, Inl e) \<Rightarrow> ([], Inl e))"

section \<open>The queue\<close>

record request_handle =
  request_id :: string
  result_path :: path
  error_path :: path

record file_queue =
  queue_dir :: string
  results_dir :: string

definition FpgaFileQueue_init :: "file_queue \<Rightarrow> fs_op list" where
  "FpgaFileQueue_init q = [Unlink (queue_dir q, ''producer.done'')]"

definition handle_of :: "file_queue \<Rightarrow> string \<Rightarrow> request_handle" where
  "handle_of q rid = \<lparr>request_id = rid,
     result_path = (results_dir q, rid @ ''.json''),
     error_path = (results_dir q, rid @ ''.error.json'')\<rparr>"

definition submit ::
  "'m host \<Rightarrow> gpu_model \<Rightarrow> file_queue \<Rightarrow> disk \<Rightarrow> string \<Rightarrow> int list \<Rightarrow> bytes
     \<Rightarrow> 'm request_metadata \<Rightarrow> fs_op list \<times> request_handle result" where
  "submit h model q d rid context_tokens request_payload metadata =
     (let handle = handle_of q rid in
      if contents d (result_path handle) \<noteq> None then ([], Inr handle)
      else if contents d (error_path handle) \<noteq> None then ([], Inl RuntimeError)
      else case producer_export h model context_tokens (queue_dir q, rid @ ''.gdnstate'')
                  (results_dir q, rid @ ''.request.json'') metadata of
             (ops, Inl e) \<Rightarrow> (ops, Inl e)
           | (ops, Inr blank_state) \<Rightarrow>
               case patch_flags request_payload blank_state of
                 Inl e \<Rightarrow> (ops, Inl e)
               | Inr mutable \<Rightarrow>
                   (ops @ atomic_write (h_pid h) (queue_dir q, rid @ ''.req.ready'') mutable, Inr handle))"

text \<open>The identity of a request is hashed into its identifier.\<close>

datatype 'm identity =
    GenerateIdentity "int list" int "int list list" 'm
  | ScoreIdentity "int list" "int list list" 'm

definition submit_generate ::
  "('m identity \<Rightarrow> bytes) \<Rightarrow> 'm host \<Rightarrow> gpu_model \<Rightarrow> file_queue \<Rightarrow> disk \<Rightarrow> string \<Rightarrow> int list \<Rightarrow> int
     \<Rightarrow> int list list \<Rightarrow> 'm \<Rightarrow> fs_op list \<times> request_handle result" where
  "submit_generate canonical h model q d prefix context_tokens max_new_tokens stop_sequences metadata =
     (if context_tokens = [] then ([], Inl IndexError)
      else case encode_generate_request (last context_tokens) max_new_tokens stop_sequences False of
             Inl e \<Rightarrow> ([], Inl e)
           | Inr request_payload \<Rightarrow>
             case rmap (token_sha256 (h_sha256 h)) stop_sequences of
               Inl e \<Rightarrow> ([], Inl e)
             | Inr shas \<Rightarrow>
                 submit h model q d
                   (stable_request_id (h_sha256 h) canonical prefix
                      (GenerateIdentity context_tokens max_new_tokens stop_sequences metadata))
                   context_tokens request_payload (GenerateMetadata metadata max_new_tokens shas))"

definition submit_score ::
  "('m identity \<Rightarrow> bytes) \<Rightarrow> 'm host \<Rightarrow> gpu_model \<Rightarrow> file_queue \<Rightarrow> disk \<Rightarrow> string \<Rightarrow> int list
     \<Rightarrow> int list list \<Rightarrow> 'm \<Rightarrow> fs_op list \<times> request_handle result" where
  "submit_score canonical h model q d prefix context_tokens choices metadata =
     (if context_tokens = [] then ([], Inl IndexError)
      else case encode_score_request (last context_tokens) choices False of
             Inl e \<Rightarrow> ([], Inl e)
           | Inr request_payload \<Rightarrow>
             case rmap (token_sha256 (h_sha256 h)) choices of
               Inl e \<Rightarrow> ([], Inl e)
             | Inr shas \<Rightarrow>
                 submit h model q d
                   (stable_request_id (h_sha256 h) canonical prefix (ScoreIdentity context_tokens choices metadata))
                   context_tokens request_payload (ScoreMetadata metadata (map length choices) shas))"

text \<open>
  The wait: iteration \<open>i\<close> reads the clock \<open>clock i\<close> and then finds the disk \<open>view i\<close>.
  \<open>result_id\<close> reads the \<open>id\<close> of a result file (\<open>Inl\<close> when it is not JSON).
\<close>

partial_function (option) wait_from ::
  "(bytes \<Rightarrow> string option result) \<Rightarrow> (bytes \<Rightarrow> unit result) \<Rightarrow> (nat \<Rightarrow> rat) \<Rightarrow> (nat \<Rightarrow> disk) \<Rightarrow> rat
     \<Rightarrow> request_handle \<Rightarrow> nat \<Rightarrow> bytes result option" where
  "wait_from result_id error_json clock view deadline handle i =
     (if clock i < deadline
      then (case contents (view i) (result_path handle) of
              Some text \<Rightarrow> Some (rbind (result_id text) (\<lambda>rid.
                if rid \<noteq> Some (request_id handle) then Inl RuntimeError else Inr text))
            | None \<Rightarrow>
                (case contents (view i) (error_path handle) of
                   Some text \<Rightarrow> Some (rbind (error_json text) (\<lambda>_. Inl RuntimeError))
                 | None \<Rightarrow> wait_from result_id error_json clock view deadline handle (Suc i)))
      else Some (Inl TimeoutError))"

definition wait ::
  "(bytes \<Rightarrow> string option result) \<Rightarrow> (bytes \<Rightarrow> unit result) \<Rightarrow> (nat \<Rightarrow> rat) \<Rightarrow> (nat \<Rightarrow> disk) \<Rightarrow> rat
     \<Rightarrow> request_handle \<Rightarrow> bytes result option" where
  "wait result_id error_json clock view result_timeout_seconds handle =
     wait_from result_id error_json clock view (clock 0 + result_timeout_seconds) handle 1"

definition finish :: "'m host \<Rightarrow> file_queue \<Rightarrow> fs_op list" where
  "finish h q = atomic_write (h_pid h) (queue_dir q, ''producer.done'') (ascii (''done'' @ [CHR 0x0A]))"


section \<open>What file operations touch\<close>

fun touched :: "fs_op \<Rightarrow> path set" where
  "touched (Create p) = {p}"
| "touched (Append p b) = {p}"
| "touched (Fsync p) = {p}"
| "touched (Replace p q) = {p, q}"
| "touched (FsyncDir dir) = {}"
| "touched (Unlink p) = {p}"

definition same_file :: "path \<Rightarrow> disk \<Rightarrow> disk \<Rightarrow> bool" where
  "same_file p d d' \<longleftrightarrow> contents d' p = contents d p \<and> (p \<in> durable d' \<longleftrightarrow> p \<in> durable d)"

lemma same_file_trans [trans]: "same_file p d d' \<Longrightarrow> same_file p d' d'' \<Longrightarrow> same_file p d d''"
  by (simp add: same_file_def)

lemma exec_append: "exec (xs @ ys) d = exec ys (exec xs d)"
  by (simp add: exec_def)

lemma exec_op_untouched: "p \<notin> touched op \<Longrightarrow> same_file p d (exec_op op d)"
  by (cases op) (auto simp: same_file_def)

lemma exec_untouched: "\<forall>op \<in> set ops. p \<notin> touched op \<Longrightarrow> same_file p d (exec ops d)"
proof (induction ops arbitrary: d)
  case Nil
  then show ?case by (simp add: exec_def same_file_def)
next
  case (Cons op ops)
  have "same_file p d (exec_op op d)" using Cons.prems by (simp add: exec_op_untouched)
  also have "same_file p (exec_op op d) (exec ops (exec_op op d))" using Cons by simp
  finally show ?case by (simp add: exec_def)
qed

text \<open>The two writers share the sequence that fills a temporary file and renames it.\<close>

definition publish :: "path \<Rightarrow> path \<Rightarrow> bytes \<Rightarrow> fs_op list" where
  "publish tmp path payload = [Create tmp] @ map (Append tmp) payload @ [Fsync tmp, Replace tmp path]"

lemma atomic_write_publish: "atomic_write pid path payload = publish (temporary pid path) path payload @ [FsyncDir (fst path)]"
  by (simp add: atomic_write_def publish_def Let_def)

lemma publish_touched: "op \<in> set (publish tmp path payload) \<Longrightarrow> p \<in> touched op \<Longrightarrow> p = tmp \<or> p = path"
  by (auto simp: publish_def)

lemma fill_temporary:
  "contents (exec (Create tmp # map (Append tmp) bs) d) = (contents d)(tmp \<mapsto> bs) \<and>
   durable (exec (Create tmp # map (Append tmp) bs) d) = durable d - {tmp}"
proof (induction bs rule: rev_induct)
  case Nil
  then show ?case by (simp add: exec_def)
next
  case (snoc b bs)
  have "exec (Create tmp # map (Append tmp) (bs @ [b])) d
      = exec_op (Append tmp b) (exec (Create tmp # map (Append tmp) bs) d)"
    using exec_append [of "Create tmp # map (Append tmp) bs" "[Append tmp b]" d] by (simp add: exec_def)
  then show ?case using snoc by (simp add: fun_eq_iff)
qed

lemma publish_done:
  assumes "tmp \<noteq> path"
  shows "contents (exec (publish tmp path payload) d) path = Some payload"
    and "path \<in> durable (exec (publish tmp path payload) d)"
proof -
  have "publish tmp path payload = (Create tmp # map (Append tmp) payload) @ [Fsync tmp, Replace tmp path]"
    by (simp add: publish_def)
  then have e: "exec (publish tmp path payload) d
      = exec_op (Replace tmp path) (exec_op (Fsync tmp) (exec (Create tmp # map (Append tmp) payload) d))"
    by (simp add: exec_append) (simp add: exec_def)
  show "contents (exec (publish tmp path payload) d) path = Some payload"
    and "path \<in> durable (exec (publish tmp path payload) d)"
    unfolding e using assms fill_temporary [of tmp payload d] by simp_all
qed

text \<open>Before the rename the target is untouched; after it the target is complete and durable.\<close>

lemma publish_crash:
  assumes "tmp \<noteq> path"
  shows "n < length (publish tmp path payload) \<Longrightarrow> same_file path d (exec (take n (publish tmp path payload)) d)"
proof -
  let ?fill = "[Create tmp] @ map (Append tmp) payload @ [Fsync tmp]"
  have split: "publish tmp path payload = ?fill @ [Replace tmp path]" by (simp add: publish_def)
  assume "n < length (publish tmp path payload)"
  then have le: "n - length ?fill = 0" by (simp add: split)
  have t: "take n (publish tmp path payload) = take n ?fill"
    by (simp only: split take_append le take_0 append_Nil2)
  have "\<forall>op \<in> set (take n ?fill). path \<notin> touched op"
    using assms by (auto dest!: in_set_takeD)
  then show ?thesis unfolding t by (rule exec_untouched)
qed

lemma temporary_neq: "temporary pid path \<noteq> path"
proof
  assume "temporary pid path = path"
  then have "length (''.'' @ snd path @ ''.tmp.'' @ pid) = length (snd path)"
    by (metis snd_conv temporary_def)
  then show False by simp
qed


lemma fsync_dir_same: "exec (ops @ [FsyncDir dir]) d = exec ops d"
  by (simp add: exec_append) (simp add: exec_def)

lemma atomic_write_crash:
  "same_file path d (exec (take n (atomic_write pid path payload)) d) \<or>
   contents (exec (take n (atomic_write pid path payload)) d) path = Some payload \<and>
   path \<in> durable (exec (take n (atomic_write pid path payload)) d)"
proof -
  let ?pub = "publish (temporary pid path) path payload"
  show ?thesis
  proof (cases "n < length ?pub")
    case True
    then show ?thesis
      using publish_crash [OF temporary_neq True] by (simp add: atomic_write_publish)
  next
    case False
    then have "exec (take n (atomic_write pid path payload)) d = exec ?pub d"
      by (cases "n - length ?pub") (simp_all add: atomic_write_publish fsync_dir_same)
    then show ?thesis using publish_done [OF temporary_neq] by simp
  qed
qed

lemma atomic_write_complete:
  "contents (exec (atomic_write pid path payload) d) path = Some payload"
  "path \<in> durable (exec (atomic_write pid path payload) d)"
  using publish_done [OF temporary_neq] by (simp_all add: atomic_write_publish fsync_dir_same)

lemma atomic_write_touched:
  "op \<in> set (atomic_write pid path payload) \<Longrightarrow> p \<in> touched op \<Longrightarrow> p = temporary pid path \<or> p = path"
  by (auto simp: atomic_write_publish dest: publish_touched)

text \<open>The files of one request are distinct, and so are their temporaries.\<close>

definition pid_ok :: "string \<Rightarrow> bool" where
  "pid_ok pid \<longleftrightarrow> pid \<noteq> [] \<and> list_all is_digit pid"

lemma temporary_ends_in_digit:
  "pid_ok pid \<Longrightarrow> temporary pid p = (dir, name) \<Longrightarrow> is_digit (last name)"
  by (auto simp: temporary_def pid_ok_def list_all_iff)

lemma request_files_distinct:
  assumes "pid_ok pid"
  shows "temporary pid p \<noteq> (dir, rid @ ''.gdnstate'')" "temporary pid p \<noteq> (dir, rid @ ''.request.json'')"
    and "temporary pid p \<noteq> (dir, rid @ ''.req.ready'')"
  using temporary_ends_in_digit [OF assms] by (fastforce simp: is_digit_def)+


section \<open>Submitting a request\<close>

lemma set_layer_modes_ok:
  "set_layer_modes mode ms = (ms', Inr ()) \<Longrightarrow> ms' = map (\<lambda>_. Some mode) ms"
  by (induction ms arbitrary: ms') (auto split: if_splits prod.splits)

lemma set_attention_mode_ok:
  assumes "set_attention_mode model mode = (model', Inr ())"
  shows "\<exists>layers. layer_modes model = Some layers \<and> layer_modes model' = Some (map (\<lambda>_. Some mode) layers) \<and>
    configured_layers model' = configured_layers model \<and> prefill_cache model' = prefill_cache model"
  using assms set_layer_modes_ok
  by (auto simp: set_attention_mode_def Let_def split: option.splits prod.splits if_splits)

text \<open>The state a request hands over: the prefix prefilled in chunk mode and rounded.\<close>

definition handoff_payload :: "'m host \<Rightarrow> gpu_model \<Rightarrow> int list \<Rightarrow> bytes result" where
  "handoff_payload h model context =
     rbind (round_recurrent_cache_bf16 (h_ops h)
        (prefill_cache model (map (\<lambda>_. Some ''chunk'') (the (layer_modes model))) (butlast context))) (\<lambda>past1.
     rbind (round_conv_cache_bf16 (h_ops h) past1) (\<lambda>past2.
     gdn_state_payload (configured_layers model) past2 (butlast context) (last context)))"

lemma butlast_Nil_iff: "context \<noteq> [] \<Longrightarrow> butlast context = [] \<longleftrightarrow> length context = 1"
  by (cases "context") auto

lemma producer_export_ok:
  assumes "producer_export h model context state_path metadata_path metadata = (ops, Inr blank)"
  shows "context \<noteq> [] \<and> (blank \<longleftrightarrow> length context = 1) \<and> (\<exists>mdj.
    if blank then ops = atomic_write (h_pid h) metadata_path mdj
    else (\<exists>payload. handoff_payload h model context = Inr payload \<and>
      ops = publish (temporary (h_pid h) state_path) state_path payload @ atomic_write (h_pid h) metadata_path mdj))"
proof (cases "context = [] \<or> butlast context = []")
  case True
  then show ?thesis
    using assms by (auto simp: producer_export_def Let_def butlast_Nil_iff split: sum.splits if_splits)
next
  case False
  then obtain cs ps where sha: "token_sha256 (h_sha256 h) context = Inr cs" "token_sha256 (h_sha256 h) (butlast context) = Inr ps"
    using assms
    by (cases "token_sha256 (h_sha256 h) context"; cases "token_sha256 (h_sha256 h) (butlast context)")
       (auto simp: producer_export_def Let_def)
  obtain model' where m: "set_attention_mode model ''chunk'' = (model', Inr ())"
  proof (cases "set_attention_mode model ''chunk''")
    case (Pair model' r)
    then show ?thesis
      using assms False that by (cases r) (auto simp: producer_export_def sha Let_def)
  qed
  obtain layers where mode: "layer_modes model = Some layers" "layer_modes model' = Some (map (\<lambda>_. Some ''chunk'') layers)"
    "configured_layers model' = configured_layers model" "prefill_cache model' = prefill_cache model"
    using set_attention_mode_ok [OF m] by blast
  let ?rounded = "rbind (round_recurrent_cache_bf16 (h_ops h)
      (prefill_cache model (map (\<lambda>_. Some ''chunk'') layers) (butlast context))) (round_conv_cache_bf16 (h_ops h))"
  obtain past where past: "?rounded = Inr past"
    using assms False by (cases ?rounded) (auto simp: producer_export_def sha m mode Let_def)
  obtain payload where pay: "gdn_state_payload (configured_layers model) past (butlast context) (last context) = Inr payload"
    using assms False
    by (cases "gdn_state_payload (configured_layers model) past (butlast context) (last context)")
       (auto simp: producer_export_def sha m mode past write_gdn_state_def Let_def split: option.splits)
  have "handoff_payload h model context = Inr payload"
    using past pay by (auto simp: handoff_payload_def mode(1) rbind_eq_Inr)
  then show ?thesis
    using assms False
    by (auto simp: producer_export_def sha m mode past pay write_gdn_state_def Let_def publish_def butlast_Nil_iff)
qed

lemma submit_ok:
  assumes "submit h model q d rid context req metadata = (ops, Inr handle)" and "ops \<noteq> []"
  shows "\<exists>pre blank flagged. producer_export h model context (queue_dir q, rid @ ''.gdnstate'')
      (results_dir q, rid @ ''.request.json'') metadata = (pre, Inr blank) \<and>
    patch_flags req blank = Inr flagged \<and>
    ops = pre @ atomic_write (h_pid h) (queue_dir q, rid @ ''.req.ready'') flagged"
  using assms by (auto simp: submit_def Let_def split: if_splits sum.splits prod.splits)


abbreviation state_file :: "file_queue \<Rightarrow> string \<Rightarrow> path" where
  "state_file q rid \<equiv> (queue_dir q, rid @ ''.gdnstate'')"

abbreviation metadata_file :: "file_queue \<Rightarrow> string \<Rightarrow> path" where
  "metadata_file q rid \<equiv> (results_dir q, rid @ ''.request.json'')"

abbreviation ready_file :: "file_queue \<Rightarrow> string \<Rightarrow> path" where
  "ready_file q rid \<equiv> (queue_dir q, rid @ ''.req.ready'')"

text \<open>When the producer has finished, its files are complete and durable and the request file untouched.\<close>

lemma producer_files:
  assumes "producer_export h model context (state_file q rid) (metadata_file q rid) metadata = (ops, Inr blank)"
    and pid: "pid_ok (h_pid h)"
  shows "\<forall>op \<in> set ops. ready_file q rid \<notin> touched op"
    and "contents (exec ops d) (metadata_file q rid) \<noteq> None \<and> metadata_file q rid \<in> durable (exec ops d)"
    and "\<not> blank \<Longrightarrow> \<exists>payload. handoff_payload h model context = Inr payload \<and>
      contents (exec ops d) (state_file q rid) = Some payload \<and> state_file q rid \<in> durable (exec ops d)"
proof -
  note dist = request_files_distinct [OF pid]
  let ?tmp = "temporary (h_pid h)"
  from producer_export_ok [OF assms(1)] obtain mdj where mdj:
    "if blank then ops = atomic_write (h_pid h) (metadata_file q rid) mdj
     else (\<exists>payload. handoff_payload h model context = Inr payload \<and>
       ops = publish (?tmp (state_file q rid)) (state_file q rid) payload @ atomic_write (h_pid h) (metadata_file q rid) mdj)"
    by blast
  have meta: "\<forall>op \<in> set (atomic_write (h_pid h) (metadata_file q rid) mdj). p \<notin> touched op"
    if "p \<noteq> ?tmp (metadata_file q rid)" "p \<noteq> metadata_file q rid" for p
    using that by (blast dest: atomic_write_touched)
  have state: "\<forall>op \<in> set (publish (?tmp (state_file q rid)) (state_file q rid) payload). p \<notin> touched op"
    if "p \<noteq> ?tmp (state_file q rid)" "p \<noteq> state_file q rid" for p payload
    using that by (blast dest: publish_touched)
  have ne: "ready_file q rid \<noteq> metadata_file q rid" "ready_file q rid \<noteq> state_file q rid"
    "state_file q rid \<noteq> metadata_file q rid" by auto
  show "\<forall>op \<in> set ops. ready_file q rid \<notin> touched op"
  proof -
    note m = meta [OF not_sym [OF dist(3)] ne(1)]
    note s = state [OF not_sym [OF dist(3)] ne(2)]
    show ?thesis
    proof (cases blank)
      case True
      then show ?thesis using mdj m by simp
    next
      case False
      then obtain payload where "ops = publish (?tmp (state_file q rid)) (state_file q rid) payload
          @ atomic_write (h_pid h) (metadata_file q rid) mdj"
        using mdj by auto
      then show ?thesis using m s [of payload] by auto
    qed
  qed
  show "contents (exec ops d) (metadata_file q rid) \<noteq> None \<and> metadata_file q rid \<in> durable (exec ops d)"
    using mdj by (auto simp: exec_append atomic_write_complete split: if_splits)
  assume "\<not> blank"
  with mdj obtain payload where h: "handoff_payload h model context = Inr payload"
    and ops: "ops = publish (?tmp (state_file q rid)) (state_file q rid) payload @ atomic_write (h_pid h) (metadata_file q rid) mdj"
    by auto
  let ?d1 = "exec (publish (?tmp (state_file q rid)) (state_file q rid) payload) d"
  have "same_file (state_file q rid) ?d1 (exec ops d)"
    unfolding ops exec_append by (rule exec_untouched) (rule meta [OF not_sym [OF dist(1)] ne(3)])
  then show "\<exists>payload. handoff_payload h model context = Inr payload \<and>
      contents (exec ops d) (state_file q rid) = Some payload \<and> state_file q rid \<in> durable (exec ops d)"
    using publish_done [OF temporary_neq, where payload = payload and d = d] h by (auto simp: same_file_def)
qed

section \<open>Properties\<close>

text \<open>C32: Publication is atomic: a crash after any prefix of the file operations of
  \<open>_atomic_write\<close>, even in the middle of writing the payload, leaves the published path exactly
  as it was or holding the complete payload with its data already synced; every path other than
  it and the temporary keeps its contents; and the full run publishes the payload.\<close>

theorem atomic_write_crash_safe:
  "(same_file path d (exec (take n (atomic_write pid path payload)) d) \<or>
    contents (exec (take n (atomic_write pid path payload)) d) path = Some payload \<and>
    path \<in> durable (exec (take n (atomic_write pid path payload)) d)) \<and>
   (p \<notin> {path, temporary pid path} \<longrightarrow> same_file p d (exec (take n (atomic_write pid path payload)) d)) \<and>
   contents (exec (atomic_write pid path payload) d) path = Some payload"
proof -
  have "\<forall>op \<in> set (take n (atomic_write pid path payload)). p \<notin> touched op" if "p \<notin> {path, temporary pid path}"
    using that by (blast dest: in_set_takeD atomic_write_touched)
  then show ?thesis
    using atomic_write_crash atomic_write_complete exec_untouched by blast
qed

theorem atomic_write_crash_safe_witness:
  "contents (exec (take 4 (atomic_write ''7'' (''q'', ''r'') [1, 2])) \<lparr>contents = (\<lambda>p. Some [9]), durable = {}\<rparr>) (''q'', ''x'') = Some [9] \<and>
   contents (exec (atomic_write ''7'' (''q'', ''r'') [1, 2]) \<lparr>contents = (\<lambda>p. Some [9]), durable = {}\<rparr>) (''q'', ''r'') = Some [1, 2]"
  using atomic_write_crash_safe [of "(''q'', ''r'')" "\<lparr>contents = (\<lambda>p. Some [9]), durable = {}\<rparr>" 4 "''7''" "[1, 2]" "(''q'', ''x'')"]
  by (simp add: same_file_def temporary_def)

text \<open>C33: A request becomes visible last: take any prefix of the file operations of a submission
  that returns.  If the request file differs from what it was before, then it holds the complete
  request with the flag that says whether a state file goes with it, the metadata file is in
  place, and unless the flag says blank the state file holds exactly the rounded prefill state
  of the prefix; all of them durably.  So the accelerator never sees a request without its state.\<close>

theorem submit_publishes_last:
  assumes "submit h model q d rid context req metadata = (ops, Inr handle)" and "pid_ok (h_pid h)"
    and "contents (exec (take n ops) d) (ready_file q rid) \<noteq> contents d (ready_file q rid)"
  shows "\<exists>flagged. patch_flags req (length context = 1) = Inr flagged \<and>
    contents (exec (take n ops) d) (ready_file q rid) = Some flagged \<and> ready_file q rid \<in> durable (exec (take n ops) d) \<and>
    contents (exec (take n ops) d) (metadata_file q rid) \<noteq> None \<and> metadata_file q rid \<in> durable (exec (take n ops) d) \<and>
    (length context \<noteq> 1 \<longrightarrow> (\<exists>payload. handoff_payload h model context = Inr payload \<and>
       contents (exec (take n ops) d) (state_file q rid) = Some payload \<and> state_file q rid \<in> durable (exec (take n ops) d)))"
proof -
  have "ops \<noteq> []" using assms(3) by (auto simp: exec_def)
  from submit_ok [OF assms(1) this] obtain pre blank flagged where
    p: "producer_export h model context (state_file q rid) (metadata_file q rid) metadata = (pre, Inr blank)"
    and f: "patch_flags req blank = Inr flagged"
    and ops: "ops = pre @ atomic_write (h_pid h) (ready_file q rid) flagged"
    by blast
  note files = producer_files [OF p assms(2)]
  have blank: "blank \<longleftrightarrow> length context = 1" using producer_export_ok [OF p] by blast
  let ?w = "atomic_write (h_pid h) (ready_file q rid) flagged"
  have "\<not> n < length pre"
  proof
    assume "n < length pre"
    then have "\<forall>op \<in> set (take n ops). ready_file q rid \<notin> touched op"
      using files(1) by (auto simp: ops dest: in_set_takeD)
    then have "same_file (ready_file q rid) d (exec (take n ops) d)" by (rule exec_untouched)
    with assms(3) show False by (simp add: same_file_def)
  qed
  then obtain m where n: "take n ops = pre @ take m ?w" by (simp add: ops)
  let ?d1 = "exec pre d"
  have d': "exec (take n ops) d = exec (take m ?w) ?d1" by (simp add: n exec_append)
  have "same_file (ready_file q rid) d ?d1" by (rule exec_untouched [OF files(1)])
  then have ready: "contents (exec (take n ops) d) (ready_file q rid) = Some flagged"
    "ready_file q rid \<in> durable (exec (take n ops) d)"
    using atomic_write_crash [of "ready_file q rid" ?d1 m "h_pid h" flagged] assms(3)
    by (auto simp: d' same_file_def)
  have keep: "same_file p ?d1 (exec (take n ops) d)"
    if "p \<noteq> temporary (h_pid h) (ready_file q rid)" "p \<noteq> ready_file q rid" for p
    unfolding d' by (rule exec_untouched) (use that in \<open>blast dest: in_set_takeD atomic_write_touched\<close>)
  have km: "same_file (metadata_file q rid) ?d1 (exec (take n ops) d)"
    and ks: "same_file (state_file q rid) ?d1 (exec (take n ops) d)"
    by (rule keep [OF not_sym [OF request_files_distinct(2) [OF assms(2)]]], simp,
        rule keep [OF not_sym [OF request_files_distinct(1) [OF assms(2)]]], simp)
  show ?thesis
    using f blank ready km ks files(2) files(3) by (auto simp: same_file_def)
qed


definition example_host :: "unit host" where
  "example_host = \<lparr>h_pid = ''42'', h_sha256 = (\<lambda>_. replicate 64 CHR ''a''), h_metadata_json = (\<lambda>_. [1, 2]),
     h_ops = wrap_ops, h_dense_count = 193\<rparr>"

definition example_gpu :: gpu_model where
  "example_gpu = \<lparr>config_attn_mode = None, layer_modes = Some [Some ''fused_recurrent''], configured_layers = Some 1,
     prefill_cache = (\<lambda>_ _. small_cache)\<rparr>"

definition example_queue :: file_queue where
  "example_queue = \<lparr>queue_dir = ''queue'', results_dir = ''results''\<rparr>"

definition empty_disk :: disk where
  "empty_disk = \<lparr>contents = (\<lambda>_. None), durable = {}\<rparr>"

lemma example_handoff: "\<exists>payload. handoff_payload example_host example_gpu [5, 6, 7] = Inr payload"
  by (simp add: handoff_payload_def example_host_def example_gpu_def small_cache_def round_recurrent_cache_bf16_def
      round_conv_cache_bf16_def gdn_state_payload_def assert_bf16_exact_recurrent_cache_def
      assert_bf16_exact_conv_cache_def has_low_bits_def float_bits_def state_dimensions_def recurrent_values_def
      conv_values_def tail_values_def pack_u32s_ok pack_i32_array_ok u32_range_def i32_range_def STATE_VERSION_def)

lemma example_submission:
  "\<exists>ops. submit example_host example_gpu example_queue empty_disk ''r'' [5, 6, 7] (replicate 32 0) (ScoreMetadata () [] [])
     = (ops, Inr (handle_of example_queue ''r'')) \<and> ops \<noteq> []"
proof -
  obtain payload where "handoff_payload example_host example_gpu [5, 6, 7] = Inr payload"
    using example_handoff by blast
  then obtain past1 past2 where h: "round_recurrent_cache_bf16 (h_ops example_host) small_cache = Inr past1"
    "round_conv_cache_bf16 (h_ops example_host) past1 = Inr past2"
    "gdn_state_payload (Some 1) past2 [5, 6] 7 = Inr payload"
    by (auto simp: handoff_payload_def rbind_eq_Inr example_gpu_def)
  have m: "set_attention_mode example_gpu ''chunk'' = (example_gpu\<lparr>layer_modes := Some [Some ''chunk'']\<rparr>, Inr ())"
    by (simp add: set_attention_mode_def example_gpu_def)
  have t: "token_sha256 (h_sha256 example_host) [5, 6, 7] = Inr (replicate 64 CHR ''a'')"
    "token_sha256 (h_sha256 example_host) [5, 6] = Inr (replicate 64 CHR ''a'')"
    by (simp_all add: token_sha256_def pack_i32 i32_range_def example_host_def)
  have p: "patch_flags (replicate 32 0) False = Inr (take 16 (replicate 32 0) @ le_bytes 4 0 @ drop 20 (replicate 32 0))"
    by (simp add: patch_flags_def pack_u32_into_def pack_u32 u32_range_def)
  show ?thesis
    using h m t p
    by (simp add: submit_def empty_disk_def producer_export_def write_gdn_state_def Let_def example_gpu_def)
qed

theorem submit_publishes_last_witness:
  "\<exists>ops flagged payload. submit example_host example_gpu example_queue empty_disk ''r'' [5, 6, 7] (replicate 32 0) (ScoreMetadata () [] [])
     = (ops, Inr (handle_of example_queue ''r'')) \<and>
    contents (exec ops empty_disk) (ready_file example_queue ''r'') = Some flagged \<and>
    contents (exec ops empty_disk) (state_file example_queue ''r'') = Some payload"
proof -
  obtain ops where r: "submit example_host example_gpu example_queue empty_disk ''r'' [5, 6, 7] (replicate 32 0)
      (ScoreMetadata () [] []) = (ops, Inr (handle_of example_queue ''r''))" and ne: "ops \<noteq> []"
    using example_submission by blast
  have pid: "pid_ok (h_pid example_host)" by (simp add: pid_ok_def example_host_def is_digit_def)
  have new: "contents (exec (take (length ops) ops) empty_disk) (ready_file example_queue ''r'')
      \<noteq> contents empty_disk (ready_file example_queue ''r'')"
    using submit_ok [OF r ne] by (auto simp: exec_append atomic_write_complete empty_disk_def)
  have "length [5, 6, 7 :: int] \<noteq> 1" by simp
  with submit_publishes_last [OF r pid new] r show ?thesis by (simp only: take_all order_refl) blast
qed

text \<open>C34: What the accelerator reads is what was asked: after a fresh submission of a generation
  request, the published file decodes to the boundary token (the last of the context), the token
  budget and the stop sequences of the call, and its flags say blank state exactly when the
  context has a single token.\<close>

theorem published_request_decodes:
  assumes "submit_generate canonical h model q d prefix context max_new stops metadata = (ops, Inr handle)"
    and "ops \<noteq> []" and "i32_range (last context)"
  shows "\<exists>payload. contents (exec ops d) (ready_file q (request_id handle)) = Some payload \<and>
    parse_request payload = Inr \<lparr>rq_version = REQUEST_VERSION, rq_mode = MODE_GENERATE,
      rq_flags = (if length context = 1 then FLAG_BLANK_STATE else 0), rq_boundary_token = last context,
      rq_rows = StopSequences stops, rq_max_new_tokens = Some max_new\<rparr>"
proof -
  from assms(1) obtain req rid md where e: "encode_generate_request (last context) max_new stops False = Inr req"
    and s: "submit h model q d rid context req md = (ops, Inr handle)"
    by (auto simp: submit_generate_def split: if_splits sum.splits)
  from submit_ok [OF s assms(2)] obtain pre blank flagged where
    p: "producer_export h model context (state_file q rid) (metadata_file q rid) md = (pre, Inr blank)"
    and f: "patch_flags req blank = Inr flagged"
    and ops: "ops = pre @ atomic_write (h_pid h) (ready_file q rid) flagged"
    by blast
  have blank: "blank \<longleftrightarrow> length context = 1" using producer_export_ok [OF p] by blast
  have "request_id handle = rid"
    using s assms(2) by (auto simp: submit_def handle_of_def Let_def split: if_splits sum.splits prod.splits)
  then have "contents (exec ops d) (ready_file q (request_id handle)) = Some flagged"
    by (simp add: ops exec_append atomic_write_complete)
  moreover have "encode_generate_request (last context) max_new stops blank = Inr flagged"
    using e f by (auto simp: encode_generate_Inr_iff patch_flags_bytes)
  ultimately show ?thesis
    using encode_generate_parse [OF _ assms(3)] blank by auto
qed

theorem published_request_decodes_witness:
  "\<exists>ops handle payload. submit_generate (\<lambda>_. []) example_host example_gpu example_queue empty_disk ''task'' [5] 16 [[3]] ()
      = (ops, Inr handle) \<and>
    contents (exec ops empty_disk) (ready_file example_queue (request_id handle)) = Some payload \<and>
    parse_request payload = Inr \<lparr>rq_version = REQUEST_VERSION, rq_mode = MODE_GENERATE,
      rq_flags = FLAG_BLANK_STATE, rq_boundary_token = 5, rq_rows = StopSequences [[3]], rq_max_new_tokens = Some 16\<rparr>"
proof -
  obtain req where e: "encode_generate_request 5 16 [[3]] False = Inr req"
    using encode_generate_Inr_iff [of 5 16 "[[3]]" False] by (simp add: i32_range_def)
  obtain flagged where f: "patch_flags req True = Inr flagged"
    using e by (auto simp: encode_generate_Inr_iff patch_flags_bytes)
  have "\<exists>ops handle. submit_generate (\<lambda>_. []) example_host example_gpu example_queue empty_disk ''task'' [5] 16 [[3]] ()
      = (ops, Inr handle) \<and> ops \<noteq> []"
    using e f by (simp add: submit_generate_def submit_def empty_disk_def producer_export_def token_sha256_def
        pack_i32 i32_range_def Let_def atomic_write_def)
  then obtain ops handle where r: "submit_generate (\<lambda>_. []) example_host example_gpu example_queue empty_disk ''task'' [5] 16 [[3]] ()
      = (ops, Inr handle)" and ne: "ops \<noteq> []" by blast
  show ?thesis
    using r published_request_decodes [OF r ne] by (simp add: i32_range_def)
qed

text \<open>C35: The wait ends: once the clock reaches the deadline at some poll, \<open>wait\<close> returns, and what
  it returns is decided by the first poll that is late or finds a result or error file: the result
  if its identifier matches, a runtime error for a mismatch or an error file, and the timeout
  otherwise; a result present at that poll wins over an error file.\<close>

theorem wait_returns:
  assumes "clock 0 + timeout \<le> clock n" and "1 \<le> n"
  shows "\<exists>m \<ge> 1. m \<le> n \<and>
    (\<forall>i. 1 \<le> i \<and> i < m \<longrightarrow> clock i < clock 0 + timeout \<and> contents (view i) (result_path handle) = None \<and>
       contents (view i) (error_path handle) = None) \<and>
    wait result_id error_json clock view timeout handle = Some
      (if clock m < clock 0 + timeout
       then (case contents (view m) (result_path handle) of
               Some text \<Rightarrow> rbind (result_id text) (\<lambda>rid.
                 if rid \<noteq> Some (request_id handle) then Inl RuntimeError else Inr text)
             | None \<Rightarrow> rbind (error_json (the (contents (view m) (error_path handle)))) (\<lambda>_. Inl RuntimeError))
       else Inl TimeoutError)"
proof -
  define stops where "stops = (\<lambda>i. \<not> (clock i < clock 0 + timeout \<and>
    contents (view i) (result_path handle) = None \<and> contents (view i) (error_path handle) = None))"
  have "stops n" using assms(1) by (auto simp: stops_def)
  define m where "m = (LEAST i. 1 \<le> i \<and> stops i)"
  have m: "1 \<le> m" "stops m" "m \<le> n"
    using LeastI [of "\<lambda>i. 1 \<le> i \<and> stops i" n] Least_le [of "\<lambda>i. 1 \<le> i \<and> stops i" n] assms(2) \<open>stops n\<close>
    by (auto simp: m_def)
  have before: "\<not> stops i" if "1 \<le> i" "i < m" for i
    using not_less_Least [of i "\<lambda>i. 1 \<le> i \<and> stops i"] that by (auto simp: m_def)
  let ?w = "wait_from result_id error_json clock view (clock 0 + timeout) handle"
  have eq: "?w i = ?w m" if "1 \<le> i" "i \<le> m" for i
    using that(2,1)
  proof (induction rule: inc_induct)
    case base
    then show ?case by simp
  next
    case (step i)
    then show ?case
      using before [of i] by (subst wait_from.simps) (simp add: stops_def)
  qed
  have "wait result_id error_json clock view timeout handle = ?w m"
    unfolding wait_def by (rule eq [OF order_refl m(1)])
  also have "\<dots> = Some (if clock m < clock 0 + timeout
       then (case contents (view m) (result_path handle) of
               Some text \<Rightarrow> rbind (result_id text) (\<lambda>rid.
                 if rid \<noteq> Some (request_id handle) then Inl RuntimeError else Inr text)
             | None \<Rightarrow> rbind (error_json (the (contents (view m) (error_path handle)))) (\<lambda>_. Inl RuntimeError))
       else Inl TimeoutError)"
    using m(2) wait_from.simps [of result_id error_json clock view "clock 0 + timeout" handle m]
    by (cases "contents (view m) (result_path handle)"; cases "contents (view m) (error_path handle)")
       (simp_all add: stops_def)
  finally show ?thesis
    using m before by (auto simp: stops_def)
qed

theorem wait_returns_witness:
  "wait (\<lambda>_. Inr None) (\<lambda>_. Inr ()) of_nat (\<lambda>_. empty_disk) 2 (handle_of example_queue ''r'') \<noteq> None"
  using wait_returns [of of_nat 2 3 "\<lambda>_. empty_disk" "handle_of example_queue ''r''" "\<lambda>_. Inr None" "\<lambda>_. Inr ()"]
  by auto

text \<open>Request identifiers are safe file names: with a hexadecimal digest of at least 32 digits,
  the identifier has between 34 and 81 characters, all of them letters, digits, \<open>-\<close> or \<open>_\<close>, so
  no prefix can name another directory or a hidden file.\<close>

theorem request_id_is_safe:
  assumes "\<And>b. 32 \<le> length (sha256 b) \<and> set (sha256 b) \<subseteq> set ''0123456789abcdef''"
  shows "set (stable_request_id sha256 canonical prefix payload) \<subseteq> {c. is_alnum c} \<union> {CHR ''-'', CHR ''_''} \<and>
    34 \<le> length (stable_request_id sha256 canonical prefix payload) \<and>
    length (stable_request_id sha256 canonical prefix payload) \<le> 81"
proof -
  let ?m = "map (\<lambda>c. if is_alnum c \<or> c \<in> set ''-_'' then c else CHR ''-'') prefix"
  let ?safe = "take 48 (strip_char (CHR ''-'') ?m)"
  have sub: "set (strip_char c s) \<subseteq> set s" for c s
    by (auto simp: strip_char_def dest!: set_dropWhileD)
  have "set ?m \<subseteq> {c. is_alnum c} \<union> {CHR ''-'', CHR ''_''}" by auto
  then have safe: "set ?safe \<subseteq> {c. is_alnum c} \<union> {CHR ''-'', CHR ''_''}"
    by (rule subset_trans [OF subset_trans [OF set_take_subset sub]])
  have alnum: "list_all is_alnum ''0123456789abcdef''" "list_all is_alnum ''request''"
    by code_simp+
  have hex: "set (take 32 (sha256 (canonical payload))) \<subseteq> {c. is_alnum c}"
  proof
    fix c assume "c \<in> set (take 32 (sha256 (canonical payload)))"
    then have "c \<in> set ''0123456789abcdef''" using assms by (meson in_set_takeD subset_eq)
    then show "c \<in> {c. is_alnum c}" using alnum(1) unfolding list_all_iff by blast
  qed
  have dig: "length (take 32 (sha256 (canonical payload))) = 32" using assms by simp
  have req: "set ''request'' \<subseteq> {c. is_alnum c}" using alnum(2) unfolding list_all_iff by blast
  show ?thesis
  proof (cases "?safe = []")
    case True
    then have "stable_request_id sha256 canonical prefix payload = ''request'' @ ''-'' @ take 32 (sha256 (canonical payload))"
      unfolding stable_request_id_def Let_def by (simp only: if_True refl simp_thms)
    then show ?thesis using hex req dig by (simp only: set_append length_append) auto
  next
    case False
    moreover have "length ?safe \<le> 48" "1 \<le> length ?safe" using False by (simp, cases ?safe) auto
    ultimately show ?thesis
      using hex dig safe unfolding stable_request_id_def Let_def by (simp only: if_False set_append length_append) auto
  qed
qed

theorem request_id_is_safe_witness:
  "CHR ''/'' \<notin> set (stable_request_id (\<lambda>_. replicate 64 CHR ''a'') (\<lambda>_. []) ''../task'' ())"
  using request_id_is_safe [of "\<lambda>_. replicate 64 CHR ''a''" "\<lambda>_. []" "''../task''" "()"]
  by (auto simp: is_alnum_def)

end
