(* ===== verification/Fixtures.thy ===== *)
theory Fixtures
  imports RequestProtocol PyStrings Complex_Main
begin

text \<open>
  The \<open>GDNREQ1\<close> request fixtures: the writers of \<open>scripts/export_gdn_c.py\<close> (decode prompts and
  rolling log-likelihood windows) and the readers of \<open>scripts/compare_gdn_c.py\<close> and
  \<open>scripts/prepare_steady_decode_fixture.py\<close>, with the greedy decode that fills in a fixture.

  The interface \<open>codec\<close> is what a pair of record writer and record reader promises; a
  sequence of records and a file follow from it once, for the three record formats.
\<close>

section \<open>Reading and writing fields\<close>

definition GDNREQ_MAGIC :: bytes where
  "GDNREQ_MAGIC = ascii (''GDNREQ1'' @ [CHR 0x00])"

definition REQ_KIND_LL :: int where "REQ_KIND_LL = 2"
definition REQ_KIND_ROLLING :: int where "REQ_KIND_ROLLING = 3"

definition write_u32 :: "int \<Rightarrow> bytes result" where
  "write_u32 v = pack_uint 4 v"

definition write_i32_array :: "int list \<Rightarrow> bytes result" where
  "write_i32_array vals = (if vals = [] then Inr [] else pack_i32_array vals)"

definition req_header :: "int \<Rightarrow> int \<Rightarrow> int \<Rightarrow> bytes result" where
  "req_header version kind num = rbind (pack_u32s [version, kind, num]) (\<lambda>h. Inr (GDNREQ_MAGIC @ h))"

definition read_u32 :: "bytes \<Rightarrow> nat \<Rightarrow> (int \<times> nat) result" where
  "read_u32 blob offset = rbind (unpack_uint_from 4 blob offset) (\<lambda>v. Inr (v, offset + 4))"

definition read_i32s :: "bytes \<Rightarrow> nat \<Rightarrow> nat \<Rightarrow> (int list \<times> nat) result" where
  "read_i32s blob offset count =
     (if count = 0 then Inr ([], offset)
      else rbind (unpack_i32_array_from blob offset count) (\<lambda>vals. Inr (vals, offset + count * 4)))"

text \<open>A loop that reads \<open>count\<close> records one after the other.\<close>

fun read_many :: "(bytes \<Rightarrow> nat \<Rightarrow> ('a \<times> nat) result) \<Rightarrow> nat \<Rightarrow> bytes \<Rightarrow> nat \<Rightarrow> ('a list \<times> nat) result" where
  "read_many rd 0 blob offset = Inr ([], offset)"
| "read_many rd (Suc count) blob offset =
     rbind (rd blob offset) (\<lambda>(x, offset).
     rbind (read_many rd count blob offset) (\<lambda>(xs, offset).
     Inr (x # xs, offset)))"

section \<open>The interface of a record format\<close>

locale codec =
  fixes enc :: "'a \<Rightarrow> bytes"
    and rd :: "bytes \<Rightarrow> nat \<Rightarrow> ('a \<times> nat) result"
    and ok :: "'a \<Rightarrow> bool"
  assumes rd_enc: "ok x \<Longrightarrow> length pre = offset \<Longrightarrow>
      rd (pre @ enc x @ post) offset = Inr (x, offset + length (enc x))"
    and rd_sound: "rd blob offset = Inr (x, e) \<Longrightarrow> offset \<le> length blob \<Longrightarrow>
      ok x \<and> offset \<le> e \<and> e \<le> length blob \<and> take (e - offset) (drop offset blob) = enc x"
begin

lemma rd_many_enc:
  assumes "\<forall>x \<in> set xs. ok x" "length pre = offset"
  shows "read_many rd (length xs) (pre @ concat (map enc xs) @ post) offset
    = Inr (xs, offset + length (concat (map enc xs)))"
  using assms
proof (induction xs arbitrary: pre offset)
  case Nil
  then show ?case by simp
next
  case (Cons x xs)
  have "rd (pre @ enc x @ concat (map enc xs) @ post) offset = Inr (x, offset + length (enc x))"
    using Cons.prems by (intro rd_enc) auto
  moreover have "read_many rd (length xs) ((pre @ enc x) @ concat (map enc xs) @ post) (offset + length (enc x))
      = Inr (xs, offset + length (enc x) + length (concat (map enc xs)))"
    using Cons.prems by (intro Cons.IH) auto
  ultimately show ?case by simp
qed

lemma rd_many_sound:
  assumes "read_many rd n blob offset = Inr (xs, e)" "offset \<le> length blob"
  shows "length xs = n \<and> (\<forall>x \<in> set xs. ok x) \<and> offset \<le> e \<and> e \<le> length blob \<and>
    take (e - offset) (drop offset blob) = concat (map enc xs)"
  using assms
proof (induction n arbitrary: offset xs)
  case 0
  then show ?case by simp
next
  case (Suc n)
  then obtain x mid ys where x: "rd blob offset = Inr (x, mid)" and ys: "read_many rd n blob mid = Inr (ys, e)"
    and xs: "xs = x # ys"
    by (auto simp: rbind_eq_Inr)
  note s = rd_sound [OF x Suc.prems(2)]
  from s have IH: "length ys = n \<and> (\<forall>x \<in> set ys. ok x) \<and> mid \<le> e \<and> e \<le> length blob \<and>
    take (e - mid) (drop mid blob) = concat (map enc ys)"
    using Suc.IH [OF ys] by blast
  have "take (e - offset) (drop offset blob) = take (mid - offset) (drop offset blob) @ take (e - mid) (drop mid blob)"
    using s IH by (intro slice_join) auto
  then show ?case using s IH by (simp add: xs)
qed

end

lemma read_u32_enc:
  "u32_range v \<Longrightarrow> length pre = offset \<Longrightarrow> read_u32 (pre @ le_bytes 4 v @ post) offset = Inr (v, offset + 4)"
  by (simp add: read_u32_def unpack_uint_at u32_range_def)

lemma read_u32_sound:
  assumes "read_u32 blob offset = Inr (v, e)"
  shows "u32_range v \<and> e = offset + 4 \<and> e \<le> length blob \<and> take 4 (drop offset blob) = le_bytes 4 v"
proof -
  have l: "offset + 4 \<le> length blob" "v = le_value (take 4 (drop offset blob))" "e = offset + 4"
    using assms by (auto simp: read_u32_def unpack_uint_from_def rbind_eq_Inr split: if_splits)
  then have "length (take 4 (drop offset blob)) = 4" by simp
  then show ?thesis
    using l u32_range_le_value [of "take 4 (drop offset blob)"] le_bytes_le_value [of "take 4 (drop offset blob)"] by simp
qed

lemma read_i32s_enc:
  "\<forall>v \<in> set vs. i32_range v \<Longrightarrow> length pre = offset \<Longrightarrow>
    read_i32s (pre @ concat (map (le_bytes 4) vs) @ post) offset (length vs) = Inr (vs, offset + length vs * 4)"
  by (auto simp: read_i32s_def unpack_i32_array_at)

lemma read_i32s_sound:
  assumes "read_i32s blob offset n = Inr (vs, e)" "offset \<le> length blob"
  shows "length vs = n \<and> (\<forall>v \<in> set vs. i32_range v) \<and> e = offset + 4 * n \<and> e \<le> length blob \<and>
    take (4 * n) (drop offset blob) = concat (map (le_bytes 4) vs)"
proof (cases "n = 0")
  case True
  then show ?thesis using assms by (auto simp: read_i32s_def)
next
  case False
  then have l: "offset + 4 * n \<le> length blob" "vs = i32_values n (drop offset blob)" "e = offset + 4 * n"
    using assms by (auto simp: read_i32s_def unpack_i32_array_from_def rbind_eq_Inr split: if_splits)
  then have "4 * n \<le> length (drop offset blob)" by simp
  then show ?thesis
    using l i32_values_range [of n "drop offset blob"] i32_values_bytes [of n "drop offset blob"] by auto
qed

section \<open>Examples: a context and a continuation\<close>

type_synonym example = "int list \<times> int list"

definition read_example :: "bytes \<Rightarrow> nat \<Rightarrow> (example \<times> nat) result" where
  "read_example blob offset =
     rbind (read_u32 blob offset) (\<lambda>(ctx_len, offset).
     rbind (read_u32 blob offset) (\<lambda>(cont_len, offset).
     rbind (read_i32s blob offset (nat ctx_len)) (\<lambda>(context, offset).
     rbind (read_i32s blob offset (nat cont_len)) (\<lambda>(continuation, offset).
     Inr ((context, continuation), offset)))))"

definition write_example :: "example \<Rightarrow> bytes result" where
  "write_example = (\<lambda>(ctx, cont).
     rbind (write_u32 (int (length ctx))) (\<lambda>a.
     rbind (write_u32 (int (length cont))) (\<lambda>b.
     rbind (write_i32_array ctx) (\<lambda>c.
     rbind (write_i32_array cont) (\<lambda>d. Inr (a @ b @ c @ d))))))"

definition example_bytes :: "example \<Rightarrow> bytes" where
  "example_bytes = (\<lambda>(ctx, cont). le_bytes 4 (int (length ctx)) @ le_bytes 4 (int (length cont)) @
     concat (map (le_bytes 4) ctx) @ concat (map (le_bytes 4) cont))"

definition example_ok :: "example \<Rightarrow> bool" where
  "example_ok = (\<lambda>(ctx, cont). u32_range (int (length ctx)) \<and> u32_range (int (length cont)) \<and>
     (\<forall>v \<in> set ctx. i32_range v) \<and> (\<forall>v \<in> set cont. i32_range v))"

lemma write_i32_array_Inr_iff:
  "write_i32_array vs = Inr bs \<longleftrightarrow> (\<forall>v \<in> set vs. i32_range v) \<and> bs = concat (map (le_bytes 4) vs)"
  by (auto simp: write_i32_array_def pack_i32_array_Inr_iff)

lemma write_u32_Inr_iff: "write_u32 v = Inr bs \<longleftrightarrow> u32_range v \<and> bs = le_bytes 4 v"
  by (auto simp: write_u32_def pack_uint_iff u32_range_def)

lemma write_example_Inr_iff: "write_example x = Inr bs \<longleftrightarrow> example_ok x \<and> bs = example_bytes x"
  by (cases x) (auto simp: write_example_def example_ok_def example_bytes_def rbind_eq_Inr
      write_i32_array_Inr_iff write_u32_Inr_iff)

interpretation ll: codec example_bytes read_example example_ok
proof unfold_locales
  fix x :: example and pre post :: bytes and offset
  obtain ctx cont where x: "x = (ctx, cont)" by (cases x)
  assume ok: "example_ok x" and pre: "length pre = offset"
  let ?a = "le_bytes 4 (int (length ctx))" and ?b = "le_bytes 4 (int (length cont))"
  let ?c = "concat (map (le_bytes 4) ctx)" and ?d = "concat (map (le_bytes 4) cont)"
  have "read_u32 (pre @ ?a @ ?b @ ?c @ ?d @ post) offset = Inr (int (length ctx), offset + 4)"
    using ok pre by (intro read_u32_enc) (auto simp: example_ok_def x)
  moreover have "read_u32 ((pre @ ?a) @ ?b @ ?c @ ?d @ post) (offset + 4) = Inr (int (length cont), offset + 4 + 4)"
    using ok pre by (intro read_u32_enc) (auto simp: example_ok_def x)
  moreover have "read_i32s ((pre @ ?a @ ?b) @ ?c @ ?d @ post) (offset + 4 + 4) (length ctx)
      = Inr (ctx, offset + 4 + 4 + length ctx * 4)"
    using ok pre by (intro read_i32s_enc) (auto simp: example_ok_def x)
  moreover have "read_i32s ((pre @ ?a @ ?b @ ?c) @ ?d @ post) (offset + 4 + 4 + length ctx * 4) (length cont)
      = Inr (cont, offset + 4 + 4 + length ctx * 4 + length cont * 4)"
    using ok pre by (intro read_i32s_enc) (auto simp: example_ok_def x)
  ultimately show "read_example (pre @ example_bytes x @ post) offset = Inr (x, offset + length (example_bytes x))"
    by (simp add: read_example_def example_bytes_def x)
next
  fix blob and offset e :: nat and x :: example
  assume r: "read_example blob offset = Inr (x, e)" and le: "offset \<le> length blob"
  obtain ctx cont where x: "x = (ctx, cont)" by (cases x)
  from r obtain la o1 lb o2 o3 where
    a: "read_u32 blob offset = Inr (la, o1)" and b: "read_u32 blob o1 = Inr (lb, o2)"
    and c: "read_i32s blob o2 (nat la) = Inr (ctx, o3)" and d: "read_i32s blob o3 (nat lb) = Inr (cont, e)"
    by (auto simp: read_example_def rbind_eq_Inr x)
  note sa = read_u32_sound [OF a] and sb = read_u32_sound [OF b]
  have o2: "o2 \<le> length blob" using sb by simp
  note sc = read_i32s_sound [OF c o2]
  have o3: "o3 \<le> length blob" using sc by simp
  note sd = read_i32s_sound [OF d o3]
  have la: "la = int (length ctx)" "lb = int (length cont)" using sa sb sc sd by (auto simp: u32_range_def)
  have o: "o1 - offset = 4" "o2 - o1 = 4" "o3 - o2 = 4 * nat la" "e - o3 = 4 * nat lb"
    "offset \<le> o1" "o1 \<le> o2" "o2 \<le> o3" "o3 \<le> e" "e \<le> length blob"
    using sa sb sc sd by simp_all
  have parts: "take 4 (drop offset blob) = le_bytes 4 la" "take 4 (drop o1 blob) = le_bytes 4 lb"
    "take (4 * nat la) (drop o2 blob) = concat (map (le_bytes 4) ctx)"
    "take (4 * nat lb) (drop o3 blob) = concat (map (le_bytes 4) cont)"
    using sa sb sc sd by blast+
  have "take (e - offset) (drop offset blob) = le_bytes 4 la @ le_bytes 4 lb
      @ concat (map (le_bytes 4) ctx) @ concat (map (le_bytes 4) cont)"
    using slice_join [of offset o1 e blob] slice_join [of o1 o2 e blob] slice_join [of o2 o3 e blob] o(5-8)
    by (simp only: o(1-4) parts order_trans [OF o(6) order_trans [OF o(7) o(8)]]
        order_trans [OF o(7) o(8)])
  then have cat: "take (e - offset) (drop offset blob) = example_bytes x"
    by (simp only: example_bytes_def x prod.case la)
  have "u32_range la" "u32_range lb" "\<forall>v \<in> set ctx. i32_range v" "\<forall>v \<in> set cont. i32_range v"
    using sa sb sc sd by blast+
  then have ok: "example_ok x" by (simp add: example_ok_def x la)
  show "example_ok x \<and> offset \<le> e \<and> e \<le> length blob \<and> take (e - offset) (drop offset blob) = example_bytes x"
    using ok cat order_trans [OF o(5) order_trans [OF o(6) order_trans [OF o(7) o(8)]]] o(9)
    by (intro conjI)
qed

section \<open>The fixture file\<close>

text \<open>\<open>REQ_HEADER.unpack_from(blob, 0)\<close> for the header \<open>"<8s3I"\<close> of 20 bytes.\<close>

definition unpack_req_header :: "bytes \<Rightarrow> (bytes \<times> int \<times> int \<times> int) result" where
  "unpack_req_header blob =
     (if length blob < 20 then Inl StructError
      else (let f = (\<lambda>i. le_value (take 4 (drop (8 + 4 * i) blob)))
            in Inr (take 8 blob, f 0, f 1, f 2)))"

definition load_fixture :: "bytes \<Rightarrow> (int \<times> example list) result" where
  "load_fixture blob =
     rbind (unpack_req_header blob) (\<lambda>(magic, version, kind, num_examples).
     if magic \<noteq> GDNREQ_MAGIC \<or> version \<noteq> 1 then Inl ValueError
     else if kind \<noteq> REQ_KIND_LL then Inl ValueError
     else rbind (read_many read_example (nat num_examples) blob 20) (\<lambda>(examples, offset).
       if offset \<noteq> length blob then Inl ValueError else Inr (kind, examples)))"

text \<open>The writer loop shared by \<open>export_decode_fixture\<close> and the rewrite in \<open>decode_golden\<close>.\<close>

definition write_fixture :: "int \<Rightarrow> example list \<Rightarrow> bytes result" where
  "write_fixture kind examples =
     rbind (req_header 1 kind (int (length examples))) (\<lambda>h.
     rbind (rmap write_example examples) (\<lambda>bs. Inr (h @ concat bs)))"

definition header_bytes :: "int \<Rightarrow> int \<Rightarrow> bytes" where
  "header_bytes kind num = GDNREQ_MAGIC @ le_bytes 4 1 @ le_bytes 4 kind @ le_bytes 4 num"

definition fixture_bytes :: "int \<Rightarrow> example list \<Rightarrow> bytes" where
  "fixture_bytes kind examples =
     header_bytes kind (int (length examples)) @ concat (map example_bytes examples)"

definition fixture_ok :: "example list \<Rightarrow> bool" where
  "fixture_ok examples \<longleftrightarrow> u32_range (int (length examples)) \<and> (\<forall>x \<in> set examples. example_ok x)"

lemma length_magic [simp]: "length GDNREQ_MAGIC = 8"
  by (simp add: GDNREQ_MAGIC_def)

lemma length_header_bytes [simp]: "length (header_bytes kind num) = 20"
  by (simp add: header_bytes_def)

lemma unpack_header_bytes:
  assumes "u32_range kind" "u32_range num"
  shows "unpack_req_header (header_bytes kind num @ rest) = Inr (GDNREQ_MAGIC, 1, kind, num)"
  using assms
  by (simp add: unpack_req_header_def header_bytes_def u32_value_le_bytes Let_def)
    (simp add: u32_value_le_bytes u32_range_def del: One_nat_def)

lemma unpack_header_Inr:
  assumes "unpack_req_header blob = Inr (GDNREQ_MAGIC, 1, kind, num)"
  shows "take 20 blob = header_bytes kind num" "u32_range kind" "u32_range num" "20 \<le> length blob"
proof -
  have l: "20 \<le> length blob" and m: "take 8 blob = GDNREQ_MAGIC"
    and v: "le_value (take 4 (drop 8 blob)) = 1" and k: "kind = le_value (take 4 (drop 12 blob))"
    and n: "num = le_value (take 4 (drop 16 blob))"
    using assms by (auto simp: unpack_req_header_def Let_def split: if_splits)
  have w: "le_bytes 4 (le_value (take 4 (drop i blob))) = take 4 (drop i blob)"
    "u32_range (le_value (take 4 (drop i blob)))" if "i + 4 \<le> 20" for i
  proof -
    have "length (take 4 (drop i blob)) = 4" using l that by simp
    then show "le_bytes 4 (le_value (take 4 (drop i blob))) = take 4 (drop i blob)"
      "u32_range (le_value (take 4 (drop i blob)))"
      using le_bytes_le_value [of "take 4 (drop i blob)"] u32_range_le_value by simp_all
  qed
  have "take 20 blob = take 8 blob @ take 4 (drop 8 blob) @ take 4 (drop 12 blob) @ take 4 (drop 16 blob)"
    using take_add [of 8 12 blob] take_add [of 4 8 "drop 8 blob"] take_add [of 4 4 "drop 12 blob"] by simp
  then show "take 20 blob = header_bytes kind num"
    using m v k n w [of 8] w [of 12] w [of 16] by (simp add: header_bytes_def)
  show "u32_range kind" "u32_range num" using k n w by simp_all
  show "20 \<le> length blob" by (rule l)
qed

lemma req_header_Inr_iff:
  "req_header 1 kind num = Inr h \<longleftrightarrow> u32_range kind \<and> u32_range num \<and> h = header_bytes kind num"
  by (auto simp: req_header_def rbind_eq_Inr pack_u32s_Inr_iff header_bytes_def u32_range_def)

lemma rmap_write_Inr_iff:
  assumes "\<And>x bs. wr x = Inr bs \<longleftrightarrow> ok x \<and> bs = enc x"
  shows "rmap wr xs = Inr bs \<longleftrightarrow> (\<forall>x \<in> set xs. ok x) \<and> bs = map enc xs"
  by (induction xs arbitrary: bs) (auto simp: assms rbind_eq_Inr)

lemma write_fixture_Inr_iff:
  "u32_range kind \<Longrightarrow> write_fixture kind xs = Inr bs \<longleftrightarrow> fixture_ok xs \<and> bs = fixture_bytes kind xs"
  by (auto simp: write_fixture_def rbind_eq_Inr req_header_Inr_iff fixture_ok_def fixture_bytes_def
      rmap_write_Inr_iff [OF write_example_Inr_iff])

lemma load_fixture_bytes:
  assumes "fixture_ok xs"
  shows "load_fixture (fixture_bytes REQ_KIND_LL xs) = Inr (REQ_KIND_LL, xs)"
proof -
  have k: "u32_range REQ_KIND_LL" by (simp add: REQ_KIND_LL_def u32_range_def)
  have h: "unpack_req_header (fixture_bytes REQ_KIND_LL xs)
      = Inr (GDNREQ_MAGIC, 1, REQ_KIND_LL, int (length xs))"
    using unpack_header_bytes [OF k] assms by (simp add: fixture_bytes_def fixture_ok_def)
  have "read_many read_example (length xs) (header_bytes REQ_KIND_LL (int (length xs))
      @ concat (map example_bytes xs) @ []) 20 = Inr (xs, 20 + length (concat (map example_bytes xs)))"
    using assms by (intro ll.rd_many_enc) (auto simp: fixture_ok_def)
  then have r: "read_many read_example (length xs) (fixture_bytes REQ_KIND_LL xs) 20
      = Inr (xs, length (fixture_bytes REQ_KIND_LL xs))"
    by (simp add: fixture_bytes_def)
  show ?thesis by (simp add: load_fixture_def h r)
qed

lemma load_fixture_sound:
  assumes "load_fixture blob = Inr (kind, xs)"
  shows "kind = REQ_KIND_LL \<and> fixture_ok xs \<and> blob = fixture_bytes REQ_KIND_LL xs"
proof -
  obtain num where h: "unpack_req_header blob = Inr (GDNREQ_MAGIC, 1, REQ_KIND_LL, num)"
    and r: "read_many read_example (nat num) blob 20 = Inr (xs, length blob)" and k: "kind = REQ_KIND_LL"
    using assms by (auto simp: load_fixture_def rbind_eq_Inr split: if_splits)
  note u = unpack_header_Inr [OF h]
  have s: "length xs = nat num \<and> (\<forall>x \<in> set xs. example_ok x) \<and>
      take (length blob - 20) (drop 20 blob) = concat (map example_bytes xs)"
    using ll.rd_many_sound [OF r u(4)] by blast
  have n: "num = int (length xs)" using s u(3) by (simp add: u32_range_def)
  have "blob = take 20 blob @ drop 20 blob" by simp
  also have "\<dots> = fixture_bytes REQ_KIND_LL xs"
    using s u(1) by (simp add: fixture_bytes_def n)
  finally show ?thesis using s u(3) k by (simp add: fixture_ok_def n)
qed

section \<open>The decode fixture\<close>

definition DECODE_PROMPTS :: "string list" where
  "DECODE_PROMPTS =
    [''The history of the Roman Empire is a story of ambition, conquest, and the slow transformation of a small city into a vast'',
     ''In the early morning the fishermen pushed their boats out onto the calm water, hoping that the day would bring a good'',
     ''Scientists have long wondered how migrating birds manage to find their way across thousands of miles of open ocean without'',
     ''She opened the old wooden chest in the attic and found a bundle of letters tied with a faded ribbon, each one written'',
     ''The recipe calls for fresh tomatoes, a handful of basil, two cloves of garlic, and a generous drizzle of olive'',
     ''When the spacecraft finally entered orbit around the distant planet, the engineers in the control room held their breath and'',
     ''Learning to play the piano takes patience and daily practice, but the reward of playing a beautiful piece of music is'',
     ''The detective studied the room carefully, noting the overturned chair, the broken glass, and the single muddy footprint near the'',
     ''Across the rolling hills the farmers worked from dawn until dusk, gathering the golden wheat before the autumn rains could'',
     ''A good teacher does more than share facts; she inspires curiosity, encourages questions, and helps each student discover the joy of'',
     ''The river wound slowly through the green valley, past sleepy villages and ancient stone bridges that had stood for many'',
     ''After years of careful research the team finally announced that they had discovered a new species of butterfly living deep within the'']"

text \<open>\<open>encode\<close> stands for the tokenizer.\<close>

definition with_prefix :: "int \<Rightarrow> int list \<Rightarrow> int list" where
  "with_prefix prefix_token_id prompt_ids =
     (if prompt_ids = [] \<or> prompt_ids ! 0 \<noteq> prefix_token_id then [prefix_token_id] @ prompt_ids
      else prompt_ids)"

definition build_decode_records :: "(string \<Rightarrow> int list) \<Rightarrow> int \<Rightarrow> int option \<Rightarrow> int list list" where
  "build_decode_records encode prefix_token_id limit =
     (let prompts = (case limit of None \<Rightarrow> DECODE_PROMPTS | Some n \<Rightarrow> py_slice DECODE_PROMPTS 0 n)
      in map (\<lambda>text. with_prefix prefix_token_id (encode text)) prompts)"

definition write_decode_record :: "int \<Rightarrow> int list \<Rightarrow> int list \<Rightarrow> bytes result" where
  "write_decode_record decode_len placeholder prompt_ids =
     rbind (write_u32 (int (length prompt_ids))) (\<lambda>a.
     rbind (write_u32 decode_len) (\<lambda>b.
     rbind (write_i32_array prompt_ids) (\<lambda>c.
     rbind (write_i32_array placeholder) (\<lambda>d. Inr (a @ b @ c @ d)))))"

definition export_decode_fixture :: "(string \<Rightarrow> int list) \<Rightarrow> int \<Rightarrow> int \<Rightarrow> int option \<Rightarrow> bytes result" where
  "export_decode_fixture encode prefix_token_id decode_len limit =
     (let records = build_decode_records encode prefix_token_id limit;
          placeholder = replicate (nat decode_len) prefix_token_id
      in rbind (req_header 1 REQ_KIND_LL (int (length records))) (\<lambda>h.
         rbind (rmap (write_decode_record decode_len placeholder) records) (\<lambda>bs.
         Inr (h @ concat bs))))"

lemma write_decode_record_example:
  assumes "write_decode_record decode_len (replicate (nat decode_len) p) ids = Inr bs"
  shows "write_example (ids, replicate (nat decode_len) p) = Inr bs"
proof -
  have "u32_range decode_len"
    using assms by (auto simp: write_decode_record_def rbind_eq_Inr write_u32_Inr_iff)
  then have "int (nat decode_len) = decode_len" by (simp add: u32_range_def)
  then show ?thesis using assms by (simp add: write_decode_record_def write_example_def)
qed

lemma rmap_mono_Inr:
  assumes "\<And>x y. x \<in> set xs \<Longrightarrow> f x = Inr y \<Longrightarrow> g (h x) = Inr y" and "rmap f xs = Inr ys"
  shows "rmap g (map h xs) = Inr ys"
  using assms by (induction xs arbitrary: ys) (auto simp: rbind_eq_Inr)

lemma export_decode_fixture_is:
  assumes "export_decode_fixture encode prefix decode_len limit = Inr bs"
  defines "xs \<equiv> map (\<lambda>ids. (ids, replicate (nat decode_len) prefix)) (build_decode_records encode prefix limit)"
  shows "fixture_ok xs \<and> bs = fixture_bytes REQ_KIND_LL xs"
proof -
  obtain h cs where h: "req_header 1 REQ_KIND_LL (int (length xs)) = Inr h"
    and c: "rmap (write_decode_record decode_len (replicate (nat decode_len) prefix))
      (build_decode_records encode prefix limit) = Inr cs" and bs: "bs = h @ concat cs"
    using assms by (auto simp: export_decode_fixture_def rbind_eq_Inr Let_def)
  have "rmap write_example xs = Inr cs"
    unfolding xs_def by (rule rmap_mono_Inr [OF _ c]) (rule write_decode_record_example)
  then have "write_fixture REQ_KIND_LL xs = Inr bs"
    by (simp add: write_fixture_def h bs)
  moreover have "u32_range REQ_KIND_LL" by (simp add: REQ_KIND_LL_def u32_range_def)
  ultimately show ?thesis by (simp add: write_fixture_Inr_iff)
qed

section \<open>Greedy decoding of the golden trajectory\<close>

text \<open>\<open>torch.argmax\<close> returns the first index of the maximum.\<close>

fun argmax :: "real list \<Rightarrow> nat" where
  "argmax [] = 0"
| "argmax (x # xs) = (if xs = [] \<or> xs ! argmax xs \<le> x then 0 else Suc (argmax xs))"

definition logsumexp :: "real list \<Rightarrow> real" where
  "logsumexp xs = ln (\<Sum>x\<leftarrow>xs. exp x)"

text \<open>
  \<open>model prefix\<close> stands for \<open>model(input_ids=...).logits[0, -1].float()\<close>, the logits of the last
  position of a full forward pass.
\<close>

type_synonym lm = "int list \<Rightarrow> real list result"

fun decode_trajectory :: "lm \<Rightarrow> int list \<Rightarrow> nat \<Rightarrow> (int list \<times> real list) result" where
  "decode_trajectory model prefix 0 = Inr ([], [])"
| "decode_trajectory model prefix (Suc n) =
     rbind (model prefix) (\<lambda>logits.
     if logits = [] then Inl IndexError
     else (let nxt = argmax logits; lp = logits ! nxt - logsumexp logits
           in rbind (decode_trajectory model (prefix @ [int nxt]) n) (\<lambda>(golden_traj, per_step_logprob).
              Inr (int nxt # golden_traj, lp # per_step_logprob))))"

record golden_example =
  ge_index :: nat
  ge_prompt_ids :: "int list"
  ge_golden_traj :: "int list"
  ge_per_step_argmax :: "int list"
  ge_per_step_logprob :: "real list"

record golden_result =
  gr_kind :: int
  gr_decode_len :: nat
  gr_num_examples :: nat
  gr_examples :: "golden_example list"

definition same_len :: "nat option \<Rightarrow> nat \<Rightarrow> nat result" where
  "same_len decode_len n =
     (case decode_len of None \<Rightarrow> Inr n | Some d \<Rightarrow> if n \<noteq> d then Inl ValueError else Inr d)"

fun golden_loop :: "lm \<Rightarrow> nat \<Rightarrow> nat option \<Rightarrow> example list
    \<Rightarrow> (nat option \<times> golden_example list \<times> example list) result" where
  "golden_loop model index decode_len [] = Inr (decode_len, [], [])"
| "golden_loop model index decode_len ((prompt_ids, continuation) # examples) =
     rbind (same_len decode_len (length continuation)) (\<lambda>d.
     rbind (decode_trajectory model prompt_ids (length continuation)) (\<lambda>(golden_traj, per_step_logprob).
     rbind (golden_loop model (Suc index) (Some d) examples) (\<lambda>(decode_len, out_examples, rewritten).
     Inr (decode_len,
          \<lparr>ge_index = index, ge_prompt_ids = prompt_ids, ge_golden_traj = golden_traj,
           ge_per_step_argmax = golden_traj, ge_per_step_logprob = per_step_logprob\<rparr> # out_examples,
          (prompt_ids, golden_traj) # rewritten))))"

text \<open>The JSON result and the rewritten fixture.\<close>

definition decode_golden :: "lm \<Rightarrow> bytes \<Rightarrow> (golden_result \<times> bytes) result" where
  "decode_golden model fixture =
     rbind (load_fixture fixture) (\<lambda>(kind, examples).
     if kind \<noteq> REQ_KIND_LL then Inl ValueError
     else rbind (golden_loop model 0 None examples) (\<lambda>(decode_len, out_examples, rewritten).
       rbind (write_fixture REQ_KIND_LL rewritten) (\<lambda>bs.
       Inr (\<lparr>gr_kind = REQ_KIND_LL, gr_decode_len = (case decode_len of None \<Rightarrow> 0 | Some n \<Rightarrow> n),
             gr_num_examples = length out_examples, gr_examples = out_examples\<rparr>, bs))))"

lemma argmax_max:
  "xs \<noteq> [] \<Longrightarrow> argmax xs < length xs \<and> (\<forall>j < length xs. xs ! j \<le> xs ! argmax xs) \<and>
    (\<forall>j < argmax xs. xs ! j < xs ! argmax xs)"
proof (induction xs)
  case Nil
  then show ?case by simp
next
  case (Cons x xs)
  show ?case
  proof (cases "xs = []")
    case True
    then show ?thesis by simp
  next
    case False
    note IH = Cons.IH [OF False]
    show ?thesis
    proof (cases "xs ! argmax xs \<le> x")
      case True
      then show ?thesis using IH by (auto simp: nth_Cons split: nat.splits intro: order_trans)
    next
      case less: False
      then show ?thesis using IH False by (auto simp: nth_Cons split: nat.splits)
    qed
  qed
qed

lemma decode_trajectory_lengths:
  "decode_trajectory model prefix n = Inr (traj, lps) \<Longrightarrow> length traj = n \<and> length lps = n"
  by (induction n arbitrary: prefix traj lps) (auto simp: rbind_eq_Inr Let_def split: if_splits)

lemma decode_trajectory_step:
  assumes "decode_trajectory model prefix n = Inr (traj, lps)" "i < n"
  shows "\<exists>logits. model (prefix @ take i traj) = Inr logits \<and> logits \<noteq> [] \<and>
    traj ! i = int (argmax logits) \<and> lps ! i = logits ! argmax logits - logsumexp logits"
  using assms
proof (induction n arbitrary: prefix traj lps i)
  case 0
  then show ?case by simp
next
  case (Suc n)
  then obtain logits rest rlps where l: "model prefix = Inr logits" "logits \<noteq> []"
    and rec: "decode_trajectory model (prefix @ [int (argmax logits)]) n = Inr (rest, rlps)"
    and traj: "traj = int (argmax logits) # rest"
    and lps: "lps = (logits ! argmax logits - logsumexp logits) # rlps"
    by (auto simp: rbind_eq_Inr Let_def split: if_splits)
  show ?case
  proof (cases i)
    case 0
    then show ?thesis using l by (simp add: traj lps)
  next
    case (Suc j)
    then show ?thesis using Suc.IH [OF rec, of j] Suc.prems(2) by (simp add: traj lps)
  qed
qed

lemma decode_trajectory_prefix:
  assumes "decode_trajectory model prefix n = Inr (traj, lps)" "k \<le> n"
  shows "decode_trajectory model prefix k = Inr (take k traj, take k lps)"
  using assms
proof (induction n arbitrary: prefix traj lps k)
  case 0
  then show ?case by simp
next
  case (Suc n)
  show ?case
  proof (cases k)
    case 0
    then show ?thesis by simp
  next
    case (Suc j)
    then show ?thesis using Suc.prems Suc.IH [of _ _ _ j]
      by (auto simp: rbind_eq_Inr Let_def split: if_splits)
  qed
qed

lemma golden_loop_result:
  assumes "golden_loop model i dl xs = Inr (dl', out, rewritten)"
  shows "rewritten = map (\<lambda>e. (ge_prompt_ids e, ge_golden_traj e)) out \<and>
    map fst rewritten = map fst xs \<and> golden_loop model i dl rewritten = Inr (dl', out, rewritten) \<and>
    (\<forall>e \<in> set out. dl' = Some (length (ge_golden_traj e)) \<and>
      decode_trajectory model (ge_prompt_ids e) (length (ge_golden_traj e))
        = Inr (ge_golden_traj e, ge_per_step_logprob e)) \<and>
    (dl \<noteq> None \<longrightarrow> dl' = dl)"
  using assms
proof (induction xs arbitrary: i dl dl' out rewritten)
  case Nil
  then show ?case by auto
next
  case (Cons x xs)
  obtain ctx cont where x: "x = (ctx, cont)" by (cases x)
  from Cons.prems obtain d traj lps out' rew' where d: "same_len dl (length cont) = Inr d"
    and t: "decode_trajectory model ctx (length cont) = Inr (traj, lps)"
    and g: "golden_loop model (Suc i) (Some d) xs = Inr (dl', out', rew')"
    and o: "out = \<lparr>ge_index = i, ge_prompt_ids = ctx, ge_golden_traj = traj,
           ge_per_step_argmax = traj, ge_per_step_logprob = lps\<rparr> # out'" "rewritten = (ctx, traj) # rew'"
    by (auto simp: x rbind_eq_Inr)
  have dn: "d = length cont" "dl \<noteq> None \<longrightarrow> dl = Some d"
    using d by (auto simp: same_len_def split: option.splits if_splits)
  have l: "length traj = length cont" using decode_trajectory_lengths [OF t] by simp
  show ?case using Cons.IH [OF g] d t dn l by (auto simp: x o)
qed

text \<open>Regenerating the golden result is idempotent: \<open>decode_golden\<close> rewrites the fixture in place
  with the greedy trajectories, and running it again on the rewritten file gives the same JSON
  result and leaves the file byte for byte as it is.  The rewritten file is a valid fixture
  that holds the unchanged prompts and the trajectories.\<close>

theorem decode_golden_idempotent:
  assumes "decode_golden model fixture = Inr (golden, rewritten)"
  shows "decode_golden model rewritten = Inr (golden, rewritten) \<and> load_fixture rewritten =
      Inr (REQ_KIND_LL, map (\<lambda>e. (ge_prompt_ids e, ge_golden_traj e)) (gr_examples golden))"
proof -
  obtain xs dl out rew where ld: "load_fixture fixture = Inr (REQ_KIND_LL, xs)"
    and g: "golden_loop model 0 None xs = Inr (dl, out, rew)"
    and w: "write_fixture REQ_KIND_LL rew = Inr rewritten"
    and gold: "golden = \<lparr>gr_kind = REQ_KIND_LL, gr_decode_len = (case dl of None \<Rightarrow> 0 | Some n \<Rightarrow> n),
             gr_num_examples = length out, gr_examples = out\<rparr>"
    using assms by (auto simp: decode_golden_def rbind_eq_Inr split: if_splits)
  have "fixture_ok rew" "rewritten = fixture_bytes REQ_KIND_LL rew"
    using w write_fixture_Inr_iff [of REQ_KIND_LL rew rewritten]
    by (simp_all add: REQ_KIND_LL_def u32_range_def)
  then have re: "load_fixture rewritten = Inr (REQ_KIND_LL, rew)"
    by (simp add: load_fixture_bytes)
  note r = golden_loop_result [OF g]
  then have again: "golden_loop model 0 None rew = Inr (dl, out, rew)"
    and rew: "rew = map (\<lambda>e. (ge_prompt_ids e, ge_golden_traj e)) out" by blast+
  have "decode_golden model rewritten = Inr (golden, rewritten)"
    by (simp add: decode_golden_def re gold again w)
  then show ?thesis using re by (simp add: gold rew)
qed

text \<open>C36: The golden trajectory is the greedy decode: every example has \<open>decode_len\<close> tokens, and each
  token is the first index of a maximal logit of the full forward pass over the prompt followed
  by the tokens before it.\<close>

theorem golden_is_greedy:
  assumes "decode_golden model fixture = Inr (golden, rewritten)"
    and "e \<in> set (gr_examples golden)" and "i < gr_decode_len golden"
  shows "length (ge_golden_traj e) = gr_decode_len golden \<and>
    (\<exists>logits k. model (ge_prompt_ids e @ take i (ge_golden_traj e)) = Inr logits \<and> k < length logits \<and>
      ge_golden_traj e ! i = int k \<and> (\<forall>j < length logits. logits ! j \<le> logits ! k) \<and>
      (\<forall>j < k. logits ! j < logits ! k))"
proof -
  obtain xs dl out rew where g: "golden_loop model 0 None xs = Inr (dl, out, rew)"
    and gold: "golden = \<lparr>gr_kind = REQ_KIND_LL, gr_decode_len = (case dl of None \<Rightarrow> 0 | Some n \<Rightarrow> n),
             gr_num_examples = length out, gr_examples = out\<rparr>"
    using assms(1) by (auto simp: decode_golden_def rbind_eq_Inr split: if_splits)
  have e: "dl = Some (length (ge_golden_traj e))"
    and t: "decode_trajectory model (ge_prompt_ids e) (length (ge_golden_traj e))
      = Inr (ge_golden_traj e, ge_per_step_logprob e)"
    using golden_loop_result [OF g] assms(2) by (auto simp: gold)
  have n: "gr_decode_len golden = length (ge_golden_traj e)" by (simp add: gold e)
  show ?thesis
    using decode_trajectory_step [OF t, of i] argmax_max assms(3) by (auto simp: n)
qed

text \<open>A concrete run: one prompt, two tokens, a model whose second logit is the larger.\<close>

definition demo_model :: lm where
  "demo_model prefix = Inr [0, 1]"

definition demo_fixture :: bytes where
  "demo_fixture = fixture_bytes REQ_KIND_LL [([7], [7, 7])]"

lemma load_demo: "load_fixture demo_fixture = Inr (REQ_KIND_LL, [([7], [7, 7])])"
  unfolding demo_fixture_def
  by (rule load_fixture_bytes) (simp add: fixture_ok_def example_ok_def u32_range_def i32_range_def)

lemma golden_demo:
  "\<exists>golden rewritten. decode_golden demo_model demo_fixture = Inr (golden, rewritten) \<and>
    gr_decode_len golden = 2 \<and> (\<exists>e. e \<in> set (gr_examples golden) \<and> ge_golden_traj e = [1, 1])"
proof -
  have two: "length [7, 7::int] = Suc (Suc 0)" by simp
  have "write_fixture REQ_KIND_LL [([7], [1, 1])] = Inr (fixture_bytes REQ_KIND_LL [([7], [1, 1])])"
    using write_fixture_Inr_iff [of REQ_KIND_LL "[([7], [1, 1])]"]
    by (simp add: REQ_KIND_LL_def fixture_ok_def example_ok_def u32_range_def i32_range_def)
  then show ?thesis
    by (simp add: decode_golden_def load_demo demo_model_def same_len_def Let_def del: One_nat_def)
qed

theorem decode_golden_idempotent_witness:
  "\<exists>golden rewritten. decode_golden demo_model demo_fixture = Inr (golden, rewritten) \<and>
    decode_golden demo_model rewritten = Inr (golden, rewritten)"
  using golden_demo decode_golden_idempotent [of demo_model demo_fixture] by blast

theorem golden_is_greedy_witness:
  "\<exists>golden rewritten e. decode_golden demo_model demo_fixture = Inr (golden, rewritten) \<and>
    e \<in> set (gr_examples golden) \<and> (\<exists>logits. demo_model (ge_prompt_ids e @ take 1 (ge_golden_traj e)) = Inr logits)"
proof -
  obtain golden rewritten e where r: "decode_golden demo_model demo_fixture = Inr (golden, rewritten)"
    and n: "gr_decode_len golden = 2" and e: "e \<in> set (gr_examples golden)"
    using golden_demo by blast
  have "1 < gr_decode_len golden" using n by simp
  then show ?thesis using r e golden_is_greedy [OF r e, of 1] by blast
qed

text \<open>The decode fixture written by \<open>export_decode_fixture\<close> is read back by \<open>load_fixture\<close>: one
  example per prompt, in order, whose context starts with the prefix token and whose
  continuation is the placeholder of \<open>decode_len\<close> prefix tokens.\<close>

theorem decode_fixture_roundtrip:
  assumes "export_decode_fixture encode prefix decode_len limit = Inr bs"
  shows "load_fixture bs = Inr (REQ_KIND_LL,
      map (\<lambda>ids. (ids, replicate (nat decode_len) prefix)) (build_decode_records encode prefix limit)) \<and>
    (\<forall>ids \<in> set (build_decode_records encode prefix limit). ids \<noteq> [] \<and> ids ! 0 = prefix)"
proof -
  have "\<forall>ids \<in> set (build_decode_records encode prefix limit). ids \<noteq> [] \<and> ids ! 0 = prefix"
    by (auto simp: build_decode_records_def with_prefix_def Let_def)
  then show ?thesis using export_decode_fixture_is [OF assms] load_fixture_bytes by simp
qed

theorem decode_fixture_roundtrip_witness:
  "\<exists>bs. export_decode_fixture (\<lambda>text. [int (length text)]) 1 2 (Some 1) = Inr bs \<and>
    load_fixture bs = Inr (REQ_KIND_LL, [([1, 121], [1, 1])])"
proof -
  let ?enc = "\<lambda>text::string. [int (length text)]"
  have r: "build_decode_records ?enc 1 (Some 1) = [[1, 121]]"
    by (simp add: build_decode_records_def DECODE_PROMPTS_def py_slice_def slice_bound_def with_prefix_def)
  have "\<exists>bs. export_decode_fixture ?enc 1 2 (Some 1) = Inr bs"
    by (auto simp: export_decode_fixture_def r Let_def rbind_eq_Inr req_header_Inr_iff write_decode_record_def
        write_u32_Inr_iff write_i32_array_Inr_iff u32_range_def i32_range_def REQ_KIND_LL_def)
  then obtain bs where bs: "export_decode_fixture ?enc 1 2 (Some 1) = Inr bs" by blast
  then show ?thesis
    using decode_fixture_roundtrip [OF bs] by (simp add: r numeral_2_eq_2)
qed

text \<open>\<open>load_fixture\<close> accepts exactly the canonical files: a file loads with the examples \<open>xs\<close> if and
  only if it is the header and the records of \<open>xs\<close>, with every length and token in its field's
  range, and nothing after them.\<close>

theorem load_fixture_canonical:
  "load_fixture blob = Inr (kind, xs) \<longleftrightarrow>
    kind = REQ_KIND_LL \<and> fixture_ok xs \<and> blob = fixture_bytes REQ_KIND_LL xs"
  using load_fixture_sound load_fixture_bytes by blast

end
