(* ===== verification/RollingWindows.thy ===== *)
theory RollingWindows
  imports Fixtures "HOL-Library.Sublist"
begin

text \<open>
  Rolling log-likelihood windows: \<open>build_rolling_windows\<close> and the WikiText writer of
  \<open>scripts/export_gdn_c.py\<close>, the reader and the scorer of \<open>scripts/score_wikitext_fixture_gpu.py\<close>,
  and the token stream of \<open>scripts/prepare_steady_decode_fixture.py\<close>.

  The windowing loop runs forever for some arguments, so it is a \<open>partial_function\<close>: \<open>None\<close> is
  a loop that does not return.
\<close>

section \<open>Windows\<close>

partial_function (option) rolling_loop :: "int list \<Rightarrow> int \<Rightarrow> int \<Rightarrow> int \<Rightarrow> int \<Rightarrow> example list \<Rightarrow> example list option" where
  "rolling_loop tokens prefix_token_id max_seq_len pred_len predicted windows =
     (if predicted < int (length tokens)
      then (let window_pred_len = min (int (length tokens) - predicted) pred_len;
                window_end = predicted + window_pred_len;
                raw_ctx = py_slice tokens (window_end - max_seq_len - 1) (window_end - 1);
                cont = py_slice tokens (window_end - window_pred_len) window_end;
                ctx = py_slice raw_ctx 0 (int (length raw_ctx) - (int (length cont) - 1));
                ctx = (if ctx = [] then [prefix_token_id] else ctx)
            in rolling_loop tokens prefix_token_id max_seq_len pred_len
                 (predicted + window_pred_len) (windows @ [(ctx, cont)]))
      else Some windows)"

definition build_rolling_windows :: "int list \<Rightarrow> int \<Rightarrow> int \<Rightarrow> example list option" where
  "build_rolling_windows tokens prefix_token_id max_seq_len =
     (if tokens = [] then Some []
      else (let pred_len = max_seq_len;
                first_seq_len = min max_seq_len (int (length tokens))
            in rolling_loop tokens prefix_token_id max_seq_len pred_len first_seq_len
                 [([prefix_token_id], py_slice tokens 0 first_seq_len)]))"

text \<open>
  What a list of windows promises when the tokens of \<open>hist\<close> have been scored already: each window
  continues where the one before ended, its context is the tokens immediately before it, and
  context and continuation fit the model.
\<close>

fun windows_ok :: "int \<Rightarrow> int \<Rightarrow> int list \<Rightarrow> example list \<Rightarrow> bool" where
  "windows_ok pfx m hist [] = True"
| "windows_ok pfx m hist ((ctx, cont) # ws) \<longleftrightarrow>
     ctx \<noteq> [] \<and> cont \<noteq> [] \<and> suffix ctx (pfx # hist) \<and> int (length ctx + length cont) \<le> m + 1 \<and>
     windows_ok pfx m (hist @ cont) ws"

lemma windows_ok_append:
  "windows_ok pfx m hist (ws @ vs) \<longleftrightarrow>
    windows_ok pfx m hist ws \<and> windows_ok pfx m (hist @ concat (map snd ws)) vs"
  by (induction ws arbitrary: hist) auto

lemma rolling_loop_step:
  assumes k: "0 < k" "k \<le> q" and q: "q < length tokens"
  defines "n \<equiv> min (length tokens - q) k"
  defines "cont \<equiv> take n (drop q tokens)" and "ctx \<equiv> take (k + 1 - n) (drop (q + n - k - 1) tokens)"
  shows "rolling_loop tokens pfx (int k) (int k) (int q) ws
      = rolling_loop tokens pfx (int k) (int k) (int (q + n)) (ws @ [(ctx, cont)])"
    and "0 < n" "length cont = n" "q + n \<le> length tokens" "take q tokens @ cont = take (q + n) tokens"
    and "length ctx = k + 1 - n" "n \<le> k" "suffix ctx (pfx # take q tokens)"
proof -
  let ?s = "q + n - k - 1"
  show n: "0 < n" "q + n \<le> length tokens" "n \<le> k" using k q by (auto simp: n_def)
  have s: "?s + (k + 1 - n) = q" using k n by simp
  show lcont: "length cont = n" using n by (simp add: cont_def)
  show lctx: "length ctx = k + 1 - n" using n s q by (simp add: ctx_def)
  show "take q tokens @ cont = take (q + n) tokens" by (simp add: cont_def take_add)
  have "take q tokens = take ?s tokens @ ctx"
    unfolding ctx_def using s take_add [of ?s "k + 1 - n" tokens] by simp
  then show "suffix ctx (pfx # take q tokens)" by (intro suffix_ConsI) (simp add: suffix_def)
  have w: "min (int (length tokens) - int q) (int k) = int n" using q by (simp add: n_def)
  have cont: "py_slice tokens (int q + int n - int n) (int q + int n) = cont"
    by (simp add: py_slice_nonneg cont_def nat_int_add)
  let ?raw = "take k (drop ?s tokens)"
  have raw: "py_slice tokens (int q + int n - int k - 1) (int q + int n - 1) = ?raw"
  proof -
    have "py_slice tokens (int ?s) (int (q + n - 1)) = take (q + n - 1 - ?s) (drop ?s tokens)"
      by (simp only: py_slice_nonneg of_nat_0_le_iff nat_int)
    moreover have "int ?s = int q + int n - int k - 1" "int (q + n - 1) = int q + int n - 1" "q + n - 1 - ?s = k"
      using k n by auto
    ultimately show ?thesis by (simp only:)
  qed
  have lraw: "length ?raw = k" using n s k by simp
  have "py_slice ?raw 0 (int (k + 1 - n)) = take (k + 1 - n) ?raw"
    by (simp only: py_slice_nonneg of_nat_0_le_iff order_refl nat_int nat_0 diff_zero drop_0)
  moreover have "int (length ?raw) - (int (length cont) - 1) = int (k + 1 - n)" using n lraw lcont by simp
  moreover have "take (k + 1 - n) ?raw = ctx" using n by (simp add: ctx_def min_def)
  ultimately have ctx: "py_slice ?raw 0 (int (length ?raw) - (int (length cont) - 1)) = ctx" by simp
  have ne: "ctx \<noteq> []" using lctx n by auto
  show "rolling_loop tokens pfx (int k) (int k) (int q) ws
      = rolling_loop tokens pfx (int k) (int k) (int (q + n)) (ws @ [(ctx, cont)])"
    using q by (subst rolling_loop.simps)
      (simp only: Let_def w cont raw ctx ne of_nat_less_iff if_True if_False of_nat_add)
qed

lemma rolling_loop_windows:
  assumes "0 < k" "k \<le> q" "q \<le> length tokens"
  shows "\<exists>ws'. rolling_loop tokens pfx (int k) (int k) (int q) ws = Some (ws @ ws') \<and>
    take q tokens @ concat (map snd ws') = tokens \<and> windows_ok pfx (int k) (take q tokens) ws'"
  using assms
proof (induction "length tokens - q" arbitrary: q ws rule: less_induct)
  case less
  show ?case
  proof (cases "q < length tokens")
    case False
    then have "q = length tokens" using less.prems by simp
    then show ?thesis by (subst rolling_loop.simps) simp
  next
    case True
    define n where "n = min (length tokens - q) k"
    define cont where "cont = take n (drop q tokens)"
    define ctx where "ctx = take (k + 1 - n) (drop (q + n - k - 1) tokens)"
    note step = rolling_loop_step [OF less.prems(1,2) True, folded n_def, folded cont_def ctx_def]
    have "length tokens - (q + n) < length tokens - q" "k \<le> q + n" using step(2,4) less.prems by auto
    then obtain ws' where ws':
      "rolling_loop tokens pfx (int k) (int k) (int (q + n)) (ws @ [(ctx, cont)]) = Some ((ws @ [(ctx, cont)]) @ ws')"
      "take (q + n) tokens @ concat (map snd ws') = tokens" "windows_ok pfx (int k) (take (q + n) tokens) ws'"
      using less.hyps [of "q + n" "ws @ [(ctx, cont)]"] less.prems(1) step(4) by blast
    have "ctx \<noteq> []" "cont \<noteq> []" "int (length ctx + length cont) \<le> int k + 1"
      using step(2,3,6,7) by auto
    moreover have "take q tokens @ cont @ concat (map snd ws') = tokens"
      using step(5) ws'(2) by (metis append_assoc)
    ultimately show ?thesis
      using step(1,5,8) ws' by (intro exI [of _ "(ctx, cont) # ws'"]) simp
  qed
qed

lemma build_rolling_windows_ok:
  assumes "0 < m"
  shows "\<exists>ws. build_rolling_windows tokens pfx m = Some ws \<and> concat (map snd ws) = tokens \<and>
    windows_ok pfx m [] ws"
proof (cases "tokens = []")
  case True
  then show ?thesis by (simp add: build_rolling_windows_def)
next
  case False
  define k where "k = nat m"
  have m: "m = int k" "0 < k" using assms by (auto simp: k_def)
  let ?f = "min k (length tokens)"
  let ?first = "([pfx], take ?f tokens)"
  have "py_slice tokens 0 (int ?f) = take ?f tokens"
    by (simp only: py_slice_nonneg of_nat_0_le_iff order_refl nat_int nat_0 diff_zero drop_0)
  moreover have "min m (int (length tokens)) = int ?f" by (simp add: m)
  ultimately have b: "build_rolling_windows tokens pfx m = rolling_loop tokens pfx (int k) (int k) (int ?f) [?first]"
    using False unfolding build_rolling_windows_def Let_def by (simp only: m if_False)
  have ne: "take ?f tokens \<noteq> []" using m False by simp
  have first: "windows_ok pfx m [] [?first]"
    using ne m by (simp add: suffix_def)
  show ?thesis
  proof (cases "k \<le> length tokens")
    case True
    then obtain ws' where ws': "rolling_loop tokens pfx (int k) (int k) (int k) [?first] = Some ([?first] @ ws')"
      "take k tokens @ concat (map snd ws') = tokens" "windows_ok pfx (int k) (take k tokens) ws'"
      using rolling_loop_windows [OF m(2) order_refl True] by blast
    have "windows_ok pfx m [] ([?first] @ ws')"
      using first ws'(3) True by (simp only: windows_ok_append m) simp
    then show ?thesis using b ws'(1,2) True by (intro exI [of _ "[?first] @ ws'"]) simp
  next
    case False
    then have "rolling_loop tokens pfx (int k) (int k) (int ?f) [?first] = Some [?first]"
      by (subst rolling_loop.simps) simp
    then show ?thesis using b first False by (intro exI [of _ "[?first]"]) simp
  qed
qed

text \<open>A window length that is not positive makes the loop run forever.\<close>

lemma rolling_loop_diverges:
  assumes "rolling_loop tokens pfx m pred_len p ws = Some r" "pred_len \<le> 0" "p < int (length tokens)"
  shows False
proof -
  have "pred_len \<le> 0 \<longrightarrow> \<not> p < int (length tokens)"
    by (rule rolling_loop.raw_induct [where P = "\<lambda>tokens pfx m pred_len p ws r. pred_len \<le> 0 \<longrightarrow> \<not> p < int (length tokens)",
          OF _ assms(1)]) (fastforce simp: Let_def split: if_splits)
  then show ?thesis using assms by blast
qed

section \<open>Documents\<close>

text \<open>A text is its list of Unicode code points.\<close>

type_synonym unicode = "nat list"

text \<open>What \<open>\s\<close> matches in a Python string pattern.\<close>

definition is_space :: "nat \<Rightarrow> bool" where
  "is_space c \<longleftrightarrow> (9 \<le> c \<and> c \<le> 13) \<or> (28 \<le> c \<and> c \<le> 32) \<or> c = 0x85 \<or> c = 0xA0 \<or> c = 0x1680 \<or>
     (0x2000 \<le> c \<and> c \<le> 0x200A) \<or> c = 0x2028 \<or> c = 0x2029 \<or> c = 0x202F \<or> c = 0x205F \<or> c = 0x3000"

text \<open>\<open>len(re.split(r"\s+", text))\<close>: one more than the number of maximal runs of white space.\<close>

fun space_runs :: "bool \<Rightarrow> unicode \<Rightarrow> nat" where
  "space_runs inside [] = 0"
| "space_runs inside (c # cs) =
     (if is_space c then (if inside then 0 else 1) + space_runs True cs else space_runs False cs)"

definition word_count_of :: "unicode \<Rightarrow> nat" where
  "word_count_of raw_text = Suc (space_runs False raw_text)"

text \<open>\<open>len(text.encode("utf-8"))\<close>; a surrogate raises \<open>UnicodeEncodeError\<close>, a \<open>ValueError\<close>.\<close>

definition utf8_size :: "nat \<Rightarrow> nat result" where
  "utf8_size c =
     (if 0xD800 \<le> c \<and> c \<le> 0xDFFF then Inl ValueError
      else Inr (if c < 0x80 then 1 else if c < 0x800 then 2 else if c < 0x10000 then 3 else 4))"

definition byte_count_of :: "unicode \<Rightarrow> nat result" where
  "byte_count_of raw_text = rbind (rmap utf8_size raw_text) (\<lambda>ns. Inr (sum_list ns))"

record document =
  word_count :: int
  byte_count :: int
  windows :: "example list"

text \<open>
  The record loop of \<open>export_rolling_fixture\<close>.  \<open>encode\<close> stands for the detokenizer followed by the
  tokenizer.
\<close>

fun rolling_records :: "(unicode \<Rightarrow> int list) \<Rightarrow> int \<Rightarrow> int \<Rightarrow> int option \<Rightarrow> int \<Rightarrow> unicode list \<Rightarrow> document list
    \<Rightarrow> document list result option" where
  "rolling_records encode prefix_token_id max_seq_len limit min_chars [] records = Some (Inr records)"
| "rolling_records encode prefix_token_id max_seq_len limit min_chars (raw_text # dataset) records =
     (if int (length raw_text) < min_chars
      then rolling_records encode prefix_token_id max_seq_len limit min_chars dataset records
      else (case build_rolling_windows (encode raw_text) prefix_token_id max_seq_len of
              None \<Rightarrow> None
            | Some [] \<Rightarrow> rolling_records encode prefix_token_id max_seq_len limit min_chars dataset records
            | Some ws \<Rightarrow>
                (case byte_count_of raw_text of
                   Inl e \<Rightarrow> Some (Inl e)
                 | Inr n \<Rightarrow>
                     (let records = records @ [\<lparr>word_count = int (word_count_of raw_text), byte_count = int n,
                                               windows = ws\<rparr>]
                      in if (case limit of None \<Rightarrow> False | Some k \<Rightarrow> k \<le> int (length records))
                         then Some (Inr records)
                         else rolling_records encode prefix_token_id max_seq_len limit min_chars dataset records))))"

definition write_document :: "document \<Rightarrow> bytes result" where
  "write_document d =
     rbind (write_u32 (word_count d)) (\<lambda>a.
     rbind (write_u32 (byte_count d)) (\<lambda>b.
     rbind (write_u32 (int (length (windows d)))) (\<lambda>c.
     rbind (rmap write_example (windows d)) (\<lambda>ws. Inr (a @ b @ c @ concat ws)))))"

definition write_documents :: "document list \<Rightarrow> bytes result" where
  "write_documents records =
     rbind (req_header 1 REQ_KIND_ROLLING (int (length records))) (\<lambda>h.
     rbind (rmap write_document records) (\<lambda>bs. Inr (h @ concat bs)))"

text \<open>\<open>eos\<close> and \<open>bos\<close> are the tokenizer's special tokens.\<close>

definition export_rolling_fixture :: "(unicode \<Rightarrow> int list) \<Rightarrow> int option \<Rightarrow> int option \<Rightarrow> unicode list
    \<Rightarrow> int \<Rightarrow> int option \<Rightarrow> int \<Rightarrow> bytes result option" where
  "export_rolling_fixture encode eos bos dataset max_seq_len limit min_chars =
     (case (if eos \<noteq> None then eos else bos) of
        None \<Rightarrow> Some (Inl ValueError)
      | Some prefix_token_id \<Rightarrow>
          map_option (\<lambda>r. rbind r write_documents)
            (rolling_records encode prefix_token_id max_seq_len limit min_chars dataset []))"

section \<open>Reading documents\<close>

definition read_window :: "bytes \<Rightarrow> nat \<Rightarrow> (example \<times> nat) result" where
  "read_window blob offset =
     rbind (unpack_u32s_from blob offset 2) (\<lambda>lens.
     let ctx_len = nat (lens ! 0); cont_len = nat (lens ! 1); offset = offset + 8 in
     rbind (unpack_i32_array_from blob offset ctx_len) (\<lambda>ctx.
     let offset = offset + 4 * ctx_len in
     rbind (unpack_i32_array_from blob offset cont_len) (\<lambda>cont.
     Inr ((ctx, cont), offset + 4 * cont_len))))"

definition read_document :: "bytes \<Rightarrow> nat \<Rightarrow> (document \<times> nat) result" where
  "read_document blob offset =
     rbind (unpack_u32s_from blob offset 3) (\<lambda>h.
     rbind (read_many read_window (nat (h ! 2)) blob (offset + 12)) (\<lambda>(ws, offset).
     Inr (\<lparr>word_count = h ! 0, byte_count = h ! 1, windows = ws\<rparr>, offset)))"

definition read_fixture :: "bytes \<Rightarrow> document list result" where
  "read_fixture blob =
     rbind (unpack_req_header blob) (\<lambda>(magic, version, kind, num_examples).
     if magic \<noteq> GDNREQ_MAGIC then Inl SystemExit
     else if version \<noteq> 1 \<or> kind \<noteq> REQ_KIND_ROLLING then Inl SystemExit
     else rbind (read_many read_document (nat num_examples) blob 20) (\<lambda>(documents, offset). Inr documents))"

text \<open>\<open>fixture_tokens\<close> of \<open>prepare_steady_decode_fixture.py\<close> concatenates contexts and continuations.\<close>

fun token_windows :: "nat \<Rightarrow> bytes \<Rightarrow> nat \<Rightarrow> int list \<Rightarrow> (int list \<times> nat) result" where
  "token_windows 0 blob offset tokens = Inr (tokens, offset)"
| "token_windows (Suc n) blob offset tokens =
     rbind (read_window blob offset) (\<lambda>((ctx, continuation), offset).
     token_windows n blob offset ((tokens @ ctx) @ continuation))"

fun token_documents :: "nat \<Rightarrow> bytes \<Rightarrow> nat \<Rightarrow> int list \<Rightarrow> (int list \<times> nat) result" where
  "token_documents 0 blob offset tokens = Inr (tokens, offset)"
| "token_documents (Suc n) blob offset tokens =
     rbind (unpack_u32s_from blob offset 3) (\<lambda>h.
     rbind (token_windows (nat (h ! 2)) blob (offset + 12) tokens) (\<lambda>(tokens, offset).
     token_documents n blob offset tokens))"

definition fixture_tokens :: "bytes \<Rightarrow> int list result" where
  "fixture_tokens blob =
     rbind (unpack_req_header blob) (\<lambda>(magic, version, kind, documents).
     if magic \<noteq> GDNREQ_MAGIC \<or> version \<noteq> 1 \<or> kind \<noteq> 3 then Inl ValueError
     else rbind (token_documents (nat documents) blob 20 []) (\<lambda>(tokens, offset).
       if offset \<noteq> length blob then Inl ValueError else Inr tokens))"

text \<open>The split into prompt, teacher stream and accelerator stream in \<open>main\<close>.\<close>

definition steady_streams :: "int \<Rightarrow> int \<Rightarrow> bytes \<Rightarrow> (int list \<times> int list \<times> int list) result" where
  "steady_streams prompt_length teacher_length blob =
     (if prompt_length \<le> 1 \<or> teacher_length \<le> 0 then Inl ValueError
      else rbind (fixture_tokens blob) (\<lambda>tokens.
        let required = prompt_length + teacher_length in
        if int (length tokens) < required then Inl ValueError
        else let prompt = py_slice tokens 0 prompt_length;
                 teacher = py_slice tokens prompt_length required
             in Inr (prompt, teacher, last prompt # teacher)))"

section \<open>The document format is a codec\<close>

lemma read_window_eq: "read_window blob offset = read_example blob offset"
proof (cases "offset + 8 \<le> length blob")
  case True
  have u: "unpack_u32s_from blob offset 2
      = Inr [le_value (take 4 (drop offset blob)), le_value (take 4 (drop (offset + 4) blob))]"
    using True by (simp add: unpack_u32s_from_def numeral_2_eq_2 add.commute)
  show ?thesis
    using True by (auto simp: read_window_def read_example_def u Let_def read_u32_def unpack_uint_from_def
        read_i32s_def unpack_i32_array_from_def rbind_if mult.commute add.assoc)
next
  case False
  then show ?thesis
    by (auto simp: read_window_def read_example_def unpack_u32s_from_def read_u32_def unpack_uint_from_def)
qed

definition document_bytes :: "document \<Rightarrow> bytes" where
  "document_bytes d = le_bytes 4 (word_count d) @ le_bytes 4 (byte_count d) @ le_bytes 4 (int (length (windows d))) @
     concat (map example_bytes (windows d))"

definition document_ok :: "document \<Rightarrow> bool" where
  "document_ok d \<longleftrightarrow> u32_range (word_count d) \<and> u32_range (byte_count d) \<and> fixture_ok (windows d)"

lemma read_many_window: "read_many read_window n blob offset = read_many read_example n blob offset"
  by (induction n arbitrary: offset) (simp_all add: read_window_eq rbind_def split: sum.splits)

lemma three_fields: "length h = 3 \<Longrightarrow> h = [h ! 0, h ! 1, h ! 2]"
  by (auto simp: length_Suc_conv eval_nat_numeral)

interpretation dl: codec document_bytes read_document document_ok
proof unfold_locales
  fix d :: document and pre post :: bytes and offset
  assume ok: "document_ok d" and pre: "length pre = offset"
  let ?h = "[word_count d, byte_count d, int (length (windows d))]"
  let ?hb = "concat (map (le_bytes 4) ?h)" and ?w = "concat (map example_bytes (windows d))"
  have h: "unpack_u32s_from (pre @ ?hb @ ?w @ post) offset 3 = Inr ?h"
    using ok pre by (intro unpack_u32s_at) (auto simp: document_ok_def fixture_ok_def)
  have w: "read_many read_window (length (windows d)) ((pre @ ?hb) @ ?w @ post) (offset + 12)
      = Inr (windows d, offset + 12 + length ?w)"
    unfolding read_many_window using ok pre by (intro ll.rd_many_enc) (auto simp: document_ok_def fixture_ok_def)
  have b: "document_bytes d = ?hb @ ?w" by (simp add: document_bytes_def)
  show "read_document (pre @ document_bytes d @ post) offset = Inr (d, offset + length (document_bytes d))"
    using h w by (simp add: read_document_def b)
next
  fix blob and offset e :: nat and d :: document
  assume r: "read_document blob offset = Inr (d, e)" and le: "offset \<le> length blob"
  obtain h where h: "unpack_u32s_from blob offset 3 = Inr h"
    and w: "read_many read_example (nat (h ! 2)) blob (offset + 12) = Inr (windows d, e)"
    and d: "word_count d = h ! 0" "byte_count d = h ! 1"
    using r by (auto simp: read_document_def rbind_eq_Inr read_many_window)
  have l: "offset + 12 \<le> length blob" and hv: "h = u32_values 3 (drop offset blob)"
    using h by (auto simp: unpack_u32s_from_def split: if_splits)
  have hl: "length h = 3" by (simp add: hv)
  have hr: "\<forall>v \<in> set h. u32_range v" and hb: "concat (map (le_bytes 4) h) = take 12 (drop offset blob)"
    using u32_values_range [of 3 "drop offset blob"] u32_values_bytes [of 3 "drop offset blob"] l
    by (auto simp: hv)
  note s = ll.rd_many_sound [OF w l]
  have mem: "u32_range (h ! 0)" "u32_range (h ! 1)" "u32_range (h ! 2)" using hr hl by auto
  have n: "h ! 2 = int (length (windows d))" using s mem(3) by (simp add: u32_range_def)
  have "\<forall>x \<in> set (windows d). example_ok x" using s by blast
  then have ok: "document_ok d" using mem n d by (simp add: document_ok_def fixture_ok_def)
  have "concat (map (le_bytes 4) h) = le_bytes 4 (h ! 0) @ le_bytes 4 (h ! 1) @ le_bytes 4 (h ! 2)"
    by (subst three_fields [OF hl]) simp
  then have db: "document_bytes d = take 12 (drop offset blob) @ concat (map example_bytes (windows d))"
    by (simp add: document_bytes_def d n flip: hb)
  have e: "offset \<le> offset + 12" "offset + 12 \<le> e" "e \<le> length blob" using s by (simp, blast+)
  have ws: "take (e - (offset + 12)) (drop (offset + 12) blob) = concat (map example_bytes (windows d))"
    using s by blast
  have "take (e - offset) (drop offset blob) = document_bytes d"
    unfolding slice_join [OF e(1,2), of blob] ws db by simp
  then show "document_ok d \<and> offset \<le> e \<and> e \<le> length blob \<and> take (e - offset) (drop offset blob) = document_bytes d"
    using ok e(3) order_trans [OF e(1,2)] by (intro conjI)
qed

definition rolling_bytes :: "document list \<Rightarrow> bytes" where
  "rolling_bytes docs = header_bytes REQ_KIND_ROLLING (int (length docs)) @ concat (map document_bytes docs)"

lemma u32_kind: "u32_range REQ_KIND_ROLLING"
  by (simp add: REQ_KIND_ROLLING_def u32_range_def)

lemma write_document_Inr_iff: "write_document d = Inr bs \<longleftrightarrow> document_ok d \<and> bs = document_bytes d"
  by (auto simp: write_document_def document_ok_def document_bytes_def fixture_ok_def rbind_eq_Inr
      write_u32_Inr_iff rmap_write_Inr_iff [OF write_example_Inr_iff])

lemma write_documents_Inr_iff:
  "write_documents docs = Inr bs \<longleftrightarrow>
    u32_range (int (length docs)) \<and> (\<forall>d \<in> set docs. document_ok d) \<and> bs = rolling_bytes docs"
  by (auto simp: write_documents_def rbind_eq_Inr req_header_Inr_iff u32_kind rolling_bytes_def
      rmap_write_Inr_iff [OF write_document_Inr_iff])

definition doc_stream :: "document \<Rightarrow> int list" where
  "doc_stream d = concat (map (\<lambda>(ctx, cont). ctx @ cont) (windows d))"

lemma token_windows_eq:
  "token_windows n blob offset tokens =
    rbind (read_many read_window n blob offset) (\<lambda>(ws, e). Inr (tokens @ concat (map (\<lambda>(c, d). c @ d) ws), e))"
  by (induction n arbitrary: offset tokens) (auto simp: rbind_def split: sum.splits)

lemma token_documents_eq:
  "token_documents n blob offset tokens =
    rbind (read_many read_document n blob offset) (\<lambda>(ds, e). Inr (tokens @ concat (map doc_stream ds), e))"
  by (induction n arbitrary: offset tokens)
    (auto simp: rbind_def read_document_def token_windows_eq doc_stream_def split: sum.splits)

lemma read_rolling_bytes:
  assumes "u32_range (int (length docs))" "\<forall>d \<in> set docs. document_ok d"
  shows "read_fixture (rolling_bytes docs) = Inr docs"
    and "fixture_tokens (rolling_bytes docs) = Inr (concat (map doc_stream docs))"
proof -
  have h: "unpack_req_header (rolling_bytes docs) = Inr (GDNREQ_MAGIC, 1, REQ_KIND_ROLLING, int (length docs))"
    using unpack_header_bytes [OF u32_kind assms(1)] by (simp add: rolling_bytes_def)
  have "read_many read_document (length docs) (header_bytes REQ_KIND_ROLLING (int (length docs)) @
      concat (map document_bytes docs) @ []) 20 = Inr (docs, 20 + length (concat (map document_bytes docs)))"
    using assms by (intro dl.rd_many_enc) auto
  then have r: "read_many read_document (length docs) (rolling_bytes docs) 20 = Inr (docs, length (rolling_bytes docs))"
    by (simp add: rolling_bytes_def)
  show "read_fixture (rolling_bytes docs) = Inr docs" by (simp add: read_fixture_def h r)
  show "fixture_tokens (rolling_bytes docs) = Inr (concat (map doc_stream docs))"
    by (simp add: fixture_tokens_def h r token_documents_eq REQ_KIND_ROLLING_def)
qed

text \<open>What the record loop keeps of the data set.\<close>

definition record_of :: "(unicode \<Rightarrow> int list) \<Rightarrow> int \<Rightarrow> int \<Rightarrow> unicode \<Rightarrow> document \<Rightarrow> bool" where
  "record_of encode pfx m raw d \<longleftrightarrow>
     word_count d = int (word_count_of raw) \<and> (\<exists>n. byte_count_of raw = Inr n \<and> byte_count d = int n) \<and>
     concat (map snd (windows d)) = encode raw \<and> windows_ok pfx m [] (windows d)"

lemma rolling_records_step:
  assumes "0 < m"
  shows "rolling_records encode pfx m limit k (raw # rows) recs =
      rolling_records encode pfx m limit k rows recs \<or>
    (\<exists>d. record_of encode pfx m raw d \<and> int (length raw) \<ge> k \<and> encode raw \<noteq> [] \<and>
      rolling_records encode pfx m limit k (raw # rows) recs \<in>
        {Some (Inr (recs @ [d])), rolling_records encode pfx m limit k rows (recs @ [d])}) \<or>
    rolling_records encode pfx m limit k (raw # rows) recs = Some (Inl ValueError)"
proof -
  obtain ws where ws: "build_rolling_windows (encode raw) pfx m = Some ws"
    "concat (map snd ws) = encode raw" "windows_ok pfx m [] ws"
    using build_rolling_windows_ok [OF assms] by blast
  show ?thesis
  proof (cases "int (length raw) < k \<or> ws = []")
    case True
    then show ?thesis using ws(1) by auto
  next
    case False
    then obtain w ws' where c: "ws = w # ws'" "\<not> int (length raw) < k" by (cases ws) auto
    have ne: "encode raw \<noteq> []" using ws(2,3) c(1) by (cases w) auto
    show ?thesis
    proof (cases "byte_count_of raw")
      case (Inl e)
      have "rmap utf8_size cs = Inl e \<Longrightarrow> e = ValueError" for cs
        by (induction cs) (auto simp: rbind_eq_Inl utf8_size_def split: if_splits)
      then have "e = ValueError" using Inl by (auto simp: byte_count_of_def rbind_eq_Inl)
      then show ?thesis using ws(1) c Inl by simp
    next
      case (Inr n)
      let ?d = "\<lparr>word_count = int (word_count_of raw), byte_count = int n, windows = ws\<rparr>"
      have "record_of encode pfx m raw ?d" using ws(2,3) Inr by (simp add: record_of_def)
      moreover have "rolling_records encode pfx m limit k (raw # rows) recs \<in>
        {Some (Inr (recs @ [?d])), rolling_records encode pfx m limit k rows (recs @ [?d])}"
        using ws(1) c Inr by (simp add: Let_def)
      ultimately show ?thesis using c ne by (simp only: not_less) blast
    qed
  qed
qed

lemma rolling_records_result:
  assumes "0 < m" "rolling_records encode pfx m limit k rows recs = Some (Inr docs)"
  shows "\<exists>new. docs = recs @ new \<and> (\<forall>d \<in> set new. \<exists>raw \<in> set rows. int (length raw) \<ge> k \<and>
    encode raw \<noteq> [] \<and> record_of encode pfx m raw d)"
  using assms(2)
proof (induction rows arbitrary: recs)
  case Nil
  then show ?case by simp
next
  case (Cons raw rows)
  from rolling_records_step [OF assms(1), of encode pfx limit k raw rows recs] consider
      (skip) "rolling_records encode pfx m limit k rows recs = Some (Inr docs)"
    | (last) d where "record_of encode pfx m raw d" "int (length raw) \<ge> k" "encode raw \<noteq> []" "docs = recs @ [d]"
    | (more) d where "record_of encode pfx m raw d" "int (length raw) \<ge> k" "encode raw \<noteq> []"
        "rolling_records encode pfx m limit k rows (recs @ [d]) = Some (Inr docs)"
    using Cons.prems by auto
  then show ?case
  proof cases
    case skip
    then show ?thesis using Cons.IH [OF skip] by auto
  next
    case last
    then show ?thesis by auto
  next
    case more
    obtain new where "docs = (recs @ [d]) @ new" "\<forall>d \<in> set new. \<exists>raw \<in> set rows. int (length raw) \<ge> k \<and>
      encode raw \<noteq> [] \<and> record_of encode pfx m raw d"
      using Cons.IH [OF more(4)] by blast
    then show ?thesis using more(1-3) by (intro exI [of _ "d # new"]) auto
  qed
qed

section \<open>Scoring\<close>

definition log_prob :: "real list \<Rightarrow> int \<Rightarrow> real" where
  "log_prob logits token = logits ! nat token - logsumexp logits"

text \<open>
  \<open>logits tokens\<close> stands for the FP32 logits of every position of one forward pass over \<open>tokens\<close>.
  \<open>gather\<close> needs a row for every target and an index inside the row.
\<close>

definition gather_targets :: "real list list \<Rightarrow> int list \<Rightarrow> real list result" where
  "gather_targets rows targets =
     (if length rows < length targets then Inl RuntimeError
      else rmap (\<lambda>(row, token). if 0 \<le> token \<and> token < int (length row) then Inr (log_prob row token)
                               else Inl RuntimeError) (zip rows targets))"

definition score_window :: "(int list \<Rightarrow> real list list) \<Rightarrow> example \<Rightarrow> real result" where
  "score_window logits = (\<lambda>(ctx, cont).
     (let first = int (length ctx) - 1;
          end = int (length ctx) + int (length cont) - 1
      in rbind (gather_targets (py_slice (logits (ctx @ cont)) first end) cont) (\<lambda>lps. Inr (sum_list lps))))"

record totals =
  total_logprob :: real
  total_words :: int
  total_bytes :: int
  scored_tokens :: nat
  windows_done :: nat

definition zero_totals :: totals where
  "zero_totals = \<lparr>total_logprob = 0, total_words = 0, total_bytes = 0, scored_tokens = 0, windows_done = 0\<rparr>"

definition score_step :: "(int list \<Rightarrow> real list list) \<Rightarrow> totals \<Rightarrow> example \<Rightarrow> totals result" where
  "score_step logits s w =
     rbind (score_window logits w) (\<lambda>lp.
     Inr (s\<lparr>total_logprob := total_logprob s + lp, scored_tokens := scored_tokens s + length (snd w),
            windows_done := windows_done s + 1\<rparr>))"

definition score_document :: "(int list \<Rightarrow> real list list) \<Rightarrow> totals \<Rightarrow> document \<Rightarrow> totals result" where
  "score_document logits s d =
     rbind (rfold (score_step logits) s (windows d)) (\<lambda>s.
     Inr (s\<lparr>total_words := total_words s + word_count d, total_bytes := total_bytes s + byte_count d\<rparr>))"

record perplexity =
  pp_totals :: totals
  word_perplexity :: real
  byte_perplexity :: real
  bits_per_byte :: real

definition score_fixture :: "(int list \<Rightarrow> real list list) \<Rightarrow> int \<Rightarrow> bytes \<Rightarrow> perplexity result" where
  "score_fixture logits doc_limit blob =
     rbind (read_fixture blob) (\<lambda>documents.
     let documents = (if doc_limit \<noteq> 0 then py_slice documents 0 doc_limit else documents) in
     rbind (rfold (score_document logits) zero_totals documents) (\<lambda>s.
     if total_words s = 0 \<or> total_bytes s = 0 then Inl ZeroDivisionError
     else Inr \<lparr>pp_totals = s,
               word_perplexity = exp (- total_logprob s / of_int (total_words s)),
               byte_perplexity = exp (- total_logprob s / of_int (total_bytes s)),
               bits_per_byte = - total_logprob s / of_int (total_bytes s) / ln 2\<rparr>))"

text \<open>
  A causal model: the logits of a position depend on the tokens up to it.  Under it the score of a
  continuation is the chain rule.
\<close>

definition causal :: "(int list \<Rightarrow> real list) \<Rightarrow> int list \<Rightarrow> real list list" where
  "causal nxt tokens = map (\<lambda>j. nxt (take (Suc j) tokens)) [0..<length tokens]"

fun chain_log_prob :: "(int list \<Rightarrow> real list) \<Rightarrow> int list \<Rightarrow> int list \<Rightarrow> real" where
  "chain_log_prob nxt hist [] = 0"
| "chain_log_prob nxt hist (t # ts) = log_prob (nxt hist) t + chain_log_prob nxt (hist @ [t]) ts"

definition document_log_prob :: "(int list \<Rightarrow> real list) \<Rightarrow> document \<Rightarrow> real" where
  "document_log_prob nxt d = (\<Sum>(ctx, cont)\<leftarrow>windows d. chain_log_prob nxt ctx cont)"

lemma gather_causal:
  assumes "\<And>h. length (nxt h) = V" "\<forall>t \<in> set cont. 0 \<le> t \<and> t < int V"
  shows "\<exists>lps. rmap (\<lambda>(row, token). if 0 \<le> token \<and> token < int (length row) then Inr (log_prob row token)
      else Inl RuntimeError) (zip (map (\<lambda>i. nxt (hist @ take i cont)) [0..<length cont]) cont) = Inr lps \<and>
    sum_list lps = chain_log_prob nxt hist cont"
  using assms(2)
proof (induction cont arbitrary: hist)
  case Nil
  then show ?case by simp
next
  case (Cons t ts)
  have rows: "map (\<lambda>i. nxt (hist @ take i (t # ts))) [0..<length (t # ts)]
      = nxt hist # map (\<lambda>i. nxt ((hist @ [t]) @ take i ts)) [0..<length ts]"
    by (simp add: upt_conv_Cons map_Suc_upt [symmetric] del: upt_Suc)
  obtain lps where "rmap (\<lambda>(row, token). if 0 \<le> token \<and> token < int (length row) then Inr (log_prob row token)
      else Inl RuntimeError) (zip (map (\<lambda>i. nxt ((hist @ [t]) @ take i ts)) [0..<length ts]) ts) = Inr lps"
      "sum_list lps = chain_log_prob nxt (hist @ [t]) ts"
    using Cons.IH [of "hist @ [t]"] Cons.prems by auto
  then show ?case unfolding rows using Cons.prems assms(1) by simp
qed

lemma score_window_causal:
  assumes "ctx \<noteq> []" "\<And>h. length (nxt h) = V" "\<forall>t \<in> set cont. 0 \<le> t \<and> t < int V"
  shows "score_window (causal nxt) (ctx, cont) = Inr (chain_log_prob nxt ctx cont)"
proof -
  obtain n where n: "length ctx = Suc n" using assms(1) by (cases ctx) auto
  let ?rows = "map (\<lambda>i. nxt (ctx @ take i cont)) [0..<length cont]"
  have "py_slice (causal nxt (ctx @ cont)) (int n) (int (n + length cont))
      = take (length cont) (drop n (causal nxt (ctx @ cont)))"
    by (simp only: py_slice_nonneg of_nat_0_le_iff nat_int diff_add_inverse)
  also have "\<dots> = ?rows"
    by (rule nth_equalityI) (auto simp: causal_def n)
  finally have rows: "py_slice (causal nxt (ctx @ cont)) (int n) (int (n + length cont)) = ?rows" .
  have "int (length ctx) - 1 = int n" "int (length ctx) + int (length cont) - 1 = int (n + length cont)"
    using n by simp_all
  then have "score_window (causal nxt) (ctx, cont) =
      rbind (gather_targets ?rows cont) (\<lambda>lps. Inr (sum_list lps))"
    unfolding score_window_def Let_def prod.case by (simp only: rows)
  then show ?thesis
    using gather_causal [of nxt V cont ctx, OF assms(2,3)] by (auto simp: gather_targets_def)
qed

lemma windows_ok_ctx: "windows_ok pfx m hist ws \<Longrightarrow> w \<in> set ws \<Longrightarrow> fst w \<noteq> []"
  by (induction ws arbitrary: hist) auto

lemma score_windows:
  assumes "\<forall>w \<in> set ws. fst w \<noteq> []" "\<And>h. length (nxt h) = V"
    and "\<forall>w \<in> set ws. \<forall>t \<in> set (snd w). 0 \<le> t \<and> t < int V"
  shows "rfold (score_step (causal nxt)) s ws =
    Inr (s\<lparr>total_logprob := total_logprob s + (\<Sum>(ctx, cont)\<leftarrow>ws. chain_log_prob nxt ctx cont),
      scored_tokens := scored_tokens s + length (concat (map snd ws)),
      windows_done := windows_done s + length ws\<rparr>)"
  using assms(1,3)
proof (induction ws arbitrary: s)
  case Nil
  then show ?case by simp
next
  case (Cons w ws)
  obtain ctx cont where w: "w = (ctx, cont)" by (cases w)
  have "score_window (causal nxt) (ctx, cont) = Inr (chain_log_prob nxt ctx cont)"
    using Cons.prems by (intro score_window_causal [OF _ assms(2)]) (auto simp: w)
  then show ?case using Cons by (simp add: w score_step_def add.assoc)
qed

lemma score_documents:
  assumes "\<And>h. length (nxt h) = V"
    and "\<forall>d \<in> set docs. windows_ok pfx m [] (windows d) \<and>
      (\<forall>t \<in> set (concat (map snd (windows d))). 0 \<le> t \<and> t < int V)"
  shows "rfold (score_document (causal nxt)) s docs =
    Inr (s\<lparr>total_logprob := total_logprob s + (\<Sum>d\<leftarrow>docs. document_log_prob nxt d),
      total_words := total_words s + (\<Sum>d\<leftarrow>docs. word_count d),
      total_bytes := total_bytes s + (\<Sum>d\<leftarrow>docs. byte_count d),
      scored_tokens := scored_tokens s + (\<Sum>d\<leftarrow>docs. length (concat (map snd (windows d)))),
      windows_done := windows_done s + (\<Sum>d\<leftarrow>docs. length (windows d))\<rparr>)"
  using assms(2)
proof (induction docs arbitrary: s)
  case Nil
  then show ?case by simp
next
  case (Cons d docs)
  have "rfold (score_step (causal nxt)) s (windows d) =
    Inr (s\<lparr>total_logprob := total_logprob s + (\<Sum>(ctx, cont)\<leftarrow>windows d. chain_log_prob nxt ctx cont),
      scored_tokens := scored_tokens s + length (concat (map snd (windows d))),
      windows_done := windows_done s + length (windows d)\<rparr>)"
    using Cons.prems by (intro score_windows [OF _ assms(1)]) (auto dest: windows_ok_ctx)
  then show ?case using Cons by (simp add: score_document_def document_log_prob_def add.assoc)
qed

section \<open>Properties\<close>

text \<open>C37: The rolling windows partition a document: for every positive window length the windowing loop
  returns, the continuations concatenate to exactly the tokens of the document, and every window
  has a non-empty continuation, a non-empty context made of the tokens immediately before it (the
  prefix token standing before the first), and at most \<open>max_seq_len + 1\<close> tokens in all.\<close>

theorem rolling_windows_partition:
  assumes "0 < max_seq_len"
  shows "\<exists>ws. build_rolling_windows tokens prefix_token_id max_seq_len = Some ws \<and>
    concat (map snd ws) = tokens \<and> windows_ok prefix_token_id max_seq_len [] ws"
  by (rule build_rolling_windows_ok [OF assms])

theorem rolling_windows_partition_witness:
  "0 < (3::int) \<and> (\<exists>ws. build_rolling_windows [1, 2, 3, 4, 5] 9 3 = Some ws \<and> concat (map snd ws) = [1, 2, 3, 4, 5])"
  using rolling_windows_partition [of 3 "[1, 2, 3, 4, 5]" 9] by auto

text \<open>The windowing loop returns exactly when the document is empty or the window length is positive;
  with a non-empty document and a window length of zero or less it runs forever.\<close>

theorem rolling_windows_terminates:
  "build_rolling_windows tokens prefix_token_id max_seq_len \<noteq> None \<longleftrightarrow> tokens = [] \<or> 0 < max_seq_len"
proof -
  have "build_rolling_windows tokens prefix_token_id max_seq_len = None"
    if "tokens \<noteq> []" "max_seq_len \<le> 0"
  proof (rule ccontr)
    let ?f = "min max_seq_len (int (length tokens))"
    assume "build_rolling_windows tokens prefix_token_id max_seq_len \<noteq> None"
    moreover have "build_rolling_windows tokens prefix_token_id max_seq_len = rolling_loop tokens prefix_token_id
        max_seq_len max_seq_len ?f [([prefix_token_id], py_slice tokens 0 ?f)]"
      using that(1) unfolding build_rolling_windows_def Let_def by (simp only: if_False)
    ultimately obtain r where "rolling_loop tokens prefix_token_id max_seq_len max_seq_len ?f
        [([prefix_token_id], py_slice tokens 0 ?f)] = Some r" by auto
    moreover have "?f < int (length tokens)" using that by (cases tokens) auto
    ultimately show False using rolling_loop_diverges that(2) by blast
  qed
  moreover have "build_rolling_windows [] prefix_token_id max_seq_len \<noteq> None"
    by (simp add: build_rolling_windows_def)
  ultimately show ?thesis
    using build_rolling_windows_ok [of max_seq_len tokens prefix_token_id] by fastforce
qed

text \<open>The WikiText fixture reads back: what \<open>export_rolling_fixture\<close> writes, the GPU scorer's
  \<open>read_fixture\<close> returns record for record, and \<open>fixture_tokens\<close> returns as the contexts and
  continuations in file order.  Every record comes from a row of the data set with at least
  \<open>min_chars\<close> characters, carries that row's word and byte counts, and its continuations spell the
  row's tokens.\<close>

theorem wikitext_fixture_roundtrip:
  assumes "0 < max_seq_len"
    and "export_rolling_fixture encode eos bos dataset max_seq_len limit min_chars = Some (Inr blob)"
  shows "\<exists>docs pfx. read_fixture blob = Inr docs \<and> fixture_tokens blob = Inr (concat (map doc_stream docs)) \<and>
    (\<forall>d \<in> set docs. \<exists>raw \<in> set dataset. int (length raw) \<ge> min_chars \<and> record_of encode pfx max_seq_len raw d)"
proof -
  obtain pfx docs where r: "rolling_records encode pfx max_seq_len limit min_chars dataset [] = Some (Inr docs)"
    and w: "write_documents docs = Inr blob"
    using assms(2) by (auto simp: export_rolling_fixture_def rbind_eq_Inr split: option.splits if_splits)
  have ok: "u32_range (int (length docs))" "\<forall>d \<in> set docs. document_ok d" "blob = rolling_bytes docs"
    using w by (auto simp: write_documents_Inr_iff)
  show ?thesis
    using read_rolling_bytes [OF ok(1,2)] rolling_records_result [OF assms(1) r] ok(3)
    by (intro exI [of _ docs] exI [of _ pfx]) auto
qed

text \<open>The last block of a document may be short, and then its context is longer than one token.\<close>

lemma short_block_has_long_context:
  "build_rolling_windows [97, 32, 98] 0 2 = Some [([0], [97, 32]), ([97, 32], [98])]"
proof -
  have "rolling_loop [97, 32, 98] 0 2 2 3 ws = Some ws" for ws
    by (subst rolling_loop.simps) simp
  then have "rolling_loop [97, 32, 98] 0 2 2 2 ws = Some (ws @ [([97, 32], [98])])" for ws
    by (subst rolling_loop.simps) (simp add: py_slice_def slice_bound_def)
  then show ?thesis by (simp add: build_rolling_windows_def py_slice_def slice_bound_def)
qed

lemma export_demo:
  "\<exists>blob. export_rolling_fixture (\<lambda>raw. map int raw) (Some 0) None [[], [97, 32, 98]] 2 None 1 = Some (Inr blob)"
proof -
  have "rolling_records (\<lambda>raw. map int raw) 0 2 None 1 [[], [97, 32, 98]] [] =
    Some (Inr [\<lparr>word_count = 2, byte_count = 3, windows = [([0], [97, 32]), ([97, 32], [98])]\<rparr>])"
    by (simp add: short_block_has_long_context build_rolling_windows_def [of "[]"] byte_count_of_def utf8_size_def word_count_of_def is_space_def)
  then show ?thesis
    by (simp add: export_rolling_fixture_def write_documents_Inr_iff document_ok_def fixture_ok_def example_ok_def
        u32_range_def i32_range_def)
qed

theorem wikitext_fixture_roundtrip_witness:
  "\<exists>blob docs. export_rolling_fixture (\<lambda>raw. map int raw) (Some 0) None [[], [97, 32, 98]] 2 None 1 = Some (Inr blob) \<and>
    read_fixture blob = Inr docs"
  using export_demo wikitext_fixture_roundtrip [of 2 "\<lambda>raw. map int raw" "Some 0" None "[[], [97, 32, 98]]" None 1]
  by fastforce

text \<open>The perplexity reference scores every token of the kept documents exactly once: for a causal
  model whose vocabulary holds the tokens, the totals of the scorer over a fixture of rolling windows
  are the sums over the documents of the chain-rule log probabilities, of the word and byte counts,
  and of the number of tokens, and the word perplexity is \<open>exp (- total / words)\<close>.\<close>

theorem fixture_score_is_chain_rule:
  assumes "read_fixture blob = Inr docs" and "doc_limit = 0" and "\<And>h. length (nxt h) = V"
    and "\<forall>d \<in> set docs. windows_ok pfx m [] (windows d) \<and>
      (\<forall>t \<in> set (concat (map snd (windows d))). 0 \<le> t \<and> t < int V)"
    and "(\<Sum>d\<leftarrow>docs. word_count d) > 0" "(\<Sum>d\<leftarrow>docs. byte_count d) > 0"
  shows "\<exists>p. score_fixture (causal nxt) doc_limit blob = Inr p \<and>
    total_logprob (pp_totals p) = (\<Sum>d\<leftarrow>docs. document_log_prob nxt d) \<and>
    scored_tokens (pp_totals p) = (\<Sum>d\<leftarrow>docs. length (concat (map snd (windows d)))) \<and>
    word_perplexity p = exp (- (\<Sum>d\<leftarrow>docs. document_log_prob nxt d) / of_int (\<Sum>d\<leftarrow>docs. word_count d))"
  using assms(1,2,5,6) score_documents [of nxt V docs pfx m zero_totals, OF assms(3,4)]
  by (simp add: score_fixture_def zero_totals_def)

theorem fixture_score_is_chain_rule_witness:
  "\<exists>blob p. score_fixture (causal (\<lambda>h. [0, 0])) 0 blob = Inr p \<and> scored_tokens (pp_totals p) = 1 \<and>
    total_logprob (pp_totals p) = - ln 2"
proof -
  let ?d = "\<lparr>word_count = 1, byte_count = 1, windows = [([0], [1])]\<rparr> :: document"
  have ok: "u32_range (int (length [?d]))" "\<forall>d \<in> set [?d]. document_ok d"
    by (simp_all add: document_ok_def fixture_ok_def example_ok_def u32_range_def i32_range_def)
  note r = read_rolling_bytes(1) [OF ok]
  have "\<forall>d \<in> set [?d]. windows_ok 0 1 [] (windows d) \<and>
      (\<forall>t \<in> set (concat (map snd (windows d))). 0 \<le> t \<and> t < int 2)"
    by (simp add: suffix_def)
  from fixture_score_is_chain_rule [OF r refl _ this, of "\<lambda>h. [0, 0]"] show ?thesis
    by (auto simp: document_log_prob_def log_prob_def logsumexp_def)
qed

text \<open>The steady-state benchmark streams agree with the fixture: prompt and teacher are consecutive
  slices of the token stream of the lengths asked for, and the accelerator, whose handoff state covers
  \<open>prompt[:-1]\<close>, is fed exactly the tokens that follow that state.\<close>

theorem steady_streams_split:
  assumes "steady_streams prompt_length teacher_length blob = Inr (prompt, teacher, stream)"
  shows "\<exists>tokens. fixture_tokens blob = Inr tokens \<and>
    int (length prompt) = prompt_length \<and> int (length teacher) = teacher_length \<and>
    prompt @ teacher = take (nat (prompt_length + teacher_length)) tokens \<and>
    butlast prompt @ stream = prompt @ teacher"
proof -
  obtain tokens where t: "fixture_tokens blob = Inr tokens"
    and p: "1 < prompt_length" "0 < teacher_length" "prompt_length + teacher_length \<le> int (length tokens)"
    and v: "prompt = py_slice tokens 0 prompt_length"
      "teacher = py_slice tokens prompt_length (prompt_length + teacher_length)" "stream = last prompt # teacher"
    using assms by (auto simp: steady_streams_def rbind_eq_Inr Let_def split: if_splits)
  obtain a b where ab: "prompt_length = int a" "teacher_length = int b"
    using p by (metis nonneg_int_cases less_imp_le order_trans zero_le_one)
  have v': "prompt = take a tokens" "teacher = take b (drop a tokens)"
    using v by (simp_all add: ab py_slice_nonneg nat_int_add flip: of_nat_add)
  have l: "a + b \<le> length tokens" "0 < a" using p by (auto simp: ab)
  have "prompt \<noteq> []" using l by (auto simp: v')
  then have "(butlast prompt @ [last prompt]) @ teacher = prompt @ teacher" by simp
  then have "butlast prompt @ stream = prompt @ teacher" by (simp add: v(3))
  moreover have "prompt @ teacher = take (a + b) tokens" by (simp add: v' take_add)
  ultimately show ?thesis using t l by (simp add: ab v' nat_int_add)
qed

theorem steady_streams_split_witness:
  "\<exists>blob prompt teacher stream. steady_streams 2 1 blob = Inr (prompt, teacher, stream) \<and>
    butlast prompt @ stream = [5, 6, 7]"
proof -
  let ?d = "\<lparr>word_count = 1, byte_count = 1, windows = [([5], [6, 7])]\<rparr> :: document"
  have ok: "u32_range (int (length [?d]))" "\<forall>d \<in> set [?d]. document_ok d"
    by (simp_all add: document_ok_def fixture_ok_def example_ok_def u32_range_def i32_range_def)
  have t: "fixture_tokens (rolling_bytes [?d]) = Inr [5, 6, 7]"
    using read_rolling_bytes(2) [OF ok] by (simp add: doc_stream_def)
  have "\<exists>p te s. steady_streams 2 1 (rolling_bytes [?d]) = Inr (p, te, s)"
    by (simp add: steady_streams_def t Let_def)
  then obtain p te s where s: "steady_streams 2 1 (rolling_bytes [?d]) = Inr (p, te, s)" by blast
  moreover have "butlast p @ s = [5, 6, 7]" using steady_streams_split [OF s] t by auto
  ultimately show ?thesis by blast
qed

end
