(* ===== verification/Rotary.thy ===== *)
theory Rotary
  imports Tiles
begin

text \<open>
  Rotary position embeddings, \<open>lit_gpt/rotary.py\<close>: the Triton kernel and its launch, the autograd
  pair, the PyTorch reference and the module with its table cache.

  A tensor of shape \<open>(batch, seqlen, nheads, headdim)\<close> is given by its value at an index; the kernel's
  pointer \<open>X + b * stride_batch + s * stride_seqlen + h * stride_nheads + d * stride_headdim\<close> is the
  element at \<open>b s h d\<close>.  A packed tensor \<open>(total_seqlen, nheads, headdim)\<close> has batch index zero.
  Arithmetic is on the real numbers; \<open>rnd\<close> is the rounding of a stored FP32 value to the
  tensor's dtype.
\<close>

type_synonym tensor4 = "nat \<Rightarrow> nat \<Rightarrow> nat \<Rightarrow> nat \<Rightarrow> real"

datatype seq_offsets = IntOffset nat | TensorOffset "nat list"

definition offset_at :: "seq_offsets \<Rightarrow> nat \<Rightarrow> nat" where
  "offset_at off b = (case off of IntOffset n \<Rightarrow> n | TensorOffset ns \<Rightarrow> ns ! b)"

record rtensor =
  rt_shape :: "nat list"
  rt_dtype :: nat
  rt_data :: tensor4

record rtable =
  tb_shape :: "nat list"
  tb_dtype :: nat
  tb_data :: mat

section \<open>The kernel\<close>

text \<open>A masked \<open>tl.store\<close> of \<open>R\<close> rows from \<open>row0\<close> and \<open>C\<close> columns from \<open>d0\<close>.\<close>

definition store_tile :: "nat \<Rightarrow> nat \<Rightarrow> nat \<Rightarrow> nat \<Rightarrow> nat \<Rightarrow> nat \<Rightarrow> (nat \<Rightarrow> bool) \<Rightarrow> (nat \<Rightarrow> bool) \<Rightarrow> mat
    \<Rightarrow> tensor4 \<Rightarrow> tensor4" where
  "store_tile b h row0 R d0 C row_mask col_mask v OUT =
     (\<lambda>b' s h' d. if b' = b \<and> h' = h \<and> row0 \<le> s \<and> s < row0 + R \<and> d0 \<le> d \<and> d < d0 + C \<and>
          row_mask (s - row0) \<and> col_mask (d - d0)
        then v (s - row0) (d - d0) else OUT b' s h' d)"

text \<open>
  The two arms of the kernel, for the rows \<open>rm\<close> of a sequence of length \<open>seqlen\<close> that starts at row
  \<open>start_idx\<close> of the tensor and at position \<open>offset\<close> of the tables: rotation of the first half against the
  second half, and of even against odd elements.
\<close>

definition rotate_halves :: "(real \<Rightarrow> real) \<Rightarrow> tensor4 \<Rightarrow> mat \<Rightarrow> mat \<Rightarrow> nat \<Rightarrow> nat \<Rightarrow> nat \<Rightarrow> nat \<Rightarrow> nat \<Rightarrow> nat \<Rightarrow> nat
    \<Rightarrow> bool \<Rightarrow> nat \<Rightarrow> nat \<Rightarrow> nat \<Rightarrow> tensor4 \<Rightarrow> tensor4" where
  "rotate_halves rnd X COS SIN b start_idx seqlen offset rotary_dim seqlen_ro BLOCK_K CONJUGATE BLOCK_M
       pid_m pid_head OUT =
     (let rotary_dim_half = rotary_dim div 2;
          rm = (\<lambda>i. pid_m * BLOCK_M + i);
          rm_cs = (\<lambda>i. rm i + offset);
          row0 = start_idx + pid_m * BLOCK_M;
          x = (\<lambda>i d. X b (row0 + i) pid_head d);
          row_mask = (\<lambda>i. rm i < seqlen);
          col_mask = (\<lambda>k. k < rotary_dim_half);
          cosine = (\<lambda>i k. if rm_cs i < seqlen_ro \<and> k < rotary_dim_half then COS (rm_cs i) k else 1);
          sine = (\<lambda>i k. if rm_cs i < seqlen_ro \<and> k < rotary_dim_half then SIN (rm_cs i) k else 0);
          x0 = (\<lambda>i k. if rm i < seqlen \<and> k < rotary_dim_half then x i k else 0);
          x1 = (\<lambda>i k. if rm i < seqlen \<and> k < rotary_dim_half then x i (k + rotary_dim_half) else 0);
          sine = (if CONJUGATE then (\<lambda>i k. - sine i k) else sine);
          o0 = (\<lambda>i k. rnd (x0 i k * cosine i k - x1 i k * sine i k));
          o1 = (\<lambda>i k. rnd (x0 i k * sine i k + x1 i k * cosine i k));
          OUT = store_tile b pid_head row0 BLOCK_M 0 (BLOCK_K div 2) row_mask col_mask o0 OUT
      in store_tile b pid_head row0 BLOCK_M rotary_dim_half (BLOCK_K div 2) row_mask col_mask o1 OUT)"

definition rotate_interleaved :: "(real \<Rightarrow> real) \<Rightarrow> tensor4 \<Rightarrow> mat \<Rightarrow> mat \<Rightarrow> nat \<Rightarrow> nat \<Rightarrow> nat \<Rightarrow> nat \<Rightarrow> nat \<Rightarrow> nat \<Rightarrow> nat
    \<Rightarrow> bool \<Rightarrow> nat \<Rightarrow> nat \<Rightarrow> nat \<Rightarrow> tensor4 \<Rightarrow> tensor4" where
  "rotate_interleaved rnd X COS SIN b start_idx seqlen offset rotary_dim seqlen_ro BLOCK_K CONJUGATE BLOCK_M
       pid_m pid_head OUT =
     (let rotary_dim_half = rotary_dim div 2;
          rm = (\<lambda>i. pid_m * BLOCK_M + i);
          rm_cs = (\<lambda>i. rm i + offset);
          row0 = start_idx + pid_m * BLOCK_M;
          x = (\<lambda>i d. X b (row0 + i) pid_head d);
          row_mask = (\<lambda>i. rm i < seqlen);
          rk_swap = (\<lambda>k. k + ((k + 1) mod 2) * 2 - 1);
          rk_repeat = (\<lambda>k. k div 2);
          cosine = (\<lambda>i k. if rm_cs i < seqlen_ro \<and> rk_repeat k < rotary_dim_half
                          then COS (rm_cs i) (rk_repeat k) else 1);
          sine = (\<lambda>i k. if rm_cs i < seqlen_ro \<and> rk_repeat k < rotary_dim_half
                        then SIN (rm_cs i) (rk_repeat k) else 0);
          x0 = (\<lambda>i k. if rm i < seqlen \<and> k < rotary_dim then x i k else 0);
          x1 = (\<lambda>i k. if rm i < seqlen \<and> rk_swap k < rotary_dim then x i (rk_swap k) else 0);
          sine = (if CONJUGATE then (\<lambda>i k. - sine i k) else sine);
          x0_cos = (\<lambda>i k. x0 i k * cosine i k);
          x1_sin = (\<lambda>i k. x1 i k * sine i k);
          out = (\<lambda>i k. rnd (if k mod 2 = 0 then x0_cos i k - x1_sin i k else x0_cos i k + x1_sin i k))
      in store_tile b pid_head row0 BLOCK_M 0 BLOCK_K row_mask (\<lambda>k. k < rotary_dim) out OUT)"

definition rotary_kernel :: "(real \<Rightarrow> real) \<Rightarrow> tensor4 \<Rightarrow> mat \<Rightarrow> mat \<Rightarrow> nat list option \<Rightarrow> seq_offsets \<Rightarrow> nat \<Rightarrow> nat
    \<Rightarrow> nat \<Rightarrow> nat \<Rightarrow> bool \<Rightarrow> bool \<Rightarrow> nat \<Rightarrow> nat \<Rightarrow> nat \<Rightarrow> nat \<Rightarrow> tensor4 \<Rightarrow> tensor4" where
  "rotary_kernel rnd X COS SIN cu_seqlens seqlen_offsets seqlen rotary_dim seqlen_ro BLOCK_K
       INTERLEAVED CONJUGATE BLOCK_M pid_m pid_batch pid_head OUT =
     (let (b, start_idx, seqlen) =
            (case cu_seqlens of
               None \<Rightarrow> (pid_batch, 0, seqlen)
             | Some cu \<Rightarrow> (0, cu ! pid_batch, cu ! (pid_batch + 1) - cu ! pid_batch));
          offset = offset_at seqlen_offsets pid_batch
      in if pid_m * BLOCK_M \<ge> seqlen then OUT
         else if \<not> INTERLEAVED
         then rotate_halves rnd X COS SIN b start_idx seqlen offset rotary_dim seqlen_ro BLOCK_K CONJUGATE BLOCK_M
                pid_m pid_head OUT
         else rotate_interleaved rnd X COS SIN b start_idx seqlen offset rotary_dim seqlen_ro BLOCK_K CONJUGATE
                BLOCK_M pid_m pid_head OUT)"

section \<open>The launch\<close>

definition rotary_block_k :: "nat \<Rightarrow> nat" where
  "rotary_block_k rotary_dim =
     (if rotary_dim \<le> 32 then 32
      else if rotary_dim \<le> 64 then 64 else if rotary_dim \<le> 128 then 128 else 256)"

definition rotary_block_m :: "bool \<Rightarrow> nat \<Rightarrow> nat" where
  "rotary_block_m interleaved rotary_dim = (if interleaved then 4 else if rotary_dim \<le> 64 then 8 else 4)"

definition rotary_launch :: "(real \<Rightarrow> real) \<Rightarrow> tensor4 \<Rightarrow> bool \<Rightarrow> mat \<Rightarrow> mat \<Rightarrow> nat list option \<Rightarrow> seq_offsets \<Rightarrow> nat \<Rightarrow> nat
    \<Rightarrow> nat \<Rightarrow> bool \<Rightarrow> bool \<Rightarrow> nat \<Rightarrow> nat \<Rightarrow> tensor4 \<Rightarrow> tensor4" where
  "rotary_launch rnd x inplace COS SIN cu_seqlens seqlen_offsets seqlen rotary_dim seqlen_ro
       interleaved conjugate batch nheads output =
     (let BLOCK_K = rotary_block_k rotary_dim;
          BLOCK_M = rotary_block_m interleaved rotary_dim
      in for_loop batch (\<lambda>pid_batch. for_loop nheads (\<lambda>pid_head. for_loop (cdiv seqlen BLOCK_M) (\<lambda>pid_m OUT.
           rotary_kernel rnd (if inplace then OUT else x) COS SIN cu_seqlens seqlen_offsets seqlen rotary_dim
             seqlen_ro BLOCK_K interleaved conjugate BLOCK_M pid_m pid_batch pid_head OUT))) output)"

text \<open>\<open>batch\<close>, \<open>seqlen\<close>, \<open>nheads\<close> and \<open>headdim\<close> of the input, padded or packed.\<close>

definition rotary_dims :: "nat list \<Rightarrow> nat list option \<Rightarrow> nat option \<Rightarrow> (nat \<times> nat \<times> nat \<times> nat) result" where
  "rotary_dims shape cu_seqlens max_seqlen =
     (case cu_seqlens of
        None \<Rightarrow> (case shape of [batch, seqlen, nheads, headdim] \<Rightarrow> Inr (batch, seqlen, nheads, headdim)
                           | _ \<Rightarrow> Inl ValueError)
      | Some cu \<Rightarrow>
          (case max_seqlen of
             None \<Rightarrow> Inl AssertionError
           | Some m \<Rightarrow> (case shape of [total_seqlen, nheads, headdim] \<Rightarrow> Inr (length cu - 1, m, nheads, headdim)
                                  | _ \<Rightarrow> Inl ValueError)))"

text \<open>\<open>fresh\<close> is what \<open>torch.empty_like\<close> leaves in the output.\<close>

definition apply_rotary :: "(real \<Rightarrow> real) \<Rightarrow> tensor4 \<Rightarrow> rtensor \<Rightarrow> rtable \<Rightarrow> rtable \<Rightarrow> seq_offsets \<Rightarrow> nat list option
    \<Rightarrow> nat option \<Rightarrow> bool \<Rightarrow> bool \<Rightarrow> bool \<Rightarrow> rtensor result" where
  "apply_rotary rnd fresh x cosine sine seqlen_offsets cu_seqlens max_seqlen interleaved inplace conjugate =
     rbind (rotary_dims (rt_shape x) cu_seqlens max_seqlen) (\<lambda>(batch, seqlen, nheads, headdim).
     case tb_shape cosine of
       [seqlen_ro, half] \<Rightarrow>
         (let rotary_dim = half * 2 in
          if tb_shape sine \<noteq> tb_shape cosine then Inl AssertionError
          else if \<not> rotary_dim \<le> headdim then Inl AssertionError
          else if \<not> seqlen_ro \<ge> seqlen then Inl AssertionError
          else if tb_dtype cosine \<noteq> tb_dtype sine then Inl AssertionError
          else if rt_dtype x \<noteq> tb_dtype cosine then Inl AssertionError
          else if (case seqlen_offsets of TensorOffset ns \<Rightarrow> length ns \<noteq> batch
                                        | IntOffset n \<Rightarrow> \<not> n + seqlen \<le> seqlen_ro) then Inl AssertionError
          else let output = (if inplace then rt_data x
                             else (\<lambda>b s h d. if rotary_dim < headdim \<and> rotary_dim \<le> d then rt_data x b s h d
                                             else fresh b s h d))
               in Inr (x\<lparr>rt_data := rotary_launch rnd (rt_data x) inplace (tb_data cosine) (tb_data sine) cu_seqlens
                    seqlen_offsets seqlen rotary_dim seqlen_ro interleaved conjugate batch nheads output\<rparr>))
     | _ \<Rightarrow> Inl ValueError)"

section \<open>The PyTorch reference\<close>

definition rotate_half :: "nat \<Rightarrow> bool \<Rightarrow> vec \<Rightarrow> vec" where
  "rotate_half ro_dim interleaved x =
     (if \<not> interleaved
      then (\<lambda>d. if d < ro_dim div 2 then - x (d + ro_dim div 2) else x (d - ro_dim div 2))
      else (\<lambda>d. if d mod 2 = 0 then - x (d + 1) else x (d - 1)))"

text \<open>
  \<open>cosine\<close> and \<open>sine\<close> of shape \<open>(seqlen, rotary_dim / 2)\<close> or \<open>(batch_size, seqlen, rotary_dim / 2)\<close>, as a shape and
  the rows of each batch entry.  \<open>repeat\<close> doubles the last dimension in blocks or
  element by element and puts one for the heads before it; a missing dimension, and one of a single element, is broadcast.  A table
  that would make the product larger than \<open>x\<close> is refused by \<open>torch.cat\<close>.  Only an \<open>x\<close> of four
  dimensions is modelled.
\<close>

type_synonym torch_table = "nat list \<times> (nat \<Rightarrow> mat)"

definition torch_table :: "rtable \<Rightarrow> torch_table" where
  "torch_table t = (tb_shape t, \<lambda>b. tb_data t)"

definition table_dims :: "nat list \<Rightarrow> (nat \<times> nat \<times> nat) option" where
  "table_dims shape =
     (case shape of
        [half] \<Rightarrow> Some (1, 1, half)
      | [rows, half] \<Rightarrow> Some (1, rows, half)
      | [entries, rows, half] \<Rightarrow> Some (entries, rows, half)
      | _ \<Rightarrow> None)"

definition apply_rotary_emb_torch :: "rtensor \<Rightarrow> torch_table \<Rightarrow> torch_table \<Rightarrow> bool \<Rightarrow> tensor4 result" where
  "apply_rotary_emb_torch x cosine sine interleaved =
     (case rt_shape x of
        [batch, seqlen, nheads, headdim] \<Rightarrow>
          (if fst cosine = [] then Inl IndexError
           else let ro_dim = last (fst cosine) * 2 in
             if \<not> ro_dim \<le> headdim then Inl AssertionError
             else case (table_dims (fst cosine), table_dims (fst sine)) of
               (Some (entries, rows, half), Some (entries', rows', half')) \<Rightarrow>
                 if (rows \<noteq> seqlen \<and> rows \<noteq> 1) \<or> (rows' \<noteq> seqlen \<and> rows' \<noteq> 1) \<or> half' \<noteq> half
                    \<or> (entries \<noteq> batch \<and> entries \<noteq> 1) \<or> (entries' \<noteq> batch \<and> entries' \<noteq> 1) then Inl RuntimeError
                 else let col = (\<lambda>d. if \<not> interleaved then d mod half else d div 2);
                          c = (\<lambda>b s d. snd cosine (if entries = 1 then 0 else b) (if rows = 1 then 0 else s) (col d));
                          sn = (\<lambda>b s d. snd sine (if entries' = 1 then 0 else b) (if rows' = 1 then 0 else s) (col d))
                      in Inr (\<lambda>b s h d. if d < ro_dim
                           then rt_data x b s h d * c b s d + rotate_half ro_dim interleaved (rt_data x b s h) d * sn b s d
                           else rt_data x b s h d)
             | _ \<Rightarrow> Inl RuntimeError)
      | _ \<Rightarrow> Inl RuntimeError)"

text \<open>A table of one batch entry is read for all of them.\<close>

lemma torch_table_broadcasts:
  assumes "rt_shape x = [batch, seqlen, nheads, headdim]"
  shows "apply_rotary_emb_torch x ([1, rows, half], \<lambda>b. c) ([1, rows', half'], \<lambda>b. sn) il
    = apply_rotary_emb_torch x ([rows, half], \<lambda>b. c) ([rows', half'], \<lambda>b. sn) il"
  by (simp add: apply_rotary_emb_torch_def table_dims_def assms Let_def)

section \<open>What the kernel does to a row\<close>

text \<open>\<open>pair_rotation\<close> is the rotation of one row, for table rows \<open>c\<close> and \<open>sn\<close>.\<close>

definition pair_rotation :: "nat \<Rightarrow> bool \<Rightarrow> bool \<Rightarrow> vec \<Rightarrow> vec \<Rightarrow> vec \<Rightarrow> vec" where
  "pair_rotation half interleaved conjugate c sn x =
     (let sg = (if conjugate then -1 else 1) in
      if \<not> interleaved
      then (\<lambda>d. if d < half then x d * c d - x (d + half) * (sg * sn d)
               else x (d - half) * (sg * sn (d - half)) + x d * c (d - half))
      else (\<lambda>d. if even d then x d * c (d div 2) - x (d + 1) * (sg * sn (d div 2))
               else x d * c (d div 2) + x (d - 1) * (sg * sn (d div 2))))"

definition table_row :: "mat \<Rightarrow> nat \<Rightarrow> real \<Rightarrow> nat \<Rightarrow> vec" where
  "table_row M seqlen_ro other p = (\<lambda>k. if p < seqlen_ro then M p k else other)"

definition covered :: "nat \<Rightarrow> nat \<Rightarrow> bool \<Rightarrow> nat \<Rightarrow> bool" where
  "covered half BK interleaved d \<longleftrightarrow>
     (if \<not> interleaved then (d < half \<and> d < BK div 2) \<or> (half \<le> d \<and> d < 2 * half \<and> d - half < BK div 2)
      else d < 2 * half \<and> d < BK)"

lemma tile_rows:
  fixes start s len :: nat
  assumes "0 < BM"
  shows "start + p * BM \<le> s \<and> s < start + p * BM + BM \<and> p * BM + (s - (start + p * BM)) < len
      \<longleftrightarrow> start \<le> s \<and> s < start + len \<and> (s - start) div BM = p"
proof (cases "start \<le> s")
  case True
  obtain t where s: "s = start + t" using le_Suc_ex [OF True] by (elim exE)
  have B: "(p * BM \<le> t \<and> t < p * BM + BM) = (t div BM = p)" by (rule block_rows_iff [OF assms])
  have "(start + p * BM \<le> s) = (p * BM \<le> t)" "(s < start + p * BM + BM) = (t < p * BM + BM)"
    "s - (start + p * BM) = t - p * BM" "(s < start + len) = (t < len)" "s - start = t"
    by (simp_all add: s)
  moreover have "p * BM \<le> t \<Longrightarrow> p * BM + (t - p * BM) = t" by simp
  ultimately show ?thesis using B True by metis
next
  case False
  then show ?thesis by (meson add_leE)
qed

lemma rotate_halves_row:
  assumes "0 < BM"
  shows "rotate_halves rnd X COS SIN b0 start len off (2 * half) seqlen_ro BK cj BM pid_m hh OUT b s h d =
    (if b = b0 \<and> h = hh \<and> start \<le> s \<and> s < start + len \<and> (s - start) div BM = pid_m \<and> covered half BK False d
     then rnd (pair_rotation half False cj (table_row COS seqlen_ro 1 (s - start + off))
       (table_row SIN seqlen_ro 0 (s - start + off)) (X b s h) d)
     else OUT b s h d)"
proof -
  note rows = tile_rows [OF assms, of start pid_m s len]
  have pos: "pid_m * BM + (s - (start + pid_m * BM)) = s - start" "start + pid_m * BM + (s - (start + pid_m * BM)) = s"
    if "start + pid_m * BM \<le> s" using that by auto
  show ?thesis
  proof (cases "b = b0 \<and> h = hh \<and> start \<le> s \<and> s < start + len \<and> (s - start) div BM = pid_m")
    case True
    then have r: "start + pid_m * BM \<le> s \<and> s < start + pid_m * BM + BM \<and> s - start < len" using rows pos by auto
    show ?thesis
      using True r by (auto simp: rotate_halves_def store_tile_def Let_def pos covered_def pair_rotation_def table_row_def)
  next
    case False
    then show ?thesis using rows by (auto simp: rotate_halves_def store_tile_def Let_def)
  qed
qed

lemma rotate_interleaved_row:
  assumes "0 < BM"
  shows "rotate_interleaved rnd X COS SIN b0 start len off (2 * half) seqlen_ro BK cj BM pid_m hh OUT b s h d =
    (if b = b0 \<and> h = hh \<and> start \<le> s \<and> s < start + len \<and> (s - start) div BM = pid_m \<and> covered half BK True d
     then rnd (pair_rotation half True cj (table_row COS seqlen_ro 1 (s - start + off))
       (table_row SIN seqlen_ro 0 (s - start + off)) (X b s h) d)
     else OUT b s h d)"
proof -
  note rows = tile_rows [OF assms, of start pid_m s len]
  have pos: "pid_m * BM + (s - (start + pid_m * BM)) = s - start" "start + pid_m * BM + (s - (start + pid_m * BM)) = s"
    if "start + pid_m * BM \<le> s" using that by auto
  show ?thesis
  proof (cases "b = b0 \<and> h = hh \<and> start \<le> s \<and> s < start + len \<and> (s - start) div BM = pid_m")
    case True
    then have r: "start + pid_m * BM \<le> s \<and> s < start + pid_m * BM + BM \<and> s - start < len" using rows pos by auto
    show ?thesis
    proof (cases "d < 2 * half \<and> d < BK")
      case cov: True
      show ?thesis
      proof (cases "even d")
        case True
        then obtain k where "d = 2 * k" by (elim evenE)
        then show ?thesis
          using cov r \<open>b = b0 \<and> _\<close>
          by (simp add: rotate_interleaved_def store_tile_def Let_def pos covered_def pair_rotation_def table_row_def)
      next
        case False
        then obtain k where "d = 2 * k + 1" by (elim oddE)
        then show ?thesis
          using cov r \<open>b = b0 \<and> _\<close>
          by (simp add: rotate_interleaved_def store_tile_def Let_def pos covered_def pair_rotation_def table_row_def)
      qed
    next
      case False
      then show ?thesis
        by (auto simp: rotate_interleaved_def store_tile_def Let_def covered_def)
    qed
  next
    case False
    then show ?thesis using rows by (auto simp: rotate_interleaved_def store_tile_def Let_def)
  qed
qed

text \<open>The sequence a program works on: batch index, first row and length.\<close>

definition seq_batch :: "nat list option \<Rightarrow> nat \<Rightarrow> nat" where
  "seq_batch cu n = (if cu = None then n else 0)"

definition seq_start :: "nat list option \<Rightarrow> nat \<Rightarrow> nat" where
  "seq_start cu n = (case cu of None \<Rightarrow> 0 | Some c \<Rightarrow> c ! n)"

definition seq_len :: "nat list option \<Rightarrow> nat \<Rightarrow> nat \<Rightarrow> nat" where
  "seq_len cu seqlen n = (case cu of None \<Rightarrow> seqlen | Some c \<Rightarrow> c ! (n + 1) - c ! n)"

definition in_seq :: "nat list option \<Rightarrow> nat \<Rightarrow> nat \<Rightarrow> nat \<Rightarrow> nat \<Rightarrow> bool" where
  "in_seq cu seqlen n b s \<longleftrightarrow> b = seq_batch cu n \<and> seq_start cu n \<le> s \<and> s < seq_start cu n + seq_len cu seqlen n"

lemma kernel_row:
  assumes "0 < BM"
  shows "rotary_kernel rnd X COS SIN cu off seqlen (2 * half) seqlen_ro BK il cj BM pid_m pid_batch pid_head OUT b s h d =
    (if in_seq cu seqlen pid_batch b s \<and> h = pid_head \<and> (s - seq_start cu pid_batch) div BM = pid_m \<and> covered half BK il d
     then rnd (pair_rotation half il cj
       (table_row COS seqlen_ro 1 (s - seq_start cu pid_batch + offset_at off pid_batch))
       (table_row SIN seqlen_ro 0 (s - seq_start cu pid_batch + offset_at off pid_batch)) (X b s h) d)
     else OUT b s h d)"
proof -
  let ?len = "seq_len cu seqlen pid_batch" and ?start = "seq_start cu pid_batch"
  have k: "rotary_kernel rnd X COS SIN cu off seqlen (2 * half) seqlen_ro BK il cj BM pid_m pid_batch pid_head OUT =
    (if pid_m * BM \<ge> ?len then OUT
     else (if \<not> il then rotate_halves else rotate_interleaved) rnd X COS SIN (seq_batch cu pid_batch) ?start ?len
       (offset_at off pid_batch) (2 * half) seqlen_ro BK cj BM pid_m pid_head OUT)"
    by (simp add: rotary_kernel_def seq_batch_def seq_start_def seq_len_def split: option.split)
  show ?thesis
  proof (cases "pid_m * BM \<ge> ?len")
    case True
    have "\<not> (?start \<le> s \<and> s < ?start + ?len \<and> (s - ?start) div BM = pid_m)"
    proof
      assume a: "?start \<le> s \<and> s < ?start + ?len \<and> (s - ?start) div BM = pid_m"
      then have "pid_m * BM \<le> s - ?start" using div_times_less_eq_dividend by blast
      then show False using a True by linarith
    qed
    then show ?thesis using True by (auto simp: k in_seq_def)
  next
    case False
    then show ?thesis
      by (simp add: k rotate_halves_row [OF assms] rotate_interleaved_row [OF assms] in_seq_def conj_ac)
  qed
qed

section \<open>What a launch does to a row\<close>

text \<open>Of all programs of a launch one works on a location, from the value it finds there.\<close>

lemma launch_applies:
  assumes wr: "\<And>s. get (prog m s) = G (get s)"
    and keep: "\<And>n s. n < N \<Longrightarrow> n \<noteq> m \<Longrightarrow> get (prog n s) = get s"
    and m: "m < N"
  shows "get (for_loop N prog s) = G (get s)"
proof -
  have "get (for_loop n prog s) = (if m < n then G (get s) else get s)" if "n \<le> N" for n
    using that
  proof (induction n)
    case 0
    then show ?case by simp
  next
    case (Suc n)
    then show ?case using wr [of "for_loop n prog s"] keep [of n "for_loop n prog s"]
      by (cases "n = m") (auto simp: less_Suc_eq)
  qed
  then show ?thesis using m by simp
qed

lemma launch_keeps:
  assumes "\<And>n s. n < N \<Longrightarrow> get (prog n s) = get s"
  shows "get (for_loop N prog s) = get s"
  using assms by (induction N) auto

definition rotated_row :: "(real \<Rightarrow> real) \<Rightarrow> mat \<Rightarrow> mat \<Rightarrow> nat \<Rightarrow> nat \<Rightarrow> nat \<Rightarrow> bool \<Rightarrow> bool \<Rightarrow> nat \<Rightarrow> vec \<Rightarrow> vec \<Rightarrow> vec" where
  "rotated_row rnd COS SIN half seqlen_ro BK il cj p x old =
     (\<lambda>d. if covered half BK il d
          then rnd (pair_rotation half il cj (table_row COS seqlen_ro 1 p) (table_row SIN seqlen_ro 0 p) x d)
          else old d)"

lemma kernel_row_fun:
  assumes "0 < BM"
  shows "rotary_kernel rnd X COS SIN cu off seqlen (2 * half) seqlen_ro BK il cj BM pid_m n hh OUT b s h =
    (if in_seq cu seqlen n b s \<and> h = hh \<and> (s - seq_start cu n) div BM = pid_m
     then rotated_row rnd COS SIN half seqlen_ro BK il cj (s - seq_start cu n + offset_at off n) (X b s h) (OUT b s h)
     else OUT b s h)"
  by (rule ext) (simp add: kernel_row [OF assms] rotated_row_def)

text \<open>Row \<open>s\<close> of batch entry \<open>b\<close> belongs to sequence \<open>n\<close> of the batch and to no other.\<close>

definition sequence_row :: "nat list option \<Rightarrow> nat \<Rightarrow> nat \<Rightarrow> nat \<Rightarrow> nat \<Rightarrow> nat \<Rightarrow> bool" where
  "sequence_row cu seqlen batch n b s \<longleftrightarrow>
     n < batch \<and> in_seq cu seqlen n b s \<and> seq_len cu seqlen n \<le> seqlen \<and>
     (\<forall>n' < batch. in_seq cu seqlen n' b s \<longrightarrow> n' = n)"

lemma rotary_launch_row:
  assumes row: "sequence_row cu seqlen batch n b s" and h: "h < nheads"
  shows "rotary_launch rnd x inplace COS SIN cu off seqlen (2 * half) seqlen_ro il cj batch nheads output b s h =
    rotated_row rnd COS SIN half seqlen_ro (rotary_block_k (2 * half)) il cj (s - seq_start cu n + offset_at off n)
      (if inplace then output b s h else x b s h) (output b s h)"
proof -
  let ?BM = "rotary_block_m il (2 * half)"
  let ?G = "\<lambda>r. rotated_row rnd COS SIN half seqlen_ro (rotary_block_k (2 * half)) il cj
    (s - seq_start cu n + offset_at off n) (if inplace then r else x b s h) r"
  let ?prog = "\<lambda>pid_batch pid_head pid_m OUT. rotary_kernel rnd (if inplace then OUT else x) COS SIN cu off seqlen
    (2 * half) seqlen_ro (rotary_block_k (2 * half)) il cj ?BM pid_m pid_batch pid_head OUT"
  let ?get = "\<lambda>OUT :: tensor4. OUT b s h"
  have BM: "0 < ?BM" by (simp add: rotary_block_m_def)
  have n: "n < batch" and sq: "in_seq cu seqlen n b s" and len: "seq_len cu seqlen n \<le> seqlen"
    and other: "\<And>n'. n' < batch \<Longrightarrow> n' \<noteq> n \<Longrightarrow> \<not> in_seq cu seqlen n' b s"
    using row by (auto simp: sequence_row_def)
  have m: "(s - seq_start cu n) div ?BM < cdiv seqlen ?BM"
    using sq len by (intro block_in_cdiv BM) (auto simp: in_seq_def)
  have inner: "?get (for_loop (cdiv seqlen ?BM) (?prog n h) OUT) = ?G (?get OUT)" for OUT
  proof (rule launch_applies [where get = ?get and G = ?G and m = "(s - seq_start cu n) div ?BM"])
    show "?get (?prog n h ((s - seq_start cu n) div ?BM) OUT) = ?G (?get OUT)" for OUT
      using sq by (simp add: kernel_row_fun [OF BM])
    show "?get (?prog n h m OUT) = ?get OUT" if "m \<noteq> (s - seq_start cu n) div ?BM" for m OUT
      using that by (auto simp: kernel_row_fun [OF BM])
  qed (rule m)
  have skip: "?get (for_loop k (?prog n' h') OUT) = ?get OUT" if "h' \<noteq> h \<or> n' \<noteq> n" "n' < batch" for k n' h' OUT
    using that other by (intro launch_keeps [where get = ?get]) (auto simp: kernel_row_fun [OF BM])
  have heads: "?get (for_loop nheads (\<lambda>pid_head. for_loop (cdiv seqlen ?BM) (?prog n pid_head)) OUT) = ?G (?get OUT)" for OUT
    using n by (intro launch_applies [where get = ?get and G = ?G and m = h] inner skip h) auto
  have "?get (for_loop batch (\<lambda>pid_batch. for_loop nheads (\<lambda>pid_head. for_loop (cdiv seqlen ?BM) (?prog pid_batch pid_head))) output)
      = ?G (?get output)"
    by (intro launch_applies [where get = ?get and G = ?G and m = n] heads n launch_keeps [where get = ?get] skip) auto
  then show ?thesis by (simp add: rotary_launch_def Let_def)
qed

lemma block_k_covers:
  assumes "2 * half \<le> 256"
  shows "covered half (rotary_block_k (2 * half)) il d \<longleftrightarrow> d < 2 * half"
  using assms by (auto simp: covered_def rotary_block_k_def)

lemma block_k_large:
  assumes "256 < 2 * half"
  shows "covered half (rotary_block_k (2 * half)) il d \<longleftrightarrow>
    (if il then d < 256 else d < 128 \<or> (half \<le> d \<and> d < half + 128))"
  using assms by (auto simp: covered_def rotary_block_k_def)

lemma apply_rotary_Inr:
  assumes "apply_rotary rnd fresh x c sn off cu max_seqlen il inplace cj = Inr y"
  obtains batch seqlen nheads headdim seqlen_ro half where
    "rotary_dims (rt_shape x) cu max_seqlen = Inr (batch, seqlen, nheads, headdim)"
    "tb_shape c = [seqlen_ro, half]" "tb_shape sn = [seqlen_ro, half]" "2 * half \<le> headdim" "seqlen \<le> seqlen_ro"
    "tb_dtype c = tb_dtype sn" "rt_dtype x = tb_dtype c"
    "case off of TensorOffset ns \<Rightarrow> length ns = batch | IntOffset n \<Rightarrow> n + seqlen \<le> seqlen_ro"
    "y = x\<lparr>rt_data := rotary_launch rnd (rt_data x) inplace (tb_data c) (tb_data sn) cu off seqlen (2 * half)
        seqlen_ro il cj batch nheads
        (if inplace then rt_data x
         else (\<lambda>b s h d. if 2 * half < headdim \<and> 2 * half \<le> d then rt_data x b s h d else fresh b s h d))\<rparr>"
proof -
  obtain batch seqlen nheads headdim where d: "rotary_dims (rt_shape x) cu max_seqlen = Inr (batch, seqlen, nheads, headdim)"
    using assms by (auto simp: apply_rotary_def rbind_eq_Inr)
  obtain seqlen_ro half where s: "tb_shape c = [seqlen_ro, half]"
    using assms d by (auto simp: apply_rotary_def split: list.splits)
  show ?thesis
    using assms d s
    by (intro that [OF d s])
      (auto simp: apply_rotary_def Let_def mult.commute [of half 2] split: if_splits seq_offsets.splits)
qed

lemma apply_rotary_row:
  assumes a: "apply_rotary rnd fresh x c sn off cu max_seqlen il inplace cj = Inr y"
    and d: "rotary_dims (rt_shape x) cu max_seqlen = Inr (batch, seqlen, nheads, headdim)"
    and c: "tb_shape c = [seqlen_ro, half]" "2 * half \<le> 256"
    and row: "sequence_row cu seqlen batch n b s" and h: "h < nheads" and dd: "e < headdim"
  shows "rt_data y b s h e =
    (if e < 2 * half
     then rnd (pair_rotation half il cj (table_row (tb_data c) seqlen_ro 1 (s - seq_start cu n + offset_at off n))
       (table_row (tb_data sn) seqlen_ro 0 (s - seq_start cu n + offset_at off n)) (rt_data x b s h) e)
     else rt_data x b s h e)"
proof -
  obtain batch' seqlen' nheads' headdim' seqlen_ro' half' where
    d': "rotary_dims (rt_shape x) cu max_seqlen = Inr (batch', seqlen', nheads', headdim')"
    and c': "tb_shape c = [seqlen_ro', half']" and
    y: "y = x\<lparr>rt_data := rotary_launch rnd (rt_data x) inplace (tb_data c) (tb_data sn) cu off seqlen' (2 * half')
        seqlen_ro' il cj batch' nheads'
        (if inplace then rt_data x
         else (\<lambda>b s h d. if 2 * half' < headdim' \<and> 2 * half' \<le> d then rt_data x b s h d else fresh b s h d))\<rparr>"
    by (rule apply_rotary_Inr [OF a])
  have eqs: "batch' = batch" "seqlen' = seqlen" "nheads' = nheads" "headdim' = headdim" "half' = half" "seqlen_ro' = seqlen_ro"
    using d d' c c' by simp_all
  show ?thesis
    using rotary_launch_row [OF row h] dd
    by (auto simp: y eqs rotated_row_def block_k_covers [OF c(2)])
qed

section \<open>The autograd function\<close>

record rotary_ctx =
  ctx_cos :: rtable
  ctx_sin :: rtable
  ctx_cu_seqlens :: "nat list option"
  ctx_offsets :: seq_offsets
  ctx_interleaved :: bool
  ctx_inplace :: bool
  ctx_max_seqlen :: "nat option"

definition ApplyRotaryEmb_forward :: "(real \<Rightarrow> real) \<Rightarrow> tensor4 \<Rightarrow> rtensor \<Rightarrow> rtable \<Rightarrow> rtable \<Rightarrow> bool \<Rightarrow> bool \<Rightarrow> seq_offsets
    \<Rightarrow> nat list option \<Rightarrow> nat option \<Rightarrow> (rtensor \<times> rotary_ctx) result" where
  "ApplyRotaryEmb_forward rnd fresh x cosine sine interleaved inplace seqlen_offsets cu_seqlens max_seqlen =
     rbind (apply_rotary rnd fresh x cosine sine seqlen_offsets cu_seqlens max_seqlen interleaved inplace False) (\<lambda>out.
     Inr (out, \<lparr>ctx_cos = cosine, ctx_sin = sine, ctx_cu_seqlens = cu_seqlens, ctx_offsets = seqlen_offsets,
       ctx_interleaved = interleaved, ctx_inplace = inplace, ctx_max_seqlen = max_seqlen\<rparr>))"

definition ApplyRotaryEmb_backward :: "(real \<Rightarrow> real) \<Rightarrow> tensor4 \<Rightarrow> rotary_ctx \<Rightarrow> rtensor \<Rightarrow> rtensor result" where
  "ApplyRotaryEmb_backward rnd fresh ctx dout =
     apply_rotary rnd fresh dout (ctx_cos ctx) (ctx_sin ctx) (ctx_offsets ctx) (ctx_cu_seqlens ctx)
       (ctx_max_seqlen ctx) (ctx_interleaved ctx) (ctx_inplace ctx) True"

section \<open>The module and its table cache\<close>

record table_cache =
  tc_table :: rtable
  tc_device :: nat
  tc_inference :: bool

record rotary_embedding =
  re_dim :: nat
  re_base :: real
  re_interleaved :: bool
  re_scale_base :: "real option"
  re_pos_idx_in_fp32 :: bool
  re_training :: bool
  re_inv_freq :: vec
  re_inv_freq_fp32 :: bool
  re_scale :: vec
  seq_len_cached :: nat
  cos_cached :: "table_cache option"
  sin_cached :: "table_cache option"
  cos_k_cached :: "table_cache option"
  sin_k_cached :: "table_cache option"

definition compute_inv_freq :: "real \<Rightarrow> nat \<Rightarrow> vec" where
  "compute_inv_freq base rdim = (\<lambda>k. 1 / base powr (real (2 * k) / real rdim))"

text \<open>The number of elements of \<open>arange(0, dim, 2)\<close>.\<close>

definition half_dim :: "nat \<Rightarrow> nat" where
  "half_dim rdim = cdiv rdim 2"

definition RotaryEmbedding_init :: "nat \<Rightarrow> real \<Rightarrow> bool \<Rightarrow> real option \<Rightarrow> bool \<Rightarrow> rotary_embedding" where
  "RotaryEmbedding_init rdim base interleaved scale_base pos_idx_in_fp32 =
     \<lparr>re_dim = rdim, re_base = base, re_interleaved = interleaved, re_scale_base = scale_base,
      re_pos_idx_in_fp32 = pos_idx_in_fp32, re_training = True,
      re_inv_freq = compute_inv_freq base rdim, re_inv_freq_fp32 = True,
      re_scale = (\<lambda>k. (real (2 * k) + 0.4 * real rdim) / (1.4 * real rdim)),
      seq_len_cached = 0, cos_cached = None, sin_cached = None, cos_k_cached = None, sin_k_cached = None\<rparr>"

text \<open>
  Roundings: \<open>rnd_to dtype\<close> is the cast to a dtype, \<open>rnd_low\<close> the cast of a computation in the dtype of
  \<open>inv_freq\<close>; \<open>inference\<close> says whether the call runs in inference mode.
\<close>

record rotary_env =
  rnd_to :: "nat \<Rightarrow> real \<Rightarrow> real"
  rnd_low :: "real \<Rightarrow> real"
  env_inference :: bool
  env_fresh :: tensor4

definition stale :: "rotary_embedding \<Rightarrow> nat \<Rightarrow> nat \<Rightarrow> nat \<Rightarrow> bool" where
  "stale re seqlen device dtype =
     (seqlen > seq_len_cached re \<or>
      (case cos_cached re of
         None \<Rightarrow> True
       | Some c \<Rightarrow> tc_device c \<noteq> device \<or> tb_dtype (tc_table c) \<noteq> dtype \<or> (re_training re \<and> tc_inference c)))"

definition update_cos_sin_cache :: "rotary_env \<Rightarrow> rotary_embedding \<Rightarrow> nat \<Rightarrow> nat \<Rightarrow> nat \<Rightarrow> rotary_embedding" where
  "update_cos_sin_cache E re seqlen device dtype =
     (if \<not> stale re seqlen device dtype then re
      else let inv_freq = (if re_pos_idx_in_fp32 re \<and> \<not> re_inv_freq_fp32 re
                           then compute_inv_freq (re_base re) (re_dim re) else re_inv_freq re);
               freqs = (\<lambda>r k. if re_pos_idx_in_fp32 re then real r * inv_freq k
                              else rnd_low E (rnd_low E (real r) * inv_freq k));
               table = (\<lambda>f. Some \<lparr>tc_table = \<lparr>tb_shape = [seqlen, half_dim (re_dim re)], tb_dtype = dtype,
                                     tb_data = (\<lambda>r k. rnd_to E dtype (f r k))\<rparr>,
                                  tc_device = device, tc_inference = env_inference E\<rparr>);
               re = re\<lparr>seq_len_cached := seqlen\<rparr>
           in case re_scale_base re of
                None \<Rightarrow> re\<lparr>cos_cached := table (\<lambda>r k. cos (freqs r k)), sin_cached := table (\<lambda>r k. sin (freqs r k))\<rparr>
              | Some scale_base \<Rightarrow>
                  (let power = (\<lambda>r. (real r - real (seqlen div 2)) / scale_base);
                       scale = (\<lambda>r k. re_scale re k powr power r)
                   in re\<lparr>cos_cached := table (\<lambda>r k. cos (freqs r k) * scale r k),
                         sin_cached := table (\<lambda>r k. sin (freqs r k) * scale r k),
                         cos_k_cached := table (\<lambda>r k. cos (freqs r k) / scale r k),
                         sin_k_cached := table (\<lambda>r k. sin (freqs r k) / scale r k)\<rparr>))"

text \<open>\<open>apply_rotary_emb_func\<close> with the tables of the module; a missing table raises on \<open>None.shape\<close>.\<close>

definition apply_cached :: "rotary_env \<Rightarrow> rotary_embedding \<Rightarrow> table_cache option \<Rightarrow> table_cache option \<Rightarrow> seq_offsets
    \<Rightarrow> rtensor \<Rightarrow> rtensor result" where
  "apply_cached E re c s seqlen_offset x =
     (case (c, s) of
        (Some c, Some s) \<Rightarrow>
          rbind (ApplyRotaryEmb_forward (rnd_to E (rt_dtype x)) (env_fresh E) x (tc_table c) (tc_table s)
                   (re_interleaved re) False seqlen_offset None None) (\<lambda>(out, ctx). Inr out)
      | _ \<Rightarrow> Inl AttributeError)"

definition RotaryEmbedding_forward :: "rotary_env \<Rightarrow> rotary_embedding \<Rightarrow> nat \<Rightarrow> rtensor \<Rightarrow> rtensor \<Rightarrow> seq_offsets \<Rightarrow> nat option
    \<Rightarrow> rotary_embedding \<times> (rtensor \<times> rtensor) result" where
  "RotaryEmbedding_forward E re device q k seqlen_offset max_seqlen =
     (if length (rt_shape q) < 2 then (re, Inl IndexError)
      else let seqlen = rt_shape q ! 1;
               re = (case max_seqlen of
                       Some m \<Rightarrow> update_cos_sin_cache E re m device (rt_dtype q)
                     | None \<Rightarrow> (case seqlen_offset of
                                 IntOffset n \<Rightarrow> update_cos_sin_cache E re (seqlen + n) device (rt_dtype q)
                               | TensorOffset ns \<Rightarrow> re))
           in (re, rbind (apply_cached E re (cos_cached re) (sin_cached re) seqlen_offset q) (\<lambda>q.
                   rbind (if re_scale_base re = None
                          then apply_cached E re (cos_cached re) (sin_cached re) seqlen_offset k
                          else apply_cached E re (cos_k_cached re) (sin_k_cached re) seqlen_offset k) (\<lambda>k.
                   Inr (q, k)))))"

text \<open>The state of the cache: a table of \<open>seq_len_cached\<close> rows for the frequencies of the module.\<close>

definition rel_scale :: "rotary_embedding \<Rightarrow> real \<Rightarrow> nat \<Rightarrow> real" where
  "rel_scale re p k = (case re_scale_base re of None \<Rightarrow> 1 | Some sb \<Rightarrow> re_scale re k powr (p / sb))"

definition table_is :: "rotary_embedding \<Rightarrow> real \<Rightarrow> (real \<Rightarrow> real) \<Rightarrow> table_cache option \<Rightarrow> bool" where
  "table_is re sg f tc \<longleftrightarrow> (\<exists>c. tc = Some c \<and> tb_shape (tc_table c) = [seq_len_cached re, half_dim (re_dim re)] \<and>
     (\<forall>r k. tb_data (tc_table c) r k = f (real r * compute_inv_freq (re_base re) (re_dim re) k) *
        rel_scale re (sg * (real r - real (seq_len_cached re div 2))) k))"

definition cache_ok :: "rotary_embedding \<Rightarrow> bool" where
  "cache_ok re \<longleftrightarrow> re_pos_idx_in_fp32 re \<and>
     (re_inv_freq_fp32 re \<longrightarrow> re_inv_freq re = compute_inv_freq (re_base re) (re_dim re)) \<and>
     (cos_cached re \<noteq> None \<longrightarrow>
       table_is re 1 cos (cos_cached re) \<and> table_is re 1 sin (sin_cached re) \<and>
       (re_scale_base re \<noteq> None \<longrightarrow>
         table_is re (-1) cos (cos_k_cached re) \<and> table_is re (-1) sin (sin_k_cached re)))"

definition exact_env :: "rotary_env \<Rightarrow> bool" where
  "exact_env E \<longleftrightarrow> (\<forall>dtype. rnd_to E dtype = (\<lambda>x. x))"

lemma div_powr: "f / s powr ((a - b) / c) = f * s powr ((b - a) / c)" for s :: real
proof -
  have "(b - a) / c = - ((a - b) / c)" by (simp add: diff_divide_distrib)
  then show ?thesis by (simp only: powr_minus divide_inverse)
qed

lemma update_cache_ok:
  assumes E: "exact_env E" and ok: "cache_ok re"
  shows "cache_ok (update_cos_sin_cache E re seqlen device dtype)"
proof (cases "stale re seqlen device dtype")
  case False
  then show ?thesis using ok by (simp add: update_cos_sin_cache_def)
next
  case True
  let ?inv = "compute_inv_freq (re_base re) (re_dim re)"
  have pos: "re_pos_idx_in_fp32 re" and inv: "(if re_pos_idx_in_fp32 re \<and> \<not> re_inv_freq_fp32 re
      then ?inv else re_inv_freq re) = ?inv"
    and i: "re_inv_freq_fp32 re \<longrightarrow> re_inv_freq re = ?inv"
    using ok by (auto simp: cache_ok_def)
  have r: "rnd_to E dtype = (\<lambda>x. x)" using E by (simp add: exact_env_def)
  show ?thesis
  proof (cases "re_scale_base re")
    case None
    then show ?thesis
      using True pos i unfolding update_cos_sin_cache_def inv
      by (simp add: Let_def cache_ok_def table_is_def rel_scale_def r)
  next
    case (Some sb)
    then show ?thesis
      using True pos i unfolding update_cos_sin_cache_def inv
      by (simp add: Let_def cache_ok_def table_is_def rel_scale_def r div_powr)
  qed
qed

lemma update_keeps:
  "re_dim (update_cos_sin_cache E re m dv dt) = re_dim re" "re_base (update_cos_sin_cache E re m dv dt) = re_base re"
  "re_scale_base (update_cos_sin_cache E re m dv dt) = re_scale_base re"
  "re_scale (update_cos_sin_cache E re m dv dt) = re_scale re"
  "re_interleaved (update_cos_sin_cache E re m dv dt) = re_interleaved re"
  by (simp_all add: update_cos_sin_cache_def Let_def split: option.split)

section \<open>Pairs of elements and relative positions\<close>

definition pair_lo :: "bool \<Rightarrow> nat \<Rightarrow> nat" where
  "pair_lo il k = (if il then 2 * k else k)"

definition pair_hi :: "bool \<Rightarrow> nat \<Rightarrow> nat \<Rightarrow> nat" where
  "pair_hi il half k = (if il then 2 * k + 1 else k + half)"

definition rel_score :: "rotary_embedding \<Rightarrow> nat \<Rightarrow> real \<Rightarrow> vec \<Rightarrow> vec \<Rightarrow> real" where
  "rel_score re half p x y =
     (let il = re_interleaved re; theta = compute_inv_freq (re_base re) (re_dim re) in
      \<Sum>k<half. rel_scale re p k *
        ((x (pair_lo il k) * y (pair_lo il k) + x (pair_hi il half k) * y (pair_hi il half k)) * cos (p * theta k)
         + (x (pair_lo il k) * y (pair_hi il half k) - x (pair_hi il half k) * y (pair_lo il k)) * sin (p * theta k)))"

lemma sum_pairs:
  fixes f :: "nat \<Rightarrow> real"
  shows "(\<Sum>d<2 * half. f d) = (\<Sum>k<half. f (pair_lo il k) + f (pair_hi il half k))"
proof (cases il)
  case True
  have "(\<Sum>d<2 * n. f d) = (\<Sum>k<n. f (2 * k) + f (2 * k + 1))" for n
    by (induction n) (simp_all add: add.assoc)
  then show ?thesis using True by (simp add: pair_lo_def pair_hi_def)
next
  case False
  have "(\<Sum>d<half + half. f d) = (\<Sum>k<half. f k + f (half + k))"
    by (simp add: sum_lessThan_add sum.distrib)
  then show ?thesis using False by (simp add: pair_lo_def pair_hi_def add.commute mult_2)
qed

lemma pair_rotation_pairs:
  assumes "k < half"
  shows "pair_rotation half il cj c sn x (pair_lo il k) =
      x (pair_lo il k) * c k - x (pair_hi il half k) * ((if cj then -1 else 1) * sn k)"
    and "pair_rotation half il cj c sn x (pair_hi il half k) =
      x (pair_lo il k) * ((if cj then -1 else 1) * sn k) + x (pair_hi il half k) * c k"
  using assms by (simp_all add: pair_rotation_def pair_lo_def pair_hi_def Let_def)

lemma pair_bounds: "k < half \<Longrightarrow> pair_lo il k < 2 * half \<and> pair_hi il half k < 2 * half"
  by (auto simp: pair_lo_def pair_hi_def)

lemma rotated_pair_product:
  fixes x0 x1 y0 y1 a b s t :: real
  shows "(x0 * (cos a * s) - x1 * (sin a * s)) * (y0 * (cos b * t) - y1 * (sin b * t))
      + (x0 * (sin a * s) + x1 * (cos a * s)) * (y0 * (sin b * t) + y1 * (cos b * t))
    = s * t * ((x0 * y0 + x1 * y1) * cos (a - b) + (x0 * y1 - x1 * y0) * sin (a - b))"
  by (simp add: cos_diff sin_diff algebra_simps)

lemma padded_row:
  "s < seqlen \<Longrightarrow> b < batch \<Longrightarrow> sequence_row None seqlen batch b b s"
  by (auto simp: sequence_row_def in_seq_def seq_batch_def seq_start_def seq_len_def)

lemma cached_row:
  assumes E: "exact_env E"
    and a: "apply_cached E re tc ts (IntOffset n) x = Inr y"
    and x: "rt_shape x = [B, L, H, D]" and half: "2 * half_dim (re_dim re) \<le> 256"
    and t: "table_is re sg cos tc" "table_is re sg sin ts"
    and i: "b < B" "i < L" "h < H"
  shows "2 * half_dim (re_dim re) \<le> D \<and>
    (\<forall>d < D. rt_data y b i h d =
      (if d < 2 * half_dim (re_dim re)
       then pair_rotation (half_dim (re_dim re)) (re_interleaved re) False
         (\<lambda>k. cos (real (i + n) * compute_inv_freq (re_base re) (re_dim re) k)
            * rel_scale re (sg * (real (i + n) - real (seq_len_cached re div 2))) k)
         (\<lambda>k. sin (real (i + n) * compute_inv_freq (re_base re) (re_dim re) k)
            * rel_scale re (sg * (real (i + n) - real (seq_len_cached re div 2))) k) (rt_data x b i h) d
       else rt_data x b i h d))"
proof -
  obtain c s where c: "tc = Some c" "tb_shape (tc_table c) = [seq_len_cached re, half_dim (re_dim re)]"
      "\<And>r k. tb_data (tc_table c) r k = cos (real r * compute_inv_freq (re_base re) (re_dim re) k) *
        rel_scale re (sg * (real r - real (seq_len_cached re div 2))) k"
    and s: "ts = Some s" "tb_shape (tc_table s) = [seq_len_cached re, half_dim (re_dim re)]"
      "\<And>r k. tb_data (tc_table s) r k = sin (real r * compute_inv_freq (re_base re) (re_dim re) k) *
        rel_scale re (sg * (real r - real (seq_len_cached re div 2))) k"
    using t by (auto simp: table_is_def)
  have ap: "apply_rotary (\<lambda>x. x) (env_fresh E) x (tc_table c) (tc_table s) (IntOffset n) None None
      (re_interleaved re) False False = Inr y"
    using a E by (auto simp: apply_cached_def c(1) s(1) ApplyRotaryEmb_forward_def rbind_eq_Inr exact_env_def)
  have d: "rotary_dims (rt_shape x) None None = Inr (B, L, H, D)" by (simp add: rotary_dims_def x)
  have "n + L \<le> seq_len_cached re" and D: "2 * half_dim (re_dim re) \<le> D"
    using ap by (auto simp: apply_rotary_def d c(2) Let_def split: if_splits)
  then have pos: "i + n < seq_len_cached re" using i by linarith
  have "rt_data y b i h e =
    (if e < 2 * half_dim (re_dim re)
     then pair_rotation (half_dim (re_dim re)) (re_interleaved re) False
       (table_row (tb_data (tc_table c)) (seq_len_cached re) 1 (i + n))
       (table_row (tb_data (tc_table s)) (seq_len_cached re) 0 (i + n)) (rt_data x b i h) e
     else rt_data x b i h e)" if "e < D" for e
    using apply_rotary_row [OF ap d c(2) half padded_row [OF i(2,1)] i(3) that]
    by (simp add: seq_start_def offset_at_def)
  then show ?thesis using D pos by (simp add: table_row_def c(3) s(3))
qed

text \<open>Every call of the rotary module keeps its cache consistent: the cached tables have
  \<open>seq_len_cached\<close> rows and hold the cosines and sines of the module's frequencies, scaled about the
  middle of that length, whatever sequence lengths, devices and dtypes the calls had.\<close>

theorem rotary_cache_invariant:
  assumes "exact_env E" "cache_ok re"
  shows "cache_ok (fst (RotaryEmbedding_forward E re device q k seqlen_offset max_seqlen)) \<and>
    cache_ok (RotaryEmbedding_init rdim base interleaved scale_base True)"
proof -
  have "cache_ok (RotaryEmbedding_init rdim base interleaved scale_base True)"
    by (simp add: cache_ok_def RotaryEmbedding_init_def)
  then show ?thesis
    using update_cache_ok [OF assms] assms(2)
    by (auto simp: RotaryEmbedding_forward_def Let_def split: option.split seq_offsets.split)
qed

text \<open>C38: Attention scores of rotated queries and keys depend on the relative position only.  Take a module that
  computes positions in fp32 (\<open>pos_idx_in_fp32=True\<close>; with positions in bf16 it does not hold), a rotary dimension of at most 256, the
  width the kernel writes, positive XPos scales, cached tables that are absent or its own, and arithmetic without rounding.  After a call
  with one integer offset for queries and keys, the dot product of a query row at position
  \<open>i\<close> and a key row at position \<open>j\<close> over the rotated dimensions is the score of the unrotated rows at
  distance \<open>i - j\<close>, with the XPos decay of that distance when a scale base is set.\<close>

theorem rotary_scores_are_relative:
  assumes E: "exact_env E" and ok: "cache_ok re"
    and fwd: "RotaryEmbedding_forward E re device q k (IntOffset n) max_seqlen = (re', Inr (q', k'))"
    and shapes: "rt_shape q = [B, L, H, D]" "rt_shape k = [B', L', H', D']"
    and half: "2 * half_dim (re_dim re) \<le> 256" and pos: "\<And>m. 0 < re_scale re m"
    and i: "b < B" "i < L" "h < H" and j: "b' < B'" "j < L'" "h' < H'"
  shows "(\<Sum>d<2 * half_dim (re_dim re). rt_data q' b i h d * rt_data k' b' j h' d) =
    rel_score re (half_dim (re_dim re)) (real i - real j) (rt_data q b i h) (rt_data k b' j h')"
proof -
  let ?half = "half_dim (re_dim re)" and ?il = "re_interleaved re"
  let ?th = "compute_inv_freq (re_base re) (re_dim re)" and ?mid = "real (seq_len_cached re' div 2)"
  let ?x = "rt_data q b i h" and ?y = "rt_data k b' j h'"
  let ?S = "\<lambda>m. rel_scale re (1 * (real (i + n) - ?mid)) m"
  let ?T = "\<lambda>m. rel_scale re ((if re_scale_base re = None then 1 else -1) * (real (j + n) - ?mid)) m"
  obtain m where re': "re' = update_cos_sin_cache E re m device (rt_dtype q)"
    and q': "apply_cached E re' (cos_cached re') (sin_cached re') (IntOffset n) q = Inr q'"
    and k': "(if re_scale_base re' = None then apply_cached E re' (cos_cached re') (sin_cached re') (IntOffset n) k
              else apply_cached E re' (cos_k_cached re') (sin_k_cached re') (IntOffset n) k) = Inr k'"
    using fwd by (auto simp: RotaryEmbedding_forward_def Let_def rbind_eq_Inr split: if_splits option.splits)
  have ok': "cache_ok re'" unfolding re' by (rule update_cache_ok [OF E ok])
  have keep: "re_dim re' = re_dim re" "re_base re' = re_base re" "re_scale_base re' = re_scale_base re"
    "re_scale re' = re_scale re" "re_interleaved re' = re_interleaved re" "rel_scale re' = rel_scale re"
    by (simp_all add: re' update_keeps rel_scale_def fun_eq_iff split: option.split)
  have half': "2 * half_dim (re_dim re') \<le> 256" using half keep by simp
  have some: "cos_cached re' \<noteq> None" using q' by (cases "cos_cached re'") (auto simp: apply_cached_def)
  note tabs = ok' [unfolded cache_ok_def] some
  have Q: "rt_data q' b i h d = pair_rotation ?half ?il False (\<lambda>m. cos (real (i + n) * ?th m) * ?S m)
      (\<lambda>m. sin (real (i + n) * ?th m) * ?S m) ?x d" if "d < 2 * ?half" for d
    using cached_row [where sg = 1, OF E q' shapes(1) half' _ _ i] tabs that by (simp add: keep)
  have K: "rt_data k' b' j h' d = pair_rotation ?half ?il False (\<lambda>m. cos (real (j + n) * ?th m) * ?T m)
      (\<lambda>m. sin (real (j + n) * ?th m) * ?T m) ?y d" if "d < 2 * ?half" for d
  proof (cases "re_scale_base re = None")
    case True
    then have "apply_cached E re' (cos_cached re') (sin_cached re') (IntOffset n) k = Inr k'"
      using k' keep(3) by simp
    from cached_row [where sg = 1, OF E this shapes(2) half' _ _ j] tabs True that show ?thesis
      by (simp add: keep)
  next
    case False
    have kk: "apply_cached E re' (cos_k_cached re') (sin_k_cached re') (IntOffset n) k = Inr k'"
      using k' unfolding keep(3) if_not_P [OF False] .
    obtain sb where "re_scale_base re = Some sb" using False by blast
    then show ?thesis
      using cached_row [where sg = "-1", OF E kk shapes(2) half' _ _ j] tabs that by (simp add: keep)
  qed
  have ST: "?S m * ?T m = rel_scale re (real i - real j) m" for m
  proof (cases "re_scale_base re")
    case None
    then show ?thesis by (simp add: rel_scale_def)
  next
    case (Some sb)
    have "(real (i + n) - ?mid) / sb + (?mid - real (j + n)) / sb = (real i - real j) / sb"
      by (simp add: diff_divide_distrib add_divide_distrib)
    then show ?thesis using Some by (simp add: rel_scale_def flip: powr_add)
  qed
  have "rt_data q' b i h (pair_lo ?il m) * rt_data k' b' j h' (pair_lo ?il m)
      + rt_data q' b i h (pair_hi ?il ?half m) * rt_data k' b' j h' (pair_hi ?il ?half m)
    = ?S m * ?T m * ((?x (pair_lo ?il m) * ?y (pair_lo ?il m) + ?x (pair_hi ?il ?half m) * ?y (pair_hi ?il ?half m))
        * cos (real (i + n) * ?th m - real (j + n) * ?th m)
      + (?x (pair_lo ?il m) * ?y (pair_hi ?il ?half m) - ?x (pair_hi ?il ?half m) * ?y (pair_lo ?il m))
        * sin (real (i + n) * ?th m - real (j + n) * ?th m))" if "m < ?half" for m
    unfolding rotated_pair_product [symmetric]
    using pair_bounds [OF that] by (simp only: Q K pair_rotation_pairs [OF that]) simp
  moreover have "real (i + n) * ?th m - real (j + n) * ?th m = (real i - real j) * ?th m" for m
    by (simp add: algebra_simps)
  ultimately show ?thesis
    unfolding sum_pairs [where il = ?il] rel_score_def Let_def by (intro sum.cong refl) (simp only: lessThan_iff ST)
qed

text \<open>A launch rotates exactly the rows of the sequences: for padded and for packed batches, with an
  integer or a per-sequence offset, each row of sequence \<open>n\<close> gets the rotation of its own position in
  that sequence on the first \<open>rotary_dim\<close> elements and keeps the others, in place or not, as long as
  \<open>rotary_dim\<close> is at most 256.\<close>

theorem apply_rotary_rotates_rows:
  assumes "apply_rotary rnd fresh x c sn off cu max_seqlen il inplace cj = Inr y"
    and "rotary_dims (rt_shape x) cu max_seqlen = Inr (batch, seqlen, nheads, headdim)"
    and "tb_shape c = [seqlen_ro, half]" "2 * half \<le> 256"
    and "sequence_row cu seqlen batch n b s" and "h < nheads" and "e < headdim"
  shows "rt_data y b s h e =
    (if e < 2 * half
     then rnd (pair_rotation half il cj (table_row (tb_data c) seqlen_ro 1 (s - seq_start cu n + offset_at off n))
       (table_row (tb_data sn) seqlen_ro 0 (s - seq_start cu n + offset_at off n)) (rt_data x b s h) e)
     else rt_data x b s h e)"
  by (rule apply_rotary_row [OF assms])

text \<open>On a padded batch without offset the kernel computes what the PyTorch reference
  \<open>apply_rotary_emb_torch\<close> does, for both layouts of the pairs, in exact arithmetic.\<close>

theorem rotary_matches_torch:
  assumes a: "apply_rotary (\<lambda>v. v) fresh x c sn (IntOffset 0) None None il inplace False = Inr y"
    and x: "rt_shape x = [batch, seqlen, nheads, headdim]" and c: "tb_shape c = [seqlen, half]" "2 * half \<le> 256"
  shows "\<exists>r. apply_rotary_emb_torch x (torch_table c) (torch_table sn) il = Inr r \<and>
    (\<forall>b < batch. \<forall>s < seqlen. \<forall>h < nheads. \<forall>e < headdim. rt_data y b s h e = r b s h e)"
proof -
  have d: "rotary_dims (rt_shape x) None None = Inr (batch, seqlen, nheads, headdim)" by (simp add: rotary_dims_def x)
  have sn: "tb_shape sn = [seqlen, half]" and hd': "2 * half \<le> headdim"
    using a by (auto simp: apply_rotary_def d c Let_def split: if_splits)
  define r where "r = (\<lambda>b s h e. if e < half * 2
    then rt_data x b s h e * tb_data c (if seqlen = 1 then 0 else s) (if \<not> il then e mod half else e div 2)
      + rotate_half (half * 2) il (rt_data x b s h) e * tb_data sn (if seqlen = 1 then 0 else s) (if \<not> il then e mod half else e div 2)
    else rt_data x b s h e)"
  have ref: "apply_rotary_emb_torch x (torch_table c) (torch_table sn) il = Inr r"
    using hd' unfolding r_def apply_rotary_emb_torch_def torch_table_def table_dims_def by (simp add: x c sn Let_def del: One_nat_def)
  have "rt_data y b s h e = r b s h e" if "b < batch" "s < seqlen" "h < nheads" "e < headdim" for b s h e
  proof -
    have row: "(if seqlen = 1 then 0 else s) = s" using that by simp
    have "rt_data y b s h e = (if e < 2 * half
       then pair_rotation half il False (table_row (tb_data c) seqlen 1 s) (table_row (tb_data sn) seqlen 0 s) (rt_data x b s h) e
       else rt_data x b s h e)"
      using apply_rotary_row [OF a d c padded_row [OF that(2,1)] that(3,4)]
      by (simp add: seq_start_def offset_at_def)
    also have "\<dots> = r b s h e"
    proof (cases "e < 2 * half")
      case True
      have tr: "table_row M seqlen v s = M s" for M v using that by (simp add: table_row_def fun_eq_iff)
      have md: "e mod half = e - half" if "half \<le> e" using True that by (simp add: le_mod_geq)
      show ?thesis
        using True unfolding r_def row tr pair_rotation_def rotate_half_def Let_def
        by (auto simp: md even_iff_mod_2_eq_zero mult.commute [of half])
    next
      case False
      then show ?thesis by (simp add: r_def mult.commute [of half])
    qed
    finally show ?thesis .
  qed
  then show ?thesis using ref by blast
qed

text \<open>C39: The backward pass inverts the forward pass, for a rotary dimension of at most 256, the width one
  program of the kernel writes, and arithmetic without rounding: for tables of cosines and sines of the same angles,
  \<open>backward\<close> applied to the output of \<open>forward\<close> with the saved context returns the input on every row of
  every sequence, for padded and packed batches, both layouts, in place or not.\<close>

theorem rotary_backward_inverts:
  assumes f: "ApplyRotaryEmb_forward (\<lambda>v. v) fresh x c sn il inplace off cu max_seqlen = Inr (y, ctx)"
    and g: "ApplyRotaryEmb_backward (\<lambda>v. v) fresh' ctx y = Inr z"
    and unit: "\<And>p k. (tb_data c p k)\<^sup>2 + (tb_data sn p k)\<^sup>2 = 1"
    and d: "rotary_dims (rt_shape x) cu max_seqlen = Inr (batch, seqlen, nheads, headdim)"
    and c: "tb_shape c = [seqlen_ro, half]" "2 * half \<le> 256"
    and row: "sequence_row cu seqlen batch n b s" and h: "h < nheads" and e: "e < headdim"
  shows "rt_data z b s h e = rt_data x b s h e"
proof -
  have a1: "apply_rotary (\<lambda>v. v) fresh x c sn off cu max_seqlen il inplace False = Inr y"
    and ctx: "ctx = \<lparr>ctx_cos = c, ctx_sin = sn, ctx_cu_seqlens = cu, ctx_offsets = off,
       ctx_interleaved = il, ctx_inplace = inplace, ctx_max_seqlen = max_seqlen\<rparr>"
    using f by (auto simp: ApplyRotaryEmb_forward_def rbind_eq_Inr)
  have a2: "apply_rotary (\<lambda>v. v) fresh' y c sn off cu max_seqlen il inplace True = Inr z"
    using g by (simp add: ApplyRotaryEmb_backward_def ctx)
  have "rt_shape y = rt_shape x"
    by (rule apply_rotary_Inr [OF a1]) simp
  then have d2: "rotary_dims (rt_shape y) cu max_seqlen = Inr (batch, seqlen, nheads, headdim)" using d by simp
  have hd': "2 * half \<le> headdim"
    using a1 by (auto simp: apply_rotary_def d c Let_def split: if_splits)
  let ?p = "s - seq_start cu n + offset_at off n"
  let ?c = "table_row (tb_data c) seqlen_ro 1 ?p" and ?s = "table_row (tb_data sn) seqlen_ro 0 ?p"
  have one: "?c k * ?c k + ?s k * ?s k = 1" for k
    using unit [of ?p k] by (simp add: table_row_def power2_eq_square)
  have Y: "rt_data y b s h e = (if e < 2 * half then pair_rotation half il False ?c ?s (rt_data x b s h) e
      else rt_data x b s h e)" if "e < headdim" for e
    using apply_rotary_row [OF a1 d c row h that] .
  have Z: "rt_data z b s h e = (if e < 2 * half then pair_rotation half il True ?c ?s (rt_data y b s h) e
      else rt_data y b s h e)"
    using apply_rotary_row [OF a2 d2 c row h e] .
  show ?thesis
  proof (cases "e < 2 * half")
    case False
    then show ?thesis using Y [OF e] Z by simp
  next
    case True
    obtain k where k: "k < half" "e = pair_lo il k \<or> e = pair_hi il half k"
    proof (cases il)
      case il: True
      have "e = 2 * (e div 2) \<or> e = 2 * (e div 2) + 1" by presburger
      then show thesis using il True by (intro that [of "e div 2"]) (auto simp: pair_lo_def pair_hi_def)
    next
      case il: False
      show thesis
      proof (cases "e < half")
        case lo: True
        then show thesis using il by (intro that [of e]) (simp_all add: pair_lo_def)
      next
        case False
        then show thesis using il True by (intro that [of "e - half"]) (auto simp: pair_hi_def)
      qed
    qed
    let ?lo = "pair_lo il k" and ?hi = "pair_hi il half k" and ?x = "rt_data x b s h"
    have lo: "rt_data y b s h ?lo = ?x ?lo * ?c k - ?x ?hi * ?s k"
      and hi: "rt_data y b s h ?hi = ?x ?lo * ?s k + ?x ?hi * ?c k"
      using pair_bounds [OF k(1), of il] hd' Y [of ?lo] Y [of ?hi] pair_rotation_pairs [OF k(1)] by simp_all
    have "(?x ?lo * ?c k - ?x ?hi * ?s k) * ?c k + (?x ?lo * ?s k + ?x ?hi * ?c k) * ?s k
        = ?x ?lo * (?c k * ?c k + ?s k * ?s k)"
      "(?x ?lo * ?s k + ?x ?hi * ?c k) * ?c k - (?x ?lo * ?c k - ?x ?hi * ?s k) * ?s k
        = ?x ?hi * (?c k * ?c k + ?s k * ?s k)"
      by (simp_all add: algebra_simps)
    then have "pair_rotation half il True ?c ?s (rt_data y b s h) e = ?x e"
      using k(2) pair_rotation_pairs [OF k(1), of il True ?c ?s "rt_data y b s h"] one [of k]
      by (auto simp: lo hi)
    then show ?thesis using Z True by simp
  qed
qed

text \<open>A rotary dimension above 256 is not covered: the block of the launch has at most 256 elements, and
  the output elements outside it keep what \<open>torch.empty_like\<close> left there, with no error raised.\<close>

theorem large_rotary_dim_left_unwritten:
  assumes "apply_rotary rnd fresh x c sn off cu max_seqlen il False cj = Inr y"
    and "rotary_dims (rt_shape x) cu max_seqlen = Inr (batch, seqlen, nheads, headdim)"
    and "tb_shape c = [seqlen_ro, half]" "256 < 2 * half"
    and "sequence_row cu seqlen batch n b s" and "h < nheads"
    and "if il then 256 \<le> e \<and> e < 2 * half else 128 \<le> e \<and> e < half"
  shows "rt_data y b s h e = fresh b s h e"
proof -
  obtain batch' seqlen' nheads' headdim' seqlen_ro' half' where
    d': "rotary_dims (rt_shape x) cu max_seqlen = Inr (batch', seqlen', nheads', headdim')"
    and c': "tb_shape c = [seqlen_ro', half']" and
    y: "y = x\<lparr>rt_data := rotary_launch rnd (rt_data x) False (tb_data c) (tb_data sn) cu off seqlen' (2 * half')
        seqlen_ro' il cj batch' nheads'
        (if False then rt_data x
         else (\<lambda>b s h d. if 2 * half' < headdim' \<and> 2 * half' \<le> d then rt_data x b s h d else fresh b s h d))\<rparr>"
    by (rule apply_rotary_Inr [OF assms(1)])
  have eqs: "batch' = batch" "seqlen' = seqlen" "nheads' = nheads" "headdim' = headdim" "half' = half" "seqlen_ro' = seqlen_ro"
    using assms(2,3) d' c' by simp_all
  have "\<not> covered half (rotary_block_k (2 * half)) il e" "\<not> 2 * half \<le> e"
    using assms(4,7) by (auto simp: block_k_large split: if_splits)
  then show ?thesis
    using rotary_launch_row [OF assms(5,6)] by (simp add: y eqs rotated_row_def)
qed

section \<open>Concrete runs\<close>

definition demo_tensor :: "nat list \<Rightarrow> rtensor" where
  "demo_tensor shape = \<lparr>rt_shape = shape, rt_dtype = 0, rt_data = (\<lambda>b s h d. real (d + 1))\<rparr>"

definition demo_table :: "nat \<Rightarrow> nat \<Rightarrow> real \<Rightarrow> rtable" where
  "demo_table rows half v = \<lparr>tb_shape = [rows, half], tb_dtype = 0, tb_data = (\<lambda>r k. v)\<rparr>"

lemma demo_apply:
  "n \<le> m \<Longrightarrow> 2 * half \<le> D \<Longrightarrow> \<exists>y. apply_rotary rnd fresh (demo_tensor [1, n, 1, D]) (demo_table m half u) (demo_table m half v)
      (IntOffset 0) None None il inplace cj = Inr y"
  by (simp add: apply_rotary_def rotary_dims_def demo_tensor_def demo_table_def Let_def)

definition demo_env :: rotary_env where
  "demo_env = \<lparr>rnd_to = (\<lambda>d x. x), rnd_low = (\<lambda>x. x), env_inference = False, env_fresh = (\<lambda>b s h d. 0)\<rparr>"

lemma demo_exact: "exact_env demo_env"
  by (simp add: exact_env_def demo_env_def)

lemma demo_cache: "cache_ok (RotaryEmbedding_init 2 10000 False None True)"
  by (simp add: cache_ok_def RotaryEmbedding_init_def)

lemma demo_scale: "0 < re_scale (RotaryEmbedding_init 2 10000 False None True) m"
  by (simp add: RotaryEmbedding_init_def add_nonneg_pos)

lemma demo_forward:
  "\<exists>re' q' k'. RotaryEmbedding_forward demo_env (RotaryEmbedding_init 2 10000 False None True) 0
    (demo_tensor [1, 3, 1, 2]) (demo_tensor [1, 3, 1, 2]) (IntOffset 0) None = (re', Inr (q', k'))"
  by (simp add: RotaryEmbedding_forward_def Let_def update_cos_sin_cache_def stale_def RotaryEmbedding_init_def
      apply_cached_def ApplyRotaryEmb_forward_def apply_rotary_def rotary_dims_def demo_tensor_def half_dim_def cdiv_def)

theorem rotary_cache_invariant_witness:
  "cache_ok (fst (RotaryEmbedding_forward demo_env (RotaryEmbedding_init 2 10000 False None True) 0
    (demo_tensor [1, 3, 1, 2]) (demo_tensor [1, 3, 1, 2]) (IntOffset 0) None))"
  using rotary_cache_invariant [OF demo_exact demo_cache] by blast

theorem rotary_scores_are_relative_witness:
  "\<exists>re' q' k'. RotaryEmbedding_forward demo_env (RotaryEmbedding_init 2 10000 False None True) 0
      (demo_tensor [1, 3, 1, 2]) (demo_tensor [1, 3, 1, 2]) (IntOffset 0) None = (re', Inr (q', k')) \<and>
    (\<Sum>d<2. rt_data q' 0 2 0 d * rt_data k' 0 1 0 d) = 5 * cos 1"
proof -
  let ?re = "RotaryEmbedding_init 2 10000 False None True"
  obtain re' q' k' where f: "RotaryEmbedding_forward demo_env ?re 0 (demo_tensor [1, 3, 1, 2]) (demo_tensor [1, 3, 1, 2])
      (IntOffset 0) None = (re', Inr (q', k'))"
    using demo_forward by blast
  have shape: "rt_shape (demo_tensor [1, 3, 1, 2]) = [1, 3, 1, 2]" by (simp add: demo_tensor_def)
  have h: "half_dim (re_dim ?re) = 1" by (simp add: RotaryEmbedding_init_def half_dim_def cdiv_def)
  have "(\<Sum>d<2 * half_dim (re_dim ?re). rt_data q' 0 2 0 d * rt_data k' 0 1 0 d) =
    rel_score ?re (half_dim (re_dim ?re)) (real 2 - real 1) (rt_data (demo_tensor [1, 3, 1, 2]) 0 2 0)
      (rt_data (demo_tensor [1, 3, 1, 2]) 0 1 0)"
    by (rule rotary_scores_are_relative [OF demo_exact demo_cache f shape shape _ demo_scale]) (simp_all add: h)
  then have "(\<Sum>d<2. rt_data q' 0 2 0 d * rt_data k' 0 1 0 d) = 5 * cos 1"
    unfolding h by (simp add: rel_score_def Let_def pair_lo_def pair_hi_def RotaryEmbedding_init_def rel_scale_def
        compute_inv_freq_def demo_tensor_def)
  then show ?thesis using f by blast
qed

theorem apply_rotary_rotates_rows_witness:
  "\<exists>y. apply_rotary (\<lambda>v. v) (\<lambda>b s h d. 0) (demo_tensor [1, 1, 1, 3]) (demo_table 1 1 0) (demo_table 1 1 1)
      (IntOffset 0) None None False False False = Inr y \<and> rt_data y 0 0 0 0 = -2 \<and> rt_data y 0 0 0 2 = 3"
proof -
  obtain y where y: "apply_rotary (\<lambda>v. v) (\<lambda>b s h d. 0) (demo_tensor [1, 1, 1, 3]) (demo_table 1 1 0) (demo_table 1 1 1)
      (IntOffset 0) None None False False False = Inr y"
    using demo_apply [of 1 1 1 3 "\<lambda>v. v" "\<lambda>b s h d. 0" 0 1 False False False] by auto
  have d: "rotary_dims (rt_shape (demo_tensor [1, 1, 1, 3])) None None = Inr (1, 1, 1, 3)"
    by (simp add: rotary_dims_def demo_tensor_def)
  have c: "tb_shape (demo_table 1 1 0) = [1, 1]" by (simp add: demo_table_def)
  have row: "sequence_row None 1 1 0 0 0" by (rule padded_row) simp_all
  have "rt_data y 0 0 0 0 = -2" "rt_data y 0 0 0 2 = 3"
    using apply_rotary_rotates_rows [OF y d c _ row, of 0 0] apply_rotary_rotates_rows [OF y d c _ row, of 0 2]
    by (simp_all add: pair_rotation_def table_row_def seq_start_def offset_at_def demo_tensor_def demo_table_def)
  then show ?thesis using y by blast
qed

theorem rotary_matches_torch_witness:
  "\<exists>y r. apply_rotary (\<lambda>v. v) (\<lambda>b s h d. 0) (demo_tensor [1, 2, 1, 4]) (demo_table 2 2 0) (demo_table 2 2 1)
      (IntOffset 0) None None True True False = Inr y \<and>
    apply_rotary_emb_torch (demo_tensor [1, 2, 1, 4]) (torch_table (demo_table 2 2 0)) (torch_table (demo_table 2 2 1)) True = Inr r \<and>
    rt_data y 0 1 0 3 = r 0 1 0 3"
proof -
  obtain y where y: "apply_rotary (\<lambda>v. v) (\<lambda>b s h d. 0) (demo_tensor [1, 2, 1, 4]) (demo_table 2 2 0) (demo_table 2 2 1)
      (IntOffset 0) None None True True False = Inr y"
    using demo_apply [of 2 2 2 4 "\<lambda>v. v" "\<lambda>b s h d. 0" 0 1 True True False] by auto
  have x: "rt_shape (demo_tensor [1, 2, 1, 4]) = [1, 2, 1, 4]" by (simp add: demo_tensor_def)
  have c: "tb_shape (demo_table 2 2 0) = [2, 2]" by (simp add: demo_table_def)
  obtain r where r: "apply_rotary_emb_torch (demo_tensor [1, 2, 1, 4]) (torch_table (demo_table 2 2 0)) (torch_table (demo_table 2 2 1)) True = Inr r"
    "\<forall>b < 1. \<forall>s < 2. \<forall>h < 1. \<forall>e < 4. rt_data y b s h e = r b s h e"
    using rotary_matches_torch [OF y x c] by auto
  then have "rt_data y 0 1 0 3 = r 0 1 0 3" by simp
  then show ?thesis using y r(1) by blast
qed

theorem rotary_backward_inverts_witness:
  "\<exists>y ctx z. ApplyRotaryEmb_forward (\<lambda>v. v) (\<lambda>b s h d. 0) (demo_tensor [1, 1, 1, 2]) (demo_table 1 1 0) (demo_table 1 1 1)
      False False (IntOffset 0) None None = Inr (y, ctx) \<and>
    ApplyRotaryEmb_backward (\<lambda>v. v) (\<lambda>b s h d. 0) ctx y = Inr z \<and> rt_data z 0 0 0 1 = 2"
proof -
  let ?x = "demo_tensor [1, 1, 1, 2]" and ?c = "demo_table 1 1 0" and ?s = "demo_table 1 1 1"
  have two: "\<exists>y ctx z. ApplyRotaryEmb_forward (\<lambda>v. v) (\<lambda>b s h d. 0) ?x ?c ?s False False (IntOffset 0) None None
        = Inr (y, ctx) \<and> ApplyRotaryEmb_backward (\<lambda>v. v) (\<lambda>b s h d. 0) ctx y = Inr z"
    by (simp add: ApplyRotaryEmb_forward_def ApplyRotaryEmb_backward_def apply_rotary_def rotary_dims_def
        demo_tensor_def demo_table_def Let_def)
  then obtain y ctx z where f: "ApplyRotaryEmb_forward (\<lambda>v. v) (\<lambda>b s h d. 0) ?x ?c ?s False False (IntOffset 0) None None
        = Inr (y, ctx)" and g: "ApplyRotaryEmb_backward (\<lambda>v. v) (\<lambda>b s h d. 0) ctx y = Inr z"
    by blast
  have unit: "(tb_data ?c p k)\<^sup>2 + (tb_data ?s p k)\<^sup>2 = 1" for p k by (simp add: demo_table_def)
  have d: "rotary_dims (rt_shape ?x) None None = Inr (1, 1, 1, 2)" by (simp add: rotary_dims_def demo_tensor_def)
  have c: "tb_shape ?c = [1, 1]" by (simp add: demo_table_def)
  have row: "sequence_row None 1 1 0 0 0" by (rule padded_row) simp_all
  have "rt_data z 0 0 0 1 = rt_data ?x 0 0 0 1"
    by (rule rotary_backward_inverts [OF f g unit d c _ row]) simp_all
  then show ?thesis using f g by (auto simp: demo_tensor_def)
qed

theorem large_rotary_dim_left_unwritten_witness:
  "\<exists>y. apply_rotary (\<lambda>v. v) (\<lambda>b s h d. 77) (demo_tensor [1, 1, 1, 512]) (demo_table 1 256 1) (demo_table 1 256 0)
      (IntOffset 0) None None False False False = Inr y \<and> rt_data y 0 0 0 200 = 77"
proof -
  obtain y where y: "apply_rotary (\<lambda>v. v) (\<lambda>b s h d. 77) (demo_tensor [1, 1, 1, 512]) (demo_table 1 256 1) (demo_table 1 256 0)
      (IntOffset 0) None None False False False = Inr y"
    using demo_apply [of 1 1 256 512 "\<lambda>v. v" "\<lambda>b s h d. 77" 1 0 False False False] by auto
  have d: "rotary_dims (rt_shape (demo_tensor [1, 1, 1, 512])) None None = Inr (1, 1, 1, 512)"
    by (simp add: rotary_dims_def demo_tensor_def)
  have c: "tb_shape (demo_table 1 256 1) = [1, 256]" by (simp add: demo_table_def)
  have row: "sequence_row None 1 1 0 0 0" by (rule padded_row) simp_all
  have "rt_data y 0 0 0 200 = 77"
    using large_rotary_dim_left_unwritten [OF y d c _ row, of 0 200] by simp
  then show ?thesis using y by blast
qed

end
