(* ===== verification/PowerEval.thy ===== *)
theory PowerEval
  imports Complex_Main Prelude "HOL-Library.Product_Lexorder"
begin

text \<open>
  Board-power evaluation: the sampler loop of \<open>scripts/sample_device_power.py\<close> and the integration of
  its trace over benchmark windows in \<open>scripts/aggregate_power_eval.py\<close>.

  A Python float is \<open>Fin\<close> of a real number or one of the values \<open>math.isfinite\<close> rejects; arithmetic
  on finite values is exact.
\<close>

datatype pyfloat = Fin real | NonFinite

section \<open>Loading a trace\<close>

record power_identity =
  id_gpu_uuid :: "string option"
  id_gpu_name :: "string option"

text \<open>One parsed line of the JSON Lines file; \<open>OtherRecord\<close> is a line of another kind.\<close>

datatype telemetry =
    Identity power_identity
  | Sample pyfloat pyfloat
  | ErrorRecord
  | OtherRecord

type_synonym trace = "(real \<times> real) list"

fun scan_power :: "telemetry list \<Rightarrow> power_identity option \<times> trace \<times> nat \<Rightarrow> (power_identity option \<times> trace \<times> nat) result" where
  "scan_power [] st = Inr st"
| "scan_power (r # rs) (identity, samples, errors) =
     (case r of
        Identity i \<Rightarrow> scan_power rs (Some i, samples, errors)
      | Sample (Fin t) (Fin w) \<Rightarrow>
          if w \<le> 0 then Inl ValueError else scan_power rs (identity, samples @ [(t, w)], errors)
      | Sample _ _ \<Rightarrow> Inl ValueError
      | ErrorRecord \<Rightarrow> scan_power rs (identity, samples, Suc errors)
      | OtherRecord \<Rightarrow> scan_power rs (identity, samples, errors))"

definition load_power :: "telemetry list \<Rightarrow> (power_identity \<times> trace) result" where
  "load_power records =
     rbind (scan_power records (None, [], 0)) (\<lambda>(identity, samples, errors).
     case identity of
       None \<Rightarrow> Inl RuntimeError
     | Some i \<Rightarrow>
         if length samples < 2 then Inl RuntimeError
         else if errors \<noteq> 0 \<and> errors > max 3 (length samples div 20) then Inl RuntimeError
         else Inr (i, sort samples))"

section \<open>Interpolation and integration\<close>

record boundary_clamp =
  boundary_unix :: real
  edge_sample_unix :: real
  gap_seconds :: real
  held_watts :: real

fun interp_scan :: "real \<times> real \<Rightarrow> trace \<Rightarrow> real \<Rightarrow> real" where
  "interp_scan left [] t = snd left"
| "interp_scan left (right # rest) t =
     (if fst right \<ge> t
      then (if fst right = fst left then snd right
            else snd left + (t - fst left) / (fst right - fst left) * (snd right - snd left))
      else interp_scan right rest t)"

text \<open>
  The value and, for a boundary within \<open>tolerance\<close> outside the trace, the clamp that the code appends
  to its list.
\<close>

definition interpolate :: "real \<Rightarrow> trace \<Rightarrow> real \<Rightarrow> (real \<times> boundary_clamp list) result" where
  "interpolate tolerance samples timestamp =
     (if samples = [] then Inl IndexError
      else if timestamp < fst (samples ! 0) \<or> timestamp > fst (last samples)
      then (let edge = (if timestamp < fst (samples ! 0) then samples ! 0 else last samples);
                gap = \<bar>timestamp - fst edge\<bar>
            in if gap \<le> tolerance
               then Inr (snd edge, [\<lparr>boundary_unix = timestamp, edge_sample_unix = fst edge,
                                     gap_seconds = gap, held_watts = snd edge\<rparr>])
               else Inl RuntimeError)
      else Inr (interp_scan (samples ! 0) (tl samples) timestamp, []))"

definition window_samples :: "real \<Rightarrow> trace \<Rightarrow> pyfloat \<Rightarrow> pyfloat \<Rightarrow> (trace \<times> boundary_clamp list) result" where
  "window_samples tolerance samples start end =
     (case (start, end) of
        (Fin a, Fin b) \<Rightarrow>
          if b \<le> a then Inl ValueError
          else (let inner = filter (\<lambda>(t, p). a < t \<and> t < b) samples in
             rbind (interpolate tolerance samples a) (\<lambda>(pa, ca).
             rbind (interpolate tolerance samples b) (\<lambda>(pb, cb).
             Inr ([(a, pa)] @ inner @ [(b, pb)], ca @ cb))))
      | _ \<Rightarrow> Inl ValueError)"

fun integrate :: "trace \<Rightarrow> real" where
  "integrate (l # r # rest) = (fst r - fst l) * (snd l + snd r) * 0.5 + integrate (r # rest)"
| "integrate _ = 0"

definition p95 :: "real list \<Rightarrow> real result" where
  "p95 values =
     (let ordered = sort values; i = max 0 (\<lceil>0.95 * real (length ordered)\<rceil> - 1)
      in if ordered = [] then Inl IndexError else Inr (ordered ! nat i))"

text \<open>\<open>statistics.median\<close> of a non-empty list.\<close>

definition median :: "real list \<Rightarrow> real" where
  "median values =
     (let ordered = sort values; n = length ordered
      in if odd n then ordered ! (n div 2) else (ordered ! (n div 2 - 1) + ordered ! (n div 2)) / 2)"

text \<open>The sampler's percentile of a non-empty list.\<close>

definition percentile :: "real list \<Rightarrow> real \<Rightarrow> real" where
  "percentile values fraction =
     (let ordered = sort values;
          index = max 0 (min (int (length ordered) - 1) (\<lfloor>fraction * real (length ordered) + 0.999\<rfloor> - 1))
      in ordered ! nat index)"

definition counter_joules :: "pyfloat option \<Rightarrow> pyfloat option \<Rightarrow> real option result" where
  "counter_joules start end =
     (case (start, end) of
        (None, _) \<Rightarrow> Inr None
      | (_, None) \<Rightarrow> Inr None
      | (Some (Fin s), Some (Fin e)) \<Rightarrow>
          if s < 0 \<or> e < s then Inl ValueError
          else Inr (if e > s then Some ((e - s) / 1000) else None)
      | _ \<Rightarrow> Inl ValueError)"

definition positive_ratio :: "real option \<Rightarrow> real option \<Rightarrow> real option" where
  "positive_ratio numerator denominator =
     (case (numerator, denominator) of
        (Some n, Some d) \<Rightarrow> if n \<le> 0 \<or> d \<le> 0 then None else Some (n / d)
      | _ \<Rightarrow> None)"

section \<open>The summary of a device\<close>

record timing_interval =
  iv_index :: int
  iv_start :: pyfloat
  iv_end :: pyfloat
  iv_steps :: int
  iv_energy_start_mj :: "pyfloat option"
  iv_energy_end_mj :: "pyfloat option"
  iv_production_mean_ms :: real
  iv_kernel_mean_ms :: real

record timing =
  tm_gpu_uuid :: "string option"
  tm_device :: "string option"
  tm_execution :: "string option"
  tm_prompt_sha256 :: "string option"
  tm_teacher_sha256 :: "string option"
  tm_idle_start :: pyfloat
  tm_warmup_start :: pyfloat
  tm_idle_energy_start_mj :: "pyfloat option"
  tm_idle_energy_end_mj :: "pyfloat option"
  tm_intervals :: "timing_interval list"

record interval_result =
  ir_index :: int
  ir_steps :: int
  ir_seconds :: real
  ir_gross_joules :: real
  ir_counter :: bool
  ir_sampled_joules :: real
  ir_gross_joules_per_token :: real
  ir_idle_subtracted_joules_per_token :: real
  ir_mean_watts :: real

record accumulated =
  ac_active_values :: "real list"
  ac_steps :: int
  ac_seconds :: real
  ac_energy :: real
  ac_sampled_energy :: real
  ac_production_weighted :: real
  ac_kernel_weighted :: real
  ac_results :: "interval_result list"
  ac_clamps :: "boundary_clamp list"

definition float_of :: "pyfloat \<Rightarrow> real" where
  "float_of f = (case f of Fin x \<Rightarrow> x | NonFinite \<Rightarrow> 0)"

text \<open>The body of the loop over the timing intervals.\<close>

definition interval_step :: "real \<Rightarrow> trace \<Rightarrow> real \<Rightarrow> accumulated \<Rightarrow> timing_interval \<Rightarrow> accumulated result" where
  "interval_step tolerance samples idle_watts ac iv =
     (if iv_steps iv \<le> 0 then Inl ValueError
      else rbind (window_samples tolerance samples (iv_start iv) (iv_end iv)) (\<lambda>(tr, clamps).
        let sampled_energy = integrate tr in
        rbind (counter_joules (iv_energy_start_mj iv) (iv_energy_end_mj iv)) (\<lambda>counter.
        let energy = (case counter of None \<Rightarrow> sampled_energy | Some e \<Rightarrow> e);
            seconds = float_of (iv_end iv) - float_of (iv_start iv);
            steps = of_int (iv_steps iv)
        in Inr \<lparr>ac_active_values = ac_active_values ac @ map snd tr,
                ac_steps = ac_steps ac + iv_steps iv,
                ac_seconds = ac_seconds ac + seconds,
                ac_energy = ac_energy ac + energy,
                ac_sampled_energy = ac_sampled_energy ac + sampled_energy,
                ac_production_weighted = ac_production_weighted ac + iv_production_mean_ms iv * steps,
                ac_kernel_weighted = ac_kernel_weighted ac + iv_kernel_mean_ms iv * steps,
                ac_results = ac_results ac @
                  [\<lparr>ir_index = iv_index iv, ir_steps = iv_steps iv, ir_seconds = seconds, ir_gross_joules = energy,
                    ir_counter = (counter \<noteq> None), ir_sampled_joules = sampled_energy,
                    ir_gross_joules_per_token = energy / steps,
                    ir_idle_subtracted_joules_per_token = (energy - idle_watts * seconds) / steps,
                    ir_mean_watts = energy / seconds\<rparr>],
                ac_clamps = ac_clamps ac @ clamps\<rparr>)))"

record device_summary =
  ds_device :: string
  ds_execution :: "string option"
  ds_prompt_sha256 :: "string option"
  ds_teacher_sha256 :: "string option"
  ds_steps :: int
  ds_seconds :: real
  ds_production_tpot_ms :: real
  ds_device_time_ms :: real
  ds_tokens_per_second :: real
  ds_idle_mean_watts :: real
  ds_active_mean_watts :: real
  ds_sampled_active_mean_watts :: real
  ds_active_median_watts :: real
  ds_active_p95_watts :: real
  ds_gross_joules_per_token :: real
  ds_idle_subtracted_joules_per_token :: real
  ds_gross_tokens_per_joule :: real
  ds_idle_subtracted_tokens_per_joule :: "real option"
  ds_tokens_per_second_per_watt :: real
  ds_intervals :: "interval_result list"

text \<open>\<open>" ".join(filter(None, [gpu_name, execution]))\<close> when no name is given.\<close>

definition device_name :: "string option \<Rightarrow> timing \<Rightarrow> power_identity \<Rightarrow> string" where
  "device_name name tm i =
     (case name of
        Some n \<Rightarrow> n
      | None \<Rightarrow>
          (let gpu = (case id_gpu_name i of Some n \<Rightarrow> n
                      | None \<Rightarrow> (case tm_device tm of Some d \<Rightarrow> d | None \<Rightarrow> ''GPU''));
               execution = (case tm_execution tm of None \<Rightarrow> [] | Some e \<Rightarrow> e)
           in if gpu = [] then execution else if execution = [] then gpu else gpu @ '' '' @ execution))"

definition start_accumulated :: "boundary_clamp list \<Rightarrow> accumulated" where
  "start_accumulated clamps =
     \<lparr>ac_active_values = [], ac_steps = 0, ac_seconds = 0, ac_energy = 0, ac_sampled_energy = 0,
      ac_production_weighted = 0, ac_kernel_weighted = 0, ac_results = [], ac_clamps = clamps\<rparr>"

definition summarize_device :: "real \<Rightarrow> string option \<Rightarrow> timing \<Rightarrow> telemetry list
    \<Rightarrow> (device_summary \<times> boundary_clamp list) result" where
  "summarize_device tolerance name tm records =
     rbind (load_power records) (\<lambda>(identity, samples).
     if (case tm_gpu_uuid tm of None \<Rightarrow> False | Some u \<Rightarrow> u \<noteq> [] \<and> id_gpu_uuid identity \<noteq> Some u) then Inl ValueError
     else rbind (window_samples tolerance samples (tm_idle_start tm) (tm_warmup_start tm)) (\<lambda>(idle_trace, clamps).
       let idle_seconds = float_of (tm_warmup_start tm) - float_of (tm_idle_start tm) in
       rbind (counter_joules (tm_idle_energy_start_mj tm) (tm_idle_energy_end_mj tm)) (\<lambda>counter.
       let idle_energy = (case counter of None \<Rightarrow> integrate idle_trace | Some e \<Rightarrow> e);
           idle_watts = idle_energy / idle_seconds
       in rbind (rfold (interval_step tolerance samples idle_watts) (start_accumulated clamps) (tm_intervals tm)) (\<lambda>ac.
       if ac_steps ac \<le> 0 then Inl ValueError
       else let steps = of_int (ac_steps ac);
                gross = ac_energy ac / steps;
                net = (ac_energy ac - idle_watts * ac_seconds ac) / steps
            in rbind (p95 (ac_active_values ac)) (\<lambda>q.
               if gross = 0 then Inl ZeroDivisionError
               else Inr (\<lparr>ds_device = device_name name tm identity, ds_execution = tm_execution tm,
                     ds_prompt_sha256 = tm_prompt_sha256 tm, ds_teacher_sha256 = tm_teacher_sha256 tm,
                     ds_steps = ac_steps ac, ds_seconds = ac_seconds ac,
                     ds_production_tpot_ms = ac_production_weighted ac / steps,
                     ds_device_time_ms = ac_kernel_weighted ac / steps,
                     ds_tokens_per_second = steps / ac_seconds ac,
                     ds_idle_mean_watts = idle_watts,
                     ds_active_mean_watts = ac_energy ac / ac_seconds ac,
                     ds_sampled_active_mean_watts = ac_sampled_energy ac / ac_seconds ac,
                     ds_active_median_watts = median (ac_active_values ac),
                     ds_active_p95_watts = q,
                     ds_gross_joules_per_token = gross,
                     ds_idle_subtracted_joules_per_token = net,
                     ds_gross_tokens_per_joule = 1 / gross,
                     ds_idle_subtracted_tokens_per_joule = positive_ratio (Some 1) (Some net),
                     ds_tokens_per_second_per_watt = steps / ac_energy ac,
                     ds_intervals = ac_results ac\<rparr>, ac_clamps ac))))))"

section \<open>The comparison of two devices\<close>

record power_comparison =
  cmp_headline :: string
  cmp_production_tpot :: real
  cmp_device_time :: real
  cmp_gross_efficiency :: real
  cmp_idle_subtracted_efficiency :: "real option"

record power_result =
  pr_fpga :: "device_summary option"
  pr_gpu :: device_summary
  pr_tolerance :: real
  pr_clamps :: "boundary_clamp list"
  pr_comparison :: "power_comparison option"

text \<open>A key that both sides have, non-empty and different, is a workload mismatch.\<close>

definition mismatch :: "string option \<Rightarrow> string option \<Rightarrow> bool" where
  "mismatch a b =
     (case (a, b) of (Some x, Some y) \<Rightarrow> x \<noteq> [] \<and> y \<noteq> [] \<and> x \<noteq> y | _ \<Rightarrow> False)"

definition compare_devices :: "device_summary \<Rightarrow> device_summary \<Rightarrow> power_comparison result" where
  "compare_devices fpga gpu =
     (if mismatch (ds_prompt_sha256 fpga) (ds_prompt_sha256 gpu) \<or>
         mismatch (ds_teacher_sha256 fpga) (ds_teacher_sha256 gpu) then Inl ValueError
      else if ds_production_tpot_ms gpu = 0 \<or> ds_device_time_ms gpu = 0 \<or> ds_gross_tokens_per_joule gpu = 0
      then Inl ZeroDivisionError
      else Inr \<lparr>cmp_headline = ds_device fpga @ '' versus '' @ ds_device gpu,
                cmp_production_tpot = ds_production_tpot_ms fpga / ds_production_tpot_ms gpu,
                cmp_device_time = ds_device_time_ms fpga / ds_device_time_ms gpu,
                cmp_gross_efficiency = ds_gross_tokens_per_joule fpga / ds_gross_tokens_per_joule gpu,
                cmp_idle_subtracted_efficiency =
                  positive_ratio (ds_idle_subtracted_tokens_per_joule fpga) (ds_idle_subtracted_tokens_per_joule gpu)\<rparr>)"

definition power_main :: "pyfloat \<Rightarrow> timing option \<Rightarrow> telemetry list option \<Rightarrow> timing \<Rightarrow> telemetry list \<Rightarrow> power_result result" where
  "power_main boundary_tolerance fpga_timing fpga_power gpu_timing gpu_power =
     (if (fpga_timing \<noteq> None) \<noteq> (fpga_power \<noteq> None) then Inl ValueError
      else case boundary_tolerance of
        NonFinite \<Rightarrow> Inl ValueError
      | Fin tolerance \<Rightarrow>
          if tolerance < 0 then Inl ValueError
          else rbind (case (fpga_timing, fpga_power) of
                 (Some tm, Some records) \<Rightarrow>
                   rbind (summarize_device tolerance (Some ''U55C all-BF16 accelerator'') tm records) (\<lambda>(s, c). Inr (Some s, c))
               | _ \<Rightarrow> Inr (None, [])) (\<lambda>(fpga, c1).
            rbind (summarize_device tolerance None gpu_timing gpu_power) (\<lambda>(gpu, c2).
            rbind (case fpga of None \<Rightarrow> Inr None | Some f \<Rightarrow> rbind (compare_devices f gpu) (\<lambda>c. Inr (Some c))) (\<lambda>comparison.
            Inr \<lparr>pr_fpga = fpga, pr_gpu = gpu, pr_tolerance = tolerance, pr_clamps = c1 @ c2,
                 pr_comparison = comparison\<rparr>))))"

section \<open>The sampler\<close>

text \<open>One call of the power reader.\<close>

datatype reading = Watts pyfloat | ReaderError

definition sample_record :: "reading \<Rightarrow> real \<Rightarrow> telemetry" where
  "sample_record rd unix =
     (case rd of
        Watts (Fin w) \<Rightarrow> if w \<le> 0 then ErrorRecord else Sample (Fin unix) (Fin w)
      | _ \<Rightarrow> ErrorRecord)"

text \<open>
  The sampling loop: \<open>stop i\<close> says whether the stop file exists at the \<open>i\<close>-th test, \<open>rd i\<close> and
  \<open>unix i\<close> are the reading and the clock of the \<open>i\<close>-th call.  The state is the lines written so far and
  whether the ready file has been published.  A loop whose stop file never appears does not return.
\<close>

partial_function (option) sampler_loop :: "(nat \<Rightarrow> reading) \<Rightarrow> (nat \<Rightarrow> real) \<Rightarrow> (nat \<Rightarrow> bool) \<Rightarrow> nat
    \<Rightarrow> telemetry list \<Rightarrow> bool \<Rightarrow> (telemetry list \<times> bool) option" where
  "sampler_loop rd unix stop i out ready =
     (if stop i then Some (out @ [sample_record (rd i) (unix i), OtherRecord], ready)
      else (let record = sample_record (rd i) (unix i)
            in sampler_loop rd unix stop (Suc i) (out @ [record]) (ready \<or> record \<noteq> ErrorRecord)))"

definition sampler_main :: "pyfloat \<Rightarrow> power_identity \<Rightarrow> (nat \<Rightarrow> reading) \<Rightarrow> (nat \<Rightarrow> real) \<Rightarrow> (nat \<Rightarrow> bool)
    \<Rightarrow> (telemetry list \<times> bool) result option" where
  "sampler_main period identity rd unix stop =
     (case period of
        Fin p \<Rightarrow> if p \<le> 0 then Some (Inl ValueError)
                 else map_option Inr (sampler_loop rd unix stop 0 [Identity identity] False)
      | NonFinite \<Rightarrow> Some (Inl ValueError))"

section \<open>Traces as piecewise linear functions\<close>

definition strict_times :: "trace \<Rightarrow> bool" where
  "strict_times s \<longleftrightarrow> sorted_wrt (<) (map fst s)"

definition segment :: "real \<times> real \<Rightarrow> real \<times> real \<Rightarrow> real \<Rightarrow> real" where
  "segment x y t = snd x + (t - fst x) / (fst y - fst x) * (snd y - snd x)"

definition power_at :: "trace \<Rightarrow> real \<Rightarrow> real" where
  "power_at s t = interp_scan (s ! 0) (tl s) t"

lemma segment_ends [simp]:
  "segment x y (fst x) = snd x" "fst x \<noteq> fst y \<Longrightarrow> segment x y (fst y) = snd y"
  by (simp_all add: segment_def)

lemma power_at_segment:
  assumes "strict_times (us @ [x, y] @ vs)" "fst x \<le> t" "t \<le> fst y"
  shows "power_at (us @ [x, y] @ vs) t = segment x y t"
  using assms
proof (induction us)
  case Nil
  then show ?case by (auto simp: power_at_def segment_def strict_times_def)
next
  case (Cons u us)
  have st: "strict_times (us @ [x, y] @ vs)" using Cons.prems(1) by (simp add: strict_times_def)
  obtain n ns where n: "us @ [x, y] @ vs = n # ns" by (cases us) auto
  have IH: "interp_scan n ns t = segment x y t"
    using Cons.IH [OF st Cons.prems(2,3)] unfolding n by (simp add: power_at_def)
  have whole: "(u # us) @ [x, y] @ vs = u # n # ns" using n by simp
  then have "strict_times (u # n # ns)" using Cons.prems(1) by (simp only: whole)
  then have un: "fst u < fst n" by (simp add: strict_times_def)
  have "power_at (u # n # ns) t = segment x y t"
  proof (cases "fst n \<ge> t")
    case False
    then show ?thesis using IH by (simp add: power_at_def)
  next
    case True
    have "n = x"
    proof (cases us)
      case Nil
      then show ?thesis using n by simp
    next
      case (Cons w ws)
      then have "n = w" "fst w < fst x" using n st by (auto simp: strict_times_def)
      then show ?thesis using True Cons.prems \<open>fst x \<le> t\<close> by auto
    qed
    then show ?thesis using True un Cons.prems(2) by (simp add: power_at_def segment_def)
  qed
  then show ?case by (simp only: whole)
qed

lemma strict_split:
  assumes "strict_times s" "s \<noteq> []" "fst (s ! 0) \<le> t" "t < fst (last s)"
  obtains us x y vs where "s = us @ [x, y] @ vs" "fst x \<le> t" "t < fst y"
  using assms
proof (induction s arbitrary: thesis)
  case Nil
  then show ?case by simp
next
  case (Cons x s)
  show ?case
  proof (cases s)
    case Nil
    then show ?thesis using Cons.prems by simp
  next
    case s: (Cons y ys)
    show ?thesis
    proof (cases "t < fst y")
      case True
      then show ?thesis using Cons.prems(1) [of "[]" x y ys] Cons.prems s by simp
    next
      case False
      have "strict_times s" using Cons.prems(2) by (simp add: strict_times_def)
      moreover have "fst (s ! 0) \<le> t" "t < fst (last s)" "s \<noteq> []" using False Cons.prems s by auto
      ultimately obtain us x' y' vs where "s = us @ [x', y'] @ vs" "fst x' \<le> t" "t < fst y'"
        using Cons.IH by blast
      then show ?thesis using Cons.prems(1) [of "x # us" x' y' vs] by simp
    qed
  qed
qed

lemma integrate_split: "integrate (xs @ m # ys) = integrate (xs @ [m]) + integrate (m # ys)"
proof (induction xs)
  case Nil
  then show ?case by simp
next
  case (Cons x xs)
  then show ?case by (cases xs) auto
qed

lemma integrate_collinear:
  assumes "fst l < fst r" "pm = segment l r m"
  shows "integrate (xs @ [l, (m, pm), r] @ ys) = integrate (xs @ [l, r] @ ys)"
proof -
  have "(m - fst l) * (snd l + pm) * 0.5 + (fst r - m) * (pm + snd r) * 0.5 = (fst r - fst l) * (snd l + snd r) * 0.5"
  proof -
    have alg: "e * (L + (L + q)) + (d - e) * ((L + q) + R) = d * (L + R)" if "d * q = e * (R - L)" for d e L R q :: real
      using that by (simp add: algebra_simps)
    let ?q = "(m - fst l) / (fst r - fst l) * (snd r - snd l)"
    have "(fst r - fst l) * ?q = (m - fst l) * (snd r - snd l)" using assms(1) by simp
    from alg [OF this] have "(m - fst l) * (snd l + (snd l + ?q)) + (fst r - fst l - (m - fst l)) * ((snd l + ?q) + snd r)
      = (fst r - fst l) * (snd l + snd r)" .
    moreover have "pm = snd l + ?q" using assms(2) by (simp add: segment_def)
    ultimately show ?thesis by simp
  qed
  then have "integrate ([l, (m, pm), r] @ ys) = integrate ([l, r] @ ys)" by (cases ys) auto
  then show ?thesis
    using integrate_split [of xs l "[(m, pm), r] @ ys"] integrate_split [of xs l "[r] @ ys"] by simp
qed

text \<open>What the windowing code reads off the trace for a covered window.\<close>

definition inner :: "trace \<Rightarrow> real \<Rightarrow> real \<Rightarrow> trace" where
  "inner s a b = filter (\<lambda>(t, p). a < t \<and> t < b) s"

definition window :: "trace \<Rightarrow> real \<Rightarrow> real \<Rightarrow> trace" where
  "window s a b = [(a, power_at s a)] @ inner s a b @ [(b, power_at s b)]"

definition covers :: "trace \<Rightarrow> real \<Rightarrow> real \<Rightarrow> bool" where
  "covers s a b \<longleftrightarrow> s \<noteq> [] \<and> fst (s ! 0) \<le> a \<and> b \<le> fst (last s)"

lemma window_samples_covered:
  assumes "covers s a b" "a < b"
  shows "window_samples tolerance s (Fin a) (Fin b) = Inr (window s a b, [])"
proof -
  have "interpolate tolerance s x = Inr (power_at s x, [])" if "x = a \<or> x = b" for x
    using that assms by (auto simp: interpolate_def covers_def power_at_def)
  then show ?thesis using assms(2) by (simp add: window_samples_def window_def inner_def Let_def)
qed

lemma strict_appendD:
  assumes "strict_times (xs @ ys)" "x \<in> set xs" "y \<in> set ys"
  shows "fst x < fst y"
  using assms by (auto simp: strict_times_def sorted_wrt_append)

lemma inner_append: "inner (xs @ ys) a b = inner xs a b @ inner ys a b"
  by (simp add: inner_def)

lemma inner_none: "(\<And>x. x \<in> set xs \<Longrightarrow> fst x \<le> a \<or> b \<le> fst x) \<Longrightarrow> inner xs a b = []"
  by (induction xs) (force simp: inner_def)+

lemma inner_upto: "(\<And>x. x \<in> set xs \<Longrightarrow> fst x < b \<longleftrightarrow> fst x < c) \<Longrightarrow> inner xs a b = inner xs a c"
  unfolding inner_def by (rule filter_cong) auto

lemma inner_from: "(\<And>x. x \<in> set xs \<Longrightarrow> a < fst x \<longleftrightarrow> b < fst x) \<Longrightarrow> inner xs a c = inner xs b c"
  unfolding inner_def by (rule filter_cong) auto

lemma inner_left:
  assumes "\<And>x. x \<in> set xs \<Longrightarrow> fst x < b" "b < c"
  shows "inner xs a c = inner xs a b" "inner xs b c = []"
proof -
  show "inner xs a c = inner xs a b"
    by (rule inner_upto) (use assms in \<open>auto dest: less_trans [OF _ assms(2)]\<close>)
  show "inner xs b c = []" by (rule inner_none) (use assms(1) in force)
qed

lemma inner_right:
  assumes "\<And>y. y \<in> set ys \<Longrightarrow> b < fst y" "a < b"
  shows "inner ys a c = inner ys b c" "inner ys a b = []"
proof -
  show "inner ys a c = inner ys b c"
    by (rule inner_from) (use assms in \<open>auto dest: less_trans [OF assms(2)]\<close>)
  show "inner ys a b = []" by (rule inner_none) (use assms(1) in force)
qed

lemma inner_join:
  assumes "a < b" "b < c"
    and x: "\<And>x. x \<in> set xs \<Longrightarrow> fst x < b" and y: "\<And>y. y \<in> set ys \<Longrightarrow> b < fst y"
  shows "inner (xs @ ys) a c = inner xs a b @ inner ys b c"
    and "inner (xs @ ys) a b = inner xs a b" "inner (xs @ ys) b c = inner ys b c"
  using inner_left [of xs b c, OF x assms(2)] inner_right [of ys b a, OF y assms(1)] by (simp_all add: inner_append)

text \<open>The neighbour of a point that lies strictly between two adjacent samples is on their segment.\<close>

lemma last_on_segment:
  assumes st: "strict_times (us @ [x, y] @ vs)" and "fst x < b" "b < fst y" "a < b" "fst ((us @ [x, y] @ vs) ! 0) \<le> a"
  obtains zs m where "(a, power_at (us @ [x, y] @ vs) a) # inner (us @ [x]) a b = zs @ [(m, segment x y m)]"
    and "m < b"
proof (cases "a < fst x")
  case True
  then have "inner (us @ [x]) a b = inner us a b @ [x]"
    using assms by (cases x) (auto simp: inner_append inner_def)
  then show ?thesis using that [of "(a, power_at (us @ [x, y] @ vs) a) # inner us a b" "fst x"] assms by simp
next
  case False
  have "fst u < fst x" if "u \<in> set us" for u
    using st that by (auto simp: strict_times_def sorted_wrt_append)
  then have "fst z \<le> a" if "z \<in> set (us @ [x])" for z
    using False that by fastforce
  then have "inner (us @ [x]) a b = []" by (intro inner_none) blast
  moreover have "power_at (us @ [x, y] @ vs) a = segment x y a"
    using False assms by (intro power_at_segment [OF st]) auto
  ultimately show ?thesis using that [of "[]" a] assms by simp
qed

lemma first_on_segment:
  assumes st: "strict_times (us @ [x, y] @ vs)" and "fst x < b" "b < fst y" "b < c" "c \<le> fst (last (us @ [x, y] @ vs))"
  obtains zs m where "inner (y # vs) b c @ [(c, power_at (us @ [x, y] @ vs) c)] = (m, segment x y m) # zs"
    and "b < m"
proof (cases "fst y < c")
  case True
  have ne: "fst x \<noteq> fst y" using assms by simp
  have "inner (y # vs) b c = y # inner vs b c"
    using True assms by (cases y) (auto simp: inner_def)
  then show ?thesis using that [of "fst y" "inner vs b c @ [(c, power_at (us @ [x, y] @ vs) c)]"] assms ne by simp
next
  case False
  have "strict_times ((us @ [x]) @ (y # vs))" using st by simp
  then have "\<And>z. z \<in> set vs \<Longrightarrow> fst y < fst z" by (auto simp: strict_times_def sorted_wrt_append)
  then have "inner (y # vs) b c = []" using False by (intro inner_none) force
  moreover have "power_at (us @ [x, y] @ vs) c = segment x y c"
    using False assms by (intro power_at_segment [OF st]) auto
  ultimately show ?thesis using that [of c "[]"] assms by simp
qed

lemma integrate_window_split:
  assumes st: "strict_times s" and ab: "a < b" and bc: "b < c" and cov: "covers s a c"
  shows "integrate (window s a b) + integrate (window s b c) = integrate (window s a c)"
proof -
  have "s \<noteq> []" "fst (s ! 0) \<le> b" "b < fst (last s)" using cov ab bc by (auto simp: covers_def)
  then obtain us x y vs where s: "s = us @ [x, y] @ vs" and xb: "fst x \<le> b" "b < fst y"
    using strict_split [OF st] by blast
  have st': "strict_times (us @ [x, y] @ vs)" using st s by simp
  have us: "\<And>u. u \<in> set us \<Longrightarrow> fst u < fst x" and vs: "\<And>v. v \<in> set vs \<Longrightarrow> fst y < fst v"
    using st' by (auto simp: strict_times_def sorted_wrt_append)
  have pb: "power_at s b = segment x y b" unfolding s using xb by (intro power_at_segment [OF st']) auto
  show ?thesis
  proof (cases "fst x = b")
    case True
    have x: "x = (b, power_at s b)" using True pb by (metis segment_ends(1) prod.collapse)
    have st2: "strict_times (us @ (y # vs))" using st' by (auto simp: strict_times_def sorted_wrt_append)
    have sides: "\<And>u. u \<in> set us \<Longrightarrow> fst u < b" "\<And>v. v \<in> set (y # vs) \<Longrightarrow> b < fst v"
      using us vs xb True by (auto intro: less_trans)
    have mid: "inner [x] a c = [x]" "inner [x] a b = []" "inner [x] b c = []"
      using True ab bc by (cases x, simp add: inner_def)+
    have split: "inner s p q = inner us p q @ inner [x] p q @ inner (y # vs) p q" for p q
      using inner_append [of us "[x] @ y # vs" p q] inner_append [of "[x]" "y # vs" p q] by (simp add: s)
    have parts: "inner us a c = inner us a b" "inner (y # vs) a c = inner (y # vs) b c"
      "inner (y # vs) a b = []" "inner us b c = []"
      using inner_left [of us b c, OF sides(1) bc] inner_right [of "y # vs" b a, OF sides(2) ab] by simp_all
    have "window s a c = ((a, power_at s a) # inner us a b) @ (b, power_at s b) # (inner (y # vs) b c @ [(c, power_at s c)])"
      by (simp add: window_def split mid parts x [symmetric])
    moreover have "window s a b = ((a, power_at s a) # inner us a b) @ [(b, power_at s b)]"
      "window s b c = (b, power_at s b) # (inner (y # vs) b c @ [(c, power_at s c)])"
      by (simp_all add: window_def split mid parts)
    ultimately show ?thesis by (simp only: integrate_split [symmetric])
  next
    case False
    then have xb': "fst x < b" using xb by simp
    have sides: "\<And>u. u \<in> set (us @ [x]) \<Longrightarrow> fst u < b" "\<And>v. v \<in> set (y # vs) \<Longrightarrow> b < fst v"
      using us vs xb' xb(2) by (auto intro: less_trans)
    have s2: "s = (us @ [x]) @ (y # vs)" by (simp add: s)
    have ij: "inner s a c = inner (us @ [x]) a b @ inner (y # vs) b c"
      "inner s a b = inner (us @ [x]) a b" "inner s b c = inner (y # vs) b c"
      unfolding s2 using inner_join [of a b c "us @ [x]" "y # vs", OF ab bc sides] by blast+
    have a': "fst ((us @ [x, y] @ vs) ! 0) \<le> a" and c': "c \<le> fst (last (us @ [x, y] @ vs))"
      using cov by (simp_all add: covers_def s)
    obtain zs m where L: "(a, power_at s a) # inner (us @ [x]) a b = zs @ [(m, segment x y m)]" and m: "m < b"
      using last_on_segment [OF st' xb' xb(2) ab a'] unfolding s by blast
    obtain ws r where R: "inner (y # vs) b c @ [(c, power_at s c)] = (r, segment x y r) # ws" and r: "b < r"
      using first_on_segment [OF st' xb' xb(2) bc c'] unfolding s by blast
    let ?l = "(m, segment x y m)" and ?r = "(r, segment x y r)" and ?p = "(b, power_at s b)"
    have d: "fst y - fst x \<noteq> 0" using xb xb' by simp
    have "segment x y b = segment ?l ?r b"
    proof -
      have "segment x y r - segment x y m = (r - m) / (fst y - fst x) * (snd y - snd x)"
        by (simp add: segment_def diff_divide_distrib algebra_simps)
      moreover have "segment x y b - segment x y m = (b - m) / (fst y - fst x) * (snd y - snd x)"
        by (simp add: segment_def diff_divide_distrib algebra_simps)
      moreover have "r - m \<noteq> 0" using m r by simp
      ultimately show ?thesis by (simp add: segment_def [of ?l ?r])
    qed
    then have col: "integrate (zs @ [?l, ?p, ?r] @ ws) = integrate (zs @ [?l, ?r] @ ws)"
      using m r by (intro integrate_collinear) (simp_all add: pb)
    have "window s a c = ((a, power_at s a) # inner (us @ [x]) a b) @ (inner (y # vs) b c @ [(c, power_at s c)])"
      by (simp add: window_def ij(1))
    then have "window s a c = zs @ [?l, ?r] @ ws" by (simp add: L R)
    moreover have "window s a b = (zs @ [?l]) @ [?p]" "window s b c = ?p # (?r # ws)"
      using L R by (simp_all add: window_def ij(2,3))
    ultimately show ?thesis using col integrate_split [of "zs @ [?l]" ?p "?r # ws"] by simp
  qed
qed

section \<open>Bounds\<close>

lemma convex_between:
  fixes l r f lo hi :: real
  assumes "0 \<le> f" "f \<le> 1" "lo \<le> l" "lo \<le> r" "l \<le> hi" "r \<le> hi"
  shows "lo \<le> l + f * (r - l) \<and> l + f * (r - l) \<le> hi"
proof -
  have e: "l + f * (r - l) = (1 - f) * l + f * r" by (simp add: algebra_simps)
  have "(1 - f) * lo + f * lo \<le> (1 - f) * l + f * r" "(1 - f) * l + f * r \<le> (1 - f) * hi + f * hi"
    using assms by (intro add_mono mult_left_mono; simp)+
  then show ?thesis unfolding e by (simp add: algebra_simps)
qed

lemma interp_scan_bounds:
  assumes "fst left \<le> t" "\<forall>x \<in> set (left # rest). lo \<le> snd x \<and> snd x \<le> hi"
  shows "lo \<le> interp_scan left rest t \<and> interp_scan left rest t \<le> hi"
  using assms
proof (induction rest arbitrary: left)
  case Nil
  then show ?case by simp
next
  case (Cons r rest)
  show ?case
  proof (cases "fst r \<ge> t")
    case True
    show ?thesis
    proof (cases "fst r = fst left")
      case False
      then have f: "0 \<le> (t - fst left) / (fst r - fst left)" "(t - fst left) / (fst r - fst left) \<le> 1"
        using True Cons.prems(1) by (simp_all add: divide_le_eq_1)
      show ?thesis
        using True False Cons.prems(2) convex_between [OF f, of lo "snd left" "snd r" hi] by simp
    qed (use True Cons.prems in simp)
  next
    case False
    then show ?thesis using Cons by simp
  qed
qed

lemma interpolate_bounds:
  assumes "interpolate tolerance s t = Inr (v, cl)" "\<forall>x \<in> set s. lo \<le> snd x \<and> snd x \<le> hi"
  shows "lo \<le> v \<and> v \<le> hi"
proof -
  have ne: "s \<noteq> []" using assms(1) by (auto simp: interpolate_def)
  then obtain x xs where s: "s = x # xs" by (cases s) auto
  show ?thesis
  proof (cases "t < fst (s ! 0) \<or> t > fst (last s)")
    case True
    then have "v = snd (s ! 0) \<or> v = snd (last s)"
      using assms(1) ne by (auto simp: interpolate_def Let_def split: if_splits)
    then show ?thesis using assms(2) ne by (auto simp: s)
  next
    case False
    then have "v = interp_scan x xs t" "fst x \<le> t" using assms(1) ne by (auto simp: interpolate_def s)
    then show ?thesis using interp_scan_bounds [of x t xs lo hi] assms(2) by (simp add: s)
  qed
qed

lemma integrate_bounds:
  assumes "sorted (map fst tr)" "\<forall>x \<in> set tr. lo \<le> snd x \<and> snd x \<le> hi" "tr \<noteq> []"
  shows "lo * (fst (last tr) - fst (tr ! 0)) \<le> integrate tr \<and> integrate tr \<le> hi * (fst (last tr) - fst (tr ! 0))"
  using assms
proof (induction tr rule: integrate.induct)
  case (1 l r rest)
  have IH: "lo * (fst (last (r # rest)) - fst r) \<le> integrate (r # rest)"
    "integrate (r # rest) \<le> hi * (fst (last (r # rest)) - fst r)"
    using 1 by auto
  have d: "0 \<le> fst r - fst l" using "1.prems" by simp
  have "lo * 2 \<le> snd l + snd r" "snd l + snd r \<le> hi * 2" using "1.prems" by auto
  then have "(fst r - fst l) * (lo * 2) \<le> (fst r - fst l) * (snd l + snd r)"
    "(fst r - fst l) * (snd l + snd r) \<le> (fst r - fst l) * (hi * 2)"
    using d by (intro mult_left_mono; simp)+
  then show ?case using IH by (simp add: algebra_simps)
qed auto

lemma window_sorted:
  assumes "sorted (map fst s)" "a < b"
  shows "sorted (map fst ([(a, pa)] @ inner s a b @ [(b, pb)]))"
proof -
  have "sorted (map fst (inner s a b))" unfolding inner_def by (rule sorted_filter [OF assms(1)])
  moreover have "\<forall>x \<in> set (inner s a b). a < fst x \<and> fst x < b" by (auto simp: inner_def)
  ultimately show ?thesis using assms(2) by (auto simp: sorted_append intro: less_imp_le)
qed

lemma integrate_window_bounds:
  assumes w: "window_samples tolerance s (Fin a) (Fin b) = Inr (tr, cl)" and s: "sorted (map fst s)"
    and p: "\<forall>x \<in> set s. lo \<le> snd x \<and> snd x \<le> hi"
  shows "lo * (b - a) \<le> integrate tr \<and> integrate tr \<le> hi * (b - a)"
proof -
  obtain pa ca pb cb where ab: "a < b" and ia: "interpolate tolerance s a = Inr (pa, ca)"
    and ib: "interpolate tolerance s b = Inr (pb, cb)" and tr: "tr = [(a, pa)] @ inner s a b @ [(b, pb)]"
    using w by (auto simp: window_samples_def rbind_eq_Inr inner_def Let_def split: if_splits)
  have "sorted (map fst tr)" unfolding tr by (rule window_sorted [OF s ab])
  moreover have "\<forall>x \<in> set tr. lo \<le> snd x \<and> snd x \<le> hi"
    using interpolate_bounds [OF ia p] interpolate_bounds [OF ib p] p by (auto simp: tr inner_def)
  ultimately have "lo * (fst (last tr) - fst (tr ! 0)) \<le> integrate tr \<and> integrate tr \<le> hi * (fst (last tr) - fst (tr ! 0))"
    by (intro integrate_bounds) (auto simp: tr)
  then show ?thesis by (simp add: tr)
qed

lemma sort_times: "sorted (map fst (sort (s :: trace)))"
proof -
  have "sorted xs \<Longrightarrow> sorted (map fst xs)" for xs :: trace
    by (induction xs) (auto simp: less_eq_prod_def)
  then show ?thesis by simp
qed

lemma load_power_sorted: "load_power records = Inr (i, s) \<Longrightarrow> sorted (map fst s)"
  using sort_times by (auto simp: load_power_def rbind_eq_Inr split: option.splits if_splits)

section \<open>The sampler's trace\<close>

definition record_at :: "(nat \<Rightarrow> reading) \<Rightarrow> (nat \<Rightarrow> real) \<Rightarrow> nat \<Rightarrow> telemetry" where
  "record_at rd unix i = sample_record (rd i) (unix i)"

lemma sampler_loop_stops:
  assumes "stop n" "\<forall>j < n. \<not> stop j" "i \<le> n"
  shows "\<exists>ready'. sampler_loop rd unix stop i out ready =
    Some (out @ map (record_at rd unix) [i..<n] @ [record_at rd unix n, OtherRecord], ready')"
  using assms(3)
proof (induction "n - i" arbitrary: i out ready)
  case 0
  then have "i = n" by simp
  then show ?case using assms(1) by (subst sampler_loop.simps) (simp add: record_at_def)
next
  case (Suc k)
  then have i: "i < n" "\<not> stop i" using assms(2) by auto
  have k: "k = n - Suc i" "Suc i \<le> n" using Suc.hyps(2) i by auto
  obtain ready' where "sampler_loop rd unix stop (Suc i) (out @ [record_at rd unix i])
      (ready \<or> record_at rd unix i \<noteq> ErrorRecord) =
    Some ((out @ [record_at rd unix i]) @ map (record_at rd unix) [Suc i..<n] @ [record_at rd unix n, OtherRecord], ready')"
    using Suc.hyps(1) [OF k] by blast
  then show ?case
    using i by (subst sampler_loop.simps) (simp add: record_at_def upt_conv_Cons)
qed

lemma sampler_loop_diverges:
  assumes "sampler_loop rd unix stop i out ready = Some r" "\<forall>j. \<not> stop j"
  shows False
proof -
  have "(\<forall>j. \<not> stop j) \<longrightarrow> False"
    by (rule sampler_loop.raw_induct [where P = "\<lambda>rd unix stop i out ready r. (\<forall>j. \<not> stop j) \<longrightarrow> False", OF _ assms(1)])
      (fastforce simp: Let_def split: if_splits)
  then show ?thesis using assms(2) by blast
qed

definition samples_of :: "telemetry \<Rightarrow> trace" where
  "samples_of r = (case r of Sample (Fin t) (Fin w) \<Rightarrow> [(t, w)] | _ \<Rightarrow> [])"

lemma scan_power_keeps:
  assumes "scan_power rs (identity, samples, errors) = Inr (i, s, e)"
  shows "set s = set samples \<union> (\<Union>r \<in> set rs. set (samples_of r))"
  using assms
proof (induction rs arbitrary: identity samples errors)
  case Nil
  then show ?case by simp
next
  case (Cons r rs)
  then show ?case
    by (cases r) (fastforce simp: samples_of_def split: pyfloat.splits if_splits)+
qed

lemma load_power_keeps:
  assumes "load_power rs = Inr (i, s)"
  shows "set s = (\<Union>r \<in> set rs. set (samples_of r))"
proof -
  obtain i' s' e where sc: "scan_power rs (None, [], 0) = Inr (i', s', e)" and s: "s = sort s'"
    using assms by (auto simp: load_power_def rbind_eq_Inr split: option.splits if_splits)
  show ?thesis using scan_power_keeps [OF sc] by (simp add: s)
qed

lemma sorted_times_bounds:
  assumes "sorted (map fst s)" "x \<in> set s"
  shows "fst (s ! 0) \<le> fst x \<and> fst x \<le> fst (last s)"
proof -
  obtain k where k: "k < length s" "x = s ! k" using assms(2) by (auto simp: in_set_conv_nth)
  have "map fst s ! 0 \<le> map fst s ! k" "map fst s ! k \<le> map fst s ! (length s - 1)"
    using k(1) by (intro sorted_nth_mono [OF assms(1)]; simp)+
  moreover have "s \<noteq> []" using k(1) by auto
  ultimately show ?thesis using k by (simp add: last_conv_nth)
qed


text \<open>Two samples at one time: the whole window has 30 J, the two parts at the repeated time 10 J and 15 J.\<close>

lemma repeated_time_not_additive:
  "window_samples 0 [(0, 10), (1, 10), (1, 20), (2, 20)] (Fin 0) (Fin 2) = Inr ([(0, 10), (1, 10), (1, 20), (2, 20)], [])"
  "integrate [(0, 10), (1, 10), (1, 20), (2, 20)] = 30"
  "\<exists>left right. window_samples 0 [(0, 10), (1, 10), (1, 20), (2, 20)] (Fin 0) (Fin 1) = Inr (left, []) \<and>
    window_samples 0 [(0, 10), (1, 10), (1, 20), (2, 20)] (Fin 1) (Fin 2) = Inr (right, []) \<and> integrate left + integrate right = 25"
  by (simp_all add: window_samples_def interpolate_def inner_def Let_def)

text \<open>C40: The energy of a window that the trace covers is additive when the times of the samples increase
  strictly: cutting the window anywhere changes
  nothing, so splitting a benchmark into intervals neither loses nor double counts energy.  A trace may
  repeat a time, which \<open>load_power\<close> accepts; then a cut at that time can lose energy, as
  \<open>repeated_time_not_additive\<close> shows.\<close>

theorem window_energy_additive:
  assumes "strict_times s" "covers s a c" "a < b" "b < c"
  shows "\<exists>w left right.
    window_samples tolerance s (Fin a) (Fin c) = Inr (w, []) \<and>
    window_samples tolerance s (Fin a) (Fin b) = Inr (left, []) \<and>
    window_samples tolerance s (Fin b) (Fin c) = Inr (right, []) \<and>
    integrate left + integrate right = integrate w"
proof -
  have "covers s a b" "covers s b c" "a < c" using assms by (auto simp: covers_def)
  then show ?thesis
    using assms integrate_window_split [of s a b c] by (auto simp: window_samples_covered)
qed

theorem window_energy_additive_witness:
  "\<exists>w left right.
    window_samples 0 [(0, 10), (2, 30), (4, 20)] (Fin 1) (Fin 4) = Inr (w, []) \<and>
    window_samples 0 [(0, 10), (2, 30), (4, 20)] (Fin 1) (Fin 3) = Inr (left, []) \<and>
    window_samples 0 [(0, 10), (2, 30), (4, 20)] (Fin 3) (Fin 4) = Inr (right, []) \<and>
    integrate left + integrate right = integrate w"
  by (rule window_energy_additive) (simp_all add: strict_times_def covers_def)

lemma scan_power_positive:
  assumes "scan_power rs (identity, samples, errors) = Inr (i, s, e)" "\<forall>x \<in> set samples. 0 < snd x"
  shows "\<forall>x \<in> set s. 0 < snd x"
  using assms
proof (induction rs arbitrary: identity samples errors)
  case (Cons r rs)
  then show ?case
    by (cases r) (fastforce split: pyfloat.splits if_splits)+
qed simp

lemma load_power_positive:
  assumes "load_power rs = Inr (i, s)"
  shows "s \<noteq> [] \<and> (\<forall>x \<in> set s. 0 < snd x)"
proof -
  obtain i' s' e where sc: "scan_power rs (None, [], 0) = Inr (i', s', e)" and s: "s = sort s'" "2 \<le> length s'"
    using assms by (auto simp: load_power_def rbind_eq_Inr split: option.splits if_splits)
  have "s' \<noteq> []" using s(2) by auto
  then have "s \<noteq> []" unfolding s(1) by (metis set_empty set_sort)
  then show ?thesis using scan_power_positive [OF sc] s(1) by simp
qed

text \<open>Over a trace that \<open>load_power\<close> accepted, the energy of every window the code integrates, held
  boundaries included, lies between the window's length times the least and the greatest reading, and
  is positive.\<close>

theorem window_energy_bounds:
  assumes "load_power records = Inr (identity, s)"
    and "window_samples tolerance s (Fin a) (Fin b) = Inr (w, clamps)"
    and "\<forall>r \<in> set records. \<forall>x \<in> set (samples_of r). lo \<le> snd x \<and> snd x \<le> hi"
  shows "lo * (b - a) \<le> integrate w \<and> integrate w \<le> hi * (b - a) \<and> 0 < integrate w"
proof -
  note sorted = load_power_sorted [OF assms(1)]
  have pos: "s \<noteq> []" "\<forall>x \<in> set s. 0 < snd x" using load_power_positive [OF assms(1)] by blast+
  have all: "\<forall>x \<in> set s. lo \<le> snd x \<and> snd x \<le> hi" using load_power_keeps [OF assms(1)] assms(3) by blast
  let ?m = "Min (snd ` set s)"
  have "\<forall>x \<in> set s. ?m \<le> snd x \<and> snd x \<le> Max (snd ` set s)" by simp
  then have "?m * (b - a) \<le> integrate w" using integrate_window_bounds [OF assms(2) sorted] by blast
  moreover have "0 < ?m" using pos by simp
  moreover have "a < b" using assms(2) by (auto simp: window_samples_def split: if_splits)
  ultimately have "0 < integrate w" using mult_pos_pos [of ?m "b - a"] by linarith
  then show ?thesis using integrate_window_bounds [OF assms(2) sorted all] by blast
qed

theorem window_energy_bounds_witness:
  "10 * (5 - 1) \<le> integrate [(1, 20), (2, 30), (4, 20), (5, 20)] \<and> integrate [(1, 20), (2, 30), (4, 20), (5, 20)] \<le> 30 * (5 - (1::real)) \<and>
   0 < integrate [(1, 20), (2, 30), (4, 20), (5, 20)]"
  by (rule window_energy_bounds
      [where records = "[Identity \<lparr>id_gpu_uuid = None, id_gpu_name = None\<rparr>, Sample (Fin 2) (Fin 30),
           ErrorRecord, Sample (Fin 0) (Fin 10), Sample (Fin 4) (Fin 20)]"
         and s = "[(0, 10), (2, 30), (4, 20)]" and tolerance = 1])
    (auto simp: load_power_def window_samples_def interpolate_def samples_of_def Let_def)

lemma scan_power_sampler:
  assumes "\<forall>r \<in> set rs. r = ErrorRecord \<or> r = OtherRecord \<or> (\<exists>t w. r = Sample (Fin t) (Fin w) \<and> 0 < w)"
  shows "scan_power rs (identity, samples, errors) =
    Inr (identity, samples @ concat (map samples_of rs), errors + length (filter (\<lambda>r. r = ErrorRecord) rs))"
  using assms
proof (induction rs arbitrary: samples errors)
  case (Cons r rs)
  then consider "r = ErrorRecord" | "r = OtherRecord" | t w where "r = Sample (Fin t) (Fin w)" "0 < w" by auto
  then show ?case using Cons by cases (simp_all add: samples_of_def)
qed simp

lemma sample_record_cases:
  "sample_record rd u = ErrorRecord \<or> (\<exists>w. sample_record rd u = Sample (Fin u) (Fin w) \<and> 0 < w)"
  by (auto simp: sample_record_def not_le split: reading.split pyfloat.split)

text \<open>The sampler returns exactly when its period is rejected or its stop file appears at some test.\<close>

theorem sampler_returns:
  "sampler_main (Fin p) identity rd unix stop = None \<longleftrightarrow> 0 < p \<and> (\<forall>i. \<not> stop i)"
proof (cases "\<exists>i. stop i")
  case True
  define n where "n = (LEAST i. stop i)"
  have "stop n" "\<forall>j < n. \<not> stop j" using LeastI_ex [OF True] not_less_Least by (auto simp: n_def)
  then obtain r where "sampler_loop rd unix stop 0 [Identity identity] False = Some r"
    using sampler_loop_stops [of stop n 0 rd unix "[Identity identity]" False] by blast
  then show ?thesis using True by (simp add: sampler_main_def)
next
  case False
  then have "sampler_loop rd unix stop 0 [Identity identity] False = None"
    using sampler_loop_diverges by (metis option.exhaust)
  then show ?thesis using False by (simp add: sampler_main_def)
qed

text \<open>The closing sample does what it is there for: when some reading succeeded before a window and
  the reading after the stop request succeeds once the window is over, the trace the sampler wrote is
  accepted and covers the window, so the aggregation needs no clamp whatever happened in between.\<close>

theorem sampler_trace_covers:
  assumes stop: "stop n" "\<forall>j < n. \<not> stop j" and p: "0 < p"
    and f: "f \<le> n" "rd f = Watts (Fin w0)" "0 < w0" "unix f \<le> a" and ab: "a < b"
    and n: "rd n = Watts (Fin w1)" "0 < w1" "b \<le> unix n"
    and few: "length (filter (\<lambda>r. r = ErrorRecord) (map (record_at rd unix) [0..<Suc n])) \<le> 3"
  shows "\<exists>records ready s w.
    sampler_main (Fin p) identity rd unix stop = Some (Inr (records, ready)) \<and>
    load_power records = Inr (identity, s) \<and>
    window_samples 0 s (Fin a) (Fin b) = Inr (w, [])"
proof -
  let ?rs = "map (record_at rd unix) [0..<Suc n] @ [OtherRecord]"
  obtain ready where run: "sampler_main (Fin p) identity rd unix stop = Some (Inr (Identity identity # ?rs, ready))"
    using sampler_loop_stops [OF stop, of 0 rd unix "[Identity identity]" False] p
    by (auto simp: sampler_main_def)
  let ?s = "concat (map samples_of ?rs)"
  have "\<forall>r \<in> set ?rs. r = ErrorRecord \<or> r = OtherRecord \<or> (\<exists>t w. r = Sample (Fin t) (Fin w) \<and> 0 < w)"
    using sample_record_cases by (fastforce simp: record_at_def)
  from scan_power_sampler [OF this, of "Some identity" "[]" 0]
  have scan: "scan_power (Identity identity # ?rs) (None, [], 0) =
      Inr (Some identity, ?s, length (filter (\<lambda>r. r = ErrorRecord) ?rs))" by simp
  have mem: "x \<in> set ?s" if "samples_of (record_at rd unix i) = [x]" "i \<le> n" for x i
  proof -
    have "i \<in> set [0..<Suc n]" using that(2) by (simp only: set_upt) simp
    then have "record_at rd unix i \<in> set ?rs" by (simp only: set_append set_map imageI UnI1)
    then have "samples_of (record_at rd unix i) \<in> set (map samples_of ?rs)" by (simp only: set_map imageI)
    then show ?thesis unfolding set_concat using that(1) by fastforce
  qed
  have first: "(unix f, w0) \<in> set ?s"
    by (rule mem [of f]) (use f in \<open>simp_all add: record_at_def sample_record_def samples_of_def\<close>)
  have final: "(unix n, w1) \<in> set ?s"
    by (rule mem [of n]) (use n in \<open>simp_all add: record_at_def sample_record_def samples_of_def\<close>)
  have "card {(unix f, w0), (unix n, w1)} = 2" using f(4) ab n(3) by simp
  moreover have "card {(unix f, w0), (unix n, w1)} \<le> card (set ?s)"
    by (rule card_mono) (use first final in blast)+
  ultimately have two: "\<not> length ?s < 2" using card_length [of ?s] by linarith
  have load: "load_power (Identity identity # ?rs) = Inr (identity, sort ?s)"
  proof -
    have "length (filter (\<lambda>r. r = ErrorRecord) ?rs) \<le> 3" using few by (simp only: filter_append) simp
    then have "\<not> length (filter (\<lambda>r. r = ErrorRecord) ?rs) > max 3 (length ?s div 20)" by linarith
    then show ?thesis unfolding load_power_def scan using two by (simp only: rbind_Inr prod.case option.case if_False conj_absorb)  simp
  qed
  have "fst (sort ?s ! 0) \<le> unix f" "unix n \<le> fst (last (sort ?s))"
    using sorted_times_bounds [OF sort_times, of "(unix f, w0)" ?s]
      sorted_times_bounds [OF sort_times, of "(unix n, w1)" ?s] first final by (simp_all only: set_sort fst_conv)
  moreover have "sort ?s \<noteq> []" using first by (metis empty_iff list.set(1) set_sort)
  ultimately have "covers (sort ?s) a b" unfolding covers_def using f(4) n(3) by linarith
  from window_samples_covered [OF this ab] load run show ?thesis by blast
qed

theorem sampler_trace_covers_witness:
  "\<exists>records ready s w.
    sampler_main (Fin 1) \<lparr>id_gpu_uuid = None, id_gpu_name = None\<rparr>
      (\<lambda>i. if i = 1 then ReaderError else Watts (Fin 50)) real (\<lambda>i. i \<ge> 2) = Some (Inr (records, ready)) \<and>
    load_power records = Inr (\<lparr>id_gpu_uuid = None, id_gpu_name = None\<rparr>, s) \<and>
    window_samples 0 s (Fin 1) (Fin 2) = Inr (w, [])"
  by (rule sampler_trace_covers [where n = 2 and f = 0 and ?w0.0 = 50 and ?w1.0 = 50])
    (simp_all add: record_at_def sample_record_def numeral_2_eq_2)

section \<open>Percentiles\<close>

lemma nearest_rank:
  fixes xs :: "'a::linorder list"
  assumes "k < length xs"
  shows "k < length (filter (\<lambda>v. v \<le> sort xs ! k) xs)" "length (filter (\<lambda>v. v < sort xs ! k) xs) \<le> k"
proof -
  let ?s = "sort xs"
  have len: "length (filter P ?s) = length (filter P xs)" for P
    by (simp add: filter_sort)
  have "{..k} \<subseteq> {i. i < length ?s \<and> ?s ! i \<le> ?s ! k}" using assms by (auto intro: sorted_nth_mono)
  then have "card {..k} \<le> length (filter (\<lambda>v. v \<le> ?s ! k) ?s)"
    unfolding length_filter_conv_card by (intro card_mono) auto
  then show "k < length (filter (\<lambda>v. v \<le> ?s ! k) xs)" by (simp add: len)
  have "i < k" if "i < length ?s" "?s ! i < ?s ! k" for i
    using that sorted_nth_mono [of ?s k i] by (metis leD not_le sorted_sort)
  then have "{i. i < length ?s \<and> ?s ! i < ?s ! k} \<subseteq> {..<k}" by auto
  then have "length (filter (\<lambda>v. v < ?s ! k) ?s) \<le> card {..<k}"
    unfolding length_filter_conv_card by (intro card_mono) auto
  then show "length (filter (\<lambda>v. v < ?s ! k) xs) \<le> k" by (simp add: len)
qed

lemma ceil_95:
  obtains c :: nat where "\<lceil>0.95 * real n\<rceil> = int c" "\<lfloor>0.95 * real n + 0.999\<rfloor> = int c"
    "0.95 * real n \<le> real c" "real c < 0.95 * real n + 1" "c \<le> n"
proof -
  let ?c = "\<lceil>0.95 * real n\<rceil>"
  have nn: "0 \<le> ?c" by (simp add: ceiling_def)
  have b: "0.95 * real n \<le> of_int ?c" "of_int ?c < 0.95 * real n + 1" by linarith+
  have "of_int (20 * ?c) < real_of_int (19 * int n + 20)" using b(2) by simp
  then have "20 * ?c < 19 * int n + 20" by (simp only: of_int_less_iff)
  then have "20 * ?c \<le> 19 * int n + 19" by simp
  then have "of_int (20 * ?c) \<le> real_of_int (19 * int n + 19)" by (simp only: of_int_le_iff)
  then have lo: "of_int ?c \<le> 0.95 * real n + 0.999" by simp
  have "0.95 * real n + 0.999 < of_int ?c + 1" by (rule add_le_less_mono [OF b(1)]) simp
  with lo have fl: "\<lfloor>0.95 * real n + 0.999\<rfloor> = ?c" by (rule floor_unique)
  have "?c \<le> int n" by (simp add: ceiling_le_iff)
  then show thesis using nn b fl that [of "nat ?c"] by (simp add: nat_le_iff)
qed

text \<open>The aggregation's and the sampler's 95th percentile, computed by two different formulas, are the same
  sample for every non-empty list: the nearest-rank percentile, with at least 95 percent of the
  values at or below it and fewer than 95 percent strictly below.\<close>

theorem p95_is_nearest_rank:
  assumes "values \<noteq> []"
  shows "\<exists>q. p95 values = Inr q \<and> percentile values 0.95 = q \<and> q \<in> set values \<and>
    0.95 * real (length values) \<le> real (length (filter (\<lambda>v. v \<le> q) values)) \<and>
    real (length (filter (\<lambda>v. v < q) values)) < 0.95 * real (length values)"
proof -
  obtain c where c: "\<lceil>0.95 * real (length values)\<rceil> = int c" "\<lfloor>0.95 * real (length values) + 0.999\<rfloor> = int c"
    "0.95 * real (length values) \<le> real c" "real c < 0.95 * real (length values) + 1" "c \<le> length values"
    by (rule ceil_95)
  have pos: "0 < length values" using assms by simp
  have "c \<noteq> 0"
  proof
    assume "c = 0"
    then show False using c(3) pos by simp
  qed
  then have k: "0 < c" by simp
  let ?q = "sort values ! (c - 1)"
  have lt: "c - 1 < length values" using k c(5) by linarith
  have ne: "sort values \<noteq> []" using assms by (metis set_empty set_sort)
  have index: "nat (max 0 (int c - 1)) = c - 1" "nat (max 0 (min (int (length values) - 1) (int c - 1))) = c - 1"
    using k c(5) by auto
  have "p95 values = Inr ?q" unfolding p95_def Let_def length_sort c(1) index using ne by (simp only: if_False)
  moreover have "percentile values 0.95 = ?q" unfolding percentile_def Let_def length_sort c(2) index by (rule refl)
  moreover have "?q \<in> set values" using lt by (metis length_sort nth_mem set_sort)
  moreover have "0.95 * real (length values) \<le> real (length (filter (\<lambda>v. v \<le> ?q) values))"
    using nearest_rank(1) [OF lt] c(3) k by linarith
  moreover have "real (length (filter (\<lambda>v. v < ?q) values)) < 0.95 * real (length values)"
    using nearest_rank(2) [OF lt] c(4) k by linarith
  ultimately show ?thesis by blast
qed

theorem p95_is_nearest_rank_witness:
  "\<exists>q. p95 [30, 10, 20] = Inr q \<and> percentile [30, 10, 20] 0.95 = q \<and> q \<in> set [30, 10, 20] \<and>
    0.95 * real (length [30, 10, 20 :: real]) \<le> real (length (filter (\<lambda>v. v \<le> q) [30, 10, 20])) \<and>
    real (length (filter (\<lambda>v. v < q) [30, 10, 20])) < 0.95 * real (length [30, 10, 20 :: real])"
  by (rule p95_is_nearest_rank) simp

section \<open>Totals\<close>

lemma interval_step_result:
  assumes "interval_step tolerance s idle ac iv = Inr ac'"
  obtains r where "ac_results ac' = ac_results ac @ [r]" "ac_steps ac' = ac_steps ac + ir_steps r"
    "ac_seconds ac' = ac_seconds ac + ir_seconds r" "ac_energy ac' = ac_energy ac + ir_gross_joules r"
    "ac_sampled_energy ac' = ac_sampled_energy ac + ir_sampled_joules r"
    "ir_index r = iv_index iv" "ir_steps r = iv_steps iv" "0 < ir_steps r" "0 < ir_seconds r"
proof -
  obtain tr cl where w: "window_samples tolerance s (iv_start iv) (iv_end iv) = Inr (tr, cl)" and st: "0 < iv_steps iv"
    using assms by (auto simp: interval_step_def rbind_eq_Inr not_le split: if_splits)
  obtain ct where ct: "counter_joules (iv_energy_start_mj iv) (iv_energy_end_mj iv) = Inr ct"
    using assms w st by (auto simp: interval_step_def rbind_eq_Inr Let_def)
  have pos: "float_of (iv_start iv) < float_of (iv_end iv)"
    using w by (auto simp: window_samples_def float_of_def split: if_splits pyfloat.splits)
  have "ac_results ac' = ac_results ac @ [last (ac_results ac')]" and
    "ac_steps ac' = ac_steps ac + ir_steps (last (ac_results ac'))" and
    "ac_seconds ac' = ac_seconds ac + ir_seconds (last (ac_results ac'))" and
    "ac_energy ac' = ac_energy ac + ir_gross_joules (last (ac_results ac'))" and
    "ac_sampled_energy ac' = ac_sampled_energy ac + ir_sampled_joules (last (ac_results ac'))" and
    "ir_index (last (ac_results ac')) = iv_index iv" and "ir_steps (last (ac_results ac')) = iv_steps iv" and
    "0 < ir_steps (last (ac_results ac'))" and "0 < ir_seconds (last (ac_results ac'))"
    using assms w st ct pos by (auto simp: interval_step_def Let_def)
  then show thesis by (rule that)
qed

lemma interval_fold_results:
  assumes "rfold (interval_step tolerance s idle) ac ivs = Inr ac'"
  obtains rs where "ac_results ac' = ac_results ac @ rs" "ac_steps ac' = ac_steps ac + sum_list (map ir_steps rs)"
    "ac_seconds ac' = ac_seconds ac + sum_list (map ir_seconds rs)"
    "ac_energy ac' = ac_energy ac + sum_list (map ir_gross_joules rs)"
    "ac_sampled_energy ac' = ac_sampled_energy ac + sum_list (map ir_sampled_joules rs)"
    "map ir_index rs = map iv_index ivs" "map ir_steps rs = map iv_steps ivs"
    "\<forall>r \<in> set rs. 0 < ir_steps r \<and> 0 < ir_seconds r"
  using assms
proof (induction ivs arbitrary: ac thesis)
  case Nil
  then show ?case using Nil(1) [of "[]"] by simp
next
  case (Cons iv ivs)
  obtain ac1 where a1: "interval_step tolerance s idle ac iv = Inr ac1"
    and rest: "rfold (interval_step tolerance s idle) ac1 ivs = Inr ac'"
    using Cons.prems(2) by (auto simp: rbind_eq_Inr)
  obtain r where r: "ac_results ac1 = ac_results ac @ [r]" "ac_steps ac1 = ac_steps ac + ir_steps r"
    "ac_seconds ac1 = ac_seconds ac + ir_seconds r" "ac_energy ac1 = ac_energy ac + ir_gross_joules r"
    "ac_sampled_energy ac1 = ac_sampled_energy ac + ir_sampled_joules r"
    "ir_index r = iv_index iv" "ir_steps r = iv_steps iv" "0 < ir_steps r" "0 < ir_seconds r"
    using interval_step_result [OF a1] .
  obtain rs where "ac_results ac' = ac_results ac1 @ rs" "ac_steps ac' = ac_steps ac1 + sum_list (map ir_steps rs)"
    "ac_seconds ac' = ac_seconds ac1 + sum_list (map ir_seconds rs)"
    "ac_energy ac' = ac_energy ac1 + sum_list (map ir_gross_joules rs)"
    "ac_sampled_energy ac' = ac_sampled_energy ac1 + sum_list (map ir_sampled_joules rs)"
    "map ir_index rs = map iv_index ivs" "map ir_steps rs = map iv_steps ivs"
    "\<forall>r \<in> set rs. 0 < ir_steps r \<and> 0 < ir_seconds r"
    using Cons.IH [OF _ rest] .
  then show ?case using Cons.prems(1) [of "r # rs"] r by simp
qed

text \<open>A summary reports exactly the intervals of the timing file, in order, each with a positive length and a
  positive number of tokens; its steps and seconds are their sums, and its averages times those sums
  give back the total energy and the total sampled energy.\<close>

theorem summary_totals:
  assumes "summarize_device tolerance name tm records = Inr (d, clamps)"
  shows "map ir_index (ds_intervals d) = map iv_index (tm_intervals tm) \<and>
    (\<forall>r \<in> set (ds_intervals d). 0 < ir_steps r \<and> 0 < ir_seconds r) \<and>
    ds_steps d = sum_list (map iv_steps (tm_intervals tm)) \<and>
    ds_seconds d = sum_list (map ir_seconds (ds_intervals d)) \<and>
    ds_gross_joules_per_token d * of_int (ds_steps d) = sum_list (map ir_gross_joules (ds_intervals d)) \<and>
    ds_active_mean_watts d * ds_seconds d = sum_list (map ir_gross_joules (ds_intervals d)) \<and>
    ds_sampled_active_mean_watts d * ds_seconds d = sum_list (map ir_sampled_joules (ds_intervals d)) \<and>
    ds_tokens_per_second d * ds_seconds d = of_int (ds_steps d)"
proof -
  obtain s idle c ac where fold: "rfold (interval_step tolerance s idle) (start_accumulated c) (tm_intervals tm) = Inr ac"
    and steps: "0 < ac_steps ac"
    and d: "ds_intervals d = ac_results ac" "ds_steps d = ac_steps ac" "ds_seconds d = ac_seconds ac"
      "ds_gross_joules_per_token d = ac_energy ac / of_int (ac_steps ac)"
      "ds_active_mean_watts d = ac_energy ac / ac_seconds ac"
      "ds_sampled_active_mean_watts d = ac_sampled_energy ac / ac_seconds ac"
      "ds_tokens_per_second d = of_int (ac_steps ac) / ac_seconds ac"
    using assms by (auto simp: summarize_device_def rbind_eq_Inr Let_def not_le split: if_splits)
  obtain rs where rs: "ac_results ac = rs" "ac_steps ac = sum_list (map ir_steps rs)"
    "ac_seconds ac = sum_list (map ir_seconds rs)" "ac_energy ac = sum_list (map ir_gross_joules rs)"
    "ac_sampled_energy ac = sum_list (map ir_sampled_joules rs)"
    "map ir_index rs = map iv_index (tm_intervals tm)" "map ir_steps rs = map iv_steps (tm_intervals tm)"
    "\<forall>r \<in> set rs. 0 < ir_steps r \<and> 0 < ir_seconds r"
    using interval_fold_results [OF fold] by (auto simp: start_accumulated_def)
  have "rs \<noteq> []" using steps rs(2) by auto
  moreover have "0 < sum_list (map ir_seconds xs)" if "xs \<noteq> []" "\<forall>r \<in> set xs. 0 < ir_seconds r" for xs
    using that by (induction xs rule: list_nonempty_induct) (auto intro: add_pos_pos)
  ultimately have "0 < ac_seconds ac" using rs(3,8) by metis
  then show ?thesis using steps rs by (simp add: d)
qed

theorem summary_totals_witness:
  "\<exists>d clamps. summarize_device 0 None
      \<lparr>tm_gpu_uuid = None, tm_device = None, tm_execution = None, tm_prompt_sha256 = None, tm_teacher_sha256 = None,
       tm_idle_start = Fin 0, tm_warmup_start = Fin 1, tm_idle_energy_start_mj = None, tm_idle_energy_end_mj = None,
       tm_intervals = [\<lparr>iv_index = 0, iv_start = Fin 1, iv_end = Fin 3, iv_steps = 5, iv_energy_start_mj = None,
         iv_energy_end_mj = None, iv_production_mean_ms = 2, iv_kernel_mean_ms = 1\<rparr>]\<rparr>
      [Identity \<lparr>id_gpu_uuid = None, id_gpu_name = None\<rparr>, Sample (Fin 0) (Fin 10), Sample (Fin 4) (Fin 10)] = Inr (d, clamps) \<and>
    ds_gross_joules_per_token d * of_int (ds_steps d) = sum_list (map ir_gross_joules (ds_intervals d))"
proof -
  let ?tm = "\<lparr>tm_gpu_uuid = None, tm_device = None, tm_execution = None, tm_prompt_sha256 = None, tm_teacher_sha256 = None,
       tm_idle_start = Fin 0, tm_warmup_start = Fin 1, tm_idle_energy_start_mj = None, tm_idle_energy_end_mj = None,
       tm_intervals = [\<lparr>iv_index = 0, iv_start = Fin 1, iv_end = Fin 3, iv_steps = 5, iv_energy_start_mj = None,
         iv_energy_end_mj = None, iv_production_mean_ms = 2, iv_kernel_mean_ms = 1\<rparr>]\<rparr>"
  let ?rec = "[Identity \<lparr>id_gpu_uuid = None, id_gpu_name = None\<rparr>, Sample (Fin 0) (Fin 10), Sample (Fin 4) (Fin 10)]"
  have "\<exists>d clamps. summarize_device 0 None ?tm ?rec = Inr (d, clamps)"
    by (simp add: summarize_device_def load_power_def window_samples_def interpolate_def counter_joules_def
        start_accumulated_def interval_step_def float_of_def p95_def Let_def)
  then obtain d clamps where d: "summarize_device 0 None ?tm ?rec = Inr (d, clamps)" by blast
  from summary_totals [OF this] d show ?thesis by blast
qed
end
