(* ===== verification/PackedDataset.thy ===== *)
theory PackedDataset
  imports Complex_Main PyBytes PyStrings "HOL-Library.Multiset"
begin

text \<open>
  The packed token files of \<open>lit_gpt/packed_dataset.py\<close>: the builder that cuts a stream of
  tokens into files of one chunk each, the iterator that maps a number of files at a time and
  hands out blocks, the sharding of the files over processes and workers, and the mixture of
  several data sets.

  A file system is a map from names to contents.  An element of an array is the list of its
  bytes, so that assigning an integer to an array wraps as NumPy's casts do; the conversion of the
  two float types is a parameter, as are NumPy's generator and its permutations.  The exception of
  a method that changes its object first is returned with the changed object for the builder, whose
  partial files stay on disk; an exception ends the use of an iterator.
\<close>

section \<open>Element types and the header\<close>

text \<open>\<open>UInt32\<close> stands for the NumPy types the table does not list.\<close>

datatype np_dtype = UInt8 | Int8 | Int16 | Int32 | Int64 | Float32 | Float64 | UInt16 | UInt32

definition dtypes :: "(int \<times> np_dtype) list" where
  "dtypes = [(1, UInt8), (2, Int8), (3, Int16), (4, Int32), (5, Int64), (6, Float32), (7, Float64), (8, UInt16)]"

definition code :: "np_dtype \<Rightarrow> int result" where
  "code dtype = (case filter (\<lambda>(k, d). d = dtype) dtypes of [] \<Rightarrow> Inl ValueError | (k, d) # _ \<Rightarrow> Inr k)"

fun itemsize :: "np_dtype \<Rightarrow> nat" where
  "itemsize UInt8 = 1"
| "itemsize Int8 = 1"
| "itemsize Int16 = 2"
| "itemsize Int32 = 4"
| "itemsize Int64 = 8"
| "itemsize Float32 = 4"
| "itemsize Float64 = 8"
| "itemsize UInt16 = 2"
| "itemsize UInt32 = 4"

definition HDR_MAGIC :: bytes where
  "HDR_MAGIC = ascii ''LITPKDS''"

definition HDR_SIZE :: nat where
  "HDR_SIZE = 24"

text \<open>
  What the code uses of NumPy: the float types, a generator with its permutations, and whether \<open>fill\<close>
  refuses an integer its type cannot hold, as recent versions do, or wraps it.
\<close>

record 'r numpy =
  float_bytes :: "np_dtype \<Rightarrow> int \<Rightarrow> bytes"
  float_int :: "np_dtype \<Rightarrow> bytes \<Rightarrow> int"
  default_rng :: "int \<Rightarrow> 'r"
  permutation :: "'r \<Rightarrow> nat \<Rightarrow> nat list \<times> 'r"
  fill_checks :: bool

definition is_float :: "np_dtype \<Rightarrow> bool" where
  "is_float dtype \<longleftrightarrow> dtype = Float32 \<or> dtype = Float64"

definition is_signed :: "np_dtype \<Rightarrow> bool" where
  "is_signed dtype \<longleftrightarrow> dtype \<in> {Int8, Int16, Int32, Int64}"

definition to_elem :: "'r numpy \<Rightarrow> np_dtype \<Rightarrow> int \<Rightarrow> bytes" where
  "to_elem np dtype v =
     (if is_float dtype then float_bytes np dtype v else le_bytes (itemsize dtype) v)"

definition astype_int64 :: "'r numpy \<Rightarrow> np_dtype \<Rightarrow> bytes \<Rightarrow> int" where
  "astype_int64 np dtype e =
     (if is_float dtype then float_int np dtype e
      else if is_signed dtype then signed_of (itemsize dtype) (le_value e)
      else le_value e)"

definition representable :: "np_dtype \<Rightarrow> int \<Rightarrow> bool" where
  "representable dtype v \<longleftrightarrow> \<not> is_float dtype \<and>
     (if is_signed dtype then - (256 ^ itemsize dtype div 2) \<le> v \<and> v < 256 ^ itemsize dtype div 2
      else 0 \<le> v \<and> v < 256 ^ itemsize dtype)"

section \<open>The builder\<close>

type_synonym files = "string \<Rightarrow> bytes option"

datatype dtype_arg = AutoDtype | Dtype np_dtype

record packed_builder =
  bd_dtype :: np_dtype
  bd_counter :: nat
  bd_chunk_size :: nat
  bd_outdir :: string
  bd_prefix :: string
  bd_sep_token :: int
  bd_arr :: "bytes list"
  bd_idx :: nat
  bd_version :: int
  bd_filenames :: "string list"

definition PackedDatasetBuilder_init ::
  "'r numpy \<Rightarrow> string \<Rightarrow> string \<Rightarrow> int \<Rightarrow> int \<Rightarrow> dtype_arg \<Rightarrow> int option \<Rightarrow> packed_builder result" where
  "PackedDatasetBuilder_init np outdir prefix chunk_size sep_token dtype vocab_size =
     rbind (case dtype of
              AutoDtype \<Rightarrow> (case vocab_size of
                  None \<Rightarrow> Inl ValueError
                | Some n \<Rightarrow> Inr (if n < 65500 then UInt16 else Int32))
            | Dtype d \<Rightarrow> Inr d)
       (\<lambda>dt. if chunk_size < 0 then Inl ValueError
             else if fill_checks np \<and> \<not> is_float dt \<and> \<not> representable dt sep_token then Inl OverflowError
             else Inr \<lparr>bd_dtype = dt, bd_counter = 0, bd_chunk_size = nat chunk_size, bd_outdir = outdir,
                       bd_prefix = prefix, bd_sep_token = sep_token,
                       bd_arr = replicate (nat chunk_size) (to_elem np dt sep_token),
                       bd_idx = 0, bd_version = 1, bd_filenames = []\<rparr>)"

text \<open>The file name \<open>f"{prefix}_{counter:010d}.bin"\<close> and \<open>os.path.join\<close>.\<close>

fun digits :: "nat \<Rightarrow> nat \<Rightarrow> string" where
  "digits 0 n = []"
| "digits (Suc w) n = digits w (n div 10) @ [char_of (48 + n mod 10)]"

fun width :: "nat \<Rightarrow> nat" where
  "width n = (if n < 10 then 1 else Suc (width (n div 10)))"

definition zero_padded :: "nat \<Rightarrow> nat \<Rightarrow> string" where
  "zero_padded w n = digits (max w (width n)) n"

definition path_join :: "string \<Rightarrow> string \<Rightarrow> string" where
  "path_join a b =
     (if take 1 b = ''/'' then b
      else if a = [] \<or> last a = CHR ''/'' then a @ b
      else a @ ''/'' @ b)"

definition chunk_filename :: "string \<Rightarrow> string \<Rightarrow> nat \<Rightarrow> string" where
  "chunk_filename outdir prefix counter =
     path_join outdir (prefix @ ''_'' @ zero_padded 10 counter @ ''.bin'')"

text \<open>Consecutive \<open>f.write\<close> calls: what was written before an exception stays in the file.\<close>

fun write_all :: "bytes result list \<Rightarrow> bytes \<times> unit result" where
  "write_all [] = ([], Inr ())"
| "write_all (Inl e # parts) = ([], Inl e)"
| "write_all (Inr bs # parts) = (let (rest, r) = write_all parts in (bs @ rest, r))"

definition write_chunk ::
  "'r numpy \<Rightarrow> packed_builder \<times> files \<Rightarrow> (packed_builder \<times> files) \<times> unit result" where
  "write_chunk np = (\<lambda>(b, fs).
     let filename = chunk_filename (bd_outdir b) (bd_prefix b) (bd_counter b);
         (content, r) = write_all [Inr HDR_MAGIC, pack_uint 8 (bd_version b),
                          rbind (code (bd_dtype b)) (pack_uint 1),
                          pack_uint 8 (int (bd_chunk_size b)), Inr (concat (bd_arr b))];
         fs' = fs(filename \<mapsto> content)
     in case r of
          Inl e \<Rightarrow> ((b, fs'), Inl e)
        | Inr _ \<Rightarrow> ((b\<lparr>bd_filenames := bd_filenames b @ [filename], bd_counter := bd_counter b + 1,
                      bd_arr := replicate (bd_chunk_size b) (to_elem np (bd_dtype b) (bd_sep_token b)),
                      bd_idx := 0\<rparr>, fs'), Inr ()))"

text \<open>The slice assignment \<open>self._arr[idx : idx + n] = xs\<close> with \<open>n\<close> elements.\<close>

definition store_slice :: "bytes list \<Rightarrow> nat \<Rightarrow> bytes list \<Rightarrow> bytes list" where
  "store_slice arr idx xs = take idx arr @ xs @ drop (idx + length xs) arr"

partial_function (option) add_array ::
  "'r numpy \<Rightarrow> packed_builder \<Rightarrow> files \<Rightarrow> int list \<Rightarrow> ((packed_builder \<times> files) \<times> unit result) option" where
  "add_array np b fs arr =
     (if bd_idx b + length arr > bd_chunk_size b
      then (let part_len = bd_chunk_size b - bd_idx b;
                b1 = b\<lparr>bd_arr := store_slice (bd_arr b) (bd_idx b) (map (to_elem np (bd_dtype b)) (take part_len arr))\<rparr>;
                w = write_chunk np (b1, fs)
            in if snd w = Inr () then add_array np (fst (fst w)) (snd (fst w)) (drop part_len arr)
               else Some w)
      else Some ((b\<lparr>bd_arr := store_slice (bd_arr b) (bd_idx b) (map (to_elem np (bd_dtype b)) arr),
                    bd_idx := bd_idx b + length arr\<rparr>, fs), Inr ()))"

definition write_reminder ::
  "'r numpy \<Rightarrow> packed_builder \<times> files \<Rightarrow> (packed_builder \<times> files) \<times> unit result" where
  "write_reminder np s = write_chunk np s"


section \<open>The iterator\<close>

record 'r packed_iterator =
  it_rng :: "'r option"
  it_shuffle :: bool
  it_wrap :: bool
  it_filenames :: "string list"
  it_file_idx :: nat
  it_n_chunks :: nat
  it_dtype :: "np_dtype option"
  it_chunk_size :: nat
  it_block_size :: nat
  it_n_blocks :: "nat option"
  it_buffers :: "bytes list"
  it_block_idxs :: "nat list"
  it_curr_idx :: nat

definition read_header :: "files \<Rightarrow> string \<Rightarrow> (np_dtype \<times> nat) result" where
  "read_header fs path =
     (case fs path of
        None \<Rightarrow> Inl FileNotFoundError
      | Some f \<Rightarrow>
          if take (length HDR_MAGIC) f \<noteq> HDR_MAGIC then Inl AssertionError
          else rbind (unpack_uint_from 8 f 7) (\<lambda>version.
               if version \<noteq> 1 then Inl AssertionError
               else rbind (unpack_uint_from 1 f 15) (\<lambda>dtype_code.
                 case map_of dtypes dtype_code of
                   None \<Rightarrow> Inl KeyError
                 | Some dtype \<Rightarrow> rbind (unpack_uint_from 8 f 16) (\<lambda>chunk_size.
                     Inr (dtype, nat chunk_size)))))"

text \<open>
  \<open>np.memmap(filename, mode="r", offset=HDR_SIZE)\<close>: the bytes after the header.
  \<open>np.frombuffer\<close> reads \<open>n\<close> elements of \<open>sz\<close> bytes each.
\<close>

definition memmap :: "files \<Rightarrow> string \<Rightarrow> bytes result" where
  "memmap fs path =
     (case fs path of
        None \<Rightarrow> Inl FileNotFoundError
      | Some f \<Rightarrow> if length f < HDR_SIZE then Inl ValueError else Inr (drop HDR_SIZE f))"

fun elements :: "nat \<Rightarrow> nat \<Rightarrow> bytes \<Rightarrow> bytes list" where
  "elements sz 0 bs = []"
| "elements sz (Suc n) bs = take sz bs # elements sz n (drop sz bs)"

definition frombuffer :: "bytes \<Rightarrow> nat \<Rightarrow> nat \<Rightarrow> nat \<Rightarrow> bytes list result" where
  "frombuffer buf sz n offset =
     (if length buf < offset then Inl ValueError
      else if length buf - offset < n * sz then Inl ValueError
      else Inr (elements sz n (drop offset buf)))"

definition load_chunk :: "files \<Rightarrow> 'r packed_iterator \<Rightarrow> nat \<Rightarrow> 'r packed_iterator result" where
  "load_chunk fs it i =
     (if it_file_idx it + i < length (it_filenames it)
      then (let filename = it_filenames it ! (it_file_idx it + i)
            in rbind (case it_dtype it of
                 Some _ \<Rightarrow> Inr it
               | None \<Rightarrow> rbind (read_header fs filename) (\<lambda>(dtype, chunk_size).
                   if it_block_size it = 0 then Inl ZeroDivisionError
                   else Inr (it\<lparr>it_dtype := Some dtype, it_chunk_size := chunk_size,
                                it_n_blocks := Some (chunk_size div it_block_size it)\<rparr>)))
               (\<lambda>it. rbind (memmap fs filename) (\<lambda>mmap.
                  Inr (it\<lparr>it_buffers := it_buffers it @ [mmap]\<rparr>))))
      else Inl IndexError)"

definition schedule_blocks :: "'r numpy \<Rightarrow> 'r packed_iterator \<Rightarrow> 'r packed_iterator result" where
  "schedule_blocks np it =
     (case it_n_blocks it of
        None \<Rightarrow> Inl TypeError
      | Some n_blocks \<Rightarrow>
          (let n_all_blocks = it_n_chunks it * n_blocks;
               it = it\<lparr>it_file_idx := it_file_idx it + it_n_chunks it, it_curr_idx := 0\<rparr>
           in if it_shuffle it
              then (case it_rng it of
                      None \<Rightarrow> Inl AttributeError
                    | Some r \<Rightarrow> (let (idxs, r') = permutation np r n_all_blocks
                                in Inr (it\<lparr>it_block_idxs := idxs, it_rng := Some r'\<rparr>)))
              else Inr (it\<lparr>it_block_idxs := [0..<n_all_blocks]\<rparr>)))"

definition load_n_chunks :: "'r numpy \<Rightarrow> files \<Rightarrow> 'r packed_iterator \<Rightarrow> 'r packed_iterator result" where
  "load_n_chunks np fs it =
     (let it = it\<lparr>it_buffers := []\<rparr>;
          it = (if it_n_chunks it > length (drop (it_file_idx it) (it_filenames it))
                then it\<lparr>it_file_idx := 0\<rparr> else it)
      in rbind (rfold (load_chunk fs) it [0..<it_n_chunks it]) (schedule_blocks np))"

definition PackedDatasetIterator_init ::
  "'r numpy \<Rightarrow> files \<Rightarrow> string list \<Rightarrow> nat \<Rightarrow> nat \<Rightarrow> int \<Rightarrow> bool \<Rightarrow> bool \<Rightarrow> 'r packed_iterator result" where
  "PackedDatasetIterator_init np fs filenames n_chunks block_size seed shuffle wrap =
     load_n_chunks np fs
       \<lparr>it_rng = (if shuffle then Some (default_rng np seed) else None), it_shuffle = shuffle,
        it_wrap = wrap, it_filenames = filenames, it_file_idx = 0, it_n_chunks = n_chunks,
        it_dtype = None, it_chunk_size = 0, it_block_size = block_size, it_n_blocks = None,
        it_buffers = [], it_block_idxs = [], it_curr_idx = 0\<rparr>"

definition read_block :: "'r numpy \<Rightarrow> 'r packed_iterator \<Rightarrow> nat \<Rightarrow> int list result" where
  "read_block np it block_idx =
     (case (it_dtype it, it_n_blocks it) of
        (Some dtype, Some n_blocks) \<Rightarrow>
          if n_blocks = 0 then Inl ZeroDivisionError
          else if block_idx div n_blocks < length (it_buffers it)
          then (let buffer = it_buffers it ! (block_idx div n_blocks);
                    elem_id = (block_idx mod n_blocks) * it_block_size it;
                    offset = itemsize dtype * elem_id
                in rbind (frombuffer buffer (itemsize dtype) (it_block_size it) offset)
                     (\<lambda>arr. Inr (map (astype_int64 np dtype) arr)))
          else Inl IndexError
      | _ \<Rightarrow> Inl TypeError)"

definition packed_next ::
  "'r numpy \<Rightarrow> files \<Rightarrow> 'r packed_iterator \<Rightarrow> (int list \<times> 'r packed_iterator) result" where
  "packed_next np fs it =
     rbind (if length (it_block_idxs it) \<le> it_curr_idx it then load_n_chunks np fs it else Inr it)
       (\<lambda>it. if it_curr_idx it < length (it_block_idxs it)
             then rbind (read_block np it (it_block_idxs it ! it_curr_idx it)) (\<lambda>arr.
                    Inr (arr, it\<lparr>it_curr_idx := it_curr_idx it + 1\<rparr>))
             else Inl IndexError)"

text \<open>The first \<open>n\<close> blocks of an iteration.\<close>

fun packed_take ::
  "'r numpy \<Rightarrow> files \<Rightarrow> nat \<Rightarrow> 'r packed_iterator \<Rightarrow> (int list list \<times> 'r packed_iterator) result" where
  "packed_take np fs 0 it = Inr ([], it)"
| "packed_take np fs (Suc n) it =
     rbind (packed_next np fs it) (\<lambda>(x, it). rbind (packed_take np fs n it) (\<lambda>(xs, it). Inr (x # xs, it)))"

section \<open>Shards and mixtures\<close>

record packed_dataset =
  ds_filenames :: "string list"
  ds_n_chunks :: nat
  ds_block_size :: nat
  ds_seed :: int
  ds_shuffle :: bool
  ds_wrap :: bool
  ds_num_processes :: nat
  ds_process_rank :: nat

text \<open>\<open>xs[start:stop:step]\<close> for non-negative bounds and a positive step.\<close>

definition step_slice :: "'a list \<Rightarrow> nat \<Rightarrow> nat \<Rightarrow> nat \<Rightarrow> 'a list" where
  "step_slice xs start stop step =
     map ((!) xs) (filter (\<lambda>i. (i - start) mod step = 0) [start..<min stop (length xs)])"

definition shard_filenames :: "packed_dataset \<Rightarrow> (nat \<times> nat) option \<Rightarrow> string list result" where
  "shard_filenames ds worker_info =
     (let num_workers = (case worker_info of Some (n, i) \<Rightarrow> n | None \<Rightarrow> 1);
          worker_id = (case worker_info of Some (n, i) \<Rightarrow> i | None \<Rightarrow> 0);
          num_shards = num_workers * ds_num_processes ds;
          shard_id = ds_process_rank ds * num_workers + worker_id
      in if num_shards = 0 then Inl ZeroDivisionError
         else let max_num_files = length (ds_filenames ds) div num_shards * num_shards
              in Inr (step_slice (ds_filenames ds) shard_id max_num_files num_shards))"

definition PackedDataset_iter ::
  "'r numpy \<Rightarrow> files \<Rightarrow> packed_dataset \<Rightarrow> (nat \<times> nat) option \<Rightarrow> 'r packed_iterator result" where
  "PackedDataset_iter np fs ds worker_info =
     rbind (shard_filenames ds worker_info) (\<lambda>filenames.
       PackedDatasetIterator_init np fs filenames (ds_n_chunks ds) (ds_block_size ds) (ds_seed ds)
         (ds_shuffle ds) (ds_wrap ds))"

text \<open>
  The mixture: \<open>random.Random(seed).choices(population, weights, k=1)\<close> is a parameter that returns
  the position of the chosen data set.
\<close>

record 'g py_random =
  Random :: "int \<Rightarrow> 'g"
  choices :: "'g \<Rightarrow> nat \<Rightarrow> real list \<Rightarrow> nat result \<times> 'g"

record combined_dataset =
  cd_seed :: int
  cd_datasets :: "packed_dataset list"
  cd_weights :: "real list"

definition CombinedDataset_init :: "packed_dataset list \<Rightarrow> int \<Rightarrow> real list option \<Rightarrow> combined_dataset result" where
  "CombinedDataset_init datasets seed weights =
     (case weights of
        Some w \<Rightarrow> Inr \<lparr>cd_seed = seed, cd_datasets = datasets, cd_weights = w\<rparr>
      | None \<Rightarrow>
          if datasets = [] then Inl ZeroDivisionError
          else Inr \<lparr>cd_seed = seed, cd_datasets = datasets,
                    cd_weights = replicate (length datasets) (1 / real (length datasets))\<rparr>)"

record ('r, 'g) combined_iterator =
  ci_datasets :: "'r packed_iterator list"
  ci_weights :: "real list"
  ci_rng :: 'g

definition CombinedDataset_iter ::
  "'r numpy \<Rightarrow> 'g py_random \<Rightarrow> files \<Rightarrow> combined_dataset \<Rightarrow> (nat \<times> nat) option \<Rightarrow> ('r, 'g) combined_iterator result" where
  "CombinedDataset_iter np py fs cd worker_info =
     rbind (rmap (\<lambda>ds. PackedDataset_iter np fs ds worker_info) (cd_datasets cd)) (\<lambda>its.
       Inr \<lparr>ci_datasets = its, ci_weights = cd_weights cd, ci_rng = Random py (cd_seed cd)\<rparr>)"

definition combined_next ::
  "'r numpy \<Rightarrow> 'g py_random \<Rightarrow> files \<Rightarrow> ('r, 'g) combined_iterator \<Rightarrow> (int list \<times> ('r, 'g) combined_iterator) result" where
  "combined_next np py fs ci =
     (let (choice, rng) = choices py (ci_rng ci) (length (ci_datasets ci)) (ci_weights ci)
      in rbind choice (\<lambda>d. rbind (packed_next np fs (ci_datasets ci ! d)) (\<lambda>(x, it).
           Inr (x, ci\<lparr>ci_datasets := (ci_datasets ci)[d := it], ci_rng := rng\<rparr>))))"


section \<open>Elements\<close>

locale array_codec =
  fixes enc :: "int \<Rightarrow> bytes" and dec :: "bytes \<Rightarrow> int" and sz :: nat and ok :: "int \<Rightarrow> bool"
  assumes enc_length: "ok v \<Longrightarrow> length (enc v) = sz"
    and dec_enc: "ok v \<Longrightarrow> dec (enc v) = v"
begin

lemma payload_length: "\<forall>v \<in> set vs. ok v \<Longrightarrow> length (concat (map enc vs)) = length vs * sz"
  by (induction vs) (auto simp: enc_length)

lemma payload_drop:
  "\<forall>v \<in> set vs. ok v \<Longrightarrow> drop (sz * k) (concat (map enc vs)) = concat (map enc (drop k vs))"
proof (induction vs arbitrary: k)
  case Nil
  then show ?case by simp
next
  case (Cons v vs)
  then show ?case by (cases k) (auto simp: enc_length)
qed

lemma payload_elements:
  "\<forall>v \<in> set vs. ok v \<Longrightarrow> n \<le> length vs \<Longrightarrow> elements sz n (concat (map enc vs)) = map enc (take n vs)"
proof (induction n arbitrary: vs)
  case 0
  then show ?case by simp
next
  case (Suc n)
  then show ?case by (cases vs) (auto simp: enc_length)
qed

lemma read_back:
  assumes "\<forall>v \<in> set vs. ok v" "k + n \<le> length vs"
  shows "\<exists>es. frombuffer (concat (map enc vs)) sz n (sz * k) = Inr es \<and> map dec es = take n (drop k vs)"
proof -
  have "sz * k + n * sz = (k + n) * sz" by (simp add: algebra_simps)
  also have "\<dots> \<le> length vs * sz" using assms(2) by (rule mult_le_mono1)
  finally have le: "sz * k + n * sz \<le> length (concat (map enc vs))"
    by (simp only: payload_length [OF assms(1)])
  have d: "\<forall>v \<in> set (drop k vs). ok v" using assms(1) by (auto dest: in_set_dropD)
  have "frombuffer (concat (map enc vs)) sz n (sz * k) = Inr (map enc (take n (drop k vs)))"
    using le payload_elements [OF d] assms(2) by (simp add: frombuffer_def payload_drop [OF assms(1)])
  moreover have "map dec (map enc (take n (drop k vs))) = take n (drop k vs)"
    using d by (auto simp: dec_enc intro!: map_idI dest: in_set_takeD)
  ultimately show ?thesis by blast
qed

end

lemma itemsize_pos: "0 < itemsize dtype"
  by (cases dtype) auto

lemma signed_of_mod:
  assumes "- (256 ^ n div 2) \<le> v" "v < 256 ^ n div 2" "0 < n"
  shows "signed_of n (v mod 256 ^ n) = v"
proof -
  have even: "(256::int) ^ n = 2 * (256 ^ n div 2)"
    using assms(3) by (cases n) simp_all
  show ?thesis
  proof (cases "0 \<le> v")
    case True
    then show ?thesis using assms even by (simp add: signed_of_def)
  next
    case False
    have "v mod 256 ^ n = (v + 256 ^ n) mod 256 ^ n" by simp
    also have "\<dots> = v + 256 ^ n"
      using False assms even by (intro mod_pos_pos_trivial) linarith+
    finally show ?thesis using False assms even by (simp add: signed_of_def)
  qed
qed

interpretation elem: array_codec "to_elem np dtype" "astype_int64 np dtype" "itemsize dtype" "representable dtype"
  for np :: "'r numpy" and dtype
proof
  fix v
  assume v: "representable dtype v"
  show "length (to_elem np dtype v) = itemsize dtype"
    using v by (simp add: representable_def to_elem_def)
  show "astype_int64 np dtype (to_elem np dtype v) = v"
    using v signed_of_mod [of "itemsize dtype" v] itemsize_pos [of dtype]
    by (auto simp: representable_def to_elem_def astype_int64_def le_value_le_bytes split: if_splits)
qed

section \<open>File names\<close>

definition decimal_value :: "string \<Rightarrow> nat" where
  "decimal_value s = foldl (\<lambda>a c. 10 * a + (of_char c - 48)) 0 s"

lemma decimal_value_snoc: "decimal_value (s @ [c]) = 10 * decimal_value s + (of_char c - 48)"
  by (simp add: decimal_value_def)

lemma decimal_value_digits: "decimal_value (digits w n) = n mod 10 ^ w"
proof (induction w arbitrary: n)
  case 0
  then show ?case by (simp add: decimal_value_def)
next
  case (Suc w)
  have "(of_char (char_of (48 + n mod 10) :: char) :: nat) = 48 + n mod 10"
    by (simp add: of_char_of)
  then have "decimal_value (digits (Suc w) n) = 10 * (n div 10 mod 10 ^ w) + n mod 10"
    by (simp add: decimal_value_snoc Suc.IH)
  also have "\<dots> = n mod (10 * 10 ^ w)"
    by (simp add: mod_mult2_eq)
  finally show ?case by simp
qed

declare width.simps [simp del]

lemma width_bound: "n < 10 ^ width n"
proof (induction n rule: width.induct)
  case (1 n)
  show ?case
  proof (cases "n < 10")
    case False
    then have "n div 10 < 10 ^ width (n div 10)" using 1 by simp
    then have "n < 10 * 10 ^ width (n div 10)" by linarith
    with False show ?thesis by (subst width.simps) simp
  qed (simp add: width.simps)
qed

lemma zero_padded_value: "decimal_value (zero_padded w n) = n"
proof -
  have "n < 10 ^ max w (width n)"
    using width_bound [of n] by (rule less_le_trans) (simp add: power_increasing)
  then show ?thesis by (simp add: zero_padded_def decimal_value_digits)
qed

lemma zero_padded_inj: "zero_padded w m = zero_padded w n \<longleftrightarrow> m = n"
  by (metis zero_padded_value)

lemma path_join_inj:
  assumes "path_join a b = path_join a c" "take 1 b = take 1 c"
  shows "b = c"
  using assms by (auto simp: path_join_def split: if_splits)

lemma chunk_filename_inj [simp]: "chunk_filename d p m = chunk_filename d p n \<longleftrightarrow> m = n"
proof
  assume "chunk_filename d p m = chunk_filename d p n"
  then have "p @ ''_'' @ zero_padded 10 m @ ''.bin'' = p @ ''_'' @ zero_padded 10 n @ ''.bin''"
    unfolding chunk_filename_def by (rule path_join_inj) (cases p; simp)
  then show "m = n" by (simp add: zero_padded_inj)
qed simp

section \<open>What the builder keeps\<close>

definition chunk_header :: "np_dtype \<Rightarrow> nat \<Rightarrow> bytes" where
  "chunk_header dtype chunk_size =
     HDR_MAGIC @ le_bytes 8 1 @ le_bytes 1 (projr (code dtype)) @ le_bytes 8 (int chunk_size)"

definition chunk_file :: "'r numpy \<Rightarrow> np_dtype \<Rightarrow> nat \<Rightarrow> int list \<Rightarrow> bytes" where
  "chunk_file np dtype chunk_size vs = chunk_header dtype chunk_size @ concat (map (to_elem np dtype) vs)"

definition chunk_of :: "nat \<Rightarrow> int list \<Rightarrow> nat \<Rightarrow> int list" where
  "chunk_of n vs i = take n (drop (i * n) vs)"

definition builder_name :: "packed_builder \<Rightarrow> nat \<Rightarrow> string" where
  "builder_name b = chunk_filename (bd_outdir b) (bd_prefix b)"

text \<open>
  The state after the tokens \<open>ws\<close>: whole chunks are on disk under the numbered names, the rest
  is in the array, and the array beyond it holds separators.
\<close>

definition builder_inv :: "'r numpy \<Rightarrow> packed_builder \<Rightarrow> files \<Rightarrow> int list \<Rightarrow> bool" where
  "builder_inv np b fs ws \<longleftrightarrow>
     bd_version b = 1 \<and> bd_idx b \<le> bd_chunk_size b \<and>
     length ws = bd_counter b * bd_chunk_size b + bd_idx b \<and>
     bd_arr b = map (to_elem np (bd_dtype b)) (drop (bd_counter b * bd_chunk_size b) ws)
       @ replicate (bd_chunk_size b - bd_idx b) (to_elem np (bd_dtype b) (bd_sep_token b)) \<and>
     bd_filenames b = map (builder_name b) [0..<bd_counter b] \<and>
     (\<forall>i < bd_counter b. fs (builder_name b i)
        = Some (chunk_file np (bd_dtype b) (bd_chunk_size b) (chunk_of (bd_chunk_size b) ws i)))"

definition same_config :: "packed_builder \<Rightarrow> packed_builder \<Rightarrow> bool" where
  "same_config b b' \<longleftrightarrow> bd_dtype b' = bd_dtype b \<and> bd_chunk_size b' = bd_chunk_size b \<and>
     bd_outdir b' = bd_outdir b \<and> bd_prefix b' = bd_prefix b \<and> bd_sep_token b' = bd_sep_token b"

lemma same_config_refl [simp]: "same_config b b"
  by (simp add: same_config_def)

lemma same_config_trans [trans]: "same_config a b \<Longrightarrow> same_config b c \<Longrightarrow> same_config a c"
  by (simp add: same_config_def)

text \<open>A builder whose chunks can be written: a listed type and a size that fits the header.\<close>

definition writable :: "packed_builder \<Rightarrow> bool" where
  "writable b \<longleftrightarrow> returns (code (bd_dtype b)) \<and> bd_chunk_size b < 2 ^ 64"

lemma code_range: "code dtype = Inr k \<Longrightarrow> 0 \<le> k \<and> k < 256 \<and> map_of dtypes k = Some dtype"
  by (cases dtype) (auto simp: code_def dtypes_def)

lemma code_error: "returns (code dtype) \<longleftrightarrow> dtype \<noteq> UInt32"
  by (cases dtype) (auto simp: code_def dtypes_def)

lemma write_chunk_ok:
  assumes "writable b" "bd_version b = 1"
  shows "write_chunk np (b, fs) =
    ((b\<lparr>bd_filenames := bd_filenames b @ [builder_name b (bd_counter b)], bd_counter := bd_counter b + 1,
        bd_arr := replicate (bd_chunk_size b) (to_elem np (bd_dtype b) (bd_sep_token b)), bd_idx := 0\<rparr>,
      fs(builder_name b (bd_counter b) \<mapsto> chunk_header (bd_dtype b) (bd_chunk_size b) @ concat (bd_arr b))), Inr ())"
proof -
  obtain k where k: "code (bd_dtype b) = Inr k"
    using assms(1) by (auto simp: writable_def returns_iff)
  have packs: "pack_uint 8 (bd_version b) = Inr (le_bytes 8 1)" "pack_uint (Suc 0) k = Inr (le_bytes 1 k)"
    "pack_uint 8 (int (bd_chunk_size b)) = Inr (le_bytes 8 (int (bd_chunk_size b)))"
    using assms code_range [OF k] by (auto simp: pack_uint_def writable_def)
  show ?thesis
    by (simp add: write_chunk_def packs k chunk_header_def builder_name_def Let_def)
qed

lemma store_slice_tail:
  assumes "length xs = idx" "length ys \<le> m"
  shows "store_slice (xs @ replicate m e) idx ys = (xs @ ys) @ replicate (m - length ys) e"
  using assms by (simp add: store_slice_def)

lemma store_pending:
  assumes "builder_inv np b fs ws" "bd_idx b + length vs \<le> bd_chunk_size b"
  shows "store_slice (bd_arr b) (bd_idx b) (map (to_elem np (bd_dtype b)) vs)
    = map (to_elem np (bd_dtype b)) (drop (bd_counter b * bd_chunk_size b) (ws @ vs))
      @ replicate (bd_chunk_size b - (bd_idx b + length vs)) (to_elem np (bd_dtype b) (bd_sep_token b))"
  using assms by (simp add: builder_inv_def store_slice_tail)

lemma chunk_of_append:
  "(i + 1) * n \<le> length ws \<Longrightarrow> chunk_of n (ws @ vs) i = chunk_of n ws i"
  by (simp add: chunk_of_def)

lemma builder_inv_pending:
  assumes inv: "builder_inv np b fs ws" and le: "bd_idx b + length vs \<le> bd_chunk_size b"
  shows "builder_inv np (b\<lparr>bd_arr := store_slice (bd_arr b) (bd_idx b) (map (to_elem np (bd_dtype b)) vs),
                          bd_idx := bd_idx b + length vs\<rparr>) fs (ws @ vs)"
proof -
  have "(i + 1) * bd_chunk_size b \<le> length ws" if "i < bd_counter b" for i
  proof -
    have "(i + 1) * bd_chunk_size b \<le> bd_counter b * bd_chunk_size b"
      using that by (intro mult_le_mono1) simp
    then show ?thesis using inv by (simp add: builder_inv_def)
  qed
  then show ?thesis
    using inv le store_pending [OF inv le]
    by (simp add: builder_inv_def chunk_of_append builder_name_def del: One_nat_def)
qed

text \<open>Writing a full array moves it to disk.\<close>

lemma builder_inv_flush:
  assumes inv: "builder_inv np b fs ws" and full: "bd_idx b = bd_chunk_size b" and w: "writable b"
  shows "\<exists>b' fs'. write_chunk np (b, fs) = ((b', fs'), Inr ()) \<and> builder_inv np b' fs' ws \<and>
    same_config b b' \<and> bd_idx b' = 0 \<and> bd_counter b' = bd_counter b + 1"
proof -
  let ?n = "bd_chunk_size b" and ?c = "bd_counter b"
  have len: "length ws = ?c * ?n + ?n" using inv full by (simp add: builder_inv_def)
  then have "chunk_of ?n ws ?c = drop (?c * ?n) ws" by (simp add: chunk_of_def)
  moreover have "bd_arr b = map (to_elem np (bd_dtype b)) (drop (?c * ?n) ws)"
    using inv full by (simp add: builder_inv_def)
  ultimately have "chunk_header (bd_dtype b) ?n @ concat (bd_arr b)
      = chunk_file np (bd_dtype b) ?n (chunk_of ?n ws ?c)"
    by (simp add: chunk_file_def)
  moreover have "bd_version b = 1" using inv by (simp add: builder_inv_def)
  ultimately show ?thesis
    using inv len
    by (auto simp: write_chunk_ok [OF w] builder_inv_def same_config_def builder_name_def less_Suc_eq)
qed

lemma add_array_inv:
  assumes "builder_inv np b fs ws" "writable b" "0 < bd_chunk_size b"
  shows "\<exists>b' fs'. add_array np b fs vs = Some ((b', fs'), Inr ()) \<and> builder_inv np b' fs' (ws @ vs) \<and>
    same_config b b' \<and> writable b' \<and> (bd_idx b' = 0 \<longrightarrow> vs = [] \<and> bd_idx b = 0)"
  using assms
proof (induction "length vs + (if bd_idx b = bd_chunk_size b then 1 else 0)" arbitrary: vs b fs ws rule: less_induct)
  case less
  let ?n = "bd_chunk_size b"
  show ?case
  proof (cases "bd_idx b + length vs > ?n")
    case False
    then show ?thesis
      using builder_inv_pending [OF less.prems(1), of vs] less.prems(2)
      by (subst add_array.simps) (auto simp: same_config_def writable_def)
  next
    case True
    define part where "part = ?n - bd_idx b"
    define b1 where "b1 = b\<lparr>bd_arr := store_slice (bd_arr b) (bd_idx b) (map (to_elem np (bd_dtype b)) (take part vs))\<rparr>"
    have le: "bd_idx b \<le> ?n" using less.prems(1) by (simp add: builder_inv_def)
    have part: "part \<le> length vs" "bd_idx b + part = ?n" using le True by (simp_all add: part_def)
    have "builder_inv np (b1\<lparr>bd_idx := ?n\<rparr>) fs (ws @ take part vs)"
      using builder_inv_pending [OF less.prems(1), of "take part vs"] part
      by (simp add: b1_def min_absorb2)
    from builder_inv_flush [OF this] less.prems(2)
    obtain b2 fs2 where w: "write_chunk np (b1\<lparr>bd_idx := ?n\<rparr>, fs) = ((b2, fs2), Inr ())"
      and inv2: "builder_inv np b2 fs2 (ws @ take part vs)"
      and cfg: "same_config (b1\<lparr>bd_idx := ?n\<rparr>) b2" and idx: "bd_idx b2 = 0"
      by (auto simp: writable_def b1_def)
    have w1: "write_chunk np (b1, fs) = ((b2, fs2), Inr ())"
    proof -
      have ok: "writable (b1\<lparr>bd_idx := ?n\<rparr>)" "writable b1" "bd_version (b1\<lparr>bd_idx := ?n\<rparr>) = 1" "bd_version b1 = 1"
        using less.prems(1,2) by (simp_all add: b1_def writable_def builder_inv_def)
      show ?thesis
        using w unfolding write_chunk_ok [OF ok(1,3)] write_chunk_ok [OF ok(2,4)]
        by (simp add: builder_name_def)
    qed
    have same: "same_config b b2" "writable b2" "bd_chunk_size b2 = ?n"
      using cfg less.prems(2) by (simp_all add: same_config_def b1_def writable_def)
    have dec: "length (drop part vs) + (if bd_idx b2 = bd_chunk_size b2 then 1 else 0)
        < length vs + (if bd_idx b = ?n then 1 else 0)"
      using part less.prems(3) True idx same(3) by auto
    from less.hyps [OF dec inv2 same(2)] less.prems(3) same(3)
    obtain b' fs' where r: "add_array np b2 fs2 (drop part vs) = Some ((b', fs'), Inr ())"
      "builder_inv np b' fs' (ws @ take part vs @ drop part vs)" "same_config b2 b'" "writable b'"
      "bd_idx b' = 0 \<longrightarrow> drop part vs = []"
      by auto
    have "drop part vs \<noteq> []" using True part by simp
    moreover have "add_array np b fs vs = add_array np b2 fs2 (drop part vs)"
      using True w1 by (subst add_array.simps) (simp add: Let_def part_def [symmetric] b1_def [symmetric])
    ultimately show ?thesis
      using r same_config_trans [OF same(1) r(3)] by auto
  qed
qed

text \<open>A whole run: the arrays in turn, then the remainder.\<close>

fun add_arrays :: "'r numpy \<Rightarrow> packed_builder \<Rightarrow> files \<Rightarrow> int list list \<Rightarrow> (packed_builder \<times> files) option" where
  "add_arrays np b fs [] = Some (b, fs)"
| "add_arrays np b fs (vs # vss) =
     (case add_array np b fs vs of
        Some ((b', fs'), Inr _) \<Rightarrow> add_arrays np b' fs' vss
      | _ \<Rightarrow> None)"

lemma add_arrays_inv:
  assumes "builder_inv np b fs ws" "writable b" "0 < bd_chunk_size b"
  shows "\<exists>b' fs'. add_arrays np b fs vss = Some (b', fs') \<and> builder_inv np b' fs' (ws @ concat vss) \<and>
    same_config b b' \<and> writable b' \<and> (bd_idx b' = 0 \<longrightarrow> concat vss = [] \<and> bd_idx b = 0)"
  using assms
proof (induction vss arbitrary: b fs ws)
  case Nil
  then show ?case by simp
next
  case (Cons vs vss)
  from add_array_inv [OF Cons.prems, of vs] obtain b1 fs1 where
    b1: "add_array np b fs vs = Some ((b1, fs1), Inr ())" "builder_inv np b1 fs1 (ws @ vs)"
      "same_config b b1" "writable b1" "bd_idx b1 = 0 \<longrightarrow> vs = [] \<and> bd_idx b = 0"
    by (elim exE conjE) (rule that)
  have pos: "0 < bd_chunk_size b1" using b1(3) Cons.prems(3) by (simp add: same_config_def)
  from Cons.IH [OF b1(2,4) pos] obtain b2 fs2 where
    b2: "add_arrays np b1 fs1 vss = Some (b2, fs2)" "builder_inv np b2 fs2 ((ws @ vs) @ concat vss)"
      "same_config b1 b2" "writable b2" "bd_idx b2 = 0 \<longrightarrow> concat vss = [] \<and> bd_idx b1 = 0"
    by (elim exE conjE) (rule that)
  then show ?case
    using b1 same_config_trans [OF b1(3) b2(3)] by auto
qed

lemma init_inv:
  assumes "PackedDatasetBuilder_init np outdir prefix chunk_size sep_token dtype vocab_size = Inr b"
  shows "builder_inv np b fs [] \<and> 0 \<le> chunk_size \<and> bd_chunk_size b = nat chunk_size \<and> bd_idx b = 0 \<and>
    bd_sep_token b = sep_token \<and> bd_counter b = 0"
  using assms
  by (auto simp: PackedDatasetBuilder_init_def rbind_eq_Inr builder_inv_def split: if_splits)

text \<open>Writing the remainder pads the last chunk with separators.\<close>

lemma write_reminder_inv:
  assumes inv: "builder_inv np b fs ws" and w: "writable b"
  shows "\<exists>b' fs'. write_reminder np (b, fs) = ((b', fs'), Inr ()) \<and> same_config b b' \<and>
    builder_inv np b' fs' (ws @ replicate (bd_chunk_size b - bd_idx b) (bd_sep_token b)) \<and>
    bd_idx b' = 0 \<and> bd_counter b' = bd_counter b + 1"
proof -
  let ?pad = "replicate (bd_chunk_size b - bd_idx b) (bd_sep_token b)"
  let ?b = "b\<lparr>bd_idx := bd_chunk_size b\<rparr>"
  have idx: "bd_idx b \<le> bd_chunk_size b" "length ws = bd_counter b * bd_chunk_size b + bd_idx b"
    using inv by (simp_all add: builder_inv_def)
  have arr: "store_slice (bd_arr b) (bd_idx b) (map (to_elem np (bd_dtype b)) ?pad) = bd_arr b"
    using store_pending [OF inv, of ?pad] inv idx by (simp add: builder_inv_def)
  have "builder_inv np ?b fs (ws @ ?pad)"
    using builder_inv_pending [OF inv, of ?pad] arr idx by simp
  from builder_inv_flush [OF this] w
  obtain b' fs' where b': "write_chunk np (?b, fs) = ((b', fs'), Inr ())" "builder_inv np b' fs' (ws @ ?pad)"
    "same_config ?b b'" "bd_idx b' = 0" "bd_counter b' = bd_counter b + 1"
    by (auto simp: writable_def)
  have v: "bd_version b = 1" "bd_version ?b = 1" "writable ?b"
    using inv w by (simp_all add: builder_inv_def writable_def)
  have "write_chunk np (b, fs) = write_chunk np (?b, fs)"
    unfolding write_chunk_ok [OF w v(1)] write_chunk_ok [OF v(3,2)] by (simp add: builder_name_def)
  then show ?thesis
    using b' by (auto simp: write_reminder_def same_config_def)
qed

section \<open>What the iterator reads\<close>

definition block_of :: "nat \<Rightarrow> int list \<Rightarrow> nat \<Rightarrow> int list" where
  "block_of block_size vs j = take block_size (drop (j * block_size) vs)"

definition blocks_of :: "nat \<Rightarrow> int list \<Rightarrow> int list list" where
  "blocks_of block_size vs = map (block_of block_size vs) [0..<length vs div block_size]"

text \<open>Files with known chunks of one type and size.\<close>

definition shelf :: "'r numpy \<Rightarrow> files \<Rightarrow> np_dtype \<Rightarrow> nat \<Rightarrow> string list \<Rightarrow> int list list \<Rightarrow> bool" where
  "shelf np fs dtype chunk_size names chunks \<longleftrightarrow>
     returns (code dtype) \<and> chunk_size < 2 ^ 64 \<and> length names = length chunks \<and>
     (\<forall>i < length chunks. fs (names ! i) = Some (chunk_file np dtype chunk_size (chunks ! i)) \<and>
        length (chunks ! i) = chunk_size \<and> (\<forall>v \<in> set (chunks ! i). representable dtype v))"

definition permutes_indices :: "'r numpy \<Rightarrow> bool" where
  "permutes_indices np \<longleftrightarrow> (\<forall>r n. mset (fst (permutation np r n)) = mset [0..<n])"

lemma permutation_set:
  "permutes_indices np \<Longrightarrow> set (fst (permutation np r n)) = {..<n} \<and> length (fst (permutation np r n)) = n"
proof -
  assume "permutes_indices np"
  then have m: "mset (fst (permutation np r n)) = mset [0..<n]" by (simp add: permutes_indices_def)
  have "set (fst (permutation np r n)) = set [0..<n]" by (rule mset_eq_setD [OF m])
  moreover have "length (fst (permutation np r n)) = length [0..<n]" by (rule mset_eq_length [OF m])
  ultimately show ?thesis by (simp add: atLeast0LessThan)
qed

lemma length_chunk_header: "length (chunk_header dtype n) = HDR_SIZE"
  by (simp add: chunk_header_def HDR_MAGIC_def HDR_SIZE_def)

lemma read_header_ok:
  assumes "fs path = Some (chunk_file np dtype n vs)" "returns (code dtype)" "n < 2 ^ 64"
  shows "read_header fs path = Inr (dtype, n)"
proof -
  obtain k where k: "code dtype = Inr k" using assms(2) by (auto simp: returns_iff)
  let ?payload = "concat (map (to_elem np dtype) vs)"
  let ?f = "HDR_MAGIC @ le_bytes 8 1 @ le_bytes 1 k @ le_bytes 8 (int n) @ ?payload"
  have m: "length HDR_MAGIC = 7" by (simp add: HDR_MAGIC_def)
  have f: "chunk_file np dtype n vs = ?f" by (simp add: chunk_file_def chunk_header_def k)
  have v: "unpack_uint_from 8 ?f 7 = Inr 1"
    using m by (intro unpack_uint_at) simp_all
  have c: "unpack_uint_from 1 ?f 15 = Inr k"
    using unpack_uint_at [of "HDR_MAGIC @ le_bytes 8 1" 15 k 1] m code_range [OF k] by simp
  have s: "unpack_uint_from 8 ?f 16 = Inr (int n)"
    using unpack_uint_at [of "HDR_MAGIC @ le_bytes 8 1 @ le_bytes 1 k" 16 "int n" 8] m assms(3) by simp
  show ?thesis
    using v c s code_range [OF k] unfolding read_header_def assms(1) f
    by (simp del: le_bytes.simps One_nat_def)
qed

lemma memmap_ok:
  "fs path = Some (chunk_file np dtype n vs) \<Longrightarrow> memmap fs path = Inr (concat (map (to_elem np dtype) vs))"
  by (simp add: memmap_def chunk_file_def length_chunk_header)

text \<open>An iterator that has not read a header yet, or has read one of the shelf.\<close>

definition it_consistent :: "np_dtype \<Rightarrow> nat \<Rightarrow> 'r packed_iterator \<Rightarrow> bool" where
  "it_consistent dtype n it \<longleftrightarrow> 0 < it_block_size it \<and>
     (it_dtype it = None \<or>
      it_dtype it = Some dtype \<and> it_chunk_size it = n \<and> it_n_blocks it = Some (n div it_block_size it)) \<and>
     (it_shuffle it \<longrightarrow> it_rng it \<noteq> None)"

definition with_header :: "np_dtype \<Rightarrow> nat \<Rightarrow> 'r packed_iterator \<Rightarrow> 'r packed_iterator" where
  "with_header dtype n it = it\<lparr>it_dtype := Some dtype, it_chunk_size := n, it_n_blocks := Some (n div it_block_size it)\<rparr>"

lemma with_header_same: "it_consistent dtype n it \<Longrightarrow> it_dtype it = Some d \<Longrightarrow> with_header dtype n it = it"
  by (simp add: with_header_def it_consistent_def)

definition payload_of :: "'r numpy \<Rightarrow> np_dtype \<Rightarrow> int list \<Rightarrow> bytes" where
  "payload_of np dtype vs = concat (map (to_elem np dtype) vs)"

lemma load_chunk_ok:
  assumes s: "shelf np fs dtype n (it_filenames it) chunks" and c: "it_consistent dtype n it"
    and i: "it_file_idx it + i < length chunks"
  shows "load_chunk fs it i = Inr ((with_header dtype n it)
    \<lparr>it_buffers := it_buffers it @ [payload_of np dtype (chunks ! (it_file_idx it + i))]\<rparr>)"
proof -
  let ?k = "it_file_idx it + i"
  have f: "fs (it_filenames it ! ?k) = Some (chunk_file np dtype n (chunks ! ?k))"
    "returns (code dtype)" "n < 2 ^ 64" "?k < length (it_filenames it)"
    using s i by (simp_all add: shelf_def)
  show ?thesis
  proof (cases "it_dtype it")
    case None
    then show ?thesis
      using c f read_header_ok [where fs = fs, OF f(1-3)]
      by (simp add: load_chunk_def memmap_ok [where fs = fs, OF f(1)] payload_of_def with_header_def it_consistent_def)
  next
    case (Some d)
    then show ?thesis
      using f with_header_same [OF c Some]
      by (simp add: load_chunk_def memmap_ok [where fs = fs, OF f(1)] payload_of_def)
  qed
qed

lemma load_loop_ok:
  assumes s: "shelf np fs dtype n (it_filenames it) chunks" and c: "it_consistent dtype n it"
    and i: "it_file_idx it + m \<le> length chunks" and b: "it_buffers it = []" and m: "0 < m"
  shows "rfold (load_chunk fs) it [0..<m] = Inr ((with_header dtype n it)
    \<lparr>it_buffers := map (\<lambda>i. payload_of np dtype (chunks ! (it_file_idx it + i))) [0..<m]\<rparr>)"
  using m i
proof (induction m)
  case 0
  then show ?case by simp
next
  case (Suc m)
  show ?case
  proof (cases "m = 0")
    case True
    then show ?thesis
      using Suc.prems b load_chunk_ok [OF s c, of 0] by simp
  next
    case False
    let ?it = "(with_header dtype n it)\<lparr>it_buffers := map (\<lambda>i. payload_of np dtype (chunks ! (it_file_idx it + i))) [0..<m]\<rparr>"
    have "load_chunk fs ?it m = Inr ((with_header dtype n ?it)
        \<lparr>it_buffers := it_buffers ?it @ [payload_of np dtype (chunks ! (it_file_idx ?it + m))]\<rparr>)"
      by (rule load_chunk_ok) (use s c Suc.prems in \<open>simp_all add: with_header_def it_consistent_def\<close>)
    with Suc False show ?thesis
      by (simp add: rfold_append with_header_def)
  qed
qed

text \<open>
  The state after a load: the chunks from \<open>start\<close> are mapped, and the blocks are numbered in
  order or shuffled.
\<close>

definition next_start :: "'r packed_iterator \<Rightarrow> nat" where
  "next_start it = (if it_n_chunks it > length (it_filenames it) - it_file_idx it then 0 else it_file_idx it)"

definition loaded ::
  "'r numpy \<Rightarrow> np_dtype \<Rightarrow> nat \<Rightarrow> int list list \<Rightarrow> nat \<Rightarrow> 'r packed_iterator \<Rightarrow> bool" where
  "loaded np dtype n chunks start it \<longleftrightarrow>
     it_consistent dtype n it \<and> it_dtype it = Some dtype \<and> start + it_n_chunks it \<le> length chunks \<and>
     it_file_idx it = start + it_n_chunks it \<and>
     it_buffers it = map (\<lambda>i. payload_of np dtype (chunks ! (start + i))) [0..<it_n_chunks it] \<and>
     mset (it_block_idxs it) = mset [0..<it_n_chunks it * (n div it_block_size it)] \<and>
     (\<not> it_shuffle it \<longrightarrow> it_block_idxs it = [0..<it_n_chunks it * (n div it_block_size it)])"

definition same_reader :: "'r packed_iterator \<Rightarrow> 'r packed_iterator \<Rightarrow> bool" where
  "same_reader it it' \<longleftrightarrow> it_filenames it' = it_filenames it \<and> it_n_chunks it' = it_n_chunks it \<and>
     it_block_size it' = it_block_size it \<and> it_shuffle it' = it_shuffle it"

lemma same_reader_refl [simp]: "same_reader it it"
  by (simp add: same_reader_def)

lemma same_reader_trans [trans]: "same_reader a b \<Longrightarrow> same_reader b c \<Longrightarrow> same_reader a c"
  by (simp add: same_reader_def)

lemma load_n_chunks_ok:
  assumes s: "shelf np fs dtype n (it_filenames it) chunks" and c: "it_consistent dtype n it"
    and m: "0 < it_n_chunks it" "it_n_chunks it \<le> length chunks" and p: "it_shuffle it \<longrightarrow> permutes_indices np"
  shows "\<exists>it'. load_n_chunks np fs it = Inr it' \<and> loaded np dtype n chunks (next_start it) it' \<and>
    same_reader it it' \<and> it_curr_idx it' = 0"
proof -
  let ?a = "it\<lparr>it_buffers := []\<rparr>"
  let ?b = "if it_n_chunks ?a > length (drop (it_file_idx ?a) (it_filenames ?a)) then ?a\<lparr>it_file_idx := 0\<rparr> else ?a"
  let ?nb = "n div it_block_size it"
  have len: "length (it_filenames it) = length chunks" using s by (simp add: shelf_def)
  have b: "it_file_idx ?b = next_start it" "it_filenames ?b = it_filenames it" "it_buffers ?b = []"
    "it_n_chunks ?b = it_n_chunks it" "it_block_size ?b = it_block_size it" "it_shuffle ?b = it_shuffle it"
    "it_rng ?b = it_rng it"
    by (simp_all add: next_start_def)
  have le: "next_start it + it_n_chunks it \<le> length chunks"
    using m len by (auto simp: next_start_def)
  have cb: "it_consistent dtype n ?b" using c by (simp add: it_consistent_def)
  define it1 where "it1 = (with_header dtype n ?b)
    \<lparr>it_buffers := map (\<lambda>i. payload_of np dtype (chunks ! (next_start it + i))) [0..<it_n_chunks it]\<rparr>"
  have r: "rfold (load_chunk fs) ?b [0..<it_n_chunks ?b] = Inr it1"
    using load_loop_ok [of np fs dtype n ?b chunks "it_n_chunks it"] s cb le m b by (simp add: it1_def)
  have c1: "it_consistent dtype n it1" using c b by (simp add: it1_def with_header_def it_consistent_def)
  define it2 where "it2 = it1\<lparr>it_file_idx := it_file_idx it1 + it_n_chunks it1, it_curr_idx := 0\<rparr>"
  have it1: "it_n_blocks it1 = Some ?nb" "it_n_chunks it1 = it_n_chunks it"
    using b by (simp_all add: it1_def with_header_def)
  have load: "load_n_chunks np fs it =
    (if it_shuffle it2
     then (case it_rng it2 of None \<Rightarrow> Inl AttributeError
           | Some r \<Rightarrow> (case permutation np r (it_n_chunks it * ?nb) of
               (idxs, r') \<Rightarrow> Inr (it2\<lparr>it_block_idxs := idxs, it_rng := Some r'\<rparr>)))
     else Inr (it2\<lparr>it_block_idxs := [0..<it_n_chunks it * ?nb]\<rparr>))"
    unfolding load_n_chunks_def Let_def r rbind_Inr schedule_blocks_def it1(1) option.case it1(2) it2_def ..
  have st: "it_shuffle it2 = it_shuffle it" "it_rng it2 = it_rng it" "it_curr_idx it2 = 0"
    using b by (simp_all add: it2_def it1_def with_header_def)
  have l2: "loaded np dtype n chunks (next_start it) (it2\<lparr>it_block_idxs := idxs, it_rng := rng\<rparr>)"
    if "mset idxs = mset [0..<it_n_chunks it * ?nb]" "it_shuffle it \<longrightarrow> rng \<noteq> None"
      "\<not> it_shuffle it \<longrightarrow> idxs = [0..<it_n_chunks it * ?nb]" for idxs rng
    using that c1 b le by (auto simp: loaded_def it2_def it1_def with_header_def it_consistent_def)
  have sr: "same_reader it (it2\<lparr>it_block_idxs := idxs, it_rng := rng\<rparr>)" for idxs rng
    using b by (simp add: same_reader_def it2_def it1_def with_header_def)
  show ?thesis
  proof (cases "it_shuffle it")
    case True
    then obtain r where "it_rng it = Some r" using c by (auto simp: it_consistent_def)
    moreover obtain idxs r' where "permutation np r (it_n_chunks it * ?nb) = (idxs, r')" by fastforce
    moreover from this have "mset idxs = mset [0..<it_n_chunks it * ?nb]"
      using p True by (metis fst_conv permutes_indices_def)
    ultimately show ?thesis
      using True st l2 [of idxs "Some r'"] sr by (simp add: load)
  next
    case False
    let ?idxs = "[0..<it_n_chunks it * ?nb]"
    have e: "it2\<lparr>it_block_idxs := ?idxs\<rparr> = it2\<lparr>it_block_idxs := ?idxs, it_rng := it_rng it2\<rparr>"
      by simp
    have "load_n_chunks np fs it = Inr (it2\<lparr>it_block_idxs := ?idxs\<rparr>)"
      using False st by (simp add: load)
    moreover have "loaded np dtype n chunks (next_start it) (it2\<lparr>it_block_idxs := ?idxs\<rparr>)"
      using False by (subst e, intro l2) simp_all
    moreover have "same_reader it (it2\<lparr>it_block_idxs := ?idxs\<rparr>)"
      by (subst e) (rule sr)
    ultimately show ?thesis using st(3) by simp
  qed
qed

lemma div_mod_map:
  "map (\<lambda>b. f (b div n) (b mod n)) [0..<m * n] = concat (map (\<lambda>i. map (f i) [0..<n]) [0..<m])"
proof (induction m)
  case 0
  then show ?case by simp
next
  case (Suc m)
  have "[0..<Suc m * n] = [0..<m * n] @ [m * n..<n + m * n]"
    using upt_add_eq_append [of 0 "m * n" n] by (simp add: add.commute [of n])
  also have "[m * n..<n + m * n] = map (\<lambda>j. j + m * n) [0..<n]"
    by (rule map_add_upt [symmetric])
  finally have s: "[0..<Suc m * n] = [0..<m * n] @ map (\<lambda>j. j + m * n) [0..<n]" .
  show ?case unfolding s using Suc by (simp cong: map_cong)
qed

lemma blocks_concat: "m * k \<le> length vs \<Longrightarrow> concat (map (block_of m vs) [0..<k]) = take (k * m) vs"
proof (induction k)
  case 0
  then show ?case by simp
next
  case (Suc k)
  then have "m * k \<le> length vs" by simp
  from Suc.IH [OF this]
  have "concat (map (block_of m vs) [0..<Suc k]) = take (k * m) vs @ take m (drop (k * m) vs)"
    by (simp add: block_of_def [of m vs k])
  also have "\<dots> = take (Suc k * m) vs"
    by (simp only: take_add [symmetric]) (simp add: algebra_simps)
  finally show ?case .
qed

lemma blocks_of_concat: "m dvd length vs \<Longrightarrow> concat (blocks_of m vs) = vs"
  unfolding blocks_of_def by (subst blocks_concat) auto

text \<open>A block of a loaded iterator is the block of a chunk.\<close>

lemma read_block_ok:
  assumes l: "loaded np dtype n chunks start it" and s: "shelf np fs dtype n (it_filenames it) chunks"
    and j: "j < it_n_chunks it * (n div it_block_size it)"
  shows "read_block np it j = Inr (block_of (it_block_size it)
    (chunks ! (start + j div (n div it_block_size it))) (j mod (n div it_block_size it)))"
proof -
  let ?B = "it_block_size it" and ?nb = "n div it_block_size it"
  let ?c = "chunks ! (start + j div ?nb)" and ?k = "j mod ?nb"
  have nb: "0 < ?nb" using j by (cases "?nb = 0") auto
  then have d: "j div ?nb < it_n_chunks it" using j by (simp add: less_mult_imp_div_less)
  have i: "start + j div ?nb < length chunks" using l d by (simp add: loaded_def)
  have vs: "length ?c = n" "\<forall>v \<in> set ?c. representable dtype v" using s i by (simp_all add: shelf_def)
  have "?k < ?nb" using nb by simp
  then have "Suc ?k * ?B \<le> ?nb * ?B" by (intro mult_le_mono1) simp
  also have "\<dots> \<le> n" by simp
  finally have "?k * ?B + ?B \<le> length ?c" using vs by simp
  from elem.read_back [OF vs(2) this]
  obtain es where es: "frombuffer (payload_of np dtype ?c) (itemsize dtype) ?B (itemsize dtype * (?k * ?B)) = Inr es"
    "map (astype_int64 np dtype) es = take ?B (drop (?k * ?B) ?c)"
    unfolding payload_of_def by blast
  have b: "it_buffers it ! (j div ?nb) = payload_of np dtype ?c" "length (it_buffers it) = it_n_chunks it"
    using l d by (simp_all add: loaded_def)
  have h: "it_dtype it = Some dtype" "it_n_blocks it = Some ?nb"
    using l by (auto simp: loaded_def it_consistent_def)
  show ?thesis
    using nb d by (simp add: read_block_def h b Let_def es block_of_def)
qed

definition loaded_block :: "nat \<Rightarrow> int list list \<Rightarrow> nat \<Rightarrow> 'r packed_iterator \<Rightarrow> nat \<Rightarrow> int list" where
  "loaded_block n chunks start it j = block_of (it_block_size it)
     (chunks ! (start + j div (n div it_block_size it))) (j mod (n div it_block_size it))"

lemma loaded_indices:
  "loaded np dtype n chunks start it \<Longrightarrow>
    set (it_block_idxs it) = {..<it_n_chunks it * (n div it_block_size it)} \<and>
    length (it_block_idxs it) = it_n_chunks it * (n div it_block_size it)"
proof -
  assume l: "loaded np dtype n chunks start it"
  let ?m = "it_n_chunks it * (n div it_block_size it)"
  have m: "mset (it_block_idxs it) = mset [0..<?m]" using l by (simp add: loaded_def)
  have "set (it_block_idxs it) = set [0..<?m]" by (rule mset_eq_setD [OF m])
  moreover have "length (it_block_idxs it) = length [0..<?m]" by (rule mset_eq_length [OF m])
  ultimately show ?thesis by (simp add: atLeast0LessThan)
qed

lemma loaded_curr [simp]:
  "loaded np dtype n chunks start (it\<lparr>it_curr_idx := c\<rparr>) = loaded np dtype n chunks start it"
  "loaded_block n chunks start (it\<lparr>it_curr_idx := c\<rparr>) = loaded_block n chunks start it"
  by (simp_all add: loaded_def it_consistent_def loaded_block_def fun_eq_iff)

lemma take_loaded:
  assumes l: "loaded np dtype n chunks start it" and s: "shelf np fs dtype n (it_filenames it) chunks"
    and m: "it_curr_idx it + m \<le> length (it_block_idxs it)"
  shows "packed_take np fs m it = Inr (map (loaded_block n chunks start it) (take m (drop (it_curr_idx it) (it_block_idxs it))),
    it\<lparr>it_curr_idx := it_curr_idx it + m\<rparr>)"
  using l s m
proof (induction m arbitrary: it)
  case 0
  then show ?case by simp
next
  case (Suc m)
  let ?c = "it_curr_idx it"
  have c: "?c < length (it_block_idxs it)" using Suc.prems by simp
  then have "it_block_idxs it ! ?c < it_n_chunks it * (n div it_block_size it)"
    using loaded_indices [OF Suc.prems(1)] nth_mem [OF c] by auto
  from read_block_ok [OF Suc.prems(1,2) this] c
  have step: "packed_next np fs it = Inr (loaded_block n chunks start it (it_block_idxs it ! ?c), it\<lparr>it_curr_idx := ?c + 1\<rparr>)"
    by (simp add: packed_next_def loaded_block_def)
  show ?case
    using Suc.IH [of "it\<lparr>it_curr_idx := ?c + 1\<rparr>"] Suc.prems step c
    by (simp add: Cons_nth_drop_Suc [symmetric])
qed

lemma packed_take_add:
  "packed_take np fs (a + b) it = rbind (packed_take np fs a it) (\<lambda>(xs, it).
     rbind (packed_take np fs b it) (\<lambda>(ys, it). Inr (xs @ ys, it)))"
proof (induction a arbitrary: it)
  case 0
  then show ?case by (auto simp: rbind_def split: sum.splits)
next
  case (Suc a)
  then show ?case by (auto simp: rbind_def split: sum.splits)
qed

lemma take_load:
  assumes "length (it_block_idxs it) \<le> it_curr_idx it" "load_n_chunks np fs it = Inr it'"
    "it_curr_idx it' < length (it_block_idxs it')" "0 < m"
  shows "packed_take np fs m it = packed_take np fs m it'"
  using assms by (cases m) (simp_all add: packed_next_def)

text \<open>The blocks of the files of one load, in the order of the files.\<close>

definition load_blocks :: "nat \<Rightarrow> int list list \<Rightarrow> nat \<Rightarrow> nat \<Rightarrow> int list list" where
  "load_blocks block_size chunks start m = concat (map (blocks_of block_size) (take m (drop start chunks)))"

lemma load_blocks_loaded:
  assumes "loaded np dtype n chunks start it" "shelf np fs dtype n (it_filenames it) chunks"
  shows "map (loaded_block n chunks start it) [0..<it_n_chunks it * (n div it_block_size it)]
    = load_blocks (it_block_size it) chunks start (it_n_chunks it)"
proof -
  have le: "start + it_n_chunks it \<le> length chunks" using assms(1) by (simp add: loaded_def)
  have t: "take (it_n_chunks it) (drop start chunks) = map (\<lambda>i. chunks ! (start + i)) [0..<it_n_chunks it]"
    using le by (intro nth_equalityI) simp_all
  have u: "map (\<lambda>i. map (block_of (it_block_size it) (chunks ! (start + i))) [0..<n div it_block_size it]) [0..<it_n_chunks it]
      = map (\<lambda>i. blocks_of (it_block_size it) (chunks ! (start + i))) [0..<it_n_chunks it]"
    by (rule map_cong [OF refl]) (use le assms(2) in \<open>simp add: blocks_of_def shelf_def\<close>)
  show ?thesis
    unfolding loaded_block_def load_blocks_def t map_map comp_def u [symmetric] by (rule div_mod_map)
qed

text \<open>An iterator that has handed out everything it had loaded.\<close>

definition exhausted :: "np_dtype \<Rightarrow> nat \<Rightarrow> 'r packed_iterator \<Rightarrow> bool" where
  "exhausted dtype n it \<longleftrightarrow> it_consistent dtype n it \<and> length (it_block_idxs it) \<le> it_curr_idx it"

lemma take_round:
  assumes e: "exhausted dtype n it" and s: "shelf np fs dtype n (it_filenames it) chunks"
    and m: "0 < it_n_chunks it" "it_n_chunks it \<le> length chunks" "it_block_size it \<le> n"
    and p: "it_shuffle it \<longrightarrow> permutes_indices np"
  shows "\<exists>xs it'. packed_take np fs (it_n_chunks it * (n div it_block_size it)) it = Inr (xs, it') \<and>
    mset xs = mset (load_blocks (it_block_size it) chunks (next_start it) (it_n_chunks it)) \<and>
    (\<not> it_shuffle it \<longrightarrow> xs = load_blocks (it_block_size it) chunks (next_start it) (it_n_chunks it)) \<and>
    exhausted dtype n it' \<and> same_reader it it' \<and> it_file_idx it' = next_start it + it_n_chunks it"
proof -
  let ?m = "it_n_chunks it * (n div it_block_size it)" and ?start = "next_start it"
  have c: "it_consistent dtype n it" "length (it_block_idxs it) \<le> it_curr_idx it"
    using e by (simp_all add: exhausted_def)
  from load_n_chunks_ok [OF s c(1) m(1,2) p] obtain it1 where
    load: "load_n_chunks np fs it = Inr it1" and l: "loaded np dtype n chunks ?start it1"
    and sr: "same_reader it it1" and c0: "it_curr_idx it1 = 0" by blast
  have f: "it_n_chunks it1 = it_n_chunks it" "it_block_size it1 = it_block_size it" "it_shuffle it1 = it_shuffle it"
    "it_filenames it1 = it_filenames it"
    using sr by (simp_all add: same_reader_def)
  have B: "0 < it_block_size it" using c(1) by (simp add: it_consistent_def)
  have "0 < n div it_block_size it" using div_greater_zero_iff [of n "it_block_size it"] m(3) B by blast
  with m(1) have pos: "0 < ?m" by (rule mult_pos_pos)
  have idx: "length (it_block_idxs it1) = ?m" using loaded_indices [OF l] f by simp
  let ?xs = "map (loaded_block n chunks ?start it1) (it_block_idxs it1)"
  have "packed_take np fs ?m it = packed_take np fs ?m it1"
    by (rule take_load [OF c(2) load _ pos]) (use pos in \<open>simp only: c0 idx\<close>)
  also have "\<dots> = Inr (?xs, it1\<lparr>it_curr_idx := ?m\<rparr>)"
    using take_loaded [OF l, of fs ?m] s f c0 idx by simp
  finally have "packed_take np fs ?m it = Inr (?xs, it1\<lparr>it_curr_idx := ?m\<rparr>)" .
  moreover have "mset ?xs = mset (load_blocks (it_block_size it) chunks ?start (it_n_chunks it))"
  proof -
    have "mset (it_block_idxs it1) = mset [0..<?m]" using l f by (simp add: loaded_def)
    then have "mset ?xs = mset (map (loaded_block n chunks ?start it1) [0..<?m])" by (simp only: mset_map)
    moreover have "map (loaded_block n chunks ?start it1) [0..<?m] = load_blocks (it_block_size it) chunks ?start (it_n_chunks it)"
      using load_blocks_loaded [OF l, of fs] s f by simp
    ultimately show ?thesis by (simp only:)
  qed
  moreover have "?xs = load_blocks (it_block_size it) chunks ?start (it_n_chunks it)" if "\<not> it_shuffle it"
    using load_blocks_loaded [OF l, of fs] that l s f by (simp add: loaded_def)
  moreover have "exhausted dtype n (it1\<lparr>it_curr_idx := ?m\<rparr>)"
    using l idx by (auto simp: exhausted_def loaded_def it_consistent_def)
  moreover have "same_reader it (it1\<lparr>it_curr_idx := ?m\<rparr>)" using sr by (simp add: same_reader_def)
  moreover have "it_file_idx (it1\<lparr>it_curr_idx := ?m\<rparr>) = ?start + it_n_chunks it"
    using l f by (simp add: loaded_def)
  ultimately show ?thesis by blast
qed

lemma load_blocks_add:
  "load_blocks m chunks s (a + b) = load_blocks m chunks s a @ load_blocks m chunks (s + a) b"
  by (simp add: load_blocks_def take_add add.commute)

lemma take_rounds:
  assumes "exhausted dtype n it" "shelf np fs dtype n (it_filenames it) chunks"
    "0 < it_n_chunks it" "it_file_idx it + k * it_n_chunks it \<le> length chunks" "it_block_size it \<le> n"
    "it_shuffle it \<longrightarrow> permutes_indices np"
  shows "\<exists>xs it'. packed_take np fs (k * (it_n_chunks it * (n div it_block_size it))) it = Inr (xs, it') \<and>
    mset xs = mset (load_blocks (it_block_size it) chunks (it_file_idx it) (k * it_n_chunks it)) \<and>
    (\<not> it_shuffle it \<longrightarrow> xs = load_blocks (it_block_size it) chunks (it_file_idx it) (k * it_n_chunks it))"
  using assms
proof (induction k arbitrary: it)
  case 0
  then show ?case by (simp add: load_blocks_def)
next
  case (Suc k)
  let ?m = "it_n_chunks it * (n div it_block_size it)"
  have le: "it_n_chunks it \<le> length chunks" and len: "length (it_filenames it) = length chunks"
    using Suc.prems by (simp_all add: shelf_def)
  have "it_n_chunks it \<le> length (it_filenames it) - it_file_idx it"
    using Suc.prems(4) len by simp
  then have start: "next_start it = it_file_idx it" by (simp add: next_start_def)
  from take_round [OF Suc.prems(1-3) le Suc.prems(5,6)] obtain xs it1 where
    x: "packed_take np fs ?m it = Inr (xs, it1)"
      "mset xs = mset (load_blocks (it_block_size it) chunks (it_file_idx it) (it_n_chunks it))"
      "\<not> it_shuffle it \<longrightarrow> xs = load_blocks (it_block_size it) chunks (it_file_idx it) (it_n_chunks it)"
      "exhausted dtype n it1" "same_reader it it1" "it_file_idx it1 = it_file_idx it + it_n_chunks it"
    unfolding start by (elim exE conjE) (rule that)
  have f: "it_n_chunks it1 = it_n_chunks it" "it_block_size it1 = it_block_size it" "it_shuffle it1 = it_shuffle it"
    "it_filenames it1 = it_filenames it"
    using x(5) by (simp_all add: same_reader_def)
  from Suc.IH [OF x(4)] Suc.prems f x(6) obtain ys it2 where
    y: "packed_take np fs (k * ?m) it1 = Inr (ys, it2)"
      "mset ys = mset (load_blocks (it_block_size it) chunks (it_file_idx it + it_n_chunks it) (k * it_n_chunks it))"
      "\<not> it_shuffle it \<longrightarrow> ys = load_blocks (it_block_size it) chunks (it_file_idx it + it_n_chunks it) (k * it_n_chunks it)"
    by (auto simp: algebra_simps)
  show ?case
    using x(1-3) y packed_take_add [of np fs ?m "k * ?m" it] load_blocks_add [of "it_block_size it" chunks "it_file_idx it" "it_n_chunks it"]
    by auto
qed

lemma take_rounds_any:
  assumes "exhausted dtype n it" "shelf np fs dtype n (it_filenames it) chunks"
    "0 < it_n_chunks it" "it_n_chunks it \<le> length chunks" "it_block_size it \<le> n"
    "it_shuffle it \<longrightarrow> permutes_indices np"
  shows "\<exists>xs it'. packed_take np fs (k * (it_n_chunks it * (n div it_block_size it))) it = Inr (xs, it') \<and>
    set xs \<subseteq> set (concat (map (blocks_of (it_block_size it)) chunks))"
  using assms
proof (induction k arbitrary: it)
  case 0
  then show ?case by simp
next
  case (Suc k)
  let ?m = "it_n_chunks it * (n div it_block_size it)"
  from take_round [OF Suc.prems(1-6)] obtain xs it1 where
    x: "packed_take np fs ?m it = Inr (xs, it1)"
      "mset xs = mset (load_blocks (it_block_size it) chunks (next_start it) (it_n_chunks it))"
      "exhausted dtype n it1" "same_reader it it1"
    by (elim exE conjE) (rule that)
  have sub: "set xs \<subseteq> set (concat (map (blocks_of (it_block_size it)) chunks))"
    using mset_eq_setD [OF x(2)] by (auto simp: load_blocks_def dest!: in_set_takeD in_set_dropD)
  have f: "it_n_chunks it1 = it_n_chunks it" "it_block_size it1 = it_block_size it" "it_shuffle it1 = it_shuffle it"
    "it_filenames it1 = it_filenames it"
    using x(4) by (simp_all add: same_reader_def)
  from Suc.IH [OF x(3)] Suc.prems f obtain ys it2 where
    y: "packed_take np fs (k * ?m) it1 = Inr (ys, it2)"
      "set ys \<subseteq> set (concat (map (blocks_of (it_block_size it)) chunks))"
    by auto
  have "packed_take np fs (Suc k * ?m) it = Inr (xs @ ys, it2)"
    using x(1) y(1) packed_take_add [of np fs ?m "k * ?m" it] by simp
  moreover have "set (xs @ ys) \<subseteq> set (concat (map (blocks_of (it_block_size it)) chunks))"
    using sub y(2) by simp
  ultimately show ?case by blast
qed

lemma take_prefix:
  assumes "packed_take np fs (a + b) it = Inr (zs, it2)"
  shows "\<exists>xs it1. packed_take np fs a it = Inr (xs, it1) \<and> set xs \<subseteq> set zs"
  using assms by (auto simp: packed_take_add rbind_eq_Inr split: prod.splits)

text \<open>A new iterator behaves like one that has nothing loaded.\<close>

definition blank_iterator :: "'r numpy \<Rightarrow> string list \<Rightarrow> nat \<Rightarrow> nat \<Rightarrow> int \<Rightarrow> bool \<Rightarrow> bool \<Rightarrow> 'r packed_iterator" where
  "blank_iterator np filenames n_chunks block_size seed shuffle wrap =
     \<lparr>it_rng = (if shuffle then Some (default_rng np seed) else None), it_shuffle = shuffle,
      it_wrap = wrap, it_filenames = filenames, it_file_idx = 0, it_n_chunks = n_chunks,
      it_dtype = None, it_chunk_size = 0, it_block_size = block_size, it_n_blocks = None,
      it_buffers = [], it_block_idxs = [], it_curr_idx = 0\<rparr>"

lemma init_blank:
  assumes s: "shelf np fs dtype n names chunks" and m: "0 < n_chunks" "n_chunks \<le> length chunks"
    and B: "0 < block_size" "block_size \<le> n" and p: "shuffle \<longrightarrow> permutes_indices np"
  shows "\<exists>it. PackedDatasetIterator_init np fs names n_chunks block_size seed shuffle wrap = Inr it \<and>
    (\<forall>k > 0. packed_take np fs k it = packed_take np fs k (blank_iterator np names n_chunks block_size seed shuffle wrap))"
proof -
  let ?b = "blank_iterator np names n_chunks block_size seed shuffle wrap"
  have b: "it_filenames ?b = names" "it_n_chunks ?b = n_chunks" "it_block_size ?b = block_size" "it_shuffle ?b = shuffle"
    "length (it_block_idxs ?b) \<le> it_curr_idx ?b"
    by (simp_all add: blank_iterator_def)
  have c: "it_consistent dtype n ?b" using B by (simp add: it_consistent_def blank_iterator_def)
  obtain it where it: "load_n_chunks np fs ?b = Inr it" "loaded np dtype n chunks (next_start ?b) it"
    "same_reader ?b it" "it_curr_idx it = 0"
    using load_n_chunks_ok [of np fs dtype n ?b chunks] s c m p b by auto
  have "0 < n div block_size" using div_greater_zero_iff [of n block_size] B by blast
  with m(1) have "0 < n_chunks * (n div block_size)" by (rule mult_pos_pos)
  then have "it_curr_idx it < length (it_block_idxs it)"
    using loaded_indices [OF it(2)] it(3,4) b by (simp add: same_reader_def)
  from take_load [OF b(5) it(1) this] it(1) show ?thesis
    by (auto simp: PackedDatasetIterator_init_def blank_iterator_def)
qed

text \<open>The files of a builder are a shelf.\<close>

lemma chunks_concat: "length ws = m * n \<Longrightarrow> concat (map (chunk_of n ws) [0..<m]) = ws"
  using blocks_concat [of n m ws] by (simp add: chunk_of_def [abs_def] block_of_def [abs_def] mult.commute)

lemma builder_shelf:
  assumes inv: "builder_inv np b fs ws" and w: "writable b" and idx: "bd_idx b = 0"
    and r: "\<forall>v \<in> set ws. representable (bd_dtype b) v"
  shows "shelf np fs (bd_dtype b) (bd_chunk_size b) (bd_filenames b) (map (chunk_of (bd_chunk_size b) ws) [0..<bd_counter b])"
proof -
  let ?n = "bd_chunk_size b"
  have len: "length ws = bd_counter b * ?n" using inv idx by (simp add: builder_inv_def)
  have "length (chunk_of ?n ws i) = ?n \<and> (\<forall>v \<in> set (chunk_of ?n ws i). representable (bd_dtype b) v)"
    if "i < bd_counter b" for i
  proof
    have "Suc i * ?n \<le> bd_counter b * ?n" using that by (intro mult_le_mono1) simp
    then show "length (chunk_of ?n ws i) = ?n" by (simp add: chunk_of_def len)
    show "\<forall>v \<in> set (chunk_of ?n ws i). representable (bd_dtype b) v"
      using r by (auto simp: chunk_of_def dest!: in_set_takeD in_set_dropD)
  qed
  then show ?thesis
    using inv w by (auto simp: shelf_def builder_inv_def writable_def)
qed

lemma representable_take:
  assumes "shelf np fs dtype n names chunks" "m dvd n"
  shows "concat (load_blocks m chunks 0 (length chunks)) = concat chunks"
proof -
  have "concat (blocks_of m vs) = vs" if "vs \<in> set chunks" for vs
    using that assms by (intro blocks_of_concat) (auto simp: shelf_def in_set_conv_nth)
  then have "concat (map (\<lambda>vs. concat (blocks_of m vs)) chunks) = concat chunks"
    by (simp cong: map_cong)
  moreover have "concat (concat (map f xs)) = concat (map (\<lambda>x. concat (f x)) xs)" for f :: "int list \<Rightarrow> int list list" and xs
    by (induction xs) auto
  ultimately show ?thesis by (simp add: load_blocks_def)
qed

lemma stream_unshuffled:
  assumes s: "shelf np fs dtype n names chunks" and m: "0 < n_chunks" "n_chunks dvd length chunks" "0 < length chunks"
    and B: "0 < block_size" "block_size dvd n" "0 < n"
  shows "\<exists>it xs it'. PackedDatasetIterator_init np fs names n_chunks block_size seed False wrap = Inr it \<and>
    packed_take np fs (length chunks * (n div block_size)) it = Inr (xs, it') \<and> concat xs = concat chunks"
proof -
  obtain k where k: "length chunks = k * n_chunks" using m(2) by (metis dvd_div_mult_self)
  have le: "n_chunks \<le> length chunks" "block_size \<le> n" using m B by (simp_all add: dvd_imp_le)
  let ?b = "blank_iterator np names n_chunks block_size seed False wrap"
  have b: "it_filenames ?b = names" "it_n_chunks ?b = n_chunks" "it_block_size ?b = block_size" "\<not> it_shuffle ?b"
    "it_file_idx ?b = 0" "exhausted dtype n ?b"
    using B by (simp_all add: blank_iterator_def exhausted_def it_consistent_def)
  obtain it where it: "PackedDatasetIterator_init np fs names n_chunks block_size seed False wrap = Inr it"
    "\<forall>k > 0. packed_take np fs k it = packed_take np fs k ?b"
    using init_blank [OF s m(1) le(1) B(1) le(2), of False seed wrap] by auto
  obtain xs it' where x: "packed_take np fs (k * (n_chunks * (n div block_size))) ?b = Inr (xs, it')"
    "xs = load_blocks block_size chunks 0 (k * n_chunks)"
    using take_rounds [OF b(6), of np fs chunks k] s m(1) le b k by auto
  have eq: "length chunks * (n div block_size) = k * (n_chunks * (n div block_size))" by (simp add: k)
  have "0 < n div block_size" using div_greater_zero_iff [of n block_size] B(1) le(2) by blast
  with m(3) have "0 < length chunks * (n div block_size)" by (rule mult_pos_pos)
  then have "packed_take np fs (length chunks * (n div block_size)) it = Inr (xs, it')"
    using it(2) x(1) unfolding eq by simp
  moreover have "concat xs = concat chunks"
    using representable_take [OF s B(2)] x(2) k by simp
  ultimately show ?thesis using it(1) by blast
qed

section \<open>Properties\<close>

text \<open>C11: What was added is read back: a builder that is given arrays of tokens its element type can hold
  writes files whose blocks, read in order without shuffling, are the tokens of all arrays
  one after the other, followed by fewer separators than a chunk holds.  Every chunk size that
  the block size divides, every grouping of the files and every split of the tokens into arrays
  gives the same stream.\<close>

theorem packed_stream_roundtrip:
  assumes b: "PackedDatasetBuilder_init np outdir prefix chunk_size sep_token dtype vocab_size = Inr b"
    and size: "0 < chunk_size" "chunk_size < 2 ^ 64" and listed: "returns (code (bd_dtype b))"
    and r: "\<forall>v \<in> set (sep_token # concat vss). representable (bd_dtype b) v"
    and B: "0 < block_size" "block_size dvd nat chunk_size"
  shows "\<exists>b1 fs1 b2 fs2 k. add_arrays np b fs vss = Some (b1, fs1) \<and>
    write_reminder np (b1, fs1) = ((b2, fs2), Inr ()) \<and>
    k \<le> nat chunk_size \<and> (concat vss \<noteq> [] \<longrightarrow> k < nat chunk_size) \<and>
    (\<forall>n_chunks. 0 < n_chunks \<and> n_chunks dvd length (bd_filenames b2) \<longrightarrow>
      (\<exists>it xs it'. PackedDatasetIterator_init np fs2 (bd_filenames b2) n_chunks block_size seed False wrap = Inr it \<and>
         packed_take np fs2 (length (bd_filenames b2) * (nat chunk_size div block_size)) it = Inr (xs, it') \<and>
         concat xs = concat vss @ replicate k sep_token))"
proof -
  have init: "builder_inv np b fs []" "bd_chunk_size b = nat chunk_size" "bd_idx b = 0" "bd_sep_token b = sep_token"
    using init_inv [OF b] by simp_all
  have w: "writable b" "0 < bd_chunk_size b" using listed size init(2) by (simp_all add: writable_def)
  from add_arrays_inv [OF init(1) w, of vss] obtain b1 fs1 where
    a: "add_arrays np b fs vss = Some (b1, fs1)" "builder_inv np b1 fs1 (concat vss)" "same_config b b1" "writable b1"
      "bd_idx b1 = 0 \<longrightarrow> concat vss = []" by auto
  let ?k = "bd_chunk_size b1 - bd_idx b1"
  let ?ws = "concat vss @ replicate ?k sep_token"
  have cfg: "bd_chunk_size b1 = nat chunk_size" "bd_dtype b1 = bd_dtype b" "bd_sep_token b1 = sep_token"
    using a(3) init by (simp_all add: same_config_def)
  from write_reminder_inv [OF a(2,4)] obtain b2 fs2 where
    e: "write_reminder np (b1, fs1) = ((b2, fs2), Inr ())" "same_config b1 b2"
      "builder_inv np b2 fs2 ?ws" "bd_idx b2 = 0" "bd_counter b2 = bd_counter b1 + 1"
    unfolding cfg(3) by (elim exE conjE) (rule that)
  have cfg2: "bd_chunk_size b2 = nat chunk_size" "bd_dtype b2 = bd_dtype b" "writable b2"
    using e(2) cfg a(4) by (simp_all add: same_config_def writable_def)
  let ?chunks = "map (chunk_of (nat chunk_size) ?ws) [0..<bd_counter b2]"
  have "\<forall>v \<in> set ?ws. representable (bd_dtype b2) v"
    using r cfg2(2) by (auto simp: set_replicate_conv_if)
  then have s: "shelf np fs2 (bd_dtype b) (nat chunk_size) (bd_filenames b2) ?chunks"
    using builder_shelf [OF e(3) cfg2(3) e(4)] unfolding cfg2 by blast
  have "length ?ws = bd_counter b2 * nat chunk_size" using e(3,4) cfg2 by (simp add: builder_inv_def)
  then have c: "concat ?chunks = ?ws" by (rule chunks_concat)
  have len: "length (bd_filenames b2) = length ?chunks" using s by (simp add: shelf_def)
  have "\<exists>it xs it'. PackedDatasetIterator_init np fs2 (bd_filenames b2) n_chunks block_size seed False wrap = Inr it \<and>
      packed_take np fs2 (length (bd_filenames b2) * (nat chunk_size div block_size)) it = Inr (xs, it') \<and> concat xs = ?ws"
    if "0 < n_chunks \<and> n_chunks dvd length (bd_filenames b2)" for n_chunks
    using stream_unshuffled [OF s, of n_chunks block_size seed wrap] that B size(1) e(5) unfolding len c by auto
  moreover have "concat vss \<noteq> [] \<longrightarrow> ?k < nat chunk_size" using a(5) cfg size(1) by auto
  moreover have "?k \<le> nat chunk_size" using cfg by simp
  ultimately show ?thesis using a(1) e(1) by blast
qed

text \<open>A NumPy whose permutations reverse, for the examples.\<close>

definition plain_numpy :: "unit numpy" where
  "plain_numpy = \<lparr>float_bytes = (\<lambda>d v. []), float_int = (\<lambda>d e. 0), default_rng = (\<lambda>s. ()),
     permutation = (\<lambda>r n. (rev [0..<n], r)), fill_checks = True\<rparr>"

definition example_builder :: packed_builder where
  "example_builder = \<lparr>bd_dtype = UInt16, bd_counter = 0, bd_chunk_size = 2, bd_outdir = ''d'', bd_prefix = ''p'',
     bd_sep_token = 0, bd_arr = replicate 2 (to_elem plain_numpy UInt16 0), bd_idx = 0, bd_version = 1, bd_filenames = []\<rparr>"

lemma example_builder_init:
  "PackedDatasetBuilder_init plain_numpy ''d'' ''p'' 2 0 AutoDtype (Some 32000) = Inr example_builder"
  by (simp add: representable_def is_signed_def is_float_def PackedDatasetBuilder_init_def example_builder_def)

theorem packed_stream_roundtrip_witness:
  "\<exists>b1 fs1 b2 fs2 k. add_arrays plain_numpy example_builder (\<lambda>_. None) [[1, 2, 3], [], [4, 5]] = Some (b1, fs1) \<and>
    write_reminder plain_numpy (b1, fs1) = ((b2, fs2), Inr ()) \<and>
    k \<le> nat 2 \<and> (concat [[1, 2, 3], [], [4, 5]] \<noteq> ([] :: int list) \<longrightarrow> k < nat 2) \<and>
    (\<forall>n_chunks. 0 < n_chunks \<and> n_chunks dvd length (bd_filenames b2) \<longrightarrow>
      (\<exists>it xs it'. PackedDatasetIterator_init plain_numpy fs2 (bd_filenames b2) n_chunks 1 7 False False = Inr it \<and>
         packed_take plain_numpy fs2 (length (bd_filenames b2) * (nat 2 div 1)) it = Inr (xs, it') \<and>
         concat xs = concat [[1, 2, 3], [], [4, 5]] @ replicate k 0))"
  by (rule packed_stream_roundtrip [OF example_builder_init])
     (simp_all add: example_builder_def code_error representable_def is_float_def is_signed_def)

text \<open>C12: One pass reads every block exactly once.  Over files of one type and chunk size, with any
  generator whose permutations are permutations, the first pass of an iterator that maps
  \<open>n_chunks\<close> files at a time hands out, as a multiset, the blocks of all files up to the last
  multiple of \<open>n_chunks\<close>, and without shuffling in their order; the files beyond are not read.\<close>

theorem epoch_reads_each_block_once:
  assumes s: "shelf np fs dtype n names chunks" and m: "0 < n_chunks" "n_chunks \<le> length chunks"
    and B: "0 < block_size" "block_size \<le> n" and p: "shuffle \<longrightarrow> permutes_indices np"
  shows "\<exists>it xs it'. PackedDatasetIterator_init np fs names n_chunks block_size seed shuffle wrap = Inr it \<and>
    packed_take np fs (length chunks div n_chunks * (n_chunks * (n div block_size))) it = Inr (xs, it') \<and>
    mset xs = mset (load_blocks block_size chunks 0 (length chunks div n_chunks * n_chunks)) \<and>
    (\<not> shuffle \<longrightarrow> xs = load_blocks block_size chunks 0 (length chunks div n_chunks * n_chunks))"
proof -
  let ?b = "blank_iterator np names n_chunks block_size seed shuffle wrap" and ?k = "length chunks div n_chunks"
  have b: "it_filenames ?b = names" "it_n_chunks ?b = n_chunks" "it_block_size ?b = block_size" "it_shuffle ?b = shuffle"
    "it_file_idx ?b = 0" "exhausted dtype n ?b"
    using B by (simp_all add: blank_iterator_def exhausted_def it_consistent_def)
  obtain it where it: "PackedDatasetIterator_init np fs names n_chunks block_size seed shuffle wrap = Inr it"
    "\<forall>k > 0. packed_take np fs k it = packed_take np fs k ?b"
    using init_blank [OF s m B p, of seed wrap] by auto
  have "0 < n div block_size" "0 < ?k"
    using div_greater_zero_iff [of n block_size] div_greater_zero_iff [of "length chunks" n_chunks] B m by blast+
  then have "0 < ?k * (n_chunks * (n div block_size))" using m(1) by (intro mult_pos_pos)
  then have "packed_take np fs (?k * (n_chunks * (n div block_size))) it = packed_take np fs (?k * (n_chunks * (n div block_size))) ?b"
    using it(2) by blast
  then show ?thesis
    using take_rounds [OF b(6), of np fs chunks ?k] s m(1) B(2) p b it(1) by auto
qed

definition example_shelf :: files where
  "example_shelf = [''a'' \<mapsto> chunk_file plain_numpy Int32 2 [7, -1], ''b'' \<mapsto> chunk_file plain_numpy Int32 2 [3, 4],
     ''c'' \<mapsto> chunk_file plain_numpy Int32 2 [5, 6]]"

lemma example_shelf_ok:
  "shelf plain_numpy example_shelf Int32 2 [''a'', ''b'', ''c''] [[7, -1], [3, 4], [5, 6]]"
proof -
  have "example_shelf ([''a'', ''b'', ''c''] ! i) = Some (chunk_file plain_numpy Int32 2 (cs ! i)) \<and>
      length (cs ! i) = 2 \<and> (\<forall>v \<in> set (cs ! i). representable Int32 v)"
    if "i < Suc (Suc (Suc 0))" "cs = [[7, -1], [3, 4], [5, 6]]" for i cs
  proof -
    have "i = 0 \<or> i = 1 \<or> i = 2" using that(1) by linarith
    then show ?thesis
      using that(2) by (auto simp: example_shelf_def representable_def is_float_def is_signed_def)
  qed
  from this [OF _ refl] show ?thesis by (simp add: shelf_def code_error)
qed

lemma plain_permutes: "permutes_indices plain_numpy"
  by (simp add: permutes_indices_def plain_numpy_def)

theorem epoch_reads_each_block_once_witness:
  "\<exists>it xs it'. PackedDatasetIterator_init plain_numpy example_shelf [''a'', ''b'', ''c''] 2 1 7 True False = Inr it \<and>
    packed_take plain_numpy example_shelf (length [[7, -1], [3, 4], [5, 6::int]] div 2 * (2 * (2 div 1))) it = Inr (xs, it') \<and>
    mset xs = mset (load_blocks 1 [[7, -1], [3, 4], [5, 6]] 0 (length [[7, -1], [3, 4], [5, 6::int]] div 2 * 2)) \<and>
    (\<not> True \<longrightarrow> xs = load_blocks 1 [[7, -1], [3, 4], [5, 6]] 0 (length [[7, -1], [3, 4], [5, 6::int]] div 2 * 2))"
  by (rule epoch_reads_each_block_once [OF example_shelf_ok]) (simp_all add: plain_permutes)

text \<open>C13: An iteration never ends, whatever \<open>wrap\<close> says: for a positive number \<open>n_chunks\<close> of files, at most as many as the
  shelf holds, and a positive block size of at most a chunk,
  any number of further blocks is returned without an exception, and each is a block of one of
  the files.\<close>

theorem packed_iteration_never_stops:
  assumes s: "shelf np fs dtype n names chunks" and m: "0 < n_chunks" "n_chunks \<le> length chunks"
    and B: "0 < block_size" "block_size \<le> n" and p: "shuffle \<longrightarrow> permutes_indices np"
  shows "\<exists>it. PackedDatasetIterator_init np fs names n_chunks block_size seed shuffle wrap = Inr it \<and>
    (\<forall>k. \<exists>xs it'. packed_take np fs k it = Inr (xs, it') \<and> set xs \<subseteq> set (concat (map (blocks_of block_size) chunks)))"
proof -
  let ?b = "blank_iterator np names n_chunks block_size seed shuffle wrap"
  have b: "it_filenames ?b = names" "it_n_chunks ?b = n_chunks" "it_block_size ?b = block_size" "it_shuffle ?b = shuffle"
    "it_file_idx ?b = 0" "exhausted dtype n ?b"
    using B by (simp_all add: blank_iterator_def exhausted_def it_consistent_def)
  obtain it where it: "PackedDatasetIterator_init np fs names n_chunks block_size seed shuffle wrap = Inr it"
    "\<forall>k > 0. packed_take np fs k it = packed_take np fs k ?b"
    using init_blank [OF s m B p, of seed wrap] by auto
  have nb: "0 < n div block_size" using div_greater_zero_iff [of n block_size] B by blast
  have "\<exists>xs it'. packed_take np fs k it = Inr (xs, it') \<and> set xs \<subseteq> set (concat (map (blocks_of block_size) chunks))" for k
  proof (cases "k = 0")
    case False
    obtain xs it' where x: "packed_take np fs (k * (n_chunks * (n div block_size))) ?b = Inr (xs, it')"
      "set xs \<subseteq> set (concat (map (blocks_of block_size) chunks))"
      using take_rounds_any [OF b(6), of np fs chunks k] s m B(2) p b by auto
    have "0 < n_chunks * (n div block_size)" using m(1) nb by (rule mult_pos_pos)
    then have "k * (n_chunks * (n div block_size)) = k + k * (n_chunks * (n div block_size) - 1)"
      by (metis Suc_diff_1 mult_Suc_right)
    with x(1) have "packed_take np fs (k + k * (n_chunks * (n div block_size) - 1)) ?b = Inr (xs, it')" by simp
    from take_prefix [OF this] x(2) it(2) False show ?thesis by fastforce
  qed simp
  with it(1) show ?thesis by blast
qed

theorem packed_iteration_never_stops_witness:
  "\<exists>it. PackedDatasetIterator_init plain_numpy example_shelf [''a'', ''b'', ''c''] 2 2 7 False False = Inr it \<and>
    (\<forall>k. \<exists>xs it'. packed_take plain_numpy example_shelf k it = Inr (xs, it') \<and>
       set xs \<subseteq> set (concat (map (blocks_of 2) [[7, -1], [3, 4], [5, 6]])))"
  by (rule packed_iteration_never_stops [OF example_shelf_ok]) simp_all

section \<open>Shards and termination\<close>

lemma mset_concat_swap:
  "mset (concat (map (\<lambda>a. map (\<lambda>b. f a b) ys) xs)) = mset (concat (map (\<lambda>b. map (\<lambda>a. f a b) xs) ys))"
proof (induction xs)
  case Nil
  then show ?case by (induction ys) auto
next
  case (Cons x xs)
  have "mset (concat (map (\<lambda>b. f x b # map (\<lambda>a. f a b) xs) ys))
      = mset (map (f x) ys) + mset (concat (map (\<lambda>b. map (\<lambda>a. f a b) xs) ys))"
    by (induction ys) auto
  with Cons show ?case by simp
qed

lemma step_slice_full:
  assumes "start < k" "q * k \<le> length xs"
  shows "step_slice xs start (q * k) k = map (\<lambda>j. xs ! (j * k + start)) [0..<q]"
proof -
  have "filter (\<lambda>i. (i - start) mod k = 0) [start..<q * k] = map (\<lambda>j. j * k + start) [0..<q]"
  proof (rule sorted_distinct_set_unique)
    show "sorted (filter (\<lambda>i. (i - start) mod k = 0) [start..<q * k])" by (rule sorted_wrt_filter) simp
    show "distinct (filter (\<lambda>i. (i - start) mod k = 0) [start..<q * k])" by simp
    show "sorted (map (\<lambda>j. j * k + start) [0..<q])" by (auto simp: sorted_iff_nth_mono)
    show "distinct (map (\<lambda>j. j * k + start) [0..<q])" using assms(1) by (auto simp: distinct_map inj_on_def)
    show "set (filter (\<lambda>i. (i - start) mod k = 0) [start..<q * k]) = set (map (\<lambda>j. j * k + start) [0..<q])"
    proof (intro set_eqI iffI)
      fix i assume i: "i \<in> set (filter (\<lambda>i. (i - start) mod k = 0) [start..<q * k])"
      then obtain j where j: "i = j * k + start"
        by (auto simp: mod_eq_0_iff_dvd elim!: dvdE) (metis add.commute le_add_diff_inverse mult.commute)
      have "i < q * k" using i by simp
      then have "j * k < q * k" unfolding j by (rule add_lessD1)
      then have "j < q" by simp
      with j show "i \<in> set (map (\<lambda>j. j * k + start) [0..<q])"
        by (simp only: set_map set_upt) (rule imageI, simp)
    next
      fix i assume "i \<in> set (map (\<lambda>j. j * k + start) [0..<q])"
      then obtain j where "i = j * k + start" "j < q" unfolding set_map by (elim imageE) (auto intro: that)
      then show "i \<in> set (filter (\<lambda>i. (i - start) mod k = 0) [start..<q * k])"
        using mixed_radix [of j q start k] assms(1) by auto
    qed
  qed
  then show ?thesis using assms(2) by (simp add: step_slice_def min_absorb1 comp_def)
qed

lemma take_as_rounds:
  assumes "q * k \<le> length xs" "0 < k"
  shows "take (q * k) xs = concat (map (\<lambda>j. map (\<lambda>s. xs ! (j * k + s)) [0..<k]) [0..<q])"
proof -
  have "take (q * k) xs = map (\<lambda>b. xs ! (b div k * k + b mod k)) [0..<q * k]"
    using assms(1) by (intro nth_equalityI) simp_all
  also have "\<dots> = concat (map (\<lambda>j. map (\<lambda>s. xs ! (j * k + s)) [0..<k]) [0..<q])"
    by (rule div_mod_map)
  finally show ?thesis .
qed

lemma product_as_range: "List.product [0..<p] [0..<w] = map (\<lambda>b. (b div w, b mod w)) [0..<p * w]"
  unfolding div_mod_map by (simp add: product_concat_map)

text \<open>C14: The shards of a data set are a partition.  Over all ranks of the processes and all workers of
  each, the shards have equally many files and together they are, as a multiset, the files up
  to the last multiple of the number of shards: no file is read twice and only the remainder of
  the division is left out.\<close>

theorem shards_partition:
  assumes "0 < processes" "0 < workers"
  shows "\<exists>shards. rmap (\<lambda>(rank, worker). shard_filenames (ds\<lparr>ds_num_processes := processes, ds_process_rank := rank\<rparr>)
      (Some (workers, worker))) (List.product [0..<processes] [0..<workers]) = Inr shards \<and>
    length shards = workers * processes \<and>
    (\<forall>shard \<in> set shards. length shard = length (ds_filenames ds) div (workers * processes)) \<and>
    mset (concat shards) = mset (take (length (ds_filenames ds) div (workers * processes) * (workers * processes)) (ds_filenames ds))"
proof -
  let ?k = "workers * processes" and ?xs = "ds_filenames ds"
  let ?q = "length ?xs div ?k"
  let ?shard = "\<lambda>s. map (\<lambda>j. ?xs ! (j * ?k + s)) [0..<?q]"
  have k: "0 < ?k" "?q * ?k \<le> length ?xs" using assms by simp_all
  have one: "shard_filenames (ds\<lparr>ds_num_processes := processes, ds_process_rank := b div workers\<rparr>) (Some (workers, b mod workers))
      = Inr (?shard b)" if "b < ?k" for b
    using that k step_slice_full [OF that k(2)] by (simp add: shard_filenames_def Let_def)
  let ?shards = "map ?shard [0..<?k]"
  have "rmap (\<lambda>(rank, worker). shard_filenames (ds\<lparr>ds_num_processes := processes, ds_process_rank := rank\<rparr>)
      (Some (workers, worker))) (List.product [0..<processes] [0..<workers])
    = rmap (\<lambda>b. Inr (?shard b)) [0..<?k]"
  proof -
    have "rmap f (map g xs) = rmap (\<lambda>x. f (g x)) xs" for f :: "nat \<times> nat \<Rightarrow> string list result" and g :: "nat \<Rightarrow> nat \<times> nat" and xs
      by (induction xs) auto
    moreover have "rmap f xs = rmap g xs" if "\<forall>x \<in> set xs. f x = g x" for f g :: "nat \<Rightarrow> string list result" and xs
      using that by (induction xs) auto
    ultimately show ?thesis unfolding product_as_range using one by (simp add: mult.commute [of processes])
  qed
  also have "\<dots> = Inr ?shards" by (rule rmap_pure) simp
  finally have "rmap (\<lambda>(rank, worker). shard_filenames (ds\<lparr>ds_num_processes := processes, ds_process_rank := rank\<rparr>)
      (Some (workers, worker))) (List.product [0..<processes] [0..<workers]) = Inr ?shards" .
  moreover have "mset (concat ?shards) = mset (take (?q * ?k) ?xs)"
    unfolding take_as_rounds [OF k(2,1)] by (rule mset_concat_swap)
  ultimately show ?thesis by (intro exI [of _ ?shards]) simp
qed

definition example_dataset :: packed_dataset where
  "example_dataset = \<lparr>ds_filenames = [''a'', ''b'', ''c'', ''d'', ''e''], ds_n_chunks = 1, ds_block_size = 1, ds_seed = 1,
     ds_shuffle = False, ds_wrap = False, ds_num_processes = 1, ds_process_rank = 0\<rparr>"

theorem shards_partition_witness:
  "\<exists>shards. rmap (\<lambda>(rank, worker). shard_filenames (example_dataset\<lparr>ds_num_processes := 2, ds_process_rank := rank\<rparr>)
      (Some (1, worker))) (List.product [0..<2] [0..<1]) = Inr shards \<and>
    length shards = 1 * 2 \<and>
    (\<forall>shard \<in> set shards. length shard = length (ds_filenames example_dataset) div (1 * 2)) \<and>
    mset (concat shards) = mset (take (length (ds_filenames example_dataset) div (1 * 2) * (1 * 2)) (ds_filenames example_dataset))"
  by (rule shards_partition) simp_all

lemma write_chunk_error: "\<not> writable b \<Longrightarrow> snd (write_chunk np (b, fs)) \<noteq> Inr ()"
proof -
  assume w: "\<not> writable b"
  have u: "pack_uint 8 v = Inr bs \<Longrightarrow> v < 2 ^ 64" for v bs by (auto simp: pack_uint_iff)
  show ?thesis
  proof (cases "code (bd_dtype b)")
    case (Inl e)
    then show ?thesis
      by (cases "pack_uint 8 (bd_version b)") (simp_all add: write_chunk_def Let_def)
  next
    case (Inr k)
    then have "\<not> int (bd_chunk_size b) < 2 ^ 64" using w by (simp add: writable_def)
    then obtain e where "pack_uint 8 (int (bd_chunk_size b)) = Inl e" by (simp add: pack_uint_def)
    with Inr show ?thesis
      by (cases "pack_uint 8 (bd_version b)"; cases "pack_uint 1 k") (simp_all add: write_chunk_def Let_def)
  qed
qed

lemma add_array_diverges:
  assumes "add_array np b fs vs = Some r" "bd_chunk_size b = 0" "vs \<noteq> []"
  shows "\<not> (writable b \<and> bd_version b = 1)"
proof -
  have "bd_chunk_size b = 0 \<and> vs \<noteq> [] \<longrightarrow> \<not> (writable b \<and> bd_version b = 1)"
  proof (rule add_array.raw_induct
      [where P = "\<lambda>np b fs vs r. bd_chunk_size b = 0 \<and> vs \<noteq> [] \<longrightarrow> \<not> (writable b \<and> bd_version b = 1)", OF _ assms(1)])
    fix rec :: "'a numpy \<Rightarrow> packed_builder \<Rightarrow> files \<Rightarrow> int list \<Rightarrow> ((packed_builder \<times> files) \<times> unit result) option"
      and np :: "'a numpy" and b :: packed_builder and fs :: files and vs r
    let ?b1 = "b\<lparr>bd_arr := store_slice (bd_arr b) (bd_idx b) (map (to_elem np (bd_dtype b)) (take (bd_chunk_size b - bd_idx b) vs))\<rparr>"
    assume IH: "\<And>(np :: 'a numpy) b fs vs r. rec np b fs vs = Some r \<Longrightarrow>
        bd_chunk_size b = 0 \<and> vs \<noteq> [] \<longrightarrow> \<not> (writable b \<and> bd_version b = 1)"
      and step: "(if bd_idx b + length vs > bd_chunk_size b
          then (let part_len = bd_chunk_size b - bd_idx b;
                    b1 = b\<lparr>bd_arr := store_slice (bd_arr b) (bd_idx b) (map (to_elem np (bd_dtype b)) (take part_len vs))\<rparr>;
                    w = write_chunk np (b1, fs)
                in if snd w = Inr () then rec np (fst (fst w)) (snd (fst w)) (drop part_len vs) else Some w)
          else Some ((b\<lparr>bd_arr := store_slice (bd_arr b) (bd_idx b) (map (to_elem np (bd_dtype b)) vs),
                        bd_idx := bd_idx b + length vs\<rparr>, fs), Inr ())) = Some r"
    show "bd_chunk_size b = 0 \<and> vs \<noteq> [] \<longrightarrow> \<not> (writable b \<and> bd_version b = 1)"
    proof (intro impI notI)
      assume z: "bd_chunk_size b = 0 \<and> vs \<noteq> []" and ok: "writable b \<and> bd_version b = 1"
      have ok1: "writable ?b1" "bd_version ?b1 = 1" using ok by (simp_all add: writable_def)
      let ?w = "write_chunk np (?b1, fs)"
      have gt: "bd_idx b + length vs > bd_chunk_size b" using z by (cases vs) simp_all
      have w: "snd ?w = Inr ()" unfolding write_chunk_ok [OF ok1] by simp
      have "rec np (fst (fst ?w)) (snd (fst ?w)) (drop (bd_chunk_size b - bd_idx b) vs) = Some r"
        using step unfolding Let_def if_P [OF gt] if_P [OF w] .
      then have "rec np (fst (fst ?w)) (snd (fst ?w)) vs = Some r" using z by simp
      from IH [OF this] z ok show False
        unfolding write_chunk_ok [OF ok1] by (simp add: writable_def)
    qed
  qed
  with assms show ?thesis by blast
qed

text \<open>C15: Adding an array returns exactly when there is something to make progress with: the array is
  empty, the chunks have a positive size, or writing a chunk raises (an element type without a
  code, or a size the header cannot hold).  With chunks of size zero and a non-empty array the
  loop writes empty files forever.\<close>

theorem add_array_returns_iff:
  assumes inv: "builder_inv np b fs ws"
  shows "(\<exists>r. add_array np b fs vs = Some r) \<longleftrightarrow> vs = [] \<or> 0 < bd_chunk_size b \<or> \<not> writable b"
proof
  assume "\<exists>r. add_array np b fs vs = Some r"
  then show "vs = [] \<or> 0 < bd_chunk_size b \<or> \<not> writable b"
    using add_array_diverges [of np b fs vs] inv by (auto simp: builder_inv_def)
next
  assume c: "vs = [] \<or> 0 < bd_chunk_size b \<or> \<not> writable b"
  have idx: "bd_idx b \<le> bd_chunk_size b" using inv by (simp add: builder_inv_def)
  show "\<exists>r. add_array np b fs vs = Some r"
  proof (cases "writable b \<and> 0 < bd_chunk_size b")
    case True
    then show ?thesis using add_array_inv [OF inv] by blast
  next
    case False
    show ?thesis
    proof (cases "vs = []")
      case True
      then show ?thesis using idx by (subst add_array.simps) simp
    next
      case non: False
      let ?b1 = "b\<lparr>bd_arr := store_slice (bd_arr b) (bd_idx b) (map (to_elem np (bd_dtype b)) (take (bd_chunk_size b - bd_idx b) vs))\<rparr>"
      have "\<not> writable ?b1" using False c non by (auto simp: writable_def)
      then have e: "snd (write_chunk np (?b1, fs)) \<noteq> Inr ()" by (rule write_chunk_error)
      show ?thesis
      proof (cases "bd_idx b + length vs > bd_chunk_size b")
        case True
        then have "add_array np b fs vs = Some (write_chunk np (?b1, fs))"
          using e by (subst add_array.simps) (simp only: Let_def if_True if_False)
        then show ?thesis by blast
      next
        case False
        then show ?thesis by (subst add_array.simps) (simp only: if_False, blast)
      qed
    qed
  qed
qed

theorem add_array_returns_iff_witness:
  "(\<exists>r. add_array plain_numpy example_builder (\<lambda>_. None) [1, 2, 3] = Some r) \<longleftrightarrow>
     [1, 2, 3 :: int] = [] \<or> 0 < bd_chunk_size example_builder \<or> \<not> writable example_builder"
  by (rule add_array_returns_iff [where ws = "[]"]) (use init_inv [OF example_builder_init] in simp)

text \<open>C16: The automatic element type holds the vocabulary: for a vocabulary of at most 2^31 tokens, the
  type the builder chooses has a code in the header, represents every token and reads it back
  unchanged.\<close>

theorem auto_dtype_holds_vocabulary:
  assumes "PackedDatasetBuilder_init np outdir prefix chunk_size sep_token AutoDtype (Some vocab_size) = Inr b"
    and "vocab_size \<le> 2 ^ 31" "0 \<le> v" "v < vocab_size"
  shows "returns (code (bd_dtype b)) \<and> representable (bd_dtype b) v \<and>
    astype_int64 np (bd_dtype b) (to_elem np (bd_dtype b) v) = v"
proof -
  have d: "bd_dtype b = (if vocab_size < 65500 then UInt16 else Int32)"
    using assms(1) by (auto simp: PackedDatasetBuilder_init_def rbind_eq_Inr split: if_splits)
  have r: "representable (bd_dtype b) v"
    using assms(2-4) by (simp add: d representable_def is_float_def is_signed_def)
  then show ?thesis using elem.dec_enc [of "bd_dtype b" v np] by (simp add: d code_error)
qed

theorem auto_dtype_holds_vocabulary_witness:
  "returns (code (bd_dtype example_builder)) \<and> representable (bd_dtype example_builder) 31999 \<and>
    astype_int64 plain_numpy (bd_dtype example_builder) (to_elem plain_numpy (bd_dtype example_builder) 31999) = 31999"
  by (rule auto_dtype_holds_vocabulary [OF example_builder_init]) simp_all

end
