(* ===== verification/Pretrain.thy ===== *)
theory Pretrain
  imports PackedDataset
begin

text \<open>
  The training program \<open>pretrain.py\<close>: the learning rate schedule, the batch arithmetic of the
  command line, the data loaders, validation, and the training loop with gradient accumulation,
  checkpoints and resumption.

  The model, its loss and the optimizer are parameters (\<open>learner\<close>): they are functions of the
  parameters, the optimizer state and a batch, so that two runs over the same batches compute the
  same.  Logging, timing and the speed monitor only observe and are left out.  Real arithmetic
  stands for Python's floats.
\<close>

section \<open>The learning rate\<close>

record train_args =
  learning_rate :: real
  min_lr :: real
  max_tokens :: nat
  warmup_tokens :: nat
  micro_batch_size :: nat
  gradient_accumulation_steps :: nat
  save_step_interval :: nat
  eval_step_interval :: nat
  eval_iters :: nat
  num_extrapol :: nat
  eval_before_training :: bool

definition get_lr :: "train_args \<Rightarrow> nat \<Rightarrow> nat \<Rightarrow> nat \<Rightarrow> real result" where
  "get_lr args it warmup_iters max_iters =
     (if it < warmup_iters then Inr (learning_rate args * real it / real warmup_iters)
      else if it > max_iters then Inr (min_lr args)
      else if max_iters = warmup_iters then Inl ZeroDivisionError
      else let decay_ratio = (real it - real warmup_iters) / (real max_iters - real warmup_iters)
           in if \<not> (0 \<le> decay_ratio \<and> decay_ratio \<le> 1) then Inl AssertionError
              else let coeff = 1 / 2 * (1 + cos (pi * decay_ratio))
                   in Inr (min_lr args + coeff * (learning_rate args - min_lr args)))"

section \<open>The training loop\<close>

record ('m, 'o, 'g, 'b, 'v) learner =
  loss_gradient :: "'m \<Rightarrow> 'b \<Rightarrow> 'g"
  scale_gradient :: "nat \<Rightarrow> 'g \<Rightarrow> 'g"
  zero_grad :: 'g
  add_grad :: "'g \<Rightarrow> 'g \<Rightarrow> 'g"
  set_lr :: "real \<Rightarrow> 'o \<Rightarrow> 'o"
  clip_and_step :: "'m \<Rightarrow> 'o \<Rightarrow> 'g \<Rightarrow> 'm \<times> 'o"
  val_loss :: "'m \<Rightarrow> 'v \<Rightarrow> nat \<Rightarrow> real"

text \<open>The dictionary \<open>state\<close> that checkpoints hold.\<close>

record ('m, 'o) train_state =
  ts_model :: 'm
  ts_optimizer :: 'o
  ts_iter_num :: nat
  ts_step_count :: nat

datatype ('m, 'o) checkpoint =
    Latest "('m, 'o) train_state"
  | Final 'm nat nat

text \<open>
  \<open>validate\<close>: a mean of no rows is \<open>nan\<close>, here \<open>None\<close>.  The number of evaluations may be Python's
  \<open>None\<close>, which \<open>torch.zeros\<close> refuses.
\<close>

definition validate_row :: "('m, 'o, 'g, 'b, 'v) learner \<Rightarrow> train_args \<Rightarrow> 'm \<Rightarrow> 'v \<Rightarrow> real list result" where
  "validate_row L args m val_data =
     rfold (\<lambda>row (i, length). if i < num_extrapol args then Inr (row[i := val_loss L m val_data length])
                            else Inl IndexError)
       (replicate (num_extrapol args) 0) [(0, 2048), (1, 4096)]"

definition validate :: "('m, 'o, 'g, 'b, 'v) learner \<Rightarrow> train_args \<Rightarrow> 'm \<Rightarrow> 'v list \<Rightarrow> nat option \<Rightarrow> real option list result" where
  "validate L args m val_dataloader iters =
     (case iters of
        None \<Rightarrow> Inl TypeError
      | Some n \<Rightarrow> rbind (rmap (validate_row L args m) (take n val_dataloader)) (\<lambda>rows.
          Inr (map (\<lambda>i. if n = 0 then None else Some ((\<Sum>row\<leftarrow>rows. row ! i) / real n)) [0..<num_extrapol args])))"

record ('m, 'o, 'g) loop_state =
  ls_state :: "('m, 'o) train_state"
  ls_grad :: 'g
  ls_resume :: bool
  ls_curr_iter :: int
  ls_saved :: "('m, 'o) checkpoint list"
  ls_val :: "real option list list"

record loop_bounds =
  lb_warmup :: nat
  lb_max :: nat
  lb_initial :: nat

text \<open>
  The body of the loop, from the learning rate to the validation; \<open>is_accumulating\<close> is read before
  the counter advances.  The first part is the forward and backward pass and, unless gradients are
  accumulating, the optimizer step.
\<close>

definition micro_step ::
  "('m, 'o, 'g, 'b, 'v) learner \<Rightarrow> train_args \<Rightarrow> real \<Rightarrow> 'b \<Rightarrow> ('m, 'o) train_state \<Rightarrow> 'g \<Rightarrow>
   ('m, 'o) train_state \<times> 'g \<times> bool" where
  "micro_step L args lr data st grad =
     (let steps = gradient_accumulation_steps args;
          opt = set_lr L lr (ts_optimizer st);
          is_accumulating = ((ts_iter_num st + 1) mod steps \<noteq> 0);
          grad = add_grad L grad (scale_gradient L steps (loss_gradient L (ts_model st) data))
      in if is_accumulating
         then (st\<lparr>ts_optimizer := opt, ts_iter_num := ts_iter_num st + 1\<rparr>, grad, True)
         else let (m, opt) = clip_and_step L (ts_model st) opt grad
              in (st\<lparr>ts_model := m, ts_optimizer := opt, ts_iter_num := ts_iter_num st + 1,
                     ts_step_count := ts_step_count st + 1\<rparr>, zero_grad L, False))"

definition maybe_validate ::
  "('m, 'o, 'g, 'b, 'v) learner \<Rightarrow> train_args \<Rightarrow> 'v list option \<Rightarrow> ('m, 'o) train_state \<Rightarrow> real option list list result" where
  "maybe_validate L args val st =
     (case val of
        None \<Rightarrow> Inr []
      | Some loader \<Rightarrow>
          if eval_step_interval args = 0 then Inl ZeroDivisionError
          else if ts_step_count st mod eval_step_interval args = 0
          then rbind (validate L args (ts_model st) loader (Some (eval_iters args))) (\<lambda>v. Inr [v])
          else Inr [])"

definition train_batch ::
  "('m, 'o, 'g, 'b, 'v) learner \<Rightarrow> train_args \<Rightarrow> 'v list option \<Rightarrow> loop_bounds \<Rightarrow> 'b \<Rightarrow>
   ('m, 'o, 'g) loop_state \<Rightarrow> ('m, 'o, 'g) loop_state result" where
  "train_batch L args val bounds data ls =
     rbind (get_lr args (ts_iter_num (ls_state ls)) (lb_warmup bounds) (lb_max bounds)) (\<lambda>lr.
       if gradient_accumulation_steps args = 0 then Inl ZeroDivisionError
       else let (st, grad, is_accumulating) = micro_step L args lr data (ls_state ls) (ls_grad ls);
                ls = ls\<lparr>ls_state := st, ls_grad := grad\<rparr>
            in if is_accumulating then Inr ls
               else if save_step_interval args = 0 then Inl ZeroDivisionError
               else let saved = (if ts_step_count st mod save_step_interval args = 0 then [Latest st] else [])
                    in rbind (maybe_validate L args val st) (\<lambda>vs.
                         Inr (ls\<lparr>ls_saved := ls_saved ls @ saved, ls_val := ls_val ls @ vs\<rparr>)))"

text \<open>The batches of a resumed run are skipped up to the saved counter.\<close>

fun train_loop ::
  "('m, 'o, 'g, 'b, 'v) learner \<Rightarrow> train_args \<Rightarrow> 'v list option \<Rightarrow> loop_bounds \<Rightarrow> 'b list \<Rightarrow>
   ('m, 'o, 'g) loop_state \<Rightarrow> ('m, 'o, 'g) loop_state result" where
  "train_loop L args val bounds [] ls = Inr ls"
| "train_loop L args val bounds (data # rest) ls =
     (if ls_resume ls \<and> ls_curr_iter ls < int (lb_initial bounds)
      then train_loop L args val bounds rest (ls\<lparr>ls_curr_iter := ls_curr_iter ls + 1\<rparr>)
      else let ls = (if ls_resume ls then ls\<lparr>ls_resume := False, ls_curr_iter := -1\<rparr> else ls)
           in if lb_max bounds \<le> ts_iter_num (ls_state ls) then Inr ls
              else rbind (train_batch L args val bounds data ls) (train_loop L args val bounds rest))"

definition loop_bounds_of :: "train_args \<Rightarrow> nat \<Rightarrow> nat \<Rightarrow> ('m, 'o) train_state \<Rightarrow> loop_bounds result" where
  "loop_bounds_of args world_size block_size st =
     (let tokens_per_iter = micro_batch_size args * block_size
      in if world_size = 0 \<or> tokens_per_iter = 0 then Inl ZeroDivisionError
         else Inr \<lparr>lb_warmup = warmup_tokens args div world_size div tokens_per_iter,
                   lb_max = max_tokens args div world_size div tokens_per_iter,
                   lb_initial = ts_iter_num st\<rparr>)"

definition train ::
  "('m, 'o, 'g, 'b, 'v) learner \<Rightarrow> train_args \<Rightarrow> nat \<Rightarrow> nat \<Rightarrow> 'v list option \<Rightarrow> 'b list \<Rightarrow>
   ('m, 'o) train_state \<Rightarrow> bool \<Rightarrow> ('m, 'o, 'g) loop_state result" where
  "train L args world_size block_size val batches st resume =
     rbind (loop_bounds_of args world_size block_size st) (\<lambda>bounds.
     rbind (if eval_before_training args
            then (case val of
                    None \<Rightarrow> Inl TypeError
                  | Some loader \<Rightarrow> rbind (validate L args (ts_model st) loader None) (\<lambda>_. Inr ()))
            else Inr ()) (\<lambda>_.
     rbind (train_loop L args val bounds batches
              \<lparr>ls_state = st, ls_grad = zero_grad L, ls_resume = resume, ls_curr_iter = 0,
               ls_saved = [], ls_val = []\<rparr>) (\<lambda>ls.
       Inr (ls\<lparr>ls_saved := ls_saved ls @
              [Final (ts_model (ls_state ls)) (ts_iter_num (ls_state ls)) (ts_step_count (ls_state ls))]\<rparr>))))"

text \<open>What \<open>main\<close> does with an existing output directory: load the latest checkpoint, or start over.\<close>

definition restore ::
  "bool \<Rightarrow> bool \<Rightarrow> ('m, 'o) train_state option \<Rightarrow> ('m, 'o) train_state \<Rightarrow> ('m, 'o) train_state \<times> bool" where
  "restore out_dir_exists resume_flag latest st =
     (let resume = (if out_dir_exists then True else resume_flag)
      in if resume then (case latest of Some st' \<Rightarrow> (st', True) | None \<Rightarrow> (st, False)) else (st, False))"

section \<open>The command line\<close>

text \<open>\<open>pattern in name\<close> for Python strings.\<close>

fun contains :: "string \<Rightarrow> string \<Rightarrow> bool" where
  "contains pattern [] = (pattern = [])"
| "contains pattern (c # cs) = (take (length pattern) (c # cs) = pattern \<or> contains pattern cs)"

definition token_budget :: "string \<Rightarrow> nat result" where
  "token_budget name =
     (if contains ''20B'' name then Inr (100000000000 div 5)
      else if contains ''100B'' name then Inr 100000000000
      else if contains ''50B'' name then Inr (100000000000 div 2)
      else if contains ''30B'' name then Inr 30000000000
      else if contains ''15B'' name then Inr (30000000000 div 2)
      else Inl ValueError)"

text \<open>The batch size a name stands for and the micro batch size that goes with it.\<close>

definition named_batch :: "string \<Rightarrow> (nat \<times> nat) option" where
  "named_batch name =
     (if contains ''512x4k'' name then Some (512, 8)
      else if contains ''1024x4k'' name then Some (1024, 8)
      else if contains ''256x8k'' name then Some (256, 8)
      else if contains ''128x16k'' name then Some (128, 4)
      else if contains ''64x32k'' name then Some (64, 2)
      else if contains ''1024x2k'' name then Some (1024, 32)
      else None)"

definition local_micro_batch :: "string \<Rightarrow> nat" where
  "local_micro_batch name =
     max 1 (if contains ''1.3B'' name then 4
            else (case named_batch name of Some (g, m) \<Rightarrow> m | None \<Rightarrow> 8))"

record run_setup =
  rs_max_tokens :: nat
  rs_warmup_tokens :: nat
  rs_batch_size :: nat
  rs_gradient_accumulation_steps :: nat
  rs_micro_batch_size :: nat
  rs_min_lr :: real
  rs_log_iter_interval :: nat

text \<open>
  \<open>requested\<close> is the option \<open>--micro_batch_size\<close>, 8 when it is not given; \<open>int(max_tokens * 0.01)\<close> is
  exact for the five budgets.
\<close>

definition run_setup_of ::
  "string \<Rightarrow> string \<Rightarrow> nat \<Rightarrow> nat \<Rightarrow> real \<Rightarrow> nat \<Rightarrow> nat \<Rightarrow> run_setup result" where
  "run_setup_of train_config exp_name requested log_step_interval lr devices nodes =
     (let name = train_config @ ''_'' @ exp_name
      in rbind (token_budget name) (\<lambda>max_tokens.
           case named_batch name of
             None \<Rightarrow> Inl NameError
           | Some (global, _) \<Rightarrow>
               if nodes = 0 \<or> devices = 0 then Inl ZeroDivisionError
               else let micro = local_micro_batch name;
                        batch_size = global div nodes div devices;
                        steps = batch_size div micro
                    in if steps = 0 then Inl AssertionError
                       else Inr \<lparr>rs_max_tokens = max_tokens, rs_warmup_tokens = max_tokens div 100,
                                 rs_batch_size = batch_size, rs_gradient_accumulation_steps = steps,
                                 rs_micro_batch_size = (if requested = 0 then micro else requested),
                                 rs_min_lr = lr / 10, rs_log_iter_interval = log_step_interval * steps\<rparr>))"

section \<open>The data loaders\<close>

text \<open>
  \<open>glob\<close> is the list of the files of a directory that match, \<open>shuffle\<close> what \<open>random.seed(seed)\<close>
  and \<open>random.shuffle\<close> make of a list; a loader is given by its data set and batch size.
\<close>

record corpus =
  glob :: "string \<Rightarrow> string \<Rightarrow> string list"
  sorted_names :: "string list \<Rightarrow> string list"
  shuffle_names :: "int \<Rightarrow> string list \<Rightarrow> string list"

definition create_dataloader ::
  "corpus \<Rightarrow> (string \<times> real) list \<Rightarrow> nat \<Rightarrow> nat \<Rightarrow> nat \<Rightarrow> nat \<Rightarrow> nat \<Rightarrow> string \<Rightarrow> bool \<Rightarrow> int \<Rightarrow> bool \<Rightarrow>
   (combined_dataset \<times> nat) result" where
  "create_dataloader C data_config nodes world_size rank batch_size block_size data_dir shuffle seed is_train =
     (let n_chunks = (if is_train then 8 else (8 + nodes - 1) div nodes);
          datasets = map (\<lambda>(prefix, _).
            \<lparr>ds_filenames = shuffle_names C seed (sorted_names C (glob C data_dir prefix)),
             ds_n_chunks = n_chunks, ds_block_size = block_size, ds_seed = seed + int rank,
             ds_shuffle = shuffle, ds_wrap = False, ds_num_processes = world_size, ds_process_rank = rank\<rparr>) data_config;
          sum_weights = sum_list (map snd data_config)
      in if nodes = 0 \<and> \<not> is_train \<and> data_config \<noteq> [] then Inl ZeroDivisionError
         else if datasets = [] then Inl RuntimeError
         else if sum_weights = 0 then Inl ZeroDivisionError
         else rbind (CombinedDataset_init datasets seed (Some (map (\<lambda>(_, w). w / sum_weights) data_config)))
                (\<lambda>combined. Inr (combined, batch_size)))"

definition create_dataloaders ::
  "corpus \<Rightarrow> (string \<times> real) list \<Rightarrow> (string \<times> real) list \<Rightarrow> nat \<Rightarrow> nat \<Rightarrow> nat \<Rightarrow> nat \<Rightarrow> nat \<Rightarrow> string \<Rightarrow> string \<Rightarrow> int \<Rightarrow>
   ((combined_dataset \<times> nat) \<times> (combined_dataset \<times> nat) option) result" where
  "create_dataloaders C train_config val_config nodes world_size rank batch_size block_size train_dir val_dir seed =
     rbind (create_dataloader C train_config nodes world_size rank batch_size (block_size + 1) train_dir True seed True)
       (\<lambda>train_loader.
         if val_dir = [] then Inr (train_loader, None)
         else rbind (create_dataloader C val_config nodes world_size rank ((batch_size + 1) div 2) (16384 + 1) val_dir False seed False)
                (\<lambda>val_loader. Inr (train_loader, Some val_loader)))"

section \<open>The loop only adds to its records\<close>

definition start_loop :: "('m, 'o) train_state \<Rightarrow> 'g \<Rightarrow> ('m, 'o, 'g) loop_state" where
  "start_loop st g = \<lparr>ls_state = st, ls_grad = g, ls_resume = False, ls_curr_iter = 0, ls_saved = [], ls_val = []\<rparr>"

definition onto :: "('m, 'o, 'g) loop_state \<Rightarrow> ('m, 'o, 'g) loop_state \<Rightarrow> ('m, 'o, 'g) loop_state" where
  "onto ls l = ls\<lparr>ls_state := ls_state l, ls_grad := ls_grad l, ls_saved := ls_saved ls @ ls_saved l,
                 ls_val := ls_val ls @ ls_val l\<rparr>"

lemma onto_simps [simp]:
  "ls_state (onto ls l) = ls_state l" "ls_grad (onto ls l) = ls_grad l" "ls_resume (onto ls l) = ls_resume ls"
  "ls_saved (onto ls l) = ls_saved ls @ ls_saved l" "ls_val (onto ls l) = ls_val ls @ ls_val l"
  "ls_curr_iter (onto ls l) = ls_curr_iter ls"
  by (simp_all add: onto_def)

lemma start_loop_simps [simp]:
  "ls_state (start_loop st g) = st" "ls_grad (start_loop st g) = g" "\<not> ls_resume (start_loop st g)"
  "ls_saved (start_loop st g) = []" "ls_val (start_loop st g) = []" "ls_curr_iter (start_loop st g) = 0"
  by (simp_all add: start_loop_def)

lemma onto_start [simp]: "onto ls (start_loop (ls_state ls) (ls_grad ls)) = ls"
  by (simp add: onto_def)

lemma onto_onto [simp]: "onto (onto ls a) b = onto ls (onto a b)"
  by (simp add: onto_def)

lemma train_batch_onto:
  "train_batch L a val b data ls =
     rbind (train_batch L a val b data (start_loop (ls_state ls) (ls_grad ls))) (\<lambda>l. Inr (onto ls l))"
proof -
  have "train_batch L a val b data ls = rbind (get_lr a (ts_iter_num (ls_state ls)) (lb_warmup b) (lb_max b)) (\<lambda>lr.
      rbind (train_batch L a val b data (start_loop (ls_state ls) (ls_grad ls))) (\<lambda>l. Inr (onto ls l)))"
  proof (cases "get_lr a (ts_iter_num (ls_state ls)) (lb_warmup b) (lb_max b)")
    case (Inr lr)
    obtain st grad acc where m: "micro_step L a lr data (ls_state ls) (ls_grad ls) = (st, grad, acc)"
      by (cases "micro_step L a lr data (ls_state ls) (ls_grad ls)") auto
    show ?thesis
      by (cases "maybe_validate L a val st") (simp_all add: train_batch_def Inr m start_loop_def onto_def Let_def)
  qed (simp add: train_batch_def)
  then show ?thesis
    by (cases "get_lr a (ts_iter_num (ls_state ls)) (lb_warmup b) (lb_max b)") (simp_all add: train_batch_def)
qed

lemma train_batch_bounds:
  "lb_warmup b' = lb_warmup b \<Longrightarrow> lb_max b' = lb_max b \<Longrightarrow> train_batch L a val b' data ls = train_batch L a val b data ls"
  by (simp add: train_batch_def)

text \<open>What one batch does to the counters, and when it saves.\<close>

lemma micro_step_counters:
  "micro_step L a lr data st g = (st', g', acc) \<Longrightarrow>
     ts_iter_num st' = ts_iter_num st + 1 \<and> acc = ((ts_iter_num st + 1) mod gradient_accumulation_steps a \<noteq> 0) \<and>
     ts_step_count st' = ts_step_count st + (if acc then 0 else 1) \<and> (\<not> acc \<longrightarrow> g' = zero_grad L)"
  by (auto simp: micro_step_def Let_def split: if_splits prod.splits)

lemma train_batch_result:
  assumes "train_batch L a val b data (start_loop st g) = Inr l"
  shows "ts_iter_num (ls_state l) = ts_iter_num st + 1 \<and>
    (ls_saved l = [] \<or> ls_saved l = [Latest (ls_state l)] \<and> ls_grad l = zero_grad L) \<and> \<not> ls_resume l"
proof -
  obtain lr where lr: "get_lr a (ts_iter_num st) (lb_warmup b) (lb_max b) = Inr lr"
    using assms by (auto simp: train_batch_def rbind_eq_Inr)
  obtain st' g' acc where m: "micro_step L a lr data st g = (st', g', acc)"
    by (cases "micro_step L a lr data st g") auto
  from assms show ?thesis
    using micro_step_counters [OF m]
    by (auto simp: train_batch_def lr m Let_def start_loop_def rbind_eq_Inr split: if_splits)
qed

lemma train_loop_onto:
  "\<not> ls_resume ls \<Longrightarrow> train_loop L a val b bs ls =
     rbind (train_loop L a val b bs (start_loop (ls_state ls) (ls_grad ls))) (\<lambda>l. Inr (onto ls l))"
proof (induction bs arbitrary: ls)
  case Nil
  then show ?case by simp
next
  case (Cons data bs)
  let ?s = "start_loop (ls_state ls) (ls_grad ls)"
  show ?case
  proof (cases "lb_max b \<le> ts_iter_num (ls_state ls)")
    case True
    then show ?thesis using Cons.prems by simp
  next
    case False
    show ?thesis
    proof (cases "train_batch L a val b data ?s")
      case (Inl e)
      then show ?thesis
        using False Cons.prems train_batch_onto [of L a val b data ls] by simp
    next
      case (Inr l)
      have t: "train_batch L a val b data ls = Inr (onto ls l)" "\<not> ls_resume l"
        using Inr train_batch_onto [of L a val b data ls] train_batch_result [OF Inr] by simp_all
      have "train_loop L a val b bs (onto ls l)
          = rbind (train_loop L a val b bs (start_loop (ls_state l) (ls_grad l))) (\<lambda>k. Inr (onto ls (onto l k)))"
        using Cons.IH [of "onto ls l"] Cons.prems by simp
      moreover have "train_loop L a val b bs l
          = rbind (train_loop L a val b bs (start_loop (ls_state l) (ls_grad l))) (\<lambda>k. Inr (onto l k))"
        by (rule Cons.IH [OF t(2)])
      ultimately show ?thesis
        using False Cons.prems t Inr by (simp add: rbind_def split: sum.splits)
    qed
  qed
qed

lemma train_loop_bounds:
  assumes "lb_warmup b' = lb_warmup b" "lb_max b' = lb_max b"
  shows "\<not> ls_resume ls \<Longrightarrow> train_loop L a val b' bs ls = train_loop L a val b bs ls"
proof (induction bs arbitrary: ls)
  case Nil
  then show ?case by simp
next
  case (Cons data bs)
  have "\<not> ls_resume l" if "train_batch L a val b data ls = Inr l" for l
    using that train_batch_onto [of L a val b data ls] Cons.prems by (auto simp: rbind_eq_Inr)
  then show ?case
    using Cons assms(2) by (auto simp: train_batch_bounds [OF assms] rbind_def split: sum.splits)
qed

text \<open>A run can be cut at any checkpoint it saves.\<close>

lemma train_loop_cut:
  assumes "train_loop L a val b bs (start_loop st0 g0) = Inr ls" "ls_saved ls = xs @ Latest st # ys"
  shows "\<exists>k l. k \<le> length bs \<and> ts_iter_num st = ts_iter_num st0 + k \<and>
    train_loop L a val b (drop k bs) (start_loop st (zero_grad L)) = Inr l \<and>
    ls_state l = ls_state ls \<and> ls_grad l = ls_grad ls \<and> ls_saved l = ys"
  using assms
proof (induction bs arbitrary: st0 g0 ls xs)
  case Nil
  then have "ls_saved ls = []" by auto
  with Nil.prems show ?case by simp
next
  case (Cons data bs)
  show ?case
  proof (cases "lb_max b \<le> ts_iter_num st0")
    case True
    then have "ls_saved ls = []" using Cons.prems(1) by auto
    with Cons.prems(2) show ?thesis by simp
  next
    case False
    then obtain l where l: "train_batch L a val b data (start_loop st0 g0) = Inr l" "train_loop L a val b bs l = Inr ls"
      using Cons.prems(1) by (auto simp: rbind_eq_Inr)
    note r = train_batch_result [OF l(1)]
    obtain k where k: "train_loop L a val b bs (start_loop (ls_state l) (ls_grad l)) = Inr k" "ls = onto l k"
      using l(2) train_loop_onto [of l L a val b bs] r by (auto simp: rbind_eq_Inr)
    show ?thesis
    proof (cases "ls_saved l = [] \<or> xs \<noteq> []")
      case True
      have "\<exists>xs'. ls_saved k = xs' @ Latest st # ys"
        using Cons.prems(2) k(2) r True by (cases xs) auto
      then obtain xs' where "ls_saved k = xs' @ Latest st # ys" ..
      from Cons.IH [OF k(1) this] obtain j l' where
        "j \<le> length bs" "ts_iter_num st = ts_iter_num (ls_state l) + j"
        "train_loop L a val b (drop j bs) (start_loop st (zero_grad L)) = Inr l'"
        "ls_state l' = ls_state k" "ls_grad l' = ls_grad k" "ls_saved l' = ys" by blast
      then show ?thesis
        using r k(2) by (intro exI [of _ "Suc j"] exI [of _ l']) simp
    next
      case False
      then have "st = ls_state l" "ls_grad l = zero_grad L" "ls_saved k = ys"
        using r Cons.prems(2) k(2) by auto
      then show ?thesis
        using r k by (intro exI [of _ 1] exI [of _ k]) simp
    qed
  qed
qed

text \<open>The skipping of a resumed run.\<close>

lemma train_loop_skip:
  assumes "lb_initial b = n" "ls_resume ls" "ls_curr_iter ls + int j = int n" "0 \<le> ls_curr_iter ls" "j \<le> length bs"
  shows "train_loop L a val b bs ls =
    (if j = length bs then Inr (ls\<lparr>ls_curr_iter := int n\<rparr>)
     else train_loop L a val b (drop j bs) (ls\<lparr>ls_resume := False, ls_curr_iter := -1\<rparr>))"
  using assms
proof (induction j arbitrary: bs ls)
  case 0
  then show ?case by (cases bs) (simp_all add: Let_def)
next
  case (Suc j)
  then obtain data rest where bs: "bs = data # rest" by (cases bs) auto
  show ?case
    using Suc.IH [of "ls\<lparr>ls_curr_iter := ls_curr_iter ls + 1\<rparr>" rest] Suc.prems by (simp add: bs)
qed

section \<open>Properties\<close>

text \<open>C17: Resuming is transparent.  If a run from scratch saved a checkpoint, then starting again from
  that checkpoint over the same batches skips what was consumed and ends in the same model,
  optimizer state and counters, and saves exactly the checkpoints that the first run saved
  afterwards.\<close>

theorem resume_is_transparent:
  assumes run: "train L args world_size block_size val batches st0 False = Inr ls" and fresh: "ts_iter_num st0 = 0"
    and saved: "ls_saved ls = xs @ Latest st # ys"
  shows "\<exists>ls'. train L args world_size block_size val batches st True = Inr ls' \<and>
    ls_state ls' = ls_state ls \<and> ls_saved ls' = ys"
proof -
  have ev: "\<not> eval_before_training args"
    using run by (auto simp: train_def rbind_eq_Inr validate_def split: if_splits option.splits)
  obtain b l f where b: "loop_bounds_of args world_size block_size st0 = Inr b"
    and loop: "train_loop L args val b batches (start_loop st0 (zero_grad L)) = Inr l"
    and ls: "ls_state ls = ls_state l" "ls_saved ls = ls_saved l @ [f]"
      "f = Final (ts_model (ls_state l)) (ts_iter_num (ls_state l)) (ts_step_count (ls_state l))"
    using run ev by (auto simp: train_def rbind_eq_Inr start_loop_def)
  have split: "ls_saved l @ [f] = xs @ Latest st # ys" using saved ls(2) by simp
  then obtain zs where zs: "ys = zs @ [f]" "ls_saved l = xs @ Latest st # zs"
    by (cases ys rule: rev_cases) (auto simp: ls(3))
  from train_loop_cut [OF loop zs(2)] obtain k l2 where
    k: "k \<le> length batches" "ts_iter_num st = k"
      "train_loop L args val b (drop k batches) (start_loop st (zero_grad L)) = Inr l2"
      "ls_state l2 = ls_state l" "ls_saved l2 = zs"
    using fresh by auto
  define b' where "b' = b\<lparr>lb_initial := k\<rparr>"
  have b': "loop_bounds_of args world_size block_size st = Inr b'" "lb_warmup b' = lb_warmup b" "lb_max b' = lb_max b"
    using b k(2) by (auto simp: loop_bounds_of_def Let_def b'_def split: if_splits)
  let ?r = "\<lparr>ls_state = st, ls_grad = zero_grad L, ls_resume = True, ls_curr_iter = 0, ls_saved = [], ls_val = []\<rparr>"
  have "\<exists>l3. train_loop L args val b' batches ?r = Inr l3 \<and> ls_state l3 = ls_state l \<and> ls_saved l3 = zs"
  proof (cases "k = length batches")
    case True
    have "l2 = start_loop st (zero_grad L)" using k(3) True by simp
    then show ?thesis
      using train_loop_skip [of b' k ?r k batches L args val] True k by (simp add: b'_def)
  next
    case False
    let ?n = "?r\<lparr>ls_resume := False, ls_curr_iter := -1\<rparr>"
    have "train_loop L args val b' batches ?r = train_loop L args val b' (drop k batches) ?n"
      using train_loop_skip [of b' k ?r k batches L args val] False k(1) by (simp add: b'_def)
    also have "\<dots> = train_loop L args val b (drop k batches) ?n"
      by (rule train_loop_bounds [OF b'(2,3)]) simp
    also have "\<dots> = Inr (onto ?n l2)"
      using train_loop_onto [of ?n L args val b "drop k batches"] k(3) by simp
    finally show ?thesis using k(4,5) by simp
  qed
  then obtain l3 where l3: "train_loop L args val b' batches ?r = Inr l3" "ls_state l3 = ls_state l" "ls_saved l3 = zs" by blast
  then show ?thesis
    using ev ls(1) zs(1) by (auto simp: train_def b'(1) ls(3))
qed

text \<open>A learner over the integers: the gradient is the batch, the optimizer counts its steps.\<close>

definition toy_learner :: "(int, nat, int, int, unit) learner" where
  "toy_learner = \<lparr>loss_gradient = (\<lambda>m b. m - b), scale_gradient = (\<lambda>n g. g), zero_grad = 0, add_grad = (+),
     set_lr = (\<lambda>lr n. n), clip_and_step = (\<lambda>m n g. (m - g, Suc n)), val_loss = (\<lambda>m v n. 0)\<rparr>"

definition toy_args :: train_args where
  "toy_args = \<lparr>learning_rate = 1, min_lr = 0, max_tokens = 4, warmup_tokens = 4, micro_batch_size = 1,
     gradient_accumulation_steps = 2, save_step_interval = 1, eval_step_interval = 1, eval_iters = 1,
     num_extrapol = 2, eval_before_training = False\<rparr>"

definition toy_state :: "int \<Rightarrow> nat \<Rightarrow> nat \<Rightarrow> nat \<Rightarrow> (int, nat) train_state" where
  "toy_state m n i s = \<lparr>ts_model = m, ts_optimizer = n, ts_iter_num = i, ts_step_count = s\<rparr>"

lemma toy_run:
  "\<exists>ls. train toy_learner toy_args 1 1 None [1, 2, 3, 4, 5] (toy_state 0 0 0 0) False = Inr ls \<and>
     ls_saved ls = [] @ Latest (toy_state 3 1 2 1) # [Latest (toy_state 4 2 4 2), Final 4 4 2]"
  by (simp add: train_def loop_bounds_of_def toy_args_def toy_state_def train_batch_def get_lr_def micro_step_def
      toy_learner_def maybe_validate_def Let_def)

theorem resume_is_transparent_witness:
  "\<exists>ls ls'. train toy_learner toy_args 1 1 None [1, 2, 3, 4, 5] (toy_state 0 0 0 0) False = Inr ls \<and>
     train toy_learner toy_args 1 1 None [1, 2, 3, 4, 5] (toy_state 3 1 2 1) True = Inr ls' \<and>
     ls_state ls' = ls_state ls \<and> ls_saved ls' = [Latest (toy_state 4 2 4 2), Final 4 4 2]"
proof -
  obtain ls where ls: "train toy_learner toy_args 1 1 None [1, 2, 3, 4, 5] (toy_state 0 0 0 0) False = Inr ls"
    "ls_saved ls = [] @ Latest (toy_state 3 1 2 1) # [Latest (toy_state 4 2 4 2), Final 4 4 2]"
    using toy_run by blast
  from resume_is_transparent [OF ls(1) _ ls(2)] ls(1) show ?thesis by (auto simp: toy_state_def)
qed

lemma cosine_half:
  assumes "0 \<le> r" "r \<le> 1"
  shows "0 \<le> 1 / 2 * (1 + cos (pi * r)) \<and> 1 / 2 * (1 + cos (pi * r)) \<le> (1 :: real)"
proof -
  have "0 \<le> 1 / 2 * (1 + c) \<and> 1 / 2 * (1 + c) \<le> 1" if "-1 \<le> c" "c \<le> 1" for c :: real
    using that by (simp add: field_simps)
  then show ?thesis using cos_ge_minus_one cos_le_one by blast
qed

lemma cosine_half_antimono:
  assumes "0 \<le> r" "r \<le> s" "s \<le> (1 :: real)"
  shows "1 / 2 * (1 + cos (pi * s)) \<le> 1 / 2 * (1 + cos (pi * r))"
proof -
  have "pi * s \<le> pi" using assms pi_ge_zero by (metis mult.right_neutral mult_left_mono)
  moreover have "pi * r \<le> pi * s" using assms by (simp add: mult_left_mono)
  moreover have "0 \<le> pi * r" using assms by simp
  ultimately have "cos (pi * s) \<le> cos (pi * r)" by (intro cos_monotone_0_pi_le)
  then show ?thesis by simp
qed

definition decay_position :: "nat \<Rightarrow> nat \<Rightarrow> nat \<Rightarrow> real" where
  "decay_position w n it = (real it - real w) / (real n - real w)"

lemma decay_position_bounds:
  "w \<le> it \<Longrightarrow> it \<le> n \<Longrightarrow> w < n \<Longrightarrow> 0 \<le> decay_position w n it \<and> decay_position w n it \<le> 1"
  by (simp add: decay_position_def)

lemma get_lr_decay:
  assumes "w \<le> it" "it \<le> n" "w < n"
  shows "get_lr args it w n = Inr (min_lr args + 1 / 2 * (1 + cos (pi * decay_position w n it)) * (learning_rate args - min_lr args))"
  using assms decay_position_bounds [OF assms] by (simp add: get_lr_def decay_position_def Let_def)

text \<open>C18: The shape of the schedule.  With the warmup shorter than the run and a minimum between zero and the
  configured rate, no iteration raises; the rate
  grows linearly from zero during the warmup, is the configured one right after it and the
  minimum from the last iteration on, stays between the two in between, and never grows again.\<close>

theorem learning_rate_shape:
  assumes w: "w < n" and lr: "0 \<le> min_lr args" "min_lr args \<le> learning_rate args"
  shows "\<exists>rate. (\<forall>it. get_lr args it w n = Inr (rate it)) \<and>
    (\<forall>it < w. rate it = learning_rate args * real it / real w) \<and>
    rate w = learning_rate args \<and> (\<forall>it \<ge> n. rate it = min_lr args) \<and>
    (\<forall>it. 0 \<le> rate it \<and> rate it \<le> learning_rate args) \<and>
    (\<forall>it \<ge> w. min_lr args \<le> rate it) \<and>
    (\<forall>it it'. w \<le> it \<longrightarrow> it \<le> it' \<longrightarrow> rate it' \<le> rate it)"
proof -
  let ?d = "learning_rate args - min_lr args"
  define rate where "rate it = (if it < w then learning_rate args * real it / real w
    else if it > n then min_lr args
    else min_lr args + 1 / 2 * (1 + cos (pi * decay_position w n it)) * ?d)" for it
  have get: "get_lr args it w n = Inr (rate it)" for it
    using get_lr_decay [of w it n args] w by (auto simp: rate_def get_lr_def)
  have mid: "min_lr args \<le> rate it \<and> rate it \<le> learning_rate args" if "w \<le> it" for it
  proof (cases "it > n")
    case True
    then show ?thesis using that lr by (simp add: rate_def)
  next
    case False
    let ?c = "1 / 2 * (1 + cos (pi * decay_position w n it))"
    have c: "0 \<le> ?c" "?c \<le> 1"
      using cosine_half decay_position_bounds [of w it n] False that w by auto
    have d: "0 \<le> ?d" using lr by simp
    have "0 \<le> ?c * ?d" by (rule mult_nonneg_nonneg [OF c(1) d])
    moreover have "?c * ?d \<le> 1 * ?d" by (rule mult_right_mono [OF c(2) d])
    moreover have "rate it = min_lr args + ?c * ?d" using False that by (simp add: rate_def)
    moreover have "a \<le> a + p \<and> a + p \<le> b" if "0 \<le> p" "p \<le> 1 * (b - a)" for a b p :: real
      using that by simp
    ultimately show ?thesis by metis
  qed
  have low: "0 \<le> rate it \<and> rate it \<le> learning_rate args" if "it < w" for it
  proof -
    have "learning_rate args * real it / real w \<le> learning_rate args"
      using that lr by (simp add: divide_le_eq mult_left_mono)
    then show ?thesis using that lr by (simp add: rate_def)
  qed
  have anti: "rate it' \<le> rate it" if "w \<le> it" "it \<le> it'" for it it'
  proof (cases "it' > n")
    case True
    then have "rate it' = min_lr args" using that by (simp add: rate_def)
    then show ?thesis using mid [OF that(1)] by simp
  next
    case False
    have p: "decay_position w n it \<le> decay_position w n it'"
      using that w by (simp add: decay_position_def divide_right_mono)
    have "1 / 2 * (1 + cos (pi * decay_position w n it')) \<le> 1 / 2 * (1 + cos (pi * decay_position w n it))"
      using decay_position_bounds [of w it n] decay_position_bounds [of w it' n] False that w p
      by (intro cosine_half_antimono) auto
    then have "1 / 2 * (1 + cos (pi * decay_position w n it')) * ?d \<le> 1 / 2 * (1 + cos (pi * decay_position w n it)) * ?d"
      using lr by (intro mult_right_mono) auto
    then show ?thesis using False that by (simp add: rate_def)
  qed
  have ends: "rate w = learning_rate args" "rate n = min_lr args"
    using w by (simp_all add: rate_def decay_position_def)
  have "rate it = min_lr args" if "n \<le> it" for it
    using that ends(2) w by (cases "it = n") (simp_all add: rate_def)
  moreover have "0 \<le> rate it \<and> rate it \<le> learning_rate args" for it
    using mid [of it] low [of it] lr by (cases "it < w") auto
  moreover have "\<forall>it < w. rate it = learning_rate args * real it / real w" by (simp add: rate_def)
  ultimately show ?thesis using get mid anti ends(1) by (intro exI [of _ rate]) blast
qed

theorem learning_rate_shape_witness:
  "\<exists>rate. (\<forall>it. get_lr toy_args it 2 10 = Inr (rate it)) \<and>
    (\<forall>it < 2. rate it = learning_rate toy_args * real it / real 2) \<and>
    rate 2 = learning_rate toy_args \<and> (\<forall>it \<ge> 10. rate it = min_lr toy_args) \<and>
    (\<forall>it. 0 \<le> rate it \<and> rate it \<le> learning_rate toy_args) \<and>
    (\<forall>it \<ge> 2. min_lr toy_args \<le> rate it) \<and>
    (\<forall>it it'. 2 \<le> it \<longrightarrow> it \<le> it' \<longrightarrow> rate it' \<le> rate it)"
  by (rule learning_rate_shape) (simp_all add: toy_args_def)

text \<open>C19: The samples that go into an optimizer step.  When the product of the built-in micro batch size, the devices of a node and
  the nodes divides the batch size that the name of the run sets, the micro batches of a step on all devices of all nodes hold that
  batch size times the ratio of the requested micro batch size to the built-in one: the
  accumulation steps are computed from the built-in size, and the run uses the requested one.
  The two agree only if the option is 0 or equals the built-in size.\<close>

theorem step_samples_scale_with_request:
  assumes s: "run_setup_of train_config exp_name requested log_interval lr devices nodes = Inr s"
    and named: "named_batch (train_config @ ''_'' @ exp_name) = Some (global, m)"
    and dvd: "local_micro_batch (train_config @ ''_'' @ exp_name) * devices * nodes dvd global"
  shows "rs_micro_batch_size s * rs_gradient_accumulation_steps s * devices * nodes * local_micro_batch (train_config @ ''_'' @ exp_name)
    = (if requested = 0 then local_micro_batch (train_config @ ''_'' @ exp_name) else requested) * global"
proof -
  let ?micro = "local_micro_batch (train_config @ ''_'' @ exp_name)"
  obtain k where k: "global = ?micro * devices * nodes * k" using dvd by (elim dvdE)
  have z: "0 < nodes" "0 < devices" using s named by (auto simp: run_setup_of_def rbind_eq_Inr Let_def split: if_splits)
  have micro: "0 < ?micro" by (simp add: local_micro_batch_def)
  have "global div nodes = ?micro * devices * k"
    using z by (simp add: k mult.commute [of _ nodes] mult.assoc mult.left_commute [of _ nodes])
  then have "global div nodes div devices = ?micro * k"
    using z by (simp add: mult.commute [of _ devices] mult.assoc mult.left_commute [of _ devices])
  then have "global div nodes div devices div ?micro = k" using micro by simp
  then have "rs_gradient_accumulation_steps s = k" "rs_micro_batch_size s = (if requested = 0 then ?micro else requested)"
    using s named by (auto simp: run_setup_of_def rbind_eq_Inr Let_def split: if_splits)
  then show ?thesis by (simp add: k algebra_simps)
qed

text \<open>With the default option, a step of the 1024x2k configuration sees 256 samples.\<close>

lemma default_request_of_1024x2k:
  "named_batch (''1024x2k_20B'' @ ''_'' @ ''x'') = Some (1024, 32)" "local_micro_batch (''1024x2k_20B'' @ ''_'' @ ''x'') = 32"
  by code_simp+

theorem step_samples_scale_with_request_witness:
  "\<exists>s. run_setup_of ''1024x2k_20B'' ''x'' 8 10 1 8 1 = Inr s \<and>
     rs_micro_batch_size s * rs_gradient_accumulation_steps s * 8 * 1 * 32 = 8 * 1024"
proof -
  have b: "token_budget (''1024x2k_20B'' @ ''_'' @ ''x'') = Inr 20000000000" by (simp add: token_budget_def)
  obtain s where s: "run_setup_of ''1024x2k_20B'' ''x'' 8 10 1 8 1 = Inr s"
    unfolding run_setup_of_def Let_def b default_request_of_1024x2k by simp
  show ?thesis
    using s step_samples_scale_with_request [OF s default_request_of_1024x2k(1)]
    unfolding default_request_of_1024x2k by simp
qed

text \<open>Validation before training always raises: it passes \<open>None\<close> for the number of evaluations.\<close>

lemma eval_before_training_raises:
  "eval_before_training args \<Longrightarrow> loop_bounds_of args world_size block_size st = Inr b \<Longrightarrow>
    train L args world_size block_size val batches st resume = Inl TypeError"
  by (cases val) (simp_all add: train_def validate_def)

end
