(* ===== verification/CrossEntropy.thy ===== *)
theory CrossEntropy
  imports Complex_Main Prelude
begin

text \<open>
  The losses: \<open>lit_gpt/fused_cross_entropy.py\<close>, which trains, with its tensor-parallel form where every process
  holds a part of the vocabulary, and \<open>chunked_cross_entropy\<close> of \<open>lit_gpt/utils.py\<close>, which validates.

  A batch of logits is a function of the sample and the class, over the reals.  The extension
  \<open>xentropy_cuda_lib\<close> is a parameter; \<open>xent_forward_spec\<close> and \<open>xent_backward_spec\<close> say what the comments
  of the caller rely on.  A process group is modelled by all of its ranks at once: \<open>all_gather\<close>
  and \<open>all_reduce\<close> are functions of what every rank contributes.  \<open>None\<close> is a quotient by zero,
  PyTorch's \<open>nan\<close>.
\<close>

section \<open>The fused loss\<close>

record xent_lib =
  xe_forward :: "nat \<Rightarrow> nat \<Rightarrow> (nat \<Rightarrow> nat \<Rightarrow> real) \<Rightarrow> (nat \<Rightarrow> int) \<Rightarrow> real \<Rightarrow> int \<Rightarrow> (nat \<Rightarrow> real) \<times> (nat \<Rightarrow> real)"
  xe_backward :: "nat \<Rightarrow> nat \<Rightarrow> (nat \<Rightarrow> real) \<Rightarrow> (nat \<Rightarrow> nat \<Rightarrow> real) \<Rightarrow> (nat \<Rightarrow> real) \<Rightarrow> (nat \<Rightarrow> int) \<Rightarrow> real \<Rightarrow> int \<Rightarrow>
    (nat \<Rightarrow> nat \<Rightarrow> real)"

definition masked_fill :: "(nat \<Rightarrow> real) \<Rightarrow> (nat \<Rightarrow> int) \<Rightarrow> int \<Rightarrow> (nat \<Rightarrow> real)" where
  "masked_fill xs labels ignored_index = (\<lambda>b. if labels b = ignored_index then 0 else xs b)"

record sce_context =
  sv_logits :: "nat \<Rightarrow> nat \<Rightarrow> real"
  sv_lse :: "nat \<Rightarrow> real"
  sv_labels :: "nat \<Rightarrow> int"
  sv_smoothing :: real
  sv_ignored_index :: int
  sv_total_classes :: int

definition labels_local :: "nat \<Rightarrow> int \<Rightarrow> nat \<Rightarrow> (nat \<Rightarrow> int) \<Rightarrow> (nat \<Rightarrow> int)" where
  "labels_local vocab_size ignored_index rank labels =
     (\<lambda>b. if labels b = ignored_index then labels b else labels b - int (rank * vocab_size))"

text \<open>
  The losses of all ranks before the collectives, and the combination every rank computes from
  what it gathered.  Indexing a tensor with a negative number counts from the end.
\<close>

definition rank_forward ::
  "xent_lib \<Rightarrow> nat \<Rightarrow> nat \<Rightarrow> nat \<Rightarrow> (nat \<Rightarrow> nat \<Rightarrow> nat \<Rightarrow> real) \<Rightarrow> (nat \<Rightarrow> int) \<Rightarrow> real \<Rightarrow> int \<Rightarrow> nat \<Rightarrow> (nat \<Rightarrow> real) \<times> (nat \<Rightarrow> real)" where
  "rank_forward xe world_size batch vocab_size logits labels smoothing ignored_index rank =
     (let (losses, lse_local) = xe_forward xe batch vocab_size (logits rank)
              (labels_local vocab_size ignored_index rank labels) smoothing (int (world_size * vocab_size))
      in (masked_fill losses labels ignored_index, lse_local))"

definition gathered_index :: "nat \<Rightarrow> int \<Rightarrow> nat option" where
  "gathered_index world_size i =
     (if 0 \<le> i \<and> i < int world_size then Some (nat i)
      else if - int world_size \<le> i \<and> i < 0 then Some (nat (i + int world_size))
      else None)"

definition combine_ranks ::
  "nat \<Rightarrow> nat \<Rightarrow> nat \<Rightarrow> (nat \<Rightarrow> nat \<Rightarrow> real) \<Rightarrow> (nat \<Rightarrow> nat \<Rightarrow> real) \<Rightarrow> (nat \<Rightarrow> int) \<Rightarrow> real \<Rightarrow> int \<Rightarrow> ((nat \<Rightarrow> real) \<times> (nat \<Rightarrow> real)) result" where
  "combine_ranks world_size batch vocab_size rank_losses lse_allgather labels smoothing ignored_index =
     (let losses = (\<lambda>b. \<Sum>r<world_size. rank_losses r b);
          lse = (\<lambda>b. ln (\<Sum>r<world_size. exp (lse_allgather r b)));
          rank_per_sample = (\<lambda>b. labels b div int vocab_size)
      in if \<exists>b \<in> {..<batch}. gathered_index world_size (rank_per_sample b) = None then Inl IndexError
         else let lse_local = (\<lambda>b. lse_allgather (the (gathered_index world_size (rank_per_sample b))) b);
                  losses = (if smoothing = 0 then (\<lambda>b. losses b + (lse b - lse_local b))
                            else (\<lambda>b. losses b + ((1 - smoothing) * (lse b - lse_local b)
                                        + smoothing * (lse b - (\<Sum>r<world_size. lse_allgather r b)))))
              in Inr (masked_fill losses labels ignored_index, lse))"

definition SoftmaxCrossEntropyLossFn_forward ::
  "xent_lib \<Rightarrow> nat \<Rightarrow> nat \<Rightarrow> nat \<Rightarrow> nat \<Rightarrow> nat \<Rightarrow> (nat \<Rightarrow> nat \<Rightarrow> nat \<Rightarrow> real) \<Rightarrow> (nat \<Rightarrow> int) \<Rightarrow> real \<Rightarrow> int \<Rightarrow>
   ((nat \<Rightarrow> real) \<times> sce_context) result" where
  "SoftmaxCrossEntropyLossFn_forward xe world_size rank batch label_count vocab_size logits labels smoothing ignored_index =
     (if label_count \<noteq> batch then Inl AssertionError
      else rbind
        (if world_size = 1
         then (let (losses, lse) = xe_forward xe batch vocab_size (logits rank) labels smoothing (-1)
               in Inr (masked_fill losses labels ignored_index, lse, labels))
         else (let ranks = rank_forward xe world_size batch vocab_size logits labels smoothing ignored_index
               in rbind (combine_ranks world_size batch vocab_size (\<lambda>r. fst (ranks r)) (\<lambda>r. snd (ranks r))
                          labels smoothing ignored_index)
                    (\<lambda>(losses, lse). Inr (losses, lse, labels_local vocab_size ignored_index rank labels))))
        (\<lambda>(losses, lse, saved_labels).
           Inr (losses, \<lparr>sv_logits = logits rank, sv_lse = lse, sv_labels = saved_labels, sv_smoothing = smoothing,
                        sv_ignored_index = ignored_index, sv_total_classes = int (world_size * vocab_size)\<rparr>)))"

definition SoftmaxCrossEntropyLossFn_backward ::
  "xent_lib \<Rightarrow> nat \<Rightarrow> nat \<Rightarrow> sce_context \<Rightarrow> (nat \<Rightarrow> real) \<Rightarrow> (nat \<Rightarrow> nat \<Rightarrow> real)" where
  "SoftmaxCrossEntropyLossFn_backward xe batch vocab_size ctx grad_loss =
     xe_backward xe batch vocab_size (masked_fill grad_loss (sv_labels ctx) (sv_ignored_index ctx))
       (sv_logits ctx) (sv_lse ctx) (sv_labels ctx) (sv_smoothing ctx) (sv_total_classes ctx)"

record fused_loss =
  fl_ignore_index :: int
  fl_reduction :: string
  fl_label_smoothing :: real

definition FusedCrossEntropyLoss_init :: "int \<Rightarrow> string \<Rightarrow> real \<Rightarrow> fused_loss result" where
  "FusedCrossEntropyLoss_init ignore_index reduction label_smoothing =
     (if reduction \<notin> set [''mean'', ''none''] then Inl NotImplementedError
      else Inr \<lparr>fl_ignore_index = ignore_index, fl_reduction = reduction, fl_label_smoothing = label_smoothing\<rparr>)"

datatype loss_value = Losses "nat \<Rightarrow> real" | Mean "real option"

definition quotient :: "real \<Rightarrow> nat \<Rightarrow> real option" where
  "quotient x n = (if n = 0 then None else Some (x / real n))"

definition FusedCrossEntropyLoss_forward ::
  "xent_lib \<Rightarrow> fused_loss \<Rightarrow> bool \<Rightarrow> nat \<Rightarrow> nat \<Rightarrow> nat \<Rightarrow> nat \<Rightarrow> nat \<Rightarrow> (nat \<Rightarrow> nat \<Rightarrow> nat \<Rightarrow> real) \<Rightarrow> (nat \<Rightarrow> int) \<Rightarrow> loss_value result" where
  "FusedCrossEntropyLoss_forward xe fl on_cuda world_size rank batch label_count vocab_size logits target =
     (if \<not> on_cuda then Inl AssertionError
      else rbind (SoftmaxCrossEntropyLossFn_forward xe world_size rank batch label_count vocab_size logits target
                    (fl_label_smoothing fl) (fl_ignore_index fl)) (\<lambda>(loss, ctx).
        if fl_reduction fl = ''mean''
        then Inr (Mean (quotient (\<Sum>b<batch. loss b) (card {b \<in> {..<batch}. target b \<noteq> fl_ignore_index fl})))
        else Inr (Losses loss)))"

section \<open>The chunked loss\<close>

text \<open>
  \<open>torch.nn.functional.cross_entropy\<close> with \<open>ignore_index = -1\<close>, per element and as a mean over the
  targets that are not ignored.
\<close>

definition element_loss :: "real list \<times> int \<Rightarrow> real result" where
  "element_loss = (\<lambda>(row, target).
     if target = -1 then Inr 0
     else if 0 \<le> target \<and> target < int (length row)
     then Inr (ln (\<Sum>x\<leftarrow>row. exp x) - row ! nat target)
     else Inl IndexError)"

definition cross_entropy_none :: "real list list \<Rightarrow> int list \<Rightarrow> real list result" where
  "cross_entropy_none logits targets =
     (if length logits \<noteq> length targets then Inl ValueError else rmap element_loss (zip logits targets))"

definition cross_entropy_mean :: "real list list \<Rightarrow> int list \<Rightarrow> real option result" where
  "cross_entropy_mean logits targets =
     rbind (cross_entropy_none logits targets) (\<lambda>losses.
       Inr (quotient (sum_list losses) (length (filter (\<lambda>t. t \<noteq> -1) targets))))"

definition mean_of :: "real list \<Rightarrow> real option" where
  "mean_of xs = quotient (sum_list xs) (length xs)"

text \<open>\<open>tensor.split(n)\<close> along the first dimension.\<close>

function split_rows :: "nat \<Rightarrow> 'a list \<Rightarrow> 'a list list" where
  "split_rows n xs = (if length xs \<le> n \<or> n = 0 then [xs] else take n xs # split_rows n (drop n xs))"
  by pat_completeness auto

termination
  by (relation "measure (\<lambda>(n, xs). length xs)") auto

declare split_rows.simps [simp del]

text \<open>Logits come whole, or as a list of chunks along the sequence, each a list over the batch.\<close>

datatype logits_arg = Whole "real list list list" | Chunks "real list list list list"

definition split_columns :: "nat \<Rightarrow> nat \<Rightarrow> 'a list list \<Rightarrow> 'a list list list" where
  "split_columns n k targets = map (\<lambda>i. map (\<lambda>row. take n (drop (i * n) row)) targets) [0..<k]"

definition cat_columns :: "real list list list list \<Rightarrow> real list list list" where
  "cat_columns chunks = foldl (map2 (@)) (hd chunks) (tl chunks)"

definition chunk_losses :: "real list list list \<Rightarrow> int list list \<Rightarrow> real option result" where
  "chunk_losses logit_chunks target_chunks =
     rbind (rmap (\<lambda>(l, t). cross_entropy_none l t) (zip logit_chunks target_chunks)) (\<lambda>losses. Inr (mean_of (concat losses)))"

definition chunked_cross_entropy :: "logits_arg \<Rightarrow> int list list \<Rightarrow> nat \<Rightarrow> real option result" where
  "chunked_cross_entropy logits targets chunk_size =
     (case logits of
        Chunks chunks \<Rightarrow>
          if chunks = [] then Inl (if chunk_size = 0 then RuntimeError else IndexError)
          else if hd chunks = [] then Inr None
          else if chunk_size = 0 then cross_entropy_mean (concat (cat_columns chunks)) (concat targets)
          else (let width = length (hd (hd chunks));
                    k = (length (hd targets) + width - 1) div width
                in if width = 0 then Inl RuntimeError
                   else chunk_losses (map concat chunks) (map concat (split_columns width k targets)))
      | Whole batch \<Rightarrow>
          (let logits = concat batch; targets = concat targets
           in if chunk_size = 0 then cross_entropy_mean logits targets
              else chunk_losses (split_rows chunk_size logits) (split_rows chunk_size targets)))"

section \<open>What the library computes\<close>

definition row_lse :: "nat \<Rightarrow> (nat \<Rightarrow> real) \<Rightarrow> real" where
  "row_lse V x = ln (\<Sum>c<V. exp (x c))"

definition xent_forward_spec :: "xent_lib \<Rightarrow> bool" where
  "xent_forward_spec xe \<longleftrightarrow> (\<forall>B V x l s total b. b < B \<longrightarrow> 0 < V \<longrightarrow>
     snd (xe_forward xe B V x l s total) b = row_lse V (x b) \<and>
     fst (xe_forward xe B V x l s total) b =
       (if 0 \<le> l b \<and> l b < int V then (1 - s) * (row_lse V (x b) - x b (nat (l b))) else 0)
       + s * (row_lse V (x b) - (\<Sum>c<V. x b c) / (if total = -1 then real V else real_of_int total)))"

definition xent_backward_spec :: "xent_lib \<Rightarrow> bool" where
  "xent_backward_spec xe \<longleftrightarrow> (\<forall>B V g x lse l s total b c. b < B \<longrightarrow> c < V \<longrightarrow>
     xe_backward xe B V g x lse l s total b c =
       g b * (exp (x b c - lse b) - (if l b = int c then 1 - s else 0) - s / (if total = -1 then real V else real_of_int total)))"

text \<open>The smoothed cross entropy of a row, the value a single process computes.\<close>

definition smoothed_loss :: "nat \<Rightarrow> (nat \<Rightarrow> real) \<Rightarrow> real \<Rightarrow> nat \<Rightarrow> real" where
  "smoothed_loss V x s label = (1 - s) * (row_lse V x - x label) + s * (row_lse V x - (\<Sum>c<V. x c) / real V)"

text \<open>The logits of all ranks side by side.\<close>

definition cat_vocab :: "nat \<Rightarrow> (nat \<Rightarrow> nat \<Rightarrow> nat \<Rightarrow> real) \<Rightarrow> (nat \<Rightarrow> nat \<Rightarrow> real)" where
  "cat_vocab V logits = (\<lambda>b c. logits (c div V) b (c mod V))"

lemma sum_vocab_blocks:
  fixes V W :: nat
  assumes "0 < V"
  shows "(\<Sum>c<W * V. f (c div V) (c mod V)) = (\<Sum>r<W. \<Sum>c<V. f r c :: real)"
proof -
  have block: "(\<Sum>c\<in>{r * V..<r * V + V}. f (c div V) (c mod V)) = (\<Sum>c<V. f r c)" for r
  proof -
    have "(\<Sum>c\<in>{0 + r * V..<V + r * V}. f (c div V) (c mod V)) = (\<Sum>c\<in>{0..<V}. f ((c + r * V) div V) ((c + r * V) mod V))"
      by (rule sum.shift_bounds_nat_ivl)
    also have "\<dots> = (\<Sum>c\<in>{0..<V}. f r c)"
      using assms by (intro sum.cong refl) simp
    finally show ?thesis by (simp add: atLeast0LessThan add.commute)
  qed
  have "(\<Sum>c<W * V. f (c div V) (c mod V)) = (\<Sum>r<W. \<Sum>c\<in>{r * V..<r * V + V}. f (c div V) (c mod V))"
    by (rule sum.nat_group [symmetric])
  then show ?thesis unfolding block .
qed

lemma row_sum_pos: "0 < V \<Longrightarrow> 0 < (\<Sum>c<(V :: nat). exp (x c :: real))"
  by (rule sum_pos) (auto simp: lessThan_empty_iff)

lemma exp_row_lse: "0 < V \<Longrightarrow> exp (row_lse V x) = (\<Sum>c<V. exp (x c))"
  using row_sum_pos [of V x] by (simp add: row_lse_def)

lemma lse_of_ranks:
  assumes "0 < V"
  shows "ln (\<Sum>r<W. exp (row_lse V (logits r b))) = row_lse (W * V) (cat_vocab V logits b)"
  unfolding row_lse_def [of "W * V"] cat_vocab_def exp_row_lse [OF assms]
  using sum_vocab_blocks [OF assms, of "\<lambda>r c. exp (logits r b c)" W] by simp

text \<open>A label belongs to exactly one rank.\<close>

lemma label_rank:
  assumes "0 \<le> l" "l < int (W * V)" "0 < V"
  shows "nat (l div int V) < W \<and> gathered_index W (l div int V) = Some (nat (l div int V)) \<and>
    (\<forall>r. (0 \<le> l - int (r * V) \<and> l - int (r * V) < int V) = (r = nat (l div int V))) \<and>
    nat (l - int (nat (l div int V) * V)) = nat l mod V"
proof -
  obtain n where n: "l = int n" using assms(1) by (metis nat_0_le)
  have "n < W * V" using assms(2) n by (simp only: of_nat_less_iff)
  then have lt: "n div V < W" by (rule less_mult_imp_div_less)
  have d: "nat (l div int V) = n div V" using n by (simp add: zdiv_int [symmetric])
  have "(0 \<le> l - int (r * V) \<and> l - int (r * V) < int V) = (r = n div V)" for r
  proof
    assume "0 \<le> l - int (r * V) \<and> l - int (r * V) < int V"
    then have "int (r * V) \<le> int n" "int n < int (r * V + V)" unfolding n by (simp_all add: algebra_simps)
    then have "r * V \<le> n" "n < r * V + V" by linarith+
    then show "r = n div V" using div_nat_eqI [of V r n] by (simp add: algebra_simps)
  next
    assume r: "r = n div V"
    have "n = r * V + n mod V" "n mod V < V" using assms(3) by (simp_all add: r)
    then have "int n - int (r * V) = int (n mod V)" by (metis add_diff_cancel_left' of_nat_add)
    then show "0 \<le> l - int (r * V) \<and> l - int (r * V) < int V" using assms(3) unfolding n by simp
  qed
  moreover have "int n - int (n div V * V) = int (n mod V)"
    by (metis add_diff_cancel_left' div_mult_mod_eq of_nat_add)
  ultimately show ?thesis
    using lt d n by (auto simp: gathered_index_def zdiv_int [symmetric])
qed

text \<open>The combined loss of a sample that is not ignored.\<close>

lemma combined_losses:
  assumes xe: "xent_forward_spec xe" and V: "0 < V" and b: "b < B"
    and l: "labels b \<noteq> ign" "0 \<le> labels b" "labels b < int (W * V)"
    and ranks: "ranks = rank_forward xe W B V logits labels s ign"
  shows "(\<Sum>r<W. fst (ranks r) b) + ((1 - s) * (row_lse (W * V) (cat_vocab V logits b) - row_lse V (logits (nat (labels b div int V)) b))
      + s * (row_lse (W * V) (cat_vocab V logits b) - (\<Sum>r<W. row_lse V (logits r b))))
    = smoothed_loss (W * V) (cat_vocab V logits b) s (nat (labels b))"
proof -
  let ?q = "nat (labels b div int V)" and ?lse = "row_lse (W * V) (cat_vocab V logits b)"
  have q: "?q < W" "\<And>r. (0 \<le> labels b - int (r * V) \<and> labels b - int (r * V) < int V) = (r = ?q)"
    "nat (labels b - int (?q * V)) = nat (labels b) mod V"
    using label_rank [OF l(2,3) V] by blast+
  have "int (W * V) \<noteq> -1" by linarith
  then have one: "fst (ranks r) b = (if r = ?q then (1 - s) * (row_lse V (logits ?q b) - logits ?q b (nat (labels b) mod V)) else 0)
      + s * (row_lse V (logits r b) - (\<Sum>c<V. logits r b c) / real (W * V))" for r
    using xe b V l(1) q(2) [of r] q(3)
    by (auto simp: ranks rank_forward_def labels_local_def masked_fill_def xent_forward_spec_def split_def Let_def)
  have "(\<Sum>r<W. fst (ranks r) b) = (1 - s) * (row_lse V (logits ?q b) - logits ?q b (nat (labels b) mod V))
      + s * ((\<Sum>r<W. row_lse V (logits r b)) - (\<Sum>r<W. \<Sum>c<V. logits r b c) / real (W * V))"
    unfolding one sum.distrib using q(1)
    by (simp add: sum_distrib_left [symmetric] sum_subtractf sum_divide_distrib [symmetric])
  moreover have "(\<Sum>r<W. \<Sum>c<V. logits r b c) = (\<Sum>c<W * V. cat_vocab V logits b c)"
    unfolding cat_vocab_def by (rule sum_vocab_blocks [OF V, symmetric])
  moreover have "logits ?q b (nat (labels b) mod V) = cat_vocab V logits b (nat (labels b))"
    using l(2) by (simp add: cat_vocab_def nat_div_distrib)
  ultimately show ?thesis
    by (simp add: smoothed_loss_def algebra_simps)
qed

definition valid_labels :: "nat \<Rightarrow> nat \<Rightarrow> nat \<Rightarrow> (nat \<Rightarrow> int) \<Rightarrow> int \<Rightarrow> bool" where
  "valid_labels W B V labels ign \<longleftrightarrow> (\<forall>b < B. if labels b = ign then gathered_index W (ign div int V) \<noteq> None
     else 0 \<le> labels b \<and> labels b < int (W * V))"

definition parallel_losses :: "nat \<Rightarrow> nat \<Rightarrow> (nat \<Rightarrow> nat \<Rightarrow> nat \<Rightarrow> real) \<Rightarrow> (nat \<Rightarrow> int) \<Rightarrow> real \<Rightarrow> int \<Rightarrow> nat \<Rightarrow> real" where
  "parallel_losses W V logits labels s ign b =
     (if labels b = ign then 0 else smoothed_loss (W * V) (cat_vocab V logits b) s (nat (labels b)))"

lemma parallel_forward:
  assumes xe: "xent_forward_spec xe" and V: "0 < V" and W: "1 < W" and v: "valid_labels W B V labels ign"
  shows "\<exists>losses ctx. SoftmaxCrossEntropyLossFn_forward xe W r B B V logits labels s ign = Inr (losses, ctx) \<and>
    sv_logits ctx = logits r \<and> sv_labels ctx = labels_local V ign r labels \<and> sv_smoothing ctx = s \<and>
    sv_ignored_index ctx = ign \<and> sv_total_classes ctx = int (W * V) \<and>
    (\<forall>b < B. losses b = parallel_losses W V logits labels s ign b \<and> sv_lse ctx b = row_lse (W * V) (cat_vocab V logits b))"
proof -
  let ?ranks = "rank_forward xe W B V logits labels s ign"
  have lse: "snd (?ranks r) b = row_lse V (logits r b)" if "b < B" for r b
    using xe V that by (simp add: rank_forward_def xent_forward_spec_def split_def Let_def)
  have glse: "ln (\<Sum>r<W. exp (snd (?ranks r) b)) = row_lse (W * V) (cat_vocab V logits b)" if "b < B" for b
    using lse_of_ranks [OF V, of logits b W] lse [OF that] by simp
  have g: "gathered_index W (labels b div int V) \<noteq> None" if "b < B" for b
    using v that label_rank [of "labels b" W V] V by (auto simp: valid_labels_def split: if_splits)
  obtain losses lse' where c: "combine_ranks W B V (\<lambda>r. fst (?ranks r)) (\<lambda>r. snd (?ranks r)) labels s ign = Inr (losses, lse')"
    "\<And>b. lse' b = ln (\<Sum>r<W. exp (snd (?ranks r) b))"
    "\<And>b. losses b = (if labels b = ign then 0 else (\<Sum>r<W. fst (?ranks r) b)
        + ((1 - s) * (lse' b - snd (?ranks (the (gathered_index W (labels b div int V)))) b)
           + s * (lse' b - (\<Sum>r<W. snd (?ranks r) b))))"
    using g by (auto simp: combine_ranks_def Let_def masked_fill_def)
  have "losses b = parallel_losses W V logits labels s ign b" if b: "b < B" for b
  proof (cases "labels b = ign")
    case True
    then show ?thesis by (simp add: c(3) parallel_losses_def)
  next
    case False
    then have l: "0 \<le> labels b" "labels b < int (W * V)" using v b by (auto simp: valid_labels_def)
    have q: "gathered_index W (labels b div int V) = Some (nat (labels b div int V))"
      using label_rank [OF l V] by blast
    show ?thesis
      using combined_losses [where labels = labels and ign = ign and logits = logits and s = s and W = W, OF xe V b False l refl] False
      by (simp add: c(3) c(2) lse [OF b] lse_of_ranks [OF V] q parallel_losses_def add.assoc)
  qed
  moreover have "lse' b = row_lse (W * V) (cat_vocab V logits b)" if "b < B" for b
    using c(2) glse [OF that] by simp
  ultimately show ?thesis
    using W by (simp add: SoftmaxCrossEntropyLossFn_forward_def c(1))
qed

lemma single_forward:
  assumes xe: "xent_forward_spec xe" and N: "0 < N" and l: "\<forall>b < B. labels b \<noteq> ign \<longrightarrow> 0 \<le> labels b \<and> labels b < int N"
  shows "\<exists>losses ctx. SoftmaxCrossEntropyLossFn_forward xe 1 0 B B N (\<lambda>_. x) labels s ign = Inr (losses, ctx) \<and>
    (\<forall>b < B. losses b = (if labels b = ign then 0 else smoothed_loss N (x b) s (nat (labels b))) \<and>
       sv_lse ctx b = row_lse N (x b))"
proof -
  obtain losses lse where f: "xe_forward xe B N x labels s (-1) = (losses, lse)" by fastforce
  have e: "losses b = (if 0 \<le> labels b \<and> labels b < int N then (1 - s) * (row_lse N (x b) - x b (nat (labels b))) else 0)
      + s * (row_lse N (x b) - (\<Sum>c<N. x b c) / real N) \<and> lse b = row_lse N (x b)" if "b < B" for b
    using xe [unfolded xent_forward_spec_def, rule_format, OF that N, of x labels s "-1"] f by simp
  have "masked_fill losses labels ign b = (if labels b = ign then 0 else smoothed_loss N (x b) s (nat (labels b))) \<and>
      lse b = row_lse N (x b)" if "b < B" for b
    using e [OF that] l that by (simp add: masked_fill_def smoothed_loss_def)
  then show ?thesis
    unfolding SoftmaxCrossEntropyLossFn_forward_def by (simp add: f)
qed

text \<open>C20: The tensor-parallel loss is the loss.  With the vocabulary cut into equal parts over several
  ranks, every rank returns, for every sample, the value and the log-sum-exp that one process
  with all the logits returns, with and without label smoothing and for ignored labels.\<close>

theorem vocab_parallel_matches_single:
  assumes xe: "xent_forward_spec xe" and V: "0 < V" and W: "1 < W" and v: "valid_labels W B V labels ign"
  shows "\<exists>losses ctx losses' ctx'.
    SoftmaxCrossEntropyLossFn_forward xe W rank B B V logits labels s ign = Inr (losses, ctx) \<and>
    SoftmaxCrossEntropyLossFn_forward xe 1 0 B B (W * V) (\<lambda>_. cat_vocab V logits) labels s ign = Inr (losses', ctx') \<and>
    (\<forall>b < B. losses b = losses' b \<and> sv_lse ctx b = sv_lse ctx' b)"
proof -
  have N: "0 < W * V" using V W by simp
  have l: "\<forall>b < B. labels b \<noteq> ign \<longrightarrow> 0 \<le> labels b \<and> labels b < int (W * V)"
    using v by (auto simp: valid_labels_def)
  from parallel_forward [OF xe V W v, of rank logits s] single_forward [OF xe N l, of "cat_vocab V logits" s]
  show ?thesis by (fastforce simp: parallel_losses_def)
qed

text \<open>A library that computes what the comments say, for the examples.\<close>

definition reference_xent :: xent_lib where
  "reference_xent = \<lparr>
     xe_forward = (\<lambda>B V x l s total.
       (\<lambda>b. (if 0 \<le> l b \<and> l b < int V then (1 - s) * (row_lse V (x b) - x b (nat (l b))) else 0)
          + s * (row_lse V (x b) - (\<Sum>c<V. x b c) / (if total = -1 then real V else real_of_int total)),
        \<lambda>b. row_lse V (x b))),
     xe_backward = (\<lambda>B V g x lse l s total b c.
       g b * (exp (x b c - lse b) - (if l b = int c then 1 - s else 0) - s / (if total = -1 then real V else real_of_int total)))\<rparr>"

lemma reference_xent_specs: "xent_forward_spec reference_xent" "xent_backward_spec reference_xent"
  by (simp_all add: xent_forward_spec_def xent_backward_spec_def reference_xent_def)

definition example_labels :: "nat \<Rightarrow> int" where
  "example_labels b = (if b = 0 then 3 else if b = 1 then -100 else 150)"

lemma example_labels_valid: "valid_labels 2 3 100 example_labels (-100)"
  by (simp add: valid_labels_def example_labels_def gathered_index_def)

theorem vocab_parallel_matches_single_witness:
  "\<exists>losses ctx losses' ctx'.
    SoftmaxCrossEntropyLossFn_forward reference_xent 2 1 3 3 100 (\<lambda>r b c. real (r + b * c)) example_labels (1 / 10) (-100) = Inr (losses, ctx) \<and>
    SoftmaxCrossEntropyLossFn_forward reference_xent 1 0 3 3 (2 * 100) (\<lambda>_. cat_vocab 100 (\<lambda>r b c. real (r + b * c))) example_labels (1 / 10) (-100)
      = Inr (losses', ctx') \<and>
    (\<forall>b < 3. losses b = losses' b \<and> sv_lse ctx b = sv_lse ctx' b)"
  by (rule vocab_parallel_matches_single [OF reference_xent_specs(1) _ _ example_labels_valid]) simp_all

section \<open>Gradients\<close>

lemma row_lse_derivative:
  assumes "0 < N"
  shows "((\<lambda>t. row_lse N (\<lambda>c. x c + t * d c)) has_real_derivative (\<Sum>c<N. exp (x c - row_lse N x) * d c)) (at 0)"
proof -
  let ?S = "\<lambda>t. \<Sum>c<N. exp (x c + t * d c)"
  have S: "(?S has_real_derivative (\<Sum>c<N. exp (x c) * d c)) (at 0)"
    by (auto intro!: derivative_eq_intros sum.cong)
  have pos: "0 < ?S 0" using row_sum_pos [OF assms, of x] by simp
  from DERIV_chain2 [OF DERIV_ln [OF pos] S]
  have "((\<lambda>t. ln (?S t)) has_real_derivative inverse (?S 0) * (\<Sum>c<N. exp (x c) * d c)) (at 0)" .
  moreover have "inverse (?S 0) * (\<Sum>c<N. exp (x c) * d c) = (\<Sum>c<N. exp (x c - row_lse N x) * d c)"
    by (simp add: sum_distrib_left exp_diff exp_row_lse [OF assms] field_simps)
  ultimately show ?thesis unfolding row_lse_def by simp
qed

lemma smoothed_loss_derivative:
  assumes "0 < N" "label < N"
  shows "((\<lambda>t. smoothed_loss N (\<lambda>c. x c + t * d c) s label) has_real_derivative
    (\<Sum>c<N. (exp (x c - row_lse N x) - (if label = c then 1 - s else 0) - s / real N) * d c)) (at 0)"
proof -
  let ?D = "\<Sum>c<N. exp (x c - row_lse N x) * d c"
  have A: "((\<lambda>t. row_lse N (\<lambda>c. x c + t * d c)) has_real_derivative ?D) (at 0)"
    by (rule row_lse_derivative [OF assms(1)])
  have B: "((\<lambda>t. x label + t * d label) has_real_derivative d label) (at 0)"
    by (auto intro!: derivative_eq_intros)
  have C: "((\<lambda>t. \<Sum>c<N. x c + t * d c) has_real_derivative (\<Sum>c<N. d c)) (at 0)"
    by (auto intro!: derivative_eq_intros)
  have "((\<lambda>t. smoothed_loss N (\<lambda>c. x c + t * d c) s label) has_real_derivative
      (1 - s) * (?D - d label) + s * (?D - (\<Sum>c<N. d c) / real N)) (at 0)"
    unfolding smoothed_loss_def
    by (rule DERIV_add [OF DERIV_cmult [OF DERIV_diff [OF A B]] DERIV_cmult [OF DERIV_diff [OF A DERIV_cdivide [OF C]]]])
  moreover have "(\<Sum>c<N. (exp (x c - row_lse N x) - (if label = c then 1 - s else 0) - s / real N) * d c)
      = ?D - (1 - s) * d label - s / real N * (\<Sum>c<N. d c)"
  proof -
    have "(\<Sum>c<N. (if label = c then 1 - s else 0) * d c) = (\<Sum>c<N. if label = c then (1 - s) * d c else 0)"
      by (intro sum.cong) auto
    also have "\<dots> = (1 - s) * d label" using assms(2) by simp
    finally show ?thesis by (simp only: left_diff_distrib sum_subtractf sum_distrib_left [symmetric])
  qed
  moreover have "(1 - s) * (?D - d label) + s * (?D - (\<Sum>c<N. d c) / real N) = ?D - (1 - s) * d label - s / real N * (\<Sum>c<N. d c)"
    by (simp add: algebra_simps)
  ultimately show ?thesis by (simp only:)
qed

text \<open>The gradient a rank returns, in the terms of the whole row.\<close>

lemma rank_backward:
  assumes xe: "xent_backward_spec xe" and b: "b < B" "c < V"
    and ctx: "sv_logits ctx = logits r" "sv_labels ctx = labels_local V ign r labels" "sv_smoothing ctx = s"
      "sv_ignored_index ctx = ign" "sv_total_classes ctx = int (W * V)" "sv_lse ctx b = row_lse (W * V) (cat_vocab V logits b)"
    and l: "labels b \<noteq> ign" "0 \<le> labels b"
  shows "SoftmaxCrossEntropyLossFn_backward xe B V ctx g b c =
    (if labels b - int (r * V) = ign then 0 else g b) *
      (exp (logits r b c - row_lse (W * V) (cat_vocab V logits b)) - (if nat (labels b) = r * V + c then 1 - s else 0) - s / real (W * V))"
proof -
  have "int (W * V) \<noteq> -1" by linarith
  moreover have "(labels b - int (r * V) = int c) = (nat (labels b) = r * V + c)"
    using l(2) by (auto simp: nat_eq_iff algebra_simps)
  ultimately show ?thesis
    using xe b l(1)
    by (simp add: SoftmaxCrossEntropyLossFn_backward_def xent_backward_spec_def ctx masked_fill_def labels_local_def)
qed

text \<open>C21: The tensor-parallel backward pass is the derivative of the loss.  Move the logits of all ranks
  along any direction: the loss of a sample, times the incoming gradient, changes at the rate
  given by the products of the returned gradients with the direction, summed over all ranks
  and classes, provided that the label shifted to a rank never equals the ignored index.\<close>

theorem vocab_parallel_gradient:
  assumes xe: "xent_forward_spec xe" "xent_backward_spec xe" and V: "0 < V" and W: "1 < W"
    and v: "valid_labels W B V labels ign" and b: "b < B" and l: "labels b \<noteq> ign"
    and shifted: "\<forall>r < W. labels b - int (r * V) \<noteq> ign"
    and ctx: "\<forall>r < W. SoftmaxCrossEntropyLossFn_forward xe W r B B V logits labels s ign = Inr (losses r, ctx r)"
  shows "((\<lambda>t. g b * parallel_losses W V (\<lambda>r b c. logits r b c + t * d r b c) labels s ign b) has_real_derivative
    (\<Sum>r<W. \<Sum>c<V. SoftmaxCrossEntropyLossFn_backward xe B V (ctx r) g b c * d r b c)) (at 0)"
proof -
  let ?x = "cat_vocab V logits b" and ?d = "cat_vocab V d b" and ?n = "nat (labels b)"
  let ?f = "\<lambda>r c. (exp (logits r b c - row_lse (W * V) ?x) - (if ?n = r * V + c then 1 - s else 0) - s / real (W * V)) * d r b c"
  have "0 \<le> labels b \<and> labels b < int (W * V)" using v b l by (auto simp: valid_labels_def)
  then have lab: "0 \<le> labels b" "?n < W * V" by (simp_all only: nat_less_iff)
  have bw: "SoftmaxCrossEntropyLossFn_backward xe B V (ctx r) g b c * d r b c = g b * ?f r c" if "r < W" "c < V" for r c
    using rank_backward [OF xe(2) b that(2), of "ctx r" logits r ign labels s W g]
      parallel_forward [OF xe(1) V W v, of r logits s] ctx that(1) l lab b shifted by auto
  have "(\<Sum>c<W * V. (exp (?x c - row_lse (W * V) ?x) - (if ?n = c then 1 - s else 0) - s / real (W * V)) * ?d c)
      = (\<Sum>c<W * V. ?f (c div V) (c mod V))"
    unfolding cat_vocab_def by simp
  also have "\<dots> = (\<Sum>r<W. \<Sum>c<V. ?f r c)" by (rule sum_vocab_blocks [OF V])
  finally have D: "((\<lambda>t. smoothed_loss (W * V) (\<lambda>c. ?x c + t * ?d c) s ?n) has_real_derivative (\<Sum>r<W. \<Sum>c<V. ?f r c)) (at 0)"
    using smoothed_loss_derivative [of "W * V" ?n ?x ?d s] V W lab(2) by simp
  have "(\<Sum>r<W. \<Sum>c<V. SoftmaxCrossEntropyLossFn_backward xe B V (ctx r) g b c * d r b c) = g b * (\<Sum>r<W. \<Sum>c<V. ?f r c)"
    by (simp add: bw sum_distrib_left)
  moreover have "(\<lambda>t. g b * parallel_losses W V (\<lambda>r b c. logits r b c + t * d r b c) labels s ign b)
      = (\<lambda>t. g b * smoothed_loss (W * V) (\<lambda>c. ?x c + t * ?d c) s ?n)"
    using l by (simp add: parallel_losses_def cat_vocab_def)
  ultimately show ?thesis using DERIV_cmult [OF D, of "g b"] by simp
qed

text \<open>The losses of the theorem are the ones the forward pass returns, by \<open>parallel_forward\<close>.\<close>

definition example_ctx :: "(nat \<Rightarrow> nat \<Rightarrow> nat \<Rightarrow> real) \<Rightarrow> nat \<Rightarrow> (nat \<Rightarrow> real) \<times> sce_context" where
  "example_ctx logits r = projr (SoftmaxCrossEntropyLossFn_forward reference_xent 2 r 3 3 100 logits example_labels 0 (-100))"

lemma example_ctx_forward:
  "SoftmaxCrossEntropyLossFn_forward reference_xent 2 r 3 3 100 logits example_labels 0 (-100)
    = Inr (fst (example_ctx logits r), snd (example_ctx logits r))"
  using parallel_forward [OF reference_xent_specs(1) _ _ example_labels_valid, of r logits 0] by (auto simp: example_ctx_def)

theorem vocab_parallel_gradient_witness:
  "((\<lambda>t. 1 * parallel_losses 2 100 (\<lambda>r b c. real r + t * real c) example_labels 0 (-100) 2) has_real_derivative
    (\<Sum>r<2. \<Sum>c<100. SoftmaxCrossEntropyLossFn_backward reference_xent 3 100 (snd (example_ctx (\<lambda>r b c. real r) r)) (\<lambda>_. 1) 2 c * real c)) (at 0)"
  by (rule vocab_parallel_gradient [OF reference_xent_specs _ _ example_labels_valid, where g = "\<lambda>_. 1" and b = 2 and losses = "\<lambda>r. fst (example_ctx (\<lambda>r b c. real r) r)"])
    (use example_ctx_forward in \<open>auto simp: example_labels_def less_Suc_eq numeral_2_eq_2\<close>)

text \<open>C22: A label that a shift turns into the ignored index loses its gradient.  The backward pass compares
  the shifted labels with the ignored index: on a rank where the shifted label happens to be the
  ignored one, the gradient of the whole row is zero, while without smoothing the loss depends on every
  logit of that row.\<close>

theorem shifted_label_loses_gradient:
  assumes xe: "xent_forward_spec xe" "xent_backward_spec xe" and V: "0 < V" and W: "1 < W"
    and v: "valid_labels W B V labels ign" and b: "b < B" and l: "labels b \<noteq> ign" and c: "c < V"
    and r: "r < W" "labels b - int (r * V) = ign" "ign < 0"
    and fwd: "SoftmaxCrossEntropyLossFn_forward xe W r B B V logits labels 0 ign = Inr (losses, ctx)"
  shows "SoftmaxCrossEntropyLossFn_backward xe B V ctx g b c = 0 \<and>
    (\<exists>D > 0. ((\<lambda>t. parallel_losses W V (\<lambda>r' b' c'. logits r' b' c' + t * (if r' = r \<and> c' = c then 1 else 0)) labels 0 ign b)
      has_real_derivative D) (at 0))"
proof -
  let ?x = "cat_vocab V logits b" and ?n = "nat (labels b)" and ?k = "r * V + c"
  let ?d = "\<lambda>j. if j = ?k then 1 else 0 :: real"
  have "0 \<le> labels b \<and> labels b < int (W * V)" using v b l by (auto simp: valid_labels_def)
  then have lab: "0 \<le> labels b" "?n < W * V" by (simp_all only: nat_less_iff)
  have "SoftmaxCrossEntropyLossFn_backward xe B V ctx g b c = 0"
    using rank_backward [OF xe(2) b c, of ctx logits r ign labels 0 W g]
      parallel_forward [OF xe(1) V W v, of r logits 0] fwd l lab(1) b r(2) by auto
  moreover have k: "?k < W * V" by (rule mixed_radix [OF r(1) c])
  moreover have k2: "?n \<noteq> ?k"
  proof
    assume "?n = ?k"
    then have "labels b = int (r * V + c)" using lab(1) by (simp add: nat_eq_iff)
    with r(2,3) show False by simp
  qed
  moreover have "((\<lambda>t. smoothed_loss (W * V) (\<lambda>j. ?x j + t * ?d j) 0 ?n) has_real_derivative exp (?x ?k - row_lse (W * V) ?x)) (at 0)"
  proof -
    have "(\<Sum>j<W * V. (exp (?x j - row_lse (W * V) ?x) - (if ?n = j then 1 else 0)) * ?d j)
        = (\<Sum>j<W * V. if j = ?k then exp (?x ?k - row_lse (W * V) ?x) else 0)"
      using k2 by (intro sum.cong) auto
    also have "\<dots> = exp (?x ?k - row_lse (W * V) ?x)" using k by simp
    finally have "(\<Sum>j<W * V. (exp (?x j - row_lse (W * V) ?x) - (if ?n = j then 1 - 0 else 0) - 0 / real (W * V)) * ?d j)
        = exp (?x ?k - row_lse (W * V) ?x)" by (simp only: diff_zero div_0)
    moreover have "0 < W * V" using V W by simp
    ultimately show ?thesis
      using DERIV_cong [OF smoothed_loss_derivative [OF _ lab(2), of ?x ?d 0]] by blast
  qed
  moreover have "(\<lambda>t. parallel_losses W V (\<lambda>r' b' c'. logits r' b' c' + t * (if r' = r \<and> c' = c then 1 else 0)) labels 0 ign b)
      = (\<lambda>t. smoothed_loss (W * V) (\<lambda>j. ?x j + t * ?d j) 0 ?n)"
  proof -
    have "(j div V = r \<and> j mod V = c) = (j = ?k)" for j using c by auto
    then show ?thesis using l by (simp add: parallel_losses_def cat_vocab_def)
  qed
  ultimately show ?thesis by (intro conjI exI [of _ "exp (?x ?k - row_lse (W * V) ?x)"]) simp_all
qed

definition unlucky_labels :: "nat \<Rightarrow> int" where
  "unlucky_labels b = 50"

lemma unlucky_labels_valid: "valid_labels 2 1 150 unlucky_labels (-100)"
  by (simp add: valid_labels_def unlucky_labels_def)

lemma unlucky_forward:
  "\<exists>losses ctx. SoftmaxCrossEntropyLossFn_forward reference_xent 2 1 1 1 150 (\<lambda>r b c. 0) unlucky_labels 0 (-100) = Inr (losses, ctx)"
  using parallel_forward [OF reference_xent_specs(1) _ _ unlucky_labels_valid, of 1 "\<lambda>r b c. 0" 0] by auto

theorem shifted_label_loses_gradient_witness:
  "\<exists>losses ctx. SoftmaxCrossEntropyLossFn_forward reference_xent 2 1 1 1 150 (\<lambda>r b c. 0) unlucky_labels 0 (-100) = Inr (losses, ctx) \<and>
    SoftmaxCrossEntropyLossFn_backward reference_xent 1 150 ctx (\<lambda>_. 1) 0 7 = 0 \<and>
    (\<exists>D > 0. ((\<lambda>t. parallel_losses 2 150 (\<lambda>r' b' c'. 0 + t * (if r' = 1 \<and> c' = 7 then 1 else 0)) unlucky_labels 0 (-100) 0)
      has_real_derivative D) (at 0))"
proof -
  obtain losses ctx where f: "SoftmaxCrossEntropyLossFn_forward reference_xent 2 1 1 1 150 (\<lambda>r b c. 0) unlucky_labels 0 (-100) = Inr (losses, ctx)"
    using unlucky_forward by blast
  from shifted_label_loses_gradient [OF reference_xent_specs _ _ unlucky_labels_valid _ _ _ _ _ _ f, where b = 0 and c = 7 and g = "\<lambda>_. 1"] f
  show ?thesis by (auto simp: unlucky_labels_def)
qed

section \<open>Chunks\<close>

lemma cross_entropy_none_iff:
  "cross_entropy_none xs ys = Inr ls \<longleftrightarrow>
     length xs = length ys \<and> list_all2 (\<lambda>p l. element_loss p = Inr l) (zip xs ys) ls"
  by (simp add: cross_entropy_none_def rmap_Inr_iff)

lemma cross_entropy_none_cut:
  assumes "cross_entropy_none xs ys = Inr ls"
  shows "cross_entropy_none (take n xs) (take n ys) = Inr (take n ls) \<and>
    cross_entropy_none (drop n xs) (drop n ys) = Inr (drop n ls)"
proof -
  have l: "length xs = length ys" and a: "list_all2 (\<lambda>p l. element_loss p = Inr l) (zip xs ys) ls"
    using assms by (simp_all only: cross_entropy_none_iff)
  from l list_all2_takeI [OF a, of n] list_all2_dropI [OF a, of n]
  show ?thesis by (simp add: cross_entropy_none_iff take_zip drop_zip)
qed

lemma split_rows_losses:
  "cross_entropy_none xs ys = Inr ls \<Longrightarrow>
    \<exists>parts. rmap (\<lambda>(l, t). cross_entropy_none l t) (zip (split_rows n xs) (split_rows n ys)) = Inr parts \<and> concat parts = ls"
proof (induction n xs arbitrary: ys ls rule: split_rows.induct)
  case (1 n xs)
  have len: "length xs = length ys" using 1(2) by (simp add: cross_entropy_none_iff)
  show ?case
  proof (cases "length xs \<le> n \<or> n = 0")
    case True
    then show ?thesis using 1(2) len by (simp add: split_rows.simps [of n xs] split_rows.simps [of n ys])
  next
    case False
    have cut: "cross_entropy_none (take n xs) (take n ys) = Inr (take n ls)"
      "cross_entropy_none (drop n xs) (drop n ys) = Inr (drop n ls)"
      using cross_entropy_none_cut [OF 1(2)] by simp_all
    from 1(1) [OF False cut(2)] obtain parts where
      p: "rmap (\<lambda>(l, t). cross_entropy_none l t) (zip (split_rows n (drop n xs)) (split_rows n (drop n ys))) = Inr parts"
        "concat parts = drop n ls" by blast
    then show ?thesis
      using False len cut(1)
      by (intro exI [of _ "take n ls # parts"]) (simp add: split_rows.simps [of n xs] split_rows.simps [of n ys])
  qed
qed

text \<open>C23: Chunking changes the denominator.  For the same logits and targets the chunked loss and the
  loss without chunking have the same numerator, but the chunked one divides by the number of all
  targets, the other by the number of targets that are not ignored: the values agree only when no
  target is ignored.\<close>

theorem chunked_loss_counts_ignored:
  assumes n: "0 < n" and l: "cross_entropy_none (concat batch) (concat targets) = Inr losses"
  shows "chunked_cross_entropy (Whole batch) targets n = Inr (quotient (sum_list losses) (length (concat targets))) \<and>
    chunked_cross_entropy (Whole batch) targets 0 = Inr (quotient (sum_list losses) (length (filter (\<lambda>t. t \<noteq> -1) (concat targets))))"
proof -
  obtain parts where "rmap (\<lambda>(l, t). cross_entropy_none l t) (zip (split_rows n (concat batch)) (split_rows n (concat targets))) = Inr parts"
    "concat parts = losses"
    using split_rows_losses [OF l] by blast
  moreover have "length losses = length (concat targets)"
    using l list_all2_lengthD by (fastforce simp: cross_entropy_none_iff)
  ultimately show ?thesis
    using n l by (simp add: chunked_cross_entropy_def Let_def chunk_losses_def mean_of_def cross_entropy_mean_def)
qed

theorem chunked_loss_counts_ignored_witness:
  "chunked_cross_entropy (Whole [[[1, 2], [0, 0]]]) [[0, -1]] 1 = Inr (quotient (sum_list [ln (exp 1 + exp 2) - 1, 0]) (length (concat [[0, -1 :: int]]))) \<and>
   chunked_cross_entropy (Whole [[[1, 2], [0, 0]]]) [[0, -1]] 0 =
     Inr (quotient (sum_list [ln (exp 1 + exp 2) - 1, 0]) (length (filter (\<lambda>t. t \<noteq> -1) (concat [[0, -1 :: int]]))))"
  by (rule chunked_loss_counts_ignored) (simp_all add: cross_entropy_none_def element_loss_def)

end
