(* ===== verification/GatedLayer.thy ===== *)
theory GatedLayer
  imports ChunkKernels
begin

text \<open>
  The layer of \<open>lit_gpt/gated_delta_net.py\<close>: projections, short convolutions, gates, the gated delta rule of
  \<open>chunk.py\<close> per head, and the gated normalisation of its output, for one batch entry.

  A sequence is a function of the token and the feature.  The trained parameters and what comes
  from the \<open>fla\<close> package are fields of the record \<open>gdn_modules\<close>: linear maps and row-wise
  functions of a feature vector, and the convolutions, functions of a whole sequence.
\<close>

section \<open>Construction\<close>

record gdn_config =
  qk_norm :: string
  attn_mode :: string
  hidden_size :: nat
  num_heads :: nat
  num_kv_heads :: nat
  num_kv_groups :: nat
  key_dim :: nat
  value_dim :: nat
  key_dim_per_group :: nat
  value_dim_per_group :: nat
  head_qk_dim :: nat
  head_v_dim :: nat
  conv_size :: nat
  use_mamba_gate :: bool
  use_residual :: bool
  use_input_gate :: bool
  fuse_norm_and_gate :: bool
  gate_logit_normalizer :: nat

definition GatedDeltaNet_init ::
  "string \<Rightarrow> string \<Rightarrow> nat \<Rightarrow> real \<Rightarrow> real \<Rightarrow> nat \<Rightarrow> nat option \<Rightarrow> nat \<Rightarrow> bool \<Rightarrow> bool \<Rightarrow> bool \<Rightarrow> string \<Rightarrow> bool \<Rightarrow> string list \<Rightarrow> nat \<Rightarrow>
   gdn_config result" where
  "GatedDeltaNet_init norm_kind mode hidden expand_k expand_v heads kv_heads conv mamba_gate residual input_gate gate_fn fuse_norm act2fn normalizer =
     (if norm_kind \<notin> set [''l2'', ''longhorn'', ''softmax''] then Inl AssertionError
      else let kv = (case kv_heads of Some n \<Rightarrow> n | None \<Rightarrow> heads);
               groups = heads div kv;
               kdim = nat \<lfloor>real hidden * expand_k\<rfloor>;
               vdim = nat \<lfloor>real hidden * expand_v\<rfloor>;
               fused = (gate_fn = ''swish'' \<and> fuse_norm)
           in if kv = 0 \<or> groups = 0 then Inl ZeroDivisionError
              else if mode \<notin> set [''chunk''] then Inl AssertionError
              else if \<not> fused \<and> gate_fn \<notin> set act2fn then Inl KeyError
              else Inr \<lparr>qk_norm = norm_kind, attn_mode = mode, hidden_size = hidden, num_heads = heads, num_kv_heads = kv,
                        num_kv_groups = groups, key_dim = kdim, value_dim = vdim,
                        key_dim_per_group = kdim div groups, value_dim_per_group = vdim div groups,
                        head_qk_dim = kdim div heads, head_v_dim = vdim div heads, conv_size = conv,
                        use_mamba_gate = mamba_gate, use_residual = residual, use_input_gate = input_gate,
                        fuse_norm_and_gate = fused, gate_logit_normalizer = normalizer\<rparr>)"

text \<open>\<open>init_state\<close>: the shapes of the cache of a layer, per batch entry, all zero.\<close>

definition init_state :: "gdn_config \<Rightarrow> (nat \<times> nat) list \<times> (nat \<times> nat \<times> nat)" where
  "init_state cfg = ([(key_dim cfg, conv_size cfg), (key_dim cfg, conv_size cfg), (value_dim cfg, conv_size cfg)],
     (num_heads cfg, head_qk_dim cfg, head_v_dim cfg))"

definition state_size :: "gdn_config \<Rightarrow> nat list \<Rightarrow> nat" where
  "state_size cfg conv_state_sizes = key_dim cfg * head_v_dim cfg + sum_list conv_state_sizes"

section \<open>The forward pass\<close>

definition softplus :: "real \<Rightarrow> real" where
  "softplus x = (if x > 20 then x else ln (1 + exp x))"

definition sigmoid :: "real \<Rightarrow> real" where
  "sigmoid x = 1 / (1 + exp (- x))"

definition logsigmoid :: "real \<Rightarrow> real" where
  "logsigmoid x = ln (sigmoid x)"

definition softmax_row :: "nat \<Rightarrow> vec \<Rightarrow> vec" where
  "softmax_row n x = (\<lambda>d. exp (x d) / (\<Sum>j<n. exp (x j)))"

record gdn_modules =
  q_proj :: "vec \<Rightarrow> vec"
  k_proj :: "vec \<Rightarrow> vec"
  v_proj :: "vec \<Rightarrow> vec"
  g_proj :: "vec \<Rightarrow> vec"
  gk_proj :: "vec \<Rightarrow> vec"
  b_proj :: "vec \<Rightarrow> vec"
  o_proj :: "vec \<Rightarrow> vec"
  q_conv1d :: "vec option \<Rightarrow> mat option \<Rightarrow> mat \<Rightarrow> mat"
  k_conv1d :: "vec option \<Rightarrow> mat option \<Rightarrow> mat \<Rightarrow> mat"
  v_conv1d :: "vec option \<Rightarrow> mat option \<Rightarrow> mat \<Rightarrow> mat"
  l2_norm_fn :: "vec \<Rightarrow> vec"
  g_norm_swish_gate :: "vec \<Rightarrow> vec \<Rightarrow> vec"
  g_norm :: "vec \<Rightarrow> vec"
  gate_fn :: "real \<Rightarrow> real"
  A_log :: vec
  dt_bias :: vec
  D_res :: vec

text \<open>
  A \<open>ShortConvolution\<close> built for a number of channels refuses another number; it masks the padding
  itself.  The cached states are those of a layer: the three of the convolutions and, per head, the
  recurrent one.
\<close>

definition short_conv :: "(vec option \<Rightarrow> mat option \<Rightarrow> mat \<Rightarrow> mat) \<Rightarrow> nat \<Rightarrow> nat \<Rightarrow> vec option \<Rightarrow> mat option \<Rightarrow> mat \<Rightarrow> mat result" where
  "short_conv conv channels width attention_mask state x =
     (if width \<noteq> channels then Inl RuntimeError else Inr (conv attention_mask state x))"

record layer_state =
  conv_state_q :: mat
  conv_state_k :: mat
  conv_state_v :: mat
  recurrent_state :: "nat \<Rightarrow> mat"

definition head_rows :: "nat \<Rightarrow> nat \<Rightarrow> mat \<Rightarrow> mat" where
  "head_rows head width x = (\<lambda>t d. x t (head * width + d))"

text \<open>
  Keys and values of the \<open>num_kv_heads\<close> heads are repeated for the query heads of their group, so
  that head \<open>h\<close> reads head \<open>h div num_kv_groups\<close>.  Only configurations in which the number of query heads is the
  product of key heads and groups, as for key heads that divide the query heads, are modelled.
  The inputs of the gated delta rule are, per head, the queries, keys, values, write
  strengths and log decays.
\<close>

record rule_inputs =
  in_q :: "nat \<Rightarrow> mat"
  in_k :: "nat \<Rightarrow> mat"
  in_v :: "nat \<Rightarrow> mat"
  in_beta :: "nat \<Rightarrow> vec"
  in_gk :: "nat \<Rightarrow> vec"

definition log_decay :: "gdn_config \<Rightarrow> gdn_modules \<Rightarrow> nat \<Rightarrow> real \<Rightarrow> real" where
  "log_decay cfg M h gk =
     (if use_mamba_gate cfg then - exp (A_log M h) * softplus (gk + dt_bias M h)
      else logsigmoid gk / real (gate_logit_normalizer cfg))"

definition rule_inputs_of ::
  "gdn_config \<Rightarrow> gdn_modules \<Rightarrow> vec option \<Rightarrow> layer_state option \<Rightarrow> mat \<Rightarrow> rule_inputs result" where
  "rule_inputs_of cfg M attention_mask last_state x =
     (let q = (\<lambda>t. q_proj M (x t)); k = (\<lambda>t. k_proj M (x t)); v = (\<lambda>t. v_proj M (x t))
      in rbind (short_conv (q_conv1d M) (key_dim cfg) (key_dim cfg) attention_mask (map_option conv_state_q last_state) q) (\<lambda>q.
         rbind (short_conv (k_conv1d M) (key_dim_per_group cfg) (key_dim cfg) attention_mask (map_option conv_state_k last_state) k) (\<lambda>k.
         rbind (short_conv (v_conv1d M) (value_dim_per_group cfg) (value_dim_per_group cfg) attention_mask (map_option conv_state_v last_state) v) (\<lambda>v.
           let v = (case attention_mask of None \<Rightarrow> v | Some m \<Rightarrow> (\<lambda>t d. v t d * m t));
               gk = (\<lambda>h t. log_decay cfg M h (gk_proj M (x t) h));
               beta = (\<lambda>h t. sigmoid (b_proj M (x t) h));
               q_dim = key_dim cfg div num_heads cfg;
               k_dim = key_dim cfg div num_kv_heads cfg;
               v_dim = value_dim_per_group cfg div num_kv_heads cfg;
               qh = (\<lambda>h. head_rows h q_dim q);
               kh = (\<lambda>h. head_rows (h div num_kv_groups cfg) k_dim k);
               vh = (\<lambda>h. head_rows (h div num_kv_groups cfg) v_dim v)
           in if key_dim cfg mod num_heads cfg \<noteq> 0 \<or> key_dim cfg mod num_kv_heads cfg \<noteq> 0
                 \<or> value_dim_per_group cfg mod num_kv_heads cfg \<noteq> 0
              then Inl RuntimeError
              else rbind
                (if qk_norm cfg = ''l2'' then Inr (\<lambda>h t. l2_norm_fn M (qh h t), \<lambda>h t. l2_norm_fn M (kh h t), beta)
                 else if qk_norm cfg = ''softmax''
                 then Inr (\<lambda>h t. softmax_row q_dim (qh h t), \<lambda>h t. softmax_row k_dim (kh h t), beta)
                 else if qk_norm cfg = ''longhorn''
                 then Inr (qh, kh, \<lambda>h t. beta h t / (1 + beta h t * (\<Sum>d<k_dim. kh h t d * kh h t d)))
                 else Inl KeyError)
                (\<lambda>(qh, kh, beta).
                   Inr \<lparr>in_q = qh, in_k = kh,
                        in_v = (if use_input_gate cfg then (\<lambda>h t d. vh h t d * (1 - exp (gk h t))) else vh),
                        in_beta = beta, in_gk = gk\<rparr>)))))"

text \<open>The output of all heads back to the hidden features.\<close>

definition finish_rows ::
  "gdn_config \<Rightarrow> gdn_modules \<Rightarrow> rule_inputs \<Rightarrow> mat \<Rightarrow> (nat \<Rightarrow> mat) \<Rightarrow> mat" where
  "finish_rows cfg M inp x heads =
     (\<lambda>t. let V = value_dim_per_group cfg div num_kv_heads cfg;
              o1 = (\<lambda>h d. heads h t d + (if use_residual cfg then D_res M h * in_v inp h t d else 0));
              g = g_proj M (x t)
          in o_proj M (if fuse_norm_and_gate cfg
                       then (\<lambda>i. g_norm_swish_gate M (o1 (i div V)) (\<lambda>d. g (i div V * V + d)) (i mod V))
                       else (\<lambda>i. g_norm M (o1 (i div V)) (i mod V) * gate_fn M (g i))))"

definition GatedDeltaNet_forward ::
  "kernel_env \<Rightarrow> (real \<Rightarrow> real) \<Rightarrow> gdn_config \<Rightarrow> gdn_modules \<Rightarrow> nat \<Rightarrow> mat \<Rightarrow> vec option \<Rightarrow> layer_state option option \<Rightarrow> bool \<Rightarrow>
   mat result" where
  "GatedDeltaNet_forward E to_ht cfg M L x attention_mask past_key_values use_cache =
     (let mode = (if L = 1 then ''fused_recurrent'' else attn_mode cfg)
      in rbind (if use_cache
                then (case past_key_values of
                        None \<Rightarrow> Inl TypeError
                      | Some None \<Rightarrow> Inl IndexError
                      | Some (Some s) \<Rightarrow> Inr (Some s))
                else Inr None) (\<lambda>last_state.
         rbind (rule_inputs_of cfg M attention_mask last_state x) (\<lambda>inp.
           let K = key_dim cfg div num_heads cfg; V = value_dim_per_group cfg div num_kv_heads cfg
           in rbind
                (if mode = ''chunk''
                 then rmap (\<lambda>h. rbind (chunk_gated_delta_rule E to_ht 64 L K V (in_q inp h) (in_k inp h) (in_v inp h)
                              (in_beta inp h) (in_gk inp h) (map_option (\<lambda>s. recurrent_state s h) last_state) use_cache)
                              (\<lambda>(out, _). Inr out)) [0..<num_heads cfg]
                 else Inl NotImplementedError)
                (\<lambda>outs. if past_key_values \<noteq> None then Inl AttributeError
                        else Inr (finish_rows cfg M inp x (\<lambda>h. outs ! h))))))"

text \<open>
  The call with a mask tensor of any shape.  The mask gets a last dimension (\<open>unsqueeze(-1)\<close>) and multiplies
  in place the values, a tensor of one batch entry, \<open>L\<close> positions and their features: it must broadcast into
  that shape.  The exceptions that can come before the product are those of the convolutions, which
  are of the same class, so the weights are computed first here.
\<close>

type_synonym mask_tensor = "nat list \<times> (nat list \<Rightarrow> real)"

definition padding_weights :: "nat \<Rightarrow> nat \<Rightarrow> mask_tensor \<Rightarrow> vec result" where
  "padding_weights L width attention_mask =
     (let shape = fst attention_mask
      in if broadcasts_into (shape @ [1]) [1, L, width]
         then Inr (\<lambda>t. snd attention_mask (drop (2 - length shape) [0, if last shape = 1 then 0 else t]))
         else Inl RuntimeError)"

definition GatedDeltaNet_call ::
  "kernel_env \<Rightarrow> (real \<Rightarrow> real) \<Rightarrow> gdn_config \<Rightarrow> gdn_modules \<Rightarrow> nat \<Rightarrow> mat \<Rightarrow> mask_tensor option \<Rightarrow> mat result" where
  "GatedDeltaNet_call E to_ht cfg M L x attention_mask =
     rbind (case attention_mask of
              None \<Rightarrow> Inr None
            | Some m \<Rightarrow> rbind (padding_weights L (value_dim_per_group cfg) m) (\<lambda>w. Inr (Some w)))
       (\<lambda>w. GatedDeltaNet_forward E to_ht cfg M L x w None False)"

lemma padding_mask_weights:
  "padding_weights L width ([1, L], m) = Inr (\<lambda>t. m [0, if L = 1 then 0 else t])"
  by (simp add: padding_weights_def broadcasts_into_def)

lemma mask_of_many_dims:
  assumes "3 \<le> length (fst m)"
  shows "padding_weights L width m = Inl RuntimeError"
  using broadcasts_length [of "fst m @ [1]" "[1, L, width]"] assms by (auto simp: padding_weights_def Let_def)

section \<open>What a layer computes\<close>

text \<open>A layer as the constructor makes it without a number of key heads, with heads that divide its widths.\<close>

definition plain_layer :: "gdn_config \<Rightarrow> bool" where
  "plain_layer cfg \<longleftrightarrow> 0 < num_heads cfg \<and> num_kv_heads cfg = num_heads cfg \<and> num_kv_groups cfg = 1 \<and>
     key_dim_per_group cfg = key_dim cfg \<and> value_dim_per_group cfg = value_dim cfg \<and> attn_mode cfg = ''chunk'' \<and>
     qk_norm cfg \<in> {''l2'', ''longhorn'', ''softmax''} \<and>
     num_heads cfg dvd key_dim cfg \<and> num_heads cfg dvd value_dim cfg \<and> 0 < key_dim cfg"

lemma init_plain:
  assumes "GatedDeltaNet_init norm_kind mode hidden expand_k expand_v heads None conv mamba_gate residual input_gate gate fuse act2fn normalizer = Inr cfg"
    and "heads dvd key_dim cfg" "heads dvd value_dim cfg" "0 < key_dim cfg"
  shows "plain_layer cfg"
  using assms by (auto simp: GatedDeltaNet_init_def Let_def plain_layer_def split: if_splits)

lemma plain_inputs:
  assumes "plain_layer cfg"
  shows "\<exists>inp. rule_inputs_of cfg M attention_mask last_state x = Inr inp"
  using assms by (auto simp: plain_layer_def rule_inputs_of_def short_conv_def Let_def dvd_eq_mod_eq_0)

lemma plain_forward:
  assumes E: "exact_casts E" "pow2_spec E" and cfg: "plain_layer cfg" and L: "L \<noteq> 1"
    and K: "next_pow2 E (key_dim cfg div num_heads cfg) \<le> 256"
    and inp: "rule_inputs_of cfg M attention_mask None x = Inr inp"
  defines "K \<equiv> key_dim cfg div num_heads cfg" and "V \<equiv> value_dim cfg div num_heads cfg"
  shows "\<exists>heads. GatedDeltaNet_forward E to_ht cfg M L x attention_mask None False = Inr (finish_rows cfg M inp x heads) \<and>
    (\<forall>h < num_heads cfg. \<forall>t < L. \<forall>c < V. heads h t c =
       snd (recurrent_loop K L (\<lambda>i. exp2 (LOG2E * in_gk inp h i)) (\<lambda>i d. in_q inp h i d * real K powr (- (1 / 2)))
         (in_k inp h) (in_v inp h) (in_beta inp h) zero_tile) t c)"
proof -
  have pos: "0 < K" using cfg by (auto simp: plain_layer_def K_def elim!: dvdE)
  have "\<exists>out. chunk_gated_delta_rule E to_ht 64 L K V (in_q inp h) (in_k inp h) (in_v inp h) (in_beta inp h) (in_gk inp h) None False
        = Inr (out, None) \<and>
      (\<forall>t < L. \<forall>c < V. out t c = snd (recurrent_loop K L (\<lambda>i. exp2 (LOG2E * in_gk inp h i))
         (\<lambda>i d. in_q inp h i d * real K powr (- (1 / 2))) (in_k inp h) (in_v inp h) (in_beta inp h) zero_tile) t c)" for h
    using chunk_gated_delta_rule_columns [OF E pos, of 64 6 L to_ht V "in_q inp h" "in_k inp h" "in_v inp h" "in_beta inp h" "in_gk inp h" None False]
      K L by (simp add: K_def)
  then obtain heads where h: "\<And>h. chunk_gated_delta_rule E to_ht 64 L K V (in_q inp h) (in_k inp h) (in_v inp h) (in_beta inp h) (in_gk inp h) None False
        = Inr (heads h, None)"
      "\<And>h t c. t < L \<Longrightarrow> c < V \<Longrightarrow> heads h t c = snd (recurrent_loop K L (\<lambda>i. exp2 (LOG2E * in_gk inp h i))
         (\<lambda>i d. in_q inp h i d * real K powr (- (1 / 2))) (in_k inp h) (in_v inp h) (in_beta inp h) zero_tile) t c"
    by metis
  let ?outs = "map heads [0..<num_heads cfg]"
  have "rmap (\<lambda>h. rbind (chunk_gated_delta_rule E to_ht 64 L K V (in_q inp h) (in_k inp h) (in_v inp h)
      (in_beta inp h) (in_gk inp h) None False) (\<lambda>(out, _). Inr out)) [0..<num_heads cfg] = Inr ?outs"
    by (rule rmap_pure) (simp add: h(1))
  then have "GatedDeltaNet_forward E to_ht cfg M L x attention_mask None False
      = Inr (finish_rows cfg M inp x (\<lambda>h. ?outs ! h))"
    using cfg L inp by (simp add: GatedDeltaNet_forward_def plain_layer_def K_def V_def Let_def)
  then show ?thesis
    using h(2) by (intro exI [of _ "\<lambda>h. ?outs ! h"]) simp
qed

section \<open>Properties\<close>

text \<open>C9: A layer computes the gated delta rule.  For a layer the constructor accepts without grouped heads,
  head dimensions the kernels support and any sequence but a single token, the forward pass
  returns, and what the output gate and the output projection are applied to is, for every head and token,
  the token-by-token recurrence on the queries, keys, values, write strengths and log decays
  that the projections, convolutions and gates produce.\<close>

theorem layer_computes_recurrence:
  assumes E: "exact_casts E" "pow2_spec E"
    and init: "GatedDeltaNet_init norm_kind mode hidden expand_k expand_v H None conv mamba_gate residual input_gate gate fuse act2fn normalizer = Inr cfg"
    and dims: "H dvd key_dim cfg" "H dvd value_dim cfg" "0 < key_dim cfg" "next_pow2 E (key_dim cfg div H) \<le> 256"
    and L: "L \<noteq> 1"
  shows "\<exists>inp heads. rule_inputs_of cfg M attention_mask None x = Inr inp \<and>
    GatedDeltaNet_forward E to_ht cfg M L x attention_mask None False = Inr (finish_rows cfg M inp x heads) \<and>
    (\<forall>h < H. \<forall>t < L. \<forall>c < value_dim cfg div H. heads h t c =
       snd (recurrent_loop (key_dim cfg div H) L (\<lambda>i. exp2 (LOG2E * in_gk inp h i))
         (\<lambda>i d. in_q inp h i d * real (key_dim cfg div H) powr (- (1 / 2)))
         (in_k inp h) (in_v inp h) (in_beta inp h) zero_tile) t c)"
proof -
  have cfg: "plain_layer cfg" by (rule init_plain [OF init dims(1-3)])
  have H: "num_heads cfg = H" using init by (auto simp: GatedDeltaNet_init_def Let_def split: if_splits)
  obtain inp where inp: "rule_inputs_of cfg M attention_mask None x = Inr inp" using plain_inputs [OF cfg] by blast
  from plain_forward [OF E cfg L _ inp] dims(4) inp show ?thesis unfolding H by blast
qed

definition toy_modules :: gdn_modules where
  "toy_modules = \<lparr>q_proj = (\<lambda>x. x), k_proj = (\<lambda>x. x), v_proj = (\<lambda>x. x), g_proj = (\<lambda>x. x), gk_proj = (\<lambda>x. x), b_proj = (\<lambda>x. x),
     o_proj = (\<lambda>x i. x 0 + x (Suc 0)), q_conv1d = (\<lambda>m s x. x), k_conv1d = (\<lambda>m s x. x), v_conv1d = (\<lambda>m s x. x),
     l2_norm_fn = (\<lambda>x. x), g_norm_swish_gate = (\<lambda>o1 g c. if c = 0 then o1 0 * g 0 else 0), g_norm = (\<lambda>x c. if c = 0 then x 0 else 0), gate_fn = (\<lambda>x. x),
     A_log = (\<lambda>h. 0), dt_bias = (\<lambda>h. 0), D_res = (\<lambda>h. 1)\<rparr>"

definition toy_config :: gdn_config where
  "toy_config = \<lparr>qk_norm = ''l2'', attn_mode = ''chunk'', hidden_size = 4, num_heads = 2, num_kv_heads = 2, num_kv_groups = 1,
     key_dim = 4, value_dim = 4, key_dim_per_group = 4, value_dim_per_group = 4, head_qk_dim = 2, head_v_dim = 2, conv_size = 4,
     use_mamba_gate = True, use_residual = False, use_input_gate = False, fuse_norm_and_gate = True, gate_logit_normalizer = 16\<rparr>"

lemma toy_config_init:
  "GatedDeltaNet_init ''l2'' ''chunk'' 4 1 1 2 None 4 True False False ''swish'' True [] 16 = Inr toy_config"
  by (simp add: GatedDeltaNet_init_def toy_config_def)

theorem layer_computes_recurrence_witness:
  "\<exists>inp heads. rule_inputs_of toy_config toy_modules None None (\<lambda>t d. real (t + d)) = Inr inp \<and>
    GatedDeltaNet_forward example_env (\<lambda>x. x) toy_config toy_modules 5 (\<lambda>t d. real (t + d)) None None False
      = Inr (finish_rows toy_config toy_modules inp (\<lambda>t d. real (t + d)) heads) \<and>
    (\<forall>h < 2. \<forall>t < 5. \<forall>c < value_dim toy_config div 2. heads h t c =
       snd (recurrent_loop (key_dim toy_config div 2) 5 (\<lambda>i. exp2 (LOG2E * in_gk inp h i))
         (\<lambda>i d. in_q inp h i d * real (key_dim toy_config div 2) powr (- (1 / 2)))
         (in_k inp h) (in_v inp h) (in_beta inp h) zero_tile) t c)"
  by (rule layer_computes_recurrence [OF example_env_ok toy_config_init]) (simp_all add: toy_config_def example_env_def)

text \<open>Row-wise modules read only the features they are given; the convolutions look back only.\<close>

definition reads_only :: "nat \<Rightarrow> (vec \<Rightarrow> 'a) \<Rightarrow> bool" where
  "reads_only n f \<longleftrightarrow> (\<forall>x y. (\<forall>i < n. x i = y i) \<longrightarrow> f x = f y)"

lemma reads_onlyD: "reads_only n f \<Longrightarrow> (\<And>i. i < n \<Longrightarrow> x i = y i) \<Longrightarrow> f x = f y"
  by (simp add: reads_only_def)

definition causal_conv :: "(vec option \<Rightarrow> mat option \<Rightarrow> mat \<Rightarrow> mat) \<Rightarrow> bool" where
  "causal_conv conv \<longleftrightarrow> (\<forall>mk x y t. (\<forall>s \<le> t. x s = y s) \<longrightarrow> conv mk None x t = conv mk None y t)"

definition causal_modules :: "gdn_config \<Rightarrow> gdn_modules \<Rightarrow> bool" where
  "causal_modules cfg M \<longleftrightarrow> causal_conv (q_conv1d M) \<and> causal_conv (k_conv1d M) \<and> causal_conv (v_conv1d M) \<and>
     (\<forall>g. reads_only (value_dim cfg div num_heads cfg) (\<lambda>o1. g_norm_swish_gate M o1 g)) \<and>
     reads_only (value_dim cfg div num_heads cfg) (g_norm M) \<and> reads_only (value_dim cfg) (o_proj M)"

lemma causal_convD: "causal_conv conv \<Longrightarrow> \<forall>s \<le> t. x s = y s \<Longrightarrow> s \<le> t \<Longrightarrow> conv mk None x s = conv mk None y s"
  by (simp add: causal_conv_def)

lemma inputs_causal:
  assumes M: "causal_modules cfg M" and xy: "\<forall>s \<le> t. x s = y s"
    and i: "rule_inputs_of cfg M mk None x = Inr inp" and j: "rule_inputs_of cfg M mk None y = Inr inp'"
    and s: "s \<le> t"
  shows "in_q inp h s = in_q inp' h s \<and> in_k inp h s = in_k inp' h s \<and> in_v inp h s = in_v inp' h s \<and>
    in_beta inp h s = in_beta inp' h s \<and> in_gk inp h s = in_gk inp' h s"
proof -
  have c: "causal_conv (q_conv1d M)" "causal_conv (k_conv1d M)" "causal_conv (v_conv1d M)"
    using M by (simp_all add: causal_modules_def)
  have p: "\<forall>s \<le> t. f (x s) = f (y s)" for f :: "vec \<Rightarrow> vec" using xy by simp
  have q: "q_conv1d M mk None (\<lambda>t. q_proj M (x t)) s = q_conv1d M mk None (\<lambda>t. q_proj M (y t)) s"
    "k_conv1d M mk None (\<lambda>t. k_proj M (x t)) s = k_conv1d M mk None (\<lambda>t. k_proj M (y t)) s"
    "v_conv1d M mk None (\<lambda>t. v_proj M (x t)) s = v_conv1d M mk None (\<lambda>t. v_proj M (y t)) s"
    using causal_convD [OF c(1) p s] causal_convD [OF c(2) p s] causal_convD [OF c(3) p s] by simp_all
  have xs: "x s = y s" using xy s by simp
  show ?thesis
    using i j q xs
    by (auto simp: rule_inputs_of_def short_conv_def Let_def head_rows_def split: if_splits option.splits)
qed

lemma recurrent_row_causal:
  assumes "i < L" and "\<forall>s \<le> i. a s = a' s \<and> q s = q' s \<and> k s = k' s \<and> v s = v' s \<and> b s = b' s"
  shows "snd (recurrent_loop K L a q k v b S0) i m = snd (recurrent_loop K L a' q' k' v' b' S0) i m"
proof -
  have "delta_states K a k v b S0 (Suc i) = delta_states K a' k' v' b' S0 (Suc i)"
    using assms(2) by (intro delta_states_cong) (simp add: less_Suc_eq_le)
  then show ?thesis using assms by (simp add: recurrent_loop_out)
qed

lemma plain_layer_causal:
  assumes E: "exact_casts E" "pow2_spec E" and cfg: "plain_layer cfg" and L: "L \<noteq> 1"
    and K: "next_pow2 E (key_dim cfg div num_heads cfg) \<le> 256" and M: "causal_modules cfg M"
    and xy: "\<forall>s \<le> t. x s = y s" and t: "t < L"
  shows "\<exists>o1 o2. GatedDeltaNet_forward E to_ht cfg M L x attention_mask None False = Inr o1 \<and>
    GatedDeltaNet_forward E to_ht cfg M L y attention_mask None False = Inr o2 \<and> o1 t = o2 t"
proof -
  let ?V = "value_dim cfg div num_heads cfg"
  obtain inp inp' where i: "rule_inputs_of cfg M attention_mask None x = Inr inp" "rule_inputs_of cfg M attention_mask None y = Inr inp'"
    using plain_inputs [OF cfg] by blast
  note same = inputs_causal [OF M xy i]
  obtain h1 where f1: "GatedDeltaNet_forward E to_ht cfg M L x attention_mask None False = Inr (finish_rows cfg M inp x h1)"
    "\<forall>h < num_heads cfg. \<forall>t < L. \<forall>c < ?V. h1 h t c =
       snd (recurrent_loop (key_dim cfg div num_heads cfg) L (\<lambda>i. exp2 (LOG2E * in_gk inp h i))
         (\<lambda>i d. in_q inp h i d * real (key_dim cfg div num_heads cfg) powr (- (1 / 2)))
         (in_k inp h) (in_v inp h) (in_beta inp h) zero_tile) t c"
    using plain_forward [OF E cfg L K i(1)] by blast
  obtain h2 where f2: "GatedDeltaNet_forward E to_ht cfg M L y attention_mask None False = Inr (finish_rows cfg M inp' y h2)"
    "\<forall>h < num_heads cfg. \<forall>t < L. \<forall>c < ?V. h2 h t c =
       snd (recurrent_loop (key_dim cfg div num_heads cfg) L (\<lambda>i. exp2 (LOG2E * in_gk inp' h i))
         (\<lambda>i d. in_q inp' h i d * real (key_dim cfg div num_heads cfg) powr (- (1 / 2)))
         (in_k inp' h) (in_v inp' h) (in_beta inp' h) zero_tile) t c"
    using plain_forward [OF E cfg L K i(2)] by blast
  have rows: "h1 h t c = h2 h t c" if "h < num_heads cfg" "c < ?V" for h c
    using f1(2) f2(2) that t same
    by (simp, intro recurrent_row_causal) auto
  have V: "value_dim_per_group cfg div num_kv_heads cfg = ?V" "0 < num_heads cfg" "num_heads cfg * ?V = value_dim cfg"
    using cfg by (simp_all add: plain_layer_def)
  have xt: "x t = y t" "in_v inp h t = in_v inp' h t" for h using xy same [of t h] by simp_all
  let ?o = "\<lambda>inp heads h d. heads h t d + (if use_residual cfg then D_res M h * in_v inp h t d else 0)"
  have eq: "?o inp h1 h d = ?o inp' h2 h d" if "h < num_heads cfg" "d < ?V" for h d
    using rows [OF that] xt(2) by simp
  have head: "i div ?V < num_heads cfg" if "i < value_dim cfg" for i
    using that V(3) by (metis less_mult_imp_div_less)
  have r: "\<And>g. reads_only ?V (\<lambda>o1. g_norm_swish_gate M o1 g)" "reads_only ?V (g_norm M)" "reads_only (value_dim cfg) (o_proj M)"
    using M by (simp_all add: causal_modules_def)
  have g: "g_norm_swish_gate M (?o inp h1 h) g = g_norm_swish_gate M (?o inp' h2 h) g" "g_norm M (?o inp h1 h) = g_norm M (?o inp' h2 h)"
    if "h < num_heads cfg" for h g
    by (rule reads_onlyD [OF r(1)], rule eq [OF that], assumption) (rule reads_onlyD [OF r(2)], rule eq [OF that], assumption)
  let ?g = "g_proj M (y t)"
  let ?row = "\<lambda>inp heads. if fuse_norm_and_gate cfg
      then (\<lambda>i. g_norm_swish_gate M (?o inp heads (i div ?V)) (\<lambda>d. ?g (i div ?V * ?V + d)) (i mod ?V))
      else (\<lambda>i. g_norm M (?o inp heads (i div ?V)) (i mod ?V) * gate_fn M (?g i))"
  have row: "?row inp h1 i = ?row inp' h2 i" if "i < value_dim cfg" for i
  proof (cases "fuse_norm_and_gate cfg")
    case True
    then show ?thesis
      using fun_cong [OF g(1) [OF head [OF that], of "\<lambda>d. ?g (i div ?V * ?V + d)"], of "i mod ?V"] by (simp only: if_True)
  next
    case False
    then show ?thesis
      using fun_cong [OF g(2) [OF head [OF that]], of "i mod ?V"] by (simp only: if_False)
  qed
  have "o_proj M (?row inp h1) = o_proj M (?row inp' h2)"
    by (rule reads_onlyD [OF r(3)]) (rule row)
  then have "finish_rows cfg M inp x h1 t = finish_rows cfg M inp' y h2 t"
    unfolding finish_rows_def Let_def V(1) xt(1) .
  then show ?thesis using f1(1) f2(1) by blast
qed

text \<open>A layer is causal.  When the convolutions look back only and the row-wise modules read the features
  they are given, the outputs for two inputs that agree up to a token agree at that token: chunks,
  padding and tiles do not let a later token through.\<close>

theorem layer_is_causal:
  assumes E: "exact_casts E" "pow2_spec E" and cfg: "plain_layer cfg" and L: "L \<noteq> 1"
    and K: "next_pow2 E (key_dim cfg div num_heads cfg) \<le> 256" and M: "causal_modules cfg M"
    and xy: "\<forall>s \<le> t. x s = y s" and t: "t < L"
  shows "\<exists>o1 o2. GatedDeltaNet_forward E to_ht cfg M L x attention_mask None False = Inr o1 \<and>
    GatedDeltaNet_forward E to_ht cfg M L y attention_mask None False = Inr o2 \<and> o1 t = o2 t"
  by (rule plain_layer_causal [OF assms])

lemma toy_plain: "plain_layer toy_config"
  by (simp add: plain_layer_def toy_config_def)

lemma toy_causal: "causal_modules toy_config toy_modules"
  by (auto simp: causal_modules_def causal_conv_def reads_only_def toy_config_def toy_modules_def fun_eq_iff)

theorem layer_is_causal_witness:
  "\<exists>o1 o2. GatedDeltaNet_forward example_env (\<lambda>x. x) toy_config toy_modules 5 (\<lambda>t d. real t) None None False = Inr o1 \<and>
    GatedDeltaNet_forward example_env (\<lambda>x. x) toy_config toy_modules 5 (\<lambda>t d. if t = 4 then 7 else real t) None None False = Inr o2 \<and>
    o1 3 = o2 3"
  by (rule layer_is_causal [OF example_env_ok toy_plain _ _ toy_causal]) (auto simp: toy_config_def example_env_def)

lemma single_token_raises: "\<not> returns (GatedDeltaNet_forward E to_ht cfg M (Suc 0) x attention_mask past_key_values use_cache)"
  by (auto simp: returns_iff GatedDeltaNet_forward_def Let_def rbind_eq_Inr split: if_splits)

text \<open>C10: What the layer cannot do: decode.  Whatever the modules and the input, a call with a cache never
  returns (the bookkeeping after the kernel reads an attribute that is never set), nor does a call
  with a single token (there is no recurrent mode), nor any call of a layer built with grouped
  heads, whose key convolution is built for the keys of a group and given all keys.\<close>

theorem layer_calls_that_raise:
  assumes "past_key_values \<noteq> None \<or> L = 1 \<or>
    (GatedDeltaNet_init norm_kind mode hidden expand_k expand_v H (Some kv) conv mamba_gate residual input_gate gate fuse act2fn normalizer = Inr cfg
      \<and> 2 \<le> H div kv \<and> 0 < key_dim cfg)"
  shows "\<not> returns (GatedDeltaNet_forward E to_ht cfg M L x attention_mask past_key_values use_cache)"
proof (cases "past_key_values \<noteq> None \<or> L = 1")
  case True
  then show ?thesis
    by (auto simp: returns_iff GatedDeltaNet_forward_def Let_def rbind_eq_Inr split: if_splits)
next
  case False
  with assms have init: "GatedDeltaNet_init norm_kind mode hidden expand_k expand_v H (Some kv) conv mamba_gate residual input_gate gate fuse act2fn normalizer = Inr cfg"
    "2 \<le> H div kv" "0 < key_dim cfg" by auto
  have "key_dim_per_group cfg = key_dim cfg div (H div kv)"
    using init(1) by (auto simp: GatedDeltaNet_init_def Let_def split: if_splits)
  then have "key_dim_per_group cfg < key_dim cfg" using init(2,3) by simp
  then have "\<not> returns (rule_inputs_of cfg M attention_mask s x)" for s
    by (auto simp: returns_iff rule_inputs_of_def short_conv_def Let_def rbind_eq_Inr split: if_splits)
  then show ?thesis
    by (auto simp: returns_iff GatedDeltaNet_forward_def Let_def rbind_eq_Inr)
qed

definition grouped_config :: gdn_config where
  "grouped_config = \<lparr>qk_norm = ''l2'', attn_mode = ''chunk'', hidden_size = 4, num_heads = 4, num_kv_heads = 2, num_kv_groups = 2,
     key_dim = 4, value_dim = 4, key_dim_per_group = 2, value_dim_per_group = 2, head_qk_dim = 1, head_v_dim = 1, conv_size = 4,
     use_mamba_gate = True, use_residual = False, use_input_gate = False, fuse_norm_and_gate = True, gate_logit_normalizer = 16\<rparr>"

lemma grouped_config_init:
  "GatedDeltaNet_init ''l2'' ''chunk'' 4 1 1 4 (Some 2) 4 True False False ''swish'' True [] 16 = Inr grouped_config"
  by (simp add: GatedDeltaNet_init_def grouped_config_def)

theorem layer_calls_that_raise_witness:
  "\<not> returns (GatedDeltaNet_forward example_env (\<lambda>x. x) toy_config toy_modules 5 (\<lambda>t d. real t) None (Some None) False) \<and>
   \<not> returns (GatedDeltaNet_forward example_env (\<lambda>x. x) toy_config toy_modules 1 (\<lambda>t d. real t) None None False) \<and>
   \<not> returns (GatedDeltaNet_forward example_env (\<lambda>x. x) grouped_config toy_modules 5 (\<lambda>t d. real t) None None False)"
  by (intro conjI; rule layer_calls_that_raise) (use grouped_config_init in \<open>auto simp: grouped_config_def\<close>)

end
