(* ===== verification/GptModel.thy ===== *)
theory GptModel
  imports GatedLayer
begin

text \<open>
  The transformer around the layers: \<open>lit_gpt/model.py\<close> with the rotary function of
  \<open>fused_rotary_embedding.py\<close> and the derived sizes of \<open>config.py\<close>.  Causal self-attention with grouped
  queries and a key-value cache, the block with its residual paths, the model with its rotary table,
  mask and caches, and token by token decoding, for one batch entry and over the reals.

  Linear maps, normalisations and the feed-forward network act row by row and are parameters, as are
  the convolution of the package \<open>causal_conv1d\<close> and what the extension \<open>rotary_emb\<close> computes of a pair of
  elements.  The branch for Mamba blocks is not modelled: it needs a class the file never imports.
\<close>

section \<open>Configuration\<close>

record gpt_config =
  block_size :: nat
  n_head :: nat
  n_query_groups :: nat
  head_size :: nat
  rotary_n_elem :: nat
  condense_ratio :: nat
  parallel_residual :: bool
  shared_attention_norm :: bool
  has_mlp :: bool
  local_window :: int
  full_per_layer :: nat
  gated_delta_per_layer :: int
  nope :: bool
  sc_attn :: bool

definition find_multiple :: "int \<Rightarrow> int \<Rightarrow> int result" where
  "find_multiple n k =
     (if \<not> 0 < k then Inl AssertionError
      else if n mod k = 0 then Inr n
      else Inr (n + k - n mod k))"

lemma find_multiple_least:
  assumes "find_multiple n k = Inr m"
  shows "k dvd m \<and> n \<le> m \<and> m < n + k"
proof -
  have k: "0 < k" using assms by (simp add: find_multiple_def split: if_splits)
  define e where "e = n mod k"
  have r: "0 \<le> e" "e < k" "k dvd n - e" using k by (simp_all add: e_def)
  have m: "m = (if e = 0 then n else n - e + k)"
    using assms k by (auto simp: find_multiple_def e_def split: if_splits)
  show ?thesis
  proof (cases "e = 0")
    case True
    then show ?thesis using r k by (simp add: m)
  next
    case False
    then show ?thesis using r by (simp add: m)
  qed
qed

text \<open>The sizes \<open>Config.__post_init__\<close> derives.\<close>

definition post_init ::
  "nat \<Rightarrow> nat \<Rightarrow> int \<Rightarrow> int \<Rightarrow> int option \<Rightarrow> nat option \<Rightarrow> nat option \<Rightarrow> bool \<Rightarrow> (int \<times> nat \<times> nat) result" where
  "post_init n_embd heads vocab_size padding_multiple padded_vocab_size query_groups intermediate_size is_llama_mlp =
     (if heads = 0 then Inl ZeroDivisionError
      else if n_embd mod heads \<noteq> 0 then Inl AssertionError
      else rbind (case padded_vocab_size of Some p \<Rightarrow> Inr p | None \<Rightarrow> find_multiple vocab_size padding_multiple) (\<lambda>padded.
           rbind (case query_groups of
                    Some g \<Rightarrow> if g = 0 then Inl ZeroDivisionError
                              else if heads mod g \<noteq> 0 then Inl AssertionError else Inr g
                  | None \<Rightarrow> Inr heads) (\<lambda>groups.
           rbind (case intermediate_size of
                    Some i \<Rightarrow> Inr i
                  | None \<Rightarrow> if is_llama_mlp then Inl ValueError else Inr (4 * n_embd)) (\<lambda>inter.
             Inr (padded, groups, inter)))))"

definition use_gated_deltanet :: "gpt_config \<Rightarrow> nat \<Rightarrow> bool" where
  "use_gated_deltanet cfg layer_idx =
     (if gated_delta_per_layer cfg > 0 then int layer_idx mod gated_delta_per_layer cfg = 0 else False)"

definition local_layer :: "gpt_config \<Rightarrow> nat \<Rightarrow> bool" where
  "local_layer cfg layer_idx = (int (layer_idx mod full_per_layer cfg) < int (full_per_layer cfg) - 1)"

section \<open>Rotary tables\<close>

text \<open>
  \<open>build_rope_cache\<close>: the tables of cosines and sines with the rounding \<open>cast\<close> of their dtype, each with
  its shape of positions and frequencies.
\<close>

type_synonym rope_table = "(nat \<times> nat) \<times> mat"

definition build_rope_cache :: "(real \<Rightarrow> real) \<Rightarrow> nat \<Rightarrow> nat \<Rightarrow> nat \<Rightarrow> rope_table \<times> rope_table" where
  "build_rope_cache cast seq_len n_elem condense =
     (let theta = (\<lambda>j. 1 / (10000 powr (real (2 * j) / real n_elem)));
          idx_theta = (\<lambda>t j. real t / real condense * theta j);
          shape = (seq_len, (n_elem + 1) div 2)
      in ((shape, \<lambda>t j. cast (cos (idx_theta t j))), (shape, \<lambda>t j. cast (sin (idx_theta t j)))))"

text \<open>Slices \<open>[:T]\<close> and \<open>index_select\<close> along the positions.\<close>

definition first_rows :: "nat \<Rightarrow> rope_table \<Rightarrow> rope_table" where
  "first_rows T tab = ((min T (fst (fst tab)), snd (fst tab)), snd tab)"

definition select_rows :: "nat list \<Rightarrow> rope_table \<Rightarrow> rope_table" where
  "select_rows pos tab = ((length pos, snd (fst tab)), \<lambda>t. snd tab (pos ! t))"

text \<open>
  \<open>ApplyRotaryEmb\<close> on a tensor of positions, heads and features.  \<open>rot2\<close> is what the extension makes of
  two elements, a cosine, a sine and the flag of the conjugate; every element of the output is written or
  copied, in place or not.
\<close>

type_synonym head_rows_t = "nat \<Rightarrow> nat \<Rightarrow> vec"

definition rotated_row :: "(real \<Rightarrow> real \<Rightarrow> real \<Rightarrow> real \<Rightarrow> bool \<Rightarrow> real \<times> real) \<Rightarrow> nat \<Rightarrow> bool \<Rightarrow> bool \<Rightarrow> vec \<Rightarrow> vec \<Rightarrow> vec \<Rightarrow> vec" where
  "rotated_row rot2 half interleaved conjugate c s x =
     (\<lambda>d. if 2 * half \<le> d then x d
          else if interleaved
          then (let j = d div 2; p = rot2 (x (2 * j)) (x (2 * j + 1)) (c j) (s j) conjugate
                in if even d then fst p else snd p)
          else (let j = d mod half; p = rot2 (x j) (x (j + half)) (c j) (s j) conjugate
                in if d < half then fst p else snd p))"

definition FusedRotaryEmb_forward ::
  "(real \<Rightarrow> real \<Rightarrow> real \<Rightarrow> real \<Rightarrow> bool \<Rightarrow> real \<times> real) \<Rightarrow> nat \<Rightarrow> nat \<Rightarrow> head_rows_t \<Rightarrow> rope_table \<Rightarrow> rope_table \<Rightarrow> bool \<Rightarrow>
   head_rows_t result" where
  "FusedRotaryEmb_forward rot2 seqlen headdim x cosine sine interleaved =
     (let (rotary_seqlen, half) = fst cosine
      in if \<not> 2 * half \<le> headdim then Inl AssertionError
         else if \<not> seqlen \<le> rotary_seqlen then Inl AssertionError
         else if fst sine \<noteq> fst cosine then Inl AssertionError
         else Inr (\<lambda>t h. rotated_row rot2 half interleaved False (snd cosine t) (snd sine t) (x t h)))"

definition FusedRotaryEmb_backward ::
  "(real \<Rightarrow> real \<Rightarrow> real \<Rightarrow> real \<Rightarrow> bool \<Rightarrow> real \<times> real) \<Rightarrow> head_rows_t \<Rightarrow> rope_table \<Rightarrow> rope_table \<Rightarrow> bool \<Rightarrow> head_rows_t" where
  "FusedRotaryEmb_backward rot2 dout cosine sine interleaved =
     (\<lambda>t h. rotated_row rot2 (snd (fst cosine)) interleaved True (snd cosine t) (snd sine t) (dout t h))"

text \<open>With tables of cosines and sines of the same angles the backward pass undoes the forward pass.\<close>

lemma fused_rotary_inverts:
  assumes rot: "rot2 = (\<lambda>x y c s conjugate. if conjugate then (x * c + y * s, y * c - x * s) else (x * c - y * s, x * s + y * c))"
    and unit: "\<forall>t j. (snd cosine t j)\<^sup>2 + (snd sine t j)\<^sup>2 = 1"
    and y: "FusedRotaryEmb_forward rot2 seqlen headdim x cosine sine interleaved = Inr y"
  shows "FusedRotaryEmb_backward rot2 y cosine sine interleaved = x"
proof (intro ext)
  fix t h d
  let ?half = "snd (fst cosine)" and ?c = "snd cosine t" and ?s = "snd sine t"
  have yt: "y t h = rotated_row rot2 ?half interleaved False ?c ?s (x t h)"
    using y by (auto simp: FusedRotaryEmb_forward_def Let_def split: prod.splits if_splits)
  have undo: "(a * p - b * q) * p + (a * q + b * p) * q = a" "(a * q + b * p) * p - (a * p - b * q) * q = b"
    if "p\<^sup>2 + q\<^sup>2 = 1" for a b p q :: real
    using arg_cong [OF that, of "\<lambda>r. a * r"] arg_cong [OF that, of "\<lambda>r. b * r"] by (simp_all add: algebra_simps power2_eq_square)
  have u: "(?c j)\<^sup>2 + (?s j)\<^sup>2 = 1" for j using unit by simp
  show "FusedRotaryEmb_backward rot2 y cosine sine interleaved t h d = x t h d"
  proof (cases "2 * ?half \<le> d")
    case True
    then show ?thesis by (simp add: FusedRotaryEmb_backward_def rotated_row_def yt)
  next
    case False
    show ?thesis
    proof (cases interleaved)
      case True
      have "d div 2 < ?half" using False by simp
      then have "\<not> ?half \<le> d div 2" "\<not> 2 * ?half \<le> Suc (2 * (d div 2))" by auto
      then show ?thesis
        using True False undo [OF u] by (auto simp: FusedRotaryEmb_backward_def rotated_row_def yt rot Let_def elim!: oddE)
    next
      case il: False
      have j: "d mod ?half < ?half" "(d mod ?half + ?half) mod ?half = d mod ?half" using False by (simp_all add: mod_less_divisor)
      have d: "d = (if d < ?half then d mod ?half else d mod ?half + ?half)" using False by (simp add: le_mod_geq)
      show ?thesis
        using il False j d undo [OF u] by (auto simp: FusedRotaryEmb_backward_def rotated_row_def yt rot Let_def)
    qed
  qed
qed

section \<open>Attention\<close>

text \<open>
  The device and libraries of a run: the kernels of the gated layers with their cast, the rounding of
  the rotary tables, the rotation of a pair, and whether \<open>flash_attn\<close> is used when there is no mask.
\<close>

record gpt_env =
  kernels :: kernel_env
  ht_cast :: "real \<Rightarrow> real"
  table_cast :: "real \<Rightarrow> real"
  rotate_pair :: "real \<Rightarrow> real \<Rightarrow> real \<Rightarrow> real \<Rightarrow> bool \<Rightarrow> real \<times> real"
  flash :: bool

record attn_modules =
  attn_lin :: "vec \<Rightarrow> vec"
  attn_out :: "vec \<Rightarrow> vec"
  sc_q_conv :: "mat \<Rightarrow> mat"
  sc_k_conv :: "mat \<Rightarrow> mat"
  sc_v_conv :: "mat \<Rightarrow> mat"

text \<open>
  The features of a projected token are, per query group, the query heads, a key head and a value head.
  \<open>flat_heads\<close> is the reshape that puts heads side by side and \<open>split_heads\<close> the one that separates them.
\<close>

definition qkv_slot :: "gpt_config \<Rightarrow> nat \<Rightarrow> nat \<Rightarrow> vec \<Rightarrow> vec" where
  "qkv_slot cfg grp slot y =
     (\<lambda>d. y ((grp * (n_head cfg div n_query_groups cfg + 2) + slot) * head_size cfg + d))"

definition flat_heads :: "nat \<Rightarrow> (nat \<Rightarrow> vec) \<Rightarrow> vec" where
  "flat_heads hs heads = (\<lambda>i. heads (i div hs) (i mod hs))"

definition split_heads :: "nat \<Rightarrow> mat \<Rightarrow> head_rows_t" where
  "split_heads hs z = (\<lambda>t h d. z t (h * hs + d))"

definition rotate_heads :: "gpt_env \<Rightarrow> gpt_config \<Rightarrow> nat \<Rightarrow> (rope_table \<times> rope_table) option \<Rightarrow> head_rows_t \<Rightarrow> head_rows_t result" where
  "rotate_heads env cfg T rope z =
     (case rope of
        None \<Rightarrow> if nope cfg then Inr z else Inl TypeError
      | Some (c, s) \<Rightarrow> if nope cfg then Inr z else FusedRotaryEmb_forward (rotate_pair env) T (head_size cfg) z c s False)"

definition project_heads ::
  "gpt_env \<Rightarrow> gpt_config \<Rightarrow> attn_modules \<Rightarrow> nat \<Rightarrow> mat \<Rightarrow> (rope_table \<times> rope_table) option \<Rightarrow>
   (head_rows_t \<times> head_rows_t \<times> head_rows_t) result" where
  "project_heads env cfg A T x rope =
     (let q_per_kv = n_head cfg div n_query_groups cfg; hs = head_size cfg;
          q = (\<lambda>t. flat_heads hs (\<lambda>h. qkv_slot cfg (h div q_per_kv) (h mod q_per_kv) (attn_lin A (x t))));
          k = (\<lambda>t. flat_heads hs (\<lambda>g. qkv_slot cfg g q_per_kv (attn_lin A (x t))));
          v = (\<lambda>t. flat_heads hs (\<lambda>g. qkv_slot cfg g (q_per_kv + 1) (attn_lin A (x t))));
          (q, k, v) = (if sc_attn cfg then (sc_q_conv A q, sc_k_conv A k, sc_v_conv A v) else (q, k, v))
      in rbind (rotate_heads env cfg T rope (split_heads hs q)) (\<lambda>q.
         rbind (rotate_heads env cfg T rope (split_heads hs k)) (\<lambda>k.
           Inr (q, k, split_heads hs v))))"

text \<open>
  Attention of one query over the keys that are allowed, and the window the flash kernel gets:
  at most \<open>left\<close> keys before the query, no limit for \<open>-1\<close>.  A mask has its numbers of rows and columns.
\<close>

type_synonym attn_mask = "(nat \<times> nat) \<times> (nat \<Rightarrow> nat \<Rightarrow> bool)"

definition attend :: "nat \<Rightarrow> real \<Rightarrow> nat \<Rightarrow> (nat \<Rightarrow> bool) \<Rightarrow> vec \<Rightarrow> (nat \<Rightarrow> vec) \<Rightarrow> (nat \<Rightarrow> vec) \<Rightarrow> vec" where
  "attend hs scale n allowed q k v =
     (let score = (\<lambda>j. exp (scale * (\<Sum>d<hs. q d * k j d)));
          keys = {j \<in> {..<n}. allowed j}
      in (\<lambda>d. (\<Sum>j\<in>keys. score j * v j d) / (\<Sum>j\<in>keys. score j)))"

definition window_left :: "gpt_config \<Rightarrow> nat \<Rightarrow> int" where
  "window_left cfg layer_idx =
     (if local_layer cfg layer_idx \<and> local_window cfg > -1 then local_window cfg - 1 else -1)"

definition scaled_dot_product_attention ::
  "gpt_env \<Rightarrow> gpt_config \<Rightarrow> nat \<Rightarrow> attn_mask option \<Rightarrow> nat \<Rightarrow> nat \<Rightarrow> head_rows_t \<Rightarrow> head_rows_t \<Rightarrow> head_rows_t \<Rightarrow> head_rows_t result" where
  "scaled_dot_product_attention env cfg layer_idx am T n q k v =
     (let scale = 1 / sqrt (real (head_size cfg));
          ratio = n_head cfg div n_query_groups cfg;
          left = window_left cfg layer_idx;
          result = (\<lambda>allowed t h. attend (head_size cfg) scale n (allowed t) (q t h) (\<lambda>j. k j (h div ratio)) (\<lambda>j. v j (h div ratio)))
      in case am of
           None \<Rightarrow> Inr (result (\<lambda>t j. j \<le> t \<and> (flash env \<and> 0 \<le> left \<longrightarrow> int t - int j \<le> left)))
         | Some ((rows, cols), m) \<Rightarrow>
             if (rows \<noteq> T \<and> rows \<noteq> 1) \<or> (cols \<noteq> n \<and> cols \<noteq> 1) then Inl RuntimeError
             else Inr (result (\<lambda>t j. m (if rows = 1 then 0 else t) (if cols = 1 then 0 else j))))"

section \<open>The key-value cache\<close>

record kv_cache =
  cache_k :: head_rows_t
  cache_v :: head_rows_t
  cache_len :: nat
  cache_k_dim :: nat

definition roll_cache :: "kv_cache \<Rightarrow> kv_cache" where
  "roll_cache c = c\<lparr>cache_k := (\<lambda>p. cache_k c (if p + 1 = cache_len c then 0 else p + 1)),
                   cache_v := (\<lambda>p. cache_v c (if p + 1 = cache_len c then 0 else p + 1))\<rparr>"

text \<open>\<open>index_copy_\<close> along the positions.\<close>

fun index_copy :: "head_rows_t \<Rightarrow> nat list \<Rightarrow> nat \<Rightarrow> head_rows_t \<Rightarrow> head_rows_t" where
  "index_copy cache [] t rows = cache"
| "index_copy cache (p # ps) t rows = index_copy (cache(p := rows t)) ps (Suc t) rows"

text \<open>\<open>T\<close> new rows go to the positions; at the limit the cache moves up and the last row is replaced.\<close>

definition store_kv :: "gpt_config \<Rightarrow> nat \<Rightarrow> nat \<Rightarrow> nat list \<Rightarrow> kv_cache \<Rightarrow> head_rows_t \<Rightarrow> head_rows_t \<Rightarrow> kv_cache result" where
  "store_kv cfg T max_seq_length input_pos c k v =
     (if input_pos = [] then Inl IndexError
      else let (pos, c) = (if last input_pos \<ge> max_seq_length then ([max_seq_length - 1], roll_cache c) else (input_pos, c))
           in if cache_k_dim c \<noteq> head_size cfg then Inl RuntimeError
              else if length pos \<noteq> T \<or> (\<exists>p \<in> set pos. cache_len c \<le> p) then Inl IndexError
              else Inr (c\<lparr>cache_k := index_copy (cache_k c) pos 0 k, cache_v := index_copy (cache_v c) pos 0 v\<rparr>))"

text \<open>The mask and the positions come together or not at all, with the cache of the layer if it has one.\<close>

type_synonym cache_args = "(attn_mask \<times> nat list \<times> kv_cache option) option"

definition CausalSelfAttention_forward ::
  "gpt_env \<Rightarrow> gpt_config \<Rightarrow> attn_modules \<Rightarrow> nat \<Rightarrow> nat \<Rightarrow> mat \<Rightarrow> (rope_table \<times> rope_table) option \<Rightarrow> nat \<Rightarrow> cache_args \<Rightarrow>
   (mat \<times> kv_cache option) result" where
  "CausalSelfAttention_forward env cfg A layer_idx T x rope max_seq_length cached =
     rbind (project_heads env cfg A T x rope) (\<lambda>(q, k, v).
     rbind (case cached of
              None \<Rightarrow> rbind (scaled_dot_product_attention env cfg layer_idx None T T q k v) (\<lambda>y. Inr (y, None))
            | Some (am, input_pos, None) \<Rightarrow>
                rbind (scaled_dot_product_attention env cfg layer_idx (Some am) T T q k v) (\<lambda>y. Inr (y, None))
            | Some (am, input_pos, Some c) \<Rightarrow>
                rbind (store_kv cfg T max_seq_length input_pos c k v) (\<lambda>c.
                rbind (scaled_dot_product_attention env cfg layer_idx (Some am) T (cache_len c) q (cache_k c) (cache_v c)) (\<lambda>y.
                  Inr (y, Some c)))) (\<lambda>(y, c).
       Inr (\<lambda>t. attn_out A (flat_heads (head_size cfg) (y t)), c)))"

section \<open>Blocks and the model\<close>

record block_modules =
  norm_1 :: "vec \<Rightarrow> vec"
  norm_2 :: "vec \<Rightarrow> vec"
  mlp_fn :: "vec \<Rightarrow> vec"
  self_attn :: attn_modules
  gdn_cfg :: gdn_config
  gdn_mods :: gdn_modules

definition vadd :: "vec \<Rightarrow> vec \<Rightarrow> vec" where
  "vadd x y = (\<lambda>i. x i + y i)"

text \<open>The mask of the model as a tensor: two dimensions of one element before the rows and columns.\<close>

definition mask_tensor_of :: "attn_mask \<Rightarrow> mask_tensor" where
  "mask_tensor_of am = ([1, 1, fst (fst am), snd (fst am)], \<lambda>i. of_bool (snd am (i ! 2) (i ! 3)))"

text \<open>A gated layer is given the mask of the model as its \<open>attention_mask\<close>.  \<open>norm_2\<close> exists only without a shared norm.\<close>

definition Block_forward ::
  "gpt_env \<Rightarrow> gpt_config \<Rightarrow> block_modules \<Rightarrow> nat \<Rightarrow> nat \<Rightarrow> mat \<Rightarrow> (rope_table \<times> rope_table) option \<Rightarrow> nat \<Rightarrow> cache_args \<Rightarrow>
   (mat \<times> kv_cache option) result" where
  "Block_forward env cfg B layer_idx T x rope max_seq_length cached =
     (let n_1 = (\<lambda>t. norm_1 B (x t))
      in rbind (if use_gated_deltanet cfg layer_idx
                then rbind (GatedDeltaNet_call (kernels env) (ht_cast env) (gdn_cfg B) (gdn_mods B) T n_1
                              (map_option (\<lambda>(am, _). mask_tensor_of am) cached)) (\<lambda>h. Inr (h, None))
                else CausalSelfAttention_forward env cfg (self_attn B) layer_idx T n_1 rope max_seq_length cached)
           (\<lambda>(h, new_cache).
              if parallel_residual cfg
              then if \<not> shared_attention_norm cfg then Inl AssertionError
                   else Inr (\<lambda>t. vadd (x t) (if has_mlp cfg then vadd (h t) (mlp_fn B (n_1 t)) else h t), new_cache)
              else if has_mlp cfg \<and> shared_attention_norm cfg then Inl AttributeError
              else let x = (\<lambda>t. vadd (x t) (h t))
                   in Inr (\<lambda>t. if has_mlp cfg then vadd (x t) (mlp_fn B (norm_2 B (x t))) else x t, new_cache)))"

record gpt_modules =
  wte :: "nat \<Rightarrow> vec"
  vocab :: nat
  blocks :: "block_modules list"
  ln_f :: "vec \<Rightarrow> vec"
  lm_head :: "vec \<Rightarrow> vec"

text \<open>
  The attributes a forward pass changes: the number of positions of the rotary table, if it was built,
  whether the mask was built, the caches and \<open>max_len\<close>.
\<close>

record gpt_state =
  rope_len :: "nat option"
  has_mask :: bool
  kv_caches :: "kv_cache option list"
  max_len :: nat

definition GPT_init_state :: "gpt_config \<Rightarrow> gpt_state" where
  "GPT_init_state cfg = \<lparr>rope_len = None, has_mask = False, kv_caches = [], max_len = block_size cfg\<rparr>"

definition reset_cache :: "gpt_config \<Rightarrow> bool \<Rightarrow> gpt_state \<Rightarrow> gpt_state" where
  "reset_cache cfg on_xla s =
     (let s = s\<lparr>max_len := block_size cfg, kv_caches := []\<rparr>
      in if has_mask s \<and> on_xla then s\<lparr>rope_len := None, has_mask := False\<rparr> else s)"

definition build_mask_cache :: "gpt_config \<Rightarrow> attn_mask" where
  "build_mask_cache cfg = ((block_size cfg, block_size cfg), \<lambda>i j. j \<le> i)"

definition build_kv_caches :: "gpt_config \<Rightarrow> nat \<Rightarrow> nat \<Rightarrow> nat option \<Rightarrow> kv_cache option list" where
  "build_kv_caches cfg n_layer max_seq_length rope_cache_length =
     (let kdim = (case rope_cache_length of
                    Some n \<Rightarrow> n + head_size cfg - rotary_n_elem cfg
                  | None \<Rightarrow> head_size cfg)
      in replicate n_layer (Some \<lparr>cache_k = (\<lambda>p g d. 0), cache_v = (\<lambda>p g d. 0), cache_len = max_seq_length, cache_k_dim = kdim\<rparr>))"

text \<open>The table is built for \<open>max_len\<close> positions, and built again when a longer sequence comes later.\<close>

definition ensure_rope :: "gpt_config \<Rightarrow> nat \<Rightarrow> gpt_state \<Rightarrow> gpt_state" where
  "ensure_rope cfg T s =
     (if nope cfg then s
      else case rope_len s of
             None \<Rightarrow> s\<lparr>rope_len := Some (max_len s)\<rparr>
           | Some _ \<Rightarrow> if T > max_len s then s\<lparr>max_len := T, rope_len := Some T\<rparr> else s)"

definition rope_tables :: "gpt_env \<Rightarrow> gpt_config \<Rightarrow> gpt_state \<Rightarrow> (rope_table \<times> rope_table) option" where
  "rope_tables env cfg s =
     (if nope cfg then None
      else map_option (\<lambda>n. build_rope_cache (table_cast env) n (rotary_n_elem cfg) (condense_ratio cfg)) (rope_len s))"

fun run_blocks ::
  "gpt_env \<Rightarrow> gpt_config \<Rightarrow> nat \<Rightarrow> (rope_table \<times> rope_table) option \<Rightarrow> nat \<Rightarrow> nat \<Rightarrow> block_modules list \<Rightarrow> mat \<Rightarrow> mat result" where
  "run_blocks env cfg T rope n i [] x = Inr x"
| "run_blocks env cfg T rope n i (B # Bs) x =
     rbind (Block_forward env cfg B i T x rope n None) (\<lambda>(x, _). run_blocks env cfg T rope n (Suc i) Bs x)"

fun run_cached ::
  "gpt_env \<Rightarrow> gpt_config \<Rightarrow> nat \<Rightarrow> (rope_table \<times> rope_table) option \<Rightarrow> nat \<Rightarrow> attn_mask \<Rightarrow> nat list \<Rightarrow> nat \<Rightarrow> block_modules list \<Rightarrow>
   kv_cache option list \<Rightarrow> mat \<Rightarrow> (mat \<times> kv_cache option list) result" where
  "run_cached env cfg T rope n am pos i [] caches x = Inr (x, caches)"
| "run_cached env cfg T rope n am pos i (B # Bs) caches x =
     (case caches of
        [] \<Rightarrow> Inl IndexError
      | c # cs \<Rightarrow> rbind (Block_forward env cfg B i T x rope n (Some (am, pos, c))) (\<lambda>(x, c').
          rbind (run_cached env cfg T rope n am pos (Suc i) Bs cs x) (\<lambda>(x, cs'). Inr (x, c' # cs'))))"

text \<open>The state of a call that raises is not modelled.\<close>

definition GPT_forward ::
  "gpt_env \<Rightarrow> gpt_config \<Rightarrow> gpt_modules \<Rightarrow> nat list \<Rightarrow> nat option \<Rightarrow> nat list option \<Rightarrow> gpt_state \<Rightarrow> (mat \<times> gpt_state) result" where
  "GPT_forward env cfg M idx max_seq_length input_pos s =
     (let T = length idx; n = (case max_seq_length of Some n \<Rightarrow> n | None \<Rightarrow> block_size cfg)
      in if input_pos \<noteq> None \<and> \<not> T \<le> n then Inl AssertionError
         else let s = ensure_rope cfg T s; tables = rope_tables env cfg s; x = (\<lambda>t. wte M (idx ! t)); head = (\<lambda>x t. lm_head M (ln_f M (x t)))
              in case input_pos of
                   None \<Rightarrow>
                     if \<exists>w \<in> set idx. vocab M \<le> w then Inl IndexError
                     else rbind (run_blocks env cfg T (map_option (map_prod (first_rows T) (first_rows T)) tables) n 0 (blocks M) x)
                            (\<lambda>x. Inr (head x, s))
                 | Some pos \<Rightarrow>
                     let s = s\<lparr>has_mask := True\<rparr>; ((rows, cols), m) = build_mask_cache cfg
                     in if \<exists>p \<in> set pos. rows \<le> p \<or> (\<exists>r \<in> set_option (rope_len s). \<not> nope cfg \<and> r \<le> p) then Inl IndexError
                        else if \<exists>w \<in> set idx. vocab M \<le> w then Inl IndexError
                        else let rope = map_option (map_prod (select_rows pos) (select_rows pos)) tables;
                                 am = ((length pos, min cols n), \<lambda>t. m (pos ! t));
                                 caches = (if kv_caches s \<noteq> [] then kv_caches s
                                           else build_kv_caches cfg (length (blocks M)) n
                                                  (map_option (\<lambda>tabs. snd (fst (fst tabs)) * 2) rope))
                             in rbind (run_cached env cfg T rope n am pos 0 (blocks M) caches x)
                                  (\<lambda>(x, caches). Inr (head x, s\<lparr>kv_caches := caches\<rparr>)))"

section \<open>Attention row by row\<close>

text \<open>
  Without a convolution the queries, keys and values of a token depend on its features and on its row of
  the tables only.
\<close>

definition half_dim_of :: "gpt_config \<Rightarrow> nat" where
  "half_dim_of cfg = (rotary_n_elem cfg + 1) div 2"

definition rope_at :: "(rope_table \<times> rope_table) option \<Rightarrow> nat \<Rightarrow> vec \<times> vec" where
  "rope_at rope t = (case rope of None \<Rightarrow> (\<lambda>d. 0, \<lambda>d. 0) | Some (c, s) \<Rightarrow> (snd c t, snd s t))"

definition rope_ok :: "gpt_config \<Rightarrow> nat \<Rightarrow> (rope_table \<times> rope_table) option \<Rightarrow> bool" where
  "rope_ok cfg T rope \<longleftrightarrow> nope cfg \<or>
     (\<exists>n c s. rope = Some (((n, half_dim_of cfg), c), ((n, half_dim_of cfg), s)) \<and> T \<le> n \<and> 2 * half_dim_of cfg \<le> head_size cfg)"

definition rotate_row :: "gpt_env \<Rightarrow> gpt_config \<Rightarrow> vec \<times> vec \<Rightarrow> vec \<Rightarrow> vec" where
  "rotate_row env cfg rt z =
     (if nope cfg then z else rotated_row (rotate_pair env) (half_dim_of cfg) False False (fst rt) (snd rt) z)"

definition q_row :: "gpt_env \<Rightarrow> gpt_config \<Rightarrow> attn_modules \<Rightarrow> vec \<times> vec \<Rightarrow> vec \<Rightarrow> nat \<Rightarrow> vec" where
  "q_row env cfg A rt x = (\<lambda>h. rotate_row env cfg rt
     (split_heads (head_size cfg) (\<lambda>t. flat_heads (head_size cfg) (\<lambda>h. qkv_slot cfg (h div (n_head cfg div n_query_groups cfg))
        (h mod (n_head cfg div n_query_groups cfg)) (attn_lin A x))) 0 h))"

definition k_row :: "gpt_env \<Rightarrow> gpt_config \<Rightarrow> attn_modules \<Rightarrow> vec \<times> vec \<Rightarrow> vec \<Rightarrow> nat \<Rightarrow> vec" where
  "k_row env cfg A rt x = (\<lambda>g. rotate_row env cfg rt
     (split_heads (head_size cfg) (\<lambda>t. flat_heads (head_size cfg) (\<lambda>g. qkv_slot cfg g (n_head cfg div n_query_groups cfg) (attn_lin A x))) 0 g))"

definition v_row :: "gpt_config \<Rightarrow> attn_modules \<Rightarrow> vec \<Rightarrow> nat \<Rightarrow> vec" where
  "v_row cfg A x = (\<lambda>g.
     split_heads (head_size cfg) (\<lambda>t. flat_heads (head_size cfg) (\<lambda>g. qkv_slot cfg g (n_head cfg div n_query_groups cfg + 1) (attn_lin A x))) 0 g)"

lemma rotate_heads_rows:
  assumes "rope_ok cfg T rope"
  shows "rotate_heads env cfg T rope z = Inr (\<lambda>t h. rotate_row env cfg (rope_at rope t) (z t h))"
  using assms
  by (auto simp: rope_ok_def rotate_heads_def rotate_row_def rope_at_def FusedRotaryEmb_forward_def split: option.splits)

lemma project_rows:
  assumes "\<not> sc_attn cfg" "rope_ok cfg T rope"
  shows "project_heads env cfg A T x rope =
    Inr (\<lambda>t. q_row env cfg A (rope_at rope t) (x t), \<lambda>t. k_row env cfg A (rope_at rope t) (x t), \<lambda>t. v_row cfg A (x t))"
  using assms(1)
  by (simp add: project_heads_def rotate_heads_rows [OF assms(2)] q_row_def k_row_def v_row_def split_heads_def Let_def)

lemma attend_cong:
  assumes "{j \<in> {..<n}. a j} = {j \<in> {..<n'}. b j}" "\<And>j. j < n \<Longrightarrow> a j \<Longrightarrow> k j = k' j \<and> v j = v' j"
  shows "attend hs scale n a q k v = attend hs scale n' b q k' v'"
proof -
  have k: "j \<in> {j \<in> {..<n'}. b j} \<Longrightarrow> k j = k' j \<and> v j = v' j" for j
    using assms(2) [of j] assms(1) by (metis (mono_tags, lifting) lessThan_iff mem_Collect_eq)
  show ?thesis
    unfolding attend_def Let_def assms(1)
    by (intro ext arg_cong2 [of _ _ _ _ "(/)"] sum.cong refl) (auto simp: k)
qed

lemma index_copy_range:
  "index_copy cache [n..<n + T] t rows p = (if n \<le> p \<and> p < n + T then rows (t + (p - n)) else cache p)"
proof (induction T arbitrary: n t cache)
  case 0
  then show ?case by auto
next
  case (Suc T)
  have "[n..<n + Suc T] = n # [Suc n..<Suc n + T]" by (simp add: upt_conv_Cons)
  then have "index_copy cache [n..<n + Suc T] t rows p =
      (if Suc n \<le> p \<and> p < Suc n + T then rows (Suc t + (p - Suc n)) else (cache(n := rows t)) p)"
    by (simp only: index_copy.simps Suc.IH)
  moreover have "Suc t + (p - Suc n) = t + (p - n)" if "Suc n \<le> p" using that by arith
  ultimately show ?case by (cases "p = n") auto
qed

text \<open>The first \<open>n\<close> positions of a cache hold the rows of a sequence \<open>x\<close>.\<close>

definition holds :: "gpt_env \<Rightarrow> gpt_config \<Rightarrow> attn_modules \<Rightarrow> (rope_table \<times> rope_table) option \<Rightarrow> mat \<Rightarrow> nat \<Rightarrow> nat \<Rightarrow> kv_cache \<Rightarrow> bool" where
  "holds env cfg A rope x m n c \<longleftrightarrow> cache_len c = m \<and> cache_k_dim c = head_size cfg \<and>
     (\<forall>p < n. cache_k c p = k_row env cfg A (rope_at rope p) (x p) \<and> cache_v c p = v_row cfg A (x p))"

lemma store_segment:
  assumes c: "holds env cfg A rope x m n c" and T: "0 < T" "n + T \<le> m"
    and k: "\<And>t. t < T \<Longrightarrow> k t = k_row env cfg A (rope_at rope (n + t)) (x (n + t))"
    and v: "\<And>t. t < T \<Longrightarrow> v t = v_row cfg A (x (n + t))"
  obtains c' where "store_kv cfg T m [n..<n + T] c k v = Inr c'" "holds env cfg A rope x m (n + T) c'"
proof -
  let ?c = "c\<lparr>cache_k := index_copy (cache_k c) [n..<n + T] 0 k, cache_v := index_copy (cache_v c) [n..<n + T] 0 v\<rparr>"
  have "last [n..<n + T] < m" using T by simp
  then have s: "store_kv cfg T m [n..<n + T] c k v = Inr ?c"
    using c T by (auto simp: store_kv_def holds_def)
  have "cache_k ?c p = k_row env cfg A (rope_at rope p) (x p) \<and> cache_v ?c p = v_row cfg A (x p)" if "p < n + T" for p
    using c that k [of "p - n"] v [of "p - n"] by (auto simp: index_copy_range holds_def)
  then show ?thesis using c by (intro that [OF s]) (simp add: holds_def)
qed

lemma full_attention:
  assumes "\<not> sc_attn cfg" "rope_ok cfg N rope"
  shows "CausalSelfAttention_forward env cfg A i N x rope m None = Inr (\<lambda>t. attn_out A (flat_heads (head_size cfg) (\<lambda>h.
    attend (head_size cfg) (1 / sqrt (real (head_size cfg))) N
      (\<lambda>j. j \<le> t \<and> (flash env \<and> 0 \<le> window_left cfg i \<longrightarrow> int t - int j \<le> window_left cfg i))
      (q_row env cfg A (rope_at rope t) (x t) h)
      (\<lambda>j. k_row env cfg A (rope_at rope j) (x j) (h div (n_head cfg div n_query_groups cfg)))
      (\<lambda>j. v_row cfg A (x j) (h div (n_head cfg div n_query_groups cfg))))), None)"
  by (simp add: CausalSelfAttention_forward_def project_rows [OF assms] scaled_dot_product_attention_def Let_def)

text \<open>The output at position \<open>t\<close> of a pass that attends to the keys of a set \<open>S\<close>: a softmax over their scaled scores.\<close>

definition attention_over ::
  "gpt_env \<Rightarrow> gpt_config \<Rightarrow> attn_modules \<Rightarrow> (rope_table \<times> rope_table) option \<Rightarrow> mat \<Rightarrow> nat set \<Rightarrow> nat \<Rightarrow> vec" where
  "attention_over env cfg A rope x S t =
     (let r = n_head cfg div n_query_groups cfg;
          w = (\<lambda>h j. exp (1 / sqrt (real (head_size cfg)) *
                (\<Sum>d<head_size cfg. q_row env cfg A (rope_at rope t) (x t) h d * k_row env cfg A (rope_at rope j) (x j) (h div r) d)))
      in attn_out A (flat_heads (head_size cfg) (\<lambda>h d.
           (\<Sum>j\<in>S. w h j * v_row cfg A (x j) (h div r) d) / (\<Sum>j\<in>S. w h j))))"

lemma full_attention_over:
  assumes "\<not> sc_attn cfg" "rope_ok cfg N rope"
  shows "CausalSelfAttention_forward env cfg A i N x rope m None = Inr (\<lambda>t. attention_over env cfg A rope x
    {j \<in> {..<N}. j \<le> t \<and> (flash env \<and> 0 \<le> window_left cfg i \<longrightarrow> int t - int j \<le> window_left cfg i)} t, None)"
  unfolding full_attention [OF assms] attention_over_def attend_def Let_def ..

text \<open>A segment of \<open>T\<close> tokens after \<open>n\<close> cached ones attends to every earlier position, whatever the window.\<close>

lemma cached_attention:
  assumes sc: "\<not> sc_attn cfg"
    and R: "rope_ok cfg T rope'" "\<forall>t < T. rope_at rope' t = rope_at rope (n + t)"
    and x: "\<forall>t < T. x' t = x (n + t)" and T: "0 < T" "n + T \<le> m"
    and c: "holds env cfg A rope x m n c"
    and am: "\<forall>t < T. mm t = (\<lambda>j. j \<le> n + t)"
  obtains h' c' where
    "CausalSelfAttention_forward env cfg A i T x' rope' m (Some (((T, m), mm), [n..<n + T], Some c)) = Inr (h', Some c')"
    "\<forall>t < T. h' t = attention_over env cfg A rope x {..n + t} (n + t)" "holds env cfg A rope x m (n + T) c'"
proof -
  let ?hs = "head_size cfg" and ?r = "n_head cfg div n_query_groups cfg"
  have kv: "t < T \<Longrightarrow> k_row env cfg A (rope_at rope' t) (x' t) = k_row env cfg A (rope_at rope (n + t)) (x (n + t))"
    "t < T \<Longrightarrow> v_row cfg A (x' t) = v_row cfg A (x (n + t))" for t using R(2) x by simp_all
  obtain c' where s: "store_kv cfg T m [n..<n + T] c (\<lambda>t. k_row env cfg A (rope_at rope' t) (x' t)) (\<lambda>t. v_row cfg A (x' t)) = Inr c'"
    and c': "holds env cfg A rope x m (n + T) c'"
    by (rule store_segment [OF c T kv]) assumption+
  let ?allow = "\<lambda>t j. mm (if T = 1 then 0 else t) (if m = 1 then 0 else j)"
  define y where "y = (\<lambda>t. attn_out A (flat_heads ?hs (\<lambda>h. attend ?hs (1 / sqrt (real ?hs)) m (?allow t)
    (q_row env cfg A (rope_at rope' t) (x' t) h) (\<lambda>j. cache_k c' j (h div ?r)) (\<lambda>j. cache_v c' j (h div ?r)))))"
  have cached: "CausalSelfAttention_forward env cfg A i T x' rope' m (Some (((T, m), mm), [n..<n + T], Some c)) = Inr (y, Some c')"
    using c' by (simp add: CausalSelfAttention_forward_def project_rows [OF sc R(1)] s scaled_dot_product_attention_def
        Let_def y_def holds_def)
  have rows: "y t = attention_over env cfg A rope x {..n + t} (n + t)" if t: "t < T" for t
  proof -
    have keys: "{j \<in> {..<m}. ?allow t j} = {..n + t}" using t T by (auto simp: am)
    have "cache_k c' j = k_row env cfg A (rope_at rope j) (x j) \<and> cache_v c' j = v_row cfg A (x j)" if "j \<in> {..n + t}" for j
      using c' that t by (simp add: holds_def)
    then show ?thesis
      unfolding y_def attention_over_def attend_def Let_def keys R(2) [rule_format, OF t] x [rule_format, OF t]
      by (simp cong: sum.cong_simp)
  qed
  show ?thesis by (rule that [OF cached _ c']) (intro allI impI rows)
qed

lemma attention_segment:
  assumes sc: "\<not> sc_attn cfg" and win: "flash env \<longrightarrow> window_left cfg i < 0"
    and R: "rope_ok cfg N rope" "rope_ok cfg T rope'" "\<forall>t < T. rope_at rope' t = rope_at rope (n + t)"
    and x: "\<forall>t < T. x' t = x (n + t)" and T: "0 < T" "n + T \<le> N" "n + T \<le> m"
    and c: "holds env cfg A rope x m n c"
    and am: "\<forall>t < T. mm t = (\<lambda>j. j \<le> n + t)"
  obtains h h' c' where "CausalSelfAttention_forward env cfg A i N x rope l None = Inr (h, None)"
    "CausalSelfAttention_forward env cfg A i T x' rope' m (Some (((T, m), mm), [n..<n + T], Some c)) = Inr (h', Some c')"
    "\<forall>t < T. h' t = h (n + t)" "holds env cfg A rope x m (n + T) c'"
proof -
  obtain h' c' where h': "CausalSelfAttention_forward env cfg A i T x' rope' m (Some (((T, m), mm), [n..<n + T], Some c)) = Inr (h', Some c')"
    "\<forall>t < T. h' t = attention_over env cfg A rope x {..n + t} (n + t)" "holds env cfg A rope x m (n + T) c'"
    by (rule cached_attention [where x' = x' and x = x, OF sc R(2,3) x T(1,3) c am])
  have "{j \<in> {..<N}. j \<le> n + t \<and> (flash env \<and> 0 \<le> window_left cfg i \<longrightarrow> int (n + t) - int j \<le> window_left cfg i)} = {..n + t}"
    if "t < T" for t
    using win that T by auto
  then show ?thesis using h'(2) by (intro that [OF full_attention_over [OF sc R(1)] h'(1) _ h'(3)]) simp
qed

section \<open>Blocks row by row\<close>

definition block_ok :: "gpt_config \<Rightarrow> bool" where
  "block_ok cfg \<longleftrightarrow> (if parallel_residual cfg then shared_attention_norm cfg else \<not> (has_mlp cfg \<and> shared_attention_norm cfg))"

definition block_row :: "gpt_config \<Rightarrow> block_modules \<Rightarrow> vec \<Rightarrow> vec \<Rightarrow> vec" where
  "block_row cfg B x h =
     (if parallel_residual cfg then vadd x (if has_mlp cfg then vadd h (mlp_fn B (norm_1 B x)) else h)
      else if has_mlp cfg then vadd (vadd x h) (mlp_fn B (norm_2 B (vadd x h))) else vadd x h)"

definition normed :: "block_modules \<Rightarrow> mat \<Rightarrow> mat" where
  "normed B x = (\<lambda>t. norm_1 B (x t))"

lemma attention_block:
  assumes "block_ok cfg" "\<not> use_gated_deltanet cfg i"
    and "CausalSelfAttention_forward env cfg (self_attn B) i T (normed B x) rope m cached = Inr (h, c)"
  shows "Block_forward env cfg B i T x rope m cached = Inr (\<lambda>t. block_row cfg B (x t) (h t), c)"
  using assms by (auto simp: Block_forward_def block_ok_def block_row_def normed_def Let_def fun_eq_iff)

lemma gated_block:
  assumes "block_ok cfg" "use_gated_deltanet cfg i"
    and "GatedDeltaNet_forward (kernels env) (ht_cast env) (gdn_cfg B) (gdn_mods B) T (normed B x) None None False = Inr h"
  shows "Block_forward env cfg B i T x rope m None = Inr (\<lambda>t. block_row cfg B (x t) (h t), None)"
  using assms by (auto simp: Block_forward_def GatedDeltaNet_call_def block_ok_def block_row_def normed_def Let_def fun_eq_iff)

lemma gated_block_cached:
  "use_gated_deltanet cfg i \<Longrightarrow> Block_forward env cfg B i T x rope m (Some (am, pos, c)) = Inl RuntimeError"
  by (simp add: Block_forward_def GatedDeltaNet_call_def mask_of_many_dims mask_tensor_of_def Let_def)

text \<open>The caches of all layers hold the first \<open>n\<close> positions of a pass over \<open>N\<close> tokens.\<close>

fun caches_hold ::
  "gpt_env \<Rightarrow> gpt_config \<Rightarrow> (rope_table \<times> rope_table) option \<Rightarrow> nat \<Rightarrow> nat \<Rightarrow> nat \<Rightarrow> nat \<Rightarrow> nat \<Rightarrow> block_modules list \<Rightarrow>
   kv_cache option list \<Rightarrow> mat \<Rightarrow> bool" where
  "caches_hold env cfg rope l N m n i [] cs x \<longleftrightarrow> cs = []"
| "caches_hold env cfg rope l N m n i (B # Bs) cs x \<longleftrightarrow>
     (\<exists>c cs' y. cs = Some c # cs' \<and> holds env cfg (self_attn B) rope (normed B x) m n c \<and>
        Block_forward env cfg B i N x rope l None = Inr (y, None) \<and> caches_hold env cfg rope l N m n (Suc i) Bs cs' y)"

definition attention_layers :: "gpt_env \<Rightarrow> gpt_config \<Rightarrow> nat \<Rightarrow> nat \<Rightarrow> bool" where
  "attention_layers env cfg i k \<longleftrightarrow>
     \<not> sc_attn cfg \<and> block_ok cfg \<and> (\<forall>j. i \<le> j \<and> j < k \<longrightarrow> \<not> use_gated_deltanet cfg j \<and> (flash env \<longrightarrow> window_left cfg j < 0))"

lemma empty_caches_hold:
  assumes "attention_layers env cfg i (i + length Bs)" "rope_ok cfg N rope"
  shows "caches_hold env cfg rope l N m 0 i Bs
    (replicate (length Bs) (Some \<lparr>cache_k = (\<lambda>p g d. 0), cache_v = (\<lambda>p g d. 0), cache_len = m, cache_k_dim = head_size cfg\<rparr>)) x"
  using assms(1)
proof (induction Bs arbitrary: i x)
  case Nil
  then show ?case by simp
next
  case (Cons B Bs)
  then have a: "\<not> sc_attn cfg" "block_ok cfg" "\<not> use_gated_deltanet cfg i" "attention_layers env cfg (Suc i) (Suc i + length Bs)"
    by (auto simp: attention_layers_def)
  show ?case
    using attention_block [OF a(2,3) full_attention [OF a(1) assms(2)]] Cons.IH [OF a(4)]
    by (fastforce simp: holds_def)
qed

lemma run_segment:
  assumes L: "attention_layers env cfg i (i + length Bs)"
    and R: "rope_ok cfg N rope" "rope_ok cfg T rope'" "\<forall>t < T. rope_at rope' t = rope_at rope (n + t)"
    and x: "\<forall>t < T. x' t = x (n + t)" and T: "0 < T" "n + T \<le> N" "n + T \<le> m"
    and c: "caches_hold env cfg rope l N m n i Bs cs x"
    and am: "\<forall>t < T. mm t = (\<lambda>j. j \<le> n + t)"
  shows "\<exists>y y' cs'. run_blocks env cfg N rope l i Bs x = Inr y \<and>
    run_cached env cfg T rope' m ((T, m), mm) [n..<n + T] i Bs cs x' = Inr (y', cs') \<and>
    (\<forall>t < T. y' t = y (n + t)) \<and> caches_hold env cfg rope l N m (n + T) i Bs cs' x"
  using L x c
proof (induction Bs arbitrary: i cs x x')
  case Nil
  then show ?case by auto
next
  case (Cons B Bs)
  then have a: "\<not> sc_attn cfg" "block_ok cfg" "\<not> use_gated_deltanet cfg i" "flash env \<longrightarrow> window_left cfg i < 0"
    and L': "attention_layers env cfg (Suc i) (Suc i + length Bs)" by (auto simp: attention_layers_def)
  obtain c cs1 y where cs: "cs = Some c # cs1" and c: "holds env cfg (self_attn B) rope (normed B x) m n c"
    and y: "Block_forward env cfg B i N x rope l None = Inr (y, None)"
    and rest: "caches_hold env cfg rope l N m n (Suc i) Bs cs1 y"
    using Cons.prems(3) by auto
  have xn: "\<forall>t < T. normed B x' t = normed B x (n + t)" using Cons.prems(2) by (simp add: normed_def)
  obtain h h' c' where h: "CausalSelfAttention_forward env cfg (self_attn B) i N (normed B x) rope l None = Inr (h, None)"
    "CausalSelfAttention_forward env cfg (self_attn B) i T (normed B x') rope' m (Some (((T, m), mm), [n..<n + T], Some c)) = Inr (h', Some c')"
    "\<forall>t < T. h' t = h (n + t)" "holds env cfg (self_attn B) rope (normed B x) m (n + T) c'"
    by (rule attention_segment [where x' = "normed B x'" and x = "normed B x" and l = l, OF a(1,4) R xn T c am]) assumption+
  have y_eq: "y = (\<lambda>t. block_row cfg B (x t) (h t))" using attention_block [OF a(2,3) h(1)] y by simp
  note cached = attention_block [OF a(2,3) h(2)]
  let ?y' = "\<lambda>t. block_row cfg B (x' t) (h' t)"
  have yn: "\<forall>t < T. ?y' t = y (n + t)" using h(3) Cons.prems(2) by (simp add: y_eq)
  obtain z z' cs' where z: "run_blocks env cfg N rope l (Suc i) Bs y = Inr z"
    "run_cached env cfg T rope' m ((T, m), mm) [n..<n + T] (Suc i) Bs cs1 ?y' = Inr (z', cs')"
    "\<forall>t < T. z' t = z (n + t)" "caches_hold env cfg rope l N m (n + T) (Suc i) Bs cs' y"
    using Cons.IH [OF L' yn rest] by blast
  show ?case using z h(4) y cached by (auto simp: cs)
qed

section \<open>Decoding with the cache\<close>

text \<open>The state between calls: the table, when it was built, has at least \<open>max_len\<close> positions.\<close>

definition state_ok :: "gpt_config \<Rightarrow> gpt_state \<Rightarrow> bool" where
  "state_ok cfg s \<longleftrightarrow> block_size cfg \<le> max_len s \<and> (\<forall>r. rope_len s = Some r \<longrightarrow> max_len s \<le> r)"

definition rotary_ok :: "gpt_config \<Rightarrow> bool" where
  "rotary_ok cfg \<longleftrightarrow> nope cfg \<or> (even (rotary_n_elem cfg) \<and> rotary_n_elem cfg \<le> head_size cfg)"

lemma init_state_ok: "state_ok cfg (GPT_init_state cfg)"
  by (simp add: state_ok_def GPT_init_state_def)

lemma reset_state_ok: "state_ok cfg s \<Longrightarrow> state_ok cfg (reset_cache cfg on_xla s)"
  by (auto simp: state_ok_def reset_cache_def Let_def)

lemma ensure_rope_ok:
  assumes "state_ok cfg s"
  shows "state_ok cfg (ensure_rope cfg T s)"
    and "kv_caches (ensure_rope cfg T s) = kv_caches s"
    and "nope cfg \<or> (\<exists>r. rope_len (ensure_rope cfg T s) = Some r \<and> block_size cfg \<le> r)"
  using assms by (auto simp: state_ok_def ensure_rope_def split: option.splits)

lemma forward_state_ok:
  assumes "state_ok cfg s" "GPT_forward env cfg M idx n pos s = Inr (y, s')"
  shows "state_ok cfg s'"
proof -
  have k: "state_ok cfg (s\<lparr>has_mask := b, kv_caches := cs\<rparr>) = state_ok cfg s" "state_ok cfg (s\<lparr>kv_caches := cs\<rparr>) = state_ok cfg s"
    "state_ok cfg (s\<lparr>has_mask := b\<rparr>) = state_ok cfg s" for b cs s
    by (simp_all add: state_ok_def)
  show ?thesis
    using assms ensure_rope_ok(1) [OF assms(1), of "length idx"]
    by (auto simp: GPT_forward_def Let_def rbind_eq_Inr k split: if_splits option.splits prod.splits)
qed

definition table_row_at :: "gpt_env \<Rightarrow> gpt_config \<Rightarrow> nat \<Rightarrow> vec \<times> vec" where
  "table_row_at env cfg t =
     (if nope cfg then (\<lambda>d. 0, \<lambda>d. 0)
      else rope_at (Some (build_rope_cache (table_cast env) 0 (rotary_n_elem cfg) (condense_ratio cfg))) t)"

lemma full_rope:
  assumes "state_ok cfg s" "rotary_ok cfg" "N \<le> block_size cfg"
  shows "rope_ok cfg N (map_option (map_prod (first_rows N) (first_rows N)) (rope_tables env cfg (ensure_rope cfg N s)))"
    and "rope_at (map_option (map_prod (first_rows N) (first_rows N)) (rope_tables env cfg (ensure_rope cfg N s))) t = table_row_at env cfg t"
  using ensure_rope_ok(3) [OF assms(1), of N] assms(2,3)
  by (auto simp: rope_ok_def rope_tables_def rotary_ok_def rope_at_def table_row_at_def build_rope_cache_def first_rows_def
      half_dim_of_def Let_def)

lemma selected_rope:
  assumes "state_ok cfg s" "rotary_ok cfg"
  shows "rope_ok cfg (length pos) (map_option (map_prod (select_rows pos) (select_rows pos)) (rope_tables env cfg (ensure_rope cfg T s)))"
    and "rope_at (map_option (map_prod (select_rows pos) (select_rows pos)) (rope_tables env cfg (ensure_rope cfg T s))) t
      = table_row_at env cfg (pos ! t)"
  using ensure_rope_ok(3) [OF assms(1), of T] assms(2)
  by (auto simp: rope_ok_def rope_tables_def rotary_ok_def rope_at_def table_row_at_def build_rope_cache_def select_rows_def
      half_dim_of_def Let_def)

text \<open>The caches a call with positions works on.\<close>

definition caches_of :: "gpt_config \<Rightarrow> gpt_modules \<Rightarrow> nat \<Rightarrow> gpt_state \<Rightarrow> kv_cache option list" where
  "caches_of cfg M m s =
     (if kv_caches s \<noteq> [] then kv_caches s
      else replicate (length (blocks M)) (Some \<lparr>cache_k = (\<lambda>p g d. 0), cache_v = (\<lambda>p g d. 0), cache_len = m, cache_k_dim = head_size cfg\<rparr>))"

lemma built_caches:
  assumes "state_ok cfg s" "rotary_ok cfg"
  shows "(if kv_caches s \<noteq> [] then kv_caches s
      else build_kv_caches cfg (length (blocks M)) m
        (map_option (\<lambda>tabs. snd (fst (fst tabs)) * 2)
          (map_option (map_prod (select_rows pos) (select_rows pos)) (rope_tables env cfg (ensure_rope cfg T s))))) = caches_of cfg M m s"
  using ensure_rope_ok(3) [OF assms(1), of T] assms(2)
  by (auto simp: caches_of_def build_kv_caches_def rope_tables_def rotary_ok_def build_rope_cache_def select_rows_def Let_def)

text \<open>The segments of a sequence one after another, each at the positions that follow.\<close>

fun decode_segments ::
  "gpt_env \<Rightarrow> gpt_config \<Rightarrow> gpt_modules \<Rightarrow> nat \<Rightarrow> nat \<Rightarrow> nat list list \<Rightarrow> gpt_state \<Rightarrow> (vec list \<times> gpt_state) result" where
  "decode_segments env cfg M m n [] s = Inr ([], s)"
| "decode_segments env cfg M m n (seg # segs) s =
     rbind (GPT_forward env cfg M seg (Some m) (Some [n..<n + length seg]) s) (\<lambda>(y, s).
     rbind (decode_segments env cfg M m (n + length seg) segs s) (\<lambda>(ys, s). Inr (map y [0..<length seg] @ ys, s)))"

text \<open>A model of attention layers that use no convolution and no window.\<close>

definition attention_model :: "gpt_env \<Rightarrow> gpt_config \<Rightarrow> gpt_modules \<Rightarrow> bool" where
  "attention_model env cfg M \<longleftrightarrow> attention_layers env cfg 0 (length (blocks M)) \<and> rotary_ok cfg"

lemma forward_segment:
  assumes M: "attention_model env cfg M" and s: "state_ok cfg s"
    and R: "rope_ok cfg N rope" "\<forall>t. rope_at rope t = table_row_at env cfg t"
    and c: "caches_hold env cfg rope l N m n 0 (blocks M) (caches_of cfg M m s) (\<lambda>t. wte M (W ! t))"
    and T: "seg \<noteq> []" "n + length seg \<le> N" "N \<le> m" "m \<le> block_size cfg"
    and seg: "\<forall>t < length seg. seg ! t = W ! (n + t)" and vocab: "\<forall>w \<in> set seg. w < vocab M"
    and z: "run_blocks env cfg N rope l 0 (blocks M) (\<lambda>t. wte M (W ! t)) = Inr z"
  shows "\<exists>y s'. GPT_forward env cfg M seg (Some m) (Some [n..<n + length seg]) s = Inr (y, s') \<and>
    (\<forall>t < length seg. y t = lm_head M (ln_f M (z (n + t)))) \<and> state_ok cfg s' \<and>
    caches_hold env cfg rope l N m (n + length seg) 0 (blocks M) (caches_of cfg M m s') (\<lambda>t. wte M (W ! t))"
proof -
  let ?T = "length seg" and ?pos = "[n..<n + length seg]" and ?s = "ensure_rope cfg (length seg) s"
  let ?rope = "map_option (map_prod (select_rows ?pos) (select_rows ?pos)) (rope_tables env cfg ?s)"
  have L: "attention_layers env cfg 0 (0 + length (blocks M))" "rotary_ok cfg" using M by (simp_all add: attention_model_def)
  have rope': "rope_ok cfg ?T ?rope" "\<forall>t < ?T. rope_at ?rope t = rope_at rope (n + t)"
    using selected_rope [OF s L(2), of ?pos env ?T] R(2) by simp_all
  have x: "\<forall>t < ?T. wte M (seg ! t) = wte M (W ! (n + t))" using seg by simp
  have mm: "\<forall>t < ?T. (\<lambda>t j. j \<le> ?pos ! t) t = (\<lambda>j. j \<le> n + t)" by simp
  have Tm: "0 < ?T" "n + ?T \<le> m" using T by simp_all
  obtain y' cs' where run: "run_cached env cfg ?T ?rope m ((?T, m), \<lambda>t j. j \<le> ?pos ! t) ?pos 0 (blocks M) (caches_of cfg M m s)
      (\<lambda>t. wte M (seg ! t)) = Inr (y', cs')"
    and y': "\<forall>t < ?T. y' t = z (n + t)" and cs': "caches_hold env cfg rope l N m (n + ?T) 0 (blocks M) cs' (\<lambda>t. wte M (W ! t))"
    using run_segment [OF L(1) R(1) rope' x Tm(1) T(2) Tm(2) c mm] z by auto
  have pos: "\<not> (\<exists>p \<in> set ?pos. block_size cfg \<le> p \<or> (\<exists>r \<in> set_option (rope_len ?s). \<not> nope cfg \<and> r \<le> p))"
    using ensure_rope_ok(3) [OF s, of ?T] T by auto
  have built: "(if kv_caches ?s \<noteq> [] then kv_caches ?s else build_kv_caches cfg (length (blocks M)) m
      (map_option (\<lambda>tabs. snd (fst (fst tabs)) * 2) ?rope)) = caches_of cfg M m s"
    using built_caches [OF s L(2), of M m ?pos env ?T] by (simp only: ensure_rope_ok(2) [OF s])
  have "GPT_forward env cfg M seg (Some m) (Some ?pos) s = Inr (\<lambda>t. lm_head M (ln_f M (y' t)), ?s\<lparr>has_mask := True, kv_caches := cs'\<rparr>)"
    using T pos vocab run built
    by (cases "kv_caches ?s = []") (simp_all add: GPT_forward_def build_mask_cache_def Let_def not_le min_absorb2)
  moreover have "caches_of cfg M m (?s\<lparr>has_mask := True, kv_caches := cs'\<rparr>) = cs'"
    using cs' by (cases "blocks M") (auto simp: caches_of_def)
  moreover have "state_ok cfg (?s\<lparr>has_mask := True, kv_caches := cs'\<rparr>)"
    using ensure_rope_ok(1) [OF s, of ?T] by (simp add: state_ok_def)
  ultimately show ?thesis using y' cs' by auto
qed

lemma decode_rest:
  assumes M: "attention_model env cfg M" and R: "rope_ok cfg N rope" "\<forall>t. rope_at rope t = table_row_at env cfg t"
    and z: "run_blocks env cfg N rope l 0 (blocks M) (\<lambda>t. wte M (W ! t)) = Inr z"
    and m: "N \<le> m" "m \<le> block_size cfg" and N: "N = length W" and vocab: "\<forall>w \<in> set W. w < vocab M"
    and s: "state_ok cfg s" and c: "caches_hold env cfg rope l N m n 0 (blocks M) (caches_of cfg M m s) (\<lambda>t. wte M (W ! t))"
    and W: "drop n W = concat segs" "n \<le> N" and segs: "\<forall>seg \<in> set segs. seg \<noteq> []"
  shows "\<exists>s'. decode_segments env cfg M m n segs s = Inr (map (\<lambda>t. lm_head M (ln_f M (z t))) [n..<N], s')"
  using s c W segs
proof (induction segs arbitrary: n s)
  case Nil
  then show ?case by (simp add: N)
next
  case (Cons seg segs)
  have W': "W = take n W @ seg @ concat segs" using Cons.prems(3) by (metis append_take_drop_id concat.simps(2))
  have "length (drop n W) = length seg + length (concat segs)" using Cons.prems(3) by simp
  then have len: "n + length seg \<le> N" "length (take n W) = n" using Cons.prems(4) N by simp_all
  have seg: "\<forall>t < length seg. seg ! t = W ! (n + t)"
  proof (intro allI impI)
    fix t assume "t < length seg"
    then have "seg ! t = drop n W ! t" using Cons.prems(3) by (simp add: nth_append)
    then show "seg ! t = W ! (n + t)" using Cons.prems(4) N by simp
  qed
  have vs: "\<forall>w \<in> set seg. w < vocab M" using vocab W' by (metis Un_iff set_append)
  have rest: "drop (n + length seg) W = concat segs"
    using Cons.prems(3) by (metis append_eq_conv_conj concat.simps(2) drop_drop add.commute)
  obtain y s' where y: "GPT_forward env cfg M seg (Some m) (Some [n..<n + length seg]) s = Inr (y, s')"
    "\<forall>t < length seg. y t = lm_head M (ln_f M (z (n + t)))" "state_ok cfg s'"
    "caches_hold env cfg rope l N m (n + length seg) 0 (blocks M) (caches_of cfg M m s') (\<lambda>t. wte M (W ! t))"
    using forward_segment [OF M Cons.prems(1) R Cons.prems(2) _ len(1) m seg vs z] Cons.prems(5) by auto
  obtain s'' where d: "decode_segments env cfg M m (n + length seg) segs s' = Inr (map (\<lambda>t. lm_head M (ln_f M (z t))) [n + length seg..<N], s'')"
    using Cons.IH [OF y(3,4) rest len(1)] Cons.prems(5) by auto
  have "map y [0..<length seg] = map (\<lambda>t. lm_head M (ln_f M (z t))) [n..<n + length seg]"
    using y(2) by (intro nth_equalityI) auto
  moreover have "[n..<N] = [n..<n + length seg] @ [n + length seg..<N]" 
    using len(1) upt_add_eq_append [of n "n + length seg" "N - (n + length seg)"] by simp
  ultimately show ?case using y(1) d by simp
qed

section \<open>Causality\<close>

definition causal_seq :: "(mat \<Rightarrow> mat) \<Rightarrow> bool" where
  "causal_seq f \<longleftrightarrow> (\<forall>x y t. (\<forall>s \<le> t. x s = y s) \<longrightarrow> f x t = f y t)"

text \<open>What a layer needs: convolutions that look back only, and for a gated layer head sizes its kernels take.\<close>

definition causal_layer :: "gpt_env \<Rightarrow> gpt_config \<Rightarrow> nat \<Rightarrow> nat \<Rightarrow> block_modules \<Rightarrow> bool" where
  "causal_layer env cfg N i B =
     (if use_gated_deltanet cfg i
      then N \<noteq> 1 \<and> exact_casts (kernels env) \<and> pow2_spec (kernels env) \<and> plain_layer (gdn_cfg B) \<and>
        next_pow2 (kernels env) (key_dim (gdn_cfg B) div num_heads (gdn_cfg B)) \<le> 256 \<and> causal_modules (gdn_cfg B) (gdn_mods B)
      else sc_attn cfg \<longrightarrow> causal_seq (sc_q_conv (self_attn B)) \<and> causal_seq (sc_k_conv (self_attn B)) \<and> causal_seq (sc_v_conv (self_attn B)))"

fun causal_layers :: "gpt_env \<Rightarrow> gpt_config \<Rightarrow> nat \<Rightarrow> nat \<Rightarrow> block_modules list \<Rightarrow> bool" where
  "causal_layers env cfg N i [] = True"
| "causal_layers env cfg N i (B # Bs) = (causal_layer env cfg N i B \<and> causal_layers env cfg N (Suc i) Bs)"

lemma causal_seqD: "causal_seq f \<Longrightarrow> \<forall>s \<le> t. x s = y s \<Longrightarrow> s \<le> t \<Longrightarrow> f x s = f y s"
  by (simp add: causal_seq_def)

lemma project_causal:
  assumes R: "rope_ok cfg N rope" and xy: "\<forall>s \<le> t. x s = y s"
    and C: "sc_attn cfg \<longrightarrow> causal_seq (sc_q_conv A) \<and> causal_seq (sc_k_conv A) \<and> causal_seq (sc_v_conv A)"
  obtains q k v q' k' v' where "project_heads env cfg A N x rope = Inr (q, k, v)" "project_heads env cfg A N y rope = Inr (q', k', v')"
    "\<forall>s \<le> t. q s = q' s \<and> k s = k' s \<and> v s = v' s"
proof -
  let ?hs = "head_size cfg" and ?g = "n_head cfg div n_query_groups cfg"
  let ?q = "\<lambda>x t. flat_heads ?hs (\<lambda>h. qkv_slot cfg (h div ?g) (h mod ?g) (attn_lin A (x t)))"
    and ?k = "\<lambda>x t. flat_heads ?hs (\<lambda>h. qkv_slot cfg h ?g (attn_lin A (x t)))"
    and ?v = "\<lambda>x t. flat_heads ?hs (\<lambda>h. qkv_slot cfg h (?g + 1) (attn_lin A (x t)))"
  let ?c = "\<lambda>f z. if sc_attn cfg then f z else z"
  let ?r = "\<lambda>z t h. rotate_row env cfg (rope_at rope t) (split_heads ?hs z t h)"
  have P: "project_heads env cfg A N x rope =
      Inr (?r (?c (sc_q_conv A) (?q x)), ?r (?c (sc_k_conv A) (?k x)), split_heads ?hs (?c (sc_v_conv A) (?v x)))" for x
    by (cases "sc_attn cfg") (simp_all add: project_heads_def rotate_heads_rows [OF R] Let_def)
  have base: "\<forall>s \<le> t. ?q x s = ?q y s" "\<forall>s \<le> t. ?k x s = ?k y s" "\<forall>s \<le> t. ?v x s = ?v y s" using xy by simp_all
  have conv: "?c (sc_q_conv A) (?q x) s = ?c (sc_q_conv A) (?q y) s \<and> ?c (sc_k_conv A) (?k x) s = ?c (sc_k_conv A) (?k y) s \<and>
      ?c (sc_v_conv A) (?v x) s = ?c (sc_v_conv A) (?v y) s" if "s \<le> t" for s
  proof (cases "sc_attn cfg")
    case True
    then show ?thesis
      using C causal_seqD [OF _ base(1) that] causal_seqD [OF _ base(2) that] causal_seqD [OF _ base(3) that] by (simp only: if_True)
  next
    case False
    then show ?thesis using base that by (simp only: if_False)
  qed
  show ?thesis
  proof (rule that [OF P P], intro allI impI)
    fix s assume s: "s \<le> t"
    note c = conv [OF s]
    have heads: "split_heads ?hs z s = split_heads ?hs z' s" if "z s = z' s" for z z' using that by (simp add: split_heads_def)
    have r: "?r z s = ?r z' s" if "z s = z' s" for z z'
      using that by (simp add: split_heads_def)
    show "?r (?c (sc_q_conv A) (?q x)) s = ?r (?c (sc_q_conv A) (?q y)) s \<and> ?r (?c (sc_k_conv A) (?k x)) s = ?r (?c (sc_k_conv A) (?k y)) s \<and>
        split_heads ?hs (?c (sc_v_conv A) (?v x)) s = split_heads ?hs (?c (sc_v_conv A) (?v y)) s"
      by (intro conjI r heads) (use c in \<open>simp only:\<close>)+
  qed
qed

lemma attention_causal:
  assumes R: "rope_ok cfg N rope" and xy: "\<forall>s \<le> t. x s = y s"
    and C: "sc_attn cfg \<longrightarrow> causal_seq (sc_q_conv A) \<and> causal_seq (sc_k_conv A) \<and> causal_seq (sc_v_conv A)"
  obtains h h' where "CausalSelfAttention_forward env cfg A i N x rope m None = Inr (h, None)"
    "CausalSelfAttention_forward env cfg A i N y rope m None = Inr (h', None)" "\<forall>s \<le> t. h s = h' s"
proof -
  obtain q k v q' k' v' where p: "project_heads env cfg A N x rope = Inr (q, k, v)" "project_heads env cfg A N y rope = Inr (q', k', v')"
    and eq: "\<forall>s \<le> t. q s = q' s \<and> k s = k' s \<and> v s = v' s"
    by (rule project_causal [OF R xy C])
  let ?hs = "head_size cfg" and ?r = "n_head cfg div n_query_groups cfg"
  let ?h = "\<lambda>q k v s. attn_out A (flat_heads ?hs (\<lambda>h. attend ?hs (1 / sqrt (real ?hs)) N
      (\<lambda>j. j \<le> s \<and> (flash env \<and> 0 \<le> window_left cfg i \<longrightarrow> int s - int j \<le> window_left cfg i))
      (q s h) (\<lambda>j. k j (h div ?r)) (\<lambda>j. v j (h div ?r))))"
  have "CausalSelfAttention_forward env cfg A i N x rope m None = Inr (?h q k v, None)"
    "CausalSelfAttention_forward env cfg A i N y rope m None = Inr (?h q' k' v', None)"
    by (simp_all add: CausalSelfAttention_forward_def p scaled_dot_product_attention_def Let_def)
  moreover have "?h q k v s = ?h q' k' v' s" if s: "s \<le> t" for s
  proof -
    have qs: "q s = q' s" using eq s by simp
    show ?thesis unfolding qs
      by (intro arg_cong [of _ _ "attn_out A"] arg_cong2 [of _ _ _ _ flat_heads] refl ext fun_cong [OF attend_cong [OF refl]])
        (use eq s in auto)
  qed
  ultimately show ?thesis using that by blast
qed

lemma block_causal:
  assumes B: "block_ok cfg" "causal_layer env cfg N i B" and R: "rope_ok cfg N rope"
    and xy: "\<forall>s \<le> t. x s = y s" and t: "t < N"
  obtains z z' where "Block_forward env cfg B i N x rope m None = Inr (z, None)"
    "Block_forward env cfg B i N y rope m None = Inr (z', None)" "\<forall>s \<le> t. z s = z' s"
proof -
  have n: "\<forall>s \<le> t. normed B x s = normed B y s" using xy by (simp add: normed_def)
  show ?thesis
  proof (cases "use_gated_deltanet cfg i")
    case True
    then have c: "exact_casts (kernels env)" "pow2_spec (kernels env)" "plain_layer (gdn_cfg B)" "N \<noteq> 1"
      "next_pow2 (kernels env) (key_dim (gdn_cfg B) div num_heads (gdn_cfg B)) \<le> 256" "causal_modules (gdn_cfg B) (gdn_mods B)"
      using B(2) by (simp_all add: causal_layer_def)
    have "\<exists>o1 o2. GatedDeltaNet_forward (kernels env) (ht_cast env) (gdn_cfg B) (gdn_mods B) N (normed B x) None None False = Inr o1 \<and>
        GatedDeltaNet_forward (kernels env) (ht_cast env) (gdn_cfg B) (gdn_mods B) N (normed B y) None None False = Inr o2 \<and> o1 s = o2 s"
      if "s \<le> t" for s
      by (rule plain_layer_causal [OF c(1-6)]) (use n that t in auto)
    then obtain o1 o2 where o: "GatedDeltaNet_forward (kernels env) (ht_cast env) (gdn_cfg B) (gdn_mods B) N (normed B x) None None False = Inr o1"
        "GatedDeltaNet_forward (kernels env) (ht_cast env) (gdn_cfg B) (gdn_mods B) N (normed B y) None None False = Inr o2"
        "\<forall>s \<le> t. o1 s = o2 s"
      by (metis sum.inject(2) le_refl)
    show ?thesis
      by (rule that [OF gated_block [OF B(1) True o(1)] gated_block [OF B(1) True o(2)]]) (use o(3) xy in simp)
  next
    case False
    with B(2) have C: "sc_attn cfg \<longrightarrow> causal_seq (sc_q_conv (self_attn B)) \<and> causal_seq (sc_k_conv (self_attn B)) \<and> causal_seq (sc_v_conv (self_attn B))"
      by (simp add: causal_layer_def)
    obtain h h' where h: "CausalSelfAttention_forward env cfg (self_attn B) i N (normed B x) rope m None = Inr (h, None)"
      "CausalSelfAttention_forward env cfg (self_attn B) i N (normed B y) rope m None = Inr (h', None)" "\<forall>s \<le> t. h s = h' s"
      by (rule attention_causal [OF R n C])
    show ?thesis
      by (rule that [OF attention_block [OF B(1) False h(1)] attention_block [OF B(1) False h(2)]]) (use h(3) xy in simp)
  qed
qed

lemma run_causal:
  assumes "block_ok cfg" "causal_layers env cfg N i Bs" "rope_ok cfg N rope" "\<forall>s \<le> t. x s = y s" "t < N"
  shows "\<exists>z z'. run_blocks env cfg N rope m i Bs x = Inr z \<and> run_blocks env cfg N rope m i Bs y = Inr z' \<and> (\<forall>s \<le> t. z s = z' s)"
  using assms(2,4)
proof (induction Bs arbitrary: i x y)
  case Nil
  then show ?case by simp
next
  case (Cons B Bs)
  then have c: "causal_layer env cfg N i B" "causal_layers env cfg N (Suc i) Bs" by simp_all
  obtain z z' where z: "Block_forward env cfg B i N x rope m None = Inr (z, None)"
    "Block_forward env cfg B i N y rope m None = Inr (z', None)" "\<forall>s \<le> t. z s = z' s"
    by (rule block_causal [OF assms(1) c(1) assms(3) Cons.prems(2) assms(5)])
  show ?case using Cons.IH [OF c(2) z(3)] z(1,2) by simp
qed

section \<open>Properties\<close>

lemma full_forward:
  assumes "state_ok cfg s" "rotary_ok cfg" "length idx \<le> block_size cfg" "\<forall>w \<in> set idx. w < vocab M"
  obtains rope where "rope_ok cfg (length idx) rope" "\<forall>t. rope_at rope t = table_row_at env cfg t"
    "GPT_forward env cfg M idx None None s = rbind (run_blocks env cfg (length idx) rope (block_size cfg) 0 (blocks M) (\<lambda>t. wte M (idx ! t)))
       (\<lambda>x. Inr (\<lambda>t. lm_head M (ln_f M (x t)), ensure_rope cfg (length idx) s))"
proof -
  have "\<not> (\<exists>w \<in> set idx. vocab M \<le> w)" using assms(4) by auto
  then show ?thesis
    by (intro that [OF full_rope(1) [OF assms(1-3)] allI [OF full_rope(2) [OF assms(1-3)]]])
      (simp add: GPT_forward_def Let_def)
qed

lemma attention_runs:
  assumes "attention_layers env cfg i (i + length Bs)" "rope_ok cfg N rope"
  shows "\<exists>z. run_blocks env cfg N rope l i Bs x = Inr z"
  using assms(1)
proof (induction Bs arbitrary: i x)
  case Nil
  then show ?case by simp
next
  case (Cons B Bs)
  then have a: "\<not> sc_attn cfg" "block_ok cfg" "\<not> use_gated_deltanet cfg i" "attention_layers env cfg (Suc i) (Suc i + length Bs)"
    by (auto simp: attention_layers_def)
  show ?case
    using attention_block [OF a(2,3) full_attention [OF a(1) assms(2)]] Cons.IH [OF a(4)] by simp
qed

text \<open>C5: Decoding with the key-value cache computes what the full forward pass computes.  The model is a stack of
  attention layers with any grouping of heads, without gated layers, without short convolutions (\<open>sc_attn\<close>
  is false) and without a window that the flash kernel applies; its block options do not raise; and it has no
  rotary embedding or one of an even number of elements, at most the head size.  From any state with empty
  caches, \<open>max_len\<close> at least \<open>block_size\<close> and a rotary table that, if built, has at least \<open>max_len\<close> positions (the initial state is one,
  and calls and resets keep this), feeding a text of known tokens in any nonempty segments at consecutive positions
  returns the logits of the full pass over the whole text, provided that the text fits the maximal length \<open>m\<close>
  given to the calls and \<open>m\<close> is at most \<open>block_size\<close>.\<close>

theorem cached_decoding_matches_forward:
  assumes M: "attention_model env cfg M" and s: "state_ok cfg s" "kv_caches s = []"
    and m: "length (concat segs) \<le> m" "m \<le> block_size cfg"
    and segs: "\<forall>seg \<in> set segs. seg \<noteq> []" and vocab: "\<forall>w \<in> set (concat segs). w < vocab M"
  shows "\<exists>y s1 s2. GPT_forward env cfg M (concat segs) None None s = Inr (y, s1) \<and>
    decode_segments env cfg M m 0 segs s = Inr (map y [0..<length (concat segs)], s2)"
proof -
  let ?W = "concat segs" and ?N = "length (concat segs)"
  have L: "attention_layers env cfg 0 (0 + length (blocks M))" "rotary_ok cfg" using M by (simp_all add: attention_model_def)
  obtain rope where R: "rope_ok cfg ?N rope" "\<forall>t. rope_at rope t = table_row_at env cfg t"
    and F: "GPT_forward env cfg M ?W None None s = rbind (run_blocks env cfg ?N rope (block_size cfg) 0 (blocks M) (\<lambda>t. wte M (?W ! t)))
       (\<lambda>x. Inr (\<lambda>t. lm_head M (ln_f M (x t)), ensure_rope cfg ?N s))"
    by (rule full_forward [OF s(1) L(2) le_trans [OF m] vocab])
  obtain z where z: "run_blocks env cfg ?N rope (block_size cfg) 0 (blocks M) (\<lambda>t. wte M (?W ! t)) = Inr z"
    using attention_runs [OF L(1) R(1)] by blast
  have c: "caches_hold env cfg rope (block_size cfg) ?N m 0 0 (blocks M) (caches_of cfg M m s) (\<lambda>t. wte M (?W ! t))"
    using empty_caches_hold [OF L(1) R(1)] s(2) by (simp add: caches_of_def)
  show ?thesis
    using decode_rest [OF M R z m refl vocab s(1) c _ _ segs] F z by simp
qed

definition toy_env :: gpt_env where
  "toy_env = \<lparr>kernels = example_env, ht_cast = (\<lambda>x. x), table_cast = (\<lambda>x. x),
     rotate_pair = (\<lambda>x y c s conj. if conj then (x * c + y * s, y * c - x * s) else (x * c - y * s, x * s + y * c)), flash = True\<rparr>"

definition toy_gpt :: gpt_config where
  "toy_gpt = \<lparr>block_size = 8, n_head = 2, n_query_groups = 1, head_size = 2, rotary_n_elem = 2, condense_ratio = 1,
     parallel_residual = False, shared_attention_norm = False, has_mlp = True, local_window = -1, full_per_layer = 1,
     gated_delta_per_layer = -1, nope = False, sc_attn = False\<rparr>"

definition toy_block :: block_modules where
  "toy_block = \<lparr>norm_1 = (\<lambda>x. x), norm_2 = (\<lambda>x. x), mlp_fn = (\<lambda>x. x),
     self_attn = \<lparr>attn_lin = (\<lambda>x. x), attn_out = (\<lambda>x. x), sc_q_conv = (\<lambda>x. x), sc_k_conv = (\<lambda>x. x), sc_v_conv = (\<lambda>x. x)\<rparr>,
     gdn_cfg = toy_config, gdn_mods = toy_modules\<rparr>"

definition toy_gpt_modules :: gpt_modules where
  "toy_gpt_modules = \<lparr>wte = (\<lambda>w d. real w), vocab = 10, blocks = [toy_block, toy_block], ln_f = (\<lambda>x. x), lm_head = (\<lambda>x. x)\<rparr>"

lemma toy_attention_model: "attention_model toy_env toy_gpt toy_gpt_modules"
  by (auto simp: attention_model_def attention_layers_def block_ok_def use_gated_deltanet_def window_left_def rotary_ok_def toy_gpt_def)

theorem cached_decoding_matches_forward_witness:
  "\<exists>y s1 s2. GPT_forward toy_env toy_gpt toy_gpt_modules [3, 1, 4, 1] None None (GPT_init_state toy_gpt) = Inr (y, s1) \<and>
    decode_segments toy_env toy_gpt toy_gpt_modules 6 0 [[3, 1], [4], [1]] (GPT_init_state toy_gpt) = Inr (map y [0..<4], s2)"
proof -
  have "kv_caches (GPT_init_state toy_gpt) = []" by (simp add: GPT_init_state_def)
  moreover have "block_size toy_gpt = 8" "vocab toy_gpt_modules = 10" by (simp_all add: toy_gpt_def toy_gpt_modules_def)
  ultimately show ?thesis
    using cached_decoding_matches_forward [OF toy_attention_model init_state_ok, of "[[3, 1], [4], [1]]" 6]
    by (simp add: upt_conv_Cons del: decode_segments.simps)
qed

text \<open>C6: The whole model is causal.  For a stack of gated delta layers and attention layers in any order,
  windows and convolutions included, two texts of the same length that agree up to a token get
  the same logits up to that token.\<close>

theorem model_is_causal:
  assumes L: "causal_layers env cfg (length idx) 0 (blocks M)" "block_ok cfg" "rotary_ok cfg"
    and s: "state_ok cfg s" and len: "length idx' = length idx" "length idx \<le> block_size cfg"
    and vocab: "\<forall>w \<in> set idx \<union> set idx'. w < vocab M"
    and same: "take (Suc t) idx = take (Suc t) idx'" and t: "t < length idx"
  shows "\<exists>y y' s1 s2. GPT_forward env cfg M idx None None s = Inr (y, s1) \<and> GPT_forward env cfg M idx' None None s = Inr (y', s2) \<and>
    (\<forall>r \<le> t. y r = y' r)"
proof -
  have len': "length idx' \<le> block_size cfg" using len by simp
  have v: "\<forall>w \<in> set idx. w < vocab M" "\<forall>w \<in> set idx'. w < vocab M" using vocab by simp_all
  have "\<not> (\<exists>w \<in> set idx. vocab M \<le> w)" "\<not> (\<exists>w \<in> set idx'. vocab M \<le> w)" using v by auto
  then have F: "GPT_forward env cfg M i None None s = rbind (run_blocks env cfg (length idx)
      (map_option (map_prod (first_rows (length idx)) (first_rows (length idx))) (rope_tables env cfg (ensure_rope cfg (length idx) s)))
      (block_size cfg) 0 (blocks M) (\<lambda>t. wte M (i ! t)))
    (\<lambda>x. Inr (\<lambda>t. lm_head M (ln_f M (x t)), ensure_rope cfg (length idx) s))" if "i = idx \<or> i = idx'" for i
    using that len(1) by (auto simp: GPT_forward_def Let_def)
  have x: "\<forall>r \<le> t. wte M (idx ! r) = wte M (idx' ! r)"
    using same by (metis le_imp_less_Suc nth_take)
  show ?thesis
    using run_causal [OF L(2,1) full_rope(1) [OF s L(3) len(2)] x t, of env "block_size cfg"] F [of idx] F [of idx'] by auto
qed

definition hybrid_gpt :: gpt_config where
  "hybrid_gpt = toy_gpt\<lparr>gated_delta_per_layer := 2, local_window := 2, full_per_layer := 4\<rparr>"

theorem model_is_causal_witness:
  "\<exists>y y' s1 s2. GPT_forward toy_env hybrid_gpt toy_gpt_modules [3, 1, 4, 1] None None (GPT_init_state hybrid_gpt) = Inr (y, s1) \<and>
    GPT_forward toy_env hybrid_gpt toy_gpt_modules [3, 1, 5, 9] None None (GPT_init_state hybrid_gpt) = Inr (y', s2) \<and> (\<forall>r \<le> 1. y r = y' r)"
  by (rule model_is_causal [OF _ _ _ init_state_ok])
    (simp_all add: causal_layer_def use_gated_deltanet_def toy_plain toy_causal toy_block_def toy_gpt_modules_def toy_env_def hybrid_gpt_def
      toy_gpt_def block_ok_def rotary_ok_def, simp add: toy_config_def example_env_def)

text \<open>The calls with positions that nothing but the layers can refuse: the segment is not longer than the limit, and the positions
  and tokens are in range.\<close>

definition valid_decode_call :: "gpt_config \<Rightarrow> gpt_modules \<Rightarrow> nat list \<Rightarrow> nat option \<Rightarrow> nat list \<Rightarrow> gpt_state \<Rightarrow> bool" where
  "valid_decode_call cfg M idx max_seq_length pos s \<longleftrightarrow>
     length idx \<le> (case max_seq_length of Some n \<Rightarrow> n | None \<Rightarrow> block_size cfg) \<and>
     (\<forall>p \<in> set pos. p < block_size cfg \<and> (\<not> nope cfg \<longrightarrow> (\<forall>r. rope_len (ensure_rope cfg (length idx) s) = Some r \<longrightarrow> p < r))) \<and>
     (\<forall>w \<in> set idx. w < vocab M)"

text \<open>C7: A model with gated layers cannot decode.  If the model has gated delta layers, a call with
  positions (the mode with a cache) never returns, whatever the state and the modules: the model gives the first layer
  its causal mask of four dimensions as the padding mask, which cannot multiply the values in
  place.  If the segment fits the limit and positions and tokens are in range, the exception is a \<open>RuntimeError\<close> (assuming that
  the external convolutions, which are given the mask before, raise no other class).\<close>

theorem gated_model_cannot_decode:
  assumes "0 < gated_delta_per_layer cfg" "blocks M \<noteq> []"
  shows "\<not> returns (GPT_forward env cfg M idx max_seq_length (Some pos) s) \<and>
    (valid_decode_call cfg M idx max_seq_length pos s \<longrightarrow> GPT_forward env cfg M idx max_seq_length (Some pos) s = Inl RuntimeError)"
proof -
  obtain B Bs where B: "blocks M = B # Bs" using assms(2) by (cases "blocks M") auto
  have g: "use_gated_deltanet cfg 0" using assms(1) by (simp add: use_gated_deltanet_def)
  have run: "run_cached env cfg T rope n am pos 0 (B # Bs) cs x = Inl RuntimeError" if "cs \<noteq> []" for T rope n am cs x
    using that by (cases cs) (simp_all add: gated_block_cached [OF g])
  have "\<not> returns (GPT_forward env cfg M idx max_seq_length (Some pos) s)"
    by (auto simp: returns_iff GPT_forward_def Let_def B run build_kv_caches_def build_mask_cache_def
        simp del: run_cached.simps split: if_splits)
  moreover have "GPT_forward env cfg M idx max_seq_length (Some pos) s = Inl RuntimeError"
    if "valid_decode_call cfg M idx max_seq_length pos s"
  proof -
    have v: "\<not> (\<exists>w \<in> set idx. vocab M \<le> w)"
      "\<not> (\<exists>p \<in> set pos. block_size cfg \<le> p \<or> (\<exists>r \<in> set_option (rope_len (ensure_rope cfg (length idx) s)). \<not> nope cfg \<and> r \<le> p))"
      "length idx \<le> (case max_seq_length of Some n \<Rightarrow> n | None \<Rightarrow> block_size cfg)"
      using that by (auto simp: valid_decode_call_def not_le)
    show ?thesis
      using v by (auto simp: GPT_forward_def Let_def B run build_kv_caches_def build_mask_cache_def simp del: run_cached.simps)
  qed
  ultimately show ?thesis by blast
qed

theorem gated_model_cannot_decode_witness:
  "GPT_forward toy_env hybrid_gpt toy_gpt_modules [3, 1] None (Some [0, 1]) (GPT_init_state hybrid_gpt) = Inl RuntimeError"
proof -
  have "valid_decode_call hybrid_gpt toy_gpt_modules [3, 1] None [0, 1] (GPT_init_state hybrid_gpt)"
    by (simp add: valid_decode_call_def hybrid_gpt_def toy_gpt_def toy_gpt_modules_def GPT_init_state_def ensure_rope_def)
  moreover have "0 < gated_delta_per_layer hybrid_gpt" "blocks toy_gpt_modules \<noteq> []" by (simp_all add: hybrid_gpt_def toy_gpt_modules_def)
  ultimately show ?thesis using gated_model_cannot_decode by blast
qed

definition window_gpt :: gpt_config where
  "window_gpt = \<lparr>block_size = 2, n_head = 1, n_query_groups = 1, head_size = 1, rotary_n_elem = 0, condense_ratio = 1,
     parallel_residual = False, shared_attention_norm = False, has_mlp = False, local_window = 1, full_per_layer = 2,
     gated_delta_per_layer = -1, nope = True, sc_attn = False\<rparr>"

text \<open>C8: The cache ignores the window.  In a layer with a local window of \<open>w > 0\<close> tokens, without
  convolution and with the flash kernel, the full forward pass over \<open>N\<close> tokens returns at every position the softmax
  attention over the last \<open>w\<close> positions up to it.  Decoding \<open>T\<close> of these tokens as a segment after \<open>n\<close> cached
  positions, with the same rows of the rotary tables and a cache that holds the first \<open>n\<close> positions and has room for the
  segment, returns the softmax attention over all positions up to each, and leaves a cache that
  holds the segment too: the path with a mask does not look at the window.\<close>

theorem window_ignored_with_cache:
  assumes layer: "\<not> sc_attn cfg" "flash env" "local_layer cfg i" "local_window cfg = int w" "0 < w"
    and R: "rope_ok cfg N rope" "rope_ok cfg T rope'" "\<forall>t < T. rope_at rope' t = rope_at rope (n + t)"
    and x: "\<forall>t < T. x' t = x (n + t)" and T: "0 < T" "n + T \<le> N" "n + T \<le> m"
    and c: "holds env cfg A rope x m n c"
  shows "\<exists>h h' c'. CausalSelfAttention_forward env cfg A i N x rope l None = Inr (h, None) \<and>
    CausalSelfAttention_forward env cfg A i T x' rope' m (Some (((T, m), \<lambda>t j. j \<le> n + t), [n..<n + T], Some c)) = Inr (h', Some c') \<and>
    (\<forall>t < T. h (n + t) = attention_over env cfg A rope x {j. j \<le> n + t \<and> n + t < j + w} (n + t) \<and>
       h' t = attention_over env cfg A rope x {..n + t} (n + t)) \<and>
    holds env cfg A rope x m (n + T) c'"
proof -
  have am: "\<forall>t < T. (\<lambda>t j. j \<le> n + t) t = (\<lambda>j. j \<le> n + t)" by simp
  obtain h' c' where h': "CausalSelfAttention_forward env cfg A i T x' rope' m (Some (((T, m), \<lambda>t j. j \<le> n + t), [n..<n + T], Some c)) = Inr (h', Some c')"
    "\<forall>t < T. h' t = attention_over env cfg A rope x {..n + t} (n + t)" "holds env cfg A rope x m (n + T) c'"
    by (rule cached_attention [where x' = x' and x = x, OF layer(1) R(2,3) x T(1,3) c am])
  have left: "window_left cfg i = int w - 1" using layer(3,4) by (simp add: window_left_def)
  have keys: "{j \<in> {..<N}. j \<le> n + t \<and> (flash env \<and> 0 \<le> window_left cfg i \<longrightarrow> int (n + t) - int j \<le> window_left cfg i)}
      = {j. j \<le> n + t \<and> n + t < j + w}" if "t < T" for t
    using that T(2) layer(2,5) by (auto simp: left)
  show ?thesis
    by (intro exI conjI, rule full_attention_over [OF layer(1) R(1)], rule h'(1), use h'(2) keys in simp, rule h'(3))
qed

lemma window_of_one: "{j. j \<le> Suc 0 \<and> Suc 0 < j + 1} = {Suc 0}"
  by auto

text \<open>On two tokens with a window of one, the second outputs differ.\<close>

theorem window_ignored_with_cache_witness:
  "\<exists>h h' c'. CausalSelfAttention_forward toy_env window_gpt (self_attn toy_block) 0 2 (\<lambda>t d. real t) None 2 None = Inr (h, None) \<and>
    CausalSelfAttention_forward toy_env window_gpt (self_attn toy_block) 0 2 (\<lambda>t d. real t) None 2
      (Some (((2, 2), \<lambda>t j. j \<le> t), [0, 1], Some \<lparr>cache_k = (\<lambda>p g d. 0), cache_v = (\<lambda>p g d. 0), cache_len = 2, cache_k_dim = 1\<rparr>)) = Inr (h', Some c') \<and>
    h 1 0 = 1 \<and> h' 1 0 = exp 1 / (1 + exp 1) \<and> h 1 0 \<noteq> h' 1 0"
proof -
  let ?c = "\<lparr>cache_k = (\<lambda>p g d. 0), cache_v = (\<lambda>p g d. 0), cache_len = 2, cache_k_dim = 1\<rparr> :: kv_cache"
  let ?A = "self_attn toy_block" and ?x = "\<lambda>t d. real t"
  have ok: "\<not> sc_attn window_gpt" "flash toy_env" "local_layer window_gpt 0" "local_window window_gpt = int 1" "rope_ok window_gpt 2 None"
    "holds toy_env window_gpt ?A None ?x 2 0 ?c"
    by (simp_all add: window_gpt_def toy_env_def local_layer_def rope_ok_def holds_def)
  obtain h h' c' where h: "CausalSelfAttention_forward toy_env window_gpt ?A 0 2 ?x None 2 None = Inr (h, None)"
    "CausalSelfAttention_forward toy_env window_gpt ?A 0 2 ?x None 2 (Some (((2, 2), \<lambda>t j. j \<le> t), [0, 1], Some ?c)) = Inr (h', Some c')"
    "h 1 = attention_over toy_env window_gpt ?A None ?x {j. j \<le> Suc 0 \<and> Suc 0 < j + 1} (Suc 0)"
    "h' 1 = attention_over toy_env window_gpt ?A None ?x {..Suc 0} (Suc 0)"
    using window_ignored_with_cache [where n = 0 and T = 2 and x = ?x and x' = ?x and l = 2, OF ok(1-4) _ ok(5) ok(5) _ _ _ _ _ ok(6)]
    by (auto simp: upt_conv_Cons)
  note unfold = attention_over_def window_gpt_def toy_block_def toy_env_def q_row_def k_row_def v_row_def rotate_row_def split_heads_def
    flat_heads_def qkv_slot_def Let_def
  have "h 1 0 = 1" unfolding h(3) window_of_one by (simp add: unfold)
  moreover have "h' 1 0 = exp 1 / (1 + exp 1)" unfolding h(4) by (simp add: unfold atMost_Suc add.commute)
  moreover have "exp 1 / (1 + exp 1) \<noteq> (1 :: real)" using exp_gt_zero [of "1 :: real"] by (simp add: field_simps)
  ultimately show ?thesis using h(1,2) by auto
qed

end
