(* ===== verification/Spec2Isabelle.thy ===== *)
theory Spec2Isabelle
  imports ChunkBack Bf16Product StateCache FileQueue Fixtures RollingWindows Rotary PowerEval Pretrain CrossEntropy GptModel
begin

text \<open>
  A verification development of the GatedDeltaNet repository: the Triton kernels and PyTorch
  references of the gated delta rule, the layers around them, and the Python tools that move
  requests, recurrent state, fixtures and measurements between a GPU host and an FPGA accelerator.

  \<^bold>\<open>How the program is put together.\<close>  \<open>lit_gpt/gated_delta_rule_ops/chunk.py\<close> and
  \<open>wy_fast.py\<close> are the attention kernel the model layer calls; \<open>fla_version/\<close> holds a second
  implementation for packed sequences of different lengths.  \<open>lit_gpt/rotary.py\<close> rotates queries
  and keys, \<open>gated_delta_net.py\<close> is the layer around the kernels, \<open>model.py\<close> the transformer that stacks it with
  attention layers, \<open>packed_dataset.py\<close> the token files
  and \<open>pretrain.py\<close> the training program, with the loss of \<open>fused_cross_entropy.py\<close>.
  \<open>scripts/export_gdn_c.py\<close>, \<open>compare_gdn_c.py\<close>, \<open>score_wikitext_fixture_gpu.py\<close> and
  \<open>prepare_steady_decode_fixture.py\<close> write and read the binary fixtures, \<open>export_gdn_state.py\<close> and
  \<open>fpga_eval_client.py\<close> the recurrent state and the requests of the file queue,
  \<open>gdn_native_bf16_product.py\<close> replaces dense projections by a kernel with the accelerator's
  arithmetic, \<open>sample_device_power.py\<close> and \<open>aggregate_power_eval.py\<close> measure energy.

  \<^bold>\<open>Theories.\<close>
    \<^item> \<open>Prelude\<close>, \<open>PyBytes\<close>, \<open>PyStrings\<close>: errors as values (\<open>result\<close>, \<open>rbind\<close>, \<open>rfold\<close>), in-place broadcasting, Python's
      \<open>struct\<close> packing over lists of bytes with its range errors, slices and string predicates.
    \<^item> \<open>Tiles\<close>: blocks of a matrix as Triton sees them: masked loads and stores (\<open>ld\<close>, \<open>st\<close>), \<open>dot\<close>,
      \<open>for_loop\<close>, \<open>cdiv\<close>, and the lemmas that a loop over column blocks covers a row.
    \<^item> \<open>DeltaRule\<close>: the two references of \<open>chunk.py\<close> and the algebra that connects them: the states of
      the recurrence, forward substitution (locale \<open>wy_solver\<close>), the WY form of a chunk.
    \<^item> \<open>WYKernels\<close>, \<open>ChunkKernels\<close>: the kernels of \<open>wy_fast.py\<close> and \<open>chunk.py\<close>, their launches, the
      forward function and the entry point, down to the padding.
    \<^item> \<open>FlaWY\<close>, \<open>FlaChunk\<close>: the packed variants of \<open>wy_fast_fla.py\<close> and \<open>chunk_fla.py\<close>: chunk tables,
      the two-by-two block inversion, the state kernel as a simulation of the padded one, the output
      kernel, and the checks of the entry point.
    \<^item> \<open>Adjoint\<close>, \<open>FlaBackWY\<close>, \<open>FlaBack\<close>, \<open>FlaGradient\<close>: the backward pass of the packed variant.  \<open>Adjoint\<close>
      differentiates the chunk form of the recurrence over the reals; the next two hold the kernels,
      launches and what each computes; the last composes them and shows that the returned gradients
      are the derivative of what the forward pass returns.
    \<^item> \<open>WYBack\<close>, \<open>ChunkBack\<close>: the backward pass of \<open>wy_fast.py\<close> and \<open>chunk.py\<close>.  \<open>WYBack\<close> shows that the
      recurrence over the rows of the matrix gradient is the transposed solve; \<open>ChunkBack\<close> that the
      fixed-length kernels compute the tiles of the packed ones (\<open>du_kernel_eq\<close>, \<open>bwd_dhu_kernel_eq\<close>,
      \<open>dqkw_kernel_eq\<close>), up to what key blocks that exceed the head dimension pair in the next chunk
      (\<open>dqkw_spill\<close>), and so that the backward function returns the derivative of the forward one exactly when
      there is no such excess, and by how much the decay gradient is off otherwise.
    \<^item> \<open>GatedLayer\<close>: the layer of \<open>gated_delta_net.py\<close> over the kernels of \<open>ChunkKernels\<close>: what it computes,
      that it is causal, and the calls it cannot serve.
    \<^item> \<open>GptModel\<close>: the transformer of \<open>model.py\<close> over these layers and over attention layers, with rotary
      tables, masks and key-value caches: cached decoding against the full pass, causality of the stack, and
      the two things decoding gets wrong: local windows and gated layers.
    \<^item> \<open>PackedDataset\<close>, \<open>Pretrain\<close>: the packed token files, from the builder to the iterator and the
      shards, and the training program over them: schedule, accumulation, checkpoints, resumption.
    \<^item> \<open>CrossEntropy\<close>: the tensor parallel cross entropy against the loss of the whole vocabulary, and
      the chunked loss of \<open>utils.py\<close>.
    \<^item> \<open>Rotary\<close>: kernel, launch, torch reference, autograd function and table cache.
    \<^item> \<open>RequestProtocol\<close>, \<open>FileQueue\<close>: the \<open>GDNEVQ1\<close> codec and the client, over a file system given by
      its operations with a crash semantics.
    \<^item> \<open>StateCache\<close>: rounding, checking and writing the recurrent state.
    \<^item> \<open>Fixtures\<close>, \<open>RollingWindows\<close>: fixture writers, readers, the golden rewrite, the scorer.
    \<^item> \<open>Bf16Product\<close>: the product kernel against its reference, and the installation of the patches.
    \<^item> \<open>PowerEval\<close>: sampling, loading, windowing and integrating a power trace.

  \<^bold>\<open>Conventions.\<close>  A tensor is the \<open>(batch, head)\<close> slice the program works on, a function from
  indices; launches run their programs in one order, and the lemmas show that the programs write
  disjoint elements, so that any order gives the same memory.  Uninitialised memory is a parameter
  (\<open>uninit\<close>), so nothing can be proved about an element no program wrote.  The kernels compute over
  the reals: casts are functions of the environment, and a theorem that needs them exact says so
  (\<open>exact_casts\<close>).  Triton's \<open>next_power_of_2\<close>, the \<open>fla\<close> helpers, FP32 and BF16 arithmetic, the
  tokenizer, the language models, trained parameters and \<open>fla\<close> modules (\<open>gdn_modules\<close>), numpy's element
  codecs and generators (\<open>numpy\<close>, \<open>corpus\<close>), model, loss gradient and optimizer of a training run
  (\<open>learner\<close>), the CUDA cross entropy (\<open>xent_lib\<close>), the clock and the meters are parameters with documented behaviour as
  named hypotheses (\<open>pow2_spec\<close>, \<open>safe_exp_spec\<close>, \<open>cumsum_spec\<close>, \<open>revcumsum_spec\<close>); each has a concrete instance in a
  witness.

  \<^bold>\<open>What the lemmas show.\<close>  The kernel theories end in statements that the entry points compute the
  token-by-token recurrence, sequence by sequence, whatever the tiling, padding and packing; that the
  blocked solve is the plain one and inverts the chunk's system; what recomputation returns; and that
  the backward pass is the derivative of the forward pass.  The
  codec theories show round trips in both directions, so that a decoder accepts exactly what an encoder
  writes.  The queue theory shows that a crash leaves the old or the new file and that a request is
  published last.  The layer and training theories show that a layer is the recurrence on what its projections produce,
  that the transformer is causal and decodes with its caches what the full pass computes,
  that every token written to a packed file is read once per pass, in order or permuted, by exactly one
  reader, that a run resumed from a checkpoint continues as if it had not stopped, and that the
  loss split over ranks is the loss of the whole vocabulary.  The measurement theory shows that energies add up over windows and what the totals
  and percentiles are.

  \<^bold>\<open>Bounds.\<close>  The polling loop takes its number of rounds from the deadline, the rolling loop is a
  partial function shown to return for positive lengths and to diverge otherwise, and so is the loop
  that fills a packed file; every other loop is a bounded recursion.

  \<^bold>\<open>Not modelled.\<close>  \<open>rmsnorm.py\<close> (wrappers of an external CUDA extension), the speed monitor, the tokenizer
  wrapper and the checkpoint and quantization helpers of \<open>utils.py\<close>; process launch, logging and timing
  of the training program; the Mamba branch and the weight initialisation of \<open>model.py\<close>; the export of weights; the drivers of
  benchmarks and evaluations (processes, datasets, devices), and the checks of generated hardware
  artifacts.  What these hold is input and output, or calls of libraries outside the repository.
\<close>

end
